(* ===== verification/Prelude.thy ===== *)
theory Prelude
  imports Main "HOL-Library.Word"
begin

text \<open>
  Shared vocabulary of the development: the machine integer types of the Rust sources, the
  result type that carries the errors of the code (an \<open>eyre\<close> report or a panic), the slice
  operations of the Rust standard library that several components use (\<open>chunks_exact\<close>,
  \<open>chunks\<close>, \<open>rotate_left\<close>, \<open>rotate_right\<close>), and the generic facts about them that the
  component theories rest on.
\<close>

unbundle bit_operations_syntax

section \<open>Machine integers\<close>

type_synonym u8 = "8 word"
type_synonym u16 = "16 word"
type_synonym u32 = "32 word"
type_synonym u64 = "64 word"
type_synonym u128 = "128 word"

lemma unat_ucast_less:
  "unat x < 2 ^ LENGTH('b) \<Longrightarrow> unat (ucast (x :: 'a::len word) :: 'b::len word) = unat x"
  by (simp only: unsigned_ucast_eq take_bit_nat_eq_self)

lemma unat_ucast_up:
  "LENGTH('a) \<le> LENGTH('b) \<Longrightarrow> unat (ucast (x :: 'a::len word) :: 'b::len word) = unat x"
  by (rule unat_ucast_less) (meson less_le_trans one_le_numeral power_increasing unsigned_less)

section \<open>Errors as values\<close>

text \<open>
  \<open>Eyre msg\<close> is an \<open>Err\<close> returned to the caller (the \<open>eyre\<close> crate's report), \<open>Panic msg\<close> a
  failed assertion, an \<open>expect\<close> or an index out of range; \<open>Diverges\<close> is a computation that does not
  return, where a loop modelled by a partial function is part of a fallible one.
\<close>

datatype error = Eyre string | Panic string | Diverges

type_synonym 'a result = "error + 'a"

fun rbind :: "'a result \<Rightarrow> ('a \<Rightarrow> 'b result) \<Rightarrow> 'b result" where
  "rbind (Inl e) f = Inl e"
| "rbind (Inr x) f = f x"

lemma rbind_eq_Inr [simp]: "rbind r f = Inr y \<longleftrightarrow> (\<exists>x. r = Inr x \<and> f x = Inr y)"
  by (cases r) auto

lemma rbind_case: "rbind r f = (case r of Inl e \<Rightarrow> Inl e | Inr x \<Rightarrow> f x)"
  by (cases r) simp_all

lemma rbind_assoc: "rbind (rbind r f) g = rbind r (\<lambda>x. rbind (f x) g)"
  by (cases r) auto

text \<open>A fallible loop body over a list, collecting results or threading an accumulator.\<close>

fun rmap :: "('a \<Rightarrow> 'b result) \<Rightarrow> 'a list \<Rightarrow> 'b list result" where
  "rmap f [] = Inr []"
| "rmap f (x # xs) = rbind (f x) (\<lambda>y. rbind (rmap f xs) (\<lambda>ys. Inr (y # ys)))"

fun rfold :: "('a \<Rightarrow> 'b \<Rightarrow> 'b result) \<Rightarrow> 'a list \<Rightarrow> 'b \<Rightarrow> 'b result" where
  "rfold f [] acc = Inr acc"
| "rfold f (x # xs) acc = rbind (f x acc) (rfold f xs)"

lemma rmap_Inr: "(\<And>x. x \<in> set xs \<Longrightarrow> f x = Inr (g x)) \<Longrightarrow> rmap f xs = Inr (map g xs)"
  by (induction xs) simp_all

lemma rmap_map: "rmap f (map g xs) = rmap (\<lambda>x. f (g x)) xs"
  by (induction xs) simp_all

definition index_out_of_bounds :: "'a result" where
  "index_out_of_bounds = Inl (Panic ''index out of bounds'')"

definition vec_index :: "'a list \<Rightarrow> nat \<Rightarrow> 'a result" where
  "vec_index xs i = (if i < length xs then Inr (xs ! i) else index_out_of_bounds)"

section \<open>Collections of rewrite rules\<close>

named_theorems galois_simps \<open>evaluation of Galois ring operations on coefficient quadruples\<close>
named_theorems share_simps \<open>evaluation of the share operations, component by component\<close>
named_theorems net_simps \<open>evaluation of party programs and of the network\<close>

section \<open>Slices\<close>

function chunks_exact :: "nat \<Rightarrow> 'a list \<Rightarrow> 'a list list" where
  "chunks_exact n xs =
     (if n = 0 \<or> length xs < n then [] else take n xs # chunks_exact n (drop n xs))"
  by pat_completeness auto
termination
  by (relation "measure (\<lambda>(n, xs). length xs)") auto

declare chunks_exact.simps [simp del]

function chunks :: "nat \<Rightarrow> 'a list \<Rightarrow> 'a list list" where
  "chunks n xs = (if n = 0 \<or> xs = [] then [] else take n xs # chunks n (drop n xs))"
  by pat_completeness auto
termination
  by (relation "measure (\<lambda>(n, xs). length xs)") auto

declare chunks.simps [simp del]

lemma length_chunks_exact [simp]: "length (chunks_exact n xs) = length xs div n"
proof (induction n xs rule: chunks_exact.induct)
  case (1 n xs)
  show ?case
  proof (cases "n = 0 \<or> length xs < n")
    case True
    then show ?thesis by (auto simp: chunks_exact.simps [of n xs])
  next
    case False
    with "1.IH" have "length (chunks_exact n (drop n xs)) = (length xs - n) div n" by simp
    with False show ?thesis
      by (simp add: chunks_exact.simps [of n xs] le_div_geq)
  qed
qed

lemma nth_chunks_exact:
  "i < length xs div n \<Longrightarrow> chunks_exact n xs ! i = take n (drop (i * n) xs)"
proof (induction n xs arbitrary: i rule: chunks_exact.induct)
  case (1 n xs)
  show ?case
  proof (cases "n = 0 \<or> length xs < n")
    case True
    with "1.prems" show ?thesis by auto
  next
    case False
    show ?thesis
    proof (cases i)
      case 0
      with False show ?thesis by (simp add: chunks_exact.simps [of n xs])
    next
      case (Suc k)
      with "1.prems" False have "k < length (drop n xs) div n"
        by (simp add: le_div_geq)
      with "1.IH" False have "chunks_exact n (drop n xs) ! k = take n (drop (k * n) (drop n xs))"
        by simp
      with False Suc show ?thesis by (simp add: chunks_exact.simps [of n xs] add.commute)
    qed
  qed
qed

lemma length_nth_chunks_exact:
  "i < length xs div n \<Longrightarrow> length (chunks_exact n xs ! i) = n"
  by (cases "n = 0")
    (auto simp: nth_chunks_exact less_eq_div_iff_mult_less_eq min_def
      dest!: Suc_leI)

lemma chunks_exact_concat:
  "0 < n \<Longrightarrow> (\<And>x. x \<in> set xss \<Longrightarrow> length x = n) \<Longrightarrow> chunks_exact n (concat xss) = xss"
  by (induction xss) (simp_all add: chunks_exact.simps [of n "[]"] chunks_exact.simps [of n "_ @ _"])

lemma concat_chunks_exact:
  "n dvd length xs \<Longrightarrow> 0 < n \<Longrightarrow> concat (chunks_exact n xs) = xs"
proof (induction n xs rule: chunks_exact.induct)
  case (1 n xs)
  show ?case
  proof (cases "length xs < n")
    case True
    with "1.prems" have "xs = []" by (auto dest: dvd_imp_le)
    with True "1.prems" show ?thesis by (simp add: chunks_exact.simps [of n "[]"])
  next
    case False
    with "1.prems" "1.IH" have "concat (chunks_exact n (drop n xs)) = drop n xs"
      by (simp add: dvd_diff_nat)
    with False "1.prems" show ?thesis by (simp add: chunks_exact.simps [of n xs])
  qed
qed

lemma chunks_concat: "0 < k \<Longrightarrow> \<forall>row \<in> set rows. length row = k \<Longrightarrow> chunks k (concat rows) = rows"
proof (induction rows)
  case (Cons row rows)
  then have "row \<noteq> []" by auto
  with Cons show ?case by (simp add: chunks.simps [of k "_ @ _"])
qed (simp add: chunks.simps)

lemma chunks_blocks:
  assumes "length xs = n * k" "0 < k"
  shows "chunks k xs = map (\<lambda>i. take k (drop (i * k) xs)) [0..<n]"
proof -
  have dvd: "k dvd length xs" using assms(1) by simp
  have "chunks k (concat (chunks_exact k xs)) = chunks_exact k xs"
    using assms by (intro chunks_concat) (auto simp: in_set_conv_nth length_nth_chunks_exact)
  then have "chunks k xs = chunks_exact k xs" using concat_chunks_exact [OF dvd assms(2)] by simp
  also have "\<dots> = map (\<lambda>i. take k (drop (i * k) xs)) [0..<n]"
    using assms by (intro nth_equalityI) (auto simp: nth_chunks_exact)
  finally show ?thesis .
qed

lemma length_concat_uniform: "\<forall>x \<in> set xss. length x = k \<Longrightarrow> length (concat xss) = k * length xss"
  by (induction xss) auto

lemma take_concat_uniform: "\<forall>x \<in> set xss. length x = k \<Longrightarrow> take (k * m) (concat xss) = concat (take m xss)"
proof (induction xss arbitrary: m)
  case (Cons x xss)
  then show ?case by (cases m) simp_all
qed simp

lemma drop_concat_uniform: "\<forall>x \<in> set xss. length x = k \<Longrightarrow> drop (k * m) (concat xss) = concat (drop m xss)"
proof (induction xss arbitrary: m)
  case (Cons x xss)
  then show ?case by (cases m) simp_all
qed simp

lemma concat_blocks: "concat (map (\<lambda>i. take k (drop (i * k) xs)) [0..<p]) = take (p * k) xs"
proof (induction p)
  case (Suc p)
  have "take (Suc p * k) xs = take (p * k) xs @ take k (drop (p * k) xs)"
    by (simp add: take_add [symmetric] add.commute)
  with Suc show ?case by simp
qed simp

definition rotate_left :: "nat \<Rightarrow> 'a list \<Rightarrow> 'a list" where
  "rotate_left k xs = drop k xs @ take k xs"

definition rotate_right :: "nat \<Rightarrow> 'a list \<Rightarrow> 'a list" where
  "rotate_right k xs = drop (length xs - k) xs @ take (length xs - k) xs"

lemma length_rotate_left [simp]: "length (rotate_left k xs) = length xs"
  by (simp add: rotate_left_def)

lemma length_rotate_right [simp]: "length (rotate_right k xs) = length xs"
  by (simp add: rotate_right_def)

lemma rotate_left_right: "k \<le> length xs \<Longrightarrow> rotate_left k (rotate_right k xs) = xs"
  by (simp add: rotate_left_def rotate_right_def)

lemma rotate_right_left: "k \<le> length xs \<Longrightarrow> rotate_right k (rotate_left k xs) = xs"
  by (simp add: rotate_left_def rotate_right_def)

lemma rotate_left_eq_rotate: "k < length xs \<Longrightarrow> rotate_left k xs = rotate k xs"
  by (simp add: rotate_left_def rotate_drop_take)

lemma nth_rotate_left:
  "k \<le> length xs \<Longrightarrow> s < length xs \<Longrightarrow> rotate_left k xs ! s = xs ! ((s + k) mod length xs)"
  by (auto simp: rotate_left_def nth_append mod_if add.commute intro!: arg_cong [of _ _ "nth xs"])

lemma nth_rotate_right:
  "k \<le> length xs \<Longrightarrow> s < length xs \<Longrightarrow>
     rotate_right k xs ! s = xs ! ((s + (length xs - k)) mod length xs)"
  by (auto simp: rotate_right_def nth_append mod_if intro!: arg_cong [of _ _ "nth xs"])

lemma nth_concat_equal:
  "0 < n \<Longrightarrow> (\<And>x. x \<in> set xss \<Longrightarrow> length x = n) \<Longrightarrow> i < length xss * n \<Longrightarrow>
     concat xss ! i = xss ! (i div n) ! (i mod n)"
proof (induction xss arbitrary: i)
  case (Cons x xss)
  have len: "length x = n" using Cons.prems(2) by simp
  show ?case
  proof (cases "i < n")
    case True
    then show ?thesis by (simp add: nth_append len)
  next
    case False
    have "concat xss ! (i - n) = xss ! ((i - n) div n) ! ((i - n) mod n)"
      using Cons.prems False by (intro Cons.IH) auto
    moreover have "i div n = Suc ((i - n) div n)" "(i - n) mod n = i mod n"
      using False Cons.prems(1) by (simp_all add: le_div_geq le_mod_geq)
    ultimately show ?thesis using False by (simp add: nth_append len)
  qed
qed simp

section \<open>Sums over ranges\<close>

lemma sum_lessThan_add: "(\<Sum>i<a + b. f i) = (\<Sum>i<a. f i) + (\<Sum>j<b. f (a + j))"
  for f :: "nat \<Rightarrow> 'a::comm_monoid_add"
  by (induction b) (simp_all add: ac_simps)

lemma sum_lessThan_mult: "(\<Sum>i<n * k. f i) = (\<Sum>i<n. \<Sum>j<k. f (i * k + j))"
  for f :: "nat \<Rightarrow> 'a::comm_monoid_add"
proof (induction n)
  case (Suc n)
  have "(\<Sum>i<Suc n * k. f i) = (\<Sum>i<n * k + k. f i)" by (simp only: mult_Suc add.commute)
  then show ?case using Suc by (simp only: sum_lessThan_add sum.lessThan_Suc)
qed simp

lemma sint_small:
  assumes "- (2 ^ (LENGTH('a) - 1)) \<le> z" "z < 2 ^ (LENGTH('a) - 1)"
  shows "sint (of_int z :: 'a::len word) = z"
proof -
  have "sint (of_int z :: 'a word) = signed_take_bit (LENGTH('a) - 1) z" by (rule sint_sbintrunc')
  then show ?thesis using signed_take_bit_int_eq_self [OF assms] by simp
qed

end
