(* ===== verification/Parties.thy ===== *)
theory Parties
  imports Prelude
begin

text \<open>
  Party identifiers (\<open>iris-mpc-common/src/id.rs\<close>) and player roles
  (\<open>iris-mpc-cpu/src/execution/player.rs\<close>). Arithmetic is that of the release profile: it wraps.
\<close>

section \<open>PartyID\<close>

datatype PartyID = ID0 | ID1 | ID2

fun next_id :: "PartyID \<Rightarrow> PartyID" where
  "next_id ID0 = ID1"
| "next_id ID1 = ID2"
| "next_id ID2 = ID0"

fun prev_id :: "PartyID \<Rightarrow> PartyID" where
  "prev_id ID0 = ID2"
| "prev_id ID1 = ID0"
| "prev_id ID2 = ID1"

datatype PartyIDError = PartyIDError string

fun usize_from_party :: "PartyID \<Rightarrow> nat" where
  "usize_from_party ID0 = 0"
| "usize_from_party ID1 = 1"
| "usize_from_party ID2 = 2"

definition u8_from_party :: "PartyID \<Rightarrow> u8" where
  "u8_from_party p = of_nat (usize_from_party p)"

text \<open>Decimal output and input of \<open>usize\<close>, as \<open>Display\<close> and \<open>str::parse\<close> define them.\<close>

definition digit_char :: "nat \<Rightarrow> char" where
  "digit_char d = char_of (48 + d)"

fun show_usize :: "nat \<Rightarrow> string" where
  "show_usize n =
     (if n < 10 then [digit_char n] else show_usize (n div 10) @ [digit_char (n mod 10)])"

declare show_usize.simps [simp del]

definition char_digit :: "char \<Rightarrow> nat option" where
  "char_digit c = (let v = of_char c :: nat in if 48 \<le> v \<and> v \<le> 57 then Some (v - 48) else None)"

fun parse_digits :: "nat \<Rightarrow> string \<Rightarrow> string + nat" where
  "parse_digits acc [] = Inr acc"
| "parse_digits acc (c # cs) =
     (case char_digit c of
        None \<Rightarrow> Inl ''invalid digit found in string''
      | Some d \<Rightarrow>
          (if 10 * acc + d < 2 ^ 64 then parse_digits (10 * acc + d) cs
           else Inl ''number too large to fit in target type''))"

definition parse_usize :: "string \<Rightarrow> string + nat" where
  "parse_usize s =
     (if s = [] then Inl ''cannot parse integer from empty string''
      else if s = ''+'' \<or> s = ''-'' then Inl ''invalid digit found in string''
      else if hd s = CHR ''+'' then parse_digits 0 (tl s)
      else parse_digits 0 s)"

definition try_from_usize :: "nat \<Rightarrow> PartyIDError + PartyID" where
  "try_from_usize other =
     (if other = 0 then Inr ID0
      else if other = 1 then Inr ID1
      else if other = 2 then Inr ID2
      else Inl (PartyIDError (''Invalid party ID: '' @ show_usize other)))"

definition try_from_u8 :: "u8 \<Rightarrow> PartyIDError + PartyID" where
  "try_from_u8 other = try_from_usize (unat other)"

definition from_str :: "string \<Rightarrow> PartyIDError + PartyID" where
  "from_str s =
     (case parse_usize s of
        Inl e \<Rightarrow> Inl (PartyIDError e)
      | Inr n \<Rightarrow> try_from_usize n)"

definition show_party :: "PartyID \<Rightarrow> string" where
  "show_party p = show_usize (usize_from_party p)"

definition show_party_error :: "PartyIDError \<Rightarrow> string" where
  "show_party_error e = (case e of PartyIDError s \<Rightarrow> ''Invalid party ID: '' @ s)"

lemma next_prev_id [simp]: "next_id (prev_id p) = p" "prev_id (next_id p) = p"
  by (cases p; simp)+

lemma next_next_id: "next_id (next_id p) = prev_id p"
  by (cases p) simp_all

lemma next_id_neq [simp]: "next_id p \<noteq> p" "p \<noteq> next_id p" "prev_id p \<noteq> p" "next_id p \<noteq> prev_id p"
  by (cases p; simp)+

lemma usize_from_party_next: "usize_from_party (next_id p) = (usize_from_party p + 1) mod 3"
  by (cases p) simp_all

lemma try_from_usize_roundtrip: "try_from_usize (usize_from_party p) = Inr p"
  by (cases p) (simp_all add: try_from_usize_def)

lemma try_from_usize_ok_iff: "(\<exists>p. try_from_usize n = Inr p) \<longleftrightarrow> n < 3"
  by (auto simp: try_from_usize_def)

lemma of_char_digit_char: "d < 10 \<Longrightarrow> (of_char (digit_char d) :: nat) = 48 + d"
  by (simp add: digit_char_def)

lemma digit_char_neq: "d < 10 \<Longrightarrow> digit_char d \<noteq> CHR ''+'' \<and> digit_char d \<noteq> CHR ''-''"
  using of_char_digit_char [of d] by auto

lemma char_digit_digit_char: "d < 10 \<Longrightarrow> char_digit (digit_char d) = Some d"
  by (simp add: char_digit_def of_char_digit_char Let_def)

lemma usize_from_party_less: "usize_from_party p < 3"
  by (cases p) simp_all

lemma from_str_show_party: "from_str (show_party p) = Inr p"
  using usize_from_party_less [of p]
  by (simp add: from_str_def show_party_def show_usize.simps parse_usize_def digit_char_neq
      char_digit_digit_char try_from_usize_roundtrip)

lemma try_from_usize_iff: "try_from_usize n = Inr p \<longleftrightarrow> n = usize_from_party p"
  by (cases p) (auto simp: try_from_usize_def)

text \<open>
  Party identifiers as text. Printing a party and parsing the text gives the party back, and a
  text is accepted as a party exactly when it parses to that party's number, so every other number
  and every malformed text is an error.
\<close>

theorem party_text_roundtrip:
  "from_str (show_party p) = Inr p \<and>
   (from_str s = Inr q \<longleftrightarrow> parse_usize s = Inr (usize_from_party q))"
  by (simp add: from_str_show_party) (simp add: from_str_def try_from_usize_iff split: sum.split)

section \<open>Identities and roles\<close>

datatype Identity = Identity string

datatype Role = Role u8

definition role_new :: "nat \<Rightarrow> Role" where
  "role_new x = Role (of_nat x)"

fun role_index :: "Role \<Rightarrow> nat" where
  "role_index (Role r) = unat r"

fun role_next :: "Role \<Rightarrow> u8 \<Rightarrow> Role result" where
  "role_next (Role r) num_players =
     (if num_players = 0 then Inl (Panic ''attempt to calculate the remainder with a divisor of zero'')
      else Inr (Role ((r + 1) mod num_players)))"

fun role_prev :: "Role \<Rightarrow> u8 \<Rightarrow> Role" where
  "role_prev (Role r) num_players =
     (if r = 0 then role_new (unat (word_of_int (int (unat num_players) - 1) :: u64))
      else Role (r - 1))"

lemma role_index_new: "x < 256 \<Longrightarrow> role_index (role_new x) = x"
  by (simp add: role_new_def unat_of_nat)

lemma role_next_3 [simp]:
  "role_next (role_new 0) 3 = Inr (role_new 1)"
  "role_next (role_new 1) 3 = Inr (role_new 2)"
  "role_next (role_new 2) 3 = Inr (role_new 0)"
  "role_next (role_new (Suc 0)) 3 = Inr (role_new 2)"
  by (simp_all add: role_new_def)

lemma role_prev_3 [simp]:
  "role_prev (role_new 0) 3 = role_new 2"
  "role_prev (role_new 1) 3 = role_new 0"
  "role_prev (role_new 2) 3 = role_new 1"
  "role_prev (role_new (Suc 0)) 3 = role_new 0"
  by (simp_all add: role_new_def)

lemma role_new_eq: "x < 256 \<Longrightarrow> y < 256 \<Longrightarrow> role_new x = role_new y \<longleftrightarrow> x = y"
  by (metis role_index_new)

end
