(* ===== verification/GaloisRing.thy ===== *)
theory GaloisRing
  imports Parties
begin

text \<open>
  The Galois ring \<open>Z_{2^16}[x]/(x^4 - x - 1)\<close> and Shamir sharing over it
  (\<open>iris-mpc-common/src/galois.rs\<close>). An element is its four \<open>u16\<close> coefficients; the phantom
  basis parameter of the Rust type is a type parameter. Addition exists in every basis;
  multiplication exists in the monomial basis only, which is the basis tag of sort \<open>one\<close>.
\<close>

section \<open>Elements and bases\<close>

datatype A = A
datatype B = B
datatype Monomial = Monomial

instantiation Monomial :: one
begin

definition one_Monomial :: Monomial where
  "one_Monomial = Monomial"

instance ..

end

datatype 'b GaloisRingElement = GRE (c0: u16) (c1: u16) (c2: u16) (c3: u16)

type_synonym gre = "Monomial GaloisRingElement"

definition from_coefs :: "u16 \<times> u16 \<times> u16 \<times> u16 \<Rightarrow> 'b GaloisRingElement" where
  "from_coefs c = (case c of (a, b, c, d) \<Rightarrow> GRE a b c d)"

definition coefs_list :: "'b GaloisRingElement \<Rightarrow> u16 list" where
  "coefs_list x = [c0 x, c1 x, c2 x, c3 x]"

fun gre_add :: "'b GaloisRingElement \<Rightarrow> 'b GaloisRingElement \<Rightarrow> 'b GaloisRingElement" where
  "gre_add (GRE a0 a1 a2 a3) (GRE b0 b1 b2 b3) = GRE (a0 + b0) (a1 + b1) (a2 + b2) (a3 + b3)"

fun gre_sub :: "'b GaloisRingElement \<Rightarrow> 'b GaloisRingElement \<Rightarrow> 'b GaloisRingElement" where
  "gre_sub (GRE a0 a1 a2 a3) (GRE b0 b1 b2 b3) = GRE (a0 - b0) (a1 - b1) (a2 - b2) (a3 - b3)"

fun gre_neg :: "'b GaloisRingElement \<Rightarrow> 'b GaloisRingElement" where
  "gre_neg (GRE a0 a1 a2 a3) = GRE (- a0) (- a1) (- a2) (- a3)"

fun gre_mul :: "'b GaloisRingElement \<Rightarrow> 'b GaloisRingElement \<Rightarrow> 'b GaloisRingElement" where
  "gre_mul (GRE a0 a1 a2 a3) (GRE b0 b1 b2 b3) =
     GRE (a0 * b0 + a1 * b3 + a2 * b2 + a3 * b1)
         (a0 * b1 + a1 * b0 + a1 * b3 + a2 * b2 + a3 * b1 + a2 * b3 + a3 * b2)
         (a0 * b2 + a1 * b1 + a2 * b0 + a2 * b3 + a3 * b2 + a3 * b3)
         (a0 * b3 + a1 * b2 + a2 * b1 + a3 * b0 + a3 * b3)"

definition ZERO :: "'b GaloisRingElement" where
  "ZERO = GRE 0 0 0 0"

definition ONE :: "'b GaloisRingElement" where
  "ONE = GRE 1 0 0 0"

instantiation GaloisRingElement :: (type) ab_group_add
begin

definition "zero_GaloisRingElement = ZERO"
definition "plus_GaloisRingElement = gre_add"
definition "minus_GaloisRingElement = gre_sub"
definition "uminus_GaloisRingElement = gre_neg"

instance
proof
  fix a b c :: "'a GaloisRingElement"
  show "a + b + c = a + (b + c)"
    by (cases a; cases b; cases c) (simp add: plus_GaloisRingElement_def add.assoc)
  show "a + b = b + a"
    by (cases a; cases b) (simp add: plus_GaloisRingElement_def add.commute)
  show "0 + a = a"
    by (cases a) (simp add: plus_GaloisRingElement_def zero_GaloisRingElement_def ZERO_def)
  show "- a + a = 0"
    by (cases a)
      (simp add: plus_GaloisRingElement_def zero_GaloisRingElement_def ZERO_def
        uminus_GaloisRingElement_def)
  show "a - b = a + - b"
    by (cases a; cases b)
      (simp add: plus_GaloisRingElement_def minus_GaloisRingElement_def
        uminus_GaloisRingElement_def)
qed

end

text \<open>
  The hand-expanded multiplication is that of a commutative ring: the reduction
  \<open>x^4 = x + 1\<close> was carried out correctly in every coefficient.
\<close>

instantiation GaloisRingElement :: (one) comm_ring_1
begin

definition "one_GaloisRingElement = (ONE :: 'a GaloisRingElement)"
definition "times_GaloisRingElement = (gre_mul :: 'a GaloisRingElement \<Rightarrow> _)"

instance
proof
  fix a b c :: "'a GaloisRingElement"
  show "a * b * c = a * (b * c)"
    by (cases a; cases b; cases c)
      (simp add: times_GaloisRingElement_def algebra_simps)
  show "a * b = b * a"
    by (cases a; cases b) (simp add: times_GaloisRingElement_def algebra_simps)
  show "1 * a = a"
    by (cases a) (simp add: times_GaloisRingElement_def one_GaloisRingElement_def ONE_def)
  show "(a + b) * c = a * c + b * c"
    by (cases a; cases b; cases c)
      (simp add: times_GaloisRingElement_def plus_GaloisRingElement_def algebra_simps)
  show "(0::'a GaloisRingElement) \<noteq> 1"
    by (simp add: zero_GaloisRingElement_def one_GaloisRingElement_def ZERO_def ONE_def)
qed

end

lemma GRE_simps [galois_simps]:
  "GRE a0 a1 a2 a3 + GRE b0 b1 b2 b3 = GRE (a0 + b0) (a1 + b1) (a2 + b2) (a3 + b3)"
  "GRE a0 a1 a2 a3 - GRE b0 b1 b2 b3 = GRE (a0 - b0) (a1 - b1) (a2 - b2) (a3 - b3)"
  "- GRE a0 a1 a2 a3 = GRE (- a0) (- a1) (- a2) (- a3)"
  "(0 :: 'b GaloisRingElement) = GRE 0 0 0 0"
  by (simp_all add: plus_GaloisRingElement_def minus_GaloisRingElement_def
      uminus_GaloisRingElement_def zero_GaloisRingElement_def ZERO_def)

lemma GRE_mult [galois_simps]:
  "(GRE a0 a1 a2 a3 :: 'b::one GaloisRingElement) * GRE b0 b1 b2 b3 =
     GRE (a0 * b0 + a1 * b3 + a2 * b2 + a3 * b1)
         (a0 * b1 + a1 * b0 + a1 * b3 + a2 * b2 + a3 * b1 + a2 * b3 + a3 * b2)
         (a0 * b2 + a1 * b1 + a2 * b0 + a2 * b3 + a3 * b2 + a3 * b3)
         (a0 * b3 + a1 * b2 + a2 * b1 + a3 * b0 + a3 * b3)"
  "(1 :: 'b GaloisRingElement) = GRE 1 0 0 0"
  by (simp_all add: times_GaloisRingElement_def one_GaloisRingElement_def ONE_def)

lemma ZERO_eq [simp]: "ZERO = 0" and ONE_eq [simp]: "(ONE :: gre) = 1"
  by (simp_all add: zero_GaloisRingElement_def one_GaloisRingElement_def)

lemma gre_sel_simps [simp]:
  "c0 (x + y) = c0 x + c0 y" "c1 (x + y) = c1 x + c1 y"
  "c2 (x + y) = c2 x + c2 y" "c3 (x + y) = c3 x + c3 y"
  "c0 (0 :: 'b GaloisRingElement) = 0" "c1 (0 :: 'b GaloisRingElement) = 0"
  "c2 (0 :: 'b GaloisRingElement) = 0" "c3 (0 :: 'b GaloisRingElement) = 0"
  by (cases x; cases y; simp add: galois_simps)+

lemma of_nat_GRE [galois_simps]: "of_nat n = (GRE (of_nat n) 0 0 0 :: 'b::one GaloisRingElement)"
  by (induction n) (simp_all add: galois_simps)

lemma numeral_GRE [galois_simps]: "numeral k = (GRE (numeral k) 0 0 0 :: 'b::one GaloisRingElement)"
  using of_nat_GRE [of "numeral k"] by simp

lemma two_power_16_zero: "(2 :: 'b::one GaloisRingElement) ^ 16 = 0"
proof -
  have "(2 :: 'b GaloisRingElement) ^ 16 = of_nat (2 ^ 16)" by simp
  also have "\<dots> = 0" by (simp only: of_nat_GRE) (simp add: galois_simps)
  finally show ?thesis .
qed

section \<open>Exponentiation and inversion\<close>

definition EXCEPTIONAL_SEQUENCE :: "gre list" where
  "EXCEPTIONAL_SEQUENCE =
    [GRE 0 0 0 0, GRE 1 0 0 0, GRE 0 1 0 0, GRE 1 1 0 0,
     GRE 0 0 1 0, GRE 1 0 1 0, GRE 0 1 1 0, GRE 1 1 1 0,
     GRE 0 0 0 1, GRE 1 0 0 1, GRE 0 1 0 1, GRE 1 1 0 1,
     GRE 0 0 1 1, GRE 1 0 1 1, GRE 0 1 1 1, GRE 1 1 1 1]"

text \<open>The exponent only shrinks, so its 32-bit width plays no role and it is a natural number.\<close>

function pow_loop :: "gre \<Rightarrow> gre \<Rightarrow> nat \<Rightarrow> gre" where
  "pow_loop x y e =
     (if 1 < e then
        (if e mod 2 = 1 then pow_loop (x * x) (x * y) ((e - 1) div 2)
         else pow_loop (x * x) y (e div 2))
      else x * y)"
  by pat_completeness auto
termination
  by (relation "measure (\<lambda>(x, y, e). e)") auto

declare pow_loop.simps [simp del]

definition gre_pow :: "gre \<Rightarrow> nat \<Rightarrow> gre" where
  "gre_pow x e = (if e = 0 then ONE else pow_loop x ONE e)"

definition EXP :: nat where
  "EXP = (2 ^ 4 - 1) * 2 ^ (16 - 1) - 1"

definition all_even :: "gre \<Rightarrow> bool" where
  "all_even x = list_all (\<lambda>c. c mod 2 = 0) (coefs_list x)"

definition gre_inverse :: "gre \<Rightarrow> gre result" where
  "gre_inverse x =
     (if all_even x then Inl (Panic ''Element has no inverse'') else Inr (gre_pow x EXP))"

lemma pow_loop_eq: "0 < e \<Longrightarrow> pow_loop x y e = x ^ e * y"
proof (induction x y e rule: pow_loop.induct)
  case (1 x y e)
  show ?case
  proof (cases "1 < e")
    case False
    with "1.prems" have "e = 1" by simp
    then show ?thesis by (simp add: pow_loop.simps [of x y "Suc 0"])
  next
    case True
    show ?thesis
    proof (cases "e mod 2 = 1")
      case odd: True
      then obtain k where k: "e = 2 * k + 1" by (metis mult.commute div_mod_decomp)
      with True have "0 < (e - 1) div 2" by simp
      with "1.IH"(1) [OF True odd] have "pow_loop (x * x) (x * y) ((e - 1) div 2) = (x * x) ^ k * (x * y)"
        by (simp add: k)
      moreover have "pow_loop x y e = pow_loop (x * x) (x * y) ((e - 1) div 2)"
        using True odd by (subst pow_loop.simps) simp
      ultimately show ?thesis by (simp add: k power_mult power2_eq_square algebra_simps)
    next
      case even: False
      then obtain k where k: "e = 2 * k" by (metis div_mod_decomp add.right_neutral
            mod_2_eq_odd mult.commute odd_iff_mod_2_eq_one parity_cases)
      with True have "0 < e div 2" by simp
      with "1.IH"(2) [OF True even] have "pow_loop (x * x) y (e div 2) = (x * x) ^ k * y"
        by (simp add: k)
      moreover have "pow_loop x y e = pow_loop (x * x) y (e div 2)"
        using True even by (subst pow_loop.simps) simp
      ultimately show ?thesis by (simp add: k power_mult power2_eq_square)
    qed
  qed
qed

theorem gre_pow_eq_power: "gre_pow x e = x ^ e"
  by (simp add: gre_pow_def pow_loop_eq)

subsection \<open>Every element with an odd coefficient is a unit\<close>

definition cong2 :: "gre \<Rightarrow> gre \<Rightarrow> bool" where
  "cong2 a b \<longleftrightarrow> (\<exists>w. a = b + 2 * w)"

lemma cong2_refl: "cong2 a a"
  unfolding cong2_def by (rule exI [of _ 0]) simp

lemma cong2_mult: "cong2 a b \<Longrightarrow> cong2 c d \<Longrightarrow> cong2 (a * c) (b * d)"
  unfolding cong2_def
proof (elim exE)
  fix w w'
  assume "a = b + 2 * w" "c = d + 2 * w'"
  then have "a * c = b * d + 2 * (b * w' + w * d + 2 * w * w')" by (simp add: algebra_simps)
  then show "\<exists>v. a * c = b * d + 2 * v" by blast
qed

lemma cong2_power: "cong2 a b \<Longrightarrow> cong2 (a ^ n) (b ^ n)"
  by (induction n) (auto intro: cong2_mult cong2_refl)

lemma cong2_bits:
  "cong2 (GRE a b c d) (GRE (a AND 1) (b AND 1) (c AND 1) (d AND 1))"
proof -
  have split: "(w AND 1) + 2 * (w div 2) = w" for w :: u16
    by (simp add: and_one_eq mod_mult_div_eq)
  show ?thesis
    unfolding cong2_def
    by (rule exI [of _ "GRE (a div 2) (b div 2) (c div 2) (d div 2)"])
      (simp add: galois_simps split)
qed

lemma cong2_oneI:
  assumes "a AND 1 = 1" "b AND 1 = 0" "c AND 1 = 0" "d AND 1 = 0"
  shows "cong2 (GRE a b c d) 1"
  using cong2_bits [of a b c d] assms by (simp add: galois_simps)

lemma power_15: "(x :: gre) ^ 15 = (x * x * x) * ((x * x * x) * (x * x * x)) * ((x * x * x) * (x * x * x))"
  by (simp add: eval_nat_numeral algebra_simps)

lemma and_one_cases: "(w :: u16) AND 1 = 0 \<or> w AND 1 = 1"
  by (simp add: and_one_eq mod2_eq_if)

lemma mod_two_and_one: "(w :: u16) mod 2 = w AND 1"
  by (simp add: and_one_eq)

lemma residue_power_15:
  assumes "p \<in> {0, 1}" "q \<in> {0, 1}" "r \<in> {0, 1}" "s \<in> {0, 1}"
    and "(p, q, r, s) \<noteq> (0, 0, 0, 0 :: u16)"
  shows "cong2 (GRE p q r s ^ 15) 1"
  using assms unfolding power_15
  by (elim insertE emptyE) (simp_all add: GRE_mult(1) cong2_oneI)

lemma unit_power_15: "\<not> all_even x \<Longrightarrow> cong2 (x ^ 15) 1"
proof (cases x)
  case (GRE a b c d)
  let ?r = "GRE (a AND 1) (b AND 1) (c AND 1) (d AND 1) :: gre"
  assume "\<not> all_even x"
  with GRE have ne: "(a AND 1, b AND 1, c AND 1, d AND 1) \<noteq> (0, 0, 0, 0)"
    by (auto simp: all_even_def coefs_list_def mod_two_and_one)
  have "cong2 (?r ^ 15) 1"
    by (rule residue_power_15 [OF _ _ _ _ ne]) (use and_one_cases in auto)
  moreover have "cong2 (x ^ 15) (?r ^ 15)"
    unfolding GRE by (rule cong2_power [OF cong2_bits])
  ultimately show "cong2 (x ^ 15) 1"
    unfolding cong2_def by (metis add.assoc distrib_left)
qed

lemma one_plus_power2:
  "\<exists>z. ((1 :: gre) + 2 * w) ^ (2 ^ k) = 1 + 2 ^ Suc k * z"
proof (induction k)
  case 0
  show ?case by auto
next
  case (Suc k)
  then obtain z where z: "((1 :: gre) + 2 * w) ^ (2 ^ k) = 1 + 2 ^ Suc k * z" by blast
  have "((1 :: gre) + 2 * w) ^ (2 ^ Suc k) = (((1 :: gre) + 2 * w) ^ (2 ^ k)) ^ 2"
    by (simp add: power_mult [symmetric] mult.commute)
  also have "\<dots> = 1 + 2 ^ Suc (Suc k) * (z + 2 ^ k * z * z)"
    unfolding z by (simp add: power2_eq_square algebra_simps)
  finally show ?case by blast
qed

lemma unit_group_exponent: "\<not> all_even x \<Longrightarrow> x ^ (15 * 2 ^ 15) = 1"
proof -
  assume "\<not> all_even x"
  then obtain w where w: "x ^ 15 = 1 + 2 * w" using unit_power_15 unfolding cong2_def by blast
  obtain z where "((1 :: gre) + 2 * w) ^ (2 ^ 15) = 1 + 2 ^ Suc 15 * z"
    using one_plus_power2 by blast
  moreover have "(2 :: gre) ^ Suc 15 = 0" using two_power_16_zero by (simp add: numeral_eq_Suc)
  ultimately have "((1 :: gre) + 2 * w) ^ (2 ^ 15) = 1" by (simp del: power_Suc)
  with w show ?thesis by (simp only: power_mult)
qed

lemma gre_inverse_correct: "\<not> all_even x \<Longrightarrow> \<exists>y. gre_inverse x = Inr y \<and> x * y = 1"
proof -
  assume unit: "\<not> all_even x"
  have "x * x ^ EXP = x ^ (15 * 2 ^ 15)"
    by (simp add: EXP_def flip: power_Suc)
  with unit unit_group_exponent [OF unit] show ?thesis
    by (simp add: gre_inverse_def gre_pow_eq_power)
qed

lemma gre_inverse_eqI: "\<not> all_even x \<Longrightarrow> x * y = 1 \<Longrightarrow> gre_inverse x = Inr y"
  using gre_inverse_correct [of x] by (metis mult.assoc mult.commute mult_1_left)

lemma gre_inverse_panics_iff: "gre_inverse x = Inl (Panic ''Element has no inverse'') \<longleftrightarrow> all_even x"
  by (simp add: gre_inverse_def)

section \<open>Encodings and bases\<close>

definition encode1 :: "u16 list \<Rightarrow> gre list option" where
  "encode1 x =
     (if length x mod 4 \<noteq> 0 then None
      else Some (map (\<lambda>c. GRE (c ! 0) (c ! 3) (c ! 2) (c ! 1)) (chunks_exact 4 x)))"

definition encode2 :: "u16 list \<Rightarrow> gre list option" where
  "encode2 x =
     (if length x mod 4 \<noteq> 0 then None
      else Some (map (\<lambda>c. GRE (c ! 0) (c ! 1) (c ! 2) (c ! 3)) (chunks_exact 4 x)))"

definition to_basis_A :: "gre \<Rightarrow> A GaloisRingElement" where
  "to_basis_A x = GRE
     (c0 x)
     (c1 x + c0 x * 7454)
     (c2 x + c0 x * 35057 + c1 x * 40342)
     (c3 x + c0 x * 37176 + c1 x * 61738 + c2 x * 8525)"

definition to_basis_B :: "gre \<Rightarrow> B GaloisRingElement" where
  "to_basis_B x = GRE
     (c0 x * 16038 + c1 x * 45700 + c2 x * 28361 + c3 x * 37176)
     (c0 x * 45700 + c1 x * 28361 + c2 x * 37176 + c3 x * 61738)
     (c0 x * 28361 + c1 x * 37176 + c2 x * 61738 + c3 x * 8525)
     (c0 x * 37176 + c1 x * 61738 + c2 x * 8525 + c3 x * 1)"

definition to_monomial :: "A GaloisRingElement \<Rightarrow> gre" where
  "to_monomial x = GRE
     (c0 x)
     (c1 x + c0 x * 58082)
     (c2 x + c0 x * 60579 + c1 x * 25194)
     (c3 x + c0 x * 17325 + c1 x * 51956 + c2 x * 57011)"

definition coef_dot :: "'b GaloisRingElement \<Rightarrow> 'c GaloisRingElement \<Rightarrow> u16" where
  "coef_dot x y = c0 x * c0 y + c1 x * c1 y + c2 x * c2 y + c3 x * c3 y"

lemma u16_numeral_zero: "(numeral k :: nat) mod 65536 = 0 \<Longrightarrow> (numeral k :: u16) = 0"
proof -
  assume "(numeral k :: nat) mod 65536 = 0"
  then have "unat (of_nat (numeral k) :: u16) = 0" by (simp only: unat_of_nat) simp
  then have "(of_nat (numeral k) :: u16) = 0" by (rule unat_eq_zero [THEN iffD1])
  then show "(numeral k :: u16) = 0" by simp
qed

lemma u16_times_zero: "(numeral k :: nat) mod 65536 = 0 \<Longrightarrow> (x :: u16) * numeral k = 0"
  by (simp only: u16_numeral_zero mult_zero_right)

lemma to_basis_A_to_monomial: "to_basis_A (to_monomial x) = x"
  by (cases x) (simp add: to_basis_A_def to_monomial_def algebra_simps, simp add: u16_times_zero)

lemma to_monomial_to_basis_A: "to_monomial (to_basis_A x) = x"
  by (cases x) (simp add: to_basis_A_def to_monomial_def algebra_simps, simp add: u16_times_zero)

lemma to_basis_B_add: "to_basis_B (x + y) = to_basis_B x + to_basis_B y"
  by (cases x; cases y) (simp add: to_basis_B_def galois_simps algebra_simps)

lemma to_basis_B_zero [simp]: "to_basis_B 0 = 0"
  by (simp add: to_basis_B_def galois_simps)

lemma to_monomial_add: "to_monomial (x + y) = to_monomial x + to_monomial y"
  by (cases x; cases y) (simp add: to_monomial_def galois_simps algebra_simps)

text \<open>
  The dot product trick: multiplying in the ring and reading the first basis-\<open>B\<close> coefficient is the
  same as a plain dot product of monomial coefficients with basis-\<open>B\<close> coefficients.
\<close>

lemma basis_B_trick: "c0 (to_basis_B (x * y)) = coef_dot x (to_basis_B y)"
  by (cases x; cases y) (simp add: to_basis_B_def coef_dot_def galois_simps algebra_simps, simp add: u16_times_zero)

text \<open>On basis-\<open>A\<close> encoded quadruples that coefficient is the dot product of the quadruples.\<close>

lemma basis_A_dot: "c0 (to_basis_B (to_monomial x * to_monomial y)) = coef_dot x y"
  by (cases x; cases y)
    (simp add: to_basis_B_def to_monomial_def coef_dot_def galois_simps algebra_simps, simp add: u16_times_zero)

lemma encode1_encode2_dot:
  "(c0 (GRE a0 a3 a2 a1 * GRE b0 b1 b2 b3 :: gre)) = a0 * b0 + a1 * b1 + a2 * b2 + a3 * b3"
  by (simp add: galois_simps algebra_simps)

end
