(* ===== verification/GaloisShamir.thy ===== *)
theory GaloisShamir
  imports GaloisRing
begin

text \<open>
  Shamir sharing over the Galois ring (\<open>ShamirGaloisRingShare\<close> of
  \<open>iris-mpc-common/src/galois.rs\<close>): degree-1 sharing among three parties at the points 1, 2, 3 of
  the exceptional sequence, its matrix form, the Lagrange coefficients, and reconstruction of
  degree-1 and degree-2 sharings. The random generator is a parameter \<open>gen\<close> that yields one \<open>u16\<close>
  and the next generator state.
\<close>

section \<open>Shares\<close>

record ShamirGaloisRingShare =
  share_id :: nat
  share_y :: gre

definition shamir_binop ::
    "(gre \<Rightarrow> gre \<Rightarrow> gre) \<Rightarrow> ShamirGaloisRingShare \<Rightarrow> ShamirGaloisRingShare
      \<Rightarrow> ShamirGaloisRingShare result" where
  "shamir_binop f x y =
     (if share_id x \<noteq> share_id y then Inl (Panic ''ids must be euqal'')
      else Inr \<lparr>share_id = share_id x, share_y = f (share_y x) (share_y y)\<rparr>)"

definition shamir_add :: "ShamirGaloisRingShare \<Rightarrow> ShamirGaloisRingShare \<Rightarrow> ShamirGaloisRingShare result" where
  "shamir_add = shamir_binop (+)"

definition shamir_mul :: "ShamirGaloisRingShare \<Rightarrow> ShamirGaloisRingShare \<Rightarrow> ShamirGaloisRingShare result" where
  "shamir_mul = shamir_binop (*)"

definition shamir_sub :: "ShamirGaloisRingShare \<Rightarrow> ShamirGaloisRingShare \<Rightarrow> ShamirGaloisRingShare result" where
  "shamir_sub = shamir_binop (-)"

section \<open>Sharing\<close>

definition gre_random :: "('g \<Rightarrow> u16 \<times> 'g) \<Rightarrow> 'g \<Rightarrow> 'b GaloisRingElement \<times> 'g" where
  "gre_random gen g =
     (let (r0, g) = gen g; (r1, g) = gen g; (r2, g) = gen g; (r3, g) = gen g
      in (GRE r0 r1 r2 r3, g))"

definition encode_3 :: "('g \<Rightarrow> u16 \<times> 'g) \<Rightarrow> gre \<Rightarrow> 'g \<Rightarrow> ShamirGaloisRingShare list \<times> 'g" where
  "encode_3 gen input g =
     (let (r, g) = gre_random gen g; coefs = [input, r]
      in (map (\<lambda>i. let element = EXCEPTIONAL_SEQUENCE ! i;
                       share = coefs ! 0 + coefs ! 1 * element
                   in \<lparr>share_id = i, share_y = share\<rparr>) [1, 2, 3], g))"

definition encode_3_mat ::
    "('g \<Rightarrow> u16 \<times> 'g) \<Rightarrow> u16 \<times> u16 \<times> u16 \<times> u16 \<Rightarrow> 'g \<Rightarrow> ShamirGaloisRingShare list \<times> 'g" where
  "encode_3_mat gen input g =
     (let (i0, i1, i2, i3) = input;
          (i4, g) = gen g; (i5, g) = gen g; (i6, g) = gen g; (i7, g) = gen g;
          y1 = from_coefs (i0 + i4, i1 + i5, i2 + i6, i3 + i7);
          y2 = from_coefs (i0 + i7, i1 + i4 + i7, i2 + i5, i3 + i6);
          y3 = from_coefs (c0 y2 + i4, c1 y2 + i5, c2 y2 + i6, c3 y2 + i7)
      in ([\<lparr>share_id = 1, share_y = y1\<rparr>, \<lparr>share_id = 2, share_y = y2\<rparr>,
           \<lparr>share_id = 3, share_y = y3\<rparr>], g))"

section \<open>Lagrange coefficients\<close>

definition deg_1_lagrange_polys_at_zero :: "PartyID \<Rightarrow> PartyID \<Rightarrow> gre result" where
  "deg_1_lagrange_polys_at_zero my_id other_id =
     (let i = usize_from_party my_id + 1;
          j = usize_from_party other_id + 1;
          res = ONE * (- (EXCEPTIONAL_SEQUENCE ! j))
      in rbind (gre_inverse (EXCEPTIONAL_SEQUENCE ! i - EXCEPTIONAL_SEQUENCE ! j))
           (\<lambda>inv. Inr (res * inv)))"

definition deg_1_lagrange_poly_at_v :: "nat \<Rightarrow> nat \<Rightarrow> nat \<Rightarrow> gre result" where
  "deg_1_lagrange_poly_at_v my_id other_id v =
     (if \<not> my_id < 15 then Inl (Panic ''assertion failed: my_id < 15'')
      else if \<not> other_id < 15 then Inl (Panic ''assertion failed: other_id < 15'')
      else if \<not> v < 15 then Inl (Panic ''assertion failed: v < 15'')
      else
        (let i = my_id + 1; j = other_id + 1; v = v + 1;
             res = EXCEPTIONAL_SEQUENCE ! v - EXCEPTIONAL_SEQUENCE ! j
         in rbind (gre_inverse (EXCEPTIONAL_SEQUENCE ! i - EXCEPTIONAL_SEQUENCE ! j))
              (\<lambda>inv. Inr (res * inv))))"

definition deg_2_lagrange_polys_at_zero :: "gre list result" where
  "deg_2_lagrange_polys_at_zero =
     rmap (\<lambda>i. rfold (\<lambda>j res.
        if j \<noteq> i then
          rbind (gre_inverse (EXCEPTIONAL_SEQUENCE ! i - EXCEPTIONAL_SEQUENCE ! j))
            (\<lambda>inv. Inr (res * (- (EXCEPTIONAL_SEQUENCE ! j)) * inv))
        else Inr res) [1, 2, 3] ONE) [1, 2, 3 :: nat]"

definition reconstruct_deg_2_shares :: "ShamirGaloisRingShare list \<Rightarrow> gre result" where
  "reconstruct_deg_2_shares shares =
     rbind deg_2_lagrange_polys_at_zero (\<lambda>lagrange.
       rbind (rmap (\<lambda>s.
         if share_id s = 0 \<or> length lagrange < share_id s then index_out_of_bounds
         else Inr (share_y s * lagrange ! (share_id s - 1))) shares)
       (\<lambda>ys. case ys of
          [] \<Rightarrow> Inl (Panic ''called `Option::unwrap()` on a `None` value'')
        | y # ys \<Rightarrow> Inr (foldl (+) y ys)))"

section \<open>Facts\<close>

text \<open>Differences of distinct points of the exceptional sequence are units.\<close>

lemma exceptional_difference_unit:
  assumes "i < 16" "j < 16" "i \<noteq> j"
  shows "\<not> all_even (EXCEPTIONAL_SEQUENCE ! i - EXCEPTIONAL_SEQUENCE ! j)"
proof -
  have "\<forall>i \<in> set [0..<16]. \<forall>j \<in> set [0..<16]. i \<noteq> j \<longrightarrow>
      \<not> all_even (EXCEPTIONAL_SEQUENCE ! i - EXCEPTIONAL_SEQUENCE ! j)"
    unfolding all_even_def coefs_list_def EXCEPTIONAL_SEQUENCE_def
    by (simp add: upt_rec GRE_simps)
  with assms show ?thesis by simp
qed

lemma exceptional_inverse:
  assumes "i < 16" "j < 16" "i \<noteq> j"
  obtains u where "gre_inverse (EXCEPTIONAL_SEQUENCE ! i - EXCEPTIONAL_SEQUENCE ! j) = Inr u"
    and "(EXCEPTIONAL_SEQUENCE ! i - EXCEPTIONAL_SEQUENCE ! j) * u = 1"
  using gre_inverse_correct [OF exceptional_difference_unit [OF assms]] by blast

lemma exceptional_inverse_swap:
  assumes "i < 16" "j < 16" "i \<noteq> j"
    and "gre_inverse (EXCEPTIONAL_SEQUENCE ! i - EXCEPTIONAL_SEQUENCE ! j) = Inr u"
  shows "gre_inverse (EXCEPTIONAL_SEQUENCE ! j - EXCEPTIONAL_SEQUENCE ! i) = Inr (- u)"
proof (rule gre_inverse_eqI)
  show "\<not> all_even (EXCEPTIONAL_SEQUENCE ! j - EXCEPTIONAL_SEQUENCE ! i)"
    using assms by (simp add: exceptional_difference_unit)
  have "(EXCEPTIONAL_SEQUENCE ! i - EXCEPTIONAL_SEQUENCE ! j) * u = 1"
    using assms(4) exceptional_inverse [OF assms(1-3)] by (metis sum.inject(2))
  then show "(EXCEPTIONAL_SEQUENCE ! j - EXCEPTIONAL_SEQUENCE ! i) * (- u) = 1"
    by (simp add: algebra_simps)
qed

text \<open>Interpolation of a degree-1 polynomial from two points, in any commutative ring.\<close>

lemma interpolate_deg_1:
  fixes a b v e f u :: gre
  assumes "(e - f) * u = 1"
  shows "(a + b * e) * ((v - f) * u) + (a + b * f) * ((v - e) * (- u)) = a + b * v"
proof -
  have "(a + b * e) * ((v - f) * u) + (a + b * f) * ((v - e) * (- u)) = (a + b * v) * ((e - f) * u)"
    by (simp add: algebra_simps)
  with assms show ?thesis by simp
qed

lemma lagrange_at_v_interpolates:
  assumes "i < 15" "j < 15" "v < 15" "i \<noteq> j"
  shows "\<exists>li lj. deg_1_lagrange_poly_at_v i j v = Inr li \<and> deg_1_lagrange_poly_at_v j i v = Inr lj
    \<and> (\<forall>a b. (a + b * EXCEPTIONAL_SEQUENCE ! (i + 1)) * li + (a + b * EXCEPTIONAL_SEQUENCE ! (j + 1)) * lj
          = a + b * EXCEPTIONAL_SEQUENCE ! (v + 1))"
proof -
  have lt: "i + 1 < 16" "j + 1 < 16" "i + 1 \<noteq> j + 1" using assms by simp_all
  obtain u where u: "gre_inverse (EXCEPTIONAL_SEQUENCE ! (i + 1) - EXCEPTIONAL_SEQUENCE ! (j + 1)) = Inr u"
      "(EXCEPTIONAL_SEQUENCE ! (i + 1) - EXCEPTIONAL_SEQUENCE ! (j + 1)) * u = 1"
    using exceptional_inverse [OF lt] .
  note u' = exceptional_inverse_swap [OF lt u(1)]
  from assms u(1) u' interpolate_deg_1 [OF u(2)] show ?thesis
    by (auto simp: deg_1_lagrange_poly_at_v_def Let_def)
qed

lemma lagrange_at_zero_interpolates:
  assumes "p \<noteq> q"
  shows "\<exists>lp lq. deg_1_lagrange_polys_at_zero p q = Inr lp \<and> deg_1_lagrange_polys_at_zero q p = Inr lq
    \<and> (\<forall>a b. (a + b * EXCEPTIONAL_SEQUENCE ! (usize_from_party p + 1)) * lp
             + (a + b * EXCEPTIONAL_SEQUENCE ! (usize_from_party q + 1)) * lq = a)"
proof -
  let ?i = "usize_from_party p + 1" and ?j = "usize_from_party q + 1"
  have lt: "?i < 16" "?j < 16" "?i \<noteq> ?j"
    using assms usize_from_party_less [of p] usize_from_party_less [of q]
    by (cases p; cases q; simp)+
  obtain u where u: "gre_inverse (EXCEPTIONAL_SEQUENCE ! ?i - EXCEPTIONAL_SEQUENCE ! ?j) = Inr u"
      "(EXCEPTIONAL_SEQUENCE ! ?i - EXCEPTIONAL_SEQUENCE ! ?j) * u = 1"
    using exceptional_inverse [OF lt] .
  note u' = exceptional_inverse_swap [OF lt u(1)]
  from u(1) u' interpolate_deg_1 [OF u(2), where v = 0] show ?thesis
    by (auto simp: deg_1_lagrange_polys_at_zero_def Let_def)
qed

lemma deg_1_lagrange_same_party:
  "deg_1_lagrange_polys_at_zero p p = Inl (Panic ''Element has no inverse'')"
  by (simp add: deg_1_lagrange_polys_at_zero_def gre_inverse_def all_even_def coefs_list_def Let_def)

text \<open>The hand-expanded matrix form of the sharing computes the same shares from the same randomness.\<close>

lemma encode_3_mat_eq_encode_3:
  "encode_3_mat gen (a, b, c, d) g = encode_3 gen (GRE a b c d) g"
  by (simp add: encode_3_mat_def encode_3_def gre_random_def from_coefs_def EXCEPTIONAL_SEQUENCE_def
      galois_simps Let_def split: prod.split)

lemma encode_3_eq:
  "encode_3 gen x g =
     ([\<lparr>share_id = 1, share_y = x + fst (gre_random gen g) * EXCEPTIONAL_SEQUENCE ! 1\<rparr>,
       \<lparr>share_id = 2, share_y = x + fst (gre_random gen g) * EXCEPTIONAL_SEQUENCE ! 2\<rparr>,
       \<lparr>share_id = 3, share_y = x + fst (gre_random gen g) * EXCEPTIONAL_SEQUENCE ! 3\<rparr>],
      snd (gre_random gen g :: gre \<times> 'g))" for g :: 'g
  by (simp add: encode_3_def Let_def split: prod.split)

lemma u16_even_iff: "(w :: u16) mod 2 = 0 \<longleftrightarrow> even w"
  by (simp add: even_iff_mod_2_eq_zero)

lemma all_even_no_inverse:
  assumes "all_even x"
  shows "x * y \<noteq> 1"
proof
  obtain a0 a1 a2 a3 b0 b1 b2 b3 where x: "x = GRE a0 a1 a2 a3" and y: "y = GRE b0 b1 b2 b3"
    by (cases x; cases y)
  from assms have ev: "even a0" "even a1" "even a2" "even a3"
    by (simp_all add: x all_even_def coefs_list_def u16_even_iff)
  assume "x * y = 1"
  then have one: "a0 * b0 + a1 * b3 + a2 * b2 + a3 * b1 = 1" by (simp add: x y GRE_mult)
  from ev have "even (a0 * b0 + a1 * b3 + a2 * b2 + a3 * b1)" by simp
  then show False unfolding one by simp
qed

subsection \<open>Degree 2\<close>

definition lagrange_2 :: "gre list" where
  "lagrange_2 = [GRE 1 2 2 2, GRE 65535 65534 65534 65534, GRE 1 0 0 0]"

lemma deg_2_inverses:
  "gre_inverse (EXCEPTIONAL_SEQUENCE ! Suc 0 - EXCEPTIONAL_SEQUENCE ! 2) = Inr (GRE 0 65535 65535 65535)"
  "gre_inverse (EXCEPTIONAL_SEQUENCE ! Suc 0 - EXCEPTIONAL_SEQUENCE ! 3) = Inr (GRE 1 0 0 65535)"
  "gre_inverse (EXCEPTIONAL_SEQUENCE ! 2 - EXCEPTIONAL_SEQUENCE ! Suc 0) = Inr (GRE 0 1 1 1)"
  "gre_inverse (EXCEPTIONAL_SEQUENCE ! 2 - EXCEPTIONAL_SEQUENCE ! 3) = Inr (GRE 65535 0 0 0)"
  "gre_inverse (EXCEPTIONAL_SEQUENCE ! 3 - EXCEPTIONAL_SEQUENCE ! Suc 0) = Inr (GRE 65535 0 0 1)"
  "gre_inverse (EXCEPTIONAL_SEQUENCE ! 3 - EXCEPTIONAL_SEQUENCE ! 2) = Inr (GRE 1 0 0 0)"
  by (rule gre_inverse_eqI, simp add: exceptional_difference_unit,
      simp add: EXCEPTIONAL_SEQUENCE_def GRE_simps GRE_mult)+

lemma deg_2_lagrange_polys_at_zero_eq: "deg_2_lagrange_polys_at_zero = Inr lagrange_2"
  by (simp add: deg_2_lagrange_polys_at_zero_def deg_2_inverses lagrange_2_def)
    (simp add: EXCEPTIONAL_SEQUENCE_def GRE_simps GRE_mult)

text \<open>The three coefficients interpolate every polynomial of degree at most 2 at zero.\<close>

lemma lagrange_2_interpolates:
  "(a + b * EXCEPTIONAL_SEQUENCE ! 1 + c * (EXCEPTIONAL_SEQUENCE ! 1 * EXCEPTIONAL_SEQUENCE ! 1)) * lagrange_2 ! 0
   + (a + b * EXCEPTIONAL_SEQUENCE ! 2 + c * (EXCEPTIONAL_SEQUENCE ! 2 * EXCEPTIONAL_SEQUENCE ! 2)) * lagrange_2 ! 1
   + (a + b * EXCEPTIONAL_SEQUENCE ! 3 + c * (EXCEPTIONAL_SEQUENCE ! 3 * EXCEPTIONAL_SEQUENCE ! 3)) * lagrange_2 ! 2
   = a"
proof -
  let ?e = "\<lambda>i. EXCEPTIONAL_SEQUENCE ! i" and ?l = "\<lambda>i. lagrange_2 ! i"
  have s0: "?l 0 + ?l 1 + ?l 2 = 1"
    and s1: "?e 1 * ?l 0 + ?e 2 * ?l 1 + ?e 3 * ?l 2 = 0"
    and s2: "?e 1 * ?e 1 * ?l 0 + ?e 2 * ?e 2 * ?l 1 + ?e 3 * ?e 3 * ?l 2 = 0"
    by (simp_all add: EXCEPTIONAL_SEQUENCE_def lagrange_2_def GRE_simps GRE_mult)
  have "(a + b * ?e 1 + c * (?e 1 * ?e 1)) * ?l 0 + (a + b * ?e 2 + c * (?e 2 * ?e 2)) * ?l 1
      + (a + b * ?e 3 + c * (?e 3 * ?e 3)) * ?l 2
    = a * (?l 0 + ?l 1 + ?l 2) + b * (?e 1 * ?l 0 + ?e 2 * ?l 1 + ?e 3 * ?l 2)
      + c * (?e 1 * ?e 1 * ?l 0 + ?e 2 * ?e 2 * ?l 1 + ?e 3 * ?e 3 * ?l 2)"
    by (simp add: algebra_simps)
  with s0 s1 s2 show ?thesis by simp
qed

text \<open>Hence the weighted sum of products of two degree-1 sharings is the product of the secrets.\<close>

lemma lagrange_2_product:
  "(x + r * EXCEPTIONAL_SEQUENCE ! 1) * (y + s * EXCEPTIONAL_SEQUENCE ! 1) * lagrange_2 ! 0
   + (x + r * EXCEPTIONAL_SEQUENCE ! 2) * (y + s * EXCEPTIONAL_SEQUENCE ! 2) * lagrange_2 ! 1
   + (x + r * EXCEPTIONAL_SEQUENCE ! 3) * (y + s * EXCEPTIONAL_SEQUENCE ! 3) * lagrange_2 ! 2
   = x * y"
  using lagrange_2_interpolates [of "x * y" "x * s + y * r" "r * s"]
  by (simp add: algebra_simps)

section \<open>Properties\<close>

text \<open>C35: inversion in the Galois ring. An element has an inverse exactly when one of its coefficients is
  odd; then \<open>inverse\<close> returns it, and it panics on every other element.\<close>

theorem inverse_correct:
  "(\<not> all_even x \<longrightarrow> (\<exists>y. gre_inverse x = Inr y \<and> x * y = 1))
   \<and> (all_even x \<longrightarrow> gre_inverse x = Inl (Panic ''Element has no inverse'') \<and> (\<forall>y. x * y \<noteq> 1))"
proof (intro conjI impI)
  assume "\<not> all_even x"
  then show "\<exists>y. gre_inverse x = Inr y \<and> x * y = 1" by (rule gre_inverse_correct)
next
  assume even: "all_even x"
  then show "gre_inverse x = Inl (Panic ''Element has no inverse'')" by (simp add: gre_inverse_def)
  show "\<forall>y. x * y \<noteq> 1" using even by (simp add: all_even_no_inverse)
qed

theorem inverse_correct_witness:
  "(\<exists>y. gre_inverse (GRE 2 3 0 0) = Inr y \<and> GRE 2 3 0 0 * y = 1)
   \<and> gre_inverse (GRE 2 4 0 6) = Inl (Panic ''Element has no inverse'')"
proof -
  have "\<not> all_even (GRE 2 3 0 0)" "all_even (GRE 2 4 0 6)"
    by (simp_all add: all_even_def coefs_list_def)
  then show ?thesis
    using inverse_correct [of "GRE 2 3 0 0"] inverse_correct [of "GRE 2 4 0 6"] by blast
qed

text \<open>C36: two of the three shares suffice. The shares that \<open>encode_3\<close> makes of a secret for any two
  distinct parties, weighted with their degree-1 Lagrange coefficients at zero, add up to the secret,
  whatever randomness was drawn; asking for the coefficient of a party with itself panics.\<close>

theorem deg_1_reconstruction:
  "(p \<noteq> q \<longrightarrow>
     (\<exists>lp lq. deg_1_lagrange_polys_at_zero p q = Inr lp \<and> deg_1_lagrange_polys_at_zero q p = Inr lq
       \<and> share_y (fst (encode_3 gen x g) ! usize_from_party p) * lp
         + share_y (fst (encode_3 gen x g) ! usize_from_party q) * lq = x))
   \<and> deg_1_lagrange_polys_at_zero p p = Inl (Panic ''Element has no inverse'')"
proof -
  have nth: "share_y (fst (encode_3 gen x g) ! usize_from_party r)
      = x + fst (gre_random gen g) * EXCEPTIONAL_SEQUENCE ! (usize_from_party r + 1)" for r
    by (cases r) (simp_all add: encode_3_eq numeral_2_eq_2 numeral_3_eq_3)
  show ?thesis
    unfolding nth using lagrange_at_zero_interpolates [of p q] deg_1_lagrange_same_party by blast
qed

theorem deg_1_reconstruction_witness:
  "\<exists>lp lq. deg_1_lagrange_polys_at_zero ID0 ID2 = Inr lp \<and> deg_1_lagrange_polys_at_zero ID2 ID0 = Inr lq
     \<and> share_y (fst (encode_3 (\<lambda>s. (s, s + 1)) (GRE 5 6 7 8) (11 :: u16)) ! 0) * lp
       + share_y (fst (encode_3 (\<lambda>s. (s, s + 1)) (GRE 5 6 7 8) (11 :: u16)) ! 2) * lq = GRE 5 6 7 8"
  using deg_1_reconstruction [of ID0 ID2 "\<lambda>s. (s, s + 1)" "GRE 5 6 7 8" "11 :: u16"] by simp

text \<open>C37: multiplication of shared secrets. Multiplying two degree-1 sharings share by share and
  reconstructing the resulting degree-2 sharing from all three parties gives the product of the two
  secrets, with no panic on the way.\<close>

theorem deg_2_reconstruction:
  "rbind (rmap (\<lambda>(a, b). shamir_mul a b)
            (zip (fst (encode_3 gen x g)) (fst (encode_3 gen' y h)))) reconstruct_deg_2_shares
   = Inr (x * y)"
proof -
  show ?thesis
    using lagrange_2_product [of x "fst (gre_random gen g)" y "fst (gre_random gen' h)"]
    by (simp add: encode_3_eq shamir_mul_def shamir_binop_def reconstruct_deg_2_shares_def
        deg_2_lagrange_polys_at_zero_eq lagrange_2_def)
qed

text \<open>The matrix form of the sharing. \<open>encode_3_mat\<close>, which expands the evaluation of the sharing
  polynomial at the three points by hand, returns the same shares and leaves the generator in the same
  state as \<open>encode_3\<close>.\<close>

theorem encode_3_mat_refines_encode_3:
  "encode_3_mat gen (a, b, c, d) g = encode_3 gen (GRE a b c d) g"
  by (rule encode_3_mat_eq_encode_3)

text \<open>Reshare coefficients. For two distinct parties and any evaluation point of the exceptional
  sequence, the coefficients of \<open>deg_1_lagrange_poly_at_v\<close> turn the two shares of any degree-1 sharing
  into the share at that point.\<close>

theorem lagrange_at_v_reshares:
  assumes "i < 15" "j < 15" "v < 15" "i \<noteq> j"
  shows "\<exists>li lj. deg_1_lagrange_poly_at_v i j v = Inr li \<and> deg_1_lagrange_poly_at_v j i v = Inr lj
    \<and> (\<forall>a b. (a + b * EXCEPTIONAL_SEQUENCE ! (i + 1)) * li + (a + b * EXCEPTIONAL_SEQUENCE ! (j + 1)) * lj
          = a + b * EXCEPTIONAL_SEQUENCE ! (v + 1))"
  by (rule lagrange_at_v_interpolates [OF assms])

theorem lagrange_at_v_reshares_witness:
  "\<exists>li lj. deg_1_lagrange_poly_at_v 0 1 2 = Inr li \<and> deg_1_lagrange_poly_at_v 1 0 2 = Inr lj
    \<and> (\<forall>a b. (a + b * EXCEPTIONAL_SEQUENCE ! 1) * li + (a + b * EXCEPTIONAL_SEQUENCE ! 2) * lj
          = a + b * EXCEPTIONAL_SEQUENCE ! 3)"
  using lagrange_at_v_reshares [of 0 1 2] by (simp add: numeral_2_eq_2 numeral_3_eq_3)

end
