(* ===== verification/ShamirFp.thy ===== *)
theory ShamirFp
  imports Parties
begin

text \<open>
  Shamir sharing modulo the 16-bit prime \<open>P = 2^16 - 17\<close> (\<open>iris-mpc-common/src/shamir/mod.rs\<close>).
  The arithmetic is that of \<open>u32\<close>, wrap-around included; the two loops of the code, rejection
  sampling and the extended Euclidean algorithm, may a priori run forever and are partial functions
  into \<open>option\<close>, where \<open>None\<close> is a run that does not return.
\<close>

section \<open>Definitions\<close>

definition P :: u16 where
  "P = ucast ((push_bit 16 1 :: u32) - 17)"

definition P32 :: u32 where
  "P32 = ucast P"

partial_function (option) random_fp :: "('g \<Rightarrow> u16 \<times> 'g) \<Rightarrow> 'g \<Rightarrow> (u16 \<times> 'g) option" where
  "random_fp gen g = (case gen g of (r, g') \<Rightarrow> if P \<le> r then random_fp gen g' else Some (r, g'))"

partial_function (option) euclid_loop :: "u32 \<Rightarrow> u32 \<Rightarrow> u32 \<Rightarrow> u32 \<Rightarrow> (u32 \<times> u32) option" where
  "euclid_loop r1 r0 s1 s0 =
     (if r1 = 0 then Some (r0, s0)
      else
        (let q = r0 div r1;
             r1' = (r0 + P32 - (q * r1) mod P32) mod P32;
             s1' = (s0 + P32 - (q * s1) mod P32) mod P32
         in euclid_loop r1' r1 s1' s1))"

definition extended_euclid_rev :: "u32 \<Rightarrow> u32 \<Rightarrow> (u32 \<times> u32) option" where
  "extended_euclid_rev a b = euclid_loop a b 1 0"

definition mod_inverse :: "u16 \<Rightarrow> u16 option" where
  "mod_inverse x = map_option (\<lambda>(r, inv). ucast inv) (extended_euclid_rev (ucast x) P32)"

definition share_d1 :: "('g \<Rightarrow> u16 \<times> 'g) \<Rightarrow> u16 \<Rightarrow> 'g \<Rightarrow> (u16 list \<times> 'g) option" where
  "share_d1 gen secret g =
     map_option (\<lambda>(r, g').
       let coeff = ucast r :: u32;
           share0 = ucast ((ucast secret + coeff) mod P32) :: u16;
           share1 = ucast ((ucast share0 + coeff) mod P32) :: u16;
           share2 = ucast ((ucast share1 + coeff) mod P32) :: u16
       in ([share0, share1, share2], g')) (random_fp gen g)"

definition my_lagrange_coeff_d1 :: "PartyID \<Rightarrow> PartyID \<Rightarrow> u16 option" where
  "my_lagrange_coeff_d1 p q =
     (let i = of_nat (usize_from_party p + 1) :: u32;
          j = of_nat (usize_from_party q + 1) :: u32;
          num = j;
          den = (1 * ((j + P32 - i) mod P32)) mod P32
      in map_option (\<lambda>inv. ucast ((num * ucast inv) mod P32)) (mod_inverse (ucast den)))"

definition my_lagrange_coeff_d2 :: "PartyID \<Rightarrow> u16 option" where
  "my_lagrange_coeff_d2 p =
     (let i = of_nat (usize_from_party p + 1) :: u32;
          (num, den) = fold (\<lambda>j (num, den).
             if i \<noteq> j then ((num * j) mod P32, (den * ((j + P32 - i) mod P32)) mod P32)
             else (num, den)) [1, 2, 3] (1, 1)
      in map_option (\<lambda>inv. ucast ((num * ucast inv) mod P32)) (mod_inverse (ucast den)))"

section \<open>The modulus\<close>

lemma P_val: "P = 65519"
  by (simp add: P_def)

lemma P32_val: "P32 = 65519"
  by (simp add: P32_def P_val)

lemma unat_P: "unat P = 65519" and unat_P32: "unat P32 = 65519"
  by (simp_all add: P_val P32_val)

lemma P_no_small_divisor: "2 \<le> d \<Longrightarrow> d < 256 \<Longrightarrow> \<not> (d :: nat) dvd 65519"
proof -
  assume "2 \<le> d" "d < 256"
  then have "d \<in> set [2..<256]" by (simp only: set_upt atLeastLessThan_iff)
  moreover have "list_all (\<lambda>d. (65519 :: nat) mod d \<noteq> 0) [2..<256]"
    by (simp add: upt_rec_numeral)
  ultimately have "(65519 :: nat) mod d \<noteq> 0" unfolding list_all_iff by blast
  then show "\<not> d dvd 65519" by (simp add: dvd_eq_mod_eq_0)
qed

lemma coprime_P:
  assumes "0 < x" "x < (65519 :: nat)"
  shows "gcd x 65519 = 1"
proof (rule ccontr)
  let ?g = "gcd x 65519"
  assume "?g \<noteq> 1"
  moreover have "?g \<noteq> 0" using assms by simp
  ultimately have g2: "2 \<le> ?g" by linarith
  have "?g \<le> x" using assms by (simp add: dvd_imp_le)
  obtain k where k: "65519 = ?g * k" using gcd_dvd2 by (metis dvdE)
  have "k \<noteq> 0" using k by (metis mult_0_right zero_neq_numeral)
  moreover have "k \<noteq> 1"
  proof
    assume "k = 1"
    with k have "65519 = ?g" by (metis mult.right_neutral)
    with \<open>?g \<le> x\<close> assms(2) show False by linarith
  qed
  ultimately have k2: "2 \<le> k" by linarith
  show False
  proof (cases "?g < 256")
    case True
    with g2 P_no_small_divisor [of ?g] show False by simp
  next
    case False
    have "k < 256"
    proof (rule ccontr)
      assume "\<not> k < 256"
      with False have "256 * 256 \<le> ?g * k" by (intro mult_le_mono) auto
      with k show False by simp
    qed
    moreover have "k dvd 65519" using k by (metis dvd_triv_right)
    ultimately show False using k2 P_no_small_divisor by blast
  qed
qed

section \<open>The extended Euclidean algorithm\<close>

text \<open>One iteration on the natural numbers: nothing wraps as long as the loop invariant holds.\<close>

lemma euclid_r_step:
  assumes "unat r0 \<le> 65519" "0 < r1" "unat r1 < 65519"
  shows "unat ((r0 + P32 - (r0 div r1 * r1) mod P32) mod P32) = unat r0 mod unat r1"
proof -
  let ?a = "unat r0" and ?b = "unat r1"
  have b: "0 < ?b" using assms(2) by (simp add: word_gt_0 unat_gt_0)
  have qb: "?a div ?b * ?b \<le> ?a" by (metis div_times_less_eq_dividend)
  have "?a div ?b * ?b < 4294967296" using qb assms(1) by linarith
  then have "unat (r0 div r1 * r1) = ?a div ?b * ?b"
    by (simp add: unat_word_ariths(2) unat_div)
  then have m: "unat ((r0 div r1 * r1) mod P32) = (?a div ?b * ?b) mod 65519"
    by (simp only: unat_mod unat_P32)
  have "(?a div ?b * ?b) mod 65519 \<le> 65519" by simp
  then have "unat (r0 + P32 - (r0 div r1 * r1) mod P32) = ?a + 65519 - (?a div ?b * ?b) mod 65519"
    using assms(1) m by (simp add: unat_sub_if' unat_word_ariths word_le_nat_alt P32_val)
  then have "unat ((r0 + P32 - (r0 div r1 * r1) mod P32) mod P32)
      = (?a + 65519 - (?a div ?b * ?b) mod 65519) mod 65519"
    by (simp add: unat_mod P32_val)
  also have "\<dots> = ?a mod ?b"
  proof (cases "?a div ?b * ?b = 65519")
    case True
    with qb assms(1) have a: "?a = 65519" by linarith
    moreover have "?a mod ?b = ?a - ?a div ?b * ?b" by (simp only: minus_div_mult_eq_mod)
    ultimately show ?thesis using True by simp
  next
    case False
    with qb assms(1) have lt: "?a div ?b * ?b < 65519" by linarith
    then have "?a + 65519 - (?a div ?b * ?b) mod 65519 = ?a mod ?b + 65519"
      using qb by (simp add: minus_div_mult_eq_mod [symmetric])
    moreover have "?a mod ?b < 65519" using b assms(3) by (meson less_trans mod_less_divisor)
    ultimately show ?thesis by simp
  qed
  finally show ?thesis .
qed

lemma euclid_s_step:
  assumes "unat s0 < 65519" "unat s1 < 65519" "unat q \<le> 65519"
  shows "int (unat ((s0 + P32 - (q * s1) mod P32) mod P32))
       = (int (unat s0) - int (unat q) * int (unat s1)) mod 65519"
proof -
  have "unat q * unat s1 \<le> 65519 * 65518" using assms by (intro mult_le_mono) auto
  then have m: "unat ((q * s1) mod P32) = (unat q * unat s1) mod 65519"
    by (simp add: unat_mod unat_word_ariths P32_val)
  have "(unat q * unat s1) mod 65519 \<le> 65519" by simp
  then have "unat (s0 + P32 - (q * s1) mod P32) = unat s0 + 65519 - (unat q * unat s1) mod 65519"
    using assms(1) m by (simp add: unat_sub_if' unat_word_ariths word_le_nat_alt P32_val)
  then have "unat ((s0 + P32 - (q * s1) mod P32) mod P32)
      = (unat s0 + 65519 - (unat q * unat s1) mod 65519) mod 65519"
    by (simp add: unat_mod P32_val)
  then have "int (unat ((s0 + P32 - (q * s1) mod P32) mod P32))
      = (int (unat s0) + 65519 - (int (unat q) * int (unat s1)) mod 65519) mod 65519"
    by (simp add: of_nat_mod of_nat_diff)
  also have "\<dots> = (int (unat s0) - int (unat q) * int (unat s1)) mod 65519"
  proof -
    have "(int (unat s0) + 65519 - (int (unat q) * int (unat s1)) mod 65519) mod 65519
        = (int (unat s0) + 65519 - int (unat q) * int (unat s1)) mod 65519"
      by (rule mod_diff_right_eq)
    also have "int (unat s0) + 65519 - int (unat q) * int (unat s1)
        = int (unat s0) - int (unat q) * int (unat s1) + 65519" by simp
    finally show ?thesis by (simp only: mod_add_self2)
  qed
  finally show ?thesis .
qed

text \<open>
  The loop invariant, for the inverse of \<open>x\<close>: the remainders stay below the modulus, are coprime,
  and each remainder is its Bezout coefficient times \<open>x\<close> modulo \<open>P\<close>.
\<close>

definition euclid_inv :: "nat \<Rightarrow> u32 \<Rightarrow> u32 \<Rightarrow> u32 \<Rightarrow> u32 \<Rightarrow> bool" where
  "euclid_inv x r1 r0 s1 s0 \<longleftrightarrow>
     unat r0 \<le> 65519 \<and> unat r1 < 65519 \<and> unat s0 < 65519 \<and> unat s1 < 65519
     \<and> gcd (unat r0) (unat r1) = 1
     \<and> 65519 dvd int (unat s0) * int x - int (unat r0)
     \<and> 65519 dvd int (unat s1) * int x - int (unat r1)"

lemma euclid_loop_step:
  "0 < r1 \<Longrightarrow> euclid_loop r1 r0 s1 s0 =
     euclid_loop ((r0 + P32 - (r0 div r1 * r1) mod P32) mod P32) r1
       ((s0 + P32 - (r0 div r1 * s1) mod P32) mod P32) s1"
  by (subst euclid_loop.simps) (simp add: Let_def word_gt_0)

lemma dvd_combine:
  fixes d q s0 s1 s2 x r0 r1 r2 :: int
  assumes "d dvd s0 * x - r0" "d dvd s1 * x - r1" "d dvd s2 - (s0 - q * s1)" "r2 = r0 - q * r1"
  shows "d dvd s2 * x - r2"
proof -
  have "s2 * x - r2 = (s2 - (s0 - q * s1)) * x + (s0 * x - r0) - q * (s1 * x - r1)"
    by (simp add: assms(4) algebra_simps)
  with assms(1-3) show ?thesis by (metis dvd_add dvd_diff dvd_mult dvd_mult2)
qed

lemma euclid_inv_step:
  assumes inv: "euclid_inv x r1 r0 s1 s0" and r1: "0 < r1"
  defines "r2 \<equiv> (r0 + P32 - (r0 div r1 * r1) mod P32) mod P32"
    and "s2 \<equiv> (s0 + P32 - (r0 div r1 * s1) mod P32) mod P32"
  shows "euclid_inv x r2 r1 s2 s1" "unat r2 < unat r1"
proof -
  from inv have b: "unat r0 \<le> 65519" "unat r1 < 65519" "unat s0 < 65519" "unat s1 < 65519"
    and g: "gcd (unat r0) (unat r1) = 1"
    and d0: "65519 dvd int (unat s0) * int x - int (unat r0)"
    and d1: "65519 dvd int (unat s1) * int x - int (unat r1)"
    unfolding euclid_inv_def by auto
  have pos: "0 < unat r1" using r1 by (simp add: unat_gt_0)
  have r2: "unat r2 = unat r0 mod unat r1" unfolding r2_def by (rule euclid_r_step [OF b(1) r1 b(2)])
  then show lt: "unat r2 < unat r1" using pos by simp
  have q: "unat (r0 div r1) = unat r0 div unat r1" by (simp add: unat_div)
  have "unat (r0 div r1) \<le> 65519" unfolding q using b(1) by (meson div_le_dividend order_trans)
  from euclid_s_step [OF b(3,4) this]
  have s2: "int (unat s2) = (int (unat s0) - int (unat (r0 div r1)) * int (unat s1)) mod 65519"
    unfolding s2_def .
  then have s2_lt: "unat s2 < 65519" by (metis of_nat_less_iff of_nat_numeral pos_mod_bound zero_less_numeral)
  have ds: "65519 dvd int (unat s2) - (int (unat s0) - int (unat (r0 div r1)) * int (unat s1))"
    unfolding s2 by (simp add: mod_eq_dvd_iff [symmetric])
  have "int (unat r2) = int (unat r0) - int (unat (r0 div r1)) * int (unat r1)"
    unfolding r2 q by (simp add: of_nat_mod of_nat_div minus_div_mult_eq_mod)
  from dvd_combine [OF d0 d1 ds this] have d2: "65519 dvd int (unat s2) * int x - int (unat r2)" .
  have "gcd (unat r1) (unat r2) = 1" using g unfolding r2 by (metis gcd_red_nat)
  with b lt s2_lt d1 d2 show "euclid_inv x r2 r1 s2 s1" unfolding euclid_inv_def by simp
qed

lemma euclid_loop_correct:
  "euclid_inv x r1 r0 s1 s0 \<Longrightarrow>
     \<exists>r s. euclid_loop r1 r0 s1 s0 = Some (r, s) \<and> unat s < 65519 \<and> 65519 dvd int (unat s) * int x - 1"
proof (induction "unat r1" arbitrary: r1 r0 s1 s0 rule: less_induct)
  case less
  show ?case
  proof (cases "r1 = 0")
    case True
    from less.prems have s0: "unat s0 < 65519" and d: "65519 dvd int (unat s0) * int x - int (unat r0)"
      and g: "gcd (unat r0) (unat r1) = 1" unfolding euclid_inv_def by blast+
    from g True have "int (unat r0) = 1" by (simp only: unat_0 gcd_0_nat of_nat_1)
    with s0 d have "unat s0 < 65519 \<and> 65519 dvd int (unat s0) * int x - 1" by (simp only:)
    moreover have "euclid_loop r1 r0 s1 s0 = Some (r0, s0)" using True by (simp add: euclid_loop.simps)
    ultimately show ?thesis by blast
  next
    case False
    then have pos: "0 < r1" by (simp add: word_gt_0)
    show ?thesis
      unfolding euclid_loop_step [OF pos]
      using less.hyps [OF euclid_inv_step(2) [OF less.prems pos] euclid_inv_step(1) [OF less.prems pos]] .
  qed
qed

lemma mod_inverse_correct:
  assumes "0 < x" "x < P"
  shows "\<exists>y. mod_inverse x = Some y \<and> y < P \<and> (unat x * unat y) mod 65519 = 1"
proof -
  have x: "0 < unat x" "unat x < 65519"
    using assms by (simp_all add: unat_gt_0 word_gt_0 word_less_nat_alt P_val)
  have ux: "unat (ucast x :: u32) = unat x" by (simp add: unat_ucast_up)
  have "euclid_inv (unat x) (ucast x) P32 1 0"
    using x coprime_P [OF x] ux unfolding euclid_inv_def
    by (simp add: unat_P32 gcd.commute)
  then obtain r s where rs: "euclid_loop (ucast x) P32 1 0 = Some (r, s)" "unat s < 65519"
      "65519 dvd int (unat s) * int (unat x) - 1"
    using euclid_loop_correct by blast
  let ?y = "ucast s :: u16"
  have uy: "unat ?y = unat s" using rs(2) by (simp add: unat_ucast_less)
  have "(int (unat s) * int (unat x)) mod 65519 = 1"
    using rs(3) by (simp add: mod_eq_dvd_iff [symmetric])
  then have "int ((unat x * unat ?y) mod 65519) = 1"
    unfolding uy by (simp add: of_nat_mod mult.commute)
  then have "(unat x * unat ?y) mod 65519 = 1" by linarith
  moreover have "?y < P" using rs(2) uy by (simp add: word_less_nat_alt unat_P)
  moreover have "mod_inverse x = Some ?y"
    by (simp add: mod_inverse_def extended_euclid_rev_def rs(1))
  ultimately show ?thesis by blast
qed

lemma mod_inverse_eqI:
  assumes "0 < x" "x < P" "y < P" "(unat x * unat y) mod 65519 = 1"
  shows "mod_inverse x = Some y"
proof -
  obtain z where z: "mod_inverse x = Some z" "z < P" "(unat x * unat z) mod 65519 = 1"
    using mod_inverse_correct [OF assms(1,2)] by blast
  have "(unat z * (unat x * unat y)) mod 65519 = unat z mod 65519"
    using assms(4) by (metis mod_mult_right_eq mult.right_neutral)
  moreover have "(unat z * (unat x * unat y)) mod 65519 = unat y mod 65519"
    using z(3) by (metis mod_mult_left_eq mult.assoc mult.commute mult_1)
  ultimately have "unat z = unat y"
    using z(2) assms(3) by (simp add: word_less_nat_alt unat_P)
  then have "z = y" by (simp add: word_unat_eq_iff)
  with z(1) show ?thesis by simp
qed

lemma mod_inverse_small:
  "mod_inverse 1 = Some 1" "mod_inverse 2 = Some 32760"
  "mod_inverse 65518 = Some 65518" "mod_inverse 65517 = Some 32759"
  by (rule mod_inverse_eqI; simp add: P_val)+

section \<open>Sharing\<close>

text \<open>Rejection sampling returns a field element, and returns as soon as the generator offers one.\<close>

lemma random_fp_unfold:
  "random_fp gen g = (if P \<le> fst (gen g) then random_fp gen (snd (gen g)) else Some (gen g))"
  by (subst random_fp.simps) (simp split: prod.split)

lemma random_fp_range:
  assumes "random_fp gen g = Some (r, g')"
  shows "r < P"
proof -
  have "(\<lambda>g x. fst x < P) g (r, g')"
  proof (rule random_fp.raw_induct [where P = "\<lambda>_ g x. fst x < P", OF _ assms])
    fix f gen and g :: 'a and x
    assume "\<And>gen g x. f gen g = Some x \<Longrightarrow> fst x < P"
      and "(case gen g of (r, g') \<Rightarrow> if P \<le> r then f gen g' else Some (r, g')) = Some x"
    then show "fst x < P" by (cases "gen g"; cases x) (auto simp: not_le split: if_splits)
  qed
  then show ?thesis by simp
qed

fun after_draws :: "('g \<Rightarrow> u16 \<times> 'g) \<Rightarrow> nat \<Rightarrow> 'g \<Rightarrow> 'g" where
  "after_draws gen 0 g = g"
| "after_draws gen (Suc n) g = after_draws gen n (snd (gen g))"

lemma random_fp_returns:
  assumes "\<And>k. k < n \<Longrightarrow> P \<le> fst (gen (after_draws gen k g))" "fst (gen (after_draws gen n g)) < P"
  shows "random_fp gen g = Some (gen (after_draws gen n g))"
  using assms
proof (induction n arbitrary: g)
  case 0
  then show ?case by (subst random_fp_unfold) (simp add: not_le [symmetric])
next
  case (Suc n)
  have "P \<le> fst (gen g)" using Suc.prems(1) [of 0] by simp
  moreover have "random_fp gen (snd (gen g)) = Some (gen (after_draws gen n (snd (gen g))))"
    using Suc.IH [of "snd (gen g)"] Suc.prems(1) [of "Suc _"] Suc.prems(2) by simp
  ultimately show ?case by (subst random_fp_unfold) simp
qed

lemma share_d1_Some:
  assumes "share_d1 gen secret g = Some (shares, g')"
  obtains r where "r < P"
    and "\<forall>a < 3. unat (shares ! a) = (unat secret + (a + 1) * unat r) mod 65519"
proof -
  from assms obtain r where r: "random_fp gen g = Some (r, g')"
    and shares: "shares = (let coeff = ucast r :: u32;
           share0 = ucast ((ucast secret + coeff) mod P32) :: u16;
           share1 = ucast ((ucast share0 + coeff) mod P32) :: u16;
           share2 = ucast ((ucast share1 + coeff) mod P32) :: u16
       in [share0, share1, share2])"
    by (auto simp: share_d1_def Let_def)
  have step: "unat (ucast ((ucast (a :: u16) + ucast (b :: u16)) mod P32 :: u32) :: u16)
      = (unat a + unat b) mod 65519" for a b
  proof -
    have "unat (ucast a + ucast b :: u32) = unat a + unat b"
      using unsigned_less [of a, where ?'a = nat] unsigned_less [of b, where ?'a = nat]
      by (simp add: unat_word_ariths unat_ucast_up)
    then have m: "unat ((ucast a + ucast b :: u32) mod P32) = (unat a + unat b) mod 65519"
      by (simp add: unat_mod unat_P32)
    moreover have "(unat a + unat b) mod 65519 < 65519" by simp
    ultimately show ?thesis by (subst unat_ucast_less) simp_all
  qed
  have "unat (shares ! a) = (unat secret + (a + 1) * unat r) mod 65519" if "a < 3" for a
  proof -
    from that consider "a = 0" | "a = 1" | "a = 2" by linarith
    then show ?thesis
      by cases (simp_all add: shares Let_def step mod_simps numeral_2_eq_2 numeral_3_eq_3 add.assoc
          add.left_commute)
  qed
  with random_fp_range [OF r] show ?thesis by (intro that) auto
qed

lemma interpolate_2_points:
  fixes s r a b L M k m p :: nat
  assumes "L + M = 1 + p * k" "a * L + b * M = p * m"
  shows "(((s + a * r) mod p * L) mod p + ((s + b * r) mod p * M) mod p) mod p = s mod p"
proof -
  have "(s + a * r) * L + (s + b * r) * M = s * (L + M) + r * (a * L + b * M)"
    by (simp add: algebra_simps)
  also have "\<dots> = s + p * (s * k + r * m)" unfolding assms by (simp add: algebra_simps)
  finally show ?thesis by (simp add: mod_simps)
qed

lemma lagrange_d1_values:
  "my_lagrange_coeff_d1 ID0 ID1 = Some 2" "my_lagrange_coeff_d1 ID1 ID0 = Some 65518"
  "my_lagrange_coeff_d1 ID0 ID2 = Some 32761" "my_lagrange_coeff_d1 ID2 ID0 = Some 32759"
  "my_lagrange_coeff_d1 ID1 ID2 = Some 3" "my_lagrange_coeff_d1 ID2 ID1 = Some 65517"
  by (simp_all add: my_lagrange_coeff_d1_def P32_val mod_inverse_small)

lemma lagrange_d1_sums:
  assumes "p \<noteq> q"
  shows "\<exists>lp lq k m. my_lagrange_coeff_d1 p q = Some lp \<and> my_lagrange_coeff_d1 q p = Some lq
    \<and> unat lp + unat lq = 1 + 65519 * k
    \<and> (usize_from_party p + 1) * unat lp + (usize_from_party q + 1) * unat lq = 65519 * m"
  using assms by (cases p; cases q; simp add: lagrange_d1_values; presburger)

lemma lagrange_d2_values:
  "my_lagrange_coeff_d2 ID0 = Some 3" "my_lagrange_coeff_d2 ID1 = Some 65516"
  "my_lagrange_coeff_d2 ID2 = Some 1"
  by (simp_all add: my_lagrange_coeff_d2_def P32_val mod_inverse_small)

text \<open>A small generator and a concrete sharing with it, to exercise the statements below.\<close>

definition lcg16 :: "u16 \<Rightarrow> u16 \<times> u16" where
  "lcg16 s = (s, s * 25173 + 13849)"

lemma share_d1_example: "share_d1 lcg16 4242 7 = Some ([4249, 4256, 4263], 58988)"
  by (simp add: share_d1_def random_fp_unfold [of lcg16 7] lcg16_def P_val P32_val Let_def)

lemma mod_add_3: "((x mod p) + (y mod p) + (z mod p)) mod p = (x + y + z) mod (p :: nat)"
proof -
  have "(x mod p + y mod p + z mod p) mod p = ((x mod p + y mod p) mod p + z mod p mod p) mod p"
    by (rule mod_add_eq [symmetric])
  also have "\<dots> = ((x + y) mod p + z mod p) mod p"
    unfolding mod_add_eq [of x p y] mod_mod_trivial ..
  also have "\<dots> = (x + y + z) mod p" by (rule mod_add_eq)
  finally show ?thesis .
qed

lemma interpolate_product:
  "((((s + 1 * r) mod 65519 * ((t + 1 * u) mod 65519)) mod 65519 * 3) mod 65519
    + (((s + 2 * r) mod 65519 * ((t + 2 * u) mod 65519)) mod 65519 * 65516) mod 65519
    + (((s + 3 * r) mod 65519 * ((t + 3 * u) mod 65519)) mod 65519 * 1) mod 65519) mod 65519
   = (s * t) mod (65519 :: nat)"
proof -
  have "(s + 1 * r) * (t + 1 * u) * 3 + (s + 2 * r) * (t + 2 * u) * 65516 + (s + 3 * r) * (t + 3 * u) * 1
      = s * t + 65519 * (s * t + 2 * (s * u + r * t) + 4 * (r * u))"
    by (simp add: algebra_simps)
  then show ?thesis unfolding mod_mult_eq unfolding mod_mult_left_eq mod_add_3 by (simp only: mod_mult_self2)
qed

section \<open>Properties\<close>

text \<open>C39: modular inversion. For every nonzero field element the extended Euclidean loop terminates and
  \<open>mod_inverse\<close> returns its inverse modulo the prime; no intermediate \<open>u32\<close> product, sum or difference
  wraps in a way that would change the result.\<close>

theorem mod_inverse_returns_inverse:
  assumes "0 < x" "x < P"
  shows "\<exists>y. mod_inverse x = Some y \<and> y < P \<and> (unat x * unat y) mod unat P = 1"
  using mod_inverse_correct [OF assms] by (simp add: unat_P)

theorem mod_inverse_returns_inverse_witness:
  "\<exists>y. mod_inverse 12345 = Some y \<and> y < P \<and> (12345 * unat y) mod unat P = 1"
  using mod_inverse_returns_inverse [of 12345] by (simp add: P_val)

text \<open>Rejection sampling. If the generator eventually yields a value below the prime, \<open>random_fp\<close>
  terminates with the first such value; and whatever it returns is a field element.\<close>

theorem random_fp_total_correctness:
  assumes "\<forall>k < n. P \<le> fst (gen (after_draws gen k g))" "fst (gen (after_draws gen n g)) < P"
  shows "random_fp gen g = Some (gen (after_draws gen n g))
    \<and> (\<forall>h r h'. random_fp gen h = Some (r, h') \<longrightarrow> r < P)"
proof (intro conjI allI impI)
  show "random_fp gen g = Some (gen (after_draws gen n g))"
    by (rule random_fp_returns) (use assms in auto)
qed (rule random_fp_range)

theorem random_fp_total_correctness_witness:
  "random_fp (\<lambda>s. (s, s + 7)) (65530 :: u16) = Some (1, 8)"
  using random_fp_total_correctness [of 1 "\<lambda>s. (s, s + 7)" "65530 :: u16"] by (simp add: P_val)

text \<open>Field sharing and reconstruction. Whenever \<open>share_d1\<close> returns, the shares of any two distinct
  parties weighted with their degree-1 Lagrange coefficients give back the secret modulo the prime.\<close>

theorem share_d1_reconstruction:
  assumes "share_d1 gen secret g = Some (shares, g')" "p \<noteq> q"
  shows "\<exists>lp lq. my_lagrange_coeff_d1 p q = Some lp \<and> my_lagrange_coeff_d1 q p = Some lq
    \<and> ((unat (shares ! usize_from_party p) * unat lp) mod 65519
        + (unat (shares ! usize_from_party q) * unat lq) mod 65519) mod 65519 = unat secret mod 65519"
proof -
  obtain r where "r < P"
    and r: "\<forall>a < 3. unat (shares ! a) = (unat secret + (a + 1) * unat r) mod 65519"
    using share_d1_Some [OF assms(1)] .
  note sh = r [rule_format, OF usize_from_party_less]
  from lagrange_d1_sums [OF assms(2)] obtain lp lq k m
    where l: "my_lagrange_coeff_d1 p q = Some lp" "my_lagrange_coeff_d1 q p = Some lq"
      and sums: "unat lp + unat lq = 1 + 65519 * k"
        "(usize_from_party p + 1) * unat lp + (usize_from_party q + 1) * unat lq = 65519 * m" by blast
  with interpolate_2_points [OF sums, of "unat secret" "unat r"] show ?thesis
    unfolding sh by blast
qed

theorem share_d1_reconstruction_witness:
  "\<exists>lp lq. my_lagrange_coeff_d1 ID0 ID2 = Some lp \<and> my_lagrange_coeff_d1 ID2 ID0 = Some lq
    \<and> ((4249 * unat lp) mod 65519 + (4263 * unat lq) mod 65519) mod 65519 = 4242"
  using share_d1_reconstruction [OF share_d1_example, of ID0 ID2] by simp

text \<open>Field multiplication. Multiplying two degree-1 sharings share by share gives a degree-2 sharing
  of the product: the three coefficients of \<open>my_lagrange_coeff_d2\<close> exist and reconstruct it.\<close>

theorem share_d1_product_reconstruction:
  assumes "share_d1 gen a g = Some (xs, g')" "share_d1 gen b h = Some (ys, h')"
  shows "\<exists>l0 l1 l2. my_lagrange_coeff_d2 ID0 = Some l0 \<and> my_lagrange_coeff_d2 ID1 = Some l1
    \<and> my_lagrange_coeff_d2 ID2 = Some l2
    \<and> (((unat (xs ! 0) * unat (ys ! 0)) mod 65519 * unat l0) mod 65519
        + ((unat (xs ! 1) * unat (ys ! 1)) mod 65519 * unat l1) mod 65519
        + ((unat (xs ! 2) * unat (ys ! 2)) mod 65519 * unat l2) mod 65519) mod 65519
      = (unat a * unat b) mod 65519"
proof -
  obtain r where "r < P" and r: "\<forall>k < 3. unat (xs ! k) = (unat a + (k + 1) * unat r) mod 65519"
    using share_d1_Some [OF assms(1)] .
  obtain u where "u < P" and u: "\<forall>k < 3. unat (ys ! k) = (unat b + (k + 1) * unat u) mod 65519"
    using share_d1_Some [OF assms(2)] .
  have eq: "((unat (xs ! 0) * unat (ys ! 0)) mod 65519 * 3) mod 65519
      + ((unat (xs ! 1) * unat (ys ! 1)) mod 65519 * 65516) mod 65519
      + ((unat (xs ! 2) * unat (ys ! 2)) mod 65519 * 1) mod 65519
    = (((unat a + 1 * unat r) mod 65519 * ((unat b + 1 * unat u) mod 65519)) mod 65519 * 3) mod 65519
      + (((unat a + 2 * unat r) mod 65519 * ((unat b + 2 * unat u) mod 65519)) mod 65519 * 65516) mod 65519
      + (((unat a + 3 * unat r) mod 65519 * ((unat b + 3 * unat u) mod 65519)) mod 65519 * 1) mod 65519"
    using r [rule_format, of 0] r [rule_format, of 1] r [rule_format, of 2]
      u [rule_format, of 0] u [rule_format, of 1] u [rule_format, of 2] by (simp add: mult_2)
  have n: "unat (3 :: u16) = 3" "unat (65516 :: u16) = 65516" "unat (1 :: u16) = 1" by simp_all
  show ?thesis
  proof (intro exI conjI)
    show "(((unat (xs ! 0) * unat (ys ! 0)) mod 65519 * unat (3 :: u16)) mod 65519
        + ((unat (xs ! 1) * unat (ys ! 1)) mod 65519 * unat (65516 :: u16)) mod 65519
        + ((unat (xs ! 2) * unat (ys ! 2)) mod 65519 * unat (1 :: u16)) mod 65519) mod 65519
      = (unat a * unat b) mod 65519"
      unfolding n eq by (rule interpolate_product)
  qed (rule lagrange_d2_values)+
qed

theorem share_d1_product_reconstruction_witness:
  "\<exists>l0 l1 l2. my_lagrange_coeff_d2 ID0 = Some l0 \<and> my_lagrange_coeff_d2 ID1 = Some l1
    \<and> my_lagrange_coeff_d2 ID2 = Some l2
    \<and> (((4249 * 4249) mod 65519 * unat l0) mod 65519 + ((4256 * 4256) mod 65519 * unat l1) mod 65519
        + ((4263 * 4263) mod 65519 * unat l2) mod 65519) mod 65519 = (4242 * 4242) mod 65519"
  using share_d1_product_reconstruction [OF share_d1_example share_d1_example] by simp

end
