(* ===== verification/IrisCode.thy ===== *)
theory IrisCode
  imports Complex_Main Parties
begin

text \<open>
  Iris codes (\<open>iris-mpc-common/src/iris_db/iris.rs\<close>) and the plaintext database of
  \<open>iris_db/db.rs\<close>. An \<open>IrisCodeArray\<close> is its 200 \<open>u64\<close> words; \<open>wf_array\<close> is the length that the
  Rust array type guarantees, and an index past the array panics. The distance is the exact
  quotient of two counts; \<open>None\<close> is the NaN that \<open>f64\<close> gives for an empty common mask.
\<close>

section \<open>IrisCodeArray\<close>

type_synonym IrisCodeArray = "u64 list"

definition IRIS_CODE_SIZE :: nat where
  "IRIS_CODE_SIZE = 12800"

definition IRIS_CODE_SIZE_U64 :: nat where
  "IRIS_CODE_SIZE_U64 = (IRIS_CODE_SIZE + 63) div 64"

definition wf_array :: "IrisCodeArray \<Rightarrow> bool" where
  "wf_array c \<longleftrightarrow> length c = IRIS_CODE_SIZE_U64"

definition array_ZERO :: IrisCodeArray where
  "array_ZERO = replicate IRIS_CODE_SIZE_U64 0"

definition array_ONES :: IrisCodeArray where
  "array_ONES = replicate IRIS_CODE_SIZE_U64 (- 1)"

definition set_bit_at :: "IrisCodeArray \<Rightarrow> nat \<Rightarrow> bool \<Rightarrow> IrisCodeArray result" where
  "set_bit_at c i val =
     (let w = i div 64; b = i mod 64 in
      if length c \<le> w then index_out_of_bounds
      else if val then Inr (c[w := c ! w OR push_bit b 1])
      else Inr (c[w := c ! w AND NOT (push_bit b 1)]))"

definition get_bit :: "IrisCodeArray \<Rightarrow> nat \<Rightarrow> bool result" where
  "get_bit c i =
     (let w = i div 64; b = i mod 64 in
      if length c \<le> w then index_out_of_bounds
      else Inr (drop_bit b (c ! w) AND 1 = 1))"

definition flip_bit_at :: "IrisCodeArray \<Rightarrow> nat \<Rightarrow> IrisCodeArray result" where
  "flip_bit_at c i =
     (let w = i div 64; b = i mod 64 in
      if length c \<le> w then index_out_of_bounds
      else Inr (c[w := c ! w XOR push_bit b 1]))"

definition count_ones_u64 :: "u64 \<Rightarrow> nat" where
  "count_ones_u64 w = length (filter (bit w) [0..<64])"

definition count_ones :: "IrisCodeArray \<Rightarrow> nat" where
  "count_ones c = sum_list (map count_ones_u64 c)"

definition array_and :: "IrisCodeArray \<Rightarrow> IrisCodeArray \<Rightarrow> IrisCodeArray" where
  "array_and x y = map (\<lambda>i. x ! i AND y ! i) [0..<IRIS_CODE_SIZE_U64]"

definition array_xor :: "IrisCodeArray \<Rightarrow> IrisCodeArray \<Rightarrow> IrisCodeArray" where
  "array_xor x y = map (\<lambda>i. x ! i XOR y ! i) [0..<IRIS_CODE_SIZE_U64]"

text \<open>The bit iterator keeps the word it is shifting out and the index of the next bit.\<close>

record Bits =
  bits_code :: IrisCodeArray
  bits_current :: u64
  bits_index :: nat

definition array_bits :: "IrisCodeArray \<Rightarrow> Bits" where
  "array_bits c = \<lparr>bits_code = c, bits_current = 0, bits_index = 0\<rparr>"

definition bits_next :: "Bits \<Rightarrow> (bool \<times> Bits) option" where
  "bits_next it =
     (if IRIS_CODE_SIZE \<le> bits_index it then None
      else
        (let cur = (if bits_index it mod 64 = 0 then bits_code it ! (bits_index it div 64)
                    else bits_current it)
         in Some (cur AND 1 = 1,
                  it\<lparr>bits_current := drop_bit 1 cur, bits_index := bits_index it + 1\<rparr>)))"

definition bits_size_hint :: "Bits \<Rightarrow> nat" where
  "bits_size_hint it = IRIS_CODE_SIZE - bits_index it"

function bits_collect :: "Bits \<Rightarrow> bool list" where
  "bits_collect it = (case bits_next it of None \<Rightarrow> [] | Some (b, it') \<Rightarrow> b # bits_collect it')"
  by pat_completeness auto
termination
  by (relation "measure bits_size_hint")
    (auto simp: bits_next_def bits_size_hint_def Let_def split: if_splits)

declare bits_collect.simps [simp del]

text \<open>
  The Open IRIS text form: every word bit-reversed and written big endian, then base64. The base64
  coding of the \<open>base64\<close> crate is a parameter.
\<close>

definition to_be_bytes :: "u64 \<Rightarrow> u8 list" where
  "to_be_bytes w = map (\<lambda>i. ucast (drop_bit (56 - 8 * i) w)) [0..<8]"

definition from_be_bytes :: "u8 list \<Rightarrow> u64" where
  "from_be_bytes bs = foldl (\<lambda>acc b. push_bit 8 acc OR ucast b) 0 bs"

definition array_to_base64 :: "(u8 list \<Rightarrow> string) \<Rightarrow> IrisCodeArray \<Rightarrow> string" where
  "array_to_base64 encode c = encode (concat (map (\<lambda>x. to_be_bytes (word_reverse x)) c))"

definition array_from_base64 :: "(string \<Rightarrow> u8 list result) \<Rightarrow> string \<Rightarrow> IrisCodeArray result" where
  "array_from_base64 decode s =
     rbind (decode s) (\<lambda>bytes.
       if length bytes mod 8 \<noteq> 0 then Inl (Eyre ''Invalid length for u64 array'')
       else
         (let ws = map (\<lambda>chunk. word_reverse (from_be_bytes chunk)) (chunks_exact 8 bytes)
          in if length ws = IRIS_CODE_SIZE_U64 then Inr ws
             else Inl (Eyre ''Expected exactly 200 elements'')))"

section \<open>IrisCode\<close>

record IrisCode =
  code :: IrisCodeArray
  mask :: IrisCodeArray

definition wf_iris :: "IrisCode \<Rightarrow> bool" where
  "wf_iris x \<longleftrightarrow> wf_array (code x) \<and> wf_array (mask x)"

definition iris_default :: IrisCode where
  "iris_default = \<lparr>code = array_ZERO, mask = array_ONES\<rparr>"

text \<open>
  \<open>fill\<close> stands for \<open>rng.fill\<close> on the bytes of an array (200 words), \<open>gen_range\<close> for
  \<open>rng.gen_range(0..n)\<close> and \<open>sample\<close> for a draw of the Bernoulli distribution.
\<close>

fun clear_mask_pairs ::
    "(nat \<Rightarrow> 'g \<Rightarrow> nat \<times> 'g) \<Rightarrow> nat \<Rightarrow> IrisCodeArray \<Rightarrow> 'g \<Rightarrow> (IrisCodeArray \<times> 'g) result" where
  "clear_mask_pairs gen_range 0 m g = Inr (m, g)"
| "clear_mask_pairs gen_range (Suc n) m g =
     (let (i, g') = gen_range (IRIS_CODE_SIZE div 2) g in
      rbind (set_bit_at m (2 * i) False) (\<lambda>m1.
      rbind (set_bit_at m1 (2 * i + 1) False) (\<lambda>m2.
        clear_mask_pairs gen_range n m2 g')))"

definition iris_random_rng ::
    "('g \<Rightarrow> u64 list \<times> 'g) \<Rightarrow> (nat \<Rightarrow> 'g \<Rightarrow> nat \<times> 'g) \<Rightarrow> 'g \<Rightarrow> (IrisCode \<times> 'g) result" where
  "iris_random_rng fill gen_range g =
     (let (c, g') = fill g in
      rbind (clear_mask_pairs gen_range (IRIS_CODE_SIZE div 10 div 2) array_ONES g')
        (\<lambda>(m, g''). Inr (\<lparr>code = c, mask = m\<rparr>, g'')))"

definition get_distance :: "IrisCode \<Rightarrow> IrisCode \<Rightarrow> rat option" where
  "get_distance x y =
     (let combined_mask = array_and (mask x) (mask y);
          combined_mask_len = count_ones combined_mask;
          combined_code = array_and (array_xor (code x) (code y)) combined_mask;
          code_distance = count_ones combined_code
      in if combined_mask_len = 0 then None
         else Some (of_nat code_distance / of_nat combined_mask_len))"

definition MATCH_THRESHOLD_RATIO :: rat where
  "MATCH_THRESHOLD_RATIO = 3 / 8"

definition is_close :: "IrisCode \<Rightarrow> IrisCode \<Rightarrow> bool" where
  "is_close x y = (case get_distance x y of None \<Rightarrow> False | Some d \<Rightarrow> d < MATCH_THRESHOLD_RATIO)"

fun similar_loop :: "('g \<Rightarrow> bool \<times> 'g) \<Rightarrow> nat list \<Rightarrow> IrisCode \<Rightarrow> 'g \<Rightarrow> (IrisCode \<times> 'g) result" where
  "similar_loop sample [] res g = Inr (res, g)"
| "similar_loop sample (i # is) res g =
     (let (fc, g1) = sample g in
      rbind (if fc then flip_bit_at (code res) i else Inr (code res)) (\<lambda>c.
      let (fm, g2) = sample g1 in
      rbind (if fm then flip_bit_at (mask res) i else Inr (mask res)) (\<lambda>m.
        similar_loop sample is \<lparr>code = c, mask = m\<rparr> g2)))"

definition get_similar_iris :: "('g \<Rightarrow> bool \<times> 'g) \<Rightarrow> IrisCode \<Rightarrow> 'g \<Rightarrow> (IrisCode \<times> 'g) result" where
  "get_similar_iris sample x g = similar_loop sample [0..<IRIS_CODE_SIZE] x g"

section \<open>IrisDB\<close>

type_synonym IrisDB = "IrisCode list"

definition db_new :: IrisDB where
  "db_new = []"

definition db_is_empty :: "IrisDB \<Rightarrow> bool" where
  "db_is_empty db = (db = [])"

definition db_len :: "IrisDB \<Rightarrow> nat" where
  "db_len db = length db"

definition add_iris :: "IrisDB \<Rightarrow> IrisCode \<Rightarrow> IrisDB" where
  "add_iris db x = db @ [x]"

fun db_new_random_rng ::
    "('g \<Rightarrow> u64 list \<times> 'g) \<Rightarrow> (nat \<Rightarrow> 'g \<Rightarrow> nat \<times> 'g) \<Rightarrow> nat \<Rightarrow> 'g \<Rightarrow> (IrisDB \<times> 'g) result" where
  "db_new_random_rng fill gen_range 0 g = Inr ([], g)"
| "db_new_random_rng fill gen_range (Suc n) g =
     rbind (iris_random_rng fill gen_range g) (\<lambda>(x, g').
     rbind (db_new_random_rng fill gen_range n g') (\<lambda>(db, g''). Inr (x # db, g'')))"

definition iris_in_db :: "IrisDB \<Rightarrow> IrisCode \<Rightarrow> bool" where
  "iris_in_db db x = list_ex (\<lambda>y. is_close x y) db"

definition calculate_distances :: "IrisDB \<Rightarrow> IrisCode \<Rightarrow> rat option list" where
  "calculate_distances db x = map (\<lambda>y. get_distance x y) db"

section \<open>Facts about bits\<close>

lemma size_u64 [simp]: "IRIS_CODE_SIZE_U64 = 200"
  by (simp add: IRIS_CODE_SIZE_U64_def IRIS_CODE_SIZE_def)

lemma wf_array_length [simp]: "wf_array c \<Longrightarrow> length c = 200"
  by (simp add: wf_array_def)

lemma wf_arrays [simp]: "wf_array array_ZERO" "wf_array array_ONES"
  "wf_array (array_and x y)" "wf_array (array_xor x y)"
  by (simp_all add: wf_array_def array_ZERO_def array_ONES_def array_and_def array_xor_def)

text \<open>\<open>bit_at\<close> names the bit an index denotes; every operation is characterised by it.\<close>

definition bit_at :: "IrisCodeArray \<Rightarrow> nat \<Rightarrow> bool" where
  "bit_at c i = bit (c ! (i div 64)) (i mod 64)"

lemma index_in_array: "wf_array c \<Longrightarrow> i < IRIS_CODE_SIZE \<Longrightarrow> i div 64 < length c"
  by (simp add: IRIS_CODE_SIZE_def div_less_iff_less_mult)

lemma get_bit_eq: "wf_array c \<Longrightarrow> i < IRIS_CODE_SIZE \<Longrightarrow> get_bit c i = Inr (bit_at c i)"
  using index_in_array [of c i]
  by (simp add: get_bit_def bit_at_def Let_def not_le [symmetric] and_one_eq bit_iff_odd_drop_bit
      odd_iff_mod_2_eq_one)

lemma get_bit_out_of_range: "wf_array c \<Longrightarrow> IRIS_CODE_SIZE \<le> i \<Longrightarrow> get_bit c i = index_out_of_bounds"
  using div_le_mono [of 12800 i 64] by (simp add: get_bit_def Let_def IRIS_CODE_SIZE_def)

lemma set_bit_at_ok:
  assumes "wf_array c" "i < IRIS_CODE_SIZE"
  obtains c' where "set_bit_at c i v = Inr c'" "wf_array c'"
    "\<And>j. j < IRIS_CODE_SIZE \<Longrightarrow> bit_at c' j = (if j = i then v else bit_at c j)"
proof -
  let ?w = "if v then c ! (i div 64) OR push_bit (i mod 64) 1
            else c ! (i div 64) AND NOT (push_bit (i mod 64) 1)"
  let ?c = "c[i div 64 := ?w]"
  have lt: "i div 64 < length c" using index_in_array [OF assms] .
  have "set_bit_at c i v = Inr ?c"
    using lt by (simp add: set_bit_at_def Let_def not_le)
  moreover have "wf_array ?c" using assms(1) by (simp add: wf_array_def)
  moreover have "bit_at ?c j = (if j = i then v else bit_at c j)" if "j < IRIS_CODE_SIZE" for j
  proof (cases "j div 64 = i div 64")
    case True
    moreover have "j = i \<longleftrightarrow> j mod 64 = i mod 64" using True by (metis div_mult_mod_eq)
    ultimately show ?thesis using lt by (auto simp: bit_at_def bit_simps)
  next
    case False
    then show ?thesis by (auto simp: bit_at_def)
  qed
  ultimately show ?thesis by (rule that)
qed

lemma flip_bit_at_ok:
  assumes "wf_array c" "i < IRIS_CODE_SIZE"
  obtains c' where "flip_bit_at c i = Inr c'" "wf_array c'"
    "\<And>j. j < IRIS_CODE_SIZE \<Longrightarrow> bit_at c' j = (if j = i then \<not> bit_at c j else bit_at c j)"
proof -
  let ?c = "c[i div 64 := c ! (i div 64) XOR push_bit (i mod 64) 1]"
  have lt: "i div 64 < length c" using index_in_array [OF assms] .
  have "flip_bit_at c i = Inr ?c"
    using lt by (simp add: flip_bit_at_def Let_def not_le)
  moreover have "wf_array ?c" using assms(1) by (simp add: wf_array_def)
  moreover have "bit_at ?c j = (if j = i then \<not> bit_at c j else bit_at c j)" if "j < IRIS_CODE_SIZE" for j
  proof (cases "j div 64 = i div 64")
    case True
    moreover have "j = i \<longleftrightarrow> j mod 64 = i mod 64" using True by (metis div_mult_mod_eq)
    ultimately show ?thesis using lt by (auto simp: bit_at_def bit_simps)
  next
    case False
    then show ?thesis by (auto simp: bit_at_def)
  qed
  ultimately show ?thesis by (rule that)
qed

lemma bit_at_and: "i < IRIS_CODE_SIZE \<Longrightarrow> bit_at (array_and x y) i = (bit_at x i \<and> bit_at y i)"
  by (simp add: bit_at_def array_and_def IRIS_CODE_SIZE_def div_less_iff_less_mult bit_simps)

lemma bit_at_xor: "i < IRIS_CODE_SIZE \<Longrightarrow> bit_at (array_xor x y) i = (bit_at x i \<noteq> bit_at y i)"
  by (simp add: bit_at_def array_xor_def IRIS_CODE_SIZE_def div_less_iff_less_mult bit_simps)

lemma bit_at_ONES: "i < IRIS_CODE_SIZE \<Longrightarrow> bit_at array_ONES i"
  by (simp add: bit_at_def array_ONES_def IRIS_CODE_SIZE_def div_less_iff_less_mult bit_simps)

lemma bit_at_ZERO: "i < IRIS_CODE_SIZE \<Longrightarrow> \<not> bit_at array_ZERO i"
  by (simp add: bit_at_def array_ZERO_def IRIS_CODE_SIZE_def div_less_iff_less_mult)

lemma Inr_get_bit: "wf_array c \<Longrightarrow> get_bit c i = Inr b \<longleftrightarrow> i < IRIS_CODE_SIZE \<and> b = bit_at c i"
  by (cases "i < IRIS_CODE_SIZE") (auto simp: get_bit_eq get_bit_out_of_range index_out_of_bounds_def)


lemma count_ones_u64_sum: "count_ones_u64 w = (\<Sum>j<64. of_bool (bit w j))"
proof -
  have "length (filter (bit w) [0..<n]) = (\<Sum>j<n. of_bool (bit w j))" for n
    by (induction n) auto
  then show ?thesis by (simp add: count_ones_u64_def)
qed

lemma count_ones_sum:
  assumes "wf_array c"
  shows "count_ones c = (\<Sum>i<IRIS_CODE_SIZE. of_bool (bit_at c i))"
proof -
  have "count_ones c = (\<Sum>w<200. count_ones_u64 (c ! w))"
    using assms by (simp add: count_ones_def sum_list_sum_nth atLeast0LessThan)
  also have "\<dots> = (\<Sum>w<200. \<Sum>j<64. of_bool (bit_at c (w * 64 + j)))"
    by (rule sum.cong) (simp_all add: count_ones_u64_sum bit_at_def)
  also have "\<dots> = (\<Sum>i<200 * 64. of_bool (bit_at c i))"
    by (simp only: sum_lessThan_mult)
  finally show ?thesis by (simp add: IRIS_CODE_SIZE_def)
qed

lemma count_ones_card:
  "wf_array c \<Longrightarrow> count_ones c = card {i. i < IRIS_CODE_SIZE \<and> bit_at c i}"
  by (simp add: count_ones_sum lessThan_def Collect_conj_eq [symmetric])

lemma bits_collect_from:
  assumes "bits_code it = c" "bits_index it \<le> IRIS_CODE_SIZE"
    "bits_index it mod 64 \<noteq> 0 \<Longrightarrow>
       bits_current it = drop_bit (bits_index it mod 64) (c ! (bits_index it div 64))"
  shows "bits_collect it = map (bit_at c) [bits_index it..<IRIS_CODE_SIZE]"
  using assms
proof (induction it rule: bits_collect.induct)
  case (1 it)
  show ?case
  proof (cases "IRIS_CODE_SIZE \<le> bits_index it")
    case True
    then show ?thesis by (subst bits_collect.simps) (simp add: bits_next_def)
  next
    case False
    let ?i = "bits_index it"
    let ?cur = "drop_bit (?i mod 64) (c ! (?i div 64))"
    let ?it = "it\<lparr>bits_current := drop_bit 1 ?cur, bits_index := ?i + 1\<rparr>"
    have cur: "(if ?i mod 64 = 0 then bits_code it ! (?i div 64) else bits_current it) = ?cur"
      using "1.prems" by simp
    have "?cur AND 1 = 1 \<longleftrightarrow> bit_at c ?i"
      by (simp add: bit_at_def and_one_eq bit_iff_odd_drop_bit odd_iff_mod_2_eq_one)
    then have next_eq: "bits_next it = Some (bit_at c ?i, ?it)"
      using False by (simp only: bits_next_def cur Let_def if_False)
    have "drop_bit 1 ?cur = drop_bit ((?i + 1) mod 64) (c ! ((?i + 1) div 64))"
      if "(?i + 1) mod 64 \<noteq> 0"
    proof -
      have "(?i + 1) mod 64 = ?i mod 64 + 1" "(?i + 1) div 64 = ?i div 64"
        using that by (simp_all add: mod_Suc div_Suc split: if_splits)
      then show ?thesis by simp
    qed
    then have "bits_collect ?it = map (bit_at c) [?i + 1..<IRIS_CODE_SIZE]"
      using "1.IH" [OF next_eq refl] "1.prems" False by simp
    then show ?thesis
      using False by (subst bits_collect.simps) (simp add: next_eq upt_conv_Cons)
  qed
qed

lemma bits_collect_eq: "bits_collect (array_bits c) = map (bit_at c) [0..<IRIS_CODE_SIZE]"
  by (subst bits_collect_from [where c = c]) (simp_all add: array_bits_def)

text \<open>
  The bit iterator ends after exactly \<open>IRIS_CODE_SIZE\<close> items and yields the bits that
  \<open>get_bit\<close> reads, in index order.
\<close>

theorem bits_iterator_complete:
  assumes "wf_array c"
  shows "map Inr (bits_collect (array_bits c)) = map (get_bit c) [0..<IRIS_CODE_SIZE]"
  by (simp add: bits_collect_eq get_bit_eq assms)

theorem bits_iterator_complete_witness:
  "map Inr (bits_collect (array_bits array_ONES)) = map (get_bit array_ONES) [0..<IRIS_CODE_SIZE]"
  by (rule bits_iterator_complete) simp

section \<open>Text form\<close>

lemma length_to_be_bytes [simp]: "length (to_be_bytes w) = 8"
  by (simp add: to_be_bytes_def)

lemma be_step:
  "push_bit 8 (drop_bit (k + 8) w) OR ucast (ucast (drop_bit k w) :: u8) = drop_bit k (w :: u64)"
  by (rule bit_word_eqI) (auto simp: bit_simps not_less)

lemma be_bytes_roundtrip: "from_be_bytes (to_be_bytes w) = w"
proof -
  have eight: "[0..<8] = [0, 1, 2, 3, 4, 5, 6, 7 :: nat]" by (simp add: upt_rec)
  have top: "ucast (ucast (drop_bit 56 w) :: u8) = drop_bit 56 (w :: u64)"
    by (rule bit_word_eqI) (auto simp: bit_simps dest: bit_imp_le_length)
  show ?thesis
    using be_step [of 48 w] be_step [of 40 w] be_step [of 32 w] be_step [of 24 w]
      be_step [of 16 w] be_step [of 8 w] be_step [of 0 w]
    by (simp add: to_be_bytes_def from_be_bytes_def eight top)
qed

text \<open>
  \<open>from_base64\<close> recovers every array that \<open>to_base64\<close> wrote, for a base64 decoder that inverts
  the encoder.
\<close>

theorem array_base64_roundtrip:
  assumes "wf_array c" "\<And>bs. decode (encode bs) = Inr bs"
  shows "array_from_base64 decode (array_to_base64 encode c) = Inr c"
proof -
  let ?cs = "map (\<lambda>x. to_be_bytes (word_reverse x)) c"
  have len: "length (concat ?cs) = length c * 8"
    by (induction c) simp_all
  have "chunks_exact 8 (concat ?cs) = ?cs"
    by (rule chunks_exact_concat) auto
  then show ?thesis
    using assms by (simp add: array_from_base64_def array_to_base64_def len be_bytes_roundtrip comp_def)
qed

theorem array_base64_roundtrip_witness:
  "array_from_base64 (\<lambda>s. Inr (map (\<lambda>ch. of_nat (of_char ch)) s))
     (array_to_base64 (map (\<lambda>b. char_of (unat b))) array_ONES) = Inr array_ONES"
proof (rule array_base64_roundtrip)
  have "(of_nat (unat b mod 256) :: u8) = b" for b :: u8
    using unsigned_less [of b, where ?'a = nat] by simp
  then show "Inr (map (\<lambda>ch. of_nat (of_char ch)) (map (\<lambda>b. char_of (unat b)) bs)) = Inr bs"
    for bs :: "u8 list" by (simp add: comp_def)
qed simp

section \<open>Distance\<close>

lemma array_and_bits:
  "count_ones (array_and x y) = card {i. i < IRIS_CODE_SIZE \<and> bit_at x i \<and> bit_at y i}"
  by (simp add: count_ones_card bit_at_and cong: conj_cong)

lemma masked_difference_bits:
  "count_ones (array_and (array_xor x y) m)
     = card {i. i < IRIS_CODE_SIZE \<and> bit_at x i \<noteq> bit_at y i \<and> bit_at m i}"
  by (simp add: count_ones_card bit_at_and bit_at_xor cong: conj_cong)

text \<open>
  The quotient that \<open>f64\<close> computes is within one rounding of the exact one, far less than the gap
  between two unequal quotients here, so the comparison with 0.375 is the exact one.
\<close>

lemma distance_gap:
  fixes a b :: nat
  assumes "0 < b" "b \<le> IRIS_CODE_SIZE" "of_nat a / of_nat b \<noteq> MATCH_THRESHOLD_RATIO"
  shows "1 / (8 * of_nat IRIS_CODE_SIZE) \<le> \<bar>of_nat a / of_nat b - MATCH_THRESHOLD_RATIO\<bar>"
proof -
  have "8 * of_nat a \<noteq> (3 * of_nat b :: rat)"
    using assms by (auto simp: MATCH_THRESHOLD_RATIO_def field_simps)
  moreover have "8 * of_nat a = (3 * of_nat b :: rat)" if "8 * int a = 3 * int b"
    using arg_cong [OF that, of "of_int :: int \<Rightarrow> rat"] by simp
  ultimately have "8 * int a \<noteq> 3 * int b" by blast
  then have "1 \<le> \<bar>8 * int a - 3 * int b\<bar>" by linarith
  then have "(1 :: rat) \<le> \<bar>of_int (8 * int a - 3 * int b)\<bar>"
    by (metis of_int_1 of_int_abs of_int_le_iff)
  then have "1 / (8 * of_nat b) \<le> \<bar>8 * of_nat a - 3 * of_nat b\<bar> / (8 * of_nat b :: rat)"
    by (intro divide_right_mono) simp_all
  also have "\<dots> = \<bar>(8 * of_nat a - 3 * of_nat b) / (8 * of_nat b :: rat)\<bar>"
    by simp
  also have "(8 * of_nat a - 3 * of_nat b) / (8 * of_nat b :: rat) = of_nat a / of_nat b - MATCH_THRESHOLD_RATIO"
    using assms(1) by (simp add: MATCH_THRESHOLD_RATIO_def field_simps)
  finally have "1 / (8 * of_nat b) \<le> \<bar>of_nat a / of_nat b - MATCH_THRESHOLD_RATIO\<bar>" .
  moreover have "1 / (8 * of_nat IRIS_CODE_SIZE) \<le> (1 / (8 * of_nat b) :: rat)"
    using assms by (intro divide_left_mono) simp_all
  ultimately show ?thesis by linarith
qed

lemma ratio_below_threshold:
  fixes a b :: nat
  assumes "0 < b"
  shows "(of_nat a / of_nat b < (3 / 8 :: rat)) \<longleftrightarrow> 8 * a < 3 * b"
proof -
  have "0 < (of_nat b :: rat)" using assms by simp
  then have "(of_nat a / of_nat b < (3 / 8 :: rat)) \<longleftrightarrow> of_nat a * 8 < (of_nat b * 3 :: rat)"
    by (simp add: divide_less_eq less_divide_eq ac_simps)
  also have "\<dots> \<longleftrightarrow> of_nat (a * 8) < (of_nat (b * 3) :: rat)"
    by (simp only: of_nat_mult of_nat_numeral)
  finally show ?thesis by (simp only: of_nat_less_iff mult.commute)
qed

lemma is_close_bits:
  "is_close x y \<longleftrightarrow>
     8 * card {i. i < IRIS_CODE_SIZE \<and> bit_at (code x) i \<noteq> bit_at (code y) i \<and>
                  bit_at (mask x) i \<and> bit_at (mask y) i}
     < 3 * card {i. i < IRIS_CODE_SIZE \<and> bit_at (mask x) i \<and> bit_at (mask y) i}"
proof -
  let ?D = "{i. i < IRIS_CODE_SIZE \<and> bit_at (code x) i \<noteq> bit_at (code y) i \<and>
                bit_at (mask x) i \<and> bit_at (mask y) i}"
  let ?M = "{i. i < IRIS_CODE_SIZE \<and> bit_at (mask x) i \<and> bit_at (mask y) i}"
  have "count_ones (array_and (array_xor (code x) (code y)) (array_and (mask x) (mask y))) = card ?D"
    by (simp add: masked_difference_bits bit_at_and cong: conj_cong)
  then have dist: "get_distance x y =
      (if card ?M = 0 then None else Some (of_nat (card ?D) / of_nat (card ?M)))"
    by (simp only: get_distance_def Let_def array_and_bits)
  have "(of_nat (card ?D) / of_nat (card ?M) < (3 / 8 :: rat)) \<longleftrightarrow> 8 * card ?D < 3 * card ?M"
    if "card ?M \<noteq> 0"
    using that by (intro ratio_below_threshold) (simp only: neq0_conv)
  then show ?thesis
    by (cases "card ?M = 0") (simp_all only: is_close_def dist MATCH_THRESHOLD_RATIO_def if_True
        if_False option.case mult_0_right not_less_zero not_less_zero simp_thms)
qed

text \<open>
  C38: Two irises are close exactly when fewer than 3/8 of the commonly unmasked bits differ; with an
  empty common mask they are not.
\<close>

theorem is_close_iff_fraction:
  "is_close x y \<longleftrightarrow>
     8 * card {i. i < IRIS_CODE_SIZE \<and> bit_at (code x) i \<noteq> bit_at (code y) i \<and>
                  bit_at (mask x) i \<and> bit_at (mask y) i}
     < 3 * card {i. i < IRIS_CODE_SIZE \<and> bit_at (mask x) i \<and> bit_at (mask y) i}"
  by (rule is_close_bits)

lemma is_close_sym: "is_close x y = is_close y x"
  by (simp add: is_close_bits conj_commute eq_commute cong: conj_cong)

section \<open>Random irises\<close>

text \<open>A mask whose bits come in equal neighbouring pairs, as the random masks do.\<close>

definition paired_mask :: "IrisCodeArray \<Rightarrow> bool" where
  "paired_mask m \<longleftrightarrow> (\<forall>i < IRIS_CODE_SIZE div 2. bit_at m (2 * i) = bit_at m (2 * i + 1))"

lemma paired_ONES: "paired_mask array_ONES"
  by (simp add: paired_mask_def bit_at_ONES IRIS_CODE_SIZE_def)

lemma clear_mask_pairs_ok:
  assumes range: "\<And>g. fst (gen_range (IRIS_CODE_SIZE div 2) g) < IRIS_CODE_SIZE div 2"
  shows "wf_array m \<Longrightarrow> paired_mask m \<Longrightarrow>
    \<exists>m' g'. clear_mask_pairs gen_range n m g = Inr (m', g') \<and> wf_array m' \<and> paired_mask m'"
proof (induction n arbitrary: m g)
  case (Suc n)
  obtain i g' where ig: "gen_range (IRIS_CODE_SIZE div 2) g = (i, g')" by fastforce
  with range [of g] have i: "i < IRIS_CODE_SIZE div 2" by simp
  then have lt: "2 * i < IRIS_CODE_SIZE" "2 * i + 1 < IRIS_CODE_SIZE" by (simp_all add: IRIS_CODE_SIZE_def)
  obtain m1 where m1: "set_bit_at m (2 * i) False = Inr m1" "wf_array m1"
    "\<And>j. j < IRIS_CODE_SIZE \<Longrightarrow> bit_at m1 j = (if j = 2 * i then False else bit_at m j)"
    using set_bit_at_ok [OF Suc.prems(1) lt(1)] by blast
  obtain m2 where m2: "set_bit_at m1 (2 * i + 1) False = Inr m2" "wf_array m2"
    "\<And>j. j < IRIS_CODE_SIZE \<Longrightarrow> bit_at m2 j = (if j = 2 * i + 1 then False else bit_at m1 j)"
    using set_bit_at_ok [OF m1(2) lt(2)] by blast
  have "paired_mask m2"
    unfolding paired_mask_def
  proof (intro allI impI)
    fix k assume k: "k < IRIS_CODE_SIZE div 2"
    then have "2 * k < IRIS_CODE_SIZE" "2 * k + 1 < IRIS_CODE_SIZE" by (simp_all add: IRIS_CODE_SIZE_def)
    then show "bit_at m2 (2 * k) = bit_at m2 (2 * k + 1)"
      using m1(3) m2(3) Suc.prems(2) k by (simp add: paired_mask_def)
  qed
  then show ?case
    using Suc.IH [OF m2(2), of g'] by (simp add: ig m1(1) m2(1) [simplified])
qed simp

text \<open>
  Generating a random iris never panics; the mask it produces is well formed and its bits come
  in equal neighbouring pairs, the shape the trimmed mask shares rely on.
\<close>

theorem random_iris_mask_paired:
  assumes "\<And>g. fst (gen_range (IRIS_CODE_SIZE div 2) g) < IRIS_CODE_SIZE div 2"
    and "\<And>g. wf_array (fst (fill g))"
  shows "\<exists>x g'. iris_random_rng fill gen_range g = Inr (x, g') \<and> wf_iris x \<and> paired_mask (mask x)"
proof -
  obtain c g1 where f: "fill g = (c, g1)" by fastforce
  obtain m g2 where "clear_mask_pairs gen_range (IRIS_CODE_SIZE div 10 div 2) array_ONES g1 = Inr (m, g2)"
    "wf_array m" "paired_mask m"
    using clear_mask_pairs_ok [of gen_range, OF assms(1) wf_arrays(2) paired_ONES] by blast
  then show ?thesis
    using assms(2) [of g] by (simp add: iris_random_rng_def f wf_iris_def)
qed

theorem random_iris_mask_paired_witness:
  "\<exists>x g'. iris_random_rng (\<lambda>g. (array_ONES, Suc g)) (\<lambda>n g. (g mod n, Suc g)) 7 = Inr (x, g') \<and>
     wf_iris x \<and> paired_mask (mask x)"
  by (rule random_iris_mask_paired) (simp_all add: IRIS_CODE_SIZE_def)

end
