(* ===== verification/ShamirIris.thy ===== *)
theory ShamirIris
  imports ShamirFp IrisCode
begin

text \<open>
  Shamir shares of a whole iris over the prime field (\<open>iris_db/shamir_iris.rs\<close>) and of a database
  (\<open>iris_db/shamir_db.rs\<close>). \<open>None\<close> is a rejection sampler that never returns.
\<close>

record ShamirIris =
  si_code :: "u16 list"
  si_mask :: "u16 list"

definition shamir_iris_default :: ShamirIris where
  "shamir_iris_default =
     \<lparr>si_code = replicate IRIS_CODE_SIZE 0, si_mask = replicate IRIS_CODE_SIZE 0\<rparr>"

definition share_bit ::
    "('g \<Rightarrow> u16 \<times> 'g) \<Rightarrow> bool \<Rightarrow> bool \<Rightarrow> 'g \<Rightarrow> ((u16 list \<times> u16 list) \<times> 'g) option" where
  "share_bit gen c m g =
     (let val = of_bool (c \<and> m) :: u32;
          to_share = ucast ((of_bool m + P32 + P32 - val - val) mod P32) :: u16
      in Option.bind (share_d1 gen to_share g) (\<lambda>(code_shares, g1).
         Option.bind (share_d1 gen (of_bool m) g1) (\<lambda>(mask_shares, g2).
           Some ((code_shares, mask_shares), g2))))"

definition store_shares :: "nat \<Rightarrow> u16 list \<times> u16 list \<Rightarrow> ShamirIris list \<Rightarrow> ShamirIris list" where
  "store_shares i = (\<lambda>(cs, ms) result.
     map2 (\<lambda>res (c, m). res\<lparr>si_code := (si_code res)[i := c], si_mask := (si_mask res)[i := m]\<rparr>)
       result (zip cs ms))"

fun share_bits ::
    "('g \<Rightarrow> u16 \<times> 'g) \<Rightarrow> (nat \<times> bool \<times> bool) list \<Rightarrow> ShamirIris list \<Rightarrow> 'g
       \<Rightarrow> (ShamirIris list \<times> 'g) option" where
  "share_bits gen [] result g = Some (result, g)"
| "share_bits gen ((i, c, m) # xs) result g =
     Option.bind (share_bit gen c m g) (\<lambda>(sh, g'). share_bits gen xs (store_shares i sh result) g')"

definition share_iris ::
    "('g \<Rightarrow> u16 \<times> 'g) \<Rightarrow> IrisCode \<Rightarrow> 'g \<Rightarrow> (ShamirIris list \<times> 'g) option" where
  "share_iris gen x g =
     share_bits gen
       (List.enumerate 0 (zip (bits_collect (array_bits (code x))) (bits_collect (array_bits (mask x)))))
       [shamir_iris_default, shamir_iris_default, shamir_iris_default] g"

section \<open>ShamirIrisDB\<close>

type_synonym ShamirIrisDB = "ShamirIris list"

definition shamir_db_new :: ShamirIrisDB where
  "shamir_db_new = []"

definition shamir_db_is_empty :: "ShamirIrisDB \<Rightarrow> bool" where
  "shamir_db_is_empty db = (db = [])"

definition shamir_db_len :: "ShamirIrisDB \<Rightarrow> nat" where
  "shamir_db_len db = length db"

fun share_db_loop ::
    "('g \<Rightarrow> u16 \<times> 'g) \<Rightarrow> IrisDB \<Rightarrow> ShamirIrisDB list \<Rightarrow> 'g \<Rightarrow> (ShamirIrisDB list \<times> 'g) option" where
  "share_db_loop gen [] dbs g = Some (dbs, g)"
| "share_db_loop gen (x # xs) dbs g =
     Option.bind (share_iris gen x g) (\<lambda>(shares, g').
       share_db_loop gen xs (map2 (\<lambda>db s. db @ [s]) dbs shares) g')"

definition share_db :: "('g \<Rightarrow> u16 \<times> 'g) \<Rightarrow> IrisDB \<Rightarrow> 'g \<Rightarrow> (ShamirIrisDB list \<times> 'g) option" where
  "share_db gen db g = share_db_loop gen db [[], [], []] g"

text \<open>
  The parallel variant forks one generator per record: \<open>gen_seed\<close> draws a seed and \<open>from_seed\<close> is
  \<open>StdRng::from_seed\<close>.
\<close>

fun draw_seeds :: "('h \<Rightarrow> 's \<times> 'h) \<Rightarrow> nat \<Rightarrow> 'h \<Rightarrow> 's list \<times> 'h" where
  "draw_seeds gen_seed 0 h = ([], h)"
| "draw_seeds gen_seed (Suc n) h =
     (let (s, h') = gen_seed h; (ss, h'') = draw_seeds gen_seed n h' in (s # ss, h''))"

fun unzip3_shares :: "ShamirIris list list \<Rightarrow> ShamirIrisDB list" where
  "unzip3_shares rows = map (\<lambda>j. map (\<lambda>row. row ! j) rows) [0..<3]"

fun share_par_rows ::
    "('g \<Rightarrow> u16 \<times> 'g) \<Rightarrow> ('s \<Rightarrow> 'g) \<Rightarrow> (IrisCode \<times> 's) list \<Rightarrow> ShamirIris list list option" where
  "share_par_rows gen from_seed [] = Some []"
| "share_par_rows gen from_seed ((x, s) # xs) =
     Option.bind (share_iris gen x (from_seed s)) (\<lambda>(shares, _).
       map_option (Cons shares) (share_par_rows gen from_seed xs))"

definition share_db_par ::
    "('g \<Rightarrow> u16 \<times> 'g) \<Rightarrow> ('s \<Rightarrow> 'g) \<Rightarrow> ('h \<Rightarrow> 's \<times> 'h) \<Rightarrow> IrisDB \<Rightarrow> 'h \<Rightarrow> (ShamirIrisDB list \<times> 'h) option" where
  "share_db_par gen from_seed gen_seed db h =
     (let (seeds, h') = draw_seeds gen_seed (length db) h
      in map_option (\<lambda>rows. (unzip3_shares rows, h')) (share_par_rows gen from_seed (zip db seeds)))"

section \<open>Reconstruction\<close>

text \<open>\<open>shares_of v sh\<close>: the three field elements \<open>sh\<close> are points of a line through \<open>v\<close> at zero.\<close>

definition shares_of :: "u16 \<Rightarrow> u16 list \<Rightarrow> bool" where
  "shares_of v sh \<longleftrightarrow> length sh = 3 \<and>
     (\<exists>r. \<forall>a < 3. unat (sh ! a) = (unat v + (a + 1) * unat (r :: u16)) mod 65519)"

lemma share_d1_shares_of:
  assumes "share_d1 gen v g = Some (sh, g')"
  shows "shares_of v sh"
proof -
  have "length sh = 3" using assms by (auto simp: share_d1_def Let_def)
  with share_d1_Some [OF assms] show ?thesis unfolding shares_of_def by metis
qed

lemma shares_of_reconstruct:
  assumes "shares_of v sh" "p \<noteq> q"
  shows "\<exists>lp lq. my_lagrange_coeff_d1 p q = Some lp \<and> my_lagrange_coeff_d1 q p = Some lq
    \<and> ((unat (sh ! usize_from_party p) * unat lp) mod 65519
        + (unat (sh ! usize_from_party q) * unat lq) mod 65519) mod 65519 = unat v mod 65519"
proof -
  obtain r where r: "\<forall>a < 3. unat (sh ! a) = (unat v + (a + 1) * unat (r :: u16)) mod 65519"
    using assms(1) by (auto simp: shares_of_def)
  note sh = r [rule_format, OF usize_from_party_less]
  from lagrange_d1_sums [OF assms(2)] obtain lp lq k m
    where l: "my_lagrange_coeff_d1 p q = Some lp" "my_lagrange_coeff_d1 q p = Some lq"
      and sums: "unat lp + unat lq = 1 + 65519 * k"
        "(usize_from_party p + 1) * unat lp + (usize_from_party q + 1) * unat lq = 65519 * m" by blast
  with interpolate_2_points [OF sums, of "unat v" "unat r"] show ?thesis
    unfolding sh by blast
qed

text \<open>The encoding of a masked code bit: 0 when masked out, 1 for a clear bit, -1 for a set bit.\<close>

definition encoded_bit :: "bool \<Rightarrow> bool \<Rightarrow> u16" where
  "encoded_bit c m = (if m then if c then 65518 else 1 else 0)"

lemma share_bit_shares_of:
  assumes "share_bit gen c m g = Some ((cs, ms), g')"
  shows "shares_of (encoded_bit c m) cs \<and> shares_of (of_bool m) ms"
proof -
  have "ucast ((of_bool m + P32 + P32 - of_bool (c \<and> m) - of_bool (c \<and> m)) mod P32) = encoded_bit c m"
    by (cases c; cases m) (simp_all add: P32_val encoded_bit_def)
  then show ?thesis
    using assms by (auto simp: share_bit_def Let_def bind_eq_Some_conv dest!: share_d1_shares_of)
qed

text \<open>\<open>column f i rs\<close> collects what the three parties hold at bit \<open>i\<close>.\<close>

definition column :: "(ShamirIris \<Rightarrow> u16 list) \<Rightarrow> nat \<Rightarrow> ShamirIris list \<Rightarrow> u16 list" where
  "column f i rs = map (\<lambda>r. f r ! i) rs"

definition wf_shares :: "ShamirIris list \<Rightarrow> bool" where
  "wf_shares rs \<longleftrightarrow> length rs = 3 \<and>
     (\<forall>r \<in> set rs. length (si_code r) = IRIS_CODE_SIZE \<and> length (si_mask r) = IRIS_CODE_SIZE)"

lemma list_3: "length xs = 3 \<Longrightarrow> \<exists>a b c. xs = [a, b, c]"
  by (auto simp: numeral_3_eq_3 length_Suc_conv)

lemma store_shares_ok:
  assumes "wf_shares rs" "length cs = 3" "length ms = 3" "i < IRIS_CODE_SIZE"
  shows "wf_shares (store_shares i (cs, ms) rs)"
    "column si_code i (store_shares i (cs, ms) rs) = cs"
    "column si_mask i (store_shares i (cs, ms) rs) = ms"
    "j \<noteq> i \<Longrightarrow> column si_code j (store_shares i (cs, ms) rs) = column si_code j rs"
    "j \<noteq> i \<Longrightarrow> column si_mask j (store_shares i (cs, ms) rs) = column si_mask j rs"
proof -
  obtain r0 r1 r2 c0 c1 c2 m0 m1 m2
    where "rs = [r0, r1, r2]" "cs = [c0, c1, c2]" "ms = [m0, m1, m2]"
    using assms list_3 by (metis wf_shares_def)
  then show "wf_shares (store_shares i (cs, ms) rs)"
    "column si_code i (store_shares i (cs, ms) rs) = cs"
    "column si_mask i (store_shares i (cs, ms) rs) = ms"
    "j \<noteq> i \<Longrightarrow> column si_code j (store_shares i (cs, ms) rs) = column si_code j rs"
    "j \<noteq> i \<Longrightarrow> column si_mask j (store_shares i (cs, ms) rs) = column si_mask j rs"
    using assms by (simp_all add: store_shares_def column_def wf_shares_def)
qed

lemma share_bits_columns:
  assumes "share_bits gen (map (\<lambda>i. (i, fc i, fm i)) ixs) rs g = Some (rs', g')"
    "wf_shares rs" "distinct ixs" "\<And>i. i \<in> set ixs \<Longrightarrow> i < IRIS_CODE_SIZE"
  shows "wf_shares rs' \<and>
    (\<forall>i. (i \<in> set ixs \<longrightarrow> shares_of (encoded_bit (fc i) (fm i)) (column si_code i rs') \<and>
                         shares_of (of_bool (fm i)) (column si_mask i rs')) \<and>
         (i \<notin> set ixs \<longrightarrow> column si_code i rs' = column si_code i rs \<and>
                         column si_mask i rs' = column si_mask i rs))"
  using assms
proof (induction ixs arbitrary: rs g)
  case (Cons k ks)
  then obtain cs ms g1 where
    sb: "share_bit gen (fc k) (fm k) g = Some ((cs, ms), g1)" and
    rest: "share_bits gen (map (\<lambda>i. (i, fc i, fm i)) ks) (store_shares k (cs, ms) rs) g1 = Some (rs', g')"
    by (auto simp: bind_eq_Some_conv)
  have sh: "shares_of (encoded_bit (fc k) (fm k)) cs" "shares_of (of_bool (fm k)) ms"
    using share_bit_shares_of [OF sb] by auto
  then have len: "length cs = 3" "length ms = 3" by (auto simp: shares_of_def)
  have k: "k < IRIS_CODE_SIZE" using Cons.prems(4) by simp
  note ok = store_shares_ok [OF Cons.prems(2) len k]
  have IH: "wf_shares rs' \<and>
    (\<forall>i. (i \<in> set ks \<longrightarrow> shares_of (encoded_bit (fc i) (fm i)) (column si_code i rs') \<and>
                         shares_of (of_bool (fm i)) (column si_mask i rs')) \<and>
         (i \<notin> set ks \<longrightarrow> column si_code i rs' = column si_code i (store_shares k (cs, ms) rs) \<and>
                         column si_mask i rs' = column si_mask i (store_shares k (cs, ms) rs)))"
    using Cons.IH [OF rest ok(1)] Cons.prems(3,4) by simp
  show ?case using IH sh ok Cons.prems(3) by auto
qed simp

lemma share_iris_columns:
  assumes "share_iris gen x g = Some (rs, g')" "i < IRIS_CODE_SIZE"
  shows "shares_of (encoded_bit (bit_at (code x) i) (bit_at (mask x) i)) (column si_code i rs) \<and>
    shares_of (of_bool (bit_at (mask x) i)) (column si_mask i rs) \<and> wf_shares rs"
proof -
  have "List.enumerate 0 (zip (bits_collect (array_bits (code x))) (bits_collect (array_bits (mask x))))
      = map (\<lambda>i. (i, bit_at (code x) i, bit_at (mask x) i)) [0..<IRIS_CODE_SIZE]"
    by (rule nth_equalityI) (simp_all add: bits_collect_eq nth_enumerate_eq)
  with assms(1) share_bits_columns [where rs = "[shamir_iris_default, shamir_iris_default, shamir_iris_default]"
      and ixs = "[0..<IRIS_CODE_SIZE]"]
  have "wf_shares rs \<and> (\<forall>i. i \<in> set [0..<IRIS_CODE_SIZE] \<longrightarrow>
      shares_of (encoded_bit (bit_at (code x) i) (bit_at (mask x) i)) (column si_code i rs) \<and>
      shares_of (of_bool (bit_at (mask x) i)) (column si_mask i rs))"
    by (fastforce simp: share_iris_def wf_shares_def shamir_iris_default_def)
  then show ?thesis using assms(2) by simp
qed

text \<open>Every record of a database is shared: record \<open>k\<close> of the three databases is a sharing of iris \<open>k\<close>.\<close>

lemma share_db_loop_rows:
  assumes "share_db_loop gen xs dbs g = Some (dbs', g')" "length dbs = 3"
    "\<And>db. db \<in> set dbs \<Longrightarrow> length db = n"
  shows "length dbs' = 3 \<and> (\<forall>db \<in> set dbs'. length db = n + length xs) \<and>
    (\<forall>k < n. map (\<lambda>db. db ! k) dbs' = map (\<lambda>db. db ! k) dbs) \<and>
    (\<forall>k < length xs. \<exists>h h'. share_iris gen (xs ! k) h = Some (map (\<lambda>db. db ! (n + k)) dbs', h'))"
  using assms
proof (induction xs arbitrary: dbs g n)
  case (Cons x xs)
  then obtain rs g1 where sh: "share_iris gen x g = Some (rs, g1)"
    and rest: "share_db_loop gen xs (map2 (\<lambda>db s. db @ [s]) dbs rs) g1 = Some (dbs', g')"
    by (auto simp: bind_eq_Some_conv)
  have "length rs = 3"
    using share_iris_columns [OF sh, of 0] by (simp add: wf_shares_def IRIS_CODE_SIZE_def)
  then obtain r0 r1 r2 where rs: "rs = [r0, r1, r2]" using list_3 by blast
  obtain d0 d1 d2 where dbs: "dbs = [d0, d1, d2]" using list_3 Cons.prems(2) by blast
  have len: "length d0 = n" "length d1 = n" "length d2 = n" using Cons.prems(3) dbs by auto
  have IH: "length dbs' = 3 \<and> (\<forall>db \<in> set dbs'. length db = Suc n + length xs) \<and>
    (\<forall>k < Suc n. map (\<lambda>db. db ! k) dbs' = map (\<lambda>db. db ! k) (map2 (\<lambda>db s. db @ [s]) dbs rs)) \<and>
    (\<forall>k < length xs. \<exists>h h'. share_iris gen (xs ! k) h = Some (map (\<lambda>db. db ! (Suc n + k)) dbs', h'))"
    using rest by (rule Cons.IH) (auto simp: dbs rs len)
  have old: "map (\<lambda>db. db ! k) dbs' = map (\<lambda>db. db ! k) dbs" if "k < n" for k
    using IH that by (simp add: dbs rs len nth_append)
  have new: "map (\<lambda>db. db ! n) dbs' = rs"
    using IH by (simp add: dbs rs len nth_append)
  have "\<exists>h h'. share_iris gen ((x # xs) ! k) h = Some (map (\<lambda>db. db ! (n + k)) dbs', h')"
    if "k < Suc (length xs)" for k
  proof (cases k)
    case 0
    then show ?thesis using sh new by auto
  next
    case (Suc l)
    then show ?thesis using IH that by simp
  qed
  with IH old show ?case by simp
qed simp

lemma share_bits_total:
  assumes "\<And>g. random_fp gen g \<noteq> None"
  shows "share_bits gen xs rs g \<noteq> None"
proof (induction xs arbitrary: rs g)
  case (Cons x xs)
  obtain i c m where x: "x = (i, c, m)" by (cases x)
  have d1: "\<exists>sh g'. share_d1 gen v g = Some (sh, g')" for v g
    using assms [of g] by (auto simp: share_d1_def Let_def)
  obtain sh h where sh: "share_d1 gen (ucast ((of_bool m + P32 + P32 - of_bool (c \<and> m) - of_bool (c \<and> m))
      mod P32)) g = Some (sh, h)" using d1 by blast
  obtain sh' h' where "share_d1 gen (of_bool m) h = Some (sh', h')" using d1 by blast
  with sh have "\<exists>sh g'. share_bit gen c m g = Some (sh, g')"
    unfolding share_bit_def Let_def by simp
  then show ?case using Cons by (auto simp: x)
qed simp

lemma share_db_loop_total:
  assumes "\<And>g. random_fp gen g \<noteq> None"
  shows "share_db_loop gen xs dbs g \<noteq> None"
proof (induction xs arbitrary: dbs g)
  case (Cons x xs)
  obtain rs g' where "share_iris gen x g = Some (rs, g')"
    using share_bits_total [OF assms] unfolding share_iris_def by fast
  then show ?case using Cons by auto
qed simp

text \<open>
  C40: Sharing a database returns, as soon as the field sampler does, and every bit of every iris is
  then recovered by any two parties with the degree-1 Lagrange coefficients: the masked code bit as
  0, 1 or -1 modulo P and, from the mask shares, the mask bit.
\<close>

theorem share_db_reconstruction:
  assumes "\<And>g. random_fp gen g \<noteq> None"
  shows "\<exists>dbs g'. share_db gen db g = Some (dbs, g') \<and>
    (\<forall>k < length db. \<forall>i < IRIS_CODE_SIZE. \<forall>p q. p \<noteq> q \<longrightarrow>
      (\<exists>lp lq. my_lagrange_coeff_d1 p q = Some lp \<and> my_lagrange_coeff_d1 q p = Some lq
        \<and> ((unat (si_code (dbs ! usize_from_party p ! k) ! i) * unat lp) mod 65519
            + (unat (si_code (dbs ! usize_from_party q ! k) ! i) * unat lq) mod 65519) mod 65519
          = unat (encoded_bit (bit_at (code (db ! k)) i) (bit_at (mask (db ! k)) i))
        \<and> ((unat (si_mask (dbs ! usize_from_party p ! k) ! i) * unat lp) mod 65519
            + (unat (si_mask (dbs ! usize_from_party q ! k) ! i) * unat lq) mod 65519) mod 65519
          = of_bool (bit_at (mask (db ! k)) i)))"
proof -
  obtain dbs g' where db: "share_db gen db g = Some (dbs, g')"
    using share_db_loop_total [OF assms] unfolding share_db_def by fast
  have rows: "length dbs = 3 \<and> (\<forall>k < length db. \<exists>h h'.
      share_iris gen (db ! k) h = Some (map (\<lambda>db. db ! k) dbs, h'))"
    using share_db_loop_rows [of gen db "[[], [], []]" g dbs g' 0] db by (simp add: share_db_def)
  have enc: "unat (encoded_bit c m) mod 65519 = unat (encoded_bit c m)" for c m
    by (simp add: encoded_bit_def)
  have one: "unat (of_bool b :: u16) mod 65519 = of_bool b" for b by simp
  have "\<exists>lp lq. my_lagrange_coeff_d1 p q = Some lp \<and> my_lagrange_coeff_d1 q p = Some lq
        \<and> ((unat (si_code (dbs ! usize_from_party p ! k) ! i) * unat lp) mod 65519
            + (unat (si_code (dbs ! usize_from_party q ! k) ! i) * unat lq) mod 65519) mod 65519
          = unat (encoded_bit (bit_at (code (db ! k)) i) (bit_at (mask (db ! k)) i))
        \<and> ((unat (si_mask (dbs ! usize_from_party p ! k) ! i) * unat lp) mod 65519
            + (unat (si_mask (dbs ! usize_from_party q ! k) ! i) * unat lq) mod 65519) mod 65519
          = of_bool (bit_at (mask (db ! k)) i)"
    if k: "k < length db" and i: "i < IRIS_CODE_SIZE" and pq: "p \<noteq> q" for k i p q
  proof -
    obtain h h' where sh: "share_iris gen (db ! k) h = Some (map (\<lambda>db. db ! k) dbs, h')"
      using rows k by blast
    have col: "column f i (map (\<lambda>db. db ! k) dbs) ! usize_from_party r = f (dbs ! usize_from_party r ! k) ! i"
      for f r using rows usize_from_party_less [of r] by (simp add: column_def)
    note cols = share_iris_columns [OF sh i]
    show ?thesis
      using shares_of_reconstruct [OF conjunct1 [OF cols] pq]
        shares_of_reconstruct [OF conjunct1 [OF conjunct2 [OF cols]] pq]
      unfolding col enc one by force
  qed
  with db show ?thesis by blast
qed

lemma constant_sampler: "random_fp (\<lambda>g. (0, g)) g \<noteq> None"
  by (subst random_fp_unfold) (simp add: P_val)

theorem share_db_reconstruction_witness:
  "\<exists>dbs g' lp lq. share_db (\<lambda>g :: unit. (0, g)) [iris_default, iris_default] () = Some (dbs, g') \<and>
     my_lagrange_coeff_d1 ID0 ID2 = Some lp \<and> my_lagrange_coeff_d1 ID2 ID0 = Some lq \<and>
     ((unat (si_mask (dbs ! usize_from_party ID0 ! 1) ! 77) * unat lp) mod 65519
       + (unat (si_mask (dbs ! usize_from_party ID2 ! 1) ! 77) * unat lq) mod 65519) mod 65519
     = of_bool (bit_at (mask ([iris_default, iris_default] ! 1)) 77)"
proof -
  have lt: "1 < length [iris_default, iris_default]" "77 < IRIS_CODE_SIZE" "ID0 \<noteq> ID2"
    by (simp_all add: IRIS_CODE_SIZE_def)
  show ?thesis
    using share_db_reconstruction [OF constant_sampler, of "[iris_default, iris_default]" "()"] lt by blast
qed

end
