(* ===== verification/GaloisEngine.thy ===== *)
theory GaloisEngine
  imports GaloisShamir IrisCode
begin

text \<open>
  The Galois ring shares of an iris code (\<open>iris-mpc-common/src/galois_engine.rs\<close>): encoding of a
  code and of a mask into three shares of 12800 coefficients, the preprocessing of a query share,
  the dot products, the trimmed mask share and the 31 rotations. A coefficient array is a list;
  \<open>wf_coefs\<close> is the length its array type guarantees.
\<close>

section \<open>Blocks of four coefficients\<close>

definition IRIS_CODE_LENGTH :: nat where
  "IRIS_CODE_LENGTH = 12800"

definition MASK_CODE_LENGTH :: nat where
  "MASK_CODE_LENGTH = 6400"

definition CODE_COLS :: nat where
  "CODE_COLS = 200"

text \<open>\<open>step_by_4 n\<close> lists the indices of \<open>(0..n).step_by(4)\<close>.\<close>

definition step_by_4 :: "nat \<Rightarrow> nat list" where
  "step_by_4 n = map (\<lambda>k. 4 * k) [0..<(n + 3) div 4]"

definition get_block :: "nat \<Rightarrow> u16 list \<Rightarrow> gre" where
  "get_block i cs = from_coefs (cs ! i, cs ! (i + 1), cs ! (i + 2), cs ! (i + 3))"

definition put_block :: "nat \<Rightarrow> 'b GaloisRingElement \<Rightarrow> u16 list \<Rightarrow> u16 list" where
  "put_block i e cs = cs[i := c0 e, i + 1 := c1 e, i + 2 := c2 e, i + 3 := c3 e]"

definition preprocess_block :: "nat \<Rightarrow> gre list \<Rightarrow> nat \<Rightarrow> u16 list \<Rightarrow> u16 list result" where
  "preprocess_block pid lagrange_coeffs i cs =
     (if length cs \<le> i + 3 then index_out_of_bounds
      else
        (let element = get_block i cs in
         if pid = 0 \<or> length lagrange_coeffs < pid then index_out_of_bounds
         else
           (let element = element * lagrange_coeffs ! (pid - 1)
            in Inr (put_block i (to_basis_B element) cs))))"

definition preprocess_coefs :: "nat \<Rightarrow> u16 list \<Rightarrow> u16 list result" where
  "preprocess_coefs pid coefs =
     rbind deg_2_lagrange_polys_at_zero (\<lambda>lagrange_coeffs.
       rfold (preprocess_block pid lagrange_coeffs) (step_by_4 (length coefs)) coefs)"

text \<open>A rotation by more than the length of a row panics in \<open>slice::rotate_left\<close>.\<close>

definition rotate_rows :: "(nat \<Rightarrow> u16 list \<Rightarrow> u16 list) \<Rightarrow> u16 list \<Rightarrow> nat \<Rightarrow> u16 list result" where
  "rotate_rows rot coefs n =
     (if CODE_COLS * 4 \<le> length coefs \<and> CODE_COLS * 4 < n * 4
      then Inl (Panic ''assertion failed: mid <= self.len()'')
      else Inr (concat (map (rot (n * 4)) (chunks_exact (CODE_COLS * 4) coefs))
                @ drop (CODE_COLS * 4 * (length coefs div (CODE_COLS * 4))) coefs))"

definition rotate_coefs_right :: "u16 list \<Rightarrow> nat \<Rightarrow> u16 list result" where
  "rotate_coefs_right = rotate_rows rotate_right"

definition rotate_coefs_left :: "u16 list \<Rightarrow> nat \<Rightarrow> u16 list result" where
  "rotate_coefs_left = rotate_rows rotate_left"

section \<open>Trimmed mask shares and iris code shares\<close>

record GaloisRingTrimmedMaskCodeShare =
  tm_id :: nat
  tm_coefs :: "u16 list"

record GaloisRingIrisCodeShare =
  gi_id :: nat
  gi_coefs :: "u16 list"

definition trim_mask :: "GaloisRingIrisCodeShare \<Rightarrow> GaloisRingTrimmedMaskCodeShare" where
  "trim_mask s = \<lparr>tm_id = gi_id s, tm_coefs = take MASK_CODE_LENGTH (gi_coefs s)\<rparr>"

definition tm_default_for_party :: "nat \<Rightarrow> GaloisRingTrimmedMaskCodeShare" where
  "tm_default_for_party party_id = \<lparr>tm_id = party_id, tm_coefs = replicate MASK_CODE_LENGTH 0\<rparr>"

definition preprocess_mask_code_query_share ::
    "GaloisRingTrimmedMaskCodeShare \<Rightarrow> GaloisRingTrimmedMaskCodeShare result" where
  "preprocess_mask_code_query_share s =
     rbind (preprocess_coefs (tm_id s) (tm_coefs s)) (\<lambda>cs. Inr (s\<lparr>tm_coefs := cs\<rparr>))"

text \<open>The 31 rotations of a coefficient array: 16 columns to the left, then one to the right each.\<close>

fun rotations_loop :: "nat \<Rightarrow> u16 list \<Rightarrow> u16 list list \<Rightarrow> u16 list list result" where
  "rotations_loop 0 reference res = Inr res"
| "rotations_loop (Suc n) reference res =
     rbind (rotate_coefs_right reference 1) (\<lambda>cs. rotations_loop n cs (res @ [cs]))"

definition all_rotations_coefs :: "u16 list \<Rightarrow> u16 list list result" where
  "all_rotations_coefs coefs =
     rbind (rotate_coefs_left coefs 16) (\<lambda>reference. rotations_loop 31 reference [])"

definition tm_all_rotations ::
    "GaloisRingTrimmedMaskCodeShare \<Rightarrow> GaloisRingTrimmedMaskCodeShare list result" where
  "tm_all_rotations s =
     rbind (all_rotations_coefs (tm_coefs s)) (\<lambda>css. Inr (map (\<lambda>cs. s\<lparr>tm_coefs := cs\<rparr>) css))"

fun dot_loop :: "nat list \<Rightarrow> u16 list \<Rightarrow> u16 list \<Rightarrow> u16 \<Rightarrow> u16" where
  "dot_loop [] xs ys acc = acc"
| "dot_loop (i # is) xs ys acc = dot_loop is xs ys (acc + xs ! i * ys ! i)"

definition tm_trick_dot ::
    "GaloisRingTrimmedMaskCodeShare \<Rightarrow> GaloisRingTrimmedMaskCodeShare \<Rightarrow> u16" where
  "tm_trick_dot x y = dot_loop [0..<MASK_CODE_LENGTH] (tm_coefs x) (tm_coefs y) 0"

definition remap_index :: "nat \<Rightarrow> nat" where
  "remap_index i =
     (let b = i div 6400;
          w = i mod 6400 div 3200;
          r1 = i mod 3200 div 800;
          c = i mod 800 div 4;
          r2 = i mod 4;
          r = r2 * 4 + r1
      in 800 * r + c * 4 + w * 2 + b)"

definition gi_new :: "nat \<Rightarrow> u16 list \<Rightarrow> GaloisRingIrisCodeShare" where
  "gi_new pid coefs = \<lparr>gi_id = pid, gi_coefs = coefs\<rparr>"

definition gi_default_for_party :: "nat \<Rightarrow> GaloisRingIrisCodeShare" where
  "gi_default_for_party party_id = \<lparr>gi_id = party_id, gi_coefs = replicate IRIS_CODE_LENGTH 0\<rparr>"

text \<open>
  The loop that the three encoders share: the values at the remapped indices of a block form an
  element in basis \<open>A\<close>, which is shared and stored at the block of each of the three shares.
\<close>

fun encode_loop ::
    "('g \<Rightarrow> u16 \<times> 'g) \<Rightarrow> (nat \<Rightarrow> u16 result) \<Rightarrow> nat list \<Rightarrow> GaloisRingIrisCodeShare list \<Rightarrow> 'g
       \<Rightarrow> (GaloisRingIrisCodeShare list \<times> 'g) result" where
  "encode_loop gen val [] shares g = Inr (shares, g)"
| "encode_loop gen val (i # is) shares g =
     rbind (val (remap_index i)) (\<lambda>v0.
     rbind (val (remap_index (i + 1))) (\<lambda>v1.
     rbind (val (remap_index (i + 2))) (\<lambda>v2.
     rbind (val (remap_index (i + 3))) (\<lambda>v3.
       let element = to_monomial (from_coefs (v0, v1, v2, v3));
           (share, g') = encode_3_mat gen (c0 element, c1 element, c2 element, c3 element) g
       in encode_loop gen val is
            (map2 (\<lambda>s sh. s\<lparr>gi_coefs := put_block i (share_y sh) (gi_coefs s)\<rparr>) shares share) g'))))"

definition encode_values ::
    "('g \<Rightarrow> u16 \<times> 'g) \<Rightarrow> (nat \<Rightarrow> u16 result) \<Rightarrow> 'g \<Rightarrow> (GaloisRingIrisCodeShare list \<times> 'g) result" where
  "encode_values gen val g =
     encode_loop gen val (step_by_4 IRIS_CODE_LENGTH)
       [gi_default_for_party 1, gi_default_for_party 2, gi_default_for_party 3] g"

definition encode_iris_code ::
    "('g \<Rightarrow> u16 \<times> 'g) \<Rightarrow> IrisCodeArray \<Rightarrow> IrisCodeArray \<Rightarrow> 'g
       \<Rightarrow> (GaloisRingIrisCodeShare list \<times> 'g) result" where
  "encode_iris_code gen iris_code mask_code g =
     encode_values gen (\<lambda>i.
       rbind (get_bit mask_code i) (\<lambda>mb.
       rbind (get_bit iris_code i) (\<lambda>cb.
         let m = of_bool mb; c = of_bool cb in Inr (m - 2 * (c AND m))))) g"

definition encode_mask_code ::
    "('g \<Rightarrow> u16 \<times> 'g) \<Rightarrow> IrisCodeArray \<Rightarrow> 'g \<Rightarrow> (GaloisRingIrisCodeShare list \<times> 'g) result" where
  "encode_mask_code gen mask_code g =
     encode_values gen (\<lambda>i. rbind (get_bit mask_code i) (\<lambda>mb. Inr (of_bool mb))) g"

definition reencode_extended_iris_code ::
    "('g \<Rightarrow> u16 \<times> 'g) \<Rightarrow> u16 list \<Rightarrow> 'g \<Rightarrow> (GaloisRingIrisCodeShare list \<times> 'g) result" where
  "reencode_extended_iris_code gen iris_code g =
     encode_values gen (\<lambda>i. if length iris_code \<le> i then index_out_of_bounds else Inr (iris_code ! i)) g"

definition preprocess_iris_code_query_share ::
    "GaloisRingIrisCodeShare \<Rightarrow> GaloisRingIrisCodeShare result" where
  "preprocess_iris_code_query_share s =
     rbind (preprocess_coefs (gi_id s) (gi_coefs s)) (\<lambda>cs. Inr (s\<lparr>gi_coefs := cs\<rparr>))"

definition full_dot_block ::
    "GaloisRingIrisCodeShare \<Rightarrow> GaloisRingIrisCodeShare \<Rightarrow> gre list \<Rightarrow> nat \<Rightarrow> u16 \<Rightarrow> u16 result" where
  "full_dot_block x y lagrange_coeffs i acc =
     (let z = get_block i (gi_coefs x) * get_block i (gi_coefs y) in
      if gi_id x = 0 \<or> length lagrange_coeffs < gi_id x then index_out_of_bounds
      else
        (let z = to_basis_B (z * lagrange_coeffs ! (gi_id x - 1))
         in Inr (acc + c0 z)))"

definition full_dot :: "GaloisRingIrisCodeShare \<Rightarrow> GaloisRingIrisCodeShare \<Rightarrow> u16 result" where
  "full_dot x y =
     rbind deg_2_lagrange_polys_at_zero (\<lambda>lagrange_coeffs.
       rfold (full_dot_block x y lagrange_coeffs) (step_by_4 IRIS_CODE_LENGTH) 0)"

definition trick_dot :: "GaloisRingIrisCodeShare \<Rightarrow> GaloisRingIrisCodeShare \<Rightarrow> u16" where
  "trick_dot x y = dot_loop [0..<IRIS_CODE_LENGTH] (gi_coefs x) (gi_coefs y) 0"

definition all_rotations :: "GaloisRingIrisCodeShare \<Rightarrow> GaloisRingIrisCodeShare list result" where
  "all_rotations s =
     rbind (all_rotations_coefs (gi_coefs s)) (\<lambda>css. Inr (map (\<lambda>cs. s\<lparr>gi_coefs := cs\<rparr>) css))"

text \<open>The text form: \<open>bincode\<close> and \<open>base64\<close> are parameters.\<close>

definition gi_to_base64 ::
    "(GaloisRingIrisCodeShare \<Rightarrow> u8 list) \<Rightarrow> (u8 list \<Rightarrow> string) \<Rightarrow> GaloisRingIrisCodeShare \<Rightarrow> string" where
  "gi_to_base64 serialize encode s = encode (serialize s)"

definition gi_from_base64 ::
    "(u8 list \<Rightarrow> GaloisRingIrisCodeShare result) \<Rightarrow> (string \<Rightarrow> u8 list result) \<Rightarrow> string
       \<Rightarrow> GaloisRingIrisCodeShare result" where
  "gi_from_base64 deserialize decode s = rbind (decode s) deserialize"

record FullGaloisRingIrisCodeShare =
  full_code :: GaloisRingIrisCodeShare
  full_mask :: GaloisRingTrimmedMaskCodeShare

definition full_encode_iris_code ::
    "('g \<Rightarrow> u16 \<times> 'g) \<Rightarrow> IrisCode \<Rightarrow> 'g \<Rightarrow> (FullGaloisRingIrisCodeShare list \<times> 'g) result" where
  "full_encode_iris_code gen iris g =
     rbind (encode_iris_code gen (code iris) (mask iris) g) (\<lambda>(codes, g1).
     rbind (encode_mask_code gen (mask iris) g1) (\<lambda>(masks, g2).
       Inr (map2 (\<lambda>c m. \<lparr>full_code = c, full_mask = trim_mask m\<rparr>) codes masks, g2)))"

section \<open>Blocks\<close>

abbreviation blk :: "nat \<Rightarrow> u16 list \<Rightarrow> gre" where
  "blk b cs \<equiv> get_block (4 * b) cs"

lemma length_put_block [simp]: "length (put_block i e cs) = length cs"
  by (simp add: put_block_def)

lemma blk_put_block:
  assumes "4 * k + 3 < length cs"
  shows "blk b (put_block (4 * k) e cs) = (if b = k then GRE (c0 e) (c1 e) (c2 e) (c3 e) else blk b cs)"
proof (cases "b = k")
  case True
  then show ?thesis using assms by (simp add: get_block_def put_block_def from_coefs_def)
next
  case False
  have "4 * k + m \<noteq> 4 * b + n" if "m < 4" "n < 4" for m n
    using False that by presburger
  from this [of 0] this [of 1] this [of 2] this [of 3] show ?thesis
    using False by (simp add: get_block_def put_block_def from_coefs_def)
qed

lemma step_by_4_mult: "step_by_4 (4 * n) = map (\<lambda>k. 4 * k) [0..<n]"
  by (simp add: step_by_4_def)

lemma dot_loop_sum: "dot_loop [0..<n] xs ys acc = acc + (\<Sum>i<n. xs ! i * ys ! i)"
proof -
  have "dot_loop is xs ys acc = acc + sum_list (map (\<lambda>i. xs ! i * ys ! i) is)" for "is"
    by (induction "is" arbitrary: acc) (simp_all add: add.assoc)
  then show ?thesis by (simp add: interv_sum_list_conv_sum_set_nat atLeast0LessThan)
qed

lemma dot_loop_blocks:
  "dot_loop [0..<4 * n] xs ys 0 = (\<Sum>b<n. coef_dot (blk b xs) (blk b ys))"
proof -
  have four: "{..<4 :: nat} = {0, 1, 2, 3}" by auto
  have "dot_loop [0..<4 * n] xs ys 0 = (\<Sum>i<n * 4. xs ! i * ys ! i)"
    by (simp add: dot_loop_sum mult.commute)
  also have "\<dots> = (\<Sum>b<n. \<Sum>j<4. xs ! (b * 4 + j) * ys ! (b * 4 + j))"
    by (rule sum_lessThan_mult)
  also have "\<dots> = (\<Sum>b<n. coef_dot (blk b xs) (blk b ys))"
    by (rule sum.cong) (simp_all add: four coef_dot_def get_block_def from_coefs_def algebra_simps)
  finally show ?thesis .
qed

section \<open>Preprocessing\<close>

lemma preprocess_blocks:
  assumes "0 < pid" "pid \<le> 3" "distinct ks" "\<And>k. k \<in> set ks \<Longrightarrow> 4 * k + 3 < length cs"
  shows "\<exists>cs'. rfold (preprocess_block pid lagrange_2) (map (\<lambda>k. 4 * k) ks) cs = Inr cs' \<and>
    length cs' = length cs \<and>
    (\<forall>b. blk b cs' = (if b \<in> set ks
        then (let e = to_basis_B (blk b cs * lagrange_2 ! (pid - 1)) in GRE (c0 e) (c1 e) (c2 e) (c3 e))
        else blk b cs))"
  using assms(3,4)
proof (induction ks arbitrary: cs)
  case (Cons k ks)
  let ?e = "to_basis_B (blk k cs * lagrange_2 ! (pid - 1))"
  let ?cs = "put_block (4 * k) ?e cs"
  have step: "preprocess_block pid lagrange_2 (4 * k) cs = Inr ?cs"
    using Cons.prems(2) [of k] assms(1,2) by (simp add: preprocess_block_def Let_def lagrange_2_def)
  have b: "blk b ?cs = (if b = k then GRE (c0 ?e) (c1 ?e) (c2 ?e) (c3 ?e) else blk b cs)" for b
    using Cons.prems(2) [of k] by (simp add: blk_put_block)
  obtain cs' where cs': "rfold (preprocess_block pid lagrange_2) (map (\<lambda>k. 4 * k) ks) ?cs = Inr cs'"
    "length cs' = length ?cs"
    "\<forall>b. blk b cs' = (if b \<in> set ks
        then (let e = to_basis_B (blk b ?cs * lagrange_2 ! (pid - 1)) in GRE (c0 e) (c1 e) (c2 e) (c3 e))
        else blk b ?cs)"
    using Cons.IH [of ?cs] Cons.prems by auto
  have "blk b cs' = (if b \<in> set (k # ks)
        then (let e = to_basis_B (blk b cs * lagrange_2 ! (pid - 1)) in GRE (c0 e) (c1 e) (c2 e) (c3 e))
        else blk b cs)" for b
    using cs'(3) b [of b] Cons.prems(1) by (auto simp: Let_def)
  then show ?case using cs'(1,2) by (simp add: step)
qed simp

lemma preprocess_coefs_ok:
  assumes "0 < pid" "pid \<le> 3" "length cs = 4 * n"
  obtains cs' where "preprocess_coefs pid cs = Inr cs'" "length cs' = 4 * n"
    "\<forall>x. \<forall>b < n. coef_dot x (blk b cs') = c0 (to_basis_B (x * (blk b cs * lagrange_2 ! (pid - 1))))"
proof -
  obtain cs' where cs': "rfold (preprocess_block pid lagrange_2) (map (\<lambda>k. 4 * k) [0..<n]) cs = Inr cs'"
    "length cs' = length cs"
    "\<forall>b. blk b cs' = (if b \<in> set [0..<n]
        then (let e = to_basis_B (blk b cs * lagrange_2 ! (pid - 1)) in GRE (c0 e) (c1 e) (c2 e) (c3 e))
        else blk b cs)"
    using preprocess_blocks [of pid "[0..<n]" cs] assms by auto
  show ?thesis
  proof (rule that)
    show "preprocess_coefs pid cs = Inr cs'"
      using cs'(1) by (simp add: preprocess_coefs_def deg_2_lagrange_polys_at_zero_eq assms(3) step_by_4_mult)
    show "length cs' = 4 * n" using cs'(2) assms(3) by simp
    show "\<forall>x. \<forall>b < n. coef_dot x (blk b cs') = c0 (to_basis_B (x * (blk b cs * lagrange_2 ! (pid - 1))))"
      using cs'(3) by (simp add: basis_B_trick Let_def coef_dot_def)
  qed
qed


lemma full_dot_sum:
  assumes "0 < gi_id x" "gi_id x \<le> 3"
  shows "full_dot x y = Inr (\<Sum>b<3200. c0 (to_basis_B
    (blk b (gi_coefs x) * (blk b (gi_coefs y) * lagrange_2 ! (gi_id x - 1)))))"
proof -
  let ?t = "\<lambda>b. c0 (to_basis_B (blk b (gi_coefs x) * (blk b (gi_coefs y) * lagrange_2 ! (gi_id x - 1))))"
  have "rfold (full_dot_block x y lagrange_2) (map (\<lambda>k. 4 * k) ks) acc
      = Inr (acc + sum_list (map ?t ks))" for ks acc
    using assms by (induction ks arbitrary: acc)
      (simp_all add: full_dot_block_def Let_def lagrange_2_def ac_simps)
  moreover have "step_by_4 IRIS_CODE_LENGTH = map (\<lambda>k. 4 * k) [0..<3200]"
    by (simp add: step_by_4_def IRIS_CODE_LENGTH_def)
  ultimately show ?thesis
    by (simp add: full_dot_def deg_2_lagrange_polys_at_zero_eq interv_sum_list_conv_sum_set_nat
        atLeast0LessThan)
qed

section \<open>Sharings of a sequence of ring elements\<close>

text \<open>
  \<open>sharing n css E\<close>: the three coefficient arrays \<open>css\<close> hold, block by block, the points at the
  parties' exceptional elements of lines through the elements \<open>E\<close>.
\<close>

definition sharing :: "nat \<Rightarrow> u16 list list \<Rightarrow> (nat \<Rightarrow> gre) \<Rightarrow> bool" where
  "sharing n css E \<longleftrightarrow> length css = 3 \<and> (\<forall>cs \<in> set css. length cs = 4 * n) \<and>
     (\<exists>r. \<forall>j < 3. \<forall>b < n. blk b (css ! j) = E b + r b * EXCEPTIONAL_SEQUENCE ! (j + 1))"

lemma sharing_dot:
  assumes "sharing n xss E" "sharing n yss F"
  shows "(\<Sum>j<3. \<Sum>b<n. c0 (to_basis_B (blk b (xss ! j) * (blk b (yss ! j) * lagrange_2 ! j))))
    = (\<Sum>b<n. c0 (to_basis_B (E b * F b)))"
proof -
  obtain r s where r: "\<And>j b. j < 3 \<Longrightarrow> b < n \<Longrightarrow> blk b (xss ! j) = E b + r b * EXCEPTIONAL_SEQUENCE ! (j + 1)"
    and s: "\<And>j b. j < 3 \<Longrightarrow> b < n \<Longrightarrow> blk b (yss ! j) = F b + s b * EXCEPTIONAL_SEQUENCE ! (j + 1)"
    using assms unfolding sharing_def by blast
  have three: "{..<3 :: nat} = {0, 1, 2}" by auto
  have c0_add: "c0 (to_basis_B (x + y)) = c0 (to_basis_B x) + c0 (to_basis_B y)" for x y
    by (simp add: to_basis_B_def galois_simps algebra_simps)
  have "(\<Sum>j<3. c0 (to_basis_B (blk b (xss ! j) * (blk b (yss ! j) * lagrange_2 ! j))))
      = c0 (to_basis_B (E b * F b))" if "b < n" for b
  proof -
    have "(\<Sum>j<3. c0 (to_basis_B (blk b (xss ! j) * (blk b (yss ! j) * lagrange_2 ! j))))
      = c0 (to_basis_B (blk b (xss ! 0) * (blk b (yss ! 0) * lagrange_2 ! 0)
          + blk b (xss ! 1) * (blk b (yss ! 1) * lagrange_2 ! 1)
          + blk b (xss ! 2) * (blk b (yss ! 2) * lagrange_2 ! 2)))"
      by (simp add: three c0_add add.assoc)
    also have "\<dots> = c0 (to_basis_B (E b * F b))"
      using lagrange_2_product [of "E b" "r b" "F b" "s b"] r [of _ b] s [of _ b] that
      by (simp add: mult.assoc numeral_2_eq_2 numeral_3_eq_3)
    finally show ?thesis .
  qed
  then show ?thesis by (subst sum.swap) simp
qed

text \<open>The three parties' trick dots after preprocessing add up to the dot product of the secrets.\<close>

lemma sharing_trick_dot:
  assumes "sharing n xss E" "sharing n yss F"
  shows "\<exists>pss. length pss = 3 \<and> (\<forall>j < 3. preprocess_coefs (j + 1) (yss ! j) = Inr (pss ! j)) \<and>
    (\<Sum>j<3. dot_loop [0..<4 * n] (xss ! j) (pss ! j) 0) = (\<Sum>b<n. c0 (to_basis_B (E b * F b)))"
proof -
  have "\<exists>ps. preprocess_coefs (j + 1) (yss ! j) = Inr ps \<and>
      dot_loop [0..<4 * n] (xss ! j) ps 0
        = (\<Sum>b<n. c0 (to_basis_B (blk b (xss ! j) * (blk b (yss ! j) * lagrange_2 ! j))))"
    if j: "j < 3" for j
  proof -
    have len: "length (yss ! j) = 4 * n" using assms(2) j by (auto simp: sharing_def)
    have pid: "0 < j + 1" "j + 1 \<le> 3" using j by simp_all
    from pid len obtain ps where "preprocess_coefs (j + 1) (yss ! j) = Inr ps" "length ps = 4 * n"
      "\<forall>x. \<forall>b < n. coef_dot x (blk b ps) = c0 (to_basis_B (x * (blk b (yss ! j) * lagrange_2 ! (j + 1 - 1))))"
      by (rule preprocess_coefs_ok)
    then show ?thesis by (intro exI [of _ ps]) (simp add: dot_loop_blocks)
  qed
  then have "\<forall>j. \<exists>ps. j < 3 \<longrightarrow> preprocess_coefs (j + 1) (yss ! j) = Inr ps \<and>
      dot_loop [0..<4 * n] (xss ! j) ps 0
        = (\<Sum>b<n. c0 (to_basis_B (blk b (xss ! j) * (blk b (yss ! j) * lagrange_2 ! j))))"
    by blast
  from choice [OF this] obtain ps where ps:
    "\<forall>j. j < 3 \<longrightarrow> preprocess_coefs (j + 1) (yss ! j) = Inr (ps j) \<and>
      dot_loop [0..<4 * n] (xss ! j) (ps j) 0
        = (\<Sum>b<n. c0 (to_basis_B (blk b (xss ! j) * (blk b (yss ! j) * lagrange_2 ! j))))"
    by blast
  then show ?thesis
    by (intro exI [of _ "map ps [0..<3]"]) (simp add: sharing_dot [OF assms])
qed

section \<open>Encoding\<close>

definition element_at :: "(nat \<Rightarrow> u16) \<Rightarrow> nat \<Rightarrow> A GaloisRingElement" where
  "element_at v b = GRE (v (remap_index (4 * b))) (v (remap_index (4 * b + 1)))
     (v (remap_index (4 * b + 2))) (v (remap_index (4 * b + 3)))"

lemma remap_bound:
  "a < 4 \<Longrightarrow> b < 4 \<Longrightarrow> c < 200 \<Longrightarrow> w < 2 \<Longrightarrow> z < 2 \<Longrightarrow>
     800 * (a * 4 + b) + c * 4 + w * 2 + z < (12800 :: nat)"
proof -
  assume "a < 4" "b < 4" "c < 200" "w < 2" "z < 2"
  then have "a \<le> 3" "b \<le> 3" "c \<le> 199" "w \<le> 1" "z \<le> 1" by simp_all
  then show ?thesis by simp
qed

lemma remap_index_less: "i < 12800 \<Longrightarrow> remap_index i < 12800"
proof -
  assume "i < 12800"
  then have "i div 6400 < 2" by (simp add: less_mult_imp_div_less)
  moreover have "i mod 6400 div 3200 < 2" "i mod 3200 div 800 < 4" "i mod 800 div 4 < 200" "i mod 4 < 4"
    by (simp_all add: less_mult_imp_div_less)
  ultimately show ?thesis unfolding remap_index_def Let_def by (intro remap_bound)
qed

lemma gre_eta [simp]: "GRE (c0 x) (c1 x) (c2 x) (c3 x) = x"
  by (cases x) simp

lemma blk_put_gre:
  "4 * k + 3 < length cs \<Longrightarrow> blk b (put_block (4 * k) e cs) = (if b = k then e else blk b cs)" for e :: gre
  by (simp only: blk_put_block gre_eta)

lemma encode_loop_ok:
  assumes "\<And>i. i < 12800 \<Longrightarrow> val i = Inr (v i)"
    "distinct ks" "\<And>k. k \<in> set ks \<Longrightarrow> k < 3200"
    "length shares = 3" "\<And>s. s \<in> set shares \<Longrightarrow> length (gi_coefs s) = 12800"
  shows "\<exists>shares' g'. encode_loop gen val (map (\<lambda>k. 4 * k) ks) shares g = Inr (shares', g') \<and>
    length shares' = 3 \<and> map gi_id shares' = map gi_id shares \<and>
    (\<forall>s \<in> set shares'. length (gi_coefs s) = 12800) \<and>
    (\<exists>r. \<forall>j < 3. \<forall>b. blk b (gi_coefs (shares' ! j)) =
       (if b \<in> set ks then to_monomial (element_at v b) + r b * EXCEPTIONAL_SEQUENCE ! (j + 1)
        else blk b (gi_coefs (shares ! j))))"
  using assms(2-)
proof (induction ks arbitrary: shares g)
  case Nil
  then show ?case by auto
next
  case (Cons k ks)
  have k: "k < 3200" using Cons.prems(2) by simp
  let ?e = "to_monomial (element_at v k)" and ?r = "fst (gre_random gen g) :: gre"
  let ?y = "\<lambda>j. ?e + ?r * EXCEPTIONAL_SEQUENCE ! j"
  let ?put = "\<lambda>j s. s\<lparr>gi_coefs := put_block (4 * k) (?y j) (gi_coefs s)\<rparr>"
  obtain s0 s1 s2 where shares: "shares = [s0, s1, s2]"
    using Cons.prems(3) by (auto simp: numeral_3_eq_3 length_Suc_conv)
  let ?sh = "[?put 1 s0, ?put 2 s1, ?put 3 s2]"
  have vals: "val (remap_index (4 * k + n)) = Inr (v (remap_index (4 * k + n)))" if "n < 4" for n
    using k that by (intro assms(1) remap_index_less) simp
  have v0: "val (remap_index (4 * k)) = Inr (v (remap_index (4 * k)))" using vals [of 0] by simp
  have v1: "val (remap_index (Suc (4 * k))) = Inr (v (remap_index (Suc (4 * k))))" using vals [of 1] by simp
  have enc: "encode_3_mat gen (c0 ?e, c1 ?e, c2 ?e, c3 ?e) g = encode_3 gen ?e g"
    by (simp add: encode_3_mat_eq_encode_3)
  have el: "from_coefs (v (remap_index (4 * k)), v (remap_index (Suc (4 * k))),
      v (remap_index (Suc (Suc (4 * k)))), v (remap_index (4 * k + 3))) = element_at v k"
    by (simp add: element_at_def from_coefs_def)
  have step: "encode_loop gen val (map (\<lambda>k. 4 * k) (k # ks)) shares g
      = encode_loop gen val (map (\<lambda>k. 4 * k) ks) ?sh (snd (gre_random gen g :: gre \<times> 'a))"
    using vals [of 2] vals [of 3] by (simp add: Let_def v0 v1 el enc encode_3_eq shares)
  have d: "distinct ks" "\<And>k. k \<in> set ks \<Longrightarrow> k < 3200" "length ?sh = 3"
    "\<And>s. s \<in> set ?sh \<Longrightarrow> length (gi_coefs s) = 12800"
    using Cons.prems by (auto simp: shares)
  obtain shares' g' r where IH: "encode_loop gen val (map (\<lambda>k. 4 * k) ks) ?sh
        (snd (gre_random gen g :: gre \<times> 'a)) = Inr (shares', g')"
    "length shares' = 3" "map gi_id shares' = map gi_id ?sh"
    "\<forall>s \<in> set shares'. length (gi_coefs s) = 12800"
    "\<forall>j < 3. \<forall>b. blk b (gi_coefs (shares' ! j)) =
       (if b \<in> set ks then to_monomial (element_at v b) + r b * EXCEPTIONAL_SEQUENCE ! (j + 1)
        else blk b (gi_coefs (?sh ! j)))"
    using Cons.IH [OF d, of "snd (gre_random gen g :: gre \<times> 'a)"] by blast
  have put: "blk b (gi_coefs (?sh ! j)) = (if b = k then ?y (j + 1) else blk b (gi_coefs (shares ! j)))"
    if "j < 3" for j b
  proof -
    have "j = 0 \<or> j = 1 \<or> j = 2" using that by linarith
    then show ?thesis
      using k Cons.prems(4) by (auto simp: shares blk_put_gre numeral_2_eq_2 numeral_3_eq_3)
  qed
  have "blk b (gi_coefs (shares' ! j)) =
       (if b \<in> set (k # ks)
        then to_monomial (element_at v b) + (if b = k then ?r else r b) * EXCEPTIONAL_SEQUENCE ! (j + 1)
        else blk b (gi_coefs (shares ! j)))" if "j < 3" for j b
    using IH(5) put [OF that] that Cons.prems(1) by auto
  then have "\<exists>r. \<forall>j < 3. \<forall>b. blk b (gi_coefs (shares' ! j)) =
       (if b \<in> set (k # ks) then to_monomial (element_at v b) + r b * EXCEPTIONAL_SEQUENCE ! (j + 1)
        else blk b (gi_coefs (shares ! j)))"
    by (intro exI [of _ "\<lambda>b. if b = k then ?r else r b"]) blast
  moreover have "encode_loop gen val (map (\<lambda>k. 4 * k) (k # ks)) shares g = Inr (shares', g')"
    unfolding step by (rule IH(1))
  moreover have "map gi_id shares' = map gi_id shares" using IH(3) by (simp add: shares)
  ultimately show ?case using IH(2,4) by blast
qed


section \<open>The index remapping\<close>

definition unmap_index :: "nat \<Rightarrow> nat" where
  "unmap_index j = 6400 * (j mod 2) + 3200 * (j mod 4 div 2) + 800 * (j div 800 mod 4)
     + 4 * (j mod 800 div 4) + j div 800 div 4"

lemma index_digits:
  obtains b w r1 c r2 where "i = 6400 * b + 3200 * w + 800 * r1 + 4 * c + r2"
    "w < 2" "r1 < 4" "c < 200" "r2 < 4" "b = i div 6400"
    "w = i mod 6400 div 3200" "r1 = i mod 3200 div 800" "c = i mod 800 div 4" "r2 = (i :: nat) mod 4"
proof (rule that [of "i div 6400" "i mod 6400 div 3200" "i mod 3200 div 800" "i mod 800 div 4" "i mod 4"])
  have m: "i mod 6400 mod 3200 = i mod 3200" "i mod 3200 mod 800 = i mod 800" "i mod 800 mod 4 = i mod 4"
    by (simp_all add: mod_mod_cancel)
  have "i = 6400 * (i div 6400) + i mod 6400" by simp
  moreover have "i mod 6400 = 3200 * (i mod 6400 div 3200) + i mod 3200"
    using m(1) by (metis mult_div_mod_eq)
  moreover have "i mod 3200 = 800 * (i mod 3200 div 800) + i mod 800"
    using m(2) by (metis mult_div_mod_eq)
  moreover have "i mod 800 = 4 * (i mod 800 div 4) + i mod 4"
    using m(3) by (metis mult_div_mod_eq)
  ultimately show "i = 6400 * (i div 6400) + 3200 * (i mod 6400 div 3200) + 800 * (i mod 3200 div 800)
    + 4 * (i mod 800 div 4) + i mod 4"
    by linarith
  show "i mod 6400 div 3200 < 2" "i mod 3200 div 800 < 4" "i mod 800 div 4 < 200" "i mod 4 < 4"
    by (simp_all add: less_mult_imp_div_less)
qed (rule refl)+

lemma remapped_digits:
  assumes "b < 2" "w < 2" "c < (200 :: nat)"
  shows "(800 * r + c * 4 + w * 2 + b) div 800 = r" "(800 * r + c * 4 + w * 2 + b) mod 800 div 4 = c"
    "(800 * r + c * 4 + w * 2 + b) mod 4 div 2 = w" "(800 * r + c * 4 + w * 2 + b) mod 2 = b"
proof -
  let ?s = "c * 4 + w * 2 + b"
  have s: "?s < 800" using assms by linarith
  have wb: "w * 2 + b < 4" using assms by linarith
  have j: "800 * r + c * 4 + w * 2 + b = ?s + r * 800" by simp
  show "(800 * r + c * 4 + w * 2 + b) div 800 = r" unfolding j using s by (simp only: div_mult_self3 div_less)
  have "(?s + r * 800) mod 800 = ?s" using s by (simp only: mod_mult_self1 mod_less)
  moreover have "?s div 4 = c"
  proof -
    have "?s = w * 2 + b + c * 4" by simp
    then show ?thesis using wb by (simp only: div_mult_self3 div_less)
  qed
  ultimately show "(800 * r + c * 4 + w * 2 + b) mod 800 div 4 = c" unfolding j by simp
  have "800 * r + c * 4 + w * 2 + b = w * 2 + b + (200 * r + c) * 4" by simp
  then have "(800 * r + c * 4 + w * 2 + b) mod 4 = w * 2 + b"
    using wb by (simp only: mod_mult_self1 mod_less)
  then show "(800 * r + c * 4 + w * 2 + b) mod 4 div 2 = w" using assms(1) by simp
  have "800 * r + c * 4 + w * 2 + b = b + (400 * r + c * 2 + w) * 2" by simp
  then show "(800 * r + c * 4 + w * 2 + b) mod 2 = b"
    using assms(1) by (simp only: mod_mult_self1 mod_less)
qed

lemma unmap_remap: "i < 12800 \<Longrightarrow> unmap_index (remap_index i) = i"
proof -
  assume "i < 12800"
  obtain b w r1 c r2 where d: "i = 6400 * b + 3200 * w + 800 * r1 + 4 * c + r2"
    "w < 2" "r1 < 4" "c < 200" "r2 < 4" "b = i div 6400"
    "w = i mod 6400 div 3200" "r1 = i mod 3200 div 800" "c = i mod 800 div 4" "r2 = i mod 4"
    by (rule index_digits)
  have b: "b < 2" using \<open>i < 12800\<close> d(6) by (simp add: less_mult_imp_div_less)
  have "remap_index i = 800 * (r2 * 4 + r1) + c * 4 + w * 2 + b"
    unfolding remap_index_def Let_def d(6-10) ..
  moreover have "(r2 * 4 + r1) mod 4 = r1" "(r2 * 4 + r1) div 4 = r2" using d(3) by simp_all
  ultimately have "unmap_index (remap_index i) = 6400 * b + 3200 * w + 800 * r1 + 4 * c + r2"
    unfolding unmap_index_def by (simp only: remapped_digits [OF b d(2) d(4)])
  then show ?thesis using d(1) by simp
qed

lemma inj_remap_index: "inj_on remap_index {..<12800}"
  by (rule inj_on_inverseI [where g = unmap_index]) (simp add: unmap_remap)

lemma bij_remap_index: "bij_betw remap_index {..<12800} {..<12800}"
  unfolding bij_betw_def
proof
  show "remap_index ` {..<12800} = {..<12800}"
    by (rule endo_inj_surj) (use inj_remap_index remap_index_less in auto)
qed (rule inj_remap_index)

lemma remap_index_even:
  "i < 6400 \<Longrightarrow> even (remap_index i)"
  by (simp add: remap_index_def Let_def)

lemma bij_remap_index_mask: "bij_betw (\<lambda>i. remap_index i div 2) {..<6400} {..<6400}"
proof -
  have "inj_on (\<lambda>i. remap_index i div 2) {..<6400}"
  proof (rule inj_onI)
    fix i j assume ij: "i \<in> {..<6400}" "j \<in> {..<6400}" "remap_index i div 2 = remap_index j div 2"
    then have "remap_index i = remap_index j" by (metis dvd_mult_div_cancel lessThan_iff remap_index_even)
    then show "i = j" using ij inj_remap_index by (auto dest: inj_onD)
  qed
  moreover have "(\<lambda>i. remap_index i div 2) ` {..<6400} \<subseteq> {..<6400}"
    using remap_index_less by (auto simp: less_mult_imp_div_less)
  ultimately show ?thesis unfolding bij_betw_def by (simp only: endo_inj_surj finite_lessThan simp_thms)
qed

lemma sum_element_dot:
  "(\<Sum>b<n. c0 (to_basis_B (to_monomial (element_at v b) * to_monomial (element_at w b))))
     = (\<Sum>i<n * 4. v (remap_index i) * w (remap_index i))"
proof -
  have four: "{..<4 :: nat} = {0, 1, 2, 3}" by auto
  show ?thesis
    unfolding sum_lessThan_mult
    by (rule sum.cong) (simp_all add: basis_A_dot four coef_dot_def element_at_def algebra_simps)
qed

lemma sum_remap: "(\<Sum>i<12800. f (remap_index i)) = (\<Sum>i<12800. f i)"
  by (rule sum.reindex_bij_betw [OF bij_remap_index])

lemma sum_remap_mask: "(\<Sum>i<6400. f (remap_index i)) = (\<Sum>i<6400. f (2 * i))"
proof -
  have "(\<Sum>i<6400. f (remap_index i)) = (\<Sum>i<6400. f (2 * (remap_index i div 2)))"
    by (rule sum.cong) (simp_all add: remap_index_even)
  also have "\<dots> = (\<Sum>i<6400. f (2 * i))"
    by (rule sum.reindex_bij_betw [OF bij_remap_index_mask, where g = "\<lambda>i. f (2 * i)"])
  finally show ?thesis .
qed

section \<open>Shares of an iris\<close>

lemma list3_map: "length xs = 3 \<Longrightarrow> j < 3 \<Longrightarrow> map f xs ! j = f (xs ! j)"
  by simp

lemma encode_values_sharing:
  assumes "\<And>i. i < 12800 \<Longrightarrow> val i = Inr (v i)"
  obtains shares g' where "encode_values gen val g = Inr (shares, g')"
    "map gi_id shares = [1, 2, 3]"
    "sharing 3200 (map gi_coefs shares) (\<lambda>b. to_monomial (element_at v b))"
proof -
  have steps: "step_by_4 IRIS_CODE_LENGTH = map (\<lambda>k. 4 * k) [0..<3200]"
    by (simp add: step_by_4_def IRIS_CODE_LENGTH_def)
  let ?init = "[gi_default_for_party 1, gi_default_for_party 2, gi_default_for_party 3]"
  have init: "distinct [0..<3200]" "\<And>k. k \<in> set [0..<3200] \<Longrightarrow> k < 3200" "length ?init = 3"
    "\<And>s. s \<in> set ?init \<Longrightarrow> length (gi_coefs s) = 12800"
    by (auto simp: gi_default_for_party_def IRIS_CODE_LENGTH_def)
  obtain shares g' r where ok: "encode_loop gen val (map (\<lambda>k. 4 * k) [0..<3200]) ?init g = Inr (shares, g')"
    "length shares = 3" "map gi_id shares = map gi_id ?init"
    "\<forall>s \<in> set shares. length (gi_coefs s) = 12800"
    "\<forall>j < 3. \<forall>b. blk b (gi_coefs (shares ! j)) =
       (if b \<in> set [0..<3200] then to_monomial (element_at v b) + r b * EXCEPTIONAL_SEQUENCE ! (j + 1)
        else blk b (gi_coefs (?init ! j)))"
    using encode_loop_ok [of val v "[0..<3200]" ?init gen g, OF assms init] by blast
  have "sharing 3200 (map gi_coefs shares) (\<lambda>b. to_monomial (element_at v b))"
    unfolding sharing_def using ok(2,4,5) by (intro conjI exI [of _ r]) simp_all
  moreover have "map gi_id shares = [1, 2, 3]" using ok(3) by (simp add: gi_default_for_party_def)
  moreover have "encode_values gen val g = Inr (shares, g')"
    unfolding encode_values_def steps by (rule ok(1))
  ultimately show ?thesis by (intro that)
qed

text \<open>The value a bit contributes to a dot product: 0 when masked out, 1 for a clear bit, -1 for a set bit.\<close>

definition code_value :: "IrisCode \<Rightarrow> nat \<Rightarrow> u16" where
  "code_value x i = (if bit_at (mask x) i then if bit_at (code x) i then - 1 else 1 else 0)"

definition mask_value :: "IrisCodeArray \<Rightarrow> nat \<Rightarrow> u16" where
  "mask_value m i = of_bool (bit_at m i)"

lemma encode_iris_code_sharing:
  assumes "wf_iris x"
  obtains shares g' where "encode_iris_code gen (code x) (mask x) g = Inr (shares, g')"
    "map gi_id shares = [1, 2, 3]"
    "sharing 3200 (map gi_coefs shares) (\<lambda>b. to_monomial (element_at (code_value x) b))"
proof -
  let ?val = "\<lambda>i. rbind (get_bit (mask x) i) (\<lambda>mb. rbind (get_bit (code x) i) (\<lambda>cb.
      let m = of_bool mb; c = of_bool cb in Inr (m - 2 * (c AND m))))"
  have "of_bool m - 2 * (of_bool c AND of_bool m) = (if m then if c then - 1 else 1 else 0 :: u16)" for m c
    by simp
  then have val: "?val i = Inr (code_value x i)" if "i < 12800" for i
    using assms that unfolding wf_iris_def Let_def
    by (simp add: get_bit_eq IRIS_CODE_SIZE_def code_value_def)
  show ?thesis
    by (rule encode_values_sharing [of ?val "code_value x" gen g, OF val])
      (assumption, rule that, simp_all only: encode_iris_code_def)
qed

lemma encode_mask_code_sharing:
  assumes "wf_array m"
  obtains shares g' where "encode_mask_code gen m g = Inr (shares, g')"
    "map gi_id shares = [1, 2, 3]"
    "sharing 3200 (map gi_coefs shares) (\<lambda>b. to_monomial (element_at (mask_value m) b))"
proof -
  let ?val = "\<lambda>i. rbind (get_bit m i) (\<lambda>mb. Inr (of_bool mb))"
  have val: "?val i = Inr (mask_value m i)" if "i < 12800" for i
    using assms that by (simp add: get_bit_eq IRIS_CODE_SIZE_def mask_value_def)
  show ?thesis
    by (rule encode_values_sharing [of ?val "mask_value m" gen g, OF val])
      (assumption, rule that, simp_all only: encode_mask_code_def)
qed

text \<open>Trimming keeps the first 1600 blocks.\<close>

lemma sharing_trim:
  assumes "sharing 3200 css E"
  shows "sharing 1600 (map (take MASK_CODE_LENGTH) css) E"
proof -
  have "blk b (take MASK_CODE_LENGTH cs) = blk b cs" if "b < 1600" for b cs
    using that by (simp add: get_block_def MASK_CODE_LENGTH_def)
  then show ?thesis
    using assms unfolding sharing_def by (auto simp: MASK_CODE_LENGTH_def)
qed

section \<open>Plaintext dot products\<close>

definition common_mask :: "IrisCode \<Rightarrow> IrisCode \<Rightarrow> nat set" where
  "common_mask x y = {i. i < IRIS_CODE_SIZE \<and> bit_at (mask x) i \<and> bit_at (mask y) i}"

definition differing :: "IrisCode \<Rightarrow> IrisCode \<Rightarrow> nat set" where
  "differing x y = {i \<in> common_mask x y. bit_at (code x) i \<noteq> bit_at (code y) i}"

lemma finite_common_mask [simp]: "finite (common_mask x y)"
  by (simp add: common_mask_def)

lemma card_common_mask_le: "card (common_mask x y) \<le> 12800"
proof -
  have "card (common_mask x y) \<le> card {..<12800 :: nat}"
    by (rule card_mono) (auto simp: common_mask_def IRIS_CODE_SIZE_def)
  then show ?thesis by simp
qed

lemma card_differing_le: "card (differing x y) \<le> card (common_mask x y)"
  by (rule card_mono) (auto simp: differing_def)

lemma code_dot_plain:
  "(\<Sum>i<12800. code_value x i * code_value y i)
     = of_int (int (card (common_mask x y)) - 2 * int (card (differing x y)))"
proof -
  have v: "code_value x i * code_value y i
      = of_bool (i \<in> common_mask x y) - 2 * of_bool (i \<in> differing x y)" if "i < 12800" for i
    using that by (auto simp: code_value_def common_mask_def differing_def IRIS_CODE_SIZE_def)
  have c: "(\<Sum>i<12800. of_bool (i \<in> S)) = (of_nat (card S) :: u16)" if "S \<subseteq> {..<12800}" for S :: "nat set"
    using that by (simp add: of_bool_def sum.If_cases Int_absorb1)
  have sub: "common_mask x y \<subseteq> {..<12800}" "differing x y \<subseteq> {..<12800}"
    by (auto simp: common_mask_def differing_def IRIS_CODE_SIZE_def)
  have "(\<Sum>i<12800. code_value x i * code_value y i)
      = (\<Sum>i<12800. of_bool (i \<in> common_mask x y)) - 2 * (\<Sum>i<12800. of_bool (i \<in> differing x y))"
    by (simp add: v sum_subtractf sum_distrib_left)
  then show ?thesis by (simp only: c [OF sub(1)] c [OF sub(2)]) simp
qed

lemma mask_dot_plain:
  assumes "paired_mask (mask x)" "paired_mask (mask y)"
  shows "2 * (\<Sum>i<6400. mask_value (mask x) (2 * i) * mask_value (mask y) (2 * i))
     = of_nat (card (common_mask x y))"
proof -
  let ?b = "\<lambda>i. of_bool (i \<in> common_mask x y) :: u16"
  have e: "mask_value (mask x) (2 * i) * mask_value (mask y) (2 * i) = ?b (2 * i)"
    "?b (2 * i + 1) = ?b (2 * i)" if "i < 6400" for i
  proof -
    have "bit_at (mask x) (2 * i) = bit_at (mask x) (2 * i + 1)"
      "bit_at (mask y) (2 * i) = bit_at (mask y) (2 * i + 1)"
      using assms that unfolding paired_mask_def IRIS_CODE_SIZE_def by simp_all
    then show "mask_value (mask x) (2 * i) * mask_value (mask y) (2 * i) = ?b (2 * i)"
      "?b (2 * i + 1) = ?b (2 * i)"
      using that by (auto simp: mask_value_def common_mask_def IRIS_CODE_SIZE_def)
  qed
  have two: "(\<Sum>j<2. f j) = f 0 + f 1" for f :: "nat \<Rightarrow> u16" by (simp add: numeral_2_eq_2)
  have "of_nat (card (common_mask x y)) = (\<Sum>i<6400 * 2. ?b i)"
    by (simp add: of_bool_def sum.If_cases) (auto simp: common_mask_def IRIS_CODE_SIZE_def
        intro!: arg_cong [of _ _ "\<lambda>S. of_nat (card S)"])
  also have "\<dots> = (\<Sum>i<6400. \<Sum>j<2. ?b (i * 2 + j))"
    by (rule sum_lessThan_mult)
  also have "\<dots> = (\<Sum>i<6400. 2 * ?b (2 * i))"
  proof (rule sum.cong)
    fix i assume "i \<in> {..<6400 :: nat}"
    then show "(\<Sum>j<2. ?b (i * 2 + j)) = 2 * ?b (2 * i)"
      using e(2) [of i] unfolding two by (simp add: mult.commute [of i])
  qed simp
  also have "\<dots> = 2 * (\<Sum>i<6400. mask_value (mask x) (2 * i) * mask_value (mask y) (2 * i))"
    unfolding sum_distrib_left by (rule sum.cong) (simp_all only: e lessThan_iff)
  finally show ?thesis by simp
qed


section \<open>Rotations\<close>

definition shift_block :: "nat \<Rightarrow> nat \<Rightarrow> nat" where
  "shift_block t b = 200 * (b div 200) + (b mod 200 + t) mod 200"

lemma shift_block_less: "b < 200 * q \<Longrightarrow> shift_block t b < 200 * q"
proof -
  assume "b < 200 * q"
  then have "b div 200 < q" by (simp add: less_mult_imp_div_less mult.commute)
  moreover have "(b mod 200 + t) mod 200 < 200" by simp
  ultimately show ?thesis unfolding shift_block_def by linarith
qed

lemma shift_block_compose: "shift_block t (shift_block u b) = shift_block (t + u) b"
proof -
  have "shift_block u b div 200 = b div 200" "shift_block u b mod 200 = (b mod 200 + u) mod 200"
    by (simp_all add: shift_block_def)
  moreover have "((b mod 200 + u) mod 200 + t) mod 200 = (b mod 200 + (t + u)) mod 200"
    by (simp only: mod_add_left_eq) (simp only: ac_simps)
  ultimately show ?thesis by (simp only: shift_block_def [of t] shift_block_def [of "t + u"])
qed

lemma nth_row:
  assumes "length cs = 800 * q" "i < 800 * q"
  shows "chunks_exact 800 cs ! (i div 800) ! s = (if s < 800 then cs ! (800 * (i div 800) + s) else chunks_exact 800 cs ! (i div 800) ! s)"
proof -
  have "i div 800 < length cs div 800" using assms by (simp add: less_mult_imp_div_less mult.commute)
  then have "chunks_exact 800 cs ! (i div 800) = take 800 (drop (i div 800 * 800) cs)"
    and "i div 800 * 800 + 800 \<le> length cs"
    using assms by (simp_all add: nth_chunks_exact)
  then show ?thesis by (simp add: mult.commute)
qed

lemma nth_rotate_rows:
  assumes len: "length cs = 800 * q" and t: "t \<le> 200"
    and rot: "\<And>xs s. length xs = 800 \<Longrightarrow> s < 800 \<Longrightarrow>
      length (rot (t * 4) xs) = 800 \<and> rot (t * 4) xs ! s = xs ! ((s + 4 * u) mod 800)"
  obtains cs' where "rotate_rows rot cs t = Inr cs'" "length cs' = 800 * q"
    "\<forall>b < 200 * q. blk b cs' = blk (shift_block u b) cs"
proof -
  let ?rows = "chunks_exact 800 cs"
  let ?cs = "concat (map (rot (t * 4)) ?rows)"
  have lens: "length r = 800" if "r \<in> set ?rows" for r
    using that len by (auto simp: in_set_conv_nth length_nth_chunks_exact)
  have "rotate_rows rot cs t = Inr ?cs"
    using len t by (simp add: rotate_rows_def CODE_COLS_def)
  moreover have "length ?cs = 800 * q"
  proof -
    have "length (concat xss) = 800 * length xss" if "\<forall>xs \<in> set xss. length xs = 800" for xss :: "u16 list list"
      using that by (induction xss) simp_all
    then show ?thesis using lens rot [of _ 0] len by (simp add: comp_def)
  qed
  moreover have nth: "?cs ! i = cs ! (800 * (i div 800) + (i mod 800 + 4 * u) mod 800)" if "i < 800 * q" for i
  proof -
    have row: "i div 800 < length ?rows" using that len by (simp add: less_mult_imp_div_less mult.commute)
    have "?cs ! i = map (rot (t * 4)) ?rows ! (i div 800) ! (i mod 800)"
      using that len lens rot [of _ 0] by (intro nth_concat_equal) auto
    also have "\<dots> = rot (t * 4) (?rows ! (i div 800)) ! (i mod 800)" using row by simp
    also have "\<dots> = ?rows ! (i div 800) ! ((i mod 800 + 4 * u) mod 800)"
      using row lens by (simp add: rot)
    also have "\<dots> = cs ! (800 * (i div 800) + (i mod 800 + 4 * u) mod 800)"
      using nth_row [OF len that, of "(i mod 800 + 4 * u) mod 800"] by simp
    finally show ?thesis .
  qed
  moreover have "blk b ?cs = blk (shift_block u b) cs" if b: "b < 200 * q" for b
  proof -
    have "?cs ! (4 * b + m) = cs ! (4 * shift_block u b + m)" if m: "m < 4" for m
    proof -
      have d: "(4 * b + m) div 800 = b div 200"
      proof -
        have "(4 * b + m) div 800 = (4 * b + m) div 4 div 200" by (simp add: div_mult2_eq [symmetric])
        then show ?thesis using m by simp
      qed
      have e: "(4 * b + m) mod 800 = 4 * (b mod 200) + m"
      proof -
        have "4 * b + m = 4 * (b mod 200) + m + b div 200 * 800"
          using mult_div_mod_eq [of 200 b] by linarith
        moreover have "4 * (b mod 200) + m < 800" using m mod_less_divisor [of 200 b] by linarith
        ultimately show ?thesis by (metis mod_less mod_mult_self1)
      qed
      have f: "(4 * (b mod 200) + m + 4 * u) mod 800 = 4 * ((b mod 200 + u) mod 200) + m"
      proof -
        let ?x = "b mod 200 + u"
        have "4 * (b mod 200) + m + 4 * u = 4 * (?x mod 200) + m + ?x div 200 * 800"
          using mult_div_mod_eq [of 200 ?x] by linarith
        moreover have "4 * (?x mod 200) + m < 800" using m mod_less_divisor [of 200 ?x] by linarith
        ultimately show ?thesis by (metis mod_less mod_mult_self1)
      qed
      have "4 * b + m < 800 * q" using b m by linarith
      then have "?cs ! (4 * b + m) = cs ! (800 * (b div 200) + (4 * ((b mod 200 + u) mod 200) + m))"
        by (simp only: nth d e f)
      then show ?thesis by (simp add: shift_block_def add.assoc)
    qed
    from this [of 0] this [of 1] this [of 2] this [of 3] show ?thesis by (simp add: get_block_def)
  qed
  ultimately show ?thesis by (intro that) blast+
qed

lemma rotate_coefs_right_1:
  assumes "length cs = 800 * q"
  obtains cs' where "rotate_coefs_right cs 1 = Inr cs'" "length cs' = 800 * q"
    "\<forall>b < 200 * q. blk b cs' = blk (shift_block 199 b) cs"
  unfolding rotate_coefs_right_def
  by (rule nth_rotate_rows [OF assms, of 1 rotate_right 199]) (simp_all add: nth_rotate_right that)

lemma rotate_coefs_left_16:
  assumes "length cs = 800 * q"
  obtains cs' where "rotate_coefs_left cs 16 = Inr cs'" "length cs' = 800 * q"
    "\<forall>b < 200 * q. blk b cs' = blk (shift_block 16 b) cs"
  unfolding rotate_coefs_left_def
  by (rule nth_rotate_rows [OF assms, of 16 rotate_left 16]) (simp_all add: nth_rotate_left that)

lemma rotations_loop_ok:
  assumes "length cs = 800 * q" "\<And>b. b < 200 * q \<Longrightarrow> blk b cs = blk (shift_block t b) cs0"
  shows "\<exists>rs. rotations_loop n cs acc = Inr (acc @ rs) \<and> length rs = n \<and>
    (\<forall>k < n. length (rs ! k) = 800 * q \<and>
      (\<forall>b < 200 * q. blk b (rs ! k) = blk (shift_block (t + 199 * (k + 1)) b) cs0))"
  using assms
proof (induction n arbitrary: cs t acc)
  case (Suc n)
  obtain cs1 where cs1: "rotate_coefs_right cs 1 = Inr cs1" "length cs1 = 800 * q"
    "\<forall>b < 200 * q. blk b cs1 = blk (shift_block 199 b) cs"
    using Suc.prems(1) by (rule rotate_coefs_right_1)
  have b1: "blk b cs1 = blk (shift_block (t + 199) b) cs0" if "b < 200 * q" for b
    using that by (simp add: cs1(3) Suc.prems(2) shift_block_less shift_block_compose)
  obtain rs where rs: "rotations_loop n cs1 (acc @ [cs1]) = Inr ((acc @ [cs1]) @ rs)" "length rs = n"
    "\<forall>k < n. length (rs ! k) = 800 * q \<and>
      (\<forall>b < 200 * q. blk b (rs ! k) = blk (shift_block (t + 199 + 199 * (k + 1)) b) cs0)"
    using Suc.IH [OF cs1(2) b1, of "acc @ [cs1]"] by blast
  have "length ((cs1 # rs) ! k) = 800 * q \<and>
      (\<forall>b < 200 * q. blk b ((cs1 # rs) ! k) = blk (shift_block (t + 199 * (k + 1)) b) cs0)"
    if "k < Suc n" for k
  proof (cases k)
    case 0
    then show ?thesis using cs1(2) b1 by simp
  next
    case (Suc l)
    then have "t + 199 + 199 * (l + 1) = t + 199 * (k + 1)" "l < n" using that by simp_all
    with rs(3) Suc show ?thesis by (metis nth_Cons_Suc)
  qed
  then show ?case using rs(1,2) by (intro exI [of _ "cs1 # rs"]) (simp add: cs1(1) [simplified])
qed simp

text \<open>Rotation \<open>k\<close> of the 31 shifts the columns by \<open>15 - k\<close>.\<close>

lemma shift_block_period: "shift_block (16 + 199 * (k + 1)) b = shift_block (215 - k) b" if "k < 31"
proof -
  have "b mod 200 + (16 + 199 * (k + 1)) = b mod 200 + (215 - k) + k * 200"
    using that by simp
  then show ?thesis unfolding shift_block_def by (metis mod_mult_self1)
qed

lemma all_rotations_coefs_ok:
  assumes "length cs = 800 * q"
  obtains rs where "all_rotations_coefs cs = Inr rs" "length rs = 31"
    "\<forall>k < 31. length (rs ! k) = 800 * q \<and> (\<forall>b < 200 * q. blk b (rs ! k) = blk (shift_block (215 - k) b) cs)"
proof -
  obtain cs1 where cs1: "rotate_coefs_left cs 16 = Inr cs1" "length cs1 = 800 * q"
    "\<forall>b < 200 * q. blk b cs1 = blk (shift_block 16 b) cs"
    using assms by (rule rotate_coefs_left_16)
  obtain rs where "rotations_loop 31 cs1 [] = Inr ([] @ rs)" "length rs = 31"
    "\<forall>k < 31. length (rs ! k) = 800 * q \<and>
      (\<forall>b < 200 * q. blk b (rs ! k) = blk (shift_block (16 + 199 * (k + 1)) b) cs)"
    using rotations_loop_ok [OF cs1(2) cs1(3) [rule_format], of 31 "[]"] by blast
  then show ?thesis
    by (intro that [of rs]) (simp_all add: all_rotations_coefs_def cs1(1) [simplified] shift_block_period [simplified])
qed

text \<open>Rotating the three shares of a sequence gives shares of the rotated sequence.\<close>

lemma sharing_rotations:
  assumes "sharing (200 * q) css E"
  obtains rss where "length rss = 3" "\<forall>j < 3. all_rotations_coefs (css ! j) = Inr (rss ! j)"
    "\<forall>j < 3. length (rss ! j) = 31"
    "\<forall>k < 31. sharing (200 * q) (map (\<lambda>rs. rs ! k) rss) (\<lambda>b. E (shift_block (215 - k) b))"
proof -
  have len: "length css = 3" "\<And>j. j < 3 \<Longrightarrow> length (css ! j) = 800 * q"
    using assms by (auto simp: sharing_def)
  have "\<forall>j. \<exists>rs. j < 3 \<longrightarrow> all_rotations_coefs (css ! j) = Inr rs \<and> length rs = 31 \<and>
    (\<forall>k < 31. length (rs ! k) = 800 * q \<and>
      (\<forall>b < 200 * q. blk b (rs ! k) = blk (shift_block (215 - k) b) (css ! j)))"
    using all_rotations_coefs_ok [OF len(2)] by metis
  from choice [OF this] obtain R where R: "\<And>j. j < 3 \<Longrightarrow> all_rotations_coefs (css ! j) = Inr (R j) \<and>
    length (R j) = 31 \<and> (\<forall>k < 31. length (R j ! k) = 800 * q \<and>
      (\<forall>b < 200 * q. blk b (R j ! k) = blk (shift_block (215 - k) b) (css ! j)))"
    by blast
  obtain r where r: "\<And>j b. j < 3 \<Longrightarrow> b < 200 * q \<Longrightarrow> blk b (css ! j) = E b + r b * EXCEPTIONAL_SEQUENCE ! (j + 1)"
    using assms by (auto simp: sharing_def)
  have "sharing (200 * q) (map (\<lambda>rs. rs ! k) (map R [0..<3])) (\<lambda>b. E (shift_block (215 - k) b))"
    if "k < 31" for k
    unfolding sharing_def
  proof (intro conjI exI [of _ "\<lambda>b. r (shift_block (215 - k) b)"] allI impI ballI)
    fix cs assume "cs \<in> set (map (\<lambda>rs. rs ! k) (map R [0..<3]))"
    then show "length cs = 4 * (200 * q)" using R that by auto
  next
    fix j b :: nat assume "j < 3" "b < 200 * q"
    then show "blk b (map (\<lambda>rs. rs ! k) (map R [0..<3]) ! j) = E (shift_block (215 - k) b)
        + r (shift_block (215 - k) b) * EXCEPTIONAL_SEQUENCE ! (j + 1)"
      using R [of j] that r [of j "shift_block (215 - k) b"] shift_block_less [of b q "215 - k"] by simp
  qed simp
  then show ?thesis using R by (intro that [of "map R [0..<3]"]) auto
qed


section \<open>Dot products of shares\<close>

lemma list3_nth: "length xs = 3 \<Longrightarrow> xs = [xs ! 0, xs ! 1, xs ! 2]"
  by (auto simp: numeral_3_eq_3 numeral_2_eq_2 length_Suc_conv)

lemma sum3: "(\<Sum>j<3. f j) = f 0 + f 1 + f (2 :: nat)" for f :: "nat \<Rightarrow> 'a::comm_monoid_add"
  by (simp add: numeral_3_eq_3 numeral_2_eq_2)

lemma ids_nth: "map f xs = [1, 2, 3 :: nat] \<Longrightarrow> length xs = 3 \<and> (\<forall>j < 3. f (xs ! j) = j + 1)"
proof -
  assume "map f xs = [1, 2, 3]"
  then obtain a b c where "xs = [a, b, c]" "f a = 1" "f b = 2" "f c = 3" by auto
  then show ?thesis by (simp add: less_Suc_eq numeral_3_eq_3 numeral_2_eq_2 all_conj_distrib)
qed

lemma rmap_3:
  "length xs = 3 \<Longrightarrow> length ys = 3 \<Longrightarrow> (\<And>j. j < 3 \<Longrightarrow> f (xs ! j) = Inr (ys ! j)) \<Longrightarrow> rmap f xs = Inr ys"
proof -
  assume len: "length xs = 3" "length ys = 3" and f: "\<And>j. j < 3 \<Longrightarrow> f (xs ! j) = Inr (ys ! j)"
  obtain a b c a' b' c' where "xs = [a, b, c]" "ys = [a', b', c']"
    using list3_nth [OF len(1)] list3_nth [OF len(2)] by metis
  then show ?thesis using f [of 0] f [of 1] f [of 2] by simp
qed

lemma trick_dot_shares:
  assumes "sharing 3200 (map gi_coefs xs) E" "sharing 3200 (map gi_coefs ys) F"
    "map gi_id ys = [1, 2, 3]"
  obtains ps where "rmap preprocess_iris_code_query_share ys = Inr ps"
    "trick_dot (xs ! 0) (ps ! 0) + trick_dot (xs ! 1) (ps ! 1) + trick_dot (xs ! 2) (ps ! 2)
       = (\<Sum>b<3200. c0 (to_basis_B (E b * F b)))"
proof -
  have len: "length xs = 3" "length ys = 3" and ids: "\<And>j. j < 3 \<Longrightarrow> gi_id (ys ! j) = j + 1"
    using assms ids_nth [OF assms(3)] by (auto simp: sharing_def)
  obtain pss where pss: "length pss = 3"
    "\<forall>j < 3. preprocess_coefs (j + 1) (map gi_coefs ys ! j) = Inr (pss ! j)"
    "(\<Sum>j<3. dot_loop [0..<4 * 3200] (map gi_coefs xs ! j) (pss ! j) 0) = (\<Sum>b<3200. c0 (to_basis_B (E b * F b)))"
    using sharing_trick_dot [OF assms(1,2)] by blast
  let ?ps = "map (\<lambda>j. (ys ! j)\<lparr>gi_coefs := pss ! j\<rparr>) [0..<3]"
  have "rmap preprocess_iris_code_query_share ys = Inr ?ps"
    using len ids pss(2) by (intro rmap_3) (auto simp: preprocess_iris_code_query_share_def)
  moreover have "trick_dot (xs ! 0) (?ps ! 0) + trick_dot (xs ! 1) (?ps ! 1) + trick_dot (xs ! 2) (?ps ! 2)
       = (\<Sum>b<3200. c0 (to_basis_B (E b * F b)))"
    using pss(3) len unfolding sum3 by (simp add: trick_dot_def IRIS_CODE_LENGTH_def numeral_2_eq_2)
  ultimately show ?thesis by (rule that)
qed

lemma tm_trick_dot_shares:
  assumes "sharing 1600 (map tm_coefs xs) E" "sharing 1600 (map tm_coefs ys) F"
    "map tm_id ys = [1, 2, 3]"
  obtains ps where "rmap preprocess_mask_code_query_share ys = Inr ps"
    "tm_trick_dot (xs ! 0) (ps ! 0) + tm_trick_dot (xs ! 1) (ps ! 1) + tm_trick_dot (xs ! 2) (ps ! 2)
       = (\<Sum>b<1600. c0 (to_basis_B (E b * F b)))"
proof -
  have len: "length xs = 3" "length ys = 3" and ids: "\<And>j. j < 3 \<Longrightarrow> tm_id (ys ! j) = j + 1"
    using assms ids_nth [OF assms(3)] by (auto simp: sharing_def)
  obtain pss where pss: "length pss = 3"
    "\<forall>j < 3. preprocess_coefs (j + 1) (map tm_coefs ys ! j) = Inr (pss ! j)"
    "(\<Sum>j<3. dot_loop [0..<4 * 1600] (map tm_coefs xs ! j) (pss ! j) 0) = (\<Sum>b<1600. c0 (to_basis_B (E b * F b)))"
    using sharing_trick_dot [OF assms(1,2)] by blast
  let ?ps = "map (\<lambda>j. (ys ! j)\<lparr>tm_coefs := pss ! j\<rparr>) [0..<3]"
  have "rmap preprocess_mask_code_query_share ys = Inr ?ps"
    using len ids pss(2) by (intro rmap_3) (auto simp: preprocess_mask_code_query_share_def)
  moreover have "tm_trick_dot (xs ! 0) (?ps ! 0) + tm_trick_dot (xs ! 1) (?ps ! 1) + tm_trick_dot (xs ! 2) (?ps ! 2)
       = (\<Sum>b<1600. c0 (to_basis_B (E b * F b)))"
    using pss(3) len unfolding sum3 by (simp add: tm_trick_dot_def MASK_CODE_LENGTH_def numeral_2_eq_2)
  ultimately show ?thesis by (rule that)
qed

lemma full_encode_sharing:
  assumes "wf_iris x"
  obtains shares g' where "full_encode_iris_code gen x g = Inr (shares, g')" "length shares = 3"
    "map (gi_id \<circ> full_code) shares = [1, 2, 3]" "map (tm_id \<circ> full_mask) shares = [1, 2, 3]"
    "sharing 3200 (map (gi_coefs \<circ> full_code) shares) (\<lambda>b. to_monomial (element_at (code_value x) b))"
    "sharing 1600 (map (tm_coefs \<circ> full_mask) shares) (\<lambda>b. to_monomial (element_at (mask_value (mask x)) b))"
proof -
  obtain cs g1 where cs: "encode_iris_code gen (code x) (mask x) g = Inr (cs, g1)"
    "map gi_id cs = [1, 2, 3]"
    "sharing 3200 (map gi_coefs cs) (\<lambda>b. to_monomial (element_at (code_value x) b))"
    using assms by (rule encode_iris_code_sharing)
  have "wf_array (mask x)" using assms by (simp add: wf_iris_def)
  then obtain ms g2 where ms: "encode_mask_code gen (mask x) g1 = Inr (ms, g2)"
    "map gi_id ms = [1, 2, 3]"
    "sharing 3200 (map gi_coefs ms) (\<lambda>b. to_monomial (element_at (mask_value (mask x)) b))"
    by (rule encode_mask_code_sharing)
  let ?s = "map2 (\<lambda>c m. \<lparr>full_code = c, full_mask = trim_mask m\<rparr>) cs ms"
  have len: "length cs = length ms" using cs(2) ms(2) by (metis length_map)
  have m1: "map (f \<circ> full_code) ?s = map f cs" for f 
    by (rule nth_equalityI) (use len in simp_all)
  have m2: "map (f \<circ> full_mask) ?s = map (f \<circ> trim_mask) ms" for f
    by (rule nth_equalityI) (use len in simp_all)
  show ?thesis
  proof (rule that)
    show "full_encode_iris_code gen x g = Inr (?s, g2)"
      using cs(1) ms(1) by (simp add: full_encode_iris_code_def)
    show "length ?s = 3" using ids_nth [OF cs(2)] len by simp
    show "map (gi_id \<circ> full_code) ?s = [1, 2, 3]" unfolding m1 by (rule cs(2))
    show "map (tm_id \<circ> full_mask) ?s = [1, 2, 3]"
      unfolding m2 using ms(2) by (simp add: trim_mask_def comp_def)
    show "sharing 3200 (map (gi_coefs \<circ> full_code) ?s) (\<lambda>b. to_monomial (element_at (code_value x) b))"
      unfolding m1 by (rule cs(3))
    show "sharing 1600 (map (tm_coefs \<circ> full_mask) ?s)
        (\<lambda>b. to_monomial (element_at (mask_value (mask x)) b))"
      unfolding m2 using sharing_trim [OF ms(3)] by (simp add: trim_mask_def comp_def)
  qed
qed

text \<open>Code and mask dot products of two encoded irises, as the plaintext counts.\<close>

lemma code_dot_shares:
  assumes "sharing 3200 (map gi_coefs xs) (\<lambda>b. to_monomial (element_at (code_value x) b))"
    "sharing 3200 (map gi_coefs ys) (\<lambda>b. to_monomial (element_at (code_value y) b))"
    "map gi_id ys = [1, 2, 3]"
  obtains ps where "rmap preprocess_iris_code_query_share ys = Inr ps"
    "trick_dot (xs ! 0) (ps ! 0) + trick_dot (xs ! 1) (ps ! 1) + trick_dot (xs ! 2) (ps ! 2)
       = of_int (int (card (common_mask x y)) - 2 * int (card (differing x y)))"
proof -
  have "(\<Sum>b<3200. c0 (to_basis_B (to_monomial (element_at (code_value x) b)
      * to_monomial (element_at (code_value y) b))))
    = of_int (int (card (common_mask x y)) - 2 * int (card (differing x y)))"
    unfolding sum_element_dot
    using sum_remap [of "\<lambda>i. code_value x i * code_value y i"] code_dot_plain [of x y] by simp
  note eq = this
  show ?thesis by (rule trick_dot_shares [OF assms]) (rule that, assumption, simp only: eq)
qed

lemma mask_dot_shares:
  assumes "sharing 1600 (map tm_coefs xs) (\<lambda>b. to_monomial (element_at (mask_value (mask x)) b))"
    "sharing 1600 (map tm_coefs ys) (\<lambda>b. to_monomial (element_at (mask_value (mask y)) b))"
    "map tm_id ys = [1, 2, 3]" "paired_mask (mask x)" "paired_mask (mask y)"
  obtains ps where "rmap preprocess_mask_code_query_share ys = Inr ps"
    "2 * (tm_trick_dot (xs ! 0) (ps ! 0) + tm_trick_dot (xs ! 1) (ps ! 1) + tm_trick_dot (xs ! 2) (ps ! 2))
       = of_nat (card (common_mask x y))"
proof -
  have "2 * (\<Sum>b<1600. c0 (to_basis_B (to_monomial (element_at (mask_value (mask x)) b)
      * to_monomial (element_at (mask_value (mask y)) b))))
    = of_nat (card (common_mask x y))"
    unfolding sum_element_dot
    using sum_remap_mask [of "\<lambda>i. mask_value (mask x) i * mask_value (mask y) i"]
      mask_dot_plain [OF assms(4,5)] by simp
  note eq = this
  show ?thesis by (rule tm_trick_dot_shares [OF assms(1-3)]) (rule that, assumption, simp only: eq)
qed

section \<open>Properties\<close>

text \<open>
  Reindexing of the shares. \<open>remap_index\<close> permutes the 12800 indices, so the encoders neither
  drop nor repeat a bit.
\<close>

theorem remap_index_permutes: "bij_betw remap_index {..<IRIS_CODE_LENGTH} {..<IRIS_CODE_LENGTH}"
  unfolding IRIS_CODE_LENGTH_def by (rule bij_remap_index)

text \<open>
  C33: Equivalence of the two dot products. For a share of party 1, 2 or 3, preprocessing the query
  share and taking the plain dot product gives what the ring products of \<open>full_dot\<close> give.
\<close>

theorem trick_dot_eq_full_dot:
  assumes "gi_id x \<in> {1, 2, 3}" "gi_id y = gi_id x" "length (gi_coefs y) = IRIS_CODE_LENGTH"
  shows "\<exists>p. preprocess_iris_code_query_share y = Inr p \<and> full_dot x y = Inr (trick_dot x p)"
proof -
  have pid: "0 < gi_id x" "gi_id x \<le> 3" using assms(1) by auto
  have len: "length (gi_coefs y) = 4 * 3200" using assms(3) by (simp add: IRIS_CODE_LENGTH_def)
  obtain cs where cs: "preprocess_coefs (gi_id x) (gi_coefs y) = Inr cs" "length cs = 4 * 3200"
    "\<forall>z. \<forall>b < 3200. coef_dot z (blk b cs) = c0 (to_basis_B (z * (blk b (gi_coefs y) * lagrange_2 ! (gi_id x - 1))))"
    using pid len by (rule preprocess_coefs_ok)
  have "trick_dot x (y\<lparr>gi_coefs := cs\<rparr>) = (\<Sum>b<3200. coef_dot (blk b (gi_coefs x)) (blk b cs))"
    using dot_loop_blocks [of 3200 "gi_coefs x" cs] by (simp add: trick_dot_def IRIS_CODE_LENGTH_def)
  also have "\<dots> = (\<Sum>b<3200. c0 (to_basis_B
      (blk b (gi_coefs x) * (blk b (gi_coefs y) * lagrange_2 ! (gi_id x - 1)))))"
    using cs(3) by (intro sum.cong) simp_all
  finally show ?thesis
    using cs(1) assms(2) full_dot_sum [OF pid, of y]
    by (simp add: preprocess_iris_code_query_share_def)
qed

theorem trick_dot_eq_full_dot_witness:
  "\<exists>p. preprocess_iris_code_query_share (gi_default_for_party 2) = Inr p \<and>
     full_dot (gi_default_for_party 2) (gi_default_for_party 2) = Inr (trick_dot (gi_default_for_party 2) p)"
  by (rule trick_dot_eq_full_dot) (simp_all add: gi_default_for_party_def)

text \<open>
  C27: End-to-end dot product of shared irises. Encoding two irises, preprocessing the query shares
  and adding the three parties' local dot products gives, modulo 2^16, the number of common mask
  bits minus twice the number of differing code bits among them for the codes, and, doubled, the
  number of common mask bits for the trimmed masks when the masks have equal neighbouring bits.
\<close>

theorem shared_iris_dot_products:
  assumes "wf_iris x" "wf_iris y" "paired_mask (mask x)" "paired_mask (mask y)"
  shows "\<exists>xs ys g' h' cs ms.
    full_encode_iris_code gen x g = Inr (xs, g') \<and> full_encode_iris_code gen y h = Inr (ys, h') \<and>
    rmap preprocess_iris_code_query_share (map full_code ys) = Inr cs \<and>
    rmap preprocess_mask_code_query_share (map full_mask ys) = Inr ms \<and>
    trick_dot (full_code (xs ! 0)) (cs ! 0) + trick_dot (full_code (xs ! 1)) (cs ! 1)
      + trick_dot (full_code (xs ! 2)) (cs ! 2)
      = of_int (int (card (common_mask x y)) - 2 * int (card (differing x y))) \<and>
    2 * (tm_trick_dot (full_mask (xs ! 0)) (ms ! 0) + tm_trick_dot (full_mask (xs ! 1)) (ms ! 1)
      + tm_trick_dot (full_mask (xs ! 2)) (ms ! 2))
      = of_nat (card (common_mask x y))"
proof -
  obtain xs g' where xs: "full_encode_iris_code gen x g = Inr (xs, g')" "length xs = 3"
    "map (gi_id \<circ> full_code) xs = [1, 2, 3]" "map (tm_id \<circ> full_mask) xs = [1, 2, 3]"
    "sharing 3200 (map (gi_coefs \<circ> full_code) xs) (\<lambda>b. to_monomial (element_at (code_value x) b))"
    "sharing 1600 (map (tm_coefs \<circ> full_mask) xs) (\<lambda>b. to_monomial (element_at (mask_value (mask x)) b))"
    using assms(1) by (rule full_encode_sharing)
  obtain ys h' where ys: "full_encode_iris_code gen y h = Inr (ys, h')" "length ys = 3"
    "map (gi_id \<circ> full_code) ys = [1, 2, 3]" "map (tm_id \<circ> full_mask) ys = [1, 2, 3]"
    "sharing 3200 (map (gi_coefs \<circ> full_code) ys) (\<lambda>b. to_monomial (element_at (code_value y) b))"
    "sharing 1600 (map (tm_coefs \<circ> full_mask) ys) (\<lambda>b. to_monomial (element_at (mask_value (mask y)) b))"
    using assms(2) by (rule full_encode_sharing)
  obtain cs where cs: "rmap preprocess_iris_code_query_share (map full_code ys) = Inr cs"
    "trick_dot (map full_code xs ! 0) (cs ! 0) + trick_dot (map full_code xs ! 1) (cs ! 1)
      + trick_dot (map full_code xs ! 2) (cs ! 2)
      = of_int (int (card (common_mask x y)) - 2 * int (card (differing x y)))"
    using code_dot_shares [of "map full_code xs" x "map full_code ys" y] xs ys by auto
  obtain ms where ms: "rmap preprocess_mask_code_query_share (map full_mask ys) = Inr ms"
    "2 * (tm_trick_dot (map full_mask xs ! 0) (ms ! 0) + tm_trick_dot (map full_mask xs ! 1) (ms ! 1)
      + tm_trick_dot (map full_mask xs ! 2) (ms ! 2)) = of_nat (card (common_mask x y))"
    using mask_dot_shares [of "map full_mask xs" x "map full_mask ys" y] xs ys assms(3,4) by auto
  have n: "map f xs ! 0 = f (xs ! 0)" "map f xs ! 1 = f (xs ! 1)" "map f xs ! 2 = f (xs ! 2)" for f
    using xs(2) by simp_all
  show ?thesis using xs(1) ys(1) cs ms unfolding n by blast
qed

lemma wf_iris_default: "wf_iris iris_default" "paired_mask (mask iris_default)"
  by (simp_all add: wf_iris_def iris_default_def paired_ONES)

theorem shared_iris_dot_products_witness:
  "\<exists>xs ys g' h' cs ms.
    full_encode_iris_code (\<lambda>g. (g, 3 * g + 1)) iris_default 5 = Inr (xs, g') \<and>
    full_encode_iris_code (\<lambda>g. (g, 3 * g + 1)) iris_default 9 = Inr (ys, h') \<and>
    rmap preprocess_iris_code_query_share (map full_code ys) = Inr cs \<and>
    rmap preprocess_mask_code_query_share (map full_mask ys) = Inr ms \<and>
    trick_dot (full_code (xs ! 0)) (cs ! 0) + trick_dot (full_code (xs ! 1)) (cs ! 1)
      + trick_dot (full_code (xs ! 2)) (cs ! 2)
      = of_int (int (card (common_mask iris_default iris_default))
          - 2 * int (card (differing iris_default iris_default))) \<and>
    2 * (tm_trick_dot (full_mask (xs ! 0)) (ms ! 0) + tm_trick_dot (full_mask (xs ! 1)) (ms ! 1)
      + tm_trick_dot (full_mask (xs ! 2)) (ms ! 2))
      = of_nat (card (common_mask iris_default iris_default))"
  by (rule shared_iris_dot_products) (rule wf_iris_default)+


section \<open>Rotated irises\<close>

text \<open>
  The index of the bit that sits \<open>t\<close> columns further in the same row of the iris code, and the
  iris read through it.
\<close>

definition rotate_index :: "nat \<Rightarrow> nat \<Rightarrow> nat" where
  "rotate_index t i = 800 * (i div 800) + (i mod 800 + 4 * t) mod 800"

lemma column_shift:
  "s < 4 \<Longrightarrow> (4 * c + s + 4 * u) mod 800 = 4 * ((c + u) mod 200) + s" for c :: nat
proof -
  assume s: "s < 4"
  have "4 * c + s + 4 * u = 4 * ((c + u) mod 200) + s + (c + u) div 200 * 800"
    using mult_div_mod_eq [of 200 "c + u"] by linarith
  moreover have "4 * ((c + u) mod 200) + s < 800" using s mod_less_divisor [of 200 "c + u"] by linarith
  ultimately show ?thesis by (metis mod_less mod_mult_self1)
qed

lemma row_split: "s < 800 \<Longrightarrow> (800 * q + s) div 800 = q" "s < 800 \<Longrightarrow> (800 * q + s) mod 800 = s" for q s :: nat
  by simp_all

lemma remap_index_by_row:
  "remap_index i = 800 * (i mod 4 * 4 + i div 800 mod 4)
     + (4 * (i mod 800 div 4) + (2 * (i div 800 div 4 mod 2) + i div 800 div 8))"
proof -
  have "i mod 6400 div 3200 = i div 800 div 4 mod 2"
    by (simp add: mod_mult2_eq [of i 3200 2, simplified] div_mult2_eq [symmetric])
  moreover have "i mod 3200 div 800 = i div 800 mod 4"
    by (simp add: mod_mult2_eq [of i 800 4, simplified])
  moreover have "i div 6400 = i div 800 div 8"
    by (simp add: div_mult2_eq [symmetric])
  ultimately show ?thesis by (simp add: remap_index_def Let_def)
qed

lemma remap_index_shift:
  assumes "b < 3200" "m < 4"
  shows "remap_index (4 * shift_block t b + m) = rotate_index t (remap_index (4 * b + m))"
proof -
  let ?q = "b div 200" and ?c = "b mod 200"
  let ?s = "2 * (?q div 4 mod 2) + ?q div 8"
  have d: "(800 * q + (4 * c + m)) div 800 = q" "(800 * q + (4 * c + m)) mod 800 div 4 = c"
    "(800 * q + (4 * c + m)) mod 4 = m" if "c < 200" for q c
  proof -
    have lt: "4 * c + m < 800" using that assms(2) by linarith
    have j: "800 * q + (4 * c + m) = 4 * c + m + q * 800" by simp
    show "(800 * q + (4 * c + m)) div 800 = q"
      unfolding j using lt by (simp only: div_mult_self3 div_less)
    have "(800 * q + (4 * c + m)) mod 800 = 4 * c + m"
      unfolding j using lt by (simp only: mod_mult_self1 mod_less)
    then show "(800 * q + (4 * c + m)) mod 800 div 4 = c" using assms(2) by simp
    have "800 * q + (4 * c + m) = m + (200 * q + c) * 4" by simp
    then show "(800 * q + (4 * c + m)) mod 4 = m" using assms(2) by (simp only: mod_mult_self1 mod_less)
  qed
  have b: "4 * b + m = 800 * ?q + (4 * ?c + m)" using mult_div_mod_eq [of 200 b] by linarith
  have sb: "4 * shift_block t b + m = 800 * ?q + (4 * ((?c + t) mod 200) + m)"
    unfolding shift_block_def by simp
  have "?q < 16" using assms(1) by (simp add: less_mult_imp_div_less)
  then have "?q div 8 < 2" by (simp add: less_mult_imp_div_less)
  moreover have "?q div 4 mod 2 < 2" by simp
  ultimately have s: "?s < 4" by linarith
  have r: "remap_index (4 * b + m) = 800 * (m * 4 + ?q mod 4) + (4 * ?c + ?s)"
    unfolding remap_index_by_row b by (simp only: d mod_less_divisor zero_less_numeral)
  have lt: "4 * ?c + ?s < 800" using s mod_less_divisor [of 200 b] by linarith
  then have "remap_index (4 * b + m) div 800 = m * 4 + ?q mod 4"
    "remap_index (4 * b + m) mod 800 = 4 * ?c + ?s"
    unfolding r by (simp_all only: row_split)
  then have "rotate_index t (remap_index (4 * b + m))
      = 800 * (m * 4 + ?q mod 4) + (4 * ((?c + t) mod 200) + ?s)"
    unfolding rotate_index_def by (simp only: column_shift [OF s])
  moreover have "remap_index (4 * shift_block t b + m)
      = 800 * (m * 4 + ?q mod 4) + (4 * ((?c + t) mod 200) + ?s)"
    unfolding remap_index_by_row sb by (simp only: d mod_less_divisor zero_less_numeral)
  ultimately show ?thesis by simp
qed

lemma element_at_shift:
  "b < 3200 \<Longrightarrow> element_at v (shift_block t b) = element_at (v \<circ> rotate_index t) b"
  using remap_index_shift [of b 0 t] remap_index_shift [of b 1 t] remap_index_shift [of b 2 t]
    remap_index_shift [of b 3 t]
  by (simp add: element_at_def)

text \<open>
  C32: Rotated comparison. Every party has exactly 31 rotations of its query share, and entry \<open>k\<close> of them,
  preprocessed and multiplied with the other iris, gives the plaintext dot product with the query
  iris rotated left by \<open>15 - k\<close> columns.
\<close>

theorem rotated_code_dot:
  assumes "wf_iris x" "wf_iris y" "k < 31"
  shows "\<exists>xs ys g' h' rss ps.
    encode_iris_code gen (code x) (mask x) g = Inr (xs, g') \<and>
    encode_iris_code gen (code y) (mask y) h = Inr (ys, h') \<and>
    rmap all_rotations ys = Inr rss \<and> map length rss = [31, 31, 31] \<and>
    rmap preprocess_iris_code_query_share (map (\<lambda>rs. rs ! k) rss) = Inr ps \<and>
    trick_dot (xs ! 0) (ps ! 0) + trick_dot (xs ! 1) (ps ! 1) + trick_dot (xs ! 2) (ps ! 2)
      = (\<Sum>i<IRIS_CODE_SIZE. code_value x i * code_value y (rotate_index (215 - k) i))"
proof -
  obtain xs g' where xs: "encode_iris_code gen (code x) (mask x) g = Inr (xs, g')" "map gi_id xs = [1, 2, 3]"
    "sharing 3200 (map gi_coefs xs) (\<lambda>b. to_monomial (element_at (code_value x) b))"
    using assms(1) by (rule encode_iris_code_sharing)
  obtain ys h' where ys: "encode_iris_code gen (code y) (mask y) h = Inr (ys, h')" "map gi_id ys = [1, 2, 3]"
    "sharing 3200 (map gi_coefs ys) (\<lambda>b. to_monomial (element_at (code_value y) b))"
    using assms(2) by (rule encode_iris_code_sharing)
  have ids: "length ys = 3" "\<And>j. j < 3 \<Longrightarrow> gi_id (ys ! j) = j + 1" using ids_nth [OF ys(2)] by auto
  have "sharing (200 * 16) (map gi_coefs ys) (\<lambda>b. to_monomial (element_at (code_value y) b))"
    using ys(3) by simp
  then obtain css where css: "length css = 3"
    "\<forall>j < 3. all_rotations_coefs (map gi_coefs ys ! j) = Inr (css ! j)" "\<forall>j < 3. length (css ! j) = 31"
    "\<forall>k < 31. sharing (200 * 16) (map (\<lambda>rs. rs ! k) css)
       (\<lambda>b. to_monomial (element_at (code_value y) (shift_block (215 - k) b)))"
    by (rule sharing_rotations)
  let ?rss = "map (\<lambda>j. map (\<lambda>cs. (ys ! j)\<lparr>gi_coefs := cs\<rparr>) (css ! j)) [0..<3]"
  let ?rk = "map (\<lambda>rs. rs ! k) ?rss"
  have rss: "rmap all_rotations ys = Inr ?rss"
    using ids css(2) by (intro rmap_3) (auto simp: all_rotations_def)
  have co: "map gi_coefs ?rk = map (\<lambda>rs. rs ! k) css"
    using css(1,3) assms(3) by (intro nth_equalityI) simp_all
  have idr: "map gi_id ?rk = [1, 2, 3]"
    using ids css(3) assms(3) by (intro nth_equalityI) (auto simp: less_Suc_eq numeral_3_eq_3 numeral_2_eq_2)
  have shr: "sharing 3200 (map gi_coefs ?rk)
      (\<lambda>b. to_monomial (element_at (code_value y) (shift_block (215 - k) b)))"
    unfolding co using css(4) assms(3) by simp
  obtain ps where ps: "rmap preprocess_iris_code_query_share ?rk = Inr ps"
    "trick_dot (xs ! 0) (ps ! 0) + trick_dot (xs ! 1) (ps ! 1) + trick_dot (xs ! 2) (ps ! 2)
       = (\<Sum>b<3200. c0 (to_basis_B (to_monomial (element_at (code_value x) b)
           * to_monomial (element_at (code_value y) (shift_block (215 - k) b)))))"
    by (rule trick_dot_shares [OF xs(3) shr idr])
  have "(\<Sum>b<3200. c0 (to_basis_B (to_monomial (element_at (code_value x) b)
           * to_monomial (element_at (code_value y) (shift_block (215 - k) b)))))
      = (\<Sum>b<3200. c0 (to_basis_B (to_monomial (element_at (code_value x) b)
           * to_monomial (element_at (code_value y \<circ> rotate_index (215 - k)) b))))"
    by (rule sum.cong) (simp_all only: element_at_shift lessThan_iff)
  also have "\<dots> = (\<Sum>i<IRIS_CODE_SIZE. code_value x i * code_value y (rotate_index (215 - k) i))"
    unfolding sum_element_dot IRIS_CODE_SIZE_def
    using sum_remap [of "\<lambda>i. code_value x i * code_value y (rotate_index (215 - k) i)"] by simp
  finally have dot: "trick_dot (xs ! 0) (ps ! 0) + trick_dot (xs ! 1) (ps ! 1) + trick_dot (xs ! 2) (ps ! 2)
      = (\<Sum>i<IRIS_CODE_SIZE. code_value x i * code_value y (rotate_index (215 - k) i))"
    unfolding ps(2) .
  have len: "map length ?rss = [31, 31, 31]"
    using css(3) by (simp add: upt_rec)
  show ?thesis by (intro exI conjI, rule xs(1), rule ys(1), rule rss, rule len, rule ps(1), rule dot)
qed

theorem rotated_code_dot_witness:
  "\<exists>xs ys g' h' rss ps.
    encode_iris_code (\<lambda>g. (g, g + 7)) (code iris_default) (mask iris_default) 1 = Inr (xs, g') \<and>
    encode_iris_code (\<lambda>g. (g, g + 7)) (code iris_default) (mask iris_default) 2 = Inr (ys, h') \<and>
    rmap all_rotations ys = Inr rss \<and> map length rss = [31, 31, 31] \<and>
    rmap preprocess_iris_code_query_share (map (\<lambda>rs. rs ! 15) rss) = Inr ps \<and>
    trick_dot (xs ! 0) (ps ! 0) + trick_dot (xs ! 1) (ps ! 1) + trick_dot (xs ! 2) (ps ! 2)
      = (\<Sum>i<IRIS_CODE_SIZE. code_value iris_default i * code_value iris_default (rotate_index (215 - 15) i))"
  by (rule rotated_code_dot) (simp_all add: wf_iris_default)

end
