(* ===== verification/Shares.thy ===== *)
theory Shares
  imports Parties
begin

text \<open>
  The ring layer of the CPU protocols (\<open>iris-mpc-cpu/src/shares\<close>): the trait \<open>IntRing2k\<close>
  (\<open>int_ring.rs\<close>), the one-bit ring \<open>Bit\<close> (\<open>bit.rs\<close>), ring elements (\<open>ring_impl.rs\<close>) and
  replicated shares (\<open>share.rs\<close>).

  The trait is a dictionary: a record of the operations that a Rust implementation supplies, passed
  to the generic operations as their first argument. The laws the protocols rely on are the locale
  \<open>int_ring2k\<close>, interpreted for every machine word and for \<open>Bit\<close>. \<open>RingElement\<close> is a transparent
  wrapper in the code and is erased.
\<close>

section \<open>The trait IntRing2k\<close>

record 't IntRing2k =
  ring_K :: nat
  wrapping_add :: "'t \<Rightarrow> 't \<Rightarrow> 't"
  wrapping_sub :: "'t \<Rightarrow> 't \<Rightarrow> 't"
  wrapping_mul :: "'t \<Rightarrow> 't \<Rightarrow> 't"
  wrapping_neg :: "'t \<Rightarrow> 't"
  wrapping_shl :: "'t \<Rightarrow> nat \<Rightarrow> 't"
  wrapping_shr :: "'t \<Rightarrow> nat \<Rightarrow> 't"
  ring_shl :: "'t \<Rightarrow> nat \<Rightarrow> 't"
  ring_shr :: "'t \<Rightarrow> nat \<Rightarrow> 't"
  ring_not :: "'t \<Rightarrow> 't"
  ring_xor :: "'t \<Rightarrow> 't \<Rightarrow> 't"
  ring_and :: "'t \<Rightarrow> 't \<Rightarrow> 't"
  ring_or :: "'t \<Rightarrow> 't \<Rightarrow> 't"
  ring_from_bool :: "bool \<Rightarrow> 't"
  ring_into_u128 :: "'t \<Rightarrow> u128"
  ring_zero :: 't
  ring_one :: 't
  ring_rem :: "'t \<Rightarrow> 't \<Rightarrow> 't result"

text \<open>
  The unsigned machine integers. Both the wrapping shifts and, without overflow checks, the shift
  operators reduce the amount modulo the width.
\<close>

definition word_ring :: "'a::len word IntRing2k" where
  "word_ring = \<lparr>ring_K = LENGTH('a),
     wrapping_add = (+), wrapping_sub = (-), wrapping_mul = (*), wrapping_neg = uminus,
     wrapping_shl = (\<lambda>x n. push_bit (n mod LENGTH('a)) x),
     wrapping_shr = (\<lambda>x n. drop_bit (n mod LENGTH('a)) x),
     ring_shl = (\<lambda>x n. push_bit (n mod LENGTH('a)) x),
     ring_shr = (\<lambda>x n. drop_bit (n mod LENGTH('a)) x),
     ring_not = NOT, ring_xor = (XOR), ring_and = (AND), ring_or = (OR),
     ring_from_bool = of_bool, ring_into_u128 = ucast, ring_zero = 0, ring_one = 1,
     ring_rem = (\<lambda>x y. if y = 0
        then Inl (Panic ''attempt to calculate the remainder with a divisor of zero'')
        else Inr (x mod y))\<rparr>"

section \<open>Bit\<close>

datatype Bit = Bit u8

fun bit_u8 :: "Bit \<Rightarrow> u8" where
  "bit_u8 (Bit x) = x"

definition Bit_new :: "bool \<Rightarrow> Bit" where
  "Bit_new value = Bit (of_bool value)"

definition Bit_convert :: "Bit \<Rightarrow> bool" where
  "Bit_convert x = (bit_u8 x = 1)"

definition Bit_display :: "Bit \<Rightarrow> string result" where
  "Bit_display x =
     (if bit_u8 x = 1 then Inr ''1'' else if bit_u8 x = 0 then Inr ''0''
      else Inl (Panic ''internal error: entered unreachable code''))"

definition Bit_try_from_u8 :: "u8 \<Rightarrow> Bit result" where
  "Bit_try_from_u8 v =
     (if v = 0 then Inr (Bit 0) else if v = 1 then Inr (Bit 1)
      else Inl (Eyre ''Conversion Error Bit From u8''))"

definition Bit_try_from_usize :: "nat \<Rightarrow> Bit result" where
  "Bit_try_from_usize v =
     (if v = 0 then Inr (Bit 0) else if v = 1 then Inr (Bit 1)
      else Inl (Eyre ''Conversion error Bit from usize''))"

fun Bit_xor :: "Bit \<Rightarrow> Bit \<Rightarrow> Bit" where
  "Bit_xor (Bit x) (Bit y) = Bit (x XOR y)"

fun Bit_or :: "Bit \<Rightarrow> Bit \<Rightarrow> Bit" where
  "Bit_or (Bit x) (Bit y) = Bit (x OR y)"

fun Bit_and :: "Bit \<Rightarrow> Bit \<Rightarrow> Bit" where
  "Bit_and (Bit x) (Bit y) = Bit (x AND y)"

fun Bit_not :: "Bit \<Rightarrow> Bit" where
  "Bit_not (Bit x) = Bit (x XOR 1)"

definition Bit_add :: "Bit \<Rightarrow> Bit \<Rightarrow> Bit" where
  "Bit_add x y = Bit_xor x y"

definition Bit_sub :: "Bit \<Rightarrow> Bit \<Rightarrow> Bit" where
  "Bit_sub x y = Bit_xor x y"

definition Bit_neg :: "Bit \<Rightarrow> Bit" where
  "Bit_neg x = x"

definition Bit_mul :: "Bit \<Rightarrow> Bit \<Rightarrow> Bit" where
  "Bit_mul x y = Bit_and x y"

definition Bit_zero :: Bit where
  "Bit_zero = Bit 0"

definition Bit_one :: Bit where
  "Bit_one = Bit 1"

definition Bit_shl :: "Bit \<Rightarrow> nat \<Rightarrow> Bit" where
  "Bit_shl x n = (if n = 0 then x else Bit 0)"

definition Bit_shr :: "Bit \<Rightarrow> nat \<Rightarrow> Bit" where
  "Bit_shr x n = (if n = 0 then x else Bit 0)"

definition Bit_rem :: "Bit \<Rightarrow> Bit \<Rightarrow> Bit result" where
  "Bit_rem x y =
     (if y = Bit 0 then Inl (Panic ''Division by zero'')
      else if y = Bit 1 then Inr (Bit 0)
      else Inl (Panic ''internal error: entered unreachable code''))"

definition bit_ring :: "Bit IntRing2k" where
  "bit_ring = \<lparr>ring_K = 1,
     wrapping_add = Bit_add, wrapping_sub = Bit_sub, wrapping_mul = Bit_mul, wrapping_neg = Bit_neg,
     wrapping_shl = Bit_shl, wrapping_shr = Bit_shr, ring_shl = Bit_shl, ring_shr = Bit_shr,
     ring_not = Bit_not, ring_xor = Bit_xor, ring_and = Bit_and, ring_or = Bit_or,
     ring_from_bool = Bit_new, ring_into_u128 = (\<lambda>x. ucast (bit_u8 x)),
     ring_zero = Bit_zero, ring_one = Bit_one, ring_rem = Bit_rem\<rparr>"

section \<open>Ring elements\<close>

record 't BitIter =
  iter_bits :: 't
  iter_index :: nat

definition bit_iter_next :: "'t IntRing2k \<Rightarrow> 't BitIter \<Rightarrow> (Bit \<times> 't BitIter) option" where
  "bit_iter_next R it =
     (if ring_K R \<le> iter_index it then None
      else
        (let b = (ring_and R (ring_shr R (iter_bits it) (iter_index it)) (ring_one R) = ring_one R)
         in Some (Bit (of_bool b), it\<lparr>iter_index := iter_index it + 1\<rparr>)))"

definition bit_iter_size_hint :: "'t IntRing2k \<Rightarrow> 't BitIter \<Rightarrow> nat" where
  "bit_iter_size_hint R it = ring_K R - iter_index it"

definition bit_iter :: "'t \<Rightarrow> 't BitIter" where
  "bit_iter x = \<lparr>iter_bits = x, iter_index = 0\<rparr>"

function bit_iter_collect :: "'t IntRing2k \<Rightarrow> 't BitIter \<Rightarrow> Bit list" where
  "bit_iter_collect R it =
     (case bit_iter_next R it of None \<Rightarrow> [] | Some (b, it') \<Rightarrow> b # bit_iter_collect R it')"
  by pat_completeness auto
termination
  by (relation "measure (\<lambda>(R, it). bit_iter_size_hint R it)")
    (auto simp: bit_iter_next_def bit_iter_size_hint_def Let_def split: if_splits)

declare bit_iter_collect.simps [simp del]

definition re_get_bit :: "'t IntRing2k \<Rightarrow> 't \<Rightarrow> nat \<Rightarrow> 't" where
  "re_get_bit R x index = ring_and R (ring_shr R x index) (ring_one R)"

definition get_bit_as_bit :: "'t IntRing2k \<Rightarrow> 't \<Rightarrow> nat \<Rightarrow> Bit" where
  "get_bit_as_bit R x index =
     (let b = (ring_and R (ring_shr R x index) (ring_one R) = ring_one R) in Bit (of_bool b))"

definition upgrade_to_128 :: "'t IntRing2k \<Rightarrow> 't \<Rightarrow> u128" where
  "upgrade_to_128 R x = ring_into_u128 R x"

definition re_add :: "'t IntRing2k \<Rightarrow> 't \<Rightarrow> 't \<Rightarrow> 't" where
  "re_add R x y = wrapping_add R x y"

definition re_sub :: "'t IntRing2k \<Rightarrow> 't \<Rightarrow> 't \<Rightarrow> 't" where
  "re_sub R x y = wrapping_sub R x y"

definition re_mul :: "'t IntRing2k \<Rightarrow> 't \<Rightarrow> 't \<Rightarrow> 't" where
  "re_mul R x y = wrapping_mul R x y"

definition re_zero :: "'t IntRing2k \<Rightarrow> 't" where
  "re_zero R = ring_zero R"

definition re_one :: "'t IntRing2k \<Rightarrow> 't" where
  "re_one R = ring_one R"

definition re_neg :: "'t IntRing2k \<Rightarrow> 't \<Rightarrow> 't" where
  "re_neg R x = wrapping_neg R x"

definition re_not :: "'t IntRing2k \<Rightarrow> 't \<Rightarrow> 't" where
  "re_not R x = ring_not R x"

definition re_xor :: "'t IntRing2k \<Rightarrow> 't \<Rightarrow> 't \<Rightarrow> 't" where
  "re_xor R x y = ring_xor R x y"

definition re_or :: "'t IntRing2k \<Rightarrow> 't \<Rightarrow> 't \<Rightarrow> 't" where
  "re_or R x y = ring_or R x y"

definition re_and :: "'t IntRing2k \<Rightarrow> 't \<Rightarrow> 't \<Rightarrow> 't" where
  "re_and R x y = ring_and R x y"

definition re_shl :: "'t IntRing2k \<Rightarrow> 't \<Rightarrow> nat \<Rightarrow> 't" where
  "re_shl R x n = wrapping_shl R x n"

definition re_shr :: "'t IntRing2k \<Rightarrow> 't \<Rightarrow> nat \<Rightarrow> 't" where
  "re_shr R x n = wrapping_shr R x n"

definition re_rem :: "'t IntRing2k \<Rightarrow> 't \<Rightarrow> 't \<Rightarrow> 't result" where
  "re_rem R x y = ring_rem R x y"

lemmas re_defs = re_add_def re_sub_def re_mul_def re_zero_def re_one_def re_neg_def re_not_def
  re_xor_def re_or_def re_and_def re_shl_def re_shr_def

section \<open>Replicated shares\<close>

record 't Share =
  sh_a :: 't
  sh_b :: 't

definition Share_new :: "'t \<Rightarrow> 't \<Rightarrow> 't Share" where
  "Share_new a b = \<lparr>sh_a = a, sh_b = b\<rparr>"

definition add_assign_const :: "'t IntRing2k \<Rightarrow> 't Share \<Rightarrow> 't \<Rightarrow> PartyID \<Rightarrow> 't Share" where
  "add_assign_const R s other pid =
     (case pid of
        ID0 \<Rightarrow> s\<lparr>sh_a := re_add R (sh_a s) other\<rparr>
      | ID1 \<Rightarrow> s\<lparr>sh_b := re_add R (sh_b s) other\<rparr>
      | ID2 \<Rightarrow> s)"

definition add_assign_const_role :: "'t IntRing2k \<Rightarrow> 't Share \<Rightarrow> 't \<Rightarrow> Role \<Rightarrow> 't Share result" where
  "add_assign_const_role R s other role =
     (if role_index role = 0 then Inr (s\<lparr>sh_a := re_add R (sh_a s) other\<rparr>)
      else if role_index role = 1 then Inr (s\<lparr>sh_b := re_add R (sh_b s) other\<rparr>)
      else if role_index role = 2 then Inr s
      else Inl (Panic ''not implemented''))"

definition get_ab :: "'t Share \<Rightarrow> 't \<times> 't" where
  "get_ab s = (sh_a s, sh_b s)"

definition share_add :: "'t IntRing2k \<Rightarrow> 't Share \<Rightarrow> 't Share \<Rightarrow> 't Share" where
  "share_add R x y = \<lparr>sh_a = re_add R (sh_a x) (sh_a y), sh_b = re_add R (sh_b x) (sh_b y)\<rparr>"

definition share_sub :: "'t IntRing2k \<Rightarrow> 't Share \<Rightarrow> 't Share \<Rightarrow> 't Share" where
  "share_sub R x y = \<lparr>sh_a = re_sub R (sh_a x) (sh_a y), sh_b = re_sub R (sh_b x) (sh_b y)\<rparr>"

definition share_mul_const :: "'t IntRing2k \<Rightarrow> 't Share \<Rightarrow> 't \<Rightarrow> 't Share" where
  "share_mul_const R x c = \<lparr>sh_a = re_mul R (sh_a x) c, sh_b = re_mul R (sh_b x) c\<rparr>"

definition share_mul_local :: "'t IntRing2k \<Rightarrow> 't Share \<Rightarrow> 't Share \<Rightarrow> 't" where
  "share_mul_local R x y =
     re_add R (re_add R (re_mul R (sh_a x) (sh_a y)) (re_mul R (sh_b x) (sh_a y)))
       (re_mul R (sh_a x) (sh_b y))"

definition share_xor :: "'t IntRing2k \<Rightarrow> 't Share \<Rightarrow> 't Share \<Rightarrow> 't Share" where
  "share_xor R x y = \<lparr>sh_a = re_xor R (sh_a x) (sh_a y), sh_b = re_xor R (sh_b x) (sh_b y)\<rparr>"

definition share_and_local :: "'t IntRing2k \<Rightarrow> 't Share \<Rightarrow> 't Share \<Rightarrow> 't" where
  "share_and_local R x y =
     re_xor R (re_xor R (re_and R (sh_a x) (sh_a y)) (re_and R (sh_b x) (sh_a y)))
       (re_and R (sh_a x) (sh_b y))"

definition share_and_const :: "'t IntRing2k \<Rightarrow> 't Share \<Rightarrow> 't \<Rightarrow> 't Share" where
  "share_and_const R x c = \<lparr>sh_a = re_and R (sh_a x) c, sh_b = re_and R (sh_b x) c\<rparr>"

definition share_zero :: "'t IntRing2k \<Rightarrow> 't Share" where
  "share_zero R = \<lparr>sh_a = re_zero R, sh_b = re_zero R\<rparr>"

definition share_is_zero :: "'t IntRing2k \<Rightarrow> 't Share \<Rightarrow> bool" where
  "share_is_zero R x \<longleftrightarrow> sh_a x = re_zero R \<and> sh_b x = re_zero R"

definition share_neg :: "'t IntRing2k \<Rightarrow> 't Share \<Rightarrow> 't Share" where
  "share_neg R x = \<lparr>sh_a = re_neg R (sh_a x), sh_b = re_neg R (sh_b x)\<rparr>"

definition share_not :: "'t IntRing2k \<Rightarrow> 't Share \<Rightarrow> 't Share" where
  "share_not R x = \<lparr>sh_a = re_not R (sh_a x), sh_b = re_not R (sh_b x)\<rparr>"

definition share_shr :: "'t IntRing2k \<Rightarrow> 't Share \<Rightarrow> nat \<Rightarrow> 't Share" where
  "share_shr R x n = \<lparr>sh_a = re_shr R (sh_a x) n, sh_b = re_shr R (sh_b x) n\<rparr>"

definition share_shl :: "'t IntRing2k \<Rightarrow> 't Share \<Rightarrow> nat \<Rightarrow> 't Share" where
  "share_shl R x n = \<lparr>sh_a = re_shl R (sh_a x) n, sh_b = re_shl R (sh_b x) n\<rparr>"

record 't DistanceShare =
  code_dot :: "'t Share"
  mask_dot :: "'t Share"

definition DistanceShare_new :: "'t Share \<Rightarrow> 't Share \<Rightarrow> 't DistanceShare" where
  "DistanceShare_new c m = \<lparr>code_dot = c, mask_dot = m\<rparr>"

lemmas share_defs = Share_new_def add_assign_const_def share_add_def share_sub_def
  share_mul_const_def share_mul_local_def share_xor_def share_and_local_def share_and_const_def
  share_zero_def share_neg_def share_not_def share_shr_def share_shl_def

section \<open>Replicated sharings of three parties\<close>

text \<open>
  The shares of one value are a function of the party. \<open>rep3\<close> says that every party's second
  component is its predecessor's first one; the value is the sum, or the exclusive or, of the three
  first components.
\<close>

definition rep3 :: "(PartyID \<Rightarrow> 't Share) \<Rightarrow> bool" where
  "rep3 X \<longleftrightarrow> (\<forall>p. sh_b (X p) = sh_a (X (prev_id p)))"

definition open_add :: "'t IntRing2k \<Rightarrow> (PartyID \<Rightarrow> 't Share) \<Rightarrow> 't" where
  "open_add R X = re_add R (re_add R (sh_a (X ID0)) (sh_a (X ID1))) (sh_a (X ID2))"

definition open_xor :: "'t IntRing2k \<Rightarrow> (PartyID \<Rightarrow> 't Share) \<Rightarrow> 't" where
  "open_xor R X = re_xor R (re_xor R (sh_a (X ID0)) (sh_a (X ID1))) (sh_a (X ID2))"

lemma all_parties: "(\<forall>p. P p) \<longleftrightarrow> P ID0 \<and> P ID1 \<and> P ID2"
  by (metis PartyID.exhaust)

lemma rep3_iff: "rep3 X \<longleftrightarrow>
    sh_b (X ID0) = sh_a (X ID2) \<and> sh_b (X ID1) = sh_a (X ID0) \<and> sh_b (X ID2) = sh_a (X ID1)"
  by (simp add: rep3_def all_parties)

text \<open>Every operation that acts on the two components alike keeps the replication.\<close>

lemma rep3_map:
  "rep3 X \<Longrightarrow> rep3 (\<lambda>p. \<lparr>sh_a = f (sh_a (X p)), sh_b = f (sh_b (X p))\<rparr>)"
  by (simp add: rep3_def)

lemma rep3_map2:
  "rep3 X \<Longrightarrow> rep3 Y \<Longrightarrow>
     rep3 (\<lambda>p. \<lparr>sh_a = f (sh_a (X p)) (sh_a (Y p)), sh_b = f (sh_b (X p)) (sh_b (Y p))\<rparr>)"
  by (simp add: rep3_def)

lemma rep3_ops [intro]:
  "rep3 X \<Longrightarrow> rep3 Y \<Longrightarrow> rep3 (\<lambda>p. share_add R (X p) (Y p))"
  "rep3 X \<Longrightarrow> rep3 Y \<Longrightarrow> rep3 (\<lambda>p. share_sub R (X p) (Y p))"
  "rep3 X \<Longrightarrow> rep3 Y \<Longrightarrow> rep3 (\<lambda>p. share_xor R (X p) (Y p))"
  "rep3 X \<Longrightarrow> rep3 (\<lambda>p. share_mul_const R (X p) c)"
  "rep3 X \<Longrightarrow> rep3 (\<lambda>p. share_and_const R (X p) c)"
  "rep3 X \<Longrightarrow> rep3 (\<lambda>p. share_neg R (X p))"
  "rep3 X \<Longrightarrow> rep3 (\<lambda>p. share_not R (X p))"
  "rep3 X \<Longrightarrow> rep3 (\<lambda>p. share_shr R (X p) n)"
  "rep3 X \<Longrightarrow> rep3 (\<lambda>p. share_shl R (X p) n)"
  by (simp_all add: rep3_def share_defs)

lemma rep3_add_const: "rep3 X \<Longrightarrow> rep3 (\<lambda>p. add_assign_const R (X p) c p)"
  by (simp add: rep3_iff add_assign_const_def)

section \<open>The laws of the trait\<close>

locale int_ring2k =
  fixes R :: "'t IntRing2k"
  assumes add_assoc: "wrapping_add R (wrapping_add R x y) z = wrapping_add R x (wrapping_add R y z)"
    and add_commute: "wrapping_add R x y = wrapping_add R y x"
    and add_zero: "wrapping_add R (ring_zero R) x = x"
    and add_neg: "wrapping_add R (wrapping_neg R x) x = ring_zero R"
    and sub_neg: "wrapping_sub R x y = wrapping_add R x (wrapping_neg R y)"
    and mul_assoc: "wrapping_mul R (wrapping_mul R x y) z = wrapping_mul R x (wrapping_mul R y z)"
    and mul_commute: "wrapping_mul R x y = wrapping_mul R y x"
    and mul_add: "wrapping_mul R (wrapping_add R x y) z
      = wrapping_add R (wrapping_mul R x z) (wrapping_mul R y z)"
    and xor_assoc: "ring_xor R (ring_xor R x y) z = ring_xor R x (ring_xor R y z)"
    and xor_commute: "ring_xor R x y = ring_xor R y x"
    and xor_zero: "ring_xor R (ring_zero R) x = x"
    and xor_self: "ring_xor R x x = ring_zero R"
    and and_assoc: "ring_and R (ring_and R x y) z = ring_and R x (ring_and R y z)"
    and and_commute: "ring_and R x y = ring_and R y x"
    and and_xor: "ring_and R (ring_xor R x y) z = ring_xor R (ring_and R x z) (ring_and R y z)"
    and not_xor: "ring_not R x = ring_xor R x (ring_not R (ring_zero R))"
    and shl_xor: "wrapping_shl R (ring_xor R x y) n = ring_xor R (wrapping_shl R x n) (wrapping_shl R y n)"
    and shr_xor: "wrapping_shr R (ring_xor R x y) n = ring_xor R (wrapping_shr R x n) (wrapping_shr R y n)"
begin

sublocale add: comm_monoid "wrapping_add R" "ring_zero R"
  by unfold_locales (rule add_assoc, rule add_commute, subst add_commute, rule add_zero)

sublocale mul: abel_semigroup "wrapping_mul R"
  by unfold_locales (rule mul_assoc, rule mul_commute)

sublocale xor: comm_monoid "ring_xor R" "ring_zero R"
  by unfold_locales (rule xor_assoc, rule xor_commute, subst xor_commute, rule xor_zero)

sublocale conj: abel_semigroup "ring_and R"
  by unfold_locales (rule and_assoc, rule and_commute)

lemma mul_add_right: "wrapping_mul R x (wrapping_add R y z)
    = wrapping_add R (wrapping_mul R x y) (wrapping_mul R x z)"
  by (simp add: mul_commute [of x] mul_add)

lemma and_xor_right: "ring_and R x (ring_xor R y z) = ring_xor R (ring_and R x y) (ring_and R x z)"
  by (simp add: and_commute [of x] and_xor)

lemma add_cancel: "wrapping_add R x y = wrapping_add R x z \<Longrightarrow> y = z"
  by (metis add_assoc add_neg add_zero)

lemma neg_unique: "wrapping_add R x y = ring_zero R \<Longrightarrow> y = wrapping_neg R x"
  by (metis add_assoc add_commute add_neg add_zero)

lemma neg_add: "wrapping_neg R (wrapping_add R x y) = wrapping_add R (wrapping_neg R x) (wrapping_neg R y)"
proof -
  have "wrapping_add R (wrapping_add R x y) (wrapping_add R (wrapping_neg R x) (wrapping_neg R y))
      = wrapping_add R (wrapping_add R (wrapping_neg R x) x) (wrapping_add R (wrapping_neg R y) y)"
    by (simp only: add.assoc add.commute add.left_commute)
  then have "wrapping_add R (wrapping_add R x y)
      (wrapping_add R (wrapping_neg R x) (wrapping_neg R y)) = ring_zero R"
    by (simp only: add_neg add_zero)
  then show ?thesis by (rule neg_unique [symmetric])
qed

lemma xor_cancel: "ring_xor R x (ring_xor R x y) = y"
  by (simp flip: xor_assoc add: xor_self xor_zero)

lemmas add_ac = add.assoc add.commute add.left_commute
lemmas xor_ac = xor.assoc xor.commute xor.left_commute

lemma open_add_add: "open_add R (\<lambda>p. share_add R (X p) (Y p)) = wrapping_add R (open_add R X) (open_add R Y)"
  by (simp add: open_add_def share_defs re_defs add_ac)

lemma open_add_neg: "open_add R (\<lambda>p. share_neg R (X p)) = wrapping_neg R (open_add R X)"
  by (simp add: open_add_def share_defs re_defs neg_add)

lemma open_add_sub: "open_add R (\<lambda>p. share_sub R (X p) (Y p)) = wrapping_sub R (open_add R X) (open_add R Y)"
  by (simp add: open_add_def share_defs re_defs sub_neg neg_add add_ac)

lemma open_add_mul_const:
  "open_add R (\<lambda>p. share_mul_const R (X p) c) = wrapping_mul R (open_add R X) c"
  by (simp add: open_add_def share_defs re_defs mul_add)

lemma open_add_const:
  "open_add R (\<lambda>p. add_assign_const R (X p) c p) = wrapping_add R (open_add R X) c"
  by (simp add: open_add_def share_defs re_defs add_ac)

lemma open_xor_xor: "open_xor R (\<lambda>p. share_xor R (X p) (Y p)) = ring_xor R (open_xor R X) (open_xor R Y)"
  by (simp add: open_xor_def share_defs re_defs xor_ac)

lemma open_xor_and_const:
  "open_xor R (\<lambda>p. share_and_const R (X p) c) = ring_and R (open_xor R X) c"
  by (simp add: open_xor_def share_defs re_defs and_xor)

lemma open_xor_not: "open_xor R (\<lambda>p. share_not R (X p)) = ring_not R (open_xor R X)"
  by (simp add: open_xor_def share_defs re_defs not_xor [of "sh_a _"] not_xor [of "ring_xor R _ _"]
      xor_ac xor_cancel)

lemma open_xor_shr: "open_xor R (\<lambda>p. share_shr R (X p) n) = wrapping_shr R (open_xor R X) n"
  by (simp add: open_xor_def share_defs re_defs shr_xor)

lemma open_xor_shl: "open_xor R (\<lambda>p. share_shl R (X p) n) = wrapping_shl R (open_xor R X) n"
  by (simp add: open_xor_def share_defs re_defs shl_xor)

text \<open>The three local products are additive shares of the product; so are the local conjunctions.\<close>

lemma local_products:
  assumes "rep3 X" "rep3 Y"
  shows "wrapping_add R (wrapping_add R (share_mul_local R (X ID0) (Y ID0)) (share_mul_local R (X ID1) (Y ID1)))
      (share_mul_local R (X ID2) (Y ID2)) = wrapping_mul R (open_add R X) (open_add R Y)"
  using assms by (simp add: rep3_iff open_add_def share_mul_local_def re_defs mul_add mul_add_right add_ac)

lemma local_conjunctions:
  assumes "rep3 X" "rep3 Y"
  shows "ring_xor R (ring_xor R (share_and_local R (X ID0) (Y ID0)) (share_and_local R (X ID1) (Y ID1)))
      (share_and_local R (X ID2) (Y ID2)) = ring_and R (open_xor R X) (open_xor R Y)"
  using assms by (simp add: rep3_iff open_xor_def share_and_local_def re_defs and_xor and_xor_right xor_ac)

end

section \<open>The implementations of the trait\<close>

lemma word_ring_simps [share_simps]:
  "ring_K (word_ring :: 'a::len word IntRing2k) = LENGTH('a)"
  "wrapping_add word_ring x y = x + (y :: 'a::len word)"
  "wrapping_sub word_ring x y = x - (y :: 'a::len word)"
  "wrapping_mul word_ring x y = x * (y :: 'a::len word)"
  "wrapping_neg word_ring x = - (x :: 'a::len word)"
  "wrapping_shl word_ring x n = push_bit (n mod LENGTH('a)) (x :: 'a::len word)"
  "wrapping_shr word_ring x n = drop_bit (n mod LENGTH('a)) (x :: 'a::len word)"
  "ring_shl word_ring x n = push_bit (n mod LENGTH('a)) (x :: 'a::len word)"
  "ring_shr word_ring x n = drop_bit (n mod LENGTH('a)) (x :: 'a::len word)"
  "ring_not word_ring x = NOT (x :: 'a::len word)"
  "ring_xor word_ring x y = x XOR (y :: 'a::len word)"
  "ring_and word_ring x y = x AND (y :: 'a::len word)"
  "ring_or word_ring x y = x OR (y :: 'a::len word)"
  "ring_from_bool word_ring b = (of_bool b :: 'a::len word)"
  "ring_zero word_ring = (0 :: 'a::len word)"
  "ring_one word_ring = (1 :: 'a::len word)"
  by (simp_all add: word_ring_def)

lemma bit_ring_simps [share_simps]:
  "ring_K bit_ring = 1"
  "wrapping_add bit_ring = Bit_xor" "wrapping_sub bit_ring = Bit_xor"
  "wrapping_mul bit_ring = Bit_and" "wrapping_neg bit_ring x = x"
  "ring_not bit_ring = Bit_not" "ring_xor bit_ring = Bit_xor" "ring_and bit_ring = Bit_and"
  "ring_or bit_ring = Bit_or" "ring_zero bit_ring = Bit 0" "ring_one bit_ring = Bit 1"
  "wrapping_shl bit_ring = Bit_shl" "wrapping_shr bit_ring = Bit_shr"
  "ring_shl bit_ring = Bit_shl" "ring_shr bit_ring = Bit_shr" "ring_from_bool bit_ring = Bit_new"
  by (simp_all add: bit_ring_def Bit_add_def Bit_sub_def Bit_mul_def Bit_neg_def Bit_zero_def Bit_one_def fun_eq_iff)

lemma Bit_xor_u8: "Bit_xor x y = Bit (bit_u8 x XOR bit_u8 y)" and Bit_and_u8: "Bit_and x y = Bit (bit_u8 x AND bit_u8 y)"
  and Bit_not_u8: "Bit_not x = Bit (bit_u8 x XOR 1)"
  by (cases x; cases y; simp)+

lemma Bit_eta [simp]: "Bit (bit_u8 x) = x"
  by (cases x) simp

interpretation word_ring: int_ring2k "word_ring :: 'a::len word IntRing2k"
  by unfold_locales
    (simp_all add: share_simps algebra_simps ac_simps and.assoc xor.assoc bit_eq_iff bit_simps, auto)

interpretation bit_ring: int_ring2k bit_ring
  by unfold_locales
    (auto simp: share_simps Bit_xor_u8 Bit_and_u8 Bit_not_u8 Bit_shl_def Bit_shr_def ac_simps bit_eq_iff bit_simps)

section \<open>Local multiplication\<close>

text \<open>
  Local products of replicated shares. What the three parties compute locally for a product are
  additive shares of the product of the shared words, and what they compute for a conjunction are
  exclusive-or shares of the bitwise conjunction, at every width and with wrap-around.
\<close>

theorem local_multiplication_correct:
  fixes X Y V W :: "PartyID \<Rightarrow> 'a::len word Share"
  assumes "rep3 X" "rep3 Y" "rep3 V" "rep3 W"
  shows "share_mul_local word_ring (X ID0) (Y ID0) + share_mul_local word_ring (X ID1) (Y ID1)
       + share_mul_local word_ring (X ID2) (Y ID2) = open_add word_ring X * open_add word_ring Y \<and>
     (share_and_local word_ring (V ID0) (W ID0) XOR share_and_local word_ring (V ID1) (W ID1)
       XOR share_and_local word_ring (V ID2) (W ID2)) = (open_xor word_ring V AND open_xor word_ring W)"
  using word_ring.local_products [OF assms(1,2)] word_ring.local_conjunctions [OF assms(3,4)]
  by (simp add: share_simps xor.assoc)

theorem local_multiplication_correct_witness:
  "(let X = (\<lambda>p. case p of ID0 \<Rightarrow> \<lparr>sh_a = 200, sh_b = 9\<rparr> | ID1 \<Rightarrow> \<lparr>sh_a = 77, sh_b = 200\<rparr>
        | ID2 \<Rightarrow> \<lparr>sh_a = 9, sh_b = 77\<rparr>) :: PartyID \<Rightarrow> u8 Share
    in rep3 X \<and>
       share_mul_local word_ring (X ID0) (X ID0) + share_mul_local word_ring (X ID1) (X ID1)
         + share_mul_local word_ring (X ID2) (X ID2) = 132 \<and>
       (share_and_local word_ring (X ID0) (X ID0) XOR share_and_local word_ring (X ID1) (X ID1)
         XOR share_and_local word_ring (X ID2) (X ID2)) = 140)"
proof -
  let ?X = "(\<lambda>p. case p of ID0 \<Rightarrow> \<lparr>sh_a = 200, sh_b = 9\<rparr> | ID1 \<Rightarrow> \<lparr>sh_a = 77, sh_b = 200\<rparr>
        | ID2 \<Rightarrow> \<lparr>sh_a = 9, sh_b = 77\<rparr>) :: PartyID \<Rightarrow> u8 Share"
  have r: "rep3 ?X" by (simp add: rep3_iff)
  have "open_add word_ring ?X = 30" "open_xor word_ring ?X = 140"
    by (simp_all add: open_add_def open_xor_def re_defs share_simps)
  with r local_multiplication_correct [OF r r r r] show ?thesis by simp
qed

end
