(* ===== verification/VecShare.thy ===== *)
theory VecShare
  imports Shares
begin

text \<open>
  Vectors of replicated shares (\<open>iris-mpc-cpu/src/shares/vecshare.rs\<close>): the container operations,
  the elementwise ring operations, and the conversions between shares of bits and shares of words.
  \<open>VecShare\<close>, \<open>SliceShare\<close> and \<open>SliceShareMut\<close> wrap a vector or a slice of shares and are lists here.
\<close>

type_synonym 't VecShare = "'t Share list"

section \<open>Byte iterator\<close>

text \<open>\<open>pod_read\<close> is the byte reinterpretation of the \<open>bytemuck\<close> crate, \<open>n\<close> the constant \<open>BYTES\<close>.\<close>

definition ring_bytes_next :: "nat \<Rightarrow> (u8 list \<Rightarrow> 't) \<Rightarrow> u8 list \<Rightarrow> ('t \<times> u8 list) option result" where
  "ring_bytes_next n pod_read bytes =
     (if bytes = [] then Inr None
      else if length bytes < n then index_out_of_bounds
      else Inr (Some (pod_read (take n bytes), drop n bytes)))"

definition ring_bytes_size_hint :: "nat \<Rightarrow> u8 list \<Rightarrow> nat" where
  "ring_bytes_size_hint n bytes = length bytes div n"

section \<open>Containers\<close>

definition vs_split_at :: "'t VecShare \<Rightarrow> nat \<Rightarrow> ('t VecShare \<times> 't VecShare) result" where
  "vs_split_at v mid =
     (if length v < mid then Inl (Panic ''mid > len'') else Inr (take mid v, drop mid v))"

definition vs_chunks :: "'t VecShare \<Rightarrow> nat \<Rightarrow> 't VecShare list result" where
  "vs_chunks v n =
     (if n = 0 then Inl (Panic ''chunk size must be non-zero'') else Inr (chunks n v))"

definition vs_len :: "'t VecShare \<Rightarrow> nat" where
  "vs_len v = length v"

definition vs_is_empty :: "'t VecShare \<Rightarrow> bool" where
  "vs_is_empty v = (v = [])"

definition vs_extend :: "'t VecShare \<Rightarrow> 't VecShare \<Rightarrow> 't VecShare" where
  "vs_extend v items = v @ items"

definition vs_push :: "'t VecShare \<Rightarrow> 't Share \<Rightarrow> 't VecShare" where
  "vs_push v el = v @ [el]"

definition vs_pop :: "'t VecShare \<Rightarrow> 't Share option \<times> 't VecShare" where
  "vs_pop v = (if v = [] then (None, v) else (Some (last v), butlast v))"

definition vs_sum :: "'t IntRing2k \<Rightarrow> 't VecShare \<Rightarrow> 't Share" where
  "vs_sum R v = foldl (\<lambda>a b. share_add R a b) (share_zero R) v"

definition vs_not :: "'t IntRing2k \<Rightarrow> 't VecShare \<Rightarrow> 't VecShare" where
  "vs_not R v = map (share_not R) v"

definition vs_get_at :: "'t VecShare \<Rightarrow> nat \<Rightarrow> 't Share result" where
  "vs_get_at v i = (if length v \<le> i then index_out_of_bounds else Inr (v ! i))"

definition from_ab :: "'t list \<Rightarrow> 't list \<Rightarrow> 't VecShare" where
  "from_ab a b = map2 Share_new a b"

definition vs_flatten :: "'t VecShare list \<Rightarrow> 't VecShare" where
  "vs_flatten inp = concat inp"

definition vs_truncate :: "'t VecShare \<Rightarrow> nat \<Rightarrow> 't VecShare" where
  "vs_truncate v len = take len v"

section \<open>Elementwise operations\<close>

definition vs_xor :: "'t IntRing2k \<Rightarrow> 't VecShare \<Rightarrow> 't VecShare \<Rightarrow> 't VecShare" where
  "vs_xor R v w = map2 (share_xor R) v w"

text \<open>The assigning operators update the zipped prefix and leave the rest of the vector alone.\<close>

definition zip_assign :: "('a \<Rightarrow> 'b \<Rightarrow> 'a) \<Rightarrow> 'a list \<Rightarrow> 'b list \<Rightarrow> 'a list" where
  "zip_assign f v w = map2 f v w @ drop (length w) v"

definition vs_add_assign :: "'t IntRing2k \<Rightarrow> 't VecShare \<Rightarrow> 't VecShare \<Rightarrow> 't VecShare" where
  "vs_add_assign R = zip_assign (share_add R)"

definition vs_sub_assign :: "'t IntRing2k \<Rightarrow> 't VecShare \<Rightarrow> 't VecShare \<Rightarrow> 't VecShare" where
  "vs_sub_assign R = zip_assign (share_sub R)"

definition vs_xor_assign :: "'t IntRing2k \<Rightarrow> 't VecShare \<Rightarrow> 't VecShare \<Rightarrow> 't VecShare" where
  "vs_xor_assign R = zip_assign (share_xor R)"

section \<open>Bits and words\<close>

definition from_share :: "'t IntRing2k \<Rightarrow> 't Share \<Rightarrow> Bit VecShare" where
  "from_share R s =
     (let (a, b) = get_ab s
      in map2 Share_new (bit_iter_collect R (bit_iter a)) (bit_iter_collect R (bit_iter b)))"

fun convert_to_bits :: "'t IntRing2k \<Rightarrow> 't VecShare \<Rightarrow> Bit VecShare" where
  "convert_to_bits R [] = []"
| "convert_to_bits R (s # ss) =
     (let (a, b) = get_ab s
      in map2 Share_new (bit_iter_collect R (bit_iter a)) (bit_iter_collect R (bit_iter b)))
     @ convert_to_bits R ss"

fun pack_chunk :: "'t IntRing2k \<Rightarrow> nat \<Rightarrow> Bit VecShare \<Rightarrow> 't \<Rightarrow> 't \<Rightarrow> 't Share" where
  "pack_chunk R i [] share_a share_b = Share_new share_a share_b"
| "pack_chunk R i (bt # bts) share_a share_b =
     (let (bit_a, bit_b) = get_ab bt
      in pack_chunk R (i + 1) bts
           (re_or R share_a (ring_shl R (ring_from_bool R (Bit_convert bit_a)) i))
           (re_or R share_b (ring_shl R (ring_from_bool R (Bit_convert bit_b)) i)))"

definition pack :: "'t IntRing2k \<Rightarrow> Bit VecShare \<Rightarrow> 't VecShare" where
  "pack R v = map (\<lambda>c. pack_chunk R 0 c (re_zero R) (re_zero R)) (chunks (ring_K R) v)"

section \<open>Facts\<close>

lemma zip_assign_eq [simp]: "length v = length w \<Longrightarrow> zip_assign f v w = map2 f v w"
  by (simp add: zip_assign_def)

lemma length_zip_assign [simp]: "length (zip_assign f v w) = length v"
  by (simp add: zip_assign_def)

lemma length_from_ab [simp]: "length (from_ab a b) = min (length a) (length b)"
  by (simp add: from_ab_def)

lemma nth_from_ab: "i < length a \<Longrightarrow> i < length b \<Longrightarrow> from_ab a b ! i = Share_new (a ! i) (b ! i)"
  by (simp add: from_ab_def)

definition bits_of :: "'a::len word \<Rightarrow> Bit list" where
  "bits_of x = map (\<lambda>i. Bit (of_bool (bit x i))) [0..<LENGTH('a)]"

lemma length_bits_of [simp]: "length (bits_of (x :: 'a::len word)) = LENGTH('a)"
  by (simp add: bits_of_def)

lemma bit_iter_from:
  fixes it :: "'a::len word BitIter"
  assumes "iter_index it \<le> LENGTH('a)"
  shows "bit_iter_collect word_ring it
    = map (\<lambda>i. Bit (of_bool (bit (iter_bits it) i))) [iter_index it..<LENGTH('a)]"
  using assms
proof (induction "LENGTH('a) - iter_index it" arbitrary: it)
  case 0
  then show ?case by (subst bit_iter_collect.simps) (simp add: bit_iter_next_def share_simps)
next
  case (Suc n)
  let ?i = "iter_index it" and ?it = "it\<lparr>iter_index := iter_index it + 1\<rparr>"
  have lt: "?i < LENGTH('a)" using Suc.hyps(2) by simp
  have "bit_iter_collect word_ring ?it
      = map (\<lambda>i. Bit (of_bool (bit (iter_bits ?it) i))) [iter_index ?it..<LENGTH('a)]"
    using Suc.hyps(2) by (intro Suc.hyps(1)) simp_all
  moreover have "bit_iter_next word_ring it = Some (Bit (of_bool (bit (iter_bits it) ?i)), ?it)"
    using lt by (simp add: bit_iter_next_def share_simps Let_def and_one_eq bit_iff_odd_drop_bit
        odd_iff_mod_2_eq_one)
  ultimately show ?case
    using lt by (subst bit_iter_collect.simps) (simp add: upt_conv_Cons)
qed

lemma bit_iter_word: "bit_iter_collect word_ring (bit_iter x) = bits_of x"
  by (simp add: bit_iter_from bits_of_def bit_iter_def)

lemma from_share_word: "from_share word_ring s = map2 Share_new (bits_of (sh_a s)) (bits_of (sh_b s))"
  by (simp add: from_share_def get_ab_def bit_iter_word)

lemma convert_to_bits_word: "convert_to_bits word_ring v = concat (map (from_share word_ring) v)"
  by (induction v) (simp_all add: from_share_word get_ab_def bit_iter_word)

text \<open>Packing sets bit \<open>i\<close> of the word to bit \<open>i\<close> of the chunk.\<close>

lemma bit_pack_chunk:
  fixes A B :: "'a::len word"
  assumes "i + length bts \<le> LENGTH('a)"
  shows "bit (sh_a (pack_chunk word_ring i bts A B)) n \<longleftrightarrow>
      bit A n \<or> (i \<le> n \<and> n < i + length bts \<and> Bit_convert (sh_a (bts ! (n - i))))"
    and "bit (sh_b (pack_chunk word_ring i bts A B)) n \<longleftrightarrow>
      bit B n \<or> (i \<le> n \<and> n < i + length bts \<and> Bit_convert (sh_b (bts ! (n - i))))"
  using assms
proof (induction bts arbitrary: i A B)
  case Nil
  { case 1 then show ?case by (auto simp: Share_new_def) }
  { case 2 then show ?case by (auto simp: Share_new_def) }
next
  case (Cons bt bts)
  { case 1
    then show ?case
      by (simp add: Cons.IH get_ab_def re_or_def share_simps bit_simps nth_Cons') }
  { case 2
    then show ?case
      by (simp add: Cons.IH get_ab_def re_or_def share_simps bit_simps nth_Cons') }
qed

lemma bit_pack_chunk_0:
  assumes "length c \<le> LENGTH('a)"
  shows "bit (sh_a (pack_chunk word_ring 0 c 0 0 :: 'a::len word Share)) n \<longleftrightarrow> n < length c \<and> Bit_convert (sh_a (c ! n))"
    and "bit (sh_b (pack_chunk word_ring 0 c 0 0 :: 'a::len word Share)) n \<longleftrightarrow> n < length c \<and> Bit_convert (sh_b (c ! n))"
  using assms by (simp_all add: bit_pack_chunk)

definition valid_bit :: "Bit \<Rightarrow> bool" where
  "valid_bit b \<longleftrightarrow> b = Bit 0 \<or> b = Bit 1"

definition valid_bits :: "Bit VecShare \<Rightarrow> bool" where
  "valid_bits v \<longleftrightarrow> list_all (\<lambda>s. valid_bit (sh_a s) \<and> valid_bit (sh_b s)) v"

lemma valid_bit_convert: "valid_bit b \<Longrightarrow> Bit (of_bool (Bit_convert b)) = b"
  by (auto simp: valid_bit_def Bit_convert_def)

lemma from_share_pack_chunk:
  fixes c :: "Bit VecShare"
  assumes "length c \<le> LENGTH('a)" "valid_bits c"
  shows "from_share word_ring (pack_chunk word_ring 0 c 0 0 :: 'a::len word Share)
    = c @ replicate (LENGTH('a) - length c) (Share_new (Bit 0) (Bit 0))"
proof (rule nth_equalityI)
  fix i assume "i < length (from_share word_ring (pack_chunk word_ring 0 c 0 0 :: 'a word Share))"
  then have i: "i < LENGTH('a)" by (simp add: from_share_word)
  have "c ! i = \<lparr>sh_a = Bit (of_bool (Bit_convert (sh_a (c ! i)))), sh_b = Bit (of_bool (Bit_convert (sh_b (c ! i))))\<rparr>"
    if "i < length c"
  proof -
    have "valid_bit (sh_a (c ! i))" "valid_bit (sh_b (c ! i))"
      using assms(2) that by (auto simp: valid_bits_def list_all_length)
    then show ?thesis by (simp add: valid_bit_convert)
  qed
  with i show "from_share word_ring (pack_chunk word_ring 0 c 0 0 :: 'a word Share) ! i
      = (c @ replicate (LENGTH('a) - length c) (Share_new (Bit 0) (Bit 0))) ! i"
    by (cases "i < length c")
      (simp_all add: from_share_word bits_of_def bit_pack_chunk_0 [OF assms(1)] Share_new_def nth_append)
qed (use assms(1) in \<open>simp add: from_share_word\<close>)

lemma pack_unpack:
  "valid_bits v \<Longrightarrow> take (length v) (convert_to_bits word_ring (pack (word_ring :: 'a::len word IntRing2k) v)) = v"
proof (induction "LENGTH('a)" v rule: chunks.induct)
  case (1 v)
  let ?W = "word_ring :: 'a word IntRing2k"
  show ?case
  proof (cases "v = []")
    case False
    let ?c = "take LENGTH('a) v" and ?r = "drop LENGTH('a) v"
    have valid: "valid_bits ?c" "valid_bits ?r"
      using "1.prems" by (auto simp: valid_bits_def list_all_iff dest: in_set_takeD in_set_dropD)
    have eq: "convert_to_bits ?W (pack ?W v)
        = ?c @ replicate (LENGTH('a) - length ?c) (Share_new (Bit 0) (Bit 0)) @ convert_to_bits ?W (pack ?W ?r)"
      using False from_share_pack_chunk [of ?c, where 'a = 'a] valid(1)
      by (simp add: pack_def chunks.simps [of "LENGTH('a)" v] convert_to_bits_word share_simps re_zero_def
          del: convert_to_bits.simps)
    have IH: "take (length ?r) (convert_to_bits ?W (pack ?W ?r)) = ?r"
      using "1.hyps" False valid(2) by simp
    show ?thesis
    proof (cases "length v < LENGTH('a)")
      case True
      then show ?thesis unfolding eq by simp
    next
      case ge: False
      then have "take (length v) (convert_to_bits ?W (pack ?W v))
          = ?c @ take (length ?r) (convert_to_bits ?W (pack ?W ?r))"
        unfolding eq by simp
      then show ?thesis by (simp only: IH append_take_drop_id)
    qed
  qed simp
qed

section \<open>Properties\<close>

text \<open>
  Round trip of bit packing. Packing shares of bits into words and converting the words back
  gives the same shares, after truncation to the original length.
\<close>

theorem pack_convert_roundtrip:
  assumes "valid_bits v"
  shows "vs_truncate (convert_to_bits word_ring (pack (word_ring :: 'a::len word IntRing2k) v)) (vs_len v) = v"
  unfolding vs_truncate_def vs_len_def using assms by (rule pack_unpack)

theorem pack_convert_roundtrip_witness:
  "vs_truncate (convert_to_bits word_ring (pack (word_ring :: u64 IntRing2k)
     [\<lparr>sh_a = Bit 1, sh_b = Bit 0\<rparr>, \<lparr>sh_a = Bit 1, sh_b = Bit 1\<rparr>]))
     (vs_len [\<lparr>sh_a = Bit 1, sh_b = Bit 0\<rparr>, \<lparr>sh_a = Bit 1, sh_b = Bit 1\<rparr>])
   = [\<lparr>sh_a = Bit 1, sh_b = Bit 0\<rparr>, \<lparr>sh_a = Bit 1, sh_b = Bit 1\<rparr>]"
  by (rule pack_convert_roundtrip) (simp add: valid_bits_def valid_bit_def)

end
