(* ===== verification/BitTranspose.thy ===== *)
theory BitTranspose
  imports VecShare
begin

text \<open>
  Bit transposition of share vectors (\<open>iris-mpc-cpu/src/shares/vecshare_bittranspose.rs\<close>). Blocks of
  64 or 128 shares of \<open>u16\<close>, \<open>u32\<close> or \<open>u64\<close> become bit planes: word \<open>k\<close> of the result holds bit
  \<open>k\<close> of every share of the block. The loop of masked swaps that the six routines repeat is
  \<open>swap_stages\<close>; a loop that did not end would be \<open>None\<close>.
\<close>

section \<open>Packing\<close>

definition pack_with :: "('a::len word Share \<Rightarrow> 'a word) \<Rightarrow> 'a word Share list \<Rightarrow> 'b::len word" where
  "pack_with sel xs =
     foldl (OR) (ucast (sel (xs ! 0)))
       (map (\<lambda>q. push_bit (LENGTH('a) * q) (ucast (sel (xs ! q)))) [1..<length xs])"

definition share64_from_share16s :: "u16 Share list \<Rightarrow> u64 Share" where
  "share64_from_share16s xs = \<lparr>sh_a = pack_with sh_a xs, sh_b = pack_with sh_b xs\<rparr>"

definition share128_from_share16s :: "u16 Share list \<Rightarrow> u128 Share" where
  "share128_from_share16s xs = \<lparr>sh_a = pack_with sh_a xs, sh_b = pack_with sh_b xs\<rparr>"

definition share64_from_share32s :: "u32 Share list \<Rightarrow> u64 Share" where
  "share64_from_share32s xs = \<lparr>sh_a = pack_with sh_a xs, sh_b = pack_with sh_b xs\<rparr>"

definition share128_from_share32s :: "u32 Share list \<Rightarrow> u128 Share" where
  "share128_from_share32s xs = \<lparr>sh_a = pack_with sh_a xs, sh_b = pack_with sh_b xs\<rparr>"

definition share128_from_share64s :: "u64 Share list \<Rightarrow> u128 Share" where
  "share128_from_share64s xs = \<lparr>sh_a = pack_with sh_a xs, sh_b = pack_with sh_b xs\<rparr>"

section \<open>The swap loops\<close>

text \<open>\<open>and_not x j\<close> is \<open>x & !j\<close>.\<close>

definition and_not :: "nat \<Rightarrow> nat \<Rightarrow> nat" where
  "and_not x j = x - (x AND j)"

partial_function (option) swap_rows ::
    "nat \<Rightarrow> nat \<Rightarrow> 'a::len word \<Rightarrow> nat \<Rightarrow> 'a word Share list \<Rightarrow> 'a word Share list option" where
  "swap_rows n j m k res =
     (if k < n then
        (let t = share_and_const word_ring
                   (share_xor word_ring (share_shr word_ring (res ! k) j) (res ! (k + j))) m;
             res = res[k + j := share_xor word_ring (res ! (k + j)) t];
             res = res[k := share_xor word_ring (res ! k) (share_shl word_ring t j)]
         in swap_rows n j m (and_not (k + j + 1) j) res)
      else Some res)"

fun swap_stages ::
    "nat \<Rightarrow> nat \<Rightarrow> 'a::len word \<Rightarrow> 'a word Share list \<Rightarrow> 'a word Share list option" where
  "swap_stages n j m res =
     (if j \<noteq> 0 then
        Option.bind (swap_rows n j m 0 res) (\<lambda>res.
          let j = j div 2; m = m XOR push_bit j m
          in swap_stages n j m res)
      else Some res)"

declare swap_stages.simps [simp del]

definition share_transpose16x128 :: "u16 Share list \<Rightarrow> u128 Share list option" where
  "share_transpose16x128 a =
     (let res = map (\<lambda>i. share128_from_share16s
                  [a ! i, a ! (i + 16), a ! (i + 32), a ! (i + 48), a ! (i + 64), a ! (i + 80),
                   a ! (i + 96), a ! (i + 112)]) [0..<16]
      in swap_stages 16 8 0x00ff00ff00ff00ff00ff00ff00ff00ff res)"

definition share_transpose16x64 :: "u16 Share list \<Rightarrow> u64 Share list option" where
  "share_transpose16x64 a =
     (let res = map (\<lambda>i. share64_from_share16s [a ! i, a ! (i + 16), a ! (i + 32), a ! (i + 48)]) [0..<16]
      in swap_stages 16 8 0x00ff00ff00ff00ff res)"

definition share_transpose32x128 :: "u32 Share list \<Rightarrow> u128 Share list option" where
  "share_transpose32x128 a =
     (let res = map (\<lambda>i. share128_from_share32s [a ! i, a ! (i + 32), a ! (i + 64), a ! (i + 96)]) [0..<32]
      in swap_stages 32 16 0x0000ffff0000ffff0000ffff0000ffff res)"

definition share_transpose32x64 :: "u32 Share list \<Rightarrow> u64 Share list option" where
  "share_transpose32x64 a =
     (let res = map (\<lambda>i. share64_from_share32s [a ! i, a ! (i + 32)]) [0..<32]
      in swap_stages 32 16 0x0000ffff0000ffff res)"

definition share_transpose64x128 :: "u64 Share list \<Rightarrow> u128 Share list option" where
  "share_transpose64x128 a =
     (let res = map (\<lambda>i. share128_from_share64s [a ! i, a ! (i + 64)]) [0..<64]
      in swap_stages 64 32 0x00000000ffffffff00000000ffffffff res)"

definition share_transpose64x64 :: "u64 Share list \<Rightarrow> u64 Share list option" where
  "share_transpose64x64 a = swap_stages 64 32 0x00000000ffffffff a"

section \<open>Transposition of a vector\<close>

text \<open>
  The six packing routines pad the vector with zero shares to whole blocks, transpose every block
  and store word \<open>k\<close> of block \<open>j\<close> at position \<open>j\<close> of vector \<open>k\<close>.
\<close>

fun store_planes ::
    "('s Share list \<Rightarrow> 't Share list option) \<Rightarrow> (nat \<times> 's Share list) list \<Rightarrow> 't VecShare list
       \<Rightarrow> 't VecShare list option" where
  "store_planes tr [] res = Some res"
| "store_planes tr ((j, x) # xs) res =
     Option.bind (tr x) (\<lambda>trans.
       store_planes tr xs (zip_assign (\<lambda>des src. des[j := src]) res trans))"

definition transpose_pack ::
    "nat \<Rightarrow> ('a::len word Share list \<Rightarrow> 'b::len word Share list option) \<Rightarrow> nat \<Rightarrow> 'a word VecShare
       \<Rightarrow> 'b word VecShare list option" where
  "transpose_pack w tr L v =
     (let len = (length v + (w - 1)) div w;
          padded = take (len * w) (v @ replicate (len * w - length v) (share_zero word_ring));
          res = replicate L (replicate len (share_zero word_ring))
      in store_planes tr (List.enumerate 0 (chunks_exact w padded)) res)"

definition transpose_pack_u64_16 :: "nat \<Rightarrow> u16 VecShare \<Rightarrow> u64 VecShare list option" where
  "transpose_pack_u64_16 = transpose_pack 64 share_transpose16x64"

definition transpose_pack_u128_16 :: "nat \<Rightarrow> u16 VecShare \<Rightarrow> u128 VecShare list option" where
  "transpose_pack_u128_16 = transpose_pack 128 share_transpose16x128"

definition transpose_pack_u64_32 :: "nat \<Rightarrow> u32 VecShare \<Rightarrow> u64 VecShare list option" where
  "transpose_pack_u64_32 = transpose_pack 64 share_transpose32x64"

definition transpose_pack_u128_32 :: "nat \<Rightarrow> u32 VecShare \<Rightarrow> u128 VecShare list option" where
  "transpose_pack_u128_32 = transpose_pack 128 share_transpose32x128"

definition transpose_pack_u64_64 :: "nat \<Rightarrow> u64 VecShare \<Rightarrow> u64 VecShare list option" where
  "transpose_pack_u64_64 = transpose_pack 64 share_transpose64x64"

definition transpose_pack_u128_64 :: "nat \<Rightarrow> u64 VecShare \<Rightarrow> u128 VecShare list option" where
  "transpose_pack_u128_64 = transpose_pack 128 share_transpose64x128"

section \<open>The inner loop\<close>

lemma and_not_exp: "and_not x (2 ^ s) = (if bit x s then x - 2 ^ s else x)"
proof -
  have "x AND 2 ^ s = (if bit x s then 2 ^ s else 0)" by (rule bit_eqI) (auto simp: bit_simps)
  then show ?thesis by (simp add: and_not_def)
qed

text \<open>The row index moves to the next number whose bit \<open>s\<close> is clear.\<close>

lemma div_offset: "a < j \<Longrightarrow> (a + c * j) div j = c" for a :: nat
  by simp

lemma next_row:
  assumes "\<not> bit k s"
  shows "k < and_not (k + 2 ^ s + 1) (2 ^ s)" "\<not> bit (and_not (k + 2 ^ s + 1) (2 ^ s)) s"
    "\<And>i. k < i \<Longrightarrow> i < and_not (k + 2 ^ s + 1) (2 ^ s) \<Longrightarrow> bit i s"
proof -
  let ?j = "2 ^ s :: nat"
  let ?q = "k div ?j" and ?r = "k mod ?j"
  have q: "even ?q" using assms by (simp add: bit_iff_odd)
  have k: "k = ?r + ?q * ?j" by (simp only: mod_div_mult_eq)
  have r: "?r < ?j" by simp
  have "(k < and_not (k + ?j + 1) ?j \<and> \<not> bit (and_not (k + ?j + 1) ?j) s) \<and>
      (\<forall>i. k < i \<and> i < and_not (k + ?j + 1) ?j \<longrightarrow> bit i s)"
  proof (cases "?r + 1 < ?j")
    case True
    have "k + ?j + 1 = (?r + 1) + (?q + 1) * ?j" using k by simp
    then have "(k + ?j + 1) div ?j = ?q + 1" by (simp only: div_offset [OF True])
    then have "bit (k + ?j + 1) s" using q by (simp add: bit_iff_odd)
    then have eq: "and_not (k + ?j + 1) ?j = k + 1" by (simp add: and_not_exp)
    have "k + 1 = (?r + 1) + ?q * ?j" using k by simp
    then have "(k + 1) div ?j = ?q" by (simp only: div_offset [OF True])
    then have "\<not> bit (k + 1) s" using q by (simp add: bit_iff_odd)
    then show ?thesis unfolding eq by auto
  next
    case False
    then have "?r + 1 = ?j" using r by linarith
    moreover have "(?q + 2) * ?j = ?q * ?j + ?j + ?j" "(?q + 1) * ?j = ?q * ?j + ?j" by simp_all
    ultimately have sum: "k + ?j + 1 = (?q + 2) * ?j" and low: "k + 1 = (?q + 1) * ?j"
      using k by linarith+
    have "\<not> bit ((?q + 2) * ?j) s" using q by (simp add: bit_iff_odd)
    then have eq: "and_not (k + ?j + 1) ?j = (?q + 2) * ?j" unfolding sum by (simp add: and_not_exp)
    have "bit i s" if "k < i" "i < (?q + 2) * ?j" for i
    proof -
      have "(?q + 1) * ?j \<le> i" using that(1) low by linarith
      then have "i div ?j = ?q + 1"
        using that(2) by (intro div_nat_eqI) (simp_all add: mult.commute)
      then show ?thesis using q by (simp add: bit_iff_odd)
    qed
    moreover have "k < (?q + 2) * ?j" using sum by linarith
    ultimately show ?thesis unfolding eq using \<open>\<not> bit ((?q + 2) * ?j) s\<close> by blast
  qed
  then show "k < and_not (k + 2 ^ s + 1) (2 ^ s)" "\<not> bit (and_not (k + 2 ^ s + 1) (2 ^ s)) s"
    "\<And>i. k < i \<Longrightarrow> i < and_not (k + 2 ^ s + 1) (2 ^ s) \<Longrightarrow> bit i s"
    by blast+
qed

lemma bit_less_exp: "bit k n \<Longrightarrow> k < 2 ^ S \<Longrightarrow> n < S" for k :: nat
  by (metis bit_take_bit_iff take_bit_nat_eq_self)

lemma partner_row: "\<not> bit k s \<Longrightarrow> k < 2 ^ S \<Longrightarrow> s < S \<Longrightarrow> k + 2 ^ s < (2 ^ S :: nat)"
proof -
  assume k: "\<not> bit k s" "k < 2 ^ S" "s < S"
  have "set_bit s k = k + 2 ^ s" using k(1) by (simp add: set_bit_eq)
  moreover have "take_bit S (set_bit s k) = set_bit s k"
    using k bit_less_exp [OF _ k(2)] by (intro bit_eqI) (auto simp: bit_simps)
  ultimately show ?thesis by (metis take_bit_nat_less_exp)
qed

text \<open>A stage of the loop swaps bit \<open>s\<close> of the row number with bit \<open>s\<close> of the bit position.\<close>

definition put_bit :: "nat \<Rightarrow> bool \<Rightarrow> nat \<Rightarrow> nat" where
  "put_bit s b k = (if b then set_bit s k else unset_bit s k)"

lemma bit_put_bit [simp]: "bit (put_bit s b k) i = (if i = s then b else bit k i)"
  by (auto simp: put_bit_def bit_simps)

lemma put_bit_same: "put_bit s (bit k s) k = k"
  by (rule bit_eqI) simp

lemma put_bit_add: "\<not> bit k s \<Longrightarrow> put_bit s True k = k + 2 ^ s"
  by (simp add: put_bit_def set_bit_eq)

lemma put_bit_sub: "bit k s \<Longrightarrow> put_bit s False k = k - 2 ^ s"
proof -
  assume k: "bit k s"
  have "k = put_bit s True (put_bit s False k)" by (rule bit_eqI) (simp add: k)
  moreover have "\<dots> = put_bit s False k + 2 ^ s" by (rule put_bit_add) simp
  ultimately show ?thesis by simp
qed

lemma put_bit_less: "k < 2 ^ S \<Longrightarrow> s < S \<Longrightarrow> put_bit s b k < 2 ^ S"
proof -
  assume k: "k < 2 ^ S" "s < S"
  have "take_bit S (put_bit s b k) = put_bit s b k"
    using k bit_less_exp [OF _ k(1)] by (intro bit_eqI) (auto simp: bit_simps split: if_splits)
  then show ?thesis by (metis take_bit_nat_less_exp)
qed

definition swap_mask :: "nat \<Rightarrow> 'a::len word \<Rightarrow> bool" where
  "swap_mask s m \<longleftrightarrow> (\<forall>p < LENGTH('a). bit m p = (\<not> bit p s))"

definition component :: "('t Share \<Rightarrow> 't) \<Rightarrow> bool" where
  "component sel \<longleftrightarrow> sel = sh_a \<or> sel = sh_b"

lemma component_ab [simp]: "component sh_a" "component sh_b"
  by (simp_all add: component_def)

lemma component_ops [share_simps]:
  assumes "component sel"
  shows "sel (share_xor word_ring x y) = sel x XOR sel (y :: 'a::len word Share)"
    "sel (share_and_const word_ring x m) = sel x AND m"
    "sel (share_shr word_ring x n) = drop_bit (n mod LENGTH('a)) (sel x)"
    "sel (share_shl word_ring x n) = push_bit (n mod LENGTH('a)) (sel x)"
  using assms by (auto simp: component_def share_defs re_defs share_simps)

definition swap_pair :: "nat \<Rightarrow> 'a::len word \<Rightarrow> nat \<Rightarrow> 'a word Share list \<Rightarrow> 'a word Share list" where
  "swap_pair j m k res =
     (let t = share_and_const word_ring
                (share_xor word_ring (share_shr word_ring (res ! k) j) (res ! (k + j))) m;
          res = res[k + j := share_xor word_ring (res ! (k + j)) t]
      in res[k := share_xor word_ring (res ! k) (share_shl word_ring t j)])"

lemma swap_rows_step:
  "swap_rows n j m k res =
     (if k < n then swap_rows n j m (and_not (k + j + 1) j) (swap_pair j m k res) else Some res)"
  by (subst swap_rows.simps) (simp add: swap_pair_def Let_def)

lemma bit_swap_pair:
  fixes res :: "'a::len word Share list"
  assumes W: "LENGTH('a) = 2 ^ T" "s < T" and m: "swap_mask s m" and k: "\<not> bit k s" "k + 2 ^ s < length res"
    and sel: "component sel" and i: "i = k \<or> i = k + 2 ^ s" and p: "p < LENGTH('a)"
  shows "bit (sel (swap_pair (2 ^ s) m k res ! i)) p
    = bit (sel (res ! put_bit s (bit p s) i)) (put_bit s (bit i s) p)"
proof -
  let ?j = "2 ^ s :: nat"
  define t where "t = (drop_bit ?j (sel (res ! k)) XOR sel (res ! (k + ?j))) AND m"
  have lt: "?j < LENGTH('a)" "?j mod LENGTH('a) = ?j" using W by simp_all
  have rows: "sel (swap_pair ?j m k res ! k) = sel (res ! k) XOR push_bit ?j t"
    "sel (swap_pair ?j m k res ! (k + ?j)) = sel (res ! (k + ?j)) XOR t"
    using k(2) by (simp_all add: t_def swap_pair_def Let_def component_ops [OF sel] lt(2) push_bit_and push_bit_xor)
  have kj: "bit (k + ?j) s" "put_bit s False (k + ?j) = k" "put_bit s True (k + ?j) = k + ?j"
    "put_bit s True k = k + ?j" "put_bit s False k = k"
    using k(1) put_bit_add [OF k(1)] put_bit_same [of s k] by (metis bit_put_bit put_bit_add put_bit_same put_bit_sub add_diff_cancel_right')+
  have tbit: "bit t q = ((bit (sel (res ! k)) (q + ?j) \<noteq> bit (sel (res ! (k + ?j))) q) \<and> \<not> bit q s)"
    if "q < LENGTH('a)" for q
    using m that by (auto simp: t_def swap_mask_def bit_simps add.commute)
  show ?thesis
  proof (cases "bit p s")
    case True
    then have ge: "?j \<le> p" by (metis bit_iff_odd div_less even_zero not_le)
    have sub: "put_bit s False p = p - ?j" "put_bit s True p = p"
      using True put_bit_sub put_bit_same by metis+
    have "\<not> bit (p - ?j) s" using sub(1) by (metis bit_put_bit)
    then have tp: "bit t (p - ?j) = (bit (sel (res ! k)) p \<noteq> bit (sel (res ! (k + ?j))) (p - ?j))"
      using tbit [of "p - ?j"] p ge by simp
    have tq: "\<not> bit t p" using tbit [OF p] True by simp
    from i show ?thesis
      using True ge p tp tq k(1) kj by (auto simp: rows sub bit_xor_iff bit_push_bit_iff)
  next
    case False
    have add: "put_bit s True p = p + ?j" "put_bit s False p = p"
      using False put_bit_add put_bit_same by metis+
    have "\<not> bit t (p - ?j)" if "?j \<le> p"
    proof -
      have "bit (p - ?j) s"
        using False that by (metis bit_put_bit le_add_diff_inverse2 put_bit_add)
      then show ?thesis using tbit [of "p - ?j"] p by simp
    qed
    moreover have "bit t p = (bit (sel (res ! k)) (p + ?j) \<noteq> bit (sel (res ! (k + ?j))) p)"
      using tbit [OF p] False by simp
    ultimately show ?thesis
      using i False k(1) kj p by (auto simp: rows add bit_xor_iff bit_push_bit_iff)
  qed
qed

lemma swap_pair_other:
  "i \<noteq> k \<Longrightarrow> i \<noteq> k + j \<Longrightarrow> swap_pair j m k res ! i = res ! i" "length (swap_pair j m k res) = length res"
  by (simp_all add: swap_pair_def Let_def)

lemma put_bit_cases: "i = put_bit s False i \<or> i = put_bit s False i + 2 ^ s"
proof (cases "bit i s")
  case True
  then have "i = put_bit s True (put_bit s False i)" by (intro bit_eqI) simp
  also have "\<dots> = put_bit s False i + 2 ^ s" by (rule put_bit_add) simp
  finally show ?thesis by blast
next
  case False
  then show ?thesis using put_bit_same [of s i] by simp
qed

lemma put_bit_put_bit [simp]: "put_bit s b (put_bit s c i) = put_bit s b i"
  by (rule bit_eqI) simp

lemma swap_rows_from:
  fixes res :: "'a::len word Share list"
  assumes W: "LENGTH('a) = 2 ^ T" "s < T" "s < S" and m: "swap_mask s m"
    and k: "\<not> bit k s" and len: "length res = 2 ^ S"
  shows "\<exists>res'. swap_rows (2 ^ S) (2 ^ s) m k res = Some res' \<and> length res' = 2 ^ S \<and>
    (\<forall>i < 2 ^ S. (put_bit s False i < k \<longrightarrow> res' ! i = res ! i) \<and>
      (k \<le> put_bit s False i \<longrightarrow> (\<forall>sel p. component sel \<longrightarrow> p < LENGTH('a) \<longrightarrow>
        bit (sel (res' ! i)) p = bit (sel (res ! put_bit s (bit p s) i)) (put_bit s (bit i s) p))))"
  using k len
proof (induction "2 ^ S - k" arbitrary: k res rule: less_induct)
  case less
  show ?case
  proof (cases "k < 2 ^ S")
    case False
    have "put_bit s False i < k" if "i < 2 ^ S" for i
      using put_bit_less [OF that W(3), of False] False by linarith
    moreover have "swap_rows (2 ^ S) (2 ^ s) m k res = Some res"
      using False by (subst swap_rows_step) simp
    ultimately show ?thesis using less.prems(2) by (metis not_less)
  next
    case True
    let ?j = "2 ^ s :: nat"
    let ?k = "and_not (k + ?j + 1) ?j" and ?r = "swap_pair ?j m k res"
    note nx = next_row [OF less.prems(1)]
    obtain res' where res': "swap_rows (2 ^ S) ?j m ?k ?r = Some res'" "length res' = 2 ^ S"
      "\<And>i. i < 2 ^ S \<Longrightarrow> put_bit s False i < ?k \<Longrightarrow> res' ! i = ?r ! i"
      "\<And>i sel p. i < 2 ^ S \<Longrightarrow> ?k \<le> put_bit s False i \<Longrightarrow> component sel \<Longrightarrow> p < LENGTH('a) \<Longrightarrow>
        bit (sel (res' ! i)) p = bit (sel (?r ! put_bit s (bit p s) i)) (put_bit s (bit i s) p)"
      using less.hyps [of ?k ?r] nx(1,2) True less.prems(2) by (auto simp: swap_pair_other(2) diff_less_mono2)
    have kj: "k + ?j < length res" using partner_row [OF less.prems(1) True W(3)] less.prems(2) by simp
    have other: "?r ! i = res ! i" if "put_bit s False i \<noteq> k" for i
    proof (rule swap_pair_other(1))
      show "i \<noteq> k" using that less.prems(1) put_bit_same [of s k] by auto
      show "i \<noteq> k + ?j"
        using that less.prems(1) by (metis put_bit_add put_bit_put_bit put_bit_same)
    qed
    have "(put_bit s False i < k \<longrightarrow> res' ! i = res ! i) \<and>
      (k \<le> put_bit s False i \<longrightarrow> (\<forall>sel p. component sel \<longrightarrow> p < LENGTH('a) \<longrightarrow>
        bit (sel (res' ! i)) p = bit (sel (res ! put_bit s (bit p s) i)) (put_bit s (bit i s) p)))"
      if i: "i < 2 ^ S" for i
    proof (cases "put_bit s False i" k rule: linorder_cases)
      case less
      then show ?thesis using res'(3) [OF i] other [of i] nx(1) by simp
    next
      case equal
      then have "i = k \<or> i = k + ?j" using put_bit_cases [of i s] by simp
      then show ?thesis
        using equal res'(3) [OF i] nx(1) bit_swap_pair [OF W(1,2) m less.prems(1) kj] by simp
    next
      case greater
      have "?k \<le> put_bit s False i"
      proof (rule ccontr)
        assume "\<not> ?k \<le> put_bit s False i"
        then have "bit (put_bit s False i) s" by (intro nx(3) greater) (simp only: not_le)
        then show False by simp
      qed
      then show ?thesis using greater res'(4) [OF i] other by simp
    qed
    then show ?thesis
      using res'(1,2) True by (subst swap_rows_step) auto
  qed
qed

lemma swap_rows_stage:
  fixes res :: "'a::len word Share list"
  assumes "LENGTH('a) = 2 ^ T" "s < T" "s < S" "swap_mask s m" "length res = 2 ^ S"
  obtains res' where "swap_rows (2 ^ S) (2 ^ s) m 0 res = Some res'" "length res' = 2 ^ S"
    "\<forall>i sel p. i < 2 ^ S \<longrightarrow> component sel \<longrightarrow> p < LENGTH('a) \<longrightarrow>
        bit (sel (res' ! i)) p = bit (sel (res ! put_bit s (bit p s) i)) (put_bit s (bit i s) p)"
  using swap_rows_from [OF assms(1-4) _ assms(5), of 0] by auto

lemma mask_parity: "even (q div 2) \<noteq> (1 \<le> q \<and> even ((q - 1) div 2)) \<longleftrightarrow> even q" for q :: nat
  by presburger

lemma swap_mask_step:
  fixes m :: "'a::len word"
  assumes "swap_mask (Suc s) m"
  shows "swap_mask s (m XOR push_bit (2 ^ s) m)"
  unfolding swap_mask_def
proof (intro allI impI)
  fix p assume p: "p < LENGTH('a)"
  let ?q = "p div 2 ^ s"
  have two: "n div 2 ^ Suc s = n div 2 ^ s div 2" for n :: nat
    by (simp add: div_mult2_eq [symmetric] mult.commute)
  have b: "bit p s = odd ?q" "bit p (Suc s) = odd (?q div 2)"
    by (simp_all only: bit_iff_odd two)
  have shifted: "bit (p - 2 ^ s) (Suc s) = odd ((?q - 1) div 2)" if "2 ^ s \<le> p"
    using le_div_geq [of "2 ^ s" p] that by (simp only: bit_iff_odd two) simp
  have ge: "2 ^ s \<le> p \<longleftrightarrow> 1 \<le> ?q" by (simp add: div_greater_zero_iff Suc_le_eq)
  show "bit (m XOR push_bit (2 ^ s) m) p = (\<not> bit p s)"
    using assms p b shifted ge mask_parity [of ?q] by (auto simp: swap_mask_def bit_simps)
qed

text \<open>
  After the stages \<open>S - 1, \<dots>, s\<close> the bits \<open>s, \<dots>, S - 1\<close> of the row number and of the bit position
  are exchanged.
\<close>

definition mix_bits :: "nat \<Rightarrow> nat \<Rightarrow> nat \<Rightarrow> nat \<Rightarrow> nat" where
  "mix_bits S s x y = take_bit s x OR push_bit s (take_bit (S - s) (drop_bit s y)) OR push_bit S (drop_bit S x)"

lemma bit_mix_bits [simp]:
  "s \<le> S \<Longrightarrow> bit (mix_bits S s x y) i = (if s \<le> i \<and> i < S then bit y i else bit x i)"
  by (auto simp: mix_bits_def bit_simps)

lemma mix_bits_put:
  "Suc s \<le> S \<Longrightarrow> mix_bits S (Suc s) (put_bit s (bit y s) x) (put_bit s c y) = mix_bits S s x y"
proof (rule bit_eqI)
  fix n assume "Suc s \<le> S"
  then show "bit (mix_bits S (Suc s) (put_bit s (bit y s) x) (put_bit s c y)) n = bit (mix_bits S s x y) n"
    by (cases n s rule: linorder_cases) simp_all
qed

lemma swap_stages_ok:
  fixes res res0 :: "'a::len word Share list"
  assumes W: "LENGTH('a) = 2 ^ T" "S \<le> T" and s: "s \<le> S" and m: "0 < s \<Longrightarrow> swap_mask (s - 1) m"
    and len: "length res = 2 ^ S"
    and inv: "\<And>i sel p. i < 2 ^ S \<Longrightarrow> component sel \<Longrightarrow> p < LENGTH('a) \<Longrightarrow>
        bit (sel (res ! i)) p = bit (sel (res0 ! mix_bits S s i p)) (mix_bits S s p i)"
  shows "\<exists>res'. swap_stages (2 ^ S) (2 ^ s div 2) m res = Some res' \<and> length res' = 2 ^ S \<and>
    (\<forall>i sel p. i < 2 ^ S \<longrightarrow> component sel \<longrightarrow> p < LENGTH('a) \<longrightarrow>
        bit (sel (res' ! i)) p = bit (sel (res0 ! mix_bits S 0 i p)) (mix_bits S 0 p i))"
  using s m len inv
proof (induction s arbitrary: m res)
  case 0
  then show ?case by (subst swap_stages.simps) simp
next
  case (Suc s)
  have sS: "s < S" "s < T" using Suc.prems(1) W(2) by simp_all
  have mask: "swap_mask s m" using Suc.prems(2) by simp
  obtain res1 where r1: "swap_rows (2 ^ S) (2 ^ s) m 0 res = Some res1" "length res1 = 2 ^ S"
    "\<forall>i sel p. i < 2 ^ S \<longrightarrow> component sel \<longrightarrow> p < LENGTH('a) \<longrightarrow>
        bit (sel (res1 ! i)) p = bit (sel (res ! put_bit s (bit p s) i)) (put_bit s (bit i s) p)"
    by (rule swap_rows_stage [OF W(1) sS(2,1) mask Suc.prems(3)])
  have "bit (sel (res1 ! i)) p = bit (sel (res0 ! mix_bits S s i p)) (mix_bits S s p i)"
    if i: "i < 2 ^ S" and sel: "component sel" and p: "p < LENGTH('a)" for i sel p
  proof -
    have lt: "put_bit s (bit p s) i < 2 ^ S" "put_bit s (bit i s) p < LENGTH('a)"
      using put_bit_less [OF i sS(1)] put_bit_less [of p T s] p W(1) sS(2) by simp_all
    have "bit (sel (res1 ! i)) p = bit (sel (res ! put_bit s (bit p s) i)) (put_bit s (bit i s) p)"
      using r1(3) i sel p by blast
    then show ?thesis
      by (simp only: Suc.prems(4) [OF lt(1) sel lt(2)] mix_bits_put [OF Suc.prems(1)])
  qed
  note inv1 = this
  have "0 < s \<Longrightarrow> swap_mask (s - 1) (m XOR push_bit (2 ^ s div 2) m)"
    using swap_mask_step [of "s - 1" m] mask by (cases s) simp_all
  then obtain res' where "swap_stages (2 ^ S) (2 ^ s div 2) (m XOR push_bit (2 ^ s div 2) m) res1 = Some res'"
    "length res' = 2 ^ S"
    "\<forall>i sel p. i < 2 ^ S \<longrightarrow> component sel \<longrightarrow> p < LENGTH('a) \<longrightarrow>
        bit (sel (res' ! i)) p = bit (sel (res0 ! mix_bits S 0 i p)) (mix_bits S 0 p i)"
    using Suc.IH [OF Suc_leD [OF Suc.prems(1)] _ r1(2) inv1] by blast
  then show ?case using r1(1) by (subst swap_stages.simps) (simp add: Let_def)
qed

lemma high_low_or: "k < 2 ^ N \<Longrightarrow> push_bit N (drop_bit N p) + k = push_bit N (drop_bit N p) OR k" for k p :: nat
  by (rule disjunctive_add) (auto simp: bit_simps dest: bit_less_exp)

lemma mix_bits_0: "k < 2 ^ N \<Longrightarrow> mix_bits N 0 p k = push_bit N (drop_bit N p) OR k"
  by (rule bit_eqI) (auto simp: bit_simps dest: bit_less_exp)

text \<open>The whole loop, from its first stage: bit \<open>p\<close> of row \<open>k\<close> comes from row \<open>p mod n\<close>.\<close>

lemma swap_stages_transpose:
  fixes res :: "'a::len word Share list"
  assumes "LENGTH('a) = 2 ^ T" "Suc S \<le> T" "swap_mask S m" "length res = 2 ^ Suc S"
  obtains res' where "swap_stages (2 ^ Suc S) (2 ^ S) m res = Some res'" "length res' = 2 ^ Suc S"
    "\<forall>k sel p. k < 2 ^ Suc S \<longrightarrow> component sel \<longrightarrow> p < LENGTH('a) \<longrightarrow>
        bit (sel (res' ! k)) p = bit (sel (res ! (p mod 2 ^ Suc S))) (p div 2 ^ Suc S * 2 ^ Suc S + k)"
proof -
  let ?n = "2 ^ Suc S :: nat"
  have id: "mix_bits (Suc S) (Suc S) x y = x" for x y by (rule bit_eqI) auto
  have row: "mix_bits (Suc S) 0 k p = p mod ?n" if "k < ?n" for k p
  proof (rule bit_eqI)
    fix n
    have "bit (mix_bits (Suc S) 0 k p) n = bit (take_bit (Suc S) p) n"
      using bit_less_exp [OF _ that, of n] by (auto simp: bit_simps)
    then show "bit (mix_bits (Suc S) 0 k p) n = bit (p mod ?n) n" by (simp only: take_bit_eq_mod)
  qed
  have pos: "mix_bits (Suc S) 0 p k = p div ?n * ?n + k" if "k < ?n" for k p
  proof -
    note high_low_or [OF that]
    then have "p div ?n * ?n + k = push_bit (Suc S) (drop_bit (Suc S) p) OR k"
      by (simp only: push_bit_eq_mult drop_bit_eq_div)
    then show ?thesis by (simp only: mix_bits_0 [OF that])
  qed
  obtain res' where "swap_stages ?n (?n div 2) m res = Some res'" "length res' = ?n"
    "\<forall>k sel p. k < ?n \<longrightarrow> component sel \<longrightarrow> p < LENGTH('a) \<longrightarrow>
        bit (sel (res' ! k)) p = bit (sel (res ! mix_bits (Suc S) 0 k p)) (mix_bits (Suc S) 0 p k)"
    using swap_stages_ok [of T "Suc S" "Suc S" m res res] assms by (auto simp: id)
  then show ?thesis by (intro that [of res']) (simp_all add: row pos)
qed

section \<open>Packing and transposition of a block\<close>

lemma bit_pack_with:
  fixes xs :: "'a::len word Share list"
  assumes "0 < length xs" "LENGTH('b) = LENGTH('a) * length xs" "p < LENGTH('b)"
  shows "bit (pack_with sel xs :: 'b::len word) p = bit (sel (xs ! (p div LENGTH('a)))) (p mod LENGTH('a))"
proof -
  let ?w = "\<lambda>q. push_bit (LENGTH('a) * q) (ucast (sel (xs ! q))) :: 'b word"
  have fold: "bit (foldl (OR) a (map ?w qs)) p = (bit a p \<or> (\<exists>q \<in> set qs. bit (?w q) p))" for a qs
    by (induction qs arbitrary: a) (auto simp: bit_or_iff)
  have "bit (pack_with sel xs :: 'b word) p = (\<exists>q < length xs. bit (?w q) p)"
  proof -
    have "bit (pack_with sel xs :: 'b word) p = (bit (?w 0) p \<or> (\<exists>q \<in> set [1..<length xs]. bit (?w q) p))"
      unfolding pack_with_def by (simp only: fold) simp
    also have "\<dots> = (\<exists>q < length xs. bit (?w q) p)"
    proof
      assume "\<exists>q < length xs. bit (?w q) p"
      then obtain q where "q < length xs" "bit (?w q) p" by blast
      then show "bit (?w 0) p \<or> (\<exists>q \<in> set [1..<length xs]. bit (?w q) p)"
      proof (cases "q = 0")
        case False
        then have "q \<in> set [1..<length xs]" using \<open>q < length xs\<close> by simp
        then show ?thesis using \<open>bit (?w q) p\<close> by blast
      qed simp
    qed (use assms(1) in auto)
    finally show ?thesis .
  qed
  also have "\<dots> = bit (sel (xs ! (p div LENGTH('a)))) (p mod LENGTH('a))"
  proof
    assume "\<exists>q < length xs. bit (?w q) p"
    then obtain q where q: "LENGTH('a) * q \<le> p" "bit (sel (xs ! q)) (p - LENGTH('a) * q)"
      by (auto simp: bit_simps)
    then have "p - LENGTH('a) * q < LENGTH('a)" by (meson bit_imp_le_length)
    then have "p div LENGTH('a) = q" using q(1) by (intro div_nat_eqI) auto
    then show "bit (sel (xs ! (p div LENGTH('a)))) (p mod LENGTH('a))"
      using q(2) by (metis minus_mult_div_eq_mod)
  next
    assume r: "bit (sel (xs ! (p div LENGTH('a)))) (p mod LENGTH('a))"
    have "p div LENGTH('a) < length xs" using assms(2,3) by (simp add: less_mult_imp_div_less mult.commute)
    moreover have "bit (?w (p div LENGTH('a))) p"
      using r assms(3) by (simp add: bit_simps minus_mult_div_eq_mod le_less_trans [OF mod_less_eq_dividend])
    ultimately show "\<exists>q < length xs. bit (?w q) p" by blast
  qed
  finally show ?thesis .
qed

text \<open>The masks of the code: the low half for the first stage of a full transposition, then each next.\<close>

lemma swap_mask_low:
  assumes "LENGTH('a) = 2 ^ Suc s"
  shows "swap_mask s (mask (2 ^ s) :: 'a::len word)"
  unfolding swap_mask_def
proof (intro allI impI)
  fix p assume "p < LENGTH('a)"
  then have "p div 2 ^ s < 2" using assms by (simp add: less_mult_imp_div_less)
  then have "bit p s \<longleftrightarrow> p div 2 ^ s = 1" by (auto simp: bit_iff_odd less_2_cases_iff)
  moreover have "2 ^ s \<le> p \<longleftrightarrow> 0 < p div 2 ^ s" by (simp add: div_greater_zero_iff)
  ultimately have "bit p s \<longleftrightarrow> 2 ^ s \<le> p" using \<open>p div 2 ^ s < 2\<close> by linarith
  then show "bit (mask (2 ^ s) :: 'a word) p = (\<not> bit p s)"
    using \<open>p < LENGTH('a)\<close> by (auto simp: bit_simps)
qed

lemma masks_64:
  "swap_mask 5 (0x00000000ffffffff :: u64)" "swap_mask 4 (0x0000ffff0000ffff :: u64)"
  "swap_mask 3 (0x00ff00ff00ff00ff :: u64)"
proof -
  show 5: "swap_mask 5 (0x00000000ffffffff :: u64)"
    using swap_mask_low [of 5, where 'a = 64] by (simp add: mask_eq_exp_minus_1)
  show 4: "swap_mask 4 (0x0000ffff0000ffff :: u64)"
    using swap_mask_step [of 4 "0x00000000ffffffff :: u64"] 5 by simp
  show "swap_mask 3 (0x00ff00ff00ff00ff :: u64)"
    using swap_mask_step [of 3 "0x0000ffff0000ffff :: u64"] 4 by simp
qed

lemma masks_128:
  "swap_mask 5 (0x00000000ffffffff00000000ffffffff :: u128)"
  "swap_mask 4 (0x0000ffff0000ffff0000ffff0000ffff :: u128)"
  "swap_mask 3 (0x00ff00ff00ff00ff00ff00ff00ff00ff :: u128)"
proof -
  have 6: "swap_mask 6 (0xffffffffffffffff :: u128)"
    using swap_mask_low [of 6, where 'a = 128] by (simp add: mask_eq_exp_minus_1)
  show 5: "swap_mask 5 (0x00000000ffffffff00000000ffffffff :: u128)"
    using swap_mask_step [of 5 "0xffffffffffffffff :: u128"] 6 by simp
  show 4: "swap_mask 4 (0x0000ffff0000ffff0000ffff0000ffff :: u128)"
    using swap_mask_step [of 4 "0x00000000ffffffff00000000ffffffff :: u128"] 5 by simp
  show "swap_mask 3 (0x00ff00ff00ff00ff00ff00ff00ff00ff :: u128)"
    using swap_mask_step [of 3 "0x0000ffff0000ffff0000ffff0000ffff :: u128"] 4 by simp
qed

text \<open>
  The contract of a block transposition \<open>tr\<close>: on a block of as many shares as the result word has
  bits, it returns as many words as the input has bits, and word \<open>k\<close> collects bit \<open>k\<close>.
\<close>

definition transposes :: "('a::len word Share list \<Rightarrow> 'b::len word Share list option) \<Rightarrow> bool" where
  "transposes tr \<longleftrightarrow> (\<forall>a. length a = LENGTH('b) \<longrightarrow>
     (\<exists>res. tr a = Some res \<and> length res = LENGTH('a) \<and>
       (\<forall>k < LENGTH('a). \<forall>p < LENGTH('b).
          bit (sh_a (res ! k)) p = bit (sh_a (a ! p)) k \<and> bit (sh_b (res ! k)) p = bit (sh_b (a ! p)) k)))"

lemma packed_transpose:
  fixes a :: "'a::len word Share list" and res :: "'b::len word Share list"
  assumes W: "LENGTH('b) = 2 ^ T" "Suc S \<le> T" and n: "LENGTH('a) = 2 ^ Suc S" and m: "swap_mask S m"
    and res: "length res = 2 ^ Suc S"
    and rows: "\<And>i p. i < 2 ^ Suc S \<Longrightarrow> p < LENGTH('b) \<Longrightarrow>
      bit (sh_a (res ! i)) p = bit (sh_a (a ! (i + 2 ^ Suc S * (p div 2 ^ Suc S)))) (p mod 2 ^ Suc S) \<and>
      bit (sh_b (res ! i)) p = bit (sh_b (a ! (i + 2 ^ Suc S * (p div 2 ^ Suc S)))) (p mod 2 ^ Suc S)"
  shows "\<exists>res'. swap_stages (2 ^ Suc S) (2 ^ S) m res = Some res' \<and> length res' = LENGTH('a) \<and>
       (\<forall>k < LENGTH('a). \<forall>p < LENGTH('b).
          bit (sh_a (res' ! k)) p = bit (sh_a (a ! p)) k \<and> bit (sh_b (res' ! k)) p = bit (sh_b (a ! p)) k)"
proof -
  let ?n = "2 ^ Suc S :: nat"
  obtain res' where r: "swap_stages ?n (2 ^ S) m res = Some res'" "length res' = ?n"
    "\<forall>k sel p. k < ?n \<longrightarrow> component sel \<longrightarrow> p < LENGTH('b) \<longrightarrow>
        bit (sel (res' ! k)) p = bit (sel (res ! (p mod ?n))) (p div ?n * ?n + k)"
    by (rule swap_stages_transpose [OF W m res])
  have "bit (sh_a (res' ! k)) p = bit (sh_a (a ! p)) k \<and> bit (sh_b (res' ! k)) p = bit (sh_b (a ! p)) k"
    if k: "k < ?n" and p: "p < LENGTH('b)" for k p
  proof -
    let ?p = "p div ?n * ?n + k"
    have "p div ?n < 2 ^ (T - Suc S)"
      using p W by (intro less_mult_imp_div_less) (simp flip: power_add add: mult.commute del: power_Suc)
    then have "p div ?n * ?n + ?n \<le> 2 ^ (T - Suc S) * ?n" by (metis Suc_leI mult_Suc mult_le_mono1 add.commute)
    also have "\<dots> = LENGTH('b)" using W by (simp flip: power_add del: power_Suc)
    finally have lt: "?p < LENGTH('b)" using k by linarith
    have dm: "?p div ?n = p div ?n" "?p mod ?n = k" "p mod ?n + ?n * (p div ?n) = p"
      using k by (simp_all del: power_Suc)
    have "bit (sel (res' ! k)) p = bit (sel (res ! (p mod ?n))) ?p" if "component sel" for sel
      using r(3) k p that by blast
    moreover have "p mod ?n < ?n" by simp
    ultimately show ?thesis using rows [OF _ lt, of "p mod ?n"] unfolding dm by simp
  qed
  then show ?thesis using r(1,2) n by auto
qed

lemma packed_rows:
  fixes a :: "'a::len word Share list"
  assumes "LENGTH('b) = LENGTH('a) * c" "0 < c" "p < LENGTH('b)"
    and "xs = map (\<lambda>q. a ! (i + LENGTH('a) * q)) [0..<c]"
  shows "bit (pack_with sel xs :: 'b::len word) p
    = bit (sel (a ! (i + LENGTH('a) * (p div LENGTH('a))))) (p mod LENGTH('a))"
proof -
  have "p div LENGTH('a) < c" using assms(1,3) by (simp add: less_mult_imp_div_less mult.commute)
  then show ?thesis using assms by (simp add: bit_pack_with)
qed

lemma transposes_packed:
  fixes m :: "'b::len word" and tr :: "'a::len word Share list \<Rightarrow> 'b word Share list option"
  assumes W: "LENGTH('b) = 2 ^ T" "Suc S \<le> T" and n: "LENGTH('a) = 2 ^ Suc S"
    and c: "LENGTH('b) = LENGTH('a) * c" "0 < c" and m: "swap_mask S m"
    and tr: "\<And>a. tr a = swap_stages (2 ^ Suc S) (2 ^ S) m
      (map (\<lambda>i. \<lparr>sh_a = pack_with sh_a (xs a i), sh_b = pack_with sh_b (xs a i)\<rparr>) [0..<2 ^ Suc S])"
    and xs: "\<And>a i. xs a i = map (\<lambda>q. a ! (i + LENGTH('a) * q)) [0..<c]"
  shows "transposes tr"
  unfolding transposes_def tr
proof (intro allI impI packed_transpose [OF W n m])
  fix a :: "'a word Share list" and i p :: nat
  let ?rows = "map (\<lambda>i. \<lparr>sh_a = pack_with sh_a (xs a i), sh_b = pack_with sh_b (xs a i)\<rparr> :: 'b word Share) [0..<2 ^ Suc S]"
  assume "i < 2 ^ Suc S" "p < LENGTH('b)"
  then show "bit (sh_a (?rows ! i)) p = bit (sh_a (a ! (i + 2 ^ Suc S * (p div 2 ^ Suc S)))) (p mod 2 ^ Suc S) \<and>
      bit (sh_b (?rows ! i)) p = bit (sh_b (a ! (i + 2 ^ Suc S * (p div 2 ^ Suc S)))) (p mod 2 ^ Suc S)"
    using packed_rows [OF c _ xs, where sel = sh_a] packed_rows [OF c _ xs, where sel = sh_b]
    by (simp add: n del: power_Suc)
qed simp

lemma transposes_16x64: "transposes share_transpose16x64"
  by (rule transposes_packed [of 6 3 4 "0x00ff00ff00ff00ff :: u64" _
        "\<lambda>a i. [a ! i, a ! (i + 16), a ! (i + 32), a ! (i + 48)]"])
    (simp_all add: masks_64 share_transpose16x64_def share64_from_share16s_def upt_rec)

lemma transposes_16x128: "transposes share_transpose16x128"
  by (rule transposes_packed [of 7 3 8 "0x00ff00ff00ff00ff00ff00ff00ff00ff :: u128" _
        "\<lambda>a i. [a ! i, a ! (i + 16), a ! (i + 32), a ! (i + 48), a ! (i + 64), a ! (i + 80), a ! (i + 96),
           a ! (i + 112)]"])
    (simp_all add: masks_128 share_transpose16x128_def share128_from_share16s_def upt_rec)

lemma transposes_32x64: "transposes share_transpose32x64"
  by (rule transposes_packed [of 6 4 2 "0x0000ffff0000ffff :: u64" _ "\<lambda>a i. [a ! i, a ! (i + 32)]"])
    (simp_all add: masks_64 share_transpose32x64_def share64_from_share32s_def upt_rec)

lemma transposes_32x128: "transposes share_transpose32x128"
  by (rule transposes_packed [of 7 4 4 "0x0000ffff0000ffff0000ffff0000ffff :: u128" _
        "\<lambda>a i. [a ! i, a ! (i + 32), a ! (i + 64), a ! (i + 96)]"])
    (simp_all add: masks_128 share_transpose32x128_def share128_from_share32s_def upt_rec)

lemma transposes_64x128: "transposes share_transpose64x128"
  by (rule transposes_packed [of 7 5 2 "0x00000000ffffffff00000000ffffffff :: u128" _ "\<lambda>a i. [a ! i, a ! (i + 64)]"])
    (simp_all add: masks_128 share_transpose64x128_def share128_from_share64s_def upt_rec)

lemma transposes_64x64: "transposes share_transpose64x64"
  unfolding transposes_def share_transpose64x64_def
proof (intro allI impI)
  fix a :: "u64 Share list" assume "length a = LENGTH(64)"
  then show "\<exists>res. swap_stages 64 32 0x00000000ffffffff a = Some res \<and> length res = LENGTH(64) \<and>
     (\<forall>k < LENGTH(64). \<forall>p < LENGTH(64).
        bit (sh_a (res ! k)) p = bit (sh_a (a ! p)) k \<and> bit (sh_b (res ! k)) p = bit (sh_b (a ! p)) k)"
    using packed_transpose [of 6 5 "0x00000000ffffffff :: u64" a a] masks_64 by simp
qed

section \<open>Transposition of a vector\<close>

lemma store_planes_ok:
  fixes tr :: "'a::len word Share list \<Rightarrow> 'b::len word Share list option"
  assumes tr: "transposes tr" and blocks: "\<And>x. x \<in> set (map snd xs) \<Longrightarrow> length x = LENGTH('b)"
    and idx: "distinct (map fst xs)" "\<And>j. j \<in> set (map fst xs) \<Longrightarrow> j < len"
    and res: "\<And>r. r \<in> set res \<Longrightarrow> length r = len"
  shows "\<exists>res'. store_planes tr xs res = Some res' \<and> length res' = length res \<and>
    (\<forall>r \<in> set res'. length r = len) \<and>
    (\<forall>k < length res. \<forall>j. (j \<notin> set (map fst xs) \<or> LENGTH('a) \<le> k \<longrightarrow> res' ! k ! j = res ! k ! j) \<and>
      (k < LENGTH('a) \<longrightarrow> (\<forall>x. (j, x) \<in> set xs \<longrightarrow> (\<forall>p < LENGTH('b).
         bit (sh_a (res' ! k ! j)) p = bit (sh_a (x ! p)) k \<and> bit (sh_b (res' ! k ! j)) p = bit (sh_b (x ! p)) k))))"
  using assms(2-)
proof (induction xs arbitrary: res)
  case (Cons jx xs)
  obtain i x where jx: "jx = (i, x)" by (cases jx)
  have x: "length x = LENGTH('b)" using Cons.prems(1) by (simp add: jx)
  then obtain t where t: "tr x = Some t" "length t = LENGTH('a)"
    "\<And>k p. k < LENGTH('a) \<Longrightarrow> p < LENGTH('b) \<Longrightarrow>
       bit (sh_a (t ! k)) p = bit (sh_a (x ! p)) k \<and> bit (sh_b (t ! k)) p = bit (sh_b (x ! p)) k"
    using tr unfolding transposes_def by blast
  let ?res = "zip_assign (\<lambda>des src. des[i := src]) res t"
  have nth: "?res ! k = (if k < LENGTH('a) then (res ! k)[i := t ! k] else res ! k)" if "k < length res" for k
    using that t(2) by (auto simp: zip_assign_def nth_append min_def)
  have old: "length (res ! k) = len" if "k < length res" for k
    using that Cons.prems(4) by simp
  have lens: "length r = len" if "r \<in> set ?res" for r
    using that nth old by (auto simp: in_set_conv_nth)
  obtain res' where res': "store_planes tr xs ?res = Some res'" "length res' = length ?res"
    "\<forall>r \<in> set res'. length r = len"
    "\<forall>k < length ?res. \<forall>j. (j \<notin> set (map fst xs) \<or> LENGTH('a) \<le> k \<longrightarrow> res' ! k ! j = ?res ! k ! j) \<and>
      (k < LENGTH('a) \<longrightarrow> (\<forall>x. (j, x) \<in> set xs \<longrightarrow> (\<forall>p < LENGTH('b).
         bit (sh_a (res' ! k ! j)) p = bit (sh_a (x ! p)) k \<and> bit (sh_b (res' ! k ! j)) p = bit (sh_b (x ! p)) k)))"
    using Cons.IH [of ?res] Cons.prems lens by auto
  have i: "i \<notin> set (map fst xs)" "i < len" using Cons.prems(2,3) by (auto simp: jx)
  have "(j \<notin> set (map fst (jx # xs)) \<or> LENGTH('a) \<le> k \<longrightarrow> res' ! k ! j = res ! k ! j) \<and>
      (k < LENGTH('a) \<longrightarrow> (\<forall>y. (j, y) \<in> set (jx # xs) \<longrightarrow> (\<forall>p < LENGTH('b).
         bit (sh_a (res' ! k ! j)) p = bit (sh_a (y ! p)) k \<and> bit (sh_b (res' ! k ! j)) p = bit (sh_b (y ! p)) k)))"
    if k: "k < length res" for k j
  proof -
    have "length (res ! k) = len" using Cons.prems(4) k by simp
    moreover have "j \<noteq> i" if "(j, y) \<in> set xs" for y using that i(1) by force
    ultimately show ?thesis using res'(4) k nth [OF k] t(3) i by (auto simp: jx)
  qed
  then show ?case using res'(1-3) t(1) by (simp add: jx)
qed simp

lemma padded_len: "0 < w \<Longrightarrow> n \<le> (n + (w - 1)) div w * w" for n w :: nat
proof -
  assume "0 < w"
  let ?m = "n + (w - 1)"
  have "?m mod w < w" using \<open>0 < w\<close> by simp
  moreover have "?m = ?m div w * w + ?m mod w" by (simp only: div_mult_mod_eq)
  ultimately show ?thesis using \<open>0 < w\<close> by linarith
qed

lemma transpose_pack_ok:
  fixes tr :: "'a::len word Share list \<Rightarrow> 'b::len word Share list option"
  assumes tr: "transposes tr"
  defines "len v \<equiv> (length v + (LENGTH('b) - 1)) div LENGTH('b)"
  obtains res where "transpose_pack LENGTH('b) tr L v = Some res" "length res = L"
    "\<forall>r \<in> set res. length r = len v"
    "\<forall>k < L. \<forall>j < len v. \<forall>p < LENGTH('b).
       bit (sh_a (res ! k ! j)) p = (k < LENGTH('a) \<and> j * LENGTH('b) + p < length v \<and> bit (sh_a (v ! (j * LENGTH('b) + p))) k) \<and>
       bit (sh_b (res ! k ! j)) p = (k < LENGTH('a) \<and> j * LENGTH('b) + p < length v \<and> bit (sh_b (v ! (j * LENGTH('b) + p))) k)"
proof -
  let ?w = "LENGTH('b)" and ?n = "len v"
  let ?pad = "v @ replicate (?n * ?w - length v) (share_zero word_ring)"
  let ?res = "replicate L (replicate ?n (share_zero word_ring :: 'b word Share))"
  let ?xs = "List.enumerate 0 (chunks_exact ?w ?pad)"
  have ge: "length v \<le> ?n * ?w" unfolding len_def by (rule padded_len) simp
  then have lp: "length ?pad = ?n * ?w" by simp
  have nc: "length (chunks_exact ?w ?pad) = ?n" by (simp add: ge)
  have fst: "map fst ?xs = [0..<?n]" by (simp only: map_fst_enumerate nc add_0)
  have blk: "chunks_exact ?w ?pad ! j = take ?w (drop (j * ?w) ?pad)" if "j < ?n" for j
    using that lp by (intro nth_chunks_exact) simp
  have l1: "length x = ?w" if "x \<in> set (map snd ?xs)" for x
    using that lp by (auto simp: in_set_conv_nth length_nth_chunks_exact)
  have l2: "distinct (map fst ?xs)" "\<And>j. j \<in> set (map fst ?xs) \<Longrightarrow> j < ?n" unfolding fst by simp_all
  have rr: "length r = ?n" if "r \<in> set ?res" for r using that by simp
  obtain res where r: "store_planes tr ?xs ?res = Some res" "length res = L" "\<forall>r \<in> set res. length r = ?n"
    "\<forall>k < L. \<forall>j. (j \<notin> set (map fst ?xs) \<or> LENGTH('a) \<le> k \<longrightarrow> res ! k ! j = ?res ! k ! j) \<and>
      (k < LENGTH('a) \<longrightarrow> (\<forall>x. (j, x) \<in> set ?xs \<longrightarrow> (\<forall>p < LENGTH('b).
         bit (sh_a (res ! k ! j)) p = bit (sh_a (x ! p)) k \<and> bit (sh_b (res ! k ! j)) p = bit (sh_b (x ! p)) k)))"
    using store_planes_ok [of tr ?xs ?n ?res, OF tr l1 l2 rr] unfolding length_replicate by metis
  have "transpose_pack ?w tr L v = Some res"
    using r(1) ge unfolding transpose_pack_def Let_def len_def [symmetric] by simp
  moreover have "bit (sh_a (res ! k ! j)) p = (k < LENGTH('a) \<and> j * ?w + p < length v \<and> bit (sh_a (v ! (j * ?w + p))) k) \<and>
       bit (sh_b (res ! k ! j)) p = (k < LENGTH('a) \<and> j * ?w + p < length v \<and> bit (sh_b (v ! (j * ?w + p))) k)"
    if k: "k < L" and j: "j < ?n" and p: "p < ?w" for k j p
  proof (cases "k < LENGTH('a)")
    case False
    then have "res ! k ! j = share_zero word_ring" using r(4) k j False by simp
    then show ?thesis using False by (simp add: share_zero_def re_zero_def share_simps)
  next
    case True
    let ?x = "take ?w (drop (j * ?w) ?pad)"
    have in_xs: "(j, ?x) \<in> set ?xs" using j nc by (auto simp: in_set_enumerate_eq blk)
    have "Suc j * ?w \<le> ?n * ?w" using j by (intro mult_le_mono1) simp
    then have lt: "j * ?w + p < length ?pad" using p lp by simp
    then have "?x ! p = ?pad ! (j * ?w + p)" using p by (simp add: nth_drop del: take_append drop_append)
    then have "?x ! p = (if j * ?w + p < length v then v ! (j * ?w + p) else share_zero word_ring)"
      using lt by (auto simp: nth_append)
    moreover have "bit (sh_a (res ! k ! j)) p = bit (sh_a (?x ! p)) k \<and> bit (sh_b (res ! k ! j)) p = bit (sh_b (?x ! p)) k"
      using r(4) k True in_xs p by blast
    ultimately show ?thesis using True by (simp add: share_zero_def re_zero_def share_simps)
  qed
  ultimately show ?thesis using r(2,3) by (intro that) auto
qed

section \<open>Properties\<close>

text \<open>
  Correctness and termination of the six block transpositions. On a block of 64 or 128 shares the
  swap loops end, and bit \<open>p\<close> of word \<open>k\<close> of the result is bit \<open>k\<close> of share \<open>p\<close>, for both components.
\<close>

theorem block_transpositions:
  "transposes share_transpose16x64 \<and> transposes share_transpose16x128 \<and>
   transposes share_transpose32x64 \<and> transposes share_transpose32x128 \<and>
   transposes share_transpose64x64 \<and> transposes share_transpose64x128"
  by (simp add: transposes_16x64 transposes_16x128 transposes_32x64 transposes_32x128 transposes_64x64
      transposes_64x128)

text \<open>
  Bit planes of a vector. \<open>transpose_pack_u64_with_len\<close> on shares of \<open>u32\<close> returns \<open>L\<close> vectors of
  as many words as the vector has blocks of 64, and bit \<open>p\<close> of word \<open>j\<close> of vector \<open>k\<close> is bit \<open>k\<close> of
  share \<open>64 j + p\<close>; the padding and the vectors past the width are zero.
\<close>

theorem transpose_pack_planes:
  "\<exists>res. transpose_pack_u64_32 L v = Some res \<and> length res = L \<and>
     (\<forall>r \<in> set res. length r = (length v + 63) div 64) \<and>
     (\<forall>k < L. \<forall>j < (length v + 63) div 64. \<forall>p < 64.
       bit (sh_a (res ! k ! j)) p = (k < 32 \<and> j * 64 + p < length v \<and> bit (sh_a (v ! (j * 64 + p))) k) \<and>
       bit (sh_b (res ! k ! j)) p = (k < 32 \<and> j * 64 + p < length v \<and> bit (sh_b (v ! (j * 64 + p))) k))"
proof -
  obtain res where r: "transpose_pack LENGTH(64) share_transpose32x64 L v = Some res" "length res = L"
    "\<forall>r \<in> set res. length r = (length v + (LENGTH(64) - 1)) div LENGTH(64)"
    "\<forall>k < L. \<forall>j < (length v + (LENGTH(64) - 1)) div LENGTH(64). \<forall>p < LENGTH(64).
       bit (sh_a (res ! k ! j)) p = (k < LENGTH(32) \<and> j * LENGTH(64) + p < length v \<and> bit (sh_a (v ! (j * LENGTH(64) + p))) k) \<and>
       bit (sh_b (res ! k ! j)) p = (k < LENGTH(32) \<and> j * LENGTH(64) + p < length v \<and> bit (sh_b (v ! (j * LENGTH(64) + p))) k)"
    by (rule transpose_pack_ok [OF transposes_32x64])
  have n: "LENGTH(64) = 64" "LENGTH(32) = 32" "(64 :: nat) - 1 = 63" by simp_all
  show ?thesis
    unfolding transpose_pack_u64_32_def by (intro exI [of _ res] conjI) (rule r [unfolded n])+
qed

theorem transpose_pack_planes_witness:
  "\<exists>res. transpose_pack_u64_32 8 [\<lparr>sh_a = 5, sh_b = 7\<rparr>, \<lparr>sh_a = 2, sh_b = 6\<rparr>] = Some res \<and>
     bit (sh_a (res ! 1 ! 0)) 1 \<and> \<not> bit (sh_a (res ! 1 ! 0)) 0 \<and> bit (sh_b (res ! 2 ! 0)) 0"
proof -
  obtain res where r: "transpose_pack_u64_32 8 [\<lparr>sh_a = 5, sh_b = 7\<rparr>, \<lparr>sh_a = 2, sh_b = 6\<rparr>] = Some res"
    and b: "\<forall>k < 8. \<forall>j < (length [\<lparr>sh_a = 5, sh_b = 7\<rparr>, \<lparr>sh_a = 2, sh_b = 6 :: u32\<rparr>] + 63) div 64. \<forall>p < 64.
       bit (sh_a (res ! k ! j)) p = (k < 32 \<and> j * 64 + p < length [\<lparr>sh_a = 5, sh_b = 7\<rparr>, \<lparr>sh_a = 2, sh_b = 6 :: u32\<rparr>] \<and>
         bit (sh_a ([\<lparr>sh_a = 5, sh_b = 7\<rparr>, \<lparr>sh_a = 2, sh_b = 6 :: u32\<rparr>] ! (j * 64 + p))) k) \<and>
       bit (sh_b (res ! k ! j)) p = (k < 32 \<and> j * 64 + p < length [\<lparr>sh_a = 5, sh_b = 7\<rparr>, \<lparr>sh_a = 2, sh_b = 6 :: u32\<rparr>] \<and>
         bit (sh_b ([\<lparr>sh_a = 5, sh_b = 7\<rparr>, \<lparr>sh_a = 2, sh_b = 6 :: u32\<rparr>] ! (j * 64 + p))) k)"
    using transpose_pack_planes [of 8 "[\<lparr>sh_a = 5, sh_b = 7\<rparr>, \<lparr>sh_a = 2, sh_b = 6\<rparr>]"] by blast
  show ?thesis
    using r b [rule_format, of 1 0 1] b [rule_format, of 1 0 0] b [rule_format, of 2 0 0]
    by (intro exI [of _ res]) simp
qed

end
