(* ===== verification/Network.thy ===== *)
theory Network
  imports Shares
begin

text \<open>
  Communication of the CPU parties. The trait \<open>Networking\<close> (\<open>network/mod.rs\<close>) is a dictionary of a
  send and a receive operation on a store; \<open>LocalNetworkingStore\<close> (\<open>network/local.rs\<close>) implements it
  with one unbounded FIFO channel for every ordered pair of parties. A party is a program that
  sends, receives and returns; the three parties run interleaved. The locale \<open>networking\<close> states
  that operations of different owners commute, which is all that is needed to show that the
  outcome of a run does not depend on the schedule.
\<close>

section \<open>Networking\<close>

text \<open>
  Arguments in the order store, owner, value, receiver and store, owner, sender. A receive that
  waits for a message is \<open>None\<close>. The local network ignores the session id of the trait.
\<close>

record ('st, 'w) Networking =
  net_send :: "'st \<Rightarrow> Identity \<Rightarrow> 'w \<Rightarrow> Identity \<Rightarrow> 'st \<times> unit result"
  net_receive :: "'st \<Rightarrow> Identity \<Rightarrow> Identity \<Rightarrow> ('st \<times> 'w result) option"

type_synonym 'w LocalNetworkingStore = "Identity \<times> Identity \<Rightarrow> 'w list option"

fun insert_channels :: "(Identity \<times> Identity) list \<Rightarrow> 'w LocalNetworkingStore \<Rightarrow> 'w LocalNetworkingStore" where
  "insert_channels [] p2p = p2p"
| "insert_channels ((v1, v2) # vs) p2p =
     insert_channels vs (if v1 \<noteq> v2 then p2p((v1, v2) \<mapsto> []) else p2p)"

definition from_host_ids :: "Identity list \<Rightarrow> 'w LocalNetworkingStore" where
  "from_host_ids identities = insert_channels (List.product identities identities) Map.empty"

definition local_send ::
    "'w LocalNetworkingStore \<Rightarrow> Identity \<Rightarrow> 'w \<Rightarrow> Identity \<Rightarrow> 'w LocalNetworkingStore \<times> unit result" where
  "local_send p2p owner val receiver =
     (case p2p (owner, receiver) of
        None \<Rightarrow> (p2p, Inl (Eyre ''p2p channel retrieve error when sending''))
      | Some q \<Rightarrow> (p2p((owner, receiver) \<mapsto> q @ [val]), Inr ()))"

definition local_receive ::
    "'w LocalNetworkingStore \<Rightarrow> Identity \<Rightarrow> Identity \<Rightarrow> ('w LocalNetworkingStore \<times> 'w result) option" where
  "local_receive p2p owner sender =
     (case p2p (sender, owner) of
        None \<Rightarrow> Some (p2p, Inl (Eyre ''p2p channel retrieve error when receiving''))
      | Some [] \<Rightarrow> None
      | Some (m # q) \<Rightarrow> Some (p2p((sender, owner) \<mapsto> q), Inr m))"

definition local_networking :: "('w LocalNetworkingStore, 'w) Networking" where
  "local_networking = \<lparr>net_send = local_send, net_receive = local_receive\<rparr>"

section \<open>Programs of the parties\<close>

datatype ('w, 'r) proc =
  Ret 'r
| Snd Identity 'w "unit result \<Rightarrow> ('w, 'r) proc"
| Rcv Identity "'w result \<Rightarrow> ('w, 'r) proc"

primrec pbind :: "('w, 'a) proc \<Rightarrow> ('a \<Rightarrow> ('w, 'b) proc) \<Rightarrow> ('w, 'b) proc" where
  "pbind (Ret x) f = f x"
| "pbind (Snd r w k) f = Snd r w (\<lambda>res. pbind (k res) f)"
| "pbind (Rcv s k) f = Rcv s (\<lambda>res. pbind (k res) f)"

lemma pbind_assoc: "pbind (pbind m f) g = pbind m (\<lambda>x. pbind (f x) g)"
  by (induction m) simp_all

type_synonym ('st, 'w, 'r) config = "(PartyID \<Rightarrow> ('w, 'r) proc) \<times> 'st"

text \<open>One step of party \<open>p\<close>, whose network identity is \<open>ident p\<close>.\<close>

definition party_step ::
    "('st, 'w) Networking \<Rightarrow> (PartyID \<Rightarrow> Identity) \<Rightarrow> PartyID \<Rightarrow> ('st, 'w, 'r) config
       \<Rightarrow> ('st, 'w, 'r) config option" where
  "party_step N ident p = (\<lambda>(procs, st).
     (case procs p of
        Ret x \<Rightarrow> None
      | Snd r w k \<Rightarrow>
          (case net_send N st (ident p) w r of (st', res) \<Rightarrow> Some (procs(p := k res), st'))
      | Rcv s k \<Rightarrow>
          (case net_receive N st (ident p) s of
             None \<Rightarrow> None
           | Some (st', res) \<Rightarrow> Some (procs(p := k res), st'))))"

inductive step ::
    "('st, 'w) Networking \<Rightarrow> (PartyID \<Rightarrow> Identity) \<Rightarrow> ('st, 'w, 'r) config \<Rightarrow> ('st, 'w, 'r) config \<Rightarrow> bool"
  for N ident where
  step_party: "party_step N ident p c = Some c' \<Longrightarrow> step N ident c c'"

inductive_cases step_elim: "step N ident c c'"

definition all_returned :: "(PartyID \<Rightarrow> 'r) \<Rightarrow> 'st \<Rightarrow> ('st, 'w, 'r) config" where
  "all_returned X st = (\<lambda>p. Ret (X p), st)"

lemma all_returned_stuck: "\<not> step N ident (all_returned X st) c"
  by (auto simp: all_returned_def party_step_def elim: step_elim)

section \<open>The contract of a network\<close>

locale networking =
  fixes N :: "('st, 'w) Networking"
  assumes send_send: "o1 \<noteq> o2 \<Longrightarrow> net_send N st o1 w1 r1 = (st1, x1) \<Longrightarrow> net_send N st o2 w2 r2 = (st2, x2) \<Longrightarrow>
      \<exists>st3. net_send N st1 o2 w2 r2 = (st3, x2) \<and> net_send N st2 o1 w1 r1 = (st3, x1)"
    and send_receive: "o1 \<noteq> o2 \<Longrightarrow> net_send N st o1 w1 r1 = (st1, x1) \<Longrightarrow> net_receive N st o2 s2 = Some (st2, y2) \<Longrightarrow>
      \<exists>st3. net_receive N st1 o2 s2 = Some (st3, y2) \<and> net_send N st2 o1 w1 r1 = (st3, x1)"
    and receive_receive: "o1 \<noteq> o2 \<Longrightarrow> net_receive N st o1 s1 = Some (st1, y1) \<Longrightarrow>
      net_receive N st o2 s2 = Some (st2, y2) \<Longrightarrow>
      \<exists>st3. net_receive N st1 o2 s2 = Some (st3, y2) \<and> net_receive N st2 o1 s1 = Some (st3, y1)"
begin

text \<open>Steps of different parties commute.\<close>

lemma party_steps_commute:
  assumes "inj ident" "p \<noteq> q" "party_step N ident p c = Some c1" "party_step N ident q c = Some c2"
  shows "\<exists>d. party_step N ident q c1 = Some d \<and> party_step N ident p c2 = Some d"
proof -
  obtain procs st where c: "c = (procs, st)" by (cases c)
  have ids: "ident p \<noteq> ident q" "ident q \<noteq> ident p" using assms(1,2) by (simp_all add: inj_eq)
  have tw: "procs(p := a, q := b) = procs(q := b, p := a)" for a b
    using assms(2) by (simp add: fun_upd_twist)
  show ?thesis
  proof (cases "procs p")
    case (Ret x)
    then show ?thesis using assms(3) by (simp add: c party_step_def)
  next
    case p: (Snd r1 w1 k1)
    show ?thesis
    proof (cases "procs q")
      case (Ret x)
      then show ?thesis using assms(4) by (simp add: c party_step_def)
    next
      case (Snd r2 w2 k2)
      then show ?thesis
        using assms(2-4) p send_send [OF ids(1)]
        by (fastforce simp: c party_step_def tw split: prod.splits)
    next
      case (Rcv s2 k2)
      then show ?thesis
        using assms(2-4) p send_receive [OF ids(1)]
        by (fastforce simp: c party_step_def tw split: prod.splits option.splits)
    qed
  next
    case p: (Rcv s1 k1)
    show ?thesis
    proof (cases "procs q")
      case (Ret x)
      then show ?thesis using assms(4) by (simp add: c party_step_def)
    next
      case (Snd r2 w2 k2)
      then show ?thesis
        using assms(2-4) p send_receive [OF ids(2)]
        by (fastforce simp: c party_step_def tw split: prod.splits option.splits)
    next
      case (Rcv s2 k2)
      then show ?thesis
        using assms(2-4) p receive_receive [OF ids(1)]
        by (fastforce simp: c party_step_def tw split: prod.splits option.splits)
    qed
  qed
qed

lemma step_diamond:
  assumes "inj ident" "step N ident c c1" "step N ident c c2"
  shows "c1 = c2 \<or> (\<exists>d. step N ident c1 d \<and> step N ident c2 d)"
proof -
  obtain p q where pq: "party_step N ident p c = Some c1" "party_step N ident q c = Some c2"
    using assms(2,3) by (blast elim: step_elim)
  show ?thesis
  proof (cases "p = q")
    case True
    then show ?thesis using pq by simp
  next
    case False
    then show ?thesis using party_steps_commute [OF assms(1) _ pq] step_party by metis
  qed
qed

text \<open>A terminating run fixes the length and the outcome of every other one.\<close>

lemma first_step_on_the_way:
  assumes "inj ident" "(step N ident ^^ n) c (all_returned X st)" "step N ident c c1"
  shows "\<exists>m. n = Suc m \<and> (step N ident ^^ m) c1 (all_returned X st)"
  using assms(2,3)
proof (induction n arbitrary: c c1)
  case 0
  then show ?case by (simp add: all_returned_stuck)
next
  case (Suc n)
  then obtain c2 where c2: "step N ident c c2" "(step N ident ^^ n) c2 (all_returned X st)"
    by (metis relpowp_Suc_E2)
  from step_diamond [OF assms(1) Suc.prems(2) c2(1)] show ?case
  proof
    assume "c1 = c2"
    then show ?thesis using c2(2) by blast
  next
    assume "\<exists>d. step N ident c1 d \<and> step N ident c2 d"
    then obtain d where d: "step N ident c1 d" "step N ident c2 d" by blast
    with Suc.IH [OF c2(2) d(2)] obtain m where "n = Suc m" "(step N ident ^^ m) d (all_returned X st)" by blast
    then show ?thesis using d(1) relpowp_Suc_I2 by metis
  qed
qed

lemma every_run_completes:
  assumes "inj ident" "(step N ident ^^ n) c (all_returned X st)" "(step N ident ^^ m) c d"
  shows "m \<le> n \<and> (step N ident ^^ (n - m)) d (all_returned X st)"
  using assms(3)
proof (induction m arbitrary: d)
  case 0
  then show ?case using assms(2) by simp
next
  case (Suc m)
  then obtain e where e: "(step N ident ^^ m) c e" "step N ident e d" by (auto elim: relpowp_Suc_E)
  with Suc.IH have le: "m \<le> n" "(step N ident ^^ (n - m)) e (all_returned X st)" by blast+
  from first_step_on_the_way [OF assms(1) le(2) e(2)] obtain k
    where "n - m = Suc k" "(step N ident ^^ k) d (all_returned X st)" by blast
  moreover from this(1) have "n - Suc m = k" by simp
  ultimately show ?case using le(1) by (metis Suc_leI diff_is_0_eq nat.simps(3) not_le le_neq_implies_less le_refl)
qed

end

lemma local_networking_simps [net_simps]:
  "net_send local_networking = local_send" "net_receive local_networking = local_receive"
  by (simp_all add: local_networking_def)

interpretation local_net: networking local_networking
  by unfold_locales
    (auto simp: net_simps local_send_def local_receive_def fun_upd_twist split: option.splits list.splits if_splits)

text \<open>
  A run from \<open>c\<close> is certain to end with the results \<open>X\<close>: there is a number of steps that no
  interleaving exceeds and after which every interleaving has ended that way.
\<close>

definition ends_with ::
    "(PartyID \<Rightarrow> Identity) \<Rightarrow> ('w LocalNetworkingStore, 'w, 'r) config \<Rightarrow> (PartyID \<Rightarrow> 'r)
       \<Rightarrow> 'w LocalNetworkingStore \<Rightarrow> bool" where
  "ends_with ident c X st \<longleftrightarrow> (\<exists>n. \<forall>m d. (step local_networking ident ^^ m) c d \<longrightarrow>
     m \<le> n \<and> (step local_networking ident ^^ (n - m)) d (all_returned X st))"

lemma ends_withI:
  assumes "inj ident" "(step local_networking ident)\<^sup>*\<^sup>* c (all_returned X st)"
  shows "ends_with ident c X st"
proof -
  from assms(2) obtain n where "(step local_networking ident ^^ n) c (all_returned X st)"
    by (auto simp: rtranclp_power)
  with local_net.every_run_completes [OF assms(1)] show ?thesis unfolding ends_with_def by blast
qed

text \<open>
  C34: Independence of the schedule. When some interleaving of the three parties over the local
  network ends with all parties returned, no interleaving takes more steps, none is stuck before
  the end, and every one can be continued to the same results and the same channels.
\<close>

theorem schedule_independence:
  fixes c :: "('w LocalNetworkingStore, 'w, 'r) config"
  assumes "inj ident" "(step local_networking ident ^^ n) c (all_returned X st)"
    "(step local_networking ident ^^ m) c d"
  shows "m \<le> n \<and> (step local_networking ident ^^ (n - m)) d (all_returned X st) \<and>
    (m < n \<longleftrightarrow> (\<exists>e. step local_networking ident d e))"
proof -
  have 1: "m \<le> n" "(step local_networking ident ^^ (n - m)) d (all_returned X st)"
    using local_net.every_run_completes [OF assms] by simp_all
  have "\<exists>e. step local_networking ident d e" if "m < n"
  proof -
    from that obtain k where "n - m = Suc k" by (metis Suc_diff_Suc)
    with 1(2) show ?thesis by (metis relpowp_Suc_D2)
  qed
  moreover have "m < n" if "step local_networking ident d e" for e
    using local_net.first_step_on_the_way [OF assms(1) 1(2) that] by auto
  ultimately show ?thesis using 1 by blast
qed

definition demo_ident :: "PartyID \<Rightarrow> Identity" where
  "demo_ident p = Identity (case p of ID0 \<Rightarrow> ''alice'' | ID1 \<Rightarrow> ''bob'' | ID2 \<Rightarrow> ''charlie'')"

lemma inj_demo_ident: "inj demo_ident"
  by (rule injI) (auto simp: demo_ident_def split: PartyID.splits)

theorem schedule_independence_witness:
  "let st = from_host_ids [demo_ident ID0, demo_ident ID1, demo_ident ID2];
       c = (\<lambda>p. case p of ID0 \<Rightarrow> Snd (demo_ident ID1) (7 :: nat) (\<lambda>_. Ret None)
              | ID1 \<Rightarrow> Rcv (demo_ident ID0) (\<lambda>r. Ret (Some r)) | ID2 \<Rightarrow> Ret None, st);
       d = (\<lambda>p. case p of ID0 \<Rightarrow> Ret None
              | ID1 \<Rightarrow> Rcv (demo_ident ID0) (\<lambda>r. Ret (Some r)) | ID2 \<Rightarrow> Ret None,
            st((demo_ident ID0, demo_ident ID1) \<mapsto> [7]));
       X = (\<lambda>p. if p = ID1 then Some (Inr 7) else None)
   in (step local_networking demo_ident ^^ 1) c d \<and>
      (step local_networking demo_ident ^^ (2 - 1)) d (all_returned X st) \<and>
      (\<exists>e. step local_networking demo_ident d e)"
proof -
  let ?st = "from_host_ids [demo_ident ID0, demo_ident ID1, demo_ident ID2] :: nat LocalNetworkingStore"
  let ?c = "(\<lambda>p. case p of ID0 \<Rightarrow> Snd (demo_ident ID1) (7 :: nat) (\<lambda>_. Ret None)
              | ID1 \<Rightarrow> Rcv (demo_ident ID0) (\<lambda>r. Ret (Some r)) | ID2 \<Rightarrow> Ret None, ?st)"
  let ?d = "(\<lambda>p. case p of ID0 \<Rightarrow> Ret None
              | ID1 \<Rightarrow> Rcv (demo_ident ID0) (\<lambda>r. Ret (Some r)) | ID2 \<Rightarrow> Ret None,
            ?st((demo_ident ID0, demo_ident ID1) \<mapsto> [7]))"
  let ?X = "\<lambda>p. if p = ID1 then Some (Inr 7) else None"
  have ch: "?st (demo_ident ID0, demo_ident ID1) = Some []"
    by (simp add: from_host_ids_def inj_demo_ident [THEN inj_eq])
  have 1: "step local_networking demo_ident ?c ?d"
    by (rule step_party [of _ _ ID0])
      (auto simp: party_step_def net_simps local_send_def ch fun_eq_iff split: PartyID.split)
  have 2: "step local_networking demo_ident ?d (all_returned ?X ?st)"
    by (rule step_party [of _ _ ID1])
      (auto simp: party_step_def net_simps local_receive_def ch all_returned_def fun_eq_iff split: PartyID.split)
  have one: "(step local_networking demo_ident ^^ 1) ?c ?d" unfolding relpowp_1 by (rule 1)
  have two: "(step local_networking demo_ident ^^ 2) ?c (all_returned ?X ?st)"
    unfolding numeral_2_eq_2 using relpowp_Suc_I [OF one 2] by simp
  note run = schedule_independence [OF inj_demo_ident two one]
  have "\<exists>e. step local_networking demo_ident ?d e" using run by (simp del: One_nat_def)
  with run one show ?thesis unfolding Let_def by (intro conjI) simp_all
qed

section \<open>Running the parties one phase after the other\<close>

text \<open>
  A run of the programs \<open>P\<close> that ends with all results returned extends to the programs that go on
  with \<open>K\<close>, so protocols compose although the parties are not synchronised.
\<close>

lemma party_step_pbind:
  assumes "party_step N ident p (P, st) = Some (P', st')"
  shows "party_step N ident p (\<lambda>q. pbind (P q) (K q), st) = Some (\<lambda>q. pbind (P' q) (K q), st')"
proof -
  have upd: "(\<lambda>q. pbind ((P(p := x)) q) (K q)) = (\<lambda>q. pbind (P q) (K q))(p := pbind x (K p))" for x
    by (simp add: fun_eq_iff)
  from assms show ?thesis
    by (cases "P p") (auto simp: party_step_def upd split: prod.splits option.splits)
qed

lemma step_pbind:
  "step N ident (P, st) (P', st') \<Longrightarrow>
     step N ident (\<lambda>q. pbind (P q) (K q), st) (\<lambda>q. pbind (P' q) (K q), st')"
  by (auto elim!: step_elim intro: step_party party_step_pbind)

lemma steps_pbind:
  "(step N ident)\<^sup>*\<^sup>* (P, st) (P', st') \<Longrightarrow>
     (step N ident)\<^sup>*\<^sup>* (\<lambda>q. pbind (P q) (K q), st) (\<lambda>q. pbind (P' q) (K q), st')"
proof (induction rule: rtranclp_induct2)
  case (step P1 st1 P2 st2)
  show ?case using step(3) step_pbind [OF step(2)] by (rule rtranclp.rtrancl_into_rtrancl)
qed simp

lemma run_pbind:
  assumes "(step N ident)\<^sup>*\<^sup>* (P, st) (all_returned X st1)"
    and "(step N ident)\<^sup>*\<^sup>* (\<lambda>p. K p (X p), st1) c"
  shows "(step N ident)\<^sup>*\<^sup>* (\<lambda>p. pbind (P p) (K p), st) c"
proof -
  have "(step N ident)\<^sup>*\<^sup>* (\<lambda>p. pbind (P p) (K p), st) (\<lambda>p. pbind (Ret (X p)) (K p), st1)"
    using steps_pbind [OF assms(1) [unfolded all_returned_def]] .
  then show ?thesis using assms(2) by simp
qed

end
