(* ===== verification/Session.thy ===== *)
theory Session
  imports Network
begin

text \<open>
  Sessions of the CPU parties: the values on the wire (\<open>network/value.rs\<close>), the pseudorandom
  functions that neighbouring parties share (\<open>protocol/prf.rs\<close>), sessions and role lookup
  (\<open>execution/session.rs\<close>), the setup of the shared keys (\<open>setup_replicated_prf\<close> of
  \<open>protocol/ops.rs\<close>), and a small logic for programs that three parties run jointly.

  The serialisation of the \<open>bincode\<close> crate and the generator \<open>AesRng\<close> are a parameter \<open>E\<close>; the type
  \<open>'w\<close> of the bytes on the wire is left open.
\<close>

section \<open>Values on the wire\<close>

datatype NetworkValue =
  PrfKey "u8 list"
| Ring16 u16
| Ring32 u32
| RingElementBit Bit
| RingElement16 u16
| RingElement32 u32
| RingElement64 u64
| VecRing16 "u16 list"
| VecRing32 "u32 list"
| VecRing64 "u64 list"

record ('w, 'g) Env =
  serialize :: "NetworkValue \<Rightarrow> 'w"
  deserialize :: "'w \<Rightarrow> NetworkValue option"
  serialize_vec :: "NetworkValue list \<Rightarrow> 'w"
  deserialize_vec :: "'w \<Rightarrow> NetworkValue list option"
  from_seed :: "u8 list \<Rightarrow> 'g"
  gen_u16 :: "'g \<Rightarrow> u16 \<times> 'g"
  gen_u32 :: "'g \<Rightarrow> u32 \<times> 'g"
  gen_u64 :: "'g \<Rightarrow> u64 \<times> 'g"

text \<open>The documented behaviour of \<open>bincode\<close> that the protocols rely on.\<close>

definition codec_ok :: "('w, 'g) Env \<Rightarrow> bool" where
  "codec_ok E \<longleftrightarrow> (\<forall>v. deserialize E (serialize E v) = Some v) \<and>
     (\<forall>vs. deserialize_vec E (serialize_vec E vs) = Some vs)"

definition to_network :: "('w, 'g) Env \<Rightarrow> NetworkValue \<Rightarrow> 'w" where
  "to_network E v = serialize E v"

definition from_network :: "('w, 'g) Env \<Rightarrow> 'w result \<Rightarrow> NetworkValue result" where
  "from_network E serialized = rbind serialized (\<lambda>w.
     case deserialize E w of None \<Rightarrow> Inl (Eyre ''Failed to parse value'') | Some v \<Rightarrow> Inr v)"

definition vec_to_network :: "('w, 'g) Env \<Rightarrow> NetworkValue list \<Rightarrow> 'w" where
  "vec_to_network E vs = serialize_vec E vs"

definition vec_from_network :: "('w, 'g) Env \<Rightarrow> 'w result \<Rightarrow> NetworkValue list result" where
  "vec_from_network E serialized = rbind serialized (\<lambda>w.
     case deserialize_vec E w of None \<Rightarrow> Inl (Eyre ''Failed to parse value'') | Some v \<Rightarrow> Inr v)"

definition value_from_vec16 :: "u16 list \<Rightarrow> NetworkValue" where
  "value_from_vec16 v = VecRing16 v"

definition try_into_vec16 :: "NetworkValue \<Rightarrow> u16 list result" where
  "try_into_vec16 v = (case v of VecRing16 x \<Rightarrow> Inr x
     | _ \<Rightarrow> Inl (Eyre ''Could not convert Network Value into Vec<RingElement<u16>>''))"

lemma network_roundtrip [net_simps]:
  "codec_ok E \<Longrightarrow> from_network E (Inr (to_network E v)) = Inr v"
  "codec_ok E \<Longrightarrow> vec_from_network E (Inr (vec_to_network E vs)) = Inr vs"
  by (simp_all add: codec_ok_def from_network_def to_network_def vec_from_network_def vec_to_network_def)

section \<open>Shared randomness\<close>

record 'g Prf =
  my_prf :: 'g
  prev_prf :: 'g

definition prf_new :: "('w, 'g) Env \<Rightarrow> u8 list \<Rightarrow> u8 list \<Rightarrow> 'g Prf" where
  "prf_new E my_key next_key = \<lparr>my_prf = from_seed E my_key, prev_prf = from_seed E next_key\<rparr>"

definition gen_my :: "('g \<Rightarrow> 't \<times> 'g) \<Rightarrow> 'g Prf \<Rightarrow> 't \<times> 'g Prf" where
  "gen_my gen prf = (let (x, g) = gen (my_prf prf) in (x, prf\<lparr>my_prf := g\<rparr>))"

definition gen_prev :: "('g \<Rightarrow> 't \<times> 'g) \<Rightarrow> 'g Prf \<Rightarrow> 't \<times> 'g Prf" where
  "gen_prev gen prf = (let (x, g) = gen (prev_prf prf) in (x, prf\<lparr>prev_prf := g\<rparr>))"

definition gen_rands :: "('g \<Rightarrow> 't \<times> 'g) \<Rightarrow> 'g Prf \<Rightarrow> ('t \<times> 't) \<times> 'g Prf" where
  "gen_rands gen prf =
     (let (a, prf) = gen_my gen prf; (b, prf) = gen_prev gen prf in ((a, b), prf))"

definition gen_zero_share :: "'t IntRing2k \<Rightarrow> ('g \<Rightarrow> 't \<times> 'g) \<Rightarrow> 'g Prf \<Rightarrow> 't \<times> 'g Prf" where
  "gen_zero_share R gen prf = (let ((a, b), prf) = gen_rands gen prf in (re_sub R a b, prf))"

definition gen_binary_zero_share :: "'t IntRing2k \<Rightarrow> ('g \<Rightarrow> 't \<times> 'g) \<Rightarrow> 'g Prf \<Rightarrow> 't \<times> 'g Prf" where
  "gen_binary_zero_share R gen prf = (let ((a, b), prf) = gen_rands gen prf in (re_xor R a b, prf))"

section \<open>Sessions\<close>

type_synonym RoleAssignment = "(Role \<times> Identity) list"

record BootSession =
  session_id :: u64
  role_assignments :: RoleAssignment
  own_identity :: Identity

record 'g Session =
  boot_session :: BootSession
  prf_setup :: "'g Prf"

definition own_role :: "BootSession \<Rightarrow> Role result" where
  "own_role b =
     (let role = map fst (filter (\<lambda>(r, i). i = own_identity b) (role_assignments b)) in
      if length role \<noteq> 1
      then Inl (Eyre ''Couldn't find exact match in role assignment hashmap to retrieve own role'')
      else Inr (role ! 0))"

definition identity :: "BootSession \<Rightarrow> Role \<Rightarrow> Identity result" where
  "identity b role =
     (case map_of (role_assignments b) role of
        Some i \<Rightarrow> Inr i
      | None \<Rightarrow> Inl (Eyre ''Couldn't find role in role assignment map''))"

definition prev_identity :: "BootSession \<Rightarrow> Identity result" where
  "prev_identity b = rbind (own_role b) (\<lambda>r.
     let prev_role = role_prev r (of_nat (length (role_assignments b))) in
     case map_of (role_assignments b) prev_role of
        Some i \<Rightarrow> Inr i
      | None \<Rightarrow> Inl (Eyre ''Couldn't find role in role assignment map for prev_identity''))"

definition next_identity :: "BootSession \<Rightarrow> Identity result" where
  "next_identity b = rbind (own_role b) (\<lambda>r.
     rbind (role_next r (of_nat (length (role_assignments b)))) (\<lambda>next_role.
     case map_of (role_assignments b) next_role of
        Some i \<Rightarrow> Inr i
      | None \<Rightarrow> Inl (Eyre ''Couldn't find role in role assignment map for next_identity'')))"

section \<open>Programs over a session\<close>

text \<open>
  An \<open>async\<close> function over \<open>&mut Session\<close>: it returns its value and the session, or the error that
  a \<open>?\<close> passes to the caller.
\<close>

type_synonym ('w, 'g, 'a) async = "'g Session \<Rightarrow> ('w, ('a \<times> 'g Session) result) proc"

definition aret :: "'a \<Rightarrow> ('w, 'g, 'a) async" where
  "aret x = (\<lambda>s. Ret (Inr (x, s)))"

definition abind :: "('w, 'g, 'a) async \<Rightarrow> ('a \<Rightarrow> ('w, 'g, 'b) async) \<Rightarrow> ('w, 'g, 'b) async" where
  "abind m f = (\<lambda>s. pbind (m s) (\<lambda>r. case r of Inl e \<Rightarrow> Ret (Inl e) | Inr (x, s') \<Rightarrow> f x s'))"

definition atry :: "'a result \<Rightarrow> ('w, 'g, 'a) async" where
  "atry r = (\<lambda>s. Ret (rbind r (\<lambda>x. Inr (x, s))))"

definition aboot :: "(BootSession \<Rightarrow> 'a result) \<Rightarrow> ('w, 'g, 'a) async" where
  "aboot f = (\<lambda>s. Ret (rbind (f (boot_session s)) (\<lambda>x. Inr (x, s))))"

definition aprf :: "('g Prf \<Rightarrow> 'a \<times> 'g Prf) \<Rightarrow> ('w, 'g, 'a) async" where
  "aprf f = (\<lambda>s. let (x, prf) = f (prf_setup s) in Ret (Inr (x, s\<lparr>prf_setup := prf\<rparr>)))"

definition asend :: "'w \<Rightarrow> Identity \<Rightarrow> ('w, 'g, unit) async" where
  "asend w receiver = (\<lambda>s. Snd receiver w (\<lambda>r. Ret (rbind r (\<lambda>x. Inr (x, s)))))"

definition areceive :: "Identity \<Rightarrow> ('w, 'g, 'w result) async" where
  "areceive sender = (\<lambda>s. Rcv sender (\<lambda>r. Ret (Inr (r, s))))"

fun amap :: "('a \<Rightarrow> ('w, 'g, 'b) async) \<Rightarrow> 'a list \<Rightarrow> ('w, 'g, 'b list) async" where
  "amap f [] = aret []"
| "amap f (x # xs) = abind (f x) (\<lambda>y. abind (amap f xs) (\<lambda>ys. aret (y # ys)))"

lemma abind_aret [net_simps]: "abind (aret x) f = f x"
  by (simp add: abind_def aret_def fun_eq_iff)

lemma abind_atry [net_simps]: "abind (atry (Inr x)) f = f x"
  by (simp add: abind_def atry_def fun_eq_iff)

lemma abind_assoc: "abind (abind m f) g = abind m (\<lambda>x. abind (f x) g)"
proof -
  have "pbind (case r of Inl e \<Rightarrow> Ret (Inl e) | Inr (x, s) \<Rightarrow> f x s)
          (\<lambda>r. case r of Inl e \<Rightarrow> Ret (Inl e) | Inr (x, s') \<Rightarrow> g x s')
      = (case r of Inl e \<Rightarrow> Ret (Inl e)
         | Inr (x, s) \<Rightarrow> pbind (f x s) (\<lambda>r. case r of Inl e \<Rightarrow> Ret (Inl e) | Inr (x, s') \<Rightarrow> g x s'))" for r
    by (auto split: sum.split)
  then show ?thesis by (simp add: abind_def pbind_assoc)
qed

section \<open>Setup of the shared keys\<close>

definition setup_replicated_prf ::
    "('w, 'g) Env \<Rightarrow> BootSession \<Rightarrow> u8 list \<Rightarrow> ('w, 'g Prf result) proc" where
  "setup_replicated_prf E session my_seed =
     (case rbind (own_role session) (\<lambda>r. role_next r 3) of Inl e \<Rightarrow> Ret (Inl e) | Inr next_role \<Rightarrow>
      case rbind (own_role session) (\<lambda>r. Inr (role_prev r 3)) of Inl e \<Rightarrow> Ret (Inl e) | Inr prev_role \<Rightarrow>
      case identity session next_role of Inl e \<Rightarrow> Ret (Inl e) | Inr next_party \<Rightarrow>
      Snd next_party (to_network E (PrfKey my_seed)) (\<lambda>sent.
        case sent of Inl e \<Rightarrow> Ret (Inl e) | Inr _ \<Rightarrow>
        case identity session prev_role of Inl e \<Rightarrow> Ret (Inl e) | Inr prev_party \<Rightarrow>
        Rcv prev_party (\<lambda>serialized_other_seed.
          case from_network E serialized_other_seed of
            Inr (PrfKey other_seed) \<Rightarrow> Ret (Inr (prf_new E my_seed other_seed))
          | _ \<Rightarrow> Ret (Inl (Eyre ''Could not deserialize PrfKey'')))))"

section \<open>Three parties\<close>

text \<open>The sessions of one run: the roles are assigned in order, and party \<open>p\<close> is \<open>ident p\<close>.\<close>

definition boot_of :: "(PartyID \<Rightarrow> Identity) \<Rightarrow> u64 \<Rightarrow> PartyID \<Rightarrow> BootSession" where
  "boot_of ident sid p =
     \<lparr>session_id = sid,
      role_assignments = [(role_new 0, ident ID0), (role_new 1, ident ID1), (role_new 2, ident ID2)],
      own_identity = ident p\<rparr>"

definition idents :: "(PartyID \<Rightarrow> Identity) \<Rightarrow> Identity list" where
  "idents ident = [ident ID0, ident ID1, ident ID2]"

abbreviation party_role :: "PartyID \<Rightarrow> Role" where
  "party_role p \<equiv> role_new (usize_from_party p)"

text \<open>The generators are shared: what a party draws from its own, its successor draws as well.\<close>

definition synced :: "(PartyID \<Rightarrow> Identity) \<Rightarrow> u64 \<Rightarrow> (PartyID \<Rightarrow> 'g Session) \<Rightarrow> bool" where
  "synced ident sid S \<longleftrightarrow>
     (\<forall>p. boot_session (S p) = boot_of ident sid p \<and>
          prev_prf (prf_setup (S p)) = my_prf (prf_setup (S (prev_id p))))"

lemma roles_distinct [simp]:
  "role_new 0 \<noteq> role_new 1" "role_new 0 \<noteq> role_new 2" "role_new 1 \<noteq> role_new 2"
  "role_new 1 \<noteq> role_new 0" "role_new 2 \<noteq> role_new 0" "role_new 2 \<noteq> role_new 1"
  by (simp_all add: role_new_def)

lemma inj_ident: "inj ident \<Longrightarrow> ident p = ident q \<longleftrightarrow> p = q"
  by (simp add: inj_eq)

lemma role_new_Suc_0: "role_new (Suc 0) = role_new 1"
  by simp

lemma own_role_boot: "inj ident \<Longrightarrow> own_role (boot_of ident sid p) = Inr (party_role p)"
  by (cases p) (simp_all add: own_role_def boot_of_def inj_ident)

lemma role_neighbours:
  "role_next (party_role p) 3 = Inr (party_role (next_id p))"
  "role_prev (party_role p) 3 = party_role (prev_id p)"
  by (cases p; simp)+

lemma identity_boot: "identity (boot_of ident sid p) (party_role q) = Inr (ident q)"
  by (cases q) (simp_all add: identity_def boot_of_def role_new_def)

lemma next_identity_boot: "inj ident \<Longrightarrow> next_identity (boot_of ident sid p) = Inr (ident (next_id p))"
proof -
  assume "inj ident"
  moreover have "map_of (role_assignments (boot_of ident sid p)) (party_role q) = Some (ident q)" for q
    by (cases q) (simp_all add: boot_of_def role_new_def)
  moreover have "of_nat (length (role_assignments (boot_of ident sid p))) = (3 :: u8)"
    by (simp add: boot_of_def)
  ultimately show ?thesis by (simp add: next_identity_def own_role_boot role_neighbours)
qed

lemma prev_identity_boot: "inj ident \<Longrightarrow> prev_identity (boot_of ident sid p) = Inr (ident (prev_id p))"
proof -
  assume "inj ident"
  moreover have "map_of (role_assignments (boot_of ident sid p)) (party_role q) = Some (ident q)" for q
    by (cases q) (simp_all add: boot_of_def role_new_def)
  moreover have "of_nat (length (role_assignments (boot_of ident sid p))) = (3 :: u8)"
    by (simp add: boot_of_def)
  ultimately show ?thesis by (simp add: prev_identity_def own_role_boot role_neighbours Let_def)
qed

lemmas boot_simps = own_role_boot role_neighbours identity_boot next_identity_boot prev_identity_boot

abbreviation quiet :: "(PartyID \<Rightarrow> Identity) \<Rightarrow> 'w LocalNetworkingStore" where
  "quiet ident \<equiv> from_host_ids (idents ident)"

lemma quiet_channel:
  "inj ident \<Longrightarrow> p \<noteq> q \<Longrightarrow> quiet ident (ident p, ident q) = Some []"
  by (cases p; cases q) (simp_all add: from_host_ids_def idents_def inj_ident)

section \<open>Joint programs\<close>

text \<open>
  \<open>achieves ident sid M Q\<close>: from any sessions with shared generators and a quiet network, the three
  programs run to the end without an error, leave the network quiet and the generators shared, and
  the three results satisfy \<open>Q\<close>.
\<close>

definition achieves ::
    "(PartyID \<Rightarrow> Identity) \<Rightarrow> u64 \<Rightarrow> (PartyID \<Rightarrow> ('w, 'g, 'a) async) \<Rightarrow> ((PartyID \<Rightarrow> 'a) \<Rightarrow> bool) \<Rightarrow> bool" where
  "achieves ident sid M Q \<longleftrightarrow> (\<forall>S. synced ident sid S \<longrightarrow>
     (\<exists>A S'. (step local_networking ident)\<^sup>*\<^sup>* (\<lambda>p. M p (S p), quiet ident)
              (all_returned (\<lambda>p. Inr (A p, S' p)) (quiet ident)) \<and>
            synced ident sid S' \<and> Q A))"

lemma achieves_ret: "Q X \<Longrightarrow> achieves ident sid (\<lambda>p. aret (X p)) Q"
  unfolding achieves_def aret_def all_returned_def by blast

lemma achieves_conseq: "achieves ident sid M P \<Longrightarrow> (\<And>A. P A \<Longrightarrow> Q A) \<Longrightarrow> achieves ident sid M Q"
  unfolding achieves_def by blast

lemma achieves_cong:
  fixes M N :: "PartyID \<Rightarrow> ('w, 'g, 'a) async"
  assumes "achieves ident sid N Q" "\<And>p s. boot_session s = boot_of ident sid p \<Longrightarrow> M p s = N p s"
  shows "achieves ident sid M Q"
proof -
  have "(\<lambda>p. M p (S p)) = (\<lambda>p. N p (S p))" if "synced ident sid S" for S
    using that assms(2) by (simp add: synced_def)
  with assms(1) show ?thesis by (simp add: achieves_def)
qed

lemma achieves_bind:
  fixes M :: "PartyID \<Rightarrow> ('w, 'g, 'a) async"
  assumes "achieves ident sid M P" "\<And>A. P A \<Longrightarrow> achieves ident sid (\<lambda>p. F p (A p)) Q"
  shows "achieves ident sid (\<lambda>p. abind (M p) (F p)) Q"
  unfolding achieves_def
proof (intro allI impI)
  fix S :: "PartyID \<Rightarrow> 'g Session" assume "synced ident sid S"
  then obtain A S1 where 1: "(step local_networking ident)\<^sup>*\<^sup>* (\<lambda>p. M p (S p), quiet ident)
      (all_returned (\<lambda>p. Inr (A p, S1 p)) (quiet ident))" "synced ident sid S1" "P A"
    using assms(1) unfolding achieves_def by blast
  then obtain B S2 where 2: "(step local_networking ident)\<^sup>*\<^sup>* (\<lambda>p. F p (A p) (S1 p), quiet ident)
      (all_returned (\<lambda>p. Inr (B p, S2 p)) (quiet ident))" "synced ident sid S2" "Q B"
    using assms(2) unfolding achieves_def by blast
  have "(step local_networking ident)\<^sup>*\<^sup>* (\<lambda>p. abind (M p) (F p) (S p), quiet ident)
      (all_returned (\<lambda>p. Inr (B p, S2 p)) (quiet ident))"
    unfolding abind_def by (rule run_pbind [OF 1(1)]) (simp add: 2(1))
  then show "\<exists>A S'. (step local_networking ident)\<^sup>*\<^sup>* (\<lambda>p. abind (M p) (F p) (S p), quiet ident)
      (all_returned (\<lambda>p. Inr (A p, S' p)) (quiet ident)) \<and> synced ident sid S' \<and> Q A"
    using 2(2,3) by blast
qed

lemma achieves_local:
  fixes M :: "PartyID \<Rightarrow> ('w, 'g, 'a) async"
  assumes "\<And>S. synced ident sid S \<Longrightarrow>
    \<exists>A S'. (\<forall>p. M p (S p) = Ret (Inr (A p, S' p))) \<and> synced ident sid S' \<and> Q A"
  shows "achieves ident sid M Q"
  unfolding achieves_def
proof (intro allI impI)
  fix S :: "PartyID \<Rightarrow> 'g Session" assume "synced ident sid S"
  with assms obtain A S' where "\<forall>p. M p (S p) = Ret (Inr (A p, S' p))" "synced ident sid S'" "Q A" by blast
  moreover from this(1) have "(step local_networking ident)\<^sup>*\<^sup>* (\<lambda>p. M p (S p), quiet ident)
      (all_returned (\<lambda>p. Inr (A p, S' p)) (quiet ident))"
    by (simp add: all_returned_def)
  ultimately show "\<exists>A S'. (step local_networking ident)\<^sup>*\<^sup>* (\<lambda>p. M p (S p), quiet ident)
      (all_returned (\<lambda>p. Inr (A p, S' p)) (quiet ident)) \<and> synced ident sid S' \<and> Q A"
    by blast
qed

lemma achieves_boot:
  fixes f :: "PartyID \<Rightarrow> BootSession \<Rightarrow> 'a result"
  assumes "\<And>p. f p (boot_of ident sid p) = Inr (X p)" "Q X"
  shows "achieves ident sid (\<lambda>p. aboot (f p) :: ('w, 'g, 'a) async) Q"
proof (rule achieves_local)
  fix S :: "PartyID \<Rightarrow> 'g Session" assume S: "synced ident sid S"
  then have "\<forall>p. aboot (f p) (S p) = Ret (Inr (X p, S p))" using assms(1) by (simp add: aboot_def synced_def)
  with S assms(2) show "\<exists>A S'. (\<forall>p. aboot (f p) (S p) = Ret (Inr (A p, S' p))) \<and> synced ident sid S' \<and> Q A"
    by blast
qed

lemma achieves_try: "(\<And>p. f p = Inr (X p)) \<Longrightarrow> Q X \<Longrightarrow> achieves ident sid (\<lambda>p. atry (f p)) Q"
proof -
  assume "\<And>p. f p = Inr (X p)" "Q X"
  then have eq: "(\<lambda>p. atry (f p)) = (\<lambda>p. aret (X p))" by (simp add: atry_def aret_def fun_eq_iff)
  show ?thesis unfolding eq by (rule achieves_ret) fact
qed

text \<open>A draw from both generators gives every party a value and its predecessor's value.\<close>

lemma achieves_gen_rands:
  fixes gen :: "'g \<Rightarrow> 't \<times> 'g"
  shows "achieves ident sid (\<lambda>p. aprf (gen_rands gen)) (\<lambda>A. \<exists>r. \<forall>p. A p = (r p, r (prev_id p)))"
proof (rule achieves_local)
  fix S :: "PartyID \<Rightarrow> 'g Session" assume S: "synced ident sid S"
  let ?my = "\<lambda>p. gen (my_prf (prf_setup (S p)))" and ?prev = "\<lambda>p. gen (prev_prf (prf_setup (S p)))"
  let ?S = "\<lambda>p. (S p)\<lparr>prf_setup := \<lparr>my_prf = snd (?my p), prev_prf = snd (?prev p)\<rparr>\<rparr>"
  have "aprf (gen_rands gen) (S p) = Ret (Inr ((fst (?my p), fst (?my (prev_id p))), ?S p))" for p
    using S by (auto simp: aprf_def gen_rands_def gen_my_def gen_prev_def synced_def split: prod.split)
  moreover have "synced ident sid ?S" using S by (simp add: synced_def)
  ultimately show "\<exists>A S'. (\<forall>p. aprf (gen_rands gen) (S p) = Ret (Inr (A p, S' p))) \<and> synced ident sid S' \<and>
      (\<exists>r. \<forall>p. A p = (r p, r (prev_id p)))"
    by (intro exI [of _ "\<lambda>p. (fst (?my p), fst (?my (prev_id p)))"] exI [of _ ?S]) auto
qed

lemma aprf_map: "aprf (\<lambda>prf. let (x, prf) = f prf in (g x, prf)) = abind (aprf f) (\<lambda>x. aret (g x))"
  by (auto simp: aprf_def abind_def aret_def fun_eq_iff split: prod.split)

lemma achieves_gen_zero_share:
  "achieves ident sid (\<lambda>p. aprf (gen_zero_share R gen)) (\<lambda>A. \<exists>r. \<forall>p. A p = re_sub R (r p) (r (prev_id p)))"
proof -
  have eq: "gen_zero_share R gen = (\<lambda>prf. let (x, prf) = gen_rands gen prf in (case x of (a, b) \<Rightarrow> re_sub R a b, prf))"
    by (simp add: gen_zero_share_def fun_eq_iff split: prod.split)
  show ?thesis
    unfolding eq aprf_map by (rule achieves_bind [OF achieves_gen_rands], rule achieves_ret) auto
qed

lemma achieves_gen_binary_zero_share:
  "achieves ident sid (\<lambda>p. aprf (gen_binary_zero_share R gen)) (\<lambda>A. \<exists>r. \<forall>p. A p = re_xor R (r p) (r (prev_id p)))"
proof -
  have eq: "gen_binary_zero_share R gen = (\<lambda>prf. let (x, prf) = gen_rands gen prf in (case x of (a, b) \<Rightarrow> re_xor R a b, prf))"
    by (simp add: gen_binary_zero_share_def fun_eq_iff split: prod.split)
  show ?thesis
    unfolding eq aprf_map by (rule achieves_bind [OF achieves_gen_rands], rule achieves_ret) auto
qed

text \<open>A loop over lists of equal length.\<close>

lemma achieves_amap:
  assumes "\<And>p. length (xs p) = n"
    "\<And>i. i < n \<Longrightarrow> achieves ident sid (\<lambda>p. f p (xs p ! i)) (P i)"
  shows "achieves ident sid (\<lambda>p. amap (f p) (xs p))
    (\<lambda>A. (\<forall>p. length (A p) = n) \<and> (\<forall>i < n. P i (\<lambda>p. A p ! i)))"
  using assms
proof (induction n arbitrary: xs P)
  case 0
  then show ?case by (auto intro: achieves_ret)
next
  case (Suc n)
  have xs: "xs p = hd (xs p) # tl (xs p)" "xs p ! 0 = hd (xs p)" for p
    using Suc.prems(1) [of p] by (cases "xs p"; simp)+
  have "achieves ident sid (\<lambda>p. abind (f p (hd (xs p))) (\<lambda>y. abind (amap (f p) (tl (xs p))) (\<lambda>ys. aret (y # ys))))
     (\<lambda>A. (\<forall>p. length (A p) = Suc n) \<and> (\<forall>i < Suc n. P i (\<lambda>p. A p ! i)))"
  proof (rule achieves_bind)
    show "achieves ident sid (\<lambda>p. f p (hd (xs p))) (P 0)" using Suc.prems(2) [of 0] xs(2) by simp
  next
    fix Y assume Y: "P 0 Y"
    have "achieves ident sid (\<lambda>p. amap (f p) (tl (xs p)))
        (\<lambda>A. (\<forall>p. length (A p) = n) \<and> (\<forall>i < n. P (Suc i) (\<lambda>p. A p ! i)))"
      using Suc.prems by (intro Suc.IH) (simp_all add: nth_tl)
    then show "achieves ident sid (\<lambda>p. abind (amap (f p) (tl (xs p))) (\<lambda>ys. aret (Y p # ys)))
        (\<lambda>A. (\<forall>p. length (A p) = Suc n) \<and> (\<forall>i < Suc n. P i (\<lambda>p. A p ! i)))"
      by (rule achieves_bind) (auto intro!: achieves_ret simp: less_Suc_eq_0_disj Y)
  qed
  moreover have "(\<lambda>p. amap (f p) (xs p))
      = (\<lambda>p. abind (f p (hd (xs p))) (\<lambda>y. abind (amap (f p) (tl (xs p))) (\<lambda>ys. aret (y # ys))))"
    by (rule ext) (subst xs(1), simp only: amap.simps)
  ultimately show ?case by simp
qed

section \<open>Communication rounds\<close>

lemma run_send:
  assumes "procs p = Snd r w k" "st (ident p, r) = Some q"
    "(step local_networking ident)\<^sup>*\<^sup>* (procs(p := k (Inr ())), st((ident p, r) \<mapsto> q @ [w])) c"
  shows "(step local_networking ident)\<^sup>*\<^sup>* (procs, st) c"
proof (rule converse_rtranclp_into_rtranclp [OF _ assms(3)])
  show "step local_networking ident (procs, st) (procs(p := k (Inr ())), st((ident p, r) \<mapsto> q @ [w]))"
    by (rule step_party [of _ _ p]) (simp add: assms(1,2) party_step_def net_simps local_send_def)
qed

lemma run_receive:
  assumes "procs p = Rcv s k" "st (s, ident p) = Some (m # q)"
    "(step local_networking ident)\<^sup>*\<^sup>* (procs(p := k (Inr m)), st((s, ident p) \<mapsto> q)) c"
  shows "(step local_networking ident)\<^sup>*\<^sup>* (procs, st) c"
proof (rule converse_rtranclp_into_rtranclp [OF _ assms(3)])
  show "step local_networking ident (procs, st) (procs(p := k (Inr m)), st((s, ident p) \<mapsto> q))"
    by (rule step_party [of _ _ p]) (simp add: assms(1,2) party_step_def net_simps local_receive_def)
qed

lemma run_done: "c = d \<Longrightarrow> (step N ident)\<^sup>*\<^sup>* c d"
  by simp

text \<open>Every party sends to its successor and receives from its predecessor.\<close>

lemma run_exchange:
  assumes ident: "inj ident"
    and rounds: "\<And>p. \<exists>K. procs p = Snd (ident (next_id p)) (w p) K \<and> K (Inr ()) = Rcv (ident (prev_id p)) (L p)"
  shows "(step local_networking ident)\<^sup>*\<^sup>* (procs, quiet ident) (\<lambda>p. L p (Inr (w (prev_id p))), quiet ident)"
proof -
  from rounds obtain K where procs: "procs p = Snd (ident (next_id p)) (w p) (K p)"
    "K p (Inr ()) = Rcv (ident (prev_id p)) (L p)" for p by metis
  note ids = inj_ident [OF ident]
  note ch = quiet_channel [OF ident]
  show ?thesis
    apply (rule run_send [of _ ID0], simp add: procs, simp add: ch)
    apply (rule run_send [of _ ID1], simp add: procs, simp add: ch ids)
    apply (rule run_send [of _ ID2], simp add: procs, simp add: ch ids)
    apply (rule run_receive [of _ ID0], simp add: procs, simp add: ids)
    apply (rule run_receive [of _ ID1], simp add: procs, simp add: ids)
    apply (rule run_receive [of _ ID2], simp add: procs, simp add: ids)
    apply (rule run_done, rule prod_eqI; rule ext)
     apply (rename_tac p, case_tac p; simp)
    apply (auto simp: ch ids)
    done
qed

lemma achieves_exchange:
  fixes w :: "PartyID \<Rightarrow> 'w"
  assumes ident: "inj ident" and Q: "Q (\<lambda>p. Inr (w (prev_id p)))"
  shows "achieves ident sid
    (\<lambda>p. abind (asend (w p) (ident (next_id p))) (\<lambda>_. areceive (ident (prev_id p)))
      :: ('w, 'g, 'w result) async) Q"
  unfolding achieves_def
proof (intro allI impI)
  fix S :: "PartyID \<Rightarrow> 'g Session" assume S: "synced ident sid S"
  let ?M = "\<lambda>p. abind (asend (w p) (ident (next_id p))) (\<lambda>_. areceive (ident (prev_id p)))
    :: ('w, 'g, 'w result) async"
  have "(step local_networking ident)\<^sup>*\<^sup>* (\<lambda>p. ?M p (S p), quiet ident)
      (\<lambda>p. Ret (Inr (Inr (w (prev_id p)), S p)), quiet ident)"
    by (rule run_exchange [OF ident]) (simp_all add: abind_def asend_def areceive_def)
  with S Q show "\<exists>A S'. (step local_networking ident)\<^sup>*\<^sup>* (\<lambda>p. ?M p (S p), quiet ident)
      (all_returned (\<lambda>p. Inr (A p, S' p)) (quiet ident)) \<and> synced ident sid S' \<and> Q A"
    unfolding all_returned_def
    by (intro exI [of _ "\<lambda>p. Inr (w (prev_id p))"] exI [of _ S] conjI)
qed

text \<open>Sequencing rules for the lookups and the communication round that the protocols share.\<close>

lemma achieves_boot_bind:
  assumes "\<And>p. f p (boot_of ident sid p) = Inr (X p)" "achieves ident sid (\<lambda>p. F p (X p)) Q"
  shows "achieves ident sid (\<lambda>p. abind (aboot (f p)) (F p)) Q"
  using assms by (intro achieves_bind [OF achieves_boot [of f _ _ X "\<lambda>A. A = X"]]) simp_all

lemma achieves_try_bind:
  assumes "\<And>p. f p = Inr (X p)" "achieves ident sid (\<lambda>p. F p (X p)) Q"
  shows "achieves ident sid (\<lambda>p. abind (atry (f p)) (F p)) Q"
  using assms by (intro achieves_bind [OF achieves_try [of f X "\<lambda>A. A = X"]]) simp_all

lemma achieves_exchange_bind:
  assumes "inj ident" "achieves ident sid (\<lambda>p. F p (Inr (w (prev_id p)))) Q"
  shows "achieves ident sid (\<lambda>p. abind (asend (w p) (ident (next_id p)))
    (\<lambda>_. abind (areceive (ident (prev_id p))) (F p))) Q"
  unfolding abind_assoc [symmetric]
  using assms by (intro achieves_bind [OF achieves_exchange [of ident "\<lambda>A. A = (\<lambda>p. Inr (w (prev_id p)))"]]) simp_all

lemma achieves_round_bind:
  assumes ident: "inj ident" and "achieves ident sid (\<lambda>p. F p (Inr (w (prev_id p)))) Q"
  shows "achieves ident sid (\<lambda>p. abind (asend (w p) (ident (next_id p)))
    (\<lambda>_. abind (aboot prev_identity) (\<lambda>q. abind (areceive q) (F p)))) Q"
  by (rule achieves_cong [OF achieves_exchange_bind [of ident sid F w Q, OF assms]])
    (simp add: abind_def asend_def areceive_def aboot_def prev_identity_boot [OF ident]
      fun_eq_iff rbind_case split: sum.split)

text \<open>
  What a protocol guarantees to its callers: from synchronised sessions every interleaving ends,
  at every party without an error, with the sessions synchronised and no message left over.
\<close>

definition completes ::
    "(PartyID \<Rightarrow> Identity) \<Rightarrow> u64 \<Rightarrow> (PartyID \<Rightarrow> ('w, 'g, 'a) async) \<Rightarrow> ((PartyID \<Rightarrow> 'a) \<Rightarrow> bool) \<Rightarrow> bool" where
  "completes ident sid M Q \<longleftrightarrow> (\<forall>S. synced ident sid S \<longrightarrow>
     (\<exists>A S'. ends_with ident (\<lambda>p. M p (S p), from_host_ids (idents ident)) (\<lambda>p. Inr (A p, S' p))
              (from_host_ids (idents ident)) \<and>
            synced ident sid S' \<and> Q A))"

lemma achieves_completes: "inj ident \<Longrightarrow> achieves ident sid M Q \<Longrightarrow> completes ident sid M Q"
  unfolding achieves_def completes_def by (meson ends_withI)

section \<open>Setup establishes the shared generators\<close>

lemma setup_run:
  assumes "inj ident" "codec_ok E"
  shows "(step local_networking ident)\<^sup>*\<^sup>*
     (\<lambda>p. setup_replicated_prf E (boot_of ident sid p) (seed p), quiet ident)
     (all_returned (\<lambda>p. Inr (prf_new E (seed p) (seed (prev_id p)))) (quiet ident))"
proof -
  let ?L = "\<lambda>p r. case from_network E r of Inr (PrfKey other_seed) \<Rightarrow> Ret (Inr (prf_new E (seed p) other_seed))
    | _ \<Rightarrow> Ret (Inl (Eyre ''Could not deserialize PrfKey''))"
  have "(step local_networking ident)\<^sup>*\<^sup>*
     (\<lambda>p. setup_replicated_prf E (boot_of ident sid p) (seed p), quiet ident)
     (\<lambda>p. ?L p (Inr (to_network E (PrfKey (seed (prev_id p))))), quiet ident)"
    by (rule run_exchange [OF assms(1)])
      (simp add: setup_replicated_prf_def boot_simps assms(1))
  then show ?thesis by (simp add: all_returned_def network_roundtrip [OF assms(2)])
qed

text \<open>
  C26: Setup of the shared keys. For three parties with distinct identities over the local network and
  a serialiser that the deserialiser inverts, \<open>setup_replicated_prf\<close> completes at every party without
  an error, whatever the interleaving, and leaves no message behind; the sessions it yields are
  synchronised: every party's second generator is seeded like its predecessor's first one.
\<close>

theorem setup_replicated_prf_synchronises:
  assumes "inj ident" "codec_ok E"
  shows "\<exists>prf. ends_with ident
     (\<lambda>p. setup_replicated_prf E (boot_of ident sid p) (seed p), from_host_ids (idents ident))
     (\<lambda>p. Inr (prf p)) (from_host_ids (idents ident)) \<and>
     synced ident sid (\<lambda>p. \<lparr>boot_session = boot_of ident sid p, prf_setup = prf p\<rparr>)"
  using ends_withI [OF assms(1) setup_run [OF assms, of sid seed]]
  by (intro exI [of _ "\<lambda>p. prf_new E (seed p) (seed (prev_id p))"]) (simp add: synced_def prf_new_def)

text \<open>A serialiser that satisfies the hypothesis: the message itself, and a counter as generator.\<close>

definition demo_env :: "(NetworkValue + NetworkValue list, nat) Env" where
  "demo_env = \<lparr>serialize = Inl, deserialize = (\<lambda>w. case w of Inl v \<Rightarrow> Some v | Inr _ \<Rightarrow> None),
     serialize_vec = Inr, deserialize_vec = (\<lambda>w. case w of Inr v \<Rightarrow> Some v | Inl _ \<Rightarrow> None),
     from_seed = (\<lambda>s. foldl (\<lambda>n b. 256 * n + unat b) 0 s),
     gen_u16 = (\<lambda>n. (of_nat n, n * 75 + 74)), gen_u32 = (\<lambda>n. (of_nat n, n * 75 + 74)),
     gen_u64 = (\<lambda>n. (of_nat n, n * 75 + 74))\<rparr>"

lemma demo_env_ok: "codec_ok demo_env"
  by (simp add: codec_ok_def demo_env_def)

theorem setup_replicated_prf_synchronises_witness:
  "\<exists>prf. ends_with demo_ident
     (\<lambda>p. setup_replicated_prf demo_env (boot_of demo_ident 1 p) [u8_from_party p],
        from_host_ids (idents demo_ident))
     (\<lambda>p. Inr (prf p)) (from_host_ids (idents demo_ident)) \<and>
     synced demo_ident 1 (\<lambda>p. \<lparr>boot_session = boot_of demo_ident 1 p, prf_setup = prf p\<rparr>)"
  by (rule setup_replicated_prf_synchronises [OF inj_demo_ident demo_env_ok])

end
