(* ===== verification/Binary.thy ===== *)
theory Binary
  imports BitTranspose Session
begin

text \<open>
  The binary protocols of the CPU parties (\<open>iris-mpc-cpu/src/protocol/binary.rs\<close>): conjunction of
  shared words, a three-operand adder on bit planes, injection of shared bits into \<open>u16\<close> by an
  oblivious transfer, lifting from \<open>u16\<close> to \<open>u32\<close>, extraction of the most significant bit and the
  opening of a bit. The debug assertions of the source are off, as in the release profile.
\<close>

section \<open>Bit planes\<close>

definition transposed_padded_len :: "nat \<Rightarrow> nat" where
  "transposed_padded_len len = (let padded_len = (len + 63) div 64 in padded_len * 64)"

definition a2b_pre :: "'t IntRing2k \<Rightarrow> BootSession \<Rightarrow> 't Share \<Rightarrow> ('t Share \<times> 't Share \<times> 't Share) result" where
  "a2b_pre R session x =
     (let (a, b) = get_ab x; x1 = share_zero R; x2 = share_zero R; x3 = share_zero R in
      rbind (own_role session) (\<lambda>role.
        if role_index role = 0 then Inr (x1\<lparr>sh_a := a\<rparr>, x2, x3\<lparr>sh_b := b\<rparr>)
        else if role_index role = 1 then Inr (x1\<lparr>sh_b := b\<rparr>, x2\<lparr>sh_a := a\<rparr>, x3)
        else if role_index role = 2 then Inr (x1, x2\<lparr>sh_b := b\<rparr>, x3\<lparr>sh_a := a\<rparr>)
        else Inl (Eyre ''Cannot deal with roles that have index outside of the set [0, 1, 2]'')))"

definition transposed_pack_xor_assign :: "'t IntRing2k \<Rightarrow> 't VecShare list \<Rightarrow> 't VecShare list \<Rightarrow> 't VecShare list" where
  "transposed_pack_xor_assign R = zip_assign (vs_xor_assign R)"

definition transposed_pack_xor :: "'t IntRing2k \<Rightarrow> 't VecShare list \<Rightarrow> 't VecShare list \<Rightarrow> 't VecShare list" where
  "transposed_pack_xor R x1 x2 = map2 (vs_xor R) x1 x2"

definition and_many_send ::
    "('w, 'g) Env \<Rightarrow> u64 VecShare \<Rightarrow> u64 VecShare \<Rightarrow> ('w, 'g, u64 list) async" where
  "and_many_send E a b =
     (if vs_len a \<noteq> vs_len b then atry (Inl (Eyre ''InvalidSize in and_many_send''))
      else
        abind (amap (\<lambda>(a', b').
            abind (aprf (gen_binary_zero_share word_ring (gen_u64 E))) (\<lambda>rand.
            aret (re_xor word_ring (share_and_local word_ring a' b') rand))) (zip a b)) (\<lambda>shares_a.
        abind (aboot next_identity) (\<lambda>next_party.
        abind (asend (to_network E (VecRing64 shares_a)) next_party) (\<lambda>_.
        aret shares_a))))"

definition and_many_receive :: "('w, 'g) Env \<Rightarrow> ('w, 'g, u64 list) async" where
  "and_many_receive E =
     abind (aboot prev_identity) (\<lambda>prev_party.
     abind (areceive prev_party) (\<lambda>serialized_other_share.
     atry (case from_network E serialized_other_share of
             Inr (VecRing64 message) \<Rightarrow> Inr message
           | _ \<Rightarrow> Inl (Eyre ''Error in receiving in and_many operation''))))"

definition and_many :: "('w, 'g) Env \<Rightarrow> u64 VecShare \<Rightarrow> u64 VecShare \<Rightarrow> ('w, 'g, u64 VecShare) async" where
  "and_many E a b =
     abind (and_many_send E a b) (\<lambda>shares_a.
     abind (and_many_receive E) (\<lambda>shares_b.
     aret (from_ab shares_a shares_b)))"

fun drain_chunks :: "nat list \<Rightarrow> 't list \<Rightarrow> 't list \<Rightarrow> 't VecShare list result" where
  "drain_chunks [] shares_a shares_b = Inr []"
| "drain_chunks (l # ls) shares_a shares_b =
     (if length shares_a < l \<or> length shares_b < l then index_out_of_bounds
      else rbind (drain_chunks ls (drop l shares_a) (drop l shares_b)) (\<lambda>res.
        Inr (from_ab (take l shares_a) (take l shares_b) # res)))"

definition transposed_pack_and ::
    "('w, 'g) Env \<Rightarrow> u64 VecShare list \<Rightarrow> u64 VecShare list \<Rightarrow> ('w, 'g, u64 VecShare list) async" where
  "transposed_pack_and E x1 x2 =
     (if length x1 \<noteq> length x2 then atry (Inl (Eyre ''Inputs have different length''))
      else if map vs_len x1 \<noteq> map vs_len x2 then atry (Inl (Eyre ''VecShare lengths are not equal''))
      else
        abind (and_many_send E (vs_flatten x1) (vs_flatten x2)) (\<lambda>shares_a.
        abind (and_many_receive E) (\<lambda>shares_b.
        atry (drain_chunks (map vs_len x1) shares_a shares_b))))"

section \<open>The adder\<close>

definition expect_pop :: "'a list \<Rightarrow> ('a \<times> 'a list) result" where
  "expect_pop xs = (if xs = [] then Inl (Panic ''Enough elements present'') else Inr (last xs, butlast xs))"

fun carry_loop ::
    "('w, 'g) Env \<Rightarrow> (u64 VecShare \<times> u64 VecShare) list \<Rightarrow> u64 VecShare \<Rightarrow> ('w, 'g, u64 VecShare) async" where
  "carry_loop E [] c = aret c"
| "carry_loop E ((a', b') # ab) c =
     (let a' = vs_xor_assign word_ring a' c; b' = vs_xor_assign word_ring b' c in
      abind (and_many E a' b') (\<lambda>tmp_c. carry_loop E ab (vs_xor_assign word_ring c tmp_c)))"

definition binary_add_3_get_two_carries ::
    "('w, 'g) Env \<Rightarrow> u64 VecShare list \<Rightarrow> u64 VecShare list \<Rightarrow> u64 VecShare list \<Rightarrow> nat
       \<Rightarrow> ('w, 'g, Bit VecShare \<times> Bit VecShare) async" where
  "binary_add_3_get_two_carries E x1 x2 x3 truncate_len =
     (let x2x3 = transposed_pack_xor_assign word_ring x2 x3;
          s = transposed_pack_xor word_ring x1 x2x3;
          x1x3 = transposed_pack_xor_assign word_ring x1 x3
      in
      abind (transposed_pack_and E x1x3 x2x3) (\<lambda>c.
      let c = transposed_pack_xor_assign word_ring c x3; a = s; b = c in
      abind (atry (vec_index a 1)) (\<lambda>a1.
      abind (atry (vec_index b 0)) (\<lambda>b0.
      abind (and_many E a1 b0) (\<lambda>c.
      abind (atry (expect_pop b)) (\<lambda>(b_msb, b).
      abind (carry_loop E (zip (drop 2 a) (drop 1 b)) c) (\<lambda>c.
      abind (and_many E b_msb c) (\<lambda>res2.
      let b_msb = vs_xor_assign word_ring b_msb c;
          res1 = vs_truncate (convert_to_bits word_ring b_msb) truncate_len;
          res2 = vs_truncate (convert_to_bits word_ring res2) truncate_len
      in aret (res1, res2)))))))))"

definition binary_add_3_get_msb ::
    "('w, 'g) Env \<Rightarrow> u64 VecShare list \<Rightarrow> u64 VecShare list \<Rightarrow> u64 VecShare list
       \<Rightarrow> ('w, 'g, u64 VecShare) async" where
  "binary_add_3_get_msb E x1 x2 x3 =
     (let x2x3 = transposed_pack_xor_assign word_ring x2 x3;
          s = transposed_pack_xor word_ring x1 x2x3;
          x1x3 = transposed_pack_xor_assign word_ring x1 x3
      in
      abind (atry (expect_pop x1x3)) (\<lambda>(_, x1x3).
      abind (atry (expect_pop x2x3)) (\<lambda>(_, x2x3).
      abind (atry (expect_pop x3)) (\<lambda>(_, x3).
      abind (transposed_pack_and E x1x3 x2x3) (\<lambda>c.
      let c = transposed_pack_xor_assign word_ring c x3; a = s; b = c in
      abind (atry (vec_index a 1)) (\<lambda>a1.
      abind (atry (vec_index b 0)) (\<lambda>b0.
      abind (and_many E a1 b0) (\<lambda>c.
      abind (atry (expect_pop a)) (\<lambda>(a_msb, a).
      abind (atry (expect_pop b)) (\<lambda>(b_msb, b).
      abind (carry_loop E (zip (drop 2 a) (drop 1 b)) c) (\<lambda>c.
      let a_msb = vs_xor_assign word_ring a_msb b_msb; a_msb = vs_xor_assign word_ring a_msb c
      in aret a_msb)))))))))))"

section \<open>Bit injection\<close>

text \<open>The loops of the three roles draw from the generators; the messages are exchanged around them.\<close>

fun helper_loop ::
    "('g \<Rightarrow> u16 \<times> 'g) \<Rightarrow> Bit VecShare \<Rightarrow> 'g Prf \<Rightarrow> (u16 VecShare \<times> u16 list) \<times> 'g Prf" where
  "helper_loop gen [] prf = (([], []), prf)"
| "helper_loop gen (inp # input) prf =
     (let (c3, prf) = gen_prev gen prf;
          (w0, prf) = gen_prev gen prf;
          (w1, prf) = gen_prev gen prf;
          choice = Bit_convert (sh_a inp);
          ((shares, wc), prf) = helper_loop gen input prf
      in ((Share_new 0 c3 # shares, (if choice then w1 else w0) # wc), prf))"

definition bit_inject_ot_2round_helper :: "('w, 'g) Env \<Rightarrow> Bit VecShare \<Rightarrow> ('w, 'g, u16 VecShare) async" where
  "bit_inject_ot_2round_helper E input =
     abind (aprf (helper_loop (gen_u16 E) input)) (\<lambda>(shares, wc).
     abind (aboot next_identity) (\<lambda>next_id.
     abind (asend (to_network E (VecRing16 wc)) next_id) (\<lambda>_.
     abind (aboot next_identity) (\<lambda>next_id.
     abind (areceive next_id) (\<lambda>reply.
     abind (atry (case from_network E reply of
                    Inr (VecRing16 val) \<Rightarrow> Inr val
                  | _ \<Rightarrow> Inl (Eyre ''Could not deserialize properly in bit inject''))) (\<lambda>c1.
     aret (zip_assign (\<lambda>s c1. s\<lparr>sh_a := c1\<rparr>) shares c1)))))))"

fun receiver_loop ::
    "('g \<Rightarrow> u16 \<times> 'g) \<Rightarrow> ((Bit Share \<times> u16) \<times> (u16 \<times> u16)) list \<Rightarrow> 'g Prf
       \<Rightarrow> (u16 VecShare \<times> u16 list) \<times> 'g Prf" where
  "receiver_loop gen [] prf = (([], []), prf)"
| "receiver_loop gen (((inp, wc), (m0, m1)) # rest) prf =
     (let (c2, prf) = gen_my gen prf;
          choice = Bit_convert (sh_b inp);
          x = (if choice then re_xor word_ring wc m1 else re_xor word_ring wc m0);
          ((shares, send), prf) = receiver_loop gen rest prf
      in ((Share_new c2 x # shares, x # send), prf))"

definition expect_vec16 :: "NetworkValue \<Rightarrow> u16 list result" where
  "expect_vec16 v = (case v of VecRing16 val \<Rightarrow> Inr val
     | _ \<Rightarrow> Inl (Eyre ''Could not deserialize properly in bit inject''))"

text \<open>
  The receiving task ends early, with the error of a failed join, when the pair of messages cannot be
  decoded; the other failures are reported after both messages have been received.
\<close>

definition bit_inject_ot_2round_receiver :: "('w, 'g) Env \<Rightarrow> Bit VecShare \<Rightarrow> ('w, 'g, u16 VecShare) async" where
  "bit_inject_ot_2round_receiver E input =
     abind (aboot next_identity) (\<lambda>next_id.
     abind (aboot prev_identity) (\<lambda>prev_id.
     abind (areceive next_id) (\<lambda>reply_m0_and_m1.
     abind (atry (case vec_from_network E reply_m0_and_m1 of
                    Inr [m0, m1] \<Rightarrow> Inr (m0, m1)
                  | _ \<Rightarrow> Inl (Eyre ''task panicked''))) (\<lambda>(m0, m1).
     abind (areceive prev_id) (\<lambda>reply_wc.
     abind (atry (expect_vec16 m0)) (\<lambda>m0.
     abind (atry (expect_vec16 m1)) (\<lambda>m1.
     abind (atry (case from_network E reply_wc of
                    Inr (VecRing16 val) \<Rightarrow> Inr val
                  | _ \<Rightarrow> Inl (Eyre ''Could not deserialize properly in bit inject''))) (\<lambda>wc.
     abind (aprf (receiver_loop (gen_u16 E) (zip (zip input wc) (zip m0 m1)))) (\<lambda>(shares, send).
     abind (aboot prev_identity) (\<lambda>prev_id.
     abind (asend (to_network E (VecRing16 send)) prev_id) (\<lambda>_.
     aret shares)))))))))))"

fun sender_loop ::
    "('g \<Rightarrow> u16 \<times> 'g) \<Rightarrow> Bit VecShare \<Rightarrow> 'g Prf \<Rightarrow> (u16 VecShare \<times> u16 list \<times> u16 list) \<times> 'g Prf" where
  "sender_loop gen [] prf = (([], [], []), prf)"
| "sender_loop gen (inp # input) prf =
     (let (a, b) = get_ab inp;
          ((c3, c2), prf) = gen_rands gen prf;
          (w0, prf) = gen_my gen prf;
          (w1, prf) = gen_my gen prf;
          c = re_add word_ring c3 c2;
          x = (of_bool (Bit_convert (re_xor bit_ring a b)) :: u16);
          m0' = re_sub word_ring x c;
          m1' = re_sub word_ring (re_xor word_ring x (re_one word_ring)) c;
          ((shares, m0, m1), prf) = sender_loop gen input prf
      in ((Share_new c3 c2 # shares, re_xor word_ring m0' w0 # m0, re_xor word_ring m1' w1 # m1), prf))"

text \<open>The sender drops the result of its send.\<close>

definition asend_ignore :: "'w \<Rightarrow> Identity \<Rightarrow> ('w, 'g, unit) async" where
  "asend_ignore w receiver = (\<lambda>s. Snd receiver w (\<lambda>_. Ret (Inr ((), s))))"

definition bit_inject_ot_2round_sender :: "('w, 'g) Env \<Rightarrow> Bit VecShare \<Rightarrow> ('w, 'g, u16 VecShare) async" where
  "bit_inject_ot_2round_sender E input =
     abind (aprf (sender_loop (gen_u16 E) input)) (\<lambda>(shares, m0, m1).
     abind (aboot prev_identity) (\<lambda>prev_id.
     abind (asend_ignore (vec_to_network E (map VecRing16 [m0, m1])) prev_id) (\<lambda>_.
     aret shares)))"

definition bit_inject_ot_2round :: "('w, 'g) Env \<Rightarrow> Bit VecShare \<Rightarrow> ('w, 'g, u16 VecShare) async" where
  "bit_inject_ot_2round E input =
     abind (aboot own_role) (\<lambda>role.
       if role_index role = 0 then bit_inject_ot_2round_helper E input
       else if role_index role = 1 then bit_inject_ot_2round_receiver E input
       else if role_index role = 2 then bit_inject_ot_2round_sender E input
       else atry (Inl (Eyre ''Cannot deal with roles outside of the set [0, 1, 2] in bit_inject_ot'')))"

section \<open>Lifting\<close>

definition mul_lift_2k :: "nat \<Rightarrow> u16 Share \<Rightarrow> u32 Share" where
  "mul_lift_2k k val =
     Share_new (push_bit (k mod 32) (ucast (sh_a val))) (push_bit (k mod 32) (ucast (sh_b val)))"

definition mul_lift_2k_many :: "nat \<Rightarrow> u16 VecShare \<Rightarrow> u32 VecShare" where
  "mul_lift_2k_many k vals = map (mul_lift_2k k) vals"

text \<open>The loops of \<open>lift\<close> and \<open>extract_msb\<close> that split every plane for \<open>a2b_pre\<close>.\<close>

definition a2b_planes ::
    "BootSession \<Rightarrow> u64 VecShare list \<Rightarrow> (u64 VecShare list \<times> u64 VecShare list \<times> u64 VecShare list) result" where
  "a2b_planes session x =
     rbind (rmap (rmap (a2b_pre word_ring session)) x) (\<lambda>t.
       Inr (map (map fst) t, map (map (\<lambda>y. fst (snd y))) t, map (map (\<lambda>y. snd (snd y))) t))"

definition returns :: "'a option \<Rightarrow> 'a result" where
  "returns r = (case r of None \<Rightarrow> Inl Diverges | Some x \<Rightarrow> Inr x)"

definition lift :: "('w, 'g) Env \<Rightarrow> u16 VecShare \<Rightarrow> ('w, 'g, u32 VecShare) async" where
  "lift E shares =
     (let len = vs_len shares;
          x_a = map (\<lambda>share. Share_new (ucast (sh_a share) :: u32) (ucast (sh_b share))) shares
      in
      abind (atry (returns (transpose_pack_u64_16 16 shares))) (\<lambda>x.
      abind (aboot (\<lambda>session. a2b_planes session x)) (\<lambda>(x1, x2, x3).
      abind (binary_add_3_get_two_carries E x1 x2 x3 len) (\<lambda>(b1, b2).
      let b1 = vs_extend b1 b2 in
      abind (bit_inject_ot_2round E b1) (\<lambda>b.
      abind (atry (vs_split_at b len)) (\<lambda>(b1, b2).
      let b1 = mul_lift_2k_many 16 b1;
          b2 = mul_lift_2k_many (16 + 1) b2;
          x_a = vs_sub_assign word_ring x_a b1;
          x_a = vs_sub_assign word_ring x_a b2
      in aret x_a))))))"

section \<open>Most significant bit\<close>

definition extract_msb :: "('w, 'g) Env \<Rightarrow> u64 VecShare list \<Rightarrow> ('w, 'g, u64 VecShare) async" where
  "extract_msb E x =
     abind (aboot (\<lambda>session. a2b_planes session x)) (\<lambda>(x1, x2, x3). binary_add_3_get_msb E x1 x2 x3)"

definition extract_msb_u32 :: "('w, 'g) Env \<Rightarrow> nat \<Rightarrow> u32 VecShare \<Rightarrow> ('w, 'g, u64 VecShare) async" where
  "extract_msb_u32 E K x' =
     abind (atry (returns (transpose_pack_u64_32 K x'))) (\<lambda>x. extract_msb E x)"

definition single_extract_msb_u32 :: "('w, 'g) Env \<Rightarrow> u32 Share \<Rightarrow> ('w, 'g, Bit Share) async" where
  "single_extract_msb_u32 E x =
     abind (extract_msb_u32 E 32 [x]) (\<lambda>v.
     abind (atry (vs_get_at v 0)) (\<lambda>s.
     let (a, b) = get_ab s in aret (Share_new (get_bit_as_bit word_ring a 0) (get_bit_as_bit word_ring b 0))))"

definition open_bin :: "('w, 'g) Env \<Rightarrow> Bit Share \<Rightarrow> ('w, 'g, Bit) async" where
  "open_bin E share =
     abind (aboot next_identity) (\<lambda>next_party.
     abind (asend (to_network E (RingElementBit (sh_b share))) next_party) (\<lambda>_.
     abind (aboot prev_identity) (\<lambda>prev_party.
     abind (areceive prev_party) (\<lambda>serialized_other_share.
     abind (atry (case from_network E serialized_other_share of
                    Inr (RingElementBit message) \<Rightarrow> Inr message
                  | _ \<Rightarrow> Inl (Eyre ''Error in receiving in open_bin operation''))) (\<lambda>c.
     aret (re_xor bit_ring (re_xor bit_ring (sh_a share) (sh_b share)) c))))))"

end
