(* ===== verification/BinaryAdder.thy ===== *)
theory BinaryAdder
  imports Binary
begin

text \<open>
  Correctness of the binary protocols up to the most significant bit: conjunction of shared words and
  planes, the three-operand adder, and the splitting of an additive sharing into three binary ones.
\<close>

section \<open>Shared vectors and planes\<close>

text \<open>
  \<open>vec_shared opn X v\<close>: the parties' vectors \<open>X\<close> are replicated sharings of the values \<open>v\<close>, which
  \<open>opn\<close> recovers. \<open>planes_shared\<close> is the same for a list of bit planes shared by exclusive or.
\<close>

definition vec_shared :: "((PartyID \<Rightarrow> 't Share) \<Rightarrow> 't) \<Rightarrow> (PartyID \<Rightarrow> 't VecShare) \<Rightarrow> 't list \<Rightarrow> bool" where
  "vec_shared opn X v \<longleftrightarrow> (\<forall>p. length (X p) = length v) \<and>
     (\<forall>i < length v. rep3 (\<lambda>p. X p ! i) \<and> opn (\<lambda>p. X p ! i) = v ! i)"

abbreviation bin_shared :: "(PartyID \<Rightarrow> 'a::len word VecShare) \<Rightarrow> 'a word list \<Rightarrow> bool" where
  "bin_shared \<equiv> vec_shared (open_xor word_ring)"

definition planes_shared :: "(PartyID \<Rightarrow> u64 VecShare list) \<Rightarrow> u64 list list \<Rightarrow> bool" where
  "planes_shared X V \<longleftrightarrow> (\<forall>p. length (X p) = length V) \<and>
     (\<forall>k < length V. bin_shared (\<lambda>p. X p ! k) (V ! k))"

lemma vec_shared_length: "vec_shared opn X v \<Longrightarrow> length (X p) = length v"
  by (simp add: vec_shared_def)

lemma vec_shared_nth:
  "vec_shared opn X v \<Longrightarrow> i < length v \<Longrightarrow> rep3 (\<lambda>p. X p ! i) \<and> opn (\<lambda>p. X p ! i) = v ! i"
  by (simp add: vec_shared_def)

lemma vec_shared_append:
  assumes "\<And>p. length (X p) = length v"
  shows "vec_shared opn (\<lambda>p. X p @ Y p) (v @ w) \<longleftrightarrow> vec_shared opn X v \<and> vec_shared opn Y w"
proof -
  have split: "(\<forall>i < length v + length w. P i) \<longleftrightarrow> (\<forall>i < length v. P i) \<and> (\<forall>i < length w. P (length v + i))" for P
  proof
    assume *: "(\<forall>i < length v. P i) \<and> (\<forall>i < length w. P (length v + i))"
    show "\<forall>i < length v + length w. P i"
    proof (intro allI impI)
      fix i assume i: "i < length v + length w"
      show "P i"
      proof (cases "i < length v")
        case False
        then have "length v \<le> i" by simp
        then obtain j where "i = length v + j" by (auto simp: le_iff_add)
        then show ?thesis using * i by simp
      qed (use * in blast)
    qed
  qed simp
  show ?thesis by (simp add: vec_shared_def assms split nth_append conj_ac)
qed

lemma planes_shared_length: "planes_shared X V \<Longrightarrow> length (X p) = length V"
  by (simp add: planes_shared_def)

lemma planes_shared_nth: "planes_shared X V \<Longrightarrow> k < length V \<Longrightarrow> bin_shared (\<lambda>p. X p ! k) (V ! k)"
  by (simp add: planes_shared_def)

lemma planes_shared_take: "planes_shared X V \<Longrightarrow> planes_shared (\<lambda>p. take n (X p)) (take n V)"
  by (simp add: planes_shared_def)

lemma planes_shared_drop: "planes_shared X V \<Longrightarrow> planes_shared (\<lambda>p. drop n (X p)) (drop n V)"
  by (simp add: planes_shared_def add.commute less_diff_conv)

lemma planes_shared_butlast: "planes_shared X V \<Longrightarrow> planes_shared (\<lambda>p. butlast (X p)) (butlast V)"
  using planes_shared_take [of X V "length V - 1"] by (simp add: butlast_conv_take planes_shared_length)

lemma planes_shared_last:
  "planes_shared X V \<Longrightarrow> V \<noteq> [] \<Longrightarrow> bin_shared (\<lambda>p. last (X p)) (last V)"
proof -
  assume X: "planes_shared X V" "V \<noteq> []"
  then have "X p \<noteq> []" for p using planes_shared_length [of X V p] by auto
  then have "(\<lambda>p. last (X p)) = (\<lambda>p. X p ! (length V - 1))"
    using X by (simp add: last_conv_nth planes_shared_length)
  then show ?thesis using X planes_shared_nth [of X V "length V - 1"] by (simp add: last_conv_nth)
qed

lemma planes_shared_Cons:
  "planes_shared (\<lambda>p. x p # X p) (v # V) \<longleftrightarrow> bin_shared x v \<and> planes_shared X V"
  by (auto simp: planes_shared_def less_Suc_eq_0_disj)

text \<open>Planes are shared exactly when their concatenation is, given the lengths.\<close>

lemma planes_shared_concat:
  "planes_shared X V \<longleftrightarrow>
     (\<forall>p. map length (X p) = map length V) \<and> bin_shared (\<lambda>p. concat (X p)) (concat V)"
proof (induction V arbitrary: X)
  case Nil
  then show ?case by (auto simp: planes_shared_def vec_shared_def)
next
  case (Cons v V)
  show ?case
  proof (cases "\<forall>p. X p \<noteq> []")
    case True
    then have X: "X = (\<lambda>p. hd (X p) # tl (X p))" by auto
    show ?thesis
    proof (cases "\<forall>p. length (hd (X p)) = length v")
      case len: True
      show ?thesis
        by (subst (1 2 3) X)
          (use len in \<open>simp add: planes_shared_Cons vec_shared_append Cons.IH [of "\<lambda>p. tl (X p)"], blast\<close>)
    next
      case False
      then obtain p where p: "length (hd (X p)) \<noteq> length v" by blast
      have "\<not> planes_shared X (v # V)"
        by (subst X) (use p in \<open>auto simp: planes_shared_Cons dest: vec_shared_length [of _ _ _ p]\<close>)
      moreover have "map length (X p) \<noteq> map length (v # V)" by (subst X) (use p in simp)
      ultimately show ?thesis by blast
    qed
  next
    case False
    then obtain p where "X p = []" by blast
    then have "\<not> planes_shared X (v # V)" "map length (X p) \<noteq> map length (v # V)"
      using planes_shared_length [of X "v # V" p] by auto
    then show ?thesis by blast
  qed
qed

section \<open>Exclusive or\<close>

lemma bin_shared_xor:
  assumes "bin_shared X v" "bin_shared Y w" "length v = length w"
  shows "bin_shared (\<lambda>p. vs_xor word_ring (X p) (Y p)) (map2 (XOR) v w)"
proof -
  have len: "length (X p) = length w" "length (Y p) = length w" for p
    using assms by (simp_all add: vec_shared_length)
  have "rep3 (\<lambda>p. share_xor word_ring (X p ! i) (Y p ! i)) \<and>
      open_xor word_ring (\<lambda>p. share_xor word_ring (X p ! i) (Y p ! i)) = v ! i XOR w ! i" if "i < length w" for i
    using vec_shared_nth [OF assms(1)] vec_shared_nth [OF assms(2)] that assms(3)
    by (auto simp: word_ring.open_xor_xor share_simps)
  then show ?thesis by (simp add: vec_shared_def vs_xor_def len assms(3))
qed

lemma vs_xor_assign_eq: "length v = length w \<Longrightarrow> vs_xor_assign R v w = vs_xor R v w"
  by (simp add: vs_xor_assign_def vs_xor_def)

lemma bin_shared_xor_assign:
  assumes "bin_shared X v" "bin_shared Y w" "length v = length w"
  shows "bin_shared (\<lambda>p. vs_xor_assign word_ring (X p) (Y p)) (map2 (XOR) v w)"
  using bin_shared_xor [OF assms] assms by (simp add: vs_xor_assign_eq vec_shared_length)

lemma planes_shared_xor:
  assumes "planes_shared X V" "planes_shared Y W" "map length V = map length W"
  shows "planes_shared (\<lambda>p. transposed_pack_xor word_ring (X p) (Y p)) (map2 (map2 (XOR)) V W)"
proof -
  have len: "length V = length W" "\<forall>k < length W. length (V ! k) = length (W ! k)"
    using assms(3) by (auto dest: map_eq_imp_length_eq) (metis length_map nth_map)
  have lens: "length (X p) = length W" "length (Y p) = length W" for p
    using assms(1,2) len by (simp_all add: planes_shared_length)
  show ?thesis
    using planes_shared_nth [OF assms(1)] planes_shared_nth [OF assms(2)] len
    by (auto simp: planes_shared_def transposed_pack_xor_def lens intro!: bin_shared_xor)
qed

lemma planes_shared_xor_assign:
  assumes "planes_shared X V" "planes_shared Y W" "map length V = map length W"
  shows "planes_shared (\<lambda>p. transposed_pack_xor_assign word_ring (X p) (Y p)) (map2 (map2 (XOR)) V W)"
proof -
  have "\<forall>p. map length (X p) = map length V" "\<forall>p. map length (Y p) = map length W"
    using assms(1,2) unfolding planes_shared_concat by blast+
  then have "map length (X p) = map length (Y p)" for p using assms(3) by simp
  then have "length (X p) = length (Y p)" "\<forall>k < length (Y p). length (X p ! k) = length (Y p ! k)" for p
    by (simp_all add: list_eq_iff_nth_eq)
  then have "transposed_pack_xor_assign word_ring (X p) (Y p) = transposed_pack_xor word_ring (X p) (Y p)" for p
    unfolding transposed_pack_xor_assign_def transposed_pack_xor_def
    by (simp add: list_eq_iff_nth_eq vs_xor_assign_eq)
  then show ?thesis using planes_shared_xor [OF assms] by simp
qed

section \<open>Conjunction\<close>

lemma reshare_shared:
  assumes "\<And>p. length (A p) = length v"
    "\<And>i. i < length v \<Longrightarrow> opn (\<lambda>p. Share_new (A p ! i) (A (prev_id p) ! i)) = v ! i"
  shows "vec_shared opn (\<lambda>p. from_ab (A p) (A (prev_id p))) v"
  using assms by (simp add: vec_shared_def nth_from_ab rep3_def Share_new_def)

lemma achieves_and_masked:
  fixes X Y :: "PartyID \<Rightarrow> 'a::len word Share"
  assumes "rep3 X" "rep3 Y"
  shows "achieves ident sid
    (\<lambda>p. abind (aprf (gen_binary_zero_share word_ring gen)) (\<lambda>rand.
       aret (re_xor word_ring (share_and_local word_ring (X p) (Y p)) rand)))
    (\<lambda>A. open_xor word_ring (\<lambda>p. Share_new (A p) (A (prev_id p))) = (open_xor word_ring X AND open_xor word_ring Y))"
proof (rule achieves_bind [OF achieves_gen_binary_zero_share], rule achieves_ret)
  fix R :: "PartyID \<Rightarrow> 'a word" assume "\<exists>r. \<forall>p. R p = re_xor word_ring (r p) (r (prev_id p))"
  then obtain r where r: "R p = re_xor word_ring (r p) (r (prev_id p))" for p by blast
  let ?l = "\<lambda>p. share_and_local word_ring (X p) (Y p)"
  have "open_xor word_ring (\<lambda>p. Share_new (re_xor word_ring (?l p) (R p))
        (re_xor word_ring (?l (prev_id p)) (R (prev_id p))))
      = ((?l ID0 XOR ?l ID1) XOR ?l ID2)"
    by (simp add: open_xor_def Share_new_def r re_defs share_simps xor.assoc xor.left_commute xor.commute)
  then show "open_xor word_ring (\<lambda>p. Share_new (re_xor word_ring (?l p) (R p))
        (re_xor word_ring (?l (prev_id p)) (R (prev_id p))))
      = (open_xor word_ring X AND open_xor word_ring Y)"
    using word_ring.local_conjunctions [OF assms] by (simp add: share_simps)
qed

lemma achieves_and_many_masked:
  assumes X: "bin_shared X v" and Y: "bin_shared Y w" and len: "length v = length w"
  shows "achieves ident sid
    (\<lambda>p. amap (\<lambda>(a', b'). abind (aprf (gen_binary_zero_share word_ring gen)) (\<lambda>rand.
       aret (re_xor word_ring (share_and_local word_ring a' b') rand))) (zip (X p) (Y p)))
    (\<lambda>A. (\<forall>p. length (A p) = length w) \<and> bin_shared (\<lambda>p. from_ab (A p) (A (prev_id p))) (map2 (AND) v w))"
proof -
  let ?P = "\<lambda>i A. open_xor word_ring (\<lambda>p. Share_new (A p) (A (prev_id p))) = (v ! i AND w ! i)"
  have lens: "length (X p) = length w" "length (Y p) = length w" for p
    using X Y len by (simp_all add: vec_shared_length)
  have "achieves ident sid
    (\<lambda>p. amap (\<lambda>(a', b'). abind (aprf (gen_binary_zero_share word_ring gen)) (\<lambda>rand.
       aret (re_xor word_ring (share_and_local word_ring a' b') rand))) (zip (X p) (Y p)))
    (\<lambda>A. (\<forall>p. length (A p) = length w) \<and> (\<forall>i < length w. ?P i (\<lambda>p. A p ! i)))"
  proof (rule achieves_amap)
    fix i assume i: "i < length w"
    then have "rep3 (\<lambda>p. X p ! i)" "rep3 (\<lambda>p. Y p ! i)" "open_xor word_ring (\<lambda>p. X p ! i) = v ! i"
      "open_xor word_ring (\<lambda>p. Y p ! i) = w ! i"
      using vec_shared_nth [OF X, of i] vec_shared_nth [OF Y, of i] len by simp_all
    then show "achieves ident sid
      (\<lambda>p. (\<lambda>(a', b'). abind (aprf (gen_binary_zero_share word_ring gen)) (\<lambda>rand.
         aret (re_xor word_ring (share_and_local word_ring a' b') rand))) (zip (X p) (Y p) ! i)) (?P i)"
      using achieves_and_masked [of "\<lambda>p. X p ! i" "\<lambda>p. Y p ! i"] i lens by simp
  qed (simp add: lens)
  then show ?thesis
    by (rule achieves_conseq) (auto simp: len intro!: reshare_shared)
qed

lemma achieves_and_round:
  assumes env: "inj ident" "codec_ok E"
    and X: "bin_shared X v" and Y: "bin_shared Y w" and len: "length v = length w"
    and F: "\<And>A. (\<forall>p. length (A p) = length w) \<Longrightarrow>
      bin_shared (\<lambda>p. from_ab (A p) (A (prev_id p))) (map2 (AND) v w) \<Longrightarrow>
      achieves ident sid (\<lambda>p. F p (A p) (A (prev_id p))) Q"
  shows "achieves ident sid
    (\<lambda>p. abind (and_many_send E (X p) (Y p)) (\<lambda>sa. abind (and_many_receive E) (F p sa))) Q"
proof -
  have "vs_len (X p) = vs_len (Y p)" for p using X Y len by (simp add: vs_len_def vec_shared_length)
  then show ?thesis
    unfolding and_many_send_def and_many_receive_def
    apply (simp add: abind_assoc abind_aret)
    apply (rule achieves_bind [OF achieves_and_many_masked [OF X Y len]], erule conjE)
    apply (rule achieves_boot_bind [where X = "\<lambda>p. ident (next_id p)"], simp add: boot_simps env)
    apply (rule achieves_round_bind [OF env(1)])
    apply (simp add: network_roundtrip [OF env(2)])
    apply (rule achieves_try_bind, rule refl)
    apply (rule F; assumption)
    done
qed

lemma achieves_and_many:
  assumes "inj ident" "codec_ok E" "bin_shared X v" "bin_shared Y w" "length v = length w"
  shows "achieves ident sid (\<lambda>p. and_many E (X p) (Y p)) (\<lambda>A. bin_shared A (map2 (AND) v w))"
  unfolding and_many_def by (rule achieves_and_round [OF assms]) (rule achieves_ret)

lemma drain_chunks_ok:
  "length a = sum_list ls \<Longrightarrow> length b = sum_list ls \<Longrightarrow>
     \<exists>res. drain_chunks ls a b = Inr res \<and> map length res = ls \<and> concat res = from_ab a b"
proof (induction ls arbitrary: a b)
  case (Cons l ls)
  then obtain res where "drain_chunks ls (drop l a) (drop l b) = Inr res" "map length res = ls"
    "concat res = from_ab (drop l a) (drop l b)"
    using Cons.IH [of "drop l a" "drop l b"] Cons.prems by fastforce
  moreover have "from_ab a b = from_ab (take l a) (take l b) @ from_ab (drop l a) (drop l b)"
    by (metis append_take_drop_id from_ab_def map_append take_map take_zip drop_map drop_zip)
  ultimately show ?case using Cons.prems by simp
qed (simp add: from_ab_def)

lemma achieves_transposed_pack_and:
  assumes env: "inj ident" "codec_ok E"
    and X: "planes_shared X V" and Y: "planes_shared Y W" and len: "map length V = map length W"
  shows "achieves ident sid (\<lambda>p. transposed_pack_and E (X p) (Y p))
    (\<lambda>A. planes_shared A (map2 (map2 (AND)) V W))"
proof -
  have lens: "map length (X p) = map length W" "map length (Y p) = map length W" for p
    using X Y len unfolding planes_shared_concat by metis+
  have eq: "length (X p) = length (Y p)" "map vs_len (X p) = map length W" "map vs_len (Y p) = map length W" for p
    using map_eq_imp_length_eq [of length "X p" length "Y p"] lens by (simp_all add: vs_len_def [abs_def])
  have flat: "bin_shared (\<lambda>p. vs_flatten (X p)) (concat V)" "bin_shared (\<lambda>p. vs_flatten (Y p)) (concat W)"
    using X Y unfolding planes_shared_concat vs_flatten_def by blast+
  have cat: "length (concat V) = length (concat W)" using len by (simp add: length_concat)
  have conj: "concat (map2 (map2 (AND)) V W) = map2 (AND) (concat V) (concat W)"
    "map length (map2 (map2 (AND)) V W) = map length W" if "map length V = map length W" for V W :: "u64 list list"
    using that
    by (induction V W rule: list_induct2') auto
  show ?thesis
    unfolding transposed_pack_and_def
    apply (simp add: eq)
    apply (rule achieves_and_round [OF env flat cat])
    subgoal premises A for A
    proof -
      have "\<exists>res. drain_chunks (map length W) (A p) (A (prev_id p)) = Inr res \<and>
          map length res = map length W \<and> concat res = from_ab (A p) (A (prev_id p))" for p
        by (rule drain_chunks_ok) (use A(1) in \<open>simp_all add: length_concat\<close>)
      then obtain res where res: "drain_chunks (map length W) (A p) (A (prev_id p)) = Inr (res p)"
        "map length (res p) = map length W" "concat (res p) = from_ab (A p) (A (prev_id p))" for p
        by metis
      show ?thesis
        by (rule achieves_try [OF res(1)], unfold planes_shared_concat conj [OF len]) (use A(2) in \<open>simp add: res\<close>)
    qed
    done
qed

section \<open>Addition of bits\<close>

text \<open>\<open>bits_nat\<close> reads a list of bits, least significant first, as a number.\<close>

abbreviation bits_nat :: "bool list \<Rightarrow> nat" where
  "bits_nat \<equiv> horner_sum of_bool 2"

fun carry_bits :: "(bool \<times> bool) list \<Rightarrow> bool \<Rightarrow> bool" where
  "carry_bits [] c = c"
| "carry_bits ((a, b) # ab) c = carry_bits ab (c \<noteq> ((a \<noteq> c) \<and> (b \<noteq> c)))"

lemma carry_bits_div:
  "length as = length bs \<Longrightarrow>
     of_bool (carry_bits (zip as bs) c) = (bits_nat as + bits_nat bs + of_bool c) div 2 ^ length as"
proof (induction as bs arbitrary: c rule: list_induct2)
  case (Cons a as b bs)
  let ?c = "c \<noteq> ((a \<noteq> c) \<and> (b \<noteq> c))"
  have "(bits_nat (a # as) + bits_nat (b # bs) + of_bool c) div 2 ^ length (a # as)
      = ((2 * (bits_nat as + bits_nat bs) + (of_bool a + of_bool b + of_bool c)) div 2) div 2 ^ length as"
    by (simp add: div_mult2_eq algebra_simps)
  also have "\<dots> = (bits_nat as + bits_nat bs + of_bool ?c) div 2 ^ length as"
    by (cases a; cases b; cases c) simp_all
  finally show ?case using Cons.IH [of ?c] by simp
qed simp

text \<open>Sum and carry bits of three numbers, and the two numbers that the adders produce from them.\<close>

definition add3_sum :: "bool list \<Rightarrow> bool list \<Rightarrow> bool list \<Rightarrow> bool list" where
  "add3_sum x1 x2 x3 = map2 (\<noteq>) x1 (map2 (\<noteq>) x2 x3)"

definition add3_carry :: "bool list \<Rightarrow> bool list \<Rightarrow> bool list \<Rightarrow> bool list" where
  "add3_carry x1 x2 x3 = map2 (\<noteq>) (map2 (\<and>) (map2 (\<noteq>) x1 x3) (map2 (\<noteq>) x2 x3)) x3"

lemma add3_split:
  "length x1 = length x2 \<Longrightarrow> length x2 = length x3 \<Longrightarrow>
     bits_nat x1 + bits_nat x2 + bits_nat x3 = bits_nat (add3_sum x1 x2 x3) + 2 * bits_nat (add3_carry x1 x2 x3)"
proof (induction x1 x2 x3 rule: list_induct3)
  case (Cons a x1 b x2 c x3)
  then show ?case by (cases a; cases b; cases c) (simp_all add: add3_sum_def add3_carry_def)
qed (simp add: add3_sum_def add3_carry_def)

lemma length_add3 [simp]:
  assumes "length x1 = n" "length x2 = n" "length x3 = n"
  shows "length (add3_sum x1 x2 x3) = n" "length (add3_carry x1 x2 x3) = n"
  using assms by (simp_all add: add3_sum_def add3_carry_def)

lemma first_carry:
  assumes "1 < length s" "0 < length c"
  shows "carry_bits (zip (drop 2 s) (drop 1 c)) (s ! 1 \<and> c ! 0) = carry_bits (zip (drop 1 s) c) False"
proof -
  obtain s0 s1 s' where "s = s0 # s1 # s'" using assms(1) by (metis One_nat_def Suc_less_eq length_Cons list.exhaust list.size(3) not_less_zero)
  moreover obtain c0 c' where "c = c0 # c'" using assms(2) by (cases c) simp_all
  ultimately show ?thesis by simp
qed

lemma bits_nat_snoc: "bits_nat (xs @ [x]) = bits_nat xs + 2 ^ length xs * of_bool x"
  by (simp add: horner_sum_append)

text \<open>The two bits above the width.\<close>

lemma two_carries:
  assumes len: "length s = n" "length c = n" "1 < n"
  defines "k \<equiv> carry_bits (zip (drop 2 s) (drop 1 (butlast c))) (s ! 1 \<and> c ! 0)"
  shows "of_bool (last c \<noteq> k) + 2 * of_bool (last c \<and> k) = (bits_nat s + 2 * bits_nat c) div 2 ^ n"
proof -
  obtain s0 s' where s: "s = s0 # s'" using len by (cases s) simp_all
  obtain c' cl where c: "c = c' @ [cl]" using len by (cases c rule: rev_cases) simp_all
  have n: "length s' = n - 1" "length c' = n - 1" "0 < length c'" using len s c by auto
  have c0: "c ! 0 = c' ! 0" using n(3) c by (simp add: nth_append)
  have "k = carry_bits (zip s' c') False"
    unfolding k_def c0 using first_carry [of s c'] len s c n by simp
  then have k: "of_bool k = (bits_nat s' + bits_nat c') div 2 ^ (n - 1)"
    using carry_bits_div [of s' c' False] n by simp
  have half: "(2 * m + of_bool s0) div 2 = m" for m :: nat by simp
  have pow: "(2 :: nat) ^ n = 2 * 2 ^ (n - 1)" using len(3) by (cases n) simp_all
  have "(bits_nat s + 2 * bits_nat c) div 2 ^ n
      = ((2 * (bits_nat s' + bits_nat c' + 2 ^ (n - 1) * of_bool cl) + of_bool s0) div 2) div 2 ^ (n - 1)"
    unfolding pow by (simp only: div_mult2_eq) (simp add: s c n bits_nat_snoc algebra_simps)
  also have "\<dots> = (bits_nat s' + bits_nat c' + 2 ^ (n - 1) * of_bool cl) div 2 ^ (n - 1)"
    unfolding half ..
  also have "\<dots> = of_bool cl + of_bool k" unfolding k by (rule div_mult_self2) simp
  finally show ?thesis by (cases k; cases cl) (simp_all add: c)
qed

text \<open>The most significant bit; the last carry does not enter it.\<close>

lemma msb_of_sum:
  assumes len: "length s = n" "length c = n" "2 < n"
  defines "c' \<equiv> butlast c"
  defines "k \<equiv> carry_bits (zip (drop 2 (butlast s)) (drop 1 (butlast c'))) (s ! 1 \<and> c' ! 0)"
  shows "((last s \<noteq> last c') \<noteq> k) = odd ((bits_nat s + 2 * bits_nat c) div 2 ^ (n - 1))"
proof -
  let ?x = "bits_nat (butlast s) + 2 * bits_nat c'"
  have ls: "length (butlast s) = n - 1" "length c' = n - 1" using len by (simp_all add: c'_def)
  have ne: "s \<noteq> []" "c \<noteq> []" using len by auto
  have s1: "s ! 1 = butlast s ! 1" using len by (simp add: nth_butlast)
  have t: "of_bool (last c' \<noteq> k) + 2 * of_bool (last c' \<and> k) = ?x div 2 ^ (n - 1)"
    unfolding k_def s1 by (rule two_carries) (use ls len in simp_all)
  have "bits_nat s = bits_nat (butlast s) + 2 ^ (n - 1) * of_bool (last s)"
    "bits_nat c = bits_nat c' + 2 ^ (n - 1) * of_bool (last c)"
    using bits_nat_snoc [of "butlast s" "last s"] bits_nat_snoc [of c' "last c"] ne ls
    by (simp_all add: c'_def)
  then have "bits_nat s + 2 * bits_nat c = ?x + 2 ^ (n - 1) * (of_bool (last s) + 2 * of_bool (last c))"
    by (simp add: algebra_simps)
  then have "(bits_nat s + 2 * bits_nat c) div 2 ^ (n - 1)
      = ?x div 2 ^ (n - 1) + (of_bool (last s) + 2 * of_bool (last c))" by simp
  then show ?thesis unfolding t [symmetric] by auto
qed

section \<open>Lanes of bit planes\<close>

text \<open>Lane \<open>(j, i)\<close> is bit \<open>i\<close> of word \<open>j\<close> of every plane; \<open>uniform m V\<close> says that all planes have \<open>m\<close> words.\<close>

definition lane :: "u64 list list \<Rightarrow> nat \<Rightarrow> nat \<Rightarrow> bool list" where
  "lane V j i = map (\<lambda>v. bit (v ! j) i) V"

definition uniform :: "nat \<Rightarrow> u64 list list \<Rightarrow> bool" where
  "uniform m V \<longleftrightarrow> (\<forall>v \<in> set V. length v = m)"

lemma length_lane [simp]: "length (lane V j i) = length V"
  by (simp add: lane_def)

lemma lane_ops:
  "lane (take k V) j i = take k (lane V j i)" "lane (drop k V) j i = drop k (lane V j i)"
  "lane (butlast V) j i = butlast (lane V j i)"
  by (simp_all add: lane_def take_map drop_map map_butlast)

lemma lane_nth: "k < length V \<Longrightarrow> lane V j i ! k = bit (V ! k ! j) i"
  by (simp add: lane_def)

lemma lane_last: "V \<noteq> [] \<Longrightarrow> last (lane V j i) = bit (last V ! j) i"
  by (simp add: lane_def last_map)

lemma uniform_ops:
  "uniform m V \<Longrightarrow> uniform m (take k V)" "uniform m V \<Longrightarrow> uniform m (drop k V)"
  "uniform m V \<Longrightarrow> uniform m (butlast V)"
  by (auto simp: uniform_def dest: in_set_takeD in_set_dropD in_set_butlastD)

lemma uniform_map2:
  "uniform m V \<Longrightarrow> uniform m W \<Longrightarrow> uniform m (map2 (map2 f) V W)"
  by (auto simp: uniform_def in_set_zip)

lemma uniform_lengths: "uniform m V \<Longrightarrow> uniform m W \<Longrightarrow> length V = length W \<Longrightarrow> map length V = map length W"
  by (auto simp: uniform_def list_eq_iff_nth_eq)

lemma lane_map2:
  assumes "uniform m V" "uniform m W" "j < m" "\<And>x y. bit (f x y) i = g (bit x i) (bit y i)"
  shows "lane (map2 (map2 f) V W) j i = map2 g (lane V j i) (lane W j i)"
  using assms
  by (auto simp: lane_def uniform_def zip_map_map list_eq_iff_nth_eq)

lemmas lane_xor = lane_map2 [of _ _ _ _ "(XOR)" _ "(\<noteq>)", OF _ _ _ bit_xor_iff]
lemmas lane_and = lane_map2 [of _ _ _ _ "(AND)" _ "(\<and>)", OF _ _ _ bit_and_iff]

section \<open>The adders\<close>

fun carry_planes :: "(u64 list \<times> u64 list) list \<Rightarrow> u64 list \<Rightarrow> u64 list" where
  "carry_planes [] c = c"
| "carry_planes ((a, b) # ab) c =
     carry_planes ab (map2 (XOR) c (map2 (AND) (map2 (XOR) a c) (map2 (XOR) b c)))"

lemma carry_planes_lane:
  assumes "length A = length B" "uniform m A" "uniform m B" "length c = m"
  shows "length (carry_planes (zip A B) c) = m \<and>
    (\<forall>j < m. \<forall>i. bit (carry_planes (zip A B) c ! j) i = carry_bits (zip (lane A j i) (lane B j i)) (bit (c ! j) i))"
  using assms
proof (induction A B arbitrary: c rule: list_induct2)
  case (Cons a A b B)
  let ?c = "map2 (XOR) c (map2 (AND) (map2 (XOR) a c) (map2 (XOR) b c))"
  have "length a = m" "length b = m" "uniform m A" "uniform m B" using Cons.prems by (simp_all add: uniform_def)
  then show ?case using Cons.IH [of ?c] Cons.prems(3) by (simp add: lane_def bit_simps)
qed (simp add: lane_def)

lemma achieves_carry_loop:
  assumes env: "inj ident" "codec_ok E"
  shows "planes_shared A VA \<Longrightarrow> planes_shared B VB \<Longrightarrow> length VA = length VB \<Longrightarrow> uniform m VA \<Longrightarrow>
    uniform m VB \<Longrightarrow> bin_shared C c \<Longrightarrow> length c = m \<Longrightarrow>
    achieves ident sid (\<lambda>p. carry_loop E (zip (A p) (B p)) (C p)) (\<lambda>R. bin_shared R (carry_planes (zip VA VB) c))"
proof (induction VA arbitrary: A B VB C c)
  case Nil
  then have "A p = []" for p using planes_shared_length [of A "[]" p] by simp
  with Nil show ?case by (simp add: achieves_ret)
next
  case (Cons a VA)
  then obtain b VB' where VB: "VB = b # VB'" by (cases VB) simp_all
  let ?B = "\<lambda>p. tl (B p)" and ?A = "\<lambda>p. tl (A p)"
  have A: "A p = hd (A p) # tl (A p)" and B: "B p = hd (B p) # tl (B p)" for p
    using planes_shared_length [OF Cons.prems(1), of p] planes_shared_length [OF Cons.prems(2), of p] VB
    by (cases "A p"; cases "B p"; simp)+
  have shA: "bin_shared (\<lambda>p. hd (A p)) a" "planes_shared ?A VA"
    using Cons.prems(1) planes_shared_Cons [of "\<lambda>p. hd (A p)" ?A a VA] A [symmetric] by simp_all
  have shB: "bin_shared (\<lambda>p. hd (B p)) b" "planes_shared ?B VB'"
    using Cons.prems(2) planes_shared_Cons [of "\<lambda>p. hd (B p)" ?B b VB'] B [symmetric] VB by simp_all
  have len: "length a = m" "length b = m" "uniform m VA" "uniform m VB'"
    using Cons.prems(4,5) VB by (simp_all add: uniform_def)
  have step: "achieves ident sid
      (\<lambda>p. abind (and_many E (vs_xor_assign word_ring (hd (A p)) (C p)) (vs_xor_assign word_ring (hd (B p)) (C p)))
        (\<lambda>t. carry_loop E (zip (?A p) (?B p)) (vs_xor_assign word_ring (C p) t)))
      (\<lambda>R. bin_shared R (carry_planes (zip (a # VA) (b # VB')) c))"
  proof (rule achieves_bind [OF achieves_and_many [OF env
          bin_shared_xor_assign [OF shA(1) Cons.prems(6)] bin_shared_xor_assign [OF shB(1) Cons.prems(6)]]])
    fix T assume T: "bin_shared T (map2 (AND) (map2 (XOR) a c) (map2 (XOR) b c))"
    have "bin_shared (\<lambda>p. vs_xor_assign word_ring (C p) (T p))
        (map2 (XOR) c (map2 (AND) (map2 (XOR) a c) (map2 (XOR) b c)))"
      by (rule bin_shared_xor_assign [OF Cons.prems(6) T]) (simp add: len Cons.prems(7))
    with Cons.IH [OF shA(2) shB(2)] show "achieves ident sid
        (\<lambda>p. carry_loop E (zip (?A p) (?B p)) (vs_xor_assign word_ring (C p) (T p)))
        (\<lambda>R. bin_shared R (carry_planes (zip (a # VA) (b # VB')) c))"
      using Cons.prems(3,7) VB len by simp
  qed (use len Cons.prems(7) in simp_all)
  have "carry_loop E (zip (A p) (B p)) (C p)
      = abind (and_many E (vs_xor_assign word_ring (hd (A p)) (C p)) (vs_xor_assign word_ring (hd (B p)) (C p)))
        (\<lambda>t. carry_loop E (zip (?A p) (?B p)) (vs_xor_assign word_ring (C p) t))" for p
    by (subst A, subst B) (simp add: Let_def)
  with step show ?case by (simp add: VB)
qed

text \<open>The planes of the sum bits and of the carry bits.\<close>

definition planes_sum :: "u64 list list \<Rightarrow> u64 list list \<Rightarrow> u64 list list \<Rightarrow> u64 list list" where
  "planes_sum V1 V2 V3 = map2 (map2 (XOR)) V1 (map2 (map2 (XOR)) V2 V3)"

definition planes_carry :: "u64 list list \<Rightarrow> u64 list list \<Rightarrow> u64 list list \<Rightarrow> u64 list list" where
  "planes_carry V1 V2 V3 =
     map2 (map2 (XOR)) (map2 (map2 (AND)) (map2 (map2 (XOR)) V1 V3) (map2 (map2 (XOR)) V2 V3)) V3"

lemma planes_sum_carry:
  assumes "uniform m V1" "uniform m V2" "uniform m V3"
  shows "uniform m (planes_sum V1 V2 V3)" "uniform m (planes_carry V1 V2 V3)"
    "j < m \<Longrightarrow> lane (planes_sum V1 V2 V3) j i = add3_sum (lane V1 j i) (lane V2 j i) (lane V3 j i)"
    "j < m \<Longrightarrow> lane (planes_carry V1 V2 V3) j i = add3_carry (lane V1 j i) (lane V2 j i) (lane V3 j i)"
  using assms
  by (simp_all add: planes_sum_def planes_carry_def uniform_map2 lane_xor [where m = m] lane_and [where m = m]
      add3_sum_def add3_carry_def)

lemma length_planes_sum_carry:
  assumes "length V1 = n" "length V2 = n" "length V3 = n"
  shows "length (planes_sum V1 V2 V3) = n" "length (planes_carry V1 V2 V3) = n"
  using assms by (simp_all add: planes_sum_def planes_carry_def)

lemma planes_carry_butlast:
  assumes "length V1 = n" "length V2 = n" "length V3 = n"
  shows "planes_carry (butlast V1) (butlast V2) (butlast V3) = butlast (planes_carry V1 V2 V3)"
  using assms by (simp add: planes_carry_def butlast_conv_take take_map take_zip)

lemma planes_shared_adder:
  assumes "planes_shared X1 V1" "planes_shared X2 V2" "planes_shared X3 V3"
    "uniform m V1" "uniform m V2" "uniform m V3" "length V1 = n" "length V2 = n" "length V3 = n"
  shows "planes_shared (\<lambda>p. transposed_pack_xor word_ring (X1 p) (transposed_pack_xor_assign word_ring (X2 p) (X3 p)))
      (planes_sum V1 V2 V3)"
    "planes_shared (\<lambda>p. transposed_pack_xor_assign word_ring (X1 p) (X3 p)) (map2 (map2 (XOR)) V1 V3)"
    "planes_shared (\<lambda>p. transposed_pack_xor_assign word_ring (X2 p) (X3 p)) (map2 (map2 (XOR)) V2 V3)"
    "map length (map2 (map2 (XOR)) V1 V3) = map length (map2 (map2 (XOR)) V2 V3)"
    "planes_shared C (map2 (map2 (AND)) (map2 (map2 (XOR)) V1 V3) (map2 (map2 (XOR)) V2 V3)) \<Longrightarrow>
      planes_shared (\<lambda>p. transposed_pack_xor_assign word_ring (C p) (X3 p)) (planes_carry V1 V2 V3)"
proof -
  note u = assms(4-6) uniform_map2 [OF assms(4,6)] uniform_map2 [OF assms(5,6)]
  show "map length (map2 (map2 (XOR)) V1 V3) = map length (map2 (map2 (XOR)) V2 V3)"
    by (rule uniform_lengths [OF u(4,5)]) (simp add: assms)
  show "planes_shared (\<lambda>p. transposed_pack_xor_assign word_ring (X1 p) (X3 p)) (map2 (map2 (XOR)) V1 V3)"
    by (rule planes_shared_xor_assign [OF assms(1,3) uniform_lengths [OF u(1,3)]]) (simp add: assms)
  show 23: "planes_shared (\<lambda>p. transposed_pack_xor_assign word_ring (X2 p) (X3 p)) (map2 (map2 (XOR)) V2 V3)"
    by (rule planes_shared_xor_assign [OF assms(2,3) uniform_lengths [OF u(2,3)]]) (simp add: assms)
  show "planes_shared (\<lambda>p. transposed_pack_xor word_ring (X1 p) (transposed_pack_xor_assign word_ring (X2 p) (X3 p)))
      (planes_sum V1 V2 V3)"
    unfolding planes_sum_def
    by (rule planes_shared_xor [OF assms(1) 23 uniform_lengths [OF u(1,5)]]) (simp add: assms)
  assume "planes_shared C (map2 (map2 (AND)) (map2 (map2 (XOR)) V1 V3) (map2 (map2 (XOR)) V2 V3))"
  then show "planes_shared (\<lambda>p. transposed_pack_xor_assign word_ring (C p) (X3 p)) (planes_carry V1 V2 V3)"
    unfolding planes_carry_def
    by (rule planes_shared_xor_assign [OF _ assms(3) uniform_lengths [OF uniform_map2 [OF u(4,5)] u(3)]])
      (simp add: assms)
qed

text \<open>The part that both adders share: the carry into the top position.\<close>

lemma achieves_top_carry:
  assumes env: "inj ident" "codec_ok E"
    and A: "planes_shared A S" and B: "planes_shared B C" and len: "length S = Suc (length C)" "C \<noteq> []"
    and u: "uniform m S" "uniform m C"
    and F: "\<And>K k. bin_shared K k \<Longrightarrow> length k = m \<Longrightarrow>
      (\<forall>j < m. \<forall>i. bit (k ! j) i
         = carry_bits (zip (drop 2 (lane S j i)) (drop 1 (lane C j i))) (lane S j i ! 1 \<and> lane C j i ! 0)) \<Longrightarrow>
      achieves ident sid (\<lambda>p. F p (K p)) Q"
  shows "achieves ident sid (\<lambda>p. abind (and_many E (A p ! 1) (B p ! 0))
    (\<lambda>c. abind (carry_loop E (zip (drop 2 (A p)) (drop 1 (B p))) c) (F p))) Q"
proof -
  have idx: "1 < length S" "0 < length C" using len by simp_all
  have l1: "length (S ! 1) = m" "length (C ! 0) = m"
    using u idx nth_mem [OF idx(1)] nth_mem [OF idx(2)] by (auto simp: uniform_def)
  let ?first = "map2 (AND) (S ! 1) (C ! 0)"
  let ?k = "carry_planes (zip (drop 2 S) (drop 1 C)) ?first"
  have k0: "length ?first = m" by (simp add: l1 del: One_nat_def)
  have "length (drop 2 S) = length (drop 1 C)" using len by simp
  note run = carry_planes_lane [OF this uniform_ops(2) [OF u(1)] uniform_ops(2) [OF u(2)] k0]
  from run have lk: "length ?k = m" ..
  from run have bk: "\<forall>j < m. \<forall>i. bit (?k ! j) i
       = carry_bits (zip (lane (drop 2 S) j i) (lane (drop 1 C) j i)) (bit (?first ! j) i)"
    ..
  have "bit (?first ! j) i = (lane S j i ! 1 \<and> lane C j i ! 0)" if "j < m" for j i
    using that idx l1 by (simp add: lane_nth bit_simps del: One_nat_def)
  with bk have k: "\<forall>j < m. \<forall>i. bit (?k ! j) i
         = carry_bits (zip (drop 2 (lane S j i)) (drop 1 (lane C j i))) (lane S j i ! 1 \<and> lane C j i ! 0)"
    by (simp add: lane_ops)
  show ?thesis
  proof (rule achieves_bind [OF achieves_and_many [OF env planes_shared_nth [OF A idx(1)] planes_shared_nth [OF B idx(2)]]])
    fix K0 assume "bin_shared K0 ?first"
    then have "achieves ident sid (\<lambda>p. carry_loop E (zip (drop 2 (A p)) (drop 1 (B p))) (K0 p)) (\<lambda>R. bin_shared R ?k)"
      using len u l1 by (intro achieves_carry_loop [OF env, where m = m] planes_shared_drop A B) (simp_all add: uniform_ops)
    then show "achieves ident sid
        (\<lambda>p. abind (carry_loop E (zip (drop 2 (A p)) (drop 1 (B p))) (K0 p)) (F p)) Q"
      by (rule achieves_bind) (rule F [OF _ lk k])
  qed (simp add: l1 del: One_nat_def)
qed

lemma achieves_two_carries:
  assumes env: "inj ident" "codec_ok E"
    and X: "planes_shared X1 V1" "planes_shared X2 V2" "planes_shared X3 V3"
    and u: "uniform m V1" "uniform m V2" "uniform m V3"
    and len: "length V1 = n" "length V2 = n" "length V3 = n" "1 < n"
  shows "achieves ident sid (\<lambda>p. binary_add_3_get_two_carries E (X1 p) (X2 p) (X3 p) t)
    (\<lambda>A. \<exists>R1 R2 (r1 :: u64 list) (r2 :: u64 list). bin_shared R1 r1 \<and> bin_shared R2 r2 \<and> length r1 = m \<and> length r2 = m \<and>
      (\<forall>p. A p = (vs_truncate (convert_to_bits word_ring (R1 p)) t, vs_truncate (convert_to_bits word_ring (R2 p)) t)) \<and>
      (\<forall>j < m. \<forall>i. of_bool (bit (r1 ! j) i) + 2 * of_bool (bit (r2 ! j) i)
        = (bits_nat (lane V1 j i) + bits_nat (lane V2 j i) + bits_nat (lane V3 j i)) div 2 ^ n))"
    (is "achieves _ _ _ ?Q")
proof -
  let ?A = "\<lambda>p. transposed_pack_xor word_ring (X1 p) (transposed_pack_xor_assign word_ring (X2 p) (X3 p))"
  let ?S = "planes_sum V1 V2 V3" and ?C = "planes_carry V1 V2 V3"
  note adder = planes_shared_adder [OF X u len(1-3)]
  note l = length_planes_sum_carry [OF len(1-3)] and uSC = planes_sum_carry(1,2) [OF u]
  have ne: "?C \<noteq> []" using l len(4) by auto
  show ?thesis
    unfolding binary_add_3_get_two_carries_def Let_def
  proof (rule achieves_bind [OF achieves_transposed_pack_and [OF env adder(2-4)]])
    fix C0 assume "planes_shared C0 (map2 (map2 (AND)) (map2 (map2 (XOR)) V1 V3) (map2 (map2 (XOR)) V2 V3))"
    let ?B = "\<lambda>p. transposed_pack_xor_assign word_ring (C0 p) (X3 p)"
    have B: "planes_shared ?B ?C" by (rule adder(5)) fact
    note lB = planes_shared_length [OF B] and lA = planes_shared_length [OF adder(1)]
    have neB: "?B p \<noteq> []" for p using lB [of p] ne by auto
    have pops: "vec_index (?A p) 1 = Inr (?A p ! 1)" "vec_index (?B p) 0 = Inr (butlast (?B p) ! 0)"
      "expect_pop (?B p) = Inr (last (?B p), butlast (?B p))" for p
      using lA [of p] lB [of p] neB [of p] l len(4) by (simp_all add: vec_index_def expect_pop_def nth_butlast)
    note lens = planes_shared_last [OF B ne]
    have lC: "length (last ?C) = m" using uSC(2) ne by (simp add: uniform_def)
    show "achieves ident sid (\<lambda>p.
      abind (atry (vec_index (?A p) 1)) (\<lambda>a1. abind (atry (vec_index (?B p) 0)) (\<lambda>b0.
      abind (and_many E a1 b0) (\<lambda>c. abind (atry (expect_pop (?B p))) (\<lambda>(b_msb, b).
      abind (carry_loop E (zip (drop 2 (?A p)) (drop 1 b)) c) (\<lambda>c.
      abind (and_many E b_msb c) (\<lambda>res2. aret (vs_truncate (convert_to_bits word_ring (vs_xor_assign word_ring b_msb c)) t,
        vs_truncate (convert_to_bits word_ring res2) t)))))))) ?Q"
      unfolding pops abind_atry prod.case
    proof (rule achieves_top_carry [OF env adder(1) planes_shared_butlast [OF B] _ _ uSC(1) uniform_ops(3) [OF uSC(2)]])
      fix K and k :: "u64 list"
      assume K: "bin_shared K k" "length k = m" and bits: "\<forall>j < m. \<forall>i. bit (k ! j) i
         = carry_bits (zip (drop 2 (lane ?S j i)) (drop 1 (lane (butlast ?C) j i))) (lane ?S j i ! 1 \<and> lane (butlast ?C) j i ! 0)"
      let ?r1 = "map2 (XOR) (last ?C) k" and ?r2 = "map2 (AND) (last ?C) k"
      have lk: "length (last ?C) = length k" by (simp add: lC K)
      have r1: "bin_shared (\<lambda>p. vs_xor_assign word_ring (last (?B p)) (K p)) ?r1"
        by (rule bin_shared_xor_assign [OF lens K(1) lk])
      have sum: "of_bool (bit (?r1 ! j) i) + 2 * of_bool (bit (?r2 ! j) i)
        = (bits_nat (lane V1 j i) + bits_nat (lane V2 j i) + bits_nat (lane V3 j i)) div 2 ^ n" if "j < m" for j i
      proof -
        have k: "bit (k ! j) i = carry_bits (zip (drop 2 (lane ?S j i)) (drop 1 (butlast (lane ?C j i))))
            (lane ?S j i ! 1 \<and> lane ?C j i ! 0)"
          using bits that l len(4) by (simp add: lane_ops nth_butlast)
        have top: "bit (?r1 ! j) i = (last (lane ?C j i) \<noteq> bit (k ! j) i)"
          "bit (?r2 ! j) i = (last (lane ?C j i) \<and> bit (k ! j) i)"
          using that lC K(2) ne by (simp_all add: lane_last bit_simps)
        show ?thesis
          unfolding top k
          by (subst two_carries [where n = n])
            (use l len that in \<open>simp_all add: add3_split planes_sum_carry [OF u]\<close>)
      qed
      show "achieves ident sid (\<lambda>p. abind (and_many E (last (?B p)) (K p)) (\<lambda>res2.
          aret (vs_truncate (convert_to_bits word_ring (vs_xor_assign word_ring (last (?B p)) (K p))) t,
            vs_truncate (convert_to_bits word_ring res2) t))) ?Q"
      proof (rule achieves_bind [OF achieves_and_many [OF env lens K(1) lk]], rule achieves_ret)
        fix R2 assume r2: "bin_shared R2 ?r2"
        show "?Q (\<lambda>p. (vs_truncate (convert_to_bits word_ring (vs_xor_assign word_ring (last (?B p)) (K p))) t,
            vs_truncate (convert_to_bits word_ring (R2 p)) t))"
          by (rule exI [of _ "\<lambda>p. vs_xor_assign word_ring (last (?B p)) (K p)"], rule exI [of _ R2],
              rule exI [of _ ?r1], rule exI [of _ ?r2]) (use r1 r2 sum lC K(2) in simp)
      qed
    qed (use l len(4) in \<open>auto simp: butlast_conv_take\<close>)
  qed
qed

lemma achieves_msb:
  assumes env: "inj ident" "codec_ok E"
    and X: "planes_shared X1 V1" "planes_shared X2 V2" "planes_shared X3 V3"
    and u: "uniform m V1" "uniform m V2" "uniform m V3"
    and len: "length V1 = n" "length V2 = n" "length V3 = n" "2 < n"
  shows "achieves ident sid (\<lambda>p. binary_add_3_get_msb E (X1 p) (X2 p) (X3 p))
    (\<lambda>A. \<exists>r :: u64 list. bin_shared A r \<and> length r = m \<and>
      (\<forall>j < m. \<forall>i. bit (r ! j) i
        = odd ((bits_nat (lane V1 j i) + bits_nat (lane V2 j i) + bits_nat (lane V3 j i)) div 2 ^ (n - 1))))"
    (is "achieves _ _ _ ?Q")
proof -
  let ?A = "\<lambda>p. transposed_pack_xor word_ring (X1 p) (transposed_pack_xor_assign word_ring (X2 p) (X3 p))"
  let ?S = "planes_sum V1 V2 V3" and ?C = "planes_carry V1 V2 V3"
  let ?V = "\<lambda>V. butlast V :: u64 list list"
  note adder = planes_shared_adder [OF X u len(1-3)]
  note l = length_planes_sum_carry [OF len(1-3)] and uSC = planes_sum_carry(1,2) [OF u]
  have ne: "?S \<noteq> []" "butlast ?C \<noteq> []" using l len(4) by (auto simp: butlast_conv_take)
  have x3: "planes_shared (\<lambda>p. butlast (X3 p)) (butlast V3)" by (rule planes_shared_butlast [OF X(3)])
  have ub: "uniform m (butlast V1)" "uniform m (butlast V2)" "uniform m (butlast V3)"
    using u by (simp_all add: uniform_ops)
  have lb: "length (butlast V1) = n - 1" "length (butlast V2) = n - 1" "length (butlast V3) = n - 1"
    using len by simp_all
  have bl: "map2 (map2 (XOR)) (butlast V1) (butlast V3) = butlast (map2 (map2 (XOR)) V1 V3)"
    "map2 (map2 (XOR)) (butlast V2) (butlast V3) = butlast (map2 (map2 (XOR)) V2 V3)"
    using len by (simp_all add: butlast_conv_take take_map take_zip)
  have nonempty: "transposed_pack_xor_assign word_ring (X1 p) (X3 p) \<noteq> []"
    "transposed_pack_xor_assign word_ring (X2 p) (X3 p) \<noteq> []" "X3 p \<noteq> []" for p
    using planes_shared_length [OF adder(2), of p] planes_shared_length [OF adder(3), of p]
      planes_shared_length [OF X(3), of p] len by auto
  show ?thesis
    unfolding binary_add_3_get_msb_def Let_def
    unfolding expect_pop_def
    apply (simp only: nonempty if_False abind_atry prod.case)
  proof (rule achieves_bind [OF achieves_transposed_pack_and [OF env planes_shared_butlast [OF adder(2)]
        planes_shared_butlast [OF adder(3)]]])
    show "map length (butlast (map2 (map2 (XOR)) V1 V3)) = map length (butlast (map2 (map2 (XOR)) V2 V3))"
      using adder(4) by (metis map_butlast)
  next
    fix C0 assume C0: "planes_shared C0 (map2 (map2 (AND)) (butlast (map2 (map2 (XOR)) V1 V3)) (butlast (map2 (map2 (XOR)) V2 V3)))"
    let ?B = "\<lambda>p. transposed_pack_xor_assign word_ring (C0 p) (butlast (X3 p))"
    have B: "planes_shared ?B (butlast ?C)"
      using planes_shared_adder(5) [OF planes_shared_butlast [OF X(1)] planes_shared_butlast [OF X(2)] x3 ub lb, of C0]
        C0 unfolding bl planes_carry_butlast [OF len(1-3)] .
    have AB: "?A p \<noteq> []" "?B p \<noteq> []" "1 < length (?A p)" "0 < length (?B p)" for p
      using planes_shared_length [OF adder(1), of p] planes_shared_length [OF B, of p] l len(4) by auto
    have b0: "?B p ! 0 = butlast (?B p) ! 0" "?A p ! 1 = butlast (?A p) ! 1" for p
      using planes_shared_length [OF adder(1), of p] planes_shared_length [OF B, of p] l len(4)
      by (simp_all add: nth_butlast)
    have lC: "length (last (butlast ?C)) = m" "length (last ?S) = m"
      using uniform_ops(3) [OF uSC(2)] uSC(1) ne by (simp_all add: uniform_def)
    show "achieves ident sid (\<lambda>p.
      abind (atry (vec_index (?A p) 1)) (\<lambda>a1. abind (atry (vec_index (?B p) 0)) (\<lambda>b0.
      abind (and_many E a1 b0) (\<lambda>c.
      abind (atry (if ?A p = [] then Inl (Panic ''Enough elements present'') else Inr (last (?A p), butlast (?A p)))) (\<lambda>(a_msb, a).
      abind (atry (if ?B p = [] then Inl (Panic ''Enough elements present'') else Inr (last (?B p), butlast (?B p)))) (\<lambda>(b_msb, b).
      abind (carry_loop E (zip (drop 2 a) (drop 1 b)) c) (\<lambda>c.
      aret (vs_xor_assign word_ring (vs_xor_assign word_ring a_msb b_msb) c)))))))) ?Q"
      unfolding vec_index_def
      apply (simp only: AB if_True if_False abind_atry prod.case)
      unfolding b0
    proof (rule achieves_top_carry [OF env planes_shared_butlast [OF adder(1)] planes_shared_butlast [OF B] _ _
          uniform_ops(3) [OF uSC(1)] uniform_ops(3) [OF uniform_ops(3) [OF uSC(2)]]], goal_cases)
      case (3 K k)
      let ?r = "map2 (XOR) (map2 (XOR) (last ?S) (last (butlast ?C))) k"
      have r: "bin_shared (\<lambda>p. vs_xor_assign word_ring (vs_xor_assign word_ring (last (?A p)) (last (?B p))) (K p)) ?r"
        by (intro bin_shared_xor_assign planes_shared_last adder(1) B ne 3(1)) (simp_all add: lC 3(2))
      have bits: "bit (?r ! j) i
          = odd ((bits_nat (lane V1 j i) + bits_nat (lane V2 j i) + bits_nat (lane V3 j i)) div 2 ^ (n - 1))"
        if "j < m" for j i
      proof -
        have k: "bit (k ! j) i = carry_bits (zip (drop 2 (butlast (lane ?S j i))) (drop 1 (butlast (butlast (lane ?C j i)))))
            (lane ?S j i ! 1 \<and> butlast (lane ?C j i) ! 0)"
          using 3(3) that l len(4) by (simp add: lane_ops nth_butlast)
        have top: "bit (?r ! j) i = ((last (lane ?S j i) \<noteq> last (butlast (lane ?C j i))) \<noteq> bit (k ! j) i)"
          using that lC 3(2) ne by (simp add: lane_last lane_ops [symmetric] bit_simps)
        show ?thesis
          unfolding top k
          by (subst msb_of_sum [where n = n])
            (use l len that in \<open>simp_all add: add3_split planes_sum_carry [OF u]\<close>)
      qed
      show ?case
        by (rule achieves_ret, rule exI [of _ ?r]) (use r bits lC 3(2) in simp)
    qed (use l len(4) in \<open>auto simp: butlast_conv_take\<close>)
  qed
qed

section \<open>Conjunction of shared words\<close>

text \<open>
  Conjunction of shared words. For vectors of words shared by exclusive or, \<open>and_many\<close> completes
  at every party in every interleaving, and the vectors it returns are shares of the pairwise
  conjunctions.
\<close>

theorem and_many_correct:
  assumes "inj ident" "codec_ok E" "bin_shared X v" "bin_shared Y w" "length v = length w"
  shows "completes ident sid (\<lambda>p. and_many E (X p) (Y p)) (\<lambda>A. bin_shared A (map2 (AND) v w))"
  by (rule achieves_completes [OF assms(1) achieves_and_many [OF assms]])

lemma bin_shared_example: "bin_shared (\<lambda>_. [\<lparr>sh_a = c, sh_b = c\<rparr>]) [c]"
  by (simp add: vec_shared_def rep3_def open_xor_def re_defs share_simps)

theorem and_many_correct_witness:
  "completes demo_ident 1 (\<lambda>p. and_many demo_env [\<lparr>sh_a = 6, sh_b = 6\<rparr>] [\<lparr>sh_a = 3, sh_b = 3\<rparr>])
    (\<lambda>A. bin_shared A (map2 (AND) [6] [3]))"
  by (rule and_many_correct [OF inj_demo_ident demo_env_ok bin_shared_example bin_shared_example]) simp

end
