(* ===== verification/BinaryMsb.thy ===== *)
theory BinaryMsb
  imports BinaryAdder
begin

text \<open>
  From arithmetic shares to shared bits: the planes of an additive sharing split into three binary
  sharings, the most significant bit of shared \<open>u32\<close> values, and the opening of a shared bit.
\<close>

section \<open>Splitting an additive sharing\<close>

text \<open>The share of the summand of party \<open>q\<close> that party \<open>p\<close> holds.\<close>

definition a2b_part :: "PartyID \<Rightarrow> PartyID \<Rightarrow> 'a::len word Share \<Rightarrow> 'a word Share" where
  "a2b_part q p x = \<lparr>sh_a = (if p = q then sh_a x else 0), sh_b = (if p = next_id q then sh_b x else 0)\<rparr>"

lemma role_index_party: "role_index (party_role p) = usize_from_party p"
  by (cases p) (simp_all add: role_index_new)

lemma a2b_pre_boot:
  "inj ident \<Longrightarrow> a2b_pre word_ring (boot_of ident sid p) x = Inr (a2b_part ID0 p x, a2b_part ID1 p x, a2b_part ID2 p x)"
  by (cases p) (simp_all add: a2b_pre_def get_ab_def own_role_boot role_index_party a2b_part_def share_zero_def
      re_zero_def share_simps Let_def role_index_new del: One_nat_def)

lemma a2b_planes_boot:
  assumes "inj ident"
  shows "a2b_planes (boot_of ident sid p) X
    = Inr (map (map (a2b_part ID0 p)) X, map (map (a2b_part ID1 p)) X, map (map (a2b_part ID2 p)) X)"
proof -
  have "rmap (rmap (a2b_pre word_ring (boot_of ident sid p))) X
      = Inr (map (map (\<lambda>x. (a2b_part ID0 p x, a2b_part ID1 p x, a2b_part ID2 p x))) X)"
    by (intro rmap_Inr a2b_pre_boot [OF assms])
  then show ?thesis by (simp add: a2b_planes_def)
qed

lemma a2b_part_shared:
  assumes "rep3 X"
  shows "rep3 (\<lambda>p. a2b_part q p (X p)) \<and> open_xor word_ring (\<lambda>p. a2b_part q p (X p)) = sh_a (X q)"
  using assms by (cases q) (simp_all add: rep3_iff a2b_part_def open_xor_def re_defs share_simps)

text \<open>Planes of an additive sharing: \<open>n\<close> planes of \<open>m\<close> replicated words.\<close>

definition rep_planes :: "nat \<Rightarrow> nat \<Rightarrow> (PartyID \<Rightarrow> u64 VecShare list) \<Rightarrow> bool" where
  "rep_planes n m X \<longleftrightarrow> (\<forall>p. length (X p) = n \<and> (\<forall>k < n. length (X p ! k) = m)) \<and>
     (\<forall>k < n. \<forall>j < m. rep3 (\<lambda>p. X p ! k ! j))"

lemma a2b_planes_shared:
  assumes "rep_planes n m X"
  shows "planes_shared (\<lambda>p. map (map (a2b_part q p)) (X p)) (map (map sh_a) (X q))"
    "uniform m (map (map sh_a) (X q))" "length (map (map sh_a) (X q)) = n"
proof -
  have len: "length (X p) = n" "k < n \<Longrightarrow> length (X p ! k) = m" for p k using assms by (simp_all add: rep_planes_def)
  have "rep3 (\<lambda>p. X p ! k ! j)" if "k < n" "j < m" for k j using assms that by (simp add: rep_planes_def)
  then show "planes_shared (\<lambda>p. map (map (a2b_part q p)) (X p)) (map (map sh_a) (X q))"
    by (simp add: planes_shared_def vec_shared_def len a2b_part_shared [of "\<lambda>p. X p ! k ! j" for k j])
  show "uniform m (map (map sh_a) (X q))" "length (map (map sh_a) (X q)) = n"
    using len by (auto simp: uniform_def in_set_conv_nth)
qed

text \<open>Transposing the vectors of the three parties gives such planes, and a lane of them is a share.\<close>

lemma bits_nat_word: "bits_nat (map (bit (x :: 'a::len word)) [0..<LENGTH('a)]) = unat x"
proof -
  have "map (bit x) [0..<LENGTH('a)] = map (bit (unat x)) [0..<LENGTH('a)]" by (simp add: bit_unsigned_iff)
  then show ?thesis by (simp only: horner_sum_bit_eq_take_bit) (simp add: take_bit_nat_eq_self)
qed

lemma planes_of_shares:
  fixes xs :: "PartyID \<Rightarrow> 'a::len word VecShare" and tr :: "'a word Share list \<Rightarrow> u64 Share list option"
  assumes tr: "transposes tr" and len: "\<And>p. length (xs p) = n" and rep: "\<And>i. i < n \<Longrightarrow> rep3 (\<lambda>p. xs p ! i)"
  shows "\<exists>X. (\<forall>p. transpose_pack 64 tr LENGTH('a) (xs p) = Some (X p)) \<and>
    rep_planes LENGTH('a) ((n + 63) div 64) X \<and>
    (\<forall>q. \<forall>j < (n + 63) div 64. \<forall>i < 64. j * 64 + i < n \<longrightarrow>
      bits_nat (lane (map (map sh_a) (X q)) j i) = unat (sh_a (xs q ! (j * 64 + i))))"
proof -
  let ?m = "(n + 63) div 64"
  have "\<exists>res. transpose_pack 64 tr LENGTH('a) (xs p) = Some res \<and> length res = LENGTH('a) \<and>
    (\<forall>r \<in> set res. length r = ?m) \<and>
    (\<forall>k < LENGTH('a). \<forall>j < ?m. \<forall>i < 64.
       bit (sh_a (res ! k ! j)) i = (k < LENGTH('a) \<and> j * 64 + i < n \<and> bit (sh_a (xs p ! (j * 64 + i))) k) \<and>
       bit (sh_b (res ! k ! j)) i = (k < LENGTH('a) \<and> j * 64 + i < n \<and> bit (sh_b (xs p ! (j * 64 + i))) k))" for p
  proof -
    have n: "LENGTH(64) = 64" "(64 :: nat) - 1 = 63" by simp_all
    show ?thesis
      by (rule transpose_pack_ok [OF tr, of "LENGTH('a)" "xs p", unfolded n len]) blast
  qed
  then obtain X where X: "\<forall>p. transpose_pack 64 tr LENGTH('a) (xs p) = Some (X p) \<and> length (X p) = LENGTH('a) \<and>
    (\<forall>r \<in> set (X p). length r = ?m) \<and>
    (\<forall>k < LENGTH('a). \<forall>j < ?m. \<forall>i < 64.
       bit (sh_a (X p ! k ! j)) i = (k < LENGTH('a) \<and> j * 64 + i < n \<and> bit (sh_a (xs p ! (j * 64 + i))) k) \<and>
       bit (sh_b (X p ! k ! j)) i = (k < LENGTH('a) \<and> j * 64 + i < n \<and> bit (sh_b (xs p ! (j * 64 + i))) k))"
    by metis
  have lenX: "length (X p) = LENGTH('a)" "k < LENGTH('a) \<Longrightarrow> length (X p ! k) = ?m" for p k
    using X by (simp_all add: all_set_conv_all_nth)
  have bits: "bit (sh_a (X p ! k ! j)) i = (j * 64 + i < n \<and> bit (sh_a (xs p ! (j * 64 + i))) k)"
    "bit (sh_b (X p ! k ! j)) i = (j * 64 + i < n \<and> bit (sh_b (xs p ! (j * 64 + i))) k)"
    if "k < LENGTH('a)" "j < ?m" "i < 64" for p k j i using X that by auto
  have "rep3 (\<lambda>p. X p ! k ! j)" if kj: "k < LENGTH('a)" "j < ?m" for k j
    unfolding rep3_def
  proof
    fix p show "sh_b (X p ! k ! j) = sh_a (X (prev_id p) ! k ! j)"
    proof (rule bit_word_eqI)
      fix i assume "i < LENGTH(64)"
      then show "bit (sh_b (X p ! k ! j)) i = bit (sh_a (X (prev_id p) ! k ! j)) i"
        using kj rep [of "j * 64 + i"] by (auto simp: bits rep3_def)
    qed
  qed
  moreover have "bits_nat (lane (map (map sh_a) (X q)) j i) = unat (sh_a (xs q ! (j * 64 + i)))"
    if "j < ?m" "i < 64" "j * 64 + i < n" for q j i
  proof -
    have "lane (map (map sh_a) (X q)) j i = map (bit (sh_a (xs q ! (j * 64 + i)))) [0..<LENGTH('a)]"
      using that lenX by (simp add: lane_def list_eq_iff_nth_eq bits)
    then show ?thesis by (simp only: bits_nat_word)
  qed
  ultimately show ?thesis using X lenX by (auto simp: rep_planes_def intro!: exI [of _ X])
qed

section \<open>The most significant bit\<close>

text \<open>The bits above a width of a sum of words, read off the sum of their values.\<close>

lemma bit_sum_words:
  fixes x y z :: "'a::len word"
  assumes "i < LENGTH('a)"
  shows "bit (x + y + z) i = odd ((unat x + unat y + unat z) div 2 ^ i)"
proof -
  have "x + y + z = of_nat (unat x + unat y + unat z)" by simp
  then have "bit (x + y + z) i = bit (unat x + unat y + unat z) i"
    using assms by (simp only: bit_of_nat_iff possible_bit_word simp_thms)
  then show ?thesis by (simp add: bit_iff_odd)
qed

lemma open_add_word: "open_add word_ring X = sh_a (X ID0) + sh_a (X ID1) + sh_a (X ID2)"
  by (simp add: open_add_def re_add_def share_simps)

lemma achieves_extract_msb_u32:
  assumes env: "inj ident" "codec_ok E" and X: "vec_shared (open_add word_ring) xs v"
  shows "achieves ident sid (\<lambda>p. extract_msb_u32 E 32 (xs p))
    (\<lambda>A. \<exists>r :: u64 list. bin_shared A r \<and> length r = (length v + 63) div 64 \<and>
      (\<forall>j < (length v + 63) div 64. \<forall>i < 64. j * 64 + i < length v \<longrightarrow> bit (r ! j) i = bit (v ! (j * 64 + i)) 31))"
    (is "achieves _ _ _ ?Q")
proof -
  let ?m = "(length v + 63) div 64"
  have L: "LENGTH(32) = 32" by simp
  obtain Y where tr: "\<And>p. transpose_pack_u64_32 32 (xs p) = Some (Y p)" and Y: "rep_planes 32 ?m Y"
    and val: "\<forall>q. \<forall>j < ?m. \<forall>i < 64. j * 64 + i < length v \<longrightarrow>
      bits_nat (lane (map (map sh_a) (Y q)) j i) = unat (sh_a (xs q ! (j * 64 + i)))"
    using planes_of_shares [OF transposes_32x64, of xs "length v", unfolded L] X
    unfolding transpose_pack_u64_32_def by (auto simp: vec_shared_def)
  note planes = a2b_planes_shared [OF Y]
  have "achieves ident sid (\<lambda>p. binary_add_3_get_msb E (map (map (a2b_part ID0 p)) (Y p))
      (map (map (a2b_part ID1 p)) (Y p)) (map (map (a2b_part ID2 p)) (Y p))) ?Q"
  proof (rule achieves_conseq [OF achieves_msb [OF env planes(1) planes(1) planes(1) planes(2) planes(2) planes(2)
          planes(3) planes(3) planes(3)]], simp, elim exE conjE, intro exI conjI)
    fix A r assume r: "bin_shared A r" "length r = ?m" and bits: "\<forall>j < ?m. \<forall>i. bit (r ! j) i
        = odd ((bits_nat (lane (map (map sh_a) (Y ID0)) j i) + bits_nat (lane (map (map sh_a) (Y ID1)) j i) +
            bits_nat (lane (map (map sh_a) (Y ID2)) j i)) div 2 ^ (32 - 1))"
    show "bin_shared A r" "length r = ?m" by fact+
    show "\<forall>j < ?m. \<forall>i < 64. j * 64 + i < length v \<longrightarrow> bit (r ! j) i = bit (v ! (j * 64 + i)) 31"
    proof (intro allI impI)
      fix j i :: nat assume ji: "j < ?m" "i < 64" "j * 64 + i < length v"
      have "v ! (j * 64 + i) = sh_a (xs ID0 ! (j * 64 + i)) + sh_a (xs ID1 ! (j * 64 + i)) + sh_a (xs ID2 ! (j * 64 + i))"
        using vec_shared_nth [OF X ji(3)] by (simp add: open_add_word)
      then show "bit (r ! j) i = bit (v ! (j * 64 + i)) 31"
        using bits [rule_format, OF ji(1), of i] val ji by (simp add: bit_sum_words)
    qed
  qed
  then show ?thesis
    unfolding extract_msb_u32_def extract_msb_def
    apply (simp only: tr returns_def option.case abind_atry)
    apply (rule achieves_boot_bind, rule a2b_planes_boot [OF env(1)])
    apply simp
    done
qed

lemma achieves_single_extract_msb_u32:
  assumes env: "inj ident" "codec_ok E" and X: "rep3 X"
  shows "achieves ident sid (\<lambda>p. single_extract_msb_u32 E (X p))
    (\<lambda>A. rep3 A \<and> open_xor bit_ring A = Bit (of_bool (bit (open_add word_ring X) 31)))"
proof -
  have "vec_shared (open_add word_ring) (\<lambda>p. [X p]) [open_add word_ring X]" using X by (simp add: vec_shared_def)
  note msb = achieves_extract_msb_u32 [OF env this]
  show ?thesis
    unfolding single_extract_msb_u32_def
  proof (rule achieves_bind [OF msb], elim exE conjE)
    fix A and r :: "u64 list"
    assume A: "bin_shared A r" and "length r = (length [open_add word_ring X] + 63) div 64"
      and bits: "\<forall>j < (length [open_add word_ring X] + 63) div 64. \<forall>i < 64. j * 64 + i < length [open_add word_ring X] \<longrightarrow>
        bit (r ! j) i = bit ([open_add word_ring X] ! (j * 64 + i)) 31"
    then have lr: "length r = 1" by simp
    have r0: "bit (r ! 0) 0 = bit (open_add word_ring X) 31" using bits by simp
    have A0: "rep3 (\<lambda>p. A p ! 0)" "open_xor word_ring (\<lambda>p. A p ! 0) = r ! 0"
      using vec_shared_nth [OF A, of 0] lr by simp_all
    have get: "vs_get_at (A p) 0 = Inr (A p ! 0)" for p using vec_shared_length [OF A, of p] lr by (simp add: vs_get_at_def)
    have b: "get_bit_as_bit word_ring x 0 = Bit (of_bool (bit x 0))" for x :: u64
      by (simp add: get_bit_as_bit_def share_simps Let_def and_one_eq bit_0 odd_iff_mod_2_eq_one)
    show "achieves ident sid (\<lambda>p. abind (atry (vs_get_at (A p) 0)) (\<lambda>s. let (a, b) = get_ab s
        in aret (Share_new (get_bit_as_bit word_ring a 0) (get_bit_as_bit word_ring b 0))))
      (\<lambda>A. rep3 A \<and> open_xor bit_ring A = Bit (of_bool (bit (open_add word_ring X) 31)))"
      unfolding get abind_atry get_ab_def Let_def prod.case b
    proof (rule achieves_ret, intro conjI)
      show "rep3 (\<lambda>p. Share_new (Bit (of_bool (bit (sh_a (A p ! 0)) 0))) (Bit (of_bool (bit (sh_b (A p ! 0)) 0))))"
        using A0(1) by (simp add: rep3_def Share_new_def)
      have "bit (r ! 0) 0 = ((bit (sh_a (A ID0 ! 0)) 0 \<noteq> bit (sh_a (A ID1 ! 0)) 0) \<noteq> bit (sh_a (A ID2 ! 0)) 0)"
        unfolding A0(2) [symmetric] by (simp add: open_xor_def re_xor_def share_simps bit_simps)
      then show "open_xor bit_ring (\<lambda>p. Share_new (Bit (of_bool (bit (sh_a (A p ! 0)) 0)))
          (Bit (of_bool (bit (sh_b (A p ! 0)) 0)))) = Bit (of_bool (bit (open_add word_ring X) 31))"
        unfolding r0 [symmetric] by (auto simp: open_xor_def re_xor_def share_simps Share_new_def)
    qed
  qed
qed

section \<open>Opening\<close>

lemma achieves_open_bin:
  assumes env: "inj ident" "codec_ok E" and X: "rep3 X"
  shows "achieves ident sid (\<lambda>p. open_bin E (X p)) (\<lambda>A. \<forall>p. A p = open_xor bit_ring X)"
  unfolding open_bin_def
  apply (rule achieves_boot_bind [where X = "\<lambda>p. ident (next_id p)"], simp add: boot_simps env)
  apply (rule achieves_round_bind [OF env(1)])
  apply (simp add: network_roundtrip [OF env(2)] abind_atry)
  apply (rule achieves_ret)
  subgoal
  proof
    fix p
    have "sh_b (X p) = sh_a (X (prev_id p))" "sh_b (X (prev_id p)) = sh_a (X (next_id p))" for p
      using X by (cases p; simp add: rep3_def)+
    then show "re_xor bit_ring (re_xor bit_ring (sh_a (X p)) (sh_b (X p))) (sh_b (X (prev_id p))) = open_xor bit_ring X"
      by (cases p) (simp_all add: open_xor_def re_xor_def bit_ring.xor_ac)
  qed
  done

section \<open>The most significant bits of a shared vector\<close>

text \<open>
  Extraction of the most significant bits. For a vector of \<open>u32\<close> shared by addition,
  \<open>extract_msb_u32\<close> completes at every party in every interleaving, and its result is shared words
  that hold, 64 to a word and in order, the most significant bits of the entries.
\<close>

theorem extract_msb_u32_correct:
  assumes "inj ident" "codec_ok E" "vec_shared (open_add word_ring) xs v"
  shows "completes ident sid (\<lambda>p. extract_msb_u32 E 32 (xs p))
    (\<lambda>A. \<exists>r :: u64 list. bin_shared A r \<and> length r = (length v + 63) div 64 \<and>
      (\<forall>j < (length v + 63) div 64. \<forall>i < 64. j * 64 + i < length v \<longrightarrow> bit (r ! j) i = bit (v ! (j * 64 + i)) 31))"
  by (rule achieves_completes [OF assms(1) achieves_extract_msb_u32 [OF assms]])

lemma add_shared_example: "vec_shared (open_add word_ring) (\<lambda>_. [\<lparr>sh_a = c, sh_b = c\<rparr>]) [c + c + c]"
  by (simp add: vec_shared_def rep3_def open_add_word)

theorem extract_msb_u32_correct_witness:
  "completes demo_ident 1 (\<lambda>p. extract_msb_u32 demo_env 32 [\<lparr>sh_a = 2 ^ 30, sh_b = 2 ^ 30\<rparr>])
    (\<lambda>A. \<exists>r :: u64 list. bin_shared A r \<and> length r = (length [2 ^ 30 + 2 ^ 30 + 2 ^ 30 :: u32] + 63) div 64 \<and>
      (\<forall>j < (length [2 ^ 30 + 2 ^ 30 + 2 ^ 30 :: u32] + 63) div 64. \<forall>i < 64.
        j * 64 + i < length [2 ^ 30 + 2 ^ 30 + 2 ^ 30 :: u32] \<longrightarrow>
        bit (r ! j) i = bit ([2 ^ 30 + 2 ^ 30 + 2 ^ 30 :: u32] ! (j * 64 + i)) 31))"
  by (rule extract_msb_u32_correct [OF inj_demo_ident demo_env_ok add_shared_example])

text \<open>
  Opening a bit. From a replicated sharing of a bit, \<open>open_bin\<close> completes at every party in every
  interleaving and gives every party the exclusive or of the three parts.
\<close>

theorem open_bin_correct:
  assumes "inj ident" "codec_ok E" "rep3 X"
  shows "completes ident sid (\<lambda>p. open_bin E (X p)) (\<lambda>A. \<forall>p. A p = open_xor bit_ring X)"
  by (rule achieves_completes [OF assms(1) achieves_open_bin [OF assms]])

theorem open_bin_correct_witness:
  "completes demo_ident 1 (\<lambda>p. open_bin demo_env \<lparr>sh_a = Bit 1, sh_b = Bit 1\<rparr>)
    (\<lambda>A. \<forall>p. A p = open_xor bit_ring (\<lambda>p. \<lparr>sh_a = Bit 1, sh_b = Bit 1\<rparr>))"
  by (rule open_bin_correct [OF inj_demo_ident demo_env_ok]) (simp add: rep3_def)

end
