(* ===== verification/ShareLifting.thy ===== *)
theory ShareLifting
  imports BinaryMsb
begin

text \<open>
  Correctness of the bit injection, which turns binary shares of bits into additive shares modulo
  $2^{16}$, and of \<open>lift\<close>, which turns additive shares modulo $2^{16}$ into shares of the same numbers
  modulo $2^{32}$.
\<close>

section \<open>Shared bits\<close>

definition bits_shared :: "(PartyID \<Rightarrow> Bit VecShare) \<Rightarrow> bool list \<Rightarrow> bool" where
  "bits_shared X bs \<longleftrightarrow> (\<forall>p. length (X p) = length bs) \<and>
     (\<forall>i < length bs. rep3 (\<lambda>p. X p ! i) \<and> (\<forall>p. valid_bit (sh_a (X p ! i))) \<and>
       open_xor bit_ring (\<lambda>p. X p ! i) = Bit (of_bool (bs ! i)))"

lemma vec_shared_Cons:
  "vec_shared opn (\<lambda>p. x p # X p) (v # w) \<longleftrightarrow> (rep3 x \<and> opn x = v) \<and> vec_shared opn X w"
  by (auto simp: vec_shared_def less_Suc_eq_0_disj)

lemma bits_shared_Cons:
  "bits_shared (\<lambda>p. x p # X p) (b # bs) \<longleftrightarrow>
     (rep3 x \<and> (\<forall>p. valid_bit (sh_a (x p))) \<and> open_xor bit_ring x = Bit (of_bool b)) \<and> bits_shared X bs"
  by (auto simp: bits_shared_def less_Suc_eq_0_disj)

lemma bits_shared_append:
  assumes "bits_shared X bs" "bits_shared Y cs"
  shows "bits_shared (\<lambda>p. X p @ Y p) (bs @ cs)"
proof -
  have len: "length (X p) = length bs" "length (Y p) = length cs" for p using assms by (simp_all add: bits_shared_def)
  show ?thesis
    unfolding bits_shared_def
  proof (intro conjI allI impI)
    fix i assume "i < length (bs @ cs)"
    then show "rep3 (\<lambda>p. (X p @ Y p) ! i)"
      "open_xor bit_ring (\<lambda>p. (X p @ Y p) ! i) = Bit (of_bool ((bs @ cs) ! i))"
      "\<And>p. valid_bit (sh_a ((X p @ Y p) ! i))"
      using assms by (cases "i < length bs"; simp add: nth_append len bits_shared_def)+
  qed (simp add: len)
qed

text \<open>The bits of shared words.\<close>

lemma bits_of_shared_words:
  assumes R: "bin_shared R (r :: u64 list)" and t: "t \<le> 64 * length r"
  shows "bits_shared (\<lambda>p. vs_truncate (convert_to_bits word_ring (R p)) t)
    (map (\<lambda>i. bit (r ! (i div 64)) (i mod 64)) [0..<t])"
proof -
  have len: "length (R p) = length r" for p by (rule vec_shared_length [OF R])
  have nth: "convert_to_bits word_ring (R p) ! i
      = \<lparr>sh_a = Bit (of_bool (bit (sh_a (R p ! (i div 64))) (i mod 64))),
         sh_b = Bit (of_bool (bit (sh_b (R p ! (i div 64))) (i mod 64)))\<rparr>" if "i < t" for p i
  proof -
    have "i div 64 < length (R p)" using that t len [of p] by (simp add: less_mult_imp_div_less mult.commute)
    then show ?thesis
      unfolding convert_to_bits_word
      by (subst nth_concat_equal [of 64])
        (use that t len [of p] in \<open>auto simp: from_share_word bits_of_def Share_new_def\<close>)
  qed
  have lenb: "length (convert_to_bits word_ring (R p)) = 64 * length r" for p
    unfolding convert_to_bits_word
    by (simp add: length_concat from_share_word len [of p, symmetric] sum_list_triv o_def)
  have rep: "rep3 (\<lambda>p. R p ! (i div 64))" and val: "open_xor word_ring (\<lambda>p. R p ! (i div 64)) = r ! (i div 64)"
    if "i < t" for i
    using vec_shared_nth [OF R, of "i div 64"] that t by (simp_all add: less_mult_imp_div_less mult.commute)
  show ?thesis
    unfolding bits_shared_def
  proof (intro conjI allI impI)
    fix i assume "i < length (map (\<lambda>i. bit (r ! (i div 64)) (i mod 64)) [0..<t])"
    then have i: "i < t" by simp
    have nthT: "vs_truncate (convert_to_bits word_ring (R p)) t ! i = convert_to_bits word_ring (R p) ! i" for p
      using i by (simp add: vs_truncate_def)
    show "rep3 (\<lambda>p. vs_truncate (convert_to_bits word_ring (R p)) t ! i)"
      using rep [OF i] by (simp add: nthT nth [OF i] rep3_def)
    show "valid_bit (sh_a (vs_truncate (convert_to_bits word_ring (R p)) t ! i))" for p
      by (simp add: nthT nth [OF i] valid_bit_def)
    show "open_xor bit_ring (\<lambda>p. vs_truncate (convert_to_bits word_ring (R p)) t ! i)
        = Bit (of_bool (map (\<lambda>i. bit (r ! (i div 64)) (i mod 64)) [0..<t] ! i))"
      using i by (simp add: nthT nth [OF i] val [OF i, symmetric])
        (auto simp: open_xor_def re_xor_def share_simps bit_simps)
  qed (simp add: vs_truncate_def lenb t)
qed

section \<open>The loops of the bit injection\<close>

lemma valid_bit_cases: "valid_bit b \<Longrightarrow> (b = Bit 0 \<Longrightarrow> P) \<Longrightarrow> (b = Bit 1 \<Longrightarrow> P) \<Longrightarrow> P"
  by (auto simp: valid_bit_def)

text \<open>One bit: \<open>x\<close> is its sharing, \<open>c2\<close> and \<open>c3\<close> the new summands, \<open>w0\<close> and \<open>w1\<close> the masks of the transfer.\<close>

lemma inject_bit:
  fixes c2 c3 w0 w1 :: u16
  assumes x: "rep3 x" "\<forall>p. valid_bit (sh_a (x p))" "open_xor bit_ring x = Bit (of_bool b)"
  defines "X \<equiv> of_bool (Bit_convert (re_xor bit_ring (sh_a (x ID2)) (sh_b (x ID2)))) :: u16"
  defines "m0 \<equiv> re_xor word_ring (re_sub word_ring X (re_add word_ring c3 c2)) w0"
    and "m1 \<equiv> re_xor word_ring (re_sub word_ring (re_xor word_ring X (re_one word_ring)) (re_add word_ring c3 c2)) w1"
    and "wc \<equiv> if Bit_convert (sh_a (x ID0)) then w1 else w0"
  defines "c1 \<equiv> if Bit_convert (sh_b (x ID1)) then re_xor word_ring wc m1 else re_xor word_ring wc m0"
  shows "c1 + c2 + c3 = of_bool b"
proof -
  have b: "sh_b (x ID2) = sh_a (x ID1)" "sh_b (x ID1) = sh_a (x ID0)" using x(1) by (simp_all add: rep3_iff)
  have c1: "c1 = (if Bit_convert (sh_a (x ID0)) then (X XOR 1) - (c3 + c2) else X - (c3 + c2))"
    unfolding c1_def wc_def m0_def m1_def b re_defs share_simps
    by (simp add: xor.assoc xor.commute [of w0] xor.commute [of w1] xor.left_commute)
  have eq: "c1 + c2 + c3 = (if Bit_convert (sh_a (x ID0)) then X XOR 1 else X)" unfolding c1 by simp
  have v: "valid_bit (sh_a (x ID0))" "valid_bit (sh_a (x ID1))" "valid_bit (sh_a (x ID2))" using x(2) by simp_all
  show ?thesis
    unfolding eq X_def b
    using x(3) v by (elim valid_bit_cases; cases b; simp add: open_xor_def re_xor_def share_simps Bit_convert_def)
qed

abbreviation by_party :: "'a \<Rightarrow> 'a \<Rightarrow> 'a \<Rightarrow> PartyID \<Rightarrow> 'a" where
  "by_party x y z p \<equiv> (case p of ID0 \<Rightarrow> x | ID1 \<Rightarrow> y | ID2 \<Rightarrow> z)"

lemma inject_loops:
  assumes "bits_shared X bs" "prev_prf P0 = my_prf P2" "my_prf P1 = prev_prf P2"
  shows "\<exists>s0 wc P0' s1 snd1 P1' s2 m0 m1 P2'.
    helper_loop gen (X ID0) P0 = ((s0, wc), P0') \<and> sender_loop gen (X ID2) P2 = ((s2, m0, m1), P2') \<and>
    receiver_loop gen (zip (zip (X ID1) wc) (zip m0 m1)) P1 = ((s1, snd1), P1') \<and>
    prev_prf P0' = my_prf P2' \<and> my_prf P1' = prev_prf P2' \<and> my_prf P0' = my_prf P0 \<and> prev_prf P1' = prev_prf P1 \<and>
    vec_shared (open_add word_ring) (by_party (zip_assign (\<lambda>s c. s\<lparr>sh_a := c\<rparr>) s0 snd1) s1 s2) (map of_bool bs)"
  using assms
proof (induction bs arbitrary: X P0 P1 P2)
  case Nil
  then have "X p = []" for p by (simp add: bits_shared_def)
  with Nil show ?case by (simp add: vec_shared_def zip_assign_def split: PartyID.split)
next
  case (Cons b bs)
  have "length (X p) = Suc (length bs)" for p using Cons.prems(1) by (simp add: bits_shared_def)
  then have X: "X p = hd (X p) # tl (X p)" for p by (metis length_Suc_conv list.sel(1,3))
  let ?x = "\<lambda>p. hd (X p)" and ?X = "\<lambda>p. tl (X p)"
  have x: "rep3 ?x" "\<forall>p. valid_bit (sh_a (?x p))" "open_xor bit_ring ?x = Bit (of_bool b)" "bits_shared ?X bs"
    using Cons.prems(1) bits_shared_Cons [of ?x ?X b bs] X [symmetric] by simp_all
  obtain c3 g1 w0 g2 w1 g3 where g: "gen (my_prf P2) = (c3, g1)" "gen g1 = (w0, g2)" "gen g2 = (w1, g3)"
    by (metis surj_pair)
  obtain c2 h where h: "gen (prev_prf P2) = (c2, h)" by (metis surj_pair)
  let ?P0 = "P0\<lparr>prev_prf := g3\<rparr>" and ?P1 = "P1\<lparr>my_prf := h\<rparr>" and ?P2 = "P2\<lparr>prev_prf := h, my_prf := g3\<rparr>"
  obtain s0 wc P0' s1 snd1 P1' s2 m0 m1 P2' where IH:
    "helper_loop gen (?X ID0) ?P0 = ((s0, wc), P0')" "sender_loop gen (?X ID2) ?P2 = ((s2, m0, m1), P2')"
    "receiver_loop gen (zip (zip (?X ID1) wc) (zip m0 m1)) ?P1 = ((s1, snd1), P1')"
    "prev_prf P0' = my_prf P2'" "my_prf P1' = prev_prf P2'" "my_prf P0' = my_prf P0" "prev_prf P1' = prev_prf P1"
    "vec_shared (open_add word_ring) (by_party (zip_assign (\<lambda>s c. s\<lparr>sh_a := c\<rparr>) s0 snd1) s1 s2) (map of_bool bs)"
    using Cons.IH [OF x(4), of ?P0 ?P2 ?P1] by auto
  define wb where "wb = (if Bit_convert (sh_a (?x ID0)) then w1 else w0)"
  define Y where "Y = (of_bool (Bit_convert (re_xor bit_ring (sh_a (?x ID2)) (sh_b (?x ID2)))) :: u16)"
  define n0 where "n0 = re_xor word_ring (re_sub word_ring Y (re_add word_ring c3 c2)) w0"
  define n1 where "n1 = re_xor word_ring (re_sub word_ring (re_xor word_ring Y (re_one word_ring)) (re_add word_ring c3 c2)) w1"
  define c1 where "c1 = (if Bit_convert (sh_b (?x ID1)) then re_xor word_ring wb n1 else re_xor word_ring wb n0)"
  have hl: "helper_loop gen (X ID0) P0 = ((Share_new 0 c3 # s0, wb # wc), P0')"
    by (subst X) (simp add: gen_prev_def Cons.prems(2) g IH(1) wb_def)
  have sl: "sender_loop gen (X ID2) P2 = ((Share_new c3 c2 # s2, n0 # m0, n1 # m1), P2')"
    by (subst X) (simp add: gen_my_def gen_prev_def gen_rands_def get_ab_def g h IH(2) n0_def n1_def Y_def Let_def)
  have rl: "receiver_loop gen (zip (zip (X ID1) (wb # wc)) (zip (n0 # m0) (n1 # m1))) P1
      = ((Share_new c2 c1 # s1, c1 # snd1), P1')"
    by (subst X) (simp add: gen_my_def Cons.prems(3) h IH(3) c1_def Let_def)
  have "c1 + c2 + c3 = of_bool b"
    unfolding c1_def wb_def n0_def n1_def Y_def by (rule inject_bit [OF x(1-3)])
  then have "vec_shared (open_add word_ring)
      (\<lambda>p. by_party \<lparr>sh_a = c1, sh_b = c3\<rparr> \<lparr>sh_a = c2, sh_b = c1\<rparr> \<lparr>sh_a = c3, sh_b = c2\<rparr> p #
         by_party (zip_assign (\<lambda>s c. s\<lparr>sh_a := c\<rparr>) s0 snd1) s1 s2 p) (of_bool b # map of_bool bs)"
    using IH(8) by (simp add: vec_shared_Cons rep3_iff open_add_word)
  moreover have "(\<lambda>p. by_party \<lparr>sh_a = c1, sh_b = c3\<rparr> \<lparr>sh_a = c2, sh_b = c1\<rparr> \<lparr>sh_a = c3, sh_b = c2\<rparr> p #
         by_party (zip_assign (\<lambda>s c. s\<lparr>sh_a := c\<rparr>) s0 snd1) s1 s2 p)
      = by_party (zip_assign (\<lambda>s c. s\<lparr>sh_a := c\<rparr>) (Share_new 0 c3 # s0) (c1 # snd1))
          (Share_new c2 c1 # s1) (Share_new c3 c2 # s2)"
    by (rule ext) (simp add: zip_assign_def Share_new_def split: PartyID.split)
  ultimately show ?case
    using hl sl rl IH(4-7) by auto
qed

section \<open>Bit injection\<close>

lemma achieves_bit_inject:
  assumes env: "inj ident" "codec_ok E" and X: "bits_shared X bs"
  shows "achieves ident sid (\<lambda>p. bit_inject_ot_2round E (X p))
    (\<lambda>A. vec_shared (open_add word_ring) A (map of_bool bs))"
  unfolding achieves_def
proof (intro allI impI)
  fix S :: "PartyID \<Rightarrow> 'b Session" assume S: "synced ident sid S"
  let ?P = "\<lambda>p. prf_setup (S p)"
  have boot: "boot_session (S p) = boot_of ident sid p" for p using S by (simp add: synced_def)
  have sync: "prev_prf (?P ID0) = my_prf (?P ID2)" "prev_prf (?P ID1) = my_prf (?P ID0)"
    "prev_prf (?P ID2) = my_prf (?P ID1)"
    using S by (simp_all add: synced_def all_parties)
  obtain s0 wc P0' s1 snd1 P1' s2 m0 m1 P2' where loops:
    "helper_loop (gen_u16 E) (X ID0) (?P ID0) = ((s0, wc), P0')"
    "sender_loop (gen_u16 E) (X ID2) (?P ID2) = ((s2, m0, m1), P2')"
    "receiver_loop (gen_u16 E) (zip (zip (X ID1) wc) (zip m0 m1)) (?P ID1) = ((s1, snd1), P1')"
    and prfs: "prev_prf P0' = my_prf P2'" "my_prf P1' = prev_prf P2'" "my_prf P0' = my_prf (?P ID0)"
      "prev_prf P1' = prev_prf (?P ID1)"
    and res: "vec_shared (open_add word_ring) (by_party (zip_assign (\<lambda>s c. s\<lparr>sh_a := c\<rparr>) s0 snd1) s1 s2) (map of_bool bs)"
    using inject_loops [OF X sync(1) sync(3) [symmetric], of "gen_u16 E"] by blast
  let ?M = "\<lambda>p. bit_inject_ot_2round E (X p) (S p)"
  let ?A = "by_party (zip_assign (\<lambda>s c. s\<lparr>sh_a := c\<rparr>) s0 snd1) s1 s2"
  let ?S = "\<lambda>p. (S p)\<lparr>prf_setup := by_party P0' P1' P2' p\<rparr>"
  note async = abind_def aboot_def aprf_def asend_def areceive_def atry_def aret_def asend_ignore_def boot boot_simps
    env(1) role_index_new network_roundtrip [OF env(2)]
  note run = bit_inject_ot_2round_def bit_inject_ot_2round_helper_def bit_inject_ot_2round_receiver_def
    bit_inject_ot_2round_sender_def expect_vec16_def
  have "\<exists>K. ?M ID0 = Snd (ident ID1) (to_network E (VecRing16 wc)) K \<and> (\<exists>L. K (Inr ()) = Rcv (ident ID1) L \<and>
      L (Inr (to_network E (VecRing16 snd1))) = Ret (Inr (?A ID0, ?S ID0)))"
    by (simp add: run async loops)
  then obtain K0 L0 where 0: "?M ID0 = Snd (ident ID1) (to_network E (VecRing16 wc)) K0" "K0 (Inr ()) = Rcv (ident ID1) L0"
    "L0 (Inr (to_network E (VecRing16 snd1))) = Ret (Inr (?A ID0, ?S ID0))" by blast
  have "\<exists>L. ?M ID1 = Rcv (ident ID2) L \<and> (\<exists>L'. L (Inr (vec_to_network E [VecRing16 m0, VecRing16 m1])) = Rcv (ident ID0) L' \<and>
      (\<exists>K. L' (Inr (to_network E (VecRing16 wc))) = Snd (ident ID0) (to_network E (VecRing16 snd1)) K \<and>
        K (Inr ()) = Ret (Inr (?A ID1, ?S ID1))))"
    by (simp add: run async loops)
  then obtain L1 L2 K1 where 1: "?M ID1 = Rcv (ident ID2) L1"
    "L1 (Inr (vec_to_network E [VecRing16 m0, VecRing16 m1])) = Rcv (ident ID0) L2"
    "L2 (Inr (to_network E (VecRing16 wc))) = Snd (ident ID0) (to_network E (VecRing16 snd1)) K1"
    "K1 (Inr ()) = Ret (Inr (?A ID1, ?S ID1))" by blast
  have "\<exists>K. ?M ID2 = Snd (ident ID1) (vec_to_network E [VecRing16 m0, VecRing16 m1]) K \<and> K (Inr ()) = Ret (Inr (?A ID2, ?S ID2))"
    by (simp add: run async loops)
  then obtain K2 where 2: "?M ID2 = Snd (ident ID1) (vec_to_network E [VecRing16 m0, VecRing16 m1]) K2"
    "K2 (Inr ()) = Ret (Inr (?A ID2, ?S ID2))" by blast
  note ch = quiet_channel [OF env(1)] and ids = inj_ident [OF env(1)]
  have "(step local_networking ident)\<^sup>*\<^sup>* (?M, quiet ident) (all_returned (\<lambda>p. Inr (?A p, ?S p)) (quiet ident))"
    apply (rule run_send [of _ ID2], rule 2(1), simp add: ch)
    apply (rule run_send [of _ ID0], simp add: 0(1), simp add: ch ids)
    apply (rule run_receive [of _ ID1], simp add: 1(1), simp add: ids)
    apply (rule run_receive [of _ ID1], simp add: 1(2), simp add: ids)
    apply (rule run_send [of _ ID1], simp add: 1(3), simp add: ch ids)
    apply (rule run_receive [of _ ID0], simp add: 0(2), simp add: ids)
    unfolding all_returned_def
    apply (rule run_done, rule prod_eqI; rule ext)
     apply (rename_tac p, case_tac p; simp add: 0(3) 1(4) 2(2))
    apply (auto simp: ch ids)
    done
  moreover have "synced ident sid ?S"
    using prfs sync by (simp add: synced_def all_parties boot)
  ultimately show "\<exists>A S'. (step local_networking ident)\<^sup>*\<^sup>* (?M, quiet ident)
      (all_returned (\<lambda>p. Inr (A p, S' p)) (quiet ident)) \<and> synced ident sid S' \<and>
      vec_shared (open_add word_ring) A (map of_bool bs)"
    using res by (intro exI [of _ ?A] exI [of _ ?S] conjI)
qed

section \<open>Lifting\<close>

lemma open_add_mul_lift:
  assumes "16 \<le> k" "k < 32"
  shows "open_add word_ring (\<lambda>p. mul_lift_2k k (X p)) = push_bit k (ucast (open_add word_ring X))"
proof -
  have "push_bit k (ucast (x + y) :: u32) = push_bit k (ucast x) + push_bit k (ucast y)" for x y :: u16
  proof -
    let ?z = "unat x + unat y"
    have pow: "(2 :: nat) ^ k * 2 ^ 16 = 2 ^ (k - 16) * 2 ^ 32" using assms(1) by (simp only: flip: power_add) simp
    have "2 ^ k * ?z = 2 ^ k * (?z mod 2 ^ 16 + 2 ^ 16 * (?z div 2 ^ 16))" by (simp only: mod_mult_div_eq)
    also have "\<dots> = 2 ^ k * (?z mod 2 ^ 16) + 2 ^ (k - 16) * (?z div 2 ^ 16) * 2 ^ 32"
      unfolding distrib_left mult.assoc [symmetric] pow by (simp only: ac_simps)
    finally have "(2 ^ k * (?z mod 2 ^ 16)) mod 2 ^ 32 = (2 ^ k * ?z) mod (2 :: nat) ^ 32"
      by (simp only: mod_mult_self1)
    moreover have push: "unat (push_bit k w) = (2 ^ k * unat w) mod 2 ^ 32" for w :: u32
      by (subst unsigned_push_bit_eq) (simp add: take_bit_eq_mod push_bit_eq_mult mult.commute)
    have "unat (push_bit k (ucast (x + y)) :: u32) = (2 ^ k * (?z mod 2 ^ 16)) mod 2 ^ 32"
      unfolding push by (simp add: unat_ucast_up unat_word_ariths)
    moreover have "unat (push_bit k (ucast x) + push_bit k (ucast y) :: u32) = (2 ^ k * ?z) mod 2 ^ 32"
      by (simp add: unat_word_ariths push unat_ucast_up distrib_left mod_add_eq)
    ultimately show ?thesis by (metis unsigned_word_eqI)
  qed
  then show ?thesis using assms(2) by (simp add: open_add_word mul_lift_2k_def Share_new_def)
qed

lemma add_shared_sub:
  fixes v w :: "'a::len word list"
  assumes "vec_shared (open_add word_ring) X v" "vec_shared (open_add word_ring) Y w" "length v = length w"
  shows "vec_shared (open_add word_ring) (\<lambda>p. vs_sub_assign word_ring (X p) (Y p)) (map2 (-) v w)"
proof -
  have len: "length (X p) = length w" "length (Y p) = length w" for p
    using assms by (simp_all add: vec_shared_length)
  have "rep3 (\<lambda>p. share_sub word_ring (X p ! i) (Y p ! i)) \<and>
      open_add word_ring (\<lambda>p. share_sub word_ring (X p ! i) (Y p ! i)) = v ! i - w ! i" if "i < length w" for i
    using vec_shared_nth [OF assms(1)] vec_shared_nth [OF assms(2)] that assms(3)
    by (auto simp: word_ring.open_add_sub share_simps)
  then show ?thesis by (simp add: vec_shared_def vs_sub_assign_def len assms(3))
qed

lemma mul_lift_shared:
  assumes "vec_shared (open_add word_ring) X v" "16 \<le> k" "k < 32"
  shows "vec_shared (open_add word_ring) (\<lambda>p. mul_lift_2k_many k (X p)) (map (\<lambda>x. push_bit k (ucast x)) v)"
proof -
  have len: "length (X p) = length v" for p using assms(1) by (rule vec_shared_length)
  have "rep3 (\<lambda>p. mul_lift_2k k (X p ! i))" if "rep3 (\<lambda>p. X p ! i)" for i
    using that by (simp add: rep3_def mul_lift_2k_def Share_new_def)
  then show ?thesis
    using vec_shared_nth [OF assms(1)] by (simp add: vec_shared_def mul_lift_2k_many_def len open_add_mul_lift [OF assms(2,3)])
qed

text \<open>Removing the two overflow bits of the sum of the zero-extended shares leaves the value.\<close>

lemma lift_value:
  fixes a0 a1 a2 :: u16
  assumes "of_bool b1 + 2 * of_bool b2 = (unat a0 + unat a1 + unat a2) div 2 ^ 16"
  shows "(ucast a0 + ucast a1 + ucast a2 :: u32) - push_bit 16 (ucast (of_bool b1 :: u16)) - push_bit 17 (ucast (of_bool b2 :: u16))
    = ucast (a0 + a1 + a2)"
proof -
  let ?s = "unat a0 + unat a1 + unat a2"
  have uc: "ucast x = (of_nat (unat x) :: u32)" for x :: u16 by (simp add: of_nat_unat)
  have "?s = ?s mod 2 ^ 16 + 2 ^ 16 * (of_bool b1 + 2 * of_bool b2)" unfolding assms by simp
  then have "(of_nat ?s :: u32) = of_nat (?s mod 2 ^ 16) + of_nat (2 ^ 16 * (of_bool b1 + 2 * of_bool b2))"
    by (metis of_nat_add)
  moreover have "unat (a0 + a1 + a2) = ?s mod 2 ^ 16" by (simp add: unat_word_ariths mod_simps)
  ultimately show ?thesis unfolding uc by (cases b1; cases b2) (simp_all add: push_bit_eq_mult algebra_simps)
qed

lemma achieves_lift:
  fixes v :: "u16 list"
  assumes env: "inj ident" "codec_ok E" and X: "vec_shared (open_add word_ring) xs v"
  shows "achieves ident sid (\<lambda>p. lift E (xs p)) (\<lambda>A. vec_shared (open_add word_ring) A (map ucast v))"
proof -
  let ?n = "length v" and ?m = "(length v + 63) div 64"
  have L: "LENGTH(16) = 16" by simp
  have len: "vs_len (xs p) = ?n" for p using vec_shared_length [OF X] by (simp add: vs_len_def)
  obtain Y where tr: "\<And>p. transpose_pack_u64_16 16 (xs p) = Some (Y p)" and Y: "rep_planes 16 ?m Y"
    and val: "\<forall>q. \<forall>j < ?m. \<forall>i < 64. j * 64 + i < ?n \<longrightarrow>
      bits_nat (lane (map (map sh_a) (Y q)) j i) = unat (sh_a (xs q ! (j * 64 + i)))"
    using planes_of_shares [OF transposes_16x64, of xs ?n, unfolded L] X
    unfolding transpose_pack_u64_16_def by (auto simp: vec_shared_def)
  note planes = a2b_planes_shared [OF Y]
  let ?xa = "\<lambda>p. map (\<lambda>s. Share_new (ucast (sh_a s) :: u32) (ucast (sh_b s))) (xs p)"
  let ?va = "map (\<lambda>i. ucast (sh_a (xs ID0 ! i)) + ucast (sh_a (xs ID1 ! i)) + ucast (sh_a (xs ID2 ! i)) :: u32) [0..<?n]"
  have xa: "vec_shared (open_add word_ring) ?xa ?va"
    using X by (simp add: vec_shared_def open_add_word Share_new_def rep3_def)
  show ?thesis
    unfolding lift_def Let_def
    apply (simp only: tr returns_def option.case abind_atry len)
    apply (rule achieves_boot_bind, rule a2b_planes_boot [OF env(1)])
    apply (simp only: prod.case)
  proof (rule achieves_bind [OF achieves_two_carries [OF env planes(1) planes(1) planes(1) planes(2) planes(2) planes(2)
          planes(3) planes(3) planes(3)]], simp, elim exE conjE)
    fix A R1 R2 and r1 r2 :: "u64 list"
    assume R: "bin_shared R1 r1" "bin_shared R2 r2" and lr: "length r1 = ?m" "length r2 = ?m"
      and A: "\<forall>p. A p = (vs_truncate (convert_to_bits word_ring (R1 p)) ?n, vs_truncate (convert_to_bits word_ring (R2 p)) ?n)"
      and sum: "\<forall>j < ?m. \<forall>i. of_bool (bit (r1 ! j) i) + 2 * of_bool (bit (r2 ! j) i)
        = (bits_nat (lane (map (map sh_a) (Y ID0)) j i) + bits_nat (lane (map (map sh_a) (Y ID1)) j i) +
            bits_nat (lane (map (map sh_a) (Y ID2)) j i)) div 2 ^ 16"
    let ?bs = "\<lambda>r. map (\<lambda>i. bit (r ! (i div 64)) (i mod 64)) [0..<?n]"
    have n: "?n \<le> 64 * length r1" "?n \<le> 64 * length r2" unfolding lr by simp_all
    have bits: "bits_shared (\<lambda>p. vs_extend (fst (A p)) (snd (A p))) (?bs r1 @ ?bs r2)"
      using bits_shared_append [OF bits_of_shared_words [OF R(1) n(1)] bits_of_shared_words [OF R(2) n(2)]]
      by (simp add: A vs_extend_def)
    show "achieves ident sid (\<lambda>p. case A p of (b1, b2) \<Rightarrow>
        abind (bit_inject_ot_2round E (vs_extend b1 b2)) (\<lambda>b. abind (atry (vs_split_at b ?n)) (\<lambda>(b1, b2).
        aret (vs_sub_assign word_ring (vs_sub_assign word_ring (?xa p) (mul_lift_2k_many 16 b1)) (mul_lift_2k_many (16 + 1) b2)))))
      (\<lambda>A. vec_shared (open_add word_ring) A (map ucast v))"
      unfolding case_prod_beta
    proof (rule achieves_bind [OF achieves_bit_inject [OF env bits]])
      fix B assume B: "vec_shared (open_add word_ring) B (map of_bool (?bs r1 @ ?bs r2) :: u16 list)"
      have lB: "length (B p) = 2 * ?n" for p using vec_shared_length [OF B, of p] by simp
      have split: "vs_split_at (B p) ?n = Inr (take ?n (B p), drop ?n (B p))" for p by (simp add: vs_split_at_def lB)
      have lt: "length (take ?n (B p)) = length (map of_bool (?bs r1) :: u16 list)" for p by (simp add: lB)
      have "vec_shared (open_add word_ring) (\<lambda>p. take ?n (B p) @ drop ?n (B p)) (map of_bool (?bs r1) @ map of_bool (?bs r2))"
        using B by simp
      then have b12: "vec_shared (open_add word_ring) (\<lambda>p. take ?n (B p)) (map of_bool (?bs r1) :: u16 list)"
        "vec_shared (open_add word_ring) (\<lambda>p. drop ?n (B p)) (map of_bool (?bs r2) :: u16 list)"
        unfolding vec_shared_append [OF lt] by blast+
      note res = add_shared_sub [OF add_shared_sub [OF xa mul_lift_shared [OF b12(1), of 16]] mul_lift_shared [OF b12(2), of 17]]
      have "v ! i = sh_a (xs ID0 ! i) + sh_a (xs ID1 ! i) + sh_a (xs ID2 ! i)" if "i < ?n" for i
        using vec_shared_nth [OF X that] by (simp add: open_add_word)
      moreover have "of_bool (bit (r1 ! (i div 64)) (i mod 64)) + 2 * of_bool (bit (r2 ! (i div 64)) (i mod 64))
          = (unat (sh_a (xs ID0 ! i)) + unat (sh_a (xs ID1 ! i)) + unat (sh_a (xs ID2 ! i))) div 2 ^ 16" if "i < ?n" for i
      proof -
        have "i div 64 < ?m" using that by simp
        moreover have "i div 64 * 64 + i mod 64 = i" by simp
        ultimately show ?thesis using sum val that by simp
      qed
      ultimately have "map2 (-) (map2 (-) ?va (map (\<lambda>x. push_bit 16 (ucast x)) (map of_bool (?bs r1) :: u16 list)))
          (map (\<lambda>x. push_bit 17 (ucast x)) (map of_bool (?bs r2) :: u16 list)) = map ucast v"
        by (intro nth_equalityI) (simp_all add: lift_value)
      with res show "achieves ident sid (\<lambda>p. abind (atry (vs_split_at (B p) ?n)) (\<lambda>b.
          aret (vs_sub_assign word_ring (vs_sub_assign word_ring (?xa p) (mul_lift_2k_many 16 (fst b)))
            (mul_lift_2k_many (16 + 1) (snd b))))) (\<lambda>A. vec_shared (open_add word_ring) A (map ucast v))"
        unfolding split abind_atry by (intro achieves_ret) simp
    qed
  qed
qed

section \<open>Injection and lifting\<close>

text \<open>
  Injection of shared bits. For a vector of bits shared by exclusive or, \<open>bit_inject_ot_2round\<close>,
  in which the three parties play the helper, the receiver and the sender of an oblivious transfer,
  completes at every party in every interleaving and returns additive shares of the same bits as
  numbers modulo 2^16.
\<close>

theorem bit_inject_ot_2round_correct:
  assumes "inj ident" "codec_ok E" "bits_shared X bs"
  shows "completes ident sid (\<lambda>p. bit_inject_ot_2round E (X p))
    (\<lambda>A. vec_shared (open_add word_ring) A (map of_bool bs))"
  by (rule achieves_completes [OF assms(1) achieves_bit_inject [OF assms]])

theorem bit_inject_ot_2round_correct_witness:
  "completes demo_ident 1 (\<lambda>p. bit_inject_ot_2round demo_env [\<lparr>sh_a = Bit 1, sh_b = Bit 1\<rparr>, \<lparr>sh_a = Bit 0, sh_b = Bit 0\<rparr>])
    (\<lambda>A. vec_shared (open_add word_ring) A (map of_bool [True, False]))"
  by (rule bit_inject_ot_2round_correct [OF inj_demo_ident demo_env_ok])
    (simp add: bits_shared_def less_Suc_eq rep3_def valid_bit_def open_xor_def re_defs share_simps)

text \<open>
  C24: Lifting of shares. For a vector of \<open>u16\<close> shared by addition modulo 2^16, \<open>lift\<close> completes at
  every party in every interleaving and returns additive shares modulo 2^32 of the same numbers.
\<close>

theorem lift_correct:
  fixes v :: "u16 list"
  assumes "inj ident" "codec_ok E" "vec_shared (open_add word_ring) xs v"
  shows "completes ident sid (\<lambda>p. lift E (xs p)) (\<lambda>A. vec_shared (open_add word_ring) A (map ucast v))"
  by (rule achieves_completes [OF assms(1) achieves_lift [OF assms]])

theorem lift_correct_witness:
  "completes demo_ident 1 (\<lambda>p. lift demo_env [\<lparr>sh_a = 60000, sh_b = 60000\<rparr>])
    (\<lambda>A. vec_shared (open_add word_ring) A (map ucast [60000 + 60000 + 60000 :: u16]))"
  by (rule lift_correct [OF inj_demo_ident demo_env_ok add_shared_example])

end
