(* ===== verification/Ops.thy ===== *)
theory Ops
  imports ShareLifting GaloisEngine
begin

text \<open>
  The protocol operations of the CPU parties (\<open>iris-mpc-cpu/src/protocol/ops.rs\<close>) and the sharing of
  irises for them (\<open>database_generators.rs\<close>): threshold comparison, signed lifting, comparison of two
  distances, conversion of additive shares and the match of two shared irises. The properties at the
  end state what the whole protocol computes.
\<close>

section \<open>Sharing irises\<close>

record GaloisRingSharedIris =
  shared_code :: GaloisRingIrisCodeShare
  shared_mask :: GaloisRingTrimmedMaskCodeShare

definition create_random_sharing :: "('r \<Rightarrow> u16 \<times> 'r) \<Rightarrow> u16 \<Rightarrow> 'r \<Rightarrow> u16 Share list \<times> 'r" where
  "create_random_sharing gen input rng =
     (let (a, rng) = gen rng;
          (b, rng) = gen rng;
          c = re_sub word_ring (re_sub word_ring input a) b
      in ([Share_new a c, Share_new b a, Share_new c b], rng))"

definition generate_galois_iris_shares ::
    "('r \<Rightarrow> u16 \<times> 'r) \<Rightarrow> 'r \<Rightarrow> IrisCode \<Rightarrow> (GaloisRingSharedIris list \<times> 'r) result" where
  "generate_galois_iris_shares gen rng iris =
     rbind (encode_iris_code gen (code iris) (mask iris) rng) (\<lambda>(code_shares, rng).
     rbind (encode_mask_code gen (mask iris) rng) (\<lambda>(mask_shares, rng).
     Inr (map (\<lambda>i. \<lparr>shared_code = code_shares ! i, shared_mask = trim_mask (mask_shares ! i)\<rparr>) [0, 1, 2], rng)))"

section \<open>Comparison with the threshold\<close>

definition B_BITS :: nat where
  "B_BITS = 16"

definition threshold_B :: nat where
  "threshold_B = push_bit B_BITS 1"

definition threshold_A :: nat where
  "threshold_A = nat \<lfloor>(1 - 2 * MATCH_THRESHOLD_RATIO) * of_nat threshold_B\<rfloor>"

definition compare_threshold :: "('w, 'g) Env \<Rightarrow> u32 Share \<Rightarrow> u32 Share \<Rightarrow> ('w, 'g, Bit Share) async" where
  "compare_threshold E cdot mdot =
     (let x = share_mul_const word_ring mdot (of_nat threshold_A);
          y = share_mul_const word_ring cdot (of_nat threshold_B);
          x = share_sub word_ring x y
      in single_extract_msb_u32 E x)"

definition lift_and_compare_threshold :: "('w, 'g) Env \<Rightarrow> u16 Share \<Rightarrow> u16 Share \<Rightarrow> ('w, 'g, Bit Share) async" where
  "lift_and_compare_threshold E cdot mdot =
     (let y = mul_lift_2k B_BITS cdot in
      abind (lift E [mdot]) (\<lambda>x.
      abind (atry (case fst (vs_pop x) of
                     None \<Rightarrow> Inl (Panic ''Expected a single element in the VecShare'')
                   | Some x \<Rightarrow> Inr x)) (\<lambda>x.
      let x = share_mul_const word_ring x (of_nat threshold_A);
          x = share_sub word_ring x y
      in single_extract_msb_u32 E x)))"

section \<open>Signed lifting\<close>

definition add_const_all ::
    "BootSession \<Rightarrow> 'a::len word \<Rightarrow> 'a word VecShare \<Rightarrow> 'a word VecShare result" where
  "add_const_all session c v =
     rmap (\<lambda>s. rbind (own_role session) (\<lambda>role. add_assign_const_role word_ring s c role)) v"

definition batch_signed_lift :: "('w, 'g) Env \<Rightarrow> u16 VecShare \<Rightarrow> ('w, 'g, u32 VecShare) async" where
  "batch_signed_lift E pre_lift =
     abind (aboot (\<lambda>session. add_const_all session (push_bit 15 1) pre_lift)) (\<lambda>pre_lift.
     abind (lift E pre_lift) (\<lambda>lifted_values.
     aboot (\<lambda>session. add_const_all session (of_nat (2 ^ 32 - 2 ^ 15)) lifted_values)))"

definition batch_signed_lift_vec :: "('w, 'g) Env \<Rightarrow> u16 Share list \<Rightarrow> ('w, 'g, u32 Share list) async" where
  "batch_signed_lift_vec E pre_lift = batch_signed_lift E pre_lift"

section \<open>Comparison of two distances\<close>

definition cross_mul ::
    "('w, 'g) Env \<Rightarrow> u32 Share \<Rightarrow> u32 Share \<Rightarrow> u32 Share \<Rightarrow> u32 Share \<Rightarrow> ('w, 'g, u32 Share) async" where
  "cross_mul E d1 t1 d2 t2 =
     abind (aprf (gen_zero_share word_ring (gen_u32 E))) (\<lambda>z.
     let res_a = re_sub word_ring (re_add word_ring z (share_mul_local word_ring d2 t1)) (share_mul_local word_ring t2 d1) in
     abind (aboot (\<lambda>b. rbind (own_role b) (\<lambda>role. rbind (role_next role 3) (identity b)))) (\<lambda>next_role.
     abind (aboot (\<lambda>b. rbind (own_role b) (\<lambda>role. identity b (role_prev role 3)))) (\<lambda>prev_role.
     abind (asend (to_network E (RingElement32 res_a)) next_role) (\<lambda>_.
     abind (areceive prev_role) (\<lambda>serialized_reply.
     abind (atry (case from_network E serialized_reply of
                    Inr (RingElement32 element) \<Rightarrow> Inr element
                  | _ \<Rightarrow> Inl (Eyre ''Could not deserialize RingElement32''))) (\<lambda>res_b.
     aret (Share_new res_a res_b)))))))"

definition cross_compare ::
    "('w, 'g) Env \<Rightarrow> u32 Share \<Rightarrow> u32 Share \<Rightarrow> u32 Share \<Rightarrow> u32 Share \<Rightarrow> ('w, 'g, bool) async" where
  "cross_compare E d1 t1 d2 t2 =
     abind (cross_mul E d1 t1 d2 t2) (\<lambda>diff.
     abind (single_extract_msb_u32 E diff) (\<lambda>b.
     abind (open_bin E b) (\<lambda>opened_b.
     aret (Bit_convert opened_b))))"

section \<open>Matching\<close>

definition galois_ring_pairwise_distance ::
    "(GaloisRingSharedIris \<times> GaloisRingSharedIris) list \<Rightarrow> ('w, 'g, u16 list) async" where
  "galois_ring_pairwise_distance pairs =
     aret (concat (map (\<lambda>(x, y).
       let cdot = trick_dot (shared_code x) (shared_code y);
           mdot = tm_trick_dot (shared_mask x) (shared_mask y)
       in [cdot, re_mul word_ring 2 mdot]) pairs))"

definition galois_ring_to_rep3 :: "('w, 'g) Env \<Rightarrow> u16 list \<Rightarrow> ('w, 'g, u16 Share list) async" where
  "galois_ring_to_rep3 E items =
     abind (aboot next_identity) (\<lambda>next_party.
     abind (amap (\<lambda>x. abind (aprf (gen_zero_share word_ring (gen_u16 E))) (\<lambda>z. aret (re_add word_ring z x))) items) (\<lambda>masked_items.
     abind (asend (to_network E (VecRing16 masked_items)) next_party) (\<lambda>_.
     abind (aboot prev_identity) (\<lambda>prev_party.
     abind (areceive prev_party) (\<lambda>serialized_other_share.
     abind (atry (case from_network E serialized_other_share of
                    Inr (VecRing16 message) \<Rightarrow> Inr message
                  | _ \<Rightarrow> Inl (Eyre ''Error in receiving in galois_ring_to_rep3 operation''))) (\<lambda>shares_b.
     aret (map2 Share_new masked_items shares_b)))))))"

definition galois_ring_is_match ::
    "('w, 'g) Env \<Rightarrow> (GaloisRingSharedIris \<times> GaloisRingSharedIris) list \<Rightarrow> ('w, 'g, bool) async" where
  "galois_ring_is_match E pairs =
     (if length pairs \<noteq> 1 then atry (Inl (Panic ''assertion failed: pairs.len() == 1''))
      else
        abind (galois_ring_pairwise_distance pairs) (\<lambda>additive_dots.
        abind (galois_ring_to_rep3 E additive_dots) (\<lambda>rep_dots.
        abind (atry (vec_index rep_dots 0)) (\<lambda>dot0.
        abind (atry (vec_index rep_dots 1)) (\<lambda>dot1.
        abind (lift_and_compare_threshold E dot0 dot1) (\<lambda>b.
        abind (open_bin E b) (\<lambda>opened.
        aret (Bit_convert opened))))))))"

definition compare_threshold_and_open :: "('w, 'g) Env \<Rightarrow> u32 DistanceShare \<Rightarrow> ('w, 'g, bool) async" where
  "compare_threshold_and_open E distance =
     abind (compare_threshold E (code_dot distance) (mask_dot distance)) (\<lambda>b.
     abind (open_bin E b) (\<lambda>opened.
     aret (Bit_convert opened)))"

section \<open>Signs of machine integers\<close>

lemma threshold_values: "threshold_B = 65536" "threshold_A = 16384"
  by (simp_all add: threshold_A_def threshold_B_def B_BITS_def MATCH_THRESHOLD_RATIO_def)

lemma msb_of_int:
  assumes "- (2 ^ 31) \<le> z" "z < 2 ^ 31"
  shows "bit (of_int z :: u32) 31 \<longleftrightarrow> z < 0"
proof -
  have "bit (of_int z :: u32) 31 \<longleftrightarrow> odd (z div 2 ^ 31)"
    by (simp add: bit_word_of_int_iff) (simp add: bit_iff_odd)
  moreover have "z div 2 ^ 31 = (if z < 0 then - 1 else 0)"
    using assms by (cases "z < 0") (auto intro: int_div_pos_eq [of z "2 ^ 31" "- 1" "z + 2 ^ 31", simplified])
  ultimately show ?thesis by simp
qed

lemma lift_16_of_int: "push_bit 16 (ucast (of_int z :: u16)) = (of_int (65536 * z) :: u32)"
proof -
  have eq: "65536 * z = push_bit 16 z" by (simp add: push_bit_eq_mult)
  show ?thesis unfolding eq by (rule bit_word_eqI) (auto simp: bit_word_of_int_iff bit_simps)
qed

section \<open>The operations as joint programs\<close>

lemma achieves_compare_threshold:
  assumes env: "inj ident" "codec_ok E" and C: "rep3 C" "open_add word_ring C = of_int c"
    and M: "rep3 M" "open_add word_ring M = of_int m" and rng: "\<bar>16384 * m - 65536 * c\<bar> < 2 ^ 31"
  shows "achieves ident sid (\<lambda>p. compare_threshold E (C p) (M p))
    (\<lambda>A. rep3 A \<and> open_xor bit_ring A = Bit (of_bool (16384 * m < 65536 * c)))"
proof -
  let ?x = "\<lambda>p. share_sub word_ring (share_mul_const word_ring (M p) (of_nat threshold_A))
    (share_mul_const word_ring (C p) (of_nat threshold_B))"
  have x: "rep3 ?x" using C(1) M(1) by (intro rep3_ops)
  have "open_add word_ring ?x = of_int (16384 * m - 65536 * c)"
    by (simp add: word_ring.open_add_sub word_ring.open_add_mul_const C M share_simps threshold_values)
  moreover have "bit (of_int (16384 * m - 65536 * c) :: u32) 31 \<longleftrightarrow> 16384 * m < 65536 * c"
    by (subst msb_of_int) (use rng in auto)
  ultimately show ?thesis
    unfolding compare_threshold_def Let_def
    using achieves_single_extract_msb_u32 [OF env x] by simp
qed

lemma achieves_lift_and_compare:
  assumes env: "inj ident" "codec_ok E" and C: "rep3 C" "open_add word_ring C = (of_int c :: u16)"
    and M: "rep3 M" "open_add word_ring M = (of_nat m :: u16)"
    and rng: "m < 2 ^ 16" "\<bar>16384 * int m - 65536 * c\<bar> < 2 ^ 31"
  shows "achieves ident sid (\<lambda>p. lift_and_compare_threshold E (C p) (M p))
    (\<lambda>A. rep3 A \<and> open_xor bit_ring A = Bit (of_bool (16384 * int m < 65536 * c)))"
proof -
  have "vec_shared (open_add word_ring) (\<lambda>p. [M p]) [of_nat m]" using M by (simp add: vec_shared_def)
  note lifted = achieves_lift [OF env this]
  have Y: "rep3 (\<lambda>p. mul_lift_2k B_BITS (C p))"
    using C(1) by (simp add: rep3_def mul_lift_2k_def Share_new_def)
  have y: "open_add word_ring (\<lambda>p. mul_lift_2k B_BITS (C p)) = of_int (65536 * c)"
    using open_add_mul_lift [of 16 C] C(2) lift_16_of_int [of c] by (simp add: B_BITS_def)
  show ?thesis
    unfolding lift_and_compare_threshold_def Let_def
  proof (rule achieves_bind [OF lifted])
    fix A assume A: "vec_shared (open_add word_ring) A (map ucast [of_nat m :: u16] :: u32 list)"
    have len: "length (A p) = 1" for p using vec_shared_length [OF A, of p] by simp
    then have ne: "A p \<noteq> []" "last (A p) = A p ! 0" for p
      by (metis list.size(3) zero_neq_one) (metis len One_nat_def diff_Suc_1 last_conv_nth list.size(3) zero_neq_one)
    have pop: "(case fst (vs_pop (A p)) of None \<Rightarrow> Inl (Panic ''Expected a single element in the VecShare'')
        | Some x \<Rightarrow> Inr x) = (Inr (A p ! 0) :: u32 Share result)" for p by (simp add: vs_pop_def ne)
    have "(ucast (of_nat m :: u16) :: u32) = of_nat m"
      using rng(1) by (simp add: unsigned_of_nat take_bit_nat_eq_self)
    then have A0: "rep3 (\<lambda>p. A p ! 0)" "open_add word_ring (\<lambda>p. A p ! 0) = of_nat m"
      using vec_shared_nth [OF A, of 0] by simp_all
    let ?x = "\<lambda>p. share_sub word_ring (share_mul_const word_ring (A p ! 0) (of_nat threshold_A)) (mul_lift_2k B_BITS (C p))"
    have x: "rep3 ?x" using A0(1) Y by (intro rep3_ops)
    have "open_add word_ring ?x = of_int (16384 * int m - 65536 * c)"
      by (simp add: word_ring.open_add_sub word_ring.open_add_mul_const A0 y share_simps threshold_values)
    moreover have "bit (of_int (16384 * int m - 65536 * c) :: u32) 31 \<longleftrightarrow> 16384 * int m < 65536 * c"
      by (subst msb_of_int) (use rng in auto)
    ultimately show "achieves ident sid (\<lambda>p. abind (atry (case fst (vs_pop (A p)) of
          None \<Rightarrow> Inl (Panic ''Expected a single element in the VecShare'') | Some x \<Rightarrow> Inr x)) (\<lambda>x.
        single_extract_msb_u32 E (share_sub word_ring (share_mul_const word_ring x (of_nat threshold_A)) (mul_lift_2k B_BITS (C p)))))
      (\<lambda>A. rep3 A \<and> open_xor bit_ring A = Bit (of_bool (16384 * int m < 65536 * c)))"
      unfolding pop abind_atry using achieves_single_extract_msb_u32 [OF env x] by simp
  qed
qed

lemma achieves_zero_sum:
  "achieves ident sid (\<lambda>p. aprf (gen_zero_share word_ring gen)) (\<lambda>A :: PartyID \<Rightarrow> 'a::len word. A ID0 + A ID1 + A ID2 = 0)"
  by (rule achieves_conseq [OF achieves_gen_zero_share]) (auto simp: re_defs share_simps)

lemma achieves_cross_mul:
  assumes env: "inj ident" "codec_ok E" and reps: "rep3 D1" "rep3 T1" "rep3 D2" "rep3 T2"
  shows "achieves ident sid (\<lambda>p. cross_mul E (D1 p) (T1 p) (D2 p) (T2 p))
    (\<lambda>A. rep3 A \<and> open_add word_ring A = open_add word_ring D2 * open_add word_ring T1 - open_add word_ring T2 * open_add word_ring D1)"
proof -
  let ?loc = "\<lambda>p. share_mul_local word_ring (D2 p) (T1 p) - share_mul_local word_ring (T2 p) (D1 p)"
  have sum: "?loc ID0 + ?loc ID1 + ?loc ID2
      = open_add word_ring D2 * open_add word_ring T1 - open_add word_ring T2 * open_add word_ring D1"
    unfolding word_ring.local_products [OF reps(3,2), unfolded share_simps, symmetric]
      word_ring.local_products [OF reps(4,1), unfolded share_simps, symmetric] by simp
  show ?thesis
    unfolding cross_mul_def Let_def
    apply (rule achieves_bind [OF achieves_zero_sum])
    apply (rule achieves_boot_bind [where X = "\<lambda>p. ident (next_id p)"], simp add: boot_simps env)
    apply (rule achieves_boot_bind [where X = "\<lambda>p. ident (prev_id p)"], simp add: boot_simps env)
    apply (rule achieves_exchange_bind [OF env(1)])
    apply (simp add: network_roundtrip [OF env(2)] abind_atry)
    apply (rule achieves_ret)
    subgoal for Z
    proof -
      have "Z ID0 + share_mul_local word_ring (D2 ID0) (T1 ID0) - share_mul_local word_ring (T2 ID0) (D1 ID0)
        + (Z ID1 + share_mul_local word_ring (D2 ID1) (T1 ID1) - share_mul_local word_ring (T2 ID1) (D1 ID1))
        + (Z ID2 + share_mul_local word_ring (D2 ID2) (T1 ID2) - share_mul_local word_ring (T2 ID2) (D1 ID2))
        = (Z ID0 + Z ID1 + Z ID2) + (?loc ID0 + ?loc ID1 + ?loc ID2)" by simp
      moreover assume "Z ID0 + Z ID1 + Z ID2 = 0"
      ultimately show ?thesis by (simp add: rep3_def open_add_word Share_new_def re_defs share_simps sum)
    qed
    done
qed

lemma achieves_open_decision:
  assumes env: "inj ident" "codec_ok E"
    and M: "achieves ident sid M (\<lambda>A. rep3 A \<and> open_xor bit_ring A = Bit (of_bool d))"
  shows "achieves ident sid (\<lambda>p. abind (M p) (\<lambda>b. abind (open_bin E b) (\<lambda>opened. aret (Bit_convert opened))))
    (\<lambda>A. \<forall>p. A p = d)"
  by (rule achieves_bind [OF M], elim conjE, rule achieves_bind [OF achieves_open_bin [OF env]], assumption,
      rule achieves_ret) (simp add: Bit_convert_def)

lemma achieves_cross_compare:
  assumes env: "inj ident" "codec_ok E" and reps: "rep3 D1" "rep3 T1" "rep3 D2" "rep3 T2"
    and vals: "open_add word_ring D1 = of_int d1" "open_add word_ring T1 = of_int t1"
      "open_add word_ring D2 = of_int d2" "open_add word_ring T2 = of_int t2"
    and rng: "\<bar>d2 * t1 - d1 * t2\<bar> < 2 ^ 31"
  shows "achieves ident sid (\<lambda>p. cross_compare E (D1 p) (T1 p) (D2 p) (T2 p)) (\<lambda>A. \<forall>p. A p = (d2 * t1 < d1 * t2))"
proof -
  have "achieves ident sid (\<lambda>p. abind (cross_mul E (D1 p) (T1 p) (D2 p) (T2 p)) (single_extract_msb_u32 E))
    (\<lambda>A. rep3 A \<and> open_xor bit_ring A = Bit (of_bool (d2 * t1 < d1 * t2)))"
  proof (rule achieves_bind [OF achieves_cross_mul [OF env reps]], elim conjE)
    fix X assume X: "rep3 X" "open_add word_ring X
      = open_add word_ring D2 * open_add word_ring T1 - open_add word_ring T2 * open_add word_ring D1"
    have "open_add word_ring X = of_int (d2 * t1 - d1 * t2)" by (simp add: X vals mult.commute)
    moreover have "bit (of_int (d2 * t1 - d1 * t2) :: u32) 31 \<longleftrightarrow> d2 * t1 < d1 * t2"
      by (subst msb_of_int) (use rng in auto)
    ultimately show "achieves ident sid (\<lambda>p. single_extract_msb_u32 E (X p))
        (\<lambda>A. rep3 A \<and> open_xor bit_ring A = Bit (of_bool (d2 * t1 < d1 * t2)))"
      using achieves_single_extract_msb_u32 [OF env X(1)] by simp
  qed
  from achieves_open_decision [OF env this] show ?thesis
    unfolding cross_compare_def abind_assoc .
qed

lemma achieves_to_rep3:
  fixes v :: "u16 list"
  assumes env: "inj ident" "codec_ok E" and len: "\<And>p. length (xs p) = length v"
    and sum: "\<And>i. i < length v \<Longrightarrow> xs ID0 ! i + xs ID1 ! i + xs ID2 ! i = v ! i"
  shows "achieves ident sid (\<lambda>p. galois_ring_to_rep3 E (xs p)) (\<lambda>A. vec_shared (open_add word_ring) A v)"
proof -
  let ?P = "\<lambda>i A. open_add word_ring (\<lambda>p. Share_new (A p) (A (prev_id p))) = v ! i"
  have masked: "achieves ident sid
    (\<lambda>p. amap (\<lambda>x. abind (aprf (gen_zero_share word_ring (gen_u16 E))) (\<lambda>z. aret (re_add word_ring z x))) (xs p))
    (\<lambda>A. (\<forall>p. length (A p) = length v) \<and> (\<forall>i < length v. ?P i (\<lambda>p. A p ! i)))"
  proof (rule achieves_amap [OF len])
    fix i assume i: "i < length v"
    show "achieves ident sid (\<lambda>p. abind (aprf (gen_zero_share word_ring (gen_u16 E))) (\<lambda>z. aret (re_add word_ring z (xs p ! i)))) (?P i)"
    proof (rule achieves_bind [OF achieves_zero_sum], rule achieves_ret)
      fix Z :: "PartyID \<Rightarrow> u16" assume Z: "Z ID0 + Z ID1 + Z ID2 = 0"
      have "Z ID0 + xs ID0 ! i + (Z ID1 + xs ID1 ! i) + (Z ID2 + xs ID2 ! i)
        = (Z ID0 + Z ID1 + Z ID2) + (xs ID0 ! i + xs ID1 ! i + xs ID2 ! i)" by simp
      with Z show "?P i (\<lambda>p. re_add word_ring (Z p) (xs p ! i))"
        by (simp add: open_add_word Share_new_def re_defs share_simps sum [OF i])
    qed
  qed
  show ?thesis
    unfolding galois_ring_to_rep3_def
    apply (rule achieves_boot_bind [where X = "\<lambda>p. ident (next_id p)"], simp add: boot_simps env)
    apply (rule achieves_bind [OF masked], elim conjE)
    apply (rule achieves_round_bind [OF env(1)])
    apply (simp add: network_roundtrip [OF env(2)] abind_atry)
    apply (rule achieves_ret)
    unfolding from_ab_def [symmetric]
    apply (rule reshare_shared)
     apply simp_all
    done
qed

section \<open>Matching two shared irises\<close>

lemma generate_full_encode:
  assumes "full_encode_iris_code gen x g = Inr (fs, g')" "length fs = 3"
  shows "generate_galois_iris_shares gen g x
    = Inr (map (\<lambda>f. \<lparr>shared_code = full_code f, shared_mask = full_mask f\<rparr>) fs, g')"
proof -
  obtain cs g1 ms where *: "encode_iris_code gen (code x) (mask x) g = Inr (cs, g1)"
    "encode_mask_code gen (mask x) g1 = Inr (ms, g')"
    "fs = map2 (\<lambda>c m. \<lparr>full_code = c, full_mask = trim_mask m\<rparr>) cs ms"
    using assms(1) by (auto simp: full_encode_iris_code_def rbind_case split: sum.splits)
  have n: "length cs \<ge> 3" "length ms \<ge> 3" using * (3) assms(2) by simp_all
  have "fs ! i = \<lparr>full_code = cs ! i, full_mask = trim_mask (ms ! i)\<rparr>" if "i < 3" for i
    using that n by (simp add: *(3))
  then have "fs = map (\<lambda>i. \<lparr>full_code = cs ! i, full_mask = trim_mask (ms ! i)\<rparr>) [0, 1, 2]"
    using list3_nth [OF assms(2)] by simp
  then show ?thesis by (simp add: generate_galois_iris_shares_def *(1,2))
qed

text \<open>The decision on the counts is the decision on the fractional distance.\<close>

lemma is_close_counts:
  "is_close x y \<longleftrightarrow> 16384 * int (card (common_mask x y))
     < 65536 * (int (card (common_mask x y)) - 2 * int (card (differing x y)))"
proof -
  have c: "common_mask x y = {i. i < IRIS_CODE_SIZE \<and> bit_at (mask x) i \<and> bit_at (mask y) i}"
    by (auto simp: common_mask_def IRIS_CODE_SIZE_def)
  have d: "differing x y = {i. i < IRIS_CODE_SIZE \<and> bit_at (code x) i \<noteq> bit_at (code y) i \<and>
                  bit_at (mask x) i \<and> bit_at (mask y) i}"
    by (auto simp: differing_def common_mask_def IRIS_CODE_SIZE_def)
  have "8 * k < 3 * m \<longleftrightarrow> 16384 * int m < 65536 * (int m - 2 * int k)" for k m by auto
  then show ?thesis unfolding is_close_bits c [symmetric] d [symmetric] .
qed

lemma achieves_is_match:
  assumes env: "inj ident" "codec_ok E"
    and code: "(\<Sum>p\<leftarrow>[ID0, ID1, ID2]. trick_dot (shared_code (X p)) (shared_code (Y p)))
      = of_int (int (card (common_mask x y)) - 2 * int (card (differing x y)))"
    and mask: "2 * (\<Sum>p\<leftarrow>[ID0, ID1, ID2]. tm_trick_dot (shared_mask (X p)) (shared_mask (Y p)))
      = of_nat (card (common_mask x y))"
  shows "achieves ident sid (\<lambda>p. galois_ring_is_match E [(X p, Y p)]) (\<lambda>A. \<forall>p. A p = is_close x y)"
proof -
  let ?m = "card (common_mask x y)" and ?d = "card (differing x y)"
  let ?v = "[of_int (int ?m - 2 * int ?d), of_nat ?m] :: u16 list"
  let ?xs = "\<lambda>p. [trick_dot (shared_code (X p)) (shared_code (Y p)),
    re_mul word_ring 2 (tm_trick_dot (shared_mask (X p)) (shared_mask (Y p)))]"
  have dots: "galois_ring_pairwise_distance [(X p, Y p)] = aret (?xs p)" for p
    by (simp add: galois_ring_pairwise_distance_def Let_def)
  have "?xs ID0 ! i + ?xs ID1 ! i + ?xs ID2 ! i = ?v ! i" if "i < length ?v" for i
    using that code mask by (auto simp: less_Suc_eq re_defs share_simps algebra_simps)
  from achieves_to_rep3 [where xs = ?xs and v = ?v, OF env _ this]
  have shared: "achieves ident sid (\<lambda>p. galois_ring_to_rep3 E (?xs p)) (\<lambda>A. vec_shared (open_add word_ring) A ?v)"
    by simp
  have len1: "\<not> length [(X p, Y p)] \<noteq> 1" for p by simp
  have dle: "?d \<le> ?m" "?m \<le> 12800" by (rule card_differing_le, rule card_common_mask_le)
  then have rng: "?m < 2 ^ 16" "\<bar>16384 * int ?m - 65536 * (int ?m - 2 * int ?d)\<bar> < 2 ^ 31" by simp_all
  show ?thesis
    unfolding galois_ring_is_match_def dots
    unfolding abind_aret if_not_P [OF len1]
  proof (rule achieves_bind [OF shared])
    fix A assume A: "vec_shared (open_add word_ring) A ?v"
    have idx: "vec_index (A p) 0 = Inr (A p ! 0)" "vec_index (A p) 1 = Inr (A p ! 1)" for p
      using vec_shared_length [OF A, of p] by (simp_all add: vec_index_def)
    have "achieves ident sid (\<lambda>p. lift_and_compare_threshold E (A p ! 0) (A p ! 1))
        (\<lambda>A. rep3 A \<and> open_xor bit_ring A = Bit (of_bool (is_close x y)))"
      unfolding is_close_counts 
      by (rule achieves_lift_and_compare [OF env])
        (use rng vec_shared_nth [OF A, of 0] vec_shared_nth [OF A, of 1] in simp_all)
    from achieves_open_decision [OF env this]
    show "achieves ident sid (\<lambda>p. abind (atry (vec_index (A p) 0)) (\<lambda>dot0.
        abind (atry (vec_index (A p) 1)) (\<lambda>dot1.
        abind (lift_and_compare_threshold E dot0 dot1) (\<lambda>b.
        abind (open_bin E b) (\<lambda>opened. aret (Bit_convert opened))))))
      (\<lambda>A. \<forall>p. A p = is_close x y)"
      unfolding idx abind_atry .
  qed
qed

text \<open>
  C1: The match protocol decides closeness. Share two well-formed irises with equal neighbouring mask
  bits among the three parties and preprocess the shares of the query; then \<open>galois_ring_is_match\<close>
  on the shares, run by three parties with synchronised sessions over the local network, ends at every
  party, in every interleaving, without an error, and its result at every party is whether the two
  irises are close, as the plaintext definition says.
\<close>

theorem galois_ring_is_match_correct:
  assumes "inj ident" "codec_ok E"
    and "wf_iris x" "wf_iris y" "paired_mask (mask x)" "paired_mask (mask y)"
  shows "\<exists>xs ys g' h' cs ms.
    generate_galois_iris_shares gen g x = Inr (xs, g') \<and>
    generate_galois_iris_shares gen h y = Inr (ys, h') \<and>
    rmap preprocess_iris_code_query_share (map shared_code ys) = Inr cs \<and>
    rmap preprocess_mask_code_query_share (map shared_mask ys) = Inr ms \<and>
    completes ident sid
      (\<lambda>p. galois_ring_is_match E [(xs ! usize_from_party p,
         \<lparr>shared_code = cs ! usize_from_party p, shared_mask = ms ! usize_from_party p\<rparr>)])
      (\<lambda>A. \<forall>p. A p = is_close x y)"
proof -
  obtain xs g' where xs: "full_encode_iris_code gen x g = Inr (xs, g')" "length xs = 3"
    "map (gi_id \<circ> full_code) xs = [1, 2, 3]" "map (tm_id \<circ> full_mask) xs = [1, 2, 3]"
    "sharing 3200 (map (gi_coefs \<circ> full_code) xs) (\<lambda>b. to_monomial (element_at (code_value x) b))"
    "sharing 1600 (map (tm_coefs \<circ> full_mask) xs) (\<lambda>b. to_monomial (element_at (mask_value (mask x)) b))"
    using assms(3) by (rule full_encode_sharing)
  obtain ys h' where ys: "full_encode_iris_code gen y h = Inr (ys, h')" "length ys = 3"
    "map (gi_id \<circ> full_code) ys = [1, 2, 3]" "map (tm_id \<circ> full_mask) ys = [1, 2, 3]"
    "sharing 3200 (map (gi_coefs \<circ> full_code) ys) (\<lambda>b. to_monomial (element_at (code_value y) b))"
    "sharing 1600 (map (tm_coefs \<circ> full_mask) ys) (\<lambda>b. to_monomial (element_at (mask_value (mask y)) b))"
    using assms(4) by (rule full_encode_sharing)
  let ?s = "\<lambda>f. \<lparr>shared_code = full_code f, shared_mask = full_mask f\<rparr>"
  obtain cs where cs: "rmap preprocess_iris_code_query_share (map full_code ys) = Inr cs"
    "trick_dot (map full_code xs ! 0) (cs ! 0) + trick_dot (map full_code xs ! 1) (cs ! 1)
      + trick_dot (map full_code xs ! 2) (cs ! 2)
      = of_int (int (card (common_mask x y)) - 2 * int (card (differing x y)))"
    using code_dot_shares [of "map full_code xs" x "map full_code ys" y] xs ys by auto
  obtain ms where ms: "rmap preprocess_mask_code_query_share (map full_mask ys) = Inr ms"
    "2 * (tm_trick_dot (map full_mask xs ! 0) (ms ! 0) + tm_trick_dot (map full_mask xs ! 1) (ms ! 1)
      + tm_trick_dot (map full_mask xs ! 2) (ms ! 2)) = of_nat (card (common_mask x y))"
    using mask_dot_shares [of "map full_mask xs" x "map full_mask ys" y] xs ys assms(5,6) by auto
  have maps: "map shared_code (map ?s zs) = map full_code zs" "map shared_mask (map ?s zs) = map full_mask zs" for zs
    by simp_all
  have "achieves ident sid (\<lambda>p. galois_ring_is_match E [(map ?s xs ! usize_from_party p,
         \<lparr>shared_code = cs ! usize_from_party p, shared_mask = ms ! usize_from_party p\<rparr>)])
      (\<lambda>A. \<forall>p. A p = is_close x y)"
    by (rule achieves_is_match [OF assms(1,2)]) (use cs(2) ms(2) xs(2) in \<open>simp_all add: add.assoc\<close>)
  note run = achieves_completes [OF assms(1) this]
  show ?thesis
    by (intro exI [of _ "map ?s xs"] exI [of _ "map ?s ys"] exI [of _ g'] exI [of _ h'] exI [of _ cs] exI [of _ ms]
        conjI generate_full_encode xs(1,2) ys(1,2) run) (simp_all only: maps cs(1) ms(1))
qed

theorem galois_ring_is_match_correct_witness:
  "\<exists>xs ys g' h' cs ms.
    generate_galois_iris_shares (\<lambda>g. (g, 3 * g + 1)) 5 iris_default = Inr (xs, g') \<and>
    generate_galois_iris_shares (\<lambda>g. (g, 3 * g + 1)) 9 iris_default = Inr (ys, h') \<and>
    rmap preprocess_iris_code_query_share (map shared_code ys) = Inr cs \<and>
    rmap preprocess_mask_code_query_share (map shared_mask ys) = Inr ms \<and>
    completes demo_ident 1
      (\<lambda>p. galois_ring_is_match demo_env [(xs ! usize_from_party p,
         \<lparr>shared_code = cs ! usize_from_party p, shared_mask = ms ! usize_from_party p\<rparr>)])
      (\<lambda>A. \<forall>p. A p = is_close iris_default iris_default)"
  by (rule galois_ring_is_match_correct [OF inj_demo_ident demo_env_ok]) (rule wf_iris_default)+

section \<open>Comparisons of shared distances\<close>

lemma rep3_const: "rep3 (\<lambda>_. \<lparr>sh_a = c, sh_b = c\<rparr>)"
  by (simp add: rep3_def)

lemma open_add_constant: "open_add word_ring (\<lambda>_. \<lparr>sh_a = c, sh_b = c\<rparr>) = c + c + c"
  by (simp add: open_add_word)

text \<open>
  Comparison with the match threshold. If the shares of a distance open to the numbers c and m, and
  16384 m - 65536 c fits a signed 32-bit word, \<open>compare_threshold_and_open\<close> completes at every party
  in every interleaving and tells every party whether c / m exceeds the threshold 16384 / 65536.
\<close>

theorem compare_threshold_and_open_correct:
  assumes "inj ident" "codec_ok E"
    and "rep3 (\<lambda>p. code_dot (D p))" "open_add word_ring (\<lambda>p. code_dot (D p)) = of_int c"
    and "rep3 (\<lambda>p. mask_dot (D p))" "open_add word_ring (\<lambda>p. mask_dot (D p)) = of_int m"
    and "\<bar>16384 * m - 65536 * c\<bar> < 2 ^ 31"
  shows "completes ident sid (\<lambda>p. compare_threshold_and_open E (D p)) (\<lambda>A. \<forall>p. A p = (16384 * m < 65536 * c))"
  unfolding compare_threshold_and_open_def
  by (rule achieves_completes [OF assms(1) achieves_open_decision [OF assms(1,2) achieves_compare_threshold [OF assms]]])

theorem compare_threshold_and_open_correct_witness:
  "completes demo_ident 1 (\<lambda>p. compare_threshold_and_open demo_env
      \<lparr>code_dot = \<lparr>sh_a = 100, sh_b = 100\<rparr>, mask_dot = \<lparr>sh_a = 1000, sh_b = 1000\<rparr>\<rparr>)
    (\<lambda>A. \<forall>p. A p = (16384 * (3000::int) < 65536 * 300))"
  by (rule compare_threshold_and_open_correct [OF inj_demo_ident demo_env_ok])
    (simp_all add: rep3_const open_add_constant)

text \<open>
  C25: Comparison of two distances. If the shares of the two fractions d1 / t1 and d2 / t2 open to these
  numbers and d2 t1 - d1 t2 fits a signed 32-bit word, \<open>cross_compare\<close> completes at every party in
  every interleaving and tells every party whether d2 t1 is less than d1 t2.
\<close>

theorem cross_compare_correct:
  assumes "inj ident" "codec_ok E" "rep3 D1" "rep3 T1" "rep3 D2" "rep3 T2"
    and "open_add word_ring D1 = of_int d1" "open_add word_ring T1 = of_int t1"
      "open_add word_ring D2 = of_int d2" "open_add word_ring T2 = of_int t2"
    and "\<bar>d2 * t1 - d1 * t2\<bar> < 2 ^ 31"
  shows "completes ident sid (\<lambda>p. cross_compare E (D1 p) (T1 p) (D2 p) (T2 p)) (\<lambda>A. \<forall>p. A p = (d2 * t1 < d1 * t2))"
  by (rule achieves_completes [OF assms(1) achieves_cross_compare [OF assms]])

theorem cross_compare_correct_witness:
  "completes demo_ident 1 (\<lambda>p. cross_compare demo_env \<lparr>sh_a = 100, sh_b = 100\<rparr> \<lparr>sh_a = 1000, sh_b = 1000\<rparr>
      \<lparr>sh_a = 50, sh_b = 50\<rparr> \<lparr>sh_a = 1000, sh_b = 1000\<rparr>)
    (\<lambda>A. \<forall>p. A p = (150 * (3000::int) < 300 * 3000))"
  by (rule cross_compare_correct [OF inj_demo_ident demo_env_ok rep3_const rep3_const rep3_const rep3_const])
    (simp_all add: open_add_constant)

section \<open>Signed lifting of shared vectors\<close>

lemma add_const_all_ok:
  assumes "inj ident"
  shows "add_const_all (boot_of ident sid p) c v = Inr (map (\<lambda>s. add_assign_const word_ring s c p) v)"
proof -
  have "rbind (own_role (boot_of ident sid p)) (\<lambda>role. add_assign_const_role word_ring s c role)
      = Inr (add_assign_const word_ring s c p)" for s
    by (cases p) (simp_all add: boot_simps assms add_assign_const_role_def add_assign_const_def role_index_new del: One_nat_def)
  then have "(\<lambda>s. rbind (own_role (boot_of ident sid p)) (\<lambda>role. add_assign_const_role word_ring s c role))
      = (\<lambda>s. Inr (add_assign_const word_ring s c p))" by (rule ext)
  then show ?thesis unfolding add_const_all_def by (simp only:) (induction v, simp_all)
qed

lemma vec_shared_add_const:
  assumes "vec_shared (open_add word_ring) X v"
  shows "vec_shared (open_add word_ring) (\<lambda>p. map (\<lambda>s. add_assign_const word_ring s c p) (X p)) (map (\<lambda>x. x + c) v)"
  using assms unfolding vec_shared_def
  by (auto simp: rep3_add_const word_ring.open_add_const share_simps)

lemma signed_lift_word: "ucast (x + push_bit 15 1 :: u16) + of_nat (2 ^ 32 - 2 ^ 15) = (scast x :: u32)"
proof -
  let ?z = "sint x"
  have rng: "- 32768 \<le> ?z" "?z < 32768" using sint_ge [of x] sint_lt [of x] by simp_all
  have "x + push_bit 15 1 = of_int (?z + 32768)" by (simp add: push_bit_eq_mult)
  then have "(ucast (x + push_bit 15 1) :: u32) = of_int (take_bit 16 (?z + 32768))"
    by (simp only: unsigned_of_int) simp
  also have "take_bit 16 (?z + 32768) = ?z + 32768"
    using rng by (simp add: take_bit_int_eq_self)
  finally have "ucast (x + push_bit 15 1) + of_nat (2 ^ 32 - 2 ^ 15) = (of_int ?z :: u32)" by simp
  then show ?thesis unfolding scast_eq .
qed

lemma achieves_batch_signed_lift:
  fixes v :: "u16 list"
  assumes env: "inj ident" "codec_ok E" and X: "vec_shared (open_add word_ring) xs v"
  shows "achieves ident sid (\<lambda>p. batch_signed_lift E (xs p)) (\<lambda>A. vec_shared (open_add word_ring) A (map scast v))"
proof -
  let ?c = "of_nat (2 ^ 32 - 2 ^ 15) :: u32" and ?d = "push_bit 15 1 :: u16"
  show ?thesis
    unfolding batch_signed_lift_def
    apply (rule achieves_boot_bind [where X = "\<lambda>p. map (\<lambda>s. add_assign_const word_ring s ?d p) (xs p)"])
     apply (rule add_const_all_ok [OF env(1)])
    apply (rule achieves_bind [OF achieves_lift [OF env vec_shared_add_const [OF X]]])
    subgoal for A
      apply (rule achieves_boot [where X = "\<lambda>p. map (\<lambda>s. add_assign_const word_ring s ?c p) (A p)"])
       apply (rule add_const_all_ok [OF env(1)])
      apply (drule vec_shared_add_const [where c = ?c])
      apply (simp only: list.map_comp comp_def signed_lift_word)
      done
    done
qed

text \<open>
  Signed lifting. For a vector of \<open>u16\<close> shared by addition, \<open>batch_signed_lift\<close> completes at every
  party in every interleaving and returns additive shares modulo 2^32 of the sign extensions of the
  entries.
\<close>

theorem batch_signed_lift_correct:
  fixes v :: "u16 list"
  assumes "inj ident" "codec_ok E" "vec_shared (open_add word_ring) xs v"
  shows "completes ident sid (\<lambda>p. batch_signed_lift E (xs p)) (\<lambda>A. vec_shared (open_add word_ring) A (map scast v))"
  by (rule achieves_completes [OF assms(1) achieves_batch_signed_lift [OF assms]])

theorem batch_signed_lift_correct_witness:
  "completes demo_ident 1 (\<lambda>p. batch_signed_lift demo_env [\<lparr>sh_a = 20000, sh_b = 20000\<rparr>])
    (\<lambda>A. vec_shared (open_add word_ring) A (map scast [20000 + 20000 + 20000 :: u16]))"
  by (rule batch_signed_lift_correct [OF inj_demo_ident demo_env_ok add_shared_example])

section \<open>Conversion of shares\<close>

text \<open>
  From additive to replicated shares. If the parties' vectors add up to a vector modulo 2^16,
  \<open>galois_ring_to_rep3\<close> completes at every party in every interleaving and returns replicated shares
  of it.
\<close>

theorem galois_ring_to_rep3_correct:
  fixes v :: "u16 list"
  assumes "inj ident" "codec_ok E" "\<And>p. length (xs p) = length v"
    and "\<And>i. i < length v \<Longrightarrow> xs ID0 ! i + xs ID1 ! i + xs ID2 ! i = v ! i"
  shows "completes ident sid (\<lambda>p. galois_ring_to_rep3 E (xs p)) (\<lambda>A. vec_shared (open_add word_ring) A v)"
  by (rule achieves_completes [OF assms(1) achieves_to_rep3 [OF assms]])

theorem galois_ring_to_rep3_correct_witness:
  "completes demo_ident 1 (\<lambda>p. galois_ring_to_rep3 demo_env [of_nat (usize_from_party p), 40000])
    (\<lambda>A. vec_shared (open_add word_ring) A [3, 120000])"
  by (rule galois_ring_to_rep3_correct [OF inj_demo_ident demo_env_ok]) (auto simp: less_Suc_eq)

text \<open>
  Sharing a number. The three shares that \<open>create_random_sharing\<close> deals are a replicated sharing
  of the input, whatever the generator yields.
\<close>

theorem create_random_sharing_correct:
  "\<exists>ss g'. create_random_sharing gen x g = (ss, g') \<and> length ss = 3 \<and>
     rep3 (\<lambda>p. ss ! usize_from_party p) \<and> open_add word_ring (\<lambda>p. ss ! usize_from_party p) = x"
  by (cases "gen g", cases "gen (snd (gen g))")
    (simp add: create_random_sharing_def rep3_def Share_new_def open_add_word re_defs share_simps split_beta all_parties Let_def)

end
