(* ===== verification/PlaintextStore.thy ===== *)
theory PlaintextStore
  imports GaloisEngine
begin

text \<open>
  The plaintext vector store of the graph search (\<open>iris-mpc-cpu/src/hawkers/plaintext_store.rs\<close>):
  points, their fractional distances as pairs of \<open>u16\<close>, and the operations the search calls. The
  search itself is the third-party crate \<open>hawk_pack\<close>; its insertion is a parameter. The locale
  \<open>distance_order\<close> states what a search needs of the comparison of distances.
\<close>

section \<open>Points\<close>

type_synonym PlaintextIris = IrisCode

definition distance_fraction :: "PlaintextIris \<Rightarrow> PlaintextIris \<Rightarrow> u16 \<times> u16" where
  "distance_fraction self other =
     (let combined_mask = array_and (mask self) (mask other);
          combined_mask_len = count_ones combined_mask;
          combined_code = array_and (array_xor (code self) (code other)) combined_mask;
          code_distance = count_ones combined_code
      in (of_nat code_distance, of_nat combined_mask_len))"

text \<open>The first component is an \<open>i16\<close>, read as an integer.\<close>

definition dot_distance_fraction :: "PlaintextIris \<Rightarrow> PlaintextIris \<Rightarrow> int \<times> u16" where
  "dot_distance_fraction self other =
     (let (code_distance, combined_mask_len) = distance_fraction self other;
          dot_product = sint (combined_mask_len - 2 * code_distance)
      in (dot_product, combined_mask_len))"

record PlaintextPoint =
  point_data :: PlaintextIris
  is_persistent :: bool

datatype PointId = PointId (point_id: u32)

definition point_from_usize :: "nat \<Rightarrow> PointId" where
  "point_from_usize v = PointId (of_nat v)"

definition point_from_u32 :: "u32 \<Rightarrow> PointId" where
  "point_from_u32 v = PointId v"

definition point_index :: "'t list \<Rightarrow> PointId \<Rightarrow> 't result" where
  "point_index xs i = (if unat (point_id i) < length xs then Inr (xs ! unat (point_id i)) else index_out_of_bounds)"

definition point_index_mut :: "'t list \<Rightarrow> PointId \<Rightarrow> ('t \<Rightarrow> 't) \<Rightarrow> 't list result" where
  "point_index_mut xs i f =
     (if unat (point_id i) < length xs
      then Inr (xs[unat (point_id i) := f (xs ! unat (point_id i))]) else index_out_of_bounds)"

section \<open>The store\<close>

record PlaintextStore =
  points :: "PlaintextPoint list"

definition plaintext_default :: PlaintextStore where
  "plaintext_default = \<lparr>points = []\<rparr>"

definition plaintext_prepare_query :: "PlaintextStore \<Rightarrow> IrisCode \<Rightarrow> PlaintextStore \<times> PointId" where
  "plaintext_prepare_query store raw_query =
     (let store = store\<lparr>points := points store @ [\<lparr>point_data = raw_query, is_persistent = False\<rparr>]\<rparr>;
          point_id = length (points store) - 1
      in (store, point_from_usize point_id))"

definition plaintext_insert :: "PlaintextStore \<Rightarrow> PointId \<Rightarrow> (PlaintextStore \<times> PointId) result" where
  "plaintext_insert store q =
     rbind (point_index_mut (points store) q (\<lambda>pt. pt\<lparr>is_persistent := True\<rparr>)) (\<lambda>pts.
       Inr (store\<lparr>points := pts\<rparr>, q))"

definition plaintext_eval_distance :: "PlaintextStore \<Rightarrow> PointId \<Rightarrow> PointId \<Rightarrow> (u16 \<times> u16) result" where
  "plaintext_eval_distance store q vector =
     rbind (point_index (points store) q) (\<lambda>query_code.
     rbind (point_index (points store) vector) (\<lambda>vector_code.
       Inr (distance_fraction (point_data query_code) (point_data vector_code))))"

text \<open>The product of a \<open>u16\<close> and 0.375 is exact in \<open>f64\<close>, so the comparison is one of rationals.\<close>

definition plaintext_is_match :: "u16 \<times> u16 \<Rightarrow> bool" where
  "plaintext_is_match distance =
     (let (a, b) = distance in of_nat (unat a) < of_nat (unat b) * MATCH_THRESHOLD_RATIO)"

definition plaintext_less_than :: "u16 \<times> u16 \<Rightarrow> u16 \<times> u16 \<Rightarrow> bool" where
  "plaintext_less_than distance1 distance2 =
     (let (a, b) = distance1; (c, d) = distance2
      in sint ((ucast a :: u32) * ucast d - ucast b * ucast c) < 0)"

section \<open>Random stores\<close>

text \<open>The insertion of the search crate: store, graph, query and generator to their new values.\<close>

type_synonym ('s, 'gr, 'q, 'r) searcher = "'s \<Rightarrow> 'gr \<Rightarrow> 'q \<Rightarrow> 'r \<Rightarrow> ('s \<times> 'gr \<times> 'r) result"

fun insert_random ::
    "(PlaintextStore, 'gr, PointId, 'r) searcher \<Rightarrow> IrisCode list \<Rightarrow> PlaintextStore \<Rightarrow> 'gr \<Rightarrow> 'r
       \<Rightarrow> (PlaintextStore \<times> 'gr) result" where
  "insert_random ins [] store graph rng = Inr (store, graph)"
| "insert_random ins (raw_query # rest) store graph rng =
     (let (store, q) = plaintext_prepare_query store raw_query in
      rbind (ins store graph q rng) (\<lambda>(store, graph, rng). insert_random ins rest store graph rng))"

definition create_random ::
    "('g \<Rightarrow> u64 list \<times> 'g) \<Rightarrow> (nat \<Rightarrow> 'g \<Rightarrow> nat \<times> 'g) \<Rightarrow> ('g \<Rightarrow> 'r result)
       \<Rightarrow> (PlaintextStore, 'gr, PointId, 'r) searcher \<Rightarrow> 'gr \<Rightarrow> 'g \<Rightarrow> nat
       \<Rightarrow> ((PlaintextStore \<times> 'gr) \<times> 'g) result" where
  "create_random fill gen_range from_rng ins graph_new rng database_size =
     rbind (from_rng rng) (\<lambda>rng_searcher1.
     rbind (db_new_random_rng fill gen_range database_size rng) (\<lambda>(cleartext_database, rng).
     rbind (insert_random ins cleartext_database plaintext_default graph_new rng_searcher1) (\<lambda>r.
     Inr (r, rng))))"

fun insert_all :: "IrisCode list \<Rightarrow> PlaintextStore \<Rightarrow> PlaintextStore result" where
  "insert_all [] store = Inr store"
| "insert_all (raw_query # rest) store =
     (let (store, q) = plaintext_prepare_query store raw_query in
      rbind (plaintext_insert store q) (\<lambda>(store, _). insert_all rest store))"

definition create_random_store ::
    "('g \<Rightarrow> u64 list \<times> 'g) \<Rightarrow> (nat \<Rightarrow> 'g \<Rightarrow> nat \<times> 'g) \<Rightarrow> 'g \<Rightarrow> nat \<Rightarrow> (PlaintextStore \<times> 'g) result" where
  "create_random_store fill gen_range rng database_size =
     rbind (db_new_random_rng fill gen_range database_size rng) (\<lambda>(cleartext_database, rng).
     rbind (insert_all cleartext_database plaintext_default) (\<lambda>store. Inr (store, rng)))"

fun insert_ids ::
    "(PlaintextStore, 'gr, PointId, 'r) searcher \<Rightarrow> nat list \<Rightarrow> PlaintextStore \<Rightarrow> 'gr \<Rightarrow> 'r
       \<Rightarrow> (PlaintextStore \<times> 'gr) result" where
  "insert_ids ins [] store graph rng = Inr (store, graph)"
| "insert_ids ins (i # rest) store graph rng =
     rbind (ins store graph (point_from_usize i) rng) (\<lambda>(store, graph, rng). insert_ids ins rest store graph rng)"

definition create_graph ::
    "('g \<Rightarrow> 'r result) \<Rightarrow> (PlaintextStore, 'gr, PointId, 'r) searcher \<Rightarrow> 'gr \<Rightarrow> PlaintextStore \<Rightarrow> 'g \<Rightarrow> nat
       \<Rightarrow> (PlaintextStore \<times> 'gr) result" where
  "create_graph from_rng ins graph_new self rng graph_size =
     rbind (from_rng rng) (\<lambda>rng_searcher1. insert_ids ins [0..<graph_size] self graph_new rng_searcher1)"

section \<open>Ordered distances\<close>

text \<open>
  What a search relies on: on the distances it compares, \<open>less_than\<close> is the order of a rational key.
  It is then a strict weak order, so that sorting by it and keeping the nearest points make sense.
\<close>

locale distance_order =
  fixes less_than :: "'d \<Rightarrow> 'd \<Rightarrow> bool" and key :: "'d \<Rightarrow> rat" and valid :: "'d \<Rightarrow> bool"
  assumes less_than_key: "valid a \<Longrightarrow> valid b \<Longrightarrow> less_than a b \<longleftrightarrow> key a < key b"
begin

lemma irreflexive: "valid a \<Longrightarrow> \<not> less_than a a"
  by (simp add: less_than_key)

lemma transitive: "valid a \<Longrightarrow> valid b \<Longrightarrow> valid c \<Longrightarrow> less_than a b \<Longrightarrow> less_than b c \<Longrightarrow> less_than a c"
  by (simp add: less_than_key)

lemma incomparability_transitive:
  "valid a \<Longrightarrow> valid b \<Longrightarrow> valid c \<Longrightarrow> less_than a b \<Longrightarrow> less_than a c \<or> less_than c b"
  by (auto simp: less_than_key)

end

text \<open>Distances of two irises with a common unmasked bit: the counts fit, and the mask is not empty.\<close>

definition valid_fraction :: "u16 \<times> u16 \<Rightarrow> bool" where
  "valid_fraction d \<longleftrightarrow> unat (fst d) \<le> unat (snd d) \<and> 0 < unat (snd d) \<and> unat (snd d) \<le> IRIS_CODE_SIZE"

definition fraction_value :: "u16 \<times> u16 \<Rightarrow> rat" where
  "fraction_value d = of_nat (unat (fst d)) / of_nat (unat (snd d))"

lemma ucast_16_32: "(ucast (a :: u16) :: u32) = of_int (int (unat a))"
  unfolding of_nat_unat by (rule ucast_eq)

lemma plaintext_less_than_cross:
  assumes "unat a \<le> 12800" "unat b \<le> 12800" "unat c \<le> 12800" "unat d \<le> 12800"
  shows "plaintext_less_than (a, b) (c, d) \<longleftrightarrow> unat a * unat d < unat b * unat c"
proof -
  let ?z = "int (unat a * unat d) - int (unat b * unat c)"
  have le: "unat a * unat d \<le> 12800 * 12800" "unat b * unat c \<le> 12800 * 12800"
    by (intro mult_le_mono assms)+
  have "m \<le> 12800 * 12800 \<Longrightarrow> n \<le> 12800 * 12800 \<Longrightarrow>
    - (2 ^ (LENGTH(32) - 1)) \<le> int m - int n \<and> int m - int n < 2 ^ (LENGTH(32) - 1)" for m n by simp
  note rng = this [OF le, THEN conjunct1] this [OF le, THEN conjunct2]
  have "(ucast a :: u32) * ucast d - ucast b * ucast c = of_int ?z"
    unfolding ucast_16_32 by (simp only: of_int_diff of_int_mult of_nat_mult)
  then have "sint ((ucast a :: u32) * ucast d - ucast b * ucast c) = ?z" using sint_small [OF rng] by (simp only:)
  then show ?thesis unfolding plaintext_less_than_def Let_def prod.case
    by (simp only: diff_less_0_iff_less of_nat_less_iff)
qed

lemma fraction_less:
  assumes "0 < b" "0 < d"
  shows "(of_nat a / of_nat b < (of_nat c / of_nat d :: rat)) \<longleftrightarrow> a * d < b * c"
proof -
  have "(of_nat a / of_nat b < (of_nat c / of_nat d :: rat)) \<longleftrightarrow> of_nat a * of_nat d < (of_nat b * of_nat c :: rat)"
    using assms by (simp add: divide_simps mult.commute)
  then show ?thesis by (simp flip: of_nat_mult)
qed

interpretation plain: distance_order plaintext_less_than fraction_value valid_fraction
proof
  fix x y :: "u16 \<times> u16" assume v: "valid_fraction x" "valid_fraction y"
  obtain a b c d where xy: "x = (a, b)" "y = (c, d)" by (cases x, cases y)
  show "plaintext_less_than x y \<longleftrightarrow> fraction_value x < fraction_value y"
    using v unfolding xy valid_fraction_def fraction_value_def fst_conv snd_conv IRIS_CODE_SIZE_def
    by (subst plaintext_less_than_cross) (linarith | subst fraction_less)+
qed

section \<open>Distances of irises\<close>

lemma count_differing:
  "count_ones (array_and (array_xor (code x) (code y)) (array_and (mask x) (mask y))) = card (differing x y)"
  by (simp add: masked_difference_bits bit_at_and differing_def common_mask_def conj_ac cong: conj_cong)

lemma count_common: "count_ones (array_and (mask x) (mask y)) = card (common_mask x y)"
  by (simp add: array_and_bits common_mask_def)

lemma distance_fraction_counts:
  "distance_fraction x y = (of_nat (card (differing x y)), of_nat (card (common_mask x y)))"
  by (simp add: distance_fraction_def count_differing count_common)

lemma unat_count: "n \<le> 12800 \<Longrightarrow> unat (of_nat n :: u16) = n"
  by (simp add: unsigned_of_nat take_bit_nat_eq_self)

lemma distance_counts_bounded:
  "unat (fst (distance_fraction x y)) = card (differing x y)"
  "unat (snd (distance_fraction x y)) = card (common_mask x y)"
  using card_differing_le [of x y] card_common_mask_le [of x y]
  by (simp_all add: distance_fraction_counts unat_count)

lemma valid_distance_fraction:
  "common_mask x y \<noteq> {} \<Longrightarrow> valid_fraction (distance_fraction x y)"
  using card_differing_le [of x y] card_common_mask_le [of x y]
  by (simp add: valid_fraction_def distance_counts_bounded IRIS_CODE_SIZE_def card_gt_0_iff)

lemma dot_distance_counts:
  "dot_distance_fraction x y
     = (int (card (common_mask x y)) - 2 * int (card (differing x y)), of_nat (card (common_mask x y)))"
proof -
  let ?z = "int (card (common_mask x y)) - 2 * int (card (differing x y))"
  have "sint (of_int ?z :: u16) = ?z"
    by (rule sint_small) (use card_differing_le [of x y] card_common_mask_le [of x y] in simp_all)
  then show ?thesis by (simp add: dot_distance_fraction_def distance_fraction_counts)
qed

lemma get_distance_counts:
  "get_distance x y = (if common_mask x y = {} then None
     else Some (of_nat (card (differing x y)) / of_nat (card (common_mask x y))))"
proof -
  have "count_ones (array_and (array_xor (code x) (code y)) (array_and (mask x) (mask y))) = card (differing x y)"
    "count_ones (array_and (mask x) (mask y)) = card (common_mask x y)"
    by (rule count_differing, rule count_common)
  then show ?thesis by (simp add: get_distance_def Let_def)
qed

lemma fraction_value_get_distance:
  "common_mask x y \<noteq> {} \<Longrightarrow> fraction_value (distance_fraction x y) = the (get_distance x y)"
  unfolding fraction_value_def distance_counts_bounded get_distance_counts by simp

lemma plaintext_match_close: "plaintext_is_match (distance_fraction x y) \<longleftrightarrow> is_close x y"
proof -
  obtain a b where ab: "distance_fraction x y = (a, b)" by (cases "distance_fraction x y")
  then have n: "unat a = card (differing x y)" "unat b = card (common_mask x y)"
    using distance_counts_bounded [of x y] by simp_all
  show ?thesis
  proof (cases "common_mask x y = {}")
    case True
    then show ?thesis unfolding ab plaintext_is_match_def Let_def prod.case n
      by (simp add: is_close_def get_distance_counts)
  next
    case False
    then have "0 < card (common_mask x y)" by (simp add: card_gt_0_iff)
    then show ?thesis unfolding ab plaintext_is_match_def Let_def prod.case n
      using False by (simp add: is_close_def get_distance_counts pos_divide_less_eq mult.commute)
  qed
qed

text \<open>
  C31: The plaintext store compares and matches as the fractional Hamming distances do. For points
  inside the store the distance is computed without a panic; two distances with non-empty common
  masks compare exactly as their fractions, without overflow, and a distance matches exactly when
  the two irises are close.
\<close>

theorem plaintext_store_distances:
  assumes "unat (point_id p) < length (points store)" "unat (point_id q) < length (points store)"
    and "unat (point_id r) < length (points store)" "unat (point_id s) < length (points store)"
    and "x = point_data (points store ! unat (point_id p))" "y = point_data (points store ! unat (point_id q))"
    and "u = point_data (points store ! unat (point_id r))" "v = point_data (points store ! unat (point_id s))"
    and "common_mask x y \<noteq> {}" "common_mask u v \<noteq> {}"
  shows "\<exists>d e. plaintext_eval_distance store p q = Inr d \<and> plaintext_eval_distance store r s = Inr e \<and>
    (plaintext_less_than d e \<longleftrightarrow> the (get_distance x y) < the (get_distance u v)) \<and>
    (plaintext_is_match d \<longleftrightarrow> is_close x y)"
proof -
  have d: "plaintext_eval_distance store p q = Inr (distance_fraction x y)"
    "plaintext_eval_distance store r s = Inr (distance_fraction u v)"
    using assms(1-8) by (simp_all add: plaintext_eval_distance_def point_index_def)
  have "plaintext_less_than (distance_fraction x y) (distance_fraction u v)
      \<longleftrightarrow> the (get_distance x y) < the (get_distance u v)"
    unfolding plain.less_than_key [OF valid_distance_fraction [OF assms(9)] valid_distance_fraction [OF assms(10)]]
    by (simp only: fraction_value_get_distance [OF assms(9)] fraction_value_get_distance [OF assms(10)])
  moreover have "plaintext_is_match (distance_fraction x y) \<longleftrightarrow> is_close x y"
    by (rule plaintext_match_close)
  ultimately show ?thesis using d by blast
qed

lemma iris_default_self: "common_mask iris_default iris_default \<noteq> {}"
proof -
  have "0 \<in> common_mask iris_default iris_default"
    by (simp add: common_mask_def iris_default_def bit_at_ONES IRIS_CODE_SIZE_def)
  then show ?thesis by blast
qed

theorem plaintext_store_distances_witness:
  "\<exists>d e. plaintext_eval_distance \<lparr>points = [\<lparr>point_data = iris_default, is_persistent = True\<rparr>]\<rparr> (PointId 0) (PointId 0) = Inr d \<and>
    plaintext_eval_distance \<lparr>points = [\<lparr>point_data = iris_default, is_persistent = True\<rparr>]\<rparr> (PointId 0) (PointId 0) = Inr e \<and>
    (plaintext_less_than d e \<longleftrightarrow> the (get_distance iris_default iris_default) < the (get_distance iris_default iris_default)) \<and>
    (plaintext_is_match d \<longleftrightarrow> is_close iris_default iris_default)"
  by (rule plaintext_store_distances) (simp_all add: iris_default_self)

section \<open>Filling a store\<close>

text \<open>
  A random store holds the database it was made from. For fewer than 2^32 irises, preparing and
  inserting them one after the other does not panic, and the store then holds exactly these irises in
  their order, each marked persistent; the identifier of the next query is its position.
\<close>

theorem insert_all_points:
  assumes "length (points store) + length db < 2 ^ 32"
  shows "insert_all db store = Inr (store\<lparr>points := points store @ map (\<lambda>x. \<lparr>point_data = x, is_persistent = True\<rparr>) db\<rparr>)"
  using assms
proof (induction db arbitrary: store)
  case (Cons x db)
  let ?n = "length (points store)"
  have n: "unat (of_nat ?n :: u32) = ?n" using Cons.prems by (simp add: unsigned_of_nat take_bit_nat_eq_self)
  let ?st = "store\<lparr>points := points store @ [\<lparr>point_data = x, is_persistent = True\<rparr>]\<rparr>"
  have "insert_all (x # db) store = insert_all db ?st"
    by (simp add: plaintext_prepare_query_def plaintext_insert_def point_index_mut_def point_from_usize_def n Let_def)
  also have "\<dots> = Inr (?st\<lparr>points := points ?st @ map (\<lambda>x. \<lparr>point_data = x, is_persistent = True\<rparr>) db\<rparr>)"
    by (rule Cons.IH) (use Cons.prems in simp)
  finally show ?case by simp
qed simp

theorem insert_all_points_witness:
  "insert_all [iris_default, iris_default] plaintext_default
     = Inr (plaintext_default\<lparr>points := points plaintext_default
         @ map (\<lambda>x. \<lparr>point_data = x, is_persistent = True\<rparr>) [iris_default, iris_default]\<rparr>)"
  by (rule insert_all_points) (simp add: plaintext_default_def)

end
