(* ===== verification/Runtime.thy ===== *)
theory Runtime
  imports Session "HOL-Library.AList" "HOL-Library.Multiset"
begin

text \<open>
  The local runtime of the CPU parties (\<open>iris-mpc-cpu/src/execution/local.rs\<close>): three parties in one
  process, connected by the local network, whose sessions are set up by concurrent tasks. The tasks
  are programs of the network model; their results are collected in the order in which they finish.
  The gRPC transport is not modelled.
\<close>

section \<open>Parties and roles\<close>

definition generate_local_identities :: "Identity list" where
  "generate_local_identities = [Identity ''alice'', Identity ''bob'', Identity ''charlie'']"

record 'g LocalRuntime =
  rt_identities :: "Identity list"
  rt_role_assignments :: RoleAssignment
  rt_seeds :: "u8 list list"
  rt_sessions :: "Identity \<rightharpoonup> 'g Session"

text \<open>A later party replaces an earlier one with the same role, as the hash map does.\<close>

definition assign_roles :: "Identity list \<Rightarrow> RoleAssignment" where
  "assign_roles identities =
     foldl (\<lambda>m (index, id). AList.update (role_new index) id m) [] (enumerate 0 identities)"

definition local_boot_sessions :: "Identity list \<Rightarrow> u8 list list \<Rightarrow> BootSession list result" where
  "local_boot_sessions identities seeds =
     rmap (\<lambda>i. rbind (vec_index identities i) (\<lambda>id.
       Inr \<lparr>session_id = 0, role_assignments = assign_roles identities, own_identity = id\<rparr>)) [0..<length seeds]"

section \<open>The setup tasks\<close>

definition unwrap :: "'a result \<Rightarrow> 'a result" where
  "unwrap r = (case r of Inl (Eyre e) \<Rightarrow> Inl (Panic e) | _ \<Rightarrow> r)"

definition setup_task ::
    "('w, 'g) Env \<Rightarrow> BootSession \<Rightarrow> u8 list \<Rightarrow> ('w, (BootSession \<times> 'g Prf) result) proc" where
  "setup_task E sess player_seed =
     pbind (setup_replicated_prf E sess player_seed) (\<lambda>r.
       Ret (rbind (unwrap r) (\<lambda>prf. Inr (sess, prf))))"

definition setup_tasks ::
    "('w, 'g) Env \<Rightarrow> BootSession list \<Rightarrow> u8 list list \<Rightarrow> ('w, (BootSession \<times> 'g Prf) result) proc list result" where
  "setup_tasks E boot_sessions seeds =
     rmap (\<lambda>(player_id, sess). rbind (vec_index seeds player_id) (\<lambda>player_seed. Inr (setup_task E sess player_seed)))
       (enumerate 0 boot_sessions)"

fun collect_sessions ::
    "(BootSession \<times> 'g Prf) result list \<Rightarrow> (Identity \<rightharpoonup> 'g Session) \<Rightarrow> (Identity \<rightharpoonup> 'g Session) result" where
  "collect_sessions [] sessions = Inr sessions"
| "collect_sessions (t # ts) sessions =
     rbind (unwrap t) (\<lambda>(b, prf).
       collect_sessions ts (sessions(own_identity b \<mapsto> \<lparr>boot_session = b, prf_setup = prf\<rparr>)))"

definition local_runtime ::
    "Identity list \<Rightarrow> u8 list list \<Rightarrow> (BootSession \<times> 'g Prf) result list \<Rightarrow> 'g LocalRuntime result" where
  "local_runtime identities seeds joined =
     rbind (collect_sessions joined Map.empty) (\<lambda>sessions.
       Inr \<lparr>rt_identities = identities, rt_role_assignments = assign_roles identities, rt_seeds = seeds,
            rt_sessions = sessions\<rparr>)"

text \<open>
  The constructor on the local network: the tasks run by the parties, and what it makes of their
  results in the order in which they were joined.
\<close>

definition new_with_local_channel ::
    "('w, 'g) Env \<Rightarrow> Identity list \<Rightarrow> u8 list list
       \<Rightarrow> (('w, (BootSession \<times> 'g Prf) result) proc list
           \<times> ((BootSession \<times> 'g Prf) result list \<Rightarrow> 'g LocalRuntime result)) result" where
  "new_with_local_channel E identities seeds =
     rbind (local_boot_sessions identities seeds) (\<lambda>boot_sessions.
     rbind (setup_tasks E boot_sessions seeds) (\<lambda>jobs.
     Inr (jobs, local_runtime identities seeds)))"

definition mock_seeds :: "u8 list list" where
  "mock_seeds = map (\<lambda>i. (replicate 16 0)[0 := of_nat i]) [0..<3]"

definition mock_setup_with_channel ::
    "('w, 'g) Env \<Rightarrow> (('w, (BootSession \<times> 'g Prf) result) proc list
       \<times> ((BootSession \<times> 'g Prf) result list \<Rightarrow> 'g LocalRuntime result)) result" where
  "mock_setup_with_channel E = new_with_local_channel E generate_local_identities mock_seeds"

section \<open>The runtime is ready\<close>

text \<open>A runtime of the three parties: everyone has a session, and the generators are shared.\<close>

definition runtime_ready :: "(PartyID \<Rightarrow> Identity) \<Rightarrow> 'g LocalRuntime \<Rightarrow> bool" where
  "runtime_ready ident rt \<longleftrightarrow>
     (\<exists>S. synced ident 0 S \<and> (\<forall>p. rt_sessions rt (ident p) = Some (S p))) \<and>
     rt_role_assignments rt = role_assignments (boot_of ident 0 ID0)"

definition local_ident :: "PartyID \<Rightarrow> Identity" where
  "local_ident p = generate_local_identities ! usize_from_party p"

lemma local_idents: "idents local_ident = generate_local_identities"
  by (simp add: idents_def local_ident_def generate_local_identities_def)

lemma inj_local_ident: "inj local_ident"
proof (rule injI)
  fix p q assume "local_ident p = local_ident q"
  then show "p = q" by (cases p; cases q) (simp_all add: local_ident_def generate_local_identities_def)
qed

lemma assign_roles_idents: "assign_roles (idents ident) = role_assignments (boot_of ident sid p)"
  by (simp add: assign_roles_def idents_def boot_of_def enumerate_eq_zip upt_rec del: One_nat_def)
    (simp add: numeral_2_eq_2 roles_distinct [unfolded numeral_2_eq_2 One_nat_def])

lemma boot_sessions_of:
  assumes "length seeds = 3"
  shows "local_boot_sessions (idents ident) seeds = Inr [boot_of ident 0 ID0, boot_of ident 0 ID1, boot_of ident 0 ID2]"
proof -
  have "[0..<length seeds] = [0, 1, 2]" using assms by (simp add: upt_rec)
  then show ?thesis
    by (simp add: local_boot_sessions_def vec_index_def assign_roles_idents [of ident 0 ID0])
      (simp add: idents_def boot_of_def)
qed

lemma tasks_of:
  assumes "length seeds = 3"
  shows "setup_tasks E [boot_of ident 0 ID0, boot_of ident 0 ID1, boot_of ident 0 ID2] seeds
    = Inr (map (\<lambda>p. setup_task E (boot_of ident 0 p) (seeds ! usize_from_party p)) [ID0, ID1, ID2])"
  using assms by (simp add: setup_tasks_def enumerate_eq_zip upt_rec vec_index_def numeral_2_eq_2)

lemma task_run:
  assumes "inj ident" "codec_ok E"
  shows "(step local_networking ident)\<^sup>*\<^sup>*
     (\<lambda>p. setup_task E (boot_of ident 0 p) (seed p), quiet ident)
     (all_returned (\<lambda>p. Inr (boot_of ident 0 p, prf_new E (seed p) (seed (prev_id p)))) (quiet ident))"
  unfolding setup_task_def
  by (rule run_pbind [OF setup_run [OF assms]]) (simp add: all_returned_def unwrap_def)

lemma collect_sessions_map:
  "collect_sessions (map (\<lambda>p. Inr (B p, P p)) ps) m
     = Inr (m ++ map_of (rev (map (\<lambda>p. (own_identity (B p), \<lparr>boot_session = B p, prf_setup = P p\<rparr>)) ps)))"
  by (induction ps arbitrary: m) (simp_all add: unwrap_def)

lemma map_of_functional:
  assumes "(k, v) \<in> set xs" "\<And>w. (k, w) \<in> set xs \<Longrightarrow> w = v"
  shows "map_of xs k = Some v"
  using weak_map_of_SomeI [OF assms(1)] assms(2) by (auto dest: map_of_SomeD)

lemma joined_sessions:
  fixes ident :: "PartyID \<Rightarrow> Identity"
  assumes "inj ident" "mset joined = {#X ID0, X ID1, X ID2#}" "\<And>p. X p = Inr (boot_of ident 0 p, P p)"
  shows "\<exists>sessions. collect_sessions joined Map.empty = Inr sessions \<and>
    (\<forall>p. sessions (ident p) = Some \<lparr>boot_session = boot_of ident 0 p, prf_setup = P p\<rparr>)"
proof -
  have own: "own_identity (boot_of ident 0 p) = ident p" for p by (simp add: boot_of_def)
  have set: "set joined = {X ID0, X ID1, X ID2}" by (simp flip: set_mset_mset add: assms(2))
  then have "\<forall>y\<in>set joined. \<exists>p. y = X p" by auto
  then obtain ps where ps: "joined = map X ps" unfolding ex_map_conv [symmetric] by blast
  have all: "p \<in> set ps" for p
  proof -
    have "X p \<in> set joined" unfolding set by (cases p) simp_all
    then obtain q where "q \<in> set ps" "X p = X q" unfolding ps by auto
    moreover from this(2) have "ident p = ident q" unfolding assms(3) using own by (metis sum.inject(2) prod.inject)
    ultimately show ?thesis using inj_ident [OF assms(1)] by simp
  qed
  let ?m = "map_of (rev (map (\<lambda>p. (ident p, \<lparr>boot_session = boot_of ident 0 p, prf_setup = P p\<rparr>)) ps))"
  have "joined = map (\<lambda>p. Inr (boot_of ident 0 p, P p)) ps" using ps assms(3) by simp
  then have "collect_sessions joined Map.empty = Inr ?m" by (simp only: collect_sessions_map own empty_map_add)
  moreover have "?m (ident p) = Some \<lparr>boot_session = boot_of ident 0 p, prf_setup = P p\<rparr>" for p
    by (rule map_of_functional) (use all inj_ident [OF assms(1)] in auto)
  ultimately show ?thesis by blast
qed

text \<open>
  C28: Setup of the local runtime. For three distinct identities and three seeds, the constructor
  spawns three tasks; over the local network they end in every interleaving without an error, and in
  whatever order their results are joined the runtime has a session for every party, with the
  generators pairwise shared and the roles assigned in the order of the identities.
\<close>

theorem local_runtime_ready:
  assumes "inj ident" "codec_ok E" "length seeds = 3"
  shows "\<exists>jobs finish X. new_with_local_channel E (idents ident) seeds = Inr (jobs, finish) \<and> length jobs = 3 \<and>
    ends_with ident (\<lambda>p. jobs ! usize_from_party p, from_host_ids (idents ident)) X (from_host_ids (idents ident)) \<and>
    (\<forall>joined. mset joined = {#X ID0, X ID1, X ID2#} \<longrightarrow>
       (\<exists>rt. finish joined = Inr rt \<and> runtime_ready ident rt))"
proof -
  let ?seed = "\<lambda>p. seeds ! usize_from_party p"
  let ?P = "\<lambda>p. prf_new E (?seed p) (?seed (prev_id p))"
  let ?X = "\<lambda>p. Inr (boot_of ident 0 p, ?P p)"
  let ?jobs = "map (\<lambda>p. setup_task E (boot_of ident 0 p) (?seed p)) [ID0, ID1, ID2]"
  have jobs: "(\<lambda>p. ?jobs ! usize_from_party p) = (\<lambda>p. setup_task E (boot_of ident 0 p) (?seed p))"
  proof
    show "?jobs ! usize_from_party p = setup_task E (boot_of ident 0 p) (?seed p)" for p by (cases p) simp_all
  qed
  have ends: "ends_with ident (\<lambda>p. ?jobs ! usize_from_party p, from_host_ids (idents ident)) ?X (from_host_ids (idents ident))"
    unfolding jobs by (rule ends_withI [OF assms(1) task_run [OF assms(1,2)]])
  have finish: "\<exists>rt. local_runtime (idents ident) seeds joined = Inr rt \<and> runtime_ready ident rt"
    if joined: "mset joined = {#?X ID0, ?X ID1, ?X ID2#}" for joined
  proof -
    from joined_sessions [OF assms(1) joined refl] obtain sessions where
      s: "collect_sessions joined Map.empty = Inr sessions"
        "\<forall>p. sessions (ident p) = Some \<lparr>boot_session = boot_of ident 0 p, prf_setup = ?P p\<rparr>" by blast
    have "synced ident 0 (\<lambda>p. \<lparr>boot_session = boot_of ident 0 p, prf_setup = ?P p\<rparr>)"
      by (simp add: synced_def prf_new_def)
    with s show ?thesis
      by (auto simp: local_runtime_def runtime_ready_def assign_roles_idents)
  qed
  have "new_with_local_channel E (idents ident) seeds = Inr (?jobs, local_runtime (idents ident) seeds)"
    by (simp only: new_with_local_channel_def boot_sessions_of [OF assms(3)] tasks_of [OF assms(3)] rbind.simps)
  moreover have "length ?jobs = 3" by simp
  ultimately show ?thesis using ends finish by blast
qed

theorem local_runtime_ready_witness:
  "\<exists>jobs finish X. new_with_local_channel demo_env (idents local_ident) mock_seeds = Inr (jobs, finish) \<and> length jobs = 3 \<and>
    ends_with local_ident (\<lambda>p. jobs ! usize_from_party p, from_host_ids (idents local_ident)) X (from_host_ids (idents local_ident)) \<and>
    (\<forall>joined. mset joined = {#X ID0, X ID1, X ID2#} \<longrightarrow>
       (\<exists>rt. finish joined = Inr rt \<and> runtime_ready local_ident rt))"
  by (rule local_runtime_ready [OF inj_local_ident demo_env_ok]) (simp add: mock_seeds_def)

end
