(* ===== verification/SharedStore.thy ===== *)
theory SharedStore
  imports Ops PlaintextStore Runtime
begin

text \<open>
  The secret-shared vector store of the graph search (\<open>iris-mpc-cpu/src/hawkers/galois_store.rs\<close>).
  Every party keeps its shares of the stored irises; distances are computed and compared by the
  protocols, each on a copy of the session of the runtime. The refinement lemmas relate the three
  stores of a run to the plaintext store on the same irises. The graph structures of the crate
  \<open>hawk_pack\<close> are a parameter.
\<close>

section \<open>One party's store\<close>

datatype VectorId = VectorId (vector_point: PointId)

definition vector_from_usize :: "nat \<Rightarrow> VectorId" where
  "vector_from_usize i = VectorId (point_from_usize i)"

record Query =
  query :: GaloisRingSharedIris
  processed_query :: GaloisRingSharedIris

record Aby3NgStorePlayer =
  player_points :: "GaloisRingSharedIris list"

definition new_with_shared_db :: "GaloisRingSharedIris list \<Rightarrow> Aby3NgStorePlayer" where
  "new_with_shared_db data = \<lparr>player_points = data\<rparr>"

definition preprocess_query :: "GaloisRingSharedIris \<Rightarrow> GaloisRingSharedIris result" where
  "preprocess_query raw_query =
     rbind (preprocess_iris_code_query_share (shared_code raw_query)) (\<lambda>c.
     rbind (preprocess_mask_code_query_share (shared_mask raw_query)) (\<lambda>m.
     Inr \<lparr>shared_code = c, shared_mask = m\<rparr>))"

definition player_prepare_query :: "GaloisRingSharedIris \<Rightarrow> Query result" where
  "player_prepare_query raw_query =
     rbind (preprocess_query raw_query) (\<lambda>preprocessed_query.
     Inr \<lparr>query = raw_query, processed_query = preprocessed_query\<rparr>)"

definition get_vector :: "Aby3NgStorePlayer \<Rightarrow> VectorId \<Rightarrow> GaloisRingSharedIris result" where
  "get_vector self vector = point_index (player_points self) (vector_point vector)"

definition player_insert :: "Aby3NgStorePlayer \<Rightarrow> Query \<Rightarrow> Aby3NgStorePlayer \<times> VectorId" where
  "player_insert self q =
     (let self = self\<lparr>player_points := player_points self @ [query q]\<rparr>;
          new_id = length (player_points self) - 1
      in (self, VectorId (point_from_usize new_id)))"

section \<open>The store in a runtime\<close>

record 'g LocalNetAby3NgStoreProtocol =
  owner :: Identity
  storage :: Aby3NgStorePlayer
  runtime :: "'g LocalRuntime"

definition get_owner_session :: "'g LocalNetAby3NgStoreProtocol \<Rightarrow> 'g Session result" where
  "get_owner_session self =
     (case rt_sessions (runtime self) (owner self) of
        None \<Rightarrow> Inl (Panic ''called `Option::unwrap()` on a `None` value'')
      | Some s \<Rightarrow> Inr s)"

definition get_owner_index :: "'g LocalNetAby3NgStoreProtocol \<Rightarrow> nat result" where
  "get_owner_index self =
     (case List.find (\<lambda>(role, id). id = owner self) (rt_role_assignments (runtime self)) of
        None \<Rightarrow> Inl (Panic ''called `Option::unwrap()` on a `None` value'')
      | Some (role, _) \<Rightarrow> Inr (role_index role))"

fun share_database ::
    "('r \<Rightarrow> u16 \<times> 'r) \<Rightarrow> PlaintextPoint list \<Rightarrow> GaloisRingSharedIris list list \<Rightarrow> 'r
       \<Rightarrow> (GaloisRingSharedIris list list \<times> 'r) result" where
  "share_database gen [] shared_irises rng = Inr (shared_irises, rng)"
| "share_database gen (iris # rest) shared_irises rng =
     rbind (generate_galois_iris_shares gen rng (point_data iris)) (\<lambda>(all_shares, rng).
     share_database gen rest (map2 (\<lambda>irises s. irises @ [s]) shared_irises all_shares) rng)"

definition setup_local_aby3_players_with_preloaded_db ::
    "('r \<Rightarrow> u16 \<times> 'r) \<Rightarrow> 'r \<Rightarrow> PlaintextStore \<Rightarrow> 'g LocalRuntime
       \<Rightarrow> ('g LocalNetAby3NgStoreProtocol list \<times> 'r) result" where
  "setup_local_aby3_players_with_preloaded_db gen rng plain_store rt =
     (let identities = generate_local_identities in
      rbind (share_database gen (points plain_store) (replicate (length identities) []) rng) (\<lambda>(shared_irises, rng).
      let storages = map new_with_shared_db shared_irises
      in Inr (map2 (\<lambda>id st. \<lparr>owner = id, storage = st, runtime = rt\<rparr>) identities storages, rng)))"

definition setup_local_store_aby3_players :: "'g LocalRuntime \<Rightarrow> 'g LocalNetAby3NgStoreProtocol list" where
  "setup_local_store_aby3_players rt =
     map (\<lambda>id. \<lparr>owner = id, storage = \<lparr>player_points = []\<rparr>, runtime = rt\<rparr>) generate_local_identities"

section \<open>Tasks\<close>

text \<open>
  A method that communicates: it works on a copy of the session, which is dropped when the protocol
  returns.
\<close>

type_synonym ('w, 'a) task = "('w, 'a result) proc"

definition tbind :: "('w, 'a) task \<Rightarrow> ('a \<Rightarrow> ('w, 'b) task) \<Rightarrow> ('w, 'b) task" where
  "tbind m f = pbind m (\<lambda>r. case r of Inl e \<Rightarrow> Ret (Inl e) | Inr x \<Rightarrow> f x)"

definition ttry :: "'a result \<Rightarrow> ('w, 'a) task" where
  "ttry r = Ret r"

definition tunwrap :: "('w, 'a) task \<Rightarrow> ('w, 'a) task" where
  "tunwrap m = pbind m (\<lambda>r. Ret (unwrap r))"

definition in_session :: "('w, 'g, 'a) async \<Rightarrow> 'g Session \<Rightarrow> ('w, 'a) task" where
  "in_session m session = pbind (m session) (\<lambda>r. Ret (rbind r (\<lambda>(x, _). Inr x)))"

section \<open>Distances\<close>

definition lift_distances ::
    "('w, 'g) Env \<Rightarrow> 'g LocalNetAby3NgStoreProtocol \<Rightarrow> u16 Share list \<Rightarrow> ('w, u32 DistanceShare list) task" where
  "lift_distances E self distances =
     (if distances = [] then ttry (Inr [])
      else
        tbind (ttry (get_owner_session self)) (\<lambda>player_session.
        tbind (in_session (batch_signed_lift_vec E distances) player_session) (\<lambda>distances.
        ttry (rmap (\<lambda>dot_products.
            rbind (vec_index dot_products 0) (\<lambda>c.
            rbind (vec_index dot_products 1) (\<lambda>m. Inr (DistanceShare_new c m)))) (chunks 2 distances)))))"

definition eval_pairwise_distances ::
    "('w, 'g) Env \<Rightarrow> 'g LocalNetAby3NgStoreProtocol \<Rightarrow> (GaloisRingSharedIris \<times> GaloisRingSharedIris) list
       \<Rightarrow> ('w, u16 Share list) task" where
  "eval_pairwise_distances E self pairs =
     (if pairs = [] then ttry (Inr [])
      else
        tbind (ttry (get_owner_session self)) (\<lambda>player_session.
        tunwrap (in_session (abind (galois_ring_pairwise_distance pairs) (galois_ring_to_rep3 E)) player_session)))"

definition shared_insert ::
    "'g LocalNetAby3NgStoreProtocol \<Rightarrow> Query \<Rightarrow> 'g LocalNetAby3NgStoreProtocol \<times> VectorId" where
  "shared_insert self q = (let (st, v) = player_insert (storage self) q in (self\<lparr>storage := st\<rparr>, v))"

definition eval_distance ::
    "('w, 'g) Env \<Rightarrow> 'g LocalNetAby3NgStoreProtocol \<Rightarrow> Query \<Rightarrow> VectorId \<Rightarrow> ('w, u32 DistanceShare) task" where
  "eval_distance E self q vector =
     tbind (ttry (get_vector (storage self) vector)) (\<lambda>vector_point.
     tbind (eval_pairwise_distances E self [(processed_query q, vector_point)]) (\<lambda>dist.
     tbind (tunwrap (lift_distances E self dist)) (\<lambda>ds.
     ttry (vec_index ds 0))))"

definition eval_distance_batch ::
    "('w, 'g) Env \<Rightarrow> 'g LocalNetAby3NgStoreProtocol \<Rightarrow> Query \<Rightarrow> VectorId list \<Rightarrow> ('w, u32 DistanceShare list) task" where
  "eval_distance_batch E self q vectors =
     (if vectors = [] then ttry (Inr [])
      else
        tbind (ttry (rmap (\<lambda>vector_id. rbind (get_vector (storage self) vector_id) (\<lambda>vector_point.
            Inr (processed_query q, vector_point))) vectors)) (\<lambda>pairs.
        tbind (eval_pairwise_distances E self pairs) (\<lambda>dist.
        tunwrap (lift_distances E self dist))))"

definition shared_is_match ::
    "('w, 'g) Env \<Rightarrow> 'g LocalNetAby3NgStoreProtocol \<Rightarrow> u32 DistanceShare \<Rightarrow> ('w, bool) task" where
  "shared_is_match E self distance =
     tbind (ttry (get_owner_session self)) (\<lambda>player_session.
     tunwrap (in_session (compare_threshold_and_open E distance) player_session))"

definition shared_less_than ::
    "('w, 'g) Env \<Rightarrow> 'g LocalNetAby3NgStoreProtocol \<Rightarrow> u32 DistanceShare \<Rightarrow> u32 DistanceShare \<Rightarrow> ('w, bool) task" where
  "shared_less_than E self distance1 distance2 =
     tbind (ttry (get_owner_session self)) (\<lambda>player_session.
     tunwrap (in_session (cross_compare E (code_dot distance1) (mask_dot distance1)
       (code_dot distance2) (mask_dot distance2)) player_session))"

section \<open>Graphs from plaintext\<close>

definition get_trivial_share :: "'g LocalNetAby3NgStoreProtocol \<Rightarrow> u16 \<Rightarrow> u32 Share result" where
  "get_trivial_share self distance =
     rbind (get_owner_index self) (\<lambda>player.
     let distance_elem = ucast distance :: u32; zero_elem = 0 in
     if player = 0 then Inr (Share_new distance_elem zero_elem)
     else if player = 1 then Inr (Share_new zero_elem distance_elem)
     else if player = 2 then Inr (Share_new zero_elem zero_elem)
     else Inl (Panic ''Invalid player index''))"

definition eval_distance_vectors ::
    "('w, 'g) Env \<Rightarrow> 'g LocalNetAby3NgStoreProtocol \<Rightarrow> VectorId \<Rightarrow> VectorId \<Rightarrow> ('w, u32 DistanceShare) task" where
  "eval_distance_vectors E self vector1 vector2 =
     tbind (ttry (get_vector (storage self) vector1)) (\<lambda>point1.
     tbind (ttry (rbind (get_vector (storage self) vector2) preprocess_query)) (\<lambda>point2.
     tbind (eval_pairwise_distances E self [(point1, point2)]) (\<lambda>dist.
     tbind (tunwrap (lift_distances E self dist)) (\<lambda>ds.
     ttry (vec_index ds 0)))))"

text \<open>The parts of \<open>hawk_pack\<close> that the conversion of a graph uses.\<close>

record ('pg, 'pl, 'pq, 'sg, 'sl, 'sq) HawkPack =
  get_entry_point :: "'pg \<Rightarrow> (PointId \<times> nat) option"
  get_layers :: "'pg \<Rightarrow> 'pl list"
  get_links_map :: "'pl \<Rightarrow> (PointId \<times> 'pq) list"
  as_vec_ref :: "'pq \<Rightarrow> (PointId \<times> (u16 \<times> u16)) list"
  from_ascending_vec :: "(VectorId \<times> u32 DistanceShare) list \<Rightarrow> 'sq"
  from_links :: "(VectorId \<rightharpoonup> 'sq) \<Rightarrow> 'sl"
  from_precomputed :: "(VectorId \<times> nat) option \<Rightarrow> 'sl list \<Rightarrow> 'sg"

fun tmap :: "('a \<Rightarrow> ('w, 'b) task) \<Rightarrow> 'a list \<Rightarrow> ('w, 'b list) task" where
  "tmap f [] = ttry (Inr [])"
| "tmap f (x # xs) = tbind (f x) (\<lambda>y. tbind (tmap f xs) (\<lambda>ys. ttry (Inr (y # ys))))"

definition share_distance ::
    "('w, 'g) Env \<Rightarrow> 'g LocalNetAby3NgStoreProtocol \<Rightarrow> bool \<Rightarrow> VectorId \<Rightarrow> VectorId \<Rightarrow> u16 \<times> u16
       \<Rightarrow> ('w, u32 DistanceShare) task" where
  "share_distance E self recompute_distances source_v target_v d =
     (if recompute_distances then eval_distance_vectors E self source_v target_v
      else ttry (rbind (get_trivial_share self (fst d)) (\<lambda>c.
        rbind (get_trivial_share self (snd d)) (\<lambda>m. Inr (DistanceShare_new c m)))))"

definition graph_from_plain ::
    "('w, 'g) Env \<Rightarrow> ('pg, 'pl, 'pq, 'sg, 'sl, 'sq) HawkPack \<Rightarrow> 'g LocalNetAby3NgStoreProtocol \<Rightarrow> 'pg \<Rightarrow> bool
       \<Rightarrow> ('w, 'sg) task" where
  "graph_from_plain E H self graph_store recompute_distances =
     (let ep = get_entry_point H graph_store;
          new_ep = map_option (\<lambda>(vector_ref, layer_count). (VectorId vector_ref, layer_count)) ep;
          layers = get_layers H graph_store
      in
      tbind (tmap (\<lambda>layer.
        tbind (tmap (\<lambda>(source_v, q).
          tbind (tmap (\<lambda>(target_v, d).
            tbind (share_distance E self recompute_distances (VectorId source_v) (VectorId target_v) d) (\<lambda>distance.
            ttry (Inr (VectorId target_v, distance)))) (as_vec_ref H q)) (\<lambda>shared_queue.
          ttry (Inr (VectorId source_v, from_ascending_vec H shared_queue)))) (get_links_map H layer)) (\<lambda>shared_links.
        ttry (Inr (from_links H (map_of (rev shared_links)))))) layers) (\<lambda>shared_layers.
      ttry (Inr (from_precomputed H new_ep shared_layers))))"

section \<open>Joint tasks\<close>

text \<open>
  \<open>reaches\<close>: from a quiet network the three tasks run to the end without an error and leave the network
  quiet. \<open>finishes\<close>: every interleaving does.
\<close>

definition reaches :: "(PartyID \<Rightarrow> Identity) \<Rightarrow> (PartyID \<Rightarrow> ('w, 'a) task) \<Rightarrow> ((PartyID \<Rightarrow> 'a) \<Rightarrow> bool) \<Rightarrow> bool" where
  "reaches ident P Q \<longleftrightarrow> (\<exists>A. (step local_networking ident)\<^sup>*\<^sup>* (P, quiet ident)
     (all_returned (\<lambda>p. Inr (A p)) (quiet ident)) \<and> Q A)"

definition finishes :: "(PartyID \<Rightarrow> Identity) \<Rightarrow> (PartyID \<Rightarrow> ('w, 'a) task) \<Rightarrow> ((PartyID \<Rightarrow> 'a) \<Rightarrow> bool) \<Rightarrow> bool" where
  "finishes ident P Q \<longleftrightarrow> (\<exists>A. ends_with ident (P, from_host_ids (idents ident)) (\<lambda>p. Inr (A p))
     (from_host_ids (idents ident)) \<and> Q A)"

lemma reaches_finishes: "inj ident \<Longrightarrow> reaches ident P Q \<Longrightarrow> finishes ident P Q"
  unfolding reaches_def finishes_def by (meson ends_withI)

lemma reaches_ret: "Q X \<Longrightarrow> reaches ident (\<lambda>p. ttry (Inr (X p))) Q"
  unfolding reaches_def ttry_def all_returned_def by blast

lemma reaches_conseq: "reaches ident P Q \<Longrightarrow> (\<And>A. Q A \<Longrightarrow> R A) \<Longrightarrow> reaches ident P R"
  unfolding reaches_def by blast

lemma reaches_bind:
  assumes "reaches ident P Q" "\<And>A. Q A \<Longrightarrow> reaches ident (\<lambda>p. F p (A p)) R"
  shows "reaches ident (\<lambda>p. tbind (P p) (F p)) R"
proof -
  from assms(1) obtain A where A: "(step local_networking ident)\<^sup>*\<^sup>* (P, quiet ident)
     (all_returned (\<lambda>p. Inr (A p)) (quiet ident))" "Q A" unfolding reaches_def by blast
  from assms(2) [OF A(2)] obtain B where B: "(step local_networking ident)\<^sup>*\<^sup>* (\<lambda>p. F p (A p), quiet ident)
     (all_returned (\<lambda>p. Inr (B p)) (quiet ident))" "R B" unfolding reaches_def by blast
  have "(step local_networking ident)\<^sup>*\<^sup>* (\<lambda>p. tbind (P p) (F p), quiet ident) (all_returned (\<lambda>p. Inr (B p)) (quiet ident))"
    unfolding tbind_def by (rule run_pbind [OF A(1)]) (simp add: B(1))
  with B(2) show ?thesis unfolding reaches_def by blast
qed

lemma reaches_unwrap:
  assumes "reaches ident P Q"
  shows "reaches ident (\<lambda>p. tunwrap (P p)) Q"
proof -
  from assms obtain A where A: "(step local_networking ident)\<^sup>*\<^sup>* (P, quiet ident)
     (all_returned (\<lambda>p. Inr (A p)) (quiet ident))" "Q A" unfolding reaches_def by blast
  have "(step local_networking ident)\<^sup>*\<^sup>* (\<lambda>p. tunwrap (P p), quiet ident) (all_returned (\<lambda>p. Inr (A p)) (quiet ident))"
    unfolding tunwrap_def by (rule run_pbind [OF A(1)]) (simp add: all_returned_def unwrap_def)
  with A(2) show ?thesis unfolding reaches_def by blast
qed

lemma reaches_in_session:
  assumes "achieves ident sid M Q" "synced ident sid S"
  shows "reaches ident (\<lambda>p. in_session (M p) (S p)) Q"
proof -
  from assms obtain A S' where A: "(step local_networking ident)\<^sup>*\<^sup>* (\<lambda>p. M p (S p), quiet ident)
     (all_returned (\<lambda>p. Inr (A p, S' p)) (quiet ident))" "Q A" unfolding achieves_def by blast
  have "(step local_networking ident)\<^sup>*\<^sup>* (\<lambda>p. in_session (M p) (S p), quiet ident) (all_returned (\<lambda>p. Inr (A p)) (quiet ident))"
    unfolding in_session_def by (rule run_pbind [OF A(1)]) (simp add: all_returned_def)
  with A(2) show ?thesis unfolding reaches_def by blast
qed

lemma tbind_ttry [simp]: "tbind (ttry (Inr x)) f = f x"
  by (simp add: tbind_def ttry_def)

text \<open>The three stores of one run, and the operations on a copy of the session.\<close>

definition stores_run :: "(PartyID \<Rightarrow> Identity) \<Rightarrow> (PartyID \<Rightarrow> 'g LocalNetAby3NgStoreProtocol) \<Rightarrow> bool" where
  "stores_run ident St \<longleftrightarrow> (\<exists>rt. runtime_ready ident rt \<and> (\<forall>p. owner (St p) = ident p \<and> runtime (St p) = rt))"

lemma stores_run_session:
  assumes "stores_run ident St"
  obtains S where "synced ident 0 S" "\<And>p. get_owner_session (St p) = Inr (S p)"
  using assms unfolding stores_run_def runtime_ready_def get_owner_session_def by auto

lemma reaches_on_copy:
  assumes "stores_run ident St" "achieves ident 0 M Q"
  shows "reaches ident (\<lambda>p. tbind (ttry (get_owner_session (St p))) (in_session (M p))) Q"
proof -
  from assms(1) obtain S where S: "synced ident 0 S" "\<And>p. get_owner_session (St p) = Inr (S p)"
    by (rule stores_run_session) (rule that)
  show ?thesis unfolding S(2) tbind_ttry by (rule reaches_in_session [OF assms(2) S(1)])
qed

lemma tunwrap_tbind_session:
  "tbind (ttry (get_owner_session st)) (\<lambda>s. tunwrap (in_session m s))
     = tunwrap (tbind (ttry (get_owner_session st)) (in_session m))"
  by (simp add: tbind_def ttry_def tunwrap_def get_owner_session_def unwrap_def split: option.split)

lemma reaches_on_copy_unwrap:
  assumes "stores_run ident St" "achieves ident 0 M Q"
  shows "reaches ident (\<lambda>p. tbind (ttry (get_owner_session (St p))) (\<lambda>s. tunwrap (in_session (M p) s))) Q"
  unfolding tunwrap_tbind_session by (rule reaches_unwrap [OF reaches_on_copy [OF assms]])

section \<open>Shared irises\<close>

text \<open>The shares that the parties hold of one iris, as the encoding deals them.\<close>

definition iris_shared :: "(PartyID \<Rightarrow> GaloisRingSharedIris) \<Rightarrow> IrisCode \<Rightarrow> bool" where
  "iris_shared X x \<longleftrightarrow>
     map (\<lambda>p. gi_id (shared_code (X p))) [ID0, ID1, ID2] = [1, 2, 3] \<and>
     map (\<lambda>p. tm_id (shared_mask (X p))) [ID0, ID1, ID2] = [1, 2, 3] \<and>
     sharing 3200 (map (\<lambda>p. gi_coefs (shared_code (X p))) [ID0, ID1, ID2]) (\<lambda>b. to_monomial (element_at (code_value x) b)) \<and>
     sharing 1600 (map (\<lambda>p. tm_coefs (shared_mask (X p))) [ID0, ID1, ID2]) (\<lambda>b. to_monomial (element_at (mask_value (mask x)) b))"

lemma map_by_party: "length xs = 3 \<Longrightarrow> map (\<lambda>p. h (xs ! usize_from_party p)) [ID0, ID1, ID2] = map h xs"
  by (rule nth_equalityI) (auto simp: less_Suc_eq numeral_3_eq_3 numeral_2_eq_2)

lemma generate_iris_shared:
  assumes "wf_iris x"
  obtains ss g' where "generate_galois_iris_shares gen g x = Inr (ss, g')" "length ss = 3"
    "iris_shared (\<lambda>p. ss ! usize_from_party p) x"
proof -
  obtain fs g' where fs: "full_encode_iris_code gen x g = Inr (fs, g')" "length fs = 3"
    "map (gi_id \<circ> full_code) fs = [1, 2, 3]" "map (tm_id \<circ> full_mask) fs = [1, 2, 3]"
    "sharing 3200 (map (gi_coefs \<circ> full_code) fs) (\<lambda>b. to_monomial (element_at (code_value x) b))"
    "sharing 1600 (map (tm_coefs \<circ> full_mask) fs) (\<lambda>b. to_monomial (element_at (mask_value (mask x)) b))"
    using assms by (rule full_encode_sharing)
  let ?ss = "map (\<lambda>f. \<lparr>shared_code = full_code f, shared_mask = full_mask f\<rparr>) fs"
  have "length ?ss = 3" using fs(2) by simp
  note nth = map_by_party [OF this, where h = "\<lambda>s. gi_id (shared_code s)"]
    map_by_party [OF this, where h = "\<lambda>s. tm_id (shared_mask s)"]
    map_by_party [OF this, where h = "\<lambda>s. gi_coefs (shared_code s)"]
    map_by_party [OF this, where h = "\<lambda>s. tm_coefs (shared_mask s)"]
  have "iris_shared (\<lambda>p. ?ss ! usize_from_party p) x"
    unfolding iris_shared_def nth using fs(3-) by (simp add: comp_def)
  then show ?thesis using that [OF generate_full_encode [OF fs(1,2)]] fs(2) by simp
qed

lemma dot_loop_commute: "dot_loop is xs ys acc = dot_loop is ys xs acc"
  by (induction "is" arbitrary: acc) (simp_all add: mult.commute)

lemma trick_dot_commute: "trick_dot x y = trick_dot y x" "tm_trick_dot a b = tm_trick_dot b a"
  by (simp_all add: trick_dot_def tm_trick_dot_def dot_loop_commute)

text \<open>The sums of the local dot products of a stored and a preprocessed share.\<close>

definition dots_shared :: "(PartyID \<Rightarrow> GaloisRingSharedIris \<times> GaloisRingSharedIris) \<Rightarrow> IrisCode \<Rightarrow> IrisCode \<Rightarrow> bool" where
  "dots_shared P x y \<longleftrightarrow>
     (\<Sum>p\<leftarrow>[ID0, ID1, ID2]. trick_dot (shared_code (fst (P p))) (shared_code (snd (P p))))
       = of_int (int (card (common_mask x y)) - 2 * int (card (differing x y))) \<and>
     2 * (\<Sum>p\<leftarrow>[ID0, ID1, ID2]. tm_trick_dot (shared_mask (fst (P p))) (shared_mask (snd (P p))))
       = of_nat (card (common_mask x y))"

lemma dots_shared_swap: "dots_shared P x y \<Longrightarrow> dots_shared (\<lambda>p. (snd (P p), fst (P p))) x y"
  by (simp add: dots_shared_def trick_dot_commute)

lemma counts_commute: "common_mask x y = common_mask y x" "differing x y = differing y x"
  by (auto simp: common_mask_def differing_def)

lemma rmap_by_party:
  assumes "rmap f (map X [ID0, ID1, ID2]) = Inr ys"
  shows "f (X p) = Inr (ys ! usize_from_party p)"
  using assms by (cases p) auto

lemma preprocess_iris_shared:
  assumes X: "iris_shared X x" and Y: "iris_shared Y y" and m: "paired_mask (mask x)" "paired_mask (mask y)"
  shows "\<exists>Y'. (\<forall>p. preprocess_query (Y p) = Inr (Y' p)) \<and> dots_shared (\<lambda>p. (X p, Y' p)) x y"
proof -
  let ?c = "\<lambda>X. map (\<lambda>p. shared_code (X p)) [ID0, ID1, ID2]" and ?m = "\<lambda>X. map (\<lambda>p. shared_mask (X p)) [ID0, ID1, ID2]"
  have c: "sharing 3200 (map gi_coefs (?c X)) (\<lambda>b. to_monomial (element_at (code_value x) b))"
    "sharing 3200 (map gi_coefs (?c Y)) (\<lambda>b. to_monomial (element_at (code_value y) b))" "map gi_id (?c Y) = [1, 2, 3]"
    using X Y by (simp_all add: iris_shared_def)
  have m': "sharing 1600 (map tm_coefs (?m X)) (\<lambda>b. to_monomial (element_at (mask_value (mask x)) b))"
    "sharing 1600 (map tm_coefs (?m Y)) (\<lambda>b. to_monomial (element_at (mask_value (mask y)) b))" "map tm_id (?m Y) = [1, 2, 3]"
    using X Y by (simp_all add: iris_shared_def)
  obtain cs where cs: "rmap preprocess_iris_code_query_share (?c Y) = Inr cs"
    "trick_dot (?c X ! 0) (cs ! 0) + trick_dot (?c X ! 1) (cs ! 1) + trick_dot (?c X ! 2) (cs ! 2)
      = of_int (int (card (common_mask x y)) - 2 * int (card (differing x y)))"
    by (rule code_dot_shares [OF c])
  obtain ms where ms: "rmap preprocess_mask_code_query_share (?m Y) = Inr ms"
    "2 * (tm_trick_dot (?m X ! 0) (ms ! 0) + tm_trick_dot (?m X ! 1) (ms ! 1) + tm_trick_dot (?m X ! 2) (ms ! 2))
      = of_nat (card (common_mask x y))"
    by (rule mask_dot_shares [OF m' m])
  let ?Y = "\<lambda>p. \<lparr>shared_code = cs ! usize_from_party p, shared_mask = ms ! usize_from_party p\<rparr>"
  have "preprocess_query (Y p) = Inr (?Y p)" for p
    using rmap_by_party [OF cs(1)] rmap_by_party [OF ms(1)] by (simp add: preprocess_query_def)
  moreover have "dots_shared (\<lambda>p. (X p, ?Y p)) x y"
    using cs(2) ms(2) by (simp add: dots_shared_def add.assoc)
  ultimately show ?thesis by (intro exI [of _ ?Y]) blast
qed

section \<open>Shared distances\<close>

text \<open>Shares of the dot products of two irises.\<close>

definition distance_shared :: "(PartyID \<Rightarrow> u32 DistanceShare) \<Rightarrow> IrisCode \<Rightarrow> IrisCode \<Rightarrow> bool" where
  "distance_shared D x y \<longleftrightarrow>
     rep3 (\<lambda>p. code_dot (D p)) \<and> rep3 (\<lambda>p. mask_dot (D p)) \<and>
     open_add word_ring (\<lambda>p. code_dot (D p)) = of_int (int (card (common_mask x y)) - 2 * int (card (differing x y))) \<and>
     open_add word_ring (\<lambda>p. mask_dot (D p)) = of_int (int (card (common_mask x y)))"

lemma pairs_nth:
  "length (concat (map (\<lambda>x. [f x, g x]) xs)) = 2 * length xs"
  "j < 2 * length xs \<Longrightarrow> concat (map (\<lambda>x. [f x, g x]) xs) ! j = (if even j then f (xs ! (j div 2)) else g (xs ! (j div 2)))"
proof -
  show "length (concat (map (\<lambda>x. [f x, g x]) xs)) = 2 * length xs" by (induction xs) simp_all
  show "j < 2 * length xs \<Longrightarrow> concat (map (\<lambda>x. [f x, g x]) xs) ! j = (if even j then f (xs ! (j div 2)) else g (xs ! (j div 2)))"
  proof (induction xs arbitrary: j)
    case (Cons x xs)
    consider "j = 0" | "j = 1" | k where "j = k + 2" by (metis One_nat_def add_2_eq_Suc' not0_implies_Suc)
    then show ?case using Cons.IH Cons.prems by cases auto
  qed simp
qed

lemma chunks_pairs:
  "length xs = 2 * n \<Longrightarrow> chunks 2 xs = map (\<lambda>i. [xs ! (2 * i), xs ! (2 * i + 1)]) [0..<n]"
proof (induction n arbitrary: xs)
  case (Suc n)
  then obtain a b ys where xs: "xs = a # b # ys" "length ys = 2 * n"
    by (metis add_2_eq_Suc length_Suc_conv mult_Suc_right)
  have "chunks 2 xs = [a, b] # chunks 2 ys" unfolding xs by (subst chunks.simps) simp
  also have "\<dots> = map (\<lambda>i. [xs ! (2 * i), xs ! (2 * i + 1)]) [0..<Suc n]"
    unfolding Suc.IH [OF xs(2)] by (simp add: xs(1) upt_conv_Cons comp_def del: upt_Suc flip: map_Suc_upt)
  finally show ?case .
qed (simp add: chunks.simps)

lemma rmap_pure: "rmap (\<lambda>x. Inr (f x)) xs = Inr (map f xs)"
  by (simp add: rmap_Inr)

lemma scast_small:
  assumes "- (2 ^ 15) \<le> z" "z < 2 ^ 15"
  shows "(scast (of_int z :: u16) :: u32) = of_int z"
  unfolding scast_eq by (subst sint_small) (use assms in simp_all)

text \<open>The pairwise dot products of a batch of pairs, as replicated shares.\<close>

definition counts :: "IrisCode \<times> IrisCode \<Rightarrow> int \<times> int" where
  "counts xy = (int (card (common_mask (fst xy) (snd xy))) - 2 * int (card (differing (fst xy) (snd xy))),
     int (card (common_mask (fst xy) (snd xy))))"

definition count_vector :: "(IrisCode \<times> IrisCode) list \<Rightarrow> 'a::len word list" where
  "count_vector vals = concat (map (\<lambda>xy. [of_int (fst (counts xy)), of_int (snd (counts xy))]) vals)"

lemma achieves_pairwise:
  assumes env: "inj ident" "codec_ok E" and len: "\<And>p. length (pairs p) = length vals"
    and dots: "\<And>i. i < length vals \<Longrightarrow> dots_shared (\<lambda>p. pairs p ! i) (fst (vals ! i)) (snd (vals ! i))"
  shows "achieves ident sid (\<lambda>p. abind (galois_ring_pairwise_distance (pairs p)) (galois_ring_to_rep3 E))
    (\<lambda>A. vec_shared (open_add word_ring) A (count_vector vals))"
proof -
  let ?f = "\<lambda>xy. trick_dot (shared_code (fst xy)) (shared_code (snd xy))"
  let ?g = "\<lambda>xy. re_mul word_ring 2 (tm_trick_dot (shared_mask (fst xy)) (shared_mask (snd xy)))"
  have local: "galois_ring_pairwise_distance ps = aret (concat (map (\<lambda>xy. [?f xy, ?g xy]) ps))" for ps
    unfolding galois_ring_pairwise_distance_def Let_def by (simp add: case_prod_unfold)
  have "length (concat (map (\<lambda>xy. [?f xy, ?g xy]) (pairs p))) = length (count_vector vals :: u16 list)" for p
    by (simp only: count_vector_def pairs_nth(1) len)
  moreover have "concat (map (\<lambda>xy. [?f xy, ?g xy]) (pairs ID0)) ! j + concat (map (\<lambda>xy. [?f xy, ?g xy]) (pairs ID1)) ! j
      + concat (map (\<lambda>xy. [?f xy, ?g xy]) (pairs ID2)) ! j = (count_vector vals ! j :: u16)"
    if "j < length (count_vector vals :: u16 list)" for j
  proof -
    have j: "j < 2 * length vals" using that by (simp add: count_vector_def pairs_nth)
    then have "j div 2 < length vals" by simp
    from dots [OF this] show ?thesis using j
      by (simp add: count_vector_def pairs_nth len dots_shared_def counts_def re_defs share_simps algebra_simps)
  qed
  ultimately show ?thesis
    unfolding local abind_aret by (rule achieves_to_rep3 [OF env])
qed

lemma count_vector_nth:
  assumes "i < length vals"
  shows "count_vector vals ! (2 * i) = (of_int (fst (counts (vals ! i))) :: 'a::len word)"
    "count_vector vals ! (2 * i + 1) = (of_int (snd (counts (vals ! i))) :: 'a::len word)"
    "length (count_vector vals :: 'a word list) = 2 * length vals"
  using assms by (simp_all add: count_vector_def pairs_nth)

lemma counts_bounds:
  "- (2 ^ 15) \<le> fst (counts xy)" "fst (counts xy) < 2 ^ 15" "- (2 ^ 15) \<le> snd (counts xy)" "snd (counts xy) < 2 ^ 15"
  using card_differing_le [of "fst xy" "snd xy"] card_common_mask_le [of "fst xy" "snd xy"]
  by (simp_all add: counts_def)

lemma scast_count_vector: "map scast (count_vector vals :: u16 list) = (count_vector vals :: u32 list)"
  by (induction vals) (simp_all add: count_vector_def scast_small [OF counts_bounds(1,2)] scast_small [OF counts_bounds(3,4)])

lemma lifted_chunks:
  fixes A :: "PartyID \<Rightarrow> u32 Share list"
  assumes "vec_shared (open_add word_ring) A (count_vector vals)"
  shows "\<exists>D. (\<forall>p. rmap (\<lambda>dot_products. rbind (vec_index dot_products 0) (\<lambda>c.
            rbind (vec_index dot_products 1) (\<lambda>m. Inr (DistanceShare_new c m)))) (chunks 2 (A p)) = Inr (D p)) \<and>
     (\<forall>p. length (D p) = length vals) \<and>
     (\<forall>i < length vals. distance_shared (\<lambda>p. D p ! i) (fst (vals ! i)) (snd (vals ! i)))"
proof -
  let ?n = "length vals"
  let ?D = "\<lambda>p. map (\<lambda>i. DistanceShare_new (A p ! (2 * i)) (A p ! (2 * i + 1))) [0..<?n]"
  have len: "length (A p) = 2 * ?n" for p
    using vec_shared_length [OF assms, of p] by (simp add: count_vector_def pairs_nth)
  have "rmap (\<lambda>dot_products. rbind (vec_index dot_products 0) (\<lambda>c.
            rbind (vec_index dot_products 1) (\<lambda>m. Inr (DistanceShare_new c m)))) (chunks 2 (A p)) = Inr (?D p)" for p
    unfolding chunks_pairs [OF len] by (simp add: vec_index_def rmap_map rmap_pure)
  moreover have "distance_shared (\<lambda>p. ?D p ! i) (fst (vals ! i)) (snd (vals ! i))" if i: "i < ?n" for i
    using vec_shared_nth [OF assms, of "2 * i"] vec_shared_nth [OF assms, of "2 * i + 1"] i
    by (simp add: distance_shared_def DistanceShare_new_def count_vector_nth [OF i] count_vector_nth(2) [OF i, simplified] counts_def)
  ultimately show ?thesis by (intro exI [of _ ?D]) simp
qed

lemma reaches_lift_distances:
  assumes env: "inj ident" "codec_ok E" and st: "stores_run ident St"
    and X: "vec_shared (open_add word_ring) X (count_vector vals)" and ne: "vals \<noteq> []"
  shows "reaches ident (\<lambda>p. lift_distances E (St p) (X p))
    (\<lambda>D. (\<forall>p. length (D p) = length vals) \<and>
      (\<forall>i < length vals. distance_shared (\<lambda>p. D p ! i) (fst (vals ! i)) (snd (vals ! i))))"
proof -
  from st obtain S where S: "synced ident 0 S" "\<And>p. get_owner_session (St p) = Inr (S p)"
    by (rule stores_run_session) (rule that)
  have "X p \<noteq> []" for p
    using vec_shared_length [OF X, of p] ne by (auto simp: count_vector_def pairs_nth)
  moreover have "reaches ident (\<lambda>p. in_session (batch_signed_lift_vec E (X p)) (S p))
      (\<lambda>A. vec_shared (open_add word_ring) A (count_vector vals))"
    using reaches_in_session [OF achieves_batch_signed_lift [OF env X] S(1)]
    unfolding batch_signed_lift_vec_def scast_count_vector .
  ultimately show ?thesis
    unfolding lift_distances_def S(2) tbind_ttry
    apply simp
    apply (erule reaches_bind)
    apply (drule lifted_chunks, elim exE conjE)
    apply (simp only: One_nat_def)
    apply (rule reaches_ret)
    apply blast
    done
qed

lemma reaches_pairwise:
  assumes env: "inj ident" "codec_ok E" and st: "stores_run ident St"
    and len: "\<And>p. length (pairs p) = length vals" and ne: "vals \<noteq> []"
    and dots: "\<And>i. i < length vals \<Longrightarrow> dots_shared (\<lambda>p. pairs p ! i) (fst (vals ! i)) (snd (vals ! i))"
  shows "reaches ident (\<lambda>p. eval_pairwise_distances E (St p) (pairs p))
    (\<lambda>A. vec_shared (open_add word_ring) A (count_vector vals))"
proof -
  have "pairs p \<noteq> []" for p using len [of p] ne by auto
  then show ?thesis
    unfolding eval_pairwise_distances_def
    using reaches_on_copy_unwrap [OF st achieves_pairwise [OF env len dots]] by simp
qed

text \<open>A batch of distances: evaluated, converted and lifted.\<close>

lemma reaches_distances:
  assumes env: "inj ident" "codec_ok E" and st: "stores_run ident St"
    and len: "\<And>p. length (pairs p) = length vals" and ne: "vals \<noteq> []"
    and dots: "\<And>i. i < length vals \<Longrightarrow> dots_shared (\<lambda>p. pairs p ! i) (fst (vals ! i)) (snd (vals ! i))"
  shows "reaches ident (\<lambda>p. tbind (eval_pairwise_distances E (St p) (pairs p)) (\<lambda>d. tunwrap (lift_distances E (St p) d)))
    (\<lambda>D. (\<forall>p. length (D p) = length vals) \<and>
      (\<forall>i < length vals. distance_shared (\<lambda>p. D p ! i) (fst (vals ! i)) (snd (vals ! i))))"
  by (rule reaches_bind [OF reaches_pairwise [OF env st len ne dots]], assumption)
    (rule reaches_unwrap, erule reaches_lift_distances [OF env st _ ne])

section \<open>The stores of one database\<close>

text \<open>The three stores hold the shares of the irises \<open>db\<close>, in order, in a runtime that is ready.\<close>

definition stores_hold ::
    "(PartyID \<Rightarrow> Identity) \<Rightarrow> (PartyID \<Rightarrow> 'g LocalNetAby3NgStoreProtocol) \<Rightarrow> IrisCode list \<Rightarrow> bool" where
  "stores_hold ident St db \<longleftrightarrow> stores_run ident St \<and>
     (\<forall>p. length (player_points (storage (St p))) = length db) \<and>
     (\<forall>i < length db. iris_shared (\<lambda>p. player_points (storage (St p)) ! i) (db ! i))"

text \<open>The shares of a query, with the preprocessing of \<open>prepare_query\<close>.\<close>

definition query_shared :: "(PartyID \<Rightarrow> Query) \<Rightarrow> IrisCode \<Rightarrow> bool" where
  "query_shared Q x \<longleftrightarrow> iris_shared (\<lambda>p. query (Q p)) x \<and>
     (\<forall>p. player_prepare_query (query (Q p)) = Inr (Q p))"

definition valid_id :: "VectorId \<Rightarrow> 'a list \<Rightarrow> bool" where
  "valid_id v db \<longleftrightarrow> unat (point_id (vector_point v)) < length db"

abbreviation iris_at :: "'a list \<Rightarrow> VectorId \<Rightarrow> 'a" where
  "iris_at db v \<equiv> db ! unat (point_id (vector_point v))"

lemma get_vector_at:
  "stores_hold ident St db \<Longrightarrow> valid_id v db \<Longrightarrow> get_vector (storage (St p)) v = Inr (iris_at (player_points (storage (St p))) v)"
  by (simp add: get_vector_def point_index_def stores_hold_def valid_id_def)

lemma query_dots:
  assumes "stores_hold ident St db" "query_shared Q x" "valid_id v db" "paired_mask (mask x)" "paired_mask (mask (iris_at db v))"
  shows "dots_shared (\<lambda>p. (processed_query (Q p), iris_at (player_points (storage (St p))) v)) x (iris_at db v)"
proof -
  let ?X = "\<lambda>p. iris_at (player_points (storage (St p))) v"
  have "iris_shared ?X (iris_at db v)" "iris_shared (\<lambda>p. query (Q p)) x"
    using assms(1-3) by (simp_all add: stores_hold_def valid_id_def query_shared_def)
  from preprocess_iris_shared [OF this assms(5,4)] obtain Y where
    Y: "\<forall>p. preprocess_query (query (Q p)) = Inr (Y p)" "dots_shared (\<lambda>p. (?X p, Y p)) (iris_at db v) x" by blast
  have "Y p = processed_query (Q p)" for p
  proof -
    have "player_prepare_query (query (Q p)) = Inr (Q p)" using assms(2) by (simp add: query_shared_def)
    with Y(1) have "Q p = \<lparr>query = query (Q p), processed_query = Y p\<rparr>" by (simp add: player_prepare_query_def)
    then show ?thesis by (metis Query.select_convs(2))
  qed
  with dots_shared_swap [OF Y(2)] show ?thesis by (simp add: dots_shared_def counts_commute [of x])
qed

lemma reaches_eval_distance_batch:
  assumes env: "inj ident" "codec_ok E" and st: "stores_hold ident St db" and Q: "query_shared Q x" "paired_mask (mask x)"
    and ids: "\<forall>v \<in> set vs. valid_id v db \<and> paired_mask (mask (iris_at db v))"
  shows "reaches ident (\<lambda>p. eval_distance_batch E (St p) (Q p) vs)
    (\<lambda>D. (\<forall>p. length (D p) = length vs) \<and>
      (\<forall>i < length vs. distance_shared (\<lambda>p. D p ! i) x (iris_at db (vs ! i))))"
proof (cases "vs = []")
  case True
  then show ?thesis unfolding eval_distance_batch_def by (simp add: reaches_ret)
next
  case False
  let ?vals = "map (\<lambda>v. (x, iris_at db v)) vs"
  let ?pairs = "\<lambda>p. map (\<lambda>v. (processed_query (Q p), iris_at (player_points (storage (St p))) v)) vs"
  have run: "stores_run ident St" using st by (simp add: stores_hold_def)
  have pairs: "rmap (\<lambda>vector_id. rbind (get_vector (storage (St p)) vector_id) (\<lambda>vector_point.
      Inr (processed_query (Q p), vector_point))) vs = Inr (?pairs p)" for p
    using ids by (intro rmap_Inr) (simp add: get_vector_at [OF st])
  have "dots_shared (\<lambda>p. ?pairs p ! i) (fst (?vals ! i)) (snd (?vals ! i))" if "i < length ?vals" for i
    using that ids query_dots [OF st Q(1) _ Q(2), of "vs ! i"] by simp
  then have "reaches ident (\<lambda>p. tbind (eval_pairwise_distances E (St p) (?pairs p)) (\<lambda>d. tunwrap (lift_distances E (St p) d)))
    (\<lambda>D. (\<forall>p. length (D p) = length ?vals) \<and>
      (\<forall>i < length ?vals. distance_shared (\<lambda>p. D p ! i) (fst (?vals ! i)) (snd (?vals ! i))))"
    by (intro reaches_distances [OF env run]) (use False in simp_all)
  then show ?thesis
    unfolding eval_distance_batch_def pairs tbind_ttry using False by (simp cong: conj_cong)
qed

lemma reaches_eval_distance:
  assumes env: "inj ident" "codec_ok E" and st: "stores_hold ident St db" and Q: "query_shared Q x" "paired_mask (mask x)"
    and v: "valid_id v db" "paired_mask (mask (iris_at db v))"
  shows "reaches ident (\<lambda>p. eval_distance E (St p) (Q p) v) (\<lambda>D. distance_shared D x (iris_at db v))"
proof -
  have run: "stores_run ident St" using st by (simp add: stores_hold_def)
  have "reaches ident (\<lambda>p. tbind (eval_pairwise_distances E (St p) [(processed_query (Q p), iris_at (player_points (storage (St p))) v)])
      (\<lambda>d. tunwrap (lift_distances E (St p) d)))
    (\<lambda>D. (\<forall>p. length (D p) = length [(x, iris_at db v)]) \<and>
      (\<forall>i < length [(x, iris_at db v)]. distance_shared (\<lambda>p. D p ! i) (fst ([(x, iris_at db v)] ! i)) (snd ([(x, iris_at db v)] ! i))))"
    by (rule reaches_distances [OF env run]) (use query_dots [OF st Q(1) v(1) Q(2) v(2)] in simp_all)
  note ds = this
  have assoc: "tbind m (\<lambda>d. tbind (f d) g) = tbind (tbind m f) g" for m :: "('w, 'x) task" and f :: "'x \<Rightarrow> ('w, 'y) task" and g :: "'y \<Rightarrow> ('w, 'z) task"
    unfolding tbind_def pbind_assoc by (rule arg_cong [of _ _ "pbind m"]) (auto split: sum.split)
  show ?thesis
    unfolding eval_distance_def get_vector_at [OF st v(1)] tbind_ttry assoc
    apply (rule reaches_bind [OF ds])
    subgoal for D
    proof -
      assume D: "(\<forall>p. length (D p) = length [(x, iris_at db v)]) \<and>
        (\<forall>i < length [(x, iris_at db v)]. distance_shared (\<lambda>p. D p ! i) (fst ([(x, iris_at db v)] ! i)) (snd ([(x, iris_at db v)] ! i)))"
      then have "vec_index (D p) 0 = Inr (D p ! 0)" for p by (simp add: vec_index_def)
      then show ?thesis using D by (simp add: reaches_ret)
    qed
    done
qed

section \<open>Comparing shared distances\<close>

lemma reaches_less_than:
  assumes env: "inj ident" "codec_ok E" and st: "stores_run ident St"
    and D1: "distance_shared D1 x y" and D2: "distance_shared D2 u v"
  shows "reaches ident (\<lambda>p. shared_less_than E (St p) (D1 p) (D2 p))
    (\<lambda>A. \<forall>p. A p = plaintext_less_than (distance_fraction x y) (distance_fraction u v))"
proof -
  let ?m = "\<lambda>x y. card (common_mask x y)" and ?k = "\<lambda>x y. card (differing x y)"
  let ?c = "\<lambda>x y. int (?m x y) - 2 * int (?k x y)"
  have b: "?k x y \<le> ?m x y" "?m x y \<le> 12800" for x y by (rule card_differing_le, rule card_common_mask_le)
  have le: "?k a b * ?m c d \<le> 12800 * 12800" for a b c d
    by (rule mult_le_mono [OF le_trans [OF b(1,2)] b(2)])
  have diff: "?c u v * int (?m x y) - ?c x y * int (?m u v) = 2 * int (?k x y * ?m u v) - 2 * int (?k u v * ?m x y)"
    by (simp add: algebra_simps)
  have "\<bar>2 * int a - 2 * int b\<bar> < 2 ^ 31" if "a \<le> 12800 * 12800" "b \<le> 12800 * 12800" for a b using that by simp
  from this [OF le le] have rng: "\<bar>?c u v * int (?m x y) - ?c x y * int (?m u v)\<bar> < 2 ^ 31" unfolding diff .
  have "2 * int a - 2 * int b < 0 \<longleftrightarrow> a < b" for a b by auto
  then have "?c u v * int (?m x y) < ?c x y * int (?m u v) \<longleftrightarrow> ?k x y * ?m u v < ?k u v * ?m x y"
    by (subst less_iff_diff_less_0) (simp only: diff)
  also have "\<dots> \<longleftrightarrow> plaintext_less_than (distance_fraction x y) (distance_fraction u v)"
  proof -
    obtain a b' c d where f: "distance_fraction x y = (a, b')" "distance_fraction u v = (c, d)"
      by (cases "distance_fraction x y", cases "distance_fraction u v")
    have n: "unat a = ?k x y" "unat b' = ?m x y" "unat c = ?k u v" "unat d = ?m u v"
      using distance_counts_bounded [of x y] distance_counts_bounded [of u v] by (simp_all add: f)
    show ?thesis unfolding f
      by (subst plaintext_less_than_cross; unfold n) (use b(2) le_trans [OF b(1,2)] in \<open>auto simp: mult.commute\<close>)
  qed
  finally have eq: "plaintext_less_than (distance_fraction x y) (distance_fraction u v)
    = (?c u v * int (?m x y) < ?c x y * int (?m u v))" by simp
  show ?thesis
    unfolding shared_less_than_def eq
    by (rule reaches_on_copy_unwrap [OF st], rule achieves_cross_compare [OF env])
      (use D1 D2 rng in \<open>simp_all add: distance_shared_def\<close>)
qed

lemma reaches_is_match:
  assumes env: "inj ident" "codec_ok E" and st: "stores_run ident St" and D: "distance_shared D x y"
  shows "reaches ident (\<lambda>p. shared_is_match E (St p) (D p)) (\<lambda>A. \<forall>p. A p = is_close x y)"
proof -
  let ?m = "card (common_mask x y)" and ?d = "card (differing x y)"
  have "?d \<le> ?m" "?m \<le> 12800" by (rule card_differing_le, rule card_common_mask_le)
  then have rng: "\<bar>16384 * int ?m - 65536 * (int ?m - 2 * int ?d)\<bar> < 2 ^ 31" by simp
  show ?thesis
    unfolding shared_is_match_def compare_threshold_and_open_def is_close_counts
    by (rule reaches_on_copy_unwrap [OF st], rule achieves_open_decision [OF env], rule achieves_compare_threshold [OF env])
      (use D rng in \<open>simp_all add: distance_shared_def\<close>)
qed

lemma share_database_shared:
  assumes "\<forall>pt \<in> set pts. wf_iris (point_data pt)" "length sh = 3" "\<forall>p. length (sh ! usize_from_party p) = length db"
    "\<forall>i < length db. iris_shared (\<lambda>p. sh ! usize_from_party p ! i) (db ! i)"
  shows "\<exists>sh' rng'. share_database gen pts sh rng = Inr (sh', rng') \<and> length sh' = 3 \<and>
    (\<forall>p. length (sh' ! usize_from_party p) = length (db @ map point_data pts)) \<and>
    (\<forall>i < length (db @ map point_data pts). iris_shared (\<lambda>p. sh' ! usize_from_party p ! i) ((db @ map point_data pts) ! i))"
  using assms
proof (induction pts arbitrary: sh db rng)
  case (Cons pt pts)
  then have "wf_iris (point_data pt)" by simp
  from this obtain ss g' where ss: "generate_galois_iris_shares gen rng (point_data pt) = Inr (ss, g')" "length ss = 3"
    "iris_shared (\<lambda>p. ss ! usize_from_party p) (point_data pt)" by (rule generate_iris_shared)
  let ?sh = "map2 (\<lambda>irises s. irises @ [s]) sh ss"
  have at: "?sh ! usize_from_party p = sh ! usize_from_party p @ [ss ! usize_from_party p]" for p
  proof -
    have "usize_from_party p < 3" by (cases p) simp_all
    then show ?thesis using Cons.prems(2) ss(2) by simp
  qed
  have "\<forall>i < length (db @ [point_data pt]). iris_shared (\<lambda>p. ?sh ! usize_from_party p ! i) ((db @ [point_data pt]) ! i)"
    unfolding at using Cons.prems(3,4) ss(3) by (auto simp: nth_append less_Suc_eq)
  moreover have "\<forall>p. length (?sh ! usize_from_party p) = length (db @ [point_data pt])"
    unfolding at using Cons.prems(3) by simp
  moreover have "length ?sh = 3" "\<forall>pt \<in> set pts. wf_iris (point_data pt)" using Cons.prems(1,2) ss(2) by simp_all
  ultimately show ?case
    using Cons.IH [of ?sh "db @ [point_data pt]" g'] ss(1) by simp
qed simp

lemma preloaded_hold:
  assumes "runtime_ready local_ident rt" "\<forall>pt \<in> set (points plain_store). wf_iris (point_data pt)"
  shows "\<exists>stores rng'. setup_local_aby3_players_with_preloaded_db gen rng plain_store rt = Inr (stores, rng') \<and>
    length stores = 3 \<and>
    stores_hold local_ident (\<lambda>p. stores ! usize_from_party p) (map point_data (points plain_store))"
proof -
  let ?db = "map point_data (points plain_store)"
  obtain sh rng' where sh: "share_database gen (points plain_store) [[], [], []] rng = Inr (sh, rng')"
    "length sh = 3" "\<forall>p. length (sh ! usize_from_party p) = length ?db"
    "\<forall>i < length ?db. iris_shared (\<lambda>p. sh ! usize_from_party p ! i) (?db ! i)"
    using share_database_shared [OF assms(2), of "[[], [], []]" "[]" gen rng] all_parties
    by (auto simp: all_parties)
  let ?stores = "map2 (\<lambda>id st. \<lparr>owner = id, storage = st, runtime = rt\<rparr>) generate_local_identities (map new_with_shared_db sh)"
  have len: "length generate_local_identities = 3" by (simp add: generate_local_identities_def)
  have at: "?stores ! usize_from_party p = \<lparr>owner = local_ident p, storage = new_with_shared_db (sh ! usize_from_party p), runtime = rt\<rparr>" for p
  proof -
    have "usize_from_party p < 3" by (cases p) simp_all
    then show ?thesis using sh(2) len by (simp add: local_ident_def)
  qed
  have "setup_local_aby3_players_with_preloaded_db gen rng plain_store rt = Inr (?stores, rng')"
    using sh(1) by (simp add: setup_local_aby3_players_with_preloaded_db_def len numeral_3_eq_3)
  moreover have "length ?stores = 3" using sh(2) len by simp
  moreover have "stores_hold local_ident (\<lambda>p. ?stores ! usize_from_party p) ?db"
    unfolding at stores_hold_def stores_run_def new_with_shared_db_def using assms(1) sh(3,4) by auto
  ultimately show ?thesis by blast
qed

section \<open>A concrete run\<close>

definition demo_runtime :: "nat LocalRuntime" where
  "demo_runtime = \<lparr>rt_identities = generate_local_identities, rt_role_assignments = assign_roles generate_local_identities,
     rt_seeds = mock_seeds,
     rt_sessions = map_of (map (\<lambda>p. (local_ident p, \<lparr>boot_session = boot_of local_ident 0 p,
       prf_setup = prf_new demo_env (mock_seeds ! usize_from_party p) (mock_seeds ! usize_from_party (prev_id p))\<rparr>)) [ID0, ID1, ID2])\<rparr>"

lemma demo_runtime_ready: "runtime_ready local_ident demo_runtime"
proof -
  let ?S = "\<lambda>p. \<lparr>boot_session = boot_of local_ident 0 p,
       prf_setup = prf_new demo_env (mock_seeds ! usize_from_party p) (mock_seeds ! usize_from_party (prev_id p))\<rparr>"
  have "synced local_ident 0 ?S" by (simp add: synced_def prf_new_def)
  moreover have "rt_sessions demo_runtime (local_ident p) = Some (?S p)" for p
    by (cases p) (simp_all add: demo_runtime_def inj_ident [OF inj_local_ident])
  ultimately show ?thesis
    by (auto simp: runtime_ready_def demo_runtime_def assign_roles_idents [of local_ident 0 ID0] simp flip: local_idents)
qed

lemma query_exists:
  assumes "wf_iris x" "paired_mask (mask x)"
  shows "\<exists>Q. query_shared Q x"
proof -
  obtain ss g' where "generate_galois_iris_shares (\<lambda>g. (g, 3 * g + 1)) 5 x = Inr (ss, g')"
    and ss: "iris_shared (\<lambda>p. ss ! usize_from_party p) x" using assms(1) by (rule generate_iris_shared)
  from preprocess_iris_shared [OF ss ss assms(2,2)] obtain Y where
    Y: "\<forall>p. preprocess_query (ss ! usize_from_party p) = Inr (Y p)" by blast
  have "query_shared (\<lambda>p. \<lparr>query = ss ! usize_from_party p, processed_query = Y p\<rparr>) x"
    using ss Y by (simp add: query_shared_def player_prepare_query_def)
  then show ?thesis by blast
qed

lemma demo_stores:
  "\<exists>(St :: PartyID \<Rightarrow> nat LocalNetAby3NgStoreProtocol) Q.
     stores_hold local_ident St [iris_default] \<and> query_shared Q iris_default"
proof -
  have "\<forall>pt \<in> set (points \<lparr>points = [\<lparr>point_data = iris_default, is_persistent = True\<rparr>]\<rparr>). wf_iris (point_data pt)"
    using wf_iris_default by simp
  from preloaded_hold [OF demo_runtime_ready this, of "\<lambda>g. (g, 3 * g + 1)" 5] obtain stores :: "nat LocalNetAby3NgStoreProtocol list" where
    "stores_hold local_ident (\<lambda>p. stores ! usize_from_party p) [iris_default]" by auto
  moreover obtain Q where "query_shared Q iris_default" using query_exists [OF wf_iris_default] by blast
  ultimately show ?thesis by (intro exI [of _ "\<lambda>p. stores ! usize_from_party p"] exI [of _ Q] conjI)
qed

section \<open>Properties of the shared store\<close>

text \<open>
  C2: The shared store refines the plaintext store. When the three stores hold the shares of a
  database and the parties have prepared the shares of a query, evaluating the distances of the query
  to two stored irises, comparing them and testing the first for a match ends at every party in
  every interleaving, without an error, with the results that the plaintext store computes on the
  irises themselves.
\<close>

theorem shared_store_refines_plaintext:
  assumes "inj ident" "codec_ok E" "stores_hold ident St db" "query_shared Q x"
    and "paired_mask (mask x)" "\<forall>y \<in> set db. paired_mask (mask y)" "valid_id v db" "valid_id w db"
  shows "finishes ident
    (\<lambda>p. tbind (eval_distance E (St p) (Q p) v) (\<lambda>d.
         tbind (eval_distance E (St p) (Q p) w) (\<lambda>e.
         tbind (shared_less_than E (St p) d e) (\<lambda>less.
         tbind (shared_is_match E (St p) d) (\<lambda>m. ttry (Inr (less, m)))))))
    (\<lambda>A. \<forall>p. A p = (plaintext_less_than (distance_fraction x (iris_at db v)) (distance_fraction x (iris_at db w)),
                   plaintext_is_match (distance_fraction x (iris_at db v))))"
proof -
  have run: "stores_run ident St" using assms(3) by (simp add: stores_hold_def)
  have pm: "paired_mask (mask (iris_at db v))" "paired_mask (mask (iris_at db w))"
    using assms(6-8) by (simp_all add: valid_id_def)
  note ev = reaches_eval_distance [OF assms(1-5)]
  show ?thesis
    apply (rule reaches_finishes [OF assms(1)])
    apply (rule reaches_bind [OF ev [OF assms(7) pm(1)]])
    apply (rule reaches_bind [OF ev [OF assms(8) pm(2)]])
    apply (rule reaches_bind [OF reaches_less_than [OF assms(1,2) run]], assumption, assumption)
    apply (rule reaches_bind [OF reaches_is_match [OF assms(1,2) run]], assumption)
    apply (rule reaches_ret)
    apply (simp add: plaintext_match_close)
    done
qed

theorem shared_store_refines_plaintext_witness:
  "\<exists>(St :: PartyID \<Rightarrow> nat LocalNetAby3NgStoreProtocol) Q. stores_hold local_ident St [iris_default] \<and> query_shared Q iris_default \<and>
   finishes local_ident
    (\<lambda>p. tbind (eval_distance demo_env (St p) (Q p) (vector_from_usize 0)) (\<lambda>d.
         tbind (eval_distance demo_env (St p) (Q p) (vector_from_usize 0)) (\<lambda>e.
         tbind (shared_less_than demo_env (St p) d e) (\<lambda>less.
         tbind (shared_is_match demo_env (St p) d) (\<lambda>m. ttry (Inr (less, m)))))))
    (\<lambda>A. \<forall>p. A p = (plaintext_less_than (distance_fraction iris_default (iris_at [iris_default] (vector_from_usize 0)))
          (distance_fraction iris_default (iris_at [iris_default] (vector_from_usize 0))),
        plaintext_is_match (distance_fraction iris_default (iris_at [iris_default] (vector_from_usize 0)))))"
proof -
  from demo_stores obtain St :: "PartyID \<Rightarrow> nat LocalNetAby3NgStoreProtocol" and Q where
    h: "stores_hold local_ident St [iris_default]" "query_shared Q iris_default" by blast
  have v: "valid_id (vector_from_usize 0) [iris_default]"
    by (simp add: valid_id_def vector_from_usize_def point_from_usize_def)
  have "\<forall>y \<in> set [iris_default]. paired_mask (mask y)" by (simp add: wf_iris_default)
  from shared_store_refines_plaintext [OF inj_local_ident demo_env_ok h wf_iris_default(2) this v v] h
  show ?thesis by (intro exI [of _ St] exI [of _ Q] conjI)
qed

text \<open>
  Batches of distances. For every list of identifiers in the store, \<open>eval_distance_batch\<close> ends at
  every party in every interleaving and returns, in the order of the list, shares of the dot
  products of the query with the stored irises; an empty batch returns at once.
\<close>

theorem eval_distance_batch_correct:
  assumes "inj ident" "codec_ok E" "stores_hold ident St db" "query_shared Q x" "paired_mask (mask x)"
    and "\<forall>v \<in> set vs. valid_id v db \<and> paired_mask (mask (iris_at db v))"
  shows "finishes ident (\<lambda>p. eval_distance_batch E (St p) (Q p) vs)
    (\<lambda>D. (\<forall>p. length (D p) = length vs) \<and>
      (\<forall>i < length vs. distance_shared (\<lambda>p. D p ! i) x (iris_at db (vs ! i))))"
  by (rule reaches_finishes [OF assms(1) reaches_eval_distance_batch [OF assms]])

theorem eval_distance_batch_correct_witness:
  "\<exists>(St :: PartyID \<Rightarrow> nat LocalNetAby3NgStoreProtocol) Q. stores_hold local_ident St [iris_default] \<and> query_shared Q iris_default \<and>
   finishes local_ident (\<lambda>p. eval_distance_batch demo_env (St p) (Q p) [vector_from_usize 0, vector_from_usize 0])
    (\<lambda>D. (\<forall>p. length (D p) = length [vector_from_usize 0, vector_from_usize 0]) \<and>
      (\<forall>i < length [vector_from_usize 0, vector_from_usize 0]. distance_shared (\<lambda>p. D p ! i) iris_default
         (iris_at [iris_default] ([vector_from_usize 0, vector_from_usize 0] ! i))))"
proof -
  from demo_stores obtain St :: "PartyID \<Rightarrow> nat LocalNetAby3NgStoreProtocol" and Q where
    h: "stores_hold local_ident St [iris_default]" "query_shared Q iris_default" by blast
  have "\<forall>v \<in> set [vector_from_usize 0, vector_from_usize 0]. valid_id v [iris_default] \<and> paired_mask (mask (iris_at [iris_default] v))"
    by (simp add: valid_id_def vector_from_usize_def point_from_usize_def wf_iris_default)
  from eval_distance_batch_correct [OF inj_local_ident demo_env_ok h wf_iris_default(2) this] h
  show ?thesis by (intro exI [of _ St] exI [of _ Q] conjI)
qed

text \<open>
  C29: Insertion keeps the stores in step. Inserting a query of which every party holds its prepared
  share appends the iris to the database the three stores hold, and gives it the same identifier at
  every party, its position.
\<close>

theorem shared_insert_keeps_stores:
  assumes "stores_hold ident St db" "query_shared Q x" "length db < 2 ^ 32"
  shows "stores_hold ident (\<lambda>p. fst (shared_insert (St p) (Q p))) (db @ [x]) \<and>
    (\<exists>v. (\<forall>p. snd (shared_insert (St p) (Q p)) = v) \<and> valid_id v (db @ [x]) \<and> iris_at (db @ [x]) v = x)"
proof -
  have ins: "shared_insert (St p) (Q p) = ((St p)\<lparr>storage := \<lparr>player_points = player_points (storage (St p)) @ [query (Q p)]\<rparr>\<rparr>,
      VectorId (PointId (of_nat (length db))))" for p
    using assms(1) by (simp add: shared_insert_def player_insert_def stores_hold_def point_from_usize_def)
  have n: "unat (of_nat (length db) :: u32) = length db"
    using assms(3) by (simp add: unsigned_of_nat take_bit_nat_eq_self)
  have "stores_hold ident (\<lambda>p. fst (shared_insert (St p) (Q p))) (db @ [x])"
    unfolding ins using assms(1,2)
    by (auto simp: stores_hold_def stores_run_def query_shared_def nth_append less_Suc_eq)
  then show ?thesis unfolding ins by (simp add: valid_id_def n)
qed

theorem shared_insert_keeps_stores_witness:
  "\<exists>(St :: PartyID \<Rightarrow> nat LocalNetAby3NgStoreProtocol) Q. stores_hold local_ident St [iris_default] \<and> query_shared Q iris_default \<and>
   stores_hold local_ident (\<lambda>p. fst (shared_insert (St p) (Q p))) ([iris_default] @ [iris_default]) \<and>
    (\<exists>v. (\<forall>p. snd (shared_insert (St p) (Q p)) = v) \<and> valid_id v ([iris_default] @ [iris_default]) \<and>
      iris_at ([iris_default] @ [iris_default]) v = iris_default)"
proof -
  from demo_stores obtain St :: "PartyID \<Rightarrow> nat LocalNetAby3NgStoreProtocol" and Q where
    h: "stores_hold local_ident St [iris_default]" "query_shared Q iris_default" by blast
  have "length [iris_default] < 2 ^ 32" by simp
  from shared_insert_keeps_stores [OF h this] h
  show ?thesis by (intro exI [of _ St] exI [of _ Q] conjI) blast+
qed

text \<open>
  Preloading. For a runtime that is ready and a plaintext store of well-formed irises,
  \<open>setup_local_aby3_players_with_preloaded_db\<close> returns, whatever the generator yields, one store per
  party, and together they hold the shares of the irises of the plaintext store.
\<close>

theorem preloaded_stores_hold:
  assumes "runtime_ready local_ident rt" "\<forall>pt \<in> set (points plain_store). wf_iris (point_data pt)"
  shows "\<exists>stores rng'. setup_local_aby3_players_with_preloaded_db gen rng plain_store rt = Inr (stores, rng') \<and>
    length stores = 3 \<and>
    stores_hold local_ident (\<lambda>p. stores ! usize_from_party p) (map point_data (points plain_store))"
  by (rule preloaded_hold [OF assms])

theorem preloaded_stores_hold_witness:
  "\<exists>stores rng'. setup_local_aby3_players_with_preloaded_db (\<lambda>g. (g, 3 * g + 1)) 5
      \<lparr>points = [\<lparr>point_data = iris_default, is_persistent = True\<rparr>]\<rparr> demo_runtime = Inr (stores, rng') \<and>
    length stores = 3 \<and>
    stores_hold local_ident (\<lambda>p. stores ! usize_from_party p)
      (map point_data (points \<lparr>points = [\<lparr>point_data = iris_default, is_persistent = True\<rparr>]\<rparr>))"
  by (rule preloaded_stores_hold [OF demo_runtime_ready]) (simp add: wf_iris_default)

section \<open>Distances converted without recomputation\<close>

lemma owner_index:
  assumes "inj ident" "stores_run ident St"
  shows "get_owner_index (St p) = Inr (usize_from_party p)"
proof -
  have "rt_role_assignments (runtime (St p)) = [(role_new 0, ident ID0), (role_new 1, ident ID1), (role_new 2, ident ID2)]"
    "owner (St p) = ident p"
    using assms(2) by (auto simp: stores_run_def runtime_ready_def boot_of_def)
  then show ?thesis
    by (cases p) (simp_all add: get_owner_index_def inj_ident [OF assms(1)] role_index_new del: One_nat_def)
qed

definition trivial_share :: "u16 \<Rightarrow> PartyID \<Rightarrow> u32 Share" where
  "trivial_share d p = \<lparr>sh_a = (if p = ID0 then ucast d else 0), sh_b = (if p = ID1 then ucast d else 0)\<rparr>"

lemma get_trivial_share_eq:
  assumes "inj ident" "stores_run ident St"
  shows "get_trivial_share (St p) d = Inr (trivial_share d p)"
  unfolding get_trivial_share_def owner_index [OF assms]
  by (cases p) (simp_all add: trivial_share_def Share_new_def)

lemma trivial_share_opens: "rep3 (trivial_share d)" "open_add word_ring (trivial_share d) = of_int (int (unat d))"
proof -
  show "rep3 (trivial_share d)" by (simp add: rep3_iff trivial_share_def)
  show "open_add word_ring (trivial_share d) = of_int (int (unat d))"
    unfolding ucast_16_32 [symmetric] by (simp add: open_add_word trivial_share_def)
qed

text \<open>
  C30: Distances converted without recomputation compare the wrong way round. The plaintext store
  represents a distance by the number of differing bits, the shared store by the dot product.
  Without recomputation \<open>graph_from_plain\<close> turns the plaintext numbers into trivial shares; comparing
  two such distances with the \<open>less_than\<close> of the shared store ends at every party with the
  comparison of the plaintext distances with their roles exchanged.
\<close>

theorem trivial_distances_compare_reversed:
  assumes "inj ident" "codec_ok E" "stores_run ident St"
    and "unat a \<le> 12800" "unat b \<le> 12800" "unat c \<le> 12800" "unat d \<le> 12800"
  shows "finishes ident
    (\<lambda>p. tbind (share_distance E (St p) False s t (a, b)) (\<lambda>d1.
         tbind (share_distance E (St p) False s' t' (c, d)) (\<lambda>d2.
         shared_less_than E (St p) d1 d2)))
    (\<lambda>A. \<forall>p. A p = plaintext_less_than (c, d) (a, b))"
proof -
  have naive: "share_distance E (St p) False s t (a, b) = ttry (Inr (DistanceShare_new (trivial_share a p) (trivial_share b p)))"
    for p s t a b
    by (simp add: share_distance_def get_trivial_share_eq [OF assms(1,3)])
  have le: "unat c * unat b \<le> 12800 * 12800" "unat a * unat d \<le> 12800 * 12800"
    by (intro mult_le_mono assms)+
  have "\<bar>int m - int n\<bar> < 2 ^ 31" if "m \<le> 12800 * 12800" "n \<le> 12800 * 12800" for m n using that by simp
  from this [OF le] have rng: "\<bar>int (unat c) * int (unat b) - int (unat a) * int (unat d)\<bar> < 2 ^ 31"
    unfolding of_nat_mult .
  have eq: "plaintext_less_than (c, d) (a, b) = (int (unat c) * int (unat b) < int (unat a) * int (unat d))"
    unfolding plaintext_less_than_cross [OF assms(6,7,4,5)] of_nat_mult [symmetric] of_nat_less_iff by (simp only: mult.commute)
  show ?thesis
    unfolding naive tbind_ttry shared_less_than_def eq DistanceShare_new_def DistanceShare.simps
    by (rule reaches_finishes [OF assms(1)], rule reaches_on_copy_unwrap [OF assms(3)],
        rule achieves_cross_compare [OF assms(1,2)]) (rule trivial_share_opens rng)+
qed

theorem trivial_distances_compare_reversed_witness:
  "\<exists>St :: PartyID \<Rightarrow> nat LocalNetAby3NgStoreProtocol. stores_run local_ident St \<and>
   finishes local_ident
    (\<lambda>p. tbind (share_distance demo_env (St p) False (vector_from_usize 0) (vector_from_usize 1) (1000, 9000)) (\<lambda>d1.
         tbind (share_distance demo_env (St p) False (vector_from_usize 0) (vector_from_usize 2) (2000, 9000)) (\<lambda>d2.
         shared_less_than demo_env (St p) d1 d2)))
    (\<lambda>A. \<forall>p. A p = plaintext_less_than (2000, 9000) (1000, 9000)) \<and>
   plaintext_less_than (1000, 9000) (2000, 9000) \<and> \<not> plaintext_less_than (2000, 9000) (1000, 9000)"
proof -
  from demo_stores obtain St :: "PartyID \<Rightarrow> nat LocalNetAby3NgStoreProtocol" where
    st: "stores_run local_ident St" by (auto simp: stores_hold_def)
  note rev = trivial_distances_compare_reversed [OF inj_local_ident demo_env_ok st]
  show ?thesis
    by (intro exI [of _ St] conjI st rev) (simp_all add: plaintext_less_than_cross)
qed

end
