(* ===== verification/Reshare.thy ===== *)
theory Reshare
  imports GaloisEngine
begin

text \<open>
  Resharing of iris codes to a new party (\<open>iris-mpc-upgrade/src/reshare.rs\<close>, with the messages of
  \<open>proto/iris_mpc_reshare.rs\<close> and the client loop of \<open>bin/reshare-client.rs\<close>). Two senders multiply
  their shares by interpolation coefficients, mask them with a common random stream, and the
  receiver adds the two contributions. SHA-256, the ChaCha generator and the database of the
  receiver are parameters. \<open>i64\<close> is a word read with \<open>sint\<close>; arithmetic wraps as in the release profile.
\<close>

section \<open>Messages\<close>

type_synonym i64 = "64 word"

record IrisCodeReShare =
  left_iris_code_share :: "u8 list"
  left_mask_share :: "u8 list"
  right_iris_code_share :: "u8 list"
  right_mask_share :: "u8 list"

record IrisCodeReShareRequest =
  sender_id :: u64
  other_id :: u64
  receiver_id :: u64
  id_range_start_inclusive :: i64
  id_range_end_non_inclusive :: i64
  iris_code_re_shares :: "IrisCodeReShare list"
  client_correlation_sanity_check :: "u8 list"

datatype IrisCodeReShareStatus = StatusOk | FullQueue | StatusError

record IrisCodeReShareResponse =
  status :: IrisCodeReShareStatus
  message :: string

definition to_le_bytes :: "nat \<Rightarrow> 'a::len word \<Rightarrow> u8 list" where
  "to_le_bytes n w = map (\<lambda>k. ucast (drop_bit (8 * k) w)) [0..<n]"

definition u16_from_le_bytes :: "u8 list \<Rightarrow> u16" where
  "u16_from_le_bytes bs = (case bs of [a, b] \<Rightarrow> ucast a + push_bit 8 (ucast b) | _ \<Rightarrow> 0)"

section \<open>The sender\<close>

text \<open>The third-party functions: SHA-256 and the generator seeded with its digest.\<close>

record 'g Crypto =
  sha256 :: "u8 list \<Rightarrow> u8 list"
  chacha_from_seed :: "u8 list \<Rightarrow> 'g"
  chacha_u16 :: "'g \<Rightarrow> u16 \<times> 'g"

record IrisCodeReshareSenderHelper =
  my_party_id :: nat
  other_party_id :: nat
  target_party_id :: nat
  lagrange_helper :: gre
  common_seed :: "u8 list"
  current_packet :: "IrisCodeReShareRequest option"

definition sender_new :: "nat \<Rightarrow> nat \<Rightarrow> nat \<Rightarrow> u8 list \<Rightarrow> IrisCodeReshareSenderHelper result" where
  "sender_new my_id other target seed =
     rbind (deg_1_lagrange_poly_at_v my_id other target) (\<lambda>lagrange.
     Inr \<lparr>my_party_id = my_id, other_party_id = other, target_party_id = target, lagrange_helper = lagrange,
          common_seed = seed, current_packet = None\<rparr>)"

definition reshare_with_random_additive_zero ::
    "'g Crypto \<Rightarrow> IrisCodeReshareSenderHelper \<Rightarrow> gre \<Rightarrow> 'g \<Rightarrow> gre \<times> 'g" where
  "reshare_with_random_additive_zero C self share rng =
     (let (random_mask, rng) = gre_random (chacha_u16 C) rng
      in if my_party_id self < other_party_id self then (share + random_mask, rng) else (share - random_mask, rng))"

fun reshare_loop ::
    "'g Crypto \<Rightarrow> IrisCodeReshareSenderHelper \<Rightarrow> nat list \<Rightarrow> u16 list \<Rightarrow> 'g \<Rightarrow> u16 list \<times> 'g" where
  "reshare_loop C self [] coefs rng = (coefs, rng)"
| "reshare_loop C self (i # is) coefs rng =
     (let share = get_block i coefs;
          share = share * lagrange_helper self;
          (share, rng) = reshare_with_random_additive_zero C self share rng
      in reshare_loop C self is (put_block i share coefs) rng)"

definition reshare_code ::
    "'g Crypto \<Rightarrow> IrisCodeReshareSenderHelper \<Rightarrow> GaloisRingIrisCodeShare \<Rightarrow> 'g \<Rightarrow> u8 list \<times> 'g" where
  "reshare_code C self code_share rng =
     (let (coefs, rng) = reshare_loop C self (step_by_4 IRIS_CODE_LENGTH) (gi_coefs code_share) rng
      in (concat (map (to_le_bytes 2) coefs), rng))"

definition reshare_mask ::
    "'g Crypto \<Rightarrow> IrisCodeReshareSenderHelper \<Rightarrow> GaloisRingTrimmedMaskCodeShare \<Rightarrow> 'g \<Rightarrow> u8 list \<times> 'g" where
  "reshare_mask C self mask_share rng =
     (let (coefs, rng) = reshare_loop C self (step_by_4 MASK_CODE_LENGTH) (tm_coefs mask_share) rng
      in (concat (map (to_le_bytes 2) coefs), rng))"

definition start_reshare_batch ::
    "'g Crypto \<Rightarrow> IrisCodeReshareSenderHelper \<Rightarrow> i64 \<Rightarrow> i64 \<Rightarrow> IrisCodeReshareSenderHelper result" where
  "start_reshare_batch C self start_db_index end_db_index =
     (if current_packet self \<noteq> None
      then Inl (Panic ''We expected no batch to be currently being built, but it is...'')
      else
        (let digest = sha256 C (common_seed self @ to_le_bytes 8 start_db_index @ to_le_bytes 8 end_db_index
               @ map of_char ''ReShareSanityCheck'')
         in Inr (self\<lparr>current_packet := Some \<lparr>sender_id = of_nat (my_party_id self), other_id = of_nat (other_party_id self),
              receiver_id = of_nat (target_party_id self), id_range_start_inclusive = start_db_index,
              id_range_end_non_inclusive = end_db_index, iris_code_re_shares = [],
              client_correlation_sanity_check = digest\<rparr>\<rparr>)))"

definition add_reshare_iris_to_batch ::
    "'g Crypto \<Rightarrow> IrisCodeReshareSenderHelper \<Rightarrow> i64 \<Rightarrow> GaloisRingIrisCodeShare \<Rightarrow> GaloisRingTrimmedMaskCodeShare
       \<Rightarrow> GaloisRingIrisCodeShare \<Rightarrow> GaloisRingTrimmedMaskCodeShare \<Rightarrow> IrisCodeReshareSenderHelper result" where
  "add_reshare_iris_to_batch C self iris_code_id left_code left_mask right_code right_mask =
     (case current_packet self of
        None \<Rightarrow> Inl (Panic ''We expect a batch to be currently being built'')
      | Some packet \<Rightarrow>
          if \<not> (sint (id_range_start_inclusive packet) \<le> sint iris_code_id
               \<and> sint (id_range_end_non_inclusive packet) > sint iris_code_id)
          then Inl (Panic ''The iris code id is out of the range of the current batch'')
          else
            (let rng = chacha_from_seed C (sha256 C (common_seed self @ to_le_bytes 8 iris_code_id));
                 (left_reshared_code, rng) = reshare_code C self left_code rng;
                 (left_reshared_mask, rng) = reshare_mask C self left_mask rng;
                 (right_reshared_code, rng) = reshare_code C self right_code rng;
                 (right_reshared_mask, rng) = reshare_mask C self right_mask rng;
                 reshare = \<lparr>left_iris_code_share = left_reshared_code, left_mask_share = left_reshared_mask,
                            right_iris_code_share = right_reshared_code, right_mask_share = right_reshared_mask\<rparr>
             in Inr (self\<lparr>current_packet := Some (packet\<lparr>iris_code_re_shares := iris_code_re_shares packet @ [reshare]\<rparr>)\<rparr>)))"

definition finalize_reshare_batch ::
    "IrisCodeReshareSenderHelper \<Rightarrow> (IrisCodeReshareSenderHelper \<times> IrisCodeReShareRequest) result" where
  "finalize_reshare_batch self =
     (case current_packet self of
        None \<Rightarrow> Inl (Panic ''No batch to finalize'')
      | Some packet \<Rightarrow>
          if length (iris_code_re_shares packet)
               \<noteq> unat (id_range_end_non_inclusive packet - id_range_start_inclusive packet)
          then Inl (Panic ''Expected the correct number of iris codes to be added to the batch'')
          else Inr (self\<lparr>current_packet := None\<rparr>, packet))"

section \<open>The receiver\<close>

datatype IrisCodeReShareError = InvalidRequest string | TooManyRequests nat nat

definition show_reshare_error :: "IrisCodeReShareError \<Rightarrow> string" where
  "show_reshare_error e =
     (case e of
        InvalidRequest reason \<Rightarrow> ''Invalid reshare request received: '' @ reason
      | TooManyRequests party other \<Rightarrow>
          ''Too many requests received from this party ('' @ show_usize party
          @ '') without matching request from the other party ('' @ show_usize other)"

record IrisCodeReshareReceiverHelper =
  receiver_party_id :: nat
  sender1_party_id :: nat
  sender2_party_id :: nat
  max_buffer_size :: nat
  sender_1_buffer :: "IrisCodeReShareRequest list"
  sender_2_buffer :: "IrisCodeReShareRequest list"

definition receiver_new :: "nat \<Rightarrow> nat \<Rightarrow> nat \<Rightarrow> nat \<Rightarrow> IrisCodeReshareReceiverHelper" where
  "receiver_new my_id sender1 sender2 max_size =
     \<lparr>receiver_party_id = my_id, sender1_party_id = sender1, sender2_party_id = sender2, max_buffer_size = max_size,
      sender_1_buffer = [], sender_2_buffer = []\<rparr>"

definition check_valid ::
    "IrisCodeReshareReceiverHelper \<Rightarrow> IrisCodeReShareRequest \<Rightarrow> IrisCodeReShareError + unit" where
  "check_valid self request =
     (if (if unat (sender_id request) = sender1_party_id self
          then unat (other_id request) \<noteq> sender2_party_id self
          else if unat (sender_id request) = sender2_party_id self
          then unat (other_id request) \<noteq> sender1_party_id self
          else True)
      then Inl (InvalidRequest ''Received a request from unexpected set of parties'')
      else if receiver_id request \<noteq> of_nat (receiver_party_id self)
      then Inl (InvalidRequest ''Received a request intended for a different party'')
      else if sint (id_range_start_inclusive request) \<ge> sint (id_range_end_non_inclusive request)
      then Inl (InvalidRequest ''Invalid range of iris codes in received request'')
      else if length (iris_code_re_shares request)
                \<noteq> unat (id_range_end_non_inclusive request - id_range_start_inclusive request)
      then Inl (InvalidRequest ''Invalid number of iris codes in received request'')
      else if \<not> list_all (\<lambda>reshare.
             length (left_iris_code_share reshare) = IRIS_CODE_LENGTH * 2
           \<and> length (left_mask_share reshare) = MASK_CODE_LENGTH * 2
           \<and> length (right_iris_code_share reshare) = IRIS_CODE_LENGTH * 2
           \<and> length (right_mask_share reshare) = MASK_CODE_LENGTH * 2) (iris_code_re_shares request)
      then Inl (InvalidRequest ''Invalid iris code/mask share length'')
      else Inr ())"

definition add_request_batch ::
    "IrisCodeReshareReceiverHelper \<Rightarrow> IrisCodeReShareRequest
       \<Rightarrow> IrisCodeReshareReceiverHelper \<times> (IrisCodeReShareError + unit) result" where
  "add_request_batch self request =
     (case check_valid self request of
        Inl e \<Rightarrow> (self, Inr (Inl e))
      | Inr _ \<Rightarrow>
          if unat (sender_id request) = sender1_party_id self
          then if length (sender_1_buffer self) + 1 \<ge> max_buffer_size self
               then (self, Inr (Inl (TooManyRequests (sender1_party_id self) (sender2_party_id self))))
               else (self\<lparr>sender_1_buffer := sender_1_buffer self @ [request]\<rparr>, Inr (Inr ()))
          else if unat (sender_id request) = sender2_party_id self
          then if length (sender_2_buffer self) + 1 \<ge> max_buffer_size self
               then (self, Inr (Inl (TooManyRequests (sender2_party_id self) (sender1_party_id self))))
               else (self\<lparr>sender_2_buffer := sender_2_buffer self @ [request]\<rparr>, Inr (Inr ()))
          else (self, Inl (Panic ''internal error: entered unreachable code'')))"

definition show_i64 :: "i64 \<Rightarrow> string" where
  "show_i64 w = (if sint w < 0 then ''-'' @ show_usize (nat (- sint w)) else show_usize (nat (sint w)))"

definition check_requests_matching ::
    "IrisCodeReShareRequest \<Rightarrow> IrisCodeReShareRequest \<Rightarrow> IrisCodeReShareError + unit" where
  "check_requests_matching request1 request2 =
     (if id_range_start_inclusive request1 \<noteq> id_range_start_inclusive request2
         \<or> id_range_end_non_inclusive request1 \<noteq> id_range_end_non_inclusive request2
      then Inl (InvalidRequest (''Received requests with different iris code ranges: ''
             @ show_i64 (id_range_start_inclusive request1) @ ''-'' @ show_i64 (id_range_end_non_inclusive request1)
             @ '' from '' @ show_usize (unat (sender_id request1)) @ '' and ''
             @ show_i64 (id_range_start_inclusive request2) @ ''-'' @ show_i64 (id_range_end_non_inclusive request2)
             @ '' from '' @ show_usize (unat (sender_id request2))))
      else if client_correlation_sanity_check request1 \<noteq> client_correlation_sanity_check request2
      then Inl (InvalidRequest (''Received requests with different correlation sanity checks, recheck the ''
             @ ''used Keys for common secret derivation''))
      else Inr ())"

record RecombinedIrisCodeBatch =
  range_start_inclusive :: i64
  range_end_exclusive :: i64
  left_iris_codes :: "GaloisRingIrisCodeShare list"
  left_masks :: "GaloisRingTrimmedMaskCodeShare list"
  right_iris_codes :: "GaloisRingIrisCodeShare list"
  right_masks :: "GaloisRingTrimmedMaskCodeShare list"

text \<open>One share from the bytes of a message: the array conversion panics on a wrong length.\<close>

definition share_from_bytes :: "nat \<Rightarrow> string \<Rightarrow> u8 list \<Rightarrow> u16 list result" where
  "share_from_bytes n expected bytes =
     (let coefs = map u16_from_le_bytes (chunks_exact 2 bytes)
      in if length coefs = n then Inr coefs else Inl (Panic expected))"

definition recombine :: "nat \<Rightarrow> string \<Rightarrow> u8 list \<Rightarrow> u8 list \<Rightarrow> u16 list result" where
  "recombine n expected bytes1 bytes2 =
     rbind (share_from_bytes n expected bytes1) (\<lambda>share1.
     rbind (share_from_bytes n expected bytes2) (\<lambda>share2.
     Inr (map2 (+) share1 share2)))"

fun recombine_loop ::
    "nat \<Rightarrow> (IrisCodeReShare \<times> IrisCodeReShare) list \<Rightarrow> RecombinedIrisCodeBatch \<Rightarrow> RecombinedIrisCodeBatch result" where
  "recombine_loop pid [] batch = Inr batch"
| "recombine_loop pid ((reshare1, reshare2) # rest) batch =
     rbind (recombine IRIS_CODE_LENGTH ''Invalid iris code share length''
       (left_iris_code_share reshare1) (left_iris_code_share reshare2)) (\<lambda>lc.
     rbind (recombine MASK_CODE_LENGTH ''Invalid mask share length''
       (left_mask_share reshare1) (left_mask_share reshare2)) (\<lambda>lm.
     rbind (recombine IRIS_CODE_LENGTH ''Invalid iris code share length''
       (right_iris_code_share reshare1) (right_iris_code_share reshare2)) (\<lambda>rc.
     rbind (recombine MASK_CODE_LENGTH ''Invalid mask share length''
       (right_mask_share reshare1) (right_mask_share reshare2)) (\<lambda>rm.
     recombine_loop pid rest (batch\<lparr>
       left_iris_codes := left_iris_codes batch @ [\<lparr>gi_id = pid + 1, gi_coefs = lc\<rparr>],
       left_masks := left_masks batch @ [\<lparr>tm_id = pid + 1, tm_coefs = lm\<rparr>],
       right_iris_codes := right_iris_codes batch @ [\<lparr>gi_id = pid + 1, gi_coefs = rc\<rparr>],
       right_masks := right_masks batch @ [\<lparr>tm_id = pid + 1, tm_coefs = rm\<rparr>]\<rparr>)))))"

definition reshare_code_batch ::
    "IrisCodeReshareReceiverHelper \<Rightarrow> IrisCodeReShareRequest \<Rightarrow> IrisCodeReShareRequest
       \<Rightarrow> RecombinedIrisCodeBatch result" where
  "reshare_code_batch self request1 request2 =
     recombine_loop (receiver_party_id self) (zip (iris_code_re_shares request1) (iris_code_re_shares request2))
       \<lparr>range_start_inclusive = id_range_start_inclusive request1,
        range_end_exclusive = id_range_end_non_inclusive request1,
        left_iris_codes = [], left_masks = [], right_iris_codes = [], right_masks = []\<rparr>"

definition try_handle_batch ::
    "IrisCodeReshareReceiverHelper
       \<Rightarrow> IrisCodeReshareReceiverHelper \<times> (IrisCodeReShareError + RecombinedIrisCodeBatch option) result" where
  "try_handle_batch self =
     (case (sender_1_buffer self, sender_2_buffer self) of
        (sender_1_batch # buffer1, sender_2_batch # buffer2) \<Rightarrow>
          (let self = self\<lparr>sender_1_buffer := buffer1, sender_2_buffer := buffer2\<rparr>
           in case check_requests_matching sender_1_batch sender_2_batch of
                Inl e \<Rightarrow> (self, Inr (Inl e))
              | Inr _ \<Rightarrow> (self, rbind (reshare_code_batch self sender_1_batch sender_2_batch)
                               (\<lambda>reshare. Inr (Inr (Some reshare)))))
      | _ \<Rightarrow> (self, Inr (Inr None)))"

section \<open>The server\<close>

record StoredIrisRef =
  stored_id :: i64
  stored_left_code :: "u16 list"
  stored_left_mask :: "u16 list"
  stored_right_code :: "u16 list"
  stored_right_mask :: "u16 list"

definition batch_rows :: "RecombinedIrisCodeBatch \<Rightarrow> StoredIrisRef list" where
  "batch_rows batch =
     map (\<lambda>(idx, left_iris, left_mask, right_iris, right_mask).
       \<lparr>stored_id = range_start_inclusive batch + of_nat idx, stored_left_code = gi_coefs left_iris,
        stored_left_mask = tm_coefs left_mask, stored_right_code = gi_coefs right_iris,
        stored_right_mask = tm_coefs right_mask\<rparr>)
     (zip [0..<length (left_iris_codes batch)]
       (zip (left_iris_codes batch) (zip (left_masks batch) (zip (right_iris_codes batch) (right_masks batch)))))"

text \<open>The transaction that inserts rows, replacing rows with the same identifier, is a parameter \<open>ins\<close>.\<close>

definition re_share ::
    "('db \<Rightarrow> StoredIrisRef list \<Rightarrow> 'db result) \<Rightarrow> 'db \<times> IrisCodeReshareReceiverHelper \<Rightarrow> IrisCodeReShareRequest
       \<Rightarrow> ('db \<times> IrisCodeReshareReceiverHelper) \<times> IrisCodeReShareResponse result" where
  "re_share ins st request =
     (let (store, receiver_helper) = st in
      case add_request_batch receiver_helper request of
        (receiver_helper, Inl e) \<Rightarrow> ((store, receiver_helper), Inl e)
      | (receiver_helper, Inr (Inl err)) \<Rightarrow>
          ((store, receiver_helper), Inr (case err of
             InvalidRequest reason \<Rightarrow> \<lparr>status = StatusError, message = reason\<rparr>
           | TooManyRequests _ _ \<Rightarrow> \<lparr>status = FullQueue, message = show_reshare_error err\<rparr>))
      | (receiver_helper, Inr (Inr _)) \<Rightarrow>
          (case try_handle_batch receiver_helper of
             (receiver_helper, Inl e) \<Rightarrow> ((store, receiver_helper), Inl e)
           | (receiver_helper, Inr (Inl err)) \<Rightarrow>
               ((store, receiver_helper), Inr \<lparr>status = StatusError, message = show_reshare_error err\<rparr>)
           | (receiver_helper, Inr (Inr batch)) \<Rightarrow>
               (let store = (case batch of
                      None \<Rightarrow> store
                    | Some b \<Rightarrow> (case ins store (batch_rows b) of Inl _ \<Rightarrow> store | Inr store \<Rightarrow> store))
                in ((store, receiver_helper), Inr \<lparr>status = StatusOk, message = ''''\<rparr>))))"

section \<open>The client\<close>

text \<open>A stored iris of the sender; the conversions of its vectors to arrays panic on a wrong length.\<close>

definition to_array :: "nat \<Rightarrow> u16 list \<Rightarrow> u16 list result" where
  "to_array n v = (if length v = n then Inr v else Inl (Panic ''called `Result::unwrap()` on an `Err` value''))"

fun add_irises ::
    "'g Crypto \<Rightarrow> nat \<Rightarrow> IrisCodeReshareSenderHelper \<Rightarrow> StoredIrisRef list \<Rightarrow> IrisCodeReshareSenderHelper result" where
  "add_irises C party_id helper [] = Inr helper"
| "add_irises C party_id helper (iris # rest) =
     rbind (to_array IRIS_CODE_LENGTH (stored_left_code iris)) (\<lambda>lc.
     rbind (to_array MASK_CODE_LENGTH (stored_left_mask iris)) (\<lambda>lm.
     rbind (to_array IRIS_CODE_LENGTH (stored_right_code iris)) (\<lambda>rc.
     rbind (to_array MASK_CODE_LENGTH (stored_right_mask iris)) (\<lambda>rm.
     rbind (add_reshare_iris_to_batch C helper (stored_id iris)
         \<lparr>gi_id = party_id + 1, gi_coefs = lc\<rparr> \<lparr>tm_id = party_id + 1, tm_coefs = lm\<rparr>
         \<lparr>gi_id = party_id + 1, gi_coefs = rc\<rparr> \<lparr>tm_id = party_id + 1, tm_coefs = rm\<rparr>) (\<lambda>helper.
     add_irises C party_id helper rest)))))"

definition client_batch ::
    "'g Crypto \<Rightarrow> nat \<Rightarrow> IrisCodeReshareSenderHelper \<Rightarrow> StoredIrisRef list
       \<Rightarrow> (IrisCodeReshareSenderHelper \<times> IrisCodeReShareRequest) result" where
  "client_batch C party_id helper iris_codes =
     (let db_chunk_start = stored_id (hd iris_codes); db_chunk_end = stored_id (last iris_codes) in
      if \<not> list_all (\<lambda>(x, y). stored_id x + 1 = stored_id y) (zip iris_codes (tl iris_codes))
      then Inl (Panic ''expect consecutive iris codes'')
      else
        rbind (start_reshare_batch C helper db_chunk_start (db_chunk_end + 1)) (\<lambda>helper.
        rbind (add_irises C party_id helper iris_codes) (\<lambda>helper.
        finalize_reshare_batch helper)))"

text \<open>The requests of all chunks, in the order in which the client submits them.\<close>

fun client_requests ::
    "'g Crypto \<Rightarrow> nat \<Rightarrow> IrisCodeReshareSenderHelper \<Rightarrow> StoredIrisRef list list \<Rightarrow> IrisCodeReShareRequest list result" where
  "client_requests C party_id helper [] = Inr []"
| "client_requests C party_id helper (iris_codes # rest) =
     (if iris_codes = [] then client_requests C party_id helper rest
      else
        rbind (client_batch C party_id helper iris_codes) (\<lambda>(helper, request).
        rbind (client_requests C party_id helper rest) (\<lambda>requests. Inr (request # requests))))"

end
