(* ===== verification/ReshareCorrect.thy ===== *)
theory ReshareCorrect
  imports Reshare
begin

text \<open>
  Correctness of resharing: the two contributions add up to the share of the target party, a pair
  of batches is recombined without a panic, and the exchange of two clients with the server delivers
  all batches in every order of submissions.
\<close>

section \<open>Masked contributions\<close>

lemma reshare_loop_masks:
  assumes "distinct ks" "\<And>k. k \<in> set ks \<Longrightarrow> k < n"
  shows "\<exists>R g'. \<forall>self cs. length cs = 4 * n \<longrightarrow>
    (\<exists>cs'. reshare_loop C self (map (\<lambda>k. 4 * k) ks) cs g = (cs', g') \<and> length cs' = 4 * n \<and>
       (\<forall>b. blk b cs' = (if b \<in> set ks
          then (if my_party_id self < other_party_id self then blk b cs * lagrange_helper self + R b
                else blk b cs * lagrange_helper self - R b)
          else blk b cs)))"
  using assms
proof (induction ks arbitrary: g)
  case (Cons k ks)
  let ?r = "fst (gre_random (chacha_u16 C) g) :: gre" and ?g = "snd (gre_random (chacha_u16 C) g :: gre \<times> _)"
  obtain R g' where R: "\<forall>self cs. length cs = 4 * n \<longrightarrow>
    (\<exists>cs'. reshare_loop C self (map (\<lambda>k. 4 * k) ks) cs ?g = (cs', g') \<and> length cs' = 4 * n \<and>
       (\<forall>b. blk b cs' = (if b \<in> set ks
          then (if my_party_id self < other_party_id self then blk b cs * lagrange_helper self + R b
                else blk b cs * lagrange_helper self - R b)
          else blk b cs)))"
    using Cons.IH [of ?g] Cons.prems by auto
  have k: "k < n" "k \<notin> set ks" using Cons.prems by auto
  show ?case
  proof (intro exI [of _ "R(k := ?r)"] exI [of _ g'] allI impI)
    fix self :: IrisCodeReshareSenderHelper and cs :: "u16 list" assume len: "length cs = 4 * n"
    let ?s = "if my_party_id self < other_party_id self then blk k cs * lagrange_helper self + ?r
      else blk k cs * lagrange_helper self - ?r"
    let ?cs = "put_block (4 * k) ?s cs"
    have step: "reshare_loop C self (map (\<lambda>k. 4 * k) (k # ks)) cs g = reshare_loop C self (map (\<lambda>k. 4 * k) ks) ?cs ?g"
      by (simp add: reshare_with_random_additive_zero_def split_beta Let_def)
    have b: "blk b ?cs = (if b = k then ?s else blk b cs)" for b
      using k(1) len by (intro blk_put_gre) simp
    have "length ?cs = 4 * n" using len by simp
    with R obtain cs' where cs': "reshare_loop C self (map (\<lambda>k. 4 * k) ks) ?cs ?g = (cs', g')" "length cs' = 4 * n"
       "\<forall>b. blk b cs' = (if b \<in> set ks
          then (if my_party_id self < other_party_id self then blk b ?cs * lagrange_helper self + R b
                else blk b ?cs * lagrange_helper self - R b)
          else blk b ?cs)" by blast
    show "\<exists>cs'. reshare_loop C self (map (\<lambda>k. 4 * k) (k # ks)) cs g = (cs', g') \<and> length cs' = 4 * n \<and>
       (\<forall>b. blk b cs' = (if b \<in> set (k # ks)
          then (if my_party_id self < other_party_id self then blk b cs * lagrange_helper self + (R(k := ?r)) b
                else blk b cs * lagrange_helper self - (R(k := ?r)) b)
          else blk b cs))"
    proof (intro exI [of _ cs'] conjI allI)
      show "reshare_loop C self (map (\<lambda>k. 4 * k) (k # ks)) cs g = (cs', g')" unfolding step by (rule cs'(1))
      show "length cs' = 4 * n" by (rule cs'(2))
      show "blk i cs' = (if i \<in> set (k # ks)
          then (if my_party_id self < other_party_id self then blk i cs * lagrange_helper self + (R(k := ?r)) i
                else blk i cs * lagrange_helper self - (R(k := ?r)) i)
          else blk i cs)" for i
        using cs'(3) k(2) unfolding b by auto
    qed
  qed
qed auto

lemma coefs_eqI:
  assumes "length xs = 4 * n" "length ys = 4 * n" "\<And>b. b < n \<Longrightarrow> blk b xs = blk b ys"
  shows "xs = ys"
proof (rule nth_equalityI)
  fix i assume i: "i < length xs"
  let ?b = "i div 4"
  have b: "?b < n" using i assms(1) by simp
  have "i = 4 * ?b \<or> i = 4 * ?b + 1 \<or> i = 4 * ?b + 2 \<or> i = 4 * ?b + 3" by presburger
  then show "xs ! i = ys ! i" using assms(3) [OF b] by (auto simp: get_block_def from_coefs_def)
qed (use assms in simp)

lemma blk_add:
  "length xs = 4 * n \<Longrightarrow> length ys = 4 * n \<Longrightarrow> b < n \<Longrightarrow> blk b (map2 (+) xs ys) = blk b xs + blk b ys"
  by (simp add: get_block_def from_coefs_def plus_GaloisRingElement_def)

text \<open>A sender for one pair of parties and a target.\<close>

definition sender_for :: "nat \<Rightarrow> nat \<Rightarrow> nat \<Rightarrow> u8 list \<Rightarrow> IrisCodeReshareSenderHelper \<Rightarrow> bool" where
  "sender_for a b c seed s \<longleftrightarrow> my_party_id s = a \<and> other_party_id s = b \<and> target_party_id s = c \<and>
     deg_1_lagrange_poly_at_v a b c = Inr (lagrange_helper s) \<and> common_seed s = seed"

lemma sender_new_for:
  assumes "a < 3" "b < 3" "c < 3" "a \<noteq> b"
  shows "\<exists>s. sender_new a b c seed = Inr s \<and> sender_for a b c seed s \<and> current_packet s = None"
proof -
  have "a < 15" "b < 15" "c < 15" using assms by simp_all
  from lagrange_at_v_interpolates [OF this assms(4)] show ?thesis by (auto simp: sender_new_def sender_for_def)
qed

lemma contributions_add_up:
  assumes ids: "a < 3" "b < 3" "c < 3" "a \<noteq> b" and sh: "sharing n css E"
    and s: "sender_for a b c seed s" "sender_for b a c seed t"
  shows "\<exists>xs ys g'. reshare_loop C s (step_by_4 (4 * n)) (css ! a) g = (xs, g') \<and>
    reshare_loop C t (step_by_4 (4 * n)) (css ! b) g = (ys, g') \<and>
    length xs = 4 * n \<and> length ys = 4 * n \<and> map2 (+) xs ys = css ! c"
proof -
  have "length css = 3" and cl: "\<forall>cs \<in> set css. length cs = 4 * n" using sh by (simp_all add: sharing_def)
  then have len: "length (css ! j) = 4 * n" if "j < 3" for j using that by simp
  obtain r where r: "\<And>j b. j < 3 \<Longrightarrow> b < n \<Longrightarrow> blk b (css ! j) = E b + r b * EXCEPTIONAL_SEQUENCE ! (j + 1)"
    using sh unfolding sharing_def by blast
  have "a < 15" "b < 15" "c < 15" using ids by simp_all
  from lagrange_at_v_interpolates [OF this ids(4)] s have
    lag: "(e + f * EXCEPTIONAL_SEQUENCE ! (a + 1)) * lagrange_helper s + (e + f * EXCEPTIONAL_SEQUENCE ! (b + 1)) * lagrange_helper t
      = e + f * EXCEPTIONAL_SEQUENCE ! (c + 1)" for e f
    by (auto simp: sender_for_def)
  obtain R g' where R: "\<forall>self cs. length cs = 4 * n \<longrightarrow>
    (\<exists>cs'. reshare_loop C self (map (\<lambda>k. 4 * k) [0..<n]) cs g = (cs', g') \<and> length cs' = 4 * n \<and>
       (\<forall>b. blk b cs' = (if b \<in> set [0..<n]
          then (if my_party_id self < other_party_id self then blk b cs * lagrange_helper self + R b
                else blk b cs * lagrange_helper self - R b)
          else blk b cs)))"
    using reshare_loop_masks [of "[0..<n]" n C g] by auto
  from R len [OF ids(1)] obtain xs where xs: "reshare_loop C s (step_by_4 (4 * n)) (css ! a) g = (xs, g')" "length xs = 4 * n"
    "\<And>i. i < n \<Longrightarrow> blk i xs = (if a < b then blk i (css ! a) * lagrange_helper s + R i else blk i (css ! a) * lagrange_helper s - R i)"
    using s(1) unfolding step_by_4_mult sender_for_def by fastforce
  from R len [OF ids(2)] obtain ys where ys: "reshare_loop C t (step_by_4 (4 * n)) (css ! b) g = (ys, g')" "length ys = 4 * n"
    "\<And>i. i < n \<Longrightarrow> blk i ys = (if b < a then blk i (css ! b) * lagrange_helper t + R i else blk i (css ! b) * lagrange_helper t - R i)"
    using s(2) unfolding step_by_4_mult sender_for_def by fastforce
  have "map2 (+) xs ys = css ! c"
  proof (rule coefs_eqI)
    fix i assume i: "i < n"
    have "blk i (map2 (+) xs ys) = blk i (css ! a) * lagrange_helper s + blk i (css ! b) * lagrange_helper t"
      using ids(4) xs(3) [OF i] ys(3) [OF i] by (auto simp: blk_add [OF xs(2) ys(2) i])
    also have "\<dots> = blk i (css ! c)" unfolding r [OF ids(1) i] r [OF ids(2) i] r [OF ids(3) i] by (rule lag)
    finally show "blk i (map2 (+) xs ys) = blk i (css ! c)" .
  qed (use xs(2) ys(2) len [OF ids(3)] in simp_all)
  with xs(1,2) ys(1,2) show ?thesis by blast
qed

section \<open>Bytes\<close>

lemma le_bytes_roundtrip: "u16_from_le_bytes (to_le_bytes 2 w) = w" for w :: u16
proof -
  have "to_le_bytes 2 w = [ucast w, ucast (drop_bit 8 w)]" by (simp add: to_le_bytes_def upt_rec)
  moreover have "ucast (ucast w :: u8) + push_bit 8 (ucast (ucast (drop_bit 8 w) :: u8)) = w"
  proof -
    have disj: "(ucast (ucast w :: u8) :: u16) AND push_bit 8 (ucast (ucast (drop_bit 8 w) :: u8)) = 0"
      by (rule bit_word_eqI) (auto simp: bit_simps)
    show ?thesis unfolding disjunctive_add_eq_or [OF disj]
      by (rule bit_word_eqI) (auto simp: bit_simps)
  qed
  ultimately show ?thesis by (simp add: u16_from_le_bytes_def)
qed

lemma share_from_bytes_roundtrip:
  "length cs = n \<Longrightarrow> share_from_bytes n e (concat (map (to_le_bytes 2) cs)) = Inr cs"
  "length (concat (map (to_le_bytes 2) cs)) = 2 * length cs"
proof -
  have two: "\<exists>x y. to_le_bytes 2 w = [x, y]" for w :: u16 by (simp add: to_le_bytes_def upt_rec)
  show "length (concat (map (to_le_bytes 2) cs)) = 2 * length cs"
    by (induction cs) (simp_all add: to_le_bytes_def)
  have "map u16_from_le_bytes (chunks_exact 2 (concat (map (to_le_bytes 2) cs))) = cs"
  proof (induction cs)
    case (Cons w cs)
    obtain x y where xy: "to_le_bytes 2 w = [x, y]" using two by blast
    have "chunks_exact 2 (concat (map (to_le_bytes 2) (w # cs))) = [x, y] # chunks_exact 2 (concat (map (to_le_bytes 2) cs))"
      by (subst chunks_exact.simps) (simp add: xy)
    then show ?case using Cons le_bytes_roundtrip [of w] by (simp add: xy)
  qed (simp add: chunks_exact.simps)
  then show "length cs = n \<Longrightarrow> share_from_bytes n e (concat (map (to_le_bytes 2) cs)) = Inr cs"
    by (simp add: share_from_bytes_def)
qed

section \<open>Batches\<close>

definition wf_row :: "StoredIrisRef \<Rightarrow> bool" where
  "wf_row r \<longleftrightarrow> length (stored_left_code r) = IRIS_CODE_LENGTH \<and> length (stored_left_mask r) = MASK_CODE_LENGTH \<and>
     length (stored_right_code r) = IRIS_CODE_LENGTH \<and> length (stored_right_mask r) = MASK_CODE_LENGTH"

text \<open>What a sender puts on the wire for one row.\<close>

definition reshare_row :: "'g Crypto \<Rightarrow> IrisCodeReshareSenderHelper \<Rightarrow> StoredIrisRef \<Rightarrow> IrisCodeReShare" where
  "reshare_row C s r =
     (let g = chacha_from_seed C (sha256 C (common_seed s @ to_le_bytes 8 (stored_id r)));
          (lc, g) = reshare_loop C s (step_by_4 IRIS_CODE_LENGTH) (stored_left_code r) g;
          (lm, g) = reshare_loop C s (step_by_4 MASK_CODE_LENGTH) (stored_left_mask r) g;
          (rc, g) = reshare_loop C s (step_by_4 IRIS_CODE_LENGTH) (stored_right_code r) g;
          (rm, g) = reshare_loop C s (step_by_4 MASK_CODE_LENGTH) (stored_right_mask r) g
      in \<lparr>left_iris_code_share = concat (map (to_le_bytes 2) lc), left_mask_share = concat (map (to_le_bytes 2) lm),
          right_iris_code_share = concat (map (to_le_bytes 2) rc), right_mask_share = concat (map (to_le_bytes 2) rm)\<rparr>)"

lemma length_reshare_loop [simp]: "length (fst (reshare_loop C s is cs g)) = length cs"
  by (induction C s "is" cs g rule: reshare_loop.induct) (simp_all add: Let_def split_beta)

lemma reshare_loop_packet [simp]: "reshare_loop C (s\<lparr>current_packet := p\<rparr>) is cs g = reshare_loop C s is cs g"
  by (induction "is" arbitrary: cs g) (simp_all add: reshare_with_random_additive_zero_def Let_def split_beta)

lemma reshare_row_packet [simp]: "reshare_row C (s\<lparr>current_packet := p\<rparr>) r = reshare_row C s r"
  by (simp add: reshare_row_def)

lemma reshare_row_lengths:
  assumes "wf_row r"
  shows "length (left_iris_code_share (reshare_row C s r)) = IRIS_CODE_LENGTH * 2"
    "length (left_mask_share (reshare_row C s r)) = MASK_CODE_LENGTH * 2"
    "length (right_iris_code_share (reshare_row C s r)) = IRIS_CODE_LENGTH * 2"
    "length (right_mask_share (reshare_row C s r)) = MASK_CODE_LENGTH * 2"
  using assms by (simp_all add: reshare_row_def wf_row_def Let_def split_beta share_from_bytes_roundtrip(2))

lemma add_iris_ok:
  assumes "current_packet s = Some P"
    "sint (id_range_start_inclusive P) \<le> sint (stored_id r)" "sint (stored_id r) < sint (id_range_end_non_inclusive P)"
  shows "add_reshare_iris_to_batch C s (stored_id r)
      \<lparr>gi_id = i, gi_coefs = stored_left_code r\<rparr> \<lparr>tm_id = i, tm_coefs = stored_left_mask r\<rparr>
      \<lparr>gi_id = i, gi_coefs = stored_right_code r\<rparr> \<lparr>tm_id = i, tm_coefs = stored_right_mask r\<rparr>
    = Inr (s\<lparr>current_packet := Some (P\<lparr>iris_code_re_shares := iris_code_re_shares P @ [reshare_row C s r]\<rparr>)\<rparr>)"
  using assms
  by (simp add: add_reshare_iris_to_batch_def reshare_code_def reshare_mask_def reshare_row_def Let_def split_beta)

lemma add_irises_ok:
  assumes "current_packet s = Some P" "\<forall>r \<in> set rows. wf_row r \<and>
    sint (id_range_start_inclusive P) \<le> sint (stored_id r) \<and> sint (stored_id r) < sint (id_range_end_non_inclusive P)"
  shows "add_irises C i s rows
    = Inr (s\<lparr>current_packet := Some (P\<lparr>iris_code_re_shares := iris_code_re_shares P @ map (reshare_row C s) rows\<rparr>)\<rparr>)"
  using assms
proof (induction rows arbitrary: s P)
  case Nil
  then show ?case by (cases s) simp
next
  case (Cons r rows)
  let ?P = "P\<lparr>iris_code_re_shares := iris_code_re_shares P @ [reshare_row C s r]\<rparr>"
  have "add_irises C i s (r # rows) = add_irises C i (s\<lparr>current_packet := Some ?P\<rparr>) rows"
    using Cons.prems by (simp add: to_array_def wf_row_def add_iris_ok)
  also have "\<dots> = Inr (s\<lparr>current_packet := Some (?P\<lparr>iris_code_re_shares := iris_code_re_shares ?P @ map (reshare_row C s) rows\<rparr>)\<rparr>)"
    using Cons.IH [of "s\<lparr>current_packet := Some ?P\<rparr>" ?P] Cons.prems(2) by (simp cong: map_cong)
  finally show ?case by simp
qed

text \<open>Rows with consecutive identifiers from \<open>start\<close> on, within the range of the identifiers.\<close>

definition chunk_from :: "i64 \<Rightarrow> StoredIrisRef list \<Rightarrow> bool" where
  "chunk_from start rows \<longleftrightarrow> rows \<noteq> [] \<and> sint start + int (length rows) < 2 ^ 63 \<and>
     (\<forall>k < length rows. stored_id (rows ! k) = start + of_nat k) \<and> (\<forall>r \<in> set rows. wf_row r)"

definition request_of :: "'g Crypto \<Rightarrow> IrisCodeReshareSenderHelper \<Rightarrow> i64 \<Rightarrow> StoredIrisRef list \<Rightarrow> IrisCodeReShareRequest" where
  "request_of C s start rows =
     \<lparr>sender_id = of_nat (my_party_id s), other_id = of_nat (other_party_id s), receiver_id = of_nat (target_party_id s),
      id_range_start_inclusive = start, id_range_end_non_inclusive = start + of_nat (length rows),
      iris_code_re_shares = map (reshare_row C s) rows,
      client_correlation_sanity_check = sha256 C (common_seed s @ to_le_bytes 8 start
        @ to_le_bytes 8 (start + of_nat (length rows)) @ map of_char ''ReShareSanityCheck'')\<rparr>"

lemma sint_plus_nat:
  assumes "sint (w :: i64) + int k < 2 ^ 63"
  shows "sint (w + of_nat k) = sint w + int k"
proof -
  have "w + of_nat k = of_int (sint w + int k)" by simp
  moreover have "sint (of_int (sint w + int k) :: i64) = sint w + int k"
    by (rule sint_small) (use assms sint_ge [of w] in simp_all)
  ultimately show ?thesis by simp
qed

lemma chunk_length:
  assumes "chunk_from start rows"
  shows "length rows < 2 ^ 64" "unat (of_nat (length rows) :: i64) = length rows"
proof -
  have "- (2 ^ 63) \<le> sint start" using sint_ge [of start] by simp
  then show "length rows < 2 ^ 64" using assms by (simp add: chunk_from_def)
  then show "unat (of_nat (length rows) :: i64) = length rows" by (simp add: unsigned_of_nat take_bit_nat_eq_self)
qed

lemma client_batch_ok:
  assumes "chunk_from start rows" "current_packet s = None"
  shows "client_batch C i s rows = Inr (s, request_of C s start rows)"
proof -
  let ?n = "length rows"
  have ne: "rows \<noteq> []" and ids: "\<And>k. k < ?n \<Longrightarrow> stored_id (rows ! k) = start + of_nat k"
    and rng: "sint start + int ?n < 2 ^ 63" and wf: "\<forall>r \<in> set rows. wf_row r"
    using assms(1) by (auto simp: chunk_from_def)
  have hd: "stored_id (hd rows) = start" using ids [of 0] ne by (simp add: hd_conv_nth)
  have "stored_id (last rows) = start + of_nat (?n - 1)" using ids [of "?n - 1"] ne by (simp add: last_conv_nth)
  moreover have "?n = Suc (?n - 1)" using ne by (cases rows) simp_all
  ultimately have last: "stored_id (last rows) + 1 = start + of_nat ?n" by (metis add.assoc add.commute of_nat_Suc)
  have consecutive: "list_all (\<lambda>(x, y). stored_id x + 1 = stored_id y) (zip rows (tl rows))"
    unfolding list_all_length by (auto simp: nth_tl ids)
  let ?P = "request_of C s start []\<lparr>id_range_end_non_inclusive := start + of_nat ?n,
    client_correlation_sanity_check := sha256 C (common_seed s @ to_le_bytes 8 start
        @ to_le_bytes 8 (start + of_nat ?n) @ map of_char ''ReShareSanityCheck'')\<rparr>"
  have start: "start_reshare_batch C s start (start + of_nat ?n) = Inr (s\<lparr>current_packet := Some ?P\<rparr>)"
    using assms(2) by (simp add: start_reshare_batch_def request_of_def)
  have "sint start \<le> sint (stored_id r) \<and> sint (stored_id r) < sint (start + of_nat ?n)" if "r \<in> set rows" for r
  proof -
    from that obtain k where k: "k < ?n" "r = rows ! k" by (metis in_set_conv_nth)
    have "sint (start + of_nat k) = sint start + int k" "sint (start + of_nat ?n) = sint start + int ?n"
      by (rule sint_plus_nat, use rng k(1) in simp)+
    then show ?thesis using k ids [OF k(1)] by simp
  qed
  with wf have "add_irises C i (s\<lparr>current_packet := Some ?P\<rparr>) rows
    = Inr (s\<lparr>current_packet := Some (?P\<lparr>iris_code_re_shares := map (reshare_row C s) rows\<rparr>)\<rparr>)"
    using add_irises_ok [of "s\<lparr>current_packet := Some ?P\<rparr>" ?P rows C i] by (simp add: request_of_def cong: map_cong)
  moreover have "finalize_reshare_batch (s\<lparr>current_packet := Some (?P\<lparr>iris_code_re_shares := map (reshare_row C s) rows\<rparr>)\<rparr>)
    = Inr (s, request_of C s start rows)"
    using chunk_length(2) [OF assms(1)] assms(2) by (cases s) (simp add: finalize_reshare_batch_def request_of_def)
  ultimately show ?thesis
    unfolding client_batch_def Let_def hd last using consecutive start by simp
qed

section \<open>Recombination\<close>

text \<open>One row of the database at the three parties.\<close>

definition row_shared :: "(nat \<Rightarrow> StoredIrisRef) \<Rightarrow> bool" where
  "row_shared X \<longleftrightarrow> (\<forall>j < 3. stored_id (X j) = stored_id (X 0)) \<and>
     (\<exists>E. sharing 3200 (map (\<lambda>j. stored_left_code (X j)) [0, 1, 2]) E) \<and>
     (\<exists>E. sharing 1600 (map (\<lambda>j. stored_left_mask (X j)) [0, 1, 2]) E) \<and>
     (\<exists>E. sharing 3200 (map (\<lambda>j. stored_right_code (X j)) [0, 1, 2]) E) \<and>
     (\<exists>E. sharing 1600 (map (\<lambda>j. stored_right_mask (X j)) [0, 1, 2]) E)"

lemma nth_three: "j < 3 \<Longrightarrow> map f [0, 1, 2 :: nat] ! j = f j"
  by (auto simp: less_Suc_eq numeral_3_eq_3 numeral_2_eq_2)

lemma row_shared_wf:
  assumes "row_shared X" "j < 3"
  shows "wf_row (X j)"
proof -
  have len: "length (f (X j)) = 4 * n" if "\<exists>E. sharing n (map (\<lambda>j. f (X j)) [0, 1, 2]) E" for f n
  proof -
    have "f (X j) \<in> set (map (\<lambda>j. f (X j)) [0, 1, 2])"
      using assms(2) by (auto simp: less_Suc_eq numeral_3_eq_3 numeral_2_eq_2)
    with that show ?thesis unfolding sharing_def by blast
  qed
  have "length (stored_left_code (X j)) = 4 * 3200" "length (stored_left_mask (X j)) = 4 * 1600"
    "length (stored_right_code (X j)) = 4 * 3200" "length (stored_right_mask (X j)) = 4 * 1600"
    by (rule len; use assms(1) row_shared_def in blast)+
  then show ?thesis by (simp add: wf_row_def IRIS_CODE_LENGTH_def MASK_CODE_LENGTH_def)
qed

lemma recombine_ok:
  "length xs = n \<Longrightarrow> length ys = n \<Longrightarrow>
     recombine n e (concat (map (to_le_bytes 2) xs)) (concat (map (to_le_bytes 2) ys)) = Inr (map2 (+) xs ys)"
  by (simp add: recombine_def share_from_bytes_roundtrip)

lemma recombine_row:
  assumes ids: "a < 3" "b < 3" "c < 3" "a \<noteq> b" and X: "row_shared X"
    and s: "sender_for a b c seed s" "sender_for b a c seed t"
  shows "recombine IRIS_CODE_LENGTH e (left_iris_code_share (reshare_row C s (X a))) (left_iris_code_share (reshare_row C t (X b)))
      = Inr (stored_left_code (X c))"
    "recombine MASK_CODE_LENGTH e (left_mask_share (reshare_row C s (X a))) (left_mask_share (reshare_row C t (X b)))
      = Inr (stored_left_mask (X c))"
    "recombine IRIS_CODE_LENGTH e (right_iris_code_share (reshare_row C s (X a))) (right_iris_code_share (reshare_row C t (X b)))
      = Inr (stored_right_code (X c))"
    "recombine MASK_CODE_LENGTH e (right_mask_share (reshare_row C s (X a))) (right_mask_share (reshare_row C t (X b)))
      = Inr (stored_right_mask (X c))"
proof -
  let ?g = "chacha_from_seed C (sha256 C (seed @ to_le_bytes 8 (stored_id (X 0))))"
  have "stored_id (X j) = stored_id (X 0)" if "j < 3" for j using X that unfolding row_shared_def by blast
  note id = this [OF ids(1)] this [OF ids(2)]
  have seed: "common_seed s = seed" "common_seed t = seed" using s by (simp_all add: sender_for_def)
  have len: "IRIS_CODE_LENGTH = 4 * 3200" "MASK_CODE_LENGTH = 4 * 1600" by (simp_all add: IRIS_CODE_LENGTH_def MASK_CODE_LENGTH_def)
  from X [unfolded row_shared_def] obtain E1 E2 E3 E4 where E: "sharing 3200 (map (\<lambda>j. stored_left_code (X j)) [0, 1, 2]) E1"
    "sharing 1600 (map (\<lambda>j. stored_left_mask (X j)) [0, 1, 2]) E2" "sharing 3200 (map (\<lambda>j. stored_right_code (X j)) [0, 1, 2]) E3"
    "sharing 1600 (map (\<lambda>j. stored_right_mask (X j)) [0, 1, 2]) E4" by (elim conjE exE) (use that in blast)
  note c = contributions_add_up [OF ids E(1) s, of C ?g] contributions_add_up [OF ids E(2) s] contributions_add_up [OF ids E(3) s]
    contributions_add_up [OF ids E(4) s]
  note c = c [unfolded nth_three [OF ids(1)] nth_three [OF ids(2)] nth_three [OF ids(3)]]
  obtain x1 y1 g1 where 1: "reshare_loop C s (step_by_4 (4 * 3200)) (stored_left_code (X a)) ?g = (x1, g1)"
    "reshare_loop C t (step_by_4 (4 * 3200)) (stored_left_code (X b)) ?g = (y1, g1)"
    "length x1 = 4 * 3200" "length y1 = 4 * 3200" "map2 (+) x1 y1 = stored_left_code (X c)" using c(1) by blast
  obtain x2 y2 g2 where 2: "reshare_loop C s (step_by_4 (4 * 1600)) (stored_left_mask (X a)) g1 = (x2, g2)"
    "reshare_loop C t (step_by_4 (4 * 1600)) (stored_left_mask (X b)) g1 = (y2, g2)"
    "length x2 = 4 * 1600" "length y2 = 4 * 1600" "map2 (+) x2 y2 = stored_left_mask (X c)" using c(2) [of C g1] by blast
  obtain x3 y3 g3 where 3: "reshare_loop C s (step_by_4 (4 * 3200)) (stored_right_code (X a)) g2 = (x3, g3)"
    "reshare_loop C t (step_by_4 (4 * 3200)) (stored_right_code (X b)) g2 = (y3, g3)"
    "length x3 = 4 * 3200" "length y3 = 4 * 3200" "map2 (+) x3 y3 = stored_right_code (X c)" using c(3) [of C g2] by blast
  obtain x4 y4 g4 where 4: "reshare_loop C s (step_by_4 (4 * 1600)) (stored_right_mask (X a)) g3 = (x4, g4)"
    "reshare_loop C t (step_by_4 (4 * 1600)) (stored_right_mask (X b)) g3 = (y4, g4)"
    "length x4 = 4 * 1600" "length y4 = 4 * 1600" "map2 (+) x4 y4 = stored_right_mask (X c)" using c(4) [of C g3] by blast
  note rows = reshare_row_def id seed len Let_def 1(1,2) 2(1,2) 3(1,2) 4(1,2) prod.case
  show "recombine IRIS_CODE_LENGTH e (left_iris_code_share (reshare_row C s (X a))) (left_iris_code_share (reshare_row C t (X b)))
      = Inr (stored_left_code (X c))"
    unfolding rows IrisCodeReShare.select_convs recombine_ok [OF 1(3,4)] 1(5) ..
  show "recombine MASK_CODE_LENGTH e (left_mask_share (reshare_row C s (X a))) (left_mask_share (reshare_row C t (X b)))
      = Inr (stored_left_mask (X c))"
    unfolding rows IrisCodeReShare.select_convs recombine_ok [OF 2(3,4)] 2(5) ..
  show "recombine IRIS_CODE_LENGTH e (right_iris_code_share (reshare_row C s (X a))) (right_iris_code_share (reshare_row C t (X b)))
      = Inr (stored_right_code (X c))"
    unfolding rows IrisCodeReShare.select_convs recombine_ok [OF 3(3,4)] 3(5) ..
  show "recombine MASK_CODE_LENGTH e (right_mask_share (reshare_row C s (X a))) (right_mask_share (reshare_row C t (X b)))
      = Inr (stored_right_mask (X c))"
    unfolding rows IrisCodeReShare.select_convs recombine_ok [OF 4(3,4)] 4(5) ..
qed

text \<open>The batch of the target party's rows.\<close>

definition recombined :: "nat \<Rightarrow> i64 \<Rightarrow> i64 \<Rightarrow> StoredIrisRef list \<Rightarrow> RecombinedIrisCodeBatch" where
  "recombined c start stop rows =
     \<lparr>range_start_inclusive = start, range_end_exclusive = stop,
      left_iris_codes = map (\<lambda>r. \<lparr>gi_id = c + 1, gi_coefs = stored_left_code r\<rparr>) rows,
      left_masks = map (\<lambda>r. \<lparr>tm_id = c + 1, tm_coefs = stored_left_mask r\<rparr>) rows,
      right_iris_codes = map (\<lambda>r. \<lparr>gi_id = c + 1, gi_coefs = stored_right_code r\<rparr>) rows,
      right_masks = map (\<lambda>r. \<lparr>tm_id = c + 1, tm_coefs = stored_right_mask r\<rparr>) rows\<rparr>"

lemma recombine_rows:
  assumes ids: "a < 3" "b < 3" "c < 3" "a \<noteq> b" and s: "sender_for a b c seed s" "sender_for b a c seed t"
  shows "\<forall>X \<in> set Xs. row_shared X \<Longrightarrow>
    recombine_loop c (map (\<lambda>X. (reshare_row C s (X a), reshare_row C t (X b))) Xs) (recombined c start stop rows)
      = Inr (recombined c start stop (rows @ map (\<lambda>X. X c) Xs))"
proof (induction Xs arbitrary: rows)
  case (Cons X Xs)
  then have "row_shared X" by simp
  note row = recombine_row [OF ids this s]
  have "recombine_loop c (map (\<lambda>X. (reshare_row C s (X a), reshare_row C t (X b))) (X # Xs)) (recombined c start stop rows)
    = recombine_loop c (map (\<lambda>X. (reshare_row C s (X a), reshare_row C t (X b))) Xs) (recombined c start stop (rows @ [X c]))"
    unfolding list.map recombine_loop.simps row rbind.simps by (simp add: recombined_def)
  with Cons show ?case by simp
qed simp

lemma batch_rows_recombined:
  assumes "chunk_from start rows"
  shows "batch_rows (recombined c start stop rows) = rows"
proof (rule nth_equalityI)
  show "length (batch_rows (recombined c start stop rows)) = length rows" by (simp add: batch_rows_def recombined_def)
  fix k assume "k < length (batch_rows (recombined c start stop rows))"
  then have k: "k < length rows" by (simp add: batch_rows_def recombined_def)
  then have "stored_id (rows ! k) = start + of_nat k" using assms by (simp add: chunk_from_def)
  then show "batch_rows (recombined c start stop rows) ! k = rows ! k"
    using k by (cases "rows ! k") (simp add: batch_rows_def recombined_def)
qed

text \<open>A chunk of the database at the three parties, and the requests of the two senders for it.\<close>

definition chunk_shared :: "i64 \<Rightarrow> (nat \<Rightarrow> StoredIrisRef) list \<Rightarrow> bool" where
  "chunk_shared start Xs \<longleftrightarrow> (\<forall>X \<in> set Xs. row_shared X) \<and> (\<forall>j < 3. chunk_from start (map (\<lambda>X. X j) Xs))"

lemma requests_match:
  assumes ids: "a < 3" "b < 3" "c < 3" "a \<noteq> b" and s: "sender_for a b c seed s" "sender_for b a c seed t"
    and Xs: "chunk_shared start Xs" and R: "receiver_party_id R = c"
  shows "check_requests_matching (request_of C s start (map (\<lambda>X. X a) Xs)) (request_of C t start (map (\<lambda>X. X b) Xs)) = Inr ()"
    "reshare_code_batch R (request_of C s start (map (\<lambda>X. X a) Xs)) (request_of C t start (map (\<lambda>X. X b) Xs))
      = Inr (recombined c start (start + of_nat (length Xs)) (map (\<lambda>X. X c) Xs))"
proof -
  show "check_requests_matching (request_of C s start (map (\<lambda>X. X a) Xs)) (request_of C t start (map (\<lambda>X. X b) Xs)) = Inr ()"
    using s by (simp add: check_requests_matching_def request_of_def sender_for_def)
  have "zip (map (reshare_row C s) (map (\<lambda>X. X a) Xs)) (map (reshare_row C t) (map (\<lambda>X. X b) Xs))
      = map (\<lambda>X. (reshare_row C s (X a), reshare_row C t (X b))) Xs"
    by (simp add: zip_map_map zip_same_conv_map comp_def)
  then show "reshare_code_batch R (request_of C s start (map (\<lambda>X. X a) Xs)) (request_of C t start (map (\<lambda>X. X b) Xs))
      = Inr (recombined c start (start + of_nat (length Xs)) (map (\<lambda>X. X c) Xs))"
    using recombine_rows [OF ids s, of Xs C start "start + of_nat (length Xs)" "[]"] Xs
    unfolding reshare_code_batch_def R chunk_shared_def by (simp add: request_of_def recombined_def)
qed

lemma request_valid:
  assumes "a < 3" "b < 3" "c < 3" "a \<noteq> b" "sender_for a b c seed s" "chunk_from start rows"
    and "receiver_party_id R = c"
    and "sender1_party_id R = a \<and> sender2_party_id R = b \<or> sender1_party_id R = b \<and> sender2_party_id R = a"
  shows "check_valid R (request_of C s start rows) = Inr ()" "unat (sender_id (request_of C s start rows)) = a"
proof -
  have n: "unat (of_nat j :: u64) = j" if "j < 3" for j using that by (simp add: unsigned_of_nat take_bit_nat_eq_self)
  show "unat (sender_id (request_of C s start rows)) = a" using assms(1,5) n by (simp add: request_of_def sender_for_def)
  have "sint (start + of_nat (length rows)) = sint start + int (length rows)" "length rows > 0"
    using assms(6) by (auto simp: chunk_from_def intro: sint_plus_nat)
  moreover have "list_all (\<lambda>reshare.
             length (left_iris_code_share reshare) = IRIS_CODE_LENGTH * 2
           \<and> length (left_mask_share reshare) = MASK_CODE_LENGTH * 2
           \<and> length (right_iris_code_share reshare) = IRIS_CODE_LENGTH * 2
           \<and> length (right_mask_share reshare) = MASK_CODE_LENGTH * 2) (map (reshare_row C s) rows)"
    using assms(6) by (auto simp: chunk_from_def list_all_iff reshare_row_lengths)
  ultimately show "check_valid R (request_of C s start rows) = Inr ()"
    using assms(8)
    by (elim disjE) (simp_all add: check_valid_def request_of_def assms(5) [unfolded sender_for_def] assms(7)
        n [OF assms(1)] n [OF assms(2)] assms(4) assms(4) [symmetric] chunk_length(2) [OF assms(6)])
qed

section \<open>Two clients and the server\<close>

text \<open>
  The clients submit their requests in order, interleaved in any way; a client goes on after an \<open>Ok\<close>
  and tries again after a full queue. The requests that remain at the two clients come first in the
  state, then the database and the receiver of the server.
\<close>

type_synonym 'db system =
  "IrisCodeReShareRequest list \<times> IrisCodeReShareRequest list \<times> 'db \<times> IrisCodeReshareReceiverHelper"

inductive submit :: "('db \<Rightarrow> StoredIrisRef list \<Rightarrow> 'db result) \<Rightarrow> 'db system \<Rightarrow> 'db system \<Rightarrow> bool" for ins where
  submit_1: "re_share ins srv req = (srv', Inr resp) \<Longrightarrow> status resp = StatusOk \<Longrightarrow>
     submit ins (req # r1, r2, srv) (r1, r2, srv')"
| retry_1: "re_share ins srv req = (srv', Inr resp) \<Longrightarrow> status resp = FullQueue \<Longrightarrow>
     submit ins (req # r1, r2, srv) (req # r1, r2, srv')"
| submit_2: "re_share ins srv req = (srv', Inr resp) \<Longrightarrow> status resp = StatusOk \<Longrightarrow>
     submit ins (r1, req # r2, srv) (r1, r2, srv')"
| retry_2: "re_share ins srv req = (srv', Inr resp) \<Longrightarrow> status resp = FullQueue \<Longrightarrow>
     submit ins (r1, req # r2, srv) (r1, req # r2, srv')"

inductive_cases submit_elim: "submit ins st st'"

definition store_after :: "('db \<Rightarrow> StoredIrisRef list \<Rightarrow> 'db result) \<Rightarrow> 'db \<Rightarrow> StoredIrisRef list \<Rightarrow> 'db" where
  "store_after ins db rows = (case ins db rows of Inl _ \<Rightarrow> db | Inr db' \<Rightarrow> db')"

type_synonym chunk = "i64 \<times> (nat \<Rightarrow> StoredIrisRef) list"

definition requests_for :: "'g Crypto \<Rightarrow> IrisCodeReshareSenderHelper \<Rightarrow> nat \<Rightarrow> chunk list \<Rightarrow> IrisCodeReShareRequest list" where
  "requests_for C s j parts = map (\<lambda>(start, Xs). request_of C s start (map (\<lambda>X. X j) Xs)) parts"

definition rows_of :: "nat \<Rightarrow> chunk \<Rightarrow> StoredIrisRef list" where
  "rows_of j ch = map (\<lambda>X. X j) (snd ch)"

lemma client_requests_ok:
  assumes "\<forall>ch \<in> set parts. chunk_shared (fst ch) (snd ch)" "current_packet s = None" "j < 3"
  shows "client_requests C i s (map (rows_of j) parts) = Inr (requests_for C s j parts)"
  using assms(1)
proof (induction parts)
  case (Cons ch parts)
  then have "chunk_from (fst ch) (map (\<lambda>X. X j) (snd ch))" using assms(3) by (simp add: chunk_shared_def)
  then have "client_batch C i s (rows_of j ch) = Inr (s, request_of C s (fst ch) (map (\<lambda>X. X j) (snd ch)))"
    unfolding rows_of_def by (rule client_batch_ok [OF _ assms(2)])
  moreover have "rows_of j ch \<noteq> []" using \<open>chunk_from (fst ch) (map (\<lambda>X. X j) (snd ch))\<close> by (simp add: rows_of_def chunk_from_def)
  ultimately show ?case using Cons by (simp add: requests_for_def split_beta)
qed (simp add: requests_for_def)

text \<open>The server after \<open>i\<close> requests of the first and \<open>j\<close> of the second sender have been accepted.\<close>

definition server_at ::
    "('db \<Rightarrow> StoredIrisRef list \<Rightarrow> 'db result) \<Rightarrow> 'db \<Rightarrow> IrisCodeReshareReceiverHelper
       \<Rightarrow> IrisCodeReShareRequest list \<Rightarrow> IrisCodeReShareRequest list \<Rightarrow> StoredIrisRef list list \<Rightarrow> nat \<Rightarrow> nat
       \<Rightarrow> 'db \<times> IrisCodeReshareReceiverHelper" where
  "server_at ins db R q1 q2 rows i j =
     (foldl (store_after ins) db (take (min i j) rows),
      R\<lparr>sender_1_buffer := drop j (take i q1), sender_2_buffer := drop i (take j q2)\<rparr>)"

lemma drop_take_Suc: "i \<le> j \<Longrightarrow> j < length xs \<Longrightarrow> drop i (take (Suc j) xs) = drop i (take j xs) @ [xs ! j]"
  by (simp add: take_Suc_conv_app_nth)

lemma drop_take_Cons: "i < j \<Longrightarrow> i < length xs \<Longrightarrow> drop i (take j xs) = xs ! i # drop (Suc i) (take j xs)"
  by (metis Cons_nth_drop_Suc length_take min_less_iff_conj nth_take)

lemma drop_eq_Cons_nth: "drop i xs = y # ys \<longleftrightarrow> i < length xs \<and> y = xs ! i \<and> ys = drop (Suc i) xs"
proof (cases "i < length xs")
  case True
  then show ?thesis using Cons_nth_drop_Suc [OF True] by auto
qed auto

lemma foldl_take_Suc: "i < length xs \<Longrightarrow> foldl f a (take (Suc i) xs) = f (foldl f a (take i xs)) (xs ! i)"
  by (simp add: take_Suc_conv_app_nth)

text \<open>Two senders for one target, with shares of the same chunks, and a buffer for at least one request.\<close>

definition reshare_run ::
    "nat \<Rightarrow> nat \<Rightarrow> nat \<Rightarrow> u8 list \<Rightarrow> IrisCodeReshareSenderHelper \<Rightarrow> IrisCodeReshareSenderHelper \<Rightarrow> chunk list \<Rightarrow> nat \<Rightarrow> bool" where
  "reshare_run a b c seed s t parts max_size \<longleftrightarrow> a < 3 \<and> b < 3 \<and> c < 3 \<and> a \<noteq> b \<and>
     sender_for a b c seed s \<and> sender_for b a c seed t \<and>
     (\<forall>ch \<in> set parts. chunk_shared (fst ch) (snd ch)) \<and> 2 \<le> max_size"

lemma reshare_runD:
  assumes "reshare_run a b c seed s t parts max_size"
  shows "a < 3" "b < 3" "c < 3" "a \<noteq> b" "sender_for a b c seed s" "sender_for b a c seed t" "2 \<le> max_size"
    "\<And>i. i < length parts \<Longrightarrow> chunk_shared (fst (parts ! i)) (snd (parts ! i))"
    "\<And>i j. i < length parts \<Longrightarrow> j < 3 \<Longrightarrow> chunk_from (fst (parts ! i)) (rows_of j (parts ! i))"
proof -
  show "a < 3" "b < 3" "c < 3" "a \<noteq> b" "sender_for a b c seed s" "sender_for b a c seed t" "2 \<le> max_size"
    using assms by (simp_all add: reshare_run_def)
  show "chunk_shared (fst (parts ! i)) (snd (parts ! i))" if "i < length parts" for i
    using assms that by (simp add: reshare_run_def)
  then show "chunk_from (fst (parts ! i)) (rows_of j (parts ! i))" if "i < length parts" "j < 3" for i j
    using that by (simp add: chunk_shared_def rows_of_def)
qed

lemma length_requests [simp]: "length (requests_for C s j parts) = length parts"
  by (simp add: requests_for_def)

lemma nth_requests:
  "i < length parts \<Longrightarrow> requests_for C s j parts ! i = request_of C s (fst (parts ! i)) (rows_of j (parts ! i))"
  by (simp add: requests_for_def rows_of_def split_beta)

text \<open>The pair of requests for one chunk is recombined and inserted.\<close>

lemma handled:
  assumes run: "reshare_run a b c seed s t parts max_size" and "i < length parts" "receiver_party_id R = c" "sender_1_buffer R = requests_for C s a parts ! i # b1"
    "sender_2_buffer R = requests_for C t b parts ! i # b2"
  shows "try_handle_batch R = (R\<lparr>sender_1_buffer := b1, sender_2_buffer := b2\<rparr>,
    Inr (Inr (Some (recombined c (fst (parts ! i)) (fst (parts ! i) + of_nat (length (snd (parts ! i)))) (rows_of c (parts ! i))))))"
proof -
  note m = requests_match [OF reshare_runD(1-6,8) [OF run], OF assms(2), where C = C, folded rows_of_def]
  have "receiver_party_id (R\<lparr>sender_1_buffer := b1, sender_2_buffer := b2\<rparr>) = c" using assms(3) by simp
  from m [OF this] show ?thesis
    using assms(4,5) by (simp add: try_handle_batch_def nth_requests [OF assms(2)] Let_def)
qed

lemma inserted:
  "reshare_run a b c seed s t parts max_size \<Longrightarrow> i < length parts \<Longrightarrow> (case ins db (batch_rows (recombined c (fst (parts ! i)) stop (rows_of c (parts ! i)))) of
     Inl _ \<Rightarrow> db | Inr db' \<Rightarrow> db') = store_after ins db (rows_of c (parts ! i))"
  by (simp add: batch_rows_recombined [OF reshare_runD(9)] reshare_runD(3) store_after_def)

abbreviation server_after ::
    "'g Crypto \<Rightarrow> nat \<Rightarrow> nat \<Rightarrow> nat \<Rightarrow> IrisCodeReshareSenderHelper \<Rightarrow> IrisCodeReshareSenderHelper \<Rightarrow> chunk list \<Rightarrow> nat
       \<Rightarrow> ('db \<Rightarrow> StoredIrisRef list \<Rightarrow> 'db result) \<Rightarrow> 'db \<Rightarrow> nat \<Rightarrow> nat \<Rightarrow> 'db \<times> IrisCodeReshareReceiverHelper" where
  "server_after C a b c s t parts max_size ins db i j \<equiv>
     server_at ins db (receiver_new c a b max_size) (requests_for C s a parts) (requests_for C t b parts)
       (map (rows_of c) parts) i j"

lemma add_request_1:
  assumes "check_valid R q = Inr ()" "unat (sender_id q) = sender1_party_id R"
  shows "add_request_batch R q =
    (if max_buffer_size R \<le> length (sender_1_buffer R) + 1
     then (R, Inr (Inl (TooManyRequests (sender1_party_id R) (sender2_party_id R))))
     else (R\<lparr>sender_1_buffer := sender_1_buffer R @ [q]\<rparr>, Inr (Inr ())))"
  using assms by (simp add: add_request_batch_def)

lemma add_request_2:
  assumes "check_valid R q = Inr ()" "unat (sender_id q) = sender2_party_id R" "sender1_party_id R \<noteq> sender2_party_id R"
  shows "add_request_batch R q =
    (if max_buffer_size R \<le> length (sender_2_buffer R) + 1
     then (R, Inr (Inl (TooManyRequests (sender2_party_id R) (sender1_party_id R))))
     else (R\<lparr>sender_2_buffer := sender_2_buffer R @ [q]\<rparr>, Inr (Inr ())))"
  using assms by (simp add: add_request_batch_def)

lemma re_share_full:
  "add_request_batch R q = (R, Inr (Inl (TooManyRequests x y))) \<Longrightarrow>
     re_share ins (db, R) q = ((db, R), Inr \<lparr>status = FullQueue, message = show_reshare_error (TooManyRequests x y)\<rparr>)"
  by (simp add: re_share_def)

lemma re_share_waiting:
  "add_request_batch R q = (R', Inr (Inr ())) \<Longrightarrow> sender_1_buffer R' = [] \<or> sender_2_buffer R' = [] \<Longrightarrow>
     re_share ins (db, R) q = ((db, R'), Inr \<lparr>status = StatusOk, message = ''''\<rparr>)"
  by (auto simp: re_share_def try_handle_batch_def split: list.split)

lemma re_share_handled:
  assumes run: "reshare_run a b c seed s t parts max_size" and i: "i < length parts"
    and add: "add_request_batch R q = (R', Inr (Inr ()))" "receiver_party_id R' = c"
    and buf: "sender_1_buffer R' = requests_for C s a parts ! i # b1" "sender_2_buffer R' = requests_for C t b parts ! i # b2"
  shows "re_share ins (db, R) q = ((store_after ins db (rows_of c (parts ! i)), R'\<lparr>sender_1_buffer := b1, sender_2_buffer := b2\<rparr>),
    Inr \<lparr>status = StatusOk, message = ''''\<rparr>)"
  by (simp add: re_share_def add(1) handled [OF run i add(2) buf] inserted [OF run i])

text \<open>A submission of the first sender, and of the second.\<close>

lemma submit_1_step:
  assumes run: "reshare_run a b c seed s t parts max_size" and i: "i < length parts" and j: "j \<le> length parts"
  shows "re_share ins (server_after C a b c s t parts max_size ins db i j) (requests_for C s a parts ! i) =
    (if max_size \<le> i - j + 1
     then (server_after C a b c s t parts max_size ins db i j,
       Inr \<lparr>status = FullQueue, message = show_reshare_error (TooManyRequests a b)\<rparr>)
     else (server_after C a b c s t parts max_size ins db (Suc i) j, Inr \<lparr>status = StatusOk, message = ''''\<rparr>))"
proof -
  let ?q1 = "requests_for C s a parts" and ?q2 = "requests_for C t b parts"
  let ?db = "foldl (store_after ins) db (take (min i j) (map (rows_of c) parts))"
  let ?R = "(receiver_new c a b max_size)\<lparr>sender_1_buffer := drop j (take i ?q1), sender_2_buffer := drop i (take j ?q2)\<rparr>"
  let ?R' = "?R\<lparr>sender_1_buffer := drop j (take i ?q1) @ [?q1 ! i]\<rparr>"
  have R: "receiver_party_id ?R = c" "sender1_party_id ?R = a" "sender2_party_id ?R = b" "max_buffer_size ?R = max_size"
    by (simp_all add: receiver_new_def)
  have v: "check_valid ?R (?q1 ! i) = Inr ()" "unat (sender_id (?q1 ! i)) = sender1_party_id ?R"
    unfolding nth_requests [OF i] R(2)
    using request_valid [OF reshare_runD(1-5) [OF run] reshare_runD(9) [OF run i reshare_runD(1) [OF run]] R(1)] R(2,3) by blast+
  have add: "add_request_batch ?R (?q1 ! i) =
    (if max_size \<le> i - j + 1 then (?R, Inr (Inl (TooManyRequests a b))) else (?R', Inr (Inr ())))"
    using add_request_1 [OF v] i unfolding R(2-4) by simp
  show ?thesis
  proof (cases "max_size \<le> i - j + 1")
    case True
    then have "add_request_batch ?R (?q1 ! i) = (?R, Inr (Inl (TooManyRequests a b)))" using add by (simp only: if_True)
    from re_share_full [OF this] True show ?thesis by (simp add: server_at_def)
  next
    case full: False
    then have add: "add_request_batch ?R (?q1 ! i) = (?R', Inr (Inr ()))" using add by (simp only: if_False)
    show ?thesis
    proof (cases "i < j")
      case True
      have buf: "sender_1_buffer ?R' = ?q1 ! i # []" "sender_2_buffer ?R' = ?q2 ! i # drop (Suc i) (take j ?q2)"
        using True i j by (simp_all add: drop_take_Cons)
      have "receiver_party_id ?R' = c" using R(1) by simp
      from re_share_handled [OF run i add this buf] show ?thesis
        using True i full by (simp add: server_at_def receiver_new_def foldl_take_Suc min_absorb1)
    next
      case False
      then have "sender_1_buffer ?R' = [] \<or> sender_2_buffer ?R' = []" using i j by simp
      from re_share_waiting [OF add this] show ?thesis
        using False i j full by (simp add: server_at_def receiver_new_def drop_take_Suc min_absorb2)
    qed
  qed
qed

lemma submit_2_step:
  assumes run: "reshare_run a b c seed s t parts max_size" and j: "j < length parts" and i: "i \<le> length parts"
  shows "re_share ins (server_after C a b c s t parts max_size ins db i j) (requests_for C t b parts ! j) =
    (if max_size \<le> j - i + 1
     then (server_after C a b c s t parts max_size ins db i j,
       Inr \<lparr>status = FullQueue, message = show_reshare_error (TooManyRequests b a)\<rparr>)
     else (server_after C a b c s t parts max_size ins db i (Suc j), Inr \<lparr>status = StatusOk, message = ''''\<rparr>))"
proof -
  let ?q1 = "requests_for C s a parts" and ?q2 = "requests_for C t b parts"
  let ?db = "foldl (store_after ins) db (take (min i j) (map (rows_of c) parts))"
  let ?R = "(receiver_new c a b max_size)\<lparr>sender_1_buffer := drop j (take i ?q1), sender_2_buffer := drop i (take j ?q2)\<rparr>"
  let ?R' = "?R\<lparr>sender_2_buffer := drop i (take j ?q2) @ [?q2 ! j]\<rparr>"
  have R: "receiver_party_id ?R = c" "sender1_party_id ?R = a" "sender2_party_id ?R = b" "max_buffer_size ?R = max_size"
    by (simp_all add: receiver_new_def)
  note D = reshare_runD [OF run]
  have v: "check_valid ?R (?q2 ! j) = Inr ()" "unat (sender_id (?q2 ! j)) = sender2_party_id ?R"
    unfolding nth_requests [OF j] R(3)
    using request_valid [OF D(2,1,3) D(4) [symmetric] D(6) D(9) [OF j D(2)] R(1)] R(2,3) by blast+
  have "sender1_party_id ?R \<noteq> sender2_party_id ?R" unfolding R(2,3) by (rule D(4))
  then have add: "add_request_batch ?R (?q2 ! j) =
    (if max_size \<le> j - i + 1 then (?R, Inr (Inl (TooManyRequests b a))) else (?R', Inr (Inr ())))"
    using add_request_2 [OF v] j unfolding R(2-4) by simp
  show ?thesis
  proof (cases "max_size \<le> j - i + 1")
    case True
    then have "add_request_batch ?R (?q2 ! j) = (?R, Inr (Inl (TooManyRequests b a)))" using add by (simp only: if_True)
    from re_share_full [OF this] True show ?thesis by (simp add: server_at_def)
  next
    case full: False
    then have add: "add_request_batch ?R (?q2 ! j) = (?R', Inr (Inr ()))" using add by (simp only: if_False)
    show ?thesis
    proof (cases "j < i")
      case True
      have buf: "sender_1_buffer ?R' = ?q1 ! j # drop (Suc j) (take i ?q1)" "sender_2_buffer ?R' = ?q2 ! j # []"
        using True i j by (simp_all add: drop_take_Cons)
      have "receiver_party_id ?R' = c" using R(1) by simp
      from re_share_handled [OF run j add this buf] show ?thesis
        using True j full by (simp add: server_at_def receiver_new_def foldl_take_Suc min_absorb2)
    next
      case False
      then have "sender_1_buffer ?R' = [] \<or> sender_2_buffer ?R' = []" using i j by simp
      from re_share_waiting [OF add this] show ?thesis
        using False i j full by (simp add: server_at_def receiver_new_def drop_take_Suc min_absorb1)
    qed
  qed
qed

text \<open>Every reachable state is determined by the numbers of accepted requests.\<close>

definition state_at ::
    "'g Crypto \<Rightarrow> nat \<Rightarrow> nat \<Rightarrow> nat \<Rightarrow> IrisCodeReshareSenderHelper \<Rightarrow> IrisCodeReshareSenderHelper \<Rightarrow> chunk list \<Rightarrow> nat
       \<Rightarrow> ('db \<Rightarrow> StoredIrisRef list \<Rightarrow> 'db result) \<Rightarrow> 'db \<Rightarrow> nat \<Rightarrow> nat \<Rightarrow> 'db system" where
  "state_at C a b c s t parts max_size ins db i j =
     (drop i (requests_for C s a parts), drop j (requests_for C t b parts), server_after C a b c s t parts max_size ins db i j)"

lemma submit_state_at:
  assumes run: "reshare_run a b c seed s t parts max_size" and le: "i \<le> length parts" "j \<le> length parts"
    and step: "submit ins (state_at C a b c s t parts max_size ins db i j) st"
  shows "\<exists>i' j'. i' \<le> length parts \<and> j' \<le> length parts \<and> st = state_at C a b c s t parts max_size ins db i' j'"
  using step
proof (rule submit_elim, goal_cases)
  case (1 srv req srv' resp r1 r2)
  then have i: "i < length parts" "req = requests_for C s a parts ! i" "r1 = drop (Suc i) (requests_for C s a parts)"
    using le(1) by (auto simp: state_at_def drop_eq_Cons_nth)
  from submit_1_step [OF run i(1) le(2), where ins = ins and C = C and db = db] 1 i(2) have "srv' = server_after C a b c s t parts max_size ins db (Suc i) j"
    by (auto simp: state_at_def split: if_splits)
  with 1 i show ?case by (intro exI [of _ "Suc i"] exI [of _ j]) (use le in \<open>auto simp: state_at_def\<close>)
next
  case (2 srv req srv' resp r1 r2)
  then have i: "i < length parts" "req = requests_for C s a parts ! i"
    using le(1) by (auto simp: state_at_def drop_eq_Cons_nth)
  from submit_1_step [OF run i(1) le(2), where ins = ins and C = C and db = db] 2 i(2) have "srv' = server_after C a b c s t parts max_size ins db i j"
    by (auto simp: state_at_def split: if_splits)
  with 2 show ?case by (intro exI [of _ i] exI [of _ j]) (use le in \<open>auto simp: state_at_def\<close>)
next
  case (3 srv req srv' resp r1 r2)
  then have j: "j < length parts" "req = requests_for C t b parts ! j" "r2 = drop (Suc j) (requests_for C t b parts)"
    using le(2) by (auto simp: state_at_def drop_eq_Cons_nth)
  from submit_2_step [OF run j(1) le(1), where ins = ins and C = C and db = db] 3 j(2) have "srv' = server_after C a b c s t parts max_size ins db i (Suc j)"
    by (auto simp: state_at_def split: if_splits)
  with 3 j show ?case by (intro exI [of _ i] exI [of _ "Suc j"]) (use le in \<open>auto simp: state_at_def\<close>)
next
  case (4 srv req srv' resp r1 r2)
  then have j: "j < length parts" "req = requests_for C t b parts ! j"
    using le(2) by (auto simp: state_at_def drop_eq_Cons_nth)
  from submit_2_step [OF run j(1) le(1), where ins = ins and C = C and db = db] 4 j(2) have "srv' = server_after C a b c s t parts max_size ins db i j"
    by (auto simp: state_at_def split: if_splits)
  with 4 show ?case by (intro exI [of _ i] exI [of _ j]) (use le in \<open>auto simp: state_at_def\<close>)
qed

lemma reachable_state_at:
  assumes run: "reshare_run a b c seed s t parts max_size"
    and reach: "(submit ins)\<^sup>*\<^sup>* (requests_for C s a parts, requests_for C t b parts, db, receiver_new c a b max_size) st"
  shows "\<exists>i j. i \<le> length parts \<and> j \<le> length parts \<and> st = state_at C a b c s t parts max_size ins db i j"
  using reach
proof (induction rule: rtranclp_induct)
  case base
  have "(requests_for C s a parts, requests_for C t b parts, db, receiver_new c a b max_size)
      = state_at C a b c s t parts max_size ins db 0 0"
    by (simp add: state_at_def server_at_def receiver_new_def)
  then show ?case by blast
next
  case (step st st')
  then obtain i j where "i \<le> length parts" "j \<le> length parts" "st = state_at C a b c s t parts max_size ins db i j" by blast
  then show ?case using submit_state_at [OF run, of i j ins C db st'] step.hyps(2) by simp
qed

section \<open>Properties of resharing\<close>

lemma sender_new_inv:
  "sender_new a b c seed = Inr s \<Longrightarrow> sender_for a b c seed s \<and> current_packet s = None"
  by (auto simp: sender_new_def sender_for_def)

lemma state_outcomes:
  assumes run: "reshare_run a b c seed s t parts max_size" and le: "i \<le> length parts" "j \<le> length parts"
    and st: "(r1, r2, db', R) = state_at C a b c s t parts max_size ins db i j"
  shows "r1 = [] \<and> r2 = [] \<Longrightarrow> db' = foldl (store_after ins) db (map (rows_of c) parts) \<and> sender_1_buffer R = [] \<and> sender_2_buffer R = []"
    "req \<in> set (take 1 r1 @ take 1 r2) \<Longrightarrow> \<exists>srv' resp. re_share ins (db', R) req = (srv', Inr resp) \<and> status resp \<noteq> StatusError"
    "r1 \<noteq> [] \<or> r2 \<noteq> [] \<Longrightarrow> \<exists>req \<in> set (take 1 r1 @ take 1 r2). \<exists>srv' resp. re_share ins (db', R) req = (srv', Inr resp) \<and> status resp = StatusOk"
proof -
  let ?q1 = "requests_for C s a parts" and ?q2 = "requests_for C t b parts"
  have r: "r1 = drop i ?q1" "r2 = drop j ?q2" "(db', R) = server_after C a b c s t parts max_size ins db i j"
    using st by (simp_all add: state_at_def)
  have first: "set (take 1 (drop i q)) = (if i < length q then {q ! i} else {})" for q :: "IrisCodeReShareRequest list" and i
    by (cases "i < length q") (simp_all add: Cons_nth_drop_Suc [symmetric])
  have set: "set (take 1 r1 @ take 1 r2) = (if i < length parts then {?q1 ! i} else {}) \<union> (if j < length parts then {?q2 ! j} else {})"
    unfolding r(1,2) set_append first by simp
  note 1 = submit_1_step [OF run _ le(2), where ins = ins and C = C and db = db and i = i, folded r(3)]
  note 2 = submit_2_step [OF run _ le(1), where ins = ins and C = C and db = db and j = j, folded r(3)]
  show "db' = foldl (store_after ins) db (map (rows_of c) parts) \<and> sender_1_buffer R = [] \<and> sender_2_buffer R = []"
    if "r1 = [] \<and> r2 = []"
  proof -
    have "i = length parts" "j = length parts" using that le by (simp_all add: r)
    then show ?thesis using r(3) by (simp add: server_at_def)
  qed
  show "\<exists>srv' resp. re_share ins (db', R) req = (srv', Inr resp) \<and> status resp \<noteq> StatusError"
    if "req \<in> set (take 1 r1 @ take 1 r2)"
    using that unfolding set by (auto simp: 1 2 split: if_splits)
  show "\<exists>req \<in> set (take 1 r1 @ take 1 r2). \<exists>srv' resp. re_share ins (db', R) req = (srv', Inr resp) \<and> status resp = StatusOk"
    if ne: "r1 \<noteq> [] \<or> r2 \<noteq> []"
  proof (cases "i \<le> j")
    case True
    then have "i < length parts" using ne le by (auto simp: r)
    with 1 True reshare_runD(7) [OF run] show ?thesis unfolding set by auto
  next
    case False
    then have "j < length parts" using le by simp
    with 2 False reshare_runD(7) [OF run] show ?thesis unfolding set by auto
  qed
qed

text \<open>
  C4: Resharing delivers the database. Two distinct senders hold, like the target party, shares of the
  same chunks of a database with consecutive identifiers. Both clients build all their requests
  without a panic. However their submissions to the server are interleaved, and for every buffer of
  at least two, the next request of a client is never answered with an error and never panics; as
  long as a request remains, one of the clients can submit its next one successfully; and when all
  requests have been accepted, the server has inserted exactly the target party's own rows, batch by
  batch in order, and its buffers are empty.
\<close>

theorem resharing_delivers:
  assumes "a < 3" "b < 3" "c < 3" "a \<noteq> b" "sender_new a b c seed = Inr s" "sender_new b a c seed = Inr t"
    and "\<forall>ch \<in> set parts. chunk_shared (fst ch) (snd ch)" "2 \<le> max_size"
  shows "\<exists>q1 q2. client_requests C a s (map (rows_of a) parts) = Inr q1 \<and>
    client_requests C b t (map (rows_of b) parts) = Inr q2 \<and>
    (\<forall>r1 r2 db' R. (submit ins)\<^sup>*\<^sup>* (q1, q2, db, receiver_new c a b max_size) (r1, r2, db', R) \<longrightarrow>
      (r1 = [] \<and> r2 = [] \<longrightarrow> db' = foldl (store_after ins) db (map (rows_of c) parts) \<and>
         sender_1_buffer R = [] \<and> sender_2_buffer R = []) \<and>
      (\<forall>req \<in> set (take 1 r1 @ take 1 r2). \<exists>srv' resp. re_share ins (db', R) req = (srv', Inr resp) \<and> status resp \<noteq> StatusError) \<and>
      (r1 \<noteq> [] \<or> r2 \<noteq> [] \<longrightarrow> (\<exists>req \<in> set (take 1 r1 @ take 1 r2).
         \<exists>srv' resp. re_share ins (db', R) req = (srv', Inr resp) \<and> status resp = StatusOk)))"
proof -
  have run: "reshare_run a b c seed s t parts max_size"
    using assms sender_new_inv by (simp add: reshare_run_def)
  have q: "client_requests C a s (map (rows_of a) parts) = Inr (requests_for C s a parts)"
    "client_requests C b t (map (rows_of b) parts) = Inr (requests_for C t b parts)"
    using client_requests_ok [OF assms(7)] sender_new_inv assms(1,2,5,6) by blast+
  show ?thesis
  proof (rule exI [of _ "requests_for C s a parts"], rule exI [of _ "requests_for C t b parts"],
      intro conjI q, rule allI, rule allI, rule allI, rule allI, rule impI)
    fix r1 r2 db' R
    assume "(submit ins)\<^sup>*\<^sup>* (requests_for C s a parts, requests_for C t b parts, db, receiver_new c a b max_size) (r1, r2, db', R)"
    from reachable_state_at [OF run this] obtain i j where
      ij: "i \<le> length parts" "j \<le> length parts" "(r1, r2, db', R) = state_at C a b c s t parts max_size ins db i j" by blast
    note out = state_outcomes [OF run ij]
    show "(r1 = [] \<and> r2 = [] \<longrightarrow> db' = foldl (store_after ins) db (map (rows_of c) parts) \<and>
         sender_1_buffer R = [] \<and> sender_2_buffer R = []) \<and>
      (\<forall>req \<in> set (take 1 r1 @ take 1 r2). \<exists>srv' resp. re_share ins (db', R) req = (srv', Inr resp) \<and> status resp \<noteq> StatusError) \<and>
      (r1 \<noteq> [] \<or> r2 \<noteq> [] \<longrightarrow> (\<exists>req \<in> set (take 1 r1 @ take 1 r2).
         \<exists>srv' resp. re_share ins (db', R) req = (srv', Inr resp) \<and> status resp = StatusOk))"
      by (rule conjI [OF impI [OF out(1)] conjI [OF ballI [OF out(2)] impI [OF out(3)]]])
  qed
qed

text \<open>A database of one row whose shares are all zero.\<close>

definition demo_row :: "nat \<Rightarrow> StoredIrisRef" where
  "demo_row j = \<lparr>stored_id = 1, stored_left_code = replicate IRIS_CODE_LENGTH 0, stored_left_mask = replicate MASK_CODE_LENGTH 0,
     stored_right_code = replicate IRIS_CODE_LENGTH 0, stored_right_mask = replicate MASK_CODE_LENGTH 0\<rparr>"

definition demo_crypto :: "nat Crypto" where
  "demo_crypto = \<lparr>sha256 = (\<lambda>bs. bs), chacha_from_seed = length, chacha_u16 = (\<lambda>n. (of_nat n, n * 75 + 74))\<rparr>"

lemma sharing_zero: "sharing n (replicate 3 (replicate (4 * n) 0)) (\<lambda>_. 0)"
proof -
  have "blk b (replicate (4 * n) 0) = 0" if "b < n" for b
  proof -
    have "4 * b < 4 * n" "4 * b + 1 < 4 * n" "4 * b + 2 < 4 * n" "4 * b + 3 < 4 * n" using that by simp_all
    then have "blk b (replicate (4 * n) 0) = from_coefs (0, 0, 0, 0)" by (simp only: get_block_def nth_replicate)
    then show ?thesis unfolding from_coefs_def zero_GaloisRingElement_def ZERO_def prod.case .
  qed
  then show ?thesis unfolding sharing_def by (intro conjI exI [of _ "\<lambda>_. 0"]) (simp_all add: numeral_3_eq_3 less_Suc_eq)
qed

lemma demo_chunk: "chunk_shared 1 [demo_row]"
proof -
  have three: "map (\<lambda>j. f (demo_row j)) [0, 1, 2] = replicate 3 (f (demo_row 0))" for f :: "StoredIrisRef \<Rightarrow> u16 list"
    by (simp add: demo_row_def numeral_3_eq_3)
  have "row_shared demo_row"
    unfolding row_shared_def three using sharing_zero [of 3200] sharing_zero [of 1600]
    by (auto simp: demo_row_def IRIS_CODE_LENGTH_def MASK_CODE_LENGTH_def)
  moreover have "chunk_from 1 (map (\<lambda>X. X j) [demo_row])" for j
    by (simp add: chunk_from_def wf_row_def demo_row_def)
  ultimately show ?thesis by (simp add: chunk_shared_def)
qed

theorem resharing_delivers_witness:
  "\<exists>s t. sender_new 0 1 2 [] = Inr s \<and> sender_new 1 0 2 [] = Inr t \<and>
   (\<exists>q1 q2. client_requests demo_crypto 0 s (map (rows_of 0) [(1, [demo_row])]) = Inr q1 \<and>
    client_requests demo_crypto 1 t (map (rows_of 1) [(1, [demo_row])]) = Inr q2 \<and>
    (\<forall>r1 r2 db' R. (submit (\<lambda>db rows. Inr (db @ rows)))\<^sup>*\<^sup>* (q1, q2, [], receiver_new 2 0 1 2) (r1, r2, db', R) \<longrightarrow>
      (r1 = [] \<and> r2 = [] \<longrightarrow> db' = foldl (store_after (\<lambda>db rows. Inr (db @ rows))) [] (map (rows_of 2) [(1, [demo_row])]) \<and>
         sender_1_buffer R = [] \<and> sender_2_buffer R = []) \<and>
      (\<forall>req \<in> set (take 1 r1 @ take 1 r2). \<exists>srv' resp.
         re_share (\<lambda>db rows. Inr (db @ rows)) (db', R) req = (srv', Inr resp) \<and> status resp \<noteq> StatusError) \<and>
      (r1 \<noteq> [] \<or> r2 \<noteq> [] \<longrightarrow> (\<exists>req \<in> set (take 1 r1 @ take 1 r2).
         \<exists>srv' resp. re_share (\<lambda>db rows. Inr (db @ rows)) (db', R) req = (srv', Inr resp) \<and> status resp = StatusOk))))"
proof -
  obtain s t where st: "sender_new 0 1 2 [] = Inr s" "sender_new 1 0 2 [] = Inr t"
    using sender_new_for [of 0 1 2 "[]"] sender_new_for [of 1 0 2 "[]"] by auto
  have "\<forall>ch \<in> set [(1, [demo_row])]. chunk_shared (fst ch) (snd ch)" using demo_chunk by simp
  from resharing_delivers [OF _ _ _ _ st this, of 2 demo_crypto "\<lambda>db rows. Inr (db @ rows)" "[]"] st
  show ?thesis by (intro exI [of _ s] exI [of _ t] conjI) simp_all
qed

section \<open>Robustness of the server\<close>

text \<open>The server answers a list of requests one after the other.\<close>

fun serve ::
    "('db \<Rightarrow> StoredIrisRef list \<Rightarrow> 'db result) \<Rightarrow> 'db \<times> IrisCodeReshareReceiverHelper \<Rightarrow> IrisCodeReShareRequest list
       \<Rightarrow> (('db \<times> IrisCodeReshareReceiverHelper) \<times> IrisCodeReShareResponse list) result" where
  "serve ins st [] = Inr (st, [])"
| "serve ins st (req # reqs) =
     (case re_share ins st req of
        (st', Inl e) \<Rightarrow> Inl e
      | (st', Inr resp) \<Rightarrow> rbind (serve ins st' reqs) (\<lambda>(st'', resps). Inr (st'', resp # resps)))"

definition array_lengths :: "IrisCodeReShare \<Rightarrow> bool" where
  "array_lengths r \<longleftrightarrow> length (left_iris_code_share r) = IRIS_CODE_LENGTH * 2 \<and> length (left_mask_share r) = MASK_CODE_LENGTH * 2 \<and>
     length (right_iris_code_share r) = IRIS_CODE_LENGTH * 2 \<and> length (right_mask_share r) = MASK_CODE_LENGTH * 2"

text \<open>What the server keeps in its buffers has passed the checks, and the buffers never fill up.\<close>

definition server_inv :: "nat \<Rightarrow> IrisCodeReshareReceiverHelper \<Rightarrow> bool" where
  "server_inv m R \<longleftrightarrow> max_buffer_size R = m \<and>
     (\<forall>q \<in> set (sender_1_buffer R @ sender_2_buffer R). \<forall>r \<in> set (iris_code_re_shares q).
        array_lengths r) \<and>
     length (sender_1_buffer R) \<le> m - 1 \<and> length (sender_2_buffer R) \<le> m - 1"

lemma recombine_total: "length xs = n * 2 \<Longrightarrow> length ys = n * 2 \<Longrightarrow> \<exists>cs. recombine n e xs ys = Inr cs"
  by (simp add: recombine_def share_from_bytes_def)

lemma recombine_loop_total:
  assumes "\<forall>xy \<in> set rs. array_lengths (fst xy) \<and> array_lengths (snd xy)"
  shows "\<exists>batch'. recombine_loop pid rs batch = Inr batch'"
  using assms
proof (induction rs arbitrary: batch)
  case (Cons xy rs)
  obtain x y where [simp]: "xy = (x, y)" by (cases xy)
  have l: "array_lengths x" "array_lengths y" using Cons.prems by simp_all
  obtain lc where 1: "recombine IRIS_CODE_LENGTH ''Invalid iris code share length'' (left_iris_code_share x) (left_iris_code_share y) = Inr lc"
    using recombine_total l unfolding array_lengths_def by blast
  obtain lm where 2: "recombine MASK_CODE_LENGTH ''Invalid mask share length'' (left_mask_share x) (left_mask_share y) = Inr lm"
    using recombine_total l unfolding array_lengths_def by blast
  obtain rc where 3: "recombine IRIS_CODE_LENGTH ''Invalid iris code share length'' (right_iris_code_share x) (right_iris_code_share y) = Inr rc"
    using recombine_total l unfolding array_lengths_def by blast
  obtain rm where 4: "recombine MASK_CODE_LENGTH ''Invalid mask share length'' (right_mask_share x) (right_mask_share y) = Inr rm"
    using recombine_total l unfolding array_lengths_def by blast
  show ?case using Cons.IH Cons.prems by (simp add: 1 2 3 4)
qed simp

lemma add_request_inv:
  assumes "server_inv m R"
  shows "\<exists>R' r. add_request_batch R q = (R', Inr r) \<and> server_inv m R'"
proof (cases "check_valid R q")
  case (Inl e)
  then show ?thesis using assms by (simp add: add_request_batch_def)
next
  case (Inr u)
  then have v: "unat (sender_id q) = sender1_party_id R \<or> unat (sender_id q) = sender2_party_id R"
    "\<forall>r \<in> set (iris_code_re_shares q).
        array_lengths r"
    by (auto simp: check_valid_def list_all_iff array_lengths_def split: if_splits)
  show ?thesis using Inr v assms by (auto simp: add_request_batch_def server_inv_def)
qed

lemma try_handle_inv:
  assumes "server_inv m R"
  shows "\<exists>R' r. try_handle_batch R = (R', Inr r) \<and> server_inv m R'"
proof (cases "sender_1_buffer R = [] \<or> sender_2_buffer R = []")
  case True
  then show ?thesis using assms by (auto simp: try_handle_batch_def split: list.split)
next
  case False
  then obtain q1 b1 q2 b2 where b: "sender_1_buffer R = q1 # b1" "sender_2_buffer R = q2 # b2" by (metis list.exhaust)
  let ?R = "R\<lparr>sender_1_buffer := b1, sender_2_buffer := b2\<rparr>"
  have inv: "server_inv m ?R" using assms b by (auto simp: server_inv_def)
  have "\<exists>batch. reshare_code_batch ?R q1 q2 = Inr batch"
    unfolding reshare_code_batch_def
    by (rule recombine_loop_total) (use assms b in \<open>auto simp: server_inv_def dest: set_zip_leftD set_zip_rightD\<close>)
  then show ?thesis
    using inv by (cases "check_requests_matching q1 q2") (auto simp: try_handle_batch_def b Let_def)
qed

lemma re_share_inv:
  assumes "server_inv m (snd st)"
  shows "\<exists>st' resp. re_share ins st q = (st', Inr resp) \<and> server_inv m (snd st')"
proof -
  obtain db R where st: "st = (db, R)" by (cases st)
  with assms have "server_inv m R" by simp
  from add_request_inv [OF this, of q] obtain R' r where R': "add_request_batch R q = (R', Inr r)" "server_inv m R'" by blast
  from try_handle_inv [OF R'(2)] obtain R2 r2 where R2: "try_handle_batch R' = (R2, Inr r2)" "server_inv m R2" by blast
  show ?thesis
    using R' R2 by (cases r; cases r2) (auto simp: re_share_def st Let_def split: IrisCodeReShareError.split)
qed

text \<open>
  C5: The server is robust. Whatever requests arrive, in whatever order and with whatever contents, the
  server answers every one of them without a panic, the requests in its buffers have the lengths the
  recombination needs, and neither buffer ever holds \<open>max_buffer_size\<close> requests: the last place is
  never used, and with a size of one or less every valid request is turned away.
\<close>

theorem reshare_server_robust:
  "\<exists>st' resps. serve ins (db, receiver_new c a b m) reqs = Inr (st', resps) \<and>
     length resps = length reqs \<and> server_inv m (snd st')"
proof -
  have "\<exists>st' resps. serve ins st reqs = Inr (st', resps) \<and> length resps = length reqs \<and> server_inv m (snd st')"
    if "server_inv m (snd st)" for st
    using that
  proof (induction reqs arbitrary: st)
    case (Cons q reqs)
    from re_share_inv [OF Cons.prems] obtain st1 resp where "re_share ins st q = (st1, Inr resp)" "server_inv m (snd st1)" by blast
    with Cons.IH [of st1] show ?case by auto
  qed simp
  moreover have "server_inv m (receiver_new c a b m)" by (simp add: server_inv_def receiver_new_def)
  ultimately show ?thesis by simp
qed

end
