(* ===== verification/ChaCha.thy ===== *)
theory ChaCha
  imports Prelude
begin

text \<open>
  The ChaCha12 generators of the GPU protocols (\<open>iris-mpc-gpu/src/rng/chacha.rs\<close> and
  \<open>chacha_corr.rs\<close>, with their kernel \<open>chacha.cu\<close>). A device buffer is a list of words; a kernel
  launch computes every word of the buffer from the copy of the state on the device and the counter
  of the host. The compilation and the launch configuration of the kernels are left out.
\<close>

section \<open>The state\<close>

text \<open>Four constants, eight key words, the counter in words 12 and 13 and the nonce in 14 and 15.\<close>

record ChaChaCtx =
  state :: "u32 list"

definition CHACONST :: "u32 list" where
  "CHACONST = [0x61707865, 0x3320646e, 0x79622d32, 0x6b206574]"

definition get_value :: "ChaChaCtx \<Rightarrow> nat \<Rightarrow> u64" where
  "get_value self idx = ucast (state self ! idx) OR push_bit 32 (ucast (state self ! (idx + 1)))"

definition set_value :: "ChaChaCtx \<Rightarrow> nat \<Rightarrow> u64 \<Rightarrow> ChaChaCtx" where
  "set_value self idx v = self\<lparr>state := (state self)[idx := ucast v, idx + 1 := ucast (drop_bit 32 v)]\<rparr>"

definition set_counter :: "ChaChaCtx \<Rightarrow> u64 \<Rightarrow> ChaChaCtx" where
  "set_counter self counter = set_value self 12 counter"

definition get_counter :: "ChaChaCtx \<Rightarrow> u64" where
  "get_counter self = get_value self 12"

definition set_nonce :: "ChaChaCtx \<Rightarrow> u64 \<Rightarrow> ChaChaCtx" where
  "set_nonce self nonce = set_value self 14 nonce"

definition get_nonce :: "ChaChaCtx \<Rightarrow> u64" where
  "get_nonce self = get_value self 14"

definition ctx_init :: "u32 list \<Rightarrow> u64 \<Rightarrow> u64 \<Rightarrow> ChaChaCtx" where
  "ctx_init key counter nonce =
     set_nonce (set_counter \<lparr>state = CHACONST @ key @ replicate 4 0\<rparr> counter) nonce"

section \<open>The kernel\<close>

definition ROTL32 :: "u32 \<Rightarrow> nat \<Rightarrow> u32" where
  "ROTL32 n d = push_bit d n OR drop_bit (32 - d) n"

definition QUARTERROUND :: "nat \<Rightarrow> nat \<Rightarrow> nat \<Rightarrow> nat \<Rightarrow> u32 list \<Rightarrow> u32 list" where
  "QUARTERROUND a b c d arr =
     (let arr = arr[a := arr ! a + arr ! b]; arr = arr[d := arr ! d XOR arr ! a]; arr = arr[d := ROTL32 (arr ! d) 16];
          arr = arr[c := arr ! c + arr ! d]; arr = arr[b := arr ! b XOR arr ! c]; arr = arr[b := ROTL32 (arr ! b) 12];
          arr = arr[a := arr ! a + arr ! b]; arr = arr[d := arr ! d XOR arr ! a]; arr = arr[d := ROTL32 (arr ! d) 8];
          arr = arr[c := arr ! c + arr ! d]; arr = arr[b := arr ! b XOR arr ! c]; arr = arr[b := ROTL32 (arr ! b) 7]
      in arr)"

definition double_round :: "u32 list \<Rightarrow> u32 list" where
  "double_round arr =
     QUARTERROUND 3 4 9 14 (QUARTERROUND 2 7 8 13 (QUARTERROUND 1 6 11 12 (QUARTERROUND 0 5 10 15
    (QUARTERROUND 3 7 11 15 (QUARTERROUND 2 6 10 14 (QUARTERROUND 1 5 9 13 (QUARTERROUND 0 4 8 12 arr)))))))"

text \<open>The block of thread \<open>idx\<close>: its counter is added to the one of the launch, modulo $2^{64}$.\<close>

definition chacha12_internal :: "u32 list \<Rightarrow> u32 \<Rightarrow> u32 \<Rightarrow> nat \<Rightarrow> u32 list" where
  "chacha12_internal d_state state12 state13 idx =
     (let state = d_state[12 := state12, 13 := state13];
          counter = (ucast (state ! 12) OR push_bit 32 (ucast (state ! 13)) :: u64) + of_nat idx;
          original = state[12 := ucast counter, 13 := ucast (drop_bit 32 counter)]
      in map2 (+) ((double_round ^^ 6) original) original)"

definition chacha12 :: "u32 list \<Rightarrow> u32 \<Rightarrow> u32 \<Rightarrow> u32 list \<Rightarrow> u32 list" where
  "chacha12 d_state state12 state13 buf =
     map (\<lambda>j. chacha12_internal d_state state12 state13 (j div 16) ! (j mod 16)) [0..<length buf]"

definition chacha12_xor :: "u32 list \<Rightarrow> u32 \<Rightarrow> u32 \<Rightarrow> u32 list \<Rightarrow> u32 list" where
  "chacha12_xor d_state state12 state13 buf =
     map (\<lambda>j. buf ! j XOR chacha12_internal d_state state12 state13 (j div 16) ! (j mod 16)) [0..<length buf]"

section \<open>The generators\<close>

record ChachaCommon =
  chacha_ctx :: ChaChaCtx
  state_gpu_buf :: "u32 list"

definition common_init :: "u32 list \<Rightarrow> ChachaCommon" where
  "common_init seed = (let ctx = ctx_init seed 0 0 in \<lparr>chacha_ctx = ctx, state_gpu_buf = state ctx\<rparr>)"

definition advance_counter :: "ChachaCommon \<Rightarrow> u64 \<Rightarrow> ChachaCommon" where
  "advance_counter self num_ks_calls =
     self\<lparr>chacha_ctx := set_counter (chacha_ctx self) (get_counter (chacha_ctx self) + num_ks_calls)\<rparr>"

text \<open>The kernel is an argument: \<open>chacha12\<close> or \<open>chacha12_xor\<close>.\<close>

definition common_fill_rng_into ::
    "(u32 list \<Rightarrow> u32 \<Rightarrow> u32 \<Rightarrow> u32 list \<Rightarrow> u32 list) \<Rightarrow> ChachaCommon \<Rightarrow> u32 list \<Rightarrow> (ChachaCommon \<times> u32 list) result" where
  "common_fill_rng_into fill_kernel self buf =
     (if length buf mod 16 \<noteq> 0 then Inl (Panic ''buffer length must be a multiple of 16'')
      else Inr (advance_counter self (of_nat (length buf div 16)),
        fill_kernel (state_gpu_buf self) (state (chacha_ctx self) ! 12) (state (chacha_ctx self) ! 13) buf))"

record ChaChaCudaRng =
  rng_chunk :: "u32 list option"
  output_buffer :: "u32 list option"
  chacha :: ChachaCommon

definition rng_init :: "nat \<Rightarrow> u32 list \<Rightarrow> ChaChaCudaRng result" where
  "rng_init buf_size_bytes seed =
     (if buf_size_bytes mod 64 \<noteq> 0 then Inl (Panic ''buf_size must be a multiple of 64 atm'')
      else if buf_size_bytes = 0 then Inr \<lparr>rng_chunk = None, output_buffer = None, chacha = common_init seed\<rparr>
      else (let buf = replicate (buf_size_bytes div 4) 0
            in Inr \<lparr>rng_chunk = Some buf, output_buffer = Some buf, chacha = common_init seed\<rparr>))"

definition init_empty :: "u32 list \<Rightarrow> ChaChaCudaRng result" where
  "init_empty seed = rng_init 0 seed"

text \<open>The slice of the chunk that is filled panics when it is longer than the chunk.\<close>

definition fill_rng_no_host_copy :: "ChaChaCudaRng \<Rightarrow> nat \<Rightarrow> ChaChaCudaRng result" where
  "fill_rng_no_host_copy self buf_size_bytes =
     (case rng_chunk self of
        None \<Rightarrow> Inl (Panic ''assertion failed: self.rng_chunk.is_some()'')
      | Some chunk \<Rightarrow>
          if length chunk < buf_size_bytes div 4 then Inl (Panic ''called `Option::unwrap()` on a `None` value'')
          else
            rbind (common_fill_rng_into chacha12 (chacha self) (take (buf_size_bytes div 4) chunk)) (\<lambda>(common, buf).
            Inr (self\<lparr>rng_chunk := Some (buf @ drop (buf_size_bytes div 4) chunk), chacha := common\<rparr>)))"

definition fill_rng :: "ChaChaCudaRng \<Rightarrow> ChaChaCudaRng result" where
  "fill_rng self =
     (case output_buffer self of
        None \<Rightarrow> Inl (Panic ''assertion failed'')
      | Some out \<Rightarrow>
          rbind (fill_rng_no_host_copy self (length out * 4)) (\<lambda>self.
          Inr (self\<lparr>output_buffer := rng_chunk self\<rparr>)))"

definition fill_rng_into :: "ChaChaCudaRng \<Rightarrow> u32 list \<Rightarrow> (ChaChaCudaRng \<times> u32 list) result" where
  "fill_rng_into self buf =
     rbind (common_fill_rng_into chacha12 (chacha self) buf) (\<lambda>(common, buf). Inr (self\<lparr>chacha := common\<rparr>, buf))"

definition get_mut_chacha :: "(ChaChaCtx \<Rightarrow> ChaChaCtx) \<Rightarrow> ChaChaCudaRng \<Rightarrow> ChaChaCudaRng" where
  "get_mut_chacha f self = self\<lparr>chacha := (chacha self)\<lparr>chacha_ctx := f (chacha_ctx (chacha self))\<rparr>\<rparr>"

definition set_cuda_slice :: "ChaChaCudaRng \<Rightarrow> u32 list \<Rightarrow> ChaChaCudaRng result" where
  "set_cuda_slice self chunk =
     (if rng_chunk self \<noteq> None then Inl (Panic ''assertion failed: self.rng_chunk.is_none()'')
      else if length chunk mod 16 \<noteq> 0 then Inl (Panic ''slice length must be a multiple of 16'')
      else Inr (self\<lparr>rng_chunk := Some chunk\<rparr>))"

definition take_cuda_slice :: "ChaChaCudaRng \<Rightarrow> (ChaChaCudaRng \<times> u32 list) result" where
  "take_cuda_slice self =
     (case rng_chunk self of
        None \<Rightarrow> Inl (Panic ''called `Option::unwrap()` on a `None` value'')
      | Some chunk \<Rightarrow> Inr (self\<lparr>rng_chunk := None\<rparr>, chunk))"

record ChaChaCudaCorrRng =
  chacha1 :: ChachaCommon
  chacha2 :: ChachaCommon

definition corr_init :: "u32 list \<Rightarrow> u32 list \<Rightarrow> ChaChaCudaCorrRng" where
  "corr_init seed1 seed2 = \<lparr>chacha1 = common_init seed1, chacha2 = common_init seed2\<rparr>"

definition corr_fill_rng_into :: "ChaChaCudaCorrRng \<Rightarrow> u32 list \<Rightarrow> (ChaChaCudaCorrRng \<times> u32 list) result" where
  "corr_fill_rng_into self buf =
     rbind (common_fill_rng_into chacha12 (chacha1 self) buf) (\<lambda>(c1, buf).
     rbind (common_fill_rng_into chacha12_xor (chacha2 self) buf) (\<lambda>(c2, buf).
     Inr (\<lparr>chacha1 = c1, chacha2 = c2\<rparr>, buf)))"

definition fill_my_rng_into :: "ChaChaCudaCorrRng \<Rightarrow> u32 list \<Rightarrow> (ChaChaCudaCorrRng \<times> u32 list) result" where
  "fill_my_rng_into self buf =
     rbind (common_fill_rng_into chacha12 (chacha1 self) buf) (\<lambda>(c1, buf). Inr (self\<lparr>chacha1 := c1\<rparr>, buf))"

definition fill_their_rng_into :: "ChaChaCudaCorrRng \<Rightarrow> u32 list \<Rightarrow> (ChaChaCudaCorrRng \<times> u32 list) result" where
  "fill_their_rng_into self buf =
     rbind (common_fill_rng_into chacha12 (chacha2 self) buf) (\<lambda>(c2, buf). Inr (self\<lparr>chacha2 := c2\<rparr>, buf))"

definition advance_by_bytes :: "ChaChaCudaCorrRng \<Rightarrow> u64 \<Rightarrow> ChaChaCudaCorrRng result" where
  "advance_by_bytes self bytes =
     (if bytes mod 64 \<noteq> 0 then Inl (Panic ''bytes must be a multiple of 64'')
      else Inr \<lparr>chacha1 = advance_counter (chacha1 self) (bytes div 64),
                chacha2 = advance_counter (chacha2 self) (bytes div 64)\<rparr>)"


section \<open>The stream of a generator\<close>

text \<open>
  The words a generator will produce: word \<open>j\<close> counted from the current counter. They depend on the
  copy of the state on the device and on the counter only.
\<close>

definition block_at :: "u32 list \<Rightarrow> u64 \<Rightarrow> u32 list" where
  "block_at d_state c =
     (let original = d_state[12 := ucast c, 13 := ucast (drop_bit 32 c)]
      in map2 (+) ((double_round ^^ 6) original) original)"

definition stream_word :: "ChachaCommon \<Rightarrow> nat \<Rightarrow> u32" where
  "stream_word g j = block_at (state_gpu_buf g) (get_counter (chacha_ctx g) + of_nat (j div 16)) ! (j mod 16)"

definition stream :: "ChachaCommon \<Rightarrow> nat \<Rightarrow> u32 list" where
  "stream g n = map (stream_word g) [0..<n]"

definition wf_common :: "ChachaCommon \<Rightarrow> bool" where
  "wf_common g \<longleftrightarrow> length (state (chacha_ctx g)) = 16 \<and> length (state_gpu_buf g) = 16"

lemma length_stream [simp]: "length (stream g n) = n"
  by (simp add: stream_def)

lemma counter_overwrite [simp]: "xs[12 := a, 13 := b, 12 := c, 13 := d] = xs[12 := c, 13 := d]"
  by (metis list_update_overwrite list_update_swap numeral_eq_iff num.distinct semiring_norm(88))

lemma value_roundtrip:
  assumes "idx + 1 < length (state ctx)"
  shows "get_value (set_value ctx idx v) idx = v"
proof -
  have "(ucast (ucast v :: u32) :: u64) OR push_bit 32 (ucast (ucast (drop_bit 32 v) :: u32)) = v"
    by (rule bit_word_eqI) (auto simp: bit_or_iff bit_push_bit_iff bit_ucast_iff bit_drop_bit_eq)
  with assms show ?thesis by (simp add: get_value_def set_value_def)
qed

lemma set_counter_simps:
  assumes "length (state ctx) = 16"
  shows "get_counter (set_counter ctx c) = c" "length (state (set_counter ctx c)) = 16"
    "get_counter (set_nonce ctx c) = get_counter ctx" "length (state (set_nonce ctx c)) = 16"
  using assms value_roundtrip [of 12 ctx c]
  by (simp_all add: get_counter_def set_counter_def set_nonce_def set_value_def get_value_def)

lemma wf_advance [simp]: "wf_common g \<Longrightarrow> wf_common (advance_counter g n)"
  by (simp add: wf_common_def advance_counter_def set_counter_simps)

lemma counter_advance:
  "wf_common g \<Longrightarrow> get_counter (chacha_ctx (advance_counter g n)) = get_counter (chacha_ctx g) + n"
  by (simp add: wf_common_def advance_counter_def set_counter_simps)

lemma wf_common_init: "length seed = 8 \<Longrightarrow> wf_common (common_init seed)"
  by (simp add: wf_common_def common_init_def ctx_init_def Let_def set_counter_simps CHACONST_def)

text \<open>Advancing the counter moves along the stream; two fills in a row continue it.\<close>

lemma stream_word_advance:
  assumes "wf_common g"
  shows "stream_word (advance_counter g (of_nat n)) j = stream_word g (16 * n + j)"
proof -
  have "(16 * n + j) div 16 = n + j div 16" "(16 * n + j) mod 16 = j mod 16" by simp_all
  then show ?thesis using assms
    by (simp add: stream_word_def counter_advance add.assoc) (simp add: advance_counter_def)
qed

lemma stream_append:
  assumes "wf_common g"
  shows "stream g (16 * n + m) = stream g (16 * n) @ stream (advance_counter g (of_nat n)) m"
  by (rule nth_equalityI)
    (auto simp: stream_def nth_append stream_word_advance [OF assms])

lemma kernel_block:
  assumes "wf_common g"
  shows "chacha12_internal (state_gpu_buf g) (state (chacha_ctx g) ! 12) (state (chacha_ctx g) ! 13) i
    = block_at (state_gpu_buf g) (get_counter (chacha_ctx g) + of_nat i)"
  using assms by (simp add: chacha12_internal_def block_at_def get_counter_def get_value_def wf_common_def Let_def)

lemma chacha12_stream:
  assumes "wf_common g"
  shows "chacha12 (state_gpu_buf g) (state (chacha_ctx g) ! 12) (state (chacha_ctx g) ! 13) buf = stream g (length buf)"
    "chacha12_xor (state_gpu_buf g) (state (chacha_ctx g) ! 12) (state (chacha_ctx g) ! 13) buf
       = map2 (XOR) buf (stream g (length buf))"
  by (auto simp: chacha12_def chacha12_xor_def stream_def stream_word_def kernel_block [OF assms]
      intro!: nth_equalityI)

lemma fill_stream:
  assumes "wf_common g" "length buf = 16 * n"
  shows "common_fill_rng_into chacha12 g buf = Inr (advance_counter g (of_nat n), stream g (16 * n))"
    "common_fill_rng_into chacha12_xor g buf = Inr (advance_counter g (of_nat n), map2 (XOR) buf (stream g (16 * n)))"
  using assms by (simp_all add: common_fill_rng_into_def chacha12_stream)

lemma advance_advance:
  assumes "wf_common g"
  shows "advance_counter (advance_counter g a) b = advance_counter g (a + b)"
proof -
  have "get_counter (set_counter (chacha_ctx g) v) = v" for v
    using assms by (simp add: set_counter_simps wf_common_def)
  then show ?thesis
    by (simp add: advance_counter_def add.assoc) (simp add: set_counter_def set_value_def)
qed

text \<open>
  Filling is seamless: two buffers filled one after the other hold the same words, and leave the
  generator in the same state, as one buffer of the total length filled at once.
\<close>

theorem fill_continues:
  assumes "wf_common g" "length xs = 16 * n" "length ys = 16 * m"
  shows "\<exists>g1 g2 a b. common_fill_rng_into chacha12 g xs = Inr (g1, a) \<and> common_fill_rng_into chacha12 g1 ys = Inr (g2, b)
    \<and> common_fill_rng_into chacha12 g (xs @ ys) = Inr (g2, a @ b)"
proof -
  have "common_fill_rng_into chacha12 g (xs @ ys) = Inr (advance_counter g (of_nat (n + m)), stream g (16 * (n + m)))"
    using assms by (intro fill_stream) simp_all
  moreover have "stream g (16 * (n + m)) = stream g (16 * n) @ stream (advance_counter g (of_nat n)) (16 * m)"
    using stream_append [OF assms(1), of n "16 * m"] by (simp add: algebra_simps)
  ultimately show ?thesis using assms
    by (simp add: fill_stream(1) [OF assms(1,2)] fill_stream(1) [of "advance_counter g (of_nat n)" ys m] advance_advance)
qed

theorem fill_continues_witness:
  "\<exists>g1 g2 a b. common_fill_rng_into chacha12 (common_init (replicate 8 7)) (replicate 16 0) = Inr (g1, a)
    \<and> common_fill_rng_into chacha12 g1 (replicate 32 0) = Inr (g2, b)
    \<and> common_fill_rng_into chacha12 (common_init (replicate 8 7)) (replicate 16 0 @ replicate 32 0) = Inr (g2, a @ b)"
  by (rule fill_continues [of _ _ 1 _ 2]) (simp_all add: wf_common_init)

text \<open>
  Three parties fill correlated buffers again and again; \<open>corr_fills\<close> collects the buffers of one.
\<close>

fun corr_fills :: "ChaChaCudaCorrRng \<Rightarrow> u32 list list \<Rightarrow> u32 list list result" where
  "corr_fills rng [] = Inr []"
| "corr_fills rng (buf # bufs) =
     rbind (corr_fill_rng_into rng buf) (\<lambda>(rng, out).
     rbind (corr_fills rng bufs) (\<lambda>outs. Inr (out # outs)))"

definition wf_corr :: "ChaChaCudaCorrRng \<Rightarrow> bool" where
  "wf_corr r \<longleftrightarrow> wf_common (chacha1 r) \<and> wf_common (chacha2 r)"

definition corr_advance :: "nat \<Rightarrow> ChaChaCudaCorrRng \<Rightarrow> ChaChaCudaCorrRng" where
  "corr_advance n r = \<lparr>chacha1 = advance_counter (chacha1 r) (of_nat n), chacha2 = advance_counter (chacha2 r) (of_nat n)\<rparr>"

lemma corr_fill:
  assumes "wf_corr r" "length buf = 16 * n"
  shows "corr_fill_rng_into r buf
    = Inr (corr_advance n r, map2 (XOR) (stream (chacha1 r) (16 * n)) (stream (chacha2 r) (16 * n)))"
    "wf_corr (corr_advance n r)"
  using assms
  by (simp_all add: corr_fill_rng_into_def wf_corr_def corr_advance_def fill_stream)

lemma corr_fills_ok:
  assumes "wf_corr r" "\<forall>b \<in> set bufs. 16 dvd length b"
  shows "\<exists>outs. corr_fills r bufs = Inr outs \<and> map length outs = map length bufs"
  using assms
proof (induction bufs arbitrary: r)
  case (Cons b bufs)
  then obtain n where n: "length b = 16 * n" by (auto elim: dvdE)
  show ?case using Cons.IH [OF corr_fill(2) [OF Cons.prems(1) n]] Cons.prems(2)
    by (auto simp: corr_fill(1) [OF Cons.prems(1) n] n)
qed simp

lemma corr_fills_cancel:
  assumes "wf_corr r1" "wf_corr r2" "wf_corr r3"
    and "chacha2 r1 = chacha1 r2" "chacha2 r2 = chacha1 r3" "chacha2 r3 = chacha1 r1"
    and "map length b2 = map length b1" "map length b3 = map length b1" "\<forall>b \<in> set b1. 16 dvd length b"
    and "corr_fills r1 b1 = Inr o1" "corr_fills r2 b2 = Inr o2" "corr_fills r3 b3 = Inr o3"
    and "i < length o1" "j < length (o1 ! i)"
  shows "o1 ! i ! j XOR o2 ! i ! j XOR o3 ! i ! j = 0"
  using assms
proof (induction b1 arbitrary: r1 r2 r3 b2 b3 o1 o2 o3 i)
  case (Cons x1 b1)
  from Cons.prems(7,8) obtain x2 y2 x3 y3 where b: "b2 = x2 # y2" "b3 = x3 # y3" by (auto simp: map_eq_Cons_conv)
  from Cons.prems(9) obtain n where n: "length x1 = 16 * n" by (auto elim: dvdE)
  have len: "length x2 = 16 * n" "length x3 = 16 * n" using Cons.prems(7,8) n by (simp_all add: b)
  let ?out = "\<lambda>r. map2 (XOR) (stream (chacha1 r) (16 * n)) (stream (chacha2 r) (16 * n))"
  from Cons.prems(10-12) obtain t1 t2 t3 where t: "corr_fills (corr_advance n r1) b1 = Inr t1"
      "corr_fills (corr_advance n r2) y2 = Inr t2" "corr_fills (corr_advance n r3) y3 = Inr t3"
      and o: "o1 = ?out r1 # t1" "o2 = ?out r2 # t2" "o3 = ?out r3 # t3"
    by (auto simp: b corr_fill(1) [OF Cons.prems(1) n] corr_fill(1) [OF Cons.prems(2) len(1)]
        corr_fill(1) [OF Cons.prems(3) len(2)])
  show ?case
  proof (cases i)
    case 0
    then show ?thesis using Cons.prems(14) by (simp add: o Cons.prems(4-6) xor.assoc xor.left_commute)
  next
    case (Suc k)
    have "t1 ! k ! j XOR t2 ! k ! j XOR t3 ! k ! j = 0"
      using Cons.prems(4-9,13,14) Suc t
      by (intro Cons.IH [where ?r1.0 = "corr_advance n r1" and ?r2.0 = "corr_advance n r2"
            and ?r3.0 = "corr_advance n r3" and ?b2.0 = y2 and ?b3.0 = y3]
          corr_fill(2) [OF Cons.prems(1) n] corr_fill(2) [OF Cons.prems(2) len(1)] corr_fill(2) [OF Cons.prems(3) len(2)])
        (auto simp: b o corr_advance_def)
    then show ?thesis by (simp add: o Suc)
  qed
qed simp

text \<open>
  C23: The correlated generators of the three parties cancel. Party \<open>i\<close> holds the seeds \<open>s i\<close> and
  \<open>s (i + 1)\<close>. However often the parties fill buffers of equal lengths, multiples of the 16 words of a block as
  the code asserts, no fill fails, and the
  exclusive or of the three buffers of every round is zero in every word.
\<close>

theorem correlated_generators_cancel:
  assumes "length s1 = 8" "length s2 = 8" "length s3 = 8"
    and "map length b2 = map length b1" "map length b3 = map length b1" "\<forall>b \<in> set b1. 16 dvd length b"
  shows "\<exists>o1 o2 o3. corr_fills (corr_init s1 s2) b1 = Inr o1 \<and> corr_fills (corr_init s2 s3) b2 = Inr o2
    \<and> corr_fills (corr_init s3 s1) b3 = Inr o3 \<and> map length o1 = map length b1
    \<and> (\<forall>i < length b1. \<forall>j < length (b1 ! i). o1 ! i ! j XOR o2 ! i ! j XOR o3 ! i ! j = 0)"
proof -
  have wf: "wf_corr (corr_init a b)" if "length a = 8" "length b = 8" for a b
    using that by (simp add: wf_corr_def corr_init_def wf_common_init)
  have dvd: "\<forall>b \<in> set y. 16 dvd length b" if "map length y = map length b1" for y :: "u32 list list"
    using assms(6) that by (metis (no_types, lifting) in_set_conv_nth length_map nth_map)
  obtain o1 where o1: "corr_fills (corr_init s1 s2) b1 = Inr o1" "map length o1 = map length b1"
    using corr_fills_ok [OF wf assms(6)] assms(1-3) by blast
  obtain o2 where o2: "corr_fills (corr_init s2 s3) b2 = Inr o2"
    using corr_fills_ok [OF wf dvd [OF assms(4)]] assms(1-3) by blast
  obtain o3 where o3: "corr_fills (corr_init s3 s1) b3 = Inr o3"
    using corr_fills_ok [OF wf dvd [OF assms(5)]] assms(1-3) by blast
  have "o1 ! i ! j XOR o2 ! i ! j XOR o3 ! i ! j = 0" if "i < length b1" "j < length (b1 ! i)" for i j
  proof -
    have "i < length o1" "length (o1 ! i) = length (b1 ! i)"
      using o1(2) that(1) by (metis length_map, metis length_map nth_map)
    then show ?thesis using that assms
      by (intro corr_fills_cancel [OF wf wf wf _ _ _ assms(4-6) o1(1) o2 o3]) (auto simp: corr_init_def)
  qed
  with o1 o2 o3 show ?thesis by blast
qed

theorem correlated_generators_cancel_witness:
  "\<exists>o1 o2 o3. corr_fills (corr_init (replicate 8 1) (replicate 8 2)) [replicate 16 0, replicate 32 5] = Inr o1
    \<and> corr_fills (corr_init (replicate 8 2) (replicate 8 3)) [replicate 16 1, replicate 32 0] = Inr o2
    \<and> corr_fills (corr_init (replicate 8 3) (replicate 8 1)) [replicate 16 2, replicate 32 0] = Inr o3
    \<and> map length o1 = map length [replicate 16 (0 :: u32), replicate 32 5]
    \<and> (\<forall>i < length [replicate 16 (0 :: u32), replicate 32 5]. \<forall>j < length ([replicate 16 (0 :: u32), replicate 32 5] ! i).
         o1 ! i ! j XOR o2 ! i ! j XOR o3 ! i ! j = 0)"
  by (rule correlated_generators_cancel) simp_all

text \<open>
  The nonce is ignored. Setting it changes the state of the host only; the kernel reads the copy on
  the device, which was made before, so the generator produces the same words whatever the nonce.
\<close>

theorem nonce_has_no_effect:
  "(case fill_rng_into (get_mut_chacha (\<lambda>ctx. set_nonce ctx nonce) rng) buf of Inl e \<Rightarrow> Inl e | Inr (_, b) \<Rightarrow> Inr b)
    = (case fill_rng_into rng buf of Inl e \<Rightarrow> Inl e | Inr (_, b) \<Rightarrow> Inr b)"
  by (simp add: fill_rng_into_def get_mut_chacha_def common_fill_rng_into_def set_nonce_def set_value_def)

end
