(* ===== verification/ShareDb.thy ===== *)
theory ShareDb
  imports ChaCha GaloisEngine
begin

text \<open>
  The dot product engine of the GPU protocols (\<open>iris-mpc-gpu/src/dot/share_db.rs\<close> with its kernels in
  \<open>dot/kernel.cu\<close>): 16-bit shares are split into two signed 8-bit limbs, multiplied with the integer
  matrix product of cuBLAS, corrected, masked and exchanged. Device buffers are lists; a write outside
  a buffer is an error. What the code keeps in one vector per field, indexed by device, is a list
  of records here, one for every device. The matrix product \<open>gemm_ex\<close> is a parameter. Buffers of \<open>u16\<close>
  that the code also views as bytes are lists of \<open>u16\<close>.
\<close>

section \<open>Buffers\<close>

type_synonym i8 = "8 word"
type_synonym i32 = "32 word"

record 'a CudaVec2DSlicer =
  limb_0 :: "'a list list"
  limb_1 :: "'a list list"

record SlicedProcessedDatabase =
  code_gr :: "i8 CudaVec2DSlicer"
  code_sums_gr :: "u32 CudaVec2DSlicer"

definition copy_at :: "nat \<Rightarrow> 'a list \<Rightarrow> 'a list \<Rightarrow> 'a list result" where
  "copy_at off src dst =
     (if off + length src \<le> length dst then Inr (take off dst @ src @ drop (off + length src) dst)
      else Inl (Panic ''write out of bounds''))"

text \<open>A buffer of words viewed as half words, low half first.\<close>

definition words_u16 :: "u32 list \<Rightarrow> u16 list" where
  "words_u16 ws = concat (map (\<lambda>w. [ucast w, ucast (drop_bit 16 w)]) ws)"

definition LIMBS :: nat where
  "LIMBS = 2"

definition preprocess_query :: "u16 list \<Rightarrow> u8 list list" where
  "preprocess_query query =
     map (\<lambda>i. map (\<lambda>entry.
       let tmp = ucast (drop_bit (i * 8) (ucast entry :: u32)) :: u8
       in ucast ((ucast tmp :: i32) - 128)) query) [0..<LIMBS]"

text \<open>The matrix product: \<open>gemm_ex m n k alpha A B beta C\<close> is the new contents of \<open>C\<close>.\<close>

type_synonym gemm_ex = "nat \<Rightarrow> nat \<Rightarrow> nat \<Rightarrow> i32 \<Rightarrow> i8 list \<Rightarrow> i8 list \<Rightarrow> i32 \<Rightarrow> i32 list \<Rightarrow> i32 list"

definition gemm ::
    "gemm_ex \<Rightarrow> i8 list \<Rightarrow> i8 list \<Rightarrow> i32 list \<Rightarrow> nat \<Rightarrow> nat \<Rightarrow> nat \<Rightarrow> nat \<Rightarrow> nat \<Rightarrow> nat \<Rightarrow> i32 \<Rightarrow> i32 \<Rightarrow> i32 list result" where
  "gemm G a b c a_offset b_offset c_offset m n k alpha beta =
     (if m mod 4 \<noteq> 0 then Inl (Panic ''m must be a multiple of 4'')
      else Inr (take c_offset c @ G m n k alpha (drop a_offset a) (drop b_offset b) beta (drop c_offset c)))"

section \<open>The database\<close>

definition load_single_record ::
    "nat \<Rightarrow> i8 CudaVec2DSlicer \<Rightarrow> u16 list \<Rightarrow> nat \<Rightarrow> nat \<Rightarrow> i8 CudaVec2DSlicer result" where
  "load_single_record index db record n_shards code_length =
     (if length record \<noteq> code_length then Inl (Panic ''assertion failed: record.len() == code_length'')
      else if n_shards = 0 then Inl (Panic ''attempt to calculate the remainder with a divisor of zero'')
      else
        (let a0_host = map (\<lambda>x. ucast ((scast (ucast x :: i8) :: i32) - 128)) record;
             a1_host = map (\<lambda>x. ucast ((ucast (drop_bit 8 x) :: i32) - 128)) record;
             device_index = index mod n_shards;
             device_db_index = index div n_shards
         in rbind (vec_index (limb_0 db) device_index) (\<lambda>l0.
            rbind (copy_at (device_db_index * code_length) a0_host l0) (\<lambda>l0.
            rbind (vec_index (limb_1 db) device_index) (\<lambda>l1.
            rbind (copy_at (device_db_index * code_length) a1_host l1) (\<lambda>l1.
            Inr \<lparr>limb_0 = (limb_0 db)[device_index := l0], limb_1 = (limb_1 db)[device_index := l1]\<rparr>))))))"

definition row_sums :: "nat \<Rightarrow> nat \<Rightarrow> i8 list \<Rightarrow> u32 list" where
  "row_sums code_len n_rows limb =
     map (\<lambda>idx. sum_list (map (\<lambda>x. scast x) (take code_len (drop (idx * code_len) limb)))) [0..<n_rows]"

definition preprocess_db :: "nat \<Rightarrow> SlicedProcessedDatabase \<Rightarrow> nat list \<Rightarrow> SlicedProcessedDatabase result" where
  "preprocess_db code_len db db_lens =
     rbind (rmap (\<lambda>(limb, ss, n_rows). copy_at 0 (row_sums code_len n_rows limb) ss)
       (zip (limb_0 (code_gr db)) (zip (limb_0 (code_sums_gr db)) db_lens))) (\<lambda>s0.
     rbind (rmap (\<lambda>(limb, ss, n_rows). copy_at 0 (row_sums code_len n_rows limb) ss)
       (zip (limb_1 (code_gr db)) (zip (limb_1 (code_sums_gr db)) db_lens))) (\<lambda>s1.
     Inr (db\<lparr>code_sums_gr := \<lparr>limb_0 = s0, limb_1 = s1\<rparr>\<rparr>)))"

definition shard_lens :: "nat \<Rightarrow> nat \<Rightarrow> nat list" where
  "shard_lens n_entries n_shards =
     map (\<lambda>i. if i < n_entries mod n_shards then n_entries div n_shards + 1 else n_entries div n_shards) [0..<n_shards]"

definition load_full_db ::
    "nat \<Rightarrow> nat \<Rightarrow> SlicedProcessedDatabase \<Rightarrow> u16 list \<Rightarrow> (SlicedProcessedDatabase \<times> nat list) result" where
  "load_full_db code_length n_shards db db_entries =
     (if length db_entries mod code_length \<noteq> 0 then Inl (Panic ''assertion failed: db_entries.len() % self.code_length == 0'')
      else
        rbind (rfold (\<lambda>(idx, chunk) gr. load_single_record idx gr chunk n_shards code_length)
          (enumerate 0 (chunks code_length db_entries)) (code_gr db)) (\<lambda>gr.
        (let db_lens = shard_lens (length db_entries div code_length) n_shards
         in rbind (preprocess_db code_length (db\<lparr>code_gr := gr\<rparr>) db_lens) (\<lambda>db. Inr (db, db_lens)))))"

text \<open>
  Allocation: the host memory of a database is zeroed, the sums are not initialised and come from
  the parameter \<open>uninit\<close>.
\<close>

definition alloc_db :: "nat \<Rightarrow> nat \<Rightarrow> (nat \<Rightarrow> u32 list) \<Rightarrow> nat \<Rightarrow> SlicedProcessedDatabase" where
  "alloc_db code_length n_devices uninit max_db_length =
     (let max_size = max_db_length div n_devices;
          host_mem = replicate n_devices (replicate (max_size * code_length) 0)
      in \<lparr>code_gr = \<lparr>limb_0 = host_mem, limb_1 = host_mem\<rparr>,
          code_sums_gr = \<lparr>limb_0 = map (\<lambda>_. uninit max_size) [0..<n_devices],
                          limb_1 = map (\<lambda>_. uninit max_size) [0..<n_devices]\<rparr>\<rparr>)"

text \<open>The chunk buffers of every device; a chunk that does not lie in the database is not copied.\<close>

definition prefetch_limb :: "nat \<Rightarrow> nat list \<Rightarrow> nat list \<Rightarrow> nat list \<Rightarrow> i8 list list \<Rightarrow> i8 list list \<Rightarrow> i8 list list result" where
  "prefetch_limb code_length chunk_sizes offsets db_sizes db buffers =
     rmap (\<lambda>(limb, buf, chunk_size, off, db_size).
       if off \<ge> db_size \<or> off + chunk_size > db_size then Inr buf
       else copy_at 0 (take (chunk_size * code_length) (drop (off * code_length) limb)) buf)
     (zip db (zip buffers (zip chunk_sizes (zip offsets db_sizes))))"

definition prefetch_db_chunk ::
    "nat \<Rightarrow> SlicedProcessedDatabase \<Rightarrow> i8 CudaVec2DSlicer \<Rightarrow> nat list \<Rightarrow> nat list \<Rightarrow> nat list \<Rightarrow> i8 CudaVec2DSlicer result" where
  "prefetch_db_chunk code_length db buffers chunk_sizes offsets db_sizes =
     rbind (prefetch_limb code_length chunk_sizes offsets db_sizes (limb_0 (code_gr db)) (limb_0 buffers)) (\<lambda>l0.
     rbind (prefetch_limb code_length chunk_sizes offsets db_sizes (limb_1 (code_gr db)) (limb_1 buffers)) (\<lambda>l1.
     Inr \<lparr>limb_0 = l0, limb_1 = l1\<rparr>))"

text \<open>
  Transfer of a query (\<open>helpers/device_manager.rs\<close>): the device buffers have the size of a full batch, and
  what the query does not fill keeps the contents \<open>uninit\<close> of the allocation.
\<close>

definition ROTATIONS :: nat where
  "ROTATIONS = 31"

definition htod_transfer_query ::
    "(nat \<Rightarrow> nat \<Rightarrow> u8 list) \<Rightarrow> nat \<Rightarrow> u8 list list \<Rightarrow> nat \<Rightarrow> nat \<Rightarrow> u8 CudaVec2DSlicer result" where
  "htod_transfer_query uninit n_devices preprocessed_query batch_size code_size =
     (let query_size = batch_size * ROTATIONS * code_size
      in rbind (rmap (\<lambda>idx. rbind (vec_index preprocessed_query 0) (\<lambda>q. copy_at 0 q (uninit idx query_size))) [0..<n_devices]) (\<lambda>l0.
         rbind (rmap (\<lambda>idx. rbind (vec_index preprocessed_query 1) (\<lambda>q. copy_at 0 q (uninit idx query_size))) [0..<n_devices]) (\<lambda>l1.
         Inr \<lparr>limb_0 = l0, limb_1 = l1\<rparr>)))"

section \<open>The engine\<close>

record DeviceEngine =
  rngs :: "ChaChaCudaRng \<times> ChaChaCudaRng"
  ones :: "u8 list"
  intermediate_results :: "i32 list"
  results :: "u16 list"
  results_peer :: "u16 list"

record ShareDB =
  peer_id :: nat
  is_remote :: bool
  query_length :: nat
  code_length :: nat
  engines :: "DeviceEngine list"

text \<open>\<open>mem32\<close> and \<open>mem16\<close> give the contents of the allocations, which are not initialised.\<close>

definition init_device ::
    "(nat \<Rightarrow> i32 list) \<Rightarrow> (nat \<Rightarrow> u16 list) \<Rightarrow> nat \<Rightarrow> nat \<Rightarrow> nat \<Rightarrow> u32 list \<times> u32 list \<Rightarrow> nat \<Rightarrow> DeviceEngine result" where
  "init_device mem32 mem16 max_db_length q_length c_length chacha_seeds idx =
     (let results_len = (max_db_length * q_length + 63) div 64 * 64;
          rng_buf_size = (max_db_length * q_length * 2 + 63) div 64 * 64;
          (seed0, seed1) = chacha_seeds
      in rbind (rng_init rng_buf_size seed0) (\<lambda>chacha1.
         rbind (rng_init rng_buf_size seed1) (\<lambda>chacha2.
         Inr \<lparr>rngs = (get_mut_chacha (\<lambda>c. set_nonce c (of_nat idx)) chacha1,
                      get_mut_chacha (\<lambda>c. set_nonce c (of_nat idx)) chacha2),
              ones = replicate c_length 1, intermediate_results = mem32 results_len,
              results = mem16 results_len, results_peer = mem16 results_len\<rparr>)))"

definition share_db_init ::
    "(nat \<Rightarrow> i32 list) \<Rightarrow> (nat \<Rightarrow> u16 list) \<Rightarrow> nat \<Rightarrow> nat \<Rightarrow> nat \<Rightarrow> nat \<Rightarrow> nat \<Rightarrow> u32 list \<times> u32 list \<Rightarrow> bool \<Rightarrow> ShareDB result" where
  "share_db_init mem32 mem16 peer n_devices max_db_length q_length c_length chacha_seeds remote =
     rbind (rmap (init_device mem32 mem16 max_db_length q_length c_length chacha_seeds) [0..<n_devices]) (\<lambda>engs.
     Inr \<lparr>peer_id = peer, is_remote = remote, query_length = q_length, code_length = c_length, engines = engs\<rparr>)"

definition query_sums ::
    "gemm_ex \<Rightarrow> (nat \<Rightarrow> i32 list) \<Rightarrow> ShareDB \<Rightarrow> u8 CudaVec2DSlicer \<Rightarrow> u32 CudaVec2DSlicer result" where
  "query_sums G mem32 self query_ptrs =
     (let limb_sums = (\<lambda>(eng, query). gemm G query (ones eng) (mem32 (query_length self)) 0 0 0 (query_length self) 1 (code_length self) 1 0)
      in rbind (rmap limb_sums (zip (engines self) (limb_0 query_ptrs))) (\<lambda>s0.
         rbind (rmap limb_sums (zip (engines self) (limb_1 query_ptrs))) (\<lambda>s1.
         Inr \<lparr>limb_0 = s0, limb_1 = s1\<rparr>)))"

definition fill_masks :: "ShareDB \<Rightarrow> nat \<Rightarrow> ChaChaCudaRng \<times> ChaChaCudaRng \<Rightarrow> (ChaChaCudaRng \<times> ChaChaCudaRng) result" where
  "fill_masks self chunk_size rs =
     (if is_remote self
      then (let len = (chunk_size * query_length self + 63) div 64 * 64
            in rbind (fill_rng_no_host_copy (fst rs) len) (\<lambda>r0.
               rbind (fill_rng_no_host_copy (snd rs) len) (\<lambda>r1. Inr (r0, r1))))
      else Inr rs)"

definition dot_device ::
    "gemm_ex \<Rightarrow> ShareDB \<Rightarrow> nat \<Rightarrow> DeviceEngine \<Rightarrow> u8 list \<times> u8 list \<Rightarrow> i8 list \<times> i8 list \<Rightarrow> nat \<Rightarrow> DeviceEngine result" where
  "dot_device G self off eng queries db chunk_size =
     rbind (fill_masks self chunk_size (rngs eng)) (\<lambda>rs.
     rbind (rfold (\<lambda>((i, d), (j, q)) c.
         if i + j \<ge> LIMBS then Inr c
         else gemm G d q c (off * code_length self) 0 0 chunk_size (query_length self) (code_length self)
                (push_bit (8 * (i + j)) 1) (if i + j = 0 then 0 else 1))
       (List.product [(0, fst db), (1, snd db)] [(0, fst queries), (1, snd queries)]) (intermediate_results eng)) (\<lambda>c.
     Inr (eng\<lparr>rngs := rs, intermediate_results := c\<rparr>)))"

definition on_devices :: "ShareDB \<Rightarrow> (nat \<Rightarrow> DeviceEngine \<Rightarrow> DeviceEngine result) \<Rightarrow> ShareDB result" where
  "on_devices self f =
     rbind (rmap (\<lambda>(idx, eng). f idx eng) (enumerate 0 (engines self))) (\<lambda>engs. Inr (self\<lparr>engines := engs\<rparr>))"

definition dot ::
    "gemm_ex \<Rightarrow> ShareDB \<Rightarrow> u8 CudaVec2DSlicer \<Rightarrow> i8 CudaVec2DSlicer \<Rightarrow> nat list \<Rightarrow> nat \<Rightarrow> ShareDB result" where
  "dot G self queries db chunk_sizes off =
     on_devices self (\<lambda>idx eng.
       dot_device G self off eng (limb_0 queries ! idx, limb_1 queries ! idx) (limb_0 db ! idx, limb_1 db ! idx)
         (chunk_sizes ! idx))"

text \<open>The kernel: integer arithmetic modulo $2^{32}$, truncated to 16 bits.\<close>

definition matmul_correct_and_reduce ::
    "i32 list \<Rightarrow> u16 list \<Rightarrow> i32 list \<Rightarrow> i32 list \<Rightarrow> i32 list \<Rightarrow> i32 list \<Rightarrow> nat \<Rightarrow> nat \<Rightarrow> nat \<Rightarrow> u16 \<Rightarrow> u16 list \<Rightarrow> u16 list
       \<Rightarrow> u16 list" where
  "matmul_correct_and_reduce c out a0Sums a1Sums b0Sums b1Sums dbLength numElements off multiplier rngMasks0 rngMasks1 =
     map (\<lambda>idx.
       if idx < numElements
       then (let queryIdx = idx div dbLength;
                 dbIdx = idx mod dbLength;
                 s0 = a0Sums ! (off + dbIdx) + b0Sums ! queryIdx;
                 s1 = a1Sums ! (off + dbIdx) + b1Sums ! queryIdx;
                 r = ucast (c ! idx + push_bit 7 s0 + push_bit 15 (s0 + s1)) :: u16
             in r * multiplier + rngMasks0 ! idx - rngMasks1 ! idx)
       else out ! idx) [0..<length out]"

definition dot_reduce_and_multiply ::
    "ShareDB \<Rightarrow> u32 CudaVec2DSlicer \<Rightarrow> u32 CudaVec2DSlicer \<Rightarrow> nat list \<Rightarrow> nat \<Rightarrow> u16 \<Rightarrow> ShareDB result" where
  "dot_reduce_and_multiply self q_sums db_sums chunk_sizes off multiplier =
     on_devices self (\<lambda>idx eng.
       case (rng_chunk (fst (rngs eng)), rng_chunk (snd (rngs eng))) of
         (Some m0, Some m1) \<Rightarrow>
           Inr (eng\<lparr>results := matmul_correct_and_reduce (intermediate_results eng) (results eng)
             (limb_0 db_sums ! idx) (limb_1 db_sums ! idx) (limb_0 q_sums ! idx) (limb_1 q_sums ! idx)
             (chunk_sizes ! idx) (chunk_sizes ! idx * query_length self) off multiplier (words_u16 m0) (words_u16 m1)\<rparr>)
       | _ \<Rightarrow> Inl (Panic ''assertion failed''))"

definition dot_reduce :: "ShareDB \<Rightarrow> u32 CudaVec2DSlicer \<Rightarrow> u32 CudaVec2DSlicer \<Rightarrow> nat list \<Rightarrow> nat \<Rightarrow> ShareDB result" where
  "dot_reduce self q_sums db_sums chunk_sizes off = dot_reduce_and_multiply self q_sums db_sums chunk_sizes off 1"

section \<open>Exchange of the results\<close>

definition otp_encrypt_rng_result :: "nat \<Rightarrow> DeviceEngine \<Rightarrow> (DeviceEngine \<times> u16 list) result" where
  "otp_encrypt_rng_result len eng =
     (if len AND 3 \<noteq> 0 then Inl (Panic ''assertion failed'')
      else
        rbind (fill_rng_into (fst (rngs eng)) (replicate (drop_bit 2 len) 0)) (\<lambda>(r0, rand).
        Inr (eng\<lparr>rngs := (r0, snd (rngs eng))\<rparr>, map2 (XOR) (words_u16 rand) (results eng))))"

definition otp_decrypt_rng_result :: "nat \<Rightarrow> DeviceEngine \<Rightarrow> DeviceEngine result" where
  "otp_decrypt_rng_result len eng =
     (if len AND 3 \<noteq> 0 then Inl (Panic ''assertion failed'')
      else
        rbind (fill_rng_into (snd (rngs eng)) (replicate (drop_bit 2 len) 0)) (\<lambda>(r1, rand).
        Inr (eng\<lparr>rngs := (fst (rngs eng), r1),
                 results_peer := map2 (XOR) (results_peer eng) (words_u16 rand) @ drop (2 * length rand) (results_peer eng)\<rparr>)))"

text \<open>
  The exchange of one party: \<open>recv\<close> is what NCCL delivers from the previous party, for every device;
  the second component of the result is what it sends to the next one.
\<close>

definition reshare_results :: "ShareDB \<Rightarrow> nat list \<Rightarrow> u16 list list \<Rightarrow> (ShareDB \<times> u16 list list) result" where
  "reshare_results self db_sizes recv =
     rbind (rmap (\<lambda>(eng, db_size). otp_encrypt_rng_result (db_size * query_length self * 2) eng)
       (zip (engines self) db_sizes)) (\<lambda>encrypted.
     rbind (rmap (\<lambda>(eng, r, db_size).
         rbind (copy_at 0 r (results_peer eng)) (\<lambda>peer.
         otp_decrypt_rng_result (db_size * query_length self * 2) (eng\<lparr>results_peer := peer\<rparr>)))
       (zip (map fst encrypted) (zip recv db_sizes))) (\<lambda>engs.
     Inr (self\<lparr>engines := engs\<rparr>, map snd encrypted)))"

definition fetch_results :: "ShareDB \<Rightarrow> nat list \<Rightarrow> nat \<Rightarrow> u16 list" where
  "fetch_results self db_sizes device_id = take (db_sizes ! device_id * query_length self) (results (engines self ! device_id))"

text \<open>The two components of the shares of a chunk, for every device.\<close>

definition result_chunk_shares :: "ShareDB \<Rightarrow> nat list \<Rightarrow> (u16 list \<times> u16 list) list result" where
  "result_chunk_shares self db_sizes =
     rmap (\<lambda>(len, eng).
       if len * query_length self \<le> length (results eng) \<and> len * query_length self \<le> length (results_peer eng)
       then Inr (take (len * query_length self) (results eng), take (len * query_length self) (results_peer eng))
       else Inl (Panic ''len is correct''))
     (zip db_sizes (engines self))"

text \<open>The view of a buffer of 32-bit words as 16-bit words.\<close>

lemma length_words_u16 [simp]: "length (words_u16 ws) = 2 * length ws"
  by (induction ws) (simp_all add: words_u16_def)

lemma nth_words_u16: "x < 2 * length ws \<Longrightarrow>
    words_u16 ws ! x = (if even x then ucast (ws ! (x div 2)) else ucast (drop_bit 16 (ws ! (x div 2))))"
proof (induction ws arbitrary: x)
  case (Cons w ws)
  consider "x = 0" | "x = 1" | y where "x = Suc (Suc y)" by (metis One_nat_def not0_implies_Suc)
  then show ?case
  proof cases
    case 3
    with Cons have "words_u16 ws ! y = (if even y then ucast (ws ! (y div 2)) else ucast (drop_bit 16 (ws ! (y div 2))))"
      by simp
    with 3 show ?thesis by (simp add: words_u16_def)
  qed (simp_all add: words_u16_def)
qed simp

end
