(* ===== verification/ShareDbCorrect.thy ===== *)
theory ShareDbCorrect
  imports ShareDb Shares
begin

text \<open>
  Correctness of the dot product engine: the two-limb matrix product with its correction is the dot
  product modulo $2^{16}$ of the 16-bit shares, the masks of the three parties cancel, and the exchange
  leaves replicated shares of the plaintext dot product.
\<close>

section \<open>Limbs\<close>

definition lo8 :: "u16 \<Rightarrow> 8 word" where
  "lo8 x = ucast x + 128"

definition hi8 :: "u16 \<Rightarrow> 8 word" where
  "hi8 x = ucast (drop_bit 8 x) + 128"

lemma down_of_int: "(ucast (of_int z :: 32 word) :: 'a::len word) = of_int z" if "LENGTH('a) \<le> 32"
  using that by (simp add: unsigned_of_int word_of_int_eq_iff take_bit_take_bit min_def)

lemma down_add: "(ucast (a + b :: 32 word) :: 'a::len word) = ucast a + ucast b" if "LENGTH('a) \<le> 32"
  using down_of_int [OF that, of "uint a + uint b"] down_of_int [OF that, of "uint a"] down_of_int [OF that, of "uint b"]
  by (simp only: of_int_add word_of_int_uint)

lemma down_minus: "(ucast (a - b :: 32 word) :: 'a::len word) = ucast a - ucast b" if "LENGTH('a) \<le> 32"
  using down_of_int [OF that, of "uint a - uint b"] down_of_int [OF that, of "uint a"] down_of_int [OF that, of "uint b"]
  by (simp only: of_int_diff word_of_int_uint)

lemma down_mult: "(ucast (a * b :: 32 word) :: 'a::len word) = ucast a * ucast b" if "LENGTH('a) \<le> 32"
  using down_of_int [OF that, of "uint a * uint b"] down_of_int [OF that, of "uint a"] down_of_int [OF that, of "uint b"]
  by (simp only: of_int_mult word_of_int_uint)

lemma down_sum: "(ucast (\<Sum>i\<in>S. f i :: 32 word) :: 16 word) = (\<Sum>i\<in>S. ucast (f i))"
  by (induction S rule: infinite_finite_induct) (simp_all add: down_add)

lemma down_scast: "(ucast (scast (x :: 8 word) :: 32 word) :: 16 word) = scast x"
  by transfer (simp add: take_bit_signed_take_bit min_def)

lemma down_numeral: "(ucast (128 :: 32 word) :: 8 word) = 128" "(ucast (256 :: 32 word) :: 16 word) = 256"
  "(ucast (128 :: 32 word) :: 16 word) = 128" "(ucast (32768 :: 32 word) :: 16 word) = 32768"
  by simp_all

lemma byte_cast: "(ucast (scast (y :: 8 word) :: 32 word) :: 8 word) = y" "(ucast (ucast y :: 32 word) :: 8 word) = y"
  by (transfer, simp add: take_bit_signed_take_bit min_def)+

text \<open>Both ways of splitting a share, that of a query and that of a record, give the same limbs.\<close>

lemma limb_forms:
  "ucast ((scast (ucast x :: 8 word) :: 32 word) - 128) = lo8 x"
  "ucast ((ucast (drop_bit 8 x) :: 32 word) - 128) = hi8 x"
  "ucast ((ucast (ucast (drop_bit (0 * 8) (ucast x :: 32 word)) :: 8 word) :: 32 word) - 128) = lo8 x"
  "ucast ((ucast (ucast (drop_bit (1 * 8) (ucast x :: 32 word)) :: 8 word) :: 32 word) - 128) = hi8 x"
proof -
  have half: "y - 128 = y + 128" for y :: "8 word" by (simp add: diff_eq_eq add.assoc)
  have low: "(ucast (ucast x :: 32 word) :: 8 word) = ucast x" by (rule bit_word_eqI) (auto simp: bit_ucast_iff)
  have high: "(ucast (drop_bit 8 (ucast x :: 32 word)) :: 8 word) = ucast (drop_bit 8 x)"
    "(ucast (ucast (drop_bit 8 x) :: 32 word) :: 8 word) = ucast (drop_bit 8 x)"
    by (rule bit_word_eqI, auto simp: bit_ucast_iff bit_drop_bit_eq dest: bit_imp_le_length)+
  show "ucast ((scast (ucast x :: 8 word) :: 32 word) - 128) = lo8 x"
    "ucast ((ucast (drop_bit 8 x) :: 32 word) - 128) = hi8 x"
    "ucast ((ucast (ucast (drop_bit (0 * 8) (ucast x :: 32 word)) :: 8 word) :: 32 word) - 128) = lo8 x"
    "ucast ((ucast (ucast (drop_bit (1 * 8) (ucast x :: 32 word)) :: 8 word) :: 32 word) - 128) = hi8 x"
    by (simp_all add: down_minus down_numeral byte_cast low high half lo8_def hi8_def)
qed

lemma scast_offset: "(scast (t + 128 :: 8 word) :: 16 word) + 128 = ucast t"
proof -
  have u: "0 \<le> uint t" "uint t < 256" using uint_lt2p [of t] by simp_all
  have "t + 128 = of_int (uint t - 128)" by (simp add: of_int_uint)
  then have "sint (t + 128) = uint t - 128" using u sint_small [of "uint t - 128", where 'a = 8] by (simp only:) simp
  then have "(scast (t + 128) :: 16 word) = of_int (uint t - 128)" by (simp only: scast_eq)
  then show ?thesis by (simp only: ucast_eq of_int_diff) simp
qed

lemma limb_value: "(scast (lo8 x) + 128) + 256 * (scast (hi8 x) + 128) = x"
proof -
  have "(ucast (ucast x :: 8 word) :: 16 word) + push_bit 8 (ucast (ucast (drop_bit 8 x) :: 8 word)) = x"
  proof -
    have "(ucast (ucast x :: 8 word) :: 16 word) AND push_bit 8 (ucast (ucast (drop_bit 8 x) :: 8 word)) = 0"
      by (rule bit_word_eqI) (auto simp: bit_and_iff bit_push_bit_iff bit_ucast_iff)
    then have "(ucast (ucast x :: 8 word) :: 16 word) + push_bit 8 (ucast (ucast (drop_bit 8 x) :: 8 word))
        = ucast (ucast x :: 8 word) OR push_bit 8 (ucast (ucast (drop_bit 8 x) :: 8 word))"
      by (rule disjunctive_add_eq_or)
    also have "\<dots> = x"
      by (rule bit_word_eqI) (auto simp: bit_or_iff bit_push_bit_iff bit_ucast_iff bit_drop_bit_eq)
    finally show ?thesis .
  qed
  then show ?thesis by (simp add: lo8_def hi8_def scast_offset push_bit_eq_mult mult.commute)
qed

text \<open>
  The correction: with the products and sums of the signed limbs, the low 16 bits of the corrected
  product are those of the product of the shares. The length has to be a multiple of four.
\<close>

lemma limb_dot:
  fixes x y :: "nat \<Rightarrow> u16"
  assumes "4 dvd k"
  defines "x0 \<equiv> \<lambda>l. scast (lo8 (x l)) :: u16" and "x1 \<equiv> \<lambda>l. scast (hi8 (x l)) :: u16"
    and "y0 \<equiv> \<lambda>l. scast (lo8 (y l)) :: u16" and "y1 \<equiv> \<lambda>l. scast (hi8 (y l)) :: u16"
  shows "(\<Sum>l<k. x0 l * y0 l) + 256 * (\<Sum>l<k. x0 l * y1 l) + 256 * (\<Sum>l<k. x1 l * y0 l)
    + 128 * ((\<Sum>l<k. x0 l) + (\<Sum>l<k. y0 l))
    + 32768 * (((\<Sum>l<k. x0 l) + (\<Sum>l<k. y0 l)) + ((\<Sum>l<k. x1 l) + (\<Sum>l<k. y1 l)))
    = (\<Sum>l<k. x l * y l)"
proof -
  have big: "(65536 :: u16) = 0" by simp
  have "x l * y l = x0 l * y0 l + 256 * (x0 l * y1 l) + 256 * (x1 l * y0 l) + 128 * (x0 l + y0 l)
      + 32768 * ((x0 l + y0 l) + (x1 l + y1 l)) + 16384" for l
  proof -
    have "x l * y l = ((x0 l + 128) + 256 * (x1 l + 128)) * ((y0 l + 128) + 256 * (y1 l + 128))"
      by (simp only: x0_def x1_def y0_def y1_def limb_value)
    also have "\<dots> = x0 l * y0 l + 256 * (x0 l * y1 l) + 256 * (x1 l * y0 l) + 128 * (x0 l + y0 l)
      + 32768 * ((x0 l + y0 l) + (x1 l + y1 l)) + 16384
      + 65536 * (x1 l * y1 l + 128 * x1 l + 128 * y1 l + 128 + 128 * 128)"
      by (simp only: algebra_simps numeral_times_numeral numeral_plus_numeral) simp
    finally show ?thesis by (simp only: big) simp
  qed
  then have "(\<Sum>l<k. x l * y l) = (\<Sum>l<k. x0 l * y0 l + 256 * (x0 l * y1 l) + 256 * (x1 l * y0 l)
      + 128 * (x0 l + y0 l) + 32768 * ((x0 l + y0 l) + (x1 l + y1 l))) + (\<Sum>l<k. 16384)"
    by (simp add: sum.distrib)
  moreover have "(\<Sum>l<k. 16384 :: u16) = 0"
  proof -
    from assms(1) obtain n where "k = 4 * n" ..
    then have "(\<Sum>l<k. 16384 :: u16) = of_nat n * 65536" by simp
    also have "\<dots> = 0" by (simp only: big) simp
    finally show ?thesis .
  qed
  ultimately show ?thesis by (simp only: sum.distrib sum_distrib_left [symmetric] add_0_right)
qed

section \<open>One device\<close>

text \<open>What the engine relies on of the integer matrix product of cuBLAS, and a function that has it.\<close>

definition gemm_ok :: "gemm_ex \<Rightarrow> bool" where
  "gemm_ok G \<longleftrightarrow> (\<forall>m n k alpha a b beta c. m * k \<le> length a \<longrightarrow> n * k \<le> length b \<longrightarrow> m * n \<le> length c \<longrightarrow>
     length (G m n k alpha a b beta c) = length c \<and>
     (\<forall>i < m. \<forall>j < n. G m n k alpha a b beta c ! (j * m + i)
        = alpha * (\<Sum>l<k. scast (a ! (i * k + l)) * scast (b ! (j * k + l))) + beta * c ! (j * m + i)))"

definition gemm_ref :: gemm_ex where
  "gemm_ref m n k alpha a b beta c =
     map (\<lambda>x. alpha * (\<Sum>l<k. scast (a ! (x mod m * k + l)) * scast (b ! (x div m * k + l))) + beta * c ! x) [0..<length c]"

lemma pair_index: "i < m \<Longrightarrow> j < n \<Longrightarrow> j * m + i < m * n" for i m j n :: nat
proof -
  assume "i < m" "j < n"
  then have "j * m + i < Suc j * m" by simp
  moreover have "Suc j * m \<le> n * m" using \<open>j < n\<close> by (intro mult_le_mono1 Suc_leI)
  ultimately show ?thesis by (simp add: mult.commute)
qed

lemma gemm_ok_ref: "gemm_ok gemm_ref"
proof -
  have "j * m + i < length c" if "i < m" "j < n" "m * n \<le> length c" for i j m n :: nat and c :: "i32 list"
    using pair_index [OF that(1,2)] that(3) by simp
  then show ?thesis by (auto simp: gemm_ok_def gemm_ref_def)
qed

lemma gemm_okD:
  assumes "gemm_ok G" "m * k \<le> length a" "n * k \<le> length b" "m * n \<le> length c"
  shows "length (G m n k alpha a b beta c) = length c"
    "i < m \<Longrightarrow> j < n \<Longrightarrow> G m n k alpha a b beta c ! (j * m + i)
       = alpha * (\<Sum>l<k. scast (a ! (i * k + l)) * scast (b ! (j * k + l))) + beta * c ! (j * m + i)"
  using assms unfolding gemm_ok_def by blast+

text \<open>
  Limb buffers with room for \<open>n\<close> rows from row \<open>off\<close> on, of which the first \<open>r\<close> hold the rows \<open>X\<close>, and
  the sums of these rows; the remaining rows are padding with arbitrary contents.
\<close>

definition holds :: "nat \<Rightarrow> nat \<Rightarrow> nat \<Rightarrow> i8 list \<times> i8 list \<Rightarrow> nat \<Rightarrow> (nat \<Rightarrow> nat \<Rightarrow> u16) \<Rightarrow> bool" where
  "holds k n r ls off X \<longleftrightarrow> r \<le> n \<and> (off + n) * k \<le> length (fst ls) \<and> (off + n) * k \<le> length (snd ls) \<and>
     (\<forall>i < r. \<forall>l < k. fst ls ! ((off + i) * k + l) = lo8 (X i l) \<and> snd ls ! ((off + i) * k + l) = hi8 (X i l))"

definition sums_hold :: "nat \<Rightarrow> nat \<Rightarrow> u32 list \<times> u32 list \<Rightarrow> nat \<Rightarrow> (nat \<Rightarrow> nat \<Rightarrow> u16) \<Rightarrow> bool" where
  "sums_hold k n ss off X \<longleftrightarrow>
     (\<forall>i < n. fst ss ! (off + i) = (\<Sum>l<k. scast (lo8 (X i l))) \<and> snd ss ! (off + i) = (\<Sum>l<k. scast (hi8 (X i l))))"

lemma gemm_limbs:
  assumes "gemm_ok G" "4 dvd m" "(off + m) * k \<le> length a" "n * k \<le> length b" "m * n \<le> length c"
    and "\<forall>i < r. \<forall>l < k. a ! ((off + i) * k + l) = f i l" "\<forall>j < s. \<forall>l < k. b ! (j * k + l) = g j l" "r \<le> m" "s \<le> n"
  obtains c' where "gemm G a b c (off * k) 0 0 m n k alpha beta = Inr c'" "length c' = length c"
    "\<forall>i < r. \<forall>j < s. c' ! (j * m + i) = alpha * (\<Sum>l<k. scast (f i l) * scast (g j l)) + beta * c ! (j * m + i)"
proof
  let ?c = "G m n k alpha (drop (off * k) a) b beta c"
  have len: "m * k \<le> length (drop (off * k) a)" using assms(3) by (simp add: algebra_simps)
  show "gemm G a b c (off * k) 0 0 m n k alpha beta = Inr ?c" using assms(2) by (auto simp: gemm_def elim: dvdE)
  show "length ?c = length c" by (rule gemm_okD(1) [OF assms(1) len assms(4,5)])
  have "drop (off * k) a ! (i * k + l) = f i l" if "i < r" "l < k" for i l
  proof -
    have "i < m" using that assms(8) by simp
    have "l + i * k < m * k" using pair_index [OF that(2) \<open>i < m\<close>] by (simp add: ac_simps)
    then show ?thesis using assms(3,6) that by (simp add: algebra_simps)
  qed
  then show "\<forall>i < r. \<forall>j < s. ?c ! (j * m + i) = alpha * (\<Sum>l<k. scast (f i l) * scast (g j l)) + beta * c ! (j * m + i)"
    using gemm_okD(2) [OF assms(1) len assms(4,5)] assms(7-9) by simp
qed

lemma dot_device_ok:
  assumes G: "gemm_ok G" and m: "4 dvd m"
    and X: "holds (code_length self) m r db off X" and Y: "holds (code_length self) (query_length self) s queries 0 Y"
    and c: "m * query_length self \<le> length (intermediate_results eng)"
    and rs: "fill_masks self m (rngs eng) = Inr rs"
  obtains c' where "dot_device G self off eng queries db m = Inr (eng\<lparr>rngs := rs, intermediate_results := c'\<rparr>)"
    "length c' = length (intermediate_results eng)"
    "\<forall>i < r. \<forall>j < s. c' ! (j * m + i)
       = (\<Sum>l<code_length self. scast (lo8 (X i l)) * scast (lo8 (Y j l)))
         + 256 * (\<Sum>l<code_length self. scast (lo8 (X i l)) * scast (hi8 (Y j l)))
         + 256 * (\<Sum>l<code_length self. scast (hi8 (X i l)) * scast (lo8 (Y j l)))"
proof -
  let ?k = "code_length self" and ?n = "query_length self"
  obtain c1 where c1: "gemm G (fst db) (fst queries) (intermediate_results eng) (off * ?k) 0 0 m ?n ?k 1 0 = Inr c1"
      "length c1 = length (intermediate_results eng)"
      "\<forall>i < r. \<forall>j < s. c1 ! (j * m + i) = 1 * (\<Sum>l<?k. scast (lo8 (X i l)) * scast (lo8 (Y j l))) + 0 * intermediate_results eng ! (j * m + i)"
    using X Y by (auto simp: holds_def intro: gemm_limbs [OF G m _ _ c, of off ?k "fst db" "fst queries" r "\<lambda>i l. lo8 (X i l)" s "\<lambda>i l. lo8 (Y i l)" 1 0])
  obtain c2 where c2: "gemm G (fst db) (snd queries) c1 (off * ?k) 0 0 m ?n ?k 256 1 = Inr c2" "length c2 = length c1"
      "\<forall>i < r. \<forall>j < s. c2 ! (j * m + i) = 256 * (\<Sum>l<?k. scast (lo8 (X i l)) * scast (hi8 (Y j l))) + 1 * c1 ! (j * m + i)"
    using X Y c c1(2) by (auto simp: holds_def intro: gemm_limbs [OF G m, of off ?k "fst db" ?n "snd queries" c1 r "\<lambda>i l. lo8 (X i l)" s "\<lambda>i l. hi8 (Y i l)" 256 1])
  obtain c3 where c3: "gemm G (snd db) (fst queries) c2 (off * ?k) 0 0 m ?n ?k 256 1 = Inr c3" "length c3 = length c2"
      "\<forall>i < r. \<forall>j < s. c3 ! (j * m + i) = 256 * (\<Sum>l<?k. scast (hi8 (X i l)) * scast (lo8 (Y j l))) + 1 * c2 ! (j * m + i)"
    using X Y c c1(2) c2(2) by (auto simp: holds_def intro: gemm_limbs [OF G m, of off ?k "snd db" ?n "fst queries" c2 r "\<lambda>i l. hi8 (X i l)" s "\<lambda>i l. lo8 (Y i l)" 256 1])
  have alpha: "push_bit 8 (1 :: i32) = 256" by (simp add: push_bit_eq_mult)
  have "dot_device G self off eng queries db m = Inr (eng\<lparr>rngs := rs, intermediate_results := c3\<rparr>)"
    by (simp add: dot_device_def rs LIMBS_def alpha c1(1) c2(1) c3(1))
  then show ?thesis using that c1 c2 c3 by simp
qed

text \<open>The kernel on the products and sums of the limbs gives the masked product of the shares.\<close>

lemma kernel_result:
  assumes "4 dvd k" "m * n \<le> length out" "i < m" "j < n" "i < r" "j < s"
    and "c ! (j * m + i) = (\<Sum>l<k. scast (lo8 (X i l)) * scast (lo8 (Y j l)))
         + 256 * (\<Sum>l<k. scast (lo8 (X i l)) * scast (hi8 (Y j l)))
         + 256 * (\<Sum>l<k. scast (hi8 (X i l)) * scast (lo8 (Y j l)))"
    and "sums_hold k r db_s off X" "sums_hold k s q_s 0 Y"
  shows "matmul_correct_and_reduce c out (fst db_s) (snd db_s) (fst q_s) (snd q_s) m (m * n) off mult m0 m1 ! (j * m + i)
    = (\<Sum>l<k. X i l * Y j l) * mult + m0 ! (j * m + i) - m1 ! (j * m + i)"
proof -
  have idx: "j * m + i < m * n" "(j * m + i) div m = j" "(j * m + i) mod m = i"
    using pair_index [OF assms(3,4)] assms(3) by simp_all
  have shift: "push_bit 7 s = 128 * s" "push_bit 15 s = 32768 * s" for s :: i32
    by (simp_all add: push_bit_eq_mult mult.commute)
  let ?x0 = "\<Sum>l<k. scast (lo8 (X i l))" and ?x1 = "\<Sum>l<k. scast (hi8 (X i l))"
    and ?y0 = "\<Sum>l<k. scast (lo8 (Y j l))" and ?y1 = "\<Sum>l<k. scast (hi8 (Y j l))"
  have sums: "fst db_s ! (off + i) = ?x0" "snd db_s ! (off + i) = ?x1" "fst q_s ! j = ?y0" "snd q_s ! j = ?y1"
    using assms(5,6,8,9) by (simp_all add: sums_hold_def)
  have "ucast (c ! (j * m + i) + 128 * (?x0 + ?y0) + 32768 * ((?x0 + ?y0) + (?x1 + ?y1))) = (\<Sum>l<k. X i l * Y j l)"
    by (simp only: assms(7) down_add [where 'a = 16, simplified] down_mult [where 'a = 16, simplified] down_sum down_scast down_numeral)
      (rule limb_dot [OF assms(1)])
  note val = this
  have len: "j * m + i < length out" using idx(1) assms(2) by simp
  have nth: "map f [0..<length out] ! (j * m + i) = f (j * m + i)" for f :: "nat \<Rightarrow> u16"
    using len by simp
  show ?thesis
    by (simp only: matmul_correct_and_reduce_def nth Let_def idx if_True sums shift val)
qed

section \<open>All devices of three parties\<close>

lemma on_devices_ok:
  assumes "\<And>d. d < length (engines self) \<Longrightarrow> f d (engines self ! d) = Inr (g d)"
  shows "on_devices self f = Inr (self\<lparr>engines := map g [0..<length (engines self)]\<rparr>)"
proof -
  have "rmap (\<lambda>(idx, eng). f idx eng) (enumerate 0 (engines self))
      = Inr (map (\<lambda>(idx, eng). g idx) (enumerate 0 (engines self)))"
    using assms by (intro rmap_Inr) (auto simp: in_set_enumerate_eq)
  moreover have "map (\<lambda>(idx, eng). g idx) (enumerate 0 (engines self)) = map g [0..<length (engines self)]"
    by (rule nth_equalityI) (simp_all add: nth_enumerate_eq)
  ultimately show ?thesis by (simp add: on_devices_def)
qed

text \<open>An engine with room for \<open>N\<close> results, whose generators have chunks for as many masks.\<close>

definition rng_ok :: "nat \<Rightarrow> ChaChaCudaRng \<Rightarrow> bool" where
  "rng_ok N r \<longleftrightarrow> (case rng_chunk r of None \<Rightarrow> False | Some c \<Rightarrow> N \<le> 2 * length c) \<and> wf_common (chacha r)"

definition engine_ok :: "nat \<Rightarrow> DeviceEngine \<Rightarrow> bool" where
  "engine_ok N eng \<longleftrightarrow> rng_ok N (fst (rngs eng)) \<and> rng_ok N (snd (rngs eng)) \<and>
     N \<le> length (intermediate_results eng) \<and> N \<le> length (results eng) \<and> N \<le> length (results_peer eng)"

definition rng_filled :: "nat \<Rightarrow> ChaChaCudaRng \<Rightarrow> ChaChaCudaRng" where
  "rng_filled n r = r\<lparr>rng_chunk := Some (stream (chacha r) (16 * n) @ drop (16 * n) (the (rng_chunk r))),
     chacha := advance_counter (chacha r) (of_nat n)\<rparr>"

definition rng_advanced :: "nat \<Rightarrow> ChaChaCudaRng \<Rightarrow> ChaChaCudaRng" where
  "rng_advanced n r = r\<lparr>chacha := advance_counter (chacha r) (of_nat n)\<rparr>"

lemma rng_ok_filled: "rng_ok N r \<Longrightarrow> 64 * n \<le> N \<Longrightarrow> rng_ok N (rng_filled n r)"
  by (auto simp: rng_ok_def rng_filled_def split: option.splits)

lemma rng_ok_advanced: "rng_ok N r \<Longrightarrow> rng_ok N (rng_advanced n r)"
  by (simp add: rng_ok_def rng_advanced_def)

lemma fill_no_host:
  assumes "rng_ok N r" "64 * n \<le> N"
  shows "fill_rng_no_host_copy r (64 * n) = Inr (rng_filled n r)"
proof -
  obtain c where c: "rng_chunk r = Some c" "N \<le> 2 * length c" using assms(1) by (auto simp: rng_ok_def split: option.splits)
  then have "length (take (16 * n) c) = 16 * n" using assms(2) by simp
  with c assms show ?thesis
    by (simp add: fill_rng_no_host_copy_def fill_stream rng_ok_def rng_filled_def)
qed

lemma fill_into:
  assumes "rng_ok N r"
  shows "fill_rng_into r (replicate (16 * n) 0) = Inr (rng_advanced n r, stream (chacha r) (16 * n))"
  using assms by (simp add: fill_rng_into_def rng_ok_def fill_stream rng_advanced_def)

lemma fill_masks_ok:
  assumes "is_remote self" "rng_ok N (fst rs)" "rng_ok N (snd rs)" "m * query_length self = 64 * n" "64 * n \<le> N"
  shows "fill_masks self m rs = Inr (rng_filled n (fst rs), rng_filled n (snd rs))"
proof -
  have "(64 * n + 63) div 64 * 64 = 64 * n" by presburger
  then show ?thesis using assms(1)
    by (simp only: fill_masks_def assms(4) Let_def if_True fill_no_host [OF assms(2,5)] fill_no_host [OF assms(3,5)] rbind.simps)
qed

lemma otp_lengths: "(128 * c) AND 3 = (0 :: nat)" "drop_bit 2 (128 * c) = 16 * (2 * c)" for c :: nat
proof -
  have "(128 * c) AND 3 = take_bit 2 (128 * c)" by (simp add: take_bit_eq_mask mask_eq_exp_minus_1)
  also have "\<dots> = (128 * c) mod 4" by (simp add: take_bit_eq_mod)
  also have "\<dots> = 0" by presburger
  finally show "(128 * c) AND 3 = (0 :: nat)" .
  show "drop_bit 2 (128 * c) = 16 * (2 * c)" by (simp add: drop_bit_eq_div)
qed

lemma otp_encrypt_ok:
  assumes "rng_ok N (fst (rngs eng))"
  shows "otp_encrypt_rng_result (128 * c) eng = Inr (eng\<lparr>rngs := (rng_advanced (2 * c) (fst (rngs eng)), snd (rngs eng))\<rparr>,
    map2 (XOR) (words_u16 (stream (chacha (fst (rngs eng))) (32 * c))) (results eng))"
  using fill_into [OF assms, of "2 * c"] by (simp add: otp_encrypt_rng_result_def otp_lengths)

lemma otp_decrypt_ok:
  assumes "rng_ok N (snd (rngs eng))"
  shows "otp_decrypt_rng_result (128 * c) eng = Inr (eng\<lparr>rngs := (fst (rngs eng), rng_advanced (2 * c) (snd (rngs eng))),
    results_peer := map2 (XOR) (results_peer eng) (words_u16 (stream (chacha (snd (rngs eng))) (32 * c)))
      @ drop (64 * c) (results_peer eng)\<rparr>)"
  using fill_into [OF assms, of "2 * c"] by (simp add: otp_decrypt_rng_result_def otp_lengths)

text \<open>Encrypting and decrypting with the same stream delivers the results.\<close>

lemma otp_roundtrip:
  assumes "length pad = n" "n \<le> length xs" "n \<le> length ys" "x < n"
  shows "(map2 (XOR) (take 0 ys @ map2 (XOR) pad xs @ drop n ys) pad @ zs) ! x = xs ! x"
  using assms by (simp add: nth_append) (metis xor.assoc xor.commute xor.left_neutral xor_self_eq)

text \<open>The state of one device of one party after the exchange, given what it received.\<close>

definition exchanged :: "nat \<Rightarrow> DeviceEngine \<Rightarrow> u16 list \<Rightarrow> DeviceEngine" where
  "exchanged c eng r =
     eng\<lparr>rngs := (rng_advanced (2 * c) (fst (rngs eng)), rng_advanced (2 * c) (snd (rngs eng))),
         results_peer := map2 (XOR) (r @ drop (64 * c) (results_peer eng)) (words_u16 (stream (chacha (snd (rngs eng))) (32 * c)))
           @ drop (64 * c) (r @ drop (64 * c) (results_peer eng))\<rparr>"

definition sent :: "nat \<Rightarrow> DeviceEngine \<Rightarrow> u16 list" where
  "sent c eng = map2 (XOR) (words_u16 (stream (chacha (fst (rngs eng))) (32 * c))) (results eng)"

lemma length_sent: "64 * c \<le> length (results eng) \<Longrightarrow> length (sent c eng) = 64 * c"
  by (simp add: sent_def)

lemma reshare_results_ok:
  assumes "\<And>d. d < length (engines self) \<Longrightarrow> engine_ok (64 * c d) (engines self ! d)"
    and "\<And>d. d < length (engines self) \<Longrightarrow> sizes ! d * query_length self = 64 * c d"
    and "length sizes = length (engines self)" "length recv = length (engines self)"
    and "\<And>d. d < length (engines self) \<Longrightarrow> length (recv ! d) = 64 * c d"
  shows "reshare_results self sizes recv = Inr
    (self\<lparr>engines := map (\<lambda>d. exchanged (c d) (engines self ! d) (recv ! d)) [0..<length (engines self)]\<rparr>,
     map (\<lambda>d. sent (c d) (engines self ! d)) [0..<length (engines self)])"
proof -
  let ?n = "length (engines self)"
  let ?enc = "\<lambda>d. ((engines self ! d)\<lparr>rngs := (rng_advanced (2 * c d) (fst (rngs (engines self ! d))), snd (rngs (engines self ! d)))\<rparr>,
    sent (c d) (engines self ! d))"
  have z: "zip (engines self) sizes = map (\<lambda>d. (engines self ! d, sizes ! d)) [0..<?n]"
    using assms(3) by (intro nth_equalityI) simp_all
  have len: "sizes ! d * query_length self * 2 = 128 * c d" if "d < ?n" for d using assms(2) [OF that] by simp
  have enc: "rmap (\<lambda>(eng, db_size). otp_encrypt_rng_result (db_size * query_length self * 2) eng) (zip (engines self) sizes)
      = Inr (map ?enc [0..<?n])"
  proof -
    have "rmap (\<lambda>d. otp_encrypt_rng_result (sizes ! d * query_length self * 2) (engines self ! d)) [0..<?n] = Inr (map ?enc [0..<?n])"
      using assms(1) by (intro rmap_Inr) (auto simp: len sent_def engine_ok_def intro!: otp_encrypt_ok)
    then show ?thesis by (simp add: z rmap_map comp_def)
  qed
  have z2: "zip (map fst (map ?enc [0..<?n])) (zip recv sizes) = map (\<lambda>d. (fst (?enc d), recv ! d, sizes ! d)) [0..<?n]"
    using assms(3,4) by (intro nth_equalityI) simp_all
  have dec: "rbind (copy_at 0 (recv ! d) (results_peer (fst (?enc d)))) (\<lambda>peer.
        otp_decrypt_rng_result (sizes ! d * query_length self * 2) ((fst (?enc d))\<lparr>results_peer := peer\<rparr>))
      = Inr (exchanged (c d) (engines self ! d) (recv ! d))" if d: "d < ?n" for d
  proof -
    have ok: "engine_ok (64 * c d) (engines self ! d)" and r: "length (recv ! d) = 64 * c d" using assms(1,5) d by auto
    let ?peer = "recv ! d @ drop (64 * c d) (results_peer (engines self ! d))"
    have "copy_at 0 (recv ! d) (results_peer (fst (?enc d))) = Inr ?peer"
      using ok r by (simp add: copy_at_def engine_ok_def)
    moreover have "rng_ok (64 * c d) (snd (rngs ((fst (?enc d))\<lparr>results_peer := ?peer\<rparr>)))"
      using ok by (simp add: engine_ok_def)
    ultimately show ?thesis
      by (simp only: len [OF d] rbind.simps otp_decrypt_ok) (simp add: exchanged_def)
  qed
  have "rmap (\<lambda>(eng, r, db_size). rbind (copy_at 0 r (results_peer eng)) (\<lambda>peer.
        otp_decrypt_rng_result (db_size * query_length self * 2) (eng\<lparr>results_peer := peer\<rparr>)))
      (zip (map fst (map ?enc [0..<?n])) (zip recv sizes))
    = Inr (map (\<lambda>d. exchanged (c d) (engines self ! d) (recv ! d)) [0..<?n])"
    unfolding z2 rmap_map comp_def prod.case using dec by (intro rmap_Inr) auto
  then show ?thesis by (simp add: reshare_results_def enc)
qed

definition row_dot :: "nat \<Rightarrow> (nat \<Rightarrow> u16) \<Rightarrow> (nat \<Rightarrow> u16) \<Rightarrow> u16" where
  "row_dot k x y = (\<Sum>l<k. x l * y l)"

text \<open>The buffers of device \<open>d\<close>.\<close>

definition dev :: "nat \<Rightarrow> 'a CudaVec2DSlicer \<Rightarrow> 'a list \<times> 'a list" where
  "dev d s = (limb_0 s ! d, limb_1 s ! d)"

text \<open>An engine for chunks of the given sizes, with room for \<open>N\<close> results.\<close>

definition sizes_ok :: "nat \<Rightarrow> nat \<Rightarrow> nat \<Rightarrow> nat list \<Rightarrow> bool" where
  "sizes_ok nd nq N sizes \<longleftrightarrow> length sizes = nd \<and> (\<forall>d < nd. 4 dvd sizes ! d \<and> 64 dvd sizes ! d * nq \<and> sizes ! d * nq \<le> N)"

definition share_db_ok :: "nat \<Rightarrow> nat \<Rightarrow> nat \<Rightarrow> nat \<Rightarrow> ShareDB \<Rightarrow> bool" where
  "share_db_ok nd nq k N self \<longleftrightarrow> is_remote self \<and> query_length self = nq \<and> code_length self = k \<and>
     length (engines self) = nd \<and> (\<forall>d < nd. engine_ok N (engines self ! d))"

text \<open>Product and reduction at one party: the masks are what the two generators put into their chunks.\<close>

lemma dot_and_reduce:
  assumes G: "gemm_ok G" and k: "4 dvd k" and ok: "share_db_ok nd nq k N self" and sizes: "sizes_ok nd nq N sizes"
    and X: "\<And>d. d < nd \<Longrightarrow> holds k (sizes ! d) (rows ! d) (dev d db) off (X d) \<and> sums_hold k (rows ! d) (dev d db_sums) off' (X d)"
    and Y: "\<And>d. d < nd \<Longrightarrow> holds k nq rq (dev d qs) 0 Y \<and> sums_hold k rq (dev d q_sums) 0 Y"
  shows "\<exists>s1 s2. dot G self qs db sizes off = Inr s1 \<and> dot_reduce_and_multiply s1 q_sums db_sums sizes off' mult = Inr s2 \<and>
    share_db_ok nd nq k N s2 \<and>
    (\<forall>d < nd. rngs (engines s2 ! d) = (rng_filled (sizes ! d * nq div 64) (fst (rngs (engines self ! d))),
         rng_filled (sizes ! d * nq div 64) (snd (rngs (engines self ! d)))) \<and>
       (\<forall>i < rows ! d. \<forall>j < rq. results (engines s2 ! d) ! (j * sizes ! d + i)
         = row_dot k (X d i) (Y j) * mult
           + words_u16 (the (rng_chunk (rng_filled (sizes ! d * nq div 64) (fst (rngs (engines self ! d)))))) ! (j * sizes ! d + i)
           - words_u16 (the (rng_chunk (rng_filled (sizes ! d * nq div 64) (snd (rngs (engines self ! d)))))) ! (j * sizes ! d + i)))"
proof -
  let ?e = "\<lambda>d. engines self ! d" and ?c = "\<lambda>d. sizes ! d * nq div 64"
  let ?rs = "\<lambda>d. (rng_filled (?c d) (fst (rngs (?e d))), rng_filled (?c d) (snd (rngs (?e d))))"
  have self: "is_remote self" "query_length self = nq" "code_length self = k" "length (engines self) = nd"
    using ok by (simp_all add: share_db_ok_def)
  have sz: "4 dvd sizes ! d" "sizes ! d * nq = 64 * ?c d" "64 * ?c d \<le> N" if "d < nd" for d
    using sizes that by (auto simp: sizes_ok_def)
  have eng: "engine_ok N (?e d)" if "d < nd" for d using ok that by (simp add: share_db_ok_def)
  have "\<exists>c'. dot_device G self off (?e d) (dev d qs) (dev d db) (sizes ! d) = Inr ((?e d)\<lparr>rngs := ?rs d, intermediate_results := c'\<rparr>)
      \<and> length c' = length (intermediate_results (?e d))
      \<and> (\<forall>i < rows ! d. \<forall>j < rq. c' ! (j * sizes ! d + i)
           = (\<Sum>l<k. scast (lo8 (X d i l)) * scast (lo8 (Y j l)))
             + 256 * (\<Sum>l<k. scast (lo8 (X d i l)) * scast (hi8 (Y j l)))
             + 256 * (\<Sum>l<k. scast (hi8 (X d i l)) * scast (lo8 (Y j l))))" if d: "d < nd" for d
  proof -
    have fill: "fill_masks self (sizes ! d) (rngs (?e d)) = Inr (?rs d)"
      using fill_masks_ok [OF self(1), of N "rngs (?e d)" "sizes ! d" "?c d"] eng [OF d] sz [OF d]
      by (simp add: engine_ok_def self)
    have len: "sizes ! d * query_length self \<le> length (intermediate_results (?e d))"
      using eng [OF d] sz [OF d] by (simp add: engine_ok_def self)
    have "holds (code_length self) (sizes ! d) (rows ! d) (dev d db) off (X d)" "holds (code_length self) (query_length self) rq (dev d qs) 0 Y"
      using X [OF d] Y [OF d] by (simp_all add: self)
    from dot_device_ok [OF G sz(1) [OF d] this len fill] show ?thesis unfolding self by blast
  qed
  then have "\<forall>d. \<exists>c'. d < nd \<longrightarrow> dot_device G self off (?e d) (dev d qs) (dev d db) (sizes ! d)
          = Inr ((?e d)\<lparr>rngs := ?rs d, intermediate_results := c'\<rparr>)
      \<and> length c' = length (intermediate_results (?e d))
      \<and> (\<forall>i < rows ! d. \<forall>j < rq. c' ! (j * sizes ! d + i)
           = (\<Sum>l<k. scast (lo8 (X d i l)) * scast (lo8 (Y j l)))
             + 256 * (\<Sum>l<k. scast (lo8 (X d i l)) * scast (hi8 (Y j l)))
             + 256 * (\<Sum>l<k. scast (hi8 (X d i l)) * scast (lo8 (Y j l))))" by simp
  from choice [OF this] obtain cs where cs: "\<And>d. d < nd \<Longrightarrow>
        dot_device G self off (?e d) (dev d qs) (dev d db) (sizes ! d) = Inr ((?e d)\<lparr>rngs := ?rs d, intermediate_results := cs d\<rparr>)"
      "\<And>d. d < nd \<Longrightarrow> length (cs d) = length (intermediate_results (?e d))"
      "\<And>d i j. d < nd \<Longrightarrow> i < rows ! d \<Longrightarrow> j < rq \<Longrightarrow> cs d ! (j * sizes ! d + i)
           = (\<Sum>l<k. scast (lo8 (X d i l)) * scast (lo8 (Y j l)))
             + 256 * (\<Sum>l<k. scast (lo8 (X d i l)) * scast (hi8 (Y j l)))
             + 256 * (\<Sum>l<k. scast (hi8 (X d i l)) * scast (lo8 (Y j l)))"
    by blast
  let ?e1 = "\<lambda>d. (?e d)\<lparr>rngs := ?rs d, intermediate_results := cs d\<rparr>"
  let ?s1 = "self\<lparr>engines := map ?e1 [0..<nd]\<rparr>"
  have s1: "dot G self qs db sizes off = Inr ?s1"
    using on_devices_ok [of self _ ?e1] cs(1) by (simp add: dot_def dev_def self)
  let ?m0 = "\<lambda>d. words_u16 (the (rng_chunk (fst (?rs d))))" and ?m1 = "\<lambda>d. words_u16 (the (rng_chunk (snd (?rs d))))"
  let ?e2 = "\<lambda>d. (?e1 d)\<lparr>results := matmul_correct_and_reduce (cs d) (results (?e d)) (fst (dev d db_sums)) (snd (dev d db_sums))
      (fst (dev d q_sums)) (snd (dev d q_sums)) (sizes ! d) (sizes ! d * nq) off' mult (?m0 d) (?m1 d)\<rparr>"
  let ?s2 = "self\<lparr>engines := map ?e2 [0..<nd]\<rparr>"
  have s2: "dot_reduce_and_multiply ?s1 q_sums db_sums sizes off' mult = Inr ?s2"
    using on_devices_ok [of ?s1 _ ?e2] by (simp add: dot_reduce_and_multiply_def rng_filled_def dev_def self)
  have "share_db_ok nd nq k N ?s2"
    using eng sz(3) cs(2) by (simp add: share_db_ok_def self engine_ok_def rng_ok_filled matmul_correct_and_reduce_def)
  moreover have "results (?e2 d) ! (j * sizes ! d + i) = row_dot k (X d i) (Y j) * mult + ?m0 d ! (j * sizes ! d + i) - ?m1 d ! (j * sizes ! d + i)"
    if "d < nd" "i < rows ! d" "j < rq" for d i j
    using kernel_result [where X = "X d" and Y = Y and c = "cs d" and out = "results (?e d)" and db_s = "dev d db_sums"
        and off = off' and q_s = "dev d q_sums" and mult = mult and ?m0.0 = "?m0 d" and ?m1.0 = "?m1 d",
        OF k _ _ _ that(2,3) cs(3) [OF that]]
      X [OF that(1)] Y [OF that(1)] eng [OF that(1)] sz [OF that(1)]
      that by (simp add: row_dot_def engine_ok_def holds_def)
  ultimately show ?thesis
    by (intro exI [of _ ?s1] exI [of _ ?s2]) (simp add: s1 s2)
qed

text \<open>
  Three parties that are ready to compute: equal shapes, and the first generator of a party is the
  second one of the next party.
\<close>

definition parties_ready :: "nat \<Rightarrow> nat \<Rightarrow> nat \<Rightarrow> nat \<Rightarrow> (PartyID \<Rightarrow> ShareDB) \<Rightarrow> bool" where
  "parties_ready nd nq k N E \<longleftrightarrow> (\<forall>p. share_db_ok nd nq k N (E p)) \<and>
     (\<forall>p. \<forall>d < nd. snd (rngs (engines (E p) ! d)) = fst (rngs (engines (E (prev_id p)) ! d)))"

text \<open>The shares of query row \<open>j\<close> and database row \<open>i\<close> of a chunk of \<open>m\<close> rows on device \<open>d\<close>.\<close>

definition result_share :: "(PartyID \<Rightarrow> ShareDB) \<Rightarrow> nat \<Rightarrow> nat \<Rightarrow> nat \<Rightarrow> nat \<Rightarrow> PartyID \<Rightarrow> u16 Share" where
  "result_share E d m i j p =
     Share_new (results (engines (E p) ! d) ! (j * m + i)) (results_peer (engines (E p) ! d) ! (j * m + i))"

lemma engine_ok_exchanged:
  assumes "engine_ok N eng" "length r = 64 * c" "64 * c \<le> N"
  shows "engine_ok N (exchanged c eng r)"
  using assms by (auto simp: engine_ok_def exchanged_def rng_ok_advanced)

lemma exchange_delivers:
  assumes "engine_ok N eng" "engine_ok N eng'" "snd (rngs eng) = fst (rngs eng')" "64 * c \<le> N" "x < 64 * c"
  shows "results_peer (exchanged c eng (sent c eng')) ! x = results eng' ! x"
proof -
  let ?pad = "words_u16 (stream (chacha (fst (rngs eng'))) (32 * c))"
  have "length ?pad = 64 * c" "64 * c \<le> length (results eng')" "64 * c \<le> length (results_peer eng)"
    using assms(1,2,4) by (simp_all add: engine_ok_def)
  from otp_roundtrip [OF this assms(5)] show ?thesis by (simp add: exchanged_def sent_def assms(3))
qed

lemma prev_id_cases: "prev_id ID0 = ID2" "prev_id ID1 = ID0" "prev_id ID2 = ID1"
  by simp_all

lemma dot_products_shared:
  assumes G: "gemm_ok G" and k: "4 dvd k" and E: "parties_ready nd nq k N E" and sizes: "sizes_ok nd nq N sizes"
    and X: "\<forall>p. \<forall>d < nd. holds k (sizes ! d) (rows ! d) (dev d (db p)) off (X p d) \<and> sums_hold k (rows ! d) (dev d (db_sums p)) off' (X p d)"
    and Y: "\<forall>p. \<forall>d < nd. holds k nq rq (dev d (qs p)) 0 (Y p) \<and> sums_hold k rq (dev d (q_sums p)) 0 (Y p)"
  shows "\<exists>E1 E2 E3 send. (\<forall>p. dot G (E p) (qs p) (db p) sizes off = Inr (E1 p) \<and>
      dot_reduce_and_multiply (E1 p) (q_sums p) (db_sums p) sizes off' mult = Inr (E2 p) \<and>
      reshare_results (E2 p) sizes (send (prev_id p)) = Inr (E3 p, send p)) \<and>
    parties_ready nd nq k N E3 \<and>
    (\<forall>d < nd. \<forall>i < rows ! d. \<forall>j < rq. rep3 (result_share E3 d (sizes ! d) i j) \<and>
      open_add word_ring (result_share E3 d (sizes ! d) i j)
        = mult * (row_dot k (X ID0 d i) (Y ID0 j) + row_dot k (X ID1 d i) (Y ID1 j) + row_dot k (X ID2 d i) (Y ID2 j)))"
proof -
  let ?c = "\<lambda>d. sizes ! d * nq div 64"
  let ?r = "\<lambda>E p d. rngs (engines (E p) ! d)"
  have sz: "length sizes = nd" "\<And>d. d < nd \<Longrightarrow> sizes ! d * nq = 64 * ?c d" "\<And>d. d < nd \<Longrightarrow> 64 * ?c d \<le> N"
    using sizes by (auto simp: sizes_ok_def)
  have "\<forall>p. \<exists>s. dot G (E p) (qs p) (db p) sizes off = Inr (fst s) \<and>
    dot_reduce_and_multiply (fst s) (q_sums p) (db_sums p) sizes off' mult = Inr (snd s) \<and>
    share_db_ok nd nq k N (snd s) \<and>
    (\<forall>d < nd. rngs (engines (snd s) ! d) = (rng_filled (?c d) (fst (?r E p d)), rng_filled (?c d) (snd (?r E p d))) \<and>
       (\<forall>i < rows ! d. \<forall>j < rq. results (engines (snd s) ! d) ! (j * sizes ! d + i) = row_dot k (X p d i) (Y p j) * mult
           + words_u16 (the (rng_chunk (rng_filled (?c d) (fst (?r E p d))))) ! (j * sizes ! d + i)
           - words_u16 (the (rng_chunk (rng_filled (?c d) (snd (?r E p d))))) ! (j * sizes ! d + i)))"
  proof
    fix p
    have "share_db_ok nd nq k N (E p)" using E by (simp add: parties_ready_def)
    from dot_and_reduce [where X = "X p" and Y = "Y p" and db = "db p" and qs = "qs p" and db_sums = "db_sums p"
        and q_sums = "q_sums p" and off = off and off' = off' and mult = mult, OF G k this sizes] X Y
    show "\<exists>s. dot G (E p) (qs p) (db p) sizes off = Inr (fst s) \<and>
      dot_reduce_and_multiply (fst s) (q_sums p) (db_sums p) sizes off' mult = Inr (snd s) \<and>
      share_db_ok nd nq k N (snd s) \<and>
      (\<forall>d < nd. rngs (engines (snd s) ! d) = (rng_filled (?c d) (fst (?r E p d)), rng_filled (?c d) (snd (?r E p d))) \<and>
       (\<forall>i < rows ! d. \<forall>j < rq. results (engines (snd s) ! d) ! (j * sizes ! d + i) = row_dot k (X p d i) (Y p j) * mult
           + words_u16 (the (rng_chunk (rng_filled (?c d) (fst (?r E p d))))) ! (j * sizes ! d + i)
           - words_u16 (the (rng_chunk (rng_filled (?c d) (snd (?r E p d))))) ! (j * sizes ! d + i)))"
      by simp
  qed
  from choice [OF this] obtain S where S: "\<And>p. dot G (E p) (qs p) (db p) sizes off = Inr (fst (S p))"
    "\<And>p. dot_reduce_and_multiply (fst (S p)) (q_sums p) (db_sums p) sizes off' mult = Inr (snd (S p))"
    "\<And>p. share_db_ok nd nq k N (snd (S p))"
    "\<And>p d. d < nd \<Longrightarrow> rngs (engines (snd (S p)) ! d) = (rng_filled (?c d) (fst (?r E p d)), rng_filled (?c d) (snd (?r E p d)))"
    "\<And>p d i j. d < nd \<Longrightarrow> i < rows ! d \<Longrightarrow> j < rq \<Longrightarrow>
       results (engines (snd (S p)) ! d) ! (j * sizes ! d + i) = row_dot k (X p d i) (Y p j) * mult
           + words_u16 (the (rng_chunk (rng_filled (?c d) (fst (?r E p d))))) ! (j * sizes ! d + i)
           - words_u16 (the (rng_chunk (rng_filled (?c d) (snd (?r E p d))))) ! (j * sizes ! d + i)"
    by blast
  let ?E2 = "\<lambda>p. snd (S p)" and ?e = "\<lambda>p d. engines (snd (S p)) ! d"
  let ?send = "\<lambda>p. map (\<lambda>d. sent (?c d) (?e p d)) [0..<nd]"
  let ?E3 = "\<lambda>p. (?E2 p)\<lparr>engines := map (\<lambda>d. exchanged (?c d) (?e p d) (?send (prev_id p) ! d)) [0..<nd]\<rparr>"
  have e: "engine_ok N (?e p d)" if "d < nd" for p d using S(3) that by (simp add: share_db_ok_def)
  have E2: "query_length (?E2 p) = nq" "length (engines (?E2 p)) = nd" for p using S(3) [of p] by (simp_all add: share_db_ok_def)
  have sync: "snd (?r E p d) = fst (?r E (prev_id p) d)" if "d < nd" for p d using E that by (simp add: parties_ready_def)
  then have sync2: "snd (rngs (?e p d)) = fst (rngs (?e (prev_id p) d))" if "d < nd" for p d
    using that by (simp add: S(4))
  have len: "length (?send q ! d) = 64 * ?c d" if "d < nd" for q d
  proof -
    have "64 * ?c d \<le> length (results (?e q d))" using e [OF that, of q] sz(3) [OF that] by (simp add: engine_ok_def)
    from length_sent [OF this] that show ?thesis by simp
  qed
  have ok: "engine_ok (64 * ?c d) (?e p d)" if "d < nd" for p d
    using e [OF that, of p] sz(3) [OF that] by (auto simp: engine_ok_def rng_ok_def split: option.splits)
  have "reshare_results (?E2 p) sizes (?send (prev_id p)) = Inr (?E3 p, ?send p)" for p
    using reshare_results_ok [of "?E2 p" ?c sizes "?send (prev_id p)"] ok len sz(1,2) by (simp add: E2)
  moreover have "parties_ready nd nq k N ?E3"
  proof -
    have "share_db_ok nd nq k N (?E3 p)" for p
      using S(3) [of p] e len sz(3) by (simp add: share_db_ok_def engine_ok_exchanged)
    moreover have "snd (rngs (engines (?E3 p) ! d)) = fst (rngs (engines (?E3 (prev_id p)) ! d))" if "d < nd" for p d
      using that sync2 [OF that, of p] by (simp add: exchanged_def)
    ultimately show ?thesis by (simp add: parties_ready_def)
  qed
  moreover have "rep3 (result_share ?E3 d (sizes ! d) i j) \<and> open_add word_ring (result_share ?E3 d (sizes ! d) i j)
      = mult * (row_dot k (X ID0 d i) (Y ID0 j) + row_dot k (X ID1 d i) (Y ID1 j) + row_dot k (X ID2 d i) (Y ID2 j))"
    if d: "d < nd" and i: "i < rows ! d" and j: "j < rq" for d i j
  proof -
    let ?x = "j * sizes ! d + i"
    have "rows ! d \<le> sizes ! d" "rq \<le> nq" using X Y d by (simp_all add: holds_def)
    then have "i < sizes ! d" "j < nq" using i j by simp_all
    then have x: "?x < 64 * ?c d" using pair_index sz(2) [OF d] by metis
    have "results_peer (engines (?E3 p) ! d) ! ?x = results (?e (prev_id p) d) ! ?x" for p
      using exchange_delivers [OF e [OF d] e [OF d] sync2 [OF d] sz(3) [OF d] x] d by simp
    moreover have "results (engines (?E3 p) ! d) = results (?e p d)" for p using d by (simp add: exchanged_def)
    ultimately have sh: "result_share ?E3 d (sizes ! d) i j p
        = Share_new (results (?e p d) ! ?x) (results (?e (prev_id p) d) ! ?x)" for p
      by (simp only: result_share_def)
    let ?M = "\<lambda>p. words_u16 (the (rng_chunk (rng_filled (?c d) (fst (?r E p d))))) ! ?x"
    have "results (?e p d) ! ?x = row_dot k (X p d i) (Y p j) * mult + ?M p - ?M (prev_id p)" for p
      by (simp only: S(5) [OF d i j] sync [OF d])
    then have "open_add word_ring (result_share ?E3 d (sizes ! d) i j)
        = (row_dot k (X ID0 d i) (Y ID0 j) * mult + ?M ID0 - ?M ID2) + (row_dot k (X ID1 d i) (Y ID1 j) * mult + ?M ID1 - ?M ID0)
          + (row_dot k (X ID2 d i) (Y ID2 j) * mult + ?M ID2 - ?M ID1)"
      by (simp only: open_add_def sh Share_new_def Share.simps re_add_def word_ring_simps prev_id_cases)
    moreover have "rep3 (result_share ?E3 d (sizes ! d) i j)" by (simp only: rep3_def sh Share_new_def Share.simps) simp
    ultimately show ?thesis by (simp add: algebra_simps)
  qed
  ultimately show ?thesis using S(1,2) by (intro exI [of _ "\<lambda>p. fst (S p)"] exI [of _ ?E2] exI [of _ ?E3] exI [of _ ?send]) simp
qed

section \<open>Loading\<close>

lemma copy_at_ok:
  assumes "off + length src \<le> length dst"
  obtains dst' where "copy_at off src dst = Inr dst'" "length dst' = length dst"
    "\<And>x. x < length dst \<Longrightarrow> dst' ! x = (if off \<le> x \<and> x < off + length src then src ! (x - off) else dst ! x)"
  using assms by (intro that [of "take off dst @ src @ drop (off + length src) dst"])
    (auto simp: copy_at_def nth_append)

lemma row_index: "l < k \<Longrightarrow> (a * k + l) div k = a" "l < k \<Longrightarrow> (a * k + l) mod k = l" for a k l :: nat
  by simp_all

text \<open>Entry \<open>l\<close> of record \<open>r\<close>, which lives on device \<open>r mod n\<close>.\<close>

definition record_in :: "nat \<Rightarrow> nat \<Rightarrow> i8 CudaVec2DSlicer \<Rightarrow> nat \<Rightarrow> u16 list \<Rightarrow> bool" where
  "record_in n k db r row \<longleftrightarrow> (\<forall>l < k. limb_0 db ! (r mod n) ! (r div n * k + l) = lo8 (row ! l) \<and>
     limb_1 db ! (r mod n) ! (r div n * k + l) = hi8 (row ! l))"

definition db_shape :: "nat \<Rightarrow> nat \<Rightarrow> 'a CudaVec2DSlicer \<Rightarrow> bool" where
  "db_shape n len db \<longleftrightarrow> length (limb_0 db) = n \<and> length (limb_1 db) = n \<and>
     (\<forall>d < n. length (limb_0 db ! d) = len \<and> length (limb_1 db ! d) = len)"

lemma load_single_record_ok:
  assumes "0 < n" "db_shape n (cap * k) db" "length row = k" "r div n < cap"
  obtains db' where "load_single_record r db row n k = Inr db'" "db_shape n (cap * k) db'" "record_in n k db' r row"
    "\<And>r' row'. r' \<noteq> r \<Longrightarrow> r' div n < cap \<Longrightarrow> record_in n k db r' row' \<Longrightarrow> record_in n k db' r' row'"
proof -
  let ?d = "r mod n" and ?a = "r div n"
  have d: "?d < n" using assms(1) by simp
  have shape: "length (limb_0 db) = n" "length (limb_1 db) = n" "length (limb_0 db ! ?d) = cap * k" "length (limb_1 db ! ?d) = cap * k"
    using assms(2) d by (simp_all add: db_shape_def)
  have fits: "?a * k + k \<le> cap * k" using mult_le_mono1 [OF Suc_leI [OF assms(4)], of k] by simp
  obtain l0 where l0: "copy_at (?a * k) (map lo8 row) (limb_0 db ! ?d) = Inr l0" "length l0 = cap * k"
      "\<And>x. x < cap * k \<Longrightarrow> l0 ! x = (if ?a * k \<le> x \<and> x < ?a * k + k then map lo8 row ! (x - ?a * k) else limb_0 db ! ?d ! x)"
    using copy_at_ok [of "?a * k" "map lo8 row" "limb_0 db ! ?d"] fits assms(3) shape by auto
  obtain l1 where l1: "copy_at (?a * k) (map hi8 row) (limb_1 db ! ?d) = Inr l1" "length l1 = cap * k"
      "\<And>x. x < cap * k \<Longrightarrow> l1 ! x = (if ?a * k \<le> x \<and> x < ?a * k + k then map hi8 row ! (x - ?a * k) else limb_1 db ! ?d ! x)"
    using copy_at_ok [of "?a * k" "map hi8 row" "limb_1 db ! ?d"] fits assms(3) shape by auto
  let ?db = "\<lparr>limb_0 = (limb_0 db)[?d := l0], limb_1 = (limb_1 db)[?d := l1]\<rparr>"
  have "load_single_record r db row n k = Inr ?db"
    using assms(1,3) d by (simp add: load_single_record_def Let_def limb_forms vec_index_def shape l0(1) l1(1))
  moreover have "db_shape n (cap * k) ?db"
    using assms(2) d l0(2) l1(2) by (auto simp: db_shape_def nth_list_update)
  moreover have "record_in n k ?db r row"
    using fits d assms(3) by (simp add: record_in_def shape l0(3) l1(3))
  moreover have "record_in n k ?db r' row'" if r': "r' \<noteq> r" "r' div n < cap" "record_in n k db r' row'" for r' row'
  proof (cases "r' mod n = ?d")
    case True
    then have neq: "r' div n \<noteq> ?a" using r'(1) by (metis div_mod_decomp)
    have "r' div n * k + l < cap * k \<and> \<not> (?a * k \<le> r' div n * k + l \<and> r' div n * k + l < ?a * k + k)" if "l < k" for l
    proof -
      have "r' div n * k + l < cap * k" using pair_index [OF that r'(2)] by (simp add: mult.commute)
      moreover have False if lo: "?a * k \<le> r' div n * k + l" and hi: "r' div n * k + l < ?a * k + k"
      proof -
        obtain l' where l': "r' div n * k + l = ?a * k + l'" using le_Suc_ex [OF lo] by blast
        have "l' < k" using hi unfolding l' by simp
        with l' have "r' div n = ?a" using row_index(1) [of l k "r' div n"] row_index(1) [of l' k ?a] \<open>l < k\<close> by simp
        with neq show False by simp
      qed
      ultimately show ?thesis by blast
    qed
    then have "l0 ! (r' div n * k + l) = limb_0 db ! ?d ! (r' div n * k + l)"
        "l1 ! (r' div n * k + l) = limb_1 db ! ?d ! (r' div n * k + l)" if "l < k" for l
      using that l0(3) l1(3) by (metis (no_types, lifting))+
    then show ?thesis using r'(3) True d by (simp add: record_in_def shape)
  next
    case False
    then show ?thesis using r'(3) by (simp add: record_in_def)
  qed
  ultimately show ?thesis by (rule that)
qed

lemma load_records_ok:
  assumes "0 < n" "db_shape n (cap * k) db" "\<forall>row \<in> set rows. length row = k" "(s + length rows + n - 1) div n \<le> cap"
    and "\<And>r. r < s \<Longrightarrow> record_in n k db r (R r)" "\<And>r. s \<le> r \<Longrightarrow> r < s + length rows \<Longrightarrow> R r = rows ! (r - s)"
  shows "\<exists>db'. rfold (\<lambda>(idx, chunk) gr. load_single_record idx gr chunk n k) (enumerate s rows) db = Inr db' \<and>
    db_shape n (cap * k) db' \<and> (\<forall>r < s + length rows. record_in n k db' r (R r))"
  using assms
proof (induction rows arbitrary: s db)
  case (Cons row rows)
  have cap: "r div n < cap" if "r < s + length (row # rows)" for r
  proof -
    have "r + n \<le> s + length (row # rows) + n - 1" using that by simp
    then have "(r + n) div n \<le> (s + length (row # rows) + n - 1) div n" by (rule div_le_mono)
    then show ?thesis using Cons.prems(1,4) by simp
  qed
  obtain db1 where db1: "load_single_record s db row n k = Inr db1" "db_shape n (cap * k) db1" "record_in n k db1 s row"
      "\<And>r' row'. r' \<noteq> s \<Longrightarrow> r' div n < cap \<Longrightarrow> record_in n k db r' row' \<Longrightarrow> record_in n k db1 r' row'"
    using load_single_record_ok [OF Cons.prems(1,2), of row s] Cons.prems(3) cap by auto
  have "record_in n k db1 r (R r)" if "r < Suc s" for r
    using that db1(3,4) Cons.prems(5) Cons.prems(6) [of s] cap by (cases "r = s") auto
  moreover have "R r = rows ! (r - Suc s)" if "Suc s \<le> r" "r < Suc s + length rows" for r
    using Cons.prems(6) [of r] that by (simp add: nth_Cons' diff_Suc split: nat.splits)
  ultimately have "\<exists>db'. rfold (\<lambda>(idx, chunk) gr. load_single_record idx gr chunk n k) (enumerate (Suc s) rows) db1 = Inr db' \<and>
      db_shape n (cap * k) db' \<and> (\<forall>r < Suc s + length rows. record_in n k db' r (R r))"
    using Cons.prems(3,4) by (intro Cons.IH [OF Cons.prems(1) db1(2)]) auto
  then show ?case by (simp add: db1(1))
qed auto

lemma shard_lens_nth:
  assumes "d < n"
  shows "i < shard_lens R n ! d \<longleftrightarrow> i * n + d < R"
proof -
  let ?q = "R div n" and ?r = "R mod n"
  have R: "R = ?q * n + ?r" by simp
  have r: "?r < n" using assms by simp
  have le: "i * n + d < R \<longleftrightarrow> i \<le> ?q" if "d < ?r"
  proof
    assume "i * n + d < R"
    then have "i * n < ?q * n + n" using r R by linarith
    then have "i * n < Suc ?q * n" by simp
    then show "i \<le> ?q" by (simp only: mult_less_cancel2 less_Suc_eq_le)
  next
    assume "i \<le> ?q"
    then have "i * n \<le> ?q * n" by (rule mult_le_mono1)
    then show "i * n + d < R" using that R by linarith
  qed
  have less: "i * n + d < R \<longleftrightarrow> i < ?q" if "\<not> d < ?r"
  proof
    assume "i * n + d < R"
    then have "i * n < ?q * n" using that R by linarith
    then show "i < ?q" by simp
  next
    assume "i < ?q"
    then have "Suc i * n \<le> ?q * n" by (intro mult_le_mono1 Suc_leI)
    then have "i * n + n \<le> ?q * n" by simp
    then show "i * n + d < R" using assms R by linarith
  qed
  show ?thesis using assms le less by (auto simp: shard_lens_def)
qed

lemma sum_list_take_drop:
  fixes f :: "'a \<Rightarrow> 'b::comm_monoid_add"
  assumes "off + k \<le> length xs"
  shows "sum_list (map f (take k (drop off xs))) = (\<Sum>l<k. f (xs ! (off + l)))"
proof -
  have "map f (take k (drop off xs)) = map (\<lambda>l. f (xs ! (off + l))) [0..<k]"
    proof (rule nth_equalityI)
    have len: "length (take k (drop off xs)) = k" using assms by simp
    then show "length (map f (take k (drop off xs))) = length (map (\<lambda>l. f (xs ! (off + l))) [0..<k])" by simp
    fix i
    assume "i < length (map f (take k (drop off xs)))"
    then have "i < k" using len by simp
    then show "map f (take k (drop off xs)) ! i = map (\<lambda>l. f (xs ! (off + l))) [0..<k] ! i" using assms len by simp
  qed
  then show ?thesis by (simp add: interv_sum_list_conv_sum_set_nat atLeast0LessThan)
qed

lemma row_sums_nth:
  assumes "i < n" "(i + 1) * k \<le> length limb"
  shows "row_sums k n limb ! i = (\<Sum>l<k. scast (limb ! (i * k + l)))"
  using assms sum_list_take_drop [of "i * k" k limb "\<lambda>x. scast x :: u32"] by (simp add: row_sums_def)

lemma preprocess_sums:
  assumes "length limbs = n" "length bufs = n" "length lens = n" "\<And>d. d < n \<Longrightarrow> lens ! d \<le> length (bufs ! d)"
  shows "\<exists>s. rmap (\<lambda>(limb, ss, n_rows). copy_at 0 (row_sums k n_rows limb) ss) (zip limbs (zip bufs lens)) = Inr s \<and>
    (\<forall>d < n. \<forall>i < lens ! d. s ! d ! i = row_sums k (lens ! d) (limbs ! d) ! i) \<and>
    length s = n \<and> (\<forall>d < n. length (s ! d) = length (bufs ! d))"
proof -
  let ?s = "\<lambda>d. row_sums k (lens ! d) (limbs ! d) @ drop (lens ! d) (bufs ! d)"
  have z: "zip limbs (zip bufs lens) = map (\<lambda>d. (limbs ! d, bufs ! d, lens ! d)) [0..<n]"
    using assms(1-3) by (intro nth_equalityI) simp_all
  have len: "length (row_sums k m limb) = m" for m limb by (simp add: row_sums_def)
  have "rmap (\<lambda>d. copy_at 0 (row_sums k (lens ! d) (limbs ! d)) (bufs ! d)) [0..<n] = Inr (map ?s [0..<n])"
    using assms(4) by (intro rmap_Inr) (auto simp: copy_at_def len)
  then show ?thesis using assms(4) by (auto simp: z rmap_map nth_append len)
qed

text \<open>
  C13: Loading distributes the records over the devices. A database of records of the engine's length
  is loaded without an error whenever every device has room for its part; the sizes reported are
  the numbers of records with a given remainder, and on every device the limbs and the sums are those
  of the records \<open>i * n + d\<close>.
\<close>

theorem load_full_db_shards:
  assumes "0 < k" "0 < n" "db_shape n (cap * k) (code_gr db)" "db_shape n cap (code_sums_gr db)"
    and "\<forall>row \<in> set rows. length row = k" "(length rows + n - 1) div n \<le> cap"
  shows "\<exists>db'. load_full_db k n db (concat rows) = Inr (db', shard_lens (length rows) n) \<and>
    (\<forall>d < n. (\<forall>i. i < shard_lens (length rows) n ! d \<longleftrightarrow> i * n + d < length rows) \<and>
      holds k (shard_lens (length rows) n ! d) (shard_lens (length rows) n ! d) (dev d (code_gr db')) 0 (\<lambda>i l. rows ! (i * n + d) ! l) \<and>
      sums_hold k (shard_lens (length rows) n ! d) (dev d (code_sums_gr db')) 0 (\<lambda>i l. rows ! (i * n + d) ! l))"
proof -
  let ?lens = "shard_lens (length rows) n"
  have len: "length (concat rows) = length rows * k" using assms(5) by (induction rows) simp_all
  have "\<exists>db'. rfold (\<lambda>(idx, chunk) gr. load_single_record idx gr chunk n k) (enumerate 0 rows) (code_gr db) = Inr db' \<and>
      db_shape n (cap * k) db' \<and> (\<forall>r < 0 + length rows. record_in n k db' r (rows ! r))"
    using assms(5,6) by (intro load_records_ok [OF assms(2,3)]) auto
  then obtain gr where gr: "rfold (\<lambda>(idx, chunk) gr. load_single_record idx gr chunk n k) (enumerate 0 rows) (code_gr db) = Inr gr"
      "db_shape n (cap * k) gr" "\<And>r. r < length rows \<Longrightarrow> record_in n k gr r (rows ! r)" by auto
  have lens: "?lens ! d \<le> cap" if "d < n" for d
  proof (rule ccontr)
    assume "\<not> ?lens ! d \<le> cap"
    then have "cap * n + d < length rows" using shard_lens_nth [OF that, of cap "length rows"] by simp
    then have "cap * n + n \<le> length rows + n - 1" using that by simp
    then have "(cap * n + n) div n \<le> (length rows + n - 1) div n" by (rule div_le_mono)
    then show False using assms(2,6) by simp
  qed
  have n_lens: "length ?lens = n" by (simp add: shard_lens_def)
  obtain s0 where s0: "rmap (\<lambda>(limb, ss, n_rows). copy_at 0 (row_sums k n_rows limb) ss) (zip (limb_0 gr) (zip (limb_0 (code_sums_gr db)) ?lens)) = Inr s0"
      "\<And>d i. d < n \<Longrightarrow> i < ?lens ! d \<Longrightarrow> s0 ! d ! i = row_sums k (?lens ! d) (limb_0 gr ! d) ! i"
    using preprocess_sums [of "limb_0 gr" n "limb_0 (code_sums_gr db)" ?lens k] gr(2) assms(4) lens n_lens by (auto simp: db_shape_def)
  obtain s1 where s1: "rmap (\<lambda>(limb, ss, n_rows). copy_at 0 (row_sums k n_rows limb) ss) (zip (limb_1 gr) (zip (limb_1 (code_sums_gr db)) ?lens)) = Inr s1"
      "\<And>d i. d < n \<Longrightarrow> i < ?lens ! d \<Longrightarrow> s1 ! d ! i = row_sums k (?lens ! d) (limb_1 gr ! d) ! i"
    using preprocess_sums [of "limb_1 gr" n "limb_1 (code_sums_gr db)" ?lens k] gr(2) assms(4) lens n_lens by (auto simp: db_shape_def)
  let ?db = "db\<lparr>code_gr := gr, code_sums_gr := \<lparr>limb_0 = s0, limb_1 = s1\<rparr>\<rparr>"
  have load: "load_full_db k n db (concat rows) = Inr (?db, ?lens)"
    using assms(1,5) gr(1) s0(1) s1(1) by (simp add: load_full_db_def len chunks_concat preprocess_db_def Let_def)
  have rows: "limb_0 gr ! d ! (i * k + l) = lo8 (rows ! (i * n + d) ! l)" "limb_1 gr ! d ! (i * k + l) = hi8 (rows ! (i * n + d) ! l)"
    if "d < n" "i < ?lens ! d" "l < k" for d i l
    using gr(3) [of "i * n + d"] that shard_lens_nth [OF that(1)] by (simp_all add: record_in_def)
  have fits: "(i + 1) * k \<le> length (limb_0 gr ! d)" "(i + 1) * k \<le> length (limb_1 gr ! d)" if "d < n" "i < ?lens ! d" for d i
    using gr(2) that lens [OF that(1)] mult_le_mono1 [of "Suc i" cap k] by (simp_all add: db_shape_def)
  have "holds k (?lens ! d) (?lens ! d) (dev d gr) 0 (\<lambda>i l. rows ! (i * n + d) ! l)" if "d < n" for d
    using gr(2) rows that lens [OF that] by (simp add: holds_def dev_def db_shape_def)
  moreover have "sums_hold k (?lens ! d) (dev d \<lparr>limb_0 = s0, limb_1 = s1\<rparr>) 0 (\<lambda>i l. rows ! (i * n + d) ! l)" if "d < n" for d
    using that rows fits by (simp add: sums_hold_def dev_def s0(2) s1(2) row_sums_nth)
  ultimately show ?thesis using load shard_lens_nth by (intro exI [of _ ?db]) simp
qed

theorem load_full_db_shards_witness:
  "\<exists>db'. load_full_db 2 2 (alloc_db 2 2 (\<lambda>n. replicate n 7) 4) (concat [[1, 2], [300, 4], [5, 65535]])
      = Inr (db', shard_lens (length [[1, 2], [300, 4], [5, 65535 :: u16]]) 2) \<and>
    (\<forall>d < 2. (\<forall>i. i < shard_lens (length [[1, 2], [300, 4], [5, 65535 :: u16]]) 2 ! d \<longleftrightarrow> i * 2 + d < length [[1, 2], [300, 4], [5, 65535 :: u16]]) \<and>
      holds 2 (shard_lens (length [[1, 2], [300, 4], [5, 65535 :: u16]]) 2 ! d) (shard_lens (length [[1, 2], [300, 4], [5, 65535 :: u16]]) 2 ! d)
        (dev d (code_gr db')) 0 (\<lambda>i l. [[1, 2], [300, 4], [5, 65535]] ! (i * 2 + d) ! l) \<and>
      sums_hold 2 (shard_lens (length [[1, 2], [300, 4], [5, 65535 :: u16]]) 2 ! d) (dev d (code_sums_gr db')) 0
        (\<lambda>i l. [[1, 2], [300, 4], [5, 65535]] ! (i * 2 + d) ! l))"
  by (rule load_full_db_shards [of 2 2 2]) (simp_all add: db_shape_def alloc_db_def Let_def)

section \<open>Queries\<close>

lemma nth_concat_rows:
  assumes "\<forall>row \<in> set rows. length row = k" "i < length rows" "l < k"
  shows "concat rows ! (i * k + l) = rows ! i ! l"
proof -
  have "i * k + l < length rows * k" using pair_index [OF assms(3,2)] by (simp add: mult.commute)
  then show ?thesis using nth_concat_equal [of k rows "i * k + l"] assms by simp
qed

lemma length_concat_rows: "\<forall>row \<in> set rows. length row = k \<Longrightarrow> length (concat rows) = length rows * k"
  by (induction rows) simp_all

lemma preprocess_query_limbs: "preprocess_query q = [map lo8 q, map hi8 q]"
proof -
  have "[0..<LIMBS] = [0, 1]" by (simp add: LIMBS_def upt_rec)
  then show ?thesis by (simp only: preprocess_query_def list.map Let_def limb_forms)
qed

lemma transferred_query:
  assumes "\<And>d. d < n \<Longrightarrow> length (uninit d (batch_size * ROTATIONS * k)) = batch_size * ROTATIONS * k"
    and "\<forall>row \<in> set rows. length row = k" "length rows \<le> batch_size * ROTATIONS"
  shows "\<exists>q. htod_transfer_query uninit n (preprocess_query (concat rows)) batch_size k = Inr q \<and>
    length (limb_0 q) = n \<and> length (limb_1 q) = n \<and>
    (\<forall>d < n. holds k (batch_size * ROTATIONS) (length rows) (dev d q) 0 (\<lambda>i l. rows ! i ! l))"
proof -
  let ?size = "batch_size * ROTATIONS * k"
  let ?buf = "\<lambda>f d. map f (concat rows) @ drop (length rows * k) (uninit d ?size)"
  have len: "length (concat rows) = length rows * k" using assms(2) by (rule length_concat_rows)
  have le: "length rows * k \<le> ?size" using assms(3) by (rule mult_le_mono1)
  have copy: "rmap (\<lambda>idx. rbind (Inr (map f (concat rows))) (\<lambda>q. copy_at 0 q (uninit idx ?size))) [0..<n]
      = Inr (map (?buf f) [0..<n])" for f :: "u16 \<Rightarrow> u8"
    using assms(1) le by (intro rmap_Inr) (simp add: copy_at_def len)
  let ?q = "\<lparr>limb_0 = map (?buf lo8) [0..<n], limb_1 = map (?buf hi8) [0..<n]\<rparr>"
  have "htod_transfer_query uninit n (preprocess_query (concat rows)) batch_size k = Inr ?q"
    unfolding htod_transfer_query_def preprocess_query_limbs vec_index_def Let_def using copy by simp
  moreover have "?buf f d ! (i * k + l) = f (rows ! i ! l)" if "i < length rows" "l < k" for f :: "u16 \<Rightarrow> u8" and d i l
    using nth_concat_rows [OF assms(2) that] pair_index [OF that(2,1)] by (simp add: nth_append len mult.commute)
  then have "holds k (batch_size * ROTATIONS) (length rows) (dev d ?q) 0 (\<lambda>i l. rows ! i ! l)" if "d < n" for d
    using that assms(1) [OF that] assms(3) le by (simp add: holds_def dev_def len)
  ultimately show ?thesis by (intro exI [of _ ?q]) simp
qed

lemma summed_query:
  assumes "gemm_ok G" "share_db_ok nd nq k N self" "4 dvd nq" "length (mem32 nq) = nq"
    and "\<And>d. d < nd \<Longrightarrow> ones (engines self ! d) = replicate k 1"
    and "length (limb_0 q) = nd" "length (limb_1 q) = nd" "\<And>d. d < nd \<Longrightarrow> holds k nq r (dev d q) 0 Y"
  shows "\<exists>s. query_sums G mem32 self q = Inr s \<and> (\<forall>d < nd. sums_hold k r (dev d s) 0 Y)"
proof -
  have self: "query_length self = nq" "code_length self = k" "length (engines self) = nd"
    using assms(2) by (simp_all add: share_db_ok_def)
  have one: "scast (1 :: 8 word) = (1 :: 32 word)" by simp
  have sums: "\<exists>c. gemm G limb (ones (engines self ! d)) (mem32 nq) 0 0 0 nq 1 k 1 0 = Inr c \<and>
      (\<forall>i < r. c ! i = (\<Sum>l<k. scast (f i l)))"
    if d: "d < nd" and limb: "nq * k \<le> length limb" "\<forall>i < r. \<forall>l < k. limb ! (i * k + l) = f i l" "r \<le> nq" for d limb f
  proof -
    obtain c where c: "gemm G limb (replicate k 1) (mem32 nq) (0 * k) 0 0 nq 1 k 1 0 = Inr c"
        "\<forall>i < r. \<forall>j < 1. c ! (j * nq + i) = 1 * (\<Sum>l<k. scast (f i l) * scast ((\<lambda>_ _. 1) j l :: 8 word)) + 0 * mem32 nq ! (j * nq + i)"
      using gemm_limbs [OF assms(1,3), of 0 k limb 1 "replicate k 1" "mem32 nq" r f 1 "\<lambda>_ _. 1" 1 0] limb assms(4) by auto
    then show ?thesis using assms(5) [OF d] by (simp add: one)
  qed
  have z: "zip (engines self) xs = map (\<lambda>d. (engines self ! d, xs ! d)) [0..<nd]" if "length xs = nd" for xs :: "u8 list list"
    using that self(3) by (intro nth_equalityI) simp_all
  have run: "\<exists>cs. rmap (\<lambda>(eng, query). gemm G query (ones eng) (mem32 nq) 0 0 0 nq 1 k 1 0) (zip (engines self) xs) = Inr cs \<and>
      (\<forall>d < nd. \<forall>i < r. cs ! d ! i = (\<Sum>l<k. scast (f i l)))"
    if "length xs = nd" "\<And>d. d < nd \<Longrightarrow> nq * k \<le> length (xs ! d) \<and> (\<forall>i < r. \<forall>l < k. xs ! d ! (i * k + l) = f i l) \<and> r \<le> nq"
    for xs :: "u8 list list" and f
  proof -
    have "\<forall>d. \<exists>c. d < nd \<longrightarrow> gemm G (xs ! d) (ones (engines self ! d)) (mem32 nq) 0 0 0 nq 1 k 1 0 = Inr c \<and>
        (\<forall>i < r. c ! i = (\<Sum>l<k. scast (f i l)))" using sums that(2) by blast
    from choice [OF this] obtain C where C: "\<And>d. d < nd \<Longrightarrow> gemm G (xs ! d) (ones (engines self ! d)) (mem32 nq) 0 0 0 nq 1 k 1 0 = Inr (C d)"
        "\<And>d i. d < nd \<Longrightarrow> i < r \<Longrightarrow> C d ! i = (\<Sum>l<k. scast (f i l))" by blast
    have "rmap (\<lambda>d. gemm G (xs ! d) (ones (engines self ! d)) (mem32 nq) 0 0 0 nq 1 k 1 0) [0..<nd] = Inr (map C [0..<nd])"
      using C(1) by (intro rmap_Inr) simp
    then show ?thesis using C(2) by (simp add: z [OF that(1)] rmap_map)
  qed
  obtain s0 where s0: "rmap (\<lambda>(eng, query). gemm G query (ones eng) (mem32 nq) 0 0 0 nq 1 k 1 0) (zip (engines self) (limb_0 q)) = Inr s0"
      "\<forall>d < nd. \<forall>i < r. s0 ! d ! i = (\<Sum>l<k. scast (lo8 (Y i l)))"
    using run [of "limb_0 q" "\<lambda>i l. lo8 (Y i l)"] assms(6,8) by (auto simp: holds_def dev_def)
  obtain s1 where s1: "rmap (\<lambda>(eng, query). gemm G query (ones eng) (mem32 nq) 0 0 0 nq 1 k 1 0) (zip (engines self) (limb_1 q)) = Inr s1"
      "\<forall>d < nd. \<forall>i < r. s1 ! d ! i = (\<Sum>l<k. scast (hi8 (Y i l)))"
    using run [of "limb_1 q" "\<lambda>i l. hi8 (Y i l)"] assms(7,8) by (auto simp: holds_def dev_def)
  have "query_sums G mem32 self q = Inr \<lparr>limb_0 = s0, limb_1 = s1\<rparr>"
    using s0(1) s1(1) by (simp add: query_sums_def self Let_def)
  then show ?thesis using s0(2) s1(2) by (simp add: sums_hold_def dev_def)
qed

section \<open>Irises\<close>

text \<open>The rows of party \<open>p\<close>: the coefficients of a stored code share and of a preprocessed query share.\<close>

definition code_row :: "FullGaloisRingIrisCodeShare list \<Rightarrow> PartyID \<Rightarrow> nat \<Rightarrow> u16" where
  "code_row xs p l = gi_coefs (full_code (xs ! usize_from_party p)) ! l"

definition query_row :: "GaloisRingIrisCodeShare list \<Rightarrow> PartyID \<Rightarrow> nat \<Rightarrow> u16" where
  "query_row cs p l = gi_coefs (cs ! usize_from_party p) ! l"

definition iris_shares :: "('g \<Rightarrow> u16 \<times> 'g) \<Rightarrow> IrisCode \<Rightarrow> FullGaloisRingIrisCodeShare list \<Rightarrow> bool" where
  "iris_shares gen x xs \<longleftrightarrow> wf_iris x \<and> (\<exists>g g'. full_encode_iris_code gen x g = Inr (xs, g'))"

definition query_shares :: "('g \<Rightarrow> u16 \<times> 'g) \<Rightarrow> IrisCode \<Rightarrow> GaloisRingIrisCodeShare list \<Rightarrow> bool" where
  "query_shares gen y cs \<longleftrightarrow> (\<exists>ys. iris_shares gen y ys \<and> rmap preprocess_iris_code_query_share (map full_code ys) = Inr cs)"

lemma iris_sharesD:
  assumes "iris_shares gen x xs"
  shows "length xs = 3" "map gi_id (map full_code xs) = [1, 2, 3]"
    "sharing 3200 (map gi_coefs (map full_code xs)) (\<lambda>b. to_monomial (element_at (code_value x) b))"
proof -
  from assms obtain g g' where w: "wf_iris x" and e: "full_encode_iris_code gen x g = Inr (xs, g')" by (auto simp: iris_shares_def)
  obtain shares g'' where "full_encode_iris_code gen x g = Inr (shares, g'')" "length shares = 3"
      "map (gi_id \<circ> full_code) shares = [1, 2, 3]"
      "sharing 3200 (map (gi_coefs \<circ> full_code) shares) (\<lambda>b. to_monomial (element_at (code_value x) b))"
    using full_encode_sharing [OF w] by metis
  with e show "length xs = 3" "map gi_id (map full_code xs) = [1, 2, 3]"
    "sharing 3200 (map gi_coefs (map full_code xs)) (\<lambda>b. to_monomial (element_at (code_value x) b))" by simp_all
qed

lemma row_dot_irises:
  assumes "iris_shares gen x xs" "query_shares gen y cs"
  shows "row_dot IRIS_CODE_LENGTH (code_row xs ID0) (query_row cs ID0) + row_dot IRIS_CODE_LENGTH (code_row xs ID1) (query_row cs ID1)
      + row_dot IRIS_CODE_LENGTH (code_row xs ID2) (query_row cs ID2)
    = of_int (int (card (common_mask x y)) - 2 * int (card (differing x y)))"
proof -
  obtain ys where ys: "iris_shares gen y ys" "rmap preprocess_iris_code_query_share (map full_code ys) = Inr cs"
    using assms(2) by (auto simp: query_shares_def)
  obtain ps where ps: "rmap preprocess_iris_code_query_share (map full_code ys) = Inr ps"
      "trick_dot (map full_code xs ! 0) (ps ! 0) + trick_dot (map full_code xs ! 1) (ps ! 1) + trick_dot (map full_code xs ! 2) (ps ! 2)
       = of_int (int (card (common_mask x y)) - 2 * int (card (differing x y)))"
    using code_dot_shares [OF iris_sharesD(3) [OF assms(1)] iris_sharesD(3) [OF ys(1)] iris_sharesD(2) [OF ys(1)]] by metis
  have "row_dot IRIS_CODE_LENGTH (code_row xs p) (query_row cs p)
      = trick_dot (map full_code xs ! usize_from_party p) (ps ! usize_from_party p)" for p
    using iris_sharesD(1) [OF assms(1)] ps(1) ys(2) usize_from_party_less [of p]
    by (simp add: row_dot_def code_row_def query_row_def trick_dot_def dot_loop_sum)
  from this [of ID0] this [of ID1] this [of ID2] ps(2) show ?thesis by simp
qed

text \<open>
  C9: Phase one of the GPU protocol. Three parties hold limbs and sums of the code shares of stored
  irises, padded to chunks, and of preprocessed query shares. Product, reduction and exchange succeed at
  all parties, leave them ready for the next chunk, and every result is a replicated sharing of the
  plaintext dot product of the two iris codes modulo $2^{16}$.
\<close>

theorem gpu_iris_dot_products:
  assumes "gemm_ok G" "parties_ready nd nq IRIS_CODE_LENGTH N E" "sizes_ok nd nq N sizes"
    and "\<forall>d < nd. \<forall>i < rows ! d. iris_shares gen (x d i) (xs d i)" "\<forall>j < rq. query_shares gen (y j) (cs j)"
    and "\<forall>p. \<forall>d < nd. holds IRIS_CODE_LENGTH (sizes ! d) (rows ! d) (dev d (db p)) off (\<lambda>i. code_row (xs d i) p) \<and>
      sums_hold IRIS_CODE_LENGTH (rows ! d) (dev d (db_sums p)) off' (\<lambda>i. code_row (xs d i) p)"
    and "\<forall>p. \<forall>d < nd. holds IRIS_CODE_LENGTH nq rq (dev d (qs p)) 0 (\<lambda>j. query_row (cs j) p) \<and>
      sums_hold IRIS_CODE_LENGTH rq (dev d (q_sums p)) 0 (\<lambda>j. query_row (cs j) p)"
  shows "\<exists>E1 E2 E3 send. (\<forall>p. dot G (E p) (qs p) (db p) sizes off = Inr (E1 p) \<and>
      dot_reduce (E1 p) (q_sums p) (db_sums p) sizes off' = Inr (E2 p) \<and>
      reshare_results (E2 p) sizes (send (prev_id p)) = Inr (E3 p, send p)) \<and>
    parties_ready nd nq IRIS_CODE_LENGTH N E3 \<and>
    (\<forall>d < nd. \<forall>i < rows ! d. \<forall>j < rq. rep3 (result_share E3 d (sizes ! d) i j) \<and>
      open_add word_ring (result_share E3 d (sizes ! d) i j)
        = of_int (int (card (common_mask (x d i) (y j))) - 2 * int (card (differing (x d i) (y j)))))"
proof -
  have "4 dvd IRIS_CODE_LENGTH" by (simp add: IRIS_CODE_LENGTH_def)
  from dot_products_shared [where X = "\<lambda>p d i. code_row (xs d i) p" and Y = "\<lambda>p j. query_row (cs j) p" and mult = 1,
      OF assms(1) this assms(2,3,6,7)]
  obtain E1 E2 E3 send where run: "\<And>p. dot G (E p) (qs p) (db p) sizes off = Inr (E1 p)"
      "\<And>p. dot_reduce_and_multiply (E1 p) (q_sums p) (db_sums p) sizes off' 1 = Inr (E2 p)"
      "\<And>p. reshare_results (E2 p) sizes (send (prev_id p)) = Inr (E3 p, send p)"
    and ready: "parties_ready nd nq IRIS_CODE_LENGTH N E3"
    and shares: "\<And>d i j. d < nd \<Longrightarrow> i < rows ! d \<Longrightarrow> j < rq \<Longrightarrow> rep3 (result_share E3 d (sizes ! d) i j) \<and>
      open_add word_ring (result_share E3 d (sizes ! d) i j)
        = 1 * (row_dot IRIS_CODE_LENGTH (code_row (xs d i) ID0) (query_row (cs j) ID0)
          + row_dot IRIS_CODE_LENGTH (code_row (xs d i) ID1) (query_row (cs j) ID1)
          + row_dot IRIS_CODE_LENGTH (code_row (xs d i) ID2) (query_row (cs j) ID2))"
    by blast
  have "rep3 (result_share E3 d (sizes ! d) i j) \<and> open_add word_ring (result_share E3 d (sizes ! d) i j)
      = of_int (int (card (common_mask (x d i) (y j))) - 2 * int (card (differing (x d i) (y j))))"
    if "d < nd" "i < rows ! d" "j < rq" for d i j
  proof -
    have "iris_shares gen (x d i) (xs d i)" "query_shares gen (y j) (cs j)" using assms(4,5) that by blast+
    from row_dot_irises [OF this] shares [OF that] show ?thesis by simp
  qed
  then show ?thesis using run ready
    by (intro exI [of _ E1] exI [of _ E2] exI [of _ E3] exI [of _ send]) (simp add: dot_reduce_def)
qed

section \<open>Fresh engines\<close>

text \<open>The generator of a device after the initialisation.\<close>

definition fresh_rng :: "nat \<Rightarrow> u32 list \<Rightarrow> nat \<Rightarrow> ChaChaCudaRng" where
  "fresh_rng words seed idx = get_mut_chacha (\<lambda>c. set_nonce c (of_nat idx))
     \<lparr>rng_chunk = Some (replicate words 0), output_buffer = Some (replicate words 0), chacha = common_init seed\<rparr>"

definition rng_words :: "nat \<Rightarrow> nat" where
  "rng_words N = (N * 2 + 63) div 64 * 16"

lemma rng_words_bound: "N \<le> 2 * rng_words N"
  by (simp add: rng_words_def)

lemma rng_init_words: "0 < N \<Longrightarrow> rng_init ((N * 2 + 63) div 64 * 64) seed
    = Inr \<lparr>rng_chunk = Some (replicate (rng_words N) 0), output_buffer = Some (replicate (rng_words N) 0), chacha = common_init seed\<rparr>"
proof -
  assume "0 < N"
  then have "(N * 2 + 63) div 64 * 64 \<noteq> 0" "(N * 2 + 63) div 64 * 64 div 4 = rng_words N"
    by (simp_all add: rng_words_def div_greater_zero_iff)
  then show ?thesis by (simp add: rng_init_def Let_def)
qed

lemma rng_ok_fresh:
  assumes "length seed = 8" "N \<le> 2 * words"
  shows "rng_ok N (fresh_rng words seed idx)"
proof -
  have "wf_common (common_init seed)" using assms(1) by (rule wf_common_init)
  then show ?thesis using assms(2)
    by (simp add: rng_ok_def fresh_rng_def get_mut_chacha_def wf_common_def set_counter_simps)
qed

lemma share_db_init_ok:
  assumes "\<And>n. length (mem32 n) = n" "\<And>n. length (mem16 n) = n" "length s0 = 8" "length s1 = 8" "0 < max_db * nq"
  obtains self where "share_db_init mem32 mem16 peer nd max_db nq k (s0, s1) True = Inr self"
    "share_db_ok nd nq k (max_db * nq) self"
    "\<And>d. d < nd \<Longrightarrow> rngs (engines self ! d) = (fresh_rng (rng_words (max_db * nq)) s0 d, fresh_rng (rng_words (max_db * nq)) s1 d)"
    "\<And>d. d < nd \<Longrightarrow> ones (engines self ! d) = replicate k 1"
proof -
  let ?len = "(max_db * nq + 63) div 64 * 64"
  let ?eng = "\<lambda>idx. \<lparr>rngs = (fresh_rng (rng_words (max_db * nq)) s0 idx, fresh_rng (rng_words (max_db * nq)) s1 idx),
    ones = replicate k 1, intermediate_results = mem32 ?len, results = mem16 ?len, results_peer = mem16 ?len\<rparr>"
  have "max_db * nq \<le> ?len" by presburger
  then have ok: "engine_ok (max_db * nq) (?eng idx)" for idx
    using assms(1,2) rng_ok_fresh [OF assms(3) rng_words_bound] rng_ok_fresh [OF assms(4) rng_words_bound]
    by (simp add: engine_ok_def)
  have "rmap (init_device mem32 mem16 max_db nq k (s0, s1)) [0..<nd] = Inr (map ?eng [0..<nd])"
    using assms(5) by (intro rmap_Inr) (simp add: init_device_def Let_def rng_init_words fresh_rng_def)
  then have "share_db_init mem32 mem16 peer nd max_db nq k (s0, s1) True = Inr \<lparr>peer_id = peer, is_remote = True,
      query_length = nq, code_length = k, engines = map ?eng [0..<nd]\<rparr>"
    by (simp add: share_db_init_def)
  from that [OF this] show ?thesis using ok by (simp add: share_db_ok_def)
qed

lemma parties_init:
  assumes "\<forall>n. length (mem32 n) = n" "\<forall>n. length (mem16 n) = n" "\<forall>p. length (seed p) = 8" "0 < max_db * nq"
  shows "\<exists>E. (\<forall>p. share_db_init mem32 mem16 (usize_from_party p) nd max_db nq k (seed p, seed (prev_id p)) True = Inr (E p)) \<and>
    parties_ready nd nq k (max_db * nq) E"
proof -
  have "\<exists>self. share_db_init mem32 mem16 (usize_from_party p) nd max_db nq k (seed p, seed (prev_id p)) True = Inr self \<and>
      share_db_ok nd nq k (max_db * nq) self \<and>
      (\<forall>d < nd. rngs (engines self ! d) = (fresh_rng (rng_words (max_db * nq)) (seed p) d, fresh_rng (rng_words (max_db * nq)) (seed (prev_id p)) d))" for p
    using share_db_init_ok [of mem32 mem16 "seed p" "seed (prev_id p)" max_db nq "usize_from_party p" nd k] assms by metis
  then obtain E where "\<And>p. share_db_init mem32 mem16 (usize_from_party p) nd max_db nq k (seed p, seed (prev_id p)) True = Inr (E p)"
      "\<And>p. share_db_ok nd nq k (max_db * nq) (E p)"
      "\<And>p d. d < nd \<Longrightarrow> rngs (engines (E p) ! d) = (fresh_rng (rng_words (max_db * nq)) (seed p) d, fresh_rng (rng_words (max_db * nq)) (seed (prev_id p)) d)"
    by metis
  then show ?thesis by (intro exI [of _ E]) (simp add: parties_ready_def)
qed

text \<open>
  Engines initialised with pairwise shared seeds are ready: if party \<open>p\<close> starts with the seed of its
  own and that of the previous party, the first generator of a party is the second one of the next.
\<close>

theorem initialised_engines_ready:
  assumes "\<forall>n. length (mem32 n) = n" "\<forall>n. length (mem16 n) = n" "\<forall>p. length (seed p) = 8" "0 < max_db * nq"
  shows "\<exists>E. (\<forall>p. share_db_init mem32 mem16 (usize_from_party p) nd max_db nq k (seed p, seed (prev_id p)) True = Inr (E p)) \<and>
    parties_ready nd nq k (max_db * nq) E"
  using assms by (rule parties_init)

theorem initialised_engines_ready_witness:
  "\<exists>E. (\<forall>p. share_db_init (\<lambda>n. replicate n 3) (\<lambda>n. replicate n 5) (usize_from_party p) 2 64 4 12800
      (replicate 8 (of_nat (usize_from_party p)), replicate 8 (of_nat (usize_from_party (prev_id p)))) True = Inr (E p)) \<and>
    parties_ready 2 4 12800 (64 * 4) E"
  using initialised_engines_ready [of "\<lambda>n. replicate n 3" "\<lambda>n. replicate n 5" "\<lambda>p. replicate 8 (of_nat (usize_from_party p))" 64 4 2 12800]
  by simp

text \<open>
  C12: Half of the results are not masked. The code asks its generators for as many bytes as there are
  results, but every mask takes two; the chunks were zeroed when they were created. So in the
  results of a fresh engine that are sent to the next party every product in the upper half of
  the buffer is the party's plain local product.
\<close>

theorem upper_half_unmasked:
  assumes "gemm_ok G" "4 dvd k" "\<forall>n. length (mem32 n) = n" "\<forall>n. length (mem16 n) = n" "length s0 = 8" "length s1 = 8" "0 < max_db * nq"
    and "share_db_init mem32 mem16 peer nd max_db nq k (s0, s1) True = Inr self" "sizes_ok nd nq (max_db * nq) sizes"
    and "\<forall>d < nd. holds k (sizes ! d) (rows ! d) (dev d db) off (X d) \<and> sums_hold k (rows ! d) (dev d db_sums) off' (X d)"
    and "\<forall>d < nd. holds k nq rq (dev d qs) 0 Y \<and> sums_hold k rq (dev d q_sums) 0 Y"
  shows "\<exists>s1 s2. dot G self qs db sizes off = Inr s1 \<and> dot_reduce_and_multiply s1 q_sums db_sums sizes off' mult = Inr s2 \<and>
    (\<forall>d < nd. \<forall>i < rows ! d. \<forall>j < rq. sizes ! d * nq div 2 \<le> j * sizes ! d + i \<longrightarrow>
       results (engines s2 ! d) ! (j * sizes ! d + i) = row_dot k (X d i) (Y j) * mult)"
proof -
  let ?w = "rng_words (max_db * nq)"
  have init: "share_db_ok nd nq k (max_db * nq) self"
      "\<And>d. d < nd \<Longrightarrow> rngs (engines self ! d) = (fresh_rng ?w s0 d, fresh_rng ?w s1 d)"
    using share_db_init_ok [of mem32 mem16 s0 s1 max_db nq peer nd k] assms(3-8) by auto
  have zero: "words_u16 (the (rng_chunk (rng_filled (m * nq div 64) (fresh_rng ?w s d)))) ! x = 0"
    if "64 dvd m * nq" "m * nq \<le> max_db * nq" "m * nq div 2 \<le> x" "x < m * nq" for m s d x
  proof -
    note dvd = that(1)
    obtain c where c: "m * nq = 64 * c" using dvd by (rule dvdE)
    then have x: "16 * c \<le> x div 2" "x div 2 < ?w" "x < 2 * ?w" using that(2-4) rng_words_bound [of "max_db * nq"] by linarith+
    have chunk: "the (rng_chunk (rng_filled c (fresh_rng ?w s d))) = stream (chacha (fresh_rng ?w s d)) (16 * c) @ replicate (?w - 16 * c) 0"
      by (simp add: rng_filled_def fresh_rng_def get_mut_chacha_def)
    have "length (the (rng_chunk (rng_filled c (fresh_rng ?w s d)))) = ?w" using x(1,2) by (simp add: chunk)
    then show ?thesis using x c by (simp add: nth_words_u16) (simp add: chunk nth_append)
  qed
  obtain t1 t2 where t: "dot G self qs db sizes off = Inr t1" "dot_reduce_and_multiply t1 q_sums db_sums sizes off' mult = Inr t2"
      "\<And>d i j. d < nd \<Longrightarrow> i < rows ! d \<Longrightarrow> j < rq \<Longrightarrow> results (engines t2 ! d) ! (j * sizes ! d + i)
         = row_dot k (X d i) (Y j) * mult
           + words_u16 (the (rng_chunk (rng_filled (sizes ! d * nq div 64) (fst (rngs (engines self ! d)))))) ! (j * sizes ! d + i)
           - words_u16 (the (rng_chunk (rng_filled (sizes ! d * nq div 64) (snd (rngs (engines self ! d)))))) ! (j * sizes ! d + i)"
    using dot_and_reduce [OF assms(1,2) init(1) assms(9), of rows db off X db_sums off' rq qs Y q_sums mult] assms(10,11) by blast
  have "results (engines t2 ! d) ! (j * sizes ! d + i) = row_dot k (X d i) (Y j) * mult"
    if "d < nd" "i < rows ! d" "j < rq" "sizes ! d * nq div 2 \<le> j * sizes ! d + i" for d i j
  proof -
    have "i < sizes ! d" "j < nq" using assms(10,11) that by (auto simp: holds_def intro: less_le_trans)
    then have "j * sizes ! d + i < sizes ! d * nq" by (rule pair_index)
    then show ?thesis using t(3) [OF that(1-3)] zero that assms(9) by (simp add: init(2) sizes_ok_def)
  qed
  then show ?thesis using t(1,2) by blast
qed

section \<open>Example buffers\<close>

text \<open>Buffers for one device that hold given rows.\<close>

definition demo_limbs :: "nat \<Rightarrow> nat \<Rightarrow> (nat \<Rightarrow> nat \<Rightarrow> u16) \<Rightarrow> i8 CudaVec2DSlicer" where
  "demo_limbs k n X = \<lparr>limb_0 = [map (\<lambda>x. lo8 (X (x div k) (x mod k))) [0..<n * k]],
     limb_1 = [map (\<lambda>x. hi8 (X (x div k) (x mod k))) [0..<n * k]]\<rparr>"

definition demo_sums :: "nat \<Rightarrow> nat \<Rightarrow> (nat \<Rightarrow> nat \<Rightarrow> u16) \<Rightarrow> u32 CudaVec2DSlicer" where
  "demo_sums k n X = \<lparr>limb_0 = [map (\<lambda>i. \<Sum>l<k. scast (lo8 (X i l))) [0..<n]], limb_1 = [map (\<lambda>i. \<Sum>l<k. scast (hi8 (X i l))) [0..<n]]\<rparr>"

lemma demo_buffers:
  assumes "r \<le> n"
  shows "holds k n r (dev 0 (demo_limbs k n X)) 0 X" "sums_hold k r (dev 0 (demo_sums k r X)) 0 X"
proof -
  have "i * k + l < n * k" if "i < r" "l < k" for i l
    using pair_index [OF that(2), of i n] that(1) assms by (simp add: mult.commute)
  then show "holds k n r (dev 0 (demo_limbs k n X)) 0 X" using assms by (simp add: holds_def dev_def demo_limbs_def)
  show "sums_hold k r (dev 0 (demo_sums k r X)) 0 X" by (simp add: sums_hold_def dev_def demo_sums_def)
qed

lemma demo_iris_shares: "\<exists>xs. iris_shares (\<lambda>g :: u16. (g, 3 * g + 1)) iris_default xs"
proof -
  obtain xs g' where "full_encode_iris_code (\<lambda>g :: u16. (g, 3 * g + 1)) iris_default 5 = Inr (xs, g')"
    using wf_iris_default(1) by (rule full_encode_sharing)
  then show ?thesis using wf_iris_default(1) unfolding iris_shares_def by blast
qed

lemma demo_query_shares: "\<exists>cs. query_shares (\<lambda>g :: u16. (g, 3 * g + 1)) iris_default cs"
proof -
  obtain xs where xs: "iris_shares (\<lambda>g :: u16. (g, 3 * g + 1)) iris_default xs" using demo_iris_shares ..
  obtain ps where "rmap preprocess_iris_code_query_share (map full_code xs) = Inr ps"
    using iris_sharesD(3) [OF xs] iris_sharesD(3) [OF xs] iris_sharesD(2) [OF xs] by (rule code_dot_shares)
  then show ?thesis using xs unfolding query_shares_def by blast
qed

theorem gpu_iris_dot_products_witness:
  "\<exists>E xs cs E1 E2 E3 send. parties_ready 1 4 IRIS_CODE_LENGTH 256 E \<and>
    iris_shares (\<lambda>g :: u16. (g, 3 * g + 1)) iris_default xs \<and> query_shares (\<lambda>g :: u16. (g, 3 * g + 1)) iris_default cs \<and>
    (\<forall>p. dot gemm_ref (E p) (demo_limbs IRIS_CODE_LENGTH 4 (\<lambda>j. query_row cs p)) (demo_limbs IRIS_CODE_LENGTH 64 (\<lambda>i. code_row xs p)) [64] 0 = Inr (E1 p) \<and>
      dot_reduce (E1 p) (demo_sums IRIS_CODE_LENGTH 1 (\<lambda>j. query_row cs p)) (demo_sums IRIS_CODE_LENGTH 2 (\<lambda>i. code_row xs p)) [64] 0 = Inr (E2 p) \<and>
      reshare_results (E2 p) [64] (send (prev_id p)) = Inr (E3 p, send p)) \<and>
    parties_ready 1 4 IRIS_CODE_LENGTH 256 E3 \<and>
    rep3 (result_share E3 0 64 1 0) \<and> open_add word_ring (result_share E3 0 64 1 0)
        = of_int (int (card (common_mask iris_default iris_default)) - 2 * int (card (differing iris_default iris_default)))"
proof -
  let ?k = IRIS_CODE_LENGTH and ?gen = "\<lambda>g :: u16. (g, 3 * g + 1)"
  obtain xs where xs: "iris_shares ?gen iris_default xs" using demo_iris_shares ..
  obtain cs where cs: "query_shares ?gen iris_default cs" using demo_query_shares ..
  obtain E where E: "parties_ready 1 4 ?k 256 E"
    using parties_init [of "\<lambda>n. replicate n 3" "\<lambda>n. replicate n 5" "\<lambda>_. replicate 8 1" 64 4 1 ?k] by auto
  have buf: "\<forall>p. \<forall>d < 1. holds ?k ([64] ! d) ([2] ! d) (dev d (demo_limbs ?k 64 (\<lambda>i. code_row xs p))) 0 (\<lambda>i. code_row xs p) \<and>
      sums_hold ?k ([2] ! d) (dev d (demo_sums ?k 2 (\<lambda>i. code_row xs p))) 0 (\<lambda>i. code_row xs p)"
    "\<forall>p. \<forall>d < 1. holds ?k 4 1 (dev d (demo_limbs ?k 4 (\<lambda>j. query_row cs p))) 0 (\<lambda>j. query_row cs p) \<and>
      sums_hold ?k 1 (dev d (demo_sums ?k 1 (\<lambda>j. query_row cs p))) 0 (\<lambda>j. query_row cs p)"
    by (auto intro: demo_buffers)
  have "sizes_ok 1 4 256 [64]" by (simp add: sizes_ok_def)
  from gpu_iris_dot_products [where gen = ?gen and x = "\<lambda>_ _. iris_default" and y = "\<lambda>_. iris_default" and xs = "\<lambda>_ _. xs" and cs = "\<lambda>_. cs",
      OF gemm_ok_ref E this _ _ buf] xs cs
  obtain E1 E2 E3 send where "(\<forall>p. dot gemm_ref (E p) (demo_limbs ?k 4 (\<lambda>j. query_row cs p)) (demo_limbs ?k 64 (\<lambda>i. code_row xs p)) [64] 0 = Inr (E1 p) \<and>
      dot_reduce (E1 p) (demo_sums ?k 1 (\<lambda>j. query_row cs p)) (demo_sums ?k 2 (\<lambda>i. code_row xs p)) [64] 0 = Inr (E2 p) \<and>
      reshare_results (E2 p) [64] (send (prev_id p)) = Inr (E3 p, send p))" "parties_ready 1 4 ?k 256 E3"
    "\<forall>d < 1. \<forall>i < [2] ! d. \<forall>j < 1. rep3 (result_share E3 d ([64] ! d) i j) \<and> open_add word_ring (result_share E3 d ([64] ! d) i j)
        = of_int (int (card (common_mask iris_default iris_default)) - 2 * int (card (differing iris_default iris_default)))"
    by auto
  then show ?thesis using E xs cs by (intro exI [of _ E] exI [of _ xs] exI [of _ cs] exI [of _ E1] exI [of _ E2] exI [of _ E3] exI [of _ send]) simp
qed

theorem upper_half_unmasked_witness:
  "\<exists>self s1 s2. share_db_init (\<lambda>n. replicate n 3) (\<lambda>n. replicate n 5) 0 1 64 4 4 (replicate 8 1, replicate 8 2) True = Inr self \<and>
    dot gemm_ref self (demo_limbs 4 4 (\<lambda>j l. 300)) (demo_limbs 4 64 (\<lambda>i l. 7)) [64] 0 = Inr s1 \<and>
    dot_reduce_and_multiply s1 (demo_sums 4 4 (\<lambda>j l. 300)) (demo_sums 4 64 (\<lambda>i l. 7)) [64] 0 1 = Inr s2 \<and>
    results (engines s2 ! 0) ! (3 * 64 + 63) = row_dot 4 (\<lambda>l. 7) (\<lambda>l. 300) * 1"
proof -
  obtain self where self: "share_db_init (\<lambda>n. replicate n 3) (\<lambda>n. replicate n 5) 0 1 64 4 4 (replicate 8 1, replicate 8 2) True = Inr self"
    using share_db_init_ok [of "\<lambda>n. replicate n 3" "\<lambda>n. replicate n 5" "replicate 8 1" "replicate 8 2" 64 4 0 1 4] by auto
  have "\<forall>d < 1. holds 4 ([64] ! d) ([64] ! d) (dev d (demo_limbs 4 64 (\<lambda>i l. 7))) 0 (\<lambda>i l. 7) \<and>
      sums_hold 4 ([64] ! d) (dev d (demo_sums 4 64 (\<lambda>i l. 7))) 0 (\<lambda>i l. 7)"
    "\<forall>d < 1. holds 4 4 4 (dev d (demo_limbs 4 4 (\<lambda>j l. 300))) 0 (\<lambda>j l. 300) \<and> sums_hold 4 4 (dev d (demo_sums 4 4 (\<lambda>j l. 300))) 0 (\<lambda>j l. 300)"
    by (auto intro: demo_buffers)
  note buf = this
  have "sizes_ok 1 4 (64 * 4) [64]" by (simp add: sizes_ok_def)
  from upper_half_unmasked [where X = "\<lambda>_ i l. 7" and Y = "\<lambda>j l. 300" and mult = 1, OF gemm_ok_ref _ _ _ _ _ _ self this buf]
  obtain s1 s2 where "dot gemm_ref self (demo_limbs 4 4 (\<lambda>j l. 300)) (demo_limbs 4 64 (\<lambda>i l. 7)) [64] 0 = Inr s1"
    "dot_reduce_and_multiply s1 (demo_sums 4 4 (\<lambda>j l. 300)) (demo_sums 4 64 (\<lambda>i l. 7)) [64] 0 1 = Inr s2"
    "\<forall>d < 1. \<forall>i < [64] ! d. \<forall>j < 4. [64] ! d * 4 div 2 \<le> j * [64] ! d + i \<longrightarrow>
       results (engines s2 ! d) ! (j * [64] ! d + i) = row_dot 4 (\<lambda>l. 7) (\<lambda>l. 300) * 1"
    by auto
  moreover from this(3) have "results (engines s2 ! 0) ! (3 * 64 + 63) = row_dot 4 (\<lambda>l. 7) (\<lambda>l. 300) * 1"
    by (elim allE [of _ 0] impE allE [of _ 63] allE [of _ 3]) simp_all
  ultimately show ?thesis using self by blast
qed

end
