(* ===== verification/MatchSearch.thy ===== *)
theory MatchSearch
  imports ShareDb "HOL-Library.Multiset"
begin

text \<open>
  From opened threshold results to match lists (\<open>iris-mpc-gpu/src/dot/distance_comparator.rs\<close>, the kernels
  \<open>openResults\<close>, \<open>mergeDbResults\<close> and \<open>mergeBatchResults\<close> of \<open>dot/kernel.cu\<close>, and the loop over the chunks
  of the database in \<open>server/actor.rs\<close>). A kernel runs one iteration for every bit of its input; the
  order of the iterations is a schedule, and a launch folds the iterations over it. Intermediate
  indices of type \<open>unsigned int\<close> are taken modulo $2^{32}$. The outputs of the threshold circuits are inputs
  of this theory.
\<close>

section \<open>Kernels\<close>

definition u32_of :: "nat \<Rightarrow> nat" where
  "u32_of n = n mod 2 ^ 32"

definition ALL_MATCHES_LEN :: nat where
  "ALL_MATCHES_LEN = 256"

definition NON_MATCH_ID :: u32 where
  "NON_MATCH_ID = - 1"

text \<open>A bitmap is a list of words; \<open>atomic_or\<close> sets one bit.\<close>

definition bitmap :: "u64 list \<Rightarrow> nat \<Rightarrow> bool" where
  "bitmap ws k \<longleftrightarrow> bit (ws ! (k div 64)) (k mod 64)"

definition atomic_or :: "nat \<Rightarrow> u64 list \<Rightarrow> u64 list" where
  "atomic_or k ws = ws[k div 64 := ws ! (k div 64) OR push_bit (k mod 64) 1]"

text \<open>The iterations of a launch on \<open>n\<close> words, in some order.\<close>

definition schedule :: "nat \<Rightarrow> (nat \<times> nat) list \<Rightarrow> bool" where
  "schedule n sched \<longleftrightarrow> mset sched = mset (List.product [0..<n] [0..<64])"

definition open_iteration ::
    "u64 list \<Rightarrow> u64 list \<Rightarrow> u64 list \<Rightarrow> nat \<Rightarrow> nat \<Rightarrow> nat \<Rightarrow> nat \<Rightarrow> nat \<Rightarrow> nat \<times> nat \<Rightarrow> u64 list \<Rightarrow> u64 list" where
  "open_iteration result1 result2 result3 chunkLength queryLength off realChunkLen totalDbLen = (\<lambda>(idx, i) out.
     let result = result1 ! idx XOR result2 ! idx XOR result3 ! idx;
         queryIdx = u32_of ((idx * 64 + i) div chunkLength);
         dbIdx = u32_of ((idx * 64 + i) mod chunkLength);
         match = bit result i
     in if queryIdx \<ge> queryLength \<or> dbIdx \<ge> realChunkLen \<or> \<not> match then out
        else (let outputIdx = u32_of (totalDbLen * (queryIdx div ROTATIONS) + dbIdx + off) in atomic_or outputIdx out))"

definition openResults ::
    "u64 list \<Rightarrow> u64 list \<Rightarrow> u64 list \<Rightarrow> u64 list \<Rightarrow> nat \<Rightarrow> nat \<Rightarrow> nat \<Rightarrow> nat \<Rightarrow> nat \<Rightarrow> (nat \<times> nat) list \<Rightarrow> u64 list" where
  "openResults result1 result2 result3 out chunkLength queryLength off realChunkLen totalDbLen sched =
     fold (open_iteration result1 result2 result3 chunkLength queryLength off realChunkLen totalDbLen) sched out"

text \<open>The match lists of one device.\<close>

record MatchBuffers =
  final_results :: "u32 list"
  match_counters :: "u32 list"
  all_matches :: "u32 list"
  match_counters_left :: "u32 list"
  match_counters_right :: "u32 list"
  partial_results_left :: "u32 list"
  partial_results_right :: "u32 list"

text \<open>One more entry of query \<open>q\<close>: the counter is incremented and the entry stored while there is room.\<close>

definition record_match :: "nat \<Rightarrow> u32 \<Rightarrow> u32 list \<times> u32 list \<Rightarrow> u32 list \<times> u32 list" where
  "record_match q v st =
     (let (counters, entries) = st; queryMatchCounter = unat (counters ! q)
      in (counters[q := counters ! q + 1],
          if queryMatchCounter < ALL_MATCHES_LEN then entries[ALL_MATCHES_LEN * q + queryMatchCounter := v] else entries))"

definition atomic_min :: "nat \<Rightarrow> u32 \<Rightarrow> u32 list \<Rightarrow> u32 list" where
  "atomic_min q v ws = ws[q := min (ws ! q) v]"

definition merge_db_iteration ::
    "u64 list \<Rightarrow> u64 list \<Rightarrow> nat \<Rightarrow> nat \<Rightarrow> nat \<times> nat \<Rightarrow> MatchBuffers \<Rightarrow> MatchBuffers" where
  "merge_db_iteration matchResultsLeft matchResultsRight queryLength dbLength = (\<lambda>(idx, i) st.
     let queryIdx = u32_of ((idx * 64 + i) div dbLength);
         dbIdx = u32_of ((idx * 64 + i) mod dbLength);
         matchLeft = bit (matchResultsLeft ! idx) i;
         matchRight = bit (matchResultsRight ! idx) i
     in if queryIdx \<ge> queryLength \<or> dbIdx \<ge> dbLength then st
        else
          (let st = (if matchLeft
                 then (let (c, e) = record_match queryIdx (of_nat dbIdx) (match_counters_left st, partial_results_left st)
                       in st\<lparr>match_counters_left := c, partial_results_left := e\<rparr>) else st);
               st = (if matchRight
                 then (let (c, e) = record_match queryIdx (of_nat dbIdx) (match_counters_right st, partial_results_right st)
                       in st\<lparr>match_counters_right := c, partial_results_right := e\<rparr>) else st)
           in if matchLeft \<and> matchRight
              then (let (c, e) = record_match queryIdx (of_nat dbIdx) (match_counters st, all_matches st)
                    in st\<lparr>final_results := atomic_min queryIdx (of_nat dbIdx) (final_results st), match_counters := c, all_matches := e\<rparr>)
              else st))"

definition mergeDbResults ::
    "u64 list \<Rightarrow> u64 list \<Rightarrow> nat \<Rightarrow> nat \<Rightarrow> (nat \<times> nat) list \<Rightarrow> MatchBuffers \<Rightarrow> MatchBuffers" where
  "mergeDbResults matchResultsLeft matchResultsRight queryLength dbLength sched st =
     fold (merge_db_iteration matchResultsLeft matchResultsRight queryLength dbLength) sched st"

definition merge_batch_iteration ::
    "u64 list \<Rightarrow> u64 list \<Rightarrow> nat \<Rightarrow> nat \<Rightarrow> nat \<times> nat \<Rightarrow> MatchBuffers \<Rightarrow> MatchBuffers" where
  "merge_batch_iteration matchResultsSelfLeft matchResultsSelfRight queryLength dbLength = (\<lambda>(idx, i) st.
     let queryIdx = u32_of ((idx * 64 + i) div dbLength);
         dbIdx = u32_of ((idx * 64 + i) mod dbLength)
     in if queryIdx \<ge> queryLength \<or> dbIdx \<ge> dbLength then st
        else if dbIdx < 15 \<or> (dbIdx - 15) mod ROTATIONS \<noteq> 0 then st
        else if queryIdx \<le> dbIdx div ROTATIONS then st
        else if bit (matchResultsSelfLeft ! idx) i \<and> bit (matchResultsSelfRight ! idx) i
        then (let (c, e) = record_match queryIdx (- 1 - of_nat (dbIdx div ROTATIONS)) (match_counters st, all_matches st)
              in st\<lparr>final_results := atomic_min queryIdx (- 1 - 1) (final_results st), match_counters := c, all_matches := e\<rparr>)
        else st)"

definition mergeBatchResults ::
    "u64 list \<Rightarrow> u64 list \<Rightarrow> nat \<Rightarrow> nat \<Rightarrow> (nat \<times> nat) list \<Rightarrow> MatchBuffers \<Rightarrow> MatchBuffers" where
  "mergeBatchResults matchResultsSelfLeft matchResultsSelfRight queryLength dbLength sched st =
     fold (merge_batch_iteration matchResultsSelfLeft matchResultsSelfRight queryLength dbLength) sched st"

section \<open>The distance comparator\<close>

text \<open>
  The methods run over the devices; \<open>scheds\<close> has the schedule of every device. \<open>q_length\<close> is the number of
  query rows, rotations included.
\<close>

definition div_ceil :: "nat \<Rightarrow> nat \<Rightarrow> nat" where
  "div_ceil a b = (a + b - 1) div b"

definition open_results ::
    "nat \<Rightarrow> (u64 list \<times> u64 list \<times> u64 list) list \<Rightarrow> u64 list list \<Rightarrow> nat list \<Rightarrow> nat list \<Rightarrow> nat \<Rightarrow> nat list \<Rightarrow> bool list
       \<Rightarrow> (nat \<times> nat) list list \<Rightarrow> u64 list list" where
  "open_results q_length views bitmaps db_sizes real_db_sizes off total_db_sizes ignore_db_results scheds =
     map (\<lambda>d. if ignore_db_results ! d then bitmaps ! d
       else (case views ! d of (result1, result2, result3) \<Rightarrow>
         openResults result1 result2 result3 (bitmaps ! d) (db_sizes ! d) q_length off (real_db_sizes ! d) (total_db_sizes ! d) (scheds ! d)))
     [0..<length bitmaps]"

definition join_matches ::
    "(u64 list \<Rightarrow> u64 list \<Rightarrow> nat \<Rightarrow> nat \<Rightarrow> (nat \<times> nat) list \<Rightarrow> MatchBuffers \<Rightarrow> MatchBuffers) \<Rightarrow> nat \<Rightarrow> u64 list list \<Rightarrow> u64 list list
       \<Rightarrow> nat list \<Rightarrow> (nat \<times> nat) list list \<Rightarrow> MatchBuffers list \<Rightarrow> MatchBuffers list" where
  "join_matches merge_kernel q_length lefts rights db_sizes scheds bufs =
     map (\<lambda>d. if db_sizes ! d = 0 then bufs ! d
       else merge_kernel (lefts ! d) (rights ! d) (q_length div ROTATIONS) (db_sizes ! d) (scheds ! d) (bufs ! d)) [0..<length bufs]"

definition join_db_matches ::
    "nat \<Rightarrow> u64 list list \<Rightarrow> u64 list list \<Rightarrow> nat list \<Rightarrow> (nat \<times> nat) list list \<Rightarrow> MatchBuffers list \<Rightarrow> MatchBuffers list" where
  "join_db_matches q_length lefts rights db_sizes scheds bufs = join_matches mergeDbResults q_length lefts rights db_sizes scheds bufs"

definition join_batch_matches ::
    "nat \<Rightarrow> u64 list list \<Rightarrow> u64 list list \<Rightarrow> (nat \<times> nat) list list \<Rightarrow> MatchBuffers list \<Rightarrow> MatchBuffers list" where
  "join_batch_matches q_length lefts rights scheds bufs =
     join_matches mergeBatchResults q_length lefts rights (replicate (length bufs) q_length) scheds bufs"

definition fetch_final_results :: "MatchBuffers list \<Rightarrow> u32 list list" where
  "fetch_final_results bufs = map final_results bufs"

text \<open>
  The entries of all devices for every query: an entry of the batch is kept as it is, and only from the
  first device; the others are turned into positions in the whole database.
\<close>

definition fetch_all_match_ids :: "nat \<Rightarrow> u32 list list \<Rightarrow> u32 list list \<Rightarrow> u32 list list" where
  "fetch_all_match_ids q_length counters matches =
     (let batch_match_idx = (- 1 :: u32) - of_nat (q_length div ROTATIONS);
          n_devices = length matches
      in map (\<lambda>j. concat (map (\<lambda>i.
           let ids = take (min (unat (counters ! i ! j)) ALL_MATCHES_LEN) (drop (ALL_MATCHES_LEN * j) (matches ! i))
           in filter (\<lambda>idx. idx < batch_match_idx \<or> i = 0)
                (map (\<lambda>idx. if idx > batch_match_idx then idx else idx * of_nat n_devices + of_nat i) ids)) [0..<n_devices]))
         [0..<length (counters ! 0)])"

section \<open>The chunks of the database\<close>

definition DB_CHUNK_SIZE :: nat where
  "DB_CHUNK_SIZE = 2 ^ 15"

text \<open>The subtraction is one of \<open>usize\<close>, which wraps.\<close>

definition chunk_sizes :: "nat list \<Rightarrow> nat \<Rightarrow> nat list" where
  "chunk_sizes current_db_sizes chunk_idx =
     map (\<lambda>s. max 1 (min DB_CHUNK_SIZE ((s + (2 ^ 64 - DB_CHUNK_SIZE * chunk_idx mod 2 ^ 64)) mod 2 ^ 64))) current_db_sizes"

definition dot_chunk_size :: "nat list \<Rightarrow> nat list" where
  "dot_chunk_size sizes = map (\<lambda>s. div_ceil s 64 * 64) sizes"

text \<open>
  The loop over the chunks. \<open>views c\<close> are the outputs of the threshold circuits for chunk \<open>c\<close> and the share
  received from the previous party, for every device; \<open>scheds c\<close> the schedules of the launch.
\<close>

function db_chunk_loop ::
    "nat \<Rightarrow> (nat \<Rightarrow> (u64 list \<times> u64 list \<times> u64 list) list) \<Rightarrow> (nat \<Rightarrow> (nat \<times> nat) list list) \<Rightarrow> nat list \<Rightarrow> nat \<Rightarrow> u64 list list
       \<Rightarrow> u64 list list" where
  "db_chunk_loop q_length views scheds current_db_sizes db_chunk_idx bitmaps =
     (let ignore_device_results = map (\<lambda>s. s = 0) current_db_sizes;
          off = db_chunk_idx * DB_CHUNK_SIZE;
          chunk_size = chunk_sizes current_db_sizes db_chunk_idx;
          bitmaps = open_results q_length (views db_chunk_idx) bitmaps (dot_chunk_size chunk_size) chunk_size off
            current_db_sizes ignore_device_results (scheds db_chunk_idx);
          db_chunk_idx = db_chunk_idx + 1
      in if db_chunk_idx * DB_CHUNK_SIZE \<ge> Max (set current_db_sizes) then bitmaps
         else db_chunk_loop q_length views scheds current_db_sizes db_chunk_idx bitmaps)"
  by pat_completeness auto
termination
  by (relation "measure (\<lambda>(q, v, s, sizes, c, b). Max (set sizes) - c * DB_CHUNK_SIZE)") (auto simp: DB_CHUNK_SIZE_def)

declare db_chunk_loop.simps [simp del]

end
