(* ===== verification/MatchSearchCorrect.thy ===== *)
theory MatchSearchCorrect
  imports MatchSearch
begin

text \<open>
  The search marks exactly the matches: what the kernels write does not depend on the order of their
  iterations, the chunks of the database are opened at the right positions, and the match lists hold
  the matches of both eyes. One case is excluded, and shown to go wrong: a device whose part of the
  database ends at a chunk boundary while another device has more.
\<close>

section \<open>Opening\<close>

lemma bitmap_atomic_or:
  assumes "k div 64 < length ws"
  shows "bitmap (atomic_or k ws) j \<longleftrightarrow> bitmap ws j \<or> j = k"
proof -
  have eq: "j div 64 = k div 64 \<and> j mod 64 = k mod 64 \<longleftrightarrow> j = k" by (metis div_mod_decomp)
  have "bit (push_bit (k mod 64) 1 :: u64) (j mod 64) \<longleftrightarrow> j mod 64 = k mod 64"
    by (auto simp: bit_exp_iff possible_bit_word)
  then show ?thesis using assms eq
    by (cases "j div 64 = k div 64") (auto simp: bitmap_def atomic_or_def bit_or_iff)
qed

text \<open>Setting the bits that the iterations ask for, in any order.\<close>

definition set_bits :: "('a \<Rightarrow> nat option) \<Rightarrow> 'a \<Rightarrow> u64 list \<Rightarrow> u64 list" where
  "set_bits tgt x ws = (case tgt x of None \<Rightarrow> ws | Some k \<Rightarrow> atomic_or k ws)"

lemma length_set_bits [simp]: "length (fold (set_bits tgt) xs ws) = length ws"
  by (induction xs arbitrary: ws) (auto simp: set_bits_def atomic_or_def split: option.split)

lemma bitmap_set_bits:
  assumes "\<And>x k. x \<in> set xs \<Longrightarrow> tgt x = Some k \<Longrightarrow> k < 64 * length ws"
  shows "bitmap (fold (set_bits tgt) xs ws) j \<longleftrightarrow> bitmap ws j \<or> (\<exists>x \<in> set xs. tgt x = Some j)"
  using assms
proof (induction xs arbitrary: ws)
  case (Cons x xs)
  let ?ws = "set_bits tgt x ws"
  have len: "length ?ws = length ws" by (simp add: set_bits_def atomic_or_def split: option.split)
  have "bitmap ?ws j \<longleftrightarrow> bitmap ws j \<or> tgt x = Some j"
    using Cons.prems [of x] by (auto simp: set_bits_def bitmap_atomic_or div_less_iff_less_mult mult.commute split: option.split)
  moreover have "bitmap (fold (set_bits tgt) xs ?ws) j \<longleftrightarrow> bitmap ?ws j \<or> (\<exists>x \<in> set xs. tgt x = Some j)"
    using Cons.prems by (intro Cons.IH) (auto simp: len)
  ultimately show ?case by auto
qed simp

definition res_bit :: "u64 list \<times> u64 list \<times> u64 list \<Rightarrow> nat \<Rightarrow> bool" where
  "res_bit v x \<longleftrightarrow> (case v of (r1, r2, r3) \<Rightarrow> bit (r1 ! (x div 64) XOR r2 ! (x div 64) XOR r3 ! (x div 64)) (x mod 64))"

definition marks :: "nat \<Rightarrow> u64 list \<times> u64 list \<times> u64 list \<Rightarrow> nat \<Rightarrow> nat \<Rightarrow> nat \<Rightarrow> nat \<Rightarrow> nat set" where
  "marks ql v chunk real_len off total_len =
     {total_len * (q div ROTATIONS) + r + off | q r. q < ql \<and> r < real_len \<and> res_bit v (q * chunk + r)}"

lemma set_schedule: "schedule n sched \<Longrightarrow> set sched = {0..<n} \<times> {0..<64}"
  unfolding schedule_def by (drule mset_eq_setD) simp

lemma u32_of_small: "n < 2 ^ 32 \<Longrightarrow> u32_of n = n"
  by (simp add: u32_of_def)

lemma open_iteration_set_bits:
  "open_iteration r1 r2 r3 chunk ql off real_len total_len = set_bits (\<lambda>(idx, i).
     let q = u32_of ((idx * 64 + i) div chunk); r = u32_of ((idx * 64 + i) mod chunk)
     in if q < ql \<and> r < real_len \<and> bit (r1 ! idx XOR r2 ! idx XOR r3 ! idx) i
        then Some (u32_of (total_len * (q div ROTATIONS) + r + off)) else None)"
  by (auto simp: fun_eq_iff open_iteration_def set_bits_def Let_def)

lemma openResults_bits:
  assumes sched: "schedule (div_ceil (chunk * ql) 64) sched" and chunk: "0 < chunk" "real_len \<le> chunk"
    and small: "chunk * ql + 64 \<le> 2 ^ 32"
    and range: "\<And>k. k \<in> marks ql v chunk real_len off total_len \<Longrightarrow> k < 64 * length out \<and> k < 2 ^ 32"
  shows "bitmap (openResults (fst v) (fst (snd v)) (snd (snd v)) out chunk ql off real_len total_len sched) j
      \<longleftrightarrow> bitmap out j \<or> j \<in> marks ql v chunk real_len off total_len"
    "length (openResults (fst v) (fst (snd v)) (snd (snd v)) out chunk ql off real_len total_len sched) = length out"
proof -
  let ?n = "div_ceil (chunk * ql) 64" and ?mk = "marks ql v chunk real_len off total_len"
  let ?tgt = "\<lambda>(idx, i). let q = u32_of ((idx * 64 + i) div chunk); r = u32_of ((idx * 64 + i) mod chunk)
     in if q < ql \<and> r < real_len \<and> bit (fst v ! idx XOR fst (snd v) ! idx XOR snd (snd v) ! idx) i
        then Some (u32_of (total_len * (q div ROTATIONS) + r + off)) else None"
  have n: "chunk * ql \<le> ?n * 64" "?n * 64 < chunk * ql + 64" unfolding div_ceil_def by linarith+
  have tgt: "?tgt (idx, i) = (let x = idx * 64 + i in if x div chunk < ql \<and> x mod chunk < real_len \<and> res_bit v x
      then Some (total_len * (x div chunk div ROTATIONS) + x mod chunk + off) else None)"
    if "idx < ?n" "i < 64" for idx i
  proof -
    let ?x = "idx * 64 + i"
    have "Suc idx * 64 \<le> ?n * 64" using that(1) by (intro mult_le_mono1 Suc_leI)
    then have x: "?x < 2 ^ 32" using that(2) n(2) small by simp
    have u: "u32_of (?x div chunk) = ?x div chunk" "u32_of (?x mod chunk) = ?x mod chunk"
      using x by (auto intro!: u32_of_small intro: le_less_trans [OF div_le_dividend] le_less_trans [OF mod_less_eq_dividend])
    have b: "res_bit v ?x \<longleftrightarrow> bit (fst v ! idx XOR fst (snd v) ! idx XOR snd (snd v) ! idx) i"
      using that(2) by (simp add: res_bit_def case_prod_unfold)
    have "total_len * (?x div chunk div ROTATIONS) + ?x mod chunk + off \<in> ?mk"
      if "?x div chunk < ql" "?x mod chunk < real_len" "res_bit v ?x"
      unfolding marks_def
      using that by (intro CollectI exI [where x = "?x div chunk"] exI [where x = "?x mod chunk"]) simp
    then have "u32_of (total_len * (?x div chunk div ROTATIONS) + ?x mod chunk + off) = total_len * (?x div chunk div ROTATIONS) + ?x mod chunk + off"
      if "?x div chunk < ql" "?x mod chunk < real_len" "res_bit v ?x"
      using that range by (intro u32_of_small) blast
    then show ?thesis by (simp add: u b Let_def)
  qed
  have img: "(\<exists>x \<in> set sched. ?tgt x = Some k) \<longleftrightarrow> k \<in> ?mk" for k
  proof
    assume "\<exists>x \<in> set sched. ?tgt x = Some k"
    then obtain idx i where "idx < ?n" "i < 64" "?tgt (idx, i) = Some k" using set_schedule [OF sched] by auto
    with tgt show "k \<in> ?mk" unfolding marks_def
      by (intro CollectI exI [where x = "(idx * 64 + i) div chunk"] exI [where x = "(idx * 64 + i) mod chunk"])
        (auto simp: Let_def split: if_splits)
  next
    assume "k \<in> ?mk"
    then obtain q r where qr: "q < ql" "r < real_len" "res_bit v (q * chunk + r)" "k = total_len * (q div ROTATIONS) + r + off"
      by (auto simp: marks_def)
    let ?x = "q * chunk + r"
    have "Suc q * chunk \<le> ql * chunk" using qr(1) by (intro mult_le_mono1 Suc_leI)
    then have "?x < ?n * 64" using qr(2) chunk n(1) by (simp add: mult.commute)
    then have "?x div 64 < ?n" "?x mod 64 < 64" by (simp_all add: div_less_iff_less_mult)
    moreover from tgt [OF this] have "?tgt (?x div 64, ?x mod 64) = Some k" using qr chunk by simp
    ultimately show "\<exists>x \<in> set sched. ?tgt x = Some k" using set_schedule [OF sched] by (intro bexI [of _ "(?x div 64, ?x mod 64)"]) auto
  qed
  have "bitmap (fold (set_bits ?tgt) sched out) j \<longleftrightarrow> bitmap out j \<or> (\<exists>x \<in> set sched. ?tgt x = Some j)"
  proof (rule bitmap_set_bits)
    fix x k assume "x \<in> set sched" "?tgt x = Some k"
    then have "k \<in> ?mk" using img by blast
    then show "k < 64 * length out" using range by blast
  qed
  then show "bitmap (openResults (fst v) (fst (snd v)) (snd (snd v)) out chunk ql off real_len total_len sched) j
      \<longleftrightarrow> bitmap out j \<or> j \<in> ?mk"
    unfolding openResults_def open_iteration_set_bits img .
  show "length (openResults (fst v) (fst (snd v)) (snd (snd v)) out chunk ql off real_len total_len sched) = length out"
    by (simp add: openResults_def open_iteration_set_bits)
qed

section \<open>The chunk loop\<close>

lemma chunk_pos: "0 < DB_CHUNK_SIZE"
  by (simp add: DB_CHUNK_SIZE_def)

lemma chunk_sizes_nth:
  assumes "d < length sizes" "sizes ! d < 2 ^ 64" "c * DB_CHUNK_SIZE \<le> sizes ! d"
  shows "chunk_sizes sizes c ! d = max 1 (min DB_CHUNK_SIZE (sizes ! d - c * DB_CHUNK_SIZE))"
proof -
  let ?x = "DB_CHUNK_SIZE * c"
  have x: "?x \<le> sizes ! d" "?x < 2 ^ 64" using assms(2,3) by (simp_all add: mult.commute)
  then have "(sizes ! d + (2 ^ 64 - ?x mod 2 ^ 64)) mod 2 ^ 64 = (sizes ! d - ?x + 2 ^ 64) mod 2 ^ 64" by simp
  also have "\<dots> = sizes ! d - ?x" using assms(2) by (simp del: mod_add_self2 add: mod_add_self2)
  finally show ?thesis using assms(1) by (simp add: chunk_sizes_def mult.commute)
qed

lemma chunk_sizes_bounds:
  assumes "d < length sizes"
  shows "0 < chunk_sizes sizes c ! d" "chunk_sizes sizes c ! d \<le> DB_CHUNK_SIZE"
    "chunk_sizes sizes c ! d \<le> dot_chunk_size (chunk_sizes sizes c) ! d" "dot_chunk_size (chunk_sizes sizes c) ! d \<le> DB_CHUNK_SIZE"
proof -
  show le: "0 < chunk_sizes sizes c ! d" "chunk_sizes sizes c ! d \<le> DB_CHUNK_SIZE"
    using assms chunk_pos by (auto simp: chunk_sizes_def)
  have len: "d < length (chunk_sizes sizes c)" using assms by (simp add: chunk_sizes_def)
  have "div_ceil (2 ^ 15) 64 * 64 = (2 ^ 15 :: nat)" by (simp add: div_ceil_def)
  moreover have "div_ceil (chunk_sizes sizes c ! d) 64 * 64 \<le> div_ceil (2 ^ 15) 64 * 64"
    unfolding div_ceil_def using le(2) by (intro mult_le_mono1 div_le_mono) (simp add: DB_CHUNK_SIZE_def)
  ultimately show "dot_chunk_size (chunk_sizes sizes c) ! d \<le> DB_CHUNK_SIZE"
    using len by (simp add: dot_chunk_size_def DB_CHUNK_SIZE_def)
  have "chunk_sizes sizes c ! d \<le> div_ceil (chunk_sizes sizes c ! d) 64 * 64" unfolding div_ceil_def by linarith
  then show "chunk_sizes sizes c ! d \<le> dot_chunk_size (chunk_sizes sizes c) ! d" using len by (simp add: dot_chunk_size_def)
qed

text \<open>The positions that chunk \<open>c\<close> marks on device \<open>d\<close>, and the chunks the loop visits from \<open>c\<close> on.\<close>

definition chunk_marks :: "nat \<Rightarrow> (nat \<Rightarrow> (u64 list \<times> u64 list \<times> u64 list) list) \<Rightarrow> nat list \<Rightarrow> nat \<Rightarrow> nat \<Rightarrow> nat set" where
  "chunk_marks ql views sizes d c =
     marks ql (views c ! d) (dot_chunk_size (chunk_sizes sizes c) ! d) (chunk_sizes sizes c ! d) (c * DB_CHUNK_SIZE) (sizes ! d)"

definition visited :: "nat list \<Rightarrow> nat \<Rightarrow> nat \<Rightarrow> bool" where
  "visited sizes c c' \<longleftrightarrow> c' = c \<or> c < c' \<and> c' * DB_CHUNK_SIZE < Max (set sizes)"

lemma visited_step:
  "visited sizes c c' \<longleftrightarrow> c' = c \<or> (c + 1) * DB_CHUNK_SIZE < Max (set sizes) \<and> visited sizes (c + 1) c'"
proof -
  have "(c + 1) * DB_CHUNK_SIZE < Max (set sizes)" if "c < c'" "c' * DB_CHUNK_SIZE < Max (set sizes)"
    using that mult_le_mono1 [of "c + 1" c' DB_CHUNK_SIZE] by simp
  then show ?thesis by (auto simp: visited_def)
qed

definition schedules_ok :: "nat \<Rightarrow> nat list \<Rightarrow> (nat \<Rightarrow> (nat \<times> nat) list list) \<Rightarrow> bool" where
  "schedules_ok ql sizes scheds \<longleftrightarrow> (\<forall>c. \<forall>d < length sizes.
     schedule (div_ceil (dot_chunk_size (chunk_sizes sizes c) ! d * ql) 64) (scheds c ! d))"

lemma db_chunk_loop_bits:
  assumes "d < length sizes" "0 < sizes ! d" "schedules_ok ql sizes scheds" "DB_CHUNK_SIZE * ql + 64 \<le> 2 ^ 32"
    and "length bitmaps = length sizes"
    and "\<And>c' k. visited sizes c c' \<Longrightarrow> k \<in> chunk_marks ql views sizes d c' \<Longrightarrow> k < 64 * length (bitmaps ! d) \<and> k < 2 ^ 32"
  shows "(bitmap (db_chunk_loop ql views scheds sizes c bitmaps ! d) j
      \<longleftrightarrow> bitmap (bitmaps ! d) j \<or> (\<exists>c'. visited sizes c c' \<and> j \<in> chunk_marks ql views sizes d c'))
    \<and> length (db_chunk_loop ql views scheds sizes c bitmaps) = length sizes
    \<and> length (db_chunk_loop ql views scheds sizes c bitmaps ! d) = length (bitmaps ! d)"
  using assms
proof (induction ql views scheds sizes c bitmaps rule: db_chunk_loop.induct)
  case (1 ql views scheds sizes c bitmaps)
  let ?cs = "chunk_sizes sizes c"
  let ?b = "open_results ql (views c) bitmaps (dot_chunk_size ?cs) ?cs (c * DB_CHUNK_SIZE) sizes (map (\<lambda>s. s = 0) sizes) (scheds c)"
  have small: "dot_chunk_size ?cs ! d * ql + 64 \<le> 2 ^ 32"
    using mult_le_mono1 [OF chunk_sizes_bounds(4) [OF "1.prems"(1), of c], of ql] "1.prems"(4) by linarith
  have sched: "schedule (div_ceil (dot_chunk_size ?cs ! d * ql) 64) (scheds c ! d)"
    using "1.prems"(1,3) by (simp add: schedules_ok_def)
  have open_d: "?b ! d = openResults (fst (views c ! d)) (fst (snd (views c ! d))) (snd (snd (views c ! d))) (bitmaps ! d)
      (dot_chunk_size ?cs ! d) ql (c * DB_CHUNK_SIZE) (?cs ! d) (sizes ! d) (scheds c ! d)"
    using "1.prems"(1,2,5) by (simp add: open_results_def case_prod_unfold)
  have range: "k < 64 * length (bitmaps ! d) \<and> k < 2 ^ 32"
    if "k \<in> marks ql (views c ! d) (dot_chunk_size ?cs ! d) (?cs ! d) (c * DB_CHUNK_SIZE) (sizes ! d)" for k
    using that "1.prems"(6) [of c k] by (simp add: chunk_marks_def visited_def)
  have dot_pos: "0 < dot_chunk_size ?cs ! d" using chunk_sizes_bounds(1,3) [OF "1.prems"(1), of c] by linarith
  note opened = openResults_bits [where v = "views c ! d" and off = "c * DB_CHUNK_SIZE" and total_len = "sizes ! d" and out = "bitmaps ! d"
    and real_len = "?cs ! d", OF sched dot_pos chunk_sizes_bounds(3) [OF "1.prems"(1)] small range, folded open_d]
  have b: "bitmap (?b ! d) j \<longleftrightarrow> bitmap (bitmaps ! d) j \<or> j \<in> chunk_marks ql views sizes d c"
    "length (?b ! d) = length (bitmaps ! d)" "length ?b = length sizes"
    using opened(1) [of j] opened(2) "1.prems"(5) by (simp_all add: chunk_marks_def) (simp add: open_results_def)
  show ?case
  proof (cases "(c + 1) * DB_CHUNK_SIZE \<ge> Max (set sizes)")
    case True
    then have "db_chunk_loop ql views scheds sizes c bitmaps = ?b" by (simp add: db_chunk_loop.simps [of ql] Let_def)
    moreover have "visited sizes c c' \<longleftrightarrow> c' = c" for c' using True visited_step [of sizes c c'] by auto
    ultimately show ?thesis using b by simp
  next
    case False
    then have eq: "db_chunk_loop ql views scheds sizes c bitmaps = db_chunk_loop ql views scheds sizes (c + 1) ?b"
      by (simp add: db_chunk_loop.simps [of ql _ _ _ c] Let_def)
    have vis: "visited sizes c c' \<longleftrightarrow> c' = c \<or> visited sizes (c + 1) c'" for c' using False visited_step [of sizes c c'] by auto
    have "(bitmap (db_chunk_loop ql views scheds sizes (c + 1) ?b ! d) j
        \<longleftrightarrow> bitmap (?b ! d) j \<or> (\<exists>c'. visited sizes (c + 1) c' \<and> j \<in> chunk_marks ql views sizes d c'))
      \<and> length (db_chunk_loop ql views scheds sizes (c + 1) ?b) = length sizes
      \<and> length (db_chunk_loop ql views scheds sizes (c + 1) ?b ! d) = length (?b ! d)"
      using False b "1.prems" vis by (intro "1.IH") (auto simp: Let_def)
    then show ?thesis using b vis eq by auto
  qed
qed

section \<open>The search\<close>

text \<open>
  Entry \<open>e\<close> of device \<open>d\<close> is a hit of query \<open>s\<close> when one of the rotations has a positive opened result in the
  chunk that holds the entry.
\<close>

definition hit :: "(nat \<Rightarrow> (u64 list \<times> u64 list \<times> u64 list) list) \<Rightarrow> nat list \<Rightarrow> nat \<Rightarrow> nat \<Rightarrow> nat \<Rightarrow> bool" where
  "hit views sizes d s e \<longleftrightarrow> (let c = e div DB_CHUNK_SIZE in
     \<exists>rot < ROTATIONS. res_bit (views c ! d) ((s * ROTATIONS + rot) * dot_chunk_size (chunk_sizes sizes c) ! d + e mod DB_CHUNK_SIZE))"

definition same_chunks :: "nat list \<Rightarrow> nat \<Rightarrow> bool" where
  "same_chunks sizes d \<longleftrightarrow> (Max (set sizes) - 1) div DB_CHUNK_SIZE = (sizes ! d - 1) div DB_CHUNK_SIZE"

lemma same_chunks_visited:
  assumes "0 < sizes ! d" "sizes ! d \<le> Max (set sizes)" "same_chunks sizes d"
  shows "visited sizes 0 c \<longleftrightarrow> c * DB_CHUNK_SIZE < sizes ! d"
proof -
  have "c * DB_CHUNK_SIZE < m \<longleftrightarrow> c \<le> (m - 1) div DB_CHUNK_SIZE" if "0 < m" for m
    using that chunk_pos by (simp add: less_eq_div_iff_mult_less_eq) linarith
  then show ?thesis using assms by (auto simp: visited_def same_chunks_def)
qed

lemma entry_marks:
  assumes d: "d < length sizes" "0 < sizes ! d" "sizes ! d < 2 ^ 64"
  shows "k \<in> (\<Union>c \<in> {c. c * DB_CHUNK_SIZE < sizes ! d}. chunk_marks (n * ROTATIONS) views sizes d c)
    \<longleftrightarrow> (\<exists>s e. s < n \<and> e < sizes ! d \<and> k = sizes ! d * s + e \<and> hit views sizes d s e)"
proof -
  have cs: "chunk_sizes sizes c ! d = min DB_CHUNK_SIZE (sizes ! d - c * DB_CHUNK_SIZE)" if "c * DB_CHUNK_SIZE < sizes ! d" for c
    using chunk_sizes_nth [OF d(1) d(3)] that chunk_pos by simp
  show ?thesis
  proof
    assume "k \<in> (\<Union>c \<in> {c. c * DB_CHUNK_SIZE < sizes ! d}. chunk_marks (n * ROTATIONS) views sizes d c)"
    then obtain c q r where c: "c * DB_CHUNK_SIZE < sizes ! d" and q: "q < n * ROTATIONS" and r: "r < chunk_sizes sizes c ! d"
      and res: "res_bit (views c ! d) (q * dot_chunk_size (chunk_sizes sizes c) ! d + r)"
      and k: "k = sizes ! d * (q div ROTATIONS) + r + c * DB_CHUNK_SIZE"
      unfolding chunk_marks_def marks_def by blast
    have r: "r < DB_CHUNK_SIZE" "r + c * DB_CHUNK_SIZE < sizes ! d" using r cs [OF c] by auto
    then have e: "(r + c * DB_CHUNK_SIZE) div DB_CHUNK_SIZE = c" "(r + c * DB_CHUNK_SIZE) mod DB_CHUNK_SIZE = r" by simp_all
    have "hit views sizes d (q div ROTATIONS) (r + c * DB_CHUNK_SIZE)"
      unfolding hit_def Let_def e using res by (intro exI [where x = "q mod ROTATIONS"]) (simp add: ROTATIONS_def)
    moreover have "q div ROTATIONS < n" using q by (simp add: div_less_iff_less_mult ROTATIONS_def)
    ultimately show "\<exists>s e. s < n \<and> e < sizes ! d \<and> k = sizes ! d * s + e \<and> hit views sizes d s e"
      using r(2) k by (metis add.assoc)
  next
    assume "\<exists>s e. s < n \<and> e < sizes ! d \<and> k = sizes ! d * s + e \<and> hit views sizes d s e"
    then obtain s e rot where s: "s < n" and e: "e < sizes ! d" and k: "k = sizes ! d * s + e" and rot: "rot < ROTATIONS"
      and res: "res_bit (views (e div DB_CHUNK_SIZE) ! d)
        ((s * ROTATIONS + rot) * dot_chunk_size (chunk_sizes sizes (e div DB_CHUNK_SIZE)) ! d + e mod DB_CHUNK_SIZE)"
      unfolding hit_def Let_def by blast
    let ?c = "e div DB_CHUNK_SIZE" and ?q = "s * ROTATIONS + rot"
    have ce: "?c * DB_CHUNK_SIZE + e mod DB_CHUNK_SIZE = e" by simp
    then have c: "?c * DB_CHUNK_SIZE < sizes ! d" using e by linarith
    have "e mod DB_CHUNK_SIZE < chunk_sizes sizes ?c ! d"
      unfolding cs [OF c] using ce e chunk_pos by (simp add: less_diff_conv add.commute)
    moreover have "?q div ROTATIONS = s" using rot by simp
    moreover have "Suc s * ROTATIONS \<le> n * ROTATIONS" using s by (intro mult_le_mono1 Suc_leI)
    then have "?q < n * ROTATIONS" using rot by simp
    ultimately have "k \<in> chunk_marks (n * ROTATIONS) views sizes d ?c"
      unfolding chunk_marks_def marks_def using res k ce
      by (intro CollectI exI [where x = ?q] exI [where x = "e mod DB_CHUNK_SIZE"]) auto
    then show "k \<in> (\<Union>c \<in> {c. c * DB_CHUNK_SIZE < sizes ! d}. chunk_marks (n * ROTATIONS) views sizes d c)" using c by blast
  qed
qed

lemma search_marks:
  assumes d: "d < length sizes" "0 < sizes ! d" "sizes ! d < 2 ^ 64" "same_chunks sizes d"
  shows "k \<in> (\<Union>c \<in> {c. visited sizes 0 c}. chunk_marks (n * ROTATIONS) views sizes d c)
    \<longleftrightarrow> (\<exists>s e. s < n \<and> e < sizes ! d \<and> k = sizes ! d * s + e \<and> hit views sizes d s e)"
proof -
  have "sizes ! d \<le> Max (set sizes)" using d(1) by (intro Max_ge) auto
  then show ?thesis using entry_marks [OF d(1-3)] same_chunks_visited [OF d(2) _ d(4)] by simp
qed

text \<open>
  The chunk after the last one of a device that ends at a boundary: its size is raised to one row, and what is
  computed there for query \<open>s\<close> is marked at the first entry of query \<open>s + 1\<close>.
\<close>

definition stray :: "(nat \<Rightarrow> (u64 list \<times> u64 list \<times> u64 list) list) \<Rightarrow> nat \<Rightarrow> nat \<Rightarrow> nat \<Rightarrow> bool" where
  "stray views K d s \<longleftrightarrow> (\<exists>rot < ROTATIONS. res_bit (views K ! d) ((s * ROTATIONS + rot) * 64))"

lemma boundary_marks:
  assumes d: "d < length sizes" "sizes ! d = K * DB_CHUNK_SIZE" "sizes ! d < 2 ^ 64"
  shows "k \<in> chunk_marks (n * ROTATIONS) views sizes d K \<longleftrightarrow> (\<exists>s < n. k = sizes ! d * (s + 1) \<and> stray views K d s)"
proof -
  have one: "chunk_sizes sizes K ! d = 1" using chunk_sizes_nth [OF d(1,3), of K] d(2) by simp
  then have dot: "dot_chunk_size (chunk_sizes sizes K) ! d = 64"
    using d(1) by (simp add: dot_chunk_size_def div_ceil_def chunk_sizes_def)
  have q: "q < n * ROTATIONS \<longleftrightarrow> q div ROTATIONS < n" for q by (simp add: div_less_iff_less_mult ROTATIONS_def)
  have "k \<in> chunk_marks (n * ROTATIONS) views sizes d K
      \<longleftrightarrow> (\<exists>q. q div ROTATIONS < n \<and> k = sizes ! d * (q div ROTATIONS + 1) \<and> res_bit (views K ! d) (q * 64))"
    unfolding chunk_marks_def marks_def one dot by (auto simp: q d(2))
  also have "\<dots> \<longleftrightarrow> (\<exists>s < n. k = sizes ! d * (s + 1) \<and> stray views K d s)"
  proof
    assume "\<exists>q. q div ROTATIONS < n \<and> k = sizes ! d * (q div ROTATIONS + 1) \<and> res_bit (views K ! d) (q * 64)"
    then obtain q where "q div ROTATIONS < n" "k = sizes ! d * (q div ROTATIONS + 1)" "res_bit (views K ! d) ((q div ROTATIONS * ROTATIONS + q mod ROTATIONS) * 64)"
      by (auto simp only: div_mult_mod_eq)
    moreover have "q mod ROTATIONS < ROTATIONS" by (simp add: ROTATIONS_def)
    ultimately show "\<exists>s < n. k = sizes ! d * (s + 1) \<and> stray views K d s" unfolding stray_def by blast
  next
    assume "\<exists>s < n. k = sizes ! d * (s + 1) \<and> stray views K d s"
    then obtain s rot where s: "s < n" "k = sizes ! d * (s + 1)" and rot: "rot < ROTATIONS" "res_bit (views K ! d) ((s * ROTATIONS + rot) * 64)"
      unfolding stray_def by blast
    then have "(s * ROTATIONS + rot) div ROTATIONS = s" by simp
    then show "\<exists>q. q div ROTATIONS < n \<and> k = sizes ! d * (q div ROTATIONS + 1) \<and> res_bit (views K ! d) (q * 64)" using s rot(2) by metis
  qed
  finally show ?thesis .
qed

lemma boundary_visited:
  assumes "d < length sizes" "sizes ! d = K * DB_CHUNK_SIZE" "0 < K" "sizes ! d < Max (set sizes)" "Max (set sizes) \<le> (K + 1) * DB_CHUNK_SIZE"
  shows "visited sizes 0 c \<longleftrightarrow> c * DB_CHUNK_SIZE < sizes ! d \<or> c = K"
proof -
  have "c * DB_CHUNK_SIZE < Max (set sizes) \<longleftrightarrow> c \<le> K"
  proof
    assume "c * DB_CHUNK_SIZE < Max (set sizes)"
    then have "c * DB_CHUNK_SIZE < (K + 1) * DB_CHUNK_SIZE" using assms(5) by (rule less_le_trans)
    then have "c < K + 1" unfolding mult_less_cancel2 by blast
    then show "c \<le> K" by simp
  next
    assume "c \<le> K"
    then have "c * DB_CHUNK_SIZE \<le> sizes ! d" unfolding assms(2) by (rule mult_le_mono1)
    then show "c * DB_CHUNK_SIZE < Max (set sizes)" using assms(4) by linarith
  qed
  moreover have "c * DB_CHUNK_SIZE < sizes ! d \<longleftrightarrow> c < K" unfolding assms(2) using chunk_pos by simp
  ultimately show ?thesis using assms(3) by (auto simp: visited_def)
qed

lemma position_unique:
  fixes len s e s' e' :: nat
  shows "len * s + e = len * s' + e' \<Longrightarrow> e < len \<Longrightarrow> e' < len \<Longrightarrow> s' = s \<and> e' = e"
  by (metis add_left_cancel div_less div_mult_self4 le_less_trans less_nat_zero_code add_0_right zero_le)

lemma bitmap_zero: "k < 64 * m \<Longrightarrow> \<not> bitmap (replicate m 0) k"
  by (simp add: bitmap_def div_less_iff_less_mult mult.commute)

lemma db_chunk_loop_hits:
  assumes d: "d < length sizes" "0 < sizes ! d" "sizes ! d < 2 ^ 64" "same_chunks sizes d"
    and sched: "schedules_ok (n * ROTATIONS) sizes scheds" and small: "DB_CHUNK_SIZE * (n * ROTATIONS) + 64 \<le> 2 ^ 32"
    and bm: "length bitmaps = length sizes" "bitmaps ! d = replicate m 0" "sizes ! d * n \<le> 64 * m" "sizes ! d * n \<le> 2 ^ 32"
    and se: "s < n" "e < sizes ! d"
  shows "bitmap (db_chunk_loop (n * ROTATIONS) views scheds sizes 0 bitmaps ! d) (sizes ! d * s + e) \<longleftrightarrow> hit views sizes d s e"
proof -
  have lt: "sizes ! d * s + e < sizes ! d * n" if "s < n" "e < sizes ! d" for s e
    using mult_le_mono2 [of "Suc s" n "sizes ! d"] that by simp
  note marks = search_marks [OF d, of _ n views]
  have range: "k < 64 * length (bitmaps ! d) \<and> k < 2 ^ 32"
    if "visited sizes 0 c" "k \<in> chunk_marks (n * ROTATIONS) views sizes d c" for c k
  proof -
    have "\<exists>s e. s < n \<and> e < sizes ! d \<and> k = sizes ! d * s + e \<and> hit views sizes d s e" using that marks by blast
    then have "k < sizes ! d * n" using lt by blast
    then show ?thesis using bm by simp
  qed
  have "bitmap (db_chunk_loop (n * ROTATIONS) views scheds sizes 0 bitmaps ! d) (sizes ! d * s + e)
      \<longleftrightarrow> (\<exists>c. visited sizes 0 c \<and> sizes ! d * s + e \<in> chunk_marks (n * ROTATIONS) views sizes d c)"
    using db_chunk_loop_bits [OF d(1,2) sched small bm(1) range, where j = "sizes ! d * s + e"] bitmap_zero [of "sizes ! d * s + e" m]
      lt [OF se] bm by auto
  also have "\<dots> \<longleftrightarrow> (\<exists>s' e'. s' < n \<and> e' < sizes ! d \<and> sizes ! d * s + e = sizes ! d * s' + e' \<and> hit views sizes d s' e')"
    using marks [of "sizes ! d * s + e"] by blast
  also have "\<dots> \<longleftrightarrow> hit views sizes d s e"
  proof -
    have "s' = s \<and> e' = e" if "sizes ! d * s + e = sizes ! d * s' + e'" "e' < sizes ! d" for s' e'
      using that(1) se(2) that(2) by (rule position_unique)
    then show ?thesis using se by blast
  qed
  finally show ?thesis .
qed

lemma db_chunk_loop_boundary:
  assumes d: "d < length sizes" "sizes ! d = K * DB_CHUNK_SIZE" "0 < K" "sizes ! d < 2 ^ 64"
    and longer: "sizes ! d < Max (set sizes)" "Max (set sizes) \<le> (K + 1) * DB_CHUNK_SIZE"
    and sched: "schedules_ok (n * ROTATIONS) sizes scheds" and small: "DB_CHUNK_SIZE * (n * ROTATIONS) + 64 \<le> 2 ^ 32"
    and bm: "length bitmaps = length sizes" "bitmaps ! d = replicate m 0" "sizes ! d * n < 64 * m" "sizes ! d * n < 2 ^ 32"
    and se: "s < n" "e < sizes ! d"
  shows "bitmap (db_chunk_loop (n * ROTATIONS) views scheds sizes 0 bitmaps ! d) (sizes ! d * s + e)
    \<longleftrightarrow> hit views sizes d s e \<or> 0 < s \<and> e = 0 \<and> stray views K d (s - 1)"
proof -
  have pos: "0 < sizes ! d" using se(2) by simp
  have lt: "sizes ! d * s + e \<le> sizes ! d * n" if "s < n" "e < sizes ! d" for s e
    using mult_le_mono2 [of "Suc s" n "sizes ! d"] that by simp
  note vis = boundary_visited [OF d(1-3) longer]
  note entry = entry_marks [OF d(1) pos d(4), of _ n views] and last = boundary_marks [OF d(1,2,4), of _ n views]
  have range: "k < 64 * length (bitmaps ! d) \<and> k < 2 ^ 32"
    if c: "visited sizes 0 c" and k: "k \<in> chunk_marks (n * ROTATIONS) views sizes d c" for c k
  proof (cases "c = K")
    case True
    obtain s where "s < n" "k = sizes ! d * (s + 1)" using iffD1 [OF last k [unfolded True]] by blast
    then have "k \<le> sizes ! d * n" using mult_le_mono2 [of "s + 1" n "sizes ! d"] by simp
    then show ?thesis using bm by simp
  next
    case False
    then have "k \<in> (\<Union>c \<in> {c. c * DB_CHUNK_SIZE < sizes ! d}. chunk_marks (n * ROTATIONS) views sizes d c)" using c k vis by auto
    then obtain s e where "s < n" "e < sizes ! d" "k = sizes ! d * s + e" unfolding entry by blast
    then have "k \<le> sizes ! d * n" using lt by blast
    then show ?thesis using bm by simp
  qed
  let ?k = "sizes ! d * s + e"
  have "bitmap (db_chunk_loop (n * ROTATIONS) views scheds sizes 0 bitmaps ! d) ?k
      \<longleftrightarrow> (\<exists>c. visited sizes 0 c \<and> ?k \<in> chunk_marks (n * ROTATIONS) views sizes d c)"
    using db_chunk_loop_bits [OF d(1) pos sched small bm(1) range, where j = ?k] bitmap_zero [of ?k m] lt [OF se] bm by auto
  also have "\<dots> \<longleftrightarrow> (\<exists>s' e'. s' < n \<and> e' < sizes ! d \<and> ?k = sizes ! d * s' + e' \<and> hit views sizes d s' e')
      \<or> (\<exists>s' < n. ?k = sizes ! d * (s' + 1) \<and> stray views K d s')"
    unfolding entry [symmetric] last [symmetric] using vis by auto
  also have "(\<exists>s' e'. s' < n \<and> e' < sizes ! d \<and> ?k = sizes ! d * s' + e' \<and> hit views sizes d s' e') \<longleftrightarrow> hit views sizes d s e"
  proof -
    have "s' = s \<and> e' = e" if "?k = sizes ! d * s' + e'" "e' < sizes ! d" for s' e' using that(1) se(2) that(2) by (rule position_unique)
    then show ?thesis using se by blast
  qed
  also have "(\<exists>s' < n. ?k = sizes ! d * (s' + 1) \<and> stray views K d s') \<longleftrightarrow> 0 < s \<and> e = 0 \<and> stray views K d (s - 1)"
  proof
    assume "\<exists>s' < n. ?k = sizes ! d * (s' + 1) \<and> stray views K d s'"
    then obtain s' where "?k = sizes ! d * (s' + 1) + 0" "stray views K d s'" by auto
    then show "0 < s \<and> e = 0 \<and> stray views K d (s - 1)" using position_unique [OF _ se(2) pos, of s "s' + 1"] by auto
  next
    assume "0 < s \<and> e = 0 \<and> stray views K d (s - 1)"
    then show "\<exists>s' < n. ?k = sizes ! d * (s' + 1) \<and> stray views K d s'" using se(1) by (intro exI [where x = "s - 1"]) simp
  qed
  finally show ?thesis .
qed

section \<open>Match lists\<close>

text \<open>
  What the iterations record is a list of pairs of a query and an entry. For every query the counter is
  the number of its pairs, and the list holds the entries of the first 256 of them.
\<close>

definition entries_of :: "(nat \<times> 'v) list \<Rightarrow> nat \<Rightarrow> 'v list" where
  "entries_of evs q = map snd (filter (\<lambda>p. fst p = q) evs)"

definition recorded :: "nat \<Rightarrow> (nat \<times> u32) list \<Rightarrow> u32 list \<times> u32 list \<Rightarrow> bool" where
  "recorded n evs st \<longleftrightarrow> length (fst st) = n \<and> length (snd st) = ALL_MATCHES_LEN * n \<and> (\<forall>q < n.
     fst st ! q = of_nat (length (entries_of evs q)) \<and>
     (\<forall>k < min ALL_MATCHES_LEN (length (entries_of evs q)). snd st ! (ALL_MATCHES_LEN * q + k) = entries_of evs q ! k))"

definition record_all :: "(nat \<times> u32) list \<Rightarrow> u32 list \<times> u32 list \<Rightarrow> u32 list \<times> u32 list" where
  "record_all evs st = fold (\<lambda>(q, v). record_match q v) evs st"

lemma entries_of_append: "entries_of (xs @ ys) q = entries_of xs q @ entries_of ys q"
  by (simp add: entries_of_def)

lemma entries_of_const: "entries_of (map (\<lambda>p. (fst p, c)) evs) q = map (\<lambda>_. c) (entries_of evs q)"
  by (induction evs) (auto simp: entries_of_def)

lemma length_entries_of: "length (entries_of evs q) \<le> length evs"
  by (simp add: entries_of_def)

lemma slot_eq:
  assumes "k < ALL_MATCHES_LEN" "k' < ALL_MATCHES_LEN"
  shows "ALL_MATCHES_LEN * q + k = ALL_MATCHES_LEN * q' + k' \<longleftrightarrow> q = q' \<and> k = k'"
proof -
  have "(ALL_MATCHES_LEN * q + k) div ALL_MATCHES_LEN = q" "(ALL_MATCHES_LEN * q' + k') div ALL_MATCHES_LEN = q'"
    using assms by simp_all
  then show ?thesis by auto
qed

lemma slot_less: "q < n \<Longrightarrow> k < ALL_MATCHES_LEN \<Longrightarrow> ALL_MATCHES_LEN * q + k < ALL_MATCHES_LEN * n"
  using mult_le_mono2 [of "Suc q" n ALL_MATCHES_LEN] by simp

lemma record_match_recorded:
  assumes rec: "recorded n evs st" and q: "q < n" and len: "length evs < 2 ^ 32"
  shows "recorded n (evs @ [(q, v)]) (record_match q v st)"
proof -
  let ?m = "length (entries_of evs q)"
  have m: "unat (fst st ! q) = ?m"
    using rec q len length_entries_of [of evs q] by (simp add: recorded_def unat_of_nat take_bit_nat_eq_self)
  have new: "entries_of (evs @ [(q, v)]) q' = (if q' = q then entries_of evs q @ [v] else entries_of evs q')" for q'
    by (simp add: entries_of_def)
  show ?thesis unfolding recorded_def
  proof (intro conjI allI impI)
    show "length (fst (record_match q v st)) = n" "length (snd (record_match q v st)) = ALL_MATCHES_LEN * n"
      using rec by (simp_all add: recorded_def record_match_def case_prod_unfold Let_def)
  next
    fix q' assume "q' < n"
    then show "fst (record_match q v st) ! q' = of_nat (length (entries_of (evs @ [(q, v)]) q'))"
      using rec q by (auto simp: recorded_def record_match_def new case_prod_unfold Let_def nth_list_update)
  next
    fix q' k assume q': "q' < n" and k: "k < min ALL_MATCHES_LEN (length (entries_of (evs @ [(q, v)]) q'))"
    have old: "snd st ! (ALL_MATCHES_LEN * q' + k) = entries_of evs q' ! k" if "k < length (entries_of evs q')"
      using rec q' k that by (simp add: recorded_def)
    have snd: "snd (record_match q v st) = (if ?m < ALL_MATCHES_LEN then (snd st)[ALL_MATCHES_LEN * q + ?m := v] else snd st)"
      by (simp add: record_match_def case_prod_unfold Let_def m)
    have inside: "ALL_MATCHES_LEN * q + ?m < length (snd st)" if "?m < ALL_MATCHES_LEN"
      using slot_less [OF q that] rec by (simp add: recorded_def)
    show "snd (record_match q v st) ! (ALL_MATCHES_LEN * q' + k) = entries_of (evs @ [(q, v)]) q' ! k"
    proof (cases "q' = q \<and> k = ?m")
      case True
      then show ?thesis using k inside by (simp add: snd new)
    next
      case False
      then have "k < length (entries_of evs q')" using k by (auto simp: new split: if_splits)
      then show ?thesis using old False k slot_eq [of k ?m q' q] by (auto simp: snd new nth_append)
    qed
  qed
qed

lemma record_all_recorded:
  assumes "recorded n evs0 st" "\<forall>p \<in> set evs. fst p < n" "length evs0 + length evs \<le> 2 ^ 32"
  shows "recorded n (evs0 @ evs) (record_all evs st)"
  using assms
proof (induction evs arbitrary: evs0 st)
  case (Cons p evs)
  then have "recorded n (evs0 @ [p]) (record_match (fst p) (snd p) st)"
    using record_match_recorded [of n evs0 st "fst p" "snd p"] by simp
  from Cons.IH [OF this] show ?case using Cons.prems by (simp add: record_all_def case_prod_unfold)
qed (simp add: record_all_def)

lemma recorded_empty:
  "length entries = ALL_MATCHES_LEN * n \<Longrightarrow> recorded n [] (replicate n 0, entries)"
  by (simp add: recorded_def entries_of_def)

definition min_all :: "(nat \<times> u32) list \<Rightarrow> u32 list \<Rightarrow> u32 list" where
  "min_all evs ws = fold (\<lambda>(q, v). atomic_min q v) evs ws"

lemma min_all_nth:
  "q < length ws \<Longrightarrow> length (min_all evs ws) = length ws \<and> min_all evs ws ! q = Min (insert (ws ! q) (set (entries_of evs q)))"
proof (induction evs arbitrary: ws)
  case (Cons p evs)
  let ?ws = "atomic_min (fst p) (snd p) ws"
  have "?ws ! q = (if fst p = q then min (ws ! q) (snd p) else ws ! q)" "length ?ws = length ws"
    using Cons.prems by (auto simp: atomic_min_def nth_list_update)
  moreover have "Min (insert (min a b) S) = Min (insert a (insert b S))" if "finite S" for a b :: u32 and S
    using that by (cases "S = {}") (simp_all add: min.assoc)
  ultimately show ?case using Cons.IH [of ?ws] Cons.prems
    by (simp add: min_all_def entries_of_def case_prod_unfold)
qed (simp add: min_all_def entries_of_def)

section \<open>Merging\<close>

text \<open>The pairs that the iterations of the two kernels record.\<close>

definition db_event :: "(nat \<times> nat \<Rightarrow> bool) \<Rightarrow> nat \<Rightarrow> nat \<Rightarrow> nat \<times> nat \<Rightarrow> (nat \<times> u32) option" where
  "db_event found n db = (\<lambda>(idx, i).
     let q = u32_of ((idx * 64 + i) div db); e = u32_of ((idx * 64 + i) mod db)
     in if q < n \<and> e < db \<and> found (idx, i) then Some (q, of_nat e) else None)"

definition batch_event :: "(nat \<times> nat \<Rightarrow> bool) \<Rightarrow> nat \<Rightarrow> nat \<Rightarrow> nat \<times> nat \<Rightarrow> (nat \<times> u32) option" where
  "batch_event found n db = (\<lambda>(idx, i).
     let q = u32_of ((idx * 64 + i) div db); e = u32_of ((idx * 64 + i) mod db)
     in if q < n \<and> e < db \<and> 15 \<le> e \<and> (e - 15) mod ROTATIONS = 0 \<and> e div ROTATIONS < q \<and> found (idx, i)
        then Some (q, - 1 - of_nat (e div ROTATIONS)) else None)"

definition word_bit :: "u64 list \<Rightarrow> nat \<times> nat \<Rightarrow> bool" where
  "word_bit ws x \<longleftrightarrow> bit (ws ! fst x) (snd x)"

definition both_bits :: "u64 list \<Rightarrow> u64 list \<Rightarrow> nat \<times> nat \<Rightarrow> bool" where
  "both_bits L R x \<longleftrightarrow> word_bit L x \<and> word_bit R x"

lemma record_all_Cons: "record_all (p # evs) st = record_all evs (record_match (fst p) (snd p) st)"
  by (simp add: record_all_def case_prod_unfold)

lemma min_all_Cons: "min_all (p # evs) ws = min_all evs (atomic_min (fst p) (snd p) ws)"
  by (simp add: min_all_def case_prod_unfold)

lemma mergeDbResults_events:
  "mergeDbResults L R n db sched st =
     (let B = List.map_filter (db_event (both_bits L R) n db) sched;
          l = record_all (List.map_filter (db_event (word_bit L) n db) sched) (match_counters_left st, partial_results_left st);
          r = record_all (List.map_filter (db_event (word_bit R) n db) sched) (match_counters_right st, partial_results_right st);
          b = record_all B (match_counters st, all_matches st)
      in st\<lparr>final_results := min_all B (final_results st), match_counters := fst b, all_matches := snd b,
            match_counters_left := fst l, partial_results_left := snd l, match_counters_right := fst r, partial_results_right := snd r\<rparr>)"
proof (induction sched arbitrary: st)
  case Nil
  then show ?case by (simp add: mergeDbResults_def List.map_filter_simps record_all_def min_all_def)
next
  case (Cons x sched)
  have step: "mergeDbResults L R n db (x # sched) st = mergeDbResults L R n db sched (merge_db_iteration L R n db x st)"
    by (simp add: mergeDbResults_def)
  show ?case unfolding step Cons.IH
    by (cases x) (auto simp: merge_db_iteration_def db_event_def both_bits_def word_bit_def Let_def case_prod_unfold
      List.map_filter_simps record_all_Cons min_all_Cons)
qed

lemma mergeBatchResults_events:
  "mergeBatchResults L R n db sched st =
     (let B = List.map_filter (batch_event (both_bits L R) n db) sched;
          b = record_all B (match_counters st, all_matches st)
      in st\<lparr>final_results := min_all (map (\<lambda>p. (fst p, - 2)) B) (final_results st), match_counters := fst b, all_matches := snd b\<rparr>)"
proof (induction sched arbitrary: st)
  case Nil
  then show ?case by (simp add: mergeBatchResults_def List.map_filter_simps record_all_def min_all_def)
next
  case (Cons x sched)
  have step: "mergeBatchResults L R n db (x # sched) st = mergeBatchResults L R n db sched (merge_batch_iteration L R n db x st)"
    by (simp add: mergeBatchResults_def)
  show ?case unfolding step Cons.IH
    by (cases x) (auto simp: merge_batch_iteration_def batch_event_def both_bits_def word_bit_def Let_def case_prod_unfold
      List.map_filter_simps record_all_Cons min_all_Cons)
qed

lemma set_map_filter: "set (List.map_filter f xs) = {y. \<exists>x \<in> set xs. f x = Some y}"
  by (induction xs) (auto simp: List.map_filter_simps split: option.split)

lemma distinct_map_filter:
  assumes "distinct xs" "\<And>x y v. x \<in> set xs \<Longrightarrow> y \<in> set xs \<Longrightarrow> f x = Some v \<Longrightarrow> f y = Some v \<Longrightarrow> x = y"
  shows "distinct (List.map_filter f xs)"
  using assms
proof (induction xs)
  case (Cons x xs)
  have "distinct (List.map_filter f xs)" using Cons.prems by (intro Cons.IH) auto
  moreover have "v \<notin> set (List.map_filter f xs)" if "f x = Some v" for v
  proof
    assume "v \<in> set (List.map_filter f xs)"
    then obtain y where y: "y \<in> set xs" "f y = Some v" by (auto simp: set_map_filter)
    then have "x = y" using Cons.prems(2) [of x y v] that by simp
    then show False using y(1) Cons.prems(1) by simp
  qed
  ultimately show ?case by (auto simp: List.map_filter_simps split: option.split)
qed (simp add: List.map_filter_simps)

lemma entries_of_map_filter:
  "entries_of (List.map_filter f xs) q = List.map_filter (\<lambda>x. case f x of None \<Rightarrow> None | Some p \<Rightarrow> if fst p = q then Some (snd p) else None) xs"
  by (induction xs) (auto simp: entries_of_def List.map_filter_simps split: option.split)

lemma distinct_schedule: "schedule n sched \<Longrightarrow> distinct sched"
  unfolding schedule_def by (metis distinct_product distinct_upt mset_eq_imp_distinct_iff)

text \<open>A recorder whose query and entry are read off the position records every position of the grid once.\<close>

lemma grid_entries:
  assumes sched: "schedule (div_ceil (db * n) 64) sched" and q: "q < n"
    and ev: "\<And>idx i. idx * 64 + i < db * n + 64 \<Longrightarrow> i < 64 \<Longrightarrow> ev (idx, i) = (let x = idx * 64 + i in
      if x div db < n \<and> P (x div db) (x mod db) then Some (x div db, g (x mod db)) else None)"
    and inj: "inj_on g {e. e < db \<and> P q e}" and db: "0 < db"
  shows "set (entries_of (List.map_filter ev sched) q) = g ` {e. e < db \<and> P q e}"
    "distinct (entries_of (List.map_filter ev sched) q)"
proof -
  let ?n = "div_ceil (db * n) 64"
  let ?f = "\<lambda>x. case ev x of None \<Rightarrow> None | Some p \<Rightarrow> if fst p = q then Some (snd p) else None"
  have n: "db * n \<le> ?n * 64" "?n * 64 < db * n + 64" unfolding div_ceil_def by linarith+
  have ev': "?f (idx, i) = (let x = idx * 64 + i in if x div db = q \<and> P q (x mod db) then Some (g (x mod db)) else None)"
    if "idx < ?n" "i < 64" for idx i
  proof -
    have "Suc idx * 64 \<le> ?n * 64" using that(1) by (intro mult_le_mono1 Suc_leI)
    then have "idx * 64 + i < db * n + 64" using that(2) n(2) by simp
    then show ?thesis using ev [of idx i] that(2) q by (simp add: Let_def)
  qed
  show "set (entries_of (List.map_filter ev sched) q) = g ` {e. e < db \<and> P q e}"
    unfolding entries_of_map_filter set_map_filter set_schedule [OF sched]
  proof (intro set_eqI iffI)
    fix v assume "v \<in> {y. \<exists>x \<in> {0..<?n} \<times> {0..<64}. ?f x = Some y}"
    then obtain idx i where x: "idx < ?n" "i < 64" "?f (idx, i) = Some v" by auto
    then show "v \<in> g ` {e. e < db \<and> P q e}" using ev' [OF x(1,2)] db by (auto simp: Let_def split: if_splits)
  next
    fix v assume "v \<in> g ` {e. e < db \<and> P q e}"
    then obtain e where e: "e < db" "P q e" "v = g e" by auto
    let ?x = "q * db + e"
    have "Suc q * db \<le> n * db" using q by (intro mult_le_mono1 Suc_leI)
    then have "?x < ?n * 64" using e(1) n(1) by (simp add: mult.commute)
    then have x: "?x div 64 < ?n" "?x mod 64 < 64" by (simp_all add: div_less_iff_less_mult)
    have "?f (?x div 64, ?x mod 64) = Some v" using ev' [OF x] e by (simp add: Let_def)
    then show "v \<in> {y. \<exists>x \<in> {0..<?n} \<times> {0..<64}. ?f x = Some y}"
      using x by (intro CollectI bexI [of _ "(?x div 64, ?x mod 64)"]) auto
  qed
  show "distinct (entries_of (List.map_filter ev sched) q)" unfolding entries_of_map_filter
  proof (rule distinct_map_filter [OF distinct_schedule [OF sched]])
    fix x y v assume x: "x \<in> set sched" "y \<in> set sched" "?f x = Some v" "?f y = Some v"
    obtain a i b j where xy: "x = (a, i)" "y = (b, j)" "a < ?n" "b < ?n" "i < 64" "j < 64"
      using x(1,2) set_schedule [OF sched] by auto
    then have e: "(a * 64 + i) div db = q" "(b * 64 + j) div db = q" "P q ((a * 64 + i) mod db)" "P q ((b * 64 + j) mod db)"
      "g ((a * 64 + i) mod db) = g ((b * 64 + j) mod db)"
      using x(3,4) ev' [of a i] ev' [of b j] by (auto simp: Let_def split: if_splits)
    then have "(a * 64 + i) mod db = (b * 64 + j) mod db" using inj db by (auto dest: inj_onD)
    then have "a * 64 + i = b * 64 + j" using e(1,2) by (metis div_mod_decomp)
    then have "a = b \<and> i = j" using xy(5,6) by (metis div_mult_self3 div_less add.right_neutral add_left_imp_eq zero_neq_numeral)
    then show "x = y" using xy by simp
  qed
qed

text \<open>The entries of one device that match query \<open>q\<close> on both eyes, and the earlier queries of the batch that do.\<close>

definition db_hits :: "u64 list \<Rightarrow> u64 list \<Rightarrow> nat \<Rightarrow> nat \<Rightarrow> nat set" where
  "db_hits L R db q = {e. e < db \<and> bitmap L (q * db + e) \<and> bitmap R (q * db + e)}"

definition batch_hits :: "u64 list \<Rightarrow> u64 list \<Rightarrow> nat \<Rightarrow> nat \<Rightarrow> nat set" where
  "batch_hits L R n q = {t. t < q \<and> (let k = q * (n * ROTATIONS) + (t * ROTATIONS + 15) in bitmap L k \<and> bitmap R k)}"

lemma word_bit_bitmap: "i < 64 \<Longrightarrow> word_bit ws (idx, i) = bitmap ws (idx * 64 + i)"
  by (simp add: word_bit_def bitmap_def)

lemma finite_hits [simp]: "finite (db_hits L R db q)" "finite (batch_hits L R n q)"
  unfolding db_hits_def batch_hits_def by (rule finite_Collect_less_nat [THEN rev_finite_subset], auto)+

lemma of_nat_eq_small: "a < 2 ^ 32 \<Longrightarrow> b < 2 ^ 32 \<Longrightarrow> (of_nat a :: u32) = of_nat b \<Longrightarrow> a = b"
  by (drule arg_cong [where f = unat]) (simp add: unat_of_nat take_bit_nat_eq_self)

lemma db_event_entries:
  assumes sched: "schedule (div_ceil (db * n) 64) sched" and db: "0 < db" "db * n + 64 \<le> 2 ^ 32" and q: "q < n"
    and found: "\<And>idx i. i < 64 \<Longrightarrow> found (idx, i) \<longleftrightarrow> F (idx * 64 + i)"
  shows "set (entries_of (List.map_filter (db_event found n db) sched) q) = of_nat ` {e. e < db \<and> F (q * db + e)}"
    "distinct (entries_of (List.map_filter (db_event found n db) sched) q)"
proof -
  have small: "u32_of (x div db) = x div db" "u32_of (x mod db) = x mod db" if "x < db * n + 64" for x
    using that db(2) le_less_trans [OF div_le_dividend [of x db], of "2 ^ 32"] le_less_trans [OF mod_less_eq_dividend [of x db], of "2 ^ 32"]
    by (auto intro!: u32_of_small)
  have "db * 1 \<le> db * n" using q by (intro mult_le_mono2) simp
  then have "db \<le> 2 ^ 32" using db(2) by linarith
  then have inj: "inj_on (of_nat :: nat \<Rightarrow> u32) {e. e < db \<and> F (q * db + e)}"
    by (intro inj_onI) (auto intro: of_nat_eq_small)
  have ev: "db_event found n db (idx, i) = (let x = idx * 64 + i in
      if x div db < n \<and> F (x div db * db + x mod db) then Some (x div db, of_nat (x mod db)) else None)"
    if "idx * 64 + i < db * n + 64" "i < 64" for idx i
    using small [OF that(1)] db(1) found [OF that(2)] by (simp add: db_event_def Let_def)
  from grid_entries [where P = "\<lambda>q e. F (q * db + e)", OF sched q ev inj db(1)]
  show "set (entries_of (List.map_filter (db_event found n db) sched) q) = of_nat ` {e. e < db \<and> F (q * db + e)}"
    "distinct (entries_of (List.map_filter (db_event found n db) sched) q)" by blast+
qed

lemma batch_event_entries:
  assumes sched: "schedule (div_ceil (n * ROTATIONS * n) 64) sched" and db: "n * ROTATIONS * n + 64 \<le> 2 ^ 32" and q: "q < n"
  shows "set (entries_of (List.map_filter (batch_event (both_bits L R) n (n * ROTATIONS)) sched) q) = (\<lambda>t. - 1 - of_nat t) ` batch_hits L R n q"
    "distinct (entries_of (List.map_filter (batch_event (both_bits L R) n (n * ROTATIONS)) sched) q)"
proof -
  let ?db = "n * ROTATIONS" and ?g = "\<lambda>e. - 1 - of_nat (e div ROTATIONS) :: u32"
  let ?P = "\<lambda>q e. 15 \<le> e \<and> (e - 15) mod ROTATIONS = 0 \<and> e div ROTATIONS < q \<and> bitmap L (q * ?db + e) \<and> bitmap R (q * ?db + e)"
  have small: "u32_of (x div ?db) = x div ?db" "u32_of (x mod ?db) = x mod ?db" if "x < ?db * n + 64" for x
    using that db le_less_trans [OF div_le_dividend [of x ?db], of "2 ^ 32"] le_less_trans [OF mod_less_eq_dividend [of x ?db], of "2 ^ 32"]
    by (auto intro!: u32_of_small)
  have pos: "0 < ?db" using q by (simp add: ROTATIONS_def)
  have form: "e = e div ROTATIONS * ROTATIONS + 15" if "15 \<le> e" "(e - 15) mod ROTATIONS = 0" for e
    using that unfolding ROTATIONS_def by presburger
  have "n * ROTATIONS * 1 \<le> n * ROTATIONS * n" using q by (intro mult_le_mono2) simp
  then have n: "n < 2 ^ 32" using db unfolding ROTATIONS_def by linarith
  have inj: "inj_on ?g {e. e < ?db \<and> ?P q e}"
  proof (rule inj_onI)
    fix e e' assume e: "e \<in> {e. e < ?db \<and> ?P q e}" "e' \<in> {e. e < ?db \<and> ?P q e}" "?g e = ?g e'"
    then have "e div ROTATIONS = e' div ROTATIONS" using q n by (intro of_nat_eq_small) auto
    then show "e = e'" using form [of e] form [of e'] e(1,2) by simp
  qed
  have ev: "batch_event (both_bits L R) n ?db (idx, i) = (let x = idx * 64 + i in
      if x div ?db < n \<and> ?P (x div ?db) (x mod ?db) then Some (x div ?db, ?g (x mod ?db)) else None)"
    if "idx * 64 + i < ?db * n + 64" "i < 64" for idx i
    using small [OF that(1)] pos that(2) div_mult_mod_eq [of "idx * 64 + i" ?db] by (simp add: batch_event_def both_bits_def word_bit_bitmap Let_def)
  note entries = grid_entries [where P = ?P and g = ?g, OF sched q ev inj pos]
  have "?g ` {e. e < ?db \<and> ?P q e} = (\<lambda>t. - 1 - of_nat t) ` batch_hits L R n q"
  proof (intro equalityI subsetI)
    fix v assume "v \<in> ?g ` {e. e < ?db \<and> ?P q e}"
    then obtain e where "e < ?db" "?P q e" "v = ?g e" by auto
    then show "v \<in> (\<lambda>t. - 1 - of_nat t) ` batch_hits L R n q"
      using form [of e] by (intro image_eqI [of _ _ "e div ROTATIONS"]) (auto simp: batch_hits_def Let_def)
  next
    fix v :: u32 assume "v \<in> (\<lambda>t. - 1 - of_nat t) ` batch_hits L R n q"
    then obtain t where t: "t \<in> batch_hits L R n q" "v = - 1 - of_nat t" by auto
    have "Suc t * ROTATIONS \<le> n * ROTATIONS" using t(1) q by (intro mult_le_mono1) (simp add: batch_hits_def)
    then have "t * ROTATIONS + 15 < ?db" by (simp add: ROTATIONS_def)
    moreover have "(t * ROTATIONS + 15) div ROTATIONS = t" by (simp add: ROTATIONS_def)
    ultimately show "v \<in> ?g ` {e. e < ?db \<and> ?P q e}"
      using t by (intro image_eqI [of _ _ "t * ROTATIONS + 15"]) (auto simp: batch_hits_def Let_def)
  qed
  then show "set (entries_of (List.map_filter (batch_event (both_bits L R) n ?db) sched) q) = (\<lambda>t. - 1 - of_nat t) ` batch_hits L R n q"
    "distinct (entries_of (List.map_filter (batch_event (both_bits L R) n ?db) sched) q)" using entries by simp_all
qed

section \<open>The match lists of a batch\<close>

text \<open>
  The buffers of one device before the lists are built: the counters are zero and no result is set; the
  entries may be stale.
\<close>

definition fresh_buffers :: "nat \<Rightarrow> MatchBuffers \<Rightarrow> bool" where
  "fresh_buffers n st \<longleftrightarrow> final_results st = replicate n NON_MATCH_ID \<and>
     match_counters st = replicate n 0 \<and> length (all_matches st) = ALL_MATCHES_LEN * n \<and>
     match_counters_left st = replicate n 0 \<and> length (partial_results_left st) = ALL_MATCHES_LEN * n \<and>
     match_counters_right st = replicate n 0 \<and> length (partial_results_right st) = ALL_MATCHES_LEN * n"

text \<open>What the buffers of one device have to hold for query \<open>q\<close>: \<open>ids\<close> in the list, counted and with the least one.\<close>

definition match_list :: "u32 list \<Rightarrow> u32 list \<Rightarrow> nat \<Rightarrow> u32 list" where
  "match_list counters entries q = take (min (unat (counters ! q)) ALL_MATCHES_LEN) (drop (ALL_MATCHES_LEN * q) entries)"

lemma recorded_match_list:
  assumes "recorded n evs (c, e)" "q < n" "length evs < 2 ^ 32"
  shows "unat (c ! q) = length (entries_of evs q)" "match_list c e q = take ALL_MATCHES_LEN (entries_of evs q)"
proof -
  have len: "length (entries_of evs q) < 2 ^ 32" using assms(3) length_entries_of [of evs q] by linarith
  then show c: "unat (c ! q) = length (entries_of evs q)"
    using assms(1,2) by (simp add: recorded_def unat_of_nat take_bit_nat_eq_self)
  have room: "ALL_MATCHES_LEN * q + ALL_MATCHES_LEN \<le> length e"
    using assms(1,2) mult_le_mono2 [of "Suc q" n ALL_MATCHES_LEN] by (simp add: recorded_def)
  show "match_list c e q = take ALL_MATCHES_LEN (entries_of evs q)" unfolding match_list_def c
  proof (rule nth_equalityI)
    show "length (take (min (length (entries_of evs q)) ALL_MATCHES_LEN) (drop (ALL_MATCHES_LEN * q) e)) = length (take ALL_MATCHES_LEN (entries_of evs q))"
      using room by simp
  next
    fix k assume "k < length (take (min (length (entries_of evs q)) ALL_MATCHES_LEN) (drop (ALL_MATCHES_LEN * q) e))"
    then show "take (min (length (entries_of evs q)) ALL_MATCHES_LEN) (drop (ALL_MATCHES_LEN * q) e) ! k = take ALL_MATCHES_LEN (entries_of evs q) ! k"
      using assms(1,2) room by (simp add: recorded_def)
  qed
qed

lemma length_map_filter_le: "length (List.map_filter f xs) \<le> length xs"
  by (simp add: List.map_filter_def)

lemma length_schedule: "schedule n sched \<Longrightarrow> length sched = 64 * n"
  by (metis schedule_def size_mset length_product length_upt diff_zero mult.commute)

lemma length_events:
  assumes "schedule (div_ceil m 64) sched" shows "length (List.map_filter f sched) < m + 64"
proof -
  have "64 * div_ceil m 64 < m + 64" unfolding div_ceil_def by linarith
  then show ?thesis using length_map_filter_le [of f sched] length_schedule [OF assms] by linarith
qed

lemma events_query:
  "p \<in> set (List.map_filter (db_event found n db) sched) \<Longrightarrow> fst p < n"
  "p \<in> set (List.map_filter (batch_event found n db) sched) \<Longrightarrow> fst p < n"
  by (auto simp: set_map_filter db_event_def batch_event_def Let_def split: if_splits)

lemma length_distinct_image:
  assumes "set xs = g ` S" "distinct xs" "inj_on g S" shows "length xs = card S"
  using assms distinct_card [of xs] card_image [of g S] by simp

lemma recorded_fresh:
  assumes "recorded n (E1 @ E2) (c, e)" "q < n" "length E1 + length E2 < 2 ^ 32"
    and "set (entries_of E1 q) = f ` S" "distinct (entries_of E1 q)" "inj_on f S"
    and "set (entries_of E2 q) = g ` T" "distinct (entries_of E2 q)" "inj_on g T" "f ` S \<inter> g ` T = {}"
  shows "unat (c ! q) = card S + card T \<and> distinct (match_list c e q) \<and> set (match_list c e q) \<subseteq> f ` S \<union> g ` T \<and>
    length (match_list c e q) = min ALL_MATCHES_LEN (card S + card T) \<and>
    (card S + card T \<le> ALL_MATCHES_LEN \<longrightarrow> set (match_list c e q) = f ` S \<union> g ` T)"
proof -
  have len: "length (E1 @ E2) < 2 ^ 32" using assms(3) by simp
  note ml = recorded_match_list [OF assms(1,2) len]
  have "length (entries_of (E1 @ E2) q) = card S + card T" "distinct (entries_of (E1 @ E2) q)"
    "set (entries_of (E1 @ E2) q) = f ` S \<union> g ` T"
    using assms length_distinct_image [OF assms(4-6)] length_distinct_image [OF assms(7-9)] by (simp_all add: entries_of_append)
  then show ?thesis using ml set_take_subset [of ALL_MATCHES_LEN "entries_of (E1 @ E2) q"] by simp
qed

text \<open>All that a device records for the database and for the batch; a device without entries is skipped.\<close>

definition db_events :: "(nat \<times> nat \<Rightarrow> bool) \<Rightarrow> nat \<Rightarrow> nat \<Rightarrow> (nat \<times> nat) list \<Rightarrow> (nat \<times> u32) list" where
  "db_events found n db sched = (if db = 0 then [] else List.map_filter (db_event found n db) sched)"

definition batch_events :: "u64 list \<Rightarrow> u64 list \<Rightarrow> nat \<Rightarrow> (nat \<times> nat) list \<Rightarrow> (nat \<times> u32) list" where
  "batch_events L R n sched = List.map_filter (batch_event (both_bits L R) n (n * ROTATIONS)) sched"

lemma events_bounds:
  assumes "db = 0 \<or> schedule (div_ceil (db * n) 64) s1" "schedule (div_ceil (n * ROTATIONS * n) 64) s2"
  shows "length (db_events found n db s1) < db * n + 64" "length (batch_events L R n s2) < n * ROTATIONS * n + 64"
    "\<forall>p \<in> set (db_events found n db s1). fst p < n" "\<forall>p \<in> set (batch_events L R n s2). fst p < n"
  using assms length_events [of "db * n" s1] length_events [OF assms(2)] events_query
  by (auto simp: db_events_def batch_events_def)

lemma db_events_entries:
  assumes "db = 0 \<or> schedule (div_ceil (db * n) 64) sched" "db * n + 64 \<le> 2 ^ 32" "q < n"
    and "\<And>idx i. i < 64 \<Longrightarrow> found (idx, i) \<longleftrightarrow> F (idx * 64 + i)"
  shows "set (entries_of (db_events found n db sched) q) = of_nat ` {e. e < db \<and> F (q * db + e)}"
    "distinct (entries_of (db_events found n db sched) q)"
proof (atomize (full), cases "db = 0")
  case True
  then show "set (entries_of (db_events found n db sched) q) = of_nat ` {e. e < db \<and> F (q * db + e)} \<and>
    distinct (entries_of (db_events found n db sched) q)" by (simp add: db_events_def entries_of_def)
next
  case False
  then have s: "schedule (div_ceil (db * n) 64) sched" and db: "0 < db" using assms(1) by auto
  show "set (entries_of (db_events found n db sched) q) = of_nat ` {e. e < db \<and> F (q * db + e)} \<and>
    distinct (entries_of (db_events found n db sched) q)"
    using db_event_entries [OF s db assms(2,3), of found F] assms(4) False by (simp add: db_events_def)
qed

lemma db_entry_inj: "db \<le> 2 ^ 32 \<Longrightarrow> inj_on (of_nat :: nat \<Rightarrow> u32) {e. e < db \<and> P e}"
  by (auto intro!: inj_onI intro: of_nat_eq_small)

lemma batch_entry_inj: "q \<le> 2 ^ 32 \<Longrightarrow> inj_on (\<lambda>t. - 1 - of_nat t :: u32) {t. t < q \<and> P t}"
  by (auto intro!: inj_onI intro: of_nat_eq_small)

lemma batch_entry_unat: "t < 2 ^ 32 \<Longrightarrow> unat (- 1 - of_nat t :: u32) = 2 ^ 32 - 1 - t"
proof -
  assume t: "t < 2 ^ 32"
  then have "(- 1 - of_nat t :: u32) = of_nat (2 ^ 32 - 1 - t)" by (simp add: of_nat_diff)
  then show ?thesis by (simp add: unat_of_nat take_bit_nat_eq_self)
qed

lemma entries_disjoint:
  assumes "db + q \<le> 2 ^ 32"
  shows "(of_nat :: nat \<Rightarrow> u32) ` {e. e < db \<and> P e} \<inter> (\<lambda>t. - 1 - of_nat t) ` {t. t < q \<and> Q t} = {}"
proof -
  have "(of_nat e :: u32) \<noteq> - 1 - of_nat t" if "e < db" "t < q" for e t
  proof
    assume "(of_nat e :: u32) = - 1 - of_nat t"
    then have "unat (of_nat e :: u32) = 2 ^ 32 - 1 - t" using batch_entry_unat [of t] that assms by simp
    then show False using that assms by (simp add: unat_of_nat take_bit_nat_eq_self)
  qed
  then show ?thesis by fastforce
qed

lemma recorded_single:
  assumes "recorded n E (c, e)" "q < n" "length E < 2 ^ 32" "set (entries_of E q) = f ` S" "distinct (entries_of E q)" "inj_on f S"
  shows "unat (c ! q) = card S"
  using recorded_match_list(1) [OF assms(1-3)] length_distinct_image [OF assms(4-6)] by simp

text \<open>The buffers of one device after both kernels.\<close>

definition join_device ::
    "u64 list \<Rightarrow> u64 list \<Rightarrow> u64 list \<Rightarrow> u64 list \<Rightarrow> nat \<Rightarrow> nat \<Rightarrow> (nat \<times> nat) list \<Rightarrow> (nat \<times> nat) list \<Rightarrow> MatchBuffers \<Rightarrow> MatchBuffers" where
  "join_device L R BL BR n db s1 s2 st =
     mergeBatchResults BL BR n (n * ROTATIONS) s2 (if db = 0 then st else mergeDbResults L R n db s1 st)"

lemma join_device_events:
  fixes st s1 s2 L R BL BR n db
  defines "E1 \<equiv> db_events (both_bits L R) n db s1" and "E2 \<equiv> batch_events BL BR n s2" and "st' \<equiv> join_device L R BL BR n db s1 s2 st"
  shows "(match_counters st', all_matches st') = record_all (E1 @ E2) (match_counters st, all_matches st)"
    "final_results st' = min_all (E1 @ map (\<lambda>p. (fst p, - 2)) E2) (final_results st)"
    "(match_counters_left st', partial_results_left st') = record_all (db_events (word_bit L) n db s1) (match_counters_left st, partial_results_left st)"
    "(match_counters_right st', partial_results_right st') = record_all (db_events (word_bit R) n db s1) (match_counters_right st, partial_results_right st)"
  by (simp_all add: st'_def E1_def E2_def join_device_def mergeDbResults_events mergeBatchResults_events Let_def record_all_def
    min_all_def db_events_def batch_events_def)

lemma join_device_lists:
  fixes L R BL BR :: "u64 list"
  assumes fresh: "fresh_buffers n st" and q: "q < n"
    and sched: "db = 0 \<or> schedule (div_ceil (db * n) 64) s1" "schedule (div_ceil (n * ROTATIONS * n) 64) s2"
    and small: "db * n + n * ROTATIONS * n + 128 \<le> 2 ^ 32"
  defines "D \<equiv> db_hits L R db q" and "T \<equiv> batch_hits BL BR n q" and "st' \<equiv> join_device L R BL BR n db s1 s2 st"
  defines "ids \<equiv> match_list (match_counters st') (all_matches st') q"
  shows "unat (match_counters st' ! q) = card D + card T \<and> distinct ids \<and> set ids \<subseteq> of_nat ` D \<union> (\<lambda>t. - 1 - of_nat t) ` T \<and>
      length ids = min ALL_MATCHES_LEN (card D + card T) \<and>
      (card D + card T \<le> ALL_MATCHES_LEN \<longrightarrow> set ids = of_nat ` D \<union> (\<lambda>t. - 1 - of_nat t) ` T)"
    "final_results st' ! q = Min (insert NON_MATCH_ID (of_nat ` D \<union> (\<lambda>t. - 2) ` T))"
    "unat (match_counters_left st' ! q) = card {e. e < db \<and> bitmap L (q * db + e)}"
    "unat (match_counters_right st' ! q) = card {e. e < db \<and> bitmap R (q * db + e)}"
proof -
  let ?E1 = "db_events (both_bits L R) n db s1" and ?E2 = "batch_events BL BR n s2"
  note ev = join_device_events [where st = st and ?s1.0 = s1 and ?s2.0 = s2 and L = L and R = R and BL = BL and BR = BR and n = n and db = db, folded st'_def]
  note bounds = events_bounds [OF sched]
  have n: "db \<le> db * n" "n \<le> n * ROTATIONS * n" using q by (simp_all add: ROTATIONS_def)
  have db: "db * n + 64 \<le> 2 ^ 32" "n * ROTATIONS * n + 64 \<le> 2 ^ 32" "db \<le> 2 ^ 32" "q \<le> 2 ^ 32" "db + q \<le> 2 ^ 32" using small n q by linarith+
  note dbe = db_events_entries [OF sched(1) db(1) q]
  have D: "set (entries_of ?E1 q) = of_nat ` D" "distinct (entries_of ?E1 q)"
    using dbe [of "both_bits L R" "\<lambda>k. bitmap L k \<and> bitmap R k"] by (simp_all add: both_bits_def word_bit_bitmap D_def db_hits_def)
  have T: "set (entries_of ?E2 q) = (\<lambda>t. - 1 - of_nat t) ` T" "distinct (entries_of ?E2 q)"
    using batch_event_entries [OF sched(2) db(2) q] by (simp_all add: batch_events_def T_def)
  have inj: "inj_on (of_nat :: nat \<Rightarrow> u32) D" "inj_on (\<lambda>t. - 1 - of_nat t :: u32) T"
    "(of_nat :: nat \<Rightarrow> u32) ` D \<inter> (\<lambda>t. - 1 - of_nat t) ` T = {}"
    unfolding D_def db_hits_def T_def batch_hits_def by (rule db_entry_inj [OF db(3)] batch_entry_inj [OF db(4)] entries_disjoint [OF db(5)])+
  have len: "length ?E1 + length ?E2 < 2 ^ 32" using bounds(1) [of "both_bits L R"] bounds(2) [of BL BR] small by linarith
  have "recorded n (?E1 @ ?E2) (match_counters st', all_matches st')"
    unfolding ev(1) using fresh bounds(3) [of "both_bits L R"] bounds(4) [of BL BR] len
      record_all_recorded [OF recorded_empty, of "all_matches st" n "?E1 @ ?E2"]
    by (simp add: fresh_buffers_def ball_Un)
  from recorded_fresh [OF this q len D inj(1) T inj(2,3)]
  show "unat (match_counters st' ! q) = card D + card T \<and> distinct ids \<and> set ids \<subseteq> of_nat ` D \<union> (\<lambda>t. - 1 - of_nat t) ` T \<and>
      length ids = min ALL_MATCHES_LEN (card D + card T) \<and>
      (card D + card T \<le> ALL_MATCHES_LEN \<longrightarrow> set ids = of_nat ` D \<union> (\<lambda>t. - 1 - of_nat t) ` T)"
    unfolding ids_def .
  have "set (entries_of (map (\<lambda>p. (fst p, - 2 :: u32)) ?E2) q) = (\<lambda>t. - 2) ` T"
    unfolding entries_of_const using T(1) by (simp add: image_image)
  then show "final_results st' ! q = Min (insert NON_MATCH_ID (of_nat ` D \<union> (\<lambda>t. - 2) ` T))"
    unfolding ev(2) using min_all_nth [of q "final_results st"] fresh q D(1) by (simp add: fresh_buffers_def entries_of_append)
  have partial: "unat (c ! q) = card {e. e < db \<and> bitmap W (q * db + e)}"
    if "(c, e) = record_all (db_events (word_bit W) n db s1) (replicate n 0, e0)" "length e0 = ALL_MATCHES_LEN * n" for c e e0 W
  proof (rule recorded_single)
    show "recorded n (db_events (word_bit W) n db s1) (c, e)"
      unfolding that(1) using that(2) bounds(1,3) [of "word_bit W"] db(1) record_all_recorded [OF recorded_empty, of e0 n "db_events (word_bit W) n db s1"] by simp
    show "length (db_events (word_bit W) n db s1) < 2 ^ 32" using bounds(1) [of "word_bit W"] db(1) by linarith
    show "set (entries_of (db_events (word_bit W) n db s1) q) = of_nat ` {e. e < db \<and> bitmap W (q * db + e)}"
      "distinct (entries_of (db_events (word_bit W) n db s1) q)" using dbe [of "word_bit W" "bitmap W"] by (simp_all add: word_bit_bitmap)
  qed (use q db_entry_inj [OF db(3)] in auto)
  show "unat (match_counters_left st' ! q) = card {e. e < db \<and> bitmap L (q * db + e)}"
    "unat (match_counters_right st' ! q) = card {e. e < db \<and> bitmap R (q * db + e)}"
    using partial [of "match_counters_left st'"] partial [of "match_counters_right st'"] ev(3,4) fresh by (auto simp: fresh_buffers_def)
qed

section \<open>All devices\<close>

text \<open>The schedules of the two launches, and the bounds under which no index wraps.\<close>

definition joins_ok :: "nat \<Rightarrow> nat list \<Rightarrow> (nat \<times> nat) list list \<Rightarrow> (nat \<times> nat) list list \<Rightarrow> MatchBuffers list \<Rightarrow> bool" where
  "joins_ok n sizes s1 s2 bufs \<longleftrightarrow> (\<forall>d < length bufs. fresh_buffers n (bufs ! d) \<and>
     (sizes ! d = 0 \<or> schedule (div_ceil (sizes ! d * n) 64) (s1 ! d)) \<and> schedule (div_ceil (n * ROTATIONS * n) 64) (s2 ! d) \<and>
     sizes ! d * n + n * ROTATIONS * n + 128 \<le> 2 ^ 32)"

definition joined ::
    "nat \<Rightarrow> u64 list list \<Rightarrow> u64 list list \<Rightarrow> u64 list list \<Rightarrow> u64 list list \<Rightarrow> nat list \<Rightarrow> (nat \<times> nat) list list \<Rightarrow> (nat \<times> nat) list list
       \<Rightarrow> MatchBuffers list \<Rightarrow> MatchBuffers list" where
  "joined n L R BL BR sizes s1 s2 bufs =
     join_batch_matches (n * ROTATIONS) BL BR s2 (join_db_matches (n * ROTATIONS) L R sizes s1 bufs)"

lemma length_joined [simp]: "length (joined n L R BL BR sizes s1 s2 bufs) = length bufs"
  by (simp add: joined_def join_batch_matches_def join_db_matches_def join_matches_def)

lemma joined_nth:
  assumes "d < length bufs" "0 < n"
  shows "joined n L R BL BR sizes s1 s2 bufs ! d = join_device (L ! d) (R ! d) (BL ! d) (BR ! d) n (sizes ! d) (s1 ! d) (s2 ! d) (bufs ! d)"
proof -
  have "n * ROTATIONS div ROTATIONS = n" "n * ROTATIONS \<noteq> 0" using assms(2) by (simp_all add: ROTATIONS_def)
  then show ?thesis using assms(1)
    by (simp add: joined_def join_batch_matches_def join_db_matches_def join_matches_def join_device_def)
qed

lemma length_record_all: "length (fst (record_all evs st)) = length (fst st)" "length (snd (record_all evs st)) = length (snd st)"
  by (induction evs arbitrary: st) (simp_all add: record_all_def record_match_def case_prod_unfold Let_def)

lemma length_min_all [simp]: "length (min_all evs ws) = length ws"
  by (induction evs arbitrary: ws) (simp_all add: min_all_def atomic_min_def case_prod_unfold)

lemma length_joined_buffers:
  assumes "joins_ok n sizes s1 s2 bufs" "d < length bufs" "0 < n"
  shows "length (match_counters (joined n L R BL BR sizes s1 s2 bufs ! d)) = n"
    "length (final_results (joined n L R BL BR sizes s1 s2 bufs ! d)) = n"
    "length (match_counters_left (joined n L R BL BR sizes s1 s2 bufs ! d)) = n"
    "length (match_counters_right (joined n L R BL BR sizes s1 s2 bufs ! d)) = n"
  unfolding joined_nth [OF assms(2,3)] using assms
  by (simp_all add: joins_ok_def fresh_buffers_def join_device_def mergeDbResults_events mergeBatchResults_events Let_def length_record_all)

lemma joins_okD:
  assumes "joins_ok n sizes s1 s2 bufs" "d < length bufs"
  shows "fresh_buffers n (bufs ! d)" "sizes ! d = 0 \<or> schedule (div_ceil (sizes ! d * n) 64) (s1 ! d)"
    "schedule (div_ceil (n * ROTATIONS * n) 64) (s2 ! d)" "sizes ! d * n + n * ROTATIONS * n + 128 \<le> 2 ^ 32"
  using assms by (simp_all add: joins_ok_def)

lemma joined_lists:
  fixes L R BL BR :: "u64 list list"
  assumes "joins_ok n sizes s1 s2 bufs" "d < length bufs" "q < n"
  defines "st \<equiv> joined n L R BL BR sizes s1 s2 bufs ! d"
    and "D \<equiv> db_hits (L ! d) (R ! d) (sizes ! d) q" and "T \<equiv> batch_hits (BL ! d) (BR ! d) n q"
    and "ids \<equiv> match_list (match_counters (joined n L R BL BR sizes s1 s2 bufs ! d)) (all_matches (joined n L R BL BR sizes s1 s2 bufs ! d)) q"
  shows "unat (match_counters st ! q) = card D + card T \<and> distinct ids \<and> set ids \<subseteq> of_nat ` D \<union> (\<lambda>t. - 1 - of_nat t) ` T \<and>
      length ids = min ALL_MATCHES_LEN (card D + card T) \<and>
      (card D + card T \<le> ALL_MATCHES_LEN \<longrightarrow> set ids = of_nat ` D \<union> (\<lambda>t. - 1 - of_nat t) ` T)"
    "final_results st ! q = Min (insert NON_MATCH_ID (of_nat ` D \<union> (\<lambda>t. - 2) ` T))"
    "unat (match_counters_left st ! q) = card {e. e < sizes ! d \<and> bitmap (L ! d) (q * sizes ! d + e)}"
    "unat (match_counters_right st ! q) = card {e. e < sizes ! d \<and> bitmap (R ! d) (q * sizes ! d + e)}"
  unfolding assms(4-7) joined_nth [OF assms(2) order.strict_trans1 [OF le0 assms(3)]]
  by (rule join_device_lists [OF joins_okD(1) [OF assms(1,2)] assms(3) joins_okD(2-4) [OF assms(1,2)]])+

lemma final_result_cases:
  assumes "finite D" "\<forall>e \<in> D. e < 2 ^ 32 - 2"
  shows "Min (insert NON_MATCH_ID ((of_nat :: nat \<Rightarrow> u32) ` D \<union> (\<lambda>t. - 2) ` T))
    = (if D \<noteq> {} then of_nat (Min D) else if T \<noteq> {} then - 2 else NON_MATCH_ID)"
proof -
  have le: "x \<le> NON_MATCH_ID" for x :: u32 unfolding NON_MATCH_ID_def by (rule word_order.extremum)
  have T: "(\<lambda>t. - 2 :: u32) ` T = (if T = {} then {} else {- 2})" by auto
  have lt: "(of_nat e :: u32) \<le> - 2" if "e < 2 ^ 32 - 2" for e
    using that by (simp add: word_le_nat_alt unat_of_nat take_bit_nat_eq_self)
  have mono: "(of_nat (Min D) :: u32) \<le> of_nat e" if "e \<in> D" for e
  proof -
    have "D \<noteq> {}" using that by blast
    then have "Min D \<in> D" "Min D \<le> e" using Min_in [OF assms(1)] Min_le [OF assms(1) that] by blast+
    then show ?thesis using assms(2) that by (auto simp: word_le_nat_alt unat_of_nat take_bit_nat_eq_self)
  qed
  show ?thesis
  proof (cases "D = {}")
    case True
    then show ?thesis using le [of "- 2"] by (simp add: T min_def)
  next
    case False
    have "Min D \<in> D" using Min_in [OF assms(1) False] .
    then have "(of_nat (Min D) :: u32) \<le> - 2" "(of_nat (Min D) :: u32) \<in> of_nat ` D" using lt assms(2) by blast+
    then have "Min (insert NON_MATCH_ID ((of_nat :: nat \<Rightarrow> u32) ` D \<union> (\<lambda>t. - 2) ` T)) = of_nat (Min D)"
      using assms(1) le mono by (intro Min_eqI) (auto simp: T split: if_splits)
    then show ?thesis using False by simp
  qed
qed

lemma joined_final:
  assumes "joins_ok n sizes s1 s2 bufs" "d < length bufs" "q < n" "sizes ! d \<le> 2 ^ 32 - 2"
  shows "final_results (joined n L R BL BR sizes s1 s2 bufs ! d) ! q =
    (if db_hits (L ! d) (R ! d) (sizes ! d) q \<noteq> {} then of_nat (Min (db_hits (L ! d) (R ! d) (sizes ! d) q))
     else if batch_hits (BL ! d) (BR ! d) n q \<noteq> {} then - 2 else NON_MATCH_ID)"
proof -
  have "\<forall>e \<in> db_hits (L ! d) (R ! d) (sizes ! d) q. e < 2 ^ 32 - 2" using assms(4) by (auto simp: db_hits_def)
  then show ?thesis using joined_lists(2) [OF assms(1-3), of L R BL BR] final_result_cases [OF finite_hits(1)] by metis
qed

text \<open>
  The fetched list of a query: an entry \<open>e\<close> of device \<open>d\<close> is position \<open>e * n_devices + d\<close> of the whole database,
  and the batch matches are those of the first device.
\<close>

lemma fetch_all_match_ids_nth:
  assumes "q < length (counters ! 0)"
  shows "fetch_all_match_ids ql counters matches ! q = concat (map (\<lambda>d.
    filter (\<lambda>idx. idx < - 1 - of_nat (ql div ROTATIONS) \<or> d = 0) (map (\<lambda>idx. if idx > - 1 - of_nat (ql div ROTATIONS) then idx
      else idx * of_nat (length matches) + of_nat d) (match_list (counters ! d) (matches ! d) q))) [0..<length matches])"
  using assms by (simp add: fetch_all_match_ids_def match_list_def Let_def)

lemma global_id:
  assumes "e < db" "d < nd" "db * nd + n < 2 ^ 32"
  shows "(of_nat e :: u32) * of_nat nd + of_nat d = of_nat (e * nd + d)" "\<not> (of_nat e :: u32) > - 1 - of_nat n"
    "(of_nat (e * nd + d) :: u32) < - 1 - of_nat n"
proof -
  have "Suc e * nd \<le> db * nd" using assms(1) by (intro mult_le_mono1 Suc_leI)
  then have lt: "e * nd + d < db * nd" using assms(2) by simp
  have "e * 1 \<le> e * nd" using assms(2) by (intro mult_le_mono2) simp
  then have e: "e + n < 2 ^ 32 - 1" using lt assms(3) by linarith
  have n: "unat (- 1 - of_nat n :: u32) = 2 ^ 32 - 1 - n" using assms(3) by (intro batch_entry_unat) simp
  show "(of_nat e :: u32) * of_nat nd + of_nat d = of_nat (e * nd + d)" by simp
  show "\<not> (of_nat e :: u32) > - 1 - of_nat n" using e n by (simp add: word_less_nat_alt unat_of_nat take_bit_nat_eq_self)
  have "e * nd + d < 2 ^ 32 - 1 - n" using lt assms(3) by linarith
  then show "(of_nat (e * nd + d) :: u32) < - 1 - of_nat n"
    unfolding word_less_nat_alt n by (simp only: unat_of_nat) (simp add: take_bit_nat_eq_self)
qed

lemma batch_id: "t < n \<Longrightarrow> n < 2 ^ 32 \<Longrightarrow> (- 1 - of_nat t :: u32) > - 1 - of_nat n"
  by (simp add: word_less_nat_alt batch_entry_unat)

text \<open>What a device contributes to the list of a query with the hits \<open>D\<close> in the database and \<open>T\<close> in the batch.\<close>

definition device_ids :: "nat \<Rightarrow> nat \<Rightarrow> nat set \<Rightarrow> nat set \<Rightarrow> u32 set" where
  "device_ids nd d D T = (\<lambda>e. of_nat (e * nd + d)) ` D \<union> (if d = 0 then (\<lambda>t. - 1 - of_nat t) ` T else {})"

definition device_part :: "nat \<Rightarrow> nat \<Rightarrow> nat \<Rightarrow> u32 list \<Rightarrow> u32 list" where
  "device_part n nd d ids = filter (\<lambda>idx. idx < - 1 - of_nat n \<or> d = 0)
     (map (\<lambda>idx. if idx > - 1 - of_nat n then idx else idx * of_nat nd + of_nat d) ids)"

lemma position_inj:
  assumes "(of_nat (e * nd + d) :: u32) = of_nat (e' * nd + d')" "e < db" "e' < db'" "d < nd" "d' < nd"
    "db * nd + n < 2 ^ 32" "db' * nd + n < 2 ^ 32"
  shows "e = e' \<and> d = d'"
proof -
  have "e * nd + d < 2 ^ 32" "e' * nd + d' < 2 ^ 32"
    using mult_le_mono1 [OF Suc_leI [OF assms(2)], of nd] mult_le_mono1 [OF Suc_leI [OF assms(3)], of nd] assms(4-7) by simp_all
  moreover have "unat (of_nat x :: u32) = x" if "x < 2 ^ 32" for x using that by (simp add: unat_of_nat take_bit_nat_eq_self)
  ultimately have "e * nd + d = e' * nd + d'" using assms(1) by metis
  moreover have "(x * nd + y) div nd = x" "(x * nd + y) mod nd = y" if "y < nd" for x y using that by simp_all
  ultimately show ?thesis using assms(4,5) by metis
qed

lemma device_part_ok:
  assumes "set ids \<subseteq> of_nat ` D \<union> (\<lambda>t. - 1 - of_nat t) ` T" "distinct ids" "finite T"
    and "\<forall>e \<in> D. e < db" "\<forall>t \<in> T. t < n" "d < nd" "db * nd + n < 2 ^ 32"
  shows "distinct (device_part n nd d ids)" "set (device_part n nd d ids) \<subseteq> device_ids nd d D T"
    "length (device_part n nd d ids) \<le> length ids" "length ids \<le> length (device_part n nd d ids) + (if d = 0 then 0 else card T)"
    "set ids = of_nat ` D \<union> (\<lambda>t. - 1 - of_nat t) ` T \<Longrightarrow> set (device_part n nd d ids) = device_ids nd d D T"
proof -
  let ?m = "\<lambda>idx :: u32. if idx > - 1 - of_nat n then idx else idx * of_nat nd + of_nat d"
  let ?ok = "\<lambda>idx :: u32. idx < - 1 - of_nat n \<or> d = 0"
  let ?t = "\<lambda>t. - 1 - of_nat t :: u32"
  have D: "?m (of_nat e) = of_nat (e * nd + d)" "(of_nat (e * nd + d) :: u32) < - 1 - of_nat n" if "e \<in> D" for e
    using global_id [of e db d nd n] that assms(4,6,7) by simp_all
  have T: "?m (?t t) = ?t t" "\<not> (?t t) < - 1 - of_nat n" if "t \<in> T" for t
    using batch_id [of t n] that assms(5,7) by auto
  have part: "device_part n nd d ids = filter ?ok (map ?m ids)" by (simp add: device_part_def)
  have inj: "inj_on ?m (of_nat ` D \<union> ?t ` T)"
  proof (rule inj_onI)
    fix x y assume x: "x \<in> of_nat ` D \<union> ?t ` T" and y: "y \<in> of_nat ` D \<union> ?t ` T" and eq: "?m x = ?m y"
    from x y consider e e' where "e \<in> D" "e' \<in> D" "x = of_nat e" "y = of_nat e'" | e t where "e \<in> D" "t \<in> T" "x = of_nat e" "y = ?t t"
      | e t where "e \<in> D" "t \<in> T" "x = ?t t" "y = of_nat e" | t t' where "t \<in> T" "t' \<in> T" "x = ?t t" "y = ?t t'" by blast
    then show "x = y"
    proof cases
      case 1
      then have "e = e'" using eq D(1) position_inj [of e nd d e' d db db n] assms(4,6,7) by (metis (no_types, lifting))
      then show ?thesis using 1 by simp
    next
      case 2
      then show ?thesis using eq D T by metis
    next
      case 3
      then show ?thesis using eq D T by metis
    next
      case 4
      then show ?thesis using eq T(1) by metis
    qed
  qed
  then show "distinct (device_part n nd d ids)"
    unfolding part using assms(1,2) by (intro distinct_filter) (simp add: distinct_map inj_on_subset)
  have image: "{x \<in> ?m ` (of_nat ` D \<union> ?t ` T). ?ok x} = device_ids nd d D T"
  proof -
    have "?m ` (of_nat ` D \<union> ?t ` T) = (\<lambda>e. of_nat (e * nd + d)) ` D \<union> ?t ` T"
      unfolding image_Un image_image using D(1) T(1) by (intro arg_cong2 [where f = "(\<union>)"] image_cong refl) blast+
    then show ?thesis using D(2) T(2) unfolding device_ids_def by (auto split: if_splits)
  qed
  show "set (device_part n nd d ids) \<subseteq> device_ids nd d D T" unfolding part image [symmetric] using assms(1) by auto
  show "set ids = of_nat ` D \<union> ?t ` T \<Longrightarrow> set (device_part n nd d ids) = device_ids nd d D T" unfolding part image [symmetric] by auto
  show "length (device_part n nd d ids) \<le> length ids" unfolding part by (rule order_trans [OF length_filter_le]) simp
  have "length (filter (\<lambda>x. \<not> ?ok (?m x)) ids) \<le> (if d = 0 then 0 else card T)"
  proof (cases "d = 0")
    case False
    have "set (filter (\<lambda>x. \<not> ?ok (?m x)) ids) \<subseteq> ?t ` T"
    proof
      fix x assume "x \<in> set (filter (\<lambda>x. \<not> ?ok (?m x)) ids)"
      then have "x \<in> of_nat ` D \<union> ?t ` T" "\<not> ?ok (?m x)" using assms(1) by auto
      then show "x \<in> ?t ` T" using D by auto
    qed
    then have "card (set (filter (\<lambda>x. \<not> ?ok (?m x)) ids)) \<le> card (?t ` T)" using assms(3) by (intro card_mono) simp_all
    also have "\<dots> \<le> card T" by (rule card_image_le [OF assms(3)])
    finally show ?thesis using False assms(2) by (simp only: distinct_card [OF distinct_filter] if_False)
  qed simp
  moreover have "length (filter (\<lambda>x. ?ok (?m x)) ids) + length (filter (\<lambda>x. \<not> ?ok (?m x)) ids) = length ids" by (rule sum_length_filter_compl)
  moreover have "length (device_part n nd d ids) = length (filter (\<lambda>x. ?ok (?m x)) ids)" unfolding part by (simp only: filter_map length_map comp_def)
  ultimately show "length ids \<le> length (device_part n nd d ids) + (if d = 0 then 0 else card T)" by linarith
qed

lemma device_ids_disjoint:
  assumes "d < nd" "d' < nd" "d \<noteq> d'" "\<forall>e \<in> D. e < db" "\<forall>e \<in> D'. e < db'" "\<forall>t \<in> T. t < n" "\<forall>t \<in> T'. t < n"
    and "db * nd + n < 2 ^ 32" "db' * nd + n < 2 ^ 32"
  shows "device_ids nd d D T \<inter> device_ids nd d' D' T' = {}"
proof -
  have "(of_nat (e * nd + d) :: u32) \<noteq> of_nat (e' * nd + d')" if "e \<in> D" "e' \<in> D'" for e e'
    using position_inj [of e nd d e' d' db db' n] that assms by blast
  moreover have "(of_nat (e * nd + d) :: u32) \<noteq> - 1 - of_nat t" if "e \<in> D" "t < n" for e t
    using global_id(3) [of e db d nd n] batch_id [of t n] that assms by fastforce
  moreover have "(of_nat (e * nd + d') :: u32) \<noteq> - 1 - of_nat t" if "e \<in> D'" "t < n" for e t
    using global_id(3) [of e db' d' nd n] batch_id [of t n] that assms by fastforce
  ultimately show ?thesis using assms(3,6,7) unfolding device_ids_def by (fastforce split: if_splits)
qed

lemma distinct_concat_upt:
  assumes "\<And>i. i < n \<Longrightarrow> distinct (f i)" "\<And>i j. i < n \<Longrightarrow> j < n \<Longrightarrow> i \<noteq> j \<Longrightarrow> set (f i) \<inter> set (f j) = {}"
  shows "distinct (concat (map f [0..<n]))"
  using assms
proof (induction n)
  case (Suc n)
  have "set (f n) \<inter> set (f i) = {}" if "i < n" for i using Suc.prems(2) [of n i] that by simp
  moreover have "distinct (concat (map f [0..<n]))" by (rule Suc.IH) (use Suc.prems in \<open>simp_all add: less_Suc_eq\<close>)
  ultimately show ?case using Suc.prems(1) [of n] by (fastforce simp: disjoint_iff)
qed simp

lemma fetched_ids:
  fixes L R BL BR :: "u64 list list"
  assumes "joins_ok n sizes s1 s2 bufs" "0 < length bufs" "q < bs" "bs \<le> n"
    and "\<forall>d < length bufs. sizes ! d * length bufs + n < 2 ^ 32"
  defines "bufs' \<equiv> joined n L R BL BR sizes s1 s2 bufs"
    and "D \<equiv> \<lambda>d. db_hits (L ! d) (R ! d) (sizes ! d) q" and "T \<equiv> \<lambda>d. batch_hits (BL ! d) (BR ! d) n q"
  shows "\<exists>parts. fetch_all_match_ids (n * ROTATIONS) (map (\<lambda>b. take bs (match_counters b)) bufs') (map all_matches bufs') ! q
      = concat (map parts [0..<length bufs]) \<and>
    (\<forall>d < length bufs. distinct (parts d) \<and> set (parts d) \<subseteq> device_ids (length bufs) d (D d) (T d) \<and> length (parts d) \<le> ALL_MATCHES_LEN \<and>
      min ALL_MATCHES_LEN (card (D d) + card (T d)) \<le> length (parts d) + (if d = 0 then 0 else card (T d)) \<and>
      (card (D d) + card (T d) \<le> ALL_MATCHES_LEN \<longrightarrow> set (parts d) = device_ids (length bufs) d (D d) (T d)))"
proof -
  let ?nd = "length bufs" and ?cs = "map (\<lambda>b. take bs (match_counters b)) bufs'"
  let ?ml = "\<lambda>d. match_list (match_counters (bufs' ! d)) (all_matches (bufs' ! d)) q"
  have q: "q < n" and len: "length bufs' = ?nd" using assms(3,4) by (simp_all add: bufs'_def)
  have n: "n * ROTATIONS div ROTATIONS = n" by (simp add: ROTATIONS_def)
  have ml: "match_list (?cs ! d) (map all_matches bufs' ! d) q = ?ml d"
    if "d < ?nd" for d using that assms(3) by (simp add: len match_list_def)
  have "q < length (?cs ! 0)" using assms(1-4) q by (simp add: len length_joined_buffers(1) bufs'_def)
  have "fetch_all_match_ids (n * ROTATIONS) ?cs (map all_matches bufs') ! q = concat (map (\<lambda>d. device_part n ?nd d (?ml d)) [0..<?nd])"
    unfolding fetch_all_match_ids_nth [OF \<open>q < length (?cs ! 0)\<close>] n length_map len device_part_def
    by (intro arg_cong [where f = concat] map_cong refl) (simp only: ml set_upt atLeastLessThan_iff)
  moreover have "distinct (device_part n ?nd d (?ml d)) \<and> set (device_part n ?nd d (?ml d)) \<subseteq> device_ids ?nd d (D d) (T d) \<and>
      length (device_part n ?nd d (?ml d)) \<le> ALL_MATCHES_LEN \<and>
      min ALL_MATCHES_LEN (card (D d) + card (T d)) \<le> length (device_part n ?nd d (?ml d)) + (if d = 0 then 0 else card (T d)) \<and>
      (card (D d) + card (T d) \<le> ALL_MATCHES_LEN \<longrightarrow> set (device_part n ?nd d (?ml d)) = device_ids ?nd d (D d) (T d))" if d: "d < ?nd" for d
  proof -
    have "db_hits (L ! d) (R ! d) (sizes ! d) q = D d" "batch_hits (BL ! d) (BR ! d) n q = T d" by (simp_all add: D_def T_def)
    note lists = joined_lists(1) [OF assms(1) d q, of L R BL BR, folded bufs'_def, unfolded this]
    have ranges: "\<forall>e \<in> D d. e < sizes ! d" "\<forall>t \<in> T d. t < n" "finite (T d)" "sizes ! d * ?nd + n < 2 ^ 32"
      using d q assms(5) by (auto simp: D_def T_def db_hits_def batch_hits_def)
    from lists have "set (?ml d) \<subseteq> of_nat ` D d \<union> (\<lambda>t. - 1 - of_nat t) ` T d" "distinct (?ml d)" by blast+
    note part = device_part_ok [OF this ranges(3,1,2) d ranges(4)]
    have "length (?ml d) \<le> ALL_MATCHES_LEN" "length (?ml d) = min ALL_MATCHES_LEN (card (D d) + card (T d))" using lists by simp_all
    then show ?thesis using part lists by (intro conjI impI) (blast | linarith)+
  qed
  ultimately show ?thesis by blast
qed

section \<open>Properties of the search\<close>

definition in_order :: "nat \<Rightarrow> (nat \<times> nat) list" where
  "in_order m = List.product [0..<div_ceil m 64] [0..<64]"

lemma schedule_in_order: "schedule (div_ceil m 64) (in_order m)"
  by (simp add: schedule_def in_order_def)

definition chunk_orders :: "nat \<Rightarrow> nat list \<Rightarrow> nat \<Rightarrow> (nat \<times> nat) list list" where
  "chunk_orders ql sizes c = map (\<lambda>m. in_order (m * ql)) (dot_chunk_size (chunk_sizes sizes c))"

lemma schedules_ok_in_order: "schedules_ok ql sizes (chunk_orders ql sizes)"
  by (simp add: schedules_ok_def chunk_orders_def schedule_in_order dot_chunk_size_def chunk_sizes_def)

text \<open>
  C14: The search over the chunks of the database marks exactly the matches. On a device whose last chunk is
  the last one of the loop, from a cleared bitmap and for every order of the iterations, the bit of
  query \<open>s\<close> and entry \<open>e\<close> is set if and only if the opened result of one of the 31 rotations is positive
  in the chunk and the row that hold the entry.
\<close>

theorem database_search_exact:
  assumes "d < length sizes" "0 < sizes ! d" "sizes ! d < 2 ^ 64" "same_chunks sizes d"
    and "schedules_ok (n * ROTATIONS) sizes scheds" "DB_CHUNK_SIZE * (n * ROTATIONS) + 64 \<le> 2 ^ 32"
    and "length bitmaps = length sizes" "bitmaps ! d = replicate m 0" "sizes ! d * n \<le> 64 * m" "sizes ! d * n \<le> 2 ^ 32"
    and "s < n" "e < sizes ! d"
  shows "bitmap (db_chunk_loop (n * ROTATIONS) views scheds sizes 0 bitmaps ! d) (sizes ! d * s + e) \<longleftrightarrow> hit views sizes d s e"
  using assms by (rule db_chunk_loop_hits)

definition demo_len :: nat where
  "demo_len = 39999"

definition demo_views :: "nat \<Rightarrow> nat \<Rightarrow> (u64 list \<times> u64 list \<times> u64 list) list" where
  "demo_views at_chunk = (\<lambda>c. let zeros = replicate (Suc demo_len) 0 in
     [(zeros, zeros, zeros), ((if c = at_chunk then 1 else 0) # replicate demo_len 0, zeros, zeros)])"

lemma nth_word_zeros: "i \<le> n \<Longrightarrow> (w # replicate n 0) ! i = (if i = 0 then w else 0)"
  by (cases i) simp_all

lemma res_bit_single:
  assumes "x < 64 * Suc n"
  shows "\<not> res_bit (replicate (Suc n) 0, replicate (Suc n) 0, replicate (Suc n) 0) x"
    "res_bit ((if b then 1 else 0) # replicate n 0, replicate (Suc n) 0, replicate (Suc n) 0) x \<longleftrightarrow> b \<and> x = 0"
proof -
  have x: "x div 64 < Suc n" using assms by (simp add: div_less_iff_less_mult)
  then show "\<not> res_bit (replicate (Suc n) 0, replicate (Suc n) 0, replicate (Suc n) 0) x"
    by (simp add: res_bit_def del: replicate_Suc)
  have "res_bit ((if b then 1 else 0) # replicate n 0, replicate (Suc n) 0, replicate (Suc n) 0) x \<longleftrightarrow> b \<and> x div 64 = 0 \<and> x mod 64 = 0"
    using x by (auto simp: res_bit_def nth_word_zeros bit_1_iff simp del: replicate_Suc split: if_splits)
  also have "\<dots> \<longleftrightarrow> b \<and> x = 0" by (metis div_mod_decomp add_0 mult_0 div_0 mod_0)
  finally show "res_bit ((if b then 1 else 0) # replicate n 0, replicate (Suc n) 0, replicate (Suc n) 0) x \<longleftrightarrow> b \<and> x = 0" .
qed

lemma res_bit_demo:
  assumes "x < 64 * 40000"
  shows "res_bit (demo_views a c ! 1) x \<longleftrightarrow> c = a \<and> x = 0"
proof -
  have "x < 64 * Suc demo_len" using assms by (simp add: demo_len_def)
  from res_bit_single(2) [OF this, of "c = a"] show ?thesis by (simp add: demo_views_def Let_def del: replicate_Suc)
qed

theorem database_search_exact_witness:
  "bitmap (db_chunk_loop (2 * ROTATIONS) (demo_views 0) (chunk_orders (2 * ROTATIONS) [4, 3]) [4, 3] 0 [[0], [0]] ! 1) ([4, 3] ! 1 * 0 + 0)"
proof -
  have small: "DB_CHUNK_SIZE * (2 * ROTATIONS) + 64 \<le> 2 ^ 32" by (simp add: DB_CHUNK_SIZE_def ROTATIONS_def)
  have "same_chunks [4, 3] 1" by (simp add: same_chunks_def DB_CHUNK_SIZE_def)
  then have "bitmap (db_chunk_loop (2 * ROTATIONS) (demo_views 0) (chunk_orders (2 * ROTATIONS) [4, 3]) [4, 3] 0 [[0], [0]] ! 1) ([4, 3] ! 1 * 0 + 0)
      \<longleftrightarrow> hit (demo_views 0) [4, 3] 1 0 0"
    by (intro database_search_exact [where m = 1] schedules_ok_in_order small) simp_all
  moreover have "hit (demo_views 0) [4, 3] 1 0 0"
    unfolding hit_def Let_def using res_bit_demo [of 0 0 0] by (intro exI [where x = 0]) (simp add: ROTATIONS_def)
  ultimately show ?thesis by simp
qed

text \<open>
  C21: What the search reports on a device that ends exactly at a chunk boundary while another device goes on by
  up to one more chunk. The loop visits that chunk on every device, and on this one its size 0 is raised to 1. Every bit
  is right, except those of the first entry: they are also set for query \<open>s\<close> when the circuits output a positive
  result for query \<open>s - 1\<close> in the row that the device does not have.
\<close>

theorem phantom_match:
  assumes "d < length sizes" "sizes ! d = K * DB_CHUNK_SIZE" "0 < K" "sizes ! d < 2 ^ 64"
    and "sizes ! d < Max (set sizes)" "Max (set sizes) \<le> (K + 1) * DB_CHUNK_SIZE"
    and "schedules_ok (n * ROTATIONS) sizes scheds" "DB_CHUNK_SIZE * (n * ROTATIONS) + 64 \<le> 2 ^ 32"
    and "length bitmaps = length sizes" "bitmaps ! d = replicate m 0" "sizes ! d * n < 64 * m" "sizes ! d * n < 2 ^ 32"
    and "s < n" "e < sizes ! d"
  shows "bitmap (db_chunk_loop (n * ROTATIONS) views scheds sizes 0 bitmaps ! d) (sizes ! d * s + e)
    \<longleftrightarrow> hit views sizes d s e \<or> 0 < s \<and> e = 0 \<and> stray views K d (s - 1)"
  using assms by (rule db_chunk_loop_boundary)

theorem phantom_match_witness:
  "\<not> hit (demo_views 1) [DB_CHUNK_SIZE + 1, DB_CHUNK_SIZE] 1 1 0 \<and>
   bitmap (db_chunk_loop (2 * ROTATIONS) (demo_views 1) (chunk_orders (2 * ROTATIONS) [DB_CHUNK_SIZE + 1, DB_CHUNK_SIZE])
     [DB_CHUNK_SIZE + 1, DB_CHUNK_SIZE] 0 [replicate 1026 0, replicate 1026 0] ! 1) ([DB_CHUNK_SIZE + 1, DB_CHUNK_SIZE] ! 1 * 1 + 0)"
proof
  let ?sizes = "[DB_CHUNK_SIZE + 1, DB_CHUNK_SIZE]"
  have "dot_chunk_size (chunk_sizes ?sizes 0) ! 1 = 32768" by (simp add: chunk_sizes_def dot_chunk_size_def div_ceil_def DB_CHUNK_SIZE_def)
  moreover have "\<not> res_bit (demo_views 1 0 ! 1) ((1 * ROTATIONS + rot) * 32768 + 0)" if "rot < ROTATIONS" for rot
    using that by (subst res_bit_demo) (simp_all add: ROTATIONS_def)
  ultimately show "\<not> hit (demo_views 1) ?sizes 1 1 0" unfolding hit_def Let_def by simp
  have "stray (demo_views 1) 1 1 0"
    unfolding stray_def using res_bit_demo [of 0 1 1] by (intro exI [where x = 0]) (simp add: ROTATIONS_def)
  moreover have "DB_CHUNK_SIZE * (2 * ROTATIONS) + 64 \<le> 2 ^ 32" by (simp add: DB_CHUNK_SIZE_def ROTATIONS_def)
  ultimately show "bitmap (db_chunk_loop (2 * ROTATIONS) (demo_views 1) (chunk_orders (2 * ROTATIONS) ?sizes)
     ?sizes 0 [replicate 1026 0, replicate 1026 0] ! 1) (?sizes ! 1 * 1 + 0)"
    by (subst phantom_match [where K = 1 and m = 1026, OF _ _ _ _ _ _ schedules_ok_in_order]) (simp_all add: DB_CHUNK_SIZE_def)
qed

text \<open>
  C15: After both merge kernels, in whatever order their iterations run, the buffers of a device are right
  for every query: the counter is the number of entries of the device that match on both eyes plus
  the number of earlier queries of the batch that do; the result is the least matching entry, or the
  marker of a batch match, or no match; the partial counters are the numbers of entries that match on
  one eye; and the list holds that many distinct matches, up to 256, and all of them when they fit.
\<close>

theorem match_lists_exact:
  assumes "joins_ok n sizes s1 s2 bufs" "d < length bufs" "q < n" "sizes ! d \<le> 2 ^ 32 - 2"
  shows "let st = joined n L R BL BR sizes s1 s2 bufs ! d; ids = match_list (match_counters st) (all_matches st) q;
      D = db_hits (L ! d) (R ! d) (sizes ! d) q; T = batch_hits (BL ! d) (BR ! d) n q in
    unat (match_counters st ! q) = card D + card T \<and>
    final_results st ! q = (if D \<noteq> {} then of_nat (Min D) else if T \<noteq> {} then - 2 else NON_MATCH_ID) \<and>
    unat (match_counters_left st ! q) = card {e. e < sizes ! d \<and> bitmap (L ! d) (q * sizes ! d + e)} \<and>
    unat (match_counters_right st ! q) = card {e. e < sizes ! d \<and> bitmap (R ! d) (q * sizes ! d + e)} \<and>
    distinct ids \<and> set ids \<subseteq> of_nat ` D \<union> (\<lambda>t. - 1 - of_nat t) ` T \<and> length ids = min ALL_MATCHES_LEN (card D + card T) \<and>
    (card D + card T \<le> ALL_MATCHES_LEN \<longrightarrow> set ids = of_nat ` D \<union> (\<lambda>t. - 1 - of_nat t) ` T)"
proof -
  note res = joined_final [OF assms, of L R BL BR]
  note lists = joined_lists(1,3,4) [OF assms(1-3), of L R BL BR]
  show ?thesis unfolding Let_def using res lists by (intro conjI) argo+
qed

definition demo_buffers :: "nat \<Rightarrow> MatchBuffers" where
  "demo_buffers n = \<lparr>final_results = replicate n NON_MATCH_ID, match_counters = replicate n 0, all_matches = replicate (ALL_MATCHES_LEN * n) 7,
     match_counters_left = replicate n 0, match_counters_right = replicate n 0,
     partial_results_left = replicate (ALL_MATCHES_LEN * n) 7, partial_results_right = replicate (ALL_MATCHES_LEN * n) 7\<rparr>"

lemma fresh_demo: "fresh_buffers n (demo_buffers n)"
  by (simp add: fresh_buffers_def demo_buffers_def)

lemma joins_ok_demo:
  "joins_ok 2 [3, 3] (replicate 2 (in_order (3 * 2))) (replicate 2 (in_order (2 * ROTATIONS * 2))) (replicate 2 (demo_buffers 2))"
  unfolding joins_ok_def
proof (intro allI impI)
  fix d assume "d < length (replicate 2 (demo_buffers 2))"
  then have d: "d < 2" "[3, 3] ! d = (3 :: nat)" by (auto simp: less_2_cases_iff)
  show "fresh_buffers 2 (replicate 2 (demo_buffers 2) ! d) \<and>
    ([3, 3] ! d = 0 \<or> schedule (div_ceil ([3, 3] ! d * 2) 64) (replicate 2 (in_order (3 * 2)) ! d)) \<and>
    schedule (div_ceil (2 * ROTATIONS * 2) 64) (replicate 2 (in_order (2 * ROTATIONS * 2)) ! d) \<and>
    [3, 3] ! d * 2 + 2 * ROTATIONS * 2 + 128 \<le> 2 ^ 32"
    unfolding d(2) nth_replicate [OF d(1)]
    by (intro conjI disjI2 fresh_demo schedule_in_order) (simp add: ROTATIONS_def)
qed

lemma db_hits_filter: "db_hits L R db q = set (filter (\<lambda>e. bitmap L (q * db + e) \<and> bitmap R (q * db + e)) [0..<db])"
  by (auto simp: db_hits_def)

lemma demo_hits: "db_hits [37] [33] 3 (Suc 0) = {2}" "batch_hits [0, 0] [0, 0] 2 (Suc 0) = {}"
proof -
  have "filter (\<lambda>e. bitmap [37] (Suc 0 * 3 + e) \<and> bitmap [33] (Suc 0 * 3 + e)) [0..<3] = [2]" by code_simp
  then show "db_hits [37] [33] 3 (Suc 0) = {2}" by (simp only: db_hits_filter list.set)
  show "batch_hits [0, 0] [0, 0] 2 (Suc 0) = {}" by (auto simp: batch_hits_def bitmap_def Let_def ROTATIONS_def)
qed

theorem match_lists_exact_witness:
  "final_results (joined 2 [[37], [37]] [[33], [33]] [[0, 0], [0, 0]] [[0, 0], [0, 0]] [3, 3] (replicate 2 (in_order (3 * 2)))
     (replicate 2 (in_order (2 * ROTATIONS * 2))) (replicate 2 (demo_buffers 2)) ! 1) ! 1 = 2"
  using match_lists_exact [OF joins_ok_demo, of 1 1 "[[37], [37]]" "[[33], [33]]" "[[0, 0], [0, 0]]" "[[0, 0], [0, 0]]"]
  by (simp add: Let_def demo_hits)

text \<open>
  C16: The match ids fetched for a query, however many matches there are. No id is reported twice, and every id is the
  position of a match: entry \<open>e\<close> of device \<open>d\<close> is reported as \<open>e * n_devices + d\<close>, an earlier query of the batch
  by its marker and only from the first device. A device with at most 256 matches of the query, those
  inside the batch included, has all of them reported. A device with more reports no more than 256, and on the
  other devices a match inside the batch may take the place of one in the database, so that at least 256 less the number of batch
  matches are reported.
\<close>

theorem fetched_match_ids_exact:
  fixes L R BL BR :: "u64 list list"
  assumes "joins_ok n sizes s1 s2 bufs" "0 < length bufs" "q < bs" "bs \<le> n"
    and "\<forall>d < length bufs. sizes ! d * length bufs + n < 2 ^ 32"
  shows "let bufs' = joined n L R BL BR sizes s1 s2 bufs;
      ids = fetch_all_match_ids (n * ROTATIONS) (map (\<lambda>b. take bs (match_counters b)) bufs') (map all_matches bufs') ! q;
      D = \<lambda>d. db_hits (L ! d) (R ! d) (sizes ! d) q; T = \<lambda>d. batch_hits (BL ! d) (BR ! d) n q;
      P = \<lambda>d. device_ids (length bufs) d (D d) (T d) in
    distinct ids \<and> set ids \<subseteq> (\<Union>d < length bufs. P d) \<and>
    (\<forall>d < length bufs. (card (D d) + card (T d) \<le> ALL_MATCHES_LEN \<longrightarrow> P d \<subseteq> set ids) \<and>
      card (set ids \<inter> P d) \<le> ALL_MATCHES_LEN \<and>
      min ALL_MATCHES_LEN (card (D d) + card (T d)) \<le> card (set ids \<inter> P d) + (if d = 0 then 0 else card (T d)))"
proof -
  let ?nd = "length bufs" and ?D = "\<lambda>d. db_hits (L ! d) (R ! d) (sizes ! d) q" and ?T = "\<lambda>d. batch_hits (BL ! d) (BR ! d) n q"
  let ?P = "\<lambda>d. device_ids ?nd d (?D d) (?T d)"
  obtain parts where parts: "fetch_all_match_ids (n * ROTATIONS) (map (\<lambda>b. take bs (match_counters b)) (joined n L R BL BR sizes s1 s2 bufs))
        (map all_matches (joined n L R BL BR sizes s1 s2 bufs)) ! q = concat (map parts [0..<?nd])"
    and part: "\<And>d. d < ?nd \<Longrightarrow> distinct (parts d) \<and> set (parts d) \<subseteq> ?P d \<and> length (parts d) \<le> ALL_MATCHES_LEN \<and>
      min ALL_MATCHES_LEN (card (?D d) + card (?T d)) \<le> length (parts d) + (if d = 0 then 0 else card (?T d)) \<and>
      (card (?D d) + card (?T d) \<le> ALL_MATCHES_LEN \<longrightarrow> set (parts d) = ?P d)"
    using fetched_ids [OF assms, of L R BL BR] by blast
  have disj: "?P d \<inter> ?P d' = {}" if "d < ?nd" "d' < ?nd" "d \<noteq> d'" for d d'
    using that assms(5) by (intro device_ids_disjoint [where db = "sizes ! d" and db' = "sizes ! d'" and n = n])
      (auto simp: db_hits_def batch_hits_def intro: less_trans [OF _ order.strict_trans2 [OF assms(3,4)]])
  let ?ids = "concat (map parts [0..<?nd])"
  have "distinct ?ids" using part disj by (intro distinct_concat_upt) blast+
  moreover have set_ids: "set ?ids = (\<Union>d < ?nd. set (parts d))" by (simp add: atLeast0LessThan)
  then have "set ?ids \<subseteq> (\<Union>d < ?nd. ?P d)" using part by blast
  moreover have "set ?ids \<inter> ?P d = set (parts d)" if "d < ?nd" for d unfolding set_ids using part disj that by blast
  then have "(card (?D d) + card (?T d) \<le> ALL_MATCHES_LEN \<longrightarrow> ?P d \<subseteq> set ?ids) \<and> card (set ?ids \<inter> ?P d) \<le> ALL_MATCHES_LEN \<and>
      min ALL_MATCHES_LEN (card (?D d) + card (?T d)) \<le> card (set ?ids \<inter> ?P d) + (if d = 0 then 0 else card (?T d))" if "d < ?nd" for d
    using that part [OF that] distinct_card [of "parts d"] by (metis Int_lower1)
  ultimately show ?thesis unfolding Let_def parts by blast
qed

theorem fetched_match_ids_exact_witness:
  "let bufs' = joined 2 [[37], [37]] [[33], [33]] [[0, 0], [0, 0]] [[0, 0], [0, 0]] [3, 3] (replicate 2 (in_order (3 * 2)))
     (replicate 2 (in_order (2 * ROTATIONS * 2))) (replicate 2 (demo_buffers 2));
     ids = fetch_all_match_ids (2 * ROTATIONS) (map (\<lambda>b. take 2 (match_counters b)) bufs') (map all_matches bufs') ! 1
   in distinct ids \<and> set ids = {4, 5}"
proof -
  have two: "{..<2 :: nat} = {0, 1}" "(\<forall>d < 2. Q d) \<longleftrightarrow> Q 0 \<and> Q 1" for Q :: "nat \<Rightarrow> bool" by (auto simp: less_2_cases_iff)
  have P: "device_ids 2 0 {2} {} = {4}" "device_ids 2 (Suc 0) {2} {} = {5}" by (simp_all add: device_ids_def)
  show ?thesis
    using fetched_match_ids_exact [OF joins_ok_demo, of 1 2 "[[37], [37]]" "[[33], [33]]" "[[0, 0], [0, 0]]" "[[0, 0], [0, 0]]"]
    by (simp add: Let_def two demo_hits P ALL_MATCHES_LEN_def) blast
qed

end
