(* ===== verification/BatchQuery.thy ===== *)
theory BatchQuery
  imports ShareDbCorrect
begin

text \<open>
  The batch of queries of the GPU server (\<open>iris-mpc-gpu/src/server/mod.rs\<close>). A query has one entry in the
  vectors of ids, metadata and stored shares and 31 entries, one for each rotation, in the vectors of
  query and database shares; the preprocessed forms hold the same shares as two vectors of limbs.
  Filtering a batch by the valid entries keeps all of these vectors aligned.
\<close>

section \<open>Data\<close>

record BatchQueryEntries =
  be_code :: "GaloisRingIrisCodeShare list"
  be_mask :: "GaloisRingTrimmedMaskCodeShare list"

record BatchQueryEntriesPreprocessed =
  pp_code :: "u8 list list"
  pp_mask :: "u8 list list"

definition preprocessed_from :: "BatchQueryEntries \<Rightarrow> BatchQueryEntriesPreprocessed result" where
  "preprocessed_from v =
     (let code_coefs = concat (map gi_coefs (be_code v));
          mask_coefs = concat (map tm_coefs (be_mask v))
      in if length code_coefs div IRIS_CODE_LENGTH \<noteq> length mask_coefs div MASK_CODE_LENGTH then Inl (Panic ''assertion failed'')
         else Inr \<lparr>pp_code = preprocess_query code_coefs, pp_mask = preprocess_query mask_coefs\<rparr>)"

definition preprocessed_len :: "BatchQueryEntriesPreprocessed \<Rightarrow> nat result" where
  "preprocessed_len self =
     (if length (pp_code self) \<noteq> length (pp_mask self) then Inl (Panic ''assertion failed'')
      else if \<exists>(c, m) \<in> set (zip (pp_code self) (pp_mask self)). length c div IRIS_CODE_LENGTH \<noteq> length m div MASK_CODE_LENGTH
      then Inl (Panic ''assertion failed'')
      else Inr (case pp_code self of [] \<Rightarrow> 0 | c # _ \<Rightarrow> length c div IRIS_CODE_LENGTH))"

definition preprocessed_is_empty :: "BatchQueryEntriesPreprocessed \<Rightarrow> bool result" where
  "preprocessed_is_empty self = rbind (preprocessed_len self) (\<lambda>n. Inr (n = 0))"

record BatchMetadata =
  node_id :: string
  trace_id :: string
  span_id :: string

record BatchQuery =
  request_ids :: "string list"
  metadata :: "BatchMetadata list"
  query_left :: BatchQueryEntries
  db_left :: BatchQueryEntries
  store_left :: BatchQueryEntries
  query_left_preprocessed :: BatchQueryEntriesPreprocessed
  db_left_preprocessed :: BatchQueryEntriesPreprocessed
  query_right :: BatchQueryEntries
  db_right :: BatchQueryEntries
  store_right :: BatchQueryEntries
  query_right_preprocessed :: BatchQueryEntriesPreprocessed
  db_right_preprocessed :: BatchQueryEntriesPreprocessed
  deletion_requests_indices :: "u32 list"
  deletion_requests_metadata :: "BatchMetadata list"
  valid_entries :: "bool list"

section \<open>Filtering\<close>

definition filter_by_indices :: "nat list \<Rightarrow> 'a list \<Rightarrow> 'a list" where
  "filter_by_indices indices data = map snd (filter (\<lambda>(i, _). i \<in> set indices) (enumerate 0 data))"

definition filter_by_indices_with_rotations :: "nat list \<Rightarrow> 'a list \<Rightarrow> 'a list" where
  "filter_by_indices_with_rotations indices data =
     concat (map snd (filter (\<lambda>(i, _). i \<in> set indices) (enumerate 0 (chunks ROTATIONS data))))"

definition filter_by_indices_with_rotations_and_code_length :: "nat list \<Rightarrow> nat \<Rightarrow> 'a list \<Rightarrow> 'a list" where
  "filter_by_indices_with_rotations_and_code_length indices code_len data =
     concat (map snd (filter (\<lambda>(i, _). i \<in> set indices) (enumerate 0 (chunks (code_len * ROTATIONS) data))))"

definition filter_preprocessed_limb ::
    "nat list \<Rightarrow> nat \<Rightarrow> BatchQueryEntriesPreprocessed \<Rightarrow> BatchQueryEntriesPreprocessed result" where
  "filter_preprocessed_limb indices i entry =
     rbind (vec_index (pp_code entry) i) (\<lambda>c.
     rbind (vec_index (pp_mask entry) i) (\<lambda>m.
     Inr (entry\<lparr>pp_code := (pp_code entry)[i := filter_by_indices_with_rotations_and_code_length indices IRIS_CODE_LENGTH c],
                pp_mask := (pp_mask entry)[i := filter_by_indices_with_rotations_and_code_length indices MASK_CODE_LENGTH m]\<rparr>)))"

definition filter_preprocessed_entry :: "nat list \<Rightarrow> BatchQueryEntriesPreprocessed \<Rightarrow> BatchQueryEntriesPreprocessed result" where
  "filter_preprocessed_entry indices entry = rfold (filter_preprocessed_limb indices) [0..<2] entry"

definition filter_entries :: "nat list \<Rightarrow> BatchQueryEntries \<Rightarrow> BatchQueryEntries" where
  "filter_entries indices e =
     e\<lparr>be_code := filter_by_indices indices (be_code e), be_mask := filter_by_indices indices (be_mask e)\<rparr>"

definition filter_rotated_entries :: "nat list \<Rightarrow> BatchQueryEntries \<Rightarrow> BatchQueryEntries" where
  "filter_rotated_entries indices e =
     e\<lparr>be_code := filter_by_indices_with_rotations indices (be_code e), be_mask := filter_by_indices_with_rotations indices (be_mask e)\<rparr>"

definition retain :: "nat list \<Rightarrow> BatchQuery \<Rightarrow> BatchQuery result" where
  "retain indices b =
     rbind (filter_preprocessed_entry indices (query_left_preprocessed b)) (\<lambda>qlp.
     rbind (filter_preprocessed_entry indices (db_left_preprocessed b)) (\<lambda>dlp.
     rbind (filter_preprocessed_entry indices (query_right_preprocessed b)) (\<lambda>qrp.
     rbind (filter_preprocessed_entry indices (db_right_preprocessed b)) (\<lambda>drp.
     Inr (b\<lparr>request_ids := filter_by_indices indices (request_ids b), metadata := filter_by_indices indices (metadata b),
            store_left := filter_entries indices (store_left b), store_right := filter_entries indices (store_right b),
            query_left := filter_rotated_entries indices (query_left b), db_left := filter_rotated_entries indices (db_left b),
            query_right := filter_rotated_entries indices (query_right b), db_right := filter_rotated_entries indices (db_right b),
            query_left_preprocessed := qlp, db_left_preprocessed := dlp, query_right_preprocessed := qrp, db_right_preprocessed := drp,
            valid_entries := filter_by_indices indices (valid_entries b)\<rparr>)))))"

section \<open>Filtering keeps the vectors aligned\<close>

text \<open>The entries that are kept, of a batch of \<open>n\<close>.\<close>

definition kept :: "nat list \<Rightarrow> nat \<Rightarrow> nat list" where
  "kept indices n = filter (\<lambda>i. i \<in> set indices) [0..<n]"

lemma kept_less: "i \<in> set (kept indices n) \<Longrightarrow> i < n"
  by (simp add: kept_def)

lemma filter_enumerate: "map snd (filter (\<lambda>(i, _). i \<in> S) (enumerate k xs)) = map (\<lambda>i. xs ! (i - k)) (filter (\<lambda>i. i \<in> S) [k..<k + length xs])"
proof (induction xs arbitrary: k)
  case (Cons x xs)
  have "[k..<k + length (x # xs)] = k # [Suc k..<Suc k + length xs]" by (simp add: upt_rec)
  then show ?case using Cons.IH [of "Suc k"] by (auto simp: nth_Cons' Suc_diff_le intro!: map_cong)
qed simp

lemma filter_by_indices_kept: "filter_by_indices indices xs = map (nth xs) (kept indices (length xs))"
  using filter_enumerate [of "set indices" 0 xs] by (simp add: filter_by_indices_def kept_def)

lemma map_filter_by_indices: "filter_by_indices indices (map f xs) = map f (filter_by_indices indices xs)"
  by (auto simp: filter_by_indices_kept kept_def)

lemma filter_rotations_blocks: "filter_by_indices_with_rotations indices xs = concat (filter_by_indices indices (chunks ROTATIONS xs))"
  by (simp add: filter_by_indices_with_rotations_def filter_by_indices_def)

lemma filter_code_blocks:
  "filter_by_indices_with_rotations_and_code_length indices k xs = concat (filter_by_indices indices (chunks (k * ROTATIONS) xs))"
  by (simp add: filter_by_indices_with_rotations_and_code_length_def filter_by_indices_def)

text \<open>The share vectors of a query and its limbs are cut at the same places.\<close>

lemma filter_limb_commutes:
  assumes "length es = n * ROTATIONS" "\<forall>e \<in> set es. length (coefs e) = k" "0 < k"
  shows "filter_by_indices_with_rotations_and_code_length indices k (map g (concat (map coefs es)))
    = map g (concat (map coefs (filter_by_indices_with_rotations indices es)))"
proof -
  have R: "0 < ROTATIONS" by (simp add: ROTATIONS_def)
  have uni: "\<forall>x \<in> set (map coefs es). length x = k" "\<forall>x \<in> set (drop m (map coefs es)). length x = k" for m
    using assms(2) set_drop_subset [of m "map coefs es"] by auto
  have "length (concat (map coefs es)) = k * length es" using length_concat_uniform [OF uni(1)] by simp
  then have "length (map g (concat (map coefs es))) = n * (k * ROTATIONS)" using assms(1) by simp
  moreover have "0 < k * ROTATIONS" using assms(3) R by simp
  ultimately have "chunks (k * ROTATIONS) (map g (concat (map coefs es)))
      = map (\<lambda>i. take (k * ROTATIONS) (drop (i * (k * ROTATIONS)) (map g (concat (map coefs es))))) [0..<n]"
    by (rule chunks_blocks)
  also have "\<dots> = map (\<lambda>i. map g (concat (map coefs (take ROTATIONS (drop (i * ROTATIONS) es))))) [0..<n]"
  proof (rule map_cong [OF refl])
    fix i
    have "drop (i * (k * ROTATIONS)) (concat (map coefs es)) = concat (drop (i * ROTATIONS) (map coefs es))"
      using drop_concat_uniform [OF uni(1), of "i * ROTATIONS"] by (simp add: mult.left_commute mult.commute)
    then show "take (k * ROTATIONS) (drop (i * (k * ROTATIONS)) (map g (concat (map coefs es))))
        = map g (concat (map coefs (take ROTATIONS (drop (i * ROTATIONS) es))))"
      using take_concat_uniform [OF uni(2), of ROTATIONS] by (simp add: drop_map take_map)
  qed
  also have "\<dots> = map (\<lambda>b. map g (concat (map coefs b))) (chunks ROTATIONS es)"
    using chunks_blocks [OF assms(1) R] by simp
  moreover have "concat (map (\<lambda>b. concat (map h b)) bs) = concat (concat (map (map h) bs))" for h :: "'a \<Rightarrow> 'c list" and bs
    by (induction bs) auto
  ultimately show ?thesis
    by (simp add: filter_code_blocks filter_rotations_blocks map_filter_by_indices map_concat o_def)
qed

lemma filter_rotations_concat:
  assumes "length xs = n * ROTATIONS"
  shows "filter_by_indices_with_rotations indices xs = concat (map (\<lambda>i. take ROTATIONS (drop (i * ROTATIONS) xs)) (kept indices n))"
    "\<forall>b \<in> set (map (\<lambda>i. take ROTATIONS (drop (i * ROTATIONS) xs)) (kept indices n)). length b = ROTATIONS"
proof -
  have R: "0 < ROTATIONS" by (simp add: ROTATIONS_def)
  show "filter_by_indices_with_rotations indices xs = concat (map (\<lambda>i. take ROTATIONS (drop (i * ROTATIONS) xs)) (kept indices n))"
    using chunks_blocks [OF assms R] by (auto simp: filter_rotations_blocks filter_by_indices_kept kept_def intro!: arg_cong [where f = concat])
  have "length (take ROTATIONS (drop (i * ROTATIONS) xs)) = ROTATIONS" if "i < n" for i
    using that assms mult_le_mono1 [of "Suc i" n ROTATIONS] by simp
  then show "\<forall>b \<in> set (map (\<lambda>i. take ROTATIONS (drop (i * ROTATIONS) xs)) (kept indices n)). length b = ROTATIONS"
    by (auto dest: kept_less)
qed

lemma length_filter_rotations:
  assumes "length xs = n * ROTATIONS"
  shows "length (filter_by_indices_with_rotations indices xs) = length (kept indices n) * ROTATIONS"
  unfolding filter_rotations_concat(1) [OF assms] using length_concat_uniform [OF filter_rotations_concat(2) [OF assms]]
  by (simp only: length_map mult.commute)

lemma filter_rotations_nth:
  assumes "length xs = n * ROTATIONS" "j < length (kept indices n)" "r < ROTATIONS"
  shows "filter_by_indices_with_rotations indices xs ! (j * ROTATIONS + r) = xs ! (kept indices n ! j * ROTATIONS + r)"
proof -
  let ?B = "\<lambda>i. take ROTATIONS (drop (i * ROTATIONS) xs)"
  note uni = filter_rotations_concat(2) [OF assms(1), of indices]
  have k: "kept indices n ! j < n" by (rule kept_less [OF nth_mem [OF assms(2)]])
  have "drop (ROTATIONS * j) (concat (map ?B (kept indices n))) = concat (drop j (map ?B (kept indices n)))"
    using uni by (rule drop_concat_uniform)
  also have "drop j (map ?B (kept indices n)) = ?B (kept indices n ! j) # drop (Suc j) (map ?B (kept indices n))"
    using Cons_nth_drop_Suc [of j "map ?B (kept indices n)"] assms(2) by (simp only: length_map nth_map)
  moreover have len: "length (?B (kept indices n ! j)) = ROTATIONS" using uni nth_mem [OF assms(2)] by simp
  ultimately have "drop (ROTATIONS * j) (concat (map ?B (kept indices n))) ! r = ?B (kept indices n ! j) ! r"
    using assms(3) by (simp only: concat.simps nth_append if_True)
  moreover have "ROTATIONS * j \<le> length (concat (map ?B (kept indices n)))" using length_concat_uniform [OF uni] assms(2) by simp
  ultimately show ?thesis
    unfolding filter_rotations_concat(1) [OF assms(1)] using len assms(3) by (simp add: mult.commute)
qed

section \<open>Well-formed batches\<close>

definition entries_ok :: "nat \<Rightarrow> BatchQueryEntries \<Rightarrow> bool" where
  "entries_ok n e \<longleftrightarrow> length (be_code e) = n \<and> length (be_mask e) = n \<and>
     (\<forall>c \<in> set (be_code e). length (gi_coefs c) = IRIS_CODE_LENGTH) \<and> (\<forall>m \<in> set (be_mask e). length (tm_coefs m) = MASK_CODE_LENGTH)"

definition rotated_ok :: "nat \<Rightarrow> BatchQueryEntries \<Rightarrow> BatchQueryEntriesPreprocessed \<Rightarrow> bool" where
  "rotated_ok n e p \<longleftrightarrow> entries_ok (n * ROTATIONS) e \<and> preprocessed_from e = Inr p"

definition batch_ok :: "nat \<Rightarrow> BatchQuery \<Rightarrow> bool" where
  "batch_ok n b \<longleftrightarrow> length (request_ids b) = n \<and> length (metadata b) = n \<and> length (valid_entries b) = n \<and>
     entries_ok n (store_left b) \<and> entries_ok n (store_right b) \<and>
     rotated_ok n (query_left b) (query_left_preprocessed b) \<and> rotated_ok n (db_left b) (db_left_preprocessed b) \<and>
     rotated_ok n (query_right b) (query_right_preprocessed b) \<and> rotated_ok n (db_right b) (db_right_preprocessed b)"

text \<open>Entry \<open>j\<close> of the new vectors is entry \<open>kept ! j\<close> of the old ones, rotation by rotation.\<close>

definition taken :: "nat list \<Rightarrow> BatchQueryEntries \<Rightarrow> BatchQueryEntries \<Rightarrow> bool" where
  "taken ks e e' \<longleftrightarrow> be_code e' = map (nth (be_code e)) ks \<and> be_mask e' = map (nth (be_mask e)) ks"

definition taken_rotations :: "nat list \<Rightarrow> BatchQueryEntries \<Rightarrow> BatchQueryEntries \<Rightarrow> bool" where
  "taken_rotations ks e e' \<longleftrightarrow> (\<forall>j < length ks. \<forall>r < ROTATIONS.
     be_code e' ! (j * ROTATIONS + r) = be_code e ! (ks ! j * ROTATIONS + r) \<and>
     be_mask e' ! (j * ROTATIONS + r) = be_mask e ! (ks ! j * ROTATIONS + r))"

lemma lengths_pos: "0 < IRIS_CODE_LENGTH" "0 < MASK_CODE_LENGTH" "0 < ROTATIONS"
  by (simp_all add: IRIS_CODE_LENGTH_def MASK_CODE_LENGTH_def ROTATIONS_def)

lemma filter_entries_ok:
  assumes "entries_ok n e"
  shows "entries_ok (length (kept indices n)) (filter_entries indices e) \<and> taken (kept indices n) e (filter_entries indices e)"
  using assms by (auto simp: entries_ok_def taken_def filter_entries_def filter_by_indices_kept dest: kept_less)

lemma set_filter_rotations: "length xs = n * ROTATIONS \<Longrightarrow> set (filter_by_indices_with_rotations indices xs) \<subseteq> set xs"
  using chunks_blocks [of xs n ROTATIONS] lengths_pos(3)
  by (auto simp: filter_rotations_blocks filter_by_indices_kept dest!: kept_less in_set_takeD in_set_dropD)

lemma filter_rotations_entries:
  assumes "entries_ok (n * ROTATIONS) e"
  shows "entries_ok (length (kept indices n) * ROTATIONS) (filter_rotated_entries indices e)"
    "taken_rotations (kept indices n) e (filter_rotated_entries indices e)"
proof -
  have len: "length (be_code e) = n * ROTATIONS" "length (be_mask e) = n * ROTATIONS" using assms by (simp_all add: entries_ok_def)
  show "taken_rotations (kept indices n) e (filter_rotated_entries indices e)"
    unfolding taken_rotations_def filter_rotated_entries_def using filter_rotations_nth(1) [OF len(1)] filter_rotations_nth(1) [OF len(2)] by simp
  show "entries_ok (length (kept indices n) * ROTATIONS) (filter_rotated_entries indices e)"
    using assms set_filter_rotations [OF len(1), of indices] set_filter_rotations [OF len(2), of indices]
    by (auto simp: entries_ok_def filter_rotated_entries_def length_filter_rotations)
qed

lemma length_concat_coefs:
  "entries_ok m e \<Longrightarrow> length (concat (map gi_coefs (be_code e))) = IRIS_CODE_LENGTH * m"
  "entries_ok m e \<Longrightarrow> length (concat (map tm_coefs (be_mask e))) = MASK_CODE_LENGTH * m"
  using length_concat_uniform [of "map gi_coefs (be_code e)" IRIS_CODE_LENGTH]
    length_concat_uniform [of "map tm_coefs (be_mask e)" MASK_CODE_LENGTH] by (simp_all add: entries_ok_def)

lemma preprocessed_from_ok:
  assumes "entries_ok m e"
  shows "preprocessed_from e = Inr \<lparr>pp_code = preprocess_query (concat (map gi_coefs (be_code e))),
    pp_mask = preprocess_query (concat (map tm_coefs (be_mask e)))\<rparr>"
  using lengths_pos by (simp add: preprocessed_from_def Let_def length_concat_coefs [OF assms])

lemma filter_preprocessed_ok:
  assumes "rotated_ok n e p"
  shows "\<exists>p'. filter_preprocessed_entry indices p = Inr p' \<and> rotated_ok (length (kept indices n)) (filter_rotated_entries indices e) p'"
proof -
  let ?fc = "filter_by_indices_with_rotations_and_code_length indices IRIS_CODE_LENGTH"
  let ?fm = "filter_by_indices_with_rotations_and_code_length indices MASK_CODE_LENGTH"
  let ?c = "concat (map gi_coefs (be_code e))" and ?m = "concat (map tm_coefs (be_mask e))" and ?e' = "filter_rotated_entries indices e"
  have e: "entries_ok (n * ROTATIONS) e" using assms by (simp add: rotated_ok_def)
  have p: "p = \<lparr>pp_code = [map lo8 ?c, map hi8 ?c], pp_mask = [map lo8 ?m, map hi8 ?m]\<rparr>"
    using assms preprocessed_from_ok [OF e] by (simp add: rotated_ok_def preprocess_query_limbs)
  have filt: "filter_preprocessed_entry indices p = Inr \<lparr>pp_code = [?fc (map lo8 ?c), ?fc (map hi8 ?c)], pp_mask = [?fm (map lo8 ?m), ?fm (map hi8 ?m)]\<rparr>"
    unfolding p by (simp add: filter_preprocessed_entry_def filter_preprocessed_limb_def vec_index_def upt_rec)
  have comm: "?fc (map g ?c) = map g (concat (map gi_coefs (be_code ?e')))" "?fm (map g ?m) = map g (concat (map tm_coefs (be_mask ?e')))" for g
    using e filter_limb_commutes [of "be_code e" n gi_coefs IRIS_CODE_LENGTH indices g, OF _ _ lengths_pos(1)]
      filter_limb_commutes [of "be_mask e" n tm_coefs MASK_CODE_LENGTH indices g, OF _ _ lengths_pos(2)]
    by (simp_all add: entries_ok_def filter_rotated_entries_def)
  note e' = filter_rotations_entries(1) [OF e, of indices]
  have "filter_preprocessed_entry indices p = preprocessed_from ?e'"
    unfolding filt comm preprocessed_from_ok [OF e'] preprocess_query_limbs by (rule refl)
  then show ?thesis using preprocessed_from_ok [OF e'] e' unfolding rotated_ok_def by metis
qed

lemma retain_ok:
  fixes indices :: "nat list"
  assumes "batch_ok n b"
  defines "ks \<equiv> kept indices n"
  shows "\<exists>b'. retain indices b = Inr b' \<and> batch_ok (length ks) b' \<and> request_ids b' = map (nth (request_ids b)) ks \<and>
    metadata b' = map (nth (metadata b)) ks \<and> valid_entries b' = map (nth (valid_entries b)) ks \<and>
    taken ks (store_left b) (store_left b') \<and> taken ks (store_right b) (store_right b') \<and>
    taken_rotations ks (query_left b) (query_left b') \<and> taken_rotations ks (db_left b) (db_left b') \<and>
    taken_rotations ks (query_right b) (query_right b') \<and> taken_rotations ks (db_right b) (db_right b') \<and>
    deletion_requests_indices b' = deletion_requests_indices b \<and> deletion_requests_metadata b' = deletion_requests_metadata b"
proof -
  have rot: "rotated_ok n (query_left b) (query_left_preprocessed b)" "rotated_ok n (db_left b) (db_left_preprocessed b)"
    "rotated_ok n (query_right b) (query_right_preprocessed b)" "rotated_ok n (db_right b) (db_right_preprocessed b)"
    using assms(1) by (simp_all add: batch_ok_def)
  then have tk: "taken_rotations ks e (filter_rotated_entries indices e)" if "rotated_ok n e p" for e p
    using that filter_rotations_entries(2) unfolding ks_def rotated_ok_def by blast
  obtain p1 p2 p3 p4 where
    "filter_preprocessed_entry indices (query_left_preprocessed b) = Inr p1" "rotated_ok (length ks) (filter_rotated_entries indices (query_left b)) p1"
    "filter_preprocessed_entry indices (db_left_preprocessed b) = Inr p2" "rotated_ok (length ks) (filter_rotated_entries indices (db_left b)) p2"
    "filter_preprocessed_entry indices (query_right_preprocessed b) = Inr p3" "rotated_ok (length ks) (filter_rotated_entries indices (query_right b)) p3"
    "filter_preprocessed_entry indices (db_right_preprocessed b) = Inr p4" "rotated_ok (length ks) (filter_rotated_entries indices (db_right b)) p4"
    using rot [THEN filter_preprocessed_ok, of indices] unfolding ks_def by blast
  then show ?thesis
    using assms(1) rot [THEN tk] filter_entries_ok [of n "store_left b" indices] filter_entries_ok [of n "store_right b" indices]
    by (simp add: retain_def batch_ok_def filter_by_indices_kept ks_def)
qed

section \<open>Properties\<close>

text \<open>
  C19: Filtering a batch keeps it well formed: the ids, the metadata, the stored shares, all 31 rotations
  of the query and database shares of both eyes and their preprocessed limbs stay aligned, entry \<open>j\<close> of
  the new batch is the \<open>j\<close>-th entry that was kept, and the limbs are again those of the kept shares.
\<close>

theorem retain_aligned:
  fixes indices :: "nat list"
  assumes "batch_ok n b"
  shows "let ks = kept indices n in \<exists>b'. retain indices b = Inr b' \<and> batch_ok (length ks) b' \<and>
    request_ids b' = map (nth (request_ids b)) ks \<and> metadata b' = map (nth (metadata b)) ks \<and> valid_entries b' = map (nth (valid_entries b)) ks \<and>
    taken ks (store_left b) (store_left b') \<and> taken ks (store_right b) (store_right b') \<and>
    taken_rotations ks (query_left b) (query_left b') \<and> taken_rotations ks (db_left b) (db_left b') \<and>
    taken_rotations ks (query_right b) (query_right b') \<and> taken_rotations ks (db_right b) (db_right b') \<and>
    deletion_requests_indices b' = deletion_requests_indices b \<and> deletion_requests_metadata b' = deletion_requests_metadata b"
  unfolding Let_def using assms by (rule retain_ok)

definition demo_entries :: "nat \<Rightarrow> BatchQueryEntries" where
  "demo_entries n = \<lparr>be_code = map (\<lambda>i. gi_default_for_party i) [0..<n], be_mask = map (\<lambda>i. tm_default_for_party i) [0..<n]\<rparr>"

definition demo_preprocessed :: "nat \<Rightarrow> BatchQueryEntriesPreprocessed" where
  "demo_preprocessed n = \<lparr>pp_code = preprocess_query (concat (map gi_coefs (be_code (demo_entries n)))),
     pp_mask = preprocess_query (concat (map tm_coefs (be_mask (demo_entries n))))\<rparr>"

definition demo_batch :: "string list \<Rightarrow> BatchQuery" where
  "demo_batch ids = (let n = length ids; r = demo_entries (n * ROTATIONS); p = demo_preprocessed (n * ROTATIONS) in
     \<lparr>request_ids = ids, metadata = map (\<lambda>i. \<lparr>node_id = i, trace_id = [], span_id = []\<rparr>) ids, query_left = r, db_left = r, store_left = demo_entries n,
      query_left_preprocessed = p, db_left_preprocessed = p, query_right = r, db_right = r, store_right = demo_entries n,
      query_right_preprocessed = p, db_right_preprocessed = p, deletion_requests_indices = [], deletion_requests_metadata = [],
      valid_entries = map (\<lambda>_. True) ids\<rparr>)"

lemma demo_entries_ok: "entries_ok n (demo_entries n)"
  by (auto simp: entries_ok_def demo_entries_def gi_default_for_party_def tm_default_for_party_def)

lemma demo_batch_ok: "batch_ok (length ids) (demo_batch ids)"
  using demo_entries_ok preprocessed_from_ok [OF demo_entries_ok]
  by (simp add: batch_ok_def demo_batch_def Let_def rotated_ok_def demo_preprocessed_def)

theorem retain_aligned_witness:
  "\<exists>b'. retain [0, 2] (demo_batch [''a'', ''b'', ''c'']) = Inr b' \<and> batch_ok 2 b' \<and> request_ids b' = [''a'', ''c''] \<and>
     gi_id (be_code (store_left b') ! 1) = 2 \<and> gi_id (be_code (db_right b') ! (1 * ROTATIONS + 3)) = 2 * ROTATIONS + 3"
proof -
  have ks: "kept [0, 2] 3 = [0, 2]" by (simp add: kept_def upt_rec)
  let ?b = "demo_batch [''a'', ''b'', ''c'']"
  have "batch_ok 3 ?b" using demo_batch_ok [of "[''a'', ''b'', ''c'']"] by (simp add: numeral_3_eq_3)
  from retain_aligned [OF this, of "[0, 2]", unfolded Let_def ks] obtain b' where b': "retain [0, 2] ?b = Inr b'" "batch_ok (length [0 :: nat, 2]) b'"
    "request_ids b' = map (nth (request_ids ?b)) [0, 2]" "taken [0, 2] (store_left ?b) (store_left b')"
    "taken_rotations [0, 2] (db_right ?b) (db_right b')" by blast
  have R: "ROTATIONS = 31" by (simp add: ROTATIONS_def)
  have "be_code (db_right b') ! (1 * ROTATIONS + 3) = be_code (db_right ?b) ! ([0, 2] ! 1 * ROTATIONS + 3)"
    using b'(5) [unfolded taken_rotations_def, rule_format, of 1 3] by (simp add: R)
  moreover have "gi_id (be_code (db_right ?b) ! ([0, 2] ! 1 * ROTATIONS + 3)) = 2 * ROTATIONS + 3"
    by (simp add: demo_batch_def demo_entries_def Let_def R gi_default_for_party_def)
  moreover have "gi_id (be_code (store_left b') ! 1) = 2"
    using b'(4) by (simp add: taken_def demo_batch_def demo_entries_def Let_def gi_default_for_party_def)
  moreover have "request_ids b' = [''a'', ''c'']" using b'(3) by (simp add: demo_batch_def Let_def)
  moreover have "batch_ok 2 b'" using b'(2) by (simp add: numeral_2_eq_2)
  ultimately show ?thesis using b'(1) by (intro exI [where x = b'] conjI) simp_all
qed

end
