(* ===== verification/ServerActor.thy ===== *)
theory ServerActor
  imports BatchQuery MatchSearch
begin

text \<open>
  The server actor of the GPU protocol (\<open>iris-mpc-gpu/src/server/actor.rs\<close>), with the queries of
  \<open>helpers/query_processor.rs\<close>. The actor keeps the database of both eyes, sharded over the devices, and
  processes one batch after another: deletions, agreement on the valid entries, the search of both
  eyes, the merge of the results, and the insertion of the queries that did not match. The threshold
  circuits and the messages of the other parties are parameters; the derivation of the seeds is one too.
\<close>

section \<open>Queries on the devices\<close>

record CompactQuery =
  cq_code_query :: "u8 list list"
  cq_mask_query :: "u8 list list"
  cq_code_query_insert :: "u8 list list"
  cq_mask_query_insert :: "u8 list list"

record DeviceCompactQuery =
  code_query :: "u8 CudaVec2DSlicer"
  mask_query :: "u8 CudaVec2DSlicer"
  code_query_insert :: "u8 CudaVec2DSlicer"
  mask_query_insert :: "u8 CudaVec2DSlicer"

record DeviceCompactSums =
  code_query_sums :: "u32 CudaVec2DSlicer"
  mask_query_sums :: "u32 CudaVec2DSlicer"
  code_query_insert_sums :: "u32 CudaVec2DSlicer"
  mask_query_insert_sums :: "u32 CudaVec2DSlicer"

definition htod_transfer :: "(nat \<Rightarrow> nat \<Rightarrow> u8 list) \<Rightarrow> nat \<Rightarrow> nat \<Rightarrow> CompactQuery \<Rightarrow> DeviceCompactQuery result" where
  "htod_transfer uninit n_devices batch_size self =
     rbind (htod_transfer_query uninit n_devices (cq_code_query self) batch_size IRIS_CODE_LENGTH) (\<lambda>cq.
     rbind (htod_transfer_query uninit n_devices (cq_mask_query self) batch_size MASK_CODE_LENGTH) (\<lambda>mq.
     rbind (htod_transfer_query uninit n_devices (cq_code_query_insert self) batch_size IRIS_CODE_LENGTH) (\<lambda>cqi.
     rbind (htod_transfer_query uninit n_devices (cq_mask_query_insert self) batch_size MASK_CODE_LENGTH) (\<lambda>mqi.
     Inr \<lparr>code_query = cq, mask_query = mq, code_query_insert = cqi, mask_query_insert = mqi\<rparr>))))"

definition compact_query_sums ::
    "gemm_ex \<Rightarrow> (nat \<Rightarrow> i32 list) \<Rightarrow> ShareDB \<Rightarrow> ShareDB \<Rightarrow> DeviceCompactQuery \<Rightarrow> DeviceCompactSums result" where
  "compact_query_sums G mem32 code_engine mask_engine self =
     rbind (query_sums G mem32 code_engine (code_query self)) (\<lambda>cq.
     rbind (query_sums G mem32 mask_engine (mask_query self)) (\<lambda>mq.
     rbind (query_sums G mem32 code_engine (code_query_insert self)) (\<lambda>cqi.
     rbind (query_sums G mem32 mask_engine (mask_query_insert self)) (\<lambda>mqi.
     Inr \<lparr>code_query_sums = cq, mask_query_sums = mq, code_query_insert_sums = cqi, mask_query_insert_sums = mqi\<rparr>))))"

definition dot_products_against_db ::
    "gemm_ex \<Rightarrow> ShareDB \<times> ShareDB \<Rightarrow> DeviceCompactQuery \<Rightarrow> i8 CudaVec2DSlicer \<Rightarrow> i8 CudaVec2DSlicer \<Rightarrow> nat list \<Rightarrow> nat
       \<Rightarrow> (ShareDB \<times> ShareDB) result" where
  "dot_products_against_db G es self sliced_code_db sliced_mask_db database_sizes off =
     rbind (dot G (fst es) (code_query self) sliced_code_db database_sizes off) (\<lambda>code_engine.
     rbind (dot G (snd es) (mask_query self) sliced_mask_db database_sizes off) (\<lambda>mask_engine.
     Inr (code_engine, mask_engine)))"

definition compute_dot_products ::
    "gemm_ex \<Rightarrow> ShareDB \<times> ShareDB \<Rightarrow> DeviceCompactQuery \<Rightarrow> nat list \<Rightarrow> nat \<Rightarrow> (ShareDB \<times> ShareDB) result" where
  "compute_dot_products G es self db_sizes off =
     rbind (dot G (fst es) (code_query self) (code_query_insert self) db_sizes off) (\<lambda>code_engine.
     rbind (dot G (snd es) (mask_query self) (mask_query_insert self) db_sizes off) (\<lambda>mask_engine.
     Inr (code_engine, mask_engine)))"

definition compute_dot_reducers :: "ShareDB \<times> ShareDB \<Rightarrow> DeviceCompactSums \<Rightarrow> nat list \<Rightarrow> nat \<Rightarrow> (ShareDB \<times> ShareDB) result" where
  "compute_dot_reducers es self db_sizes off =
     rbind (dot_reduce (fst es) (code_query_sums self) (code_query_insert_sums self) db_sizes off) (\<lambda>code_engine.
     rbind (dot_reduce_and_multiply (snd es) (mask_query_sums self) (mask_query_insert_sums self) db_sizes off 2) (\<lambda>mask_engine.
     Inr (code_engine, mask_engine)))"

definition compute_dot_reducer_against_db ::
    "ShareDB \<times> ShareDB \<Rightarrow> DeviceCompactSums \<Rightarrow> SlicedProcessedDatabase \<Rightarrow> SlicedProcessedDatabase \<Rightarrow> nat list \<Rightarrow> nat
       \<Rightarrow> (ShareDB \<times> ShareDB) result" where
  "compute_dot_reducer_against_db es self sliced_code_db sliced_mask_db database_sizes off =
     rbind (dot_reduce (fst es) (code_query_sums self) (code_sums_gr sliced_code_db) database_sizes off) (\<lambda>code_engine.
     rbind (dot_reduce_and_multiply (snd es) (mask_query_sums self) (code_sums_gr sliced_mask_db) database_sizes off 2) (\<lambda>mask_engine.
     Inr (code_engine, mask_engine)))"

section \<open>State\<close>

datatype Eye = Left | Right

record ServerActor =
  actor_party_id :: nat
  device_count :: nat
  codes_engine :: ShareDB
  masks_engine :: ShareDB
  batch_codes_engine :: ShareDB
  batch_masks_engine :: ShareDB
  left_code_db_slices :: SlicedProcessedDatabase
  left_mask_db_slices :: SlicedProcessedDatabase
  right_code_db_slices :: SlicedProcessedDatabase
  right_mask_db_slices :: SlicedProcessedDatabase
  match_buffers :: "MatchBuffers list"
  db_match_list_left :: "u64 list list"
  db_match_list_right :: "u64 list list"
  batch_match_list_left :: "u64 list list"
  batch_match_list_right :: "u64 list list"
  current_db_sizes :: "nat list"
  query_db_size :: "nat list"
  max_batch_size :: nat
  max_db_size :: nat
  return_partial_results :: bool
  disable_persistence :: bool
  code_chunk_buffers :: "i8 CudaVec2DSlicer list"
  mask_chunk_buffers :: "i8 CudaVec2DSlicer list"

text \<open>The match buffers and bitmaps of the distance comparator.\<close>

definition comparator_buffers :: "nat \<Rightarrow> MatchBuffers" where
  "comparator_buffers q_length =
     (let n = q_length div ROTATIONS; len = ALL_MATCHES_LEN * q_length div ROTATIONS
      in \<lparr>final_results = replicate n (- 1), match_counters = replicate n 0, all_matches = replicate len 0,
          match_counters_left = replicate n 0, match_counters_right = replicate n 0,
          partial_results_left = replicate len 0, partial_results_right = replicate len 0\<rparr>)"

definition prepare_db_match_list :: "nat \<Rightarrow> nat \<Rightarrow> nat \<Rightarrow> u64 list list" where
  "prepare_db_match_list n_devices q_length db_size = replicate n_devices (replicate (db_size * q_length div ROTATIONS div 64) 0)"

definition alloc_db_chunk_buffer :: "(nat \<Rightarrow> i8 list) \<Rightarrow> nat \<Rightarrow> nat \<Rightarrow> nat \<Rightarrow> i8 CudaVec2DSlicer" where
  "alloc_db_chunk_buffer mem8 n_devices code_len max_chunk_size =
     \<lparr>limb_0 = replicate n_devices (mem8 (max_chunk_size * code_len)), limb_1 = replicate n_devices (mem8 (max_chunk_size * code_len))\<rparr>"

text \<open>
  Initialisation. \<open>kdf seed nonce\<close> is the key derivation, \<open>mem8\<close>, \<open>mem16\<close> and \<open>mem32\<close> the contents of fresh memory.
  Every engine takes the next nonce.
\<close>

definition next_chacha_seeds :: "(u32 list \<Rightarrow> nat \<Rightarrow> u32 list) \<Rightarrow> u32 list \<times> u32 list \<Rightarrow> nat \<Rightarrow> u32 list \<times> u32 list" where
  "next_chacha_seeds kdf seeds nonce = (kdf (fst seeds) nonce, kdf (snd seeds) nonce)"

definition actor_init ::
    "(u32 list \<Rightarrow> nat \<Rightarrow> u32 list) \<Rightarrow> (nat \<Rightarrow> i8 list) \<Rightarrow> (nat \<Rightarrow> u16 list) \<Rightarrow> (nat \<Rightarrow> i32 list) \<Rightarrow> bool \<Rightarrow> nat \<Rightarrow> u32 list \<times> u32 list \<Rightarrow> nat
       \<Rightarrow> nat \<Rightarrow> nat \<Rightarrow> bool \<Rightarrow> bool \<Rightarrow> ServerActor result" where
  "actor_init kdf mem8 mem16 mem32 remote party n_dev_seeds n_devices max_db max_batch partial no_persist =
     (if max_batch = 0 then Inl (Panic ''assertion failed: max_batch_size != 0'')
      else
        (let n_queries = max_batch * ROTATIONS; seeds = next_chacha_seeds kdf n_dev_seeds
         in rbind (share_db_init mem32 mem16 party n_devices DB_CHUNK_SIZE n_queries IRIS_CODE_LENGTH (seeds 0) remote) (\<lambda>codes.
            rbind (share_db_init mem32 mem16 party n_devices DB_CHUNK_SIZE n_queries MASK_CODE_LENGTH (seeds 1) remote) (\<lambda>masks.
            rbind (share_db_init mem32 mem16 party n_devices n_queries n_queries IRIS_CODE_LENGTH (seeds 2) remote) (\<lambda>batch_codes.
            rbind (share_db_init mem32 mem16 party n_devices n_queries n_queries MASK_CODE_LENGTH (seeds 3) remote) (\<lambda>batch_masks.
            if n_queries * n_queries mod 64 \<noteq> 0 then Inl (Panic ''Phase2 batch chunk size must be a multiple of 64'')
            else if n_queries * DB_CHUNK_SIZE mod 64 \<noteq> 0 then Inl (Panic ''Phase2 chunk size must be a multiple of 64'')
            else if n_devices = 0 then Inl (Panic ''attempt to divide by zero'')
            else Inr \<lparr>actor_party_id = party, device_count = n_devices, codes_engine = codes, masks_engine = masks,
              batch_codes_engine = batch_codes, batch_masks_engine = batch_masks,
              left_code_db_slices = alloc_db IRIS_CODE_LENGTH n_devices mem32 max_db,
              left_mask_db_slices = alloc_db MASK_CODE_LENGTH n_devices mem32 max_db,
              right_code_db_slices = alloc_db IRIS_CODE_LENGTH n_devices mem32 max_db,
              right_mask_db_slices = alloc_db MASK_CODE_LENGTH n_devices mem32 max_db,
              match_buffers = replicate n_devices (comparator_buffers n_queries),
              db_match_list_left = prepare_db_match_list n_devices n_queries (max_db div n_devices),
              db_match_list_right = prepare_db_match_list n_devices n_queries (max_db div n_devices),
              batch_match_list_left = prepare_db_match_list n_devices n_queries n_queries,
              batch_match_list_right = prepare_db_match_list n_devices n_queries n_queries,
              current_db_sizes = replicate n_devices 0, query_db_size = replicate n_devices n_queries,
              max_batch_size = max_batch, max_db_size = max_db, return_partial_results = partial, disable_persistence = no_persist,
              code_chunk_buffers = replicate 2 (alloc_db_chunk_buffer mem8 n_devices IRIS_CODE_LENGTH DB_CHUNK_SIZE),
              mask_chunk_buffers = replicate 2 (alloc_db_chunk_buffer mem8 n_devices MASK_CODE_LENGTH DB_CHUNK_SIZE)\<rparr>)))))
      )"

section \<open>Loading the database\<close>

definition actor_load_full_db :: "u16 list \<times> u16 list \<Rightarrow> u16 list \<times> u16 list \<Rightarrow> nat \<Rightarrow> ServerActor \<Rightarrow> ServerActor result" where
  "actor_load_full_db left right db_size self =
     (if length (fst left) \<noteq> db_size * IRIS_CODE_LENGTH \<or> length (fst right) \<noteq> db_size * IRIS_CODE_LENGTH
      then Inl (Panic ''Internal DB mismatch, left and right iris code db sizes differ'')
      else if length (snd left) \<noteq> db_size * MASK_CODE_LENGTH \<or> length (snd right) \<noteq> db_size * MASK_CODE_LENGTH
      then Inl (Panic ''Internal DB mismatch, left and right mask code db sizes differ'')
      else
        (let n = device_count self
         in rbind (load_full_db IRIS_CODE_LENGTH n (left_code_db_slices self) (fst left)) (\<lambda>(lc, db_lens1).
            rbind (load_full_db MASK_CODE_LENGTH n (left_mask_db_slices self) (snd left)) (\<lambda>(lm, db_lens2).
            rbind (load_full_db IRIS_CODE_LENGTH n (right_code_db_slices self) (fst right)) (\<lambda>(rc, db_lens3).
            rbind (load_full_db MASK_CODE_LENGTH n (right_mask_db_slices self) (snd right)) (\<lambda>(rm, db_lens4).
            if db_lens1 \<noteq> db_lens2 \<or> db_lens1 \<noteq> db_lens3 \<or> db_lens1 \<noteq> db_lens4 then Inl (Panic ''assertion failed'')
            else Inr (self\<lparr>left_code_db_slices := lc, left_mask_db_slices := lm, right_code_db_slices := rc, right_mask_db_slices := rm,
              current_db_sizes := db_lens1\<rparr>)))))))"

definition actor_load_single_record :: "nat \<Rightarrow> u16 list \<Rightarrow> u16 list \<Rightarrow> u16 list \<Rightarrow> u16 list \<Rightarrow> ServerActor \<Rightarrow> ServerActor result" where
  "actor_load_single_record index left_code left_mask right_code right_mask self =
     (let n = device_count self
      in rbind (load_single_record index (code_gr (left_code_db_slices self)) left_code n IRIS_CODE_LENGTH) (\<lambda>lc.
         rbind (load_single_record index (code_gr (left_mask_db_slices self)) left_mask n MASK_CODE_LENGTH) (\<lambda>lm.
         rbind (load_single_record index (code_gr (right_code_db_slices self)) right_code n IRIS_CODE_LENGTH) (\<lambda>rc.
         rbind (load_single_record index (code_gr (right_mask_db_slices self)) right_mask n MASK_CODE_LENGTH) (\<lambda>rm.
         Inr (self\<lparr>left_code_db_slices := (left_code_db_slices self)\<lparr>code_gr := lc\<rparr>, left_mask_db_slices := (left_mask_db_slices self)\<lparr>code_gr := lm\<rparr>,
                   right_code_db_slices := (right_code_db_slices self)\<lparr>code_gr := rc\<rparr>, right_mask_db_slices := (right_mask_db_slices self)\<lparr>code_gr := rm\<rparr>\<rparr>))))))"

definition increment_db_size :: "nat \<Rightarrow> ServerActor \<Rightarrow> ServerActor result" where
  "increment_db_size index self =
     (if device_count self = 0 then Inl (Panic ''attempt to calculate the remainder with a divisor of zero'')
      else rbind (vec_index (current_db_sizes self) (index mod device_count self)) (\<lambda>s.
        Inr (self\<lparr>current_db_sizes := (current_db_sizes self)[index mod device_count self := s + 1]\<rparr>)))"

definition set_current_db_sizes :: "nat list \<Rightarrow> ServerActor \<Rightarrow> ServerActor" where
  "set_current_db_sizes sizes self = self\<lparr>current_db_sizes := sizes\<rparr>"

definition actor_preprocess_db :: "ServerActor \<Rightarrow> ServerActor result" where
  "actor_preprocess_db self =
     rbind (preprocess_db IRIS_CODE_LENGTH (left_code_db_slices self) (current_db_sizes self)) (\<lambda>lc.
     rbind (preprocess_db MASK_CODE_LENGTH (left_mask_db_slices self) (current_db_sizes self)) (\<lambda>lm.
     rbind (preprocess_db IRIS_CODE_LENGTH (right_code_db_slices self) (current_db_sizes self)) (\<lambda>rc.
     rbind (preprocess_db MASK_CODE_LENGTH (right_mask_db_slices self) (current_db_sizes self)) (\<lambda>rm.
     Inr (self\<lparr>left_code_db_slices := lc, left_mask_db_slices := lm, right_code_db_slices := rc, right_mask_db_slices := rm\<rparr>)))))"

section \<open>Opening\<close>

text \<open>
  The first \<open>chunk_size\<close> words of the result are sent on and received from the previous party; \<open>recv\<close> has the
  received words of every device.
\<close>

definition opened_views :: "nat \<Rightarrow> (u64 list \<times> u64 list) list \<Rightarrow> u64 list list \<Rightarrow> (u64 list \<times> u64 list \<times> u64 list) list" where
  "opened_views chunk_size x recv = map (\<lambda>((a, b), c). (take chunk_size a, take chunk_size b, c)) (zip x recv)"

definition open_bitmaps ::
    "nat \<Rightarrow> (u64 list \<times> u64 list) list \<Rightarrow> u64 list list \<Rightarrow> u64 list list \<Rightarrow> nat \<Rightarrow> nat list \<Rightarrow> nat list \<Rightarrow> nat \<Rightarrow> nat list \<Rightarrow> bool list
       \<Rightarrow> (nat \<times> nat) list list \<Rightarrow> u64 list list" where
  "open_bitmaps q_length x recv matches_bitmap chunk_size db_sizes real_db_sizes off total_db_sizes ignore_db_results scheds =
     open_results q_length (opened_views chunk_size x recv) matches_bitmap db_sizes real_db_sizes off total_db_sizes ignore_db_results scheds"

section \<open>Search\<close>

text \<open>
  What a search takes from outside: the matrix product, the circuits with their outputs for the batch
  and for every chunk, the messages of the previous party and the schedules of the kernels.
\<close>

type_synonym dots = "(u16 list \<times> u16 list) list"

record SearchIO =
  gemm_fn :: gemm_ex
  batch_code_recv :: "u16 list list"
  batch_mask_recv :: "u16 list list"
  batch_threshold :: "dots \<Rightarrow> dots \<Rightarrow> (u64 list \<times> u64 list) list"
  batch_open_recv :: "u64 list list"
  batch_sched :: "(nat \<times> nat) list list"
  code_recv :: "nat \<Rightarrow> u16 list list"
  mask_recv :: "nat \<Rightarrow> u16 list list"
  threshold :: "nat \<Rightarrow> dots \<Rightarrow> dots \<Rightarrow> (u64 list \<times> u64 list) list"
  open_recv :: "nat \<Rightarrow> u64 list list"
  chunk_sched :: "nat \<Rightarrow> (nat \<times> nat) list list"

definition db_slices :: "Eye \<Rightarrow> ServerActor \<Rightarrow> SlicedProcessedDatabase \<times> SlicedProcessedDatabase" where
  "db_slices eye_db self =
     (case eye_db of Left \<Rightarrow> (left_code_db_slices self, left_mask_db_slices self)
      | Right \<Rightarrow> (right_code_db_slices self, right_mask_db_slices self))"

definition db_match_list :: "Eye \<Rightarrow> ServerActor \<Rightarrow> u64 list list" where
  "db_match_list eye_db self = (case eye_db of Left \<Rightarrow> db_match_list_left self | Right \<Rightarrow> db_match_list_right self)"

definition batch_match_list :: "Eye \<Rightarrow> ServerActor \<Rightarrow> u64 list list" where
  "batch_match_list eye_db self = (case eye_db of Left \<Rightarrow> batch_match_list_left self | Right \<Rightarrow> batch_match_list_right self)"

definition set_db_match_list :: "Eye \<Rightarrow> u64 list list \<Rightarrow> ServerActor \<Rightarrow> ServerActor" where
  "set_db_match_list eye_db bm self =
     (case eye_db of Left \<Rightarrow> self\<lparr>db_match_list_left := bm\<rparr> | Right \<Rightarrow> self\<lparr>db_match_list_right := bm\<rparr>)"

definition set_batch_match_list :: "Eye \<Rightarrow> u64 list list \<Rightarrow> ServerActor \<Rightarrow> ServerActor" where
  "set_batch_match_list eye_db bm self =
     (case eye_db of Left \<Rightarrow> self\<lparr>batch_match_list_left := bm\<rparr> | Right \<Rightarrow> self\<lparr>batch_match_list_right := bm\<rparr>)"

text \<open>The queries of the batch against each other.\<close>

definition batch_dedup :: "SearchIO \<Rightarrow> Eye \<Rightarrow> DeviceCompactQuery \<Rightarrow> DeviceCompactSums \<Rightarrow> ServerActor \<Rightarrow> ServerActor result" where
  "batch_dedup io eye_db queries qsums self =
     (let sizes = query_db_size self; n_queries = max_batch_size self * ROTATIONS;
          db_sizes_batch = replicate (device_count self) n_queries
      in rbind (compute_dot_products (gemm_fn io) (batch_codes_engine self, batch_masks_engine self) queries sizes 0) (\<lambda>es.
         rbind (compute_dot_reducers es qsums sizes 0) (\<lambda>es.
         rbind (reshare_results (fst es) sizes (batch_code_recv io)) (\<lambda>(codes, _).
         rbind (reshare_results (snd es) sizes (batch_mask_recv io)) (\<lambda>(masks, _).
         rbind (result_chunk_shares codes db_sizes_batch) (\<lambda>code_dots_batch.
         rbind (result_chunk_shares masks db_sizes_batch) (\<lambda>mask_dots_batch.
         (let res = batch_threshold io code_dots_batch mask_dots_batch;
              bm = open_bitmaps n_queries res (batch_open_recv io) (batch_match_list eye_db self) (n_queries * n_queries div 64)
                db_sizes_batch db_sizes_batch 0 db_sizes_batch (replicate (device_count self) False) (batch_sched io)
          in Inr (set_batch_match_list eye_db bm (self\<lparr>batch_codes_engine := codes, batch_masks_engine := masks\<rparr>))))))))))"

text \<open>A chunk is copied to one of two buffers, of the even and of the odd chunks.\<close>

definition prefetch_chunk :: "Eye \<Rightarrow> nat \<Rightarrow> nat list \<Rightarrow> nat list \<Rightarrow> ServerActor \<Rightarrow> ServerActor result" where
  "prefetch_chunk eye_db slot sizes offsets self =
     (let (code_db, mask_db) = db_slices eye_db self
      in rbind (prefetch_db_chunk IRIS_CODE_LENGTH code_db (code_chunk_buffers self ! slot) sizes offsets (current_db_sizes self)) (\<lambda>cb.
         rbind (prefetch_db_chunk MASK_CODE_LENGTH mask_db (mask_chunk_buffers self ! slot) sizes offsets (current_db_sizes self)) (\<lambda>mb.
         Inr (self\<lparr>code_chunk_buffers := (code_chunk_buffers self)[slot := cb], mask_chunk_buffers := (mask_chunk_buffers self)[slot := mb]\<rparr>))))"

text \<open>Phase 1 of a chunk: the masked dot products, shared with the next party.\<close>

definition db_phase1 ::
    "SearchIO \<Rightarrow> Eye \<Rightarrow> DeviceCompactQuery \<Rightarrow> DeviceCompactSums \<Rightarrow> nat \<Rightarrow> nat list \<Rightarrow> ServerActor \<Rightarrow> ServerActor result" where
  "db_phase1 io eye_db queries qsums db_chunk_idx dot_chunk self =
     (let slot = db_chunk_idx mod 2; off = db_chunk_idx * DB_CHUNK_SIZE; (code_db, mask_db) = db_slices eye_db self
      in rbind (dot_products_against_db (gemm_fn io) (codes_engine self, masks_engine self) queries
           (code_chunk_buffers self ! slot) (mask_chunk_buffers self ! slot) dot_chunk 0) (\<lambda>es.
         rbind (compute_dot_reducer_against_db es qsums code_db mask_db dot_chunk off) (\<lambda>es.
         rbind (reshare_results (fst es) dot_chunk (code_recv io db_chunk_idx)) (\<lambda>(codes, _).
         rbind (reshare_results (snd es) dot_chunk (mask_recv io db_chunk_idx)) (\<lambda>(masks, _).
         Inr (self\<lparr>codes_engine := codes, masks_engine := masks\<rparr>))))))"

text \<open>Phase 2 of a chunk: the threshold circuits on all devices with the largest chunk, and the opening.\<close>

definition db_phase2 :: "SearchIO \<Rightarrow> Eye \<Rightarrow> nat \<Rightarrow> nat list \<Rightarrow> nat list \<Rightarrow> ServerActor \<Rightarrow> ServerActor result" where
  "db_phase2 io eye_db db_chunk_idx chunk_size dot_chunk self =
     (let max_chunk_size = Max (set dot_chunk); phase_2_chunk_sizes = replicate (device_count self) max_chunk_size;
          n_queries = max_batch_size self * ROTATIONS
      in rbind (result_chunk_shares (codes_engine self) phase_2_chunk_sizes) (\<lambda>code_dots.
         rbind (result_chunk_shares (masks_engine self) phase_2_chunk_sizes) (\<lambda>mask_dots.
         if max_chunk_size * n_queries mod 64 \<noteq> 0 then Inl (Panic ''Phase 2 input size must be a multiple of 64'')
         else (let res = threshold io db_chunk_idx code_dots mask_dots;
                   bm = open_bitmaps n_queries res (open_recv io db_chunk_idx) (db_match_list eye_db self) (max_chunk_size * n_queries div 64)
                     dot_chunk chunk_size (db_chunk_idx * DB_CHUNK_SIZE) (current_db_sizes self) (map (\<lambda>s. s = 0) (current_db_sizes self))
                     (chunk_sched io db_chunk_idx)
               in Inr (set_db_match_list eye_db bm self)))))"

definition db_chunk_step ::
    "SearchIO \<Rightarrow> Eye \<Rightarrow> DeviceCompactQuery \<Rightarrow> DeviceCompactSums \<Rightarrow> nat \<Rightarrow> ServerActor \<Rightarrow> ServerActor result" where
  "db_chunk_step io eye_db queries qsums db_chunk_idx self =
     (let chunk_size = chunk_sizes (current_db_sizes self) db_chunk_idx;
          next_chunk_size = chunk_sizes (current_db_sizes self) (db_chunk_idx + 1);
          dot_chunk = dot_chunk_size chunk_size
      in rbind (prefetch_chunk eye_db ((db_chunk_idx + 1) mod 2) next_chunk_size (map (\<lambda>s. db_chunk_idx * DB_CHUNK_SIZE + s) chunk_size) self) (\<lambda>self.
         rbind (db_phase1 io eye_db queries qsums db_chunk_idx dot_chunk self) (\<lambda>self.
         db_phase2 io eye_db db_chunk_idx chunk_size dot_chunk self)))"

text \<open>The sizes do not change during the loop; \<open>max_size\<close> is the largest of them.\<close>

function db_search_loop ::
    "SearchIO \<Rightarrow> Eye \<Rightarrow> DeviceCompactQuery \<Rightarrow> DeviceCompactSums \<Rightarrow> nat \<Rightarrow> nat \<Rightarrow> ServerActor \<Rightarrow> ServerActor result" where
  "db_search_loop io eye_db queries qsums max_size db_chunk_idx self =
     rbind (db_chunk_step io eye_db queries qsums db_chunk_idx self) (\<lambda>self.
       if (db_chunk_idx + 1) * DB_CHUNK_SIZE \<ge> max_size then Inr self
       else db_search_loop io eye_db queries qsums max_size (db_chunk_idx + 1) self)"
  by pat_completeness auto
termination
  by (relation "measure (\<lambda>(io, e, q, s, m, c, self). m - c * DB_CHUNK_SIZE)") (auto simp: DB_CHUNK_SIZE_def)

declare db_search_loop.simps [simp del]

definition compare_query_against_db_and_self ::
    "SearchIO \<Rightarrow> Eye \<Rightarrow> DeviceCompactQuery \<Rightarrow> DeviceCompactSums \<Rightarrow> ServerActor \<Rightarrow> ServerActor result" where
  "compare_query_against_db_and_self io eye_db queries qsums self =
     rbind (batch_dedup io eye_db queries qsums self) (\<lambda>self.
     rbind (prefetch_chunk eye_db 0 (chunk_sizes (current_db_sizes self) 0) (replicate (device_count self) 0) self) (\<lambda>self.
     rbind (db_search_loop io eye_db queries qsums (Max (set (current_db_sizes self))) 0 self) (\<lambda>self.
     Inr (self\<lparr>match_buffers := map (\<lambda>b. b\<lparr>final_results := map (\<lambda>_. - 1) (final_results b)\<rparr>) (match_buffers self)\<rparr>))))"

section \<open>Writing to the database\<close>

text \<open>Copies on one device; an access out of bounds is a panic here.\<close>

definition copy_device :: "nat \<Rightarrow> 'a list list \<Rightarrow> nat \<Rightarrow> 'a list list \<Rightarrow> nat \<Rightarrow> nat \<Rightarrow> 'a list list result" where
  "copy_device d dst dst_offset src src_offset len =
     rbind (vec_index dst d) (\<lambda>dst_d.
     rbind (vec_index src d) (\<lambda>src_d.
     if src_offset + len > length src_d then Inl (Panic ''read out of bounds'')
     else rbind (copy_at dst_offset (take len (drop src_offset src_d)) dst_d) (\<lambda>l. Inr (dst[d := l]))))"

definition write_db_slices ::
    "nat \<Rightarrow> SlicedProcessedDatabase \<Rightarrow> u8 CudaVec2DSlicer \<Rightarrow> u32 CudaVec2DSlicer \<Rightarrow> nat \<Rightarrow> nat \<Rightarrow> nat \<Rightarrow> SlicedProcessedDatabase result" where
  "write_db_slices code_len db query ss src_index dst_index device_index =
     (let d = device_index; src_off = code_len * 15 + src_index * code_len * ROTATIONS; sum_off = 15 + src_index * ROTATIONS
      in rbind (copy_device d (limb_0 (code_gr db)) (dst_index * code_len) (limb_0 query) src_off code_len) (\<lambda>l0.
         rbind (copy_device d (limb_1 (code_gr db)) (dst_index * code_len) (limb_1 query) src_off code_len) (\<lambda>l1.
         rbind (copy_device d (limb_0 (code_sums_gr db)) dst_index (limb_0 ss) sum_off 1) (\<lambda>s0.
         rbind (copy_device d (limb_1 (code_sums_gr db)) dst_index (limb_1 ss) sum_off 1) (\<lambda>s1.
         Inr \<lparr>code_gr = \<lparr>limb_0 = l0, limb_1 = l1\<rparr>, code_sums_gr = \<lparr>limb_0 = s0, limb_1 = s1\<rparr>\<rparr>)))))"

definition write_db_at_index ::
    "DeviceCompactQuery \<Rightarrow> DeviceCompactSums \<Rightarrow> DeviceCompactQuery \<Rightarrow> DeviceCompactSums \<Rightarrow> nat \<Rightarrow> nat \<Rightarrow> nat \<Rightarrow> ServerActor \<Rightarrow> ServerActor result" where
  "write_db_at_index ql sl qr sr src_index dst_index device_index self =
     rbind (write_db_slices IRIS_CODE_LENGTH (left_code_db_slices self) (code_query_insert ql) (code_query_insert_sums sl) src_index dst_index device_index) (\<lambda>lc.
     rbind (write_db_slices MASK_CODE_LENGTH (left_mask_db_slices self) (mask_query_insert ql) (mask_query_insert_sums sl) src_index dst_index device_index) (\<lambda>lm.
     rbind (write_db_slices IRIS_CODE_LENGTH (right_code_db_slices self) (code_query_insert qr) (code_query_insert_sums sr) src_index dst_index device_index) (\<lambda>rc.
     rbind (write_db_slices MASK_CODE_LENGTH (right_mask_db_slices self) (mask_query_insert qr) (mask_query_insert_sums sr) src_index dst_index device_index) (\<lambda>rm.
     Inr (self\<lparr>left_code_db_slices := lc, left_mask_db_slices := lm, right_code_db_slices := rc, right_mask_db_slices := rm\<rparr>)))))"

section \<open>Deletions\<close>

text \<open>The shares of the default iris; \<open>gen\<close> and \<open>seed\<close> stand for the seeded generator.\<close>

definition get_dummy_shares_for_deletion ::
    "('g \<Rightarrow> u16 \<times> 'g) \<Rightarrow> 'g \<Rightarrow> nat \<Rightarrow> (GaloisRingIrisCodeShare \<times> GaloisRingTrimmedMaskCodeShare) result" where
  "get_dummy_shares_for_deletion gen seed party =
     rbind (encode_iris_code gen (code iris_default) (mask iris_default) seed) (\<lambda>(cs, g).
     rbind (vec_index cs party) (\<lambda>iris_share.
     rbind (encode_mask_code gen (mask iris_default) g) (\<lambda>(ms, _).
     rbind (vec_index ms party) (\<lambda>mask_share. Inr (iris_share, trim_mask mask_share)))))"

definition prepare_deletion_shares ::
    "('g \<Rightarrow> u16 \<times> 'g) \<Rightarrow> 'g \<Rightarrow> gemm_ex \<Rightarrow> (nat \<Rightarrow> nat \<Rightarrow> u8 list) \<Rightarrow> (nat \<Rightarrow> i32 list) \<Rightarrow> ServerActor \<Rightarrow> (DeviceCompactQuery \<times> DeviceCompactSums) result" where
  "prepare_deletion_shares gen seed G uninit mem32 self =
     rbind (get_dummy_shares_for_deletion gen seed (actor_party_id self)) (\<lambda>(dummy_code_share, dummy_mask_share).
     rbind (all_rotations dummy_code_share) (\<lambda>crots.
     rbind (tm_all_rotations dummy_mask_share) (\<lambda>mrots.
     (let c = preprocess_query (concat (map gi_coefs crots)); m = preprocess_query (concat (map tm_coefs mrots));
          compact_query = \<lparr>cq_code_query = c, cq_mask_query = m, cq_code_query_insert = c, cq_mask_query_insert = m\<rparr>
      in rbind (htod_transfer uninit (device_count self) (max_batch_size self) compact_query) (\<lambda>q.
         rbind (compact_query_sums G mem32 (codes_engine self) (masks_engine self) q) (\<lambda>s. Inr (q, s)))))))"

definition delete_entry :: "DeviceCompactQuery \<Rightarrow> DeviceCompactSums \<Rightarrow> u32 \<Rightarrow> ServerActor \<Rightarrow> ServerActor result" where
  "delete_entry dq ds deletion_index self =
     (if (of_nat (device_count self) :: u32) = 0 then Inl (Panic ''attempt to calculate the remainder with a divisor of zero'')
      else
        (let device_index = unat (deletion_index mod of_nat (device_count self));
             device_db_index = unat (deletion_index div of_nat (device_count self))
         in rbind (vec_index (current_db_sizes self) device_index) (\<lambda>size.
            if device_db_index \<ge> size then Inr self
            else write_db_at_index dq ds dq ds 0 device_db_index device_index self)))"

definition perform_deletions ::
    "('g \<Rightarrow> u16 \<times> 'g) \<Rightarrow> 'g \<Rightarrow> gemm_ex \<Rightarrow> (nat \<Rightarrow> nat \<Rightarrow> u8 list) \<Rightarrow> (nat \<Rightarrow> i32 list) \<Rightarrow> u32 list \<Rightarrow> ServerActor \<Rightarrow> ServerActor result" where
  "perform_deletions gen seed G uninit mem32 indices self =
     (if indices = [] then Inr self
      else rbind (prepare_deletion_shares gen seed G uninit mem32 self) (\<lambda>(dq, ds). rfold (delete_entry dq ds) indices self))"

section \<open>Agreement on the valid entries\<close>

text \<open>\<open>all_gather\<close> is the exchange of the flags: the flags of the three parties, one after the other.\<close>

definition sync_batch_entries :: "(u8 list \<Rightarrow> u8 list) \<Rightarrow> bool list \<Rightarrow> bool list result" where
  "sync_batch_entries all_gather valid =
     (let buffer = all_gather (map of_bool valid); n = length buffer div 3
      in if n = 0 then Inl (Panic ''chunk size must be non-zero'')
         else
           (let res = chunks_exact n buffer
            in rbind (vec_index res 0) (\<lambda>r0. rbind (vec_index res 1) (\<lambda>r1. rbind (vec_index res 2) (\<lambda>r2.
               rmap (\<lambda>i. rbind (vec_index r1 i) (\<lambda>b. rbind (vec_index r2 i) (\<lambda>c. Inr (list_all (\<lambda>x. x = 1) [r0 ! i, b, c]))))
                 [0..<length r0])))))"

definition positions :: "bool list \<Rightarrow> nat list" where
  "positions flags = filter (\<lambda>i. flags ! i) [0..<length flags]"

section \<open>Results\<close>

definition get_merged_results :: "u32 list list \<Rightarrow> nat \<Rightarrow> u32 list" where
  "get_merged_results host_results n_devices =
     map (\<lambda>j. fold (\<lambda>i match_entry.
         let match_idx = host_results ! i ! j * of_nat n_devices + of_nat i
         in if host_results ! i ! j \<noteq> NON_MATCH_ID \<and> match_idx < match_entry then match_idx else match_entry)
       [0..<length host_results] NON_MATCH_ID) [0..<length (host_results ! 0)]"

definition aggregate_counters :: "nat \<Rightarrow> u32 list list \<Rightarrow> nat list" where
  "aggregate_counters batch_size counters_devices =
     fold (\<lambda>counters acc. fold (\<lambda>(i, v) acc. acc[i := acc ! i + unat v]) (enumerate 0 counters) acc) counters_devices (replicate batch_size 0)"

definition SUPERMATCH_THRESHOLD :: nat where
  "SUPERMATCH_THRESHOLD = 4000"

definition insertion_candidates :: "u32 list \<Rightarrow> nat list \<Rightarrow> nat list \<Rightarrow> nat list" where
  "insertion_candidates merged_results counters_left counters_right =
     map fst (filter (\<lambda>(idx, num). num = NON_MATCH_ID \<and> counters_left ! idx \<le> SUPERMATCH_THRESHOLD \<and> counters_right ! idx \<le> SUPERMATCH_THRESHOLD)
       (enumerate 0 merged_results))"

text \<open>The insertions go to the devices in turn, starting with the first device of least size.\<close>

fun distribute_from :: "nat list \<Rightarrow> nat \<Rightarrow> nat list list \<Rightarrow> nat list list" where
  "distribute_from [] c ret = ret"
| "distribute_from (r # rs) c ret = distribute_from rs ((c + 1) mod length ret) (ret[c := ret ! c @ [r]])"

definition distribute_insertions :: "nat list \<Rightarrow> nat list \<Rightarrow> nat list list" where
  "distribute_insertions rs db_sizes =
     (let start = length (takeWhile (\<lambda>x. x \<noteq> Min (set db_sizes)) db_sizes)
      in distribute_from rs start (replicate (length db_sizes) []))"

text \<open>
  The new indices: the lists are read column by column, starting with the list that holds the first
  insertion. The state is the merged results, the match flags and the next index.
\<close>

type_synonym insertion_state = "u32 list \<times> bool list \<times> u32"

fun insertion_column :: "nat list list \<Rightarrow> nat \<Rightarrow> nat \<Rightarrow> nat list \<Rightarrow> insertion_state \<Rightarrow> (bool \<times> insertion_state) result" where
  "insertion_column ls min_index c [] st = Inr (False, st)"
| "insertion_column ls min_index c (i # is) (merged, matches, last_db_index) =
     (let idx = (i + min_index) mod length ls
      in if c \<ge> length (ls ! idx) then Inr (True, (merged, matches, last_db_index))
         else
           (let insert_idx = ls ! idx ! c
            in if insert_idx \<ge> length merged \<or> insert_idx \<ge> length matches then index_out_of_bounds
               else insertion_column ls min_index c is (merged[insert_idx := last_db_index], matches[insert_idx := False], last_db_index + 1)))"

lemma insertion_column_continues:
  "insertion_column ls m c is st = Inr (False, st') \<Longrightarrow> i \<in> set is \<Longrightarrow> c < length (ls ! ((i + m) mod length ls))"
  by (induction ls m c "is" st rule: insertion_column.induct) (auto simp: Let_def index_out_of_bounds_def split: if_splits)

function insertion_loop :: "nat list list \<Rightarrow> nat \<Rightarrow> nat \<Rightarrow> insertion_state \<Rightarrow> insertion_state result" where
  "insertion_loop ls min_index c st =
     (if ls = [] then Inl Diverges
      else (case insertion_column ls min_index c [0..<length ls] st of
        Inl e \<Rightarrow> Inl e
      | Inr (returned, st') \<Rightarrow> if returned then Inr st' else insertion_loop ls min_index (c + 1) st'))"
  by pat_completeness auto
termination
proof (relation "measure (\<lambda>(ls, m, c, st). length (ls ! (m mod length ls)) - c)", simp)
  fix ls :: "nat list list" and m c st p returned st'
  assume *: "ls \<noteq> []" "insertion_column ls m c [0..<length ls] st = Inr p" "(returned, st') = p" "\<not> returned"
  then have "0 \<in> set [0..<length ls]" by simp
  with * insertion_column_continues [of ls m c "[0..<length ls]" st st' 0]
  show "((ls, m, c + 1, st'), ls, m, c, st) \<in> measure (\<lambda>(ls, m, c, st). length (ls ! (m mod length ls)) - c)"
    by auto
qed

declare insertion_loop.simps [simp del]

definition calculate_insertion_indices :: "u32 list \<Rightarrow> nat list list \<Rightarrow> nat list \<Rightarrow> nat \<Rightarrow> (u32 list \<times> bool list) result" where
  "calculate_insertion_indices merged_results insertion_list db_sizes batch_size =
     (let min_index = fst (fold (\<lambda>(i, l) (min_index, min_index_val). case l of
            [] \<Rightarrow> (min_index, min_index_val)
          | first_val # _ \<Rightarrow> if first_val < min_index_val then (i, first_val) else (min_index, min_index_val))
          (enumerate 0 insertion_list) (0, 2 ^ 64 - 1))
      in rbind (insertion_loop insertion_list min_index 0 (merged_results, replicate batch_size True, of_nat (sum_list db_sizes))) (\<lambda>(merged, matches, _).
         Inr (merged, matches)))"

section \<open>Processing a batch\<close>

record ServerJobResult =
  res_merged_results :: "u32 list"
  res_request_ids :: "string list"
  res_metadata :: "BatchMetadata list"
  res_matches :: "bool list"
  res_match_ids :: "u32 list list"
  res_partial_match_ids_left :: "u32 list list"
  res_partial_match_ids_right :: "u32 list list"
  res_store_left :: BatchQueryEntries
  res_store_right :: BatchQueryEntries
  res_deleted_ids :: "u32 list"
  res_matched_batch_request_ids :: "string list list"

text \<open>What a batch takes from outside.\<close>

record BatchIO =
  left_io :: SearchIO
  right_io :: SearchIO
  query_mem :: "nat \<Rightarrow> nat \<Rightarrow> u8 list"
  sums_mem :: "nat \<Rightarrow> i32 list"
  gather :: "u8 list \<Rightarrow> u8 list"
  db_merge_sched :: "(nat \<times> nat) list list"
  batch_merge_sched :: "(nat \<times> nat) list list"

definition check_batch_sizes :: "BatchQuery \<Rightarrow> nat \<Rightarrow> ServerActor \<Rightarrow> unit result" where
  "check_batch_sizes batch batch_size self =
     (if \<not> (batch_size > 0 \<and> batch_size \<le> max_batch_size self) then Inl (Panic ''assertion failed: batch_size'')
      else
        if list_all (\<lambda>l. l = batch_size) [length (be_mask (store_left batch)), length (request_ids batch), length (metadata batch),
              length (be_code (store_right batch)), length (be_mask (store_right batch))] \<and>
           list_all (\<lambda>l. l = batch_size * ROTATIONS) [length (be_code (query_left batch)), length (be_mask (query_left batch)),
              length (be_code (query_right batch)), length (be_mask (query_right batch)), length (be_code (db_left batch)), length (be_mask (db_left batch)),
              length (be_code (db_right batch)), length (be_mask (db_right batch))]
        then rfold (\<lambda>entries _. rbind (preprocessed_len entries) (\<lambda>l.
            if l = batch_size * ROTATIONS then Inr () else Inl (Panic ''Query batch sizes mismatch'')))
          [query_left_preprocessed batch, query_right_preprocessed batch, db_left_preprocessed batch, db_right_preprocessed batch] ()
        else Inl (Panic ''Query batch sizes mismatch''))"

definition compact_query_of :: "BatchQueryEntriesPreprocessed \<Rightarrow> BatchQueryEntriesPreprocessed \<Rightarrow> CompactQuery" where
  "compact_query_of query db =
     \<lparr>cq_code_query = pp_code query, cq_mask_query = pp_mask query, cq_code_query_insert = pp_code db, cq_mask_query_insert = pp_mask db\<rparr>"

text \<open>One eye: the queries are moved to the devices, summed and compared.\<close>

definition compare_eye ::
    "BatchIO \<Rightarrow> Eye \<Rightarrow> BatchQueryEntriesPreprocessed \<Rightarrow> BatchQueryEntriesPreprocessed \<Rightarrow> ServerActor
       \<Rightarrow> (DeviceCompactQuery \<times> DeviceCompactSums \<times> ServerActor) result" where
  "compare_eye io eye_db query db self =
     (let sio = (case eye_db of Left \<Rightarrow> left_io io | Right \<Rightarrow> right_io io)
      in rbind (htod_transfer (query_mem io) (device_count self) (max_batch_size self) (compact_query_of query db)) (\<lambda>q.
         rbind (compact_query_sums (gemm_fn sio) (sums_mem io) (codes_engine self) (masks_engine self) q) (\<lambda>s.
         rbind (compare_query_against_db_and_self sio eye_db q s self) (\<lambda>self. Inr (q, s, self)))))"

definition join_results :: "BatchIO \<Rightarrow> ServerActor \<Rightarrow> ServerActor" where
  "join_results io self =
     (let q_length = max_batch_size self * ROTATIONS;
          bufs = join_db_matches q_length (db_match_list_left self) (db_match_list_right self) (current_db_sizes self) (db_merge_sched io) (match_buffers self);
          bufs = join_batch_matches q_length (batch_match_list_left self) (batch_match_list_right self) (batch_merge_sched io) bufs
      in self\<lparr>match_buffers := bufs\<rparr>)"

text \<open>The ids that are reported, and the number of partial matches of every query.\<close>

definition fetch_match_ids :: "nat \<Rightarrow> ServerActor \<Rightarrow> u32 list list" where
  "fetch_match_ids batch_size self =
     fetch_all_match_ids (max_batch_size self * ROTATIONS) (map (\<lambda>b. take batch_size (match_counters b)) (match_buffers self))
       (map all_matches (match_buffers self))"

definition fetch_partial :: "nat \<Rightarrow> (MatchBuffers \<Rightarrow> u32 list) \<Rightarrow> (MatchBuffers \<Rightarrow> u32 list) \<Rightarrow> ServerActor \<Rightarrow> u32 list list \<times> nat list" where
  "fetch_partial batch_size counters entries self =
     (let cs = (if return_partial_results self then map (\<lambda>b. take batch_size (counters b)) (match_buffers self) else []);
          ids = (if return_partial_results self
                 then fetch_all_match_ids (max_batch_size self * ROTATIONS) cs (map entries (match_buffers self)) else [])
      in (ids, aggregate_counters batch_size cs))"

definition matched_batch_ids :: "nat \<Rightarrow> string list \<Rightarrow> u32 list list \<Rightarrow> string list list result" where
  "matched_batch_ids batch_size ids match_ids =
     rmap (\<lambda>l. rmap (\<lambda>x. vec_index ids (unat (- 1 - x :: u32))) (filter (\<lambda>x. x > - 1 - of_nat batch_size) l)) match_ids"

definition filter_match_ids :: "nat \<Rightarrow> u32 list list \<Rightarrow> u32 list list" where
  "filter_match_ids max_batch match_ids = map (filter (\<lambda>x. x \<le> - 1 - of_nat max_batch)) match_ids"

text \<open>The insertions are appended on their devices.\<close>

definition insert_on_device ::
    "DeviceCompactQuery \<Rightarrow> DeviceCompactSums \<Rightarrow> DeviceCompactQuery \<Rightarrow> DeviceCompactSums \<Rightarrow> nat \<times> nat \<Rightarrow> ServerActor \<Rightarrow> ServerActor result" where
  "insert_on_device ql sl qr sr = (\<lambda>(i, insertion_idx) self.
     rbind (vec_index (current_db_sizes self) i) (\<lambda>size.
     rbind (write_db_at_index ql sl qr sr insertion_idx size i self) (\<lambda>self.
     Inr (self\<lparr>current_db_sizes := (current_db_sizes self)[i := size + 1]\<rparr>))))"

definition write_insertions ::
    "DeviceCompactQuery \<Rightarrow> DeviceCompactSums \<Rightarrow> DeviceCompactQuery \<Rightarrow> DeviceCompactSums \<Rightarrow> nat list list \<Rightarrow> ServerActor \<Rightarrow> ServerActor result" where
  "write_insertions ql sl qr sr insertion_list self =
     rfold (insert_on_device ql sl qr sr)
       (concat (map (\<lambda>i. map (Pair i) (insertion_list ! i)) [0..<device_count self])) self"

definition reset_matches :: "ServerActor \<Rightarrow> ServerActor" where
  "reset_matches self =
     (let clear = map (map (\<lambda>_. 0))
      in self\<lparr>db_match_list_left := clear (db_match_list_left self), db_match_list_right := clear (db_match_list_right self),
           batch_match_list_left := clear (batch_match_list_left self), batch_match_list_right := clear (batch_match_list_right self),
           match_buffers := map (\<lambda>b. b\<lparr>match_counters := map (\<lambda>_. 0) (match_counters b), match_counters_left := map (\<lambda>_. 0) (match_counters_left b),
             match_counters_right := map (\<lambda>_. 0) (match_counters_right b)\<rparr>) (match_buffers self)\<rparr>)"

text \<open>
  After the search: the results are merged, the insertions chosen and indexed, and written back. An error
  leaves the actor running with the state it has at that point, which is returned beside the error.
\<close>

definition finish_batch ::
    "BatchIO \<Rightarrow> BatchQuery \<Rightarrow> nat \<Rightarrow> DeviceCompactQuery \<Rightarrow> DeviceCompactSums \<Rightarrow> DeviceCompactQuery \<Rightarrow> DeviceCompactSums \<Rightarrow> ServerActor
       \<Rightarrow> (ServerActor \<times> ServerJobResult result) result" where
  "finish_batch io batch batch_size ql sl qr sr self =
     (let self = join_results io self;
          host_results = map (take batch_size) (fetch_final_results (match_buffers self));
          match_ids = fetch_match_ids batch_size self;
          (partial_left, counters_left) = fetch_partial batch_size match_counters_left partial_results_left self;
          (partial_right, counters_right) = fetch_partial batch_size match_counters_right partial_results_right self;
          merged_results = get_merged_results host_results (device_count self);
          insertion_list = distribute_insertions (insertion_candidates merged_results counters_left counters_right) (current_db_sizes self)
      in rbind (calculate_insertion_indices merged_results insertion_list (current_db_sizes self) batch_size) (\<lambda>(merged_results, matches).
         rbind (matched_batch_ids batch_size (request_ids batch) match_ids) (\<lambda>matched_batch_request_ids.
         if sum_list (current_db_sizes self) + sum_list (map length insertion_list) > max_db_size self
         then Inr (self, Inl (Eyre ''DB size exceeded''))
         else
           rbind (if disable_persistence self then Inr self else write_insertions ql sl qr sr insertion_list self) (\<lambda>self.
           Inr (reset_matches self,
             Inr \<lparr>res_merged_results = merged_results, res_request_ids = request_ids batch, res_metadata = metadata batch, res_matches = matches,
                  res_match_ids = filter_match_ids (max_batch_size self) match_ids,
                  res_partial_match_ids_left = partial_left, res_partial_match_ids_right = partial_right,
                  res_store_left = store_left batch, res_store_right = store_right batch,
                  res_deleted_ids = deletion_requests_indices batch, res_matched_batch_request_ids = matched_batch_request_ids\<rparr>)))))"

definition process_batch_query ::
    "('g \<Rightarrow> u16 \<times> 'g) \<Rightarrow> 'g \<Rightarrow> BatchIO \<Rightarrow> BatchQuery \<Rightarrow> ServerActor \<Rightarrow> (ServerActor \<times> ServerJobResult result) result" where
  "process_batch_query gen seed io batch self =
     rbind (check_batch_sizes batch (length (be_code (store_left batch))) self) (\<lambda>_.
     rbind (perform_deletions gen seed (gemm_fn (left_io io)) (query_mem io) (sums_mem io) (deletion_requests_indices batch) self) (\<lambda>self.
     rbind (sync_batch_entries (gather io) (valid_entries batch)) (\<lambda>valid.
     (let valid_entry_idxs = positions valid; batch_size = length valid_entry_idxs
      in rbind (retain valid_entry_idxs batch) (\<lambda>batch.
         rbind (compare_eye io Left (query_left_preprocessed batch) (db_left_preprocessed batch) self) (\<lambda>(ql, sl, self).
         rbind (compare_eye io Right (query_right_preprocessed batch) (db_right_preprocessed batch) self) (\<lambda>(qr, sr, self).
         finish_batch io batch batch_size ql sl qr sr self)))))))"

text \<open>The actor processes the jobs of its queue in order; an error of one job does not end it.\<close>

primrec run_jobs ::
    "('g \<Rightarrow> u16 \<times> 'g) \<Rightarrow> 'g \<Rightarrow> (BatchIO \<times> BatchQuery) list \<Rightarrow> ServerActor \<Rightarrow> (ServerActor \<times> ServerJobResult result list) result" where
  "run_jobs gen seed [] self = Inr (self, [])"
| "run_jobs gen seed (job # jobs) self =
     rbind (process_batch_query gen seed (fst job) (snd job) self) (\<lambda>(self, r).
     rbind (run_jobs gen seed jobs self) (\<lambda>(self, rs). Inr (self, r # rs)))"

end
