(* ===== verification/ServerActorCorrect.thy ===== *)
theory ServerActorCorrect
  imports ServerActor MatchSearchCorrect
begin

text \<open>
  The server actor keeps the shards of the database balanced, reports every query with the least match of
  the whole database, and appends every query that did not match at the position it reports.
\<close>

section \<open>Balanced shards\<close>

lemma shard_lens_length [simp]: "length (shard_lens T n) = n"
  by (simp add: shard_lens_def)

lemma shard_lens_at: "0 < n \<Longrightarrow> shard_lens T n ! (T mod n) = T div n"
  by (simp add: shard_lens_def)

lemma nat_eq_from_less: "(\<And>i :: nat. i < a \<longleftrightarrow> i < b) \<Longrightarrow> a = b"
  by (metis linorder_neqE_nat order.irrefl)

lemma shard_lens_Suc:
  assumes "0 < n" shows "shard_lens (Suc T) n = (shard_lens T n)[T mod n := T div n + 1]"
proof (rule nth_equalityI)
  show "length (shard_lens (Suc T) n) = length ((shard_lens T n)[T mod n := T div n + 1])" by simp
next
  fix d assume "d < length (shard_lens (Suc T) n)"
  then have d: "d < n" by simp
  show "shard_lens (Suc T) n ! d = (shard_lens T n)[T mod n := T div n + 1] ! d"
  proof (rule nat_eq_from_less)
    fix i
    have eq: "i * n + d = T \<longleftrightarrow> i = T div n \<and> d = T mod n"
      using d by (metis div_mod_decomp div_mult_self3 div_less add.right_neutral mod_mult_self3 mod_less mult.commute less_nat_zero_code neq0_conv)
    have "i < shard_lens (Suc T) n ! d \<longleftrightarrow> i < shard_lens T n ! d \<or> i = T div n \<and> d = T mod n"
      unfolding shard_lens_nth [OF d] less_Suc_eq eq by blast
    also have "\<dots> \<longleftrightarrow> i < (shard_lens T n)[T mod n := T div n + 1] ! d"
      using d assms shard_lens_at [OF assms, of T] by (auto simp: nth_list_update)
    finally show "i < shard_lens (Suc T) n ! d \<longleftrightarrow> i < (shard_lens T n)[T mod n := T div n + 1] ! d" .
  qed
qed

lemma shard_lens_0: "0 < n \<Longrightarrow> shard_lens 0 n = replicate n 0"
  by (intro nth_equalityI) (simp_all add: shard_lens_def)

lemma sum_list_shard_lens: "0 < n \<Longrightarrow> sum_list (shard_lens T n) = T"
proof (induction T)
  case (Suc T)
  then show ?case
    using shard_lens_at [of n T] by (simp add: shard_lens_Suc sum_list_update)
qed (simp add: shard_lens_0)

lemma shard_lens_start:
  assumes "0 < n"
  shows "length (takeWhile (\<lambda>x. x \<noteq> Min (set (shard_lens T n))) (shard_lens T n)) = T mod n"
proof -
  have at_d: "shard_lens T n ! d = (if d < T mod n then T div n + 1 else T div n)" if "d < n" for d
    using that by (simp add: shard_lens_def)
  have "Min (set (shard_lens T n)) = T div n"
  proof (rule Min_eqI)
    show "T div n \<in> set (shard_lens T n)" using nth_mem [of "T mod n" "shard_lens T n"] shard_lens_at [OF assms] assms by simp
  qed (auto simp: in_set_conv_nth at_d split: if_splits)
  moreover have "T mod n < n" using assms by simp
  ultimately have "takeWhile (\<lambda>x. x \<noteq> Min (set (shard_lens T n))) (shard_lens T n) = take (T mod n) (shard_lens T n)"
    by (intro takeWhile_eq_take_P_nth) (auto simp: at_d)
  then show ?thesis using assms by (simp add: less_imp_le)
qed

section \<open>Insertions go round the devices\<close>

lemma length_distribute_from [simp]: "length (distribute_from rs c ret) = length ret"
  by (induction rs c ret rule: distribute_from.induct) simp_all

lemma distribute_from_nth:
  "c < length ret \<Longrightarrow> d < length ret \<Longrightarrow>
   distribute_from rs c ret ! d = ret ! d @ map (nth rs) (filter (\<lambda>k. (c + k) mod length ret = d) [0..<length rs])"
proof (induction rs c ret rule: distribute_from.induct)
  case (2 r rs c ret)
  let ?n = "length ret" and ?c = "(c + 1) mod length ret"
  have up: "[0..<length (r # rs)] = 0 # map Suc [0..<length rs]" by (simp add: upt_conv_Cons map_Suc_upt del: upt_Suc)
  have mod: "(?c + k) mod ?n = (c + Suc k) mod ?n" for k by (simp add: mod_add_left_eq)
  have "?c < length (ret[c := ret ! c @ [r]])" using "2.prems" by (simp add: mod_less_divisor length_greater_0_conv [symmetric] del: length_greater_0_conv)
  from "2.IH" [OF this] "2.prems"
  have "distribute_from (r # rs) c ret ! d = ret[c := ret ! c @ [r]] ! d @ map (nth rs) (filter (\<lambda>k. (?c + k) mod ?n = d) [0..<length rs])"
    by simp
  also have "\<dots> = ret ! d @ map (nth (r # rs)) (filter (\<lambda>k. (c + k) mod ?n = d) [0..<length (r # rs)])"
    unfolding up mod using "2.prems" by (simp add: filter_map comp_def nth_list_update)
  finally show ?case .
qed simp

text \<open>The positions of one residue class.\<close>

lemma filter_class:
  assumes "i < n"
  shows "filter (\<lambda>k. k mod n = i) [0..<L] = map (\<lambda>c. c * n + i) [0..<shard_lens L n ! i]"
proof (induction L)
  case 0
  then show ?case using assms by (simp add: shard_lens_0)
next
  case (Suc L)
  have n: "0 < n" using assms by simp
  show ?case
  proof (cases "L mod n = i")
    case True
    then have "shard_lens (Suc L) n ! i = Suc (L div n)" "shard_lens L n ! i = L div n" "L div n * n + i = L"
      using assms n shard_lens_at [OF n, of L] by (auto simp: shard_lens_Suc)
    then show ?thesis using Suc True by simp
  next
    case False
    then show ?thesis using Suc n by (simp add: shard_lens_Suc)
  qed
qed

lemma distribute_insertions_nth:
  assumes "0 < n" "i < n"
  shows "distribute_insertions rs (shard_lens T n) ! ((i + T mod n) mod n) = map (\<lambda>c. rs ! (c * n + i)) [0..<shard_lens (length rs) n ! i]"
proof -
  have idx: "(i + T mod n) mod n < n" using assms by simp
  have cls: "(T mod n + k) mod n = (i + T mod n) mod n \<longleftrightarrow> k mod n = i" for k
  proof
    assume "(T mod n + k) mod n = (i + T mod n) mod n"
    then have "(T mod n + k + (n - T mod n)) mod n = (i + T mod n + (n - T mod n)) mod n" by (rule mod_add_cong) (rule refl)
    moreover have "T mod n < n" using assms(1) by simp
    ultimately show "k mod n = i" using assms(2) by simp
  next
    assume "k mod n = i"
    then show "(T mod n + k) mod n = (i + T mod n) mod n" by (metis add.commute mod_add_left_eq)
  qed
  have "distribute_insertions rs (shard_lens T n) ! ((i + T mod n) mod n)
      = map (nth rs) (filter (\<lambda>k. (T mod n + k) mod n = (i + T mod n) mod n) [0..<length rs])"
    using assms idx distribute_from_nth [of "T mod n" "replicate n []" "(i + T mod n) mod n" rs]
    by (simp add: distribute_insertions_def shard_lens_start [OF assms(1)])
  then show ?thesis unfolding cls filter_class [OF assms(2)] by simp
qed

section \<open>The new indices\<close>

definition assign :: "nat \<Rightarrow> insertion_state \<Rightarrow> insertion_state" where
  "assign x = (\<lambda>(merged, matches, last_db_index). (merged[x := last_db_index], matches[x := False], last_db_index + 1))"

lemma assign_apply:
  "fst (assign x st) = (fst st)[x := snd (snd st)]" "fst (snd (assign x st)) = (fst (snd st))[x := False]" "snd (snd (assign x st)) = snd (snd st) + 1"
  by (simp_all add: assign_def case_prod_unfold)

lemma assign_lengths [simp]:
  "length (fst (fold assign rs st)) = length (fst st)" "length (fst (snd (fold assign rs st))) = length (fst (snd st))"
  by (induction rs arbitrary: st) (simp_all add: assign_apply)

lemma take_assign: "k < length rs \<Longrightarrow> assign (rs ! k) (fold assign (take k rs) st) = fold assign (take (Suc k) rs) st"
  by (simp add: take_Suc_conv_app_nth)

definition round_robin :: "nat \<Rightarrow> nat \<Rightarrow> nat list \<Rightarrow> nat list list \<Rightarrow> bool" where
  "round_robin n m rs ls \<longleftrightarrow> length ls = n \<and> (\<forall>i < n. ls ! ((i + m) mod n) = map (\<lambda>c. rs ! (c * n + i)) [0..<shard_lens (length rs) n ! i])"

lemma insertion_column_round:
  assumes rr: "round_robin n m rs ls" and rs: "\<forall>x \<in> set rs. x < length (fst st) \<and> x < length (fst (snd st))"
    and "i \<le> n" "c * n + i \<le> length rs"
  shows "insertion_column ls m c [i..<n] (fold assign (take (c * n + i) rs) st) =
    (if (c + 1) * n \<le> length rs then Inr (False, fold assign (take ((c + 1) * n) rs) st) else Inr (True, fold assign rs st))"
  using assms(3,4)
proof (induction "n - i" arbitrary: i)
  case 0
  then show ?case by (simp add: add.commute)
next
  case (Suc j)
  let ?st = "fold assign (take (c * n + i) rs) st"
  have i: "i < n" and up: "[i..<n] = i # [Suc i..<n]" using Suc.hyps(2) by (auto simp: upt_conv_Cons)
  obtain merged matches last where st: "?st = (merged, matches, last)" by (cases ?st)
  have ls: "length ls = n" "ls ! ((i + m) mod n) = map (\<lambda>c. rs ! (c * n + i)) [0..<shard_lens (length rs) n ! i]"
    using rr i by (simp_all add: round_robin_def)
  show ?case
  proof (cases "c * n + i < length rs")
    case True
    then have c: "c < shard_lens (length rs) n ! i" by (simp add: shard_lens_nth [OF i])
    have "rs ! (c * n + i) < length (fst ?st)" "rs ! (c * n + i) < length (fst (snd ?st))" using rs True by simp_all
    then have "insertion_column ls m c [i..<n] ?st = insertion_column ls m c [Suc i..<n] (assign (rs ! (c * n + i)) ?st)"
      using c by (simp add: up st ls assign_def Let_def)
    also have "assign (rs ! (c * n + i)) ?st = fold assign (take (c * n + Suc i) rs) st" using take_assign [OF True] by simp
    finally show ?thesis using Suc.hyps(1) [of "Suc i"] Suc.hyps(2) True i by simp
  next
    case False
    then have "\<not> c < shard_lens (length rs) n ! i" "take (c * n + i) rs = rs" using Suc.prems by (simp_all add: shard_lens_nth [OF i])
    moreover from this(1) have "insertion_column ls m c [i..<n] ?st = Inr (True, ?st)" unfolding up st by (simp add: ls Let_def)
    ultimately show ?thesis using False i by simp
  qed
qed

lemma insertion_loop_round:
  assumes "round_robin n m rs ls" "0 < n" "\<forall>x \<in> set rs. x < length (fst st) \<and> x < length (fst (snd st))" "c * n \<le> length rs"
  shows "insertion_loop ls m c (fold assign (take (c * n) rs) st) = Inr (fold assign rs st)"
  using assms(4)
proof (induction "length rs - c * n" arbitrary: c rule: less_induct)
  case less
  have ls: "length ls = n" "ls \<noteq> []" using assms(1,2) by (auto simp: round_robin_def)
  note col = insertion_column_round [OF assms(1,3), of 0 c]
  show ?case
  proof (cases "(c + 1) * n \<le> length rs")
    case True
    have "insertion_loop ls m (c + 1) (fold assign (take ((c + 1) * n) rs) st) = Inr (fold assign rs st)"
      using True assms(2) less.prems by (intro less.hyps) auto
    then show ?thesis using col True less.prems ls by (simp add: insertion_loop.simps [of ls m c])
  next
    case False
    then show ?thesis using col less.prems ls by (simp add: insertion_loop.simps [of ls m c])
  qed
qed

text \<open>The list that holds the first insertion is the first one that is read.\<close>

definition least_head :: "nat \<times> nat list \<Rightarrow> nat \<times> nat \<Rightarrow> nat \<times> nat" where
  "least_head = (\<lambda>(i, l) (min_index, min_index_val). case l of
     [] \<Rightarrow> (min_index, min_index_val)
   | first_val # _ \<Rightarrow> if first_val < min_index_val then (i, first_val) else (min_index, min_index_val))"

lemma least_head_keeps:
  "\<forall>p \<in> set xs. snd p = [] \<or> v \<le> hd (snd p) \<Longrightarrow> fold least_head xs (d, v) = (d, v)"
  by (induction xs) (auto simp: least_head_def split: list.splits)

lemma least_head_above:
  "\<forall>p \<in> set xs. snd p = [] \<or> v < hd (snd p) \<Longrightarrow> v < snd st \<Longrightarrow> v < snd (fold least_head xs st)"
  by (induction xs arbitrary: st) (auto simp: least_head_def split: list.splits prod.splits)

lemma least_head_index:
  assumes "d < length ls" "ls ! d = v # vs" "v < w" "\<And>d'. d' < length ls \<Longrightarrow> d' \<noteq> d \<Longrightarrow> ls ! d' = [] \<or> v < hd (ls ! d')"
  shows "fold least_head (enumerate 0 ls) (0, w) = (d, v)"
proof -
  let ?e = "enumerate 0 ls"
  have nth: "?e ! k = (k, ls ! k)" if "k < length ls" for k using that by (simp add: nth_enumerate_eq)
  have split: "?e = take d ?e @ (d, v # vs) # drop (Suc d) ?e" using assms(1,2) nth [of d] id_take_nth_drop [of d ?e] by simp
  have tk: "\<exists>k < d. p = (k, ls ! k)" if "p \<in> set (take d ?e)" for p
    using that assms(1) nth by (auto simp: in_set_conv_nth simp del: nth_enumerate_eq)
  have dr: "\<exists>k. d < k \<and> k < length ls \<and> p = (k, ls ! k)" if p: "p \<in> set (drop (Suc d) ?e)" for p
  proof -
    obtain j where "j < length ?e - Suc d" "p = ?e ! (Suc d + j)" using p by (auto simp: in_set_conv_nth simp del: nth_enumerate_eq)
    then show ?thesis using nth [of "Suc d + j"] by (intro exI [of _ "Suc d + j"]) simp
  qed
  have "\<forall>p \<in> set (take d ?e). snd p = [] \<or> v < hd (snd p)"
  proof
    fix p assume "p \<in> set (take d ?e)"
    then obtain k where "k < d" "p = (k, ls ! k)" using tk by blast
    then show "snd p = [] \<or> v < hd (snd p)" using assms(1) assms(4) [of k] by simp
  qed
  then have "v < snd (fold least_head (take d ?e) (0, w))" using assms(3) by (intro least_head_above) auto
  then have "least_head (d, v # vs) (fold least_head (take d ?e) (0, w)) = (d, v)" by (simp add: least_head_def case_prod_unfold)
  moreover have "\<forall>p \<in> set (drop (Suc d) ?e). snd p = [] \<or> v \<le> hd (snd p)"
  proof
    fix p assume "p \<in> set (drop (Suc d) ?e)"
    then obtain k where "d < k" "k < length ls" "p = (k, ls ! k)" using dr by blast
    then show "snd p = [] \<or> v \<le> hd (snd p)" using assms(4) [of k] by auto
  qed
  ultimately show ?thesis by (subst split) (simp add: least_head_keeps)
qed

lemma fold_assign_other:
  "x \<notin> set rs \<Longrightarrow> fst (fold assign rs st) ! x = fst st ! x \<and> fst (snd (fold assign rs st)) ! x = fst (snd st) ! x"
  by (induction rs arbitrary: st) (auto simp: assign_apply)

lemma fold_assign_nth:
  assumes "distinct rs" "\<forall>x \<in> set rs. x < length (fst st) \<and> x < length (fst (snd st))" "k < length rs"
  shows "fst (fold assign rs st) ! (rs ! k) = snd (snd st) + of_nat k \<and> \<not> fst (snd (fold assign rs st)) ! (rs ! k)"
  using assms
proof (induction rs arbitrary: st k)
  case (Cons r rs)
  show ?case
  proof (cases k)
    case 0
    then show ?thesis using fold_assign_other [of r rs "assign r st"] Cons.prems by (simp add: assign_apply)
  next
    case (Suc k')
    then show ?thesis using Cons.IH [of "assign r st" k'] Cons.prems by (simp add: assign_apply)
  qed
qed simp

lemma distribute_round_robin:
  "0 < n \<Longrightarrow> round_robin n (T mod n) rs (distribute_insertions rs (shard_lens T n))"
  using distribute_insertions_nth by (simp add: round_robin_def distribute_insertions_def)

lemma device_slot:
  fixes n d T :: nat
  assumes "0 < n" "d < n" shows "\<exists>i < n. (i + T mod n) mod n = d"
proof -
  have t: "T mod n < n" using assms(1) by simp
  have "((d + n - T mod n) mod n + T mod n) mod n = (d + n - T mod n + T mod n) mod n" by (rule mod_add_left_eq)
  also have "d + n - T mod n + T mod n = d + n" using t by linarith
  also have "(d + n) mod n = d" using assms(2) by simp
  finally show ?thesis using assms(1) by (intro exI [of _ "(d + n - T mod n) mod n"]) simp
qed

lemma min_index_round:
  assumes "0 < n" "sorted_wrt (<) rs" "rs \<noteq> []" "rs ! 0 < w"
  shows "fst (fold least_head (enumerate 0 (distribute_insertions rs (shard_lens T n))) (0, w)) = T mod n"
proof -
  let ?ls = "distribute_insertions rs (shard_lens T n)"
  have at_i: "?ls ! ((i + T mod n) mod n) = map (\<lambda>c. rs ! (c * n + i)) [0..<shard_lens (length rs) n ! i]" if "i < n" for i
    using distribute_insertions_nth [OF assms(1) that] .
  have len: "length ?ls = n" by (simp add: distribute_insertions_def)
  have pos: "0 < shard_lens (length rs) n ! 0" using shard_lens_nth [OF assms(1), of 0] assms(3) by simp
  then have "?ls ! (T mod n) = rs ! 0 # map (\<lambda>c. rs ! (c * n)) [Suc 0..<shard_lens (length rs) n ! 0]"
    using at_i [OF assms(1)] assms(1) by (simp add: upt_conv_Cons)
  moreover have "?ls ! d = [] \<or> rs ! 0 < hd (?ls ! d)" if d: "d < length ?ls" "d \<noteq> T mod n" for d
  proof -
    obtain i where im: "i < n" "(i + T mod n) mod n = d" using device_slot [OF assms(1), of d T] d(1) len by auto
    then have i: "i < n" "(i + T mod n) mod n = d" "i \<noteq> 0" using d(2) by (auto intro!: gr0I)
    show ?thesis
    proof (cases "0 < shard_lens (length rs) n ! i")
      case True
      then have "i < length rs" using shard_lens_nth [OF i(1), of 0] by simp
      then have "rs ! 0 < rs ! i" using sorted_wrt_nth_less [OF assms(2)] i(3) by simp
      then show ?thesis using at_i [OF i(1)] True i(2) by (simp add: upt_conv_Cons)
    next
      case False
      then show ?thesis using at_i [OF i(1)] i(2) by simp
    qed
  qed
  ultimately show ?thesis using least_head_index [of "T mod n" ?ls] assms(1,4) len by simp
qed

lemma calculate_insertions:
  assumes "0 < n" "sorted_wrt (<) rs" "\<forall>x \<in> set rs. x < bs" "length merged = bs" "bs < 2 ^ 64"
  shows "calculate_insertion_indices merged (distribute_insertions rs (shard_lens T n)) (shard_lens T n) bs =
    Inr (fst (fold assign rs (merged, replicate bs True, of_nat T)), fst (snd (fold assign rs (merged, replicate bs True, of_nat T))))"
proof -
  let ?ls = "distribute_insertions rs (shard_lens T n)" and ?st = "(merged, replicate bs True, of_nat T)"
  note rr = distribute_round_robin [OF assms(1), of T rs]
  have "insertion_loop ?ls m 0 ?st = Inr (fold assign rs ?st)" if "rs \<noteq> [] \<Longrightarrow> m = T mod n" for m
  proof (cases "rs = []")
    case False
    then show ?thesis using insertion_loop_round [OF rr assms(1), of ?st 0] assms(3,4) that by simp
  next
    case True
    have "round_robin n m [] ?ls" using True assms(1) by (simp add: round_robin_def distribute_insertions_def shard_lens_0)
    then show ?thesis using insertion_loop_round [of n m "[]" ?ls ?st 0] assms(1) True by simp
  qed
  moreover have "fst (fold least_head (enumerate 0 ?ls) (0, 2 ^ 64 - 1)) = T mod n" if "rs \<noteq> []"
  proof -
    have "rs ! 0 < bs" using assms(3) that by simp
    then show ?thesis using assms(5) by (intro min_index_round assms(1,2) that) linarith
  qed
  ultimately show ?thesis
    unfolding calculate_insertion_indices_def least_head_def [symmetric] using sum_list_shard_lens [OF assms(1)]
    by (simp add: Let_def case_prod_unfold)
qed

section \<open>Rows of the database\<close>

lemma copy_device_ok:
  assumes "d < length dst" "d < length src" "src_off + len \<le> length (src ! d)" "dst_off + len \<le> length (dst ! d)"
  shows "\<exists>dst'. copy_device d dst dst_off src src_off len = Inr dst' \<and> length dst' = length dst \<and>
    (\<forall>d' < length dst. length (dst' ! d') = length (dst ! d')) \<and> (\<forall>x < len. dst' ! d ! (dst_off + x) = src ! d ! (src_off + x)) \<and>
    (\<forall>d' < length dst. \<forall>x < length (dst ! d'). \<not> (d' = d \<and> dst_off \<le> x \<and> x < dst_off + len) \<longrightarrow> dst' ! d' ! x = dst ! d' ! x)"
proof -
  let ?s = "take len (drop src_off (src ! d))"
  have len: "length ?s = len" using assms(3) by simp
  obtain l where l: "copy_at dst_off ?s (dst ! d) = Inr l" "length l = length (dst ! d)"
      "\<And>x. x < length (dst ! d) \<Longrightarrow> l ! x = (if dst_off \<le> x \<and> x < dst_off + length ?s then ?s ! (x - dst_off) else dst ! d ! x)"
    using copy_at_ok [of dst_off ?s "dst ! d"] assms(4) len by auto
  have "copy_device d dst dst_off src src_off len = Inr (dst[d := l])"
    using assms l(1) by (simp add: copy_device_def vec_index_def)
  then show ?thesis using assms l(2,3) len by (intro exI [of _ "dst[d := l]"]) (auto simp: nth_list_update)
qed

text \<open>Row \<open>i\<close> of device \<open>d\<close>, with the sums of its limbs.\<close>

definition db_row :: "nat \<Rightarrow> SlicedProcessedDatabase \<Rightarrow> nat \<Rightarrow> nat \<Rightarrow> (nat \<Rightarrow> u16) \<Rightarrow> bool" where
  "db_row k db d i f \<longleftrightarrow> (\<forall>l < k. limb_0 (code_gr db) ! d ! (i * k + l) = lo8 (f l) \<and> limb_1 (code_gr db) ! d ! (i * k + l) = hi8 (f l)) \<and>
     limb_0 (code_sums_gr db) ! d ! i = (\<Sum>l<k. scast (lo8 (f l))) \<and> limb_1 (code_sums_gr db) ! d ! i = (\<Sum>l<k. scast (hi8 (f l)))"

definition db_ok :: "nat \<Rightarrow> nat \<Rightarrow> nat \<Rightarrow> SlicedProcessedDatabase \<Rightarrow> bool" where
  "db_ok k cap n db \<longleftrightarrow> db_shape n (cap * k) (code_gr db) \<and> db_shape n cap (code_sums_gr db)"

text \<open>Queries on a device: the rows of all rotations, and their sums.\<close>

definition query_ok :: "nat \<Rightarrow> nat \<Rightarrow> nat \<Rightarrow> nat \<Rightarrow> (nat \<Rightarrow> nat \<Rightarrow> u16) \<Rightarrow> u8 CudaVec2DSlicer \<Rightarrow> u32 CudaVec2DSlicer \<Rightarrow> bool" where
  "query_ok k n nq r Y q ss \<longleftrightarrow> length (limb_0 q) = n \<and> length (limb_1 q) = n \<and> length (limb_0 ss) = n \<and> length (limb_1 ss) = n \<and>
     (\<forall>d < n. holds k nq r (dev d q) 0 Y \<and> sums_hold k r (dev d ss) 0 Y \<and> r \<le> length (limb_0 ss ! d) \<and> r \<le> length (limb_1 ss ! d))"

lemma row_offset_other:
  fixes i j k l d d' :: nat
  assumes "\<not> (d' = d \<and> i = j)" "l < k"
  shows "\<not> (d' = d \<and> j * k \<le> i * k + l \<and> i * k + l < j * k + k)"
proof
  assume *: "d' = d \<and> j * k \<le> i * k + l \<and> i * k + l < j * k + k"
  then obtain l' where l': "i * k + l = j * k + l'" using le_Suc_ex by blast
  have "l' < k" using * l' by simp
  then have "i = j" using l' row_index(1) [of l k i] row_index(1) [of l' k j] assms(2) by simp
  then show False using * assms(1) by simp
qed

text \<open>Copying row \<open>a\<close> of the source to row \<open>i\<close> of the destination, on device \<open>d\<close>.\<close>

lemma copy_row_ok:
  assumes "length dst = n" "length src = n" "d < n" "\<forall>d' < n. length (dst ! d') = cap * k" "Suc a * k \<le> length (src ! d)" "i < cap"
  shows "\<exists>dst'. copy_device d dst (i * k) src (a * k) k = Inr dst' \<and> length dst' = n \<and> (\<forall>d' < n. length (dst' ! d') = cap * k) \<and>
    (\<forall>l < k. dst' ! d ! (i * k + l) = src ! d ! (a * k + l)) \<and>
    (\<forall>d' < n. \<forall>j < cap. \<forall>l < k. \<not> (d' = d \<and> j = i) \<longrightarrow> dst' ! d' ! (j * k + l) = dst ! d' ! (j * k + l))"
proof -
  have le: "Suc j * k \<le> cap * k" if "j < cap" for j using that by (intro mult_le_mono1) simp
  obtain dst' where dst': "copy_device d dst (i * k) src (a * k) k = Inr dst'" "length dst' = n" "\<forall>d' < n. length (dst' ! d') = cap * k"
      "\<forall>l < k. dst' ! d ! (i * k + l) = src ! d ! (a * k + l)"
      "\<And>d' x. d' < n \<Longrightarrow> x < cap * k \<Longrightarrow> \<not> (d' = d \<and> i * k \<le> x \<and> x < i * k + k) \<Longrightarrow> dst' ! d' ! x = dst ! d' ! x"
    using copy_device_ok [of d dst src "a * k" k "i * k"] le [OF assms(6)] assms by (auto simp: add.commute)
  moreover have "dst' ! d' ! (j * k + l) = dst ! d' ! (j * k + l)" if "d' < n" "j < cap" "l < k" "\<not> (d' = d \<and> j = i)" for d' j l
    using that le [OF that(2)] row_offset_other [OF that(4,3)] by (intro dst'(5)) auto
  ultimately show ?thesis by blast
qed

lemma write_db_slices_ok:
  assumes db: "db_ok k cap n db" and q: "query_ok k n nq r Y q ss" and "d < n" "dst < cap" "src * ROTATIONS + 15 < r"
  shows "\<exists>db'. write_db_slices k db q ss src dst d = Inr db' \<and> db_ok k cap n db' \<and> db_row k db' d dst (Y (src * ROTATIONS + 15)) \<and>
    (\<forall>d' i f. d' < n \<longrightarrow> i < cap \<longrightarrow> \<not> (d' = d \<and> i = dst) \<longrightarrow> db_row k db d' i f \<longrightarrow> db_row k db' d' i f)"
proof -
  let ?a = "src * ROTATIONS + 15"
  have so: "k * 15 + src * k * ROTATIONS = ?a * k" "15 + src * ROTATIONS = ?a * 1" "dst * 1 = dst" by (simp_all add: algebra_simps)
  have h: "holds k nq r (dev d q) 0 Y" "sums_hold k r (dev d ss) 0 Y" "r \<le> length (limb_0 ss ! d)" "r \<le> length (limb_1 ss ! d)"
    using q assms(3) by (simp_all add: query_ok_def)
  have "Suc ?a * k \<le> nq * k" using h(1) assms(5) by (intro mult_le_mono1) (simp add: holds_def)
  moreover have "nq * k \<le> length (limb_0 q ! d)" "nq * k \<le> length (limb_1 q ! d)" using h(1) by (simp_all add: holds_def dev_def)
  ultimately have fit: "Suc ?a * k \<le> length (limb_0 q ! d)" "Suc ?a * k \<le> length (limb_1 q ! d)" by linarith+
  have fit1: "Suc ?a * 1 \<le> length (limb_0 ss ! d)" "Suc ?a * 1 \<le> length (limb_1 ss ! d)" using h(3,4) assms(5) by simp_all
  note shape = db [unfolded db_ok_def db_shape_def] and ql = q [unfolded query_ok_def]
  have cap1: "\<forall>d' < n. length (limb_0 (code_sums_gr db) ! d') = cap * 1" "\<forall>d' < n. length (limb_1 (code_sums_gr db) ! d') = cap * 1"
    using shape by simp_all
  obtain l0 where l0: "copy_device d (limb_0 (code_gr db)) (dst * k) (limb_0 q) (?a * k) k = Inr l0" "length l0 = n" "\<forall>d' < n. length (l0 ! d') = cap * k"
      "\<forall>l < k. l0 ! d ! (dst * k + l) = limb_0 q ! d ! (?a * k + l)"
      "\<forall>d' < n. \<forall>j < cap. \<forall>l < k. \<not> (d' = d \<and> j = dst) \<longrightarrow> l0 ! d' ! (j * k + l) = limb_0 (code_gr db) ! d' ! (j * k + l)"
    using copy_row_ok [of "limb_0 (code_gr db)" n "limb_0 q" d cap k, OF _ _ assms(3) _ fit(1) assms(4)] shape ql by blast
  obtain l1 where l1: "copy_device d (limb_1 (code_gr db)) (dst * k) (limb_1 q) (?a * k) k = Inr l1" "length l1 = n" "\<forall>d' < n. length (l1 ! d') = cap * k"
      "\<forall>l < k. l1 ! d ! (dst * k + l) = limb_1 q ! d ! (?a * k + l)"
      "\<forall>d' < n. \<forall>j < cap. \<forall>l < k. \<not> (d' = d \<and> j = dst) \<longrightarrow> l1 ! d' ! (j * k + l) = limb_1 (code_gr db) ! d' ! (j * k + l)"
    using copy_row_ok [of "limb_1 (code_gr db)" n "limb_1 q" d cap k, OF _ _ assms(3) _ fit(2) assms(4)] shape ql by blast
  obtain s0 where s0: "copy_device d (limb_0 (code_sums_gr db)) (dst * 1) (limb_0 ss) (?a * 1) 1 = Inr s0" "length s0 = n" "\<forall>d' < n. length (s0 ! d') = cap * 1"
      "\<forall>l < 1. s0 ! d ! (dst * 1 + l) = limb_0 ss ! d ! (?a * 1 + l)"
      "\<forall>d' < n. \<forall>j < cap. \<forall>l < 1. \<not> (d' = d \<and> j = dst) \<longrightarrow> s0 ! d' ! (j * 1 + l) = limb_0 (code_sums_gr db) ! d' ! (j * 1 + l)"
    using copy_row_ok [of "limb_0 (code_sums_gr db)" n "limb_0 ss" d cap 1, OF _ _ assms(3) cap1(1) fit1(1) assms(4)] shape ql by blast
  obtain s1 where s1: "copy_device d (limb_1 (code_sums_gr db)) (dst * 1) (limb_1 ss) (?a * 1) 1 = Inr s1" "length s1 = n" "\<forall>d' < n. length (s1 ! d') = cap * 1"
      "\<forall>l < 1. s1 ! d ! (dst * 1 + l) = limb_1 ss ! d ! (?a * 1 + l)"
      "\<forall>d' < n. \<forall>j < cap. \<forall>l < 1. \<not> (d' = d \<and> j = dst) \<longrightarrow> s1 ! d' ! (j * 1 + l) = limb_1 (code_sums_gr db) ! d' ! (j * 1 + l)"
    using copy_row_ok [of "limb_1 (code_sums_gr db)" n "limb_1 ss" d cap 1, OF _ _ assms(3) cap1(2) fit1(2) assms(4)] shape ql by blast
  let ?db = "\<lparr>code_gr = \<lparr>limb_0 = l0, limb_1 = l1\<rparr>, code_sums_gr = \<lparr>limb_0 = s0, limb_1 = s1\<rparr>\<rparr>"
  have "write_db_slices k db q ss src dst d = Inr ?db"
    using l0(1) l1(1) s0(1) s1(1) unfolding write_db_slices_def Let_def so by simp
  moreover have "db_ok k cap n ?db" using l0(2,3) l1(2,3) s0(2,3) s1(2,3) by (simp add: db_ok_def db_shape_def)
  moreover have "db_row k ?db d dst (Y ?a)"
    using l0(4) l1(4) s0(4) s1(4) h(1,2) assms(5) by (simp add: db_row_def holds_def sums_hold_def dev_def)
  moreover have "db_row k ?db d' i f" if "d' < n" "i < cap" "\<not> (d' = d \<and> i = dst)" "db_row k db d' i f" for d' i f
    using that l0(5) l1(5) s0(5) s1(5) by (simp add: db_row_def)
  ultimately show ?thesis by blast
qed

text \<open>
  The rows of all devices. \<open>X d i\<close> is the row that entry \<open>i\<close> of device \<open>d\<close> has, now or once it is inserted.
\<close>

definition db_rows :: "nat \<Rightarrow> nat \<Rightarrow> nat list \<Rightarrow> SlicedProcessedDatabase \<Rightarrow> (nat \<Rightarrow> nat \<Rightarrow> nat \<Rightarrow> u16) \<Rightarrow> bool" where
  "db_rows k cap sizes db X \<longleftrightarrow> db_ok k cap (length sizes) db \<and>
     (\<forall>d < length sizes. sizes ! d \<le> cap \<and> (\<forall>i < sizes ! d. db_row k db d i (X d i)))"

lemma db_rows_write:
  assumes "db_rows k cap sizes db X" "query_ok k (length sizes) nq r Y q ss" "d < length sizes" "sizes ! d < cap"
    and "src * ROTATIONS + 15 < r" "X d (sizes ! d) = Y (src * ROTATIONS + 15)"
  shows "\<exists>db'. write_db_slices k db q ss src (sizes ! d) d = Inr db' \<and> db_rows k cap (sizes[d := sizes ! d + 1]) db' X"
proof -
  have "db_ok k cap (length sizes) db" using assms(1) by (simp add: db_rows_def)
  from write_db_slices_ok [OF this assms(2-5)] obtain db' where db': "write_db_slices k db q ss src (sizes ! d) d = Inr db'"
      "db_ok k cap (length sizes) db'" "db_row k db' d (sizes ! d) (Y (src * ROTATIONS + 15))"
      "\<And>d' i f. d' < length sizes \<Longrightarrow> i < cap \<Longrightarrow> \<not> (d' = d \<and> i = sizes ! d) \<Longrightarrow> db_row k db d' i f \<Longrightarrow> db_row k db' d' i f" by blast
  have "db_row k db' d' i (X d' i)" if "d' < length sizes" "i < sizes[d := sizes ! d + 1] ! d'" for d' i
  proof (cases "d' = d \<and> i = sizes ! d")
    case True
    then show ?thesis using db'(3) assms(6) by simp
  next
    case False
    then have "i < sizes ! d'" using that by (cases "d' = d") auto
    then show ?thesis using assms(1) that(1) False by (intro db'(4)) (auto simp: db_rows_def intro: less_le_trans)
  qed
  then show ?thesis using db'(1,2) assms(1,3,4) by (auto simp: db_rows_def nth_list_update)
qed

text \<open>The four databases of the actor and the four query vectors they are filled from.\<close>

record Rows =
  left_codes :: "nat \<Rightarrow> nat \<Rightarrow> nat \<Rightarrow> u16"
  left_masks :: "nat \<Rightarrow> nat \<Rightarrow> nat \<Rightarrow> u16"
  right_codes :: "nat \<Rightarrow> nat \<Rightarrow> nat \<Rightarrow> u16"
  right_masks :: "nat \<Rightarrow> nat \<Rightarrow> nat \<Rightarrow> u16"

definition actor_rows :: "nat \<Rightarrow> Rows \<Rightarrow> ServerActor \<Rightarrow> bool" where
  "actor_rows cap X self \<longleftrightarrow> length (current_db_sizes self) = device_count self \<and>
     db_rows IRIS_CODE_LENGTH cap (current_db_sizes self) (left_code_db_slices self) (left_codes X) \<and>
     db_rows MASK_CODE_LENGTH cap (current_db_sizes self) (left_mask_db_slices self) (left_masks X) \<and>
     db_rows IRIS_CODE_LENGTH cap (current_db_sizes self) (right_code_db_slices self) (right_codes X) \<and>
     db_rows MASK_CODE_LENGTH cap (current_db_sizes self) (right_mask_db_slices self) (right_masks X)"

record EntryRows =
  q_left_codes :: "nat \<Rightarrow> nat \<Rightarrow> u16"
  q_left_masks :: "nat \<Rightarrow> nat \<Rightarrow> u16"
  q_right_codes :: "nat \<Rightarrow> nat \<Rightarrow> u16"
  q_right_masks :: "nat \<Rightarrow> nat \<Rightarrow> u16"

definition insert_queries_ok ::
    "nat \<Rightarrow> nat \<Rightarrow> nat \<Rightarrow> EntryRows \<Rightarrow> DeviceCompactQuery \<Rightarrow> DeviceCompactSums \<Rightarrow> DeviceCompactQuery \<Rightarrow> DeviceCompactSums \<Rightarrow> bool" where
  "insert_queries_ok n nq r Y ql sl qr sr \<longleftrightarrow>
     query_ok IRIS_CODE_LENGTH n nq r (q_left_codes Y) (code_query_insert ql) (code_query_insert_sums sl) \<and>
     query_ok MASK_CODE_LENGTH n nq r (q_left_masks Y) (mask_query_insert ql) (mask_query_insert_sums sl) \<and>
     query_ok IRIS_CODE_LENGTH n nq r (q_right_codes Y) (code_query_insert qr) (code_query_insert_sums sr) \<and>
     query_ok MASK_CODE_LENGTH n nq r (q_right_masks Y) (mask_query_insert qr) (mask_query_insert_sums sr)"

definition same_row :: "Rows \<Rightarrow> nat \<Rightarrow> nat \<Rightarrow> EntryRows \<Rightarrow> nat \<Rightarrow> bool" where
  "same_row X d i Y j \<longleftrightarrow> left_codes X d i = q_left_codes Y j \<and> left_masks X d i = q_left_masks Y j \<and>
     right_codes X d i = q_right_codes Y j \<and> right_masks X d i = q_right_masks Y j"

text \<open>Everything that inserting leaves alone.\<close>

definition same_but_db :: "ServerActor \<Rightarrow> ServerActor \<Rightarrow> bool" where
  "same_but_db self self' \<longleftrightarrow> (\<exists>lc lm rc rm sizes. self' = self\<lparr>left_code_db_slices := lc, left_mask_db_slices := lm, right_code_db_slices := rc,
     right_mask_db_slices := rm, current_db_sizes := sizes\<rparr>)"

lemma insert_on_device_ok:
  assumes "actor_rows cap X self" "insert_queries_ok (device_count self) nq r Y ql sl qr sr" "d < device_count self"
    and "current_db_sizes self ! d < cap" "src * ROTATIONS + 15 < r" "same_row X d (current_db_sizes self ! d) Y (src * ROTATIONS + 15)"
  shows "\<exists>self'. insert_on_device ql sl qr sr (d, src) self = Inr self' \<and> actor_rows cap X self' \<and> same_but_db self self' \<and>
    current_db_sizes self' = (current_db_sizes self)[d := current_db_sizes self ! d + 1]"
proof -
  let ?sizes = "current_db_sizes self" and ?sizes' = "(current_db_sizes self)[d := current_db_sizes self ! d + 1]"
  have d: "d < length ?sizes" using assms(1,3) by (simp add: actor_rows_def)
  note wr = db_rows_write [OF _ _ d assms(4,5)]
  obtain lc where lc: "write_db_slices IRIS_CODE_LENGTH (left_code_db_slices self) (code_query_insert ql) (code_query_insert_sums sl) src (?sizes ! d) d = Inr lc"
      "db_rows IRIS_CODE_LENGTH cap ?sizes' lc (left_codes X)"
    using wr [of _ _ "left_codes X" nq "q_left_codes Y"] assms(1,2,6) unfolding actor_rows_def insert_queries_ok_def same_row_def by metis
  obtain lm where lm: "write_db_slices MASK_CODE_LENGTH (left_mask_db_slices self) (mask_query_insert ql) (mask_query_insert_sums sl) src (?sizes ! d) d = Inr lm"
      "db_rows MASK_CODE_LENGTH cap ?sizes' lm (left_masks X)"
    using wr [of _ _ "left_masks X" nq "q_left_masks Y"] assms(1,2,6) unfolding actor_rows_def insert_queries_ok_def same_row_def by metis
  obtain rc where rc: "write_db_slices IRIS_CODE_LENGTH (right_code_db_slices self) (code_query_insert qr) (code_query_insert_sums sr) src (?sizes ! d) d = Inr rc"
      "db_rows IRIS_CODE_LENGTH cap ?sizes' rc (right_codes X)"
    using wr [of _ _ "right_codes X" nq "q_right_codes Y"] assms(1,2,6) unfolding actor_rows_def insert_queries_ok_def same_row_def by metis
  obtain rm where rm: "write_db_slices MASK_CODE_LENGTH (right_mask_db_slices self) (mask_query_insert qr) (mask_query_insert_sums sr) src (?sizes ! d) d = Inr rm"
      "db_rows MASK_CODE_LENGTH cap ?sizes' rm (right_masks X)"
    using wr [of _ _ "right_masks X" nq "q_right_masks Y"] assms(1,2,6) unfolding actor_rows_def insert_queries_ok_def same_row_def by metis
  let ?self = "self\<lparr>left_code_db_slices := lc, left_mask_db_slices := lm, right_code_db_slices := rc, right_mask_db_slices := rm, current_db_sizes := ?sizes'\<rparr>"
  have "insert_on_device ql sl qr sr (d, src) self = Inr ?self"
    using d by (simp add: insert_on_device_def write_db_at_index_def vec_index_def lc(1) lm(1) rc(1) rm(1))
  moreover have "actor_rows cap X ?self" using assms(1) lc(2) lm(2) rc(2) rm(2) by (simp add: actor_rows_def)
  moreover have "same_but_db self ?self" unfolding same_but_db_def by blast
  ultimately show ?thesis by (intro exI [of _ ?self]) simp
qed

section \<open>Writing the insertions\<close>

lemma rfold_append: "rfold f (xs @ ys) st = rbind (rfold f xs st) (rfold f ys)"
proof (induction xs arbitrary: st)
  case (Cons x xs)
  then show ?case by (cases "f x st") simp_all
qed simp

lemma same_but_db_trans: "same_but_db a b \<Longrightarrow> same_but_db b c \<Longrightarrow> same_but_db a c"
  unfolding same_but_db_def by fastforce

lemma same_but_db_refl: "same_but_db a a"
  unfolding same_but_db_def
  by (rule exI [of _ "left_code_db_slices a"], rule exI [of _ "left_mask_db_slices a"], rule exI [of _ "right_code_db_slices a"],
      rule exI [of _ "right_mask_db_slices a"], rule exI [of _ "current_db_sizes a"]) (cases a, simp)

lemma same_but_db_simps:
  assumes "same_but_db a b"
  shows "device_count b = device_count a" "max_batch_size b = max_batch_size a" "max_db_size b = max_db_size a"
    "match_buffers b = match_buffers a"
  using assms by (auto simp: same_but_db_def)

lemma insert_device_list:
  assumes "actor_rows cap X self" "insert_queries_ok (device_count self) nq r Y ql sl qr sr" "d < device_count self"
    and "current_db_sizes self ! d + length ins \<le> cap" "\<forall>src \<in> set ins. src * ROTATIONS + 15 < r"
    and "\<forall>j < length ins. same_row X d (current_db_sizes self ! d + j) Y (ins ! j * ROTATIONS + 15)"
  shows "\<exists>self'. rfold (insert_on_device ql sl qr sr) (map (Pair d) ins) self = Inr self' \<and> actor_rows cap X self' \<and> same_but_db self self' \<and>
    current_db_sizes self' = (current_db_sizes self)[d := current_db_sizes self ! d + length ins]"
  using assms
proof (induction ins arbitrary: self)
  case Nil
  then show ?case using same_but_db_refl by simp
next
  case (Cons src ins)
  obtain self1 where s1: "insert_on_device ql sl qr sr (d, src) self = Inr self1" "actor_rows cap X self1" "same_but_db self self1"
      "current_db_sizes self1 = (current_db_sizes self)[d := current_db_sizes self ! d + 1]"
    using insert_on_device_ok [OF Cons.prems(1-3), of src] Cons.prems(4,5) Cons.prems(6) [rule_format, of 0] by auto
  have len: "d < length (current_db_sizes self)" using Cons.prems(1,3) by (simp add: actor_rows_def)
  have size1: "current_db_sizes self1 ! d = current_db_sizes self ! d + 1" using s1(4) len by simp
  note n1 = same_but_db_simps(1) [OF s1(3)]
  have "\<exists>self'. rfold (insert_on_device ql sl qr sr) (map (Pair d) ins) self1 = Inr self' \<and> actor_rows cap X self' \<and> same_but_db self1 self' \<and>
      current_db_sizes self' = (current_db_sizes self1)[d := current_db_sizes self1 ! d + length ins]"
  proof (rule Cons.IH [OF s1(2)])
    show "\<forall>j < length ins. same_row X d (current_db_sizes self1 ! d + j) Y (ins ! j * ROTATIONS + 15)"
      using Cons.prems(6) [rule_format, of "Suc _"] unfolding size1 by simp
  qed (use Cons.prems n1 size1 in auto)
  then obtain self' where "rfold (insert_on_device ql sl qr sr) (map (Pair d) ins) self1 = Inr self'" "actor_rows cap X self'" "same_but_db self1 self'"
      "current_db_sizes self' = (current_db_sizes self1)[d := current_db_sizes self1 ! d + length ins]" by blast
  then show ?case using s1 size1 len by (auto intro: same_but_db_trans)
qed

lemma insert_all_devices:
  assumes "actor_rows cap X self" "insert_queries_ok (device_count self) nq r Y ql sl qr sr" "distinct ds" "\<forall>d \<in> set ds. d < device_count self"
    and "\<forall>d \<in> set ds. current_db_sizes self ! d + length (ls ! d) \<le> cap \<and> (\<forall>src \<in> set (ls ! d). src * ROTATIONS + 15 < r) \<and>
      (\<forall>j < length (ls ! d). same_row X d (current_db_sizes self ! d + j) Y (ls ! d ! j * ROTATIONS + 15))"
  shows "\<exists>self'. rfold (insert_on_device ql sl qr sr) (concat (map (\<lambda>d. map (Pair d) (ls ! d)) ds)) self = Inr self' \<and>
    actor_rows cap X self' \<and> same_but_db self self' \<and> length (current_db_sizes self') = length (current_db_sizes self) \<and>
    (\<forall>d < length (current_db_sizes self). current_db_sizes self' ! d = current_db_sizes self ! d + (if d \<in> set ds then length (ls ! d) else 0))"
  using assms
proof (induction ds arbitrary: self)
  case Nil
  then show ?case using same_but_db_refl by simp
next
  case (Cons d ds)
  obtain self1 where s1: "rfold (insert_on_device ql sl qr sr) (map (Pair d) (ls ! d)) self = Inr self1" "actor_rows cap X self1" "same_but_db self self1"
      "current_db_sizes self1 = (current_db_sizes self)[d := current_db_sizes self ! d + length (ls ! d)]"
    using insert_device_list [OF Cons.prems(1,2), of d "ls ! d"] Cons.prems(4,5) by auto
  have len: "d < length (current_db_sizes self)" using Cons.prems(1,4) by (simp add: actor_rows_def)
  note n1 = same_but_db_simps(1) [OF s1(3)]
  have other: "current_db_sizes self1 ! d' = current_db_sizes self ! d'" if "d' \<in> set ds" for d'
    using that Cons.prems(3) s1(4) by (cases "d' = d") auto
  have "\<exists>self'. rfold (insert_on_device ql sl qr sr) (concat (map (\<lambda>d. map (Pair d) (ls ! d)) ds)) self1 = Inr self' \<and>
      actor_rows cap X self' \<and> same_but_db self1 self' \<and> length (current_db_sizes self') = length (current_db_sizes self1) \<and>
      (\<forall>d < length (current_db_sizes self1). current_db_sizes self' ! d = current_db_sizes self1 ! d + (if d \<in> set ds then length (ls ! d) else 0))"
    using Cons.prems n1 other by (intro Cons.IH [OF s1(2)]) auto
  then show ?case using s1 len Cons.prems(3) by (auto simp: rfold_append nth_list_update intro: same_but_db_trans)
qed

text \<open>The first free position of a device, as a position of the whole database.\<close>

lemma shard_next:
  assumes "0 < n" "i < n"
  shows "shard_lens T n ! ((i + T mod n) mod n) * n + (i + T mod n) mod n = T + i"
proof -
  let ?d = "(i + T mod n) mod n"
  have d: "?d < n" using assms(1) by simp
  have "(T + i) mod n = ?d" by (simp add: add.commute mod_add_right_eq)
  then have Ti: "T + i = (T + i) div n * n + ?d" by (metis div_mult_mod_eq)
  have "shard_lens T n ! ?d = (T + i) div n"
  proof (rule nat_eq_from_less)
    fix a
    have "a < shard_lens T n ! ?d \<longleftrightarrow> a * n + ?d < T" by (rule shard_lens_nth [OF d])
    also have "\<dots> \<longleftrightarrow> a < (T + i) div n"
    proof
      assume "a * n + ?d < T"
      then have "a * n + ?d < (T + i) div n * n + ?d" using Ti by linarith
      then show "a < (T + i) div n" by simp
    next
      assume "a < (T + i) div n"
      then have "Suc a * n \<le> (T + i) div n * n" by (intro mult_le_mono1) simp
      then have "a * n + n + ?d \<le> T + i" using Ti by simp
      then show "a * n + ?d < T" using assms(2) by linarith
    qed
    finally show "a < shard_lens T n ! ?d \<longleftrightarrow> a < (T + i) div n" .
  qed
  then show ?thesis using Ti by simp
qed

lemma shard_grow:
  assumes "0 < n" "i < n"
  shows "shard_lens (T + L) n ! ((i + T mod n) mod n) = shard_lens T n ! ((i + T mod n) mod n) + shard_lens L n ! i"
proof (rule nat_eq_from_less)
  let ?d = "(i + T mod n) mod n" and ?s = "shard_lens T n ! ((i + T mod n) mod n)"
  have d: "?d < n" using assms(1) by simp
  fix a
  show "a < shard_lens (T + L) n ! ?d \<longleftrightarrow> a < ?s + shard_lens L n ! i"
  proof (cases "a < ?s")
    case True
    then have "a * n + ?d < T" using shard_lens_nth [OF d] by blast
    then show ?thesis using True shard_lens_nth [OF d, of a "T + L"] by simp
  next
    case False
    then obtain c where c: "a = ?s + c" using le_Suc_ex by (metis not_less)
    have "a * n + ?d = T + (c * n + i)" using shard_next [OF assms, of T] c by (simp add: algebra_simps)
    then show ?thesis using shard_lens_nth [OF d, of a "T + L"] shard_lens_nth [OF assms(2), of c L] c by simp
  qed
qed

text \<open>The rows of the whole database, entry after entry, and where they are on the devices.\<close>

definition rows_of :: "nat \<Rightarrow> EntryRows \<Rightarrow> Rows" where
  "rows_of n R = \<lparr>left_codes = \<lambda>d i. q_left_codes R (i * n + d), left_masks = \<lambda>d i. q_left_masks R (i * n + d),
     right_codes = \<lambda>d i. q_right_codes R (i * n + d), right_masks = \<lambda>d i. q_right_masks R (i * n + d)\<rparr>"

definition same_entry :: "EntryRows \<Rightarrow> nat \<Rightarrow> EntryRows \<Rightarrow> nat \<Rightarrow> bool" where
  "same_entry R a Y b \<longleftrightarrow> q_left_codes R a = q_left_codes Y b \<and> q_left_masks R a = q_left_masks Y b \<and>
     q_right_codes R a = q_right_codes Y b \<and> q_right_masks R a = q_right_masks Y b"

lemma same_row_of: "same_row (rows_of n R) d i Y j \<longleftrightarrow> same_entry R (i * n + d) Y j"
  by (simp add: same_row_def same_entry_def rows_of_def)

lemma shard_lens_cap: "0 < n \<Longrightarrow> d < n \<Longrightarrow> T \<le> n * cap \<Longrightarrow> shard_lens T n ! d \<le> cap"
  using shard_lens_nth [of d n cap T] by (metis le_trans less_add_same_cancel1 linorder_not_less mult.commute trans_le_add1)

lemma write_insertions_ok:
  assumes n: "0 < n" "device_count self = n" and sizes: "current_db_sizes self = shard_lens T n"
    and rows: "actor_rows cap (rows_of n R) self" and q: "insert_queries_ok n nq r Y ql sl qr sr"
    and rs: "\<forall>x \<in> set rs. x * ROTATIONS + 15 < r" and new: "\<forall>k < length rs. same_entry R (T + k) Y (rs ! k * ROTATIONS + 15)"
    and cap: "T + length rs \<le> n * cap"
  shows "\<exists>self'. write_insertions ql sl qr sr (distribute_insertions rs (shard_lens T n)) self = Inr self' \<and>
    current_db_sizes self' = shard_lens (T + length rs) n \<and> actor_rows cap (rows_of n R) self' \<and> same_but_db self self'"
proof -
  let ?ls = "distribute_insertions rs (shard_lens T n)" and ?L = "length rs"
  have lists: "shard_lens T n ! d + length (?ls ! d) = shard_lens (T + ?L) n ! d \<and> (\<forall>src \<in> set (?ls ! d). src * ROTATIONS + 15 < r) \<and>
      (\<forall>j < length (?ls ! d). same_row (rows_of n R) d (shard_lens T n ! d + j) Y (?ls ! d ! j * ROTATIONS + 15))" if d: "d < n" for d
  proof -
    obtain i where i: "i < n" "(i + T mod n) mod n = d" using device_slot [OF n(1) d] by blast
    have l: "?ls ! d = map (\<lambda>c. rs ! (c * n + i)) [0..<shard_lens ?L n ! i]" using distribute_insertions_nth [OF n(1) i(1), of rs T] i(2) by simp
    have lt: "c * n + i < ?L" if "c < shard_lens ?L n ! i" for c using that shard_lens_nth [OF i(1)] by blast
    have "(shard_lens T n ! d + j) * n + d = T + (j * n + i)" for j
      using shard_next [OF n(1) i(1), of T] i(2) by (simp add: algebra_simps)
    then show ?thesis using l lt rs new shard_grow [OF n(1) i(1), of T ?L] i(2) by (auto simp: same_row_of)
  qed
  have len: "length (current_db_sizes self) = n" by (simp add: sizes)
  have "\<exists>self'. rfold (insert_on_device ql sl qr sr) (concat (map (\<lambda>d. map (Pair d) (?ls ! d)) [0..<n])) self = Inr self' \<and>
    actor_rows cap (rows_of n R) self' \<and> same_but_db self self' \<and> length (current_db_sizes self') = length (current_db_sizes self) \<and>
    (\<forall>d < length (current_db_sizes self). current_db_sizes self' ! d = current_db_sizes self ! d + (if d \<in> set [0..<n] then length (?ls ! d) else 0))"
    using lists shard_lens_cap [OF n(1) _ cap] n q by (intro insert_all_devices [OF rows]) (auto simp: sizes)
  then obtain self' where s': "write_insertions ql sl qr sr ?ls self = Inr self'" "actor_rows cap (rows_of n R) self'" "same_but_db self self'"
      "length (current_db_sizes self') = n" "\<forall>d < n. current_db_sizes self' ! d = shard_lens T n ! d + length (?ls ! d)"
    unfolding write_insertions_def n(2) len by (auto simp: sizes)
  have "current_db_sizes self' = shard_lens (T + ?L) n" using s'(4,5) lists by (intro nth_equalityI) auto
  then show ?thesis using s' by blast
qed

section \<open>Merged results\<close>

lemma Min_insert_min: "finite S \<Longrightarrow> Min (insert (min a b) S) = Min (insert a (insert b S))"
  by (cases "S = {}") (simp_all add: min.assoc)

lemma fold_least:
  fixes f :: "'i \<Rightarrow> 'w :: linorder"
  shows "fold (\<lambda>i m. if P i \<and> f i < m then f i else m) xs m = Min (insert m (f ` {i \<in> set xs. P i}))"
proof (induction xs arbitrary: m)
  case (Cons x xs)
  have "(if P x \<and> f x < m then f x else m) = (if P x then min m (f x) else m)" by (auto simp: min_def)
  moreover have "{i \<in> set (x # xs). P i} = (if P x then insert x {i \<in> set xs. P i} else {i \<in> set xs. P i})" by auto
  ultimately show ?case by (simp add: Cons.IH Min_insert_min)
qed simp

lemma map_upt_nth: "j < m \<Longrightarrow> map g [0..<m] ! j = g j"
  by simp

lemma merged_nth:
  assumes "j < length (h ! 0)"
  shows "get_merged_results h n ! j = Min (insert NON_MATCH_ID ((\<lambda>i. h ! i ! j * of_nat n + of_nat i) ` {i. i < length h \<and> h ! i ! j \<noteq> NON_MATCH_ID}))"
  unfolding get_merged_results_def map_upt_nth [OF assms] Let_def fold_least by simp

lemma Min_of_nat:
  assumes "finite M" "\<forall>x \<in> M. x < 2 ^ 32 - 1"
  shows "Min (insert NON_MATCH_ID ((of_nat :: nat \<Rightarrow> u32) ` M)) = (if M = {} then NON_MATCH_ID else of_nat (Min M))"
    "M \<noteq> {} \<Longrightarrow> of_nat (Min M) \<noteq> NON_MATCH_ID"
proof -
  have un: "unat (of_nat x :: u32) = x" if "x < 2 ^ 32 - 1" for x using that by (simp add: unat_of_nat take_bit_nat_eq_self)
  have un_max: "unat NON_MATCH_ID = 2 ^ 32 - 1" using batch_entry_unat [of 0] by (simp add: NON_MATCH_ID_def)
  have MM: "Min M \<in> M" if "M \<noteq> {}" using that Min_in [OF assms(1)] by blast
  have "Min (insert NON_MATCH_ID ((of_nat :: nat \<Rightarrow> u32) ` M)) = of_nat (Min M)" if ne: "M \<noteq> {}"
  proof (rule Min_eqI)
    show "finite (insert NON_MATCH_ID ((of_nat :: nat \<Rightarrow> u32) ` M))" using assms(1) by simp
    show "(of_nat (Min M) :: u32) \<in> insert NON_MATCH_ID (of_nat ` M)" using MM [OF ne] by blast
    fix y :: u32 assume "y \<in> insert NON_MATCH_ID (of_nat ` M)"
    then consider "y = NON_MATCH_ID" | x where "x \<in> M" "y = of_nat x" by blast
    then show "of_nat (Min M) \<le> y"
    proof cases
      case 1
      then show ?thesis unfolding NON_MATCH_ID_def by simp
    next
      case 2
      then have "Min M \<le> x" using assms(1) by (simp only: Min_le)
      then show ?thesis using 2 un assms(2) MM [OF ne] by (simp add: word_le_nat_alt)
    qed
  qed
  then show "Min (insert NON_MATCH_ID ((of_nat :: nat \<Rightarrow> u32) ` M)) = (if M = {} then NON_MATCH_ID else of_nat (Min M))" by simp
  show "of_nat (Min M) \<noteq> NON_MATCH_ID" if ne: "M \<noteq> {}"
  proof
    assume "of_nat (Min M) = NON_MATCH_ID"
    then have "Min M = 2 ^ 32 - 1" using un [of "Min M"] un_max MM [OF ne] assms(2) by simp
    then show False using MM [OF ne] assms(2) by auto
  qed
qed

text \<open>
  \<open>D d\<close> are the matching entries of device \<open>d\<close> and \<open>bm d\<close> says whether it has a batch match; \<open>h\<close> are the results
  of the devices.
\<close>

lemma merged_cases:
  assumes n: "0 < n" "length h = n" and j: "\<forall>d < n. j < length (h ! d)"
    and fin: "\<forall>d < n. finite (D d) \<and> (\<forall>e \<in> D d. e * n + d + 2 * n < 2 ^ 32)" and two: "2 * n < 2 ^ 32"
    and h: "\<forall>d < n. h ! d ! j = (if D d \<noteq> {} then of_nat (Min (D d)) else if bm d then - 2 else NON_MATCH_ID)"
  defines "G \<equiv> {e * n + d | d e. d < n \<and> e \<in> D d}"
  shows "(G \<noteq> {} \<longrightarrow> get_merged_results h n ! j = of_nat (Min G)) \<and>
    (get_merged_results h n ! j = NON_MATCH_ID \<longleftrightarrow> G = {} \<and> (\<forall>d < n. \<not> bm d))"
proof -
  let ?v = "\<lambda>d. if D d \<noteq> {} then Min (D d) * n + d else 2 ^ 32 - 2 * n + d"
  let ?S = "{d. d < n \<and> (D d \<noteq> {} \<or> bm d)}"
  have minD: "Min (D d) \<in> D d" if "d < n" "D d \<noteq> {}" for d using that fin Min_in by blast
  have small: "?v d < 2 ^ 32 - 1" if "d \<in> ?S" for d
    using that fin minD [of d] two n by (fastforce split: if_splits)
  have two_n: "(- 2 :: u32) * of_nat n + of_nat d = of_nat (2 ^ 32 - 2 * n + d)" for d
    using two by (simp add: of_nat_diff)
  have val: "h ! d ! j \<noteq> NON_MATCH_ID \<longleftrightarrow> d \<in> ?S" "d \<in> ?S \<Longrightarrow> h ! d ! j * of_nat n + of_nat d = of_nat (?v d)" if d: "d < n" for d
  proof -
    have "x < 2 ^ 32 - 1" if "x \<in> D d" for x
    proof -
      have "x * 1 \<le> x * n" using n(1) by (intro mult_le_mono2) simp
      moreover have "x * n + d + 2 * n < 2 ^ 32" using fin d that by blast
      ultimately show ?thesis using n(1) by linarith
    qed
    then have "of_nat (Min (D d)) \<noteq> NON_MATCH_ID" if "D d \<noteq> {}" using Min_of_nat(2) [of "D d"] fin d that by blast
    then show "h ! d ! j \<noteq> NON_MATCH_ID \<longleftrightarrow> d \<in> ?S" using h d by (auto simp: NON_MATCH_ID_def)
    show "h ! d ! j * of_nat n + of_nat d = of_nat (?v d)" if "d \<in> ?S" using that h d two_n by auto
  qed
  have "get_merged_results h n ! j = Min (insert NON_MATCH_ID ((\<lambda>i. h ! i ! j * of_nat n + of_nat i) ` {i. i < length h \<and> h ! i ! j \<noteq> NON_MATCH_ID}))"
    using j n by (intro merged_nth) simp
  also have "{i. i < length h \<and> h ! i ! j \<noteq> NON_MATCH_ID} = ?S" using val(1) n(2) by auto
  also have "(\<lambda>i. h ! i ! j * of_nat n + of_nat i) ` ?S = of_nat ` ?v ` ?S"
    unfolding image_image using val(2) by (intro image_cong refl) simp
  finally have eq: "get_merged_results h n ! j = Min (insert NON_MATCH_ID (of_nat ` ?v ` ?S))" .
  have "finite (?v ` ?S)" by simp
  moreover have "\<forall>x \<in> ?v ` ?S. x < 2 ^ 32 - 1" using small by blast
  ultimately have least: "Min (insert NON_MATCH_ID ((of_nat :: nat \<Rightarrow> u32) ` ?v ` ?S)) = (if ?v ` ?S = {} then NON_MATCH_ID else of_nat (Min (?v ` ?S)))"
    "?v ` ?S \<noteq> {} \<Longrightarrow> of_nat (Min (?v ` ?S)) \<noteq> NON_MATCH_ID" by (rule Min_of_nat)+
  have merged: "get_merged_results h n ! j = (if ?S = {} then NON_MATCH_ID else of_nat (Min (?v ` ?S)))"
    "?S \<noteq> {} \<Longrightarrow> of_nat (Min (?v ` ?S)) \<noteq> NON_MATCH_ID"
    unfolding eq least(1) image_is_empty using least(2) by blast+
  have finG: "finite G"
  proof -
    have "G \<subseteq> (\<lambda>x. x) ` {..<2 ^ 32}" using fin unfolding G_def by fastforce
    then show ?thesis by (rule finite_subset) simp
  qed
  have "Min (?v ` ?S) = Min G" if ne: "G \<noteq> {}"
  proof (rule Min_eqI)
    obtain d e where de: "d < n" "e \<in> D d" "Min G = e * n + d" using Min_in [OF finG ne] unfolding G_def by blast
    have "Min (D d) \<in> D d" using minD de(1,2) by blast
    then have "Min (D d) * n + d \<in> G" using de(1) unfolding G_def by blast
    then have "Min G \<le> Min (D d) * n + d" by (rule Min_le [OF finG])
    then have "e * n + d \<le> Min (D d) * n + d" unfolding de(3) .
    moreover have "Min (D d) \<le> e" using Min_le de(1,2) fin by blast
    ultimately have "e = Min (D d)" using n(1) by simp
    then show "Min G \<in> ?v ` ?S" using de by (intro image_eqI [of _ _ d]) auto
    fix y assume "y \<in> ?v ` ?S"
    then obtain d' where d': "d' \<in> ?S" "y = ?v d'" by blast
    show "Min G \<le> y"
    proof (cases "D d' = {}")
      case True
      moreover have "Min G + 2 * n < 2 ^ 32" using fin de by auto
      ultimately show ?thesis using d' by simp
    next
      case False
      then have "?v d' \<in> G" using d' minD unfolding G_def by auto
      then show ?thesis using Min_le [OF finG] d'(2) by blast
    qed
  qed simp
  moreover have "?S = {} \<longleftrightarrow> G = {} \<and> (\<forall>d < n. \<not> bm d)" unfolding G_def by blast
  ultimately show ?thesis using merged by auto
qed

section \<open>The end of a batch\<close>

lemma candidates_filter:
  "insertion_candidates merged cl cr = filter (\<lambda>i. merged ! i = NON_MATCH_ID \<and> cl ! i \<le> SUPERMATCH_THRESHOLD \<and> cr ! i \<le> SUPERMATCH_THRESHOLD) [0..<length merged]"
proof -
  have "map fst (filter (\<lambda>(i, v). P i v) (enumerate k xs)) = filter (\<lambda>i. P i (xs ! (i - k))) [k..<k + length xs]" for P k and xs :: "u32 list"
  proof (induction xs arbitrary: k)
    case (Cons x xs)
    have "[k..<k + length (x # xs)] = k # [Suc k..<Suc k + length xs]" by (simp add: upt_rec)
    moreover have "filter (\<lambda>i. P i ((x # xs) ! (i - k))) [Suc k..<Suc k + length xs] = filter (\<lambda>i. P i (xs ! (i - Suc k))) [Suc k..<Suc k + length xs]"
      by (rule filter_cong) (auto simp: nth_Cons')
    ultimately show ?case using Cons.IH [of "Suc k"] by simp
  qed simp
  from this [where k = 0] show ?thesis unfolding insertion_candidates_def by simp
qed

lemma add_counters_nth:
  "length (fold (\<lambda>(i, v) acc. acc[i := acc ! i + unat v]) (enumerate k c) acc) = length acc \<and>
   (k + length c \<le> length acc \<longrightarrow> i < length acc \<longrightarrow>
     fold (\<lambda>(i, v) acc. acc[i := acc ! i + unat v]) (enumerate k c) acc ! i = acc ! i + (if k \<le> i \<and> i < k + length c then unat (c ! (i - k)) else 0))"
  for c :: "u32 list"
proof (induction c arbitrary: k acc)
  case (Cons v c)
  then show ?case using Cons.IH [of "Suc k" "acc[k := acc ! k + unat v]"]
    by (cases "i = k"; cases "i < k") (auto simp: nth_list_update nth_Cons' Suc_diff_le)
qed simp

lemma aggregate_nth:
  assumes "\<forall>c \<in> set cs. length c = bs" "i < bs"
  shows "aggregate_counters bs cs ! i = sum_list (map (\<lambda>c. unat (c ! i)) cs)"
proof -
  have "length acc = bs \<Longrightarrow> fold (\<lambda>counters acc. fold (\<lambda>(i, v) acc. acc[i := acc ! i + unat v]) (enumerate 0 counters) acc) cs acc ! i
      = acc ! i + sum_list (map (\<lambda>c. unat (c ! i)) cs)" for acc
    using assms(1)
  proof (induction cs arbitrary: acc)
    case (Cons c cs)
    then show ?case using add_counters_nth [of 0 c acc] assms(2) by simp
  qed simp
  then show ?thesis using assms(2) by (simp add: aggregate_counters_def)
qed

lemma matched_batch_ids_ok:
  assumes "bs \<le> length ids" "bs < 2 ^ 32"
  shows "matched_batch_ids bs ids mids = Inr (map (\<lambda>l. map (\<lambda>x. ids ! unat (- 1 - x)) (filter (\<lambda>x. x > - 1 - of_nat bs) l)) mids)"
proof -
  have bound: "unat x < 2 ^ 32" for x :: u32 using unsigned_less [of x, where 'a = nat] by simp
  have "unat (- 1 - x :: u32) < length ids" if "x > - 1 - of_nat bs" for x
  proof -
    have "unat (- 1 - x :: u32) = 2 ^ 32 - 1 - unat x" using batch_entry_unat [of "unat x"] bound [of x] by simp
    moreover have "2 ^ 32 - 1 - bs < unat x" using that batch_entry_unat [OF assms(2)] by (simp add: word_less_nat_alt)
    ultimately show ?thesis using assms bound [of x] by simp
  qed
  then show ?thesis unfolding matched_batch_ids_def by (intro rmap_Inr) (auto intro!: rmap_Inr simp: vec_index_def)
qed

text \<open>What the search of both eyes found for query \<open>q\<close> of the batch.\<close>

definition device_hits :: "ServerActor \<Rightarrow> nat \<Rightarrow> nat \<Rightarrow> nat set" where
  "device_hits self q d = db_hits (db_match_list_left self ! d) (db_match_list_right self ! d) (current_db_sizes self ! d) q"

definition global_hits :: "ServerActor \<Rightarrow> nat \<Rightarrow> nat set" where
  "global_hits self q = {e * device_count self + d | d e. d < device_count self \<and> e \<in> device_hits self q d}"

definition unmatched :: "ServerActor \<Rightarrow> nat \<Rightarrow> bool" where
  "unmatched self q \<longleftrightarrow> global_hits self q = {} \<and>
     (\<forall>d < device_count self. batch_hits (batch_match_list_left self ! d) (batch_match_list_right self ! d) (max_batch_size self) q = {})"

definition eye_matches :: "u64 list list \<Rightarrow> ServerActor \<Rightarrow> nat \<Rightarrow> nat" where
  "eye_matches bm self q =
     (if return_partial_results self
      then \<Sum>d \<leftarrow> [0..<device_count self]. card {e. e < current_db_sizes self ! d \<and> bitmap (bm ! d) (q * current_db_sizes self ! d + e)} else 0)"

definition insertable :: "ServerActor \<Rightarrow> nat \<Rightarrow> bool" where
  "insertable self q \<longleftrightarrow> unmatched self q \<and> eye_matches (db_match_list_left self) self q \<le> SUPERMATCH_THRESHOLD \<and>
     eye_matches (db_match_list_right self) self q \<le> SUPERMATCH_THRESHOLD"

text \<open>The actor after the search: balanced shards of \<open>T\<close> entries with the rows \<open>R\<close>, fresh match buffers.\<close>

definition searched :: "nat \<Rightarrow> nat \<Rightarrow> EntryRows \<Rightarrow> BatchIO \<Rightarrow> ServerActor \<Rightarrow> bool" where
  "searched T cap R io self \<longleftrightarrow> 0 < device_count self \<and> current_db_sizes self = shard_lens T (device_count self) \<and>
     actor_rows cap (rows_of (device_count self) R) self \<and> length (match_buffers self) = device_count self \<and>
     joins_ok (max_batch_size self) (current_db_sizes self) (db_merge_sched io) (batch_merge_sched io) (match_buffers self) \<and>
     T + 2 * device_count self + 2 < 2 ^ 32"

lemma join_results_joined:
  "join_results io self = self\<lparr>match_buffers := joined (max_batch_size self) (db_match_list_left self) (db_match_list_right self)
     (batch_match_list_left self) (batch_match_list_right self) (current_db_sizes self) (db_merge_sched io) (batch_merge_sched io) (match_buffers self)\<rparr>"
  by (simp add: join_results_def joined_def Let_def)

lemma joined_merged:
  fixes self :: ServerActor
  assumes s: "searched T cap R io self" and q: "q < bs" "bs \<le> max_batch_size self"
  defines "h \<equiv> map (take bs) (fetch_final_results (match_buffers (join_results io self)))"
  shows "length (get_merged_results h (device_count self)) = bs \<and>
    (global_hits self q \<noteq> {} \<longrightarrow> get_merged_results h (device_count self) ! q = of_nat (Min (global_hits self q))) \<and>
    (get_merged_results h (device_count self) ! q = NON_MATCH_ID \<longleftrightarrow> unmatched self q)"
proof -
  let ?n = "device_count self" and ?nb = "max_batch_size self"
  have n: "0 < ?n" "length (match_buffers self) = ?n" and sizes: "current_db_sizes self = shard_lens T ?n" and T: "T + 2 * ?n + 2 < 2 ^ 32"
    and jo: "joins_ok ?nb (current_db_sizes self) (db_merge_sched io) (batch_merge_sched io) (match_buffers self)"
    using s unfolding searched_def by blast+
  have qn: "q < ?nb" "0 < ?nb" using q by simp_all
  have hl: "length h = ?n" "\<forall>d < ?n. length (h ! d) = bs"
    using n q qn length_joined_buffers(2) [OF jo] by (simp_all add: h_def join_results_joined fetch_final_results_def)
  have small: "e * ?n + d < T" if "d < ?n" "e \<in> device_hits self q d" for d e
    using that shard_lens_nth [of d ?n e T] by (simp add: device_hits_def db_hits_def sizes)
  have le: "current_db_sizes self ! d \<le> 2 ^ 32 - 2" if "d < ?n" for d
  proof (rule ccontr)
    assume "\<not> current_db_sizes self ! d \<le> 2 ^ 32 - 2"
    then have "(2 ^ 32 - 2) * ?n + d < T" using shard_lens_nth [OF that, of "2 ^ 32 - 2" T] sizes by simp
    moreover have "(2 ^ 32 - 2) * 1 \<le> (2 ^ 32 - 2) * ?n" using n(1) by (intro mult_le_mono2) simp
    ultimately show False using T by linarith
  qed
  have hq: "h ! d ! q = (if device_hits self q d \<noteq> {} then of_nat (Min (device_hits self q d))
      else if batch_hits (batch_match_list_left self ! d) (batch_match_list_right self ! d) ?nb q \<noteq> {} then - 2 else NON_MATCH_ID)"
    if "d < ?n" for d
    using joined_final [OF jo _ qn(1) le [OF that]] that n(2) q(1)
    by (simp add: h_def join_results_joined fetch_final_results_def device_hits_def)
  have "(global_hits self q \<noteq> {} \<longrightarrow> get_merged_results h ?n ! q = of_nat (Min (global_hits self q))) \<and>
    (get_merged_results h ?n ! q = NON_MATCH_ID \<longleftrightarrow>
      global_hits self q = {} \<and> (\<forall>d < ?n. \<not> batch_hits (batch_match_list_left self ! d) (batch_match_list_right self ! d) ?nb q \<noteq> {}))"
    unfolding global_hits_def
  proof (rule merged_cases [OF n(1) hl(1)])
    show "\<forall>d < ?n. q < length (h ! d)" using hl(2) q(1) by simp
    show "\<forall>d < ?n. finite (device_hits self q d) \<and> (\<forall>e \<in> device_hits self q d. e * ?n + d + 2 * ?n < 2 ^ 32)"
      using small T by (fastforce simp: device_hits_def)
    show "2 * ?n < 2 ^ 32" using T by linarith
  qed (use hq in blast)
  moreover have "length (get_merged_results h ?n) = bs" using hl n(1) by (simp add: get_merged_results_def)
  ultimately show ?thesis by (simp add: unmatched_def)
qed

lemma joined_partial:
  fixes self :: ServerActor
  assumes s: "searched T cap R io self" and q: "q < bs" "bs \<le> max_batch_size self"
  shows "snd (fetch_partial bs match_counters_left e1 (join_results io self)) ! q = eye_matches (db_match_list_left self) self q"
    "snd (fetch_partial bs match_counters_right e2 (join_results io self)) ! q = eye_matches (db_match_list_right self) self q"
proof -
  let ?n = "device_count self" and ?nb = "max_batch_size self"
  have n: "length (match_buffers self) = ?n"
    and jo: "joins_ok ?nb (current_db_sizes self) (db_merge_sched io) (batch_merge_sched io) (match_buffers self)"
    using s unfolding searched_def by blast+
  have qn: "q < ?nb" "0 < ?nb" using q by simp_all
  let ?J = "joined ?nb (db_match_list_left self) (db_match_list_right self) (batch_match_list_left self) (batch_match_list_right self)
    (current_db_sizes self) (db_merge_sched io) (batch_merge_sched io) (match_buffers self)"
  have agg: "aggregate_counters bs (map (\<lambda>b. take bs (c b)) ?J) ! q = (\<Sum>d \<leftarrow> [0..<?n]. unat (c (?J ! d) ! q))"
    if "\<And>d. d < ?n \<Longrightarrow> length (c (?J ! d)) = ?nb" for c
  proof -
    have "\<forall>l \<in> set (map (\<lambda>b. take bs (c b)) ?J). length l = bs"
      using that q(2) n by (auto simp: in_set_conv_nth)
    from aggregate_nth [OF this q(1)] have "aggregate_counters bs (map (\<lambda>b. take bs (c b)) ?J) ! q = sum_list (map (\<lambda>b. unat (c b ! q)) ?J)"
      using q(1) by (simp add: comp_def)
    also have "map (\<lambda>b. unat (c b ! q)) ?J = map (\<lambda>d. unat (c (?J ! d) ! q)) [0..<?n]" using n by (intro nth_equalityI) simp_all
    finally show ?thesis .
  qed
  have zero: "aggregate_counters bs [] ! q = 0" using q(1) by (simp add: aggregate_counters_def)
  note lens = length_joined_buffers [OF jo, unfolded n] and cnt = joined_lists(3,4) [OF jo, unfolded n]
  show "snd (fetch_partial bs match_counters_left e1 (join_results io self)) ! q = eye_matches (db_match_list_left self) self q"
    using agg [of match_counters_left] lens(3) cnt(1) qn zero
    by (auto simp: fetch_partial_def eye_matches_def join_results_joined Let_def intro!: arg_cong [where f = sum_list])
  show "snd (fetch_partial bs match_counters_right e2 (join_results io self)) ! q = eye_matches (db_match_list_right self) self q"
    using agg [of match_counters_right] lens(4) cnt(2) qn zero
    by (auto simp: fetch_partial_def eye_matches_def join_results_joined Let_def intro!: arg_cong [where f = sum_list])
qed

lemma candidates_insertable:
  fixes self :: ServerActor
  assumes s: "searched T cap R io self" and bs: "bs \<le> max_batch_size self" "0 < bs"
  defines "h \<equiv> map (take bs) (fetch_final_results (match_buffers (join_results io self)))"
  shows "insertion_candidates (get_merged_results h (device_count self)) (snd (fetch_partial bs match_counters_left e1 (join_results io self)))
    (snd (fetch_partial bs match_counters_right e2 (join_results io self))) = filter (insertable self) [0..<bs]"
  unfolding candidates_filter
proof (rule filter_cong)
  show "[0..<length (get_merged_results h (device_count self))] = [0..<bs]" using joined_merged [OF s bs(2,1)] by (simp add: h_def)
  fix q assume "q \<in> set [0..<bs]"
  then have q: "q < bs" by simp
  show "(get_merged_results h (device_count self) ! q = NON_MATCH_ID \<and> snd (fetch_partial bs match_counters_left e1 (join_results io self)) ! q \<le> SUPERMATCH_THRESHOLD \<and>
      snd (fetch_partial bs match_counters_right e2 (join_results io self)) ! q \<le> SUPERMATCH_THRESHOLD) = insertable self q"
    using joined_merged [OF s q bs(1)] by (simp add: h_def joined_partial [OF s q bs(1)] insertable_def)
qed

text \<open>The rows of the database after the insertions: the middle rotation of every inserted query.\<close>

definition appended :: "nat \<Rightarrow> EntryRows \<Rightarrow> EntryRows \<Rightarrow> nat list \<Rightarrow> EntryRows" where
  "appended T R Y rs = (let ext = (\<lambda>old new r. if r < T then old r else new (rs ! (r - T) * ROTATIONS + 15)) in
     \<lparr>q_left_codes = ext (q_left_codes R) (q_left_codes Y), q_left_masks = ext (q_left_masks R) (q_left_masks Y),
      q_right_codes = ext (q_right_codes R) (q_right_codes Y), q_right_masks = ext (q_right_masks R) (q_right_masks Y)\<rparr>)"

lemma appended_entries:
  "r < T \<Longrightarrow> same_entry (appended T R Y rs) r R r" "same_entry (appended T R Y rs) (T + k) Y (rs ! k * ROTATIONS + 15)"
  by (simp_all add: same_entry_def appended_def Let_def)

lemma actor_rows_cong:
  assumes "actor_rows cap (rows_of n R) self" "current_db_sizes self = shard_lens T n" "\<And>r. r < T \<Longrightarrow> same_entry R' r R r"
  shows "actor_rows cap (rows_of n R') self"
proof -
  have lt: "i * n + d < T" if "d < n" "i < shard_lens T n ! d" for d i using that shard_lens_nth by blast
  have cong: "db_rows k cap (shard_lens T n) db X'" if "db_rows k cap (shard_lens T n) db X" "\<And>d i. i * n + d < T \<Longrightarrow> X' d i = X d i" for k db X X'
    using that lt by (simp add: db_rows_def)
  have old: "db_rows IRIS_CODE_LENGTH cap (shard_lens T n) (left_code_db_slices self) (left_codes (rows_of n R))"
    "db_rows MASK_CODE_LENGTH cap (shard_lens T n) (left_mask_db_slices self) (left_masks (rows_of n R))"
    "db_rows IRIS_CODE_LENGTH cap (shard_lens T n) (right_code_db_slices self) (right_codes (rows_of n R))"
    "db_rows MASK_CODE_LENGTH cap (shard_lens T n) (right_mask_db_slices self) (right_masks (rows_of n R))"
    "length (shard_lens T n) = device_count self"
    using assms(1) unfolding actor_rows_def assms(2) by blast+
  have eqs: "q_left_codes R' r = q_left_codes R r" "q_left_masks R' r = q_left_masks R r" "q_right_codes R' r = q_right_codes R r"
    "q_right_masks R' r = q_right_masks R r" if "r < T" for r
    using assms(3) [OF that] unfolding same_entry_def by blast+
  show ?thesis unfolding actor_rows_def assms(2)
  proof (intro conjI)
    show "db_rows IRIS_CODE_LENGTH cap (shard_lens T n) (left_code_db_slices self) (left_codes (rows_of n R'))"
      by (rule cong [OF old(1)]) (simp add: rows_of_def eqs)
    show "db_rows MASK_CODE_LENGTH cap (shard_lens T n) (left_mask_db_slices self) (left_masks (rows_of n R'))"
      by (rule cong [OF old(2)]) (simp add: rows_of_def eqs)
    show "db_rows IRIS_CODE_LENGTH cap (shard_lens T n) (right_code_db_slices self) (right_codes (rows_of n R'))"
      by (rule cong [OF old(3)]) (simp add: rows_of_def eqs)
    show "db_rows MASK_CODE_LENGTH cap (shard_lens T n) (right_mask_db_slices self) (right_masks (rows_of n R'))"
      by (rule cong [OF old(4)]) (simp add: rows_of_def eqs)
  qed (rule old(5))
qed

definition cleared :: "ServerActor \<Rightarrow> bool" where
  "cleared self \<longleftrightarrow> (\<forall>bm \<in> {db_match_list_left self, db_match_list_right self, batch_match_list_left self, batch_match_list_right self}.
       \<forall>ws \<in> set bm. \<forall>w \<in> set ws. w = 0) \<and>
     (\<forall>b \<in> set (match_buffers self). \<forall>cs \<in> {match_counters b, match_counters_left b, match_counters_right b}. \<forall>c \<in> set cs. c = 0)"

lemma cleared_reset: "cleared (reset_matches self)"
  by (auto simp: cleared_def reset_matches_def Let_def)

lemma reset_matches_keeps:
  "current_db_sizes (reset_matches self) = current_db_sizes self" "actor_rows cap X (reset_matches self) = actor_rows cap X self"
  by (simp_all add: reset_matches_def actor_rows_def Let_def)

lemma sum_distributed: "0 < n \<Longrightarrow> sum_list (map length (distribute_insertions rs (shard_lens T n))) = length rs"
proof -
  assume n: "0 < n"
  have "sum_list (map length (distribute_from rs c ret)) = sum_list (map length ret) + length rs" if "c < length ret" for c ret
    using that
  proof (induction rs c ret rule: distribute_from.induct)
    case (2 r rs c ret)
    have "(c + 1) mod length ret < length (ret[c := ret ! c @ [r]])" using "2.prems" by (simp add: mod_less_divisor length_greater_0_conv [symmetric] del: length_greater_0_conv)
    from "2.IH" [OF this] show ?case using "2.prems" by (simp add: map_update sum_list_update elem_le_sum_list)
  qed simp
  from this [of "T mod n" "replicate n []"] show ?thesis using n
    by (simp add: distribute_insertions_def shard_lens_start sum_list_replicate)
qed

text \<open>What the caller is told about the queries of the batch.\<close>

definition reported :: "nat \<Rightarrow> nat \<Rightarrow> ServerActor \<Rightarrow> u32 list \<Rightarrow> bool list \<Rightarrow> bool" where
  "reported T bs self merged matches \<longleftrightarrow> (let rs = filter (insertable self) [0..<bs] in
     (\<forall>k < length rs. merged ! (rs ! k) = of_nat (T + k) \<and> \<not> matches ! (rs ! k)) \<and>
     (\<forall>q < bs. \<not> insertable self q \<longrightarrow> matches ! q \<and> (global_hits self q \<noteq> {} \<longrightarrow> merged ! q = of_nat (Min (global_hits self q))) \<and>
       (merged ! q = NON_MATCH_ID \<longleftrightarrow> unmatched self q)))"

lemma insertions_reported:
  fixes self :: ServerActor
  assumes s: "searched T cap R io self" and bs: "bs \<le> max_batch_size self" "0 < bs" "bs < 2 ^ 32"
  defines "h \<equiv> map (take bs) (fetch_final_results (match_buffers (join_results io self)))" and "rs \<equiv> filter (insertable self) [0..<bs]"
  shows "\<exists>merged matches. calculate_insertion_indices (get_merged_results h (device_count self)) (distribute_insertions rs (shard_lens T (device_count self)))
      (shard_lens T (device_count self)) bs = Inr (merged, matches) \<and> reported T bs self merged matches"
proof -
  let ?n = "device_count self" and ?m = "get_merged_results h (device_count self)"
  let ?st = "(?m, replicate bs True, of_nat T) :: insertion_state"
  have n: "0 < ?n" using s by (simp add: searched_def)
  note merged = joined_merged [OF s _ bs(1), folded h_def]
  have len: "length ?m = bs" using merged [OF bs(2)] by blast
  have rs: "sorted_wrt (<) rs" "distinct rs" "\<forall>x \<in> set rs. x < bs" by (simp_all add: rs_def sorted_wrt_filter)
  have calc: "calculate_insertion_indices ?m (distribute_insertions rs (shard_lens T ?n)) (shard_lens T ?n) bs
      = Inr (fst (fold assign rs ?st), fst (snd (fold assign rs ?st)))"
    using n rs len bs(3) by (intro calculate_insertions) auto
  have "reported T bs self (fst (fold assign rs ?st)) (fst (snd (fold assign rs ?st)))"
    unfolding reported_def Let_def rs_def [symmetric]
  proof (intro conjI allI impI)
    fix k assume "k < length rs"
    from fold_assign_nth [OF rs(2) _ this, of ?st]
    show "fst (fold assign rs ?st) ! (rs ! k) = of_nat (T + k)" "\<not> fst (snd (fold assign rs ?st)) ! (rs ! k)" using rs(3) len by simp_all
  next
    fix q assume q: "q < bs" "\<not> insertable self q"
    then have "q \<notin> set rs" by (simp add: rs_def)
    from fold_assign_other [OF this, of ?st] have other: "fst (fold assign rs ?st) ! q = ?m ! q" "fst (snd (fold assign rs ?st)) ! q" using q(1) by simp_all
    show "fst (snd (fold assign rs ?st)) ! q" by (fact other(2))
    show "fst (fold assign rs ?st) ! q = of_nat (Min (global_hits self q))" if "global_hits self q \<noteq> {}"
      using merged [OF q(1)] that other(1) by simp
    show "fst (fold assign rs ?st) ! q = NON_MATCH_ID \<longleftrightarrow> unmatched self q" using merged [OF q(1)] other(1) by simp
  qed
  then show ?thesis using calc by blast
qed

lemma write_back_ok:
  fixes self :: ServerActor
  assumes s: "searched T cap R io self" and q: "insert_queries_ok (device_count self) nq r Y ql sl qr sr"
    and rs: "\<forall>x \<in> set rs. x * ROTATIONS + 15 < r" and cap: "T + length rs \<le> device_count self * cap"
  shows "\<exists>self'. write_insertions ql sl qr sr (distribute_insertions rs (shard_lens T (device_count self))) (join_results io self) = Inr self' \<and>
    current_db_sizes self' = shard_lens (T + length rs) (device_count self) \<and> actor_rows cap (rows_of (device_count self) (appended T R Y rs)) self' \<and>
    same_but_db (join_results io self) self'"
proof -
  let ?n = "device_count self" and ?self = "join_results io self"
  have n: "0 < ?n" and sizes: "current_db_sizes self = shard_lens T ?n" and rows: "actor_rows cap (rows_of ?n R) self"
    using s unfolding searched_def by blast+
  have sizes': "current_db_sizes ?self = shard_lens T ?n" and n': "device_count ?self = ?n" by (simp_all add: join_results_joined sizes)
  have "actor_rows cap (rows_of ?n R) ?self" using rows by (simp add: join_results_joined actor_rows_def)
  then have rows': "actor_rows cap (rows_of ?n (appended T R Y rs)) ?self" using sizes' appended_entries(1) by (rule actor_rows_cong)
  show ?thesis using appended_entries(2) by (intro write_insertions_ok [OF n n' sizes' rows' q rs _ cap]) blast
qed

text \<open>The end of a batch up to the insertions: the check of the size, then the writes, then the results.\<close>

lemma finish_batch_steps:
  fixes self :: ServerActor
  assumes s: "searched T cap R io self" and bs: "bs \<le> max_batch_size self" "0 < bs" "bs < 2 ^ 32" "length (request_ids batch) = bs"
  defines "rs \<equiv> filter (insertable self) [0..<bs]"
  shows "\<exists>F. (\<forall>self'. reported T bs self (res_merged_results (F self')) (res_matches (F self')) \<and> res_request_ids (F self') = request_ids batch) \<and>
    finish_batch io batch bs ql sl qr sr self =
      (if T + length rs > max_db_size self then Inr (join_results io self, Inl (Eyre ''DB size exceeded''))
       else rbind (if disable_persistence self then Inr (join_results io self)
           else write_insertions ql sl qr sr (distribute_insertions rs (shard_lens T (device_count self))) (join_results io self)) (\<lambda>self'.
         Inr (reset_matches self', Inr (F self'))))"
proof -
  let ?n = "device_count self" and ?self = "join_results io self"
  let ?h = "map (take bs) (fetch_final_results (match_buffers ?self))"
  have n: "0 < ?n" and sizes: "current_db_sizes self = shard_lens T ?n" using s unfolding searched_def by blast+
  have self: "current_db_sizes ?self = shard_lens T ?n" "device_count ?self = ?n" "max_db_size ?self = max_db_size self"
    "disable_persistence ?self = disable_persistence self" by (simp_all add: join_results_joined sizes)
  let ?left = "fetch_partial bs match_counters_left partial_results_left ?self" and ?right = "fetch_partial bs match_counters_right partial_results_right ?self"
  have cand: "insertion_candidates (get_merged_results ?h ?n) (snd ?left) (snd ?right) = rs"
    unfolding rs_def by (rule candidates_insertable [OF s bs(1,2)])
  obtain merged matches where calc: "calculate_insertion_indices (get_merged_results ?h ?n) (distribute_insertions rs (shard_lens T ?n)) (shard_lens T ?n) bs
      = Inr (merged, matches)" and rep: "reported T bs self merged matches"
    using insertions_reported [OF s bs(1-3)] unfolding rs_def by blast
  obtain ids where ids: "matched_batch_ids bs (request_ids batch) (fetch_match_ids bs ?self) = Inr ids"
    using matched_batch_ids_ok [of bs "request_ids batch"] bs(3,4) by simp
  have sums: "sum_list (shard_lens T ?n) + sum_list (map length (distribute_insertions rs (shard_lens T ?n))) = T + length rs"
    by (simp add: sum_list_shard_lens [OF n] sum_distributed [OF n])
  let ?F = "\<lambda>self'. \<lparr>res_merged_results = merged, res_request_ids = request_ids batch, res_metadata = metadata batch, res_matches = matches,
      res_match_ids = filter_match_ids (max_batch_size self') (fetch_match_ids bs ?self), res_partial_match_ids_left = fst ?left,
      res_partial_match_ids_right = fst ?right, res_store_left = store_left batch, res_store_right = store_right batch,
      res_deleted_ids = deletion_requests_indices batch, res_matched_batch_request_ids = ids\<rparr>"
  show ?thesis
  proof (intro exI [of _ ?F] conjI allI)
    show "reported T bs self (res_merged_results (?F self')) (res_matches (?F self'))" "res_request_ids (?F self') = request_ids batch" for self'
      using rep by simp_all
  qed (simp add: finish_batch_def [of io batch bs ql sl qr sr self] Let_def case_prod_unfold self cand calc ids sums)
qed

lemma insertions_in_queries:
  assumes "bs * ROTATIONS \<le> r" "x \<in> set (filter P [0..<bs])"
  shows "x * ROTATIONS + 15 < r"
proof -
  have "Suc x * ROTATIONS \<le> bs * ROTATIONS" using assms(2) by (intro mult_le_mono1) (simp add: Suc_leI)
  then show ?thesis using assms(1) by (simp add: ROTATIONS_def)
qed

lemma finish_batch_ok:
  fixes self :: ServerActor
  assumes s: "searched T cap R io self" and bs: "bs \<le> max_batch_size self" "0 < bs" "bs < 2 ^ 32" "length (request_ids batch) = bs"
    and q: "insert_queries_ok (device_count self) nq r Y ql sl qr sr" "bs * ROTATIONS \<le> r" and cap: "max_db_size self \<le> device_count self * cap"
  defines "rs \<equiv> filter (insertable self) [0..<bs]"
  shows "if T + length rs > max_db_size self then finish_batch io batch bs ql sl qr sr self = Inr (join_results io self, Inl (Eyre ''DB size exceeded''))
    else \<exists>self' res. finish_batch io batch bs ql sl qr sr self = Inr (self', Inr res) \<and>
      reported T bs self (res_merged_results res) (res_matches res) \<and> res_request_ids res = request_ids batch \<and> cleared self' \<and>
      (if disable_persistence self then current_db_sizes self' = shard_lens T (device_count self) \<and> actor_rows cap (rows_of (device_count self) R) self'
       else current_db_sizes self' = shard_lens (T + length rs) (device_count self) \<and>
         actor_rows cap (rows_of (device_count self) (appended T R Y rs)) self')"
proof -
  let ?n = "device_count self" and ?self = "join_results io self"
  have "current_db_sizes self = shard_lens T ?n" "actor_rows cap (rows_of ?n R) self" using s unfolding searched_def by blast+
  then have self: "current_db_sizes ?self = shard_lens T ?n" "actor_rows cap (rows_of ?n R) ?self" by (simp_all add: join_results_joined actor_rows_def)
  obtain F where F: "\<And>self'. reported T bs self (res_merged_results (F self')) (res_matches (F self')) \<and> res_request_ids (F self') = request_ids batch"
    and steps: "finish_batch io batch bs ql sl qr sr self =
      (if T + length rs > max_db_size self then Inr (?self, Inl (Eyre ''DB size exceeded''))
       else rbind (if disable_persistence self then Inr ?self else write_insertions ql sl qr sr (distribute_insertions rs (shard_lens T ?n)) ?self) (\<lambda>self'.
         Inr (reset_matches self', Inr (F self'))))"
    using finish_batch_steps [OF s bs, of ql sl qr sr, folded rs_def] by blast
  show ?thesis
  proof (cases "T + length rs > max_db_size self")
    case True
    then show ?thesis by (simp add: steps)
  next
    case False
    have "\<forall>x \<in> set rs. x * ROTATIONS + 15 < r" unfolding rs_def using insertions_in_queries [OF q(2)] by blast
    moreover have "T + length rs \<le> ?n * cap" using False cap by linarith
    ultimately obtain self' where w: "write_insertions ql sl qr sr (distribute_insertions rs (shard_lens T ?n)) ?self = Inr self'"
        "current_db_sizes self' = shard_lens (T + length rs) ?n" "actor_rows cap (rows_of ?n (appended T R Y rs)) self'"
      using write_back_ok [OF s q(1)] by blast
    show ?thesis
      using False F w self cleared_reset by (simp add: steps reset_matches_keeps)
  qed
qed

section \<open>Insertions beyond the allocation\<close>

text \<open>A row that is not below the capacity of the device lies outside of its allocation.\<close>

lemma write_db_slices_full:
  assumes "db_ok k cap n db" "query_ok k n nq r Y q ss" "d < n" "cap \<le> dst" "src * ROTATIONS + 15 < r" "0 < k"
  shows "write_db_slices k db q ss src dst d = Inl (Panic ''write out of bounds'')"
proof -
  have h: "holds k nq r (dev d q) 0 Y" and len: "length (limb_0 q) = n" using assms(2,3) by (simp_all add: query_ok_def)
  have "Suc (src * ROTATIONS + 15) * k \<le> nq * k" using h assms(5) by (intro mult_le_mono1) (simp add: holds_def)
  moreover have "nq * k \<le> length (limb_0 q ! d)" using h by (simp add: holds_def dev_def)
  ultimately have src: "k * 15 + src * k * ROTATIONS + k \<le> length (limb_0 q ! d)" by (simp add: algebra_simps)
  have "cap * k \<le> dst * k" using assms(4) by (rule mult_le_mono1)
  then have dst: "\<not> dst * k + k \<le> cap * k" using assms(6) by linarith
  have "length (limb_0 (code_gr db)) = n" "length (limb_0 (code_gr db) ! d) = cap * k" using assms(1,3) by (simp_all add: db_ok_def db_shape_def)
  then show ?thesis using src dst len assms(3) by (simp add: write_db_slices_def copy_device_def copy_at_def vec_index_def Let_def)
qed

lemma actor_rows_shape:
  assumes "actor_rows cap X self"
  shows "length (current_db_sizes self) = device_count self" "db_ok IRIS_CODE_LENGTH cap (device_count self) (left_code_db_slices self)"
    "d < device_count self \<Longrightarrow> current_db_sizes self ! d \<le> cap"
  using assms unfolding actor_rows_def db_rows_def by metis+

lemma insert_on_full_device:
  assumes "actor_rows cap X self" "insert_queries_ok (device_count self) nq r Y ql sl qr sr" "d < device_count self"
    and "current_db_sizes self ! d = cap" "src * ROTATIONS + 15 < r"
  shows "insert_on_device ql sl qr sr (d, src) self = Inl (Panic ''write out of bounds'')"
proof -
  have d: "d < length (current_db_sizes self)" and db: "db_ok IRIS_CODE_LENGTH cap (device_count self) (left_code_db_slices self)"
    using actor_rows_shape [OF assms(1)] assms(3) by simp_all
  have q: "query_ok IRIS_CODE_LENGTH (device_count self) nq r (q_left_codes Y) (code_query_insert ql) (code_query_insert_sums sl)"
    using assms(2) by (simp add: insert_queries_ok_def)
  have "write_db_slices IRIS_CODE_LENGTH (left_code_db_slices self) (code_query_insert ql) (code_query_insert_sums sl) src cap d
      = Inl (Panic ''write out of bounds'')"
    by (rule write_db_slices_full [OF db q assms(3) order.refl assms(5)]) (simp add: IRIS_CODE_LENGTH_def)
  then show ?thesis using d assms(4) by (simp add: insert_on_device_def write_db_at_index_def vec_index_def)
qed

text \<open>An insertion on a device with room, whatever the rows are.\<close>

lemma insert_on_device_room:
  assumes "actor_rows cap X self" "insert_queries_ok (device_count self) nq r Y ql sl qr sr" "d < device_count self"
    and "current_db_sizes self ! d < cap" "src * ROTATIONS + 15 < r"
  shows "\<exists>self' X'. insert_on_device ql sl qr sr (d, src) self = Inr self' \<and> actor_rows cap X' self' \<and> device_count self' = device_count self \<and>
    current_db_sizes self' = (current_db_sizes self)[d := current_db_sizes self ! d + 1]"
proof -
  let ?i = "current_db_sizes self ! d" and ?j = "src * ROTATIONS + 15"
  let ?X = "\<lparr>left_codes = (left_codes X)(d := (left_codes X d)(?i := q_left_codes Y ?j)), left_masks = (left_masks X)(d := (left_masks X d)(?i := q_left_masks Y ?j)),
    right_codes = (right_codes X)(d := (right_codes X d)(?i := q_right_codes Y ?j)), right_masks = (right_masks X)(d := (right_masks X d)(?i := q_right_masks Y ?j))\<rparr>"
  have "actor_rows cap ?X self" using assms(1) by (auto simp: actor_rows_def db_rows_def)
  moreover have "same_row ?X d ?i Y ?j" by (simp add: same_row_def)
  ultimately obtain self' where "insert_on_device ql sl qr sr (d, src) self = Inr self'" "actor_rows cap ?X self'" "same_but_db self self'"
      "current_db_sizes self' = (current_db_sizes self)[d := ?i + 1]"
    using insert_on_device_ok [OF _ assms(2-5)] by blast
  then show ?thesis using same_but_db_simps(1) by blast
qed

lemma insertions_overflow:
  assumes "actor_rows cap X self" "insert_queries_ok (device_count self) nq r Y ql sl qr sr" "d < device_count self"
    and "\<forall>(d', src) \<in> set ins. d' < device_count self \<and> src * ROTATIONS + 15 < r"
    and "cap < current_db_sizes self ! d + length (filter (\<lambda>p. fst p = d) ins)"
  shows "rfold (insert_on_device ql sl qr sr) ins self = Inl (Panic ''write out of bounds'')"
  using assms
proof (induction ins arbitrary: self X)
  case Nil
  then show ?case using actor_rows_shape(3) [OF Nil.prems(1,3)] by simp
next
  case (Cons p ins)
  obtain d' src where p: "p = (d', src)" by (cases p)
  then have d': "d' < device_count self" "src * ROTATIONS + 15 < r" using Cons.prems(4) by auto
  have len: "length (current_db_sizes self) = device_count self" and "current_db_sizes self ! d' \<le> cap"
    using actor_rows_shape(1,3) [OF Cons.prems(1)] d'(1) by simp_all
  then consider "current_db_sizes self ! d' = cap" | "current_db_sizes self ! d' < cap" by linarith
  then show ?case
  proof cases
    case 1
    then show ?thesis using insert_on_full_device [OF Cons.prems(1,2) d'(1) _ d'(2)] p by simp
  next
    case 2
    obtain self' X' where s': "insert_on_device ql sl qr sr (d', src) self = Inr self'" "actor_rows cap X' self'" "device_count self' = device_count self"
        "current_db_sizes self' = (current_db_sizes self)[d' := current_db_sizes self ! d' + 1]"
      using insert_on_device_room [OF Cons.prems(1,2) d'(1) 2 d'(2)] by blast
    have "rfold (insert_on_device ql sl qr sr) ins self' = Inl (Panic ''write out of bounds'')"
      using Cons.prems(2-5) s'(3,4) p len by (intro Cons.IH [OF s'(2)]) (auto simp: nth_list_update split: if_splits)
    then show ?thesis using s'(1) p by simp
  qed
qed

lemma filter_device_concat:
  "d < n \<Longrightarrow> filter (\<lambda>p. fst p = d) (concat (map (\<lambda>i. map (Pair i) (ls ! i)) [0..<n])) = map (Pair d) (ls ! d)"
proof (induction n)
  case (Suc n)
  have "filter (\<lambda>p. fst p = d) (concat (map (\<lambda>i. map (Pair i) (ls ! i)) [0..<m])) = []" if "m \<le> d" for m
    using that by (auto simp: filter_empty_conv)
  then show ?case using Suc by (cases "d = n") (auto simp: filter_map comp_def)
qed simp

lemma distributed_lists:
  assumes "0 < n" "d < n"
  shows "shard_lens T n ! d + length (distribute_insertions rs (shard_lens T n) ! d) = shard_lens (T + length rs) n ! d"
    "set (distribute_insertions rs (shard_lens T n) ! d) \<subseteq> set rs"
proof -
  obtain i where i: "i < n" "(i + T mod n) mod n = d" using device_slot [OF assms] by blast
  have l: "distribute_insertions rs (shard_lens T n) ! d = map (\<lambda>c. rs ! (c * n + i)) [0..<shard_lens (length rs) n ! i]"
    using distribute_insertions_nth [OF assms(1) i(1), of rs T] i(2) by simp
  then show "shard_lens T n ! d + length (distribute_insertions rs (shard_lens T n) ! d) = shard_lens (T + length rs) n ! d"
    using shard_grow [OF assms(1) i(1), of T "length rs"] i(2) by simp
  have "c * n + i < length rs" if "c < shard_lens (length rs) n ! i" for c using that shard_lens_nth [OF i(1)] by blast
  then show "set (distribute_insertions rs (shard_lens T n) ! d) \<subseteq> set rs" unfolding l by auto
qed

lemma write_insertions_overflow:
  assumes n: "0 < n" "device_count self = n" and sizes: "current_db_sizes self = shard_lens T n" and rows: "actor_rows cap X self"
    and q: "insert_queries_ok n nq r Y ql sl qr sr" and rs: "\<forall>x \<in> set rs. x * ROTATIONS + 15 < r" and cap: "n * cap < T + length rs"
  shows "write_insertions ql sl qr sr (distribute_insertions rs (shard_lens T n)) self = Inl (Panic ''write out of bounds'')"
proof -
  let ?ls = "distribute_insertions rs (shard_lens T n)"
  have "cap < shard_lens (T + length rs) n ! 0" using shard_lens_nth [OF n(1), of cap "T + length rs"] cap by (simp add: mult.commute)
  then have "cap < current_db_sizes self ! 0 + length (filter (\<lambda>p. fst p = 0) (concat (map (\<lambda>i. map (Pair i) (?ls ! i)) [0..<n])))"
    using distributed_lists(1) [OF n(1,1), of T rs] by (simp add: filter_device_concat [OF n(1)] sizes)
  moreover have "\<forall>(d', src) \<in> set (concat (map (\<lambda>i. map (Pair i) (?ls ! i)) [0..<n])). d' < n \<and> src * ROTATIONS + 15 < r"
    using distributed_lists(2) [OF n(1)] rs by fastforce
  ultimately show ?thesis using insertions_overflow [OF rows, of nq r Y ql sl qr sr 0] n q by (simp add: write_insertions_def)
qed

lemma finish_batch_overflow:
  fixes self :: ServerActor
  assumes s: "searched T cap R io self" and bs: "bs \<le> max_batch_size self" "0 < bs" "bs < 2 ^ 32" "length (request_ids batch) = bs"
    and q: "insert_queries_ok (device_count self) nq r Y ql sl qr sr" "bs * ROTATIONS \<le> r"
  defines "rs \<equiv> filter (insertable self) [0..<bs]"
  assumes room: "T + length rs \<le> max_db_size self" "device_count self * cap < T + length rs" "\<not> disable_persistence self"
  shows "finish_batch io batch bs ql sl qr sr self = Inl (Panic ''write out of bounds'')"
proof -
  let ?n = "device_count self" and ?self = "join_results io self"
  have n: "0 < ?n" and "current_db_sizes self = shard_lens T ?n" "actor_rows cap (rows_of ?n R) self" using s unfolding searched_def by blast+
  then have self: "device_count ?self = ?n" "current_db_sizes ?self = shard_lens T ?n" "actor_rows cap (rows_of ?n R) ?self"
    by (simp_all add: join_results_joined actor_rows_def)
  obtain F where steps: "finish_batch io batch bs ql sl qr sr self =
      (if T + length rs > max_db_size self then Inr (?self, Inl (Eyre ''DB size exceeded''))
       else rbind (if disable_persistence self then Inr ?self else write_insertions ql sl qr sr (distribute_insertions rs (shard_lens T ?n)) ?self) (\<lambda>self'.
         Inr (reset_matches self', Inr (F self'))))"
    using finish_batch_steps [OF s bs, of ql sl qr sr, folded rs_def] by blast
  have "\<forall>x \<in> set rs. x * ROTATIONS + 15 < r" unfolding rs_def using insertions_in_queries [OF q(2)] by blast
  from write_insertions_overflow [OF n self q(1) this room(2)] show ?thesis using room(1,3) by (simp add: steps)
qed

end
