(* ===== verification/ActorBatches.thy ===== *)
theory ActorBatches
  imports ServerActorCorrect
begin

text \<open>
  What the server actor promises about a batch: the deletions, the agreement on the valid entries, the
  indices of the insertions, the results reported to the caller and the database after the batch.
\<close>

section \<open>Deletions\<close>

text \<open>The rows of a database whose entry \<open>a\<close> has the row \<open>b\<close> of \<open>Y\<close>.\<close>

definition overwritten :: "nat \<Rightarrow> EntryRows \<Rightarrow> nat \<Rightarrow> EntryRows \<Rightarrow> EntryRows" where
  "overwritten a Y b R = \<lparr>q_left_codes = (q_left_codes R)(a := q_left_codes Y b), q_left_masks = (q_left_masks R)(a := q_left_masks Y b),
     q_right_codes = (q_right_codes R)(a := q_right_codes Y b), q_right_masks = (q_right_masks R)(a := q_right_masks Y b)\<rparr>"

lemma row_position: "d < n \<Longrightarrow> e < n \<Longrightarrow> i * n + d = j * n + e \<longleftrightarrow> i = j \<and> d = e" for d e n i j :: nat
  by (metis row_index)

lemma db_rows_overwrite:
  assumes rows: "db_rows k cap sizes db (\<lambda>d i. R (i * n + d))" and n: "length sizes = n" and q: "query_ok k n nq r Y q ss"
    and d: "d < n" "i < sizes ! d" and r: "15 < r"
  shows "\<exists>db'. write_db_slices k db q ss 0 i d = Inr db' \<and> db_rows k cap sizes db' (\<lambda>d' i'. (R(i * n + d := Y 15)) (i' * n + d'))"
proof -
  have ok: "db_ok k cap n db" and sizes: "\<forall>d < n. sizes ! d \<le> cap" and old: "\<forall>d < n. \<forall>i < sizes ! d. db_row k db d i (R (i * n + d))"
    using rows n by (simp_all add: db_rows_def)
  have "i < cap" using d sizes by (meson less_le_trans)
  from write_db_slices_ok [OF ok q d(1) this, of 0] r obtain db' where db': "write_db_slices k db q ss 0 i d = Inr db'" "db_ok k cap n db'"
      "db_row k db' d i (Y 15)" "\<And>d' i' f. d' < n \<Longrightarrow> i' < cap \<Longrightarrow> \<not> (d' = d \<and> i' = i) \<Longrightarrow> db_row k db d' i' f \<Longrightarrow> db_row k db' d' i' f" by auto
  have "db_row k db' d' i' ((R(i * n + d := Y 15)) (i' * n + d'))" if "d' < n" "i' < sizes ! d'" for d' i'
  proof (cases "d' = d \<and> i' = i")
    case True
    then show ?thesis using db'(3) by simp
  next
    case False
    moreover have "i' < cap" using that sizes by (meson less_le_trans)
    ultimately show ?thesis using db'(4) [of d' i'] old that d(1) by (auto simp: row_position)
  qed
  then show ?thesis using db'(1,2) sizes n by (simp add: db_rows_def)
qed

lemma rows_of_simps:
  "left_codes (rows_of n R) = (\<lambda>d i. q_left_codes R (i * n + d))" "left_masks (rows_of n R) = (\<lambda>d i. q_left_masks R (i * n + d))"
  "right_codes (rows_of n R) = (\<lambda>d i. q_right_codes R (i * n + d))" "right_masks (rows_of n R) = (\<lambda>d i. q_right_masks R (i * n + d))"
  by (simp_all add: rows_of_def)

lemma overwrite_at_index:
  assumes rows: "actor_rows cap (rows_of n R) self" and n: "device_count self = n" and q: "insert_queries_ok n nq r Y dq ds dq ds"
    and d: "d < n" "i < current_db_sizes self ! d" and r: "15 < r"
  shows "\<exists>self'. write_db_at_index dq ds dq ds 0 i d self = Inr self' \<and> actor_rows cap (rows_of n (overwritten (i * n + d) Y 15 R)) self' \<and>
    same_but_db self self' \<and> current_db_sizes self' = current_db_sizes self"
proof -
  let ?s = "current_db_sizes self"
  have len: "length ?s = n" using rows n by (simp add: actor_rows_def)
  note w = db_rows_overwrite [OF _ len _ d r]
  note q' = q [unfolded insert_queries_ok_def] and rows' = rows [unfolded actor_rows_def rows_of_simps]
  obtain lc where lc: "write_db_slices IRIS_CODE_LENGTH (left_code_db_slices self) (code_query_insert dq) (code_query_insert_sums ds) 0 i d = Inr lc"
      "db_rows IRIS_CODE_LENGTH cap ?s lc (\<lambda>d' i'. ((q_left_codes R)(i * n + d := q_left_codes Y 15)) (i' * n + d'))"
    using w q' rows' by meson
  obtain lm where lm: "write_db_slices MASK_CODE_LENGTH (left_mask_db_slices self) (mask_query_insert dq) (mask_query_insert_sums ds) 0 i d = Inr lm"
      "db_rows MASK_CODE_LENGTH cap ?s lm (\<lambda>d' i'. ((q_left_masks R)(i * n + d := q_left_masks Y 15)) (i' * n + d'))"
    using w q' rows' by meson
  obtain rc where rc: "write_db_slices IRIS_CODE_LENGTH (right_code_db_slices self) (code_query_insert dq) (code_query_insert_sums ds) 0 i d = Inr rc"
      "db_rows IRIS_CODE_LENGTH cap ?s rc (\<lambda>d' i'. ((q_right_codes R)(i * n + d := q_right_codes Y 15)) (i' * n + d'))"
    using w q' rows' by meson
  obtain rm where rm: "write_db_slices MASK_CODE_LENGTH (right_mask_db_slices self) (mask_query_insert dq) (mask_query_insert_sums ds) 0 i d = Inr rm"
      "db_rows MASK_CODE_LENGTH cap ?s rm (\<lambda>d' i'. ((q_right_masks R)(i * n + d := q_right_masks Y 15)) (i' * n + d'))"
    using w q' rows' by meson
  let ?self = "self\<lparr>left_code_db_slices := lc, left_mask_db_slices := lm, right_code_db_slices := rc, right_mask_db_slices := rm\<rparr>"
  have "actor_rows cap (rows_of n (overwritten (i * n + d) Y 15 R)) ?self"
    using lc(2) lm(2) rc(2) rm(2) len n by (simp add: actor_rows_def rows_of_simps overwritten_def del: fun_upd_apply)
  moreover have "same_but_db self ?self" unfolding same_but_db_def
    by (intro exI [of _ lc] exI [of _ lm] exI [of _ rc] exI [of _ rm] exI [of _ "current_db_sizes self"]) (cases self, simp)
  ultimately show ?thesis by (intro exI [of _ ?self]) (simp add: write_db_at_index_def lc(1) lm(1) rc(1) rm(1))
qed

lemma delete_entry_ok:
  assumes n: "0 < n" "n < 2 ^ 32" "device_count self = n" and sizes: "current_db_sizes self = shard_lens T n"
    and rows: "actor_rows cap (rows_of n R) self" and q: "insert_queries_ok n nq r Y dq ds dq ds" "15 < r"
  shows "\<exists>self'. delete_entry dq ds x self = Inr self' \<and> current_db_sizes self' = shard_lens T n \<and> same_but_db self self' \<and>
    actor_rows cap (rows_of n (if unat x < T then overwritten (unat x) Y 15 R else R)) self'"
proof -
  have un: "unat (of_nat n :: u32) = n" using n(2) by (simp add: unat_of_nat take_bit_nat_eq_self)
  then have nz: "(of_nat n :: u32) \<noteq> 0" using n(1) by auto
  let ?d = "unat x mod n" and ?i = "unat x div n"
  have idx: "unat (x mod of_nat n) = ?d" "unat (x div of_nat n) = ?i" by (simp_all add: unat_mod unat_div un)
  have d: "?d < n" using n(1) by simp
  have in_range: "?i < shard_lens T n ! ?d \<longleftrightarrow> unat x < T" using shard_lens_nth [OF d, of ?i T] by (simp add: mult.commute)
  have step: "delete_entry dq ds x self = (if ?i < shard_lens T n ! ?d then write_db_at_index dq ds dq ds 0 ?i ?d self else Inr self)"
    using nz d by (simp add: delete_entry_def n(3) idx sizes vec_index_def)
  show ?thesis
  proof (cases "unat x < T")
    case True
    from overwrite_at_index [OF rows n(3) q(1) d _ q(2)] in_range True sizes
    obtain self' where "write_db_at_index dq ds dq ds 0 ?i ?d self = Inr self'" "actor_rows cap (rows_of n (overwritten (?i * n + ?d) Y 15 R)) self'"
      "same_but_db self self'" "current_db_sizes self' = current_db_sizes self" by metis
    then show ?thesis using True in_range by (simp add: step sizes)
  next
    case False
    then show ?thesis using in_range rows sizes same_but_db_refl by (simp add: step)
  qed
qed

definition deleted_rows :: "nat \<Rightarrow> EntryRows \<Rightarrow> u32 list \<Rightarrow> EntryRows \<Rightarrow> EntryRows" where
  "deleted_rows T Y xs R = fold (\<lambda>x R. if unat x < T then overwritten (unat x) Y 15 R else R) xs R"

lemma deleted_rows_at:
  "same_entry (deleted_rows T Y xs R) a (if a < T \<and> a \<in> unat ` set xs then Y else R) (if a < T \<and> a \<in> unat ` set xs then 15 else a)"
proof (induction xs arbitrary: R)
  case (Cons x xs)
  show ?case
  proof (cases "a < T \<and> a \<in> unat ` set xs")
    case True
    then show ?thesis using Cons.IH [of "if unat x < T then overwritten (unat x) Y 15 R else R"] by (auto simp: deleted_rows_def)
  next
    case False
    have "same_entry (deleted_rows T Y (x # xs) R) a (if unat x < T then overwritten (unat x) Y 15 R else R) a"
      using Cons.IH [of "if unat x < T then overwritten (unat x) Y 15 R else R"] False by (simp add: deleted_rows_def)
    then show ?thesis using False by (auto simp: same_entry_def overwritten_def)
  qed
qed (simp add: deleted_rows_def same_entry_def)

lemma delete_entries_ok:
  assumes n: "0 < n" "n < 2 ^ 32" and q: "insert_queries_ok n nq r Y dq ds dq ds" "15 < r"
  shows "device_count self = n \<Longrightarrow> current_db_sizes self = shard_lens T n \<Longrightarrow> actor_rows cap (rows_of n R) self \<Longrightarrow>
    \<exists>self'. rfold (delete_entry dq ds) xs self = Inr self' \<and> current_db_sizes self' = shard_lens T n \<and> same_but_db self self' \<and>
      actor_rows cap (rows_of n (deleted_rows T Y xs R)) self'"
proof (induction xs arbitrary: self R)
  case Nil
  then show ?case using same_but_db_refl by (simp add: deleted_rows_def)
next
  case (Cons x xs)
  from delete_entry_ok [OF n Cons.prems q] obtain s1 where s1: "delete_entry dq ds x self = Inr s1" "current_db_sizes s1 = shard_lens T n"
      "same_but_db self s1" "actor_rows cap (rows_of n (if unat x < T then overwritten (unat x) Y 15 R else R)) s1" by blast
  have "device_count s1 = n" using s1(3) Cons.prems(1) by (auto simp: same_but_db_def)
  from Cons.IH [OF this s1(2,4)] obtain s2 where s2: "rfold (delete_entry dq ds) xs s1 = Inr s2" "current_db_sizes s2 = shard_lens T n"
      "same_but_db s1 s2" "actor_rows cap (rows_of n (deleted_rows T Y xs (if unat x < T then overwritten (unat x) Y 15 R else R))) s2" by blast
  then show ?case using s1(1) same_but_db_trans [OF s1(3) s2(3)] by (simp add: deleted_rows_def)
qed

text \<open>
  C18: Deleting entries overwrites exactly these entries. With the shares of the default iris on the devices,
  the loop over the deletion requests ends; entry \<open>a\<close> of the database then has the shares of the default iris if
  it was requested and existed, and its old shares otherwise, on the device and in the row where it was; requests beyond the
  database change nothing, and the sizes and all other state stay.
\<close>

theorem deletions_overwrite_their_entries:
  assumes "0 < n" "n < 2 ^ 32" "device_count self = n" "current_db_sizes self = shard_lens T n" "actor_rows cap (rows_of n R) self"
    and "insert_queries_ok n nq r Y dq ds dq ds" "15 < r"
  shows "\<exists>self' R'. rfold (delete_entry dq ds) indices self = Inr self' \<and> same_but_db self self' \<and>
    current_db_sizes self' = shard_lens T n \<and> actor_rows cap (rows_of n R') self' \<and>
    (\<forall>a < T. if a \<in> unat ` set indices then same_entry R' a Y 15 else same_entry R' a R a)"
proof -
  obtain self' where "rfold (delete_entry dq ds) indices self = Inr self'" "current_db_sizes self' = shard_lens T n" "same_but_db self self'"
      "actor_rows cap (rows_of n (deleted_rows T Y indices R)) self'"
    using delete_entries_ok [OF assms(1,2,6,7,3-5)] by blast
  moreover have "if a \<in> unat ` set indices then same_entry (deleted_rows T Y indices R) a Y 15 else same_entry (deleted_rows T Y indices R) a R a"
    if "a < T" for a using deleted_rows_at [of T Y indices R a] that by (cases "a \<in> unat ` set indices") simp_all
  ultimately show ?thesis by blast
qed

text \<open>An actor with two devices, for the witnesses: every coefficient of a row is the same.\<close>

definition row_limbs :: "nat \<Rightarrow> nat \<Rightarrow> u16 \<Rightarrow> i8 CudaVec2DSlicer" where
  "row_limbs n len c = \<lparr>limb_0 = replicate n (replicate len (lo8 c)), limb_1 = replicate n (replicate len (hi8 c))\<rparr>"

definition row_limb_sums :: "nat \<Rightarrow> nat \<Rightarrow> nat \<Rightarrow> u16 \<Rightarrow> u32 CudaVec2DSlicer" where
  "row_limb_sums n k len c = \<lparr>limb_0 = replicate n (replicate len (\<Sum>l<k. scast (lo8 c))), limb_1 = replicate n (replicate len (\<Sum>l<k. scast (hi8 c)))\<rparr>"

definition constant_rows :: "u16 \<Rightarrow> EntryRows" where
  "constant_rows c = \<lparr>q_left_codes = \<lambda>_ _. c, q_left_masks = \<lambda>_ _. c, q_right_codes = \<lambda>_ _. c, q_right_masks = \<lambda>_ _. c\<rparr>"

definition demo_slices :: "nat \<Rightarrow> SlicedProcessedDatabase" where
  "demo_slices k = \<lparr>code_gr = row_limbs 2 (2 * k) 0, code_sums_gr = row_limb_sums 2 k 2 0\<rparr>"

definition demo_query :: DeviceCompactQuery where
  "demo_query = (let c = row_limbs 2 (2 * ROTATIONS * IRIS_CODE_LENGTH) 7; m = row_limbs 2 (2 * ROTATIONS * MASK_CODE_LENGTH) 7
     in \<lparr>code_query = c, mask_query = m, code_query_insert = c, mask_query_insert = m\<rparr>)"

definition demo_query_sums :: DeviceCompactSums where
  "demo_query_sums = (let c = row_limb_sums 2 IRIS_CODE_LENGTH (2 * ROTATIONS) 7; m = row_limb_sums 2 MASK_CODE_LENGTH (2 * ROTATIONS) 7
     in \<lparr>code_query_sums = c, mask_query_sums = m, code_query_insert_sums = c, mask_query_insert_sums = m\<rparr>)"

definition demo_engine :: "nat \<Rightarrow> ShareDB" where
  "demo_engine k = \<lparr>peer_id = 0, is_remote = True, query_length = 2 * ROTATIONS, code_length = k, engines = []\<rparr>"

definition demo_actor :: "nat list \<Rightarrow> ServerActor" where
  "demo_actor sizes = \<lparr>actor_party_id = 0, device_count = 2, codes_engine = demo_engine IRIS_CODE_LENGTH, masks_engine = demo_engine MASK_CODE_LENGTH,
     batch_codes_engine = demo_engine IRIS_CODE_LENGTH, batch_masks_engine = demo_engine MASK_CODE_LENGTH,
     left_code_db_slices = demo_slices IRIS_CODE_LENGTH, left_mask_db_slices = demo_slices MASK_CODE_LENGTH,
     right_code_db_slices = demo_slices IRIS_CODE_LENGTH, right_mask_db_slices = demo_slices MASK_CODE_LENGTH,
     match_buffers = replicate 2 (demo_buffers 2), db_match_list_left = [[1], [0]], db_match_list_right = [[1], [0]],
     batch_match_list_left = [[0, 0], [0, 0]], batch_match_list_right = [[0, 0], [0, 0]], current_db_sizes = sizes,
     query_db_size = [2 * ROTATIONS, 2 * ROTATIONS], max_batch_size = 2, max_db_size = 4, return_partial_results = True, disable_persistence = False,
     code_chunk_buffers = replicate 2 (row_limbs 2 (2 * IRIS_CODE_LENGTH) 0), mask_chunk_buffers = replicate 2 (row_limbs 2 (2 * MASK_CODE_LENGTH) 0)\<rparr>"

lemma query_ok_constant: "r \<le> nq \<Longrightarrow> query_ok k n nq r (\<lambda>_ _. c) (row_limbs n (nq * k) c) (row_limb_sums n k r c)"
proof -
  assume r: "r \<le> nq"
  have "i * k + l < nq * k" if "i < r" "l < k" for i l using pair_index [OF that(2), of i nq] that(1) r by (simp add: mult.commute)
  then show ?thesis using r by (simp add: query_ok_def row_limbs_def row_limb_sums_def dev_def holds_def sums_hold_def)
qed

lemma demo_queries_ok: "insert_queries_ok 2 (2 * ROTATIONS) (2 * ROTATIONS) (constant_rows 7) demo_query demo_query_sums demo_query demo_query_sums"
  using query_ok_constant [of "2 * ROTATIONS" "2 * ROTATIONS"]
  by (simp add: insert_queries_ok_def demo_query_def demo_query_sums_def constant_rows_def Let_def)

lemma db_rows_constant:
  assumes "\<forall>d < 2. sizes ! d \<le> 2" "length sizes = 2"
  shows "db_rows k 2 sizes (demo_slices k) (\<lambda>_ _ _. 0)"
proof -
  have "i * k + l < 2 * k" if "i < sizes ! d" "d < 2" "l < k" for d i l
    using pair_index [OF that(3), of i 2] that(1,2) assms(1) by (simp add: mult.commute less_le_trans)
  then show ?thesis using assms
    by (simp add: db_rows_def db_ok_def db_shape_def db_row_def demo_slices_def row_limbs_def row_limb_sums_def less_le_trans)
qed

lemma demo_actor_rows: "\<forall>d < 2. sizes ! d \<le> 2 \<Longrightarrow> length sizes = 2 \<Longrightarrow> actor_rows 2 (rows_of 2 (constant_rows 0)) (demo_actor sizes)"
  using db_rows_constant by (simp add: actor_rows_def rows_of_simps constant_rows_def demo_actor_def)

lemma demo_shards: "shard_lens 3 2 = [2, 1]" "shard_lens 2 2 = [1, 1]" "shard_lens 1 2 = [1, 0]"
  by (code_simp)+

theorem deletions_overwrite_their_entries_witness:
  "\<exists>self' R'. rfold (delete_entry demo_query demo_query_sums) [1, 9] (demo_actor [2, 1]) = Inr self' \<and> same_but_db (demo_actor [2, 1]) self' \<and>
    current_db_sizes self' = [2, 1] \<and> actor_rows 2 (rows_of 2 R') self' \<and>
    (\<forall>a < 3. if a \<in> unat ` set [1 :: u32, 9] then same_entry R' a (constant_rows 7) 15 else same_entry R' a (constant_rows 0) a)"
  by (rule deletions_overwrite_their_entries [OF _ _ _ _ demo_actor_rows demo_queries_ok, where T = 3, unfolded demo_shards])
    (simp_all add: demo_actor_def ROTATIONS_def less_2_cases_iff)

section \<open>Agreement and insertions\<close>

text \<open>
  C20: All parties keep the same entries of a batch. When the exchange gives every party the flags of the three
  parties, one after the other, an entry is kept if and only if all three parties have it as valid, whatever
  the own flags are.
\<close>

theorem valid_entries_agreed:
  assumes "all_gather (map of_bool valid) = map of_bool (v0 @ v1 @ v2)" "length v0 = m" "length v1 = m" "length v2 = m" "0 < m"
  shows "sync_batch_entries all_gather valid = Inr (map (\<lambda>i. v0 ! i \<and> v1 ! i \<and> v2 ! i) [0..<m])"
proof -
  let ?b = "map of_bool :: bool list \<Rightarrow> u8 list"
  have blocks: "all_gather (map of_bool valid) = concat [?b v0, ?b v1, ?b v2]" using assms(1) by simp
  have exact: "chunks_exact m (concat [?b v0, ?b v1, ?b v2]) = [?b v0, ?b v1, ?b v2]"
    using assms by (intro chunks_exact_concat) auto
  have len: "length (concat [?b v0, ?b v1, ?b v2]) div 3 = m" using assms by simp
  have "rmap (\<lambda>i. rbind (vec_index (?b v1) i) (\<lambda>b. rbind (vec_index (?b v2) i) (\<lambda>c. Inr (list_all (\<lambda>x. x = 1) [?b v0 ! i, b, c])))) [0..<m]
      = Inr (map (\<lambda>i. v0 ! i \<and> v1 ! i \<and> v2 ! i) [0..<m])"
    using assms by (intro rmap_Inr) (simp add: vec_index_def)
  then show ?thesis unfolding sync_batch_entries_def Let_def blocks len exact using assms(2,5) by (simp add: vec_index_def)
qed

theorem valid_entries_agreed_witness:
  "sync_batch_entries (\<lambda>own. [1, 1, 0] @ own @ [0, 1, 1]) [True, True, True] = Inr [False, True, False]"
proof -
  have "map (\<lambda>i. [True, True, False] ! i \<and> [True, True, True] ! i \<and> [False, True, True] ! i) [0..<3] = [False, True, False]" by code_simp
  then show ?thesis
    using valid_entries_agreed [of "\<lambda>own. [1, 1, 0] @ own @ [0, 1, 1]" "[True, True, True]" "[True, True, False]" "[True, True, True]" "[False, True, True]" 3] by simp
qed

text \<open>
  C17: Insertions keep the database balanced and get consecutive indices. For \<open>n\<close> devices with balanced shards
  of \<open>T\<close> entries, query number \<open>k\<close> of the insertions is reported as index \<open>T + k\<close> and as not matching, and it is the
  entry that device \<open>(T + k) mod n\<close> appends in row \<open>(T + k) div n\<close>, so that index and place agree; every
  other query keeps its result.
\<close>

theorem insertion_indices_are_positions:
  assumes "0 < n" "sorted_wrt (<) rs" "\<forall>x \<in> set rs. x < bs" "length merged = bs" "bs < 2 ^ 64"
  shows "let ls = distribute_insertions rs (shard_lens T n) in \<exists>merged' matches.
    calculate_insertion_indices merged ls (shard_lens T n) bs = Inr (merged', matches) \<and>
    (\<forall>k < length rs. merged' ! (rs ! k) = of_nat (T + k) \<and> \<not> matches ! (rs ! k) \<and>
       (\<exists>j < length (ls ! ((T + k) mod n)). ls ! ((T + k) mod n) ! j = rs ! k \<and> shard_lens T n ! ((T + k) mod n) + j = (T + k) div n)) \<and>
    (\<forall>q < bs. q \<notin> set rs \<longrightarrow> merged' ! q = merged ! q \<and> matches ! q)"
proof -
  let ?ls = "distribute_insertions rs (shard_lens T n)" and ?st = "(merged, replicate bs True, of_nat T) :: insertion_state"
  let ?res = "fold assign rs ?st"
  have calc: "calculate_insertion_indices merged ?ls (shard_lens T n) bs = Inr (fst ?res, fst (snd ?res))" by (rule calculate_insertions [OF assms])
  have dist: "distinct rs" using assms(2) by (simp add: strict_sorted_iff)
  have place: "\<exists>j < length (?ls ! ((T + k) mod n)). ?ls ! ((T + k) mod n) ! j = rs ! k \<and> shard_lens T n ! ((T + k) mod n) + j = (T + k) div n"
    if k: "k < length rs" for k
  proof -
    let ?i = "k mod n" and ?j = "k div n"
    have i: "?i < n" using assms(1) by simp
    have d: "(?i + T mod n) mod n = (T + k) mod n" by (simp add: mod_add_eq add.commute)
    have j: "?j < shard_lens (length rs) n ! ?i" using shard_lens_nth [OF i] k by (simp add: mult.commute)
    have "(shard_lens T n ! ((T + k) mod n) + ?j) * n + (T + k) mod n = T + k"
      using shard_next [OF assms(1) i, of T] unfolding d by (simp add: algebra_simps)
    then have "shard_lens T n ! ((T + k) mod n) + ?j = (T + k) div n" by (metis add_diff_cancel_right' assms(1) minus_mod_eq_div_mult mult_right_cancel not_gr_zero)
    then show ?thesis using distribute_insertions_nth [OF assms(1) i, of rs T] j unfolding d by (intro exI [of _ ?j]) simp
  qed
  have new: "fst ?res ! (rs ! k) = of_nat (T + k) \<and> \<not> fst (snd ?res) ! (rs ! k)" if "k < length rs" for k
    using fold_assign_nth [OF dist _ that, of ?st] assms(3,4) by simp
  have old: "fst ?res ! q = merged ! q \<and> fst (snd ?res) ! q" if "q < bs" "q \<notin> set rs" for q
    using fold_assign_other [OF that(2), of ?st] that(1) by simp
  show ?thesis unfolding Let_def using calc place new old by blast
qed

theorem insertion_indices_are_positions_witness:
  "\<exists>merged' matches. calculate_insertion_indices [- 1, 5, - 1, - 1] (distribute_insertions [0, 2, 3] (shard_lens 3 2)) (shard_lens 3 2) 4 = Inr (merged', matches) \<and>
     merged' ! 0 = 3 \<and> merged' ! 2 = 4 \<and> merged' ! 3 = 5 \<and> merged' ! 1 = 5 \<and> matches ! 1 \<and> \<not> matches ! 3"
proof -
  obtain merged' matches where *: "calculate_insertion_indices [- 1, 5, - 1, - 1] (distribute_insertions [0, 2, 3] (shard_lens 3 2)) (shard_lens 3 2) 4 = Inr (merged', matches)"
      "\<forall>k < length [0, 2, 3 :: nat]. merged' ! ([0, 2, 3] ! k) = of_nat (3 + k) \<and> \<not> matches ! ([0, 2, 3] ! k)"
      "\<forall>q < 4. q \<notin> set [0, 2, 3] \<longrightarrow> merged' ! q = [- 1, 5, - 1, - 1] ! q \<and> matches ! q"
    using insertion_indices_are_positions [of 2 "[0, 2, 3]" 4 "[- 1, 5, - 1, - 1]" 3] by (auto simp: Let_def)
  from *(2) [rule_format, of 0] *(2) [rule_format, of 1] *(2) [rule_format, of 2] *(3) [rule_format, of 1] *(1) show ?thesis by auto
qed

section \<open>The end of a batch\<close>

text \<open>
  C3: A batch ends with every query either matched or inserted, never both, and with the database that this
  describes. A query is inserted when no entry of the database and no earlier query of the batch
  matches in both eyes, and neither eye alone has more than the supermatch threshold of matches. The devices
  have room for the maximal size of the database.
  If the insertions do not fit, the batch ends with the error and nothing is written. Otherwise the
  inserted queries are reported with the consecutive indices after the last entry, the other queries with the least
  matching entry; the entries of the database keep their shares, and entry \<open>T + k\<close> has the shares of the middle rotation of
  inserted query \<open>k\<close>, in both eyes, with their sums; without persistence the database stays. The bitmaps
  and counters are cleared for the next batch.
\<close>

theorem batch_end_correct:
  fixes self :: ServerActor
  assumes "searched T cap R io self" "bs \<le> max_batch_size self" "0 < bs" "bs < 2 ^ 32" "length (request_ids batch) = bs"
    and "insert_queries_ok (device_count self) nq r Y ql sl qr sr" "bs * ROTATIONS \<le> r" "max_db_size self \<le> device_count self * cap"
  shows "let rs = filter (insertable self) [0..<bs] in
    if T + length rs > max_db_size self then finish_batch io batch bs ql sl qr sr self = Inr (join_results io self, Inl (Eyre ''DB size exceeded''))
    else \<exists>self' res. finish_batch io batch bs ql sl qr sr self = Inr (self', Inr res) \<and>
      reported T bs self (res_merged_results res) (res_matches res) \<and> res_request_ids res = request_ids batch \<and> cleared self' \<and>
      (if disable_persistence self then current_db_sizes self' = shard_lens T (device_count self) \<and> actor_rows cap (rows_of (device_count self) R) self'
       else current_db_sizes self' = shard_lens (T + length rs) (device_count self) \<and>
         actor_rows cap (rows_of (device_count self) (appended T R Y rs)) self')"
  unfolding Let_def using assms by (rule finish_batch_ok)

definition demo_search_io :: SearchIO where
  "demo_search_io = \<lparr>gemm_fn = gemm_ref, batch_code_recv = [], batch_mask_recv = [], batch_threshold = (\<lambda>_ _. []), batch_open_recv = [], batch_sched = [],
     code_recv = (\<lambda>_. []), mask_recv = (\<lambda>_. []), threshold = (\<lambda>_ _ _. []), open_recv = (\<lambda>_. []), chunk_sched = (\<lambda>_. [])\<rparr>"

definition demo_io :: BatchIO where
  "demo_io = \<lparr>left_io = demo_search_io, right_io = demo_search_io, query_mem = (\<lambda>_ n. replicate n 0), sums_mem = (\<lambda>n. replicate n 0), gather = (\<lambda>x. x @ x @ x),
     db_merge_sched = replicate 2 (in_order 2), batch_merge_sched = replicate 2 (in_order (2 * ROTATIONS * 2))\<rparr>"

lemma demo_actor_searched: "searched 1 2 (constant_rows 0) demo_io (demo_actor [1, 0])"
proof -
  have sizes: "[1, 0] ! d = 0 \<or> div_ceil ([1, 0] ! d * 2) 64 = div_ceil 2 64" if "d < 2" for d :: nat using that by (auto simp: less_2_cases_iff)
  have small: "[1, 0] ! d * 2 + 2 * ROTATIONS * 2 + 128 \<le> 2 ^ 32" if "d < 2" for d :: nat using that by (auto simp: less_2_cases_iff ROTATIONS_def)
  have "joins_ok 2 [1, 0] (replicate 2 (in_order 2)) (replicate 2 (in_order (2 * ROTATIONS * 2))) (replicate 2 (demo_buffers 2))"
    unfolding joins_ok_def using sizes small fresh_demo schedule_in_order by (metis length_replicate nth_replicate)
  moreover have "actor_rows 2 (rows_of 2 (constant_rows 0)) (demo_actor [1, 0])" by (rule demo_actor_rows) (auto simp: less_2_cases_iff)
  ultimately show ?thesis by (simp add: searched_def demo_actor_def demo_io_def demo_shards demo_shards(3) [simplified])
qed

definition demo_one :: ServerActor where
  "demo_one = demo_actor [1, 0]"

lemma demo_one_simps [simp]:
  "device_count demo_one = 2" "max_batch_size demo_one = 2" "max_db_size demo_one = 4" "disable_persistence demo_one = False"
  "current_db_sizes demo_one = [1, 0]" "db_match_list_left demo_one = [[1], [0]]" "db_match_list_right demo_one = [[1], [0]]"
  "batch_match_list_left demo_one = [[0, 0], [0, 0]]" "batch_match_list_right demo_one = [[0, 0], [0, 0]]"
  by (simp_all add: demo_one_def demo_actor_def)

lemma demo_device_hits: "device_hits demo_one 0 0 = {0}" "device_hits demo_one (Suc 0) 0 = {}" "device_hits demo_one q (Suc 0) = {}"
  by (auto simp: device_hits_def db_hits_def bitmap_def)

lemma demo_global_hits: "global_hits demo_one 0 = {0}" "global_hits demo_one (Suc 0) = {}"
proof -
  have "global_hits demo_one q = {e * 2 | e. e \<in> device_hits demo_one q 0}" for q
  proof -
    have "d = 0 \<and> e \<in> device_hits demo_one q 0" if "d < 2" "e \<in> device_hits demo_one q d" for d e
      using that demo_device_hits(3) by (cases d) (auto simp: less_Suc_eq numeral_2_eq_2)
    then have "{e * 2 + d | d e. d < 2 \<and> e \<in> device_hits demo_one q d} = {e * 2 + d | d e. d = 0 \<and> e \<in> device_hits demo_one q 0}"
      by (intro Collect_cong) (metis zero_less_numeral)
    then show ?thesis unfolding global_hits_def demo_one_simps by simp
  qed
  then show "global_hits demo_one 0 = {0}" "global_hits demo_one (Suc 0) = {}" by (simp_all add: demo_device_hits)
qed

lemma demo_eye_matches: "eye_matches bm demo_one q \<le> 1"
proof -
  have "card {e. e < Suc 0 \<and> P e} \<le> 1" for P using card_mono [of "{..<Suc 0}" "{e. e < Suc 0 \<and> P e}"] by auto
  moreover have "[0..<2] = [0, Suc 0]" by (simp add: upt_rec)
  ultimately show ?thesis by (simp add: eye_matches_def)
qed

lemma demo_insertable: "filter (insertable demo_one) [0..<2] = [1]" "\<not> insertable demo_one 0"
proof -
  have "unmatched demo_one (Suc 0)" using demo_hits(2) by (auto simp: unmatched_def demo_global_hits less_2_cases_iff)
  moreover have "eye_matches bm demo_one q \<le> SUPERMATCH_THRESHOLD" for bm q
    using demo_eye_matches [of bm q] by (simp add: SUPERMATCH_THRESHOLD_def)
  ultimately have "insertable demo_one (Suc 0)" by (simp add: insertable_def)
  moreover show "\<not> insertable demo_one 0" by (simp add: insertable_def unmatched_def demo_global_hits)
  moreover have "[0..<2] = [0, Suc 0]" by (simp add: upt_rec)
  ultimately show "filter (insertable demo_one) [0..<2] = [1]" by simp
qed

theorem batch_end_correct_witness:
  "\<exists>self' res. finish_batch demo_io (demo_batch [''a'', ''b'']) 2 demo_query demo_query_sums demo_query demo_query_sums demo_one
      = Inr (self', Inr res) \<and>
    res_merged_results res ! 0 = 0 \<and> res_merged_results res ! 1 = 1 \<and> res_matches res ! 0 \<and> \<not> res_matches res ! 1 \<and>
    current_db_sizes self' = [1, 1] \<and> actor_rows 2 (rows_of 2 (appended 1 (constant_rows 0) (constant_rows 7) [1])) self'"
proof -
  have ids: "length (request_ids (demo_batch [''a'', ''b''])) = 2" by (simp add: demo_batch_def Let_def)
  have fits: "2 \<le> max_batch_size demo_one" "(0 :: nat) < 2" "(2 :: nat) < 2 ^ 32" "max_db_size demo_one \<le> device_count demo_one * 2" by simp_all
  have q: "insert_queries_ok (device_count demo_one) (2 * ROTATIONS) (2 * ROTATIONS) (constant_rows 7) demo_query demo_query_sums demo_query demo_query_sums"
    using demo_queries_ok by simp
  note ok = batch_end_correct [OF demo_actor_searched [folded demo_one_def] fits(1-3) ids q order.refl fits(4)]
  obtain self' res where *: "finish_batch demo_io (demo_batch [''a'', ''b'']) 2 demo_query demo_query_sums demo_query demo_query_sums demo_one = Inr (self', Inr res)"
      "reported 1 2 demo_one (res_merged_results res) (res_matches res)" "current_db_sizes self' = shard_lens (1 + length [1 :: nat]) 2"
      "actor_rows 2 (rows_of 2 (appended 1 (constant_rows 0) (constant_rows 7) [1])) self'"
    using ok [unfolded Let_def demo_insertable(1)] by auto
  from *(2) have "res_merged_results res ! 1 = 1" "\<not> res_matches res ! 1" unfolding reported_def demo_insertable(1) Let_def by simp_all
  moreover have "res_matches res ! 0" "res_merged_results res ! 0 = 0"
    using *(2) demo_insertable(2) unfolding reported_def Let_def by (simp_all add: demo_global_hits)
  ultimately show ?thesis using *(1,3,4) demo_shards(2) by (auto simp: numeral_2_eq_2)
qed

lemma alloc_db_ok: "\<forall>m. length (mem m) = m \<Longrightarrow> db_ok k (max_len div n) n (alloc_db k n mem max_len)"
  by (simp add: db_ok_def db_shape_def alloc_db_def Let_def)

text \<open>
  C22: The check of the database size does not protect the memory of the devices. \<open>alloc_db\<close> gives every device room for
  \<open>max_db_size div n\<close> entries, rounded down. Whenever the entries after a batch are at most \<open>max_db_size\<close> but
  more than the devices have room for together, the batch passes the check, and the end of the batch panics because a write lies
  outside of the allocation.
\<close>

theorem size_check_exceeds_capacity:
  fixes self :: ServerActor
  defines "cap \<equiv> max_db_size self div device_count self"
  assumes "searched T cap R io self" "bs \<le> max_batch_size self" "0 < bs" "bs < 2 ^ 32" "length (request_ids batch) = bs"
    and "insert_queries_ok (device_count self) nq r Y ql sl qr sr" "bs * ROTATIONS \<le> r" "\<not> disable_persistence self"
    and "T + length (filter (insertable self) [0..<bs]) \<le> max_db_size self" "device_count self * cap < T + length (filter (insertable self) [0..<bs])"
  shows "finish_batch io batch bs ql sl qr sr self = Inl (Panic ''write out of bounds'') \<and>
    (\<forall>k mem. (\<forall>m. length (mem m) = m) \<longrightarrow> db_ok k cap (device_count self) (alloc_db k (device_count self) mem (max_db_size self)))"
proof
  show "finish_batch io batch bs ql sl qr sr self = Inl (Panic ''write out of bounds'')"
    by (rule finish_batch_overflow [OF assms(2-8,10,11,9)])
  show "\<forall>k mem. (\<forall>m. length (mem m) = m) \<longrightarrow> db_ok k cap (device_count self) (alloc_db k (device_count self) mem (max_db_size self))"
    unfolding cap_def using alloc_db_ok by blast
qed

definition demo_full :: ServerActor where
  "demo_full = (demo_actor [2, 2])\<lparr>max_db_size := 5, db_match_list_left := [[0], [0]], db_match_list_right := [[0], [0]]\<rparr>"

definition full_io :: BatchIO where
  "full_io = demo_io\<lparr>db_merge_sched := replicate 2 (in_order (2 * 2))\<rparr>"

lemma demo_full_searched: "searched 4 2 (constant_rows 0) full_io demo_full"
proof -
  have sizes: "[2, 2] ! d = (2 :: nat)" if "d < 2" for d using that by (auto simp: less_2_cases_iff)
  have small: "2 * 2 + 2 * ROTATIONS * 2 + 128 \<le> 2 ^ 32" by (simp add: ROTATIONS_def)
  have "joins_ok 2 [2, 2] (replicate 2 (in_order (2 * 2))) (replicate 2 (in_order (2 * ROTATIONS * 2))) (replicate 2 (demo_buffers 2))"
    unfolding joins_ok_def
  proof (intro allI impI)
    fix d assume "d < length (replicate 2 (demo_buffers 2))"
    then have d: "d < 2" by simp
    show "fresh_buffers 2 (replicate 2 (demo_buffers 2) ! d) \<and>
      ([2, 2] ! d = 0 \<or> schedule (div_ceil ([2, 2] ! d * 2) 64) (replicate 2 (in_order (2 * 2)) ! d)) \<and>
      schedule (div_ceil (2 * ROTATIONS * 2) 64) (replicate 2 (in_order (2 * ROTATIONS * 2)) ! d) \<and> [2, 2] ! d * 2 + 2 * ROTATIONS * 2 + 128 \<le> 2 ^ 32"
      unfolding sizes [OF d] nth_replicate [OF d] by (intro conjI disjI2 fresh_demo schedule_in_order small)
  qed
  moreover have "actor_rows 2 (rows_of 2 (constant_rows 0)) (demo_actor [2, 2])" by (rule demo_actor_rows) (auto simp: less_2_cases_iff)
  then have "actor_rows 2 (rows_of 2 (constant_rows 0)) demo_full" by (simp add: demo_full_def actor_rows_def)
  moreover have "shard_lens 4 2 = [2, 2]" by code_simp
  ultimately show ?thesis by (simp add: searched_def demo_full_def demo_actor_def full_io_def demo_io_def)
qed

lemma demo_full_insertable: "filter (insertable demo_full) [0..<1] = [0]"
proof -
  have none: "device_hits demo_full 0 d = {}" "batch_hits ([[0, 0], [0, 0]] ! d) ([[0, 0], [0, 0]] ! d) 2 0 = {}" if "d < 2" for d
    using that by (auto simp: less_2_cases_iff device_hits_def db_hits_def batch_hits_def bitmap_def demo_full_def demo_actor_def)
  have "eye_matches [[0], [0]] demo_full 0 = 0"
  proof -
    have "\<not> bitmap [0] e" if "e < Suc (Suc 0)" for e using that by (simp add: bitmap_def)
    then show ?thesis by (simp add: eye_matches_def demo_full_def demo_actor_def numeral_2_eq_2)
  qed
  then have "insertable demo_full 0"
    using none by (auto simp: insertable_def unmatched_def global_hits_def SUPERMATCH_THRESHOLD_def demo_full_def demo_actor_def)
  then show ?thesis by simp
qed

theorem size_check_exceeds_capacity_witness:
  "finish_batch full_io (demo_batch [''a'']) 1 demo_query demo_query_sums demo_query demo_query_sums demo_full = Inl (Panic ''write out of bounds'')"
proof -
  have self: "(5 :: nat) div 2 = 2" "device_count demo_full = 2" "max_db_size demo_full = 5" "max_batch_size demo_full = 2"
    "\<not> disable_persistence demo_full" by (simp_all add: demo_full_def demo_actor_def)
  have "length (request_ids (demo_batch [''a''])) = 1" by (simp add: demo_batch_def Let_def)
  then show ?thesis
    using size_check_exceeds_capacity [of 4 demo_full "constant_rows 0" full_io 1, unfolded self(2-4) self(1) demo_full_insertable,
        OF demo_full_searched _ _ _ _ demo_queries_ok] self(5) by (simp add: ROTATIONS_def)
qed

end
