(* ===== verification/Circuits.thy ===== *)
theory Circuits
  imports ShareDb BitTranspose Network
begin

text \<open>
  The threshold circuits of the GPU protocol (\<open>iris-mpc-gpu/src/threshold_ring/protocol.rs\<close> with its
  kernels in \<open>cuda/kernel.cu\<close>): from shares of dot products modulo $2^{16}$ to shared bits that tell
  which pairs match. A kernel computes every element of its outputs from its inputs. The loops over
  the devices are programs over lists with one element per device; a group of NCCL calls sends one
  message with the buffers of all devices. The work buffers are written before they are read, so only
  the buffer that holds the result is kept in the state.
\<close>

section \<open>Shares in device memory\<close>

record 'a ChunkShare =
  ck_a :: "'a list"
  ck_b :: "'a list"

definition view_slice :: "nat \<Rightarrow> nat \<Rightarrow> 'a list \<Rightarrow> 'a list result" where
  "view_slice start stop xs =
     (if start \<le> stop \<and> stop \<le> length xs then Inr (take (stop - start) (drop start xs))
      else Inl (Panic ''called `Option::unwrap()` on a `None` value''))"

definition get_range :: "nat \<Rightarrow> nat \<Rightarrow> 'a ChunkShare \<Rightarrow> 'a ChunkShare result" where
  "get_range start stop self =
     rbind (view_slice start stop (ck_a self)) (\<lambda>a.
     rbind (view_slice start stop (ck_b self)) (\<lambda>b. Inr \<lparr>ck_a = a, ck_b = b\<rparr>))"

definition get_offset :: "nat \<Rightarrow> nat \<Rightarrow> 'a ChunkShare \<Rightarrow> 'a ChunkShare result" where
  "get_offset i chunk_size self = get_range (i * chunk_size) ((i + 1) * chunk_size) self"

definition ck_len :: "'a ChunkShare \<Rightarrow> nat result" where
  "ck_len self =
     (if length (ck_a self) \<noteq> length (ck_b self) then Inl (Panic ''assertion failed: a.len() == b.len()'')
      else Inr (length (ck_a self)))"

definition ck_is_empty :: "'a ChunkShare \<Rightarrow> bool result" where
  "ck_is_empty self =
     (if (ck_a self = []) \<noteq> (ck_b self = []) then Inl (Panic ''assertion failed: a.is_empty() == b.is_empty()'')
      else Inr (ck_a self = []))"

section \<open>Kernels\<close>

text \<open>Element-wise kernels on the first \<open>n\<close> elements.\<close>

definition elementwise :: "('a \<Rightarrow> 'b \<Rightarrow> 'c) \<Rightarrow> nat \<Rightarrow> 'a list \<Rightarrow> 'b list \<Rightarrow> 'c list" where
  "elementwise f n xs ys = map (\<lambda>i. f (xs ! i) (ys ! i)) [0..<n]"

definition xor_assign :: "'a::len word list \<Rightarrow> 'a word list \<Rightarrow> nat \<Rightarrow> 'a word list" where
  "xor_assign lhs rhs n = elementwise (XOR) n lhs rhs @ drop n lhs"

definition shared_xor :: "u64 ChunkShare \<Rightarrow> u64 ChunkShare \<Rightarrow> nat \<Rightarrow> u64 ChunkShare" where
  "shared_xor lhs rhs n =
     \<lparr>ck_a = elementwise (XOR) n (ck_a lhs) (ck_a rhs), ck_b = elementwise (XOR) n (ck_b lhs) (ck_b rhs)\<rparr>"

definition shared_xor_assign :: "u64 ChunkShare \<Rightarrow> u64 ChunkShare \<Rightarrow> nat \<Rightarrow> u64 ChunkShare" where
  "shared_xor_assign lhs rhs n =
     \<lparr>ck_a = xor_assign (ck_a lhs) (ck_a rhs) n, ck_b = xor_assign (ck_b lhs) (ck_b rhs) n\<rparr>"

definition and_pre_inner :: "u64 \<Rightarrow> u64 \<Rightarrow> u64 \<Rightarrow> u64 \<Rightarrow> u64 \<Rightarrow> u64" where
  "and_pre_inner lhs_a lhs_b rhs_a rhs_b r = (lhs_a AND rhs_a) XOR (lhs_b AND rhs_a) XOR (lhs_a AND rhs_b) XOR r"

definition shared_and_pre :: "u64 ChunkShare \<Rightarrow> u64 ChunkShare \<Rightarrow> u64 list \<Rightarrow> nat \<Rightarrow> u64 list" where
  "shared_and_pre lhs rhs r n =
     map (\<lambda>i. and_pre_inner (ck_a lhs ! i) (ck_b lhs ! i) (ck_a rhs ! i) (ck_b rhs ! i) (r ! i)) [0..<n]"

text \<open>The transposition of a block of 64 values; the loops are those of the CPU parties on plain words.\<close>

partial_function (option) swap_words :: "nat \<Rightarrow> nat \<Rightarrow> u64 \<Rightarrow> nat \<Rightarrow> u64 list \<Rightarrow> u64 list option" where
  "swap_words n j m k out =
     (if k < n then
        (let t = (drop_bit j (out ! k) XOR out ! (k + j)) AND m;
             out = out[k + j := out ! (k + j) XOR t];
             out = out[k := out ! k XOR push_bit j t]
         in swap_words n j m (and_not (k + j + 1) j) out)
      else Some out)"

fun transpose_loop :: "nat \<Rightarrow> nat \<Rightarrow> u64 \<Rightarrow> u64 list \<Rightarrow> u64 list option" where
  "transpose_loop n j m out =
     (if j \<noteq> 0 then
        Option.bind (swap_words n j m 0 out) (\<lambda>out.
          let j = j div 2; m = m XOR push_bit j m
          in transpose_loop n j m out)
      else Some out)"

declare transpose_loop.simps [simp del]

definition u64_from_u16s :: "u16 \<Rightarrow> u16 \<Rightarrow> u16 \<Rightarrow> u16 \<Rightarrow> u64" where
  "u64_from_u16s a b c d = ucast a OR push_bit 16 (ucast b) OR push_bit 32 (ucast c) OR push_bit 48 (ucast d)"

definition u64_from_u32s :: "u32 \<Rightarrow> u32 \<Rightarrow> u64" where
  "u64_from_u32s a b = ucast a OR push_bit 32 (ucast b)"

definition transpose16x64 :: "u16 list \<Rightarrow> u64 list option" where
  "transpose16x64 inp =
     transpose_loop 16 8 0x00FF00FF00FF00FF
       (map (\<lambda>i. u64_from_u16s (inp ! i) (inp ! (i + 16)) (inp ! (i + 32)) (inp ! (i + 48))) [0..<16])"

definition transpose32x64 :: "u32 list \<Rightarrow> u64 list option" where
  "transpose32x64 inp =
     transpose_loop 32 16 0x0000FFFF0000FFFF (map (\<lambda>i. u64_from_u32s (inp ! i) (inp ! (i + 32))) [0..<32])"

text \<open>Every block is transposed; word \<open>j\<close> of block \<open>i\<close> becomes word \<open>i\<close> of plane \<open>j\<close>.\<close>

definition transpose_planes :: "('a list \<Rightarrow> u64 list option) \<Rightarrow> nat \<Rightarrow> 'a list \<Rightarrow> nat \<Rightarrow> nat \<Rightarrow> u64 list result" where
  "transpose_planes tr width inp in_len out_len =
     (if in_len mod 64 \<noteq> 0 \<or> out_len > width then Inl (Panic ''assertion failed'')
      else
        (let n = in_len div 64
         in rbind (rmap (\<lambda>i. case tr (take 64 (drop (i * 64) inp)) of None \<Rightarrow> Inl Diverges | Some t \<Rightarrow> Inr t) [0..<n]) (\<lambda>ts.
            Inr (map (\<lambda>x. ts ! (x mod n) ! (x div n)) [0..<out_len * n]))))"

definition shared_u16_transpose_pack_u64 :: "u16 ChunkShare \<Rightarrow> nat \<Rightarrow> nat \<Rightarrow> u64 ChunkShare result" where
  "shared_u16_transpose_pack_u64 inp in_len out_len =
     rbind (transpose_planes transpose16x64 16 (ck_a inp) in_len out_len) (\<lambda>a.
     rbind (transpose_planes transpose16x64 16 (ck_b inp) in_len out_len) (\<lambda>b. Inr \<lparr>ck_a = a, ck_b = b\<rparr>))"

definition shared_u32_transpose_pack_u64 :: "u32 ChunkShare \<Rightarrow> nat \<Rightarrow> nat \<Rightarrow> u64 ChunkShare result" where
  "shared_u32_transpose_pack_u64 inp in_len out_len =
     rbind (transpose_planes transpose32x64 32 (ck_a inp) in_len out_len) (\<lambda>a.
     rbind (transpose_planes transpose32x64 32 (ck_b inp) in_len out_len) (\<lambda>b. Inr \<lparr>ck_a = a, ck_b = b\<rparr>))"

text \<open>Party \<open>id\<close> knows two of the three summands; they become three shared summands.\<close>

definition split_inner :: "nat \<Rightarrow> u64 \<times> u64 \<Rightarrow> (u64 \<times> u64) \<times> (u64 \<times> u64) \<times> (u64 \<times> u64)" where
  "split_inner pid = (\<lambda>(tmp_a, tmp_b).
     if pid = 0 then ((tmp_a, 0), (0, 0), (0, tmp_b))
     else if pid = 1 then ((0, tmp_b), (tmp_a, 0), (0, 0))
     else ((0, 0), (0, tmp_b), (tmp_a, 0)))"

definition split_words :: "u64 ChunkShare \<Rightarrow> nat \<Rightarrow> nat \<Rightarrow> u64 ChunkShare \<times> u64 ChunkShare \<times> u64 ChunkShare" where
  "split_words x1 n pid =
     (let parts = map (\<lambda>i. split_inner pid (ck_a x1 ! i, ck_b x1 ! i)) [0..<n];
          share = (\<lambda>sel. \<lparr>ck_a = map (\<lambda>t. fst (sel t)) parts, ck_b = map (\<lambda>t. snd (sel t)) parts\<rparr>)
      in (share fst, share (\<lambda>t. fst (snd t)), share (\<lambda>t. snd (snd t))))"

definition lift_split_words ::
    "u16 ChunkShare \<Rightarrow> u64 ChunkShare \<Rightarrow> nat \<Rightarrow> nat \<Rightarrow> u32 ChunkShare \<times> u64 ChunkShare \<times> u64 ChunkShare \<times> u64 ChunkShare" where
  "lift_split_words inp x1 chunk_size pid =
     (\<lparr>ck_a = map (\<lambda>i. ucast (ck_a inp ! i)) [0..<64 * chunk_size], ck_b = map (\<lambda>i. ucast (ck_b inp ! i)) [0..<64 * chunk_size]\<rparr>,
      split_words x1 (16 * chunk_size) pid)"

text \<open>\<open>A\<close> is a quarter of $2^{16}$: the threshold ratio is 0.375.\<close>

definition lift_mul_sub_inner :: "u32 \<Rightarrow> u16 \<Rightarrow> u16 \<Rightarrow> u16 \<Rightarrow> u32" where
  "lift_mul_sub_inner m corr1 corr2 c =
     (let m = m - push_bit 16 (ucast corr1); m = m - push_bit 17 (ucast corr2); lifted = push_bit 16 (ucast c)
      in m * 2 ^ 14 - lifted)"

definition shared_lift_mul_sub :: "u32 ChunkShare \<Rightarrow> u16 ChunkShare \<Rightarrow> u16 ChunkShare \<Rightarrow> nat \<Rightarrow> nat \<Rightarrow> u32 ChunkShare" where
  "shared_lift_mul_sub masks corr codes pid n =
     (let part = (\<lambda>sel32 sel16 off. map (\<lambda>i.
            lift_mul_sub_inner (sel32 masks ! i) (sel16 corr ! i) (sel16 corr ! (i + n)) (sel16 codes ! i) - off) [0..<n])
      in \<lparr>ck_a = part ck_a ck_a (if pid = 0 then 1 else 0), ck_b = part ck_b ck_b (if pid = 1 then 1 else 0)\<rparr>)"

text \<open>The kernels of the oblivious transfer, on the bits of \<open>n\<close> words.\<close>

definition word_bit_at :: "u64 list \<Rightarrow> nat \<Rightarrow> bool" where
  "word_bit_at ws i = bit (ws ! (i div 64)) (i mod 64)"

definition packed_ot_sender ::
    "u64 ChunkShare \<Rightarrow> u16 list \<Rightarrow> u16 list \<Rightarrow> u16 list \<Rightarrow> u16 list \<Rightarrow> nat \<Rightarrow> u16 ChunkShare \<times> u16 list \<times> u16 list" where
  "packed_ot_sender inp rand_ca rand_cb rand_wa1 rand_wa2 n =
     (let c = (\<lambda>i. rand_ca ! i + rand_cb ! i);
          xor_ab = (\<lambda>i. of_bool (word_bit_at (ck_a inp) i) XOR of_bool (word_bit_at (ck_b inp) i) :: u16)
      in (\<lparr>ck_a = map (\<lambda>i. rand_ca ! i) [0..<64 * n], ck_b = map (\<lambda>i. rand_cb ! i) [0..<64 * n]\<rparr>,
          map (\<lambda>i. (xor_ab i - c i) XOR rand_wa1 ! i) [0..<64 * n],
          map (\<lambda>i. ((xor_ab i XOR 1) - c i) XOR rand_wa2 ! i) [0..<64 * n]))"

definition packed_ot_receiver :: "u64 list \<Rightarrow> u16 list \<Rightarrow> u16 list \<Rightarrow> u16 list \<Rightarrow> u16 list \<Rightarrow> nat \<Rightarrow> u16 ChunkShare" where
  "packed_ot_receiver in_b m0 m1 rand_ca rand_wc n =
     \<lparr>ck_a = map (\<lambda>i. rand_ca ! i) [0..<64 * n],
      ck_b = map (\<lambda>i. if word_bit_at in_b i then rand_wc ! i XOR m1 ! i else rand_wc ! i XOR m0 ! i) [0..<64 * n]\<rparr>"

definition packed_ot_helper :: "u64 list \<Rightarrow> u16 list \<Rightarrow> u16 list \<Rightarrow> u16 list \<Rightarrow> nat \<Rightarrow> u16 list \<times> u16 list" where
  "packed_ot_helper in_a rand_cb rand_wb1 rand_wb2 n =
     (map (\<lambda>i. rand_cb ! i) [0..<64 * n],
      map (\<lambda>i. if word_bit_at in_a i then rand_wb2 ! i else rand_wb1 ! i) [0..<64 * n])"

section \<open>The circuits of one party\<close>

record Circuits =
  my_peer :: nat
  next_peer :: nat
  prev_peer :: nat
  chunk_size :: nat
  alloc_chunk_size :: nat
  n_devices :: nat
  result_buffer :: "u64 ChunkShare list option"
  circuit_rngs :: "ChaChaCudaCorrRng list"

definition circuits_new :: "nat \<Rightarrow> nat \<Rightarrow> nat \<Rightarrow> u32 list \<times> u32 list \<Rightarrow> nat \<Rightarrow> Circuits result" where
  "circuits_new peer input_size alloc_size chacha_seeds devices =
     (let words = input_size div 64; zeros = replicate (alloc_size * 32) 0
      in if input_size mod 64 \<noteq> 0 then Inl (Panic ''assertion failed: input_size % 64 == 0'')
         else if alloc_size < words then Inl (Panic ''assertion failed: alloc_size >= chunk_size'')
         else Inr \<lparr>my_peer = peer, next_peer = (peer + 1) mod 3, prev_peer = (peer + 2) mod 3, chunk_size = words,
           alloc_chunk_size = alloc_size, n_devices = devices, result_buffer = Some (replicate devices \<lparr>ck_a = zeros, ck_b = zeros\<rparr>),
           circuit_rngs = replicate devices (corr_init (fst chacha_seeds) (snd chacha_seeds))\<rparr>)"

definition set_chunk_size :: "nat \<Rightarrow> Circuits \<Rightarrow> Circuits result" where
  "set_chunk_size words self =
     (if words > alloc_chunk_size self then Inl (Panic ''assertion failed: chunk_size <= self.buffers.chunk_size'')
      else Inr (self\<lparr>chunk_size := words\<rparr>))"

definition take_result_buffer :: "Circuits \<Rightarrow> (u64 ChunkShare list \<times> Circuits) result" where
  "take_result_buffer self =
     (case result_buffer self of
        None \<Rightarrow> Inl (Panic ''assertion failed: inp.is_some()'')
      | Some buf \<Rightarrow> Inr (buf, self\<lparr>result_buffer := None\<rparr>))"

definition return_result_buffer :: "u64 ChunkShare list \<Rightarrow> Circuits \<Rightarrow> Circuits result" where
  "return_result_buffer src self =
     (if result_buffer self \<noteq> None then Inl (Panic ''assertion failed: des.is_none()'')
      else Inr (self\<lparr>result_buffer := Some src\<rparr>))"

text \<open>
  Programs of a party. A message holds the buffers of all devices; the lengths of a send and of its
  receive have to agree.
\<close>

datatype Wire = Words64 "u64 list list" | Words32 "u32 list list"

type_synonym 'a gpu = "Circuits \<Rightarrow> (Wire, ('a \<times> Circuits) result) proc"

definition gret :: "'a \<Rightarrow> 'a gpu" where
  "gret x = (\<lambda>s. Ret (Inr (x, s)))"

definition gbind :: "'a gpu \<Rightarrow> ('a \<Rightarrow> 'b gpu) \<Rightarrow> 'b gpu" where
  "gbind m f = (\<lambda>s. pbind (m s) (\<lambda>r. case r of Inl e \<Rightarrow> Ret (Inl e) | Inr (x, s') \<Rightarrow> f x s'))"

definition glocal :: "(Circuits \<Rightarrow> ('a \<times> Circuits) result) \<Rightarrow> 'a gpu" where
  "glocal f = (\<lambda>s. Ret (f s))"

definition gtry :: "(Circuits \<Rightarrow> 'a result) \<Rightarrow> 'a gpu" where
  "gtry f = glocal (\<lambda>s. rbind (f s) (\<lambda>x. Inr (x, s)))"

definition rank :: "nat \<Rightarrow> Identity" where
  "rank r = Identity (show_usize r)"

definition gsend :: "(Circuits \<Rightarrow> nat) \<Rightarrow> Wire \<Rightarrow> unit gpu" where
  "gsend peer w = (\<lambda>s. Snd (rank (peer s)) w (\<lambda>r. Ret (rbind r (\<lambda>_. Inr ((), s)))))"

definition greceive :: "(Circuits \<Rightarrow> nat) \<Rightarrow> Wire gpu" where
  "greceive peer = (\<lambda>s. Rcv (rank (peer s)) (\<lambda>r. Ret (rbind r (\<lambda>w. Inr (w, s)))))"

definition expect_64 :: "nat list \<Rightarrow> Wire \<Rightarrow> u64 list list result" where
  "expect_64 lens w =
     (case w of Words64 ws \<Rightarrow> if map length ws = lens then Inr ws else Inl (Panic ''nccl: sizes of send and receive differ'')
      | Words32 _ \<Rightarrow> Inl (Panic ''nccl: types of send and receive differ''))"

definition expect_16 :: "nat list \<Rightarrow> Wire \<Rightarrow> u16 list list result" where
  "expect_16 lens w =
     (case w of Words32 ws \<Rightarrow> if map (\<lambda>v. 2 * length v) ws = lens then Inr (map words_u16 ws)
         else Inl (Panic ''nccl: sizes of send and receive differ'')
      | Words64 _ \<Rightarrow> Inl (Panic ''nccl: types of send and receive differ''))"

text \<open>A loop over the devices: device \<open>i\<close> uses generator \<open>i\<close>.\<close>

definition each_device :: "(ChaChaCudaCorrRng \<Rightarrow> 'x \<Rightarrow> ('y \<times> ChaChaCudaCorrRng) result) \<Rightarrow> 'x list \<Rightarrow> 'y list gpu" where
  "each_device f xs = glocal (\<lambda>self.
     rbind (rmap (\<lambda>(i, x). rbind (vec_index (circuit_rngs self) i) (\<lambda>r. f r x)) (enumerate 0 xs)) (\<lambda>rs.
     Inr (map fst rs, self\<lparr>circuit_rngs := map snd rs @ drop (length rs) (circuit_rngs self)\<rparr>)))"

section \<open>Randomness and encryption\<close>

text \<open>A buffer of 32-bit words viewed as 64-bit words. Fresh memory is overwritten by the fill.\<close>

definition words_u64 :: "u32 list \<Rightarrow> u64 list" where
  "words_u64 ws = map (\<lambda>k. ucast (ws ! (2 * k)) OR push_bit 32 (ucast (ws ! (2 * k + 1)))) [0..<length ws div 2]"

definition fill_rand_u64 :: "nat \<Rightarrow> ChaChaCudaCorrRng \<Rightarrow> (u64 list \<times> ChaChaCudaCorrRng) result" where
  "fill_rand_u64 n rng = rbind (corr_fill_rng_into rng (replicate (n * 2) 0)) (\<lambda>(rng, ws). Inr (words_u64 ws, rng))"

definition fill_my_rand_u64 :: "nat \<Rightarrow> ChaChaCudaCorrRng \<Rightarrow> (u64 list \<times> ChaChaCudaCorrRng) result" where
  "fill_my_rand_u64 n rng = rbind (fill_my_rng_into rng (replicate (n * 2) 0)) (\<lambda>(rng, ws). Inr (words_u64 ws, rng))"

definition fill_their_rand_u64 :: "nat \<Rightarrow> ChaChaCudaCorrRng \<Rightarrow> (u64 list \<times> ChaChaCudaCorrRng) result" where
  "fill_their_rand_u64 n rng = rbind (fill_their_rng_into rng (replicate (n * 2) 0)) (\<lambda>(rng, ws). Inr (words_u64 ws, rng))"

definition fill_my_rng_into_u32 :: "nat \<Rightarrow> ChaChaCudaCorrRng \<Rightarrow> (u32 list \<times> ChaChaCudaCorrRng) result" where
  "fill_my_rng_into_u32 n rng = rbind (fill_my_rng_into rng (replicate n 0)) (\<lambda>(rng, ws). Inr (ws, rng))"

definition fill_their_rng_into_u32 :: "nat \<Rightarrow> ChaChaCudaCorrRng \<Rightarrow> (u32 list \<times> ChaChaCudaCorrRng) result" where
  "fill_their_rng_into_u32 n rng = rbind (fill_their_rng_into rng (replicate n 0)) (\<lambda>(rng, ws). Inr (ws, rng))"

definition fill_my_rng_into_u16 :: "nat \<Rightarrow> ChaChaCudaCorrRng \<Rightarrow> (u16 list \<times> ChaChaCudaCorrRng) result" where
  "fill_my_rng_into_u16 n rng = rbind (fill_my_rng_into_u32 n rng) (\<lambda>(ws, rng). Inr (words_u16 ws, rng))"

definition fill_their_rng_into_u16 :: "nat \<Rightarrow> ChaChaCudaCorrRng \<Rightarrow> (u16 list \<times> ChaChaCudaCorrRng) result" where
  "fill_their_rng_into_u16 n rng = rbind (fill_their_rng_into_u32 n rng) (\<lambda>(ws, rng). Inr (words_u16 ws, rng))"

text \<open>A buffer of 16-bit words viewed as 32-bit words.\<close>

definition u16_pairs :: "u16 list \<Rightarrow> u32 list" where
  "u16_pairs hs = map (\<lambda>k. ucast (hs ! (2 * k)) OR push_bit 16 (ucast (hs ! (2 * k + 1)))) [0..<length hs div 2]"

definition chacha_encrypt_u16 ::
    "(nat \<Rightarrow> ChaChaCudaCorrRng \<Rightarrow> (u16 list \<times> ChaChaCudaCorrRng) result) \<Rightarrow> u16 list \<Rightarrow> ChaChaCudaCorrRng \<Rightarrow> (u32 list \<times> ChaChaCudaCorrRng) result" where
  "chacha_encrypt_u16 fill input rng =
     (let data_len = length input
      in if data_len AND 1 \<noteq> 0 then Inl (Panic ''assertion failed: data_len & 1 == 0'')
         else rbind (fill (drop_bit 1 data_len) rng) (\<lambda>(keystream, rng). Inr (u16_pairs (xor_assign keystream input data_len), rng)))"

definition chacha_decrypt_u16 ::
    "(nat \<Rightarrow> ChaChaCudaCorrRng \<Rightarrow> (u16 list \<times> ChaChaCudaCorrRng) result) \<Rightarrow> u16 list \<Rightarrow> ChaChaCudaCorrRng \<Rightarrow> (u16 list \<times> ChaChaCudaCorrRng) result" where
  "chacha_decrypt_u16 fill input rng =
     (let data_len = length input
      in if data_len AND 1 \<noteq> 0 then Inl (Panic ''assertion failed: data_len & 1 == 0'')
         else rbind (fill (drop_bit 1 data_len) rng) (\<lambda>(keystream, rng). Inr (xor_assign input keystream data_len, rng)))"

definition chacha1_encrypt_u16 :: "u16 list \<Rightarrow> ChaChaCudaCorrRng \<Rightarrow> (u32 list \<times> ChaChaCudaCorrRng) result" where
  "chacha1_encrypt_u16 = chacha_encrypt_u16 fill_my_rng_into_u16"

definition chacha2_encrypt_u16 :: "u16 list \<Rightarrow> ChaChaCudaCorrRng \<Rightarrow> (u32 list \<times> ChaChaCudaCorrRng) result" where
  "chacha2_encrypt_u16 = chacha_encrypt_u16 fill_their_rng_into_u16"

definition chacha1_decrypt_u16 :: "u16 list \<Rightarrow> ChaChaCudaCorrRng \<Rightarrow> (u16 list \<times> ChaChaCudaCorrRng) result" where
  "chacha1_decrypt_u16 = chacha_decrypt_u16 fill_my_rng_into_u16"

definition chacha2_decrypt_u16 :: "u16 list \<Rightarrow> ChaChaCudaCorrRng \<Rightarrow> (u16 list \<times> ChaChaCudaCorrRng) result" where
  "chacha2_decrypt_u16 = chacha_decrypt_u16 fill_their_rng_into_u16"

text \<open>The whole keystream buffer is returned, with the data in its first words.\<close>

definition chacha1_encrypt_u64 :: "u64 list \<Rightarrow> ChaChaCudaCorrRng \<Rightarrow> (u64 list \<times> ChaChaCudaCorrRng) result" where
  "chacha1_encrypt_u64 input rng =
     (let data_len = length input; keystream_size = (data_len + 7) div 8
      in rbind (fill_my_rand_u64 (keystream_size * 8) rng) (\<lambda>(keystream, rng). Inr (xor_assign keystream input data_len, rng)))"

definition chacha2_decrypt_u64 :: "u64 list \<Rightarrow> ChaChaCudaCorrRng \<Rightarrow> (u64 list \<times> ChaChaCudaCorrRng) result" where
  "chacha2_decrypt_u64 inout rng =
     (let data_len = length inout; keystream_size = (data_len + 7) div 8
      in rbind (fill_their_rand_u64 (keystream_size * 8) rng) (\<lambda>(keystream, rng). Inr (xor_assign inout keystream data_len, rng)))"

section \<open>Exchange\<close>

text \<open>A share whose second component is about to be received.\<close>

definition pending :: "u64 list \<Rightarrow> u64 ChunkShare" where
  "pending a = \<lparr>ck_a = a, ck_b = replicate (length a) 0\<rparr>"

definition exchange_words :: "u64 list list \<Rightarrow> u64 list list gpu" where
  "exchange_words as =
     gbind (each_device (\<lambda>rng a. chacha1_encrypt_u64 a rng) as) (\<lambda>send_bufs.
     gbind (gsend next_peer (Words64 send_bufs)) (\<lambda>_.
     gbind (greceive prev_peer) (\<lambda>w.
     gbind (gtry (\<lambda>_. expect_64 (map length as) w)) (\<lambda>rcv.
     each_device (\<lambda>rng b. chacha2_decrypt_u64 b rng) rcv))))"

definition assert_devices :: "'a list \<Rightarrow> unit gpu" where
  "assert_devices xs = gtry (\<lambda>self. if length xs = n_devices self then Inr () else Inl (Panic ''assertion failed: n_devices''))"

definition send_receive_view :: "u64 ChunkShare list \<Rightarrow> u64 ChunkShare list gpu" where
  "send_receive_view res =
     gbind (assert_devices res) (\<lambda>_.
     gbind (exchange_words (map ck_a res)) (\<lambda>bs. gret (map2 (\<lambda>r b. r\<lparr>ck_b := b\<rparr>) res bs)))"

definition send_receive_view_with_offset :: "nat \<Rightarrow> nat \<Rightarrow> u64 ChunkShare list \<Rightarrow> u64 ChunkShare list gpu" where
  "send_receive_view_with_offset start stop res =
     gbind (assert_devices res) (\<lambda>_.
     gbind (gtry (\<lambda>_. rmap (get_range start stop) res)) (\<lambda>parts.
     gbind (exchange_words (map ck_a parts)) (\<lambda>bs.
     gret (map2 (\<lambda>r b. r\<lparr>ck_b := take start (ck_b r) @ b @ drop stop (ck_b r)\<rparr>) res bs))))"

definition packed_send_receive_view :: "nat \<Rightarrow> u64 ChunkShare list \<Rightarrow> u64 ChunkShare list gpu" where
  "packed_send_receive_view bits res =
     gbind (gtry (\<lambda>self. Inr (chunk_size self))) (\<lambda>cs. send_receive_view_with_offset 0 (bits * cs) res)"

section \<open>Local operations\<close>

definition packed_and_many_pre ::
    "nat \<Rightarrow> u64 ChunkShare \<Rightarrow> u64 ChunkShare \<Rightarrow> nat \<Rightarrow> ChaChaCudaCorrRng \<Rightarrow> (u64 ChunkShare \<times> ChaChaCudaCorrRng) result" where
  "packed_and_many_pre cs x1 x2 bits rng =
     (let words = (cs * bits + 7) div 8
      in rbind (fill_rand_u64 (words * 8) rng) (\<lambda>(rand, rng). Inr (pending (shared_and_pre x1 x2 rand (cs * bits)), rng)))"

definition and_many_pre ::
    "nat \<Rightarrow> u64 ChunkShare \<Rightarrow> u64 ChunkShare \<Rightarrow> ChaChaCudaCorrRng \<Rightarrow> (u64 ChunkShare \<times> ChaChaCudaCorrRng) result" where
  "and_many_pre cs x1 x2 rng =
     (let words = (cs + 7) div 8
      in rbind (fill_rand_u64 (words * 8) rng) (\<lambda>(rand, rng). Inr (pending (shared_and_pre x1 x2 rand cs), rng)))"

definition xor_assign_many :: "nat \<Rightarrow> u64 ChunkShare \<Rightarrow> u64 ChunkShare \<Rightarrow> u64 ChunkShare" where
  "xor_assign_many cs x1 x2 = shared_xor_assign x1 x2 cs"

definition packed_xor_assign_many :: "nat \<Rightarrow> u64 ChunkShare \<Rightarrow> u64 ChunkShare \<Rightarrow> nat \<Rightarrow> u64 ChunkShare" where
  "packed_xor_assign_many cs x1 x2 bits = shared_xor_assign x1 x2 (cs * bits)"

definition packed_xor_many :: "nat \<Rightarrow> u64 ChunkShare \<Rightarrow> u64 ChunkShare \<Rightarrow> nat \<Rightarrow> u64 ChunkShare" where
  "packed_xor_many cs x1 x2 bits = shared_xor x1 x2 (cs * bits)"

section \<open>The adders\<close>

text \<open>
  The first full adder of a device, on \<open>K\<close> planes; the carries of \<open>bits\<close> of them are computed.
  It returns the sum without its lowest plane and the pending carries, and what it leaves in the buffers of
  the first and the second operand.
\<close>

definition first_full_adder ::
    "nat \<Rightarrow> nat \<Rightarrow> nat \<Rightarrow> ChaChaCudaCorrRng \<Rightarrow> u64 ChunkShare \<times> u64 ChunkShare \<times> u64 ChunkShare
       \<Rightarrow> ((u64 ChunkShare \<times> u64 ChunkShare \<times> u64 ChunkShare \<times> u64 ChunkShare) \<times> ChaChaCudaCorrRng) result" where
  "first_full_adder cs K bits rng = (\<lambda>(x1, x2, x3).
     let x2x3 = packed_xor_assign_many cs x2 x3 K
     in rbind (get_range cs (K * cs) x1) (\<lambda>r1.
        rbind (get_range cs (K * cs) x2x3) (\<lambda>r2.
        let s = packed_xor_many cs r1 r2 (K - 1); x1x3 = packed_xor_assign_many cs x1 x3 bits
        in rbind (packed_and_many_pre cs x1x3 x2x3 bits rng) (\<lambda>(c, rng). Inr ((s, c, x1x3, x2x3), rng)))))"

text \<open>
  The rounds of the ripple-carry adder. The source keeps the new carry of a round in plane 0 of its first
  operand and updates plane \<open>k\<close> of both operands in place; none of these planes is read again.
\<close>

definition first_carry_round :: "nat \<Rightarrow> u64 ChunkShare list \<Rightarrow> u64 ChunkShare list \<Rightarrow> u64 ChunkShare list gpu" where
  "first_carry_round cs a b =
     gbind (each_device (\<lambda>rng (a, b).
         rbind (get_offset 0 cs a) (\<lambda>a. rbind (get_offset 0 cs b) (\<lambda>b. and_many_pre cs a b rng))) (zip a b)) (\<lambda>carry.
     send_receive_view carry)"

fun carry_rounds :: "nat \<Rightarrow> nat list \<Rightarrow> u64 ChunkShare list \<Rightarrow> u64 ChunkShare list \<Rightarrow> u64 ChunkShare list \<Rightarrow> u64 ChunkShare list gpu" where
  "carry_rounds cs [] a b c = gret c"
| "carry_rounds cs (k # ks) a b c =
     gbind (each_device (\<lambda>rng (a, b, c).
         rbind (get_offset k cs a) (\<lambda>a.
         rbind (get_offset k cs b) (\<lambda>b.
         and_many_pre cs (xor_assign_many cs a c) (xor_assign_many cs b c) rng))) (zip a (zip b c))) (\<lambda>tmp_c.
     gbind (send_receive_view tmp_c) (\<lambda>tmp_c.
     carry_rounds cs ks a b (map2 (xor_assign_many cs) c tmp_c)))"

definition gpu_add_3_get_two_carries ::
    "u64 ChunkShare list \<Rightarrow> u64 ChunkShare list \<Rightarrow> u64 ChunkShare list
       \<Rightarrow> (u64 ChunkShare list \<times> (u64 ChunkShare \<times> u64 ChunkShare) list) gpu" where
  "gpu_add_3_get_two_carries x1 x2 x3 =
     gbind (gtry (\<lambda>self. Inr (chunk_size self))) (\<lambda>cs.
     gbind (assert_devices x1) (\<lambda>_. gbind (assert_devices x2) (\<lambda>_. gbind (assert_devices x3) (\<lambda>_.
     gbind (each_device (first_full_adder cs 16 16) (zip x1 (zip x2 x3))) (\<lambda>sc.
     gbind (packed_send_receive_view 16 (map (\<lambda>(s, c, _, _). c) sc)) (\<lambda>carry.
     let a = map fst sc; b = map2 (\<lambda>c x3. packed_xor_assign_many cs c x3 16) carry x3 in
     gbind (first_carry_round cs a b) (\<lambda>c.
     gbind (carry_rounds cs [1..<15] a b c) (\<lambda>c.
     gbind (each_device (\<lambda>rng (b, c1).
         rbind (get_offset 15 cs b) (\<lambda>b.
         rbind (and_many_pre cs b c1 rng) (\<lambda>(c2, rng). Inr ((xor_assign_many cs c1 b, c2), rng)))) (zip b c)) (\<lambda>c12.
     gbind (send_receive_view (map snd c12)) (\<lambda>c2.
     gret (map2 (\<lambda>c1 c2. \<lparr>ck_a = ck_a c1 @ ck_a c2, ck_b = ck_b c1 @ ck_b c2\<rparr>) (map fst c12) c2,
       map (\<lambda>(_, _, x1x3, x2x3). (x1x3, x2x3)) sc)))))))))))"

definition gpu_add_3_get_msb ::
    "u64 ChunkShare list \<Rightarrow> u64 ChunkShare list \<Rightarrow> u64 ChunkShare list \<Rightarrow> u64 ChunkShare list gpu" where
  "gpu_add_3_get_msb x1 x2 x3 =
     gbind (gtry (\<lambda>self. Inr (chunk_size self))) (\<lambda>cs.
     gbind (assert_devices x1) (\<lambda>_. gbind (assert_devices x2) (\<lambda>_. gbind (assert_devices x3) (\<lambda>_.
     gbind (each_device (first_full_adder cs 32 31) (zip x1 (zip x2 x3))) (\<lambda>sc.
     gbind (packed_send_receive_view 31 (map (\<lambda>(s, c, _, _). c) sc)) (\<lambda>carry.
     let a = map fst sc; b = map2 (\<lambda>c x3. packed_xor_assign_many cs c x3 31) carry x3 in
     gbind (first_carry_round cs a b) (\<lambda>c.
     gbind (carry_rounds cs [1..<30] a b c) (\<lambda>c.
     gbind (gtry (\<lambda>_. rmap (\<lambda>(a, b, c).
         rbind (get_offset 30 cs a) (\<lambda>a.
         rbind (get_offset 30 cs b) (\<lambda>b. Inr (xor_assign_many cs (xor_assign_many cs c a) b)))) (zip a (zip b c)))) (\<lambda>c.
     gret (map2 (\<lambda>c (_, _, x1x3, _). \<lparr>ck_a = ck_a c @ drop cs (ck_a x1x3), ck_b = ck_b c @ drop cs (ck_b x1x3)\<rparr>) c sc))))))))))"

section \<open>Injection of bits\<close>

definition bit_inject_ot_sender :: "u64 ChunkShare list \<Rightarrow> u16 ChunkShare list gpu" where
  "bit_inject_ot_sender inp =
     gbind (gtry (\<lambda>self. Inr (chunk_size self))) (\<lambda>cs.
     gbind (each_device (\<lambda>rng inp.
         rbind (fill_my_rng_into_u16 (cs * 64) rng) (\<lambda>(rand_ca, rng).
         rbind (fill_their_rng_into_u16 (cs * 64) rng) (\<lambda>(rand_cb, rng).
         rbind (fill_my_rng_into_u16 (cs * 64) rng) (\<lambda>(rand_wa1, rng).
         rbind (fill_my_rng_into_u16 (cs * 64) rng) (\<lambda>(rand_wa2, rng).
         Inr (packed_ot_sender inp rand_ca rand_cb rand_wa1 rand_wa2 (2 * cs), rng)))))) inp) (\<lambda>out.
     gbind (each_device (\<lambda>rng m0. chacha2_encrypt_u16 m0 rng) (map (\<lambda>(_, m0, _). m0) out)) (\<lambda>m0.
     gbind (each_device (\<lambda>rng m1. chacha2_encrypt_u16 m1 rng) (map (\<lambda>(_, _, m1). m1) out)) (\<lambda>m1.
     gbind (gsend prev_peer (Words32 m0)) (\<lambda>_.
     gbind (gsend prev_peer (Words32 m1)) (\<lambda>_.
     gret (map fst out)))))))"

definition bit_inject_ot_receiver :: "u64 ChunkShare list \<Rightarrow> u16 ChunkShare list gpu" where
  "bit_inject_ot_receiver inp =
     gbind (gtry (\<lambda>self. Inr (chunk_size self))) (\<lambda>cs.
     gbind (greceive next_peer) (\<lambda>w0.
     gbind (gtry (\<lambda>_. expect_16 (map (\<lambda>_. cs * 128) inp) w0)) (\<lambda>m0.
     gbind (greceive prev_peer) (\<lambda>w.
     gbind (gtry (\<lambda>_. expect_16 (map (\<lambda>_. cs * 128) inp) w)) (\<lambda>wc.
     gbind (greceive next_peer) (\<lambda>w1.
     gbind (gtry (\<lambda>_. expect_16 (map (\<lambda>_. cs * 128) inp) w1)) (\<lambda>m1.
     gbind (each_device (\<lambda>rng (inp, m0, m1, wc).
         rbind (fill_my_rng_into_u16 (cs * 64) rng) (\<lambda>(rand_ca, rng).
         rbind (chacha1_decrypt_u16 m0 rng) (\<lambda>(m0, rng).
         rbind (chacha2_decrypt_u16 wc rng) (\<lambda>(wc, rng).
         rbind (chacha1_decrypt_u16 m1 rng) (\<lambda>(m1, rng).
         let res = packed_ot_receiver (ck_b inp) m0 m1 rand_ca wc (2 * cs) in
         rbind (chacha2_encrypt_u16 (ck_b res) rng) (\<lambda>(send, rng). Inr ((res, send), rng))))))) (zip inp (zip m0 (zip m1 wc)))) (\<lambda>out.
     gbind (gsend prev_peer (Words32 (map snd out))) (\<lambda>_.
     gret (map fst out))))))))))"

definition bit_inject_ot_helper :: "u64 ChunkShare list \<Rightarrow> u16 ChunkShare list gpu" where
  "bit_inject_ot_helper inp =
     gbind (gtry (\<lambda>self. Inr (chunk_size self))) (\<lambda>cs.
     gbind (each_device (\<lambda>rng inp.
         rbind (fill_their_rng_into_u16 (cs * 64) rng) (\<lambda>(rand_cb, rng).
         rbind (fill_their_rng_into_u16 (cs * 64) rng) (\<lambda>(rand_wb1, rng).
         rbind (fill_their_rng_into_u16 (cs * 64) rng) (\<lambda>(rand_wb2, rng).
         let (res_b, wc) = packed_ot_helper (ck_a inp) rand_cb rand_wb1 rand_wb2 (2 * cs) in
         rbind (chacha1_encrypt_u16 wc rng) (\<lambda>(send, rng). Inr ((res_b, send), rng)))))) inp) (\<lambda>out.
     gbind (gsend next_peer (Words32 (map snd out))) (\<lambda>_.
     gbind (greceive next_peer) (\<lambda>w.
     gbind (gtry (\<lambda>_. expect_16 (map (\<lambda>_. cs * 128) inp) w)) (\<lambda>res_a.
     gbind (each_device (\<lambda>rng a. chacha1_decrypt_u16 a rng) res_a) (\<lambda>res_a.
     gret (map2 (\<lambda>a (b, _). \<lparr>ck_a = a, ck_b = b\<rparr>) res_a out)))))))"

definition bit_inject_ot :: "u64 ChunkShare list \<Rightarrow> u16 ChunkShare list gpu" where
  "bit_inject_ot inp = (\<lambda>self.
     if my_peer self = 0 then bit_inject_ot_helper inp self
     else if my_peer self = 1 then bit_inject_ot_receiver inp self
     else if my_peer self = 2 then bit_inject_ot_sender inp self
     else Ret (Inl (Panic ''internal error: entered unreachable code'')))"

section \<open>Lifting and comparison\<close>

definition transpose_pack_u16_with_len :: "u16 ChunkShare list \<Rightarrow> nat \<Rightarrow> u64 ChunkShare list gpu" where
  "transpose_pack_u16_with_len inp bitlen =
     gbind (assert_devices inp) (\<lambda>_. gtry (\<lambda>self. rmap (\<lambda>x. shared_u16_transpose_pack_u64 x (chunk_size self * 64) bitlen) inp))"

definition transpose_pack_u32_with_len :: "u32 ChunkShare list \<Rightarrow> nat \<Rightarrow> u64 ChunkShare list gpu" where
  "transpose_pack_u32_with_len inp bitlen =
     gbind (assert_devices inp) (\<lambda>_. gtry (\<lambda>self. rmap (\<lambda>x. shared_u32_transpose_pack_u64 x (chunk_size self * 64) bitlen) inp))"

definition lift_split ::
    "u16 ChunkShare list \<Rightarrow> u64 ChunkShare list \<Rightarrow> (u32 ChunkShare \<times> u64 ChunkShare \<times> u64 ChunkShare \<times> u64 ChunkShare) list gpu" where
  "lift_split inp x1 = gtry (\<lambda>self. Inr (map2 (\<lambda>inp x1. lift_split_words inp x1 (chunk_size self) (my_peer self)) inp x1))"

definition split_planes :: "u64 ChunkShare list \<Rightarrow> nat \<Rightarrow> (u64 ChunkShare \<times> u64 ChunkShare \<times> u64 ChunkShare) list gpu" where
  "split_planes x1 bits = gtry (\<lambda>self. Inr (map (\<lambda>x1. split_words x1 (chunk_size self * bits) (my_peer self)) x1))"

text \<open>
  The operands of the adder live in the result buffer; what is left of them stays in its first \<open>32\<close> planes.
\<close>

definition overwrite :: "'a ChunkShare \<Rightarrow> 'a ChunkShare \<Rightarrow> 'a ChunkShare" where
  "overwrite b x = \<lparr>ck_a = ck_a x @ drop (length (ck_a x)) (ck_a b), ck_b = ck_b x @ drop (length (ck_b x)) (ck_b b)\<rparr>"

definition lift_mpc :: "u16 ChunkShare list \<Rightarrow> (u32 ChunkShare list \<times> u16 ChunkShare list) gpu" where
  "lift_mpc shares =
     gbind (glocal take_result_buffer) (\<lambda>buf.
     gbind (gtry (\<lambda>self. rmap (get_range 0 (32 * chunk_size self)) buf)) (\<lambda>_.
     gbind (transpose_pack_u16_with_len shares 16) (\<lambda>x1.
     gbind (lift_split shares x1) (\<lambda>parts.
     gbind (gpu_add_3_get_two_carries (map (\<lambda>(_, x1, _, _). x1) parts) (map (\<lambda>(_, _, x2, _). x2) parts) (map (\<lambda>(_, _, _, x3). x3) parts)) (\<lambda>(c, rest).
     gbind (bit_inject_ot c) (\<lambda>injected.
     gbind (glocal (\<lambda>self. rbind (return_result_buffer (map2 (\<lambda>b (x1, x2).
         overwrite b \<lparr>ck_a = ck_a x1 @ ck_a x2, ck_b = ck_b x1 @ ck_b x2\<rparr>) buf rest) self) (\<lambda>self. Inr ((), self)))) (\<lambda>_.
     gret (map fst parts, injected))))))))"

definition lift_mul_sub :: "u32 ChunkShare list \<Rightarrow> u16 ChunkShare list \<Rightarrow> u16 ChunkShare list \<Rightarrow> u32 ChunkShare list gpu" where
  "lift_mul_sub mask_lifted mask_correction codes =
     gbind (assert_devices mask_lifted) (\<lambda>_. gbind (assert_devices mask_correction) (\<lambda>_. gbind (assert_devices codes) (\<lambda>_.
     gtry (\<lambda>self. Inr (map2 (\<lambda>m (mc, c). shared_lift_mul_sub m mc c (my_peer self) (chunk_size self * 64)) mask_lifted (zip mask_correction codes))))))"

text \<open>The result is written to the first planes of the result buffer, with what is left of the first operand behind it.\<close>

definition gpu_extract_msb :: "u32 ChunkShare list \<Rightarrow> unit gpu" where
  "gpu_extract_msb x =
     gbind (glocal take_result_buffer) (\<lambda>buf.
     gbind (gtry (\<lambda>self. rmap (get_range 0 (32 * chunk_size self)) buf)) (\<lambda>_.
     gbind (transpose_pack_u32_with_len x 32) (\<lambda>x1.
     gbind (split_planes x1 32) (\<lambda>parts.
     gbind (gpu_add_3_get_msb (map fst parts) (map (\<lambda>(_, x2, _). x2) parts) (map (\<lambda>(_, _, x3). x3) parts)) (\<lambda>x1.
     glocal (\<lambda>self. rbind (return_result_buffer (map2 overwrite buf x1) self) (\<lambda>self. Inr ((), self))))))))"

definition compare_threshold_masked_many :: "u16 ChunkShare list \<Rightarrow> u16 ChunkShare list \<Rightarrow> unit gpu" where
  "compare_threshold_masked_many code_dots mask_dots =
     gbind (assert_devices code_dots) (\<lambda>_.
     gbind (assert_devices mask_dots) (\<lambda>_.
     gbind (gtry (\<lambda>_. rmap (\<lambda>chunk. rbind (ck_len chunk) (\<lambda>l. if l mod 64 = 0 then Inr () else Inl (Panic ''assertion failed: chunk.len() % 64 == 0'')))
       (code_dots @ mask_dots))) (\<lambda>_.
     gbind (lift_mpc mask_dots) (\<lambda>(x, corrections).
     gbind (lift_mul_sub x corrections code_dots) (\<lambda>x.
     gpu_extract_msb x)))))"

end
