(* ===== verification/CircuitsRun.thy ===== *)
theory CircuitsRun
  imports Circuits ShareLifting
begin

text \<open>
  A logic for circuits that three GPU parties run jointly, in the style of the one for the CPU
  parties, and its rules for the rounds of the threshold circuits: masked conjunctions, exchanges
  that the generators of neighbouring parties encrypt, and the ripple-carry loop.
\<close>

section \<open>Words of a generator\<close>

lemma words_u64_xor:
  "length xs = length ys \<Longrightarrow> words_u64 (map2 (XOR) xs ys) = map2 (XOR) (words_u64 xs) (words_u64 ys)"
proof -
  have "(ucast (a XOR c) OR push_bit 32 (ucast (b XOR d)) :: u64)
      = (ucast a OR push_bit 32 (ucast b)) XOR (ucast c OR push_bit 32 (ucast d))" for a b c d :: u32
    by (rule bit_word_eqI)
      (auto simp: bit_or_iff bit_xor_iff bit_push_bit_iff bit_ucast_iff dest: bit_imp_le_length)
  then show "length xs = length ys \<Longrightarrow> ?thesis"
    by (auto simp: words_u64_def intro!: nth_equalityI)
qed

lemma length_words_u64 [simp]: "length (words_u64 ws) = length ws div 2"
  by (simp add: words_u64_def)

text \<open>The first \<open>n\<close> blocks of a generator as words of 64 and of 16 bits.\<close>

definition key64 :: "ChachaCommon \<Rightarrow> nat \<Rightarrow> u64 list" where
  "key64 g n = words_u64 (stream g (16 * n))"

definition key16 :: "ChachaCommon \<Rightarrow> nat \<Rightarrow> u16 list" where
  "key16 g n = words_u16 (stream g (16 * n))"

lemma length_keys [simp]: "length (key64 g n) = 8 * n" "length (key16 g n) = 32 * n"
  by (simp_all add: key64_def key16_def words_u16_def length_concat comp_def sum_list_triv)

definition adv :: "nat \<Rightarrow> ChachaCommon \<Rightarrow> ChachaCommon" where
  "adv n g = advance_counter g (of_nat n)"

definition draw1 :: "nat \<Rightarrow> ChaChaCudaCorrRng \<Rightarrow> ChaChaCudaCorrRng" where
  "draw1 n r = r\<lparr>chacha1 := adv n (chacha1 r)\<rparr>"

definition draw2 :: "nat \<Rightarrow> ChaChaCudaCorrRng \<Rightarrow> ChaChaCudaCorrRng" where
  "draw2 n r = r\<lparr>chacha2 := adv n (chacha2 r)\<rparr>"

lemma draw_simps [simp]:
  "chacha1 (draw1 n r) = adv n (chacha1 r)" "chacha2 (draw1 n r) = chacha2 r"
  "chacha1 (draw2 n r) = chacha1 r" "chacha2 (draw2 n r) = adv n (chacha2 r)"
  "wf_corr r \<Longrightarrow> wf_corr (draw1 n r)" "wf_corr r \<Longrightarrow> wf_corr (draw2 n r)"
  by (simp_all add: draw1_def draw2_def wf_corr_def adv_def)

lemma fills_64:
  assumes "wf_corr r"
  shows "fill_rand_u64 (8 * n) r = Inr (map2 (XOR) (key64 (chacha1 r) n) (key64 (chacha2 r) n), draw2 n (draw1 n r))"
    "fill_my_rand_u64 (8 * n) r = Inr (key64 (chacha1 r) n, draw1 n r)"
    "fill_their_rand_u64 (8 * n) r = Inr (key64 (chacha2 r) n, draw2 n r)"
  using assms
  by (simp_all add: fill_rand_u64_def fill_my_rand_u64_def fill_their_rand_u64_def corr_fill [where n = n]
      fill_my_rng_into_def fill_their_rng_into_def fill_stream [where n = n] wf_corr_def key64_def words_u64_xor
      corr_advance_def draw1_def draw2_def adv_def)

lemma fills_16:
  assumes "wf_corr r"
  shows "fill_my_rng_into_u16 (16 * n) r = Inr (key16 (chacha1 r) n, draw1 n r)"
    "fill_their_rng_into_u16 (16 * n) r = Inr (key16 (chacha2 r) n, draw2 n r)"
  using assms
  by (simp_all add: fill_my_rng_into_u16_def fill_their_rng_into_u16_def fill_my_rng_into_u32_def
      fill_their_rng_into_u32_def fill_my_rng_into_def fill_their_rng_into_def fill_stream [where n = n]
      wf_corr_def key16_def draw1_def draw2_def adv_def)

lemma xor_assign_all: "length xs = n \<Longrightarrow> length ys = n \<Longrightarrow> xor_assign xs ys n = map2 (XOR) xs ys"
  by (auto simp: xor_assign_def elementwise_def intro!: nth_equalityI)

lemma length_xor_assign [simp]: "n \<le> length xs \<Longrightarrow> length (xor_assign xs ys n) = length xs"
  by (simp add: xor_assign_def elementwise_def)

lemma nth_xor_assign:
  "i < length xs \<Longrightarrow> xor_assign xs ys n ! i = (if i < n then xs ! i XOR ys ! i else xs ! i)"
  by (auto simp: xor_assign_def elementwise_def nth_append)

lemma crypt_64:
  assumes "wf_corr r" "length a = 8 * n"
  shows "chacha1_encrypt_u64 a r = Inr (map2 (XOR) (key64 (chacha1 r) n) a, draw1 n r)"
    "chacha2_decrypt_u64 a r = Inr (map2 (XOR) a (key64 (chacha2 r) n), draw2 n r)"
proof -
  have n: "(8 * n + 7) div 8 = n" "n * 8 = 8 * n" by simp_all
  show "chacha1_encrypt_u64 a r = Inr (map2 (XOR) (key64 (chacha1 r) n) a, draw1 n r)"
    "chacha2_decrypt_u64 a r = Inr (map2 (XOR) a (key64 (chacha2 r) n), draw2 n r)"
    by (simp_all only: chacha1_encrypt_u64_def chacha2_decrypt_u64_def Let_def assms(2) n fills_64 [OF assms(1)]
        rbind.simps prod.case) (simp_all add: xor_assign_all assms)
qed

section \<open>Joint runs\<close>

text \<open>
  Party \<open>p\<close> has rank \<open>usize_from_party p\<close>. The parties work on chunks of \<open>cs\<close> words on each of
  \<open>nd\<close> devices; on every device the second generator of a party is the first one of its predecessor.
  \<open>bf p\<close> is the result buffer.
\<close>

definition gpu_ident :: "PartyID \<Rightarrow> Identity" where
  "gpu_ident p = rank (usize_from_party p)"

lemma digit_char_eq: "c < 10 \<Longrightarrow> d < 10 \<Longrightarrow> digit_char c = digit_char d \<longleftrightarrow> c = d"
  by (metis char_digit_digit_char option.inject)

lemma inj_gpu_ident: "inj gpu_ident"
proof (rule injI)
  fix p q assume "gpu_ident p = gpu_ident q"
  then show "p = q" by (cases p; cases q) (simp_all add: gpu_ident_def rank_def show_usize.simps digit_char_eq)
qed

definition corr :: "(PartyID \<Rightarrow> ChaChaCudaCorrRng) \<Rightarrow> bool" where
  "corr r \<longleftrightarrow> (\<forall>p. wf_corr (r p) \<and> chacha2 (r p) = chacha1 (r (prev_id p)))"

definition gpu_synced ::
    "nat \<Rightarrow> nat \<Rightarrow> (PartyID \<Rightarrow> u64 ChunkShare list option) \<Rightarrow> (PartyID \<Rightarrow> Circuits) \<Rightarrow> bool" where
  "gpu_synced cs nd bf S \<longleftrightarrow>
     (\<forall>p. my_peer (S p) = usize_from_party p \<and> next_peer (S p) = usize_from_party (next_id p) \<and>
        prev_peer (S p) = usize_from_party (prev_id p) \<and> chunk_size (S p) = cs \<and> n_devices (S p) = nd \<and>
        result_buffer (S p) = bf p \<and> length (circuit_rngs (S p)) = nd) \<and>
     (\<forall>d < nd. corr (\<lambda>p. circuit_rngs (S p) ! d))"

definition gpu_runs ::
    "nat \<Rightarrow> nat \<Rightarrow> (PartyID \<Rightarrow> u64 ChunkShare list option) \<Rightarrow> (PartyID \<Rightarrow> 'a gpu)
       \<Rightarrow> ((PartyID \<Rightarrow> 'a) \<Rightarrow> (PartyID \<Rightarrow> u64 ChunkShare list option) \<Rightarrow> bool) \<Rightarrow> bool" where
  "gpu_runs cs nd bf M Q \<longleftrightarrow> (\<forall>S. gpu_synced cs nd bf S \<longrightarrow>
     (\<exists>A bf' S'. (step local_networking gpu_ident)\<^sup>*\<^sup>* (\<lambda>p. M p (S p), quiet gpu_ident)
        (all_returned (\<lambda>p. Inr (A p, S' p)) (quiet gpu_ident)) \<and> gpu_synced cs nd bf' S' \<and> Q A bf'))"

lemma gpu_runsD:
  assumes "gpu_runs cs nd bf M Q" "gpu_synced cs nd bf S"
  obtains A bf' S' where "(step local_networking gpu_ident)\<^sup>*\<^sup>* (\<lambda>p. M p (S p), quiet gpu_ident)
        (all_returned (\<lambda>p. Inr (A p, S' p)) (quiet gpu_ident))" "gpu_synced cs nd bf' S'" "Q A bf'"
  using assms unfolding gpu_runs_def by blast

lemma gpu_runs_local:
  assumes "\<And>S. gpu_synced cs nd bf S \<Longrightarrow>
    \<exists>A bf' S'. (\<forall>p. M p (S p) = Ret (Inr (A p, S' p))) \<and> gpu_synced cs nd bf' S' \<and> Q A bf'"
  shows "gpu_runs cs nd bf M Q"
  unfolding gpu_runs_def
proof (intro allI impI)
  fix S assume "gpu_synced cs nd bf S"
  then obtain A bf' S' where "\<forall>p. M p (S p) = Ret (Inr (A p, S' p))" "gpu_synced cs nd bf' S'" "Q A bf'"
    using assms by blast
  then show "\<exists>A bf' S'. (step local_networking gpu_ident)\<^sup>*\<^sup>* (\<lambda>p. M p (S p), quiet gpu_ident)
      (all_returned (\<lambda>p. Inr (A p, S' p)) (quiet gpu_ident)) \<and> gpu_synced cs nd bf' S' \<and> Q A bf'"
    by (intro exI [of _ A] exI [of _ bf'] exI [of _ S']) (simp add: all_returned_def)
qed

lemma gpu_runs_ret: "Q X bf \<Longrightarrow> gpu_runs cs nd bf (\<lambda>p. gret (X p)) Q"
  by (rule gpu_runs_local) (auto simp: gret_def)

lemma gpu_runs_bind:
  assumes "gpu_runs cs nd bf M P" "\<And>A bf'. P A bf' \<Longrightarrow> gpu_runs cs nd bf' (\<lambda>p. F p (A p)) Q"
  shows "gpu_runs cs nd bf (\<lambda>p. gbind (M p) (F p)) Q"
  unfolding gpu_runs_def
proof (intro allI impI)
  fix S assume "gpu_synced cs nd bf S"
  with assms(1) obtain A bf1 S1 where 1: "(step local_networking gpu_ident)\<^sup>*\<^sup>* (\<lambda>p. M p (S p), quiet gpu_ident)
        (all_returned (\<lambda>p. Inr (A p, S1 p)) (quiet gpu_ident))" "gpu_synced cs nd bf1 S1" "P A bf1" by (rule gpu_runsD)
  from assms(2) [OF 1(3)] 1(2) obtain C bf2 S2 where 2: "(step local_networking gpu_ident)\<^sup>*\<^sup>*
      (\<lambda>p. F p (A p) (S1 p), quiet gpu_ident) (all_returned (\<lambda>p. Inr (C p, S2 p)) (quiet gpu_ident))"
      "gpu_synced cs nd bf2 S2" "Q C bf2" by (rule gpu_runsD)
  have "(step local_networking gpu_ident)\<^sup>*\<^sup>* (\<lambda>p. gbind (M p) (F p) (S p), quiet gpu_ident)
      (all_returned (\<lambda>p. Inr (C p, S2 p)) (quiet gpu_ident))"
    unfolding gbind_def by (rule run_pbind [OF 1(1)]) (simp add: 2(1))
  then show "\<exists>A bf' S'. (step local_networking gpu_ident)\<^sup>*\<^sup>* (\<lambda>p. gbind (M p) (F p) (S p), quiet gpu_ident)
      (all_returned (\<lambda>p. Inr (A p, S' p)) (quiet gpu_ident)) \<and> gpu_synced cs nd bf' S' \<and> Q A bf'"
    using 2(2,3) by blast
qed

lemma gpu_runs_try:
  assumes "\<And>S p. gpu_synced cs nd bf S \<Longrightarrow> f p (S p) = Inr (X p)" "Q X bf"
  shows "gpu_runs cs nd bf (\<lambda>p. gtry (f p)) Q"
  by (rule gpu_runs_local) (use assms in \<open>auto simp: gtry_def glocal_def\<close>)

text \<open>Sequencing rules for steps that only read the state.\<close>

lemma gpu_runs_try_bind:
  assumes "\<And>S p. gpu_synced cs nd bf S \<Longrightarrow> f p (S p) = Inr (X p)" "gpu_runs cs nd bf (\<lambda>p. F p (X p)) Q"
  shows "gpu_runs cs nd bf (\<lambda>p. gbind (gtry (f p)) (F p)) Q"
  by (rule gpu_runs_bind [OF gpu_runs_try [where X = X and Q = "\<lambda>A bf'. A = X \<and> bf' = bf"]]) (use assms in auto)

lemma gpu_runs_chunk:
  assumes "gpu_runs cs nd bf (\<lambda>p. F p cs) Q"
  shows "gpu_runs cs nd bf (\<lambda>p. gbind (gtry (\<lambda>self. Inr (chunk_size self))) (F p)) Q"
  by (rule gpu_runs_try_bind [where X = "\<lambda>_. cs"]) (use assms in \<open>simp_all add: gpu_synced_def\<close>)

lemma gpu_runs_assert:
  assumes "\<And>p. length (X p) = nd" "gpu_runs cs nd bf (\<lambda>p. F p ()) Q"
  shows "gpu_runs cs nd bf (\<lambda>p. gbind (assert_devices (X p)) (F p)) Q"
  unfolding assert_devices_def
  by (rule gpu_runs_try_bind [where X = "\<lambda>_. ()"]) (use assms in \<open>simp_all add: gpu_synced_def\<close>)

text \<open>A loop over the devices in which every party draws equally much.\<close>

lemma each_device_eval:
  assumes "length xs = length (circuit_rngs s)"
    "\<And>d. d < length xs \<Longrightarrow> f (circuit_rngs s ! d) (xs ! d) = Inr (ys d, rs d)"
  shows "each_device f xs s = Ret (Inr (map ys [0..<length xs], s\<lparr>circuit_rngs := map rs [0..<length xs]\<rparr>))"
proof -
  have "rmap (\<lambda>(i, x). rbind (vec_index (circuit_rngs s) i) (\<lambda>r. f r x)) (enumerate 0 xs)
      = Inr (map (\<lambda>(i, x). (ys i, rs i)) (enumerate 0 xs))"
    by (rule rmap_Inr) (auto simp: in_set_enumerate_eq vec_index_def assms)
  moreover have "map (\<lambda>(i, x). (ys i, rs i)) (enumerate 0 xs) = map (\<lambda>i. (ys i, rs i)) [0..<length xs]"
    by (rule nth_equalityI) (simp_all add: nth_enumerate_eq)
  ultimately show ?thesis by (simp add: each_device_def glocal_def assms(1) comp_def)
qed

lemma gpu_runs_each_device:
  assumes len: "\<And>p. length (xs p) = nd"
    and step: "\<And>d r. d < nd \<Longrightarrow> corr r \<Longrightarrow>
      \<exists>ys r'. (\<forall>p. f p (r p) (xs p ! d) = Inr (ys p, r' p)) \<and> corr r' \<and> P d ys"
  shows "gpu_runs cs nd bf (\<lambda>p. each_device (f p) (xs p))
    (\<lambda>A bf'. bf' = bf \<and> (\<forall>p. length (A p) = nd) \<and> (\<forall>d < nd. P d (\<lambda>p. A p ! d)))"
proof (rule gpu_runs_local)
  fix S assume S: "gpu_synced cs nd bf S"
  let ?r = "\<lambda>d p. circuit_rngs (S p) ! d"
  have "\<forall>d. \<exists>ys r'. d < nd \<longrightarrow> (\<forall>p. f p (?r d p) (xs p ! d) = Inr (ys p, r' p)) \<and> corr r' \<and> P d ys"
    using step S unfolding gpu_synced_def by blast
  then obtain ys r' where st: "\<And>d. d < nd \<Longrightarrow> (\<forall>p. f p (?r d p) (xs p ! d) = Inr (ys d p, r' d p)) \<and> corr (r' d) \<and> P d (ys d)"
    by metis
  have rl: "length (circuit_rngs (S p)) = nd" for p using S by (simp add: gpu_synced_def)
  let ?S = "\<lambda>p. (S p)\<lparr>circuit_rngs := map (\<lambda>d. r' d p) [0..<nd]\<rparr>"
  have "each_device (f p) (xs p) (S p) = Ret (Inr (map (\<lambda>d. ys d p) [0..<nd], ?S p))" for p
    using each_device_eval [of "xs p" "S p" "f p" "\<lambda>d. ys d p" "\<lambda>d. r' d p"] st by (simp add: len rl)
  moreover have "gpu_synced cs nd bf ?S" using S st by (simp add: gpu_synced_def)
  ultimately show "\<exists>A bf' S'. (\<forall>p. each_device (f p) (xs p) (S p) = Ret (Inr (A p, S' p))) \<and> gpu_synced cs nd bf' S' \<and>
      bf' = bf \<and> (\<forall>p. length (A p) = nd) \<and> (\<forall>d < nd. P d (\<lambda>p. A p ! d))"
    using st by (intro exI [of _ "\<lambda>p. map (\<lambda>d. ys d p) [0..<nd]"] exI [of _ bf] exI [of _ ?S]) auto
qed

section \<open>The exchange\<close>

lemma xor_key: "length a = length k \<Longrightarrow> map2 (XOR) (map2 (XOR) k a) k = (a :: 'a::len word list)"
  by (auto simp: xor.commute xor.assoc intro!: nth_equalityI) (simp add: xor.left_commute)

lemma gpu_runs_exchange:
  assumes len: "\<And>p. length (xs p) = nd" and words: "\<And>p d. d < nd \<Longrightarrow> length (xs p ! d) = 8 * n"
  shows "gpu_runs cs nd bf (\<lambda>p. exchange_words (xs p)) (\<lambda>A bf'. bf' = bf \<and> A = (\<lambda>p. xs (prev_id p)))"
  unfolding gpu_runs_def
proof (intro allI impI)
  fix S assume S: "gpu_synced cs nd bf S"
  let ?r = "\<lambda>p d. circuit_rngs (S p) ! d"
  let ?send = "\<lambda>p. map (\<lambda>d. map2 (XOR) (key64 (chacha1 (?r p d)) n) (xs p ! d)) [0..<nd]"
  let ?S1 = "\<lambda>p. (S p)\<lparr>circuit_rngs := map (\<lambda>d. draw1 n (?r p d)) [0..<nd]\<rparr>"
  let ?S2 = "\<lambda>p. (S p)\<lparr>circuit_rngs := map (\<lambda>d. draw2 n (draw1 n (?r p d))) [0..<nd]\<rparr>"
  have peers: "next_peer (S p) = usize_from_party (next_id p)" "prev_peer (S p) = usize_from_party (prev_id p)"
    "length (circuit_rngs (S p)) = nd" for p using S by (simp_all add: gpu_synced_def)
  have r: "wf_corr (?r p d)" "chacha2 (?r p d) = chacha1 (?r (prev_id p) d)" if "d < nd" for p d
    using S that by (auto simp: gpu_synced_def corr_def)
  have enc: "each_device (\<lambda>rng a. chacha1_encrypt_u64 a rng) (xs p) (S p) = Ret (Inr (?send p, ?S1 p))" for p
    using each_device_eval [of "xs p" "S p" "\<lambda>rng a. chacha1_encrypt_u64 a rng"
        "\<lambda>d. map2 (XOR) (key64 (chacha1 (?r p d)) n) (xs p ! d)" "\<lambda>d. draw1 n (?r p d)"]
    by (simp add: len peers crypt_64 r words)
  have dec: "each_device (\<lambda>rng b. chacha2_decrypt_u64 b rng) (?send (prev_id p)) (?S1 p) = Ret (Inr (xs (prev_id p), ?S2 p))" for p
  proof -
    have "each_device (\<lambda>rng b. chacha2_decrypt_u64 b rng) (?send (prev_id p)) (?S1 p)
        = Ret (Inr (map (\<lambda>d. xs (prev_id p) ! d) [0..<nd], ?S2 p))"
      using each_device_eval [of "?send (prev_id p)" "?S1 p" "\<lambda>rng b. chacha2_decrypt_u64 b rng"
          "\<lambda>d. xs (prev_id p) ! d" "\<lambda>d. draw2 n (draw1 n (?r p d))"]
      by (simp add: crypt_64 [where n = n] r words xor_key)
    moreover have "map (\<lambda>d. xs (prev_id p) ! d) [0..<nd] = xs (prev_id p)" using map_nth [of "xs (prev_id p)"] len by simp
    ultimately show ?thesis by simp
  qed
  have ok: "map length (?send (prev_id p)) = map length (xs p)" for p
    by (rule nth_equalityI) (simp_all add: len words)
  note run = gbind_def gsend_def greceive_def gtry_def glocal_def
  let ?L = "\<lambda>p w. case rbind w (\<lambda>w. Inr (w, ?S1 p)) of Inl e \<Rightarrow> Ret (Inl e) | Inr (w, s) \<Rightarrow>
      (case rbind (expect_64 (map length (xs p)) w) (\<lambda>x. Inr (x, s)) of Inl e \<Rightarrow> Ret (Inl e) | Inr (rcv, s) \<Rightarrow>
        each_device (\<lambda>rng b. chacha2_decrypt_u64 b rng) rcv s)"
  have "(step local_networking gpu_ident)\<^sup>*\<^sup>* (\<lambda>p. exchange_words (xs p) (S p), quiet gpu_ident)
      (\<lambda>p. ?L p (Inr (Words64 (?send (prev_id p)))), quiet gpu_ident)"
    by (rule run_exchange [OF inj_gpu_ident])
      (simp add: exchange_words_def run enc peers gpu_ident_def)
  moreover have "?L p (Inr (Words64 (?send (prev_id p)))) = Ret (Inr (xs (prev_id p), ?S2 p))" for p
    unfolding expect_64_def by (simp only: Wire.case ok simp_thms if_True rbind.simps sum.case prod.case dec)
  moreover have "gpu_synced cs nd bf ?S2" using S by (simp add: gpu_synced_def corr_def)
  ultimately show "\<exists>A bf' S'. (step local_networking gpu_ident)\<^sup>*\<^sup>* (\<lambda>p. exchange_words (xs p) (S p), quiet gpu_ident)
      (all_returned (\<lambda>p. Inr (A p, S' p)) (quiet gpu_ident)) \<and> gpu_synced cs nd bf' S' \<and>
      bf' = bf \<and> A = (\<lambda>p. xs (prev_id p))"
    by (intro exI [of _ "\<lambda>p. xs (prev_id p)"] exI [of _ bf] exI [of _ ?S2]) (simp add: all_returned_def)
qed

section \<open>Shared words\<close>

text \<open>
  \<open>shared_words n x v\<close>: the parties' buffers \<open>x\<close> are replicated shares, by exclusive or, of the
  \<open>n\<close> words \<open>v\<close>; \<open>half_words\<close> is the same before the second components are exchanged.
\<close>

definition half_words :: "nat \<Rightarrow> (PartyID \<Rightarrow> u64 ChunkShare) \<Rightarrow> (nat \<Rightarrow> u64) \<Rightarrow> bool" where
  "half_words n x v \<longleftrightarrow> (\<forall>p. length (ck_a (x p)) = n \<and> length (ck_b (x p)) = n) \<and>
     (\<forall>i < n. ck_a (x ID0) ! i XOR ck_a (x ID1) ! i XOR ck_a (x ID2) ! i = v i)"

definition shared_words :: "nat \<Rightarrow> (PartyID \<Rightarrow> u64 ChunkShare) \<Rightarrow> (nat \<Rightarrow> u64) \<Rightarrow> bool" where
  "shared_words n x v \<longleftrightarrow> half_words n x v \<and> (\<forall>p. ck_b (x p) = ck_a (x (prev_id p)))"

definition dev_shared :: "nat \<Rightarrow> nat \<Rightarrow> (PartyID \<Rightarrow> u64 ChunkShare list) \<Rightarrow> (nat \<Rightarrow> nat \<Rightarrow> u64) \<Rightarrow> bool" where
  "dev_shared nd n X V \<longleftrightarrow> (\<forall>p. length (X p) = nd) \<and> (\<forall>d < nd. shared_words n (\<lambda>p. X p ! d) (V d))"

definition dev_half :: "nat \<Rightarrow> nat \<Rightarrow> (PartyID \<Rightarrow> u64 ChunkShare list) \<Rightarrow> (nat \<Rightarrow> nat \<Rightarrow> u64) \<Rightarrow> bool" where
  "dev_half nd n X V \<longleftrightarrow> (\<forall>p. length (X p) = nd) \<and> (\<forall>d < nd. half_words n (\<lambda>p. X p ! d) (V d))"

lemma shared_wordsD:
  assumes "shared_words n x v"
  shows "length (ck_a (x p)) = n" "length (ck_b (x p)) = n" "ck_b (x p) = ck_a (x (prev_id p))"
    "i < n \<Longrightarrow> ck_a (x ID0) ! i XOR ck_a (x ID1) ! i XOR ck_a (x ID2) ! i = v i"
  using assms by (simp_all add: shared_words_def half_words_def)

lemma dev_sharedD:
  assumes "dev_shared nd n X V"
  shows "length (X p) = nd" "d < nd \<Longrightarrow> shared_words n (\<lambda>p. X p ! d) (V d)"
  using assms by (simp_all add: dev_shared_def)

lemma shared_words_cong: "shared_words n x v \<Longrightarrow> (\<And>i. i < n \<Longrightarrow> v i = w i) \<Longrightarrow> shared_words n x w"
  by (simp add: shared_words_def half_words_def)

lemma dev_shared_cong:
  "dev_shared nd n X V \<Longrightarrow> (\<And>d i. d < nd \<Longrightarrow> i < n \<Longrightarrow> V d i = W d i) \<Longrightarrow> dev_shared nd n X W"
  by (auto simp: dev_shared_def intro: shared_words_cong)

text \<open>Views, and the exclusive or of a part of a buffer.\<close>

definition part :: "nat \<Rightarrow> nat \<Rightarrow> 'a ChunkShare \<Rightarrow> 'a ChunkShare" where
  "part start stop x = \<lparr>ck_a = take (stop - start) (drop start (ck_a x)), ck_b = take (stop - start) (drop start (ck_b x))\<rparr>"

lemma get_range_shared:
  assumes "shared_words n x v" "start \<le> stop" "stop \<le> n"
  shows "get_range start stop (x p) = Inr (part start stop (x p))"
    "shared_words (stop - start) (\<lambda>p. part start stop (x p)) (\<lambda>i. v (start + i))"
  using assms by (auto simp: get_range_def view_slice_def part_def shared_words_def half_words_def)

lemma get_offset_shared:
  assumes "shared_words n x v" "(k + 1) * m \<le> n"
  shows "get_offset k m (x p) = Inr (part (k * m) ((k + 1) * m) (x p))"
    "shared_words m (\<lambda>p. part (k * m) ((k + 1) * m) (x p)) (\<lambda>i. v (k * m + i))"
proof -
  have "k * m \<le> (k + 1) * m" "(k + 1) * m - k * m = m" by simp_all
  with get_range_shared(1) [OF assms(1) _ assms(2), of "k * m" p] get_range_shared(2) [OF assms(1) _ assms(2), of "k * m"]
  show "get_offset k m (x p) = Inr (part (k * m) ((k + 1) * m) (x p))"
    "shared_words m (\<lambda>p. part (k * m) ((k + 1) * m) (x p)) (\<lambda>i. v (k * m + i))"
    by (simp_all only: get_offset_def)
qed

lemma xor_regroup: "(a XOR a') XOR (b XOR b') XOR (c XOR c') = (a XOR b XOR c) XOR (a' XOR b' XOR (c' :: 'a::len word))"
  by (simp add: xor.assoc xor.left_commute)

lemma xor_assign_shared:
  assumes "shared_words n x v" "shared_words m y w" "k \<le> n" "k \<le> m"
  shows "shared_words n (\<lambda>p. shared_xor_assign (x p) (y p) k) (\<lambda>i. if i < k then v i XOR w i else v i)"
  unfolding shared_words_def half_words_def
proof (intro conjI allI impI)
  fix i assume "i < n"
  then show "ck_a (shared_xor_assign (x ID0) (y ID0) k) ! i XOR ck_a (shared_xor_assign (x ID1) (y ID1) k) ! i XOR
      ck_a (shared_xor_assign (x ID2) (y ID2) k) ! i = (if i < k then v i XOR w i else v i)"
    using shared_wordsD(4) [OF assms(1), of i] shared_wordsD(4) [OF assms(2), of i] assms(3,4)
    by (simp add: shared_xor_assign_def nth_xor_assign shared_wordsD(1) [OF assms(1)] xor_regroup)
qed (use assms in \<open>simp_all add: shared_xor_assign_def shared_wordsD [OF assms(1)] shared_wordsD [OF assms(2)]\<close>)

lemma xor_shared:
  assumes "shared_words n x v" "shared_words m y w" "k \<le> n" "k \<le> m"
  shows "shared_words k (\<lambda>p. shared_xor (x p) (y p) k) (\<lambda>i. v i XOR w i)"
  unfolding shared_words_def half_words_def
proof (intro conjI allI impI)
  fix i assume "i < k"
  then show "ck_a (shared_xor (x ID0) (y ID0) k) ! i XOR ck_a (shared_xor (x ID1) (y ID1) k) ! i XOR
      ck_a (shared_xor (x ID2) (y ID2) k) ! i = v i XOR w i"
    using shared_wordsD(4) [OF assms(1), of i] shared_wordsD(4) [OF assms(2), of i] assms(3,4)
    by (simp add: shared_xor_def elementwise_def xor_regroup)
qed (use assms in \<open>simp_all add: shared_xor_def elementwise_def shared_wordsD(3) [OF assms(1)] shared_wordsD(3) [OF assms(2)]\<close>)

text \<open>Conjunction: the three local parts, masked by correlated randomness, add up to it.\<close>

lemma and_pre_sum:
  fixes a0 a1 a2 b0 b1 b2 r0 r1 r2 :: u64
  shows "and_pre_inner a0 a2 b0 b2 (r0 XOR r2) XOR and_pre_inner a1 a0 b1 b0 (r1 XOR r0) XOR and_pre_inner a2 a1 b2 b1 (r2 XOR r1)
    = (a0 XOR a1 XOR a2) AND (b0 XOR b1 XOR b2)"
  by (rule bit_word_eqI) (auto simp: and_pre_inner_def bit_xor_iff bit_and_iff)

lemma and_pre_shared:
  assumes x: "shared_words n x v" and y: "shared_words m y w" and le: "k \<le> n" "k \<le> m" "k \<le> l"
    and R: "\<And>p. length (R p) = l" "\<And>p. rand p = map2 (XOR) (R p) (R (prev_id p))"
  shows "half_words k (\<lambda>p. pending (shared_and_pre (x p) (y p) (rand p) k)) (\<lambda>i. v i AND w i)"
  unfolding half_words_def
proof (intro conjI allI impI)
  fix i assume i: "i < k"
  have rand: "rand p ! i = R p ! i XOR R (prev_id p) ! i" for p using i le by (simp add: R)
  show "ck_a (pending (shared_and_pre (x ID0) (y ID0) (rand ID0) k)) ! i XOR
      ck_a (pending (shared_and_pre (x ID1) (y ID1) (rand ID1) k)) ! i XOR
      ck_a (pending (shared_and_pre (x ID2) (y ID2) (rand ID2) k)) ! i = v i AND w i"
    using i le shared_wordsD(4) [OF x, of i] shared_wordsD(4) [OF y, of i]
    by (simp add: pending_def shared_and_pre_def rand shared_wordsD(3) [OF x] shared_wordsD(3) [OF y] and_pre_sum)
qed (simp_all add: pending_def shared_and_pre_def)

section \<open>Rounds\<close>

lemma corr_rand:
  assumes "corr r"
  shows "\<exists>R r'. (\<forall>p. length (R p) = 8 * k) \<and>
    (\<forall>p. fill_rand_u64 (8 * k) (r p) = Inr (map2 (XOR) (R p) (R (prev_id p)), r' p)) \<and> corr r'"
  using assms
  by (intro exI [of _ "\<lambda>p. key64 (chacha1 (r p)) k"] exI [of _ "\<lambda>p. draw2 k (draw1 k (r p))"])
    (auto simp: corr_def fills_64)

lemma packed_and_ok:
  assumes "corr r" "shared_words n x v" "shared_words m y w" "cs * bits \<le> n" "cs * bits \<le> m"
  shows "\<exists>ys r'. (\<forall>p. packed_and_many_pre cs (x p) (y p) bits (r p) = Inr (ys p, r' p)) \<and> corr r' \<and>
    half_words (cs * bits) ys (\<lambda>i. v i AND w i)"
proof -
  let ?k = "(cs * bits + 7) div 8"
  obtain R r' where R: "\<And>p. length (R p) = 8 * ?k"
    "\<And>p. fill_rand_u64 (8 * ?k) (r p) = Inr (map2 (XOR) (R p) (R (prev_id p)), r' p)" "corr r'"
    using corr_rand [OF assms(1), of ?k] by auto
  have "cs * bits \<le> 8 * ?k" by simp
  with and_pre_shared [OF assms(2-5) this R(1) refl] R show ?thesis
    by (intro exI [of _ "\<lambda>p. pending (shared_and_pre (x p) (y p) (map2 (XOR) (R p) (R (prev_id p))) (cs * bits))"]
        exI [of _ r']) (simp add: packed_and_many_pre_def Let_def mult.commute [of _ 8])
qed

lemma and_many_packed: "and_many_pre cs x y = packed_and_many_pre cs x y 1"
  by (simp add: and_many_pre_def packed_and_many_pre_def fun_eq_iff)

lemma and_many_ok:
  assumes "corr r" "shared_words n x v" "shared_words m y w" "cs \<le> n" "cs \<le> m"
  shows "\<exists>ys r'. (\<forall>p. and_many_pre cs (x p) (y p) (r p) = Inr (ys p, r' p)) \<and> corr r' \<and>
    half_words cs ys (\<lambda>i. v i AND w i)"
  using packed_and_ok [OF assms(1-3), of cs 1] assms(4,5) unfolding and_many_packed by simp

lemma reshared:
  assumes "half_words n x v"
  shows "shared_words n (\<lambda>p. (x p)\<lparr>ck_b := ck_a (x (prev_id p))\<rparr>) v"
  using assms by (simp add: shared_words_def half_words_def)

lemma dev_reshared:
  assumes "dev_half nd n X V"
  shows "dev_shared nd n (\<lambda>p. map2 (\<lambda>r b. r\<lparr>ck_b := b\<rparr>) (X p) (map ck_a (X (prev_id p)))) V"
  using assms by (auto simp: dev_shared_def dev_half_def intro!: reshared [of n "\<lambda>p. X p ! d" "V d" for d])

lemma gpu_runs_send_receive:
  assumes X: "dev_half nd (8 * n) X V"
  shows "gpu_runs cs nd bf (\<lambda>p. send_receive_view (X p)) (\<lambda>A bf'. bf' = bf \<and> dev_shared nd (8 * n) A V)"
proof -
  have len: "length (X p) = nd" "d < nd \<Longrightarrow> length (ck_a (X p ! d)) = 8 * n" for p d
    using X by (simp_all add: dev_half_def half_words_def)
  show ?thesis
    unfolding send_receive_view_def
    by (rule gpu_runs_assert [OF len(1)], rule gpu_runs_bind [OF gpu_runs_exchange [where n = n]])
      (auto simp: len intro!: gpu_runs_ret dev_reshared X)
qed

lemma gpu_runs_packed_send_receive:
  assumes X: "dev_half nd (bits * cs) X V" and cs: "8 dvd cs"
  shows "gpu_runs cs nd bf (\<lambda>p. packed_send_receive_view bits (X p)) (\<lambda>A bf'. bf' = bf \<and> dev_shared nd (bits * cs) A V)"
proof -
  from cs obtain n where n: "bits * cs = 8 * n" by (metis dvd_def dvd_mult)
  have len: "length (X p) = nd" "d < nd \<Longrightarrow> length (ck_a (X p ! d)) = bits * cs" "d < nd \<Longrightarrow> length (ck_b (X p ! d)) = bits * cs" for p d
    using X by (simp_all add: dev_half_def half_words_def)
  have all: "rmap (get_range 0 (bits * cs)) (X p) = Inr (X p)" for p
  proof -
    have "get_range 0 (bits * cs) x = Inr x" if "x \<in> set (X p)" for x
      using that len by (auto simp: in_set_conv_nth get_range_def view_slice_def)
    then show ?thesis using rmap_Inr [of "X p" "get_range 0 (bits * cs)" "\<lambda>x. x"] by simp
  qed
  have res: "map2 (\<lambda>r b. r\<lparr>ck_b := take 0 (ck_b r) @ b @ drop (bits * cs) (ck_b r)\<rparr>) (X p) (map ck_a (X q))
      = map2 (\<lambda>r b. r\<lparr>ck_b := b\<rparr>) (X p) (map ck_a (X q))" for p q
    by (rule nth_equalityI) (simp_all add: len)
  show ?thesis
    unfolding packed_send_receive_view_def send_receive_view_with_offset_def
    apply (rule gpu_runs_chunk)
    apply (rule gpu_runs_assert [OF len(1)])
    apply (rule gpu_runs_try_bind, rule all)
    apply (rule gpu_runs_bind [OF gpu_runs_exchange [where n = n]])
      apply (simp add: len)
     apply (simp add: len n)
    apply (elim conjE)
    apply (simp only: res)
    apply (rule gpu_runs_ret)
    apply (simp add: dev_reshared X)
    done
qed

section \<open>The ripple-carry loop\<close>

fun carries :: "nat list \<Rightarrow> (nat \<Rightarrow> u64) \<Rightarrow> (nat \<Rightarrow> u64) \<Rightarrow> u64 \<Rightarrow> u64" where
  "carries [] a b c = c"
| "carries (k # ks) a b c = carries ks a b (c XOR ((a k XOR c) AND (b k XOR c)))"

lemma bit_carries:
  "bit (carries ks a b c) i = carry_bits (map (\<lambda>k. (bit (a k) i, bit (b k) i)) ks) (bit c i)"
  by (induction ks arbitrary: c) (simp_all add: bit_simps)

lemma dev_shared_map2_xor:
  assumes "dev_shared nd n X V" "dev_shared nd m Y W" "k \<le> n" "k \<le> m"
  shows "dev_shared nd n (\<lambda>p. map2 (\<lambda>x y. shared_xor_assign x y k) (X p) (Y p))
    (\<lambda>d i. if i < k then V d i XOR W d i else V d i)"
  using assms xor_assign_shared [of n "\<lambda>p. X p ! d" "V d" m "\<lambda>p. Y p ! d" "W d" k for d]
  by (simp add: dev_shared_def)

lemma plane_fits: "k < n \<Longrightarrow> (k + 1) * cs \<le> n * cs" for k :: nat
  by (intro mult_le_mono1) simp

lemma gpu_runs_first_carry:
  assumes X: "dev_shared nd (na * cs) a VA" "dev_shared nd (nb * cs) b VB" "0 < na" "0 < nb" and cs: "8 dvd cs"
  shows "gpu_runs cs nd bf (\<lambda>p. first_carry_round cs (a p) (b p))
    (\<lambda>A bf'. bf' = bf \<and> dev_shared nd cs A (\<lambda>d j. VA d j AND VB d j))"
proof -
  from cs obtain n where n: "cs = 8 * n" by (elim dvdE)
  have fits: "(0 + 1) * cs \<le> na * cs" "(0 + 1) * cs \<le> nb * cs" using plane_fits X(3,4) by blast+
  have step: "\<exists>ys r'. (\<forall>p. (case zip (a p) (b p) ! d of (a, b) \<Rightarrow>
        rbind (get_offset 0 cs a) (\<lambda>a. rbind (get_offset 0 cs b) (\<lambda>b. and_many_pre cs a b (r p)))) = Inr (ys p, r' p)) \<and>
      corr r' \<and> half_words cs ys (\<lambda>j. VA d j AND VB d j)" if "d < nd" "corr r" for d r
  proof -
    note ab = get_offset_shared [OF dev_sharedD(2) [OF X(1) that(1)] fits(1)]
      get_offset_shared [OF dev_sharedD(2) [OF X(2) that(1)] fits(2)]
    show ?thesis
      using and_many_ok [OF that(2) ab(2,4), of cs] that(1)
      by (simp add: dev_sharedD(1) [OF X(1)] dev_sharedD(1) [OF X(2)] ab [simplified])
  qed
  show ?thesis
    unfolding first_carry_round_def
  proof (rule gpu_runs_bind [OF gpu_runs_each_device [where P = "\<lambda>d ys. half_words cs ys (\<lambda>j. VA d j AND VB d j)"]])
    show "length (zip (a p) (b p)) = nd" for p by (simp add: dev_sharedD(1) [OF X(1)] dev_sharedD(1) [OF X(2)])
  next
    fix C bf' assume "bf' = bf \<and> (\<forall>p. length (C p) = nd) \<and> (\<forall>d < nd. half_words cs (\<lambda>p. C p ! d) (\<lambda>j. VA d j AND VB d j))"
    then show "gpu_runs cs nd bf' (\<lambda>p. send_receive_view (C p)) (\<lambda>A bf'. bf' = bf \<and> dev_shared nd cs A (\<lambda>d j. VA d j AND VB d j))"
      using gpu_runs_send_receive [of nd n C] by (simp add: n dev_half_def)
  qed (rule step)
qed

lemma gpu_runs_carry_rounds:
  assumes X: "dev_shared nd (na * cs) a VA" "dev_shared nd (nb * cs) b VB" and cs: "8 dvd cs"
  shows "\<forall>k \<in> set ks. k < na \<and> k < nb \<Longrightarrow> dev_shared nd cs c VC \<Longrightarrow>
    gpu_runs cs nd bf (\<lambda>p. carry_rounds cs ks (a p) (b p) (c p))
    (\<lambda>A bf'. bf' = bf \<and> dev_shared nd cs A (\<lambda>d j. carries ks (\<lambda>k. VA d (k * cs + j)) (\<lambda>k. VB d (k * cs + j)) (VC d j)))"
proof (induction ks arbitrary: c VC)
  case Nil
  then show ?case by (simp add: gpu_runs_ret)
next
  case (Cons k ks)
  from cs obtain n where n: "cs = 8 * n" by (elim dvdE)
  let ?T = "\<lambda>d j. (VA d (k * cs + j) XOR VC d j) AND (VB d (k * cs + j) XOR VC d j)"
  have fits: "(k + 1) * cs \<le> na * cs" "(k + 1) * cs \<le> nb * cs" using plane_fits Cons.prems(1) by auto
  have step: "\<exists>ys r'. (\<forall>p. (case zip (a p) (zip (b p) (c p)) ! d of (a, b, c) \<Rightarrow>
        rbind (get_offset k cs a) (\<lambda>a. rbind (get_offset k cs b) (\<lambda>b.
          and_many_pre cs (xor_assign_many cs a c) (xor_assign_many cs b c) (r p)))) = Inr (ys p, r' p)) \<and>
      corr r' \<and> half_words cs ys (?T d)" if "d < nd" "corr r" for d r
  proof -
    note ab = get_offset_shared [OF dev_sharedD(2) [OF X(1) that(1)] fits(1)]
      get_offset_shared [OF dev_sharedD(2) [OF X(2) that(1)] fits(2)]
    note c = dev_sharedD(2) [OF Cons.prems(2) that(1)]
    have "shared_words cs (\<lambda>p. xor_assign_many cs (part (k * cs) ((k + 1) * cs) (a p ! d)) (c p ! d)) (\<lambda>j. VA d (k * cs + j) XOR VC d j)"
      unfolding xor_assign_many_def
      by (rule shared_words_cong [OF xor_assign_shared [OF ab(2) c order_refl order_refl]]) simp
    moreover have "shared_words cs (\<lambda>p. xor_assign_many cs (part (k * cs) ((k + 1) * cs) (b p ! d)) (c p ! d)) (\<lambda>j. VB d (k * cs + j) XOR VC d j)"
      unfolding xor_assign_many_def
      by (rule shared_words_cong [OF xor_assign_shared [OF ab(4) c order_refl order_refl]]) simp
    ultimately show ?thesis
      using and_many_ok [OF that(2)] that(1)
      by (simp add: dev_sharedD(1) [OF X(1)] dev_sharedD(1) [OF X(2)] dev_sharedD(1) [OF Cons.prems(2)] ab(1,3))
  qed
  show ?case
    unfolding carry_rounds.simps
  proof (rule gpu_runs_bind [OF gpu_runs_each_device [where P = "\<lambda>d ys. half_words cs ys (?T d)"]])
    show "length (zip (a p) (zip (b p) (c p))) = nd" for p
      by (simp add: dev_sharedD(1) [OF X(1)] dev_sharedD(1) [OF X(2)] dev_sharedD(1) [OF Cons.prems(2)])
  next
    fix C bf' assume "bf' = bf \<and> (\<forall>p. length (C p) = nd) \<and> (\<forall>d < nd. half_words cs (\<lambda>p. C p ! d) (?T d))"
    then have bf': "bf' = bf" and C: "dev_half nd (8 * n) C ?T" by (simp_all add: dev_half_def n)
    show "gpu_runs cs nd bf' (\<lambda>p. gbind (send_receive_view (C p)) (\<lambda>t.
        carry_rounds cs ks (a p) (b p) (map2 (xor_assign_many cs) (c p) t)))
      (\<lambda>A bf'. bf' = bf \<and> dev_shared nd cs A
        (\<lambda>d j. carries (k # ks) (\<lambda>k. VA d (k * cs + j)) (\<lambda>k. VB d (k * cs + j)) (VC d j)))"
      unfolding bf'
    proof (rule gpu_runs_bind [OF gpu_runs_send_receive [OF C]], elim conjE, hypsubst)
      fix T assume T: "dev_shared nd (8 * n) T ?T"
      have "dev_shared nd cs (\<lambda>p. map2 (xor_assign_many cs) (c p) (T p)) (\<lambda>d j. if j < cs then VC d j XOR ?T d j else VC d j)"
        using dev_shared_map2_xor [OF Cons.prems(2) T, of cs] by (simp add: n xor_assign_many_def)
      then have "dev_shared nd cs (\<lambda>p. map2 (xor_assign_many cs) (c p) (T p)) (\<lambda>d j. VC d j XOR ?T d j)"
        by (rule dev_shared_cong) simp
      from Cons.IH [OF _ this] Cons.prems(1)
      show "gpu_runs cs nd bf (\<lambda>p. carry_rounds cs ks (a p) (b p) (map2 (xor_assign_many cs) (c p) (T p)))
        (\<lambda>A bf'. bf' = bf \<and> dev_shared nd cs A
          (\<lambda>d j. carries (k # ks) (\<lambda>k. VA d (k * cs + j)) (\<lambda>k. VB d (k * cs + j)) (VC d j)))"
        by simp
    qed
  qed (rule step)
qed

section \<open>The adders\<close>

text \<open>The words of the sum without its lowest plane, and of the carries of the first full adder.\<close>

definition sum_words :: "nat \<Rightarrow> (nat \<Rightarrow> u64) \<Rightarrow> (nat \<Rightarrow> u64) \<Rightarrow> (nat \<Rightarrow> u64) \<Rightarrow> nat \<Rightarrow> u64" where
  "sum_words cs v1 v2 v3 i = v1 (cs + i) XOR (v2 (cs + i) XOR v3 (cs + i))"

definition carry_words :: "(nat \<Rightarrow> u64) \<Rightarrow> (nat \<Rightarrow> u64) \<Rightarrow> (nat \<Rightarrow> u64) \<Rightarrow> nat \<Rightarrow> u64" where
  "carry_words v1 v2 v3 i = ((v1 i XOR v3 i) AND (v2 i XOR v3 i)) XOR v3 i"

definition ck_sized :: "nat \<Rightarrow> 'a ChunkShare \<Rightarrow> bool" where
  "ck_sized n x \<longleftrightarrow> length (ck_a x) = n \<and> length (ck_b x) = n"

lemma ck_sized_shared: "shared_words n x v \<Longrightarrow> ck_sized n (x p)"
  by (simp add: ck_sized_def shared_wordsD)

lemma first_full_adder_ok:
  assumes r: "corr r" and x: "shared_words (K * cs) x1 v1" "shared_words (K * cs) x2 v2" "shared_words (K * cs) x3 v3"
    and K: "1 \<le> K" "bits \<le> K"
  shows "\<exists>ys r'. (\<forall>p. first_full_adder cs K bits (r p) (x1 p, x2 p, x3 p) = Inr (ys p, r' p)) \<and> corr r' \<and>
    shared_words ((K - 1) * cs) (\<lambda>p. fst (ys p)) (sum_words cs v1 v2 v3) \<and>
    half_words (bits * cs) (\<lambda>p. fst (snd (ys p))) (\<lambda>i. (v1 i XOR v3 i) AND (v2 i XOR v3 i)) \<and>
    (\<forall>p. ck_sized (K * cs) (fst (snd (snd (ys p)))) \<and> ck_sized (K * cs) (snd (snd (snd (ys p)))))"
proof -
  let ?x23 = "\<lambda>p. packed_xor_assign_many cs (x2 p) (x3 p) K"
  let ?x13 = "\<lambda>p. packed_xor_assign_many cs (x1 p) (x3 p) bits"
  have cs: "cs \<le> K * cs" "K * cs \<le> K * cs" "cs * K = K * cs" "cs * bits = bits * cs" "bits * cs \<le> K * cs"
    "K * cs - cs = (K - 1) * cs" "cs * (K - 1) = (K - 1) * cs" "(K - 1) * cs \<le> (K - 1) * cs"
    using K by (simp_all add: mult.commute diff_mult_distrib2)
  have x23: "shared_words (K * cs) ?x23 (\<lambda>i. v2 i XOR v3 i)"
    unfolding packed_xor_assign_many_def cs
    by (rule shared_words_cong [OF xor_assign_shared [OF x(2,3) order_refl order_refl]]) simp
  have x13: "shared_words (K * cs) ?x13 (\<lambda>i. if i < bits * cs then v1 i XOR v3 i else v1 i)"
    unfolding packed_xor_assign_many_def cs by (rule xor_assign_shared [OF x(1,3) cs(5,5)])
  note r1 = get_range_shared [OF x(1) cs(1,2), unfolded cs] and r2 = get_range_shared [OF x23 cs(1,2), unfolded cs]
  have s: "shared_words ((K - 1) * cs) (\<lambda>p. packed_xor_many cs (part cs (K * cs) (x1 p)) (part cs (K * cs) (?x23 p)) (K - 1))
      (sum_words cs v1 v2 v3)"
    unfolding packed_xor_many_def cs sum_words_def [abs_def] by (rule xor_shared [OF r1(2) r2(2) cs(8,8)])
  obtain C r' where C: "\<And>p. packed_and_many_pre cs (?x13 p) (?x23 p) bits (r p) = Inr (C p, r' p)" "corr r'"
    "half_words (bits * cs) C (\<lambda>i. (if i < bits * cs then v1 i XOR v3 i else v1 i) AND (v2 i XOR v3 i))"
    using packed_and_ok [OF r x13 x23, of cs bits, unfolded cs, OF cs(5,5)] by blast
  have "half_words (bits * cs) C (\<lambda>i. (v1 i XOR v3 i) AND (v2 i XOR v3 i))" using C(3) by (simp add: half_words_def)
  then show ?thesis
    using C(1,2) s ck_sized_shared [OF x13] ck_sized_shared [OF x23]
    by (intro exI [of _ "\<lambda>p. (packed_xor_many cs (part cs (K * cs) (x1 p)) (part cs (K * cs) (?x23 p)) (K - 1), C p, ?x13 p, ?x23 p)"]
        exI [of _ r']) (simp add: first_full_adder_def Let_def r1(1) r2(1))
qed

lemma gpu_runs_adder:
  assumes X: "dev_shared nd (K * cs) X1 V1" "dev_shared nd (K * cs) X2 V2" "dev_shared nd (K * cs) X3 V3"
    and K: "2 \<le> K" "bits \<le> K" "m < K" "m \<le> bits" "0 < bits" and cs: "8 dvd cs"
    and F: "\<And>SC A Bs C. (\<forall>p. length (SC p) = nd) \<Longrightarrow>
      (\<forall>p. \<forall>d < nd. ck_sized (K * cs) (fst (snd (snd (SC p ! d)))) \<and> ck_sized (K * cs) (snd (snd (snd (SC p ! d))))) \<Longrightarrow>
      dev_shared nd ((K - 1) * cs) A (\<lambda>d. sum_words cs (V1 d) (V2 d) (V3 d)) \<Longrightarrow>
      dev_shared nd (bits * cs) Bs (\<lambda>d. carry_words (V1 d) (V2 d) (V3 d)) \<Longrightarrow>
      dev_shared nd cs C (\<lambda>d j. carries [1..<m] (\<lambda>k. sum_words cs (V1 d) (V2 d) (V3 d) (k * cs + j))
        (\<lambda>k. carry_words (V1 d) (V2 d) (V3 d) (k * cs + j))
        (sum_words cs (V1 d) (V2 d) (V3 d) j AND carry_words (V1 d) (V2 d) (V3 d) j)) \<Longrightarrow>
      gpu_runs cs nd bf (\<lambda>p. F p (SC p) (A p) (Bs p) (C p)) Q"
  shows "gpu_runs cs nd bf (\<lambda>p.
    gbind (each_device (first_full_adder cs K bits) (zip (X1 p) (zip (X2 p) (X3 p)))) (\<lambda>sc.
    gbind (packed_send_receive_view bits (map (\<lambda>(s, c, _, _). c) sc)) (\<lambda>carry.
    let a = map fst sc; b = map2 (\<lambda>c x3. packed_xor_assign_many cs c x3 bits) carry (X3 p) in
    gbind (first_carry_round cs a b) (\<lambda>c. gbind (carry_rounds cs [1..<m] a b c) (F p sc a b))))) Q"
proof (rule gpu_runs_bind [OF gpu_runs_each_device [where P = "\<lambda>d ys.
      shared_words ((K - 1) * cs) (\<lambda>p. fst (ys p)) (sum_words cs (V1 d) (V2 d) (V3 d)) \<and>
      half_words (bits * cs) (\<lambda>p. fst (snd (ys p))) (\<lambda>i. (V1 d i XOR V3 d i) AND (V2 d i XOR V3 d i)) \<and>
      (\<forall>p. ck_sized (K * cs) (fst (snd (snd (ys p)))) \<and> ck_sized (K * cs) (snd (snd (snd (ys p)))))"]], goal_cases)
  case (1 p)
  show ?case by (simp add: dev_sharedD(1) [OF X(1)] dev_sharedD(1) [OF X(2)] dev_sharedD(1) [OF X(3)])
next
  case (2 d r)
  note x = dev_sharedD(2) [OF X(1) 2(1)] dev_sharedD(2) [OF X(2) 2(1)] dev_sharedD(2) [OF X(3) 2(1)]
  show ?case
    using first_full_adder_ok [OF 2(2) x] K 2(1)
    by (simp add: dev_sharedD(1) [OF X(1)] dev_sharedD(1) [OF X(2)] dev_sharedD(1) [OF X(3)])
next
  case (3 SC bf')
  let ?V = "\<lambda>d i. (V1 d i XOR V3 d i) AND (V2 d i XOR V3 d i)"
  let ?a = "\<lambda>p. map fst (SC p)"
  have bf': "bf' = bf" using 3 by simp
  note SC = 3
  have a: "dev_shared nd ((K - 1) * cs) ?a (\<lambda>d. sum_words cs (V1 d) (V2 d) (V3 d))"
    using 3 by (simp add: dev_shared_def)
  have half: "dev_half nd (bits * cs) (\<lambda>p. map (\<lambda>(s, c, _, _). c) (SC p)) ?V"
    using 3 by (simp add: dev_half_def case_prod_beta)
  show ?case
    unfolding bf' Let_def
  proof (rule gpu_runs_bind [OF gpu_runs_packed_send_receive [OF half cs]], elim conjE, hypsubst)
    fix carry assume carry: "dev_shared nd (bits * cs) carry ?V"
    let ?b = "\<lambda>p. map2 (\<lambda>c x3. packed_xor_assign_many cs c x3 bits) (carry p) (X3 p)"
    have "bits * cs \<le> K * cs" using K(2) by simp
    then have b: "dev_shared nd (bits * cs) ?b (\<lambda>d. carry_words (V1 d) (V2 d) (V3 d))"
      unfolding packed_xor_assign_many_def mult.commute [of cs bits]
      by (intro dev_shared_cong [OF dev_shared_map2_xor [OF carry X(3)]]) (simp_all add: carry_words_def)
    show "gpu_runs cs nd bf (\<lambda>p. gbind (first_carry_round cs (?a p) (?b p))
        (\<lambda>c. gbind (carry_rounds cs [1..<m] (?a p) (?b p) c) (F p (SC p) (?a p) (?b p)))) Q"
    proof (rule gpu_runs_bind [OF gpu_runs_first_carry [OF a b _ _ cs]], goal_cases)
      case (3 C0 bf2)
      show ?case
        by (rule gpu_runs_bind [OF gpu_runs_carry_rounds [OF a b cs]])
          (use 3 K SC in \<open>auto intro!: F a b\<close>)
    qed (use K in simp_all)
  qed
qed

end
