(* ===== verification/CircuitsTranspose.thy ===== *)
theory CircuitsTranspose
  imports Circuits BinaryMsb
begin

text \<open>
  The transposition kernels of the GPU circuits. They run the swap loops of the CPU parties on plain
  words, so their result is a component of the one that \<open>BitTranspose\<close> characterises.
\<close>

section \<open>The swap loops on plain words\<close>

definition rows_agree :: "nat \<Rightarrow> nat \<Rightarrow> nat \<Rightarrow> nat \<Rightarrow> u64 \<Rightarrow> nat \<Rightarrow> u64 Share list \<Rightarrow> u64 Share list \<Rightarrow> bool" where
  "rows_agree S s n j m k res out \<longleftrightarrow>
     (n = 2 ^ S \<longrightarrow> j = 2 ^ s \<longrightarrow> s < S \<longrightarrow> S \<le> 6 \<longrightarrow> \<not> bit k s \<longrightarrow> length res = n \<longrightarrow>
      swap_words n j m k (map sh_a res) = Some (map sh_a out) \<and> length out = n)"

lemma swap_words_rows:
  assumes "swap_rows n j m k res = Some out"
  shows "rows_agree S s n j m k res out"
proof (rule swap_rows.raw_induct [where P = "rows_agree S s", OF _ assms])
  fix rows and n j :: nat and m :: u64 and k :: nat and res out :: "u64 Share list"
  assume IH: "\<And>n j m k res out. rows n j m k res = Some out \<Longrightarrow> rows_agree S s n j m k res out"
    and step: "(if k < n then
        (let t = share_and_const word_ring
                   (share_xor word_ring (share_shr word_ring (res ! k) j) (res ! (k + j))) m;
             res = res[k + j := share_xor word_ring (res ! (k + j)) t];
             res = res[k := share_xor word_ring (res ! k) (share_shl word_ring t j)]
         in rows n j m (and_not (k + j + 1) j) res)
      else Some res) = Some out"
  show "rows_agree S s n j m k res out"
    unfolding rows_agree_def
  proof (intro impI)
    assume n: "n = 2 ^ S" and j: "j = 2 ^ s" "s < S" "S \<le> 6" and k: "\<not> bit k s" and len: "length res = n"
    show "swap_words n j m k (map sh_a res) = Some (map sh_a out) \<and> length out = n"
    proof (cases "k < n")
      case True
      have kj: "k + j < length res" using partner_row [of k s S] n j k len True by simp
      have jl: "j mod 64 = j"
      proof -
        have "j < 2 ^ S" using j by simp
        also have "(2 :: nat) ^ S \<le> 2 ^ 6" using j by (intro power_increasing) simp_all
        finally show ?thesis by simp
      qed
      let ?t = "share_and_const word_ring (share_xor word_ring (share_shr word_ring (res ! k) j) (res ! (k + j))) m"
      let ?r1 = "res[k + j := share_xor word_ring (res ! (k + j)) ?t]"
      let ?r2 = "?r1[k := share_xor word_ring (?r1 ! k) (share_shl word_ring ?t j)]"
      have rows: "rows n j m (and_not (k + j + 1) j) ?r2 = Some out" using step True by (simp add: Let_def)
      have "\<not> bit (and_not x (2 ^ s)) s" for x by (simp add: and_not_exp) (metis bit_put_bit put_bit_sub)
      then have words: "swap_words n j m (and_not (k + j + 1) j) (map sh_a ?r2) = Some (map sh_a out) \<and> length out = n"
        using IH [OF rows] n j len unfolding rows_agree_def by simp
      have "map sh_a ?r2 = (let o1 = map sh_a res; t = (drop_bit j (o1 ! k) XOR o1 ! (k + j)) AND m;
          o1 = o1[k + j := o1 ! (k + j) XOR t] in o1[k := o1 ! k XOR push_bit j t])"
        using kj True len by (simp add: map_update component_ops Let_def jl nth_list_update)
      with words show ?thesis by (subst swap_words.simps) (simp add: True Let_def)
    next
      case False
      then show ?thesis using step len by (subst swap_words.simps) simp
    qed
  qed
qed

lemma transpose_loop_stages:
  assumes "swap_stages (2 ^ S) j m res = Some out" "S \<le> 6" "length res = 2 ^ S" "j = 0 \<or> (\<exists>s < S. j = 2 ^ s)"
  shows "transpose_loop (2 ^ S) j m (map sh_a res) = Some (map sh_a out) \<and> length out = 2 ^ S"
  using assms
proof (induction "2 ^ S :: nat" j m res arbitrary: out rule: swap_stages.induct)
  case (1 j m res)
  show ?case
  proof (cases "j = 0")
    case True
    then show ?thesis using "1.prems" by (simp add: swap_stages.simps [of _ 0] transpose_loop.simps [of _ 0])
  next
    case False
    then obtain s where s: "s < S" "j = 2 ^ s" using "1.prems"(4) by blast
    from "1.prems"(1) False obtain r where r: "swap_rows (2 ^ S) j m 0 res = Some r"
      "swap_stages (2 ^ S) (j div 2) (m XOR push_bit (j div 2) m) r = Some out"
      by (subst (asm) swap_stages.simps) (auto simp: Let_def split: Option.bind_splits)
    have w: "swap_words (2 ^ S) j m 0 (map sh_a res) = Some (map sh_a r)" "length r = 2 ^ S"
      using swap_words_rows [OF r(1), of S s] s "1.prems"(2,3) by (simp_all add: rows_agree_def)
    have "j div 2 = 0 \<or> (\<exists>s < S. j div 2 = 2 ^ s)"
      using s by (cases s) (auto intro: exI [of _ "s - 1"])
    then have "transpose_loop (2 ^ S) (j div 2) (m XOR push_bit (j div 2) m) (map sh_a r) = Some (map sh_a out) \<and> length out = 2 ^ S"
      using "1.hyps" [OF False r(1) refl refl r(2) "1.prems"(2) w(2)] by blast
    then show ?thesis by (subst transpose_loop.simps) (simp add: False w Let_def)
  qed
qed

section \<open>Blocks\<close>

definition transposes_words :: "('a::len word list \<Rightarrow> u64 list option) \<Rightarrow> bool" where
  "transposes_words tr \<longleftrightarrow> (\<forall>inp. length inp = 64 \<longrightarrow>
     (\<exists>t. tr inp = Some t \<and> length t = LENGTH('a) \<and> (\<forall>k < LENGTH('a). \<forall>i < 64. bit (t ! k) i = bit (inp ! i) k)))"

lemma transposes_words_of_shares:
  fixes tr :: "'a::len word list \<Rightarrow> u64 list option"
  assumes "transposes (str :: 'a word Share list \<Rightarrow> u64 Share list option)" and S: "LENGTH('a) = 2 ^ S" "S \<le> 6" "0 < S"
    and str: "\<And>a. str a = swap_stages (2 ^ S) (2 ^ (S - 1)) m (map (f a) [0..<2 ^ S])"
    and tr: "\<And>inp. tr inp = transpose_loop (2 ^ S) (2 ^ (S - 1)) m (map (g inp) [0..<2 ^ S])"
    and fg: "\<And>inp i. i < 2 ^ S \<Longrightarrow> length inp = 64 \<Longrightarrow> sh_a (f (map (\<lambda>x. \<lparr>sh_a = x, sh_b = x\<rparr>) inp) i) = g inp i"
  shows "transposes_words tr"
  unfolding transposes_words_def
proof (intro allI impI)
  fix inp :: "'a word list" assume len: "length inp = 64"
  let ?a = "map (\<lambda>x. \<lparr>sh_a = x, sh_b = x\<rparr>) inp"
  obtain res where res: "str ?a = Some res" "length res = LENGTH('a)"
    "\<forall>k < LENGTH('a). \<forall>i < LENGTH(64). bit (sh_a (res ! k)) i = bit (sh_a (?a ! i)) k"
    using assms(1) [unfolded transposes_def, rule_format, of ?a] len by auto
  have "transpose_loop (2 ^ S) (2 ^ (S - 1)) m (map sh_a (map (f ?a) [0..<2 ^ S])) = Some (map sh_a res) \<and> length res = 2 ^ S"
    by (rule transpose_loop_stages [OF res(1) [unfolded str]]) (use S in auto)
  moreover have "map sh_a (map (f ?a) [0..<2 ^ S]) = map (g inp) [0..<2 ^ S]" using fg len by simp
  ultimately have "tr inp = Some (map sh_a res)" unfolding tr by (simp only: simp_thms)
  then show "\<exists>t. tr inp = Some t \<and> length t = LENGTH('a) \<and> (\<forall>k < LENGTH('a). \<forall>i < 64. bit (t ! k) i = bit (inp ! i) k)"
    using res len by simp
qed

lemma transposes_words_16: "transposes_words transpose16x64"
  by (rule transposes_words_of_shares [OF transposes_16x64, of 4 "0x00ff00ff00ff00ff"
        "\<lambda>a i. share64_from_share16s [a ! i, a ! (i + 16), a ! (i + 32), a ! (i + 48)]" _
        "\<lambda>inp i. u64_from_u16s (inp ! i) (inp ! (i + 16)) (inp ! (i + 32)) (inp ! (i + 48))"])
    (simp_all add: share_transpose16x64_def transpose16x64_def share64_from_share16s_def pack_with_def u64_from_u16s_def upt_rec or.assoc)

lemma transposes_words_32: "transposes_words transpose32x64"
  by (rule transposes_words_of_shares [OF transposes_32x64, of 5 "0x0000ffff0000ffff"
        "\<lambda>a i. share64_from_share32s [a ! i, a ! (i + 32)]" _ "\<lambda>inp i. u64_from_u32s (inp ! i) (inp ! (i + 32))"])
    (simp_all add: share_transpose32x64_def transpose32x64_def share64_from_share32s_def pack_with_def u64_from_u32s_def upt_rec)

section \<open>Planes\<close>

lemma plane_index: "j < n \<Longrightarrow> (k * n + j) div n = k" "j < n \<Longrightarrow> (k * n + j) mod n = j" for k n j :: nat
  by simp_all

lemma transpose_pack_words:
  fixes inp :: "'a::len word list"
  assumes tr: "transposes_words tr" and len: "64 * n \<le> length inp" and L: "L \<le> LENGTH('a)"
  shows "\<exists>out. transpose_planes tr LENGTH('a) inp (n * 64) L = Inr out \<and> length out = L * n \<and>
    (\<forall>k < L. \<forall>j < n. \<forall>i < 64. bit (out ! (k * n + j)) i = bit (inp ! (j * 64 + i)) k)"
proof -
  let ?blk = "\<lambda>i. take 64 (drop (i * 64) inp)"
  have "length (?blk j) = 64" if "j < n" for j
  proof -
    have "(j + 1) * 64 \<le> n * 64" using that by (intro mult_le_mono1) simp
    then show ?thesis using len by simp
  qed
  then have "\<forall>j. \<exists>t. j < n \<longrightarrow> tr (?blk j) = Some t \<and> (\<forall>k < LENGTH('a). \<forall>i < 64. bit (t ! k) i = bit (?blk j ! i) k)"
    using tr unfolding transposes_words_def by metis
  then obtain t where t: "\<And>j. j < n \<Longrightarrow> tr (?blk j) = Some (t j) \<and> (\<forall>k < LENGTH('a). \<forall>i < 64. bit (t j ! k) i = bit (?blk j ! i) k)"
    by metis
  let ?out = "map (\<lambda>x. map t [0..<n] ! (x mod n) ! (x div n)) [0..<L * n]"
  have "rmap (\<lambda>i. case tr (?blk i) of None \<Rightarrow> Inl Diverges | Some t \<Rightarrow> Inr t) [0..<n] = Inr (map t [0..<n])"
    by (rule rmap_Inr) (simp add: t)
  then have "transpose_planes tr LENGTH('a) inp (n * 64) L = Inr ?out"
    using L by (simp add: transpose_planes_def not_less)
  moreover have "bit (?out ! (k * n + j)) i = bit (inp ! (j * 64 + i)) k" if kji: "k < L" "j < n" "i < 64" for k j i
  proof -
    have "(k + 1) * n \<le> L * n" using kji by (intro mult_le_mono1) simp
    then have "k * n + j < L * n" using kji by simp
    moreover have "(j + 1) * 64 \<le> n * 64" using kji by (intro mult_le_mono1) simp
    then have "j * 64 \<le> length inp" using len by simp
    ultimately show ?thesis using kji t [OF kji(2)] L by (simp add: plane_index)
  qed
  ultimately show ?thesis by (intro exI [of _ ?out]) simp
qed

end
