(* ===== verification/CircuitsInject.thy ===== *)
theory CircuitsInject
  imports CircuitsRun
begin

text \<open>
  The injection of shared bits into additive shares by the GPU parties: party 2 is the sender,
  party 1 the receiver and party 0 the helper of an oblivious transfer for every bit.
\<close>

section \<open>Sixteen-bit words on the wire\<close>

lemma words_u16_nth:
  "k < length ws \<Longrightarrow> words_u16 ws ! (2 * k) = ucast (ws ! k)"
  "k < length ws \<Longrightarrow> words_u16 ws ! (2 * k + 1) = ucast (drop_bit 16 (ws ! k))"
  by (simp_all add: nth_words_u16)

lemma u16_pairs_inverse:
  assumes "length hs = 2 * n"
  shows "words_u16 (u16_pairs hs) = hs"
proof (rule nth_equalityI)
  show "length (words_u16 (u16_pairs hs)) = length hs" by (simp add: u16_pairs_def assms)
  fix i assume "i < length (words_u16 (u16_pairs hs))"
  then have i: "i div 2 < n" by (simp add: u16_pairs_def assms)
  then have k: "i div 2 < length (u16_pairs hs)" by (simp add: u16_pairs_def assms)
  have lo: "(ucast (ucast a OR push_bit 16 (ucast b) :: u32) :: u16) = a" for a b :: u16
    by (rule bit_word_eqI) (auto simp: bit_ucast_iff bit_or_iff bit_push_bit_iff)
  have hi: "(ucast (drop_bit 16 (ucast a OR push_bit 16 (ucast b) :: u32)) :: u16) = b" for a b :: u16
    by (rule bit_word_eqI) (auto simp: bit_ucast_iff bit_or_iff bit_push_bit_iff bit_drop_bit_eq dest: bit_imp_le_length)
  show "words_u16 (u16_pairs hs) ! i = hs ! i"
  proof (cases "even i")
    case True
    then have "i = 2 * (i div 2)" by simp
    then show ?thesis using words_u16_nth(1) [OF k] i assms lo by (simp add: u16_pairs_def)
  next
    case False
    then have "i = 2 * (i div 2) + 1" by presburger
    then show ?thesis using words_u16_nth(2) [OF k] i assms hi by (simp add: u16_pairs_def)
  qed
qed

lemma crypt_16:
  assumes "wf_corr r" "length a = 32 * n"
  shows "chacha1_encrypt_u16 a r = Inr (u16_pairs (map2 (XOR) (key16 (chacha1 r) n) a), draw1 n r)"
    "chacha2_encrypt_u16 a r = Inr (u16_pairs (map2 (XOR) (key16 (chacha2 r) n) a), draw2 n r)"
    "chacha1_decrypt_u16 a r = Inr (map2 (XOR) a (key16 (chacha1 r) n), draw1 n r)"
    "chacha2_decrypt_u16 a r = Inr (map2 (XOR) a (key16 (chacha2 r) n), draw2 n r)"
proof -
  have n: "32 * n AND 1 = 0" "drop_bit 1 (32 * n) = 16 * n" by (simp_all add: and_one_eq drop_bit_eq_div)
  show "chacha1_encrypt_u16 a r = Inr (u16_pairs (map2 (XOR) (key16 (chacha1 r) n) a), draw1 n r)"
    "chacha2_encrypt_u16 a r = Inr (u16_pairs (map2 (XOR) (key16 (chacha2 r) n) a), draw2 n r)"
    "chacha1_decrypt_u16 a r = Inr (map2 (XOR) a (key16 (chacha1 r) n), draw1 n r)"
    "chacha2_decrypt_u16 a r = Inr (map2 (XOR) a (key16 (chacha2 r) n), draw2 n r)"
    unfolding chacha1_encrypt_u16_def chacha2_encrypt_u16_def chacha1_decrypt_u16_def chacha2_decrypt_u16_def
      chacha_encrypt_u16_def chacha_decrypt_u16_def Let_def assms(2) n fills_16 [OF assms(1)]
    by (simp_all add: xor_assign_all assms)
qed

text \<open>The pads of the three roles, and what each of them computes on one device.\<close>

definition ot_sent :: "nat \<Rightarrow> ChachaCommon \<Rightarrow> ChachaCommon \<Rightarrow> u64 ChunkShare \<Rightarrow> u16 ChunkShare \<times> u16 list \<times> u16 list" where
  "ot_sent cs g1 g2 x =
     packed_ot_sender x (key16 g1 (4 * cs)) (key16 g2 (4 * cs)) (key16 (adv (4 * cs) g1) (4 * cs))
       (key16 (adv (4 * cs) (adv (4 * cs) g1)) (4 * cs)) (2 * cs)"

definition ot_helped :: "nat \<Rightarrow> ChachaCommon \<Rightarrow> u64 ChunkShare \<Rightarrow> u16 list \<times> u16 list" where
  "ot_helped cs g2 x =
     packed_ot_helper (ck_a x) (key16 g2 (4 * cs)) (key16 (adv (4 * cs) g2) (4 * cs))
       (key16 (adv (4 * cs) (adv (4 * cs) g2)) (4 * cs)) (2 * cs)"

lemma ot_lengths [simp]:
  "length (fst (snd (ot_sent cs g1 g2 x))) = 128 * cs" "length (snd (snd (ot_sent cs g1 g2 x))) = 128 * cs"
  "length (ck_a (fst (ot_sent cs g1 g2 x))) = 128 * cs" "length (ck_b (fst (ot_sent cs g1 g2 x))) = 128 * cs"
  "length (fst (ot_helped cs g2 x)) = 128 * cs" "length (snd (ot_helped cs g2 x)) = 128 * cs"
  by (simp_all add: ot_sent_def ot_helped_def packed_ot_sender_def packed_ot_helper_def Let_def)

text \<open>The bit that the three shares of a position hold is the one the transfer delivers.\<close>

lemma ot_receiver_value:
  fixes x :: "PartyID \<Rightarrow> u64 ChunkShare"
  assumes x: "shared_words (2 * cs) x v" and i: "i < 128 * cs" and g: "g2' = g1"
  shows "ck_b (packed_ot_receiver (ck_b (x ID1)) (fst (snd (ot_sent cs g1 g2 (x ID2)))) (snd (snd (ot_sent cs g1 g2 (x ID2))))
      c (snd (ot_helped cs g2' (x ID0))) (2 * cs)) ! i
    = of_bool (bit (v (i div 64)) (i mod 64)) - (key16 g1 (4 * cs) ! i + key16 g2 (4 * cs) ! i)"
proof -
  have j: "i div 64 < 2 * cs" "i < 64 * (2 * cs)" using i by simp_all
  have v: "v (i div 64) = ck_a (x ID0) ! (i div 64) XOR ck_a (x ID1) ! (i div 64) XOR ck_a (x ID2) ! (i div 64)"
    using shared_wordsD(4) [OF x j(1)] by simp
  have b: "ck_b (x ID1) = ck_a (x ID0)" "ck_b (x ID2) = ck_a (x ID1)" using shared_wordsD(3) [OF x] by simp_all
  have cancel: "a XOR (b XOR a) = b" "a XOR (a XOR b) = b" for a b :: u16 by (simp_all add: xor.commute xor.left_commute)
  show ?thesis
    using j(2)
    by (cases "bit (ck_a (x ID0) ! (i div 64)) (i mod 64)"; cases "bit (ck_a (x ID1) ! (i div 64)) (i mod 64)";
        cases "bit (ck_a (x ID2) ! (i div 64)) (i mod 64)")
      (simp_all add: packed_ot_receiver_def ot_sent_def ot_helped_def packed_ot_sender_def packed_ot_helper_def Let_def
        word_bit_at_def b v g bit_simps cancel)
qed

section \<open>The three roles\<close>

text \<open>What a party does with its generators, device by device.\<close>

definition on_rngs :: "(ChaChaCudaCorrRng \<Rightarrow> ChaChaCudaCorrRng) \<Rightarrow> Circuits \<Rightarrow> Circuits" where
  "on_rngs f s = s\<lparr>circuit_rngs := map f (circuit_rngs s)\<rparr>"

lemma each_device_map:
  assumes "length xs = length (circuit_rngs s)"
    "\<And>d. d < length xs \<Longrightarrow> f (circuit_rngs s ! d) (xs ! d) = Inr (y d, g (circuit_rngs s ! d))"
  shows "each_device f xs s = Ret (Inr (map y [0..<length xs], on_rngs g s))"
proof -
  have "map (\<lambda>d. g (circuit_rngs s ! d)) [0..<length xs] = map g (circuit_rngs s)"
    by (rule nth_equalityI) (simp_all add: assms(1))
  then show ?thesis using each_device_eval [of xs s f y "\<lambda>d. g (circuit_rngs s ! d)", OF assms] by (simp add: on_rngs_def)
qed

lemma on_rngs_simps [simp]:
  "length (circuit_rngs (on_rngs f s)) = length (circuit_rngs s)"
  "d < length (circuit_rngs s) \<Longrightarrow> circuit_rngs (on_rngs f s) ! d = f (circuit_rngs s ! d)"
  "chunk_size (on_rngs f s) = chunk_size s" "n_devices (on_rngs f s) = n_devices s"
  "my_peer (on_rngs f s) = my_peer s" "next_peer (on_rngs f s) = next_peer s" "prev_peer (on_rngs f s) = prev_peer s"
  "result_buffer (on_rngs f s) = result_buffer s"
  by (simp_all add: on_rngs_def)

lemma on_rngs_on_rngs: "on_rngs f (on_rngs g s) = on_rngs (\<lambda>r. f (g r)) s"
  by (simp add: on_rngs_def comp_def)

lemmas gpu_defs = gbind_def gsend_def greceive_def gtry_def glocal_def gret_def

lemma fills_chunk:
  assumes "wf_corr r"
  shows "fill_my_rng_into_u16 (cs * 64) r = Inr (key16 (chacha1 r) (4 * cs), draw1 (4 * cs) r)"
    "fill_their_rng_into_u16 (cs * 64) r = Inr (key16 (chacha2 r) (4 * cs), draw2 (4 * cs) r)"
  using fills_16 [OF assms, of "4 * cs"] by (simp_all add: mult.commute)

lemma crypt_chunk:
  assumes "wf_corr r" "length a = 128 * cs"
  shows "chacha1_encrypt_u16 a r = Inr (u16_pairs (map2 (XOR) (key16 (chacha1 r) (4 * cs)) a), draw1 (4 * cs) r)"
    "chacha2_encrypt_u16 a r = Inr (u16_pairs (map2 (XOR) (key16 (chacha2 r) (4 * cs)) a), draw2 (4 * cs) r)"
    "chacha1_decrypt_u16 a r = Inr (map2 (XOR) a (key16 (chacha1 r) (4 * cs)), draw1 (4 * cs) r)"
    "chacha2_decrypt_u16 a r = Inr (map2 (XOR) a (key16 (chacha2 r) (4 * cs)), draw2 (4 * cs) r)"
  using assms by (simp_all add: crypt_16 [where n = "4 * cs"])

text \<open>Encryption of the buffers of all devices; \<open>sealed\<close> names the message.\<close>

definition sealed :: "nat \<Rightarrow> (nat \<Rightarrow> ChachaCommon) \<Rightarrow> (nat \<Rightarrow> u16 list) \<Rightarrow> nat \<Rightarrow> Wire" where
  "sealed cs g m nd = Words32 (map (\<lambda>d. u16_pairs (map2 (XOR) (key16 (g d) (4 * cs)) (m d))) [0..<nd])"

lemma expect_sealed:
  assumes "\<And>d. d < nd \<Longrightarrow> length (m d) = 128 * cs" "length inp = nd"
  shows "expect_16 (map (\<lambda>_. cs * 128) inp) (sealed cs g m nd)
    = Inr (map (\<lambda>d. map2 (XOR) (key16 (g d) (4 * cs)) (m d)) [0..<nd])"
proof -
  have "map (\<lambda>v. 2 * length v) (map (\<lambda>d. u16_pairs (map2 (XOR) (key16 (g d) (4 * cs)) (m d))) [0..<nd]) = map (\<lambda>_. cs * 128) inp"
    by (rule nth_equalityI) (simp_all add: u16_pairs_def assms)
  moreover have "map words_u16 (map (\<lambda>d. u16_pairs (map2 (XOR) (key16 (g d) (4 * cs)) (m d))) [0..<nd])
      = map (\<lambda>d. map2 (XOR) (key16 (g d) (4 * cs)) (m d)) [0..<nd]"
    by (simp add: u16_pairs_inverse [of _ "64 * cs"] assms)
  ultimately show ?thesis by (simp only: expect_16_def sealed_def Wire.case if_True simp_thms)
qed

lemma sender_run:
  assumes len: "length x = nd" "length (circuit_rngs s) = nd" and wf: "\<And>d. d < nd \<Longrightarrow> wf_corr (circuit_rngs s ! d)"
    and cs: "chunk_size s = cs"
  defines "g1 d \<equiv> chacha1 (circuit_rngs s ! d)" and "g2 d \<equiv> chacha2 (circuit_rngs s ! d)"
  defines "out d \<equiv> ot_sent cs (g1 d) (g2 d) (x ! d)"
  shows "\<exists>K1 K2. bit_inject_ot_sender x s = Snd (rank (prev_peer s)) (sealed cs (\<lambda>d. adv (4 * cs) (g2 d)) (\<lambda>d. fst (snd (out d))) nd) K1 \<and>
    K1 (Inr ()) = Snd (rank (prev_peer s)) (sealed cs (\<lambda>d. adv (4 * cs) (adv (4 * cs) (g2 d))) (\<lambda>d. snd (snd (out d))) nd) K2 \<and>
    K2 (Inr ()) = Ret (Inr (map (\<lambda>d. fst (out d)) [0..<nd],
      on_rngs (\<lambda>r. draw2 (4 * cs) (draw2 (4 * cs) (draw1 (4 * cs) (draw1 (4 * cs) (draw2 (4 * cs) (draw1 (4 * cs) r)))))) s))"
proof -
  let ?n = "4 * cs"
  let ?s1 = "on_rngs (\<lambda>r. draw1 ?n (draw1 ?n (draw2 ?n (draw1 ?n r)))) s"
  have 1: "each_device (\<lambda>rng inp.
         rbind (fill_my_rng_into_u16 (cs * 64) rng) (\<lambda>(rand_ca, rng).
         rbind (fill_their_rng_into_u16 (cs * 64) rng) (\<lambda>(rand_cb, rng).
         rbind (fill_my_rng_into_u16 (cs * 64) rng) (\<lambda>(rand_wa1, rng).
         rbind (fill_my_rng_into_u16 (cs * 64) rng) (\<lambda>(rand_wa2, rng).
         Inr (packed_ot_sender inp rand_ca rand_cb rand_wa1 rand_wa2 (2 * cs), rng)))))) x s = Ret (Inr (map out [0..<nd], ?s1))"
    using each_device_map [of x s _ out "\<lambda>r. draw1 ?n (draw1 ?n (draw2 ?n (draw1 ?n r)))"]
    by (simp add: len fills_chunk wf out_def ot_sent_def g1_def g2_def)
  let ?s2 = "on_rngs (\<lambda>r. draw2 ?n (draw1 ?n (draw1 ?n (draw2 ?n (draw1 ?n r))))) s"
  have 2: "each_device (\<lambda>rng m0. chacha2_encrypt_u16 m0 rng) (map (\<lambda>d. fst (snd (out d))) [0..<nd]) ?s1
      = Ret (Inr (map (\<lambda>d. u16_pairs (map2 (XOR) (key16 (adv ?n (g2 d)) ?n) (fst (snd (out d))))) [0..<nd], ?s2))"
    using each_device_map [of "map (\<lambda>d. fst (snd (out d))) [0..<nd]" ?s1 "\<lambda>rng m0. chacha2_encrypt_u16 m0 rng"
        "\<lambda>d. u16_pairs (map2 (XOR) (key16 (adv ?n (g2 d)) ?n) (fst (snd (out d))))" "draw2 ?n"]
    by (simp add: len crypt_chunk wf out_def g2_def on_rngs_on_rngs)
  let ?s3 = "on_rngs (\<lambda>r. draw2 ?n (draw2 ?n (draw1 ?n (draw1 ?n (draw2 ?n (draw1 ?n r)))))) s"
  have 3: "each_device (\<lambda>rng m1. chacha2_encrypt_u16 m1 rng) (map (\<lambda>d. snd (snd (out d))) [0..<nd]) ?s2
      = Ret (Inr (map (\<lambda>d. u16_pairs (map2 (XOR) (key16 (adv ?n (adv ?n (g2 d))) ?n) (snd (snd (out d))))) [0..<nd], ?s3))"
    using each_device_map [of "map (\<lambda>d. snd (snd (out d))) [0..<nd]" ?s2 "\<lambda>rng m0. chacha2_encrypt_u16 m0 rng"
        "\<lambda>d. u16_pairs (map2 (XOR) (key16 (adv ?n (adv ?n (g2 d))) ?n) (snd (snd (out d))))" "draw2 ?n"]
    by (simp add: len crypt_chunk wf out_def g2_def on_rngs_on_rngs)
  show ?thesis
    unfolding bit_inject_ot_sender_def
    by (simp add: gpu_defs cs 1 2 3 case_prod_beta comp_def sealed_def)
qed

lemma helper_run:
  assumes len: "length x = nd" "length (circuit_rngs s) = nd" and wf: "\<And>d. d < nd \<Longrightarrow> wf_corr (circuit_rngs s ! d)"
    and cs: "chunk_size s = cs" and m: "\<And>d. d < nd \<Longrightarrow> length (m d) = 128 * cs"
  defines "g1 d \<equiv> chacha1 (circuit_rngs s ! d)" and "g2 d \<equiv> chacha2 (circuit_rngs s ! d)"
  defines "out d \<equiv> ot_helped cs (g2 d) (x ! d)"
  shows "\<exists>K L. bit_inject_ot_helper x s = Snd (rank (next_peer s)) (sealed cs g1 (\<lambda>d. snd (out d)) nd) K \<and>
    K (Inr ()) = Rcv (rank (next_peer s)) L \<and>
    L (Inr (sealed cs (\<lambda>d. adv (4 * cs) (g1 d)) m nd)) = Ret (Inr (map (\<lambda>d. \<lparr>ck_a = m d, ck_b = fst (out d)\<rparr>) [0..<nd],
      on_rngs (\<lambda>r. draw1 (4 * cs) (draw1 (4 * cs) (draw2 (4 * cs) (draw2 (4 * cs) (draw2 (4 * cs) r))))) s))"
proof -
  let ?n = "4 * cs"
  let ?s1 = "on_rngs (\<lambda>r. draw1 ?n (draw2 ?n (draw2 ?n (draw2 ?n r)))) s"
  have 1: "each_device (\<lambda>rng inp.
         rbind (fill_their_rng_into_u16 (cs * 64) rng) (\<lambda>(rand_cb, rng).
         rbind (fill_their_rng_into_u16 (cs * 64) rng) (\<lambda>(rand_wb1, rng).
         rbind (fill_their_rng_into_u16 (cs * 64) rng) (\<lambda>(rand_wb2, rng).
         let (res_b, wc) = packed_ot_helper (ck_a inp) rand_cb rand_wb1 rand_wb2 (2 * cs) in
         rbind (chacha1_encrypt_u16 wc rng) (\<lambda>(send, rng). Inr ((res_b, send), rng)))))) x s
      = Ret (Inr (map (\<lambda>d. (fst (out d), u16_pairs (map2 (XOR) (key16 (g1 d) ?n) (snd (out d))))) [0..<nd], ?s1))"
    using each_device_map [of x s _ "\<lambda>d. (fst (out d), u16_pairs (map2 (XOR) (key16 (g1 d) ?n) (snd (out d))))"
        "\<lambda>r. draw1 ?n (draw2 ?n (draw2 ?n (draw2 ?n r)))"]
    by (simp add: len fills_chunk wf out_def g1_def g2_def ot_helped_def [symmetric] case_prod_beta crypt_chunk)
  let ?s2 = "on_rngs (\<lambda>r. draw1 ?n (draw1 ?n (draw2 ?n (draw2 ?n (draw2 ?n r))))) s"
  have 2: "each_device (\<lambda>rng a. chacha1_decrypt_u16 a rng) (map (\<lambda>d. map2 (XOR) (key16 (adv ?n (g1 d)) ?n) (m d)) [0..<nd]) ?s1
      = Ret (Inr (map m [0..<nd], ?s2))"
    using each_device_map [of "map (\<lambda>d. map2 (XOR) (key16 (adv ?n (g1 d)) ?n) (m d)) [0..<nd]" ?s1
        "\<lambda>rng a. chacha1_decrypt_u16 a rng" m "draw1 ?n"]
    by (simp add: len crypt_chunk wf g1_def on_rngs_on_rngs m xor_key)
  have zip: "map2 (\<lambda>a (b, _). \<lparr>ck_a = a, ck_b = b\<rparr>) (map m [0..<nd])
      (map (\<lambda>d. (fst (out d), u16_pairs (map2 (XOR) (key16 (g1 d) ?n) (snd (out d))))) [0..<nd])
    = map (\<lambda>d. \<lparr>ck_a = m d, ck_b = fst (out d)\<rparr>) [0..<nd]"
    by (rule nth_equalityI) simp_all
  have msg: "sealed cs g1 (\<lambda>d. snd (out d)) nd = Words32 (map snd (map (\<lambda>d. (fst (out d), u16_pairs (map2 (XOR) (key16 (g1 d) ?n) (snd (out d))))) [0..<nd]))"
    by (simp add: sealed_def comp_def)
  have ex: "expect_16 (map (\<lambda>_. cs * 128) x) (sealed cs (\<lambda>d. adv ?n (g1 d)) m nd) = Inr (map (\<lambda>d. map2 (XOR) (key16 (adv ?n (g1 d)) ?n) (m d)) [0..<nd])"
    by (rule expect_sealed [OF m len(1)])
  show ?thesis
    unfolding bit_inject_ot_helper_def msg
    by (simp add: gpu_defs cs 1 [simplified] ex 2 zip)
qed

lemma receiver_run:
  assumes len: "length x = nd" "length (circuit_rngs s) = nd" and wf: "\<And>d. d < nd \<Longrightarrow> wf_corr (circuit_rngs s ! d)"
    and cs: "chunk_size s = cs"
    and m: "\<And>d. d < nd \<Longrightarrow> length (m0 d) = 128 * cs" "\<And>d. d < nd \<Longrightarrow> length (m1 d) = 128 * cs" "\<And>d. d < nd \<Longrightarrow> length (wc d) = 128 * cs"
  defines "g1 d \<equiv> chacha1 (circuit_rngs s ! d)" and "g2 d \<equiv> chacha2 (circuit_rngs s ! d)"
  defines "out d \<equiv> packed_ot_receiver (ck_b (x ! d)) (m0 d) (m1 d) (key16 (g1 d) (4 * cs)) (wc d) (2 * cs)"
  shows "\<exists>L1 L2 L3 K. bit_inject_ot_receiver x s = Rcv (rank (next_peer s)) L1 \<and>
    L1 (Inr (sealed cs (\<lambda>d. adv (4 * cs) (g1 d)) m0 nd)) = Rcv (rank (prev_peer s)) L2 \<and>
    L2 (Inr (sealed cs g2 wc nd)) = Rcv (rank (next_peer s)) L3 \<and>
    L3 (Inr (sealed cs (\<lambda>d. adv (4 * cs) (adv (4 * cs) (g1 d))) m1 nd))
      = Snd (rank (prev_peer s)) (sealed cs (\<lambda>d. adv (4 * cs) (g2 d)) (\<lambda>d. ck_b (out d)) nd) K \<and>
    K (Inr ()) = Ret (Inr (map out [0..<nd],
      on_rngs (\<lambda>r. draw2 (4 * cs) (draw1 (4 * cs) (draw2 (4 * cs) (draw1 (4 * cs) (draw1 (4 * cs) r))))) s))"
proof -
  let ?n = "4 * cs"
  let ?seal = "\<lambda>g m. map (\<lambda>d. map2 (XOR) (key16 (g d) ?n) (m d)) [0..<nd]"
  let ?y = "\<lambda>d. (out d, u16_pairs (map2 (XOR) (key16 (adv ?n (g2 d)) ?n) (ck_b (out d))))"
  have lo: "length (ck_b (out d)) = 128 * cs" for d by (simp add: out_def packed_ot_receiver_def)
  let ?zip = "zip x (zip (?seal (\<lambda>d. adv ?n (g1 d)) m0) (zip (?seal (\<lambda>d. adv ?n (adv ?n (g1 d))) m1) (?seal g2 wc)))"
  have 1: "each_device (\<lambda>rng (inp, m0, m1, wc).
         rbind (fill_my_rng_into_u16 (cs * 64) rng) (\<lambda>(rand_ca, rng).
         rbind (chacha1_decrypt_u16 m0 rng) (\<lambda>(m0, rng).
         rbind (chacha2_decrypt_u16 wc rng) (\<lambda>(wc, rng).
         rbind (chacha1_decrypt_u16 m1 rng) (\<lambda>(m1, rng).
         let res = packed_ot_receiver (ck_b inp) m0 m1 rand_ca wc (2 * cs) in
         rbind (chacha2_encrypt_u16 (ck_b res) rng) (\<lambda>(send, rng). Inr ((res, send), rng))))))) ?zip s
      = Ret (Inr (map ?y [0..<nd], on_rngs (\<lambda>r. draw2 ?n (draw1 ?n (draw2 ?n (draw1 ?n (draw1 ?n r))))) s))"
    using each_device_map [of ?zip s _ ?y "\<lambda>r. draw2 ?n (draw1 ?n (draw2 ?n (draw1 ?n (draw1 ?n r))))"]
    by (simp add: len fills_chunk wf g1_def g2_def crypt_chunk m xor_key Let_def out_def [symmetric, unfolded g1_def] lo)
  have msg: "sealed cs (\<lambda>d. adv ?n (g2 d)) (\<lambda>d. ck_b (out d)) nd = Words32 (map snd (map ?y [0..<nd]))"
    by (simp add: sealed_def comp_def)
  note ex = expect_sealed [OF m(1) len(1)] expect_sealed [OF m(2) len(1)] expect_sealed [OF m(3) len(1)]
  show ?thesis
    unfolding bit_inject_ot_receiver_def msg
    by (simp add: gpu_defs cs ex 1 [simplified] comp_def)
qed

section \<open>Injection\<close>

text \<open>Buffers whose first \<open>n\<close> elements are replicated shares, by addition, of the values \<open>v\<close>.\<close>

definition added_words :: "nat \<Rightarrow> (PartyID \<Rightarrow> 'a::len word ChunkShare) \<Rightarrow> (nat \<Rightarrow> 'a word) \<Rightarrow> bool" where
  "added_words n x v \<longleftrightarrow> (\<forall>p. n \<le> length (ck_a (x p)) \<and> n \<le> length (ck_b (x p))) \<and>
     (\<forall>i < n. (\<forall>p. ck_b (x p) ! i = ck_a (x (prev_id p)) ! i) \<and>
        ck_a (x ID0) ! i + ck_a (x ID1) ! i + ck_a (x ID2) ! i = v i)"

definition dev_added :: "nat \<Rightarrow> nat \<Rightarrow> (PartyID \<Rightarrow> 'a::len word ChunkShare list) \<Rightarrow> (nat \<Rightarrow> nat \<Rightarrow> 'a word) \<Rightarrow> bool" where
  "dev_added nd n X V \<longleftrightarrow> (\<forall>p. length (X p) = nd) \<and> (\<forall>d < nd. added_words n (\<lambda>p. X p ! d) (V d))"

lemma gpu_runs_bit_inject:
  assumes C: "dev_shared nd (2 * cs) C R"
  shows "gpu_runs cs nd bf (\<lambda>p. bit_inject_ot (C p))
    (\<lambda>A bf'. bf' = bf \<and> dev_added nd (128 * cs) A (\<lambda>d i. of_bool (bit (R d (i div 64)) (i mod 64))))"
  unfolding gpu_runs_def
proof (intro allI impI)
  fix S assume S: "gpu_synced cs nd bf S"
  let ?n = "4 * cs"
  let ?g1 = "\<lambda>p d. chacha1 (circuit_rngs (S p) ! d)" and ?g2 = "\<lambda>p d. chacha2 (circuit_rngs (S p) ! d)"
  let ?sent = "\<lambda>d. ot_sent cs (?g1 ID2 d) (?g2 ID2 d) (C ID2 ! d)" and ?helped = "\<lambda>d. ot_helped cs (?g2 ID0 d) (C ID0 ! d)"
  let ?got = "\<lambda>d. packed_ot_receiver (ck_b (C ID1 ! d)) (fst (snd (?sent d))) (snd (snd (?sent d))) (key16 (?g1 ID1 d) ?n)
    (snd (?helped d)) (2 * cs)"
  let ?A = "by_party (map (\<lambda>d. \<lparr>ck_a = ck_b (?got d), ck_b = fst (?helped d)\<rparr>) [0..<nd]) (map ?got [0..<nd]) (map (\<lambda>d. fst (?sent d)) [0..<nd])"
  let ?S = "by_party (on_rngs (\<lambda>r. draw1 ?n (draw1 ?n (draw2 ?n (draw2 ?n (draw2 ?n r))))) (S ID0))
    (on_rngs (\<lambda>r. draw2 ?n (draw1 ?n (draw2 ?n (draw1 ?n (draw1 ?n r))))) (S ID1))
    (on_rngs (\<lambda>r. draw2 ?n (draw2 ?n (draw1 ?n (draw1 ?n (draw2 ?n (draw1 ?n r)))))) (S ID2))"
  have peers: "my_peer (S p) = usize_from_party p" "next_peer (S p) = usize_from_party (next_id p)"
    "prev_peer (S p) = usize_from_party (prev_id p)" "chunk_size (S p) = cs" "length (circuit_rngs (S p)) = nd" for p
    using S by (simp_all add: gpu_synced_def)
  have wf: "wf_corr (circuit_rngs (S p) ! d)" if "d < nd" for p d using S that by (simp add: gpu_synced_def corr_def)
  have cor: "?g2 ID0 d = ?g1 ID2 d" "?g2 ID1 d = ?g1 ID0 d" "?g2 ID2 d = ?g1 ID1 d" if "d < nd" for d
    using S that by (auto simp: gpu_synced_def corr_def)
  have seal: "sealed cs (\<lambda>d. h d) m nd = sealed cs h' m nd" if "\<And>d. d < nd \<Longrightarrow> h d = h' d" for h h' m
    using that by (simp add: sealed_def)
  note len = dev_sharedD(1) [OF C]
  have lg: "length (ck_b (?got d)) = 128 * cs" for d by (simp add: packed_ot_receiver_def)
  let ?M = "\<lambda>p. bit_inject_ot (C p) (S p)"
  obtain K0 L0 where 0: "?M ID0 = Snd (gpu_ident ID1) (sealed cs (?g1 ID0) (\<lambda>d. snd (?helped d)) nd) K0"
    "K0 (Inr ()) = Rcv (gpu_ident ID1) L0" "L0 (Inr (sealed cs (\<lambda>d. adv ?n (?g1 ID0 d)) (\<lambda>d. ck_b (?got d)) nd)) = Ret (Inr (?A ID0, ?S ID0))"
    using helper_run [where x = "C ID0" and s = "S ID0" and m = "\<lambda>d. ck_b (?got d)", OF len peers(5) wf peers(4)] lg
    by (auto simp: bit_inject_ot_def peers gpu_ident_def)
  obtain L1 L2 L3 K1 where 1: "?M ID1 = Rcv (gpu_ident ID2) L1"
    "L1 (Inr (sealed cs (\<lambda>d. adv ?n (?g1 ID1 d)) (\<lambda>d. fst (snd (?sent d))) nd)) = Rcv (gpu_ident ID0) L2"
    "L2 (Inr (sealed cs (?g2 ID1) (\<lambda>d. snd (?helped d)) nd)) = Rcv (gpu_ident ID2) L3"
    "L3 (Inr (sealed cs (\<lambda>d. adv ?n (adv ?n (?g1 ID1 d))) (\<lambda>d. snd (snd (?sent d))) nd))
      = Snd (gpu_ident ID0) (sealed cs (\<lambda>d. adv ?n (?g2 ID1 d)) (\<lambda>d. ck_b (?got d)) nd) K1"
    "K1 (Inr ()) = Ret (Inr (?A ID1, ?S ID1))"
    using receiver_run [where x = "C ID1" and s = "S ID1" and ?m0.0 = "\<lambda>d. fst (snd (?sent d))" and ?m1.0 = "\<lambda>d. snd (snd (?sent d))"
        and wc = "\<lambda>d. snd (?helped d)", OF len peers(5) wf peers(4)]
    by (auto simp: bit_inject_ot_def peers gpu_ident_def)
  obtain K2 K3 where 2: "?M ID2 = Snd (gpu_ident ID1) (sealed cs (\<lambda>d. adv ?n (?g2 ID2 d)) (\<lambda>d. fst (snd (?sent d))) nd) K2"
    "K2 (Inr ()) = Snd (gpu_ident ID1) (sealed cs (\<lambda>d. adv ?n (adv ?n (?g2 ID2 d))) (\<lambda>d. snd (snd (?sent d))) nd) K3"
    "K3 (Inr ()) = Ret (Inr (?A ID2, ?S ID2))"
    using sender_run [where x = "C ID2" and s = "S ID2", OF len peers(5) wf peers(4)]
    by (auto simp: bit_inject_ot_def peers gpu_ident_def)
  note ch = quiet_channel [OF inj_gpu_ident] and ids = inj_ident [OF inj_gpu_ident]
  have eq: "sealed cs (\<lambda>d. adv ?n (?g2 ID2 d)) m nd = sealed cs (\<lambda>d. adv ?n (?g1 ID1 d)) m nd"
    "sealed cs (\<lambda>d. adv ?n (adv ?n (?g2 ID2 d))) m nd = sealed cs (\<lambda>d. adv ?n (adv ?n (?g1 ID1 d))) m nd"
    "sealed cs (?g2 ID1) m nd = sealed cs (?g1 ID0) m nd" "sealed cs (\<lambda>d. adv ?n (?g2 ID1 d)) m nd = sealed cs (\<lambda>d. adv ?n (?g1 ID0 d)) m nd" for m
    by (rule seal, simp add: cor)+
  have "(step local_networking gpu_ident)\<^sup>*\<^sup>* (?M, quiet gpu_ident) (all_returned (\<lambda>p. Inr (?A p, ?S p)) (quiet gpu_ident))"
    apply (rule run_send [of _ ID2], rule 2(1), simp add: ch)
    apply (rule run_send [of _ ID2], simp add: 2(2), simp add: ch ids)
    apply (rule run_send [of _ ID0], simp add: 0(1), simp add: ch ids)
    apply (rule run_receive [of _ ID1], simp add: 1(1), simp add: ids)
    apply (rule run_receive [of _ ID1], simp add: 1(2) eq, simp add: ids)
    apply (rule run_receive [of _ ID1], simp add: 1(3) [unfolded eq], simp add: ids)
    apply (rule run_send [of _ ID1], simp add: 1(4) eq, simp add: ch ids)
    apply (rule run_receive [of _ ID0], simp add: 0(2), simp add: ids)
    unfolding all_returned_def
    apply (rule run_done, rule prod_eqI; rule ext)
     apply (rename_tac p, case_tac p; simp add: 0(3) [unfolded eq] 1(5) 2(3) eq)
    apply (auto simp: ch ids)
    done
  moreover have "gpu_synced cs nd bf ?S" using S cor by (simp add: gpu_synced_def corr_def all_parties)
  moreover have "dev_added nd (128 * cs) ?A (\<lambda>d i. of_bool (bit (R d (i div 64)) (i mod 64)))"
    unfolding dev_added_def added_words_def
  proof (intro conjI allI impI)
    fix d i assume d: "d < nd" and i: "i < 128 * cs"
    have keys: "ck_a (?got d) ! i = key16 (?g1 ID1 d) ?n ! i" "ck_a (fst (?sent d)) ! i = key16 (?g1 ID2 d) ?n ! i"
      "ck_b (fst (?sent d)) ! i = key16 (?g1 ID1 d) ?n ! i" "fst (?helped d) ! i = key16 (?g1 ID2 d) ?n ! i"
      using i by (simp_all add: packed_ot_receiver_def ot_sent_def ot_helped_def packed_ot_sender_def packed_ot_helper_def Let_def cor [OF d])
    note got = ot_receiver_value [OF dev_sharedD(2) [OF C d] i cor(1) [OF d], of "?g2 ID2 d" "key16 (?g1 ID1 d) ?n"]
    show "ck_b (?A p ! d) ! i = ck_a (?A (prev_id p) ! d) ! i" for p using d keys by (cases p) simp_all
    show "ck_a (?A ID0 ! d) ! i + ck_a (?A ID1 ! d) ! i + ck_a (?A ID2 ! d) ! i = of_bool (bit (R d (i div 64)) (i mod 64))"
      using d got keys by (simp add: cor [OF d])
  next
    fix p d assume "d < nd"
    then show "128 * cs \<le> length (ck_a (?A p ! d))" "128 * cs \<le> length (ck_b (?A p ! d))"
      by (cases p; simp add: lg packed_ot_receiver_def)+
  next
    fix p show "length (?A p) = nd" by (cases p) simp_all
  qed
  ultimately show "\<exists>A bf' S'. (step local_networking gpu_ident)\<^sup>*\<^sup>* (?M, quiet gpu_ident)
      (all_returned (\<lambda>p. Inr (A p, S' p)) (quiet gpu_ident)) \<and> gpu_synced cs nd bf' S' \<and>
      bf' = bf \<and> dev_added nd (128 * cs) A (\<lambda>d i. of_bool (bit (R d (i div 64)) (i mod 64)))"
    by (intro exI [of _ ?A] exI [of _ bf] exI [of _ ?S]) blast
qed

end
