(* ===== verification/CircuitsAdder.thy ===== *)
theory CircuitsAdder
  imports CircuitsRun
begin

text \<open>
  The two adders of the GPU circuits: the carries out of sixteen planes of three shared operands,
  and the most significant bit of the sum of thirty-two planes.
\<close>

section \<open>The adders\<close>

text \<open>The bits of lane \<open>(j, i)\<close>: bit \<open>i\<close> of word \<open>j\<close> of each of \<open>n\<close> planes of \<open>cs\<close> words.\<close>

definition plane_column :: "nat \<Rightarrow> nat \<Rightarrow> (nat \<Rightarrow> u64) \<Rightarrow> nat \<Rightarrow> nat \<Rightarrow> bool list" where
  "plane_column cs n v j i = map (\<lambda>k. bit (v (k * cs + j)) i) [0..<n]"

lemma length_column [simp]: "length (plane_column cs n v j i) = n"
  by (simp add: plane_column_def)

lemma sum_carry_columns:
  fixes v1 v2 v3 :: "nat \<Rightarrow> u64"
  defines "s cs n j i \<equiv> add3_sum (plane_column cs n v1 j i) (plane_column cs n v2 j i) (plane_column cs n v3 j i)"
    and "c cs n j i \<equiv> add3_carry (plane_column cs n v1 j i) (plane_column cs n v2 j i) (plane_column cs n v3 j i)"
  shows "k + 1 < n \<Longrightarrow> bit (sum_words cs v1 v2 v3 (k * cs + j)) i = s cs n j i ! (k + 1)"
    "k < n \<Longrightarrow> bit (carry_words v1 v2 v3 (k * cs + j)) i = c cs n j i ! k"
  unfolding s_def c_def
  by (auto simp: sum_words_def carry_words_def plane_column_def add3_sum_def add3_carry_def bit_simps algebra_simps)

lemma zip_ripple:
  assumes "length s = n" "length c = n"
  shows "zip (drop 2 s) (drop 1 (butlast c)) = map (\<lambda>k. (s ! (k + 1), c ! k)) [1..<n - 1]"
  by (rule nth_equalityI) (use assms in \<open>auto simp: nth_butlast\<close>)

lemma zip_ripple_msb:
  assumes "length s = n" "length c = n"
  shows "zip (drop 2 (butlast s)) (drop 1 (butlast (butlast c))) = map (\<lambda>k. (s ! (k + 1), c ! k)) [1..<n - 2]"
  by (rule nth_equalityI) (use assms in \<open>auto simp: nth_butlast\<close>)

text \<open>The carry out of the ripple loop, as \<open>two_carries\<close> and \<open>msb_of_sum\<close> speak of it.\<close>

lemma bit_ripple:
  fixes v1 v2 v3 :: "nat \<Rightarrow> u64" and cs n j i m :: nat
  defines "s \<equiv> add3_sum (plane_column cs n v1 j i) (plane_column cs n v2 j i) (plane_column cs n v3 j i)"
    and "c \<equiv> add3_carry (plane_column cs n v1 j i) (plane_column cs n v2 j i) (plane_column cs n v3 j i)"
  assumes "m < n" "1 < n"
  shows "bit (carries [1..<m] (\<lambda>k. sum_words cs v1 v2 v3 (k * cs + j)) (\<lambda>k. carry_words v1 v2 v3 (k * cs + j))
      (sum_words cs v1 v2 v3 j AND carry_words v1 v2 v3 j)) i
    = carry_bits (map (\<lambda>k. (s ! (k + 1), c ! k)) [1..<m]) (s ! 1 \<and> c ! 0)"
proof -
  have "bit (sum_words cs v1 v2 v3 (k * cs + j)) i = s ! (k + 1)" "bit (carry_words v1 v2 v3 (k * cs + j)) i = c ! k"
    if "k < m" for k
    unfolding s_def c_def using that assms(3) by (intro sum_carry_columns; simp)+
  then have "map (\<lambda>k. (bit (sum_words cs v1 v2 v3 (k * cs + j)) i, bit (carry_words v1 v2 v3 (k * cs + j)) i)) [1..<m]
      = map (\<lambda>k. (s ! (k + 1), c ! k)) [1..<m]"
    by (intro map_cong refl) simp
  moreover have "bit (sum_words cs v1 v2 v3 j) i = s ! 1" "bit (carry_words v1 v2 v3 j) i = c ! 0"
    unfolding s_def c_def using assms(4) sum_carry_columns(1) [of 0 n cs v1 v2 v3 j i] sum_carry_columns(2) [of 0 n v1 v2 v3 cs j i]
    by simp_all
  ultimately show ?thesis by (simp only: bit_carries bit_and_iff)
qed

lemma column_two_carries:
  fixes v1 v2 v3 :: "nat \<Rightarrow> u64" and cs n j :: nat
  defines "k \<equiv> carries [1..<n - 1] (\<lambda>k. sum_words cs v1 v2 v3 (k * cs + j)) (\<lambda>k. carry_words v1 v2 v3 (k * cs + j))
      (sum_words cs v1 v2 v3 j AND carry_words v1 v2 v3 j)"
    and "t \<equiv> carry_words v1 v2 v3 ((n - 1) * cs + j)"
  assumes "1 < n"
  shows "of_bool (bit (k XOR t) i) + 2 * of_bool (bit (t AND k) i)
    = (bits_nat (plane_column cs n v1 j i) + bits_nat (plane_column cs n v2 j i) + bits_nat (plane_column cs n v3 j i)) div 2 ^ n"
proof -
  let ?s = "add3_sum (plane_column cs n v1 j i) (plane_column cs n v2 j i) (plane_column cs n v3 j i)"
  let ?c = "add3_carry (plane_column cs n v1 j i) (plane_column cs n v2 j i) (plane_column cs n v3 j i)"
  have len: "length ?s = n" "length ?c = n" by simp_all
  have k: "bit k i = carry_bits (zip (drop 2 ?s) (drop 1 (butlast ?c))) (?s ! 1 \<and> ?c ! 0)"
    unfolding k_def zip_ripple [OF len] by (rule bit_ripple) (use assms(3) in simp_all)
  have "?c \<noteq> []" using len assms(3) by (metis less_nat_zero_code list.size(3))
  then have t: "bit t i = last ?c"
    unfolding t_def using assms(3) len by (simp add: sum_carry_columns(2) [where n = n] last_conv_nth)
  have "of_bool (bit (k XOR t) i) + 2 * of_bool (bit (t AND k) i)
      = (of_bool (last ?c \<noteq> bit k i) + 2 * of_bool (last ?c \<and> bit k i) :: nat)"
    by (auto simp: bit_simps t)
  also have "\<dots> = (bits_nat ?s + 2 * bits_nat ?c) div 2 ^ n"
    unfolding k by (rule two_carries [OF len assms(3)])
  finally show ?thesis by (simp add: add3_split)
qed

lemma column_msb:
  fixes v1 v2 v3 :: "nat \<Rightarrow> u64" and cs n j :: nat
  defines "k \<equiv> carries [1..<n - 2] (\<lambda>k. sum_words cs v1 v2 v3 (k * cs + j)) (\<lambda>k. carry_words v1 v2 v3 (k * cs + j))
      (sum_words cs v1 v2 v3 j AND carry_words v1 v2 v3 j)"
  assumes "2 < n"
  shows "bit (k XOR sum_words cs v1 v2 v3 ((n - 2) * cs + j) XOR carry_words v1 v2 v3 ((n - 2) * cs + j)) i
    = odd ((bits_nat (plane_column cs n v1 j i) + bits_nat (plane_column cs n v2 j i) + bits_nat (plane_column cs n v3 j i)) div 2 ^ (n - 1))"
proof -
  let ?s = "add3_sum (plane_column cs n v1 j i) (plane_column cs n v2 j i) (plane_column cs n v3 j i)"
  let ?c = "add3_carry (plane_column cs n v1 j i) (plane_column cs n v2 j i) (plane_column cs n v3 j i)"
  have len: "length ?s = n" "length ?c = n" by simp_all
  have "length ?s \<noteq> 0" "length (butlast ?c) \<noteq> 0" using len assms(2) by simp_all
  then have ne: "?s \<noteq> []" "butlast ?c \<noteq> []" by (metis list.size(3))+
  have c0: "butlast ?c ! 0 = ?c ! 0" using len assms(2) by (simp add: nth_butlast)
  have k: "bit k i = carry_bits (zip (drop 2 (butlast ?s)) (drop 1 (butlast (butlast ?c)))) (?s ! 1 \<and> butlast ?c ! 0)"
    unfolding k_def c0 zip_ripple_msb [OF len] by (rule bit_ripple) (use assms(2) in simp_all)
  have "n - 2 + 1 = n - 1" using assms(2) by simp
  then have t: "bit (sum_words cs v1 v2 v3 ((n - 2) * cs + j)) i = last ?s"
    "bit (carry_words v1 v2 v3 ((n - 2) * cs + j)) i = last (butlast ?c)"
    using sum_carry_columns(1) [of "n - 2" n cs v1 v2 v3 j i] sum_carry_columns(2) [of "n - 2" n v1 v2 v3 cs j i] assms(2) ne len
    by (simp_all add: last_conv_nth nth_butlast numeral_2_eq_2)
  have "bit (k XOR sum_words cs v1 v2 v3 ((n - 2) * cs + j) XOR carry_words v1 v2 v3 ((n - 2) * cs + j)) i
      = ((last ?s \<noteq> last (butlast ?c)) \<noteq> bit k i)"
    by (auto simp: bit_simps t)
  also have "\<dots> = odd ((bits_nat ?s + 2 * bits_nat ?c) div 2 ^ (n - 1))"
    unfolding k by (rule msb_of_sum [OF len assms(2)])
  finally show ?thesis by (simp add: add3_split)
qed

lemma dev_shared_append:
  assumes "dev_shared nd n X V" "dev_shared nd m Y W"
  shows "dev_shared nd (n + m) (\<lambda>p. map2 (\<lambda>x y. \<lparr>ck_a = ck_a x @ ck_a y, ck_b = ck_b x @ ck_b y\<rparr>) (X p) (Y p))
    (\<lambda>d i. if i < n then V d i else W d (i - n))"
  using assms by (auto simp: dev_shared_def shared_words_def half_words_def nth_append)

lemma gpu_runs_two_carries:
  assumes X: "dev_shared nd (16 * cs) X1 V1" "dev_shared nd (16 * cs) X2 V2" "dev_shared nd (16 * cs) X3 V3"
    and cs: "8 dvd cs"
  shows "gpu_runs cs nd bf (\<lambda>p. gpu_add_3_get_two_carries (X1 p) (X2 p) (X3 p)) (\<lambda>A bf'. bf' = bf \<and>
    (\<exists>R. dev_shared nd (2 * cs) (\<lambda>p. fst (A p)) R \<and>
      (\<forall>p. length (snd (A p)) = nd \<and> (\<forall>d < nd. ck_sized (16 * cs) (fst (snd (A p) ! d)) \<and> ck_sized (16 * cs) (snd (snd (A p) ! d)))) \<and>
      (\<forall>d < nd. \<forall>j < cs. \<forall>i. of_bool (bit (R d j) i) + 2 * of_bool (bit (R d (cs + j)) i)
        = (bits_nat (plane_column cs 16 (V1 d) j i) + bits_nat (plane_column cs 16 (V2 d) j i) + bits_nat (plane_column cs 16 (V3 d) j i)) div 2 ^ 16)))"
    (is "gpu_runs _ _ _ _ ?Q")
proof -
  from cs obtain n where n: "cs = 8 * n" by (elim dvdE)
  note len = dev_sharedD(1) [OF X(1)] dev_sharedD(1) [OF X(2)] dev_sharedD(1) [OF X(3)]
  show ?thesis
    unfolding gpu_add_3_get_two_carries_def
    apply (rule gpu_runs_chunk, rule gpu_runs_assert [OF len(1)], rule gpu_runs_assert [OF len(2)], rule gpu_runs_assert [OF len(3)])
  proof (rule gpu_runs_adder [OF X], goal_cases)
    case (7 SC A Bs C)
    let ?k = "\<lambda>d j. carries [1..<15] (\<lambda>k. sum_words cs (V1 d) (V2 d) (V3 d) (k * cs + j))
        (\<lambda>k. carry_words (V1 d) (V2 d) (V3 d) (k * cs + j))
        (sum_words cs (V1 d) (V2 d) (V3 d) j AND carry_words (V1 d) (V2 d) (V3 d) j)"
    let ?t = "\<lambda>d j. carry_words (V1 d) (V2 d) (V3 d) (15 * cs + j)"
    have step: "\<exists>ys r'. (\<forall>p. (case zip (Bs p) (C p) ! d of (b, c) \<Rightarrow> rbind (get_offset 15 cs b) (\<lambda>b.
          rbind (and_many_pre cs b c (r p)) (\<lambda>(c2, rng). Inr ((xor_assign_many cs c b, c2), rng)))) = Inr (ys p, r' p)) \<and>
        corr r' \<and> shared_words cs (\<lambda>p. fst (ys p)) (\<lambda>j. ?k d j XOR ?t d j) \<and> half_words cs (\<lambda>p. snd (ys p)) (\<lambda>j. ?t d j AND ?k d j)"
      if d: "d < nd" and r: "corr r" for d r
    proof -
      have "(15 + 1) * cs \<le> 16 * cs" by simp
      note b = get_offset_shared [OF dev_sharedD(2) [OF 7(4) d] this] and c = dev_sharedD(2) [OF 7(5) d]
      obtain ys r' where ys: "\<And>p. and_many_pre cs (part (15 * cs) ((15 + 1) * cs) (Bs p ! d)) (C p ! d) (r p) = Inr (ys p, r' p)"
        "corr r'" "half_words cs ys (\<lambda>j. ?t d j AND ?k d j)"
        using and_many_ok [OF r b(2) c order_refl order_refl] by blast
      have "shared_words cs (\<lambda>p. xor_assign_many cs (C p ! d) (part (15 * cs) ((15 + 1) * cs) (Bs p ! d))) (\<lambda>j. ?k d j XOR ?t d j)"
        unfolding xor_assign_many_def
        by (rule shared_words_cong [OF xor_assign_shared [OF c b(2) order_refl order_refl]]) simp
      then show ?thesis
        using ys d by (intro exI [of _ "\<lambda>p. (xor_assign_many cs (C p ! d) (part (15 * cs) ((15 + 1) * cs) (Bs p ! d)), ys p)"] exI [of _ r'])
          (simp only: nth_zip dev_sharedD(1) [OF 7(4)] dev_sharedD(1) [OF 7(5)] prod.case b(1) rbind.simps fst_conv snd_conv simp_thms)
    qed
    show ?case
    proof (rule gpu_runs_bind [OF gpu_runs_each_device [where P = "\<lambda>d ys. shared_words cs (\<lambda>p. fst (ys p)) (\<lambda>j. ?k d j XOR ?t d j) \<and>
          half_words cs (\<lambda>p. snd (ys p)) (\<lambda>j. ?t d j AND ?k d j)"]])
      show "length (zip (Bs p) (C p)) = nd" for p by (simp add: dev_sharedD(1) [OF 7(4)] dev_sharedD(1) [OF 7(5)])
    next
      fix C12 bf' assume C12: "bf' = bf \<and> (\<forall>p. length (C12 p) = nd) \<and> (\<forall>d < nd. shared_words cs (\<lambda>p. fst (C12 p ! d)) (\<lambda>j. ?k d j XOR ?t d j) \<and>
          half_words cs (\<lambda>p. snd (C12 p ! d)) (\<lambda>j. ?t d j AND ?k d j))"
      have half: "dev_half nd (8 * n) (\<lambda>p. map snd (C12 p)) (\<lambda>d j. ?t d j AND ?k d j)"
        and c1: "dev_shared nd cs (\<lambda>p. map fst (C12 p)) (\<lambda>d j. ?k d j XOR ?t d j)"
        using C12 by (simp_all add: dev_half_def dev_shared_def n)
      show "gpu_runs cs nd bf' (\<lambda>p. gbind (send_receive_view (map snd (C12 p))) (\<lambda>c2.
          gret (map2 (\<lambda>c1 c2. \<lparr>ck_a = ck_a c1 @ ck_a c2, ck_b = ck_b c1 @ ck_b c2\<rparr>) (map fst (C12 p)) c2,
            map (\<lambda>(_, _, x1x3, x2x3). (x1x3, x2x3)) (SC p)))) ?Q"
      proof (rule gpu_runs_bind [OF gpu_runs_send_receive [OF half]], rule gpu_runs_ret, goal_cases)
        case (1 C2 bf2)
        then have c2: "dev_shared nd cs C2 (\<lambda>d j. ?t d j AND ?k d j)" by (simp add: n)
        note c = dev_shared_append [OF c1 c2]
        let ?R = "\<lambda>d i. if i < cs then ?k d i XOR ?t d i else ?t d (i - cs) AND ?k d (i - cs)"
        have "of_bool (bit (?R d j) i) + 2 * of_bool (bit (?R d (cs + j)) i)
            = (bits_nat (plane_column cs 16 (V1 d) j i) + bits_nat (plane_column cs 16 (V2 d) j i) + bits_nat (plane_column cs 16 (V3 d) j i)) div 2 ^ 16"
          if "j < cs" for d j i
          using column_two_carries [of 16 cs "V1 d" "V2 d" "V3 d" j i] that by simp
        then show ?case
          using 1 C12 c 7(1,2) unfolding mult_2 by (intro conjI exI [of _ ?R]) (auto simp: case_prod_beta)
      qed
    qed (rule step)
  qed (use cs in simp_all)
qed

lemma gpu_runs_msb:
  assumes X: "dev_shared nd (32 * cs) X1 V1" "dev_shared nd (32 * cs) X2 V2" "dev_shared nd (32 * cs) X3 V3"
    and cs: "8 dvd cs"
  shows "gpu_runs cs nd bf (\<lambda>p. gpu_add_3_get_msb (X1 p) (X2 p) (X3 p)) (\<lambda>A bf'. bf' = bf \<and>
    (\<forall>p. \<forall>d < nd. ck_sized (32 * cs) (A p ! d)) \<and>
    (\<exists>R. dev_shared nd cs (\<lambda>p. map (part 0 cs) (A p)) R \<and>
      (\<forall>d < nd. \<forall>j < cs. \<forall>i. bit (R d j) i
        = odd ((bits_nat (plane_column cs 32 (V1 d) j i) + bits_nat (plane_column cs 32 (V2 d) j i) + bits_nat (plane_column cs 32 (V3 d) j i)) div 2 ^ 31))))"
    (is "gpu_runs _ _ _ _ ?Q")
proof -
  note len = dev_sharedD(1) [OF X(1)] dev_sharedD(1) [OF X(2)] dev_sharedD(1) [OF X(3)]
  show ?thesis
    unfolding gpu_add_3_get_msb_def
    apply (rule gpu_runs_chunk, rule gpu_runs_assert [OF len(1)], rule gpu_runs_assert [OF len(2)], rule gpu_runs_assert [OF len(3)])
  proof (rule gpu_runs_adder [OF X], goal_cases)
    case (7 SC A Bs C)
    let ?k = "\<lambda>d j. carries [1..<30] (\<lambda>k. sum_words cs (V1 d) (V2 d) (V3 d) (k * cs + j))
        (\<lambda>k. carry_words (V1 d) (V2 d) (V3 d) (k * cs + j))
        (sum_words cs (V1 d) (V2 d) (V3 d) j AND carry_words (V1 d) (V2 d) (V3 d) j)"
    let ?R = "\<lambda>d j. ?k d j XOR sum_words cs (V1 d) (V2 d) (V3 d) (30 * cs + j) XOR carry_words (V1 d) (V2 d) (V3 d) (30 * cs + j)"
    let ?top = "\<lambda>x. part (30 * cs) ((30 + 1) * cs) x"
    let ?C = "\<lambda>p. map (\<lambda>d. xor_assign_many cs (xor_assign_many cs (C p ! d) (?top (A p ! d))) (?top (Bs p ! d))) [0..<nd]"
    note lens = dev_sharedD(1) [OF 7(3)] dev_sharedD(1) [OF 7(4)] dev_sharedD(1) [OF 7(5)]
    have fits: "(30 + 1) * cs \<le> (32 - 1) * cs" "(30 + 1) * cs \<le> 31 * cs" by simp_all
    have top: "get_offset 30 cs (A p ! d) = Inr (?top (A p ! d))" "get_offset 30 cs (Bs p ! d) = Inr (?top (Bs p ! d))"
      "shared_words cs (\<lambda>p. ?C p ! d) (?R d)" if d: "d < nd" for p d
    proof -
      note a = get_offset_shared [OF dev_sharedD(2) [OF 7(3) d] fits(1)] and b = get_offset_shared [OF dev_sharedD(2) [OF 7(4) d] fits(2)]
      show "get_offset 30 cs (A p ! d) = Inr (?top (A p ! d))" "get_offset 30 cs (Bs p ! d) = Inr (?top (Bs p ! d))" by (fact a b)+
      have "shared_words cs (\<lambda>p. xor_assign_many cs (xor_assign_many cs (C p ! d) (?top (A p ! d))) (?top (Bs p ! d))) (?R d)"
        unfolding xor_assign_many_def
        by (rule shared_words_cong [OF xor_assign_shared [OF xor_assign_shared [OF dev_sharedD(2) [OF 7(5) d] a(2) order_refl order_refl]
              b(2) order_refl order_refl]]) (simp add: xor.assoc)
      then show "shared_words cs (\<lambda>p. ?C p ! d) (?R d)" using d by simp
    qed
    have C: "dev_shared nd cs ?C ?R" using top(3) by (simp add: dev_shared_def)
    have res: "rmap (\<lambda>(a, b, c). rbind (get_offset 30 cs a) (\<lambda>a. rbind (get_offset 30 cs b) (\<lambda>b.
        Inr (xor_assign_many cs (xor_assign_many cs c a) b)))) (zip (A p) (zip (Bs p) (C p))) = Inr (?C p)" for p
    proof -
      have eq: "zip (A p) (zip (Bs p) (C p)) = map (\<lambda>d. (A p ! d, Bs p ! d, C p ! d)) [0..<nd]"
        by (rule nth_equalityI) (simp_all add: lens)
      show ?thesis unfolding eq rmap_map by (rule rmap_Inr) (simp add: top(1,2) del: add_num_simps)
    qed
    show ?case
    proof (rule gpu_runs_try_bind, rule res, rule gpu_runs_ret, intro conjI)
      let ?A = "\<lambda>p. map2 (\<lambda>c (_, _, x1x3, _). \<lparr>ck_a = ck_a c @ drop cs (ck_a x1x3), ck_b = ck_b c @ drop cs (ck_b x1x3)\<rparr>) (?C p) (SC p)"
      have A: "ck_sized (32 * cs) (?A p ! d) \<and> part 0 cs (?A p ! d) = ?C p ! d" if d: "d < nd" for p d
      proof -
        have "length (ck_a (?C p ! d)) = cs" "length (ck_b (?C p ! d)) = cs" using shared_wordsD [OF top(3) [OF d]] by blast+
        then show ?thesis using 7(1,2) d by (simp add: case_prod_beta ck_sized_def part_def)
      qed
      then show "\<forall>p. \<forall>d < nd. ck_sized (32 * cs) (?A p ! d)" by blast
      have "map (part 0 cs) (?A p) = ?C p" for p using A 7(1) by (intro nth_equalityI) simp_all
      then have "dev_shared nd cs (\<lambda>p. map (part 0 cs) (?A p)) ?R" using C by simp
      moreover have "bit (?R d j) i = odd ((bits_nat (plane_column cs 32 (V1 d) j i) + bits_nat (plane_column cs 32 (V2 d) j i) +
          bits_nat (plane_column cs 32 (V3 d) j i)) div 2 ^ 31)" for d j i
        using column_msb [of 32 cs "V1 d" "V2 d" "V3 d" j i] by simp
      ultimately show "\<exists>R. dev_shared nd cs (\<lambda>p. map (part 0 cs) (?A p)) R \<and> (\<forall>d < nd. \<forall>j < cs. \<forall>i. bit (R d j) i
          = odd ((bits_nat (plane_column cs 32 (V1 d) j i) + bits_nat (plane_column cs 32 (V2 d) j i) + bits_nat (plane_column cs 32 (V3 d) j i)) div 2 ^ 31))"
        by blast
    qed simp
  qed (use cs in simp_all)
qed

end
