(* ===== verification/CircuitsCorrect.thy ===== *)
theory CircuitsCorrect
  imports CircuitsAdder CircuitsTranspose CircuitsInject
begin

text \<open>
  Correctness of the comparison with the threshold on the GPU: the masks are lifted to 32 bits, the
  difference with the scaled code dot products is formed, and its sign bit is extracted.
\<close>

section \<open>From additive shares to shared planes\<close>

definition replicated :: "nat \<Rightarrow> (PartyID \<Rightarrow> 'a ChunkShare) \<Rightarrow> bool" where
  "replicated n y \<longleftrightarrow> (\<forall>p. length (ck_a (y p)) = n \<and> ck_b (y p) = ck_a (y (prev_id p)))"

lemma transposed_shares:
  fixes x :: "PartyID \<Rightarrow> 'a::len word ChunkShare"
  assumes tr: "transposes_words tr" and x: "added_words (64 * cs) x v"
  shows "\<exists>y. (\<forall>p. rbind (transpose_planes tr LENGTH('a) (ck_a (x p)) (cs * 64) LENGTH('a)) (\<lambda>a.
        rbind (transpose_planes tr LENGTH('a) (ck_b (x p)) (cs * 64) LENGTH('a)) (\<lambda>b. Inr \<lparr>ck_a = a, ck_b = b\<rparr>)) = Inr (y p)) \<and>
    replicated (LENGTH('a) * cs) y \<and>
    (\<forall>q. \<forall>j < cs. \<forall>i < 64. bits_nat (plane_column cs LENGTH('a) ((!) (ck_a (y q))) j i) = unat (ck_a (x q) ! (j * 64 + i)))"
proof -
  let ?ok = "\<lambda>inp out. transpose_planes tr LENGTH('a) inp (cs * 64) LENGTH('a) = Inr out \<and> length out = LENGTH('a) * cs \<and>
    (\<forall>k < LENGTH('a). \<forall>j < cs. \<forall>i < 64. bit (out ! (k * cs + j)) i = bit (inp ! (j * 64 + i)) k)"
  have len: "64 * cs \<le> length (ck_a (x p))" "64 * cs \<le> length (ck_b (x p))" for p using x by (simp_all add: added_words_def)
  have "\<forall>p. \<exists>a. ?ok (ck_a (x p)) a" "\<forall>p. \<exists>b. ?ok (ck_b (x p)) b"
    using transpose_pack_words [OF tr len(1) order_refl] transpose_pack_words [OF tr len(2) order_refl] by blast+
  then obtain ya yb where a: "\<And>p. ?ok (ck_a (x p)) (ya p)" and b: "\<And>p. ?ok (ck_b (x p)) (yb p)" by metis
  have idx: "k < LENGTH('a) * cs \<Longrightarrow> k div cs < LENGTH('a) \<and> k mod cs < cs \<and> k div cs * cs + k mod cs = k" for k
    by (cases "cs = 0") (simp_all add: less_mult_imp_div_less)
  have blk: "j < cs \<Longrightarrow> i < 64 \<Longrightarrow> j * 64 + i < 64 * cs" for i j :: nat by simp
  have rep: "yb p = ya (prev_id p)" for p
  proof (rule nth_equalityI)
    fix k assume "k < length (yb p)"
    then have k: "k div cs < LENGTH('a)" "k mod cs < cs" "k div cs * cs + k mod cs = k" using b idx by auto
    show "yb p ! k = ya (prev_id p) ! k"
    proof (rule bit_word_eqI)
      fix i assume "i < LENGTH(64)"
      then have i: "i < 64" by simp
      have "ck_b (x p) ! (k mod cs * 64 + i) = ck_a (x (prev_id p)) ! (k mod cs * 64 + i)"
        using x blk [OF k(2) i] by (simp add: added_words_def)
      then show "bit (yb p ! k) i = bit (ya (prev_id p) ! k) i"
        using a [of "prev_id p"] b [of p] k i by metis
    qed
  qed (use a b in simp)
  have "bits_nat (plane_column cs LENGTH('a) ((!) (ya q)) j i) = unat (ck_a (x q) ! (j * 64 + i))" if "j < cs" "i < 64" for q j i
  proof -
    have "plane_column cs LENGTH('a) ((!) (ya q)) j i = map (bit (ck_a (x q) ! (j * 64 + i))) [0..<LENGTH('a)]"
      using a [of q] that by (simp add: plane_column_def)
    then show ?thesis by (simp only: bits_nat_word)
  qed
  then show ?thesis
    using a b rep by (intro exI [of _ "\<lambda>p. \<lparr>ck_a = ya p, ck_b = yb p\<rparr>"]) (simp add: replicated_def)
qed

lemma split_shared:
  assumes "replicated n y"
  shows "shared_words n (\<lambda>p. fst (split_words (y p) n (usize_from_party p))) ((!) (ck_a (y ID0)))"
    "shared_words n (\<lambda>p. fst (snd (split_words (y p) n (usize_from_party p)))) ((!) (ck_a (y ID1)))"
    "shared_words n (\<lambda>p. snd (snd (split_words (y p) n (usize_from_party p)))) ((!) (ck_a (y ID2)))"
proof -
  have y: "length (ck_a (y p)) = n" "ck_b (y p) = ck_a (y (prev_id p))" for p using assms by (simp_all add: replicated_def)
  show "shared_words n (\<lambda>p. fst (split_words (y p) n (usize_from_party p))) ((!) (ck_a (y ID0)))"
    "shared_words n (\<lambda>p. fst (snd (split_words (y p) n (usize_from_party p)))) ((!) (ck_a (y ID1)))"
    "shared_words n (\<lambda>p. snd (snd (split_words (y p) n (usize_from_party p)))) ((!) (ck_a (y ID2)))"
    by (auto simp: shared_words_def half_words_def all_parties split_words_def split_inner_def Let_def y comp_def)
qed

section \<open>The lifted difference\<close>

text \<open>The number whose sign bit decides: a quarter of the mask dot product minus the code dot product, in units of $2^{-16}$, minus one.\<close>

definition threshold_gap :: "u16 \<Rightarrow> u16 \<Rightarrow> u32" where
  "threshold_gap m c = ucast m * 2 ^ 14 - push_bit 16 (ucast c) - 1"

lemma push_ucast_sum:
  fixes a b c :: u16
  assumes "16 \<le> k" "k < 32"
  shows "push_bit k (ucast (a + b + c)) = (push_bit k (ucast a) + push_bit k (ucast b) + push_bit k (ucast c) :: u32)"
  using open_add_mul_lift [OF assms, of "by_party \<lparr>sh_a = a, sh_b = 0\<rparr> \<lparr>sh_a = b, sh_b = 0\<rparr> \<lparr>sh_a = c, sh_b = 0\<rparr>"]
  using assms(2) by (simp add: open_add_word mul_lift_2k_def Share_new_def)

lemma lift_mul_sub_sum:
  fixes a0 a1 a2 c0 c1 c2 p0 p1 p2 q0 q1 q2 :: u16
  assumes "p0 + p1 + p2 = of_bool b1" "q0 + q1 + q2 = of_bool b2"
    and "of_bool b1 + 2 * of_bool b2 = (unat a0 + unat a1 + unat a2) div 2 ^ 16"
  shows "(lift_mul_sub_inner (ucast a0) p0 q0 c0 - 1) + lift_mul_sub_inner (ucast a1) p1 q1 c1 + lift_mul_sub_inner (ucast a2) p2 q2 c2
    = threshold_gap (a0 + a1 + a2) (c0 + c1 + c2)"
proof -
  have "(ucast a0 + ucast a1 + ucast a2 :: u32) - push_bit 16 (ucast (p0 + p1 + p2)) - push_bit 17 (ucast (q0 + q1 + q2))
      = ucast (a0 + a1 + a2)"
    unfolding assms(1,2) by (rule lift_value [OF assms(3)])
  then have m: "ucast (a0 + a1 + a2) = (ucast a0 + ucast a1 + ucast a2 :: u32)
      - (push_bit 16 (ucast p0) + push_bit 16 (ucast p1) + push_bit 16 (ucast p2))
      - (push_bit 17 (ucast q0) + push_bit 17 (ucast q1) + push_bit 17 (ucast q2))"
    by (simp add: push_ucast_sum)
  have c: "push_bit 16 (ucast (c0 + c1 + c2)) = (push_bit 16 (ucast c0) + push_bit 16 (ucast c1) + push_bit 16 (ucast c2) :: u32)"
    by (rule push_ucast_sum) simp_all
  show ?thesis unfolding threshold_gap_def m c lift_mul_sub_inner_def Let_def by (simp add: algebra_simps)
qed

text \<open>For dot products of iris codes the sign bit compares the ratio with three eighths.\<close>

lemma gap_bounds:
  "0 \<le> u \<Longrightarrow> u \<le> 12800 \<Longrightarrow> - 12800 \<le> c \<Longrightarrow> c \<le> 12800 \<Longrightarrow>
     - (2 ^ 31) \<le> u * 2 ^ 14 - c * 2 ^ 16 - 1 \<and> u * 2 ^ 14 - c * 2 ^ 16 - 1 < (2 ^ 31 :: int)"
  by auto

lemma threshold_gap_sign:
  assumes "unat m \<le> 12800" "\<bar>sint c\<bar> \<le> 12800"
  shows "bit (threshold_gap m c) 31 \<longleftrightarrow> int (unat m) \<le> 4 * sint c"
proof -
  let ?x = "int (unat m) * 2 ^ 14 - sint c * 2 ^ 16 - 1"
  have "push_bit 16 (ucast c :: u32) = of_int (sint c * 2 ^ 16)"
  proof -
    have "(of_int (sint c) :: u32) = scast c" by simp
    moreover have "push_bit 16 (scast c :: u32) = push_bit 16 (ucast c :: u32)"
      by (rule bit_word_eqI) (auto simp: bit_push_bit_iff bit_ucast_iff bit_signed_iff)
    ultimately show ?thesis by (simp add: push_bit_eq_mult)
  qed
  moreover have "ucast m = (of_int (int (unat m)) :: u32)" by simp
  ultimately have "threshold_gap m c = of_int ?x" unfolding threshold_gap_def by simp
  moreover have "0 \<le> int (unat m)" "int (unat m) \<le> 12800" "- 12800 \<le> sint c" "sint c \<le> 12800" using assms by linarith+
  then have "- (2 ^ 31) \<le> ?x \<and> ?x < 2 ^ 31" by (rule gap_bounds)
  then have "signed_take_bit 31 ?x = ?x" by (simp add: signed_take_bit_int_eq_self)
  moreover have "LENGTH(32) - 1 = 31" by simp
  ultimately have "sint (threshold_gap m c) = ?x" by (simp only: sint_sbintrunc')
  moreover have "bit (threshold_gap m c) 31 \<longleftrightarrow> sint (threshold_gap m c) < 0"
    by (simp add: bit_last_iff [symmetric])
  ultimately show ?thesis by auto
qed

lemma lift_mul_sub_added:
  fixes ms :: "PartyID \<Rightarrow> u32 ChunkShare" and x code corr :: "PartyID \<Rightarrow> u16 ChunkShare"
  assumes x: "added_words n x vm" and code: "added_words n code vc" and corr: "added_words (2 * n) corr (\<lambda>i. of_bool (bs i))"
    and ms: "\<And>p. ms p = \<lparr>ck_a = map (\<lambda>i. ucast (ck_a (x p) ! i)) [0..<n], ck_b = map (\<lambda>i. ucast (ck_b (x p) ! i)) [0..<n]\<rparr>"
    and bits: "\<And>i. i < n \<Longrightarrow> of_bool (bs i) + 2 * of_bool (bs (n + i))
      = (unat (ck_a (x ID0) ! i) + unat (ck_a (x ID1) ! i) + unat (ck_a (x ID2) ! i)) div 2 ^ 16"
  shows "added_words n (\<lambda>p. shared_lift_mul_sub (ms p) (corr p) (code p) (usize_from_party p) n) (\<lambda>i. threshold_gap (vm i) (vc i))"
proof -
  have rep: "ck_b (x p) ! i = ck_a (x (prev_id p)) ! i" "ck_b (code p) ! i = ck_a (code (prev_id p)) ! i"
    "ck_b (corr p) ! i = ck_a (corr (prev_id p)) ! i" "ck_b (corr p) ! (i + n) = ck_a (corr (prev_id p)) ! (i + n)" if "i < n" for p i
    using x code corr that by (simp_all add: added_words_def)
  have val: "vm i = ck_a (x ID0) ! i + ck_a (x ID1) ! i + ck_a (x ID2) ! i"
    "vc i = ck_a (code ID0) ! i + ck_a (code ID1) ! i + ck_a (code ID2) ! i"
    "ck_a (corr ID0) ! i + ck_a (corr ID1) ! i + ck_a (corr ID2) ! i = of_bool (bs i)"
    "ck_a (corr ID0) ! (i + n) + ck_a (corr ID1) ! (i + n) + ck_a (corr ID2) ! (i + n) = of_bool (bs (n + i))" if "i < n" for i
    using x code corr that by (simp_all add: added_words_def add.commute [of i n])
  show ?thesis
    unfolding added_words_def
  proof (intro conjI allI impI)
    fix i p assume i: "i < n"
    then show "ck_b (shared_lift_mul_sub (ms p) (corr p) (code p) (usize_from_party p) n) ! i
        = ck_a (shared_lift_mul_sub (ms (prev_id p)) (corr (prev_id p)) (code (prev_id p)) (usize_from_party (prev_id p)) n) ! i"
      by (cases p) (simp_all add: shared_lift_mul_sub_def Let_def ms rep [OF i])
  next
    fix i assume i: "i < n"
    then show "ck_a (shared_lift_mul_sub (ms ID0) (corr ID0) (code ID0) (usize_from_party ID0) n) ! i +
        ck_a (shared_lift_mul_sub (ms ID1) (corr ID1) (code ID1) (usize_from_party ID1) n) ! i +
        ck_a (shared_lift_mul_sub (ms ID2) (corr ID2) (code ID2) (usize_from_party ID2) n) ! i = threshold_gap (vm i) (vc i)"
      using lift_mul_sub_sum [OF val(3,4) [OF i] bits [OF i]] by (simp add: shared_lift_mul_sub_def Let_def ms val [OF i])
  qed (simp_all add: shared_lift_mul_sub_def Let_def)
qed

section \<open>The result buffer\<close>

definition sized_bufs :: "nat \<Rightarrow> nat \<Rightarrow> (PartyID \<Rightarrow> 'a ChunkShare list) \<Rightarrow> bool" where
  "sized_bufs nd n X \<longleftrightarrow> (\<forall>p. length (X p) = nd \<and> (\<forall>d < nd. ck_sized n (X p ! d)))"

lemma gpu_runs_take:
  assumes "gpu_runs cs nd (\<lambda>_. None) (\<lambda>p. F p (buf p)) Q"
  shows "gpu_runs cs nd (\<lambda>p. Some (buf p)) (\<lambda>p. gbind (glocal take_result_buffer) (F p)) Q"
proof (rule gpu_runs_bind [OF gpu_runs_local [where Q = "\<lambda>A bf'. A = buf \<and> bf' = (\<lambda>_. None)"]])
  fix S assume S: "gpu_synced cs nd (\<lambda>p. Some (buf p)) S"
  then have "glocal take_result_buffer (S p) = Ret (Inr (buf p, (S p)\<lparr>result_buffer := None\<rparr>))" for p
    by (simp add: glocal_def take_result_buffer_def gpu_synced_def)
  moreover have "gpu_synced cs nd (\<lambda>_. None) (\<lambda>p. (S p)\<lparr>result_buffer := None\<rparr>)" using S by (simp add: gpu_synced_def)
  ultimately show "\<exists>A bf' S'. (\<forall>p. glocal take_result_buffer (S p) = Ret (Inr (A p, S' p))) \<and> gpu_synced cs nd bf' S' \<and>
      A = buf \<and> bf' = (\<lambda>_. None)"
    by (intro exI [of _ buf] exI [of _ "\<lambda>_. None"] exI [of _ "\<lambda>p. (S p)\<lparr>result_buffer := None\<rparr>"]) simp
qed (use assms in simp)

lemma gpu_runs_return:
  assumes "Q (\<lambda>_. ()) (\<lambda>p. Some (src p))"
  shows "gpu_runs cs nd (\<lambda>_. None) (\<lambda>p. glocal (\<lambda>self. rbind (return_result_buffer (src p) self) (\<lambda>self. Inr ((), self)))) Q"
proof (rule gpu_runs_local)
  fix S assume S: "gpu_synced cs nd (\<lambda>_. None) S"
  let ?S = "\<lambda>p. (S p)\<lparr>result_buffer := Some (src p)\<rparr>"
  have "glocal (\<lambda>self. rbind (return_result_buffer (src p) self) (\<lambda>self. Inr ((), self))) (S p) = Ret (Inr ((), ?S p))" for p
    using S by (simp add: glocal_def return_result_buffer_def gpu_synced_def)
  moreover have "gpu_synced cs nd (\<lambda>p. Some (src p)) ?S" using S by (simp add: gpu_synced_def)
  ultimately show "\<exists>A bf' S'. (\<forall>p. glocal (\<lambda>self. rbind (return_result_buffer (src p) self) (\<lambda>self. Inr ((), self))) (S p)
      = Ret (Inr (A p, S' p))) \<and> gpu_synced cs nd bf' S' \<and> Q A bf'"
    using assms by (intro exI [of _ "\<lambda>_. ()"] exI [of _ "\<lambda>p. Some (src p)"] exI [of _ ?S]) simp
qed

text \<open>The views into the result buffer exist.\<close>

lemma gpu_runs_views:
  assumes buf: "sized_bufs nd n buf" "32 * cs \<le> n" and "\<And>x. gpu_runs cs nd bf (\<lambda>p. F p (x p)) Q"
  shows "gpu_runs cs nd bf (\<lambda>p. gbind (gtry (\<lambda>self. rmap (get_range 0 (32 * chunk_size self)) (buf p))) (F p)) Q"
proof (rule gpu_runs_try_bind)
  fix S p assume "gpu_synced cs nd bf S"
  then have "chunk_size (S p) = cs" by (simp add: gpu_synced_def)
  moreover have "rmap (get_range 0 (32 * cs)) (buf p) = Inr (map (part 0 (32 * cs)) (buf p))"
    by (rule rmap_Inr) (use buf in \<open>auto simp: sized_bufs_def ck_sized_def in_set_conv_nth get_range_def view_slice_def part_def\<close>)
  ultimately show "rmap (get_range 0 (32 * chunk_size (S p))) (buf p) = Inr (map (part 0 (32 * cs)) (buf p))" by simp
qed (rule assms)

lemma overwrite_sized:
  assumes "sized_bufs nd n buf" "sized_bufs nd m X" "m \<le> n"
  shows "sized_bufs nd n (\<lambda>p. map2 overwrite (buf p) (X p))"
    "\<And>p. k \<le> m \<Longrightarrow> map (part 0 k) (map2 overwrite (buf p) (X p)) = map (part 0 k) (X p)"
proof -
  show "sized_bufs nd n (\<lambda>p. map2 overwrite (buf p) (X p))"
    using assms by (simp add: sized_bufs_def ck_sized_def overwrite_def)
  show "map (part 0 k) (map2 overwrite (buf p) (X p)) = map (part 0 k) (X p)" if "k \<le> m" for p
    by (rule nth_equalityI) (use assms that in \<open>simp_all add: sized_bufs_def ck_sized_def overwrite_def part_def\<close>)
qed

section \<open>The comparison\<close>

lemma dev_added_planes:
  fixes X :: "PartyID \<Rightarrow> 'a::len word ChunkShare list"
  assumes tr: "transposes_words tr" and X: "dev_added nd (64 * cs) X V"
  obtains Y where "\<And>p. rmap (\<lambda>x. rbind (transpose_planes tr LENGTH('a) (ck_a x) (cs * 64) LENGTH('a)) (\<lambda>a.
        rbind (transpose_planes tr LENGTH('a) (ck_b x) (cs * 64) LENGTH('a)) (\<lambda>b. Inr \<lparr>ck_a = a, ck_b = b\<rparr>))) (X p) = Inr (Y p)"
    "\<And>p. length (Y p) = nd" "\<And>d. d < nd \<Longrightarrow> replicated (LENGTH('a) * cs) (\<lambda>p. Y p ! d)"
    "\<And>d q j i. d < nd \<Longrightarrow> j < cs \<Longrightarrow> i < 64 \<Longrightarrow>
      bits_nat (plane_column cs LENGTH('a) ((!) (ck_a (Y q ! d))) j i) = unat (ck_a (X q ! d) ! (j * 64 + i))"
proof -
  let ?f = "\<lambda>x. rbind (transpose_planes tr LENGTH('a) (ck_a x) (cs * 64) LENGTH('a)) (\<lambda>a.
        rbind (transpose_planes tr LENGTH('a) (ck_b x) (cs * 64) LENGTH('a)) (\<lambda>b. Inr \<lparr>ck_a = a, ck_b = b\<rparr>))"
  have len: "length (X p) = nd" for p using X by (simp add: dev_added_def)
  let ?ok = "\<lambda>d y. (\<forall>p. ?f (X p ! d) = Inr (y p)) \<and> replicated (LENGTH('a) * cs) y \<and>
    (\<forall>q. \<forall>j < cs. \<forall>i < 64. bits_nat (plane_column cs LENGTH('a) ((!) (ck_a (y q))) j i) = unat (ck_a (X q ! d) ! (j * 64 + i)))"
  have "\<forall>d \<in> {..<nd}. \<exists>y. ?ok d y"
  proof
    fix d assume "d \<in> {..<nd}"
    then have "added_words (64 * cs) (\<lambda>p. X p ! d) (V d)" using X by (simp add: dev_added_def)
    then show "\<exists>y. ?ok d y" by (rule transposed_shares [OF tr])
  qed
  then obtain y where y': "\<forall>d \<in> {..<nd}. ?ok d (y d)" by (rule bchoice [THEN exE])
  then have y: "\<forall>p. ?f (X p ! d) = Inr (y d p)" "replicated (LENGTH('a) * cs) (y d)"
    "\<forall>q. \<forall>j < cs. \<forall>i < 64. bits_nat (plane_column cs LENGTH('a) ((!) (ck_a (y d q))) j i) = unat (ck_a (X q ! d) ! (j * 64 + i))"
    if "d < nd" for d using that by blast+
  have "rmap ?f (X p) = Inr (map (\<lambda>d. y d p) [0..<nd])" for p
  proof -
    have X: "map ((!) (X p)) [0..<nd] = X p" using map_nth [of "X p"] len by simp
    have "rmap (\<lambda>d. ?f (X p ! d)) [0..<nd] = Inr (map (\<lambda>d. y d p) [0..<nd])" by (rule rmap_Inr) (use y in simp)
    then show ?thesis unfolding rmap_map [symmetric, of ?f "(!) (X p)"] X .
  qed
  then show ?thesis
  proof (rule that [of "\<lambda>p. map (\<lambda>d. y d p) [0..<nd]"])
    show "length (map (\<lambda>d. y d p) [0..<nd]) = nd" for p by simp
  next
    fix d q and i j :: nat assume "d < nd"
    then show "replicated (LENGTH('a) * cs) (\<lambda>p. map (\<lambda>d. y d p) [0..<nd] ! d)"
      and "j < cs \<Longrightarrow> i < 64 \<Longrightarrow> bits_nat (plane_column cs LENGTH('a) ((!) (ck_a (map (\<lambda>d. y d q) [0..<nd] ! d))) j i)
        = unat (ck_a (X q ! d) ! (j * 64 + i))"
      using y by simp_all
  qed
qed

definition zero_extended :: "nat \<Rightarrow> u16 ChunkShare \<Rightarrow> u32 ChunkShare" where
  "zero_extended n x = \<lparr>ck_a = map (\<lambda>i. ucast (ck_a x ! i)) [0..<n], ck_b = map (\<lambda>i. ucast (ck_b x ! i)) [0..<n]\<rparr>"

lemma dev_split:
  assumes "\<forall>p. length (Y p) = nd" "\<forall>d < nd. replicated n (\<lambda>p. Y p ! d)"
  shows "dev_shared nd n (\<lambda>p. map (\<lambda>x. fst (split_words x n (usize_from_party p))) (Y p)) (\<lambda>d. (!) (ck_a (Y ID0 ! d)))"
    "dev_shared nd n (\<lambda>p. map (\<lambda>x. fst (snd (split_words x n (usize_from_party p)))) (Y p)) (\<lambda>d. (!) (ck_a (Y ID1 ! d)))"
    "dev_shared nd n (\<lambda>p. map (\<lambda>x. snd (snd (split_words x n (usize_from_party p)))) (Y p)) (\<lambda>d. (!) (ck_a (Y ID2 ! d)))"
  using split_shared [of n "\<lambda>p. Y p ! d" for d] assms by (simp_all add: dev_shared_def)

lemma gpu_runs_lift_mpc:
  assumes X: "dev_added nd (64 * cs) X V" and buf: "sized_bufs nd n buf" "32 * cs \<le> n" and cs: "8 dvd cs"
  shows "gpu_runs cs nd (\<lambda>p. Some (buf p)) (\<lambda>p. lift_mpc (X p)) (\<lambda>A bf'. \<exists>buf' bs. bf' = (\<lambda>p. Some (buf' p)) \<and> sized_bufs nd n buf' \<and>
    (\<forall>p. fst (A p) = map (zero_extended (64 * cs)) (X p)) \<and> dev_added nd (128 * cs) (\<lambda>p. snd (A p)) (\<lambda>d i. of_bool (bs d i)) \<and>
    (\<forall>d < nd. \<forall>i < 64 * cs. of_bool (bs d i) + 2 * of_bool (bs d (64 * cs + i))
      = (unat (ck_a (X ID0 ! d) ! i) + unat (ck_a (X ID1 ! d) ! i) + unat (ck_a (X ID2 ! d) ! i)) div 2 ^ 16))"
    (is "gpu_runs _ _ _ _ ?Q")
proof -
  have len: "length (X p) = nd" for p using X by (simp add: dev_added_def)
  have L: "LENGTH(16) = 16" by simp
  obtain Y where Y: "\<And>p. rmap (\<lambda>x. shared_u16_transpose_pack_u64 x (cs * 64) 16) (X p) = Inr (Y p)" "\<And>p. length (Y p) = nd"
    "\<And>d. d < nd \<Longrightarrow> replicated (16 * cs) (\<lambda>p. Y p ! d)"
    "\<And>d q j i. d < nd \<Longrightarrow> j < cs \<Longrightarrow> i < 64 \<Longrightarrow> bits_nat (plane_column cs 16 ((!) (ck_a (Y q ! d))) j i) = unat (ck_a (X q ! d) ! (j * 64 + i))"
    using dev_added_planes [OF transposes_words_16 X, unfolded L shared_u16_transpose_pack_u64_def [symmetric]] by blast
  have "\<forall>p. length (Y p) = nd" "\<forall>d < nd. replicated (16 * cs) (\<lambda>p. Y p ! d)" using Y(2,3) by blast+
  note split = dev_split [OF this]
  let ?parts = "\<lambda>p. map2 (\<lambda>inp x1. lift_split_words inp x1 cs (usize_from_party p)) (X p) (Y p)"
  have tr: "gpu_runs cs nd bf (\<lambda>p. transpose_pack_u16_with_len (X p) 16) (\<lambda>A bf'. bf' = bf \<and> A = Y)" for bf
    unfolding transpose_pack_u16_with_len_def
    by (rule gpu_runs_assert [OF len], rule gpu_runs_try [where X = Y]) (simp_all add: gpu_synced_def Y)
  have planes: "map (\<lambda>(_, x1, _, _). x1) (?parts p) = map (\<lambda>x. fst (split_words x (16 * cs) (usize_from_party p))) (Y p)"
    "map (\<lambda>(_, _, x2, _). x2) (?parts p) = map (\<lambda>x. fst (snd (split_words x (16 * cs) (usize_from_party p)))) (Y p)"
    "map (\<lambda>(_, _, _, x3). x3) (?parts p) = map (\<lambda>x. snd (snd (split_words x (16 * cs) (usize_from_party p)))) (Y p)"
    "map fst (?parts p) = map (zero_extended (64 * cs)) (X p)" for p
    by (auto simp: list_eq_iff_nth_eq len Y(2) lift_split_words_def case_prod_beta zero_extended_def)
  show ?thesis
    unfolding lift_mpc_def lift_split_def
    apply (rule gpu_runs_take)
    apply (rule gpu_runs_views [OF buf])
    apply (rule gpu_runs_bind [OF tr], elim conjE, hypsubst)
    apply (rule gpu_runs_try_bind [where X = ?parts], simp add: gpu_synced_def)
    unfolding planes
  proof (rule gpu_runs_bind [OF gpu_runs_two_carries [OF split cs]], elim conjE exE, hypsubst, goal_cases)
    case (1 x A0 bf0 A bf1 R)
    note c = 1(1) and rest = 1(2) and bits = 1(3)
    let ?out = "\<lambda>p. map (\<lambda>(x1, x2). \<lparr>ck_a = ck_a x1 @ ck_a x2, ck_b = ck_b x1 @ ck_b x2\<rparr>) (snd (A p))"
    have out: "map2 (\<lambda>b (x1, x2). overwrite b \<lparr>ck_a = ck_a x1 @ ck_a x2, ck_b = ck_b x1 @ ck_b x2\<rparr>) (buf p) (snd (A p))
        = map2 overwrite (buf p) (?out p)" for p
      by (auto simp: list_eq_iff_nth_eq case_prod_beta)
    have "sized_bufs nd (32 * cs) ?out" using rest by (simp add: sized_bufs_def ck_sized_def case_prod_beta)
    note sized = overwrite_sized(1) [OF buf(1) this buf(2)]
    show ?case
      unfolding case_prod_beta [of _ "A p" for p]
    proof (rule gpu_runs_bind [OF gpu_runs_bit_inject [OF c]], elim conjE, hypsubst)
      fix inj assume inj: "dev_added nd (128 * cs) inj (\<lambda>d i. of_bool (bit (R d (i div 64)) (i mod 64)) :: u16)"
      let ?bs = "\<lambda>d i. bit (R d (i div 64)) (i mod 64)"
      have "of_bool (?bs d i) + 2 * of_bool (?bs d (64 * cs + i))
        = (unat (ck_a (X ID0 ! d) ! i) + unat (ck_a (X ID1 ! d) ! i) + unat (ck_a (X ID2 ! d) ! i)) div 2 ^ 16"
        if "d < nd" "i < 64 * cs" for d i
      proof -
        have "i div 64 < cs" "i mod 64 < 64" "i div 64 * 64 + i mod 64 = i" "(64 * cs + i) div 64 = cs + i div 64" "(64 * cs + i) mod 64 = i mod 64"
          using that(2) by simp_all
        then show ?thesis using bits that(1) Y(4) [OF that(1)] by simp
      qed
      then have q: "?Q (\<lambda>p. (map (zero_extended (64 * cs)) (X p), inj p)) (\<lambda>p. Some (map2 overwrite (buf p) (?out p)))"
        using sized inj by (intro exI [of _ "\<lambda>p. map2 overwrite (buf p) (?out p)"] exI [of _ ?bs]) simp
      show "gpu_runs cs nd (\<lambda>_. None) (\<lambda>p. gbind (glocal (\<lambda>self. rbind (return_result_buffer
          (map2 (\<lambda>b (x1, x2). overwrite b \<lparr>ck_a = ck_a x1 @ ck_a x2, ck_b = ck_b x1 @ ck_b x2\<rparr>) (buf p) (snd (A p))) self)
          (\<lambda>self. Inr ((), self)))) (\<lambda>_. gret (map (zero_extended (64 * cs)) (X p), inj p))) ?Q"
        unfolding out
        by (rule gpu_runs_bind [OF gpu_runs_return [where Q = "\<lambda>_ bf'. bf' = (\<lambda>p. Some (map2 overwrite (buf p) (?out p)))"]],
            rule refl, hypsubst, rule gpu_runs_ret, rule q)
    qed
  qed
qed

lemma gpu_runs_extract_msb:
  fixes X :: "PartyID \<Rightarrow> u32 ChunkShare list"
  assumes X: "dev_added nd (64 * cs) X V" and buf: "sized_bufs nd n buf" "32 * cs \<le> n" and cs: "8 dvd cs"
  shows "gpu_runs cs nd (\<lambda>p. Some (buf p)) (\<lambda>p. gpu_extract_msb (X p)) (\<lambda>A bf'. \<exists>buf' R. bf' = (\<lambda>p. Some (buf' p)) \<and>
    sized_bufs nd n buf' \<and> dev_shared nd cs (\<lambda>p. map (part 0 cs) (buf' p)) R \<and>
    (\<forall>d < nd. \<forall>j < cs. \<forall>i < 64. bit (R d j) i = bit (V d (j * 64 + i)) 31))"
    (is "gpu_runs _ _ _ _ ?Q")
proof -
  have len: "length (X p) = nd" for p using X by (simp add: dev_added_def)
  have L: "LENGTH(32) = 32" by simp
  obtain Y where Y: "\<And>p. rmap (\<lambda>x. shared_u32_transpose_pack_u64 x (cs * 64) 32) (X p) = Inr (Y p)" "\<And>p. length (Y p) = nd"
    "\<And>d. d < nd \<Longrightarrow> replicated (32 * cs) (\<lambda>p. Y p ! d)"
    "\<And>d q j i. d < nd \<Longrightarrow> j < cs \<Longrightarrow> i < 64 \<Longrightarrow> bits_nat (plane_column cs 32 ((!) (ck_a (Y q ! d))) j i) = unat (ck_a (X q ! d) ! (j * 64 + i))"
    using dev_added_planes [OF transposes_words_32 X, unfolded L shared_u32_transpose_pack_u64_def [symmetric]] by blast
  have "\<forall>p. length (Y p) = nd" "\<forall>d < nd. replicated (32 * cs) (\<lambda>p. Y p ! d)" using Y(2,3) by blast+
  note split = dev_split [OF this]
  let ?parts = "\<lambda>p. map (\<lambda>x1. split_words x1 (cs * 32) (usize_from_party p)) (Y p)"
  have tr: "gpu_runs cs nd bf (\<lambda>p. transpose_pack_u32_with_len (X p) 32) (\<lambda>A bf'. bf' = bf \<and> A = Y)" for bf
    unfolding transpose_pack_u32_with_len_def
    by (rule gpu_runs_assert [OF len], rule gpu_runs_try [where X = Y]) (simp_all add: gpu_synced_def Y)
  have planes: "map fst (?parts p) = map (\<lambda>x. fst (split_words x (32 * cs) (usize_from_party p))) (Y p)"
    "map (\<lambda>(_, x2, _). x2) (?parts p) = map (\<lambda>x. fst (snd (split_words x (32 * cs) (usize_from_party p)))) (Y p)"
    "map (\<lambda>(_, _, x3). x3) (?parts p) = map (\<lambda>x. snd (snd (split_words x (32 * cs) (usize_from_party p)))) (Y p)" for p
    by (simp_all add: case_prod_beta mult.commute [of cs])
  show ?thesis
    unfolding gpu_extract_msb_def split_planes_def
    apply (rule gpu_runs_take)
    apply (rule gpu_runs_views [OF buf])
    apply (rule gpu_runs_bind [OF tr], elim conjE, hypsubst)
    apply (rule gpu_runs_try_bind [where X = ?parts], simp add: gpu_synced_def)
    unfolding planes
  proof (rule gpu_runs_bind [OF gpu_runs_msb [OF split cs]], elim conjE exE, hypsubst, goal_cases)
    case (1 x A0 bf0 A bf1 R)
    have la: "length (A p) = nd" for p using dev_sharedD(1) [OF 1(2), of p] by simp
    have k: "cs \<le> 32 * cs" by simp
    have "sized_bufs nd (32 * cs) A" using 1(1) la by (simp add: sized_bufs_def)
    note over = overwrite_sized [OF buf(1) this buf(2)]
    have bits: "bit (R d j) i = bit (V d (j * 64 + i)) 31" if "d < nd" "j < cs" "i < 64" for d j i
    proof -
      have "j * 64 + i < 64 * cs" using that by simp
      then have "V d (j * 64 + i) = ck_a (X ID0 ! d) ! (j * 64 + i) + ck_a (X ID1 ! d) ! (j * 64 + i) + ck_a (X ID2 ! d) ! (j * 64 + i)"
        using X that(1) by (simp add: dev_added_def added_words_def)
      then show ?thesis using 1(3) that Y(4) [OF that] by (simp add: bit_sum_words)
    qed
    show ?case
    proof (rule gpu_runs_return, rule exI, rule exI, intro conjI)
      show "(\<lambda>p. Some (map2 overwrite (buf p) (A p))) = (\<lambda>p. Some (map2 overwrite (buf p) (A p)))" ..
      show "sized_bufs nd n (\<lambda>p. map2 overwrite (buf p) (A p))" by (rule over(1))
      show "dev_shared nd cs (\<lambda>p. map (part 0 cs) (map2 overwrite (buf p) (A p))) R" using 1(2) by (simp only: over(2) [OF k])
      show "\<forall>d < nd. \<forall>j < cs. \<forall>i < 64. bit (R d j) i = bit (V d (j * 64 + i)) 31" using bits by blast
    qed
  qed
qed

lemma gpu_runs_compare:
  fixes codes masks :: "PartyID \<Rightarrow> u16 ChunkShare list"
  assumes codes: "dev_added nd (64 * cs) codes VC" and masks: "dev_added nd (64 * cs) masks VM"
    and chunks: "\<And>p x. x \<in> set (codes p) \<union> set (masks p) \<Longrightarrow> length (ck_a x) = length (ck_b x) \<and> 64 dvd length (ck_a x)"
    and buf: "sized_bufs nd n buf" "32 * cs \<le> n" and cs: "8 dvd cs"
  shows "gpu_runs cs nd (\<lambda>p. Some (buf p)) (\<lambda>p. compare_threshold_masked_many (codes p) (masks p)) (\<lambda>A bf'. \<exists>buf' R. bf' = (\<lambda>p. Some (buf' p)) \<and>
    sized_bufs nd n buf' \<and> dev_shared nd cs (\<lambda>p. map (part 0 cs) (buf' p)) R \<and>
    (\<forall>d < nd. \<forall>j < cs. \<forall>i < 64. bit (R d j) i = bit (threshold_gap (VM d (j * 64 + i)) (VC d (j * 64 + i))) 31))"
    (is "gpu_runs _ _ _ _ ?Q")
proof -
  have len: "length (codes p) = nd" "length (masks p) = nd" for p using codes masks by (simp_all add: dev_added_def)
  have ok: "rmap (\<lambda>chunk. rbind (ck_len chunk) (\<lambda>l. if l mod 64 = 0 then Inr () else Inl (Panic ''assertion failed: chunk.len() % 64 == 0'')))
      (codes p @ masks p) = Inr (map (\<lambda>_. ()) (codes p @ masks p))" for p
  proof (rule rmap_Inr)
    fix x assume "x \<in> set (codes p @ masks p)"
    then have "length (ck_a x) = length (ck_b x)" "64 dvd length (ck_a x)" using chunks [of x p] by auto
    then show "rbind (ck_len x) (\<lambda>l. if l mod 64 = 0 then Inr () else Inl (Panic ''assertion failed: chunk.len() % 64 == 0'')) = Inr ()"
      by (simp add: ck_len_def mod_eq_0_iff_dvd)
  qed
  show ?thesis
    unfolding compare_threshold_masked_many_def
    apply (rule gpu_runs_assert [OF len(1)], rule gpu_runs_assert [OF len(2)])
    apply (rule gpu_runs_try_bind, rule ok)
  proof (rule gpu_runs_bind [OF gpu_runs_lift_mpc [OF masks buf cs]], elim exE conjE, hypsubst, goal_cases)
    case (1 A bf0 buf' bs)
    let ?x = "\<lambda>p. map (zero_extended (64 * cs)) (masks p)"
    let ?y = "\<lambda>p. map2 (\<lambda>m (mc, c). shared_lift_mul_sub m mc c (usize_from_party p) (cs * 64)) (?x p) (zip (snd (A p)) (codes p))"
    have la: "length (snd (A p)) = nd" for p using 1(3) by (simp add: dev_added_def)
    have y: "dev_added nd (64 * cs) ?y (\<lambda>d i. threshold_gap (VM d i) (VC d i))"
      unfolding dev_added_def
    proof (intro conjI allI impI)
      fix d assume d: "d < nd"
      have w: "added_words (64 * cs) (\<lambda>p. masks p ! d) (VM d)" "added_words (64 * cs) (\<lambda>p. codes p ! d) (VC d)"
        "added_words (2 * (64 * cs)) (\<lambda>p. snd (A p) ! d) (\<lambda>i. of_bool (bs d i))"
        using masks codes 1(3) d by (simp_all add: dev_added_def)
      have "added_words (64 * cs) (\<lambda>p. shared_lift_mul_sub (zero_extended (64 * cs) (masks p ! d)) (snd (A p) ! d) (codes p ! d)
          (usize_from_party p) (64 * cs)) (\<lambda>i. threshold_gap (VM d i) (VC d i))"
        by (rule lift_mul_sub_added [OF w]) (use 1(4) d in \<open>simp_all add: zero_extended_def\<close>)
      then show "added_words (64 * cs) (\<lambda>p. ?y p ! d) (\<lambda>i. threshold_gap (VM d i) (VC d i))"
        using d by (simp add: len la mult.commute [of cs])
    qed (simp add: len la)
    show ?case
      unfolding lift_mul_sub_def case_prod_beta [of _ "A p" for p] 1(2) [rule_format]
      apply (rule gpu_runs_bind [where P = "\<lambda>A bf'. bf' = (\<lambda>p. Some (buf' p)) \<and> A = ?y"])
       apply (rule gpu_runs_assert, simp add: len)
       apply (rule gpu_runs_assert, rule la)
       apply (rule gpu_runs_assert, rule len(1))
       apply (rule gpu_runs_try [where X = ?y], simp add: gpu_synced_def, simp)
      apply (elim conjE, hypsubst)
      apply (rule gpu_runs_extract_msb [OF y 1(1) buf(2) cs])
      done
  qed
qed

section \<open>Fresh circuits\<close>

lemma circuits_new_synced:
  assumes "\<And>p. length (seed p) = 8" "64 * cs = size_in" "cs \<le> alloc"
  obtains S buf where "\<And>p. circuits_new (usize_from_party p) size_in alloc (seed p, seed (prev_id p)) nd = Inr (S p)"
    "gpu_synced cs nd (\<lambda>p. Some (buf p)) S" "sized_bufs nd (32 * alloc) buf"
proof -
  let ?z = "replicate (alloc * 32) 0 :: u64 list"
  let ?buf = "\<lambda>p :: PartyID. replicate nd \<lparr>ck_a = ?z, ck_b = ?z\<rparr>"
  let ?S = "\<lambda>p. \<lparr>my_peer = usize_from_party p, next_peer = usize_from_party (next_id p), prev_peer = usize_from_party (prev_id p),
    chunk_size = cs, alloc_chunk_size = alloc, n_devices = nd, result_buffer = Some (?buf p),
    circuit_rngs = replicate nd (corr_init (seed p) (seed (prev_id p)))\<rparr>"
  have mod: "size_in mod 64 = 0" "size_in div 64 = cs" using assms(2) by auto
  have "circuits_new (usize_from_party p) size_in alloc (seed p, seed (prev_id p)) nd = Inr (?S p)" for p
    using assms(3) by (cases p) (simp_all add: circuits_new_def mod Let_def)
  moreover have "gpu_synced cs nd (\<lambda>p. Some (?buf p)) ?S"
    by (simp add: gpu_synced_def corr_def corr_init_def wf_corr_def wf_common_init assms(1))
  moreover have "sized_bufs nd (32 * alloc) ?buf" by (simp add: sized_bufs_def ck_sized_def)
  ultimately show ?thesis by (rule that)
qed

section \<open>The decision\<close>

lemma compare_ends:
  fixes codes masks :: "PartyID \<Rightarrow> u16 ChunkShare list"
  assumes "gpu_synced cs nd (\<lambda>p. Some (buf p)) S" "sized_bufs nd n buf" "32 * cs \<le> n" "8 dvd cs"
    and "dev_added nd (64 * cs) codes VC" "dev_added nd (64 * cs) masks VM"
    and "\<forall>p. \<forall>x \<in> set (codes p) \<union> set (masks p). length (ck_a x) = length (ck_b x) \<and> 64 dvd length (ck_a x)"
  shows "\<exists>S' buf' R. ends_with gpu_ident (\<lambda>p. compare_threshold_masked_many (codes p) (masks p) (S p), from_host_ids (idents gpu_ident))
      (\<lambda>p. Inr ((), S' p)) (from_host_ids (idents gpu_ident)) \<and>
    gpu_synced cs nd (\<lambda>p. Some (buf' p)) S' \<and> sized_bufs nd n buf' \<and> dev_shared nd cs (\<lambda>p. map (part 0 cs) (buf' p)) R \<and>
    (\<forall>d < nd. \<forall>j < cs. \<forall>i < 64. bit (R d j) i = bit (threshold_gap (VM d (j * 64 + i)) (VC d (j * 64 + i))) 31)"
proof -
  have "x \<in> set (codes p) \<union> set (masks p) \<Longrightarrow> length (ck_a x) = length (ck_b x) \<and> 64 dvd length (ck_a x)" for p x
    using assms(7) by blast
  from gpu_runs_compare [OF assms(5,6) this assms(2-4)] assms(1)
  obtain A bf' S' where run: "(step local_networking gpu_ident)\<^sup>*\<^sup>*
      (\<lambda>p. compare_threshold_masked_many (codes p) (masks p) (S p), quiet gpu_ident)
      (all_returned (\<lambda>p. Inr (A p, S' p)) (quiet gpu_ident))" and S': "gpu_synced cs nd bf' S'"
    and res: "\<exists>buf' R. bf' = (\<lambda>p. Some (buf' p)) \<and> sized_bufs nd n buf' \<and> dev_shared nd cs (\<lambda>p. map (part 0 cs) (buf' p)) R \<and>
      (\<forall>d < nd. \<forall>j < cs. \<forall>i < 64. bit (R d j) i = bit (threshold_gap (VM d (j * 64 + i)) (VC d (j * 64 + i))) 31)"
    by (rule gpu_runsD)
  have "A = (\<lambda>_. ())" by (simp add: fun_eq_iff)
  with ends_withI [OF inj_gpu_ident run] S' res show ?thesis by blast
qed

text \<open>
  C10: Comparison with the threshold on the GPUs. Three parties with paired generators and their result
  buffers in place hold replicated shares, modulo $2^{16}$, of code and mask dot products: \<open>cs\<close> blocks of 64
  on every device, \<open>cs\<close> a multiple of eight. \<open>compare_threshold_masked_many\<close> ends at all of
  them in every interleaving without an error, with no message left over and everything in place for
  the next call. The first \<open>cs\<close> words of the result buffers are shares, by exclusive or, of words whose
  bit for a pair of dot products in the range of iris codes is set exactly when the mask dot product
  is at most four times the code dot product.
\<close>

theorem compare_threshold_exact:
  fixes codes masks :: "PartyID \<Rightarrow> u16 ChunkShare list"
  assumes "gpu_synced cs nd (\<lambda>p. Some (buf p)) S" "sized_bufs nd n buf" "32 * cs \<le> n" "8 dvd cs"
    and "dev_added nd (64 * cs) codes VC" "dev_added nd (64 * cs) masks VM"
    and "\<forall>p. \<forall>x \<in> set (codes p) \<union> set (masks p). length (ck_a x) = length (ck_b x) \<and> 64 dvd length (ck_a x)"
    and "\<forall>d < nd. \<forall>k < 64 * cs. unat (VM d k) \<le> 12800 \<and> \<bar>sint (VC d k)\<bar> \<le> 12800"
  shows "\<exists>S' buf' R. ends_with gpu_ident (\<lambda>p. compare_threshold_masked_many (codes p) (masks p) (S p), from_host_ids (idents gpu_ident))
      (\<lambda>p. Inr ((), S' p)) (from_host_ids (idents gpu_ident)) \<and>
    gpu_synced cs nd (\<lambda>p. Some (buf' p)) S' \<and> sized_bufs nd n buf' \<and> dev_shared nd cs (\<lambda>p. map (part 0 cs) (buf' p)) R \<and>
    (\<forall>d < nd. \<forall>j < cs. \<forall>i < 64. bit (R d j) i \<longleftrightarrow> int (unat (VM d (j * 64 + i))) \<le> 4 * sint (VC d (j * 64 + i)))"
proof -
  from compare_ends [OF assms(1-7)] obtain S' buf' R where res:
    "ends_with gpu_ident (\<lambda>p. compare_threshold_masked_many (codes p) (masks p) (S p), from_host_ids (idents gpu_ident))
      (\<lambda>p. Inr ((), S' p)) (from_host_ids (idents gpu_ident))"
    "gpu_synced cs nd (\<lambda>p. Some (buf' p)) S'" "sized_bufs nd n buf'" "dev_shared nd cs (\<lambda>p. map (part 0 cs) (buf' p)) R"
    and bits: "\<forall>d < nd. \<forall>j < cs. \<forall>i < 64. bit (R d j) i = bit (threshold_gap (VM d (j * 64 + i)) (VC d (j * 64 + i))) 31"
    by blast
  have "bit (R d j) i \<longleftrightarrow> int (unat (VM d (j * 64 + i))) \<le> 4 * sint (VC d (j * 64 + i))" if "d < nd" "j < cs" "i < 64" for d j i
  proof -
    have "j * 64 + i < 64 * cs" using that by simp
    then have "unat (VM d (j * 64 + i)) \<le> 12800" "\<bar>sint (VC d (j * 64 + i))\<bar> \<le> 12800" using assms(8) that(1) by blast+
    then show ?thesis using bits that threshold_gap_sign by simp
  qed
  with res show ?thesis by blast
qed

lemma is_close_by_counts: "is_close x y \<longleftrightarrow> 8 * card (differing x y) < 3 * card (common_mask x y)"
proof -
  have "differing x y = {i. i < IRIS_CODE_SIZE \<and> bit_at (code x) i \<noteq> bit_at (code y) i \<and> bit_at (mask x) i \<and> bit_at (mask y) i}"
    by (auto simp: differing_def common_mask_def)
  then show ?thesis by (simp only: is_close_bits common_mask_def)
qed

lemma iris_gap_sign:
  "bit (threshold_gap (of_nat (card (common_mask x y)))
      (of_int (int (card (common_mask x y)) - 2 * int (card (differing x y))))) 31
    \<longleftrightarrow> is_close x y \<or> 8 * card (differing x y) = 3 * card (common_mask x y)"
proof -
  let ?m = "card (common_mask x y)" and ?d = "card (differing x y)"
  have le: "?m \<le> 12800" "?d \<le> ?m" by (simp_all add: card_common_mask_le card_differing_le)
  then have um: "unat (of_nat ?m :: u16) = ?m" by (simp add: unat_of_nat take_bit_nat_eq_self)
  have sc: "sint (of_int (int ?m - 2 * int ?d) :: u16) = int ?m - 2 * int ?d"
    using le by (simp only: sint_sbintrunc') (simp add: signed_take_bit_int_eq_self)
  have "\<bar>int ?m - 2 * int ?d\<bar> \<le> 12800" using le by linarith
  then have "bit (threshold_gap (of_nat ?m) (of_int (int ?m - 2 * int ?d))) 31 \<longleftrightarrow> int ?m \<le> 4 * (int ?m - 2 * int ?d)"
    using threshold_gap_sign [of "of_nat ?m" "of_int (int ?m - 2 * int ?d)"] le(1) unfolding um sc by blast
  also have "\<dots> \<longleftrightarrow> 8 * ?d \<le> 3 * ?m" by arith
  finally show ?thesis unfolding is_close_by_counts by (simp only: le_less)
qed

text \<open>
  C11: The decision on irises. When the dot products are those of pairs of irises, the result bit of a pair
  after \<open>compare_threshold_masked_many\<close> is set exactly when the irises are close, as the plaintext
  decides with a strict comparison, or when exactly three eighths of the commonly unmasked bits
  differ. The second case includes pairs without any commonly unmasked bit, which the plaintext rejects.
\<close>

theorem gpu_decision_on_irises:
  fixes codes masks :: "PartyID \<Rightarrow> u16 ChunkShare list" and x y :: "nat \<Rightarrow> nat \<Rightarrow> IrisCode"
  assumes "gpu_synced cs nd (\<lambda>p. Some (buf p)) S" "sized_bufs nd n buf" "32 * cs \<le> n" "8 dvd cs"
    and "dev_added nd (64 * cs) codes
      (\<lambda>d k. of_int (int (card (common_mask (x d k) (y d k))) - 2 * int (card (differing (x d k) (y d k)))))"
    and "dev_added nd (64 * cs) masks (\<lambda>d k. of_nat (card (common_mask (x d k) (y d k))))"
    and "\<forall>p. \<forall>c \<in> set (codes p) \<union> set (masks p). length (ck_a c) = length (ck_b c) \<and> 64 dvd length (ck_a c)"
  shows "\<exists>S' buf' R. ends_with gpu_ident (\<lambda>p. compare_threshold_masked_many (codes p) (masks p) (S p), from_host_ids (idents gpu_ident))
      (\<lambda>p. Inr ((), S' p)) (from_host_ids (idents gpu_ident)) \<and>
    gpu_synced cs nd (\<lambda>p. Some (buf' p)) S' \<and> dev_shared nd cs (\<lambda>p. map (part 0 cs) (buf' p)) R \<and>
    (\<forall>d < nd. \<forall>j < cs. \<forall>i < 64. bit (R d j) i \<longleftrightarrow> is_close (x d (j * 64 + i)) (y d (j * 64 + i)) \<or>
      8 * card (differing (x d (j * 64 + i)) (y d (j * 64 + i))) = 3 * card (common_mask (x d (j * 64 + i)) (y d (j * 64 + i))))"
  using compare_ends [OF assms] unfolding iris_gap_sign by blast

section \<open>Witnesses\<close>

definition demo_seed :: "PartyID \<Rightarrow> u32 list" where
  "demo_seed p = replicate 8 (of_nat (usize_from_party p))"

definition demo_dots :: "u16 \<Rightarrow> PartyID \<Rightarrow> u16 ChunkShare list" where
  "demo_dots v p = [\<lparr>ck_a = replicate 512 (if p = ID0 then v else 0), ck_b = replicate 512 (if prev_id p = ID0 then v else 0)\<rparr>]"

lemma demo_dots_ok:
  "dev_added 1 (64 * 8) (demo_dots v) (\<lambda>_ _. v)"
  "\<forall>p. \<forall>x \<in> set (demo_dots v p) \<union> set (demo_dots w p). length (ck_a x) = length (ck_b x) \<and> 64 dvd length (ck_a x)"
  by (auto simp: dev_added_def added_words_def demo_dots_def all_parties)

lemma demo_circuits:
  obtains S buf where "\<And>p. circuits_new (usize_from_party p) 512 8 (demo_seed p, demo_seed (prev_id p)) 1 = Inr (S p)"
    "gpu_synced 8 1 (\<lambda>p. Some (buf p)) S" "sized_bufs 1 256 buf"
  using circuits_new_synced [of demo_seed 8 512 8 1] by (auto simp: demo_seed_def)

theorem compare_threshold_exact_witness:
  "\<exists>S S' buf' R. (\<forall>p. circuits_new (usize_from_party p) 512 8 (demo_seed p, demo_seed (prev_id p)) 1 = Inr (S p)) \<and>
    ends_with gpu_ident (\<lambda>p. compare_threshold_masked_many (demo_dots 300 p) (demo_dots 600 p) (S p), from_host_ids (idents gpu_ident))
      (\<lambda>p. Inr ((), S' p)) (from_host_ids (idents gpu_ident)) \<and>
    gpu_synced 8 1 (\<lambda>p. Some (buf' p)) S' \<and> dev_shared 1 8 (\<lambda>p. map (part 0 8) (buf' p)) R \<and> bit (R 0 3) 17"
proof -
  obtain S buf where S: "\<And>p. circuits_new (usize_from_party p) 512 8 (demo_seed p, demo_seed (prev_id p)) 1 = Inr (S p)"
    "gpu_synced 8 1 (\<lambda>p. Some (buf p)) S" "sized_bufs 1 256 buf" using demo_circuits by blast
  have "sint (300 :: u16) = 300" by simp
  then have range: "\<forall>d < (1 :: nat). \<forall>k < 64 * (8 :: nat). unat (600 :: u16) \<le> 12800 \<and> \<bar>sint (300 :: u16)\<bar> \<le> 12800" by simp
  from compare_threshold_exact [OF S(2,3) _ _ demo_dots_ok(1) [of 300] demo_dots_ok(1) [of 600] demo_dots_ok(2) range]
  obtain S' buf' R where res: "ends_with gpu_ident (\<lambda>p. compare_threshold_masked_many (demo_dots 300 p) (demo_dots 600 p) (S p), from_host_ids (idents gpu_ident))
      (\<lambda>p. Inr ((), S' p)) (from_host_ids (idents gpu_ident))" "gpu_synced 8 1 (\<lambda>p. Some (buf' p)) S'"
    "dev_shared 1 8 (\<lambda>p. map (part 0 8) (buf' p)) R"
    and bits: "\<forall>d < (1 :: nat). \<forall>j < (8 :: nat). \<forall>i < (64 :: nat). bit (R d j) i \<longleftrightarrow> int (unat (600 :: u16)) \<le> 4 * sint (300 :: u16)"
    by auto
  from bits have "bit (R 0 3) 17" by simp
  with S(1) res show ?thesis by blast
qed

theorem gpu_decision_on_irises_witness:
  "\<exists>S S' buf' R. (\<forall>p. circuits_new (usize_from_party p) 512 8 (demo_seed p, demo_seed (prev_id p)) 1 = Inr (S p)) \<and>
    ends_with gpu_ident (\<lambda>p. compare_threshold_masked_many
        (demo_dots (of_int (int (card (common_mask iris_default iris_default)) - 2 * int (card (differing iris_default iris_default)))) p)
        (demo_dots (of_nat (card (common_mask iris_default iris_default))) p) (S p), from_host_ids (idents gpu_ident))
      (\<lambda>p. Inr ((), S' p)) (from_host_ids (idents gpu_ident)) \<and>
    dev_shared 1 8 (\<lambda>p. map (part 0 8) (buf' p)) R \<and>
    (bit (R 0 7) 63 \<longleftrightarrow> is_close iris_default iris_default \<or>
      8 * card (differing iris_default iris_default) = 3 * card (common_mask iris_default iris_default))"
proof -
  let ?c = "of_int (int (card (common_mask iris_default iris_default)) - 2 * int (card (differing iris_default iris_default))) :: u16"
    and ?m = "of_nat (card (common_mask iris_default iris_default)) :: u16"
  obtain S buf where S: "\<And>p. circuits_new (usize_from_party p) 512 8 (demo_seed p, demo_seed (prev_id p)) 1 = Inr (S p)"
    "gpu_synced 8 1 (\<lambda>p. Some (buf p)) S" "sized_bufs 1 256 buf" using demo_circuits by blast
  from gpu_decision_on_irises [where x = "\<lambda>_ _. iris_default" and y = "\<lambda>_ _. iris_default",
      OF S(2,3) _ _ demo_dots_ok(1) demo_dots_ok(1) demo_dots_ok(2)]
  obtain S' buf' R where res: "ends_with gpu_ident (\<lambda>p. compare_threshold_masked_many (demo_dots ?c p) (demo_dots ?m p) (S p), from_host_ids (idents gpu_ident))
      (\<lambda>p. Inr ((), S' p)) (from_host_ids (idents gpu_ident))" "dev_shared 1 8 (\<lambda>p. map (part 0 8) (buf' p)) R"
    and bits: "\<forall>d < (1 :: nat). \<forall>j < (8 :: nat). \<forall>i < (64 :: nat). bit (R d j) i \<longleftrightarrow> is_close iris_default iris_default \<or>
      8 * card (differing iris_default iris_default) = 3 * card (common_mask iris_default iris_default)"
    by auto
  from bits have "bit (R 0 7) 63 \<longleftrightarrow> is_close iris_default iris_default \<or>
      8 * card (differing iris_default iris_default) = 3 * card (common_mask iris_default iris_default)" by simp
  with S(1) res show ?thesis by blast
qed

end
