(* ===== verification/IrisStore.thy ===== *)
theory IrisStore
  imports ReshareCorrect "HOL-Library.Signed_Division"
begin

text \<open>
  The persistent store of a party (\<open>iris-mpc-store/src/lib.rs\<close>) and the import of its snapshots
  (\<open>s3_importer.rs\<close>). The tables of the schema are the state: the rows of \<open>irises\<close> in the order of
  their primary key, the rows of \<open>results\<close> and \<open>sync\<close> in the order of their generated keys. A statement
  is an operation on the tables; an operation that runs in a transaction returns the new tables, and
  the old ones stay when it fails. \<open>now\<close> is the time that the trigger writes. The object store with the
  snapshots is a parameter.
\<close>

section \<open>Tables\<close>

record IrisRow =
  row_left_code :: "u8 list option"
  row_left_mask :: "u8 list option"
  row_right_code :: "u8 list option"
  row_right_mask :: "u8 list option"
  row_modified :: "int option"

record Tables =
  iris_rows :: "(int \<times> IrisRow) list"
  result_rows :: "string list"
  sync_rows :: "string list"

fun put_row :: "int \<Rightarrow> 'r \<Rightarrow> (int \<times> 'r) list \<Rightarrow> (int \<times> 'r) list" where
  "put_row i r [] = [(i, r)]"
| "put_row i r (row # rows) =
     (if fst row < i then row # put_row i r rows else if fst row = i then (i, r) # rows else (i, r) # row # rows)"

definition insert_row :: "int \<Rightarrow> 'r \<Rightarrow> (int \<times> 'r) list \<Rightarrow> (int \<times> 'r) list result" where
  "insert_row i r rows =
     (if i \<in> fst ` set rows then Inl (Eyre ''duplicate key value violates unique constraint'') else Inr (put_row i r rows))"

section \<open>Stored irises\<close>

record StoredIris =
  si_id :: i64
  si_left_code :: "u8 list"
  si_left_mask :: "u8 list"
  si_right_code :: "u8 list"
  si_right_mask :: "u8 list"

definition si_index :: "StoredIris \<Rightarrow> nat" where
  "si_index self = unat (si_id self)"

text \<open>The slices of \<open>bytemuck\<close>, on a little-endian machine and with aligned vectors.\<close>

definition cast_u16_to_u8 :: "u16 list \<Rightarrow> u8 list" where
  "cast_u16_to_u8 ws = concat (map (to_le_bytes 2) ws)"

definition cast_u8_to_u16 :: "u8 list \<Rightarrow> u16 list result" where
  "cast_u8_to_u16 s =
     (if s = [] then Inr []
      else if odd (length s) then Inl (Panic ''cast_slice: OutputSliceWouldHaveSlop'')
      else Inr (map u16_from_le_bytes (chunks_exact 2 s)))"

definition extract_slice :: "u8 list \<Rightarrow> nat \<Rightarrow> nat \<Rightarrow> (u8 list \<times> nat) result" where
  "extract_slice bytes cursor n =
     (if cursor + n > length bytes then Inl (Eyre ''Exceeded total bytes while extracting slice'')
      else Inr (take n (drop cursor bytes), cursor + n))"

definition u32_from_be_bytes :: "u8 list \<Rightarrow> u32" where
  "u32_from_be_bytes bs = foldl (\<lambda>acc b. push_bit 8 acc OR ucast b) 0 bs"

definition stored_from_bytes :: "u8 list \<Rightarrow> StoredIris result" where
  "stored_from_bytes bytes =
     rbind (extract_slice bytes 0 4) (\<lambda>(id_bytes, cursor).
     rbind (extract_slice bytes cursor (IRIS_CODE_LENGTH * 2)) (\<lambda>(lc, cursor).
     rbind (extract_slice bytes cursor (MASK_CODE_LENGTH * 2)) (\<lambda>(lm, cursor).
     rbind (extract_slice bytes cursor (IRIS_CODE_LENGTH * 2)) (\<lambda>(rc, cursor).
     rbind (extract_slice bytes cursor (MASK_CODE_LENGTH * 2)) (\<lambda>(rm, cursor).
     Inr \<lparr>si_id = ucast (u32_from_be_bytes id_bytes), si_left_code = lc, si_left_mask = lm, si_right_code = rc, si_right_mask = rm\<rparr>)))))"

text \<open>A column that is \<open>NULL\<close> does not decode into a vector.\<close>

definition decode_row :: "int \<times> IrisRow \<Rightarrow> StoredIris result" where
  "decode_row = (\<lambda>(i, r).
     case (row_left_code r, row_left_mask r, row_right_code r, row_right_mask r) of
       (Some lc, Some lm, Some rc, Some rm) \<Rightarrow>
         Inr \<lparr>si_id = of_int i, si_left_code = lc, si_left_mask = lm, si_right_code = rc, si_right_mask = rm\<rparr>
     | _ \<Rightarrow> Inl (Eyre ''error occurred while decoding column: unexpected null''))"

section \<open>Statements\<close>

definition count_irises :: "Tables \<Rightarrow> nat" where
  "count_irises self = length (iris_rows self)"

definition stream_irises :: "Tables \<Rightarrow> StoredIris result list" where
  "stream_irises self = map decode_row (filter (\<lambda>(i, _). 1 \<le> i) (iris_rows self))"

definition stream_irises_in_range :: "u64 \<Rightarrow> u64 \<Rightarrow> Tables \<Rightarrow> StoredIris result list result" where
  "stream_irises_in_range start stop self =
     (if 2 ^ 63 \<le> uint start \<or> 2 ^ 63 \<le> uint stop then Inl (Panic ''id fits into i64'')
      else Inr (map decode_row (filter (\<lambda>(i, _). uint start \<le> i \<and> i < uint stop) (iris_rows self))))"

text \<open>The streams of the partitions, which the caller merges in any order.\<close>

definition stream_irises_par :: "int option \<Rightarrow> nat \<Rightarrow> Tables \<Rightarrow> StoredIris result list list result" where
  "stream_irises_par min_last_modified_at partitions self =
     (if partitions = 0 then Inl (Panic ''attempt to divide by zero'')
      else
        (let partition_size = max ((count_irises self + partitions - 1) div partitions) 1
         in Inr (map (\<lambda>i.
              let start_id = 1 + partition_size * i; end_id = start_id + partition_size - 1
              in map decode_row (filter (\<lambda>(k, r). sint (of_nat start_id :: i64) \<le> k \<and> k \<le> sint (of_nat end_id :: i64) \<and>
                   (case min_last_modified_at of None \<Rightarrow> True
                    | Some m \<Rightarrow> (case row_modified r of None \<Rightarrow> False | Some t \<Rightarrow> m \<le> t))) (iris_rows self)))
            [0..<partitions])))"

definition new_row :: "int \<Rightarrow> StoredIrisRef \<Rightarrow> IrisRow" where
  "new_row now iris =
     \<lparr>row_left_code = Some (cast_u16_to_u8 (stored_left_code iris)), row_left_mask = Some (cast_u16_to_u8 (stored_left_mask iris)),
      row_right_code = Some (cast_u16_to_u8 (stored_right_code iris)), row_right_mask = Some (cast_u16_to_u8 (stored_right_mask iris)),
      row_modified = Some now\<rparr>"

definition insert_irises :: "int \<Rightarrow> StoredIrisRef list \<Rightarrow> Tables \<Rightarrow> (i64 list \<times> Tables) result" where
  "insert_irises now codes_and_masks self =
     (if codes_and_masks = [] then Inr ([], self)
      else rbind (rfold (\<lambda>iris. insert_row (sint (stored_id iris)) (new_row now iris)) codes_and_masks (iris_rows self)) (\<lambda>rows.
        Inr (map stored_id codes_and_masks, self\<lparr>iris_rows := rows\<rparr>)))"

definition insert_irises_overriding :: "int \<Rightarrow> StoredIrisRef list \<Rightarrow> Tables \<Rightarrow> Tables result" where
  "insert_irises_overriding now codes_and_masks self =
     (if codes_and_masks = [] then Inr self
      else if \<not> distinct (map stored_id codes_and_masks)
      then Inl (Eyre ''ON CONFLICT DO UPDATE command cannot affect row a second time'')
      else Inr (self\<lparr>iris_rows := fold (\<lambda>iris. put_row (sint (stored_id iris)) (new_row now iris)) codes_and_masks (iris_rows self)\<rparr>))"

definition update_iris ::
    "int \<Rightarrow> i64 \<Rightarrow> GaloisRingIrisCodeShare \<Rightarrow> GaloisRingTrimmedMaskCodeShare \<Rightarrow> GaloisRingIrisCodeShare \<Rightarrow> GaloisRingTrimmedMaskCodeShare
       \<Rightarrow> Tables \<Rightarrow> Tables" where
  "update_iris now sid l_iris l_mask r_iris r_mask self =
     self\<lparr>iris_rows := map (\<lambda>(i, r). if i = sint sid then (i,
         r\<lparr>row_left_code := Some (cast_u16_to_u8 (gi_coefs l_iris)), row_left_mask := Some (cast_u16_to_u8 (tm_coefs l_mask)),
           row_right_code := Some (cast_u16_to_u8 (gi_coefs r_iris)), row_right_mask := Some (cast_u16_to_u8 (tm_coefs r_mask)),
           row_modified := Some now\<rparr>) else (i, r)) (iris_rows self)\<rparr>"

definition null_row :: IrisRow where
  "null_row = \<lparr>row_left_code = None, row_left_mask = None, row_right_code = None, row_right_mask = None, row_modified = None\<rparr>"

definition insert_or_update_left_iris :: "int \<Rightarrow> i64 \<Rightarrow> u16 list \<Rightarrow> u16 list \<Rightarrow> Tables \<Rightarrow> Tables" where
  "insert_or_update_left_iris now sid left_code left_mask self =
     (let r = (case map_of (iris_rows self) (sint sid) of None \<Rightarrow> null_row | Some r \<Rightarrow> r)
      in self\<lparr>iris_rows := put_row (sint sid) (r\<lparr>row_left_code := Some (cast_u16_to_u8 left_code),
           row_left_mask := Some (cast_u16_to_u8 left_mask), row_modified := Some now\<rparr>) (iris_rows self)\<rparr>)"

definition insert_or_update_right_iris :: "int \<Rightarrow> i64 \<Rightarrow> u16 list \<Rightarrow> u16 list \<Rightarrow> Tables \<Rightarrow> Tables" where
  "insert_or_update_right_iris now sid right_code right_mask self =
     (let r = (case map_of (iris_rows self) (sint sid) of None \<Rightarrow> null_row | Some r \<Rightarrow> r)
      in self\<lparr>iris_rows := put_row (sint sid) (r\<lparr>row_right_code := Some (cast_u16_to_u8 right_code),
           row_right_mask := Some (cast_u16_to_u8 right_mask), row_modified := Some now\<rparr>) (iris_rows self)\<rparr>)"

definition rollback :: "nat \<Rightarrow> Tables \<Rightarrow> Tables" where
  "rollback len self = self\<lparr>iris_rows := filter (\<lambda>(i, _). \<not> i > sint (of_nat len :: i64)) (iris_rows self)\<rparr>"

text \<open>The maximum of an empty table is \<open>NULL\<close>, which does not decode into a number.\<close>

definition get_max_serial_id :: "Tables \<Rightarrow> nat result" where
  "get_max_serial_id self =
     (if iris_rows self = [] then Inl (Eyre ''error occurred while decoding column 0: unexpected null'')
      else Inr (unat (of_int (Max (set (map fst (iris_rows self)))) :: i64)))"

definition insert_results :: "string list \<Rightarrow> Tables \<Rightarrow> Tables" where
  "insert_results result_events self =
     (if result_events = [] then self else self\<lparr>result_rows := result_rows self @ result_events\<rparr>)"

definition last_rows :: "nat \<Rightarrow> 'a list \<Rightarrow> 'a list result" where
  "last_rows count rows =
     (if sint (of_nat count :: i64) < 0 then Inl (Eyre ''LIMIT must not be negative'')
      else Inr (rev (take (nat (sint (of_nat count :: i64))) (rev rows))))"

definition last_results :: "nat \<Rightarrow> Tables \<Rightarrow> string list result" where
  "last_results count self = last_rows count (result_rows self)"

definition mark_requests_deleted :: "string list \<Rightarrow> Tables \<Rightarrow> Tables" where
  "mark_requests_deleted request_ids self =
     (if request_ids = [] then self else self\<lparr>sync_rows := sync_rows self @ request_ids\<rparr>)"

definition last_deleted_requests :: "nat \<Rightarrow> Tables \<Rightarrow> string list result" where
  "last_deleted_requests count self = last_rows count (sync_rows self)"

text \<open>
  Random irises for tests. \<open>next_iris\<close> draws a generator and from it an iris; \<open>gen\<close> seeded with \<open>seed\<close>
  makes its shares. The transaction is committed after the first row of every thousand.
\<close>

definition random_row ::
    "('g \<Rightarrow> u16 \<times> 'g) \<Rightarrow> 'g \<Rightarrow> nat \<Rightarrow> nat \<Rightarrow> IrisCode \<Rightarrow> StoredIrisRef result" where
  "random_row gen seed party i iris =
     rbind (encode_iris_code gen (code iris) (mask iris) seed) (\<lambda>(cs, _).
     rbind (vec_index cs party) (\<lambda>share.
     rbind (encode_mask_code gen (mask iris) seed) (\<lambda>(ms, _).
     rbind (vec_index ms party) (\<lambda>m.
     let mask = trim_mask m in
     Inr \<lparr>stored_id = of_nat (i + 1), stored_left_code = gi_coefs share, stored_left_mask = tm_coefs mask,
          stored_right_code = gi_coefs share, stored_right_mask = tm_coefs mask\<rparr>))))"

fun init_loop ::
    "('h \<Rightarrow> (IrisCode \<times> 'h) result) \<Rightarrow> (nat \<Rightarrow> IrisCode \<Rightarrow> StoredIrisRef result) \<Rightarrow> int \<Rightarrow> nat list \<Rightarrow> 'h \<Rightarrow> Tables \<Rightarrow> Tables
       \<Rightarrow> Tables \<times> unit result" where
  "init_loop next_iris mk now [] rng committed tx = (tx, Inr ())"
| "init_loop next_iris mk now (i # is) rng committed tx =
     (case rbind (next_iris rng) (\<lambda>(iris, rng). rbind (mk i iris) (\<lambda>row. rbind (insert_irises now [row] tx) (\<lambda>(_, tx). Inr (rng, tx)))) of
        Inl e \<Rightarrow> (committed, Inl e)
      | Inr (rng, tx) \<Rightarrow> init_loop next_iris mk now is rng (if i mod 1000 = 0 then tx else committed) tx)"

definition init_db_with_random_shares ::
    "('h \<Rightarrow> (IrisCode \<times> 'h) result) \<Rightarrow> ('g \<Rightarrow> u16 \<times> 'g) \<Rightarrow> int \<Rightarrow> 'h \<Rightarrow> 'g \<Rightarrow> nat \<Rightarrow> nat \<Rightarrow> bool \<Rightarrow> Tables \<Rightarrow> Tables \<times> unit result" where
  "init_db_with_random_shares next_iris gen now rng seed party db_size clear_db_before_init self =
     (let self = (if clear_db_before_init then rollback 0 self else self)
      in init_loop next_iris (random_row gen seed party) now [0..<db_size] rng self self)"

section \<open>Schema names\<close>

definition sanitize_identifier :: "(char \<Rightarrow> bool) \<Rightarrow> string \<Rightarrow> unit result" where
  "sanitize_identifier is_alphanumeric inp =
     (if list_all (\<lambda>c. is_alphanumeric c \<or> c = CHR ''_'') inp then Inr () else Inl (Eyre ''Invalid SQL identifier''))"

definition sql_switch_schema :: "(char \<Rightarrow> bool) \<Rightarrow> string \<Rightarrow> string result" where
  "sql_switch_schema is_alphanumeric schema_name =
     rbind (sanitize_identifier is_alphanumeric schema_name) (\<lambda>_.
     let nl = [CHR 0x0A] @ replicate 8 CHR 0x20; quoted = [CHR 0x22] @ schema_name @ [CHR 0x22]
     in Inr (nl @ ''CREATE SCHEMA IF NOT EXISTS '' @ quoted @ '';'' @ nl @ ''SET search_path TO '' @ quoted @ '';'' @ nl))"

definition schema_name_of :: "string \<Rightarrow> nat \<Rightarrow> string" where
  "schema_name_of environment party = ''SMPC_'' @ environment @ ''_'' @ show_usize party"

section \<open>Snapshots in the object store\<close>

definition SINGLE_ELEMENT_SIZE :: nat where
  "SINGLE_ELEMENT_SIZE = IRIS_CODE_LENGTH * 2 * 2 + MASK_CODE_LENGTH * 2 * 2 + 4"

definition MAX_RANGE_SIZE :: nat where
  "MAX_RANGE_SIZE = 200"

record LastSnapshotDetails =
  ls_timestamp :: int
  ls_last_serial_id :: int
  ls_chunk_size :: int

fun split_on :: "char \<Rightarrow> string \<Rightarrow> string list" where
  "split_on c [] = [[]]"
| "split_on c (x # xs) =
     (if x = c then [] # split_on c xs else case split_on c xs of [] \<Rightarrow> [[x]] | part # parts \<Rightarrow> (x # part) # parts)"

text \<open>The number in a text of an \<open>i64\<close>.\<close>

fun digits_value :: "nat \<Rightarrow> string \<Rightarrow> nat option" where
  "digits_value acc [] = Some acc"
| "digits_value acc (c # cs) = (case char_digit c of None \<Rightarrow> None | Some d \<Rightarrow> digits_value (10 * acc + d) cs)"

definition parse_i64 :: "string \<Rightarrow> int option" where
  "parse_i64 s =
     (if s = [] \<or> s = ''+'' \<or> s = ''-'' then None
      else case digits_value 0 (if hd s = CHR ''+'' \<or> hd s = CHR ''-'' then tl s else s) of
             None \<Rightarrow> None
           | Some v \<Rightarrow> (let x = (if hd s = CHR ''-'' then - int v else int v)
                        in if - (2 ^ 63) \<le> x \<and> x < 2 ^ 63 then Some x else None))"

definition parse_i64_unwrap :: "string \<Rightarrow> int result" where
  "parse_i64_unwrap s =
     (case parse_i64 s of None \<Rightarrow> Inl (Panic ''called `Result::unwrap()` on an `Err` value'') | Some x \<Rightarrow> Inr x)"

definition snapshot_from_str :: "string \<Rightarrow> LastSnapshotDetails option result" where
  "snapshot_from_str last_snapshot_str =
     (let parts = split_on CHR ''_'' last_snapshot_str
      in if length parts = 3 then
           rbind (parse_i64_unwrap (parts ! 0)) (\<lambda>t.
           rbind (parse_i64_unwrap (parts ! 1)) (\<lambda>c.
           rbind (parse_i64_unwrap (parts ! 2)) (\<lambda>l.
           Inr (Some \<lparr>ls_timestamp = t, ls_last_serial_id = l, ls_chunk_size = c\<rparr>))))
         else Inr None)"

text \<open>The last of the elements with the greatest key.\<close>

fun max_by_key :: "('a \<Rightarrow> int) \<Rightarrow> 'a list \<Rightarrow> 'a option" where
  "max_by_key key [] = None"
| "max_by_key key (x # xs) = Some (foldl (\<lambda>m y. if key m \<le> key y then y else m) x xs)"

definition last_snapshot_timestamp ::
    "(string \<Rightarrow> string list result) \<Rightarrow> string \<Rightarrow> LastSnapshotDetails result" where
  "last_snapshot_timestamp list_objects prefix_name =
     rbind (list_objects (prefix_name @ ''/timestamps/'')) (\<lambda>keys.
     rbind (rmap (\<lambda>f. snapshot_from_str (last (split_on CHR ''/'' f))) keys) (\<lambda>found.
     case max_by_key ls_timestamp (concat (map (\<lambda>d. case d of None \<Rightarrow> [] | Some d \<Rightarrow> [d]) found)) of
       None \<Rightarrow> Inl (Eyre ''No snapshot found'')
     | Some d \<Rightarrow> Inr d))"

text \<open>The ranges that are fetched, by their first serial id, and the bytes of the object that hold such a range.\<close>

definition range_size :: "LastSnapshotDetails \<Rightarrow> nat" where
  "range_size d = (let n = nat (ls_chunk_size d mod 2 ^ 64) in if n > MAX_RANGE_SIZE then MAX_RANGE_SIZE else n)"

definition range_starts :: "LastSnapshotDetails \<Rightarrow> int list result" where
  "range_starts d =
     (let r = range_size d
      in if r = 0 then Inl (Panic ''assertion failed: step != 0'')
         else Inr (map (\<lambda>k. 1 + int (k * r)) [0..<(nat (ls_last_serial_id d) + r - 1) div r]))"

definition chunk_id_of :: "LastSnapshotDetails \<Rightarrow> int \<Rightarrow> int" where
  "chunk_id_of d chunk = (chunk sdiv ls_chunk_size d) * ls_chunk_size d + 1"

definition byte_range :: "LastSnapshotDetails \<Rightarrow> int \<Rightarrow> nat \<times> nat" where
  "byte_range d chunk =
     (let offset_within_chunk = nat ((chunk - chunk_id_of d chunk) mod 2 ^ 64)
      in (offset_within_chunk * SINGLE_ELEMENT_SIZE mod 2 ^ 64, (offset_within_chunk + range_size d) * SINGLE_ELEMENT_SIZE mod 2 ^ 64))"

definition fetch_chunk ::
    "(string \<Rightarrow> nat \<times> nat \<Rightarrow> u8 list result) \<Rightarrow> string \<Rightarrow> LastSnapshotDetails \<Rightarrow> int \<Rightarrow> StoredIris result list" where
  "fetch_chunk get_object prefix_name d chunk =
     (case get_object (prefix_name @ ''/'' @ show_i64 (of_int (chunk_id_of d chunk)) @ ''.bin'') (byte_range d chunk) of
        Inl e \<Rightarrow> [Inl e]
      | Inr body \<Rightarrow> map stored_from_bytes (chunks_exact SINGLE_ELEMENT_SIZE body))"

text \<open>The ranges are fetched concurrently; \<open>order\<close> is the order in which the fetches complete.\<close>

definition fetch_and_parse_chunks ::
    "(string \<Rightarrow> nat \<times> nat \<Rightarrow> u8 list result) \<Rightarrow> string \<Rightarrow> LastSnapshotDetails \<Rightarrow> int list \<Rightarrow> StoredIris result list" where
  "fetch_and_parse_chunks get_object prefix_name d order = concat (map (fetch_chunk get_object prefix_name d) order)"

end
