(* ===== verification/IrisStoreCorrect.thy ===== *)
theory IrisStoreCorrect
  imports IrisStore BatchQuery "HOL-Library.Multiset"
begin

text \<open>
  The persistent store keeps the serial ids of the irises contiguous from 1: insertion, update and rollback
  keep this invariant, the parallel streams cover the table, and the ranges of a snapshot cover its
  records.
\<close>

section \<open>Contiguous tables\<close>

definition contiguous :: "nat \<Rightarrow> Tables \<Rightarrow> bool" where
  "contiguous n t \<longleftrightarrow> map fst (iris_rows t) = map int [1..<n + 1]"

lemma contiguous_length: "contiguous n t \<Longrightarrow> length (iris_rows t) = n"
  unfolding contiguous_def by (drule arg_cong [where f = length]) simp

lemma contiguous_nth: "contiguous n t \<Longrightarrow> k < n \<Longrightarrow> fst (iris_rows t ! k) = int k + 1"
  using contiguous_length [of n t] unfolding contiguous_def by (metis add.commute length_map nth_map nth_upt add_0 of_nat_1 of_nat_add less_diff_conv length_upt diff_add_inverse2)

lemma contiguous_ids: "contiguous n t \<Longrightarrow> fst ` set (iris_rows t) = {1..int n}"
proof -
  assume "contiguous n t"
  then have "fst ` set (iris_rows t) = int ` {1..<n + 1}" unfolding contiguous_def by (metis list.set_map set_upt)
  also have "\<dots> = {1..int n}" by (auto simp: image_int_atLeastLessThan)
  finally show ?thesis .
qed

lemma put_row_end: "\<forall>row \<in> set rows. fst row < i \<Longrightarrow> put_row i r rows = rows @ [(i, r)]"
  by (induction rows) auto

lemma sint_of_nat_i64: "n < 2 ^ 63 \<Longrightarrow> sint (of_nat n :: i64) = int n"
  by (simp add: sint_uint unat_of_nat signed_take_bit_int_eq_self take_bit_int_eq_self uint_nat of_nat_less_iff [symmetric] del: of_nat_less_iff)

lemma filter_ids:
  assumes "contiguous n t"
  shows "filter (\<lambda>row. int a < fst row \<and> fst row \<le> int (a + k)) (iris_rows t) = take k (drop a (iris_rows t))"
proof -
  let ?rows = "iris_rows t" and ?P = "\<lambda>row :: int \<times> IrisRow. int a < fst row \<and> fst row \<le> int (a + k)"
  have len: "length ?rows = n" by (rule contiguous_length [OF assms])
  have ids: "fst (?rows ! j) = int j + 1" if "j < n" for j by (rule contiguous_nth [OF assms that])
  have "filter ?P (take a ?rows) = []" by (simp add: filter_empty_conv all_set_conv_all_nth len ids)
  moreover have "filter ?P (take k (drop a ?rows)) = take k (drop a ?rows)"
    by (rule filter_True) (auto simp: all_set_conv_all_nth len ids nth_drop)
  moreover have "filter ?P (drop k (drop a ?rows)) = []" by (simp add: filter_empty_conv all_set_conv_all_nth len ids)
  ultimately have "filter ?P (take a ?rows @ take k (drop a ?rows) @ drop k (drop a ?rows)) = take k (drop a ?rows)"
    by (simp only: filter_append append_Nil append_Nil2)
  then show ?thesis by (simp only: append_take_drop_id)
qed


lemma insert_row_end: "\<forall>row \<in> set rows. fst row < i \<Longrightarrow> insert_row i r rows = Inr (rows @ [(i, r)])"
  by (auto simp: insert_row_def put_row_end)

text \<open>Rows whose ids follow the last one are appended.\<close>

lemma insert_following:
  assumes "\<forall>row \<in> set rows. fst row \<le> int n" "\<forall>j < length refs. sint (stored_id (refs ! j)) = int (n + j) + 1"
  shows "rfold (\<lambda>iris. insert_row (sint (stored_id iris)) (new_row now iris)) refs rows
    = Inr (rows @ map (\<lambda>iris. (sint (stored_id iris), new_row now iris)) refs)"
  using assms
proof (induction refs arbitrary: rows n)
  case (Cons iris refs)
  have i: "sint (stored_id iris) = int n + 1" using Cons.prems(2) by force
  then have first: "insert_row (sint (stored_id iris)) (new_row now iris) rows = Inr (rows @ [(sint (stored_id iris), new_row now iris)])"
    using Cons.prems(1) by (intro insert_row_end) auto
  have "\<forall>row \<in> set (rows @ [(sint (stored_id iris), new_row now iris)]). fst row \<le> int (Suc n)" using Cons.prems(1) i by auto
  moreover have "\<forall>j < length refs. sint (stored_id (refs ! j)) = int (Suc n + j) + 1" using Cons.prems(2) by force
  ultimately have "rfold (\<lambda>iris. insert_row (sint (stored_id iris)) (new_row now iris)) refs (rows @ [(sint (stored_id iris), new_row now iris)])
      = Inr ((rows @ [(sint (stored_id iris), new_row now iris)]) @ map (\<lambda>iris. (sint (stored_id iris), new_row now iris)) refs)"
    by (rule Cons.IH)
  then show ?case by (simp add: first)
qed simp

lemma insert_irises_contiguous:
  assumes "contiguous n t" "\<forall>j < length refs. sint (stored_id (refs ! j)) = int (n + j) + 1"
  shows "\<exists>t'. insert_irises now refs t = Inr (map stored_id refs, t') \<and> contiguous (n + length refs) t' \<and>
    iris_rows t' = iris_rows t @ map (\<lambda>iris. (sint (stored_id iris), new_row now iris)) refs \<and>
    result_rows t' = result_rows t \<and> sync_rows t' = sync_rows t"
proof -
  have "\<forall>row \<in> set (iris_rows t). fst row \<le> int n" using contiguous_ids [OF assms(1)] by (metis atLeastAtMost_iff imageI)
  note ins = insert_following [OF this assms(2)]
  have "map (sint \<circ> stored_id) refs = map int [n + 1..<n + length refs + 1]"
    by (rule nth_equalityI) (use assms(2) in \<open>auto simp del: upt_Suc\<close>)
  moreover have "[1..<n + length refs + 1] = [1..<n + 1] @ [n + 1..<n + length refs + 1]"
    using upt_add_eq_append [of 1 "n + 1" "length refs"] by (simp add: add.commute add.left_commute)
  ultimately have "map fst (iris_rows t @ map (\<lambda>iris. (sint (stored_id iris), new_row now iris)) refs) = map int [1..<n + length refs + 1]"
    using assms(1) by (simp add: contiguous_def comp_def)
  then show ?thesis
    using assms(1) by (auto simp: insert_irises_def ins contiguous_def)
qed

lemma rollback_take:
  assumes "contiguous n t" "len < 2 ^ 63"
  shows "iris_rows (rollback len t) = take len (iris_rows t)" "contiguous (min len n) (rollback len t)"
proof -
  have "filter (\<lambda>(i, _). \<not> i > sint (of_nat len :: i64)) (iris_rows t) = filter (\<lambda>row. int 0 < fst row \<and> fst row \<le> int (0 + len)) (iris_rows t)"
    using contiguous_ids [OF assms(1)] sint_of_nat_i64 [OF assms(2)] by (intro filter_cong) force+
  also have "\<dots> = take len (drop 0 (iris_rows t))" by (rule filter_ids [OF assms(1)])
  finally show rows: "iris_rows (rollback len t) = take len (iris_rows t)" by (simp add: rollback_def)
  have "map fst (take len (iris_rows t)) = map int (take len [1..<n + 1])"
    using assms(1) by (simp add: contiguous_def take_map [symmetric])
  also have "take len [1..<n + 1] = [1..<min len n + 1]" by (rule nth_equalityI) (auto simp del: upt_Suc)
  finally show "contiguous (min len n) (rollback len t)" by (simp add: contiguous_def rows)
qed

lemma update_iris_contiguous: "contiguous n t \<Longrightarrow> contiguous n (update_iris now sid lc lm rc rm t)"
  by (simp add: contiguous_def update_iris_def comp_def case_prod_unfold if_distrib cong: if_cong) 

lemma max_serial_id:
  assumes "contiguous n t" "n < 2 ^ 63"
  shows "get_max_serial_id t = (if n = 0 then Inl (Eyre ''error occurred while decoding column 0: unexpected null'') else Inr n)"
proof (cases n)
  case 0
  then show ?thesis using contiguous_length [OF assms(1)] by (simp add: get_max_serial_id_def)
next
  case (Suc m)
  have "iris_rows t \<noteq> []" using contiguous_length [OF assms(1)] Suc by auto
  moreover have "Max (set (map fst (iris_rows t))) = int n"
    using contiguous_ids [OF assms(1)] Suc by (auto intro!: Max_eqI)
  ultimately show ?thesis using assms(2) Suc
    by (simp add: get_max_serial_id_def unat_of_nat take_bit_nat_eq_self del: of_nat_Suc)
qed


section \<open>Parallel streams\<close>

definition recent :: "int option \<Rightarrow> IrisRow \<Rightarrow> bool" where
  "recent min_last_modified_at r =
     (case min_last_modified_at of None \<Rightarrow> True | Some m \<Rightarrow> (case row_modified r of None \<Rightarrow> False | Some t \<Rightarrow> m \<le> t))"

lemma div_ceil_bounds:
  fixes n p :: nat
  assumes "0 < p"
  shows "n \<le> max ((n + p - 1) div p) 1 * p" "max ((n + p - 1) div p) 1 * p \<le> n + p"
proof -
  have "(n + p - 1) div p * p + (n + p - 1) mod p = n + p - 1" by simp
  moreover have "(n + p - 1) mod p < p" using assms by simp
  ultimately have *: "n \<le> (n + p - 1) div p * p" "(n + p - 1) div p * p \<le> n + p" by linarith+
  moreover have "(n + p - 1) div p * p \<le> max ((n + p - 1) div p) 1 * p" by (intro mult_le_mono1) simp
  ultimately show "n \<le> max ((n + p - 1) div p) 1 * p" by linarith
  show "max ((n + p - 1) div p) 1 * p \<le> n + p" using * by (simp add: max_def)
qed

lemma partitions_cover:
  assumes t: "contiguous n t" and p: "0 < p" "n + p < 2 ^ 63"
  shows "\<exists>ps. stream_irises_par m p t = Inr ps \<and> length ps = p \<and>
    concat ps = map decode_row (filter (\<lambda>row. recent m (snd row)) (iris_rows t))"
proof -
  let ?k = "max ((n + p - 1) div p) 1"
  have k: "n \<le> ?k * p" "?k * p \<le> n + p" "0 < ?k" using div_ceil_bounds [OF p(1)] by simp_all
  have block: "filter (\<lambda>(j, r). sint (of_nat (1 + ?k * i) :: i64) \<le> j \<and> j \<le> sint (of_nat (1 + ?k * i + ?k - 1) :: i64) \<and> recent m r) (iris_rows t)
      = filter (\<lambda>row. recent m (snd row)) (take ?k (drop (i * ?k) (iris_rows t)))" if "i < p" for i
  proof -
    have "?k * Suc i \<le> ?k * p" using that by (intro mult_le_mono2) simp
    then have bound: "?k * i + ?k \<le> n + p" using k(2) by simp
    then have "1 + ?k * i < 2 ^ 63" "1 + ?k * i + ?k - 1 < 2 ^ 63" using p(2) k(3) by linarith+
    note ids = this [THEN sint_of_nat_i64]
    have "filter (\<lambda>(j, r). sint (of_nat (1 + ?k * i) :: i64) \<le> j \<and> j \<le> sint (of_nat (1 + ?k * i + ?k - 1) :: i64) \<and> recent m r) (iris_rows t)
        = filter (\<lambda>row. recent m (snd row)) (filter (\<lambda>row. int (i * ?k) < fst row \<and> fst row \<le> int (i * ?k + ?k)) (iris_rows t))"
      unfolding ids filter_filter by (rule filter_cong) (auto simp: mult.commute)
    then show ?thesis unfolding filter_ids [OF t] .
  qed
  have all: "take (p * ?k) (iris_rows t) = iris_rows t" using contiguous_length [OF t] k(1) by (simp add: mult.commute)
  let ?ps = "map (\<lambda>i. map decode_row (filter (\<lambda>row. recent m (snd row)) (take ?k (drop (i * ?k) (iris_rows t))))) [0..<p]"
  have "stream_irises_par m p t = Inr ?ps"
    using p(1) block by (simp add: stream_irises_par_def count_irises_def contiguous_length [OF t] Let_def recent_def [symmetric])
  moreover have "concat ?ps = map decode_row (filter (\<lambda>row. recent m (snd row)) (concat (map (\<lambda>i. take ?k (drop (i * ?k) (iris_rows t))) [0..<p])))"
    by (simp add: filter_concat map_concat comp_def)
  ultimately show ?thesis unfolding concat_blocks all by force
qed

section \<open>Snapshots\<close>

text \<open>The bytes of a record and of the file with the records of chunk \<open>j\<close> of a snapshot.\<close>

definition u32_to_be_bytes :: "u32 \<Rightarrow> u8 list" where
  "u32_to_be_bytes w = map (\<lambda>k. ucast (drop_bit (24 - 8 * k) w)) [0..<4]"

definition record_bytes :: "StoredIris \<Rightarrow> u8 list" where
  "record_bytes x = u32_to_be_bytes (ucast (si_id x)) @ si_left_code x @ si_left_mask x @ si_right_code x @ si_right_mask x"

definition wf_stored :: "StoredIris \<Rightarrow> bool" where
  "wf_stored x \<longleftrightarrow> unat (si_id x) < 2 ^ 32 \<and> length (si_left_code x) = IRIS_CODE_LENGTH * 2 \<and> length (si_left_mask x) = MASK_CODE_LENGTH * 2 \<and>
     length (si_right_code x) = IRIS_CODE_LENGTH * 2 \<and> length (si_right_mask x) = MASK_CODE_LENGTH * 2"

lemma u32_be_roundtrip: "u32_from_be_bytes (u32_to_be_bytes w) = w"
proof -
  have four: "[0..<4] = [0, 1, 2, 3 :: nat]" by (simp add: upt_rec)
  have step: "push_bit 8 (drop_bit (k + 8) w) OR ucast (ucast (drop_bit k w) :: u8) = drop_bit k w" for k
    by (rule bit_word_eqI) (auto simp: bit_simps not_less)
  have top: "ucast (ucast (drop_bit 24 w) :: u8) = drop_bit 24 w"
    by (rule bit_word_eqI) (auto simp: bit_simps dest: bit_imp_le_length)
  show ?thesis
    using step [of 16] step [of 8] step [of 0] by (simp add: u32_from_be_bytes_def u32_to_be_bytes_def four top)
qed

lemma length_record_bytes: "wf_stored x \<Longrightarrow> length (record_bytes x) = SINGLE_ELEMENT_SIZE"
  by (simp add: wf_stored_def record_bytes_def u32_to_be_bytes_def SINGLE_ELEMENT_SIZE_def)

lemma stored_roundtrip:
  assumes "wf_stored x"
  shows "stored_from_bytes (record_bytes x) = Inr x"
proof -
  have n: "length (u32_to_be_bytes w) = 4" for w by (simp add: u32_to_be_bytes_def)
  have "ucast (ucast (si_id x) :: u32) = si_id x"
    using assms by (intro word_unat_eq_iff [THEN iffD2]) (simp add: wf_stored_def unsigned_ucast_eq unsigned_take_bit_eq take_bit_nat_eq_self)
  then show ?thesis
    using assms by (simp add: stored_from_bytes_def record_bytes_def extract_slice_def wf_stored_def n u32_be_roundtrip)
qed

definition snapshot_file :: "(nat \<Rightarrow> StoredIris) \<Rightarrow> nat \<Rightarrow> nat \<Rightarrow> nat \<Rightarrow> u8 list" where
  "snapshot_file X c L j = concat (map (\<lambda>i. record_bytes (X i)) [j * c + 1..<min ((j + 1) * c) L + 1])"

definition holds_snapshot ::
    "(string \<Rightarrow> nat \<times> nat \<Rightarrow> u8 list result) \<Rightarrow> string \<Rightarrow> (nat \<Rightarrow> StoredIris) \<Rightarrow> nat \<Rightarrow> nat \<Rightarrow> bool" where
  "holds_snapshot get_object prefix_name X c L \<longleftrightarrow>
     (\<forall>j lo hi. j * c < L \<longrightarrow> lo < length (snapshot_file X c L j) \<longrightarrow> lo < hi \<longrightarrow>
        get_object (prefix_name @ ''/'' @ show_i64 (of_nat (j * c + 1)) @ ''.bin'') (lo, hi)
          = Inr (take (hi - lo) (drop lo (snapshot_file X c L j))))"

lemma element_size: "SINGLE_ELEMENT_SIZE = 76804"
  by (simp add: SINGLE_ELEMENT_SIZE_def IRIS_CODE_LENGTH_def MASK_CODE_LENGTH_def)

lemma range_size_eq: "ls_chunk_size d = int c \<Longrightarrow> c < 2 ^ 40 \<Longrightarrow> range_size d = min c 200"
  by (simp add: range_size_def MAX_RANGE_SIZE_def Let_def min_def)

lemma take_upt_min: "take r [s..<e] = [s..<min (s + r) e]"
  by (rule nth_equalityI) auto

text \<open>What a range delivers: the records from its first one, as far as the file of its chunk goes.\<close>

lemma fetch_chunk_records:
  assumes d: "ls_chunk_size d = int c" "0 < c" "c < 2 ^ 40" and X: "\<forall>i \<in> {1..L}. wf_stored (X i)"
    and obj: "holds_snapshot get_object prefix_name X c L" and s: "s mod c \<noteq> 0" "s \<le> L"
  shows "fetch_chunk get_object prefix_name d (int s)
    = map (\<lambda>i. Inr (X i)) [s..<min (s + min c 200) (min ((s div c + 1) * c) L + 1)]"
proof -
  let ?j = "s div c" and ?S = SINGLE_ELEMENT_SIZE and ?r = "min c 200"
  let ?E = "min ((?j + 1) * c) L + 1"
  define off where "off = s - (?j * c + 1)"
  have dm: "?j * c + s mod c = s" by simp
  have mod: "1 \<le> s mod c" "s mod c < c" using s(1) d(2) by simp_all
  then have s_eq: "s = ?j * c + 1 + off" and offc: "off < c" using dm unfolding off_def by linarith+
  have "s < ?j * c + c" using mod dm by linarith
  then have sE: "s < ?E" using s(2) by (simp add: add.commute)
  have j: "?j * c < L" using mod dm s(2) by linarith
  have cid: "chunk_id_of d (int s) = int (?j * c + 1)"
    using d(1,2) s_eq by (simp add: chunk_id_of_def signed_divide_int_def sgn_if zdiv_int)
  have offset: "nat ((int s - chunk_id_of d (int s)) mod 2 ^ 64) = off"
    using offc d(3) unfolding cid by (subst s_eq) simp
  have "off * ?S < 2 ^ 64" "(off + ?r) * ?S < 2 ^ 64" using offc d(3) by (simp_all add: element_size)
  then have range: "byte_range d (int s) = (off * ?S, (off + ?r) * ?S)"
    unfolding byte_range_def Let_def offset range_size_eq [OF d(1,3)] by simp
  let ?ids = "[?j * c + 1..<?E]" and ?rec = "\<lambda>i. record_bytes (X i)"
  have uni: "\<forall>x \<in> set (map ?rec is). length x = ?S" if "set is \<subseteq> {1..L}" for "is" using X that by (auto simp: length_record_bytes)
  have "1 \<le> s" using mod dm by linarith
  then have ids: "set ?ids \<subseteq> {1..L}" "set [s..<?E] \<subseteq> {1..L}" "set [s..<min (s + ?r) ?E] \<subseteq> {1..L}" by auto
  have S: "0 < ?S" by (simp add: element_size)
  have dr: "drop off ?ids = [s..<?E]" by (simp only: drop_upt s_eq [symmetric])
  have body: "drop (off * ?S) (snapshot_file X c L ?j) = concat (map ?rec [s..<?E])"
    using drop_concat_uniform [OF uni [OF ids(1)], of off] unfolding snapshot_file_def by (simp only: drop_map dr mult.commute [of off])
  have "length (concat (map ?rec [s..<?E])) = ?S * length [s..<?E]" using length_concat_uniform [OF uni [OF ids(2)]] by (simp only: length_map)
  then have "0 < length (concat (map ?rec [s..<?E]))" using sE S by (simp only: length_upt nat_0_less_mult_iff zero_less_diff simp_thms)
  then have lo: "off * ?S < length (snapshot_file X c L ?j)" unfolding body [symmetric] by simp
  have width: "(off + ?r) * ?S - off * ?S = ?S * ?r" by (simp only: add_mult_distrib diff_add_inverse mult.commute [of ?r])
  have hi: "off * ?S < (off + ?r) * ?S" using d(2) S by (simp add: min_def)
  have "get_object (prefix_name @ ''/'' @ show_i64 (of_int (chunk_id_of d (int s))) @ ''.bin'') (byte_range d (int s))
      = Inr (take (?S * ?r) (concat (map ?rec [s..<?E])))"
    using obj [unfolded holds_snapshot_def, rule_format, OF j lo hi] unfolding cid range of_int_of_nat_eq body by (simp only: width)
  also have "take (?S * ?r) (concat (map ?rec [s..<?E])) = concat (map ?rec [s..<min (s + ?r) ?E])"
    using take_concat_uniform [OF uni [OF ids(2)], of ?r] by (simp only: take_map take_upt_min)
  finally have "fetch_chunk get_object prefix_name d (int s) = map (\<lambda>i. stored_from_bytes (?rec i)) [s..<min (s + ?r) ?E]"
    using chunks_exact_concat [OF S bspec [OF uni [OF ids(3)]]] by (simp only: fetch_chunk_def sum.case map_map comp_def)
  also have "\<dots> = map (\<lambda>i. Inr (X i)) [s..<min (s + ?r) ?E]"
    by (rule map_cong [OF refl], rule stored_roundtrip) (use X ids(3) in blast)
  finally show ?thesis .
qed

lemma mset_concat_map: "mset (concat (map f xs)) = (\<Sum>x \<in># mset xs. mset (f x))"
  by (induction xs) simp_all

lemma range_starts_eq:
  assumes "ls_chunk_size d = int c" "0 < c" "c < 2 ^ 40" "ls_last_serial_id d = int L"
  shows "range_starts d = Inr (map (\<lambda>k. int (k * min c 200 + 1)) [0..<(L + min c 200 - 1) div min c 200])"
  using assms by (simp add: range_starts_def range_size_eq [OF assms(1,3)] Let_def)

lemma aligned_start:
  fixes k r c :: nat
  assumes "r dvd c" "1 < r" "0 < c"
  shows "(k * r + 1) mod c \<noteq> 0" "k * r + 1 + r \<le> ((k * r + 1) div c + 1) * c + 1"
proof -
  obtain q where q: "c = r * q" using assms(1) by (elim dvdE)
  have "k * r mod c = r * (k mod q)" unfolding q mult.commute [of k r] by (rule mult_mod_right [symmetric])
  moreover have "k mod q < q" using assms(3) q by simp
  then have "r * Suc (k mod q) \<le> r * q" by (intro mult_le_mono2) simp
  ultimately have m: "k * r mod c + r \<le> c" unfolding q by simp
  then have "(k * r mod c + 1) mod c = k * r mod c + 1" using assms(2) by simp
  then have md: "(k * r + 1) mod c = k * r mod c + 1" by (metis mod_add_left_eq)
  then show "(k * r + 1) mod c \<noteq> 0" by simp
  have "k * r + 1 = (k * r + 1) div c * c + (k * r mod c + 1)" using md div_mult_mod_eq [of "k * r + 1" c] by simp
  then show "k * r + 1 + r \<le> ((k * r + 1) div c + 1) * c + 1" using m by (simp add: add_mult_distrib)
qed

lemma snapshot_records:
  assumes "ls_chunk_size d = int c" "1 < c" "c < 2 ^ 40" "c \<le> 200 \<or> 200 dvd c" "ls_last_serial_id d = int L"
    and "\<forall>i \<in> {1..L}. wf_stored (X i)" "holds_snapshot get_object prefix_name X c L"
  shows "\<exists>starts. range_starts d = Inr starts \<and> (\<forall>order. mset order = mset starts \<longrightarrow>
    mset (fetch_and_parse_chunks get_object prefix_name d order) = mset (map (\<lambda>i. Inr (X i)) [1..<L + 1]))"
proof -
  let ?r = "min c 200"
  have c: "0 < c" "?r dvd c" "1 < ?r" using assms(2,4) by (auto simp: min_def)
  let ?n = "(L + ?r - 1) div ?r"
  have n: "L \<le> ?n * ?r"
  proof -
    have "?n * ?r + (L + ?r - 1) mod ?r = L + ?r - 1" by (rule div_mult_mod_eq)
    moreover have "(L + ?r - 1) mod ?r < ?r" using c(3) by (intro mod_less_divisor) linarith
    ultimately show ?thesis by linarith
  qed
  have fetch: "fetch_chunk get_object prefix_name d (int (k * ?r + 1)) = map (\<lambda>i. Inr (X i)) (take ?r (drop (k * ?r) [1..<L + 1]))"
    if "k < ?n" for k
  proof -
    have "Suc k * ?r \<le> ?n * ?r" using that by (intro mult_le_mono1) simp
    also have "\<dots> \<le> L + ?r - 1" by simp
    finally have kL: "k * ?r + 1 \<le> L" using c(3) by simp
    note al = aligned_start [OF c(2,3,1), of k]
    have "fetch_chunk get_object prefix_name d (int (k * ?r + 1))
        = map (\<lambda>i. Inr (X i)) [k * ?r + 1..<min (k * ?r + 1 + ?r) (min (((k * ?r + 1) div c + 1) * c) L + 1)]"
      by (rule fetch_chunk_records [OF assms(1) c(1) assms(3,6,7) al(1) kL])
    also have "min (k * ?r + 1 + ?r) (min (((k * ?r + 1) div c + 1) * c) L + 1) = min (k * ?r + 1 + ?r) (L + 1)"
      using al(2) by linarith
    finally show ?thesis by (simp add: take_upt_min del: upt_Suc)
  qed
  let ?starts = "map (\<lambda>k. int (k * ?r + 1)) [0..<?n]"
  have "concat (map (fetch_chunk get_object prefix_name d) ?starts)
      = concat (map (\<lambda>k. map (\<lambda>i. Inr (X i)) (take ?r (drop (k * ?r) [1..<L + 1]))) [0..<?n])"
    by (rule arg_cong [where f = concat]) (use fetch in \<open>simp only: map_map comp_def, intro map_cong refl, simp\<close>)
  also have "\<dots> = map (\<lambda>i. Inr (X i)) (concat (map (\<lambda>k. take ?r (drop (k * ?r) [1..<L + 1])) [0..<?n]))"
    by (simp only: map_concat map_map comp_def)
  also have "\<dots> = map (\<lambda>i. Inr (X i)) [1..<L + 1]" unfolding concat_blocks using n by simp
  finally have "mset order = mset ?starts \<Longrightarrow> mset (fetch_and_parse_chunks get_object prefix_name d order) = mset (map (\<lambda>i. Inr (X i)) [1..<L + 1])" for order
    unfolding fetch_and_parse_chunks_def by (metis mset_concat_map)
  then show ?thesis using range_starts_eq [OF assms(1) c(1) assms(3,5)] by blast
qed


text \<open>
  With files of 250 records the second range of a file is cut off at its end, and the next one starts
  too late: a snapshot of 500 records is imported without the records 251 to 400.
\<close>

theorem snapshot_import_gap:
  assumes "ls_chunk_size d = 250" "ls_last_serial_id d = 500" "\<forall>i \<in> {1..500}. wf_stored (X i)" "holds_snapshot get_object prefix_name X 250 500"
  shows "range_starts d = Inr [1, 201, 401] \<and>
    fetch_and_parse_chunks get_object prefix_name d [1, 201, 401] = map (\<lambda>i. Inr (X i)) ([1..<251] @ [401..<501])"
proof -
  have d: "ls_chunk_size d = int 250" "ls_last_serial_id d = int 500" using assms(1,2) by simp_all
  have "[0..<3] = [0, 1, 2 :: nat]" by (simp add: upt_rec)
  then have "range_starts d = Inr [1, 201, 401]" using range_starts_eq [OF d(1) _ _ d(2)] by simp
  moreover have "fetch_chunk get_object prefix_name d (int 1) = map (\<lambda>i. Inr (X i)) [1..<201]"
    "fetch_chunk get_object prefix_name d (int 201) = map (\<lambda>i. Inr (X i)) [201..<251]"
    "fetch_chunk get_object prefix_name d (int 401) = map (\<lambda>i. Inr (X i)) [401..<501]"
    using fetch_chunk_records [OF d(1) _ _ assms(3,4), of 1] fetch_chunk_records [OF d(1) _ _ assms(3,4), of 201]
      fetch_chunk_records [OF d(1) _ _ assms(3,4), of 401] by (simp_all del: upt_Suc upt_rec_numeral)
  moreover have "[1..<251] = [1..<201] @ [201..<251 :: nat]" using upt_add_eq_append [of 1 201 50] by (simp del: upt_rec_numeral)
  ultimately show ?thesis by (simp add: fetch_and_parse_chunks_def del: upt_rec_numeral)
qed

section \<open>Witness\<close>

definition demo_stored :: "nat \<Rightarrow> StoredIris" where
  "demo_stored i = \<lparr>si_id = of_nat (i mod 4), si_left_code = replicate (IRIS_CODE_LENGTH * 2) 0, si_left_mask = replicate (MASK_CODE_LENGTH * 2) 0,
     si_right_code = replicate (IRIS_CODE_LENGTH * 2) 0, si_right_mask = replicate (MASK_CODE_LENGTH * 2) 0\<rparr>"

lemma demo_stored_ok: "\<forall>i \<in> {1..n}. wf_stored (demo_stored i)"
proof
  fix i
  have "i mod 4 < (2 ^ 32 :: nat)" by (rule less_trans [of _ 4]) simp_all
  then show "wf_stored (demo_stored i)" by (simp add: wf_stored_def demo_stored_def unat_of_nat take_bit_nat_eq_self)
qed


end
