(* ===== verification/ServerStartup.thy ===== *)
theory ServerStartup
  imports IrisStoreCorrect ActorBatches "HOL-Library.List_Lexorder" "HOL-Library.Char_ord"
begin

text \<open>
  The start of a server (\<open>iris-mpc/src/bin/server.rs\<close>, with \<open>helpers/sync.rs\<close> and \<open>server/sync_nccl.rs\<close>):
  the checks of the persistent store, the agreement of the three parties on its length and on the requests to
  skip, the loading of the irises into the actor, and the heartbeats. \<open>bincode\<close> and the collective operation of
  NCCL are parameters; tracing and the health check server are left out.
\<close>

section \<open>Agreement on the state of the stores\<close>

record SyncState =
  ss_db_len :: u64
  ss_deleted_request_ids :: "string list"

record SyncResult =
  sr_my_state :: SyncState
  sr_all_states :: "SyncState list"

definition must_rollback_storage :: "SyncResult \<Rightarrow> nat option" where
  "must_rollback_storage self =
     (if sr_all_states self = [] then None
      else
        (let smallest_len = Min (set (map ss_db_len (sr_all_states self)));
             all_equal = list_all (\<lambda>s. ss_db_len s = smallest_len) (sr_all_states self)
         in if all_equal then None else Some (unat smallest_len)))"

definition deleted_request_ids :: "SyncResult \<Rightarrow> string list" where
  "deleted_request_ids self = remdups_adj (sort (concat (map ss_deleted_request_ids (sr_all_states self))))"

definition MAX_REQUESTS :: nat where
  "MAX_REQUESTS = 256 * 2"

definition MAX_REQUEST_ID_LEN :: nat where
  "MAX_REQUEST_ID_LEN = 36"

definition SERIAL_SIZE :: nat where
  "SERIAL_SIZE = MAX_REQUESTS * (8 + MAX_REQUEST_ID_LEN) + 2 * 8"

definition sync_serialize :: "(SyncState \<Rightarrow> u8 list result) \<Rightarrow> SyncState \<Rightarrow> u8 list result" where
  "sync_serialize serialize my_state =
     rbind (serialize my_state) (\<lambda>state_ser.
     if length state_ser > SERIAL_SIZE then Inl (Eyre ''State too large to serialize'')
     else Inr (state_ser @ replicate (SERIAL_SIZE - length state_ser) 0))"

definition sync_deserialize_all :: "(u8 list \<Rightarrow> SyncState result) \<Rightarrow> u8 list \<Rightarrow> SyncState list result" where
  "sync_deserialize_all deserialize state_ser = rmap deserialize (chunks SERIAL_SIZE state_ser)"

definition sync ::
    "(SyncState \<Rightarrow> u8 list result) \<Rightarrow> (u8 list \<Rightarrow> SyncState result) \<Rightarrow> (u8 list \<Rightarrow> u8 list result) \<Rightarrow> SyncState \<Rightarrow> SyncResult result" where
  "sync serialize deserialize all_gather my_state =
     rbind (sync_serialize serialize my_state) (\<lambda>state_dev.
     rbind (all_gather state_dev) (\<lambda>all_states_ser.
     rbind (sync_deserialize_all deserialize all_states_ser) (\<lambda>all_states.
     Inr \<lparr>sr_my_state = my_state, sr_all_states = all_states\<rparr>)))"

section \<open>Checks and rollback\<close>

record ServerConfig =
  cfg_party_id :: nat
  cfg_max_db_size :: nat
  cfg_max_batch_size :: nat
  cfg_init_db_size :: nat
  cfg_clear_db_before_init :: bool
  cfg_fake_db_size :: nat
  cfg_disable_persistence :: bool
  cfg_enable_s3_importer :: bool
  cfg_db_load_safety_overlap_seconds :: int
  cfg_db_chunks_folder_name :: string
  cfg_load_parallelism :: nat
  cfg_heartbeat_initial_retries :: nat

definition max_sync_lookback :: "ServerConfig \<Rightarrow> nat result" where
  "max_sync_lookback config =
     (let n = cfg_max_batch_size config * 2
      in if n \<le> MAX_REQUESTS then Inr n else Inl (Panic ''assertion failed: max_sync_lookback <= sync_nccl::MAX_REQUESTS''))"

definition max_rollback :: "ServerConfig \<Rightarrow> nat" where
  "max_rollback config = cfg_max_batch_size config * 2"

text \<open>\<open>init_db\<close> fills an empty store with random shares.\<close>

definition prepare_store :: "(nat \<Rightarrow> bool \<Rightarrow> Tables \<Rightarrow> Tables \<times> unit result) \<Rightarrow> ServerConfig \<Rightarrow> Tables \<Rightarrow> Tables \<times> unit result" where
  "prepare_store init_db config store =
     (if count_irises store = 0 \<and> cfg_init_db_size config > 0
      then init_db (cfg_init_db_size config) (cfg_clear_db_before_init config) store
      else (store, Inr ()))"

definition check_store :: "ServerConfig \<Rightarrow> Tables \<Rightarrow> nat result" where
  "check_store config store =
     (let store_len = count_irises store
      in rbind (get_max_serial_id store) (\<lambda>max_serial_id.
         if max_serial_id \<noteq> store_len then Inl (Eyre ''Detected inconsistency between max serial id and db size.'')
         else if store_len > cfg_max_db_size config then Inl (Eyre ''Database size exceeds maximum allowed size'')
         else Inr store_len))"

definition startup_state :: "ServerConfig \<Rightarrow> Tables \<Rightarrow> (nat \<times> SyncState) result" where
  "startup_state config store =
     rbind (max_sync_lookback config) (\<lambda>lookback.
     rbind (check_store config store) (\<lambda>store_len.
     rbind (last_deleted_requests lookback store) (\<lambda>deleted.
     Inr (store_len, \<lparr>ss_db_len = of_nat store_len, ss_deleted_request_ids = deleted\<rparr>))))"

definition sync_store :: "ServerConfig \<Rightarrow> nat \<Rightarrow> SyncResult \<Rightarrow> Tables \<Rightarrow> Tables result" where
  "sync_store config store_len sync_result store =
     (case must_rollback_storage sync_result of
        None \<Rightarrow> Inr store
      | Some n \<Rightarrow>
          (if n + max_rollback config < store_len then Inl (Eyre ''Refusing to rollback so much'')
           else Inr (rollback n store)))"

section \<open>Loading\<close>

datatype IrisSource = S3 StoredIris | DB StoredIris

record LoadState =
  ld_actor :: ServerActor
  ld_missing :: "int set"
  ld_from_db :: "int set"

definition load_record :: "nat \<Rightarrow> StoredIris \<Rightarrow> LoadState \<Rightarrow> LoadState result" where
  "load_record store_len iris st =
     (if si_index iris = 0 \<or> si_index iris > store_len then Inl (Eyre ''Invalid iris index'')
      else
        rbind (cast_u8_to_u16 (si_left_code iris)) (\<lambda>lc.
        rbind (cast_u8_to_u16 (si_left_mask iris)) (\<lambda>lm.
        rbind (cast_u8_to_u16 (si_right_code iris)) (\<lambda>rc.
        rbind (cast_u8_to_u16 (si_right_mask iris)) (\<lambda>rm.
        rbind (actor_load_single_record (si_index iris - 1) lc lm rc rm (ld_actor st)) (\<lambda>actor.
        rbind (if int (si_index iris) \<in> ld_missing st then increment_db_size (si_index iris - 1) actor else Inr actor) (\<lambda>actor.
        Inr (st\<lparr>ld_actor := actor, ld_missing := ld_missing st - {int (si_index iris)}\<rparr>))))))))"

definition load_item :: "nat \<Rightarrow> IrisSource result \<Rightarrow> LoadState \<Rightarrow> LoadState result" where
  "load_item store_len item st =
     rbind item (\<lambda>source.
       case source of
         DB iris \<Rightarrow> load_record store_len iris (st\<lparr>ld_from_db := insert (sint (si_id iris)) (ld_from_db st)\<rparr>)
       | S3 iris \<Rightarrow> (if sint (si_id iris) \<in> ld_from_db st then Inr st else load_record store_len iris st))"

definition load_irises :: "nat \<Rightarrow> IrisSource result list \<Rightarrow> ServerActor \<Rightarrow> ServerActor result" where
  "load_irises store_len items actor =
     rbind (rfold (load_item store_len) items \<lparr>ld_actor = actor, ld_missing = {1..int store_len}, ld_from_db = {}\<rparr>) (\<lambda>st.
     if ld_missing st \<noteq> {} then Inl (Eyre ''Not all serial_ids were loaded'')
     else actor_preprocess_db (ld_actor st))"

text \<open>A faked database only sets the sizes.\<close>

definition load_actor :: "ServerConfig \<Rightarrow> nat \<Rightarrow> IrisSource result list \<Rightarrow> ServerActor \<Rightarrow> ServerActor result" where
  "load_actor config store_len items actor =
     (if cfg_fake_db_size config > 0 then
        (let n = length (current_db_sizes actor)
         in if n = 0 then Inl (Panic ''attempt to divide by zero'')
            else Inr (set_current_db_sizes (replicate n (cfg_fake_db_size config div n)) actor))
      else load_irises store_len items actor)"

text \<open>The stream merges the records of a snapshot with the partitions of the table, in any order.\<close>

definition merged_stream :: "StoredIris result list \<Rightarrow> StoredIris result list list \<Rightarrow> IrisSource result list \<Rightarrow> bool" where
  "merged_stream from_s3 partitions items \<longleftrightarrow>
     mset items = mset (map (map_sum id S3) from_s3) + mset (map (map_sum id DB) (concat partitions))"

text \<open>
  The two streams that are merged: the records of the last snapshot and the rows modified since then, with some
  overlap, or all rows. The fetches of the snapshot complete in the order \<open>order\<close> of their ranges.
\<close>

definition min_last_modified_at :: "ServerConfig \<Rightarrow> LastSnapshotDetails \<Rightarrow> int" where
  "min_last_modified_at config d = ls_timestamp d - cfg_db_load_safety_overlap_seconds config"

definition load_streams ::
    "(string \<Rightarrow> string list result) \<Rightarrow> (string \<Rightarrow> nat \<times> nat \<Rightarrow> u8 list result) \<Rightarrow> (int list \<Rightarrow> int list) \<Rightarrow> ServerConfig \<Rightarrow> Tables
       \<Rightarrow> (StoredIris result list \<times> StoredIris result list list) result" where
  "load_streams list_objects get_object order config store =
     (if cfg_enable_s3_importer config then
        rbind (last_snapshot_timestamp list_objects (cfg_db_chunks_folder_name config)) (\<lambda>d.
        rbind (range_starts d) (\<lambda>starts.
        rbind (stream_irises_par (Some (min_last_modified_at config d)) (cfg_load_parallelism config) store) (\<lambda>partitions.
        Inr (fetch_and_parse_chunks get_object (cfg_db_chunks_folder_name config) d (order starts), partitions))))
      else
        rbind (stream_irises_par None (cfg_load_parallelism config) store) (\<lambda>partitions. Inr ([], partitions)))"

section \<open>Heartbeats\<close>

text \<open>
  A probe of another node: no successful answer, an answer that does not deserialise, or the image and the
  identifier of the run. The task asks both other nodes in every round; \<open>hb_pending\<close> says that the sender that
  lets the start go on has not been used yet.
\<close>

datatype Probe = Unreachable | Malformed | Answer string string

record Heartbeat =
  hb_last_response :: "string list"
  hb_connected :: "bool list"
  hb_retries :: "nat list"
  hb_pending :: bool

definition heartbeat_start :: Heartbeat where
  "heartbeat_start = \<lparr>hb_last_response = [[], []], hb_connected = [False, False], hb_retries = [0, 0], hb_pending = True\<rparr>"

definition heartbeat_probe :: "nat \<Rightarrow> nat \<times> Probe \<Rightarrow> Heartbeat \<Rightarrow> Heartbeat result" where
  "heartbeat_probe initial_retries = (\<lambda>(i, res) hb.
     case res of
       Unreachable \<Rightarrow>
         (if hb_last_response hb ! i = [] \<and> hb_retries hb ! i < initial_retries
          then Inr (hb\<lparr>hb_retries := (hb_retries hb)[i := hb_retries hb ! i + 1]\<rparr>)
          else Inl (Panic ''Node did not respond with success, killing server...''))
     | Malformed \<Rightarrow> Inl (Panic ''Deserialization of probe response failed'')
     | Answer image_name uuid \<Rightarrow>
         (if hb_last_response hb ! i = [] then
            (let hb = hb\<lparr>hb_last_response := (hb_last_response hb)[i := uuid], hb_connected := (hb_connected hb)[i := True]\<rparr>
             in Inr (if list_all id (hb_connected hb) then hb\<lparr>hb_pending := False\<rparr> else hb))
          else if uuid \<noteq> hb_last_response hb ! i then Inl (Panic ''Node seems to have restarted, killing server...'')
          else Inr hb))"

definition heartbeat_round :: "nat \<Rightarrow> Probe \<times> Probe \<Rightarrow> Heartbeat \<Rightarrow> Heartbeat result" where
  "heartbeat_round initial_retries = (\<lambda>(next_node, prev_node). rfold (heartbeat_probe initial_retries) [(0, next_node), (1, prev_node)])"

definition heartbeat :: "nat \<Rightarrow> (Probe \<times> Probe) list \<Rightarrow> Heartbeat result" where
  "heartbeat initial_retries rounds = rfold (heartbeat_round initial_retries) rounds heartbeat_start"

end
