(* ===== verification/ServerStartupCorrect.thy ===== *)
theory ServerStartupCorrect
  imports ServerStartup
begin

text \<open>
  Correctness of the start of a server: after the agreement the stores of the three parties have the same
  length and the parties skip the same requests; loading puts the rows of the table into
  the actor, in whatever order the streams deliver them. A start that rolled its store back fails to load it.
\<close>

section \<open>Agreement\<close>

text \<open>What the states need of \<open>bincode\<close>: the length of the encoding, and decoding with trailing zeros.\<close>

definition bincode_ok :: "(SyncState \<Rightarrow> u8 list result) \<Rightarrow> (u8 list \<Rightarrow> SyncState result) \<Rightarrow> SyncState \<Rightarrow> bool" where
  "bincode_ok serialize deserialize s \<longleftrightarrow>
     (\<exists>b. serialize s = Inr b \<and> length b = 16 + (\<Sum>i \<leftarrow> ss_deleted_request_ids s. 8 + length i) \<and>
        (\<forall>k. deserialize (b @ replicate k 0) = Inr s))"

definition state_of :: "ServerConfig \<Rightarrow> Tables \<Rightarrow> SyncState" where
  "state_of config t = \<lparr>ss_db_len = of_nat (count_irises t),
     ss_deleted_request_ids = rev (take (cfg_max_batch_size config * 2) (rev (sync_rows t)))\<rparr>"

lemma startup_state_ok:
  assumes "contiguous n t" "0 < n" "n \<le> cfg_max_db_size config" "n < 2 ^ 63" "cfg_max_batch_size config \<le> 256"
  shows "startup_state config t = Inr (n, state_of config t)"
proof -
  have l: "sint (of_nat (cfg_max_batch_size config * 2) :: i64) = int (cfg_max_batch_size config * 2)"
    using assms(5) by (intro sint_of_nat_i64) simp
  have "check_store config t = Inr n"
    using assms(2,3) by (simp add: check_store_def count_irises_def contiguous_length [OF assms(1)] max_serial_id [OF assms(1,4)])
  moreover have "max_sync_lookback config = Inr (cfg_max_batch_size config * 2)"
    using assms(5) by (simp add: max_sync_lookback_def MAX_REQUESTS_def)
  moreover have "last_deleted_requests (cfg_max_batch_size config * 2) t = Inr (rev (take (cfg_max_batch_size config * 2) (rev (sync_rows t))))"
    unfolding last_deleted_requests_def last_rows_def l nat_int by simp
  ultimately show ?thesis
    by (simp add: startup_state_def state_of_def count_irises_def contiguous_length [OF assms(1)])
qed

lemma sync_serialize_ok:
  assumes "bincode_ok serialize deserialize s" "length (ss_deleted_request_ids s) \<le> MAX_REQUESTS"
    and "\<forall>i \<in> set (ss_deleted_request_ids s). length i \<le> MAX_REQUEST_ID_LEN"
  obtains b where "sync_serialize serialize s = Inr b" "length b = SERIAL_SIZE" "deserialize b = Inr s"
proof -
  obtain b where b: "serialize s = Inr b" "length b = 16 + (\<Sum>i \<leftarrow> ss_deleted_request_ids s. 8 + length i)"
    "\<And>k. deserialize (b @ replicate k 0) = Inr s" using assms(1) by (auto simp: bincode_ok_def)
  have "(\<Sum>i \<leftarrow> ids. 8 + length i) \<le> length ids * (8 + MAX_REQUEST_ID_LEN)"
    if "\<forall>i \<in> set ids. length i \<le> MAX_REQUEST_ID_LEN" for ids :: "string list"
    using that by (induction ids) (auto intro: add_mono)
  from this [OF assms(3)] have "(\<Sum>i \<leftarrow> ss_deleted_request_ids s. 8 + length i) \<le> MAX_REQUESTS * (8 + MAX_REQUEST_ID_LEN)"
    using mult_le_mono1 [OF assms(2)] by (rule order_trans)
  then have "length b \<le> SERIAL_SIZE" unfolding b(2) SERIAL_SIZE_def by simp
  with b that show ?thesis by (auto simp: sync_serialize_def)
qed

lemma sync_three:
  fixes St :: "nat \<Rightarrow> SyncState"
  assumes "\<And>p. p < 3 \<Longrightarrow> bincode_ok serialize deserialize (St p)"
    and "\<And>p. p < 3 \<Longrightarrow> length (ss_deleted_request_ids (St p)) \<le> MAX_REQUESTS"
    and "\<And>p. p < 3 \<Longrightarrow> \<forall>i \<in> set (ss_deleted_request_ids (St p)). length i \<le> MAX_REQUEST_ID_LEN"
    and "\<And>ser p. (\<And>q. q < 3 \<Longrightarrow> sync_serialize serialize (St q) = Inr (ser q)) \<Longrightarrow> p < 3 \<Longrightarrow> G p (ser p) = Inr (concat (map ser [0..<3]))"
    and "p < 3"
  shows "sync serialize deserialize (G p) (St p) = Inr \<lparr>sr_my_state = St p, sr_all_states = map St [0..<3]\<rparr>"
proof -
  have "\<forall>q. \<exists>b. q < 3 \<longrightarrow> sync_serialize serialize (St q) = Inr b \<and> length b = SERIAL_SIZE \<and> deserialize b = Inr (St q)"
    using sync_serialize_ok [OF assms(1-3)] by metis
  then obtain ser where ser: "\<And>q. q < 3 \<Longrightarrow> sync_serialize serialize (St q) = Inr (ser q)" "\<And>q. q < 3 \<Longrightarrow> length (ser q) = SERIAL_SIZE"
    "\<And>q. q < 3 \<Longrightarrow> deserialize (ser q) = Inr (St q)" by metis
  have "0 < SERIAL_SIZE" by (simp add: SERIAL_SIZE_def)
  then have "chunks SERIAL_SIZE (concat (map ser [0..<3])) = map ser [0..<3]"
    by (rule chunks_concat) (simp add: ser(2))
  then have "sync_deserialize_all deserialize (concat (map ser [0..<3])) = Inr (map St [0..<3])"
    unfolding sync_deserialize_all_def by (simp only: rmap_map) (rule rmap_Inr, simp add: ser(3))
  then show ?thesis using ser(1) assms(4) [OF ser(1) assms(5)] assms(5) by (simp add: sync_def)
qed

lemma must_rollback_three:
  fixes n :: "nat \<Rightarrow> nat"
  assumes "\<And>p. p < 3 \<Longrightarrow> n p < 2 ^ 63" "\<And>p. p < 3 \<Longrightarrow> ss_db_len (St p) = of_nat (n p)"
  defines "m \<equiv> Min (n ` {..<3})"
  shows "must_rollback_storage \<lparr>sr_my_state = s, sr_all_states = map St [0..<3]\<rparr> = (if \<forall>p < 3. n p = m then None else Some m)"
proof -
  have set: "set (map ss_db_len (map St [0..<3])) = of_nat ` n ` {..<3}"
    using assms(2) by (auto simp: image_image atLeast0LessThan intro!: image_cong)
  have m: "m \<in> n ` {..<3}" "\<And>p. p < 3 \<Longrightarrow> m \<le> n p" unfolding m_def by (auto intro!: Min_in Min_le simp: lessThan_empty_iff)
  have un: "unat (of_nat (n p) :: u64) = n p" if "p < 3" for p
    using assms(1) [OF that] by (simp add: unat_of_nat take_bit_nat_eq_self)
  obtain q where q: "q < 3" "m = n q" using m(1) by auto
  have "Min (of_nat ` n ` {..<3}) = (of_nat m :: u64)"
  proof (rule Min_eqI)
    fix y :: u64 assume "y \<in> of_nat ` n ` {..<3}"
    then obtain p where "p < 3" "y = of_nat (n p)" by auto
    then show "of_nat m \<le> y" using m(2) [of p] un [of p] un [OF q(1)] q(2) by (simp add: word_le_nat_alt)
  qed (use m(1) in auto)
  moreover have "ss_db_len (St p) = of_nat m \<longleftrightarrow> n p = m" if "p < 3" for p
    using assms(2) [OF that] un [OF that] un [OF q(1)] q(2) by metis
  then have "list_all (\<lambda>s. ss_db_len s = of_nat m) (map St [0..<3]) \<longleftrightarrow> (\<forall>p < 3. n p = m)"
    by (auto simp: list_all_iff)
  moreover have "[0..<3] \<noteq> ([] :: nat list)" by simp
  ultimately show ?thesis unfolding must_rollback_storage_def SyncResult.select_convs set Let_def using un [OF q(1)] q(2) by simp
qed

lemma distinct_remdups_adj_sorted: "sorted xs \<Longrightarrow> distinct (remdups_adj xs)"
  by (induction xs rule: remdups_adj.induct) (auto dest: antisym)

lemma skip_ids:
  "sorted (deleted_request_ids r)" "distinct (deleted_request_ids r)"
  "set (deleted_request_ids r) = (\<Union>s \<in> set (sr_all_states r). set (ss_deleted_request_ids s))"
proof -
  show "sorted (deleted_request_ids r)" by (simp add: deleted_request_ids_def sorted_remdups_adj)
  have "distinct (remdups_adj (sort xs))" for xs :: "string list"
    by (rule distinct_remdups_adj_sorted) simp
  then show "distinct (deleted_request_ids r)" by (simp add: deleted_request_ids_def)
qed (simp add: deleted_request_ids_def)

text \<open>
  C7: Agreement at startup. Three parties whose stores hold the serial ids 1 to \<open>n p\<close> exchange their states.
  Every party gets the same set of requests to skip: those that one of the parties deleted from the
  queue recently, sorted and without duplicates. A party whose store is at most \<open>max_rollback\<close> longer than
  the shortest one ends up with exactly its first \<open>Min n\<close> rows; the others refuse to start.
\<close>

theorem startup_sync_agrees:
  fixes n :: "nat \<Rightarrow> nat" and t :: "nat \<Rightarrow> Tables" and config :: "nat \<Rightarrow> ServerConfig"
  defines "m \<equiv> Min (n ` {..<3})"
  assumes "\<And>p. p < 3 \<Longrightarrow> contiguous (n p) (t p) \<and> 0 < n p \<and> n p \<le> cfg_max_db_size (config p) \<and> n p < 2 ^ 63 \<and> cfg_max_batch_size (config p) \<le> 256"
    and "\<And>p. p < 3 \<Longrightarrow> \<forall>i \<in> set (sync_rows (t p)). length i \<le> MAX_REQUEST_ID_LEN"
    and "\<And>p. p < 3 \<Longrightarrow> bincode_ok serialize deserialize (state_of (config p) (t p))"
    and "\<And>ser p. (\<And>q. q < 3 \<Longrightarrow> sync_serialize serialize (state_of (config q) (t q)) = Inr (ser q)) \<Longrightarrow> p < 3 \<Longrightarrow>
      G p (ser p) = Inr (concat (map ser [0..<3]))"
  shows "\<exists>ids. sorted ids \<and> distinct ids \<and>
    set ids = (\<Union>p < 3. set (rev (take (cfg_max_batch_size (config p) * 2) (rev (sync_rows (t p)))))) \<and>
    (\<forall>p < 3. startup_state (config p) (t p) = Inr (n p, state_of (config p) (t p)) \<and>
      (\<exists>r. sync serialize deserialize (G p) (state_of (config p) (t p)) = Inr r \<and> deleted_request_ids r = ids \<and>
        (if m + max_rollback (config p) < n p then sync_store (config p) (n p) r (t p) = Inl (Eyre ''Refusing to rollback so much'')
         else \<exists>t'. sync_store (config p) (n p) r (t p) = Inr t' \<and> contiguous m t' \<and> iris_rows t' = take m (iris_rows (t p)))))"
proof -
  let ?St = "\<lambda>p. state_of (config p) (t p)"
  define ids where "ids = deleted_request_ids \<lparr>sr_my_state = ?St 0, sr_all_states = map ?St [0..<3]\<rparr>"
  have "set ids = (\<Union>p < 3. set (rev (take (cfg_max_batch_size (config p) * 2) (rev (sync_rows (t p))))))"
    by (auto simp: ids_def skip_ids(3) state_of_def)
  moreover have "\<exists>r. sync serialize deserialize (G p) (?St p) = Inr r \<and> deleted_request_ids r = ids \<and>
      (if m + max_rollback (config p) < n p then sync_store (config p) (n p) r (t p) = Inl (Eyre ''Refusing to rollback so much'')
       else \<exists>t'. sync_store (config p) (n p) r (t p) = Inr t' \<and> contiguous m t' \<and> iris_rows t' = take m (iris_rows (t p)))"
    if p: "p < 3" for p
  proof -
    let ?r = "\<lparr>sr_my_state = ?St p, sr_all_states = map ?St [0..<3]\<rparr>"
    have len: "length (ss_deleted_request_ids (?St q)) \<le> MAX_REQUESTS" if "q < 3" for q
      using assms(2) [OF that] by (simp add: state_of_def MAX_REQUESTS_def min_def)
    have short: "\<forall>i \<in> set (ss_deleted_request_ids (?St q)). length i \<le> MAX_REQUEST_ID_LEN" if "q < 3" for q
      using assms(3) [OF that] by (auto simp: state_of_def dest: in_set_takeD)
    have r: "sync serialize deserialize (G p) (?St p) = Inr ?r"
      by (rule sync_three [OF assms(4) len short assms(5) p])
    have "ss_db_len (?St q) = of_nat (n q)" if "q < 3" for q
      using assms(2) [OF that] contiguous_length [of "n q" "t q"] by (simp add: state_of_def count_irises_def)
    then have must: "must_rollback_storage ?r = (if \<forall>q < 3. n q = m then None else Some m)"
      unfolding m_def using assms(2) by (intro must_rollback_three) auto
    have t: "contiguous (n p) (t p)" "n p < 2 ^ 63" using assms(2) [OF p] by simp_all
    have m: "m \<le> n p" unfolding m_def using p by (auto intro!: Min_le)
    have "m < 2 ^ 63" using m t(2) by simp
    note rb = rollback_take [OF t(1) this]
    have "iris_rows (t p) = take m (iris_rows (t p))" if "n p = m" using contiguous_length [OF t(1)] that by simp
    then have "if m + max_rollback (config p) < n p then sync_store (config p) (n p) ?r (t p) = Inl (Eyre ''Refusing to rollback so much'')
       else \<exists>t'. sync_store (config p) (n p) ?r (t p) = Inr t' \<and> contiguous m t' \<and> iris_rows t' = take m (iris_rows (t p))"
      using rb t(1) m p by (auto simp: sync_store_def must min_def)
    moreover have "deleted_request_ids ?r = ids" by (simp add: ids_def deleted_request_ids_def)
    ultimately show ?thesis using r by blast
  qed
  moreover have "startup_state (config p) (t p) = Inr (n p, ?St p)" if "p < 3" for p
    using assms(2) [OF that] by (intro startup_state_ok) auto
  ultimately show ?thesis using skip_ids(1,2) unfolding ids_def by blast
qed

section \<open>Loading\<close>

definition stored_words :: "u8 list \<Rightarrow> u16 list" where
  "stored_words s = map u16_from_le_bytes (chunks_exact 2 s)"

lemma cast_stored: "length s = n * 2 \<Longrightarrow> cast_u8_to_u16 s = Inr (stored_words s) \<and> length (stored_words s) = n"
  by (cases "s = []") (simp_all add: cast_u8_to_u16_def stored_words_def chunks_exact.simps [of 2 "[]"])

text \<open>One of the four databases, after the records of the serial ids \<open>I\<close> are loaded.\<close>

definition slot_ok :: "nat \<Rightarrow> nat \<Rightarrow> nat \<Rightarrow> SlicedProcessedDatabase \<Rightarrow> nat set \<Rightarrow> (nat \<Rightarrow> u16 list) \<Rightarrow> bool" where
  "slot_ok k cap n db I W \<longleftrightarrow> db_ok k cap n db \<and> (\<forall>i \<in> I. record_in n k (code_gr db) (i - 1) (W i))"

lemma slot_load:
  assumes "slot_ok k cap n db I W" "0 < n" "I \<subseteq> {1..n * cap}" "i \<in> {1..n * cap}" "length row = k"
  shows "\<exists>gr. load_single_record (i - 1) (code_gr db) row n k = Inr gr \<and>
    slot_ok k cap n (db\<lparr>code_gr := gr\<rparr>) (insert i I) (W(i := row))"
proof -
  have fits: "(j - 1) div n < cap" if "j \<in> {1..n * cap}" for j
    using that assms(2) by (intro less_mult_imp_div_less) (auto simp: mult.commute)
  obtain gr where gr: "load_single_record (i - 1) (code_gr db) row n k = Inr gr" "db_shape n (cap * k) gr" "record_in n k gr (i - 1) row"
    "\<And>r' row'. r' \<noteq> i - 1 \<Longrightarrow> r' div n < cap \<Longrightarrow> record_in n k (code_gr db) r' row' \<Longrightarrow> record_in n k gr r' row'"
    using load_single_record_ok [OF assms(2) _ assms(5) fits [OF assms(4)]] assms(1) by (auto simp: slot_ok_def db_ok_def)
  have "record_in n k gr (j - 1) (W j)" if "j \<in> I" "j \<noteq> i" for j
  proof (rule gr(4))
    have "j \<in> {1..n * cap}" using that(1) assms(3) by blast
    then show "(j - 1) div n < cap" "j - 1 \<noteq> i - 1" using fits that(2) assms(4) by auto
    show "record_in n k (code_gr db) (j - 1) (W j)" using assms(1) that(1) by (simp add: slot_ok_def)
  qed
  then show ?thesis using gr(1-3) assms(1) by (auto simp: slot_ok_def db_ok_def)
qed

lemma slot_preprocess:
  assumes "slot_ok k cap n db {1..N} W" "0 < n" "N \<le> n * cap"
  shows "\<exists>db'. preprocess_db k db (shard_lens N n) = Inr db' \<and> db_rows k cap (shard_lens N n) db' (\<lambda>d i l. W (i * n + d + 1) ! l)"
proof -
  let ?lens = "shard_lens N n" and ?gr = "code_gr db"
  have shape: "db_shape n (cap * k) ?gr" "db_shape n cap (code_sums_gr db)" using assms(1) by (simp_all add: slot_ok_def db_ok_def)
  have len: "length ?lens = n" by (simp add: shard_lens_def)
  have lens: "?lens ! d \<le> cap" if "d < n" for d
  proof (rule ccontr)
    assume "\<not> ?lens ! d \<le> cap"
    then have "cap * n + d < N" using shard_lens_nth [OF that, of cap N] by simp
    then show False using assms(3) by (simp add: mult.commute)
  qed
  obtain s0 where s0: "rmap (\<lambda>(limb, ss, n_rows). copy_at 0 (row_sums k n_rows limb) ss) (zip (limb_0 ?gr) (zip (limb_0 (code_sums_gr db)) ?lens)) = Inr s0"
      "\<And>d i. d < n \<Longrightarrow> i < ?lens ! d \<Longrightarrow> s0 ! d ! i = row_sums k (?lens ! d) (limb_0 ?gr ! d) ! i" "length s0 = n" "\<And>d. d < n \<Longrightarrow> length (s0 ! d) = cap"
    using preprocess_sums [of "limb_0 ?gr" n "limb_0 (code_sums_gr db)" ?lens k] shape lens len by (auto simp: db_shape_def)
  obtain s1 where s1: "rmap (\<lambda>(limb, ss, n_rows). copy_at 0 (row_sums k n_rows limb) ss) (zip (limb_1 ?gr) (zip (limb_1 (code_sums_gr db)) ?lens)) = Inr s1"
      "\<And>d i. d < n \<Longrightarrow> i < ?lens ! d \<Longrightarrow> s1 ! d ! i = row_sums k (?lens ! d) (limb_1 ?gr ! d) ! i" "length s1 = n" "\<And>d. d < n \<Longrightarrow> length (s1 ! d) = cap"
    using preprocess_sums [of "limb_1 ?gr" n "limb_1 (code_sums_gr db)" ?lens k] shape lens len by (auto simp: db_shape_def)
  let ?db = "db\<lparr>code_sums_gr := \<lparr>limb_0 = s0, limb_1 = s1\<rparr>\<rparr>"
  have rows: "limb_0 ?gr ! d ! (i * k + l) = lo8 (W (i * n + d + 1) ! l)" "limb_1 ?gr ! d ! (i * k + l) = hi8 (W (i * n + d + 1) ! l)"
    if "d < n" "i < ?lens ! d" "l < k" for d i l
  proof -
    have "i * n + d + 1 \<in> {1..N}" using shard_lens_nth [OF that(1), of i N] that(2) by simp
    then have "record_in n k ?gr (i * n + d + 1 - 1) (W (i * n + d + 1))" using assms(1) unfolding slot_ok_def by blast
    then show "limb_0 ?gr ! d ! (i * k + l) = lo8 (W (i * n + d + 1) ! l)" "limb_1 ?gr ! d ! (i * k + l) = hi8 (W (i * n + d + 1) ! l)"
      using that by (simp_all add: record_in_def)
  qed
  have fits: "(i + 1) * k \<le> length (limb_0 ?gr ! d)" "(i + 1) * k \<le> length (limb_1 ?gr ! d)" if "d < n" "i < ?lens ! d" for d i
    using shape(1) that lens [OF that(1)] mult_le_mono1 [of "Suc i" cap k] by (simp_all add: db_shape_def)
  have "db_row k ?db d i (\<lambda>l. W (i * n + d + 1) ! l)" if "d < n" "i < ?lens ! d" for d i
    using that rows fits by (simp add: db_row_def s0(2) s1(2) row_sums_nth)
  moreover have "db_ok k cap n ?db" using shape(1) s0(3,4) s1(3,4) by (simp add: db_ok_def db_shape_def)
  ultimately show ?thesis using lens len s0(1) s1(1) by (auto simp: db_rows_def preprocess_db_def)
qed

definition full_record :: "nat \<Rightarrow> StoredIris \<Rightarrow> bool" where
  "full_record i x \<longleftrightarrow> si_id x = of_nat i \<and> length (si_left_code x) = IRIS_CODE_LENGTH * 2 \<and> length (si_left_mask x) = MASK_CODE_LENGTH * 2 \<and>
     length (si_right_code x) = IRIS_CODE_LENGTH * 2 \<and> length (si_right_mask x) = MASK_CODE_LENGTH * 2"

text \<open>The actor after the records \<open>P i\<close> of the serial ids \<open>i\<close> in \<open>I\<close> are loaded.\<close>

definition loaded :: "nat \<Rightarrow> nat \<Rightarrow> nat set \<Rightarrow> (nat \<Rightarrow> StoredIris) \<Rightarrow> ServerActor \<Rightarrow> bool" where
  "loaded cap n I P a \<longleftrightarrow> device_count a = n \<and> length (current_db_sizes a) = n \<and>
     (\<forall>d < n. current_db_sizes a ! d = card {i \<in> I. (i - 1) mod n = d}) \<and>
     slot_ok IRIS_CODE_LENGTH cap n (left_code_db_slices a) I (\<lambda>i. stored_words (si_left_code (P i))) \<and>
     slot_ok MASK_CODE_LENGTH cap n (left_mask_db_slices a) I (\<lambda>i. stored_words (si_left_mask (P i))) \<and>
     slot_ok IRIS_CODE_LENGTH cap n (right_code_db_slices a) I (\<lambda>i. stored_words (si_right_code (P i))) \<and>
     slot_ok MASK_CODE_LENGTH cap n (right_mask_db_slices a) I (\<lambda>i. stored_words (si_right_mask (P i)))"

lemma slot_load_record:
  assumes "slot_ok k cap n db I (\<lambda>i. stored_words (sel (P i)))" "0 < n" "I \<subseteq> {1..n * cap}" "i \<in> {1..n * cap}" "length (sel x) = k * 2"
  shows "cast_u8_to_u16 (sel x) = Inr (stored_words (sel x)) \<and>
    (\<exists>gr. load_single_record (i - 1) (code_gr db) (stored_words (sel x)) n k = Inr gr \<and>
      slot_ok k cap n (db\<lparr>code_gr := gr\<rparr>) (insert i I) (\<lambda>j. stored_words (sel ((P(i := x)) j))))"
proof -
  have "(\<lambda>j. stored_words (sel (P j)))(i := stored_words (sel x)) = (\<lambda>j. stored_words (sel ((P(i := x)) j)))" by auto
  then show ?thesis using slot_load [OF assms(1-4)] cast_stored [OF assms(5)] by metis
qed

lemma sizes_increment:
  assumes "finite I" "i \<notin> I" "\<forall>d < n. sizes ! d = card {j \<in> I. (j - 1) mod n = d}" "length sizes = n" "0 < n"
  shows "\<forall>d < n. sizes[(i - 1) mod n := sizes ! ((i - 1) mod n) + 1] ! d = card {j \<in> insert i I. (j - 1) mod n = d}"
proof (intro allI impI)
  fix d assume d: "d < n"
  have "{j \<in> insert i I. (j - 1) mod n = d} = (if (i - 1) mod n = d then insert i {j \<in> I. (j - 1) mod n = d} else {j \<in> I. (j - 1) mod n = d})"
    by auto
  then show "sizes[(i - 1) mod n := sizes ! ((i - 1) mod n) + 1] ! d = card {j \<in> insert i I. (j - 1) mod n = d}"
    using assms d by (auto simp: nth_list_update)
qed

lemma load_record_ok:
  assumes "loaded cap n I P (ld_actor st)" "ld_missing st = int ` ({1..N} - I)" "I \<subseteq> {1..N}" "N \<le> n * cap" "0 < n" "N < 2 ^ 63"
    and "i \<in> {1..N}" "full_record i x"
  shows "\<exists>a. load_record N x st = Inr (st\<lparr>ld_actor := a, ld_missing := int ` ({1..N} - insert i I)\<rparr>) \<and> loaded cap n (insert i I) (P(i := x)) a"
proof -
  let ?a = "ld_actor st"
  have idx: "si_index x = i" using assms(6-8) by (simp add: si_index_def full_record_def unat_of_nat take_bit_nat_eq_self)
  have bounds: "I \<subseteq> {1..n * cap}" "i \<in> {1..n * cap}" using assms(3,4,7) by auto
  note slot = slot_load_record [OF _ assms(5) bounds]
  obtain lc where lc: "cast_u8_to_u16 (si_left_code x) = Inr (stored_words (si_left_code x))"
      "load_single_record (i - 1) (code_gr (left_code_db_slices ?a)) (stored_words (si_left_code x)) n IRIS_CODE_LENGTH = Inr lc"
      "slot_ok IRIS_CODE_LENGTH cap n ((left_code_db_slices ?a)\<lparr>code_gr := lc\<rparr>) (insert i I) (\<lambda>j. stored_words (si_left_code ((P(i := x)) j)))"
    using slot [of IRIS_CODE_LENGTH "left_code_db_slices ?a" si_left_code P x] assms(1,8) by (auto simp: loaded_def full_record_def)
  obtain lm where lm: "cast_u8_to_u16 (si_left_mask x) = Inr (stored_words (si_left_mask x))"
      "load_single_record (i - 1) (code_gr (left_mask_db_slices ?a)) (stored_words (si_left_mask x)) n MASK_CODE_LENGTH = Inr lm"
      "slot_ok MASK_CODE_LENGTH cap n ((left_mask_db_slices ?a)\<lparr>code_gr := lm\<rparr>) (insert i I) (\<lambda>j. stored_words (si_left_mask ((P(i := x)) j)))"
    using slot [of MASK_CODE_LENGTH "left_mask_db_slices ?a" si_left_mask P x] assms(1,8) by (auto simp: loaded_def full_record_def)
  obtain rc where rc: "cast_u8_to_u16 (si_right_code x) = Inr (stored_words (si_right_code x))"
      "load_single_record (i - 1) (code_gr (right_code_db_slices ?a)) (stored_words (si_right_code x)) n IRIS_CODE_LENGTH = Inr rc"
      "slot_ok IRIS_CODE_LENGTH cap n ((right_code_db_slices ?a)\<lparr>code_gr := rc\<rparr>) (insert i I) (\<lambda>j. stored_words (si_right_code ((P(i := x)) j)))"
    using slot [of IRIS_CODE_LENGTH "right_code_db_slices ?a" si_right_code P x] assms(1,8) by (auto simp: loaded_def full_record_def)
  obtain rm where rm: "cast_u8_to_u16 (si_right_mask x) = Inr (stored_words (si_right_mask x))"
      "load_single_record (i - 1) (code_gr (right_mask_db_slices ?a)) (stored_words (si_right_mask x)) n MASK_CODE_LENGTH = Inr rm"
      "slot_ok MASK_CODE_LENGTH cap n ((right_mask_db_slices ?a)\<lparr>code_gr := rm\<rparr>) (insert i I) (\<lambda>j. stored_words (si_right_mask ((P(i := x)) j)))"
    using slot [of MASK_CODE_LENGTH "right_mask_db_slices ?a" si_right_mask P x] assms(1,8) by (auto simp: loaded_def full_record_def)
  define a1 where "a1 = ?a\<lparr>left_code_db_slices := (left_code_db_slices ?a)\<lparr>code_gr := lc\<rparr>, left_mask_db_slices := (left_mask_db_slices ?a)\<lparr>code_gr := lm\<rparr>,
    right_code_db_slices := (right_code_db_slices ?a)\<lparr>code_gr := rc\<rparr>, right_mask_db_slices := (right_mask_db_slices ?a)\<lparr>code_gr := rm\<rparr>\<rparr>"
  have n: "device_count ?a = n" "length (current_db_sizes ?a) = n" using assms(1) by (simp_all add: loaded_def)
  have load: "actor_load_single_record (i - 1) (stored_words (si_left_code x)) (stored_words (si_left_mask x))
      (stored_words (si_right_code x)) (stored_words (si_right_mask x)) ?a = Inr a1"
    unfolding actor_load_single_record_def a1_def Let_def n(1) lc(2) lm(2) rc(2) rm(2) rbind.simps by (rule refl)
  define a2 where "a2 = (if i \<in> I then a1 else a1\<lparr>current_db_sizes := (current_db_sizes ?a)[(i - 1) mod n := current_db_sizes ?a ! ((i - 1) mod n) + 1]\<rparr>)"
  have "int i \<in> ld_missing st \<longleftrightarrow> i \<notin> I" using assms(2,7) by auto
  moreover have "increment_db_size (i - 1) a1 = Inr a2" if "i \<notin> I"
    using that assms(5) by (simp add: increment_db_size_def a1_def a2_def n vec_index_def)
  moreover have "ld_missing st - {int i} = int ` ({1..N} - insert i I)" using assms(2) by auto
  ultimately have "load_record N x st = Inr (st\<lparr>ld_actor := a2, ld_missing := int ` ({1..N} - insert i I)\<rparr>)"
    using assms(7) load by (simp add: load_record_def idx lc(1) lm(1) rc(1) rm(1) a2_def)
  moreover have "loaded cap n (insert i I) (P(i := x)) a2"
  proof -
    have "finite I" using assms(3) finite_subset by blast
    have sizes: "\<forall>d < n. current_db_sizes ?a ! d = card {j \<in> I. (j - 1) mod n = d}" using assms(1) by (simp add: loaded_def)
    have "\<forall>d < n. current_db_sizes a2 ! d = card {j \<in> insert i I. (j - 1) mod n = d}"
    proof (cases "i \<in> I")
      case True
      then show ?thesis unfolding insert_absorb [OF True] using sizes by (simp add: a2_def a1_def)
    next
      case False
      then show ?thesis using sizes_increment [OF \<open>finite I\<close> False sizes n(2) assms(5)] by (simp add: a2_def a1_def)
    qed
    then show ?thesis using lc(3) lm(3) rc(3) rm(3) n by (simp add: loaded_def a2_def a1_def)
  qed
  ultimately show ?thesis by blast
qed

lemma full_record_inj: "full_record i x \<Longrightarrow> full_record j x \<Longrightarrow> i < 2 ^ 63 \<Longrightarrow> j < 2 ^ 63 \<Longrightarrow> i = j"
  unfolding full_record_def by (metis of_nat_eq_iff sint_of_nat_i64)

lemma loaded_cong: "loaded cap n I P a \<Longrightarrow> (\<And>i. i \<in> I \<Longrightarrow> P i = Q i) \<Longrightarrow> loaded cap n I Q a"
  by (simp add: loaded_def slot_ok_def)

definition chosen :: "(nat \<Rightarrow> StoredIris) \<Rightarrow> (nat \<Rightarrow> StoredIris) \<Rightarrow> nat set \<Rightarrow> nat \<Rightarrow> StoredIris" where
  "chosen D X J i = (if i \<in> J then D i else X i)"

definition load_inv :: "nat \<Rightarrow> nat \<Rightarrow> nat \<Rightarrow> (nat \<Rightarrow> StoredIris) \<Rightarrow> (nat \<Rightarrow> StoredIris) \<Rightarrow> nat set \<Rightarrow> nat set \<Rightarrow> LoadState \<Rightarrow> bool" where
  "load_inv cap n N D X I J st \<longleftrightarrow> loaded cap n I (chosen D X J) (ld_actor st) \<and> ld_missing st = int ` ({1..N} - I) \<and>
     ld_from_db st = int ` J \<and> J \<subseteq> I \<and> I \<subseteq> {1..N}"

lemma load_item_ok:
  assumes inv: "load_inv cap n N D X I J st" and N: "N \<le> n * cap" "0 < n" "N < 2 ^ 63" "i \<in> {1..N}" "full_record i (D i)" "full_record i (X i)"
  shows "\<exists>st'. load_item N (Inr (DB (D i))) st = Inr st' \<and> load_inv cap n N D X (insert i I) (insert i J) st'"
    "\<exists>st'. load_item N (Inr (S3 (X i))) st = Inr st' \<and> load_inv cap n N D X (insert i I) J st'"
proof -
  have st: "loaded cap n I (chosen D X J) (ld_actor st)" "ld_missing st = int ` ({1..N} - I)" "ld_from_db st = int ` J" "J \<subseteq> I" "I \<subseteq> {1..N}"
    using inv by (simp_all add: load_inv_def)
  have sid: "sint (si_id (D i)) = int i" "sint (si_id (X i)) = int i"
    using N(3-6) by (simp_all add: full_record_def sint_of_nat_i64)
  let ?st = "st\<lparr>ld_from_db := insert (int i) (ld_from_db st)\<rparr>"
  have "loaded cap n I (chosen D X J) (ld_actor ?st)" "ld_missing ?st = int ` ({1..N} - I)" using st by simp_all
  from load_record_ok [OF this st(5) N(1-5)]
  obtain a where a: "load_record N (D i) ?st = Inr (?st\<lparr>ld_actor := a, ld_missing := int ` ({1..N} - insert i I)\<rparr>)"
    "loaded cap n (insert i I) ((chosen D X J)(i := D i)) a" by blast
  have "loaded cap n (insert i I) (chosen D X (insert i J)) a" by (rule loaded_cong [OF a(2)]) (auto simp: chosen_def)
  then show "\<exists>st'. load_item N (Inr (DB (D i))) st = Inr st' \<and> load_inv cap n N D X (insert i I) (insert i J) st'"
    using a(1) st(3-5) N(4) by (auto simp: load_item_def sid load_inv_def)
  show "\<exists>st'. load_item N (Inr (S3 (X i))) st = Inr st' \<and> load_inv cap n N D X (insert i I) J st'"
  proof (cases "i \<in> J")
    case True
    then show ?thesis using inv st(3,4) by (auto simp: load_item_def sid insert_absorb subset_iff)
  next
    case False
    from load_record_ok [OF st(1,2,5) N(1-4,6)]
    obtain a where a: "load_record N (X i) st = Inr (st\<lparr>ld_actor := a, ld_missing := int ` ({1..N} - insert i I)\<rparr>)"
      "loaded cap n (insert i I) ((chosen D X J)(i := X i)) a" by blast
    have "loaded cap n (insert i I) (chosen D X J) a" by (rule loaded_cong [OF a(2)]) (use False in \<open>auto simp: chosen_def\<close>)
    then show ?thesis using a(1) st(3-5) N(4) False by (auto simp: load_item_def sid load_inv_def)
  qed
qed

definition db_ids :: "nat \<Rightarrow> (nat \<Rightarrow> StoredIris) \<Rightarrow> IrisSource result list \<Rightarrow> nat set" where
  "db_ids N D items = {i \<in> {1..N}. Inr (DB (D i)) \<in> set items}"

definition s3_ids :: "nat \<Rightarrow> (nat \<Rightarrow> StoredIris) \<Rightarrow> IrisSource result list \<Rightarrow> nat set" where
  "s3_ids N X items = {i \<in> {1..N}. Inr (S3 (X i)) \<in> set items}"

lemma load_items_ok:
  assumes N: "N \<le> n * cap" "0 < n" "N < 2 ^ 63" and rec: "\<forall>i \<in> {1..N}. full_record i (D i) \<and> full_record i (X i)"
  shows "load_inv cap n N D X I J st \<Longrightarrow> \<forall>item \<in> set items. \<exists>i \<in> {1..N}. item = Inr (DB (D i)) \<or> item = Inr (S3 (X i)) \<Longrightarrow>
    \<exists>st'. rfold (load_item N) items st = Inr st' \<and> load_inv cap n N D X (I \<union> db_ids N D items \<union> s3_ids N X items) (J \<union> db_ids N D items) st'"
proof (induction items arbitrary: I J st)
  case Nil
  then show ?case by (simp add: db_ids_def s3_ids_def)
next
  case (Cons item items)
  obtain i where i: "i \<in> {1..N}" "item = Inr (DB (D i)) \<or> item = Inr (S3 (X i))" using Cons.prems(2) by auto
  have eq: "j = i" if "j \<in> {1..N}" "D j = D i \<or> X j = X i" for j
    using that full_record_inj [of j _ i] rec i(1) N(3) by (metis atLeastAtMost_iff le_less_trans)
  note ok = load_item_ok [OF Cons.prems(1) N i(1)]
  from i(2) show ?case
  proof
    assume item: "item = Inr (DB (D i))"
    then obtain st' where st': "load_item N item st = Inr st'" "load_inv cap n N D X (insert i I) (insert i J) st'" using ok(1) rec i(1) by blast
    have "db_ids N D (item # items) = insert i (db_ids N D items)" "s3_ids N X (item # items) = s3_ids N X items"
      using item i(1) eq by (auto simp: db_ids_def s3_ids_def)
    then show ?thesis using Cons.IH [OF st'(2)] Cons.prems(2) st'(1) by simp
  next
    assume item: "item = Inr (S3 (X i))"
    then obtain st' where st': "load_item N item st = Inr st'" "load_inv cap n N D X (insert i I) J st'" using ok(2) rec i(1) by blast
    have "db_ids N D (item # items) = db_ids N D items" "s3_ids N X (item # items) = insert i (s3_ids N X items)"
      using item i(1) eq by (auto simp: db_ids_def s3_ids_def)
    then show ?thesis using Cons.IH [OF st'(2)] Cons.prems(2) st'(1) by simp
  qed
qed

definition stored_rows :: "(nat \<Rightarrow> StoredIris) \<Rightarrow> EntryRows" where
  "stored_rows P = \<lparr>q_left_codes = \<lambda>e l. stored_words (si_left_code (P (e + 1))) ! l, q_left_masks = \<lambda>e l. stored_words (si_left_mask (P (e + 1))) ! l,
     q_right_codes = \<lambda>e l. stored_words (si_right_code (P (e + 1))) ! l, q_right_masks = \<lambda>e l. stored_words (si_right_mask (P (e + 1))) ! l\<rparr>"

definition fresh_db :: "nat \<Rightarrow> nat \<Rightarrow> ServerActor \<Rightarrow> bool" where
  "fresh_db cap n a \<longleftrightarrow> device_count a = n \<and> current_db_sizes a = replicate n 0 \<and>
     db_ok IRIS_CODE_LENGTH cap n (left_code_db_slices a) \<and> db_ok MASK_CODE_LENGTH cap n (left_mask_db_slices a) \<and>
     db_ok IRIS_CODE_LENGTH cap n (right_code_db_slices a) \<and> db_ok MASK_CODE_LENGTH cap n (right_mask_db_slices a)"

lemma card_class:
  assumes "d < n"
  shows "card {i \<in> {1..N}. (i - 1) mod n = d} = shard_lens N n ! d"
proof -
  let ?f = "filter (\<lambda>k. k mod n = d) [0..<N]"
  have "x \<in> {i \<in> {1..N}. (i - 1) mod n = d} \<longleftrightarrow> x \<in> Suc ` set ?f" for x
    by (cases x) auto
  then have "{i \<in> {1..N}. (i - 1) mod n = d} = Suc ` set ?f" by blast
  then have "card {i \<in> {1..N}. (i - 1) mod n = d} = card (set ?f)" by (simp only: card_image inj_on_def) (simp add: card_image)
  also have "\<dots> = length ?f" by (rule distinct_card) simp
  finally show ?thesis by (simp add: filter_class [OF assms])
qed

lemma loaded_preprocess:
  assumes "loaded cap n {1..N} P a" "0 < n" "N \<le> n * cap"
  shows "\<exists>a'. actor_preprocess_db a = Inr a' \<and> current_db_sizes a' = shard_lens N n \<and> actor_rows cap (rows_of n (stored_rows P)) a'"
proof -
  have len: "length (current_db_sizes a) = n" "\<And>d. d < n \<Longrightarrow> current_db_sizes a ! d = card {i \<in> {1..N}. (i - 1) mod n = d}"
    using assms(1) unfolding loaded_def by blast+
  have sizes: "current_db_sizes a = shard_lens N n"
  proof (rule nth_equalityI)
    show "length (current_db_sizes a) = length (shard_lens N n)" by (simp add: len(1) shard_lens_def)
  qed (metis len card_class)
  have slots: "slot_ok IRIS_CODE_LENGTH cap n (left_code_db_slices a) {1..N} (\<lambda>i. stored_words (si_left_code (P i)))"
    "slot_ok MASK_CODE_LENGTH cap n (left_mask_db_slices a) {1..N} (\<lambda>i. stored_words (si_left_mask (P i)))"
    "slot_ok IRIS_CODE_LENGTH cap n (right_code_db_slices a) {1..N} (\<lambda>i. stored_words (si_right_code (P i)))"
    "slot_ok MASK_CODE_LENGTH cap n (right_mask_db_slices a) {1..N} (\<lambda>i. stored_words (si_right_mask (P i)))"
    "device_count a = n" using assms(1) by (simp_all add: loaded_def)
  note pre = slots(1-4) [THEN slot_preprocess, OF assms(2,3)]
  show ?thesis
    using pre slots(5) sizes
    by (auto simp: actor_preprocess_db_def actor_rows_def rows_of_def stored_rows_def shard_lens_def)
qed

lemma load_irises_ok:
  assumes "N \<le> n * cap" "0 < n" "N < 2 ^ 63" "\<forall>i \<in> {1..N}. full_record i (D i) \<and> full_record i (X i)" "fresh_db cap n a"
    and "\<forall>item \<in> set items. \<exists>i \<in> {1..N}. item = Inr (DB (D i)) \<or> item = Inr (S3 (X i))"
    and "\<forall>i \<in> {1..N}. Inr (DB (D i)) \<in> set items \<or> Inr (S3 (X i)) \<in> set items \<and> X i = D i"
  shows "\<exists>a'. load_irises N items a = Inr a' \<and> current_db_sizes a' = shard_lens N n \<and> actor_rows cap (rows_of n (stored_rows D)) a'"
proof -
  let ?st = "\<lparr>ld_actor = a, ld_missing = {1..int N}, ld_from_db = {}\<rparr>"
  have "{1..int N} = int ` {1..N}" by (simp add: image_int_atLeastAtMost)
  then have "load_inv cap n N D X {} {} ?st"
    using assms(5) by (simp add: load_inv_def loaded_def slot_ok_def fresh_db_def)
  from load_items_ok [OF assms(1-4) this assms(6)]
  obtain st' where st': "rfold (load_item N) items ?st = Inr st'"
    "load_inv cap n N D X (db_ids N D items \<union> s3_ids N X items) (db_ids N D items) st'" by auto
  have "db_ids N D items \<union> s3_ids N X items = {1..N}" using assms(7) by (auto simp: db_ids_def s3_ids_def)
  with st'(2) have inv: "loaded cap n {1..N} (chosen D X (db_ids N D items)) (ld_actor st')" "ld_missing st' = {}" by (simp_all add: load_inv_def)
  have "loaded cap n {1..N} D (ld_actor st')"
    by (rule loaded_cong [OF inv(1)]) (use assms(7) in \<open>auto simp: chosen_def db_ids_def\<close>)
  from loaded_preprocess [OF this assms(2,1)] show ?thesis using st'(1) inv(2) by (simp add: load_irises_def)
qed

text \<open>
  The table holds complete rows with the serial ids 1 to \<open>N\<close>, read in \<open>p\<close> partitions and restricted to the rows
  modified since \<open>m\<close>, if the snapshot is used; the snapshot holds at least the rows that were not modified since
  then, and for those what the table holds.
\<close>

lemma load_merged:
  assumes "contiguous N t" "\<forall>i \<in> {1..N}. decode_row (iris_rows t ! (i - 1)) = Inr (D i) \<and> full_record i (D i)"
    and "stream_irises_par m p t = Inr ps" "merged_stream snapshot ps items"
    and "\<forall>y \<in> set snapshot. \<exists>i \<in> {1..N}. y = Inr (X i)" "\<forall>i \<in> {1..N}. full_record i (X i)"
    and "\<forall>i \<in> {1..N}. recent m (snd (iris_rows t ! (i - 1))) \<or> Inr (X i) \<in> set snapshot \<and> X i = D i"
    and "fresh_db cap n a" "0 < n" "N \<le> n * cap" "N + p < 2 ^ 63"
  shows "\<exists>a'. load_irises N items a = Inr a' \<and> current_db_sizes a' = shard_lens N n \<and> actor_rows cap (rows_of n (stored_rows D)) a'"
proof -
  have len: "length (iris_rows t) = N" by (rule contiguous_length [OF assms(1)])
  have "0 < p" using assms(3) by (auto simp: stream_irises_par_def split: if_splits)
  then have ps: "concat ps = map decode_row (filter (\<lambda>row. recent m (snd row)) (iris_rows t))"
    using partitions_cover [OF assms(1) _ assms(11), of m] assms(3) by auto
  have "set_mset (mset items) = set (map (map_sum id S3) snapshot) \<union> set (map (map_sum id DB) (concat ps))"
    using assms(4) unfolding merged_stream_def by simp
  then have items: "set items = map_sum id S3 ` set snapshot \<union> map_sum id DB ` decode_row ` {row \<in> set (iris_rows t). recent m (snd row)}"
    by (simp add: ps image_image)
  have row: "\<exists>i \<in> {1..N}. row = iris_rows t ! (i - 1)" if "row \<in> set (iris_rows t)" for row
  proof -
    from that obtain k where "k < length (iris_rows t)" "iris_rows t ! k = row" unfolding in_set_conv_nth by blast
    then show ?thesis using len by (intro bexI [of _ "k + 1"]) auto
  qed
  show ?thesis
  proof (rule load_irises_ok [OF assms(10,9) _ _ assms(8)])
    show "\<forall>item \<in> set items. \<exists>i \<in> {1..N}. item = Inr (DB (D i)) \<or> item = Inr (S3 (X i))"
    proof
      fix item assume "item \<in> set items"
      then consider y where "y \<in> set snapshot" "item = map_sum id S3 y" | r where "r \<in> set (iris_rows t)" "item = map_sum id DB (decode_row r)"
        unfolding items by auto
      then show "\<exists>i \<in> {1..N}. item = Inr (DB (D i)) \<or> item = Inr (S3 (X i))"
      proof cases
        case 1
        then show ?thesis using assms(5) by fastforce
      next
        case 2
        then show ?thesis using row [OF 2(1)] assms(2) by fastforce
      qed
    qed
    show "\<forall>i \<in> {1..N}. Inr (DB (D i)) \<in> set items \<or> Inr (S3 (X i)) \<in> set items \<and> X i = D i"
    proof
      fix i assume i: "i \<in> {1..N}"
      then have r: "iris_rows t ! (i - 1) \<in> set (iris_rows t)" "decode_row (iris_rows t ! (i - 1)) = Inr (D i)" using len assms(2) by auto
      from assms(7) i show "Inr (DB (D i)) \<in> set items \<or> Inr (S3 (X i)) \<in> set items \<and> X i = D i"
      proof (elim ballE disjE conjE)
        assume "recent m (snd (iris_rows t ! (i - 1)))"
        with r have "map_sum id DB (Inr (D i)) \<in> set items" unfolding items by (metis (mono_tags, lifting) UnI2 imageI mem_Collect_eq)
        then show ?thesis by simp
      next
        assume "Inr (X i) \<in> set snapshot" "X i = D i"
        then have "map_sum id S3 (Inr (X i)) \<in> set items" unfolding items by blast
        then show ?thesis using \<open>X i = D i\<close> by simp
      qed auto
    qed
  qed (use assms(2,6,11) in auto)
qed

section \<open>A start with a rollback\<close>

lemma load_record_missing: "load_record N x st = Inr st' \<Longrightarrow> ld_missing st' = ld_missing st - {int (si_index x)}"
  by (auto simp: load_record_def rbind_eq_Inr split: if_splits)

lemma load_item_missing:
  assumes "load_item N item st = Inr st'" "\<forall>x. item = Inr (DB x) \<or> item = Inr (S3 x) \<longrightarrow> int (si_index x) \<noteq> i" "i \<in> ld_missing st"
  shows "i \<in> ld_missing st'"
proof (cases item)
  case (Inr source)
  show ?thesis
  proof (cases source)
    case (S3 x)
    then have "int (si_index x) \<noteq> i" "st' = st \<or> load_record N x st = Inr st'"
      using assms(1,2) Inr by (auto simp: load_item_def split: if_splits)
    then show ?thesis using assms(3) by (auto dest: load_record_missing)
  next
    case (DB x)
    then have "int (si_index x) \<noteq> i" "load_record N x (st\<lparr>ld_from_db := insert (sint (si_id x)) (ld_from_db st)\<rparr>) = Inr st'"
      using assms(1,2) Inr by (auto simp: load_item_def)
    then show ?thesis using assms(3) by (auto dest: load_record_missing)
  qed
qed (use assms in \<open>simp add: load_item_def\<close>)

lemma load_items_missing:
  "rfold (load_item N) items st = Inr st' \<Longrightarrow> \<forall>x. Inr (DB x) \<in> set items \<or> Inr (S3 x) \<in> set items \<longrightarrow> int (si_index x) \<noteq> i \<Longrightarrow>
    i \<in> ld_missing st \<Longrightarrow> i \<in> ld_missing st'"
proof (induction items arbitrary: st)
  case (Cons item items)
  from Cons.prems(1) obtain st1 where st1: "load_item N item st = Inr st1" "rfold (load_item N) items st1 = Inr st'" by (auto simp: rbind_eq_Inr)
  have "i \<in> ld_missing st1" using load_item_missing [OF st1(1) _ Cons.prems(3)] Cons.prems(2) by (metis list.set_intros(1))
  then show ?case using Cons.IH [OF st1(2)] Cons.prems(2) by simp
qed simp

text \<open>
  A snapshot that can be used to load the table \<open>t\<close> with the records \<open>D\<close>: the last one that is found has complete
  records 1 to \<open>L\<close> in files of an admissible size, and every row of the table was modified since its time, less the overlap, or is in the
  snapshot as it is in the table.
\<close>

definition usable_snapshot ::
    "(string \<Rightarrow> string list result) \<Rightarrow> (string \<Rightarrow> nat \<times> nat \<Rightarrow> u8 list result) \<Rightarrow> ServerConfig \<Rightarrow> (nat \<Rightarrow> StoredIris) \<Rightarrow> nat \<Rightarrow> Tables \<Rightarrow> bool" where
  "usable_snapshot list_objects get_object config D N t \<longleftrightarrow> (\<exists>d c L X.
     last_snapshot_timestamp list_objects (cfg_db_chunks_folder_name config) = Inr d \<and>
     ls_chunk_size d = int c \<and> 1 < c \<and> c < 2 ^ 40 \<and> (c \<le> 200 \<or> 200 dvd c) \<and> ls_last_serial_id d = int L \<and> L \<le> N \<and>
     holds_snapshot get_object (cfg_db_chunks_folder_name config) X c L \<and> (\<forall>i \<in> {1..L}. full_record i (X i)) \<and>
     (\<forall>i \<in> {1..N}. recent (Some (min_last_modified_at config d)) (snd (iris_rows t ! (i - 1))) \<or> i \<le> L \<and> X i = D i))"

lemma full_record_wf: "full_record i x \<Longrightarrow> i < 2 ^ 32 \<Longrightarrow> wf_stored x"
  by (simp add: full_record_def wf_stored_def unat_of_nat take_bit_nat_eq_self)

lemma load_streams_db:
  assumes "\<not> cfg_enable_s3_importer config" "contiguous N t" "0 < cfg_load_parallelism config" "N + cfg_load_parallelism config < 2 ^ 63"
  shows "\<exists>ps. load_streams list_objects get_object order config t = Inr ([], ps) \<and> stream_irises_par None (cfg_load_parallelism config) t = Inr ps"
  using partitions_cover [OF assms(2-4), of None] assms(1) by (auto simp: load_streams_def)

lemma load_streams_snapshot:
  assumes "cfg_enable_s3_importer config" "usable_snapshot list_objects get_object config D N t" "\<And>xs. mset (order xs) = mset xs"
    and "contiguous N t" "N < 2 ^ 32" "0 < cfg_load_parallelism config" "N + cfg_load_parallelism config < 2 ^ 63"
  shows "\<exists>snapshot ps m X. load_streams list_objects get_object order config t = Inr (snapshot, ps) \<and>
    stream_irises_par (Some m) (cfg_load_parallelism config) t = Inr ps \<and> (\<forall>y \<in> set snapshot. \<exists>i \<in> {1..N}. y = Inr (X i) \<and> full_record i (X i)) \<and>
    (\<forall>i \<in> {1..N}. recent (Some m) (snd (iris_rows t ! (i - 1))) \<or> Inr (X i) \<in> set snapshot \<and> X i = D i)"
proof -
  let ?f = "cfg_db_chunks_folder_name config" and ?p = "cfg_load_parallelism config"
  obtain d c L X where last: "last_snapshot_timestamp list_objects ?f = Inr d" and c: "ls_chunk_size d = int c" "1 < c" "c < 2 ^ 40" "c \<le> 200 \<or> 200 dvd c"
    and L: "ls_last_serial_id d = int L" "L \<le> N" and obj: "holds_snapshot get_object ?f X c L" and X: "\<forall>i \<in> {1..L}. full_record i (X i)"
    and rec: "\<forall>i \<in> {1..N}. recent (Some (min_last_modified_at config d)) (snd (iris_rows t ! (i - 1))) \<or> i \<le> L \<and> X i = D i"
    using assms(2) unfolding usable_snapshot_def by blast
  have wf: "\<forall>i \<in> {1..L}. wf_stored (X i)" using X L(2) assms(5) full_record_wf by (meson atLeastAtMost_iff le_trans order.strict_trans1)
  obtain starts where starts: "range_starts d = Inr starts"
    and fetched: "\<forall>order. mset order = mset starts \<longrightarrow> mset (fetch_and_parse_chunks get_object ?f d order) = mset (map (\<lambda>i. Inr (X i)) [1..<L + 1])"
    using snapshot_records [OF c L(1) wf obj] by blast
  let ?s = "fetch_and_parse_chunks get_object ?f d (order starts)"
  have "set ?s = set (map (\<lambda>i. Inr (X i)) [1..<L + 1])" using fetched assms(3) mset_eq_setD by blast
  then have set_s: "set ?s = (\<lambda>i. Inr (X i)) ` {1..L}" by (simp add: atLeastLessThanSuc_atLeastAtMost del: upt_Suc)
  obtain ps where ps: "stream_irises_par (Some (min_last_modified_at config d)) ?p t = Inr ps"
    using partitions_cover [OF assms(4,6,7), of "Some (min_last_modified_at config d)"] by blast
  have "load_streams list_objects get_object order config t = Inr (?s, ps)"
    using assms(1) last starts ps by (simp add: load_streams_def)
  moreover have "\<forall>y \<in> set ?s. \<exists>i \<in> {1..N}. y = Inr (X i) \<and> full_record i (X i)" unfolding set_s using X L(2) by fastforce
  moreover have "\<forall>i \<in> {1..N}. recent (Some (min_last_modified_at config d)) (snd (iris_rows t ! (i - 1))) \<or> Inr (X i) \<in> set ?s \<and> X i = D i"
    unfolding set_s using rec by (metis atLeastAtMost_iff imageI)
  ultimately show ?thesis using ps by blast
qed

text \<open>
  C6: A server loads the whole table. The table holds complete rows with the serial ids 1 to \<open>N\<close>. It is
  read in partitions, or, when the import of snapshots is enabled and a usable snapshot exists, the snapshot is
  fetched and only the rows modified since then are read. In whatever order the fetches of the snapshot complete and
  the streams are merged, with overlapping records included, loading ends without an error, and the actor has every row of the table
  at its place on the devices, with the sums of the rows and the sizes of the shards.
\<close>

theorem server_load_complete:
  assumes "contiguous N t" "\<forall>i \<in> {1..N}. decode_row (iris_rows t ! (i - 1)) = Inr (D i) \<and> full_record i (D i)" "N < 2 ^ 32"
    and "cfg_enable_s3_importer config \<Longrightarrow> usable_snapshot list_objects get_object config D N t" "\<And>xs. mset (order xs) = mset xs"
    and "0 < cfg_load_parallelism config" "cfg_load_parallelism config < 2 ^ 62" "cfg_fake_db_size config = 0"
    and "fresh_db cap n a" "0 < n" "N \<le> n * cap"
  shows "\<exists>snapshot ps. load_streams list_objects get_object order config t = Inr (snapshot, ps) \<and>
    (\<forall>items. merged_stream snapshot ps items \<longrightarrow> (\<exists>a'. load_actor config N items a = Inr a' \<and>
      current_db_sizes a' = shard_lens N n \<and> actor_rows cap (rows_of n (stored_rows D)) a'))"
proof -
  let ?p = "cfg_load_parallelism config"
  have p: "N + ?p < 2 ^ 63" using assms(3,7) by simp
  have "\<exists>snapshot ps m X. load_streams list_objects get_object order config t = Inr (snapshot, ps) \<and>
    stream_irises_par m ?p t = Inr ps \<and> (\<forall>y \<in> set snapshot. \<exists>i \<in> {1..N}. y = Inr (X i) \<and> full_record i (X i)) \<and>
    (\<forall>i \<in> {1..N}. recent m (snd (iris_rows t ! (i - 1))) \<or> Inr (X i) \<in> set snapshot \<and> X i = D i)"
  proof (cases "cfg_enable_s3_importer config")
    case True
    from load_streams_snapshot [OF True assms(4) [OF True] assms(5,1,3,6) p] show ?thesis by blast
  next
    case False
    from load_streams_db [OF False assms(1,6) p, of list_objects get_object order] obtain ps
      where "load_streams list_objects get_object order config t = Inr ([], ps)" "stream_irises_par None ?p t = Inr ps" by blast
    then show ?thesis by (intro exI [of _ "[]"] exI [of _ ps] exI [of _ None]) (simp add: recent_def)
  qed
  then obtain snapshot ps m X where ls: "load_streams list_objects get_object order config t = Inr (snapshot, ps)" "stream_irises_par m ?p t = Inr ps"
    and X: "\<forall>y \<in> set snapshot. \<exists>i \<in> {1..N}. y = Inr (X i) \<and> full_record i (X i)"
      "\<forall>i \<in> {1..N}. recent m (snd (iris_rows t ! (i - 1))) \<or> Inr (X i) \<in> set snapshot \<and> X i = D i" by blast
  let ?X = "\<lambda>i. if full_record i (X i) then X i else D i"
  have X': "\<forall>y \<in> set snapshot. \<exists>i \<in> {1..N}. y = Inr (?X i)" "\<forall>i \<in> {1..N}. full_record i (?X i)"
    "\<forall>i \<in> {1..N}. recent m (snd (iris_rows t ! (i - 1))) \<or> Inr (?X i) \<in> set snapshot \<and> ?X i = D i"
    using X assms(2) by fastforce+
  have "\<exists>a'. load_actor config N items a = Inr a' \<and> current_db_sizes a' = shard_lens N n \<and> actor_rows cap (rows_of n (stored_rows D)) a'"
    if items: "merged_stream snapshot ps items" for items
    using load_merged [OF assms(1,2) ls(2) items X' assms(9-11) p] assms(8) by (simp add: load_actor_def)
  then show ?thesis using ls(1) by blast
qed

text \<open>
  A start that rolls its store back does not come up. The length of the store is read before the
  agreement and not again after the rollback; loading then still asks for the removed serial ids.
  Whatever the actor, the partitioning and the order of the records, it ends in an error.
\<close>

theorem rollback_prevents_loading:
  assumes "contiguous n t" "n < 2 ^ 63" "check_store config t = Inr store_len" "must_rollback_storage r = Some m" "m < n"
    and "sync_store config store_len r t = Inr t'" "stream_irises_par last_modified p t' = Inr ps" "merged_stream [] ps items"
  shows "\<exists>e. load_irises store_len items a = Inl e"
proof -
  have n: "store_len = n" using assms(3) contiguous_length [OF assms(1)]
    by (auto simp: check_store_def count_irises_def rbind_eq_Inr Let_def split: if_splits)
  have m: "m < 2 ^ 63" using assms(2,5) by simp
  have t': "t' = rollback m t" using assms(4,6) by (auto simp: sync_store_def split: if_splits)
  have ids: "x \<in> fst ` set (iris_rows t') \<Longrightarrow> 1 \<le> x \<and> x \<le> int m" for x
    using contiguous_ids [OF rollback_take(2) [OF assms(1) m]] assms(5) unfolding t' by auto
  have "si_index x \<le> m" if item: "Inr (DB x) \<in> set items" for x
  proof -
    have "set items = map_sum id DB ` set (concat ps)"
      using arg_cong [OF assms(8) [unfolded merged_stream_def], of set_mset] by simp
    then have "Inr x \<in> set (concat ps)" using item by (auto simp: map_sum_def split: sum.splits)
    then obtain row where row: "row \<in> set (iris_rows t')" "decode_row row = Inr x"
      using assms(7) by (auto simp: stream_irises_par_def Let_def split: if_splits)
    then have "1 \<le> fst row" "fst row \<le> int m" "si_id x = of_int (fst row)"
      using ids [of "fst row"] by (auto simp: decode_row_def split: prod.splits option.splits)
    then have "si_id x = of_nat (nat (fst row))" "nat (fst row) \<le> m" by (simp_all add: of_nat_nat)
    then show ?thesis using m by (simp add: si_index_def unat_of_nat take_bit_nat_eq_self)
  qed
  moreover have "Inr (S3 x) \<notin> set items" for x
    using arg_cong [OF assms(8) [unfolded merged_stream_def], of set_mset] by (auto simp: map_sum_def split: sum.splits)
  ultimately have other: "\<forall>x. Inr (DB x) \<in> set items \<or> Inr (S3 x) \<in> set items \<longrightarrow> int (si_index x) \<noteq> int n"
    using assms(5) by fastforce
  show ?thesis
  proof (cases "rfold (load_item store_len) items \<lparr>ld_actor = a, ld_missing = {1..int store_len}, ld_from_db = {}\<rparr>")
    case (Inr st')
    have "int n \<in> ld_missing st'" by (rule load_items_missing [OF Inr other]) (use n assms(5) in simp)
    then show ?thesis using Inr by (auto simp: load_irises_def)
  qed (simp add: load_irises_def)
qed

section \<open>Heartbeats\<close>

text \<open>
  The probes of a node that keep the server alive: at most \<open>n\<close> unanswered ones at first, then only
  answers of one run of the node; \<open>u\<close> is the identifier of that run, empty before the first answer.
\<close>

definition alive :: "nat \<Rightarrow> Probe list \<Rightarrow> string \<Rightarrow> nat \<Rightarrow> bool" where
  "alive n ps u r \<longleftrightarrow> (\<exists>qs. ps = replicate r Unreachable @ qs \<and> r \<le> n \<and> (\<forall>q \<in> set qs. \<exists>img. q = Answer img u) \<and> (u = [] \<longleftrightarrow> qs = []))"

lemma alive_start: "alive n [] [] 0"
  by (simp add: alive_def)

lemma alive_unreachable: "alive n (ps @ [Unreachable]) u r \<longleftrightarrow> u = [] \<and> 0 < r \<and> r \<le> n \<and> alive n ps [] (r - 1)"
proof
  assume "alive n (ps @ [Unreachable]) u r"
  then obtain qs where qs: "ps @ [Unreachable] = replicate r Unreachable @ qs" "r \<le> n" "\<forall>q \<in> set qs. \<exists>img. q = Answer img u" "u = [] \<longleftrightarrow> qs = []"
    unfolding alive_def by blast
  have "qs = []"
  proof (rule ccontr)
    assume "qs \<noteq> []"
    then have "last qs = Unreachable" using qs(1) by (metis last_appendR last_snoc)
    then show False using qs(3) \<open>qs \<noteq> []\<close> last_in_set by fastforce
  qed
  then have rep: "ps @ [Unreachable] = replicate r Unreachable" "u = []" using qs by simp_all
  then have "0 < r" by (cases r) simp_all
  then have "ps = replicate (r - 1) Unreachable" using rep(1) by (metis Suc_diff_1 append1_eq_conv replicate_Suc replicate_append_same)
  then show "u = [] \<and> 0 < r \<and> r \<le> n \<and> alive n ps [] (r - 1)" using rep(2) \<open>0 < r\<close> qs(2) by (simp add: alive_def)
next
  assume "u = [] \<and> 0 < r \<and> r \<le> n \<and> alive n ps [] (r - 1)"
  then have r: "u = []" "0 < r" "r \<le> n" "ps = replicate (r - 1) Unreachable" by (auto simp: alive_def)
  then have "ps @ [Unreachable] = replicate r Unreachable" by (metis Suc_diff_1 replicate_Suc replicate_append_same)
  then show "alive n (ps @ [Unreachable]) u r" using r by (simp add: alive_def)
qed

lemma alive_answer:
  assumes "v \<noteq> []"
  shows "alive n (ps @ [Answer img v]) u r \<longleftrightarrow> u = v \<and> (alive n ps [] r \<or> alive n ps v r)"
proof
  assume "alive n (ps @ [Answer img v]) u r"
  then obtain qs where qs: "ps @ [Answer img v] = replicate r Unreachable @ qs" "r \<le> n" "\<forall>q \<in> set qs. \<exists>img. q = Answer img u" "u = [] \<longleftrightarrow> qs = []"
    unfolding alive_def by blast
  have "qs \<noteq> []"
  proof
    assume "qs = []"
    then have "Answer img v \<in> set (replicate r Unreachable)" using qs(1) by (metis append_Nil2 in_set_conv_decomp)
    then show False by simp
  qed
  then obtain qs' where qs': "qs = qs' @ [Answer img v]" using qs(1) by (metis append_butlast_last_id last_appendR last_snoc)
  then have "ps = replicate r Unreachable @ qs'" "u = v" "\<forall>q \<in> set qs'. \<exists>img. q = Answer img v" using qs by auto
  then show "u = v \<and> (alive n ps [] r \<or> alive n ps v r)" using qs(2) assms by (cases "qs' = []") (auto simp: alive_def)
next
  assume "u = v \<and> (alive n ps [] r \<or> alive n ps v r)"
  then obtain qs where "ps = replicate r Unreachable @ qs" "r \<le> n" "u = v" "\<forall>q \<in> set qs. \<exists>img. q = Answer img v"
    unfolding alive_def by auto
  then show "alive n (ps @ [Answer img v]) u r" using assms unfolding alive_def by (intro exI [of _ "qs @ [Answer img v]"]) auto
qed

lemma alive_malformed: "\<not> alive n (ps @ [Malformed]) u r"
proof
  assume "alive n (ps @ [Malformed]) u r"
  then obtain qs where qs: "ps @ [Malformed] = replicate r Unreachable @ qs" "\<forall>q \<in> set qs. \<exists>img. q = Answer img u" unfolding alive_def by blast
  then have "Malformed \<in> set (replicate r Unreachable) \<union> set qs" by (metis in_set_conv_decomp set_append)
  then show False using qs(2) by auto
qed

definition named :: "Probe \<Rightarrow> bool" where
  "named p \<longleftrightarrow> (\<forall>img. p \<noteq> Answer img [])"

lemma alive_named: "alive n (ps @ [p]) u r \<Longrightarrow> named p"
proof -
  assume "alive n (ps @ [p]) u r"
  then obtain qs where qs: "ps @ [p] = replicate r Unreachable @ qs" "\<forall>q \<in> set qs. \<exists>img. q = Answer img u" "u = [] \<longleftrightarrow> qs = []"
    unfolding alive_def by blast
  then have "p \<in> set (replicate r Unreachable) \<union> set qs" by (metis in_set_conv_decomp set_append)
  then show "named p" using qs(2,3) by (auto simp: named_def)
qed

lemma alive_unique: "alive n ps u r \<Longrightarrow> alive n ps u' r' \<Longrightarrow> u = u' \<and> r = r'"
proof (induction ps arbitrary: u r u' r' rule: rev_induct)
  case Nil
  then show ?case by (simp add: alive_def)
next
  case (snoc p ps)
  show ?case
  proof (cases p)
    case Unreachable
    then have "r - 1 = r' - 1" "0 < r" "0 < r'" "u = []" "u' = []" using snoc by (auto simp: alive_unreachable)
    then show ?thesis by simp
  next
    case Malformed
    then show ?thesis using snoc.prems by (simp add: alive_malformed)
  next
    case (Answer img v)
    then have "v \<noteq> []" using alive_named [OF snoc.prems(1)] by (auto simp: named_def)
    then show ?thesis using snoc Answer by (auto simp: alive_answer)
  qed
qed

text \<open>The state of the task after the probes \<open>ps\<close> of the next and \<open>qs\<close> of the previous node.\<close>

definition watching :: "nat \<Rightarrow> Probe list \<Rightarrow> Probe list \<Rightarrow> Heartbeat \<Rightarrow> bool" where
  "watching n ps qs hb \<longleftrightarrow> (\<exists>u v r s. alive n ps u r \<and> alive n qs v s \<and>
     hb = \<lparr>hb_last_response = [u, v], hb_connected = [u \<noteq> [], v \<noteq> []], hb_retries = [r, s], hb_pending = (u = [] \<or> v = [])\<rparr>)"

definition goes_on :: "nat \<Rightarrow> string \<Rightarrow> nat \<Rightarrow> Probe \<Rightarrow> bool" where
  "goes_on n u r p \<longleftrightarrow> (case p of Unreachable \<Rightarrow> u = [] \<and> r < n | Malformed \<Rightarrow> False | Answer img v \<Rightarrow> u = [] \<or> v = u)"

definition probed :: "string \<Rightarrow> nat \<Rightarrow> Probe \<Rightarrow> string \<times> nat" where
  "probed u r p = (case p of Unreachable \<Rightarrow> (u, r + 1) | Malformed \<Rightarrow> (u, r) | Answer img v \<Rightarrow> (v, r))"

lemma alive_step:
  assumes "alive n ps u r" "named p"
  shows "alive n (ps @ [p]) u' r' \<longleftrightarrow> goes_on n u r p \<and> (u', r') = probed u r p"
proof (cases p)
  case Unreachable
  have "alive n ps [] (r' - 1) \<longleftrightarrow> u = [] \<and> r = r' - 1" using assms(1) alive_unique by blast
  then show ?thesis by (auto simp: Unreachable alive_unreachable goes_on_def probed_def)
next
  case Malformed
  then show ?thesis by (simp add: alive_malformed goes_on_def)
next
  case (Answer img v)
  then have v: "v \<noteq> []" using assms(2) by (auto simp: named_def)
  have "alive n ps w r' \<longleftrightarrow> u = w \<and> r = r'" for w using assms(1) alive_unique by blast
  then show ?thesis using v by (auto simp: Answer alive_answer goes_on_def probed_def)
qed

lemma named_answer: "named (Answer img v) \<longleftrightarrow> v \<noteq> []"
  by (auto simp: named_def)

lemma heartbeat_round_step:
  assumes "watching n ps qs hb" "named p" "named q"
  shows "heartbeat_round n (p, q) hb = Inr hb' \<longleftrightarrow> watching n (ps @ [p]) (qs @ [q]) hb'"
proof -
  from assms(1) obtain u v r s where a: "alive n ps u r" "alive n qs v s"
    and hb: "hb = \<lparr>hb_last_response = [u, v], hb_connected = [u \<noteq> [], v \<noteq> []], hb_retries = [r, s], hb_pending = (u = [] \<or> v = [])\<rparr>"
    unfolding watching_def by blast
  let ?st = "\<lambda>u v r s. \<lparr>hb_last_response = [u, v], hb_connected = [u \<noteq> [], v \<noteq> []], hb_retries = [r, s], hb_pending = (u = [] \<or> v = [])\<rparr>"
  have fst: "(\<exists>e. heartbeat_probe n (0, p) (?st u v r s) = Inl e) \<and> \<not> goes_on n u r p \<or>
      goes_on n u r p \<and> heartbeat_probe n (0, p) (?st u v r s) = Inr (?st (fst (probed u r p)) v (snd (probed u r p)) s)" for u v r s
    using assms(2) by (cases p) (auto simp: heartbeat_probe_def goes_on_def probed_def named_answer Let_def)
  have snd: "(\<exists>e. heartbeat_probe n (1, q) (?st u v r s) = Inl e) \<and> \<not> goes_on n v s q \<or>
      goes_on n v s q \<and> heartbeat_probe n (1, q) (?st u v r s) = Inr (?st u (fst (probed v s q)) r (snd (probed v s q)))" for u v r s
    using assms(3) by (cases q) (auto simp: heartbeat_probe_def goes_on_def probed_def named_answer Let_def)
  have "heartbeat_round n (p, q) hb = Inr hb' \<longleftrightarrow> goes_on n u r p \<and> goes_on n v s q \<and>
      hb' = ?st (fst (probed u r p)) (fst (probed v s q)) (snd (probed u r p)) (snd (probed v s q))"
    using fst [of u v r s] snd [of "fst (probed u r p)" v "snd (probed u r p)" s] unfolding heartbeat_round_def hb by auto
  also have "\<dots> \<longleftrightarrow> watching n (ps @ [p]) (qs @ [q]) hb'"
    unfolding watching_def alive_step [OF a(1) assms(2)] alive_step [OF a(2) assms(3)] by (auto simp: prod_eq_iff)
  finally show ?thesis .
qed

lemma watching_prefix: "watching n (ps @ [p]) (qs @ [q]) hb' \<Longrightarrow> \<exists>hb. watching n ps qs hb"
proof -
  have "\<exists>u r. alive n ps u r" if "alive n (ps @ [p]) u' r'" for ps p u' r'
  proof (cases "p")
    case Unreachable
    then show ?thesis using that by (auto simp: alive_unreachable)
  next
    case Malformed
    then show ?thesis using that by (simp add: alive_malformed)
  next
    case (Answer img v)
    then have "v \<noteq> []" using alive_named [OF that] by (auto simp: named_def)
    then show ?thesis using that Answer by (auto simp: alive_answer)
  qed
  moreover assume "watching n (ps @ [p]) (qs @ [q]) hb'"
  ultimately obtain u r v s where "alive n ps u r" "alive n qs v s" unfolding watching_def by metis
  then show ?thesis unfolding watching_def by blast
qed

text \<open>
  The heartbeat task decides exactly on the probes. It goes on as long as the probes of both other nodes have a first part of
  at most \<open>n\<close> unanswered ones and then only answers of one run of the node; everything else, a failure
  after the first answer, too many retries, a restart, or an answer that does not deserialise, kills the server. The start
  may go on once both nodes have answered.
\<close>

theorem heartbeat_exact:
  assumes "\<forall>(p, q) \<in> set rounds. named p \<and> named q"
  shows "heartbeat n rounds = Inr hb \<longleftrightarrow> watching n (map fst rounds) (map snd rounds) hb"
  using assms
proof (induction rounds arbitrary: hb rule: rev_induct)
  case Nil
  have "alive n [] u r \<longleftrightarrow> u = [] \<and> r = 0" for u r by (auto simp: alive_def)
  then show ?case by (auto simp: heartbeat_def heartbeat_start_def watching_def)
next
  case (snoc pq rounds)
  obtain p q where pq: "pq = (p, q)" by (cases pq)
  have split: "heartbeat n (rounds @ [(p, q)]) = rbind (heartbeat n rounds) (heartbeat_round n (p, q))"
  proof -
    have "rbind x Inr = x" for x :: "Heartbeat result" by (cases x) simp_all
    moreover have "rfold (heartbeat_round n) [] = Inr" by (rule ext) simp
    ultimately have "rfold (heartbeat_round n) [(p, q)] = heartbeat_round n (p, q)" by (intro ext) simp
    then show ?thesis by (simp only: heartbeat_def rfold_append)
  qed
  show ?case
  proof (cases "heartbeat n rounds")
    case (Inl e)
    then have "\<nexists>hb. watching n (map fst rounds) (map snd rounds) hb" using snoc by auto
    then have "\<not> watching n (map fst rounds @ [p]) (map snd rounds @ [q]) hb" using watching_prefix by blast
    then show ?thesis by (simp add: pq split Inl)
  next
    case (Inr hb')
    then have "watching n (map fst rounds) (map snd rounds) hb'" using snoc by auto
    from heartbeat_round_step [OF this, of p q hb] snoc.prems show ?thesis by (simp add: pq split Inr)
  qed
qed

section \<open>Witnesses\<close>

definition demo_full_row :: IrisRow where
  "demo_full_row = \<lparr>row_left_code = Some (replicate (IRIS_CODE_LENGTH * 2) 1), row_left_mask = Some (replicate (MASK_CODE_LENGTH * 2) 2),
     row_right_code = Some (replicate (IRIS_CODE_LENGTH * 2) 3), row_right_mask = Some (replicate (MASK_CODE_LENGTH * 2) 4), row_modified = Some 100\<rparr>"

definition demo_table :: "nat \<Rightarrow> Tables" where
  "demo_table n = \<lparr>iris_rows = map (\<lambda>i. (int i, demo_full_row)) [1..<n + 1], result_rows = [], sync_rows = []\<rparr>"

definition demo_record :: "nat \<Rightarrow> StoredIris" where
  "demo_record i = \<lparr>si_id = of_nat i, si_left_code = replicate (IRIS_CODE_LENGTH * 2) 1, si_left_mask = replicate (MASK_CODE_LENGTH * 2) 2,
     si_right_code = replicate (IRIS_CODE_LENGTH * 2) 3, si_right_mask = replicate (MASK_CODE_LENGTH * 2) 4\<rparr>"

definition demo_config :: ServerConfig where
  "demo_config = \<lparr>cfg_party_id = 0, cfg_max_db_size = 4, cfg_max_batch_size = 2, cfg_init_db_size = 0, cfg_clear_db_before_init = False,
     cfg_fake_db_size = 0, cfg_disable_persistence = False, cfg_enable_s3_importer = True, cfg_db_load_safety_overlap_seconds = 60,
     cfg_db_chunks_folder_name = ''out'', cfg_load_parallelism = 1, cfg_heartbeat_initial_retries = 2\<rparr>"

lemma demo_table_contiguous: "contiguous n (demo_table n)"
  by (simp add: contiguous_def demo_table_def comp_def del: upt_Suc)

lemma demo_sync_rows: "sync_rows (demo_table n) = []" by (simp add: demo_table_def)

lemma demo_record_full: "full_record i (demo_record i)"
  by (simp add: full_record_def demo_record_def)

lemma demo_decode: "decode_row (int i, demo_full_row) = Inr (demo_record i)"
  by (simp add: decode_row_def demo_full_row_def demo_record_def)

definition demo_lens :: "nat \<Rightarrow> nat" where
  "demo_lens p = (if p = 1 then 3 else 2)"

definition demo_serialize :: "SyncState \<Rightarrow> u8 list result" where
  "demo_serialize s = Inr (ucast (ss_db_len s) # replicate 15 0)"

definition demo_deserialize :: "u8 list \<Rightarrow> SyncState result" where
  "demo_deserialize bs = Inr \<lparr>ss_db_len = ucast (bs ! 0), ss_deleted_request_ids = []\<rparr>"

definition demo_gather :: "nat \<Rightarrow> u8 list \<Rightarrow> u8 list result" where
  "demo_gather p b = Inr (concat (map (\<lambda>q. of_nat (demo_lens q) # replicate 15 0 @ replicate (SERIAL_SIZE - 16) 0) [0..<3]))"

lemma demo_state: "state_of demo_config (demo_table (demo_lens p)) = \<lparr>ss_db_len = of_nat (demo_lens p), ss_deleted_request_ids = []\<rparr>"
  by (simp add: state_of_def demo_config_def demo_table_def count_irises_def del: upt_Suc)

lemma demo_small: "ucast (of_nat (demo_lens p) :: u64) = (of_nat (demo_lens p) :: u8)" "ucast (of_nat (demo_lens p) :: u8) = (of_nat (demo_lens p) :: u64)"
  by (simp_all add: demo_lens_def)

lemma demo_bincode: "bincode_ok demo_serialize demo_deserialize (state_of demo_config (demo_table (demo_lens p)))"
  unfolding bincode_ok_def demo_state by (simp add: demo_serialize_def demo_deserialize_def demo_small)

lemma demo_gathers:
  assumes "\<And>q. q < 3 \<Longrightarrow> sync_serialize demo_serialize (state_of demo_config (demo_table (demo_lens q))) = Inr (ser q)"
  shows "demo_gather p (ser p) = Inr (concat (map ser [0..<3]))"
proof -
  have "sync_serialize demo_serialize (state_of demo_config (demo_table (demo_lens q))) = Inr (of_nat (demo_lens q) # replicate 15 0 @ replicate (SERIAL_SIZE - 16) 0)" for q
    unfolding demo_state by (simp add: sync_serialize_def demo_serialize_def demo_small SERIAL_SIZE_def)
  then have "ser q = of_nat (demo_lens q) # replicate 15 0 @ replicate (SERIAL_SIZE - 16) 0" if "q < 3" for q using assms [OF that] by simp
  then have "map ser [0..<3] = map (\<lambda>q. of_nat (demo_lens q) # replicate 15 0 @ replicate (SERIAL_SIZE - 16) 0) [0..<3]"
    by (intro map_cong refl) simp
  then show ?thesis by (simp only: demo_gather_def)
qed

theorem startup_sync_agrees_witness:
  "\<exists>r t'. sync demo_serialize demo_deserialize (demo_gather 1) (state_of demo_config (demo_table 3)) = Inr r \<and> deleted_request_ids r = [] \<and>
    sync_store demo_config 3 r (demo_table 3) = Inr t' \<and> contiguous 2 t'"
proof -
  have m: "Min (demo_lens ` {..<3}) = 2"
  proof -
    have "{..<3 :: nat} = {0, 1, 2}" by auto
    then show ?thesis by (simp add: demo_lens_def)
  qed
  have "\<exists>ids. sorted ids \<and> distinct ids \<and>
      set ids = (\<Union>p < 3. set (rev (take (cfg_max_batch_size demo_config * 2) (rev (sync_rows (demo_table (demo_lens p))))))) \<and>
      (\<forall>p < 3. startup_state demo_config (demo_table (demo_lens p)) = Inr (demo_lens p, state_of demo_config (demo_table (demo_lens p))) \<and>
        (\<exists>r. sync demo_serialize demo_deserialize (demo_gather p) (state_of demo_config (demo_table (demo_lens p))) = Inr r \<and> deleted_request_ids r = ids \<and>
          (if Min (demo_lens ` {..<3}) + max_rollback demo_config < demo_lens p
           then sync_store demo_config (demo_lens p) r (demo_table (demo_lens p)) = Inl (Eyre ''Refusing to rollback so much'')
           else \<exists>t'. sync_store demo_config (demo_lens p) r (demo_table (demo_lens p)) = Inr t' \<and> contiguous (Min (demo_lens ` {..<3})) t' \<and>
             iris_rows t' = take (Min (demo_lens ` {..<3})) (iris_rows (demo_table (demo_lens p))))))"
    by (rule startup_sync_agrees [where config = "\<lambda>_. demo_config" and t = "\<lambda>p. demo_table (demo_lens p)", OF _ _ demo_bincode demo_gathers])
      (simp_all add: demo_table_contiguous demo_config_def demo_sync_rows, simp add: demo_lens_def)
  then obtain r where "sync demo_serialize demo_deserialize (demo_gather 1) (state_of demo_config (demo_table (demo_lens 1))) = Inr r"
      "deleted_request_ids r = []" and r: "if 2 + max_rollback demo_config < demo_lens 1
           then sync_store demo_config (demo_lens 1) r (demo_table (demo_lens 1)) = Inl (Eyre ''Refusing to rollback so much'')
           else \<exists>t'. sync_store demo_config (demo_lens 1) r (demo_table (demo_lens 1)) = Inr t' \<and> contiguous 2 t' \<and>
             iris_rows t' = take 2 (iris_rows (demo_table (demo_lens 1)))"
    unfolding m demo_sync_rows by (auto dest!: spec [of _ "1 :: nat"])
  moreover have "demo_lens 1 = 3" by (simp add: demo_lens_def)
  ultimately show ?thesis by (auto simp: max_rollback_def demo_config_def)
qed

lemma demo_fresh: "fresh_db 2 2 (demo_actor [0, 0])"
proof -
  have "actor_rows 2 (rows_of 2 (constant_rows 0)) (demo_actor [0, 0])" by (rule demo_actor_rows) (auto simp: less_2_cases_iff)
  then show ?thesis by (simp add: fresh_db_def actor_rows_def db_rows_def demo_actor_def numeral_2_eq_2)
qed

lemma demo_stream: "stream_irises_par None 1 (demo_table n) = Inr [map (\<lambda>i. Inr (demo_record i)) [1..<n + 1]]" if "n < 2 ^ 62"
proof -
  have "n + 1 < 2 ^ 63" using that by simp
  from partitions_cover [OF demo_table_contiguous _ this, of None]
  obtain ps where ps: "stream_irises_par None 1 (demo_table n) = Inr ps" "length ps = 1" "concat ps = map decode_row (iris_rows (demo_table n))"
    by (auto simp: recent_def)
  from ps(2) obtain x where "ps = [x]" by (cases ps) auto
  with ps show ?thesis by (simp add: demo_table_def demo_decode del: upt_Suc)
qed

definition demo_objects :: "string \<Rightarrow> string list result" where
  "demo_objects prefix = Inr [''out/timestamps/120_10_1'', ''out/timestamps/90_10_1'']"

definition demo_object :: "string \<Rightarrow> nat \<times> nat \<Rightarrow> u8 list result" where
  "demo_object key = (\<lambda>(lo, hi). Inr (take (hi - lo) (drop lo (snapshot_file demo_record 10 1 0))))"

lemma demo_last_snapshot: "last_snapshot_timestamp demo_objects ''out'' = Inr \<lparr>ls_timestamp = 120, ls_last_serial_id = int 1, ls_chunk_size = int 10\<rparr>"
  by (simp add: last_snapshot_timestamp_def demo_objects_def snapshot_from_str_def parse_i64_unwrap_def parse_i64_def char_digit_def Let_def)

lemma demo_rows: "i \<in> {1..n} \<Longrightarrow> iris_rows (demo_table n) ! (i - 1) = (int i, demo_full_row)"
  by (auto simp: demo_table_def nth_append simp del: upt_Suc)

lemma demo_snapshot: "usable_snapshot demo_objects demo_object demo_config demo_record 2 (demo_table 2)"
proof -
  let ?d = "\<lparr>ls_timestamp = 120, ls_last_serial_id = int 1, ls_chunk_size = int 10\<rparr>"
  have "holds_snapshot demo_object ''out'' demo_record 10 1" by (simp add: holds_snapshot_def demo_object_def)
  moreover have "recent (Some (min_last_modified_at demo_config ?d)) (snd (iris_rows (demo_table 2) ! (i - 1)))" if "i \<in> {1..2}" for i
    unfolding demo_rows [OF that] by (simp add: recent_def min_last_modified_at_def demo_config_def demo_full_row_def)
  ultimately show ?thesis unfolding usable_snapshot_def
    using demo_last_snapshot demo_record_full
    by (intro exI [of _ ?d] exI [of _ 10] exI [of _ 1] exI [of _ demo_record]) (simp add: demo_config_def)
qed

theorem server_load_complete_witness:
  "\<exists>snapshot ps. load_streams demo_objects demo_object rev demo_config (demo_table 2) = Inr (snapshot, ps) \<and>
    (\<forall>items. merged_stream snapshot ps items \<longrightarrow> (\<exists>a'. load_actor demo_config 2 items (demo_actor [0, 0]) = Inr a' \<and>
      current_db_sizes a' = shard_lens 2 2 \<and> actor_rows 2 (rows_of 2 (stored_rows demo_record)) a'))"
proof (rule server_load_complete [OF demo_table_contiguous _ _ demo_snapshot _ _ _ _ demo_fresh])
  show "\<forall>i \<in> {1..2}. decode_row (iris_rows (demo_table 2) ! (i - 1)) = Inr (demo_record i) \<and> full_record i (demo_record i)"
    using demo_rows demo_decode demo_record_full by simp
qed (simp_all add: demo_config_def)

theorem rollback_prevents_loading_witness:
  "\<exists>e. load_irises 2 [Inr (DB (demo_record 1))] (demo_actor [0, 0]) = Inl e"
proof (rule rollback_prevents_loading [where config = demo_config and t = "demo_table 2" and m = 1 and n = 2 and last_modified = None and p = 1
      and r = "\<lparr>sr_my_state = \<lparr>ss_db_len = 2, ss_deleted_request_ids = []\<rparr>,
        sr_all_states = [\<lparr>ss_db_len = 2, ss_deleted_request_ids = []\<rparr>, \<lparr>ss_db_len = 1, ss_deleted_request_ids = []\<rparr>]\<rparr>"])
  have "rollback 1 (demo_table 2) = demo_table 1" by (simp add: rollback_def demo_table_def upt_rec)
  moreover have "must_rollback_storage \<lparr>sr_my_state = \<lparr>ss_db_len = 2, ss_deleted_request_ids = []\<rparr>,
      sr_all_states = [\<lparr>ss_db_len = 2, ss_deleted_request_ids = []\<rparr>, \<lparr>ss_db_len = 1, ss_deleted_request_ids = []\<rparr>]\<rparr> = Some 1"
    by (simp add: must_rollback_storage_def)
  ultimately show "must_rollback_storage \<lparr>sr_my_state = \<lparr>ss_db_len = 2, ss_deleted_request_ids = []\<rparr>,
      sr_all_states = [\<lparr>ss_db_len = 2, ss_deleted_request_ids = []\<rparr>, \<lparr>ss_db_len = 1, ss_deleted_request_ids = []\<rparr>]\<rparr> = Some 1"
    "sync_store demo_config 2 \<lparr>sr_my_state = \<lparr>ss_db_len = 2, ss_deleted_request_ids = []\<rparr>,
      sr_all_states = [\<lparr>ss_db_len = 2, ss_deleted_request_ids = []\<rparr>, \<lparr>ss_db_len = 1, ss_deleted_request_ids = []\<rparr>]\<rparr> (demo_table 2) = Inr (demo_table 1)"
    by (simp_all add: sync_store_def max_rollback_def demo_config_def)
  show "check_store demo_config (demo_table 2) = Inr 2"
    by (simp add: check_store_def max_serial_id [OF demo_table_contiguous] count_irises_def contiguous_length [OF demo_table_contiguous] demo_config_def)
  show "stream_irises_par None 1 (demo_table 1) = Inr [map (\<lambda>i. Inr (demo_record i)) [1..<1 + 1]]" by (rule demo_stream) simp
  show "merged_stream [] [map (\<lambda>i. Inr (demo_record i)) [1..<1 + 1]] [Inr (DB (demo_record 1))]"
    by (simp add: merged_stream_def upt_rec numeral_2_eq_2)
qed (simp_all add: demo_table_contiguous)

end
