(* ===== verification/Spec2Isabelle.thy ===== *)
theory Spec2Isabelle
  imports Prelude Parties GaloisRing GaloisShamir ShamirFp IrisCode ShamirIris GaloisEngine Shares
    VecShare BitTranspose Network Session Binary BinaryAdder BinaryMsb ShareLifting Ops PlaintextStore Runtime SharedStore
    Reshare ReshareCorrect ChaCha ShareDb ShareDbCorrect MatchSearch MatchSearchCorrect BatchQuery ServerActor ServerActorCorrect ActorBatches
    Circuits CircuitsRun CircuitsTranspose CircuitsInject CircuitsAdder CircuitsCorrect
    IrisStore IrisStoreCorrect ServerStartup ServerStartupCorrect
begin

text \<open>
  \<^bold>\<open>Verification of \<open>iris-mpc\<close>.\<close> Three parties hold secret shares of a database of iris codes and
  decide, without revealing the codes, whether a new iris matches one of them. This development
  models the sharing schemes, the protocols of the CPU parties, the vector stores on top of them, and
  the resharing of a database to a new party, and proves that what the parties compute together is
  what the plaintext program computes.

  \<^bold>\<open>Parts of the program and theories.\<close>
  \<^item> \<open>Prelude\<close>: machine integers, errors as values, slices of the Rust standard library.
  \<^item> \<open>Parties\<close>: \<open>iris-mpc-common/src/id.rs\<close> and \<open>iris-mpc-cpu/src/execution/player.rs\<close>.
  \<^item> \<open>GaloisRing\<close>, \<open>GaloisShamir\<close>: \<open>iris-mpc-common/src/galois.rs\<close>, the ring of degree 4 over the integers
    modulo $2^{16}$ and Shamir sharing over it; inversion, bases, reconstruction of sums and products.
  \<^item> \<open>ShamirFp\<close>, \<open>ShamirIris\<close>: \<open>shamir/mod.rs\<close>, \<open>iris_db/shamir_iris.rs\<close> and \<open>iris_db/shamir_db.rs\<close>.
  \<^item> \<open>IrisCode\<close>: \<open>iris_db/iris.rs\<close> and \<open>iris_db/db.rs\<close>, the plaintext codes and their distance.
  \<^item> \<open>GaloisEngine\<close>: \<open>galois_engine.rs\<close>, shares of a whole iris: encoding, preprocessing of queries,
    rotations, trimmed masks, local dot products.
  \<^item> \<open>Shares\<close>, \<open>VecShare\<close>, \<open>BitTranspose\<close>: \<open>iris-mpc-cpu/src/shares\<close>, the ring trait with its instances,
    replicated shares, vectors of them and the bit transposition.
  \<^item> \<open>Network\<close>, \<open>Session\<close>: \<open>network/mod.rs\<close>, \<open>network/local.rs\<close>, \<open>network/value.rs\<close>, \<open>protocol/prf.rs\<close>,
    \<open>execution/session.rs\<close>. The programs of the parties are trees of send and receive steps; \<open>step\<close>
    interleaves them over FIFO channels. The judgement \<open>achieves\<close> says that all interleavings of a
    protocol end, at every party, in related results; its rules for sequencing, local computation and
    rounds carry all protocol proofs.
  \<^item> \<open>Binary\<close> with \<open>BinaryAdder\<close>, \<open>BinaryMsb\<close>, \<open>ShareLifting\<close>: \<open>protocol/binary.rs\<close>; conjunctions, the
    carry-save adder, extraction of the most significant bit, bit injection by oblivious transfer and
    lifting from 16 to 32 bits.
  \<^item> \<open>Ops\<close>: \<open>protocol/ops.rs\<close> and \<open>database_generators.rs\<close>; threshold comparison, comparison of
    distances, conversion of Galois ring shares, the match protocol.
  \<^item> \<open>PlaintextStore\<close>, \<open>SharedStore\<close>: \<open>hawkers/plaintext_store.rs\<close> and \<open>hawkers/galois_store.rs\<close>, the two
    vector stores behind the graph search; the second refines the first.
  \<^item> \<open>Runtime\<close>: \<open>execution/local.rs\<close>, the set-up of three local sessions.
  \<^item> \<open>Reshare\<close>, \<open>ReshareCorrect\<close>: \<open>iris-mpc-upgrade/src/reshare.rs\<close>, \<open>proto/iris_mpc_reshare.rs\<close> and the
    request loop of \<open>bin/reshare-client.rs\<close>.
  \<^item> \<open>ChaCha\<close>: \<open>iris-mpc-gpu/src/rng\<close>, the ChaCha12 generators of the GPU protocols with their kernel.
  \<^item> \<open>ShareDb\<close>, \<open>ShareDbCorrect\<close>: \<open>iris-mpc-gpu/src/dot/share_db.rs\<close> with its kernel, and the transfer of queries:
    the two-limb matrix product, the masks and the exchange of the products.
  \<^item> \<open>MatchSearch\<close>, \<open>MatchSearchCorrect\<close>: \<open>dot/distance_comparator.rs\<close> with the kernels that open and merge the
    results, and the loop over the chunks of the database; a launch is a fold over any order of its iterations.
  \<^item> \<open>BatchQuery\<close>: \<open>server/mod.rs\<close>, the batches of queries and their filtering.
  \<^item> \<open>ServerActor\<close>, \<open>ServerActorCorrect\<close>, \<open>ActorBatches\<close>: \<open>server/actor.rs\<close> and \<open>helpers/query_processor.rs\<close>, the
    actor that keeps the sharded database of both eyes and processes batches: deletions, agreement on the
    valid entries, search, merged results, insertions. Its state is the record \<open>ServerActor\<close>, with one
    operation per method or section of a method.
  \<^item> \<open>Circuits\<close>, \<open>CircuitsRun\<close>, \<open>CircuitsTranspose\<close>, \<open>CircuitsInject\<close>, \<open>CircuitsAdder\<close>, \<open>CircuitsCorrect\<close>:
    \<open>threshold_ring/protocol.rs\<close> with its kernels, the circuits that lift the dot products and compare them with
    the threshold: the model, a logic for joint runs of the three GPU parties, the transposition into bit
    planes, the injection of bits by oblivious transfer, the two adders, and the comparison as a whole.
  \<^item> \<open>IrisStore\<close>, \<open>IrisStoreCorrect\<close>: \<open>iris-mpc-store/src/lib.rs\<close> and \<open>s3_importer.rs\<close>; the tables of a party with the
    statements as operations on them, and the import of snapshots.
  \<^item> \<open>ServerStartup\<close>, \<open>ServerStartupCorrect\<close>: the start of \<open>iris-mpc/src/bin/server.rs\<close> with \<open>helpers/sync.rs\<close> and
    \<open>server/sync_nccl.rs\<close>; checks, agreement of the parties on their stores, rollback, loading of the actor, heartbeats.

  \<^bold>\<open>What is shown.\<close> Sharing schemes reconstruct what was shared, products included. The local dot products
  of preprocessed shares add up to the plaintext dot product, for every rotation. Every protocol of the
  CPU parties ends in all interleavings and its results open to the specified function of the opened
  inputs, so that matching, comparing and inserting on the shared store agree with the plaintext store.
  Resharing delivers exactly the shares of the new party, in every order of requests, and the server
  never panics on bad requests.
  On the GPU, the corrected products of 8-bit limbs are the dot products of the 16-bit shares, the masks
  of the three parties cancel and the exchanged results are replicated shares of the plaintext dot
  product; half of the masks are never drawn, which is stated as a theorem as well. The bitmaps and match lists
  of the search are exact for every order of the kernel iterations, with one exception at chunk boundaries that is
  stated as a theorem. A batch ends with every query matched or inserted, the reported indices are the positions of
  the entries on the devices, and the database holds the old and the inserted entries. The threshold
  circuits end in every interleaving of the parties without an error, and the shared bits they leave open to the
  comparison of the mask dot product with four times the code dot product; this is the decision \<open>is_close\<close> of the plaintext program,
  except at a distance of exactly 3/8, where the two differ. At the start of a server the parties agree on the
  requests to skip and on the length of their stores, and loading puts every row of the table on the devices, whatever the
  order of the merged streams; after a rollback it fails, which is stated as a theorem.

  \<^bold>\<open>Parameters.\<close> Third-party code is an argument of the definitions that use it: the generators (\<open>AesRng\<close>,
  ChaCha and the generators of \<open>rand\<close>), SHA-256, \<open>bincode\<close>, \<open>base64\<close>, the graph of \<open>hawk_pack\<close>, the
  database transaction of the reshare server, the matrix product of cuBLAS, the threshold circuits where the actor calls them, the key derivation and the messages of the other GPU parties, the object store and the collective operations of NCCL. Hypotheses on them state documented behaviour:
  decoding inverts encoding, equal seeds give equal streams.

  \<^bold>\<open>Choices.\<close> Arithmetic is that of the release profile: it wraps, and \<open>debug_assert!\<close> does nothing.
  Asserts, \<open>unwrap\<close>, \<open>expect\<close> and indexing out of range are the error \<open>Panic\<close>, errors of \<open>eyre\<close> are
  \<open>Eyre\<close>. Loops that need not end are partial functions into \<open>option\<close>; for each of them termination is
  proved where the program relies on it (extended Euclid, rejection sampling, the swap loops). Lengths
  are natural numbers; where a length enters machine arithmetic the width is kept.

  \<^bold>\<open>Not modelled.\<close> The OR-tree over the results of the GPU circuits, NCCL itself, streams and events of the devices. The receipt of batches from the queue and the sender of results in \<open>server.rs\<close>. AWS clients, key management and metrics are input and output
  without logic of their own. Transport over gRPC and the set-up functions that read files are left out.
\<close>

end
